(* ===== verification/Rust_Prelude.thy ===== *)
theory Rust_Prelude
  imports Main "HOL-Library.Multiset" "HOL-Library.AList" "HOL-Library.Sublist"
begin

text \<open>
  Prelude of the development: what the components use of the Rust language and of its
  standard library.

  \<^item> \<open>Result\<close> is the sum type (\<open>Inl\<close> the error), the \<open>?\<close> operator is
    \<open>and_then\<close>, a \<open>for\<close> loop whose body may return early is \<open>try_for_each\<close>, and
    \<open>collect::<Result<Vec<_>, _>>\<close> is \<open>collect_result\<close>.
  \<^item> A Rust \<open>str\<close> is its UTF-8 byte sequence (\<open>char\<close> is a byte), so \<open>len()\<close> is
    \<open>length\<close>; \<open>chars().count()\<close> counts the bytes that do not continue a code point,
    and \<open>trim()\<close> removes the UTF-8 encodings of the Unicode white space.
  \<^item> A \<open>HashMap\<close> is an association list with distinct keys. Its iteration order is
    unspecified: code that iterates over one takes the order as a parameter \<open>it\<close>, of
    which only \<open>iter_order it\<close> (every element once) is known.
  \<^item> \<open>sort_by\<close> takes a comparator into \<open>ordering\<close>; the locale \<open>cmp_order\<close> is the
    contract Rust asks of a comparator, \<open>cmp_linorder\<close> the one of a comparator with no
    ties, under which the sorted list does not depend on the order of the input.
\<close>

named_theorems rust_simps
  \<comment> \<open>unfolds the operations of this prelude\<close>

section \<open>Results\<close>

definition and_then :: "'e + 'a \<Rightarrow> ('a \<Rightarrow> 'e + 'b) \<Rightarrow> 'e + 'b" where
  "and_then r f = (case r of Inl e \<Rightarrow> Inl e | Inr x \<Rightarrow> f x)"

definition map_err :: "('e \<Rightarrow> 'f) \<Rightarrow> 'e + 'a \<Rightarrow> 'f + 'a" where
  "map_err f r = (case r of Inl e \<Rightarrow> Inl (f e) | Inr x \<Rightarrow> Inr x)"

definition ok_or :: "'e \<Rightarrow> 'a option \<Rightarrow> 'e + 'a" where
  "ok_or e x = (case x of None \<Rightarrow> Inl e | Some y \<Rightarrow> Inr y)"

definition unwrap_or :: "'a \<Rightarrow> 'a option \<Rightarrow> 'a" where
  "unwrap_or d x = (case x of None \<Rightarrow> d | Some y \<Rightarrow> y)"

text \<open>\<open>require c e\<close> is \<open>if !c { return Err(e) }\<close>.\<close>

definition require :: "bool \<Rightarrow> 'e \<Rightarrow> 'e + unit" where
  "require c e = (if c then Inr () else Inl e)"

fun try_for_each :: "('a \<Rightarrow> 'e + unit) \<Rightarrow> 'a list \<Rightarrow> 'e + unit" where
  "try_for_each f [] = Inr ()"
| "try_for_each f (x # xs) = and_then (f x) (\<lambda>_. try_for_each f xs)"

fun collect_result :: "('e + 'a) list \<Rightarrow> 'e + 'a list" where
  "collect_result [] = Inr []"
| "collect_result (r # rs) = and_then r (\<lambda>x. and_then (collect_result rs) (\<lambda>xs. Inr (x # xs)))"

definition is_ok :: "'e + 'a \<Rightarrow> bool" where
  "is_ok r = (case r of Inl _ \<Rightarrow> False | Inr _ \<Rightarrow> True)"

lemma and_then_simps [simp]:
  "and_then (Inl e) f = Inl e" "and_then (Inr x) f = f x"
  by (simp_all add: and_then_def)

lemma map_err_simps [simp]:
  "map_err f (Inl e) = Inl (f e)" "map_err f (Inr x) = Inr x"
  by (simp_all add: map_err_def)

lemma ok_or_simps [simp]:
  "ok_or e None = Inl e" "ok_or e (Some x) = Inr x"
  by (simp_all add: ok_or_def)

lemma unwrap_or_simps [simp]:
  "unwrap_or d None = d" "unwrap_or d (Some x) = x"
  by (simp_all add: unwrap_or_def)

lemma is_ok_simps [simp]: "is_ok (Inl e) = False" "is_ok (Inr x) = True"
  by (simp_all add: is_ok_def)

lemma and_then_eq_Inr [simp]: "and_then r f = Inr y \<longleftrightarrow> (\<exists>x. r = Inr x \<and> f x = Inr y)"
  by (cases r) auto

lemma and_then_eq_Inl: "and_then r f = Inl e \<longleftrightarrow> r = Inl e \<or> (\<exists>x. r = Inr x \<and> f x = Inl e)"
  by (cases r) auto

lemma map_err_eq_Inr [simp]: "map_err f r = Inr x \<longleftrightarrow> r = Inr x"
  by (cases r) auto

lemma ok_or_eq_Inr [simp]: "ok_or e x = Inr y \<longleftrightarrow> x = Some y"
  by (cases x) auto

lemma require_eq_Inr [simp]: "require c e = Inr u \<longleftrightarrow> c"
  by (simp add: require_def)

lemma require_simps [simp]: "require True e = Inr ()" "require False e = Inl e"
  by (simp_all add: require_def)

lemma try_for_each_eq_Inr [simp]:
  "try_for_each f xs = Inr u \<longleftrightarrow> (\<forall>x \<in> set xs. f x = Inr ())"
  by (induction xs) auto

lemma try_for_each_eq_Inl:
  "try_for_each f xs = Inl e \<longleftrightarrow>
     (\<exists>ys x zs. xs = ys @ x # zs \<and> (\<forall>y \<in> set ys. f y = Inr ()) \<and> f x = Inl e)"
proof (induction xs)
  case (Cons a xs)
  show ?case
  proof (cases "f a")
    case (Inl d)
    then show ?thesis by (auto simp: Cons_eq_append_conv) (metis append_Nil empty_iff set_empty)+
  next
    case (Inr u)
    then show ?thesis using Cons.IH by (auto simp: Cons_eq_append_conv) (metis Cons_eq_appendI set_ConsD)+
  qed
qed simp

lemma try_for_each_cong [fundef_cong]:
  "xs = ys \<Longrightarrow> (\<And>x. x \<in> set ys \<Longrightarrow> f x = g x) \<Longrightarrow> try_for_each f xs = try_for_each g ys"
  by (induction ys arbitrary: xs) auto

lemma collect_result_eq_Inr:
  "collect_result rs = Inr xs \<longleftrightarrow> rs = map Inr xs"
  by (induction rs arbitrary: xs) auto

section \<open>Strings\<close>

text \<open>A byte continues a UTF-8 code point when its two top bits are \<open>10\<close>.\<close>

definition byte_of :: "char \<Rightarrow> nat" where
  "byte_of c = of_char c"

definition is_continuation :: "char \<Rightarrow> bool" where
  "is_continuation c \<longleftrightarrow> 128 \<le> byte_of c \<and> byte_of c < 192"

definition chars_count :: "string \<Rightarrow> nat" where
  "chars_count s = length (filter (\<lambda>c. \<not> is_continuation c) s)"

text \<open>The UTF-8 encodings of the code points with the property \<open>White_Space\<close>.\<close>

definition white_space :: "string list" where
  "white_space =
     [[CHR 0x09], [CHR 0x0A], [CHR 0x0B], [CHR 0x0C], [CHR 0x0D], [CHR 0x20],
      [CHR 0xC2, CHR 0x85], [CHR 0xC2, CHR 0xA0], [CHR 0xE1, CHR 0x9A, CHR 0x80],
      [CHR 0xE2, CHR 0x80, CHR 0x80], [CHR 0xE2, CHR 0x80, CHR 0x81], [CHR 0xE2, CHR 0x80, CHR 0x82],
      [CHR 0xE2, CHR 0x80, CHR 0x83], [CHR 0xE2, CHR 0x80, CHR 0x84], [CHR 0xE2, CHR 0x80, CHR 0x85],
      [CHR 0xE2, CHR 0x80, CHR 0x86], [CHR 0xE2, CHR 0x80, CHR 0x87], [CHR 0xE2, CHR 0x80, CHR 0x88],
      [CHR 0xE2, CHR 0x80, CHR 0x89], [CHR 0xE2, CHR 0x80, CHR 0x8A], [CHR 0xE2, CHR 0x80, CHR 0xA8],
      [CHR 0xE2, CHR 0x80, CHR 0xA9], [CHR 0xE2, CHR 0x80, CHR 0xAF], [CHR 0xE2, CHR 0x81, CHR 0x9F],
      [CHR 0xE3, CHR 0x80, CHR 0x80]]"

fun strip_start :: "string \<Rightarrow> string" where
  "strip_start s =
     (case find (\<lambda>w. w \<noteq> [] \<and> prefix w s) white_space of
        None \<Rightarrow> s
      | Some w \<Rightarrow> if w = [] \<or> s = [] then s else strip_start (drop (length w) s))"

fun strip_end :: "string \<Rightarrow> string" where
  "strip_end s =
     (case find (\<lambda>w. w \<noteq> [] \<and> suffix w s) white_space of
        None \<Rightarrow> s
      | Some w \<Rightarrow> if w = [] \<or> s = [] then s else strip_end (take (length s - length w) s))"

declare strip_start.simps [simp del] strip_end.simps [simp del]

definition trim :: "string \<Rightarrow> string" where
  "trim s = strip_end (strip_start s)"

definition strip_prefix :: "string \<Rightarrow> string \<Rightarrow> string option" where
  "strip_prefix p s = (if prefix p s then Some (drop (length p) s) else None)"

text \<open>\<open>s.split(c)\<close>: the pieces between the separators, empty ones included.\<close>

fun split_on :: "char \<Rightarrow> string \<Rightarrow> string list" where
  "split_on c [] = [[]]"
| "split_on c (x # xs) =
     (if x = c then [] # split_on c xs
      else (case split_on c xs of [] \<Rightarrow> [[x]] | p # ps \<Rightarrow> (x # p) # ps))"

lemma split_on_ne [simp]: "split_on c s \<noteq> []"
  by (induction s) (auto split: list.splits)

lemma split_on_no_sep: "p \<in> set (split_on c s) \<Longrightarrow> c \<notin> set p"
  by (induction s arbitrary: p) (auto split: list.splits if_splits)


text \<open>
  What \<open>trim\<close> leaves neither starts nor ends with white space, and text that already
  has this form is left alone.
\<close>

definition ws_free :: "string \<Rightarrow> bool" where
  "ws_free s \<longleftrightarrow> (\<forall>w \<in> set white_space. \<not> prefix w s \<and> \<not> suffix w s)"

lemma white_space_ne: "w \<in> set white_space \<Longrightarrow> w \<noteq> []"
  by (auto simp: white_space_def)

lemma strip_start_suffix: "suffix (strip_start s) s"
proof (induction s rule: strip_start.induct)
  case (1 s)
  then show ?case
    by (subst strip_start.simps)
      (auto split: option.splits intro: suffix_drop suffix_order.trans)
qed

lemma strip_end_prefix: "prefix (strip_end s) s"
proof (induction s rule: strip_end.induct)
  case (1 s)
  then show ?case
    by (subst strip_end.simps)
      (auto split: option.splits intro: take_is_prefix prefix_order.trans)
qed

lemma strip_start_no_ws: "w \<in> set white_space \<Longrightarrow> \<not> prefix w (strip_start s)"
proof (induction s rule: strip_start.induct)
  case (1 s)
  show ?case
  proof (cases "find (\<lambda>w. w \<noteq> [] \<and> prefix w s) white_space")
    case None
    with 1(2) have "\<not> prefix w s"
      by (auto simp: find_None_iff white_space_ne)
    with None show ?thesis by (subst strip_start.simps) simp
  next
    case (Some v)
    then have v: "v \<noteq> []" "prefix v s" "s \<noteq> []"
      by (auto simp: find_Some_iff)
    have "\<not> prefix w (strip_start (drop (length v) s))"
      using 1(1) [OF Some] 1(2) v by simp
    with Some v show ?thesis by (subst strip_start.simps) simp
  qed
qed

lemma strip_end_no_ws: "w \<in> set white_space \<Longrightarrow> \<not> suffix w (strip_end s)"
proof (induction s rule: strip_end.induct)
  case (1 s)
  show ?case
  proof (cases "find (\<lambda>w. w \<noteq> [] \<and> suffix w s) white_space")
    case None
    with 1(2) have "\<not> suffix w s"
      by (auto simp: find_None_iff white_space_ne)
    with None show ?thesis by (subst strip_end.simps) simp
  next
    case (Some v)
    then have v: "v \<noteq> []" "suffix v s" "s \<noteq> []"
      by (auto simp: find_Some_iff)
    have "\<not> suffix w (strip_end (take (length s - length v) s))"
      using 1(1) [OF Some] 1(2) v by simp
    with Some v show ?thesis by (subst strip_end.simps) simp
  qed
qed

lemma trim_ws_free: "ws_free (trim s)"
  unfolding ws_free_def trim_def
  using strip_start_no_ws strip_end_no_ws strip_end_prefix prefix_order.trans by blast

lemma strip_start_id: "ws_free s \<Longrightarrow> strip_start s = s"
  by (subst strip_start.simps) (auto simp: ws_free_def find_Some_iff split: option.splits)

lemma strip_end_id: "ws_free s \<Longrightarrow> strip_end s = s"
  by (subst strip_end.simps) (auto simp: ws_free_def find_Some_iff split: option.splits)

lemma trim_id: "ws_free s \<Longrightarrow> trim s = s"
  by (simp add: trim_def strip_start_id strip_end_id)

lemma trim_trim [simp]: "trim (trim s) = trim s"
  by (rule trim_id) (rule trim_ws_free)

text \<open>Evaluation: text that starts and ends with a printable ASCII byte, and blanks around it.\<close>

definition plain :: "char \<Rightarrow> bool" where
  "plain c \<longleftrightarrow> 32 < byte_of c \<and> byte_of c < 128"

lemma white_space_not_plain:
  assumes "w \<in> set white_space"
  shows "w \<noteq> [] \<and> \<not> plain (hd w) \<and> \<not> plain (last w)"
proof -
  have "list_all (\<lambda>w. w \<noteq> [] \<and> \<not> plain (hd w) \<and> \<not> plain (last w)) white_space"
    by (simp add: white_space_def plain_def byte_of_def)
  then show ?thesis using assms by (simp add: list_all_iff)
qed

lemma ws_free_plain: "s = [] \<or> plain (hd s) \<and> plain (last s) \<Longrightarrow> ws_free s"
  unfolding ws_free_def
  by (metis hd_append2 last_appendR prefix_Nil prefix_def suffix_Nil suffix_def white_space_not_plain)

lemma trim_plain: "s = [] \<or> plain (hd s) \<and> plain (last s) \<Longrightarrow> trim s = s"
  by (simp add: trim_id ws_free_plain)

lemma find_white_space_blank:
  "find (\<lambda>w. w \<noteq> [] \<and> prefix w (CHR '' '' # s)) white_space = Some '' ''"
  "find (\<lambda>w. w \<noteq> [] \<and> suffix w (s @ '' '')) white_space = Some '' ''"
  by (simp_all add: white_space_def suffix_to_prefix)

lemma strip_start_blank [simp]: "strip_start (CHR '' '' # s) = strip_start s"
  by (subst strip_start.simps) (simp only: find_white_space_blank, simp)

lemma strip_end_blank [simp]: "strip_end (s @ '' '') = strip_end s"
  by (subst strip_end.simps) (simp only: find_white_space_blank, simp)

lemma trim_blank_left: "trim (CHR '' '' # s) = trim s"
  by (simp add: trim_def)

lemma trim_blank_right: "ws_free s \<Longrightarrow> trim (s @ '' '') = s"
proof -
  assume s: "ws_free s"
  show "trim (s @ '' '') = s"
  proof (cases s)
    case Nil
    then show ?thesis by (simp add: trim_def strip_start_id strip_end_id ws_free_plain)
  next
    case (Cons a t)
    have "find (\<lambda>w. w \<noteq> [] \<and> prefix w (s @ '' '')) white_space = None"
      if "\<not> (\<exists>w \<in> set white_space. prefix w (s @ '' ''))"
      using that by (auto simp: find_None_iff)
    moreover have "\<not> prefix w (s @ '' '')" if w: "w \<in> set white_space" for w
    proof
      assume "prefix w (s @ '' '')"
      then have "prefix w s \<or> w = s @ '' ''" by (simp add: prefix_snoc disj_commute)
      then show False
      proof
        assume "prefix w s"
        then show False using s w by (simp add: ws_free_def)
      next
        assume "w = s @ '' ''"
        with w Cons show False by (auto simp: white_space_def append_eq_Cons_conv)
      qed
    qed
    ultimately have "strip_start (s @ '' '') = s @ '' ''"
      by (subst strip_start.simps) auto
    then show ?thesis using s by (simp add: trim_def strip_end_id)
  qed
qed

lemma trim_sublist: "sublist (trim s) s"
  using strip_start_suffix strip_end_prefix
  by (metis prefix_imp_sublist sublist_order.order_trans suffix_imp_sublist trim_def)

lemma set_trim: "set (trim s) \<subseteq> set s"
  using trim_sublist [of s] by (rule set_mono_sublist)

text \<open>A name between single quotes, as the error messages print it.\<close>

definition quoted :: "string \<Rightarrow> string" where
  "quoted s = [CHR 0x27] @ s @ [CHR 0x27]"

text \<open>Decimal printing of integers.\<close>

fun nat_str :: "nat \<Rightarrow> string" where
  "nat_str n = (if n < 10 then [char_of (48 + n)] else nat_str (n div 10) @ [char_of (48 + n mod 10)])"

declare nat_str.simps [simp del]

definition int_str :: "int \<Rightarrow> string" where
  "int_str i = (if i < 0 then CHR ''-'' # nat_str (nat (- i)) else nat_str (nat i))"

section \<open>Comparators and sorting\<close>

datatype ordering = Less | Equal | Greater

fun ord_reverse :: "ordering \<Rightarrow> ordering" where
  "ord_reverse Less = Greater"
| "ord_reverse Equal = Equal"
| "ord_reverse Greater = Less"

fun then_with :: "ordering \<Rightarrow> ordering \<Rightarrow> ordering" where
  "then_with Equal o2 = o2"
| "then_with o1 o2 = o1"

lemma then_with_Equal [simp]: "then_with a b = Equal \<longleftrightarrow> a = Equal \<and> b = Equal"
  by (cases a) auto

fun insort_by :: "('a \<Rightarrow> 'a \<Rightarrow> ordering) \<Rightarrow> 'a \<Rightarrow> 'a list \<Rightarrow> 'a list" where
  "insort_by cmp x [] = [x]"
| "insort_by cmp x (y # ys) = (if cmp x y = Greater then y # insort_by cmp x ys else x # y # ys)"

definition sort_by :: "('a \<Rightarrow> 'a \<Rightarrow> ordering) \<Rightarrow> 'a list \<Rightarrow> 'a list" where
  "sort_by cmp xs = foldr (insort_by cmp) xs []"

lemma mset_insort_by [simp]: "mset (insort_by cmp x xs) = add_mset x (mset xs)"
  by (induction xs) auto

lemma mset_sort_by [simp]: "mset (sort_by cmp xs) = mset xs"
  by (induction xs) (auto simp: sort_by_def)

lemma set_sort_by [simp]: "set (sort_by cmp xs) = set xs"
  by (metis mset_sort_by set_mset_mset)

lemma length_sort_by [simp]: "length (sort_by cmp xs) = length xs"
  by (metis mset_sort_by size_mset)

lemma distinct_sort_by [simp]: "distinct (sort_by cmp xs) = distinct xs"
  by (metis mset_sort_by mset_eq_imp_distinct_iff)

locale cmp_order =
  fixes cmp :: "'a \<Rightarrow> 'a \<Rightarrow> ordering"
    and D :: "'a set"
  assumes cmp_rev: "x \<in> D \<Longrightarrow> y \<in> D \<Longrightarrow> cmp y x = ord_reverse (cmp x y)"
    and cmp_trans: "x \<in> D \<Longrightarrow> y \<in> D \<Longrightarrow> z \<in> D \<Longrightarrow>
      cmp x y \<noteq> Greater \<Longrightarrow> cmp y z \<noteq> Greater \<Longrightarrow> cmp x z \<noteq> Greater"
begin

lemma not_greater_flip: "x \<in> D \<Longrightarrow> y \<in> D \<Longrightarrow> cmp x y = Greater \<Longrightarrow> cmp y x \<noteq> Greater"
  by (simp add: cmp_rev [of x y])

lemma cmp_trans_Less:
  assumes D: "x \<in> D" "y \<in> D" "z \<in> D"
    and xy: "cmp x y \<noteq> Greater" and yz: "cmp y z \<noteq> Greater"
    and strict: "cmp x y = Less \<or> cmp y z = Less"
  shows "cmp x z = Less"
proof (rule ccontr)
  assume "cmp x z \<noteq> Less"
  with cmp_trans [OF D xy yz] have "cmp x z = Equal" by (cases "cmp x z") auto
  then have zx: "cmp z x \<noteq> Greater" using cmp_rev [OF D(1,3)] by simp
  have "cmp y x \<noteq> Greater" using cmp_trans [OF D(2,3,1) yz zx] .
  moreover have "cmp z y \<noteq> Greater" using cmp_trans [OF D(3,1,2) zx xy] .
  ultimately show False using strict cmp_rev [OF D(1,2)] cmp_rev [OF D(2,3)] by auto
qed

lemma insort_by_sorted:
  assumes "sorted_wrt (\<lambda>a b. cmp a b \<noteq> Greater) xs" "insert x (set xs) \<subseteq> D"
  shows "sorted_wrt (\<lambda>a b. cmp a b \<noteq> Greater) (insort_by cmp x xs)"
  using assms
proof (induction xs)
  case (Cons y ys)
  have set_ins: "set (insort_by cmp x ys) = insert x (set ys)"
    by (metis mset_insort_by set_mset_add_mset_insert set_mset_mset)
  show ?case
  proof (cases "cmp x y = Greater")
    case True
    with Cons.prems have "cmp y x \<noteq> Greater" using not_greater_flip by simp
    with True Cons show ?thesis by (auto simp: set_ins)
  next
    case False
    then have "cmp x z \<noteq> Greater" if "z \<in> set ys" for z
      using that Cons.prems cmp_trans [of x y z] by auto
    with False Cons.prems show ?thesis by auto
  qed
qed simp

lemma sort_by_sorted: "set xs \<subseteq> D \<Longrightarrow> sorted_wrt (\<lambda>a b. cmp a b \<noteq> Greater) (sort_by cmp xs)"
proof (induction xs)
  case (Cons x xs)
  have "set (foldr (insort_by cmp) xs []) = set xs"
    using set_sort_by [of cmp xs] by (simp add: sort_by_def)
  with Cons show ?case by (simp add: sort_by_def insort_by_sorted)
qed (simp add: sort_by_def)

end

locale cmp_linorder = cmp_order +
  assumes cmp_antisym: "x \<in> D \<Longrightarrow> y \<in> D \<Longrightarrow> cmp x y = Equal \<Longrightarrow> x = y"
begin

lemma sorted_unique:
  assumes "sorted_wrt (\<lambda>a b. cmp a b \<noteq> Greater) xs" "sorted_wrt (\<lambda>a b. cmp a b \<noteq> Greater) ys"
    "mset xs = mset ys" "set xs \<subseteq> D"
  shows "xs = ys"
  using assms
proof (induction xs arbitrary: ys)
  case (Cons x xs)
  then obtain y zs where ys: "ys = y # zs" by (cases ys) auto
  have sets: "set (x # xs) = set ys" using Cons.prems(3) by (metis set_mset_mset)
  have "x = y"
  proof (rule ccontr)
    assume "x \<noteq> y"
    with sets ys have "y \<in> set xs" "x \<in> set zs" by auto
    with Cons.prems(1,2) ys have "cmp x y \<noteq> Greater" "cmp y x \<noteq> Greater" by auto
    moreover have "x \<in> D" "y \<in> D" using Cons.prems(4) \<open>y \<in> set xs\<close> by auto
    ultimately have "cmp x y = Equal" using cmp_rev [of x y] by (cases "cmp x y") auto
    with \<open>x \<in> D\<close> \<open>y \<in> D\<close> \<open>x \<noteq> y\<close> cmp_antisym show False by blast
  qed
  with Cons ys show ?case by auto
qed simp

text \<open>The order in which the elements arrive does not matter.\<close>

lemma sort_by_perm:
  assumes "mset xs = mset ys" "set xs \<subseteq> D"
  shows "sort_by cmp xs = sort_by cmp ys"
  using assms sort_by_sorted [of xs] sort_by_sorted [of ys]
  by (intro sorted_unique) (auto dest: mset_eq_setD)

end

context cmp_linorder
begin

text \<open>Truncating the sorted list keeps the least elements, in strictly increasing order.\<close>

lemma sort_by_strict:
  assumes "distinct xs" "set xs \<subseteq> D"
  shows "sorted_wrt (\<lambda>a b. cmp a b = Less) (sort_by cmp xs)"
proof -
  have ne: "cmp a b = Less"
    if "cmp a b \<noteq> Greater" "a \<noteq> b" "a \<in> set xs" "b \<in> set xs" for a b
    using that assms(2) cmp_antisym [of a b] by (cases "cmp a b") auto
  let ?l = "sort_by cmp xs"
  have sorted: "cmp (?l ! i) (?l ! j) \<noteq> Greater" if "i < j" "j < length ?l" for i j
    using sort_by_sorted [OF assms(2)] that by (simp add: sorted_wrt_iff_nth_less)
  have "?l ! i \<noteq> ?l ! j" if "i < j" "j < length ?l" for i j
    using assms(1) that by (simp add: nth_eq_iff_index_eq)
  moreover have "?l ! i \<in> set xs" if "i < length ?l" for i
    using nth_mem [OF that] by simp
  ultimately show ?thesis
    unfolding sorted_wrt_iff_nth_less using sorted ne by (meson order.strict_trans)
qed

lemma take_sort_by_best:
  assumes "distinct xs" "set xs \<subseteq> D" "x \<in> set (take n (sort_by cmp xs))"
    "y \<in> set xs" "y \<notin> set (take n (sort_by cmp xs))"
  shows "cmp x y = Less"
proof -
  have "y \<in> set (drop n (sort_by cmp xs))"
    using assms(4,5) set_sort_by [of cmp xs] by (metis Un_iff append_take_drop_id set_append)
  moreover have "sorted_wrt (\<lambda>a b. cmp a b = Less) (take n (sort_by cmp xs) @ drop n (sort_by cmp xs))"
    using sort_by_strict [OF assms(1,2)] by simp
  ultimately show ?thesis using assms(3) by (simp only: sorted_wrt_append)
qed

end

text \<open>\<open>then_with\<close> of two comparators is a comparator, and so is a comparison by a key.\<close>

lemma cmp_order_then_with:
  assumes "cmp_order c D" "cmp_order d D"
  shows "cmp_order (\<lambda>a b. then_with (c a b) (d a b)) D"
proof
  have flip: "ord_reverse (then_with a b) = then_with (ord_reverse a) (ord_reverse b)" for a b
    by (cases a) auto
  have ng: "then_with a b \<noteq> Greater \<longleftrightarrow> a = Less \<or> a = Equal \<and> b \<noteq> Greater" for a b
    by (cases a) auto
  fix x y assume D: "x \<in> D" "y \<in> D"
  then show "then_with (c y x) (d y x) = ord_reverse (then_with (c x y) (d x y))"
    using assms by (simp add: flip cmp_order.cmp_rev [of c D x y] cmp_order.cmp_rev [of d D x y])
  fix z assume z: "z \<in> D" and xy: "then_with (c x y) (d x y) \<noteq> Greater"
    and yz: "then_with (c y z) (d y z) \<noteq> Greater"
  show "then_with (c x z) (d x z) \<noteq> Greater"
  proof (cases "c x y = Less \<or> c y z = Less")
    case True
    with xy yz D z have "c x z = Less"
      using cmp_order.cmp_trans_Less [OF assms(1), of x y z] by (auto simp: ng)
    then show ?thesis by simp
  next
    case False
    with xy yz have "c x y = Equal" "d x y \<noteq> Greater" "c y z = Equal" "d y z \<noteq> Greater"
      by (auto simp: ng)
    then have "c x z \<noteq> Greater" "d x z \<noteq> Greater"
      using D z cmp_order.cmp_trans [OF assms(1), of x y z] cmp_order.cmp_trans [OF assms(2), of x y z]
      by auto
    then show ?thesis by (cases "c x z") auto
  qed
qed

lemma cmp_order_on_key: "cmp_order c E \<Longrightarrow> f ` D \<subseteq> E \<Longrightarrow> cmp_order (\<lambda>a b. c (f a) (f b)) D"
  by (unfold_locales) (auto simp: image_subset_iff dest: cmp_order.cmp_rev cmp_order.cmp_trans)

lemma cmp_order_flip: "cmp_order c D \<Longrightarrow> cmp_order (\<lambda>a b. c b a) D"
  by (unfold_locales) (auto dest: cmp_order.cmp_rev cmp_order.cmp_trans)

lemma cmp_linorderI:
  "cmp_order c D \<Longrightarrow> (\<And>x y. x \<in> D \<Longrightarrow> y \<in> D \<Longrightarrow> c x y = Equal \<Longrightarrow> x = y) \<Longrightarrow> cmp_linorder c D"
  by (simp add: cmp_linorder_def cmp_linorder_axioms_def)

text \<open>Byte-wise lexicographic comparison of strings, and comparison of integers.\<close>

fun str_cmp :: "string \<Rightarrow> string \<Rightarrow> ordering" where
  "str_cmp [] [] = Equal"
| "str_cmp [] (_ # _) = Less"
| "str_cmp (_ # _) [] = Greater"
| "str_cmp (x # xs) (y # ys) =
     (if byte_of x < byte_of y then Less
      else if byte_of y < byte_of x then Greater
      else str_cmp xs ys)"

definition ord_cmp :: "'a::linorder \<Rightarrow> 'a \<Rightarrow> ordering" where
  "ord_cmp a b = (if a < b then Less else if b < a then Greater else Equal)"

lemma byte_of_inj [simp]: "byte_of a = byte_of b \<longleftrightarrow> a = b"
  by (simp add: byte_of_def)

lemma str_cmp_Equal [simp]: "str_cmp s t = Equal \<longleftrightarrow> s = t"
  by (induction s t rule: str_cmp.induct) (auto dest: less_imp_neq)

lemma str_cmp_rev: "str_cmp t s = ord_reverse (str_cmp s t)"
  by (induction s t rule: str_cmp.induct) auto

lemma str_cmp_trans:
  "str_cmp a b \<noteq> Greater \<Longrightarrow> str_cmp b c \<noteq> Greater \<Longrightarrow> str_cmp a c \<noteq> Greater"
proof (induction a b arbitrary: c rule: str_cmp.induct)
  case (2 y ys)
  then show ?case by (cases c) auto
next
  case (4 x xs y ys)
  show ?case
  proof (cases c)
    case (Cons z zs)
    consider "byte_of x < byte_of y" | "x = y"
      using 4(2) by (auto split: if_splits)
    then show ?thesis
      using 4 Cons by cases (auto split: if_splits)
  qed (use 4 in simp)
next
  case 1
  then show ?case by simp
next
  case 3
  then show ?case by simp
qed

lemma str_cmp_trans_Less:
  "str_cmp a b = Less \<Longrightarrow> str_cmp b c = Less \<Longrightarrow> str_cmp a c = Less"
  using str_cmp_trans [of a b c] str_cmp_rev [of a b] str_cmp_Equal [of a c]
  by (cases "str_cmp a c") auto

interpretation str_order: cmp_linorder str_cmp UNIV
  by unfold_locales (auto simp: str_cmp_trans intro: str_cmp_rev)

lemma ord_cmp_Equal [simp]: "ord_cmp a b = Equal \<longleftrightarrow> a = b"
  by (auto simp: ord_cmp_def)

interpretation num_order: cmp_linorder ord_cmp UNIV
  by unfold_locales (auto simp: ord_cmp_def split: if_splits)

section \<open>Hash maps\<close>

type_synonym ('k, 'v) hash_map = "('k \<times> 'v) list"

definition hm_ok :: "('k, 'v) hash_map \<Rightarrow> bool" where
  "hm_ok m \<longleftrightarrow> distinct (map fst m)"

text \<open>
  \<open>*m.entry(k).or_insert(d)\<close> followed by an in-place update \<open>f\<close> of the value.
\<close>

definition hm_upsert :: "'k \<Rightarrow> 'v \<Rightarrow> ('v \<Rightarrow> 'v) \<Rightarrow> ('k, 'v) hash_map \<Rightarrow> ('k, 'v) hash_map" where
  "hm_upsert k d f m = AList.update k (f (unwrap_or d (map_of m k))) m"

definition iter_order :: "(('k \<times> 'v) list \<Rightarrow> ('k \<times> 'v) list) \<Rightarrow> bool" where
  "iter_order it \<longleftrightarrow> (\<forall>m. mset (it m) = mset m)"

lemma hm_ok_Nil [simp]: "hm_ok []"
  by (simp add: hm_ok_def)

lemma hm_ok_update [simp]: "hm_ok m \<Longrightarrow> hm_ok (AList.update k v m)"
  by (simp add: hm_ok_def distinct_update)

lemma hm_ok_upsert [simp]: "hm_ok m \<Longrightarrow> hm_ok (hm_upsert k d f m)"
  by (simp add: hm_upsert_def)

lemma hm_upsert_get:
  "map_of (hm_upsert k d f m) j = (if j = k then Some (f (unwrap_or d (map_of m k))) else map_of m j)"
  by (simp add: hm_upsert_def update_conv)

lemma length_alist_update: "length (AList.update k v xs) = (if k \<in> fst ` set xs then length xs else Suc (length xs))"
  by (induction xs) auto

lemma set_alist_update: "set (AList.update k v xs) \<subseteq> insert (k, v) (set xs)"
  by (induction xs) auto

lemma map_of_fold_const:
  "map_of (fold (\<lambda>f. AList.update (g f) v) fs m) k = (if k \<in> g ` set fs then Some v else map_of m k)"
  by (induction fs arbitrary: m) (auto simp: update_conv')

lemma iter_orderD: "iter_order it \<Longrightarrow> mset (it m) = mset m"
  by (simp add: iter_order_def)

lemma iter_order_set: "iter_order it \<Longrightarrow> set (it m) = set m"
  by (metis iter_orderD set_mset_mset)

lemma iter_order_id [simp]: "iter_order id" "iter_order (\<lambda>m. m)" "iter_order rev"
  by (simp_all add: iter_order_def)

lemma mset_concat_map_cong: "mset xs = mset ys \<Longrightarrow> mset (concat (map f xs)) = mset (concat (map f ys))"
  by (simp add: mset_concat flip: mset_map) (metis mset_map sum_mset_sum_list)

section \<open>Ordered maps\<close>

text \<open>
  A \<open>BTreeMap<String, _>\<close> (and a \<open>serde_json\<close> object, which is one) is the list of its entries in
  increasing key order.
\<close>

fun bt_insert :: "string \<Rightarrow> 'v \<Rightarrow> (string \<times> 'v) list \<Rightarrow> (string \<times> 'v) list" where
  "bt_insert k v [] = [(k, v)]"
| "bt_insert k v ((j, w) # m) =
     (case str_cmp k j of
        Less \<Rightarrow> (k, v) # (j, w) # m
      | Equal \<Rightarrow> (k, v) # m
      | Greater \<Rightarrow> (j, w) # bt_insert k v m)"

definition bt_collect :: "(string \<times> 'v) list \<Rightarrow> (string \<times> 'v) list" where
  "bt_collect kvs = foldl (\<lambda>m (k, v). bt_insert k v m) [] kvs"

definition bt_ok :: "(string \<times> 'v) list \<Rightarrow> bool" where
  "bt_ok m \<longleftrightarrow> sorted_wrt (\<lambda>a b. str_cmp (fst a) (fst b) = Less) m"

lemma str_cmp_refl [simp]: "str_cmp s s = Equal"
  by simp

lemma bt_ok_Nil [simp]: "bt_ok []"
  by (simp add: bt_ok_def)

lemma bt_ok_distinct: "bt_ok m \<Longrightarrow> distinct (map fst m)"
  by (induction m) (auto simp: bt_ok_def)

lemma fst_set_bt_insert: "fst ` set (bt_insert k v m) = insert k (fst ` set m)"
  by (induction m rule: bt_insert.induct) (auto split: ordering.splits)

lemma bt_ok_insert [simp]: "bt_ok m \<Longrightarrow> bt_ok (bt_insert k v m)"
proof (induction k v m rule: bt_insert.induct)
  case (2 k v j w m)
  have tail: "\<forall>x \<in> fst ` set (bt_insert k v m). str_cmp j x = Less" if "str_cmp k j = Greater"
    using that 2(2) str_cmp_rev [where s = k and t = j] by (auto simp: fst_set_bt_insert bt_ok_def)
  show ?case
    using 2 tail str_cmp_trans_Less [of k j] by (fastforce simp: bt_ok_def split: ordering.splits)
qed (simp add: bt_ok_def)

lemma map_of_bt_insert:
  "bt_ok m \<Longrightarrow> map_of (bt_insert k v m) j = (if j = k then Some v else map_of m j)"
proof (induction k v m rule: bt_insert.induct)
  case (2 k v i w m)
  then show ?case
    by (auto simp: bt_ok_def split: ordering.splits)
qed simp

lemma bt_insert_last: "bt_ok (m @ [(k, v)]) \<Longrightarrow> bt_insert k v m = m @ [(k, v)]"
proof (induction k v m rule: bt_insert.induct)
  case (2 k v j w m)
  then show ?case using str_cmp_rev [of k j] by (cases "str_cmp k j") (auto simp: bt_ok_def)
qed simp

text \<open>Collecting the entries of an ordered map gives the map back.\<close>

lemma bt_collect_id: "bt_ok m \<Longrightarrow> bt_collect m = m"
proof (induction m rule: rev_induct)
  case (snoc x m)
  have "bt_ok m" using snoc.prems by (simp add: bt_ok_def sorted_wrt_append)
  with snoc bt_insert_last [of m "fst x" "snd x"] show ?case
    by (simp add: bt_collect_def case_prod_unfold)
qed (simp add: bt_collect_def)

lemma bt_ok_collect [simp]: "bt_ok (bt_collect kvs)"
  by (induction kvs rule: rev_induct) (auto simp: bt_collect_def)

lemma bt_ok_map_snd: "map fst m' = map fst m \<Longrightarrow> bt_ok m' = bt_ok m"
  unfolding bt_ok_def
  using sorted_wrt_map [of "\<lambda>a b. str_cmp a b = Less" fst m']
    sorted_wrt_map [of "\<lambda>a b. str_cmp a b = Less" fst m] by simp

lemma map_of_bt_collect:
  "distinct (map fst kvs) \<Longrightarrow> map_of (bt_collect kvs) = map_of kvs"
proof (induction kvs rule: rev_induct)
  case (snoc x kvs)
  then have IH: "map_of (bt_collect kvs) = map_of kvs" and fr: "fst x \<notin> set (map fst kvs)"
    and ok: "bt_ok (bt_collect kvs)" by auto
  have "bt_collect (kvs @ [x]) = bt_insert (fst x) (snd x) (bt_collect kvs)"
    by (simp add: bt_collect_def case_prod_unfold)
  then have "map_of (bt_collect (kvs @ [x])) j = map_of (kvs @ [x]) j" for j
    using fr IH ok map_of_eq_None_iff [of kvs j]
    by (cases x) (auto simp: map_of_bt_insert map_add_def split: option.splits)
  then show ?case by blast
qed (simp add: bt_collect_def)

lemma fst_set_bt_collect: "fst ` set (bt_collect kvs) = fst ` set kvs"
  by (induction kvs rule: rev_induct) (auto simp: bt_collect_def case_prod_unfold fst_set_bt_insert)

end
