(* ===== verification/Auth.thy ===== *)
theory Auth
  imports Rust_Prelude
begin

text \<open>
  API-key authentication (\<open>src/src/auth.rs\<close>) and the route table it guards
  (\<open>src/src/main.rs\<close>, the \<open>Router\<close>). The environment is a function from variable names
  to values. The HTTP library is a parameter: \<open>hget\<close> is \<open>HeaderMap::get\<close> and
  \<open>to_str\<close> is \<open>HeaderValue::to_str\<close>. \<open>Next\<close> is \<open>next.run(request)\<close>.
\<close>

section \<open>Roles\<close>

datatype key_role = Search | Read | Admin

fun role_rank :: "key_role \<Rightarrow> nat" where
  "role_rank Search = 1"
| "role_rank Read = 2"
| "role_rank Admin = 3"

instantiation key_role :: linorder
begin

definition less_eq_key_role :: "key_role \<Rightarrow> key_role \<Rightarrow> bool" where
  "less_eq_key_role a b \<longleftrightarrow> role_rank a \<le> role_rank b"

definition less_key_role :: "key_role \<Rightarrow> key_role \<Rightarrow> bool" where
  "less_key_role a b \<longleftrightarrow> role_rank a < role_rank b"

instance
proof
  show "\<And>x y :: key_role. x \<le> y \<Longrightarrow> y \<le> x \<Longrightarrow> x = y"
    by (auto simp: less_eq_key_role_def elim!: role_rank.elims)
qed (auto simp: less_eq_key_role_def less_key_role_def)

end

lemmas role_order = less_eq_key_role_def less_key_role_def

lemma le_Admin [simp]: "(r :: key_role) \<le> Admin"
  by (cases r) (simp_all add: role_order)

lemma Search_le [simp]: "Search \<le> r"
  by (cases r) (simp_all add: role_order)

lemma ex_max_role: "P (r :: key_role) \<Longrightarrow> \<exists>m. P m \<and> (\<forall>r'. P r' \<longrightarrow> r' \<le> m)"
  by (metis (full_types) Search_le key_role.exhaust le_Admin order_refl)

section \<open>Key configuration\<close>

record api_key_auth_config =
  need_auth :: bool
  key_roles :: "(string, key_role) hash_map"

definition env_keys :: "(string \<times> key_role) list" where
  "env_keys =
     [(''AMGIX_SEARCH_KEY'', Search),
      (''AMGIX_ALT_SEARCH_KEY'', Search),
      (''AMGIX_READ_KEY'', Read),
      (''AMGIX_ALT_READ_KEY'', Read),
      (''AMGIX_ALT_API_KEY'', Admin),
      (''AMGIX_API_KEY'', Admin)]"

text \<open>One iteration of the loop over \<open>ENV_KEYS\<close>.\<close>

definition load_key :: "(string \<rightharpoonup> string) \<Rightarrow> string \<times> key_role \<Rightarrow>
    (string, key_role) hash_map \<Rightarrow> (string, key_role) hash_map" where
  "load_key env entry roles =
     (case env (fst entry) of
        None \<Rightarrow> roles
      | Some raw \<Rightarrow>
          (let key = trim raw in
           if key = [] then roles
           else (case map_of roles key of
                   Some existing \<Rightarrow>
                     if snd entry \<le> existing then roles else AList.update key (snd entry) roles
                 | None \<Rightarrow> AList.update key (snd entry) roles)))"

definition load_from_env :: "(string \<rightharpoonup> string) \<Rightarrow> api_key_auth_config" where
  "load_from_env env =
     (let roles = fold (load_key env) env_keys []
      in \<lparr>need_auth = (roles \<noteq> []), key_roles = roles\<rparr>)"

section \<open>The presented key\<close>

definition non_blank :: "string \<Rightarrow> string option" where
  "non_blank raw = (let stripped = trim raw in if stripped = [] then None else Some stripped)"

definition extract_api_key :: "(string \<Rightarrow> 'h option) \<Rightarrow> ('h \<Rightarrow> string option) \<Rightarrow> string option" where
  "extract_api_key hget to_str =
     (case hget ''api-key'' of
        Some value \<Rightarrow> (case to_str value of None \<Rightarrow> None | Some raw \<Rightarrow> non_blank raw)
      | None \<Rightarrow>
          (case hget ''authorization'' of
             None \<Rightarrow> None
           | Some value \<Rightarrow>
               (case to_str value of
                  None \<Rightarrow> None
                | Some raw \<Rightarrow>
                    (case strip_prefix ''Bearer '' raw of
                       Some token \<Rightarrow> non_blank token
                     | None \<Rightarrow> non_blank raw))))"

section \<open>The role a request needs\<close>

definition path_parts :: "string \<Rightarrow> string list" where
  "path_parts path = filter (\<lambda>segment. segment \<noteq> []) (split_on (CHR ''/'') path)"

definition nth_opt :: "'a list \<Rightarrow> nat \<Rightarrow> 'a option" where
  "nth_opt xs i = (if i < length xs then Some (xs ! i) else None)"

definition last_opt :: "'a list \<Rightarrow> 'a option" where
  "last_opt xs = (if xs = [] then None else Some (last xs))"

definition is_search_path :: "string list \<Rightarrow> bool" where
  "is_search_path parts \<longleftrightarrow>
     length parts \<ge> 4 \<and> parts ! 1 = ''collections'' \<and> last_opt parts = Some ''search''"

definition is_admin_route :: "string \<Rightarrow> string list \<Rightarrow> bool" where
  "is_admin_route method parts =
     (if nth_opt parts 1 \<noteq> Some ''collections'' then False
      else if method = ''DELETE'' then
        (if length parts = 3 then True
         else if list_ex (\<lambda>part. part = ''documents'') parts then True
         else last_opt parts = Some ''queue'')
      else if method \<noteq> ''POST'' then False
      else if length parts = 3 then True
      else if last_opt parts = Some ''empty'' \<or> last_opt parts = Some ''bulk'' then True
      else if length parts \<ge> 5 \<and> parts ! (length parts - 2) = ''documents''
              \<and> last_opt parts = Some ''sync'' then True
      else length parts = 4 \<and> last_opt parts = Some ''documents'')"

definition public_get_paths :: "string list" where
  "public_get_paths = [''/v1/version'', ''/v1/health/check'', ''/v1/health/ready'']"

definition required_role :: "string \<Rightarrow> string \<Rightarrow> key_role option" where
  "required_role method path =
     (if \<not> prefix ''/v1'' path then None
      else if method = ''GET'' \<and> List.member public_get_paths path then None
      else
        (let parts = path_parts path in
         if length parts < 2 \<or> parts ! 0 \<noteq> ''v1'' then None
         else if method = ''POST'' \<and> is_search_path parts then Some Search
         else if is_admin_route method parts then Some Admin
         else Some Read))"

section \<open>The middleware\<close>

fun role_label :: "key_role \<Rightarrow> string" where
  "role_label Search = ''search''"
| "role_label Read = ''read''"
| "role_label Admin = ''admin''"

definition role_phrase :: "key_role \<Rightarrow> string" where
  "role_phrase role =
     (let label = role_label role;
          article = (if list_ex (\<lambda>v. prefix [v] label) ''aeiou'' then ''an'' else ''a'')
      in article @ '' '' @ label)"

definition authentication_failed_detail :: "key_role \<Rightarrow> string" where
  "authentication_failed_detail needed =
     ''Authentication failed. This endpoint requires at least '' @ role_phrase needed
     @ '' API key. Pass it via the `api-key` header or `Authorization: Bearer <key>`.''"

datatype auth_outcome =
    Next
  | Unauthorized string

definition api_auth_middleware ::
    "api_key_auth_config \<Rightarrow> string \<Rightarrow> string \<Rightarrow> (string \<Rightarrow> 'h option) \<Rightarrow> ('h \<Rightarrow> string option) \<Rightarrow>
     auth_outcome" where
  "api_auth_middleware auth method path hget to_str =
     (if \<not> need_auth auth then Next
      else (case required_role method path of
              None \<Rightarrow> Next
            | Some needed \<Rightarrow>
                (let presented = extract_api_key hget to_str;
                     have = Option.bind presented (map_of (key_roles auth))
                 in if (case have of None \<Rightarrow> False | Some role \<Rightarrow> needed \<le> role) then Next
                    else Unauthorized (authentication_failed_detail needed))))"

section \<open>The route table\<close>

datatype route =
    Version | System_info | Health_check | Health_ready
  | Metrics_current | Metrics_prometheus | Metrics_trends | Metrics_definitions
  | List_collections
  | Get_collection_config string | Create_collection string | Delete_collection string
  | Collection_exists string | Collection_stats string | Queue_info string
  | Delete_collection_queue string | Empty_collection string
  | Upsert_document string | Upsert_document_sync string | Upsert_documents_bulk string
  | Export_documents string | Delete_document_sync string string
  | Document_status string string | Get_document string string | Delete_document string string
  | Fetch_documents string | Search_collection string

definition coll_path :: "string \<Rightarrow> string \<Rightarrow> string" where
  "coll_path c rest = ''/v1/collections/'' @ c @ rest"

fun route_request :: "route \<Rightarrow> string \<times> string" where
  "route_request Version = (''GET'', ''/v1/version'')"
| "route_request System_info = (''GET'', ''/v1/system/info'')"
| "route_request Health_check = (''GET'', ''/v1/health/check'')"
| "route_request Health_ready = (''GET'', ''/v1/health/ready'')"
| "route_request Metrics_current = (''GET'', ''/v1/metrics/current'')"
| "route_request Metrics_prometheus = (''GET'', ''/v1/metrics/prometheus'')"
| "route_request Metrics_trends = (''GET'', ''/v1/metrics/trends'')"
| "route_request Metrics_definitions = (''GET'', ''/v1/metrics/definitions'')"
| "route_request List_collections = (''GET'', ''/v1/collections'')"
| "route_request (Get_collection_config c) = (''GET'', coll_path c [])"
| "route_request (Create_collection c) = (''POST'', coll_path c [])"
| "route_request (Delete_collection c) = (''DELETE'', coll_path c [])"
| "route_request (Collection_exists c) = (''GET'', coll_path c ''/exists'')"
| "route_request (Collection_stats c) = (''GET'', coll_path c ''/stats'')"
| "route_request (Queue_info c) = (''GET'', coll_path c ''/queue/info'')"
| "route_request (Delete_collection_queue c) = (''DELETE'', coll_path c ''/queue'')"
| "route_request (Empty_collection c) = (''POST'', coll_path c ''/empty'')"
| "route_request (Upsert_document c) = (''POST'', coll_path c ''/documents'')"
| "route_request (Upsert_document_sync c) = (''POST'', coll_path c ''/documents/sync'')"
| "route_request (Upsert_documents_bulk c) = (''POST'', coll_path c ''/documents/bulk'')"
| "route_request (Export_documents c) = (''GET'', coll_path c ''/documents/export'')"
| "route_request (Delete_document_sync c d) = (''DELETE'', coll_path c (''/documents/'' @ d @ ''/sync''))"
| "route_request (Document_status c d) = (''GET'', coll_path c (''/documents/'' @ d @ ''/status''))"
| "route_request (Get_document c d) = (''GET'', coll_path c (''/documents/'' @ d))"
| "route_request (Delete_document c d) = (''DELETE'', coll_path c (''/documents/'' @ d))"
| "route_request (Fetch_documents c) = (''POST'', coll_path c ''/documents/fetch'')"
| "route_request (Search_collection c) = (''POST'', coll_path c ''/search'')"

text \<open>The role the API means each route to have: writes need an admin key.\<close>

fun route_role :: "route \<Rightarrow> key_role option" where
  "route_role Version = None"
| "route_role Health_check = None"
| "route_role Health_ready = None"
| "route_role (Create_collection _) = Some Admin"
| "route_role (Delete_collection _) = Some Admin"
| "route_role (Delete_collection_queue _) = Some Admin"
| "route_role (Empty_collection _) = Some Admin"
| "route_role (Upsert_document _) = Some Admin"
| "route_role (Upsert_document_sync _) = Some Admin"
| "route_role (Upsert_documents_bulk _) = Some Admin"
| "route_role (Delete_document_sync _ _) = Some Admin"
| "route_role (Delete_document _ _) = Some Admin"
| "route_role (Search_collection _) = Some Search"
| "route_role _ = Some Read"

text \<open>A path parameter is a non-empty segment.\<close>

definition segment_ok :: "string \<Rightarrow> bool" where
  "segment_ok s \<longleftrightarrow> s \<noteq> [] \<and> CHR ''/'' \<notin> set s"

fun route_params :: "route \<Rightarrow> string list" where
  "route_params (Get_collection_config c) = [c]"
| "route_params (Create_collection c) = [c]"
| "route_params (Delete_collection c) = [c]"
| "route_params (Collection_exists c) = [c]"
| "route_params (Collection_stats c) = [c]"
| "route_params (Queue_info c) = [c]"
| "route_params (Delete_collection_queue c) = [c]"
| "route_params (Empty_collection c) = [c]"
| "route_params (Upsert_document c) = [c]"
| "route_params (Upsert_document_sync c) = [c]"
| "route_params (Upsert_documents_bulk c) = [c]"
| "route_params (Export_documents c) = [c]"
| "route_params (Delete_document_sync c d) = [c, d]"
| "route_params (Document_status c d) = [c, d]"
| "route_params (Get_document c d) = [c, d]"
| "route_params (Delete_document c d) = [c, d]"
| "route_params (Fetch_documents c) = [c]"
| "route_params (Search_collection c) = [c]"
| "route_params _ = []"


section \<open>Properties\<close>

text \<open>\<open>grants env k r\<close>: some variable of \<open>ENV_KEYS\<close> with role \<open>r\<close> holds the key \<open>k\<close>.\<close>

definition grants :: "(string \<times> key_role) list \<Rightarrow> (string \<rightharpoonup> string) \<Rightarrow> string \<Rightarrow> key_role \<Rightarrow> bool" where
  "grants ks env k r \<longleftrightarrow>
     k \<noteq> [] \<and> (\<exists>name raw. (name, r) \<in> set ks \<and> env name = Some raw \<and> trim raw = k)"

lemma grants_Nil [simp]: "\<not> grants [] env k r"
  by (simp add: grants_def)

lemma grants_snoc:
  "grants (ks @ [e]) env k r \<longleftrightarrow>
     grants ks env k r \<or> (k \<noteq> [] \<and> snd e = r \<and> map_option trim (env (fst e)) = Some k)"
  by (cases e) (auto simp: grants_def)

lemma load_key_get:
  "map_of (load_key env e roles) k =
     (if k \<noteq> [] \<and> map_option trim (env (fst e)) = Some k
      then Some (case map_of roles k of None \<Rightarrow> snd e | Some r \<Rightarrow> max r (snd e))
      else map_of roles k)"
  by (auto simp: load_key_def update_conv Let_def max_def split: option.splits)

lemma fold_load_key:
  "map_of (fold (load_key env) ks []) k = Some r \<longleftrightarrow>
     grants ks env k r \<and> (\<forall>r'. grants ks env k r' \<longrightarrow> r' \<le> r)"
proof (induction ks arbitrary: r rule: rev_induct)
  case (snoc e ks)
  have none: "map_of (fold (load_key env) ks []) k = None \<longleftrightarrow> (\<forall>r'. \<not> grants ks env k r')"
  proof
    assume none: "map_of (fold (load_key env) ks []) k = None"
    show "\<forall>r'. \<not> grants ks env k r'"
    proof (rule ccontr)
      assume "\<not> ?thesis"
      then obtain r' where "grants ks env k r'" by blast
      then have "\<exists>m. grants ks env k m \<and> (\<forall>r'. grants ks env k r' \<longrightarrow> r' \<le> m)"
        by (rule ex_max_role)
      with snoc.IH none show False by (metis option.distinct(1))
    qed
  qed (use snoc.IH in \<open>metis not_Some_eq\<close>)
  show ?case
  proof (cases "map_of (fold (load_key env) ks []) k")
    case None
    with none show ?thesis by (auto simp: load_key_get grants_snoc)
  next
    case (Some r0)
    with snoc.IH have "grants ks env k r0" "\<forall>r'. grants ks env k r' \<longrightarrow> r' \<le> r0" by auto
    with Some show ?thesis
      by (auto simp: load_key_get grants_snoc max_def dest: antisym)
  qed
qed simp


lemma map_of_eq_Nil_iff: "m \<noteq> [] \<longleftrightarrow> (\<exists>k v. map_of m k = Some v)"
  by (cases m) auto

lemma need_auth_iff: "need_auth (load_from_env env) \<longleftrightarrow> (\<exists>k r. grants env_keys env k r)"
proof -
  have "need_auth (load_from_env env) \<longleftrightarrow> (\<exists>k r. map_of (fold (load_key env) env_keys []) k = Some r)"
    by (simp only: load_from_env_def Let_def map_of_eq_Nil_iff api_key_auth_config.simps)
  also have "\<dots> \<longleftrightarrow> (\<exists>k r. grants env_keys env k r)"
    unfolding fold_load_key using ex_max_role by blast
  finally show ?thesis .
qed

lemma key_roles_iff:
  "map_of (key_roles (load_from_env env)) k = Some r \<longleftrightarrow>
     grants env_keys env k r \<and> (\<forall>r'. grants env_keys env k r' \<longrightarrow> r' \<le> r)"
  by (simp only: load_from_env_def Let_def fold_load_key api_key_auth_config.simps)

text \<open>Paths: a segment in front of a slash is the first part.\<close>

lemma split_on_append: "c \<notin> set s \<Longrightarrow> split_on c (s @ c # t) = s # split_on c t"
  by (induction s) auto

lemma split_on_single: "c \<notin> set s \<Longrightarrow> split_on c s = [s]"
  by (induction s) auto

lemma path_parts_slash: "path_parts (CHR ''/'' # t) = path_parts t"
  by (simp add: path_parts_def)

lemma path_parts_append: "segment_ok s \<Longrightarrow> path_parts (s @ CHR ''/'' # t) = s # path_parts t"
  by (simp add: path_parts_def segment_ok_def split_on_append)

lemma path_parts_single: "segment_ok s \<Longrightarrow> path_parts s = [s]"
  by (simp add: path_parts_def segment_ok_def split_on_single)

lemma path_parts_coll:
  assumes "segment_ok c" "rest = [] \<or> (\<exists>t. rest = CHR ''/'' # t)"
  shows "path_parts (coll_path c rest) = ''v1'' # ''collections'' # c # path_parts rest"
proof -
  have "path_parts (coll_path c rest) = ''v1'' # ''collections'' # path_parts (c @ rest)"
    using path_parts_append [of "''v1''" "''collections/'' @ c @ rest"]
      path_parts_append [of "''collections''" "c @ rest"]
    by (simp add: coll_path_def segment_ok_def path_parts_slash)
  moreover have "path_parts (c @ rest) = c # path_parts rest"
    using assms by (auto simp: path_parts_append path_parts_single path_parts_slash) (simp add: path_parts_def)
  ultimately show ?thesis by simp
qed

lemma coll_path_prefix [simp]: "prefix ''/v1'' (coll_path c rest)"
  by (simp add: coll_path_def)

lemma coll_path_not_public [simp]: "coll_path c rest \<notin> set public_get_paths"
  by (simp add: coll_path_def public_get_paths_def)

lemmas role_defs = required_role_def Let_def is_search_path_def is_admin_route_def nth_opt_def last_opt_def

lemma required_role_coll:
  assumes "segment_ok c" "rest = [] \<or> (\<exists>t. rest = CHR ''/'' # t)"
  shows "required_role m (coll_path c rest) =
    (let parts = ''v1'' # ''collections'' # c # path_parts rest in
     if m = ''POST'' \<and> is_search_path parts then Some Search
     else if is_admin_route m parts then Some Admin else Some Read)"
  using assms by (simp add: required_role_def path_parts_coll)

lemma path_parts_doc:
  assumes "segment_ok d"
  shows "path_parts (''/documents/'' @ d) = [''documents'', d]"
    "path_parts (''/documents/'' @ d @ CHR ''/'' # t) = ''documents'' # d # path_parts t"
  using path_parts_append [of "''documents''" "d"] path_parts_append [of "''documents''" "d @ CHR ''/'' # t"]
    assms
  by (simp_all add: segment_ok_def path_parts_single path_parts_append path_parts_slash)


lemma list_ex_documents: "list_ex (\<lambda>p. p = ''documents'') xs \<longleftrightarrow> ''documents'' \<in> set xs"
  by (induction xs) auto

lemma required_role_fixed:
  "required_role ''GET'' ''/v1/system/info'' = Some Read"
  "required_role ''GET'' ''/v1/metrics/current'' = Some Read"
  "required_role ''GET'' ''/v1/metrics/prometheus'' = Some Read"
  "required_role ''GET'' ''/v1/metrics/trends'' = Some Read"
  "required_role ''GET'' ''/v1/metrics/definitions'' = Some Read"
  "required_role ''GET'' ''/v1/collections'' = Some Read"
  by (simp_all add: role_defs public_get_paths_def path_parts_def)

lemma path_parts_literals:
  "path_parts [] = []"
  "path_parts ''/exists'' = [''exists'']"
  "path_parts ''/stats'' = [''stats'']"
  "path_parts ''/queue/info'' = [''queue'', ''info'']"
  "path_parts ''/queue'' = [''queue'']"
  "path_parts ''/empty'' = [''empty'']"
  "path_parts ''/documents'' = [''documents'']"
  "path_parts ''/documents/sync'' = [''documents'', ''sync'']"
  "path_parts ''/documents/bulk'' = [''documents'', ''bulk'']"
  "path_parts ''/documents/export'' = [''documents'', ''export'']"
  "path_parts ''/documents/fetch'' = [''documents'', ''fetch'']"
  "path_parts ''/search'' = [''search'']"
  "path_parts ''sync'' = [''sync'']"
  "path_parts ''status'' = [''status'']"
  by (simp_all add: path_parts_def)

text \<open>
  C7: every route of the router needs exactly the role it is meant to have: the version and
  health routes are public, every route that writes (create, delete and empty a collection,
  clear its queue, upload or delete documents) needs an admin key, search needs a search
  key and every other route a read key, whatever the names of the collection and document.
\<close>

theorem required_role_of_route:
  assumes "\<forall>s \<in> set (route_params r). segment_ok s"
  shows "required_role (fst (route_request r)) (snd (route_request r)) = route_role r"
proof -
  have public: "required_role ''GET'' p = None" if "p \<in> set public_get_paths" for p
    using that by (auto simp: required_role_def)
  have doc: "path_parts (''/documents/'' @ d @ ''/sync'') = [''documents'', d, ''sync'']"
    "path_parts (''/documents/'' @ d @ ''/status'') = [''documents'', d, ''status'']"
    if "segment_ok d" for d
    using path_parts_doc(2) [OF that] by (simp_all add: path_parts_literals)
  note docs = path_parts_doc(1) [simplified] doc [simplified]
  show ?thesis
    using assms public
    by (cases r)
      (simp_all add: required_role_fixed required_role_coll path_parts_literals docs Let_def
        is_search_path_def is_admin_route_def nth_opt_def last_opt_def public_get_paths_def)
qed

theorem required_role_of_route_witness:
  "required_role ''DELETE'' ''/v1/collections/search/documents/bulk'' = Some Admin"
  using required_role_of_route [of "Delete_document ''search'' ''bulk''"]
  by (simp add: segment_ok_def coll_path_def)

text \<open>
  C8: a request to a route that is not public passes the middleware, when any key is
  configured, exactly when it presents a key that some environment variable holds with a
  role at least the one the route needs.
\<close>

theorem middleware_admits_iff:
  assumes "\<forall>s \<in> set (route_params r). segment_ok s"
  shows "api_auth_middleware (load_from_env env) (fst (route_request r)) (snd (route_request r)) hget to_str
           = Next \<longleftrightarrow>
         (\<forall>k role. \<not> grants env_keys env k role) \<or> route_role r = None \<or>
         (\<exists>k role. extract_api_key hget to_str = Some k \<and> grants env_keys env k role
            \<and> the (route_role r) \<le> role)"
proof -
  have max: "(\<exists>role. map_of (key_roles (load_from_env env)) k = Some role \<and> needed \<le> role) \<longleftrightarrow>
      (\<exists>role. grants env_keys env k role \<and> needed \<le> role)" for k needed
  proof
    assume "\<exists>role. grants env_keys env k role \<and> needed \<le> role"
    then obtain role where role: "grants env_keys env k role" "needed \<le> role" by blast
    from ex_max_role [of "grants env_keys env k", OF role(1)]
    obtain m where "grants env_keys env k m" "\<forall>r'. grants env_keys env k r' \<longrightarrow> r' \<le> m" by blast
    with role show "\<exists>role. map_of (key_roles (load_from_env env)) k = Some role \<and> needed \<le> role"
      unfolding key_roles_iff by (blast intro: order_trans)
  qed (auto simp: key_roles_iff)
  have step: "api_auth_middleware (load_from_env env) (fst (route_request r)) (snd (route_request r)) hget to_str
      = Next \<longleftrightarrow> (\<forall>k role. \<not> grants env_keys env k role) \<or> route_role r = None \<or>
         (\<exists>k role. extract_api_key hget to_str = Some k \<and>
            map_of (key_roles (load_from_env env)) k = Some role \<and> the (route_role r) \<le> role)"
    unfolding api_auth_middleware_def required_role_of_route [OF assms] need_auth_iff Let_def
    by (cases "route_role r"; cases "extract_api_key hget to_str") (simp_all split: option.splits)
  show ?thesis
    unfolding step by (cases "extract_api_key hget to_str") (simp_all add: max)
qed

theorem middleware_admits_iff_witness:
  "api_auth_middleware (load_from_env [''AMGIX_API_KEY'' \<mapsto> '' secret '', ''AMGIX_READ_KEY'' \<mapsto> ''secret''])
     ''POST'' ''/v1/collections/docs'' (\<lambda>h. if h = ''authorization'' then Some ''Bearer secret'' else None) Some
   = Next"
proof -
  let ?env = "[''AMGIX_API_KEY'' \<mapsto> '' secret '', ''AMGIX_READ_KEY'' \<mapsto> ''secret'']"
  let ?h = "\<lambda>h. if h = ''authorization'' then Some ''Bearer secret'' else None"
  have t: "trim ''secret'' = ''secret''"
    by (simp add: trim_plain plain_def byte_of_def)
  have t2: "trim '' secret '' = ''secret''"
    using trim_blank_right [of "''secret''"] by (simp add: trim_blank_left ws_free_plain plain_def byte_of_def)
  have "extract_api_key ?h Some = Some ''secret''"
    by (simp add: extract_api_key_def strip_prefix_def non_blank_def t)
  moreover have "grants env_keys ?env ''secret'' Admin"
    by (simp add: grants_def env_keys_def t t2)
  ultimately show ?thesis
    using middleware_admits_iff [of "Create_collection ''docs''" ?env ?h Some]
    by (simp add: segment_ok_def coll_path_def) blast
qed

end
