(* ===== verification/F64.thy ===== *)
theory F64
  imports Rust_Prelude "HOL-Library.Log_Nat"
begin

text \<open>
  Rust's \<open>f64\<close> and \<open>f32\<close>: IEEE 754 binary floating point, with rounding to nearest, ties
  to even, and with signed zeros, infinities and NaN. A number is a sign and a rational
  magnitude; every operation computes the exact rational result and rounds it once. A format
  is the precision, the exponent of the least subnormal and the exponent of overflow.

  The lemmas show what the components use of the arithmetic: rounding is monotone
  (\<open>fp_round_mono\<close>), rounds nothing that is already representable (\<open>rnd_repr\<close>) and is
  exact on integers of up to \<open>prec\<close> bits (\<open>rnd_int\<close>).
\<close>

section \<open>Formats and rounding\<close>

record fp_format =
  prec :: nat
  emin :: int
  emax :: int

definition binary64 :: fp_format where
  "binary64 = \<lparr>prec = 53, emin = -1074, emax = 1024\<rparr>"

definition binary32 :: fp_format where
  "binary32 = \<lparr>prec = 24, emin = -149, emax = 128\<rparr>"

datatype fp =
    NaN
  | Infinity bool
  | Finite bool rat

text \<open>The exponent of a positive rational: \<open>2 powi ilog2 x \<le> x < 2 powi (ilog2 x + 1)\<close>.\<close>

definition ilog2 :: "rat \<Rightarrow> int" where
  "ilog2 x = (if 1 \<le> x then int (floorlog 2 (nat \<lfloor>x\<rfloor>)) - 1
              else - int (ceillog2 (nat \<lceil>1 / x\<rceil>)))"

definition round_even :: "rat \<Rightarrow> int" where
  "round_even r =
     (let f = \<lfloor>r\<rfloor>; d = r - of_int f in
      if d < 1 / 2 then f else if 1 / 2 < d then f + 1 else if even f then f else f + 1)"

definition quantum :: "fp_format \<Rightarrow> rat \<Rightarrow> rat" where
  "quantum F x = 2 powi max (ilog2 x - int (prec F) + 1) (emin F)"

definition rnd :: "fp_format \<Rightarrow> rat \<Rightarrow> rat" where
  "rnd F x = of_int (round_even (x / quantum F x)) * quantum F x"

text \<open>\<open>fp_round F z r\<close> rounds \<open>r\<close>; \<open>z\<close> is the sign of the result when \<open>r\<close> is zero.\<close>

definition fp_round :: "fp_format \<Rightarrow> bool \<Rightarrow> rat \<Rightarrow> fp" where
  "fp_round F z r =
     (if r = 0 then Finite z 0
      else if 2 powi emax F \<le> rnd F \<bar>r\<bar> then Infinity (r < 0)
      else Finite (r < 0) (rnd F \<bar>r\<bar>))"

section \<open>Operations\<close>

fun fval :: "fp \<Rightarrow> rat" where
  "fval (Finite s m) = (if s then - m else m)"
| "fval _ = 0"

fun is_nan :: "fp \<Rightarrow> bool" where
  "is_nan NaN = True"
| "is_nan _ = False"

fun fp_neg :: "fp \<Rightarrow> fp" where
  "fp_neg NaN = NaN"
| "fp_neg (Infinity s) = Infinity (\<not> s)"
| "fp_neg (Finite s m) = Finite (\<not> s) m"

fun fp_add :: "fp_format \<Rightarrow> fp \<Rightarrow> fp \<Rightarrow> fp" where
  "fp_add F (Finite s m) (Finite t n) =
     fp_round F (s \<and> t) (fval (Finite s m) + fval (Finite t n))"
| "fp_add F (Infinity s) (Infinity t) = (if s = t then Infinity s else NaN)"
| "fp_add F (Infinity s) (Finite _ _) = Infinity s"
| "fp_add F (Finite _ _) (Infinity t) = Infinity t"
| "fp_add F _ _ = NaN"

definition fp_sub :: "fp_format \<Rightarrow> fp \<Rightarrow> fp \<Rightarrow> fp" where
  "fp_sub F x y = fp_add F x (fp_neg y)"

fun fp_mul :: "fp_format \<Rightarrow> fp \<Rightarrow> fp \<Rightarrow> fp" where
  "fp_mul F (Finite s m) (Finite t n) =
     fp_round F (s \<noteq> t) (fval (Finite s m) * fval (Finite t n))"
| "fp_mul F (Infinity s) (Infinity t) = Infinity (s \<noteq> t)"
| "fp_mul F (Infinity s) (Finite t n) = (if n = 0 then NaN else Infinity (s \<noteq> t))"
| "fp_mul F (Finite s m) (Infinity t) = (if m = 0 then NaN else Infinity (s \<noteq> t))"
| "fp_mul F _ _ = NaN"

fun fp_div :: "fp_format \<Rightarrow> fp \<Rightarrow> fp \<Rightarrow> fp" where
  "fp_div F (Finite s m) (Finite t n) =
     (if n = 0 then (if m = 0 then NaN else Infinity (s \<noteq> t))
      else fp_round F (s \<noteq> t) (fval (Finite s m) / fval (Finite t n)))"
| "fp_div F (Infinity s) (Infinity t) = NaN"
| "fp_div F (Infinity s) (Finite t _) = Infinity (s \<noteq> t)"
| "fp_div F (Finite s _) (Infinity t) = Finite (s \<noteq> t) 0"
| "fp_div F _ _ = NaN"

fun fp_lt :: "fp \<Rightarrow> fp \<Rightarrow> bool" where
  "fp_lt (Finite s m) (Finite t n) = (fval (Finite s m) < fval (Finite t n))"
| "fp_lt (Infinity s) (Infinity t) = (s \<and> \<not> t)"
| "fp_lt (Infinity s) (Finite _ _) = s"
| "fp_lt (Finite _ _) (Infinity t) = (\<not> t)"
| "fp_lt _ _ = False"

definition fp_le :: "fp \<Rightarrow> fp \<Rightarrow> bool" where
  "fp_le x y \<longleftrightarrow> \<not> is_nan x \<and> \<not> is_nan y \<and> \<not> fp_lt y x"

definition fp_eq :: "fp \<Rightarrow> fp \<Rightarrow> bool" where
  "fp_eq x y \<longleftrightarrow> fp_le x y \<and> fp_le y x"

definition partial_cmp :: "fp \<Rightarrow> fp \<Rightarrow> ordering option" where
  "partial_cmp x y =
     (if is_nan x \<or> is_nan y then None
      else if fp_lt x y then Some Less
      else if fp_lt y x then Some Greater
      else Some Equal)"

definition fp_min :: "fp \<Rightarrow> fp \<Rightarrow> fp" where
  "fp_min x y = (if is_nan x then y else if is_nan y \<or> fp_lt x y then x else y)"

definition fp_max :: "fp \<Rightarrow> fp \<Rightarrow> fp" where
  "fp_max x y = (if is_nan x then y else if is_nan y \<or> fp_lt y x then x else y)"

definition fp_of_rat :: "fp_format \<Rightarrow> rat \<Rightarrow> fp" where
  "fp_of_rat F r = fp_round F False r"

definition fp_of_nat :: "fp_format \<Rightarrow> nat \<Rightarrow> fp" where
  "fp_of_nat F n = fp_of_rat F (of_nat n)"

definition fp_of_int :: "fp_format \<Rightarrow> int \<Rightarrow> fp" where
  "fp_of_int F i = fp_of_rat F (of_int i)"

text \<open>A cast to an integer type truncates and saturates; NaN becomes 0.\<close>

definition trunc :: "rat \<Rightarrow> int" where
  "trunc r = (if 0 \<le> r then \<lfloor>r\<rfloor> else \<lceil>r\<rceil>)"

fun fp_as_int :: "int \<Rightarrow> int \<Rightarrow> fp \<Rightarrow> int" where
  "fp_as_int lo hi NaN = 0"
| "fp_as_int lo hi (Infinity s) = (if s then lo else hi)"
| "fp_as_int lo hi (Finite s m) = max lo (min hi (trunc (fval (Finite s m))))"

abbreviation fp_as_i64 :: "fp \<Rightarrow> int" where
  "fp_as_i64 \<equiv> fp_as_int (- (2 ^ 63)) (2 ^ 63 - 1)"

abbreviation fp_as_u64 :: "fp \<Rightarrow> int" where
  "fp_as_u64 \<equiv> fp_as_int 0 (2 ^ 64 - 1)"

abbreviation f64_add :: "fp \<Rightarrow> fp \<Rightarrow> fp" where
  "f64_add \<equiv> fp_add binary64"

abbreviation f64_sub :: "fp \<Rightarrow> fp \<Rightarrow> fp" where
  "f64_sub \<equiv> fp_sub binary64"

abbreviation f64_mul :: "fp \<Rightarrow> fp \<Rightarrow> fp" where
  "f64_mul \<equiv> fp_mul binary64"

abbreviation f64_div :: "fp \<Rightarrow> fp \<Rightarrow> fp" where
  "f64_div \<equiv> fp_div binary64"

abbreviation f64 :: "rat \<Rightarrow> fp" where
  "f64 \<equiv> fp_of_rat binary64"

section \<open>Rounding to the nearest integer\<close>

lemma round_even_of_int [simp]: "round_even (of_int i) = i"
  by (simp add: round_even_def Let_def)

lemma round_even_bounds: "\<lfloor>r\<rfloor> \<le> round_even r" "round_even r \<le> \<lfloor>r\<rfloor> + 1" "round_even r \<le> \<lceil>r\<rceil>"
proof -
  show "\<lfloor>r\<rfloor> \<le> round_even r" "round_even r \<le> \<lfloor>r\<rfloor> + 1"
    by (simp_all add: round_even_def Let_def)
  show "round_even r \<le> \<lceil>r\<rceil>"
  proof (cases "r = of_int \<lfloor>r\<rfloor>")
    case True
    then show ?thesis by (metis ceiling_of_int order_refl round_even_of_int)
  next
    case False
    then have "\<lceil>r\<rceil> = \<lfloor>r\<rfloor> + 1" by (simp add: ceiling_altdef)
    then show ?thesis by (simp add: round_even_def Let_def)
  qed
qed

lemma round_even_mono:
  assumes "r \<le> s"
  shows "round_even r \<le> round_even s"
proof (cases "\<lfloor>r\<rfloor> = \<lfloor>s\<rfloor>")
  case True
  with assms show ?thesis by (auto simp: round_even_def Let_def)
next
  case False
  with assms have "\<lfloor>r\<rfloor> + 1 \<le> \<lfloor>s\<rfloor>" using floor_mono [OF assms] by simp
  then show ?thesis using round_even_bounds(2) [of r] round_even_bounds(1) [of s] by linarith
qed

lemma round_even_ge_int: "of_int i \<le> r \<Longrightarrow> i \<le> round_even r"
  using round_even_mono [of "of_int i" r] by simp

lemma round_even_le_int: "r \<le> of_int i \<Longrightarrow> round_even r \<le> i"
  using round_even_mono [of r "of_int i"] by simp


section \<open>Rounding to a format\<close>

lemma ilog2_bounds:
  assumes "0 < x"
  shows "2 powi ilog2 x \<le> x" "x < 2 powi (ilog2 x + 1)"
proof -
  have "2 powi ilog2 x \<le> x \<and> x < 2 powi (ilog2 x + 1)"
  proof (cases "1 \<le> x")
    case True
    define n where "n = nat \<lfloor>x\<rfloor>"
    have n: "0 < n" and fx: "of_nat n = (of_int \<lfloor>x\<rfloor> :: rat)"
      using True by (auto simp: n_def)
    have lo: "2 ^ (floorlog 2 n - 1) \<le> n" and hi: "n < 2 ^ floorlog 2 n"
      using floorlog_bounds [of n 2] n by auto
    have pos: "0 < floorlog 2 n" using n by (simp add: floorlog_def)
    have e: "ilog2 x = int (floorlog 2 n - 1)" using True pos by (simp add: ilog2_def n_def)
    have "(2 :: rat) ^ (floorlog 2 n - 1) \<le> of_nat n"
      using lo by (metis of_nat_le_iff of_nat_numeral of_nat_power)
    moreover have "of_nat n \<le> x" using fx of_int_floor_le [of x] by simp
    moreover have "x < of_nat n + 1" using fx floor_correct [of x] by simp
    moreover have "of_nat n + 1 \<le> (2 :: rat) ^ floorlog 2 n"
      using hi by (metis Suc_leI of_nat_Suc of_nat_le_iff of_nat_numeral of_nat_power add.commute)
    moreover have "2 powi ilog2 x = (2 :: rat) ^ (floorlog 2 n - 1)"
      by (simp only: e power_int_of_nat)
    moreover have "2 powi (ilog2 x + 1) = (2 :: rat) ^ floorlog 2 n"
    proof -
      have "ilog2 x + 1 = int (floorlog 2 n)" using e pos by simp
      then show ?thesis by (simp only: power_int_of_nat)
    qed
    ultimately show ?thesis by linarith
  next
    case False
    define n where "n = nat \<lceil>1 / x\<rceil>"
    define k where "k = ceillog2 n"
    have x1: "1 < 1 / x" using assms False by simp
    then have ge: "2 \<le> \<lceil>1 / x\<rceil>" by (simp add: less_ceiling_iff le_ceiling_iff)
    from ge have n: "2 \<le> n" unfolding n_def by arith
    from ge have cx: "of_nat n = (of_int \<lceil>1 / x\<rceil> :: rat)" unfolding n_def by (subst of_nat_nat) arith+
    have e: "ilog2 x = - int k" using False by (simp add: ilog2_def n_def k_def)
    have up: "(of_nat n :: rat) \<le> 2 ^ k"
      unfolding k_def by (metis le_two_power_ceillog2 of_nat_le_iff of_nat_numeral of_nat_power)
    have down: "2 ^ k < 2 * n" unfolding k_def using n by (intro two_power_ceillog2_gt) simp
    have k: "0 < k" using down n le_two_power_ceillog2 [of n] by (cases k) (auto simp: k_def)
    have "2 ^ (k - 1) < n" using down k by (cases k) auto
    then have "(2 :: int) ^ (k - 1) < \<lceil>1 / x\<rceil>" using ge
      by (simp add: n_def zless_nat_eq_int_zless)
    then have lt: "(2 :: rat) ^ (k - 1) < 1 / x" by (simp add: less_ceiling_iff)
    have "1 / x \<le> 2 ^ k" using up cx le_of_int_ceiling [of "1 / x"] by linarith
    then have "inverse (2 ^ k) \<le> x" using assms by (simp add: field_simps)
    moreover have "x < inverse (2 ^ (k - 1))" using lt assms by (simp add: field_simps)
    moreover have "(2 :: rat) powi (- int k + 1) = inverse (2 ^ (k - 1))"
proof -
      obtain j where j: "k = Suc j" using k by (cases k) auto
      then have "- int k + 1 = - int j" by simp
      then show ?thesis by (simp only: j) (simp add: power_int_minus)
    qed
    ultimately show ?thesis unfolding e by (simp add: power_int_minus)
  qed
  then show "2 powi ilog2 x \<le> x" "x < 2 powi (ilog2 x + 1)" by auto
qed


lemma quantum_pos [simp]: "0 < quantum F x"
  by (simp add: quantum_def)

lemma powi_mono: "a \<le> b \<Longrightarrow> (2 :: rat) powi a \<le> 2 powi b"
  by (rule power_int_increasing) simp_all

lemma powi_less_iff: "(2 :: rat) powi a < 2 powi b \<longleftrightarrow> a < b"
  using power_int_strict_increasing [of a b "2 :: rat"] powi_mono [of b a]
  by (metis linorder_not_le numeral_One numeral_less_iff semiring_norm(76) order.strict_iff_not)

lemma ilog2_mono:
  assumes "0 < x" "x \<le> y"
  shows "ilog2 x \<le> ilog2 y"
proof -
  have "2 powi ilog2 x < (2 :: rat) powi (ilog2 y + 1)"
    using ilog2_bounds [of x] ilog2_bounds [of y] assms by linarith
  then show ?thesis by (simp add: powi_less_iff)
qed

lemma ilog2_less:
  assumes "0 < x" "x < 2 powi e"
  shows "ilog2 x < e"
  using ilog2_bounds(1) [OF assms(1)] assms(2) powi_less_iff by (metis order_le_less_trans)

lemma powi_div_int:
  assumes "e \<le> f"
  shows "(2 :: rat) powi f = of_int (2 ^ nat (f - e)) * 2 powi e"
proof -
  have "(2 :: rat) powi f = 2 powi (f - e) * 2 powi e"
    by (simp flip: power_int_add)
  then show ?thesis using assms by (simp add: power_int_def)
qed

lemma rnd_le_mult: "x \<le> of_int k * quantum F x \<Longrightarrow> rnd F x \<le> of_int k * quantum F x"
  unfolding rnd_def by (simp add: round_even_le_int divide_le_eq)

lemma rnd_ge_mult: "of_int k * quantum F x \<le> x \<Longrightarrow> of_int k * quantum F x \<le> rnd F x"
  unfolding rnd_def by (simp add: round_even_ge_int le_divide_eq)

lemma rnd_exact: "x = of_int k * quantum F x \<Longrightarrow> rnd F x = x"
  using rnd_le_mult [of x k F] rnd_ge_mult [of k F x] by simp

lemma rnd_nonneg: "0 < x \<Longrightarrow> 0 \<le> rnd F x"
  using rnd_ge_mult [of 0 F x] by simp

lemma rnd_mono:
  assumes F: "0 < prec F" and "0 < x" "x \<le> y"
  shows "rnd F x \<le> rnd F y"
proof -
  let ?ex = "max (ilog2 x - int (prec F) + 1) (emin F)"
  let ?ey = "max (ilog2 y - int (prec F) + 1) (emin F)"
  have le: "?ex \<le> ?ey" using ilog2_mono [OF assms(2,3)] by simp
  show ?thesis
  proof (cases "?ex = ?ey")
    case True
    then have q: "quantum F x = quantum F y" by (simp add: quantum_def)
    have "round_even (x / quantum F y) \<le> round_even (y / quantum F y)"
      using assms(3) by (intro round_even_mono divide_right_mono) (simp_all add: less_imp_le)
    then show ?thesis unfolding rnd_def q by (intro mult_right_mono) (simp_all add: less_imp_le)
  next
    case False
    with le F have ey: "?ey \<le> ilog2 y" "?ex \<le> ilog2 y" "ilog2 x < ilog2 y" by auto
    let ?B = "(2 :: rat) powi ilog2 y"
    have "x \<le> ?B"
      using ilog2_bounds(2) [OF assms(2)] powi_mono [of "ilog2 x + 1" "ilog2 y"] ey(3) by linarith
    then have "rnd F x \<le> ?B"
      using rnd_le_mult [of x "2 ^ nat (ilog2 y - ?ex)" F] powi_div_int [OF ey(2)]
      by (simp add: quantum_def)
    also have "?B \<le> rnd F y"
      using rnd_ge_mult [of "2 ^ nat (ilog2 y - ?ey)" F y] powi_div_int [OF ey(1)]
        ilog2_bounds(1) [of y] assms by (simp add: quantum_def)
    finally show ?thesis .
  qed
qed

definition representable :: "fp_format \<Rightarrow> rat \<Rightarrow> bool" where
  "representable F m \<longleftrightarrow> (\<exists>n e. m = of_nat n * 2 powi e \<and> emin F \<le> e \<and> n < 2 ^ prec F)"

lemma representable_0 [simp]: "representable F 0"
  unfolding representable_def by (rule exI [of _ 0], rule exI [of _ "emin F"]) simp

lemma rnd_repr:
  assumes "0 < m" "representable F m"
  shows "rnd F m = m"
proof -
  obtain n e where n: "m = of_nat n * 2 powi e" "emin F \<le> e" "n < 2 ^ prec F"
    using assms(2) by (auto simp: representable_def)
  have "(of_nat n :: rat) < 2 ^ prec F"
    using n(3) by (metis of_nat_less_iff of_nat_numeral of_nat_power)
  then have "m < 2 ^ prec F * 2 powi e" unfolding n(1) by (simp add: mult_strict_right_mono)
  also have "\<dots> = 2 powi (int (prec F) + e)" by (simp add: power_int_add)
  finally have "ilog2 m < int (prec F) + e" by (rule ilog2_less [OF assms(1)])
  then have q: "max (ilog2 m - int (prec F) + 1) (emin F) \<le> e" using n(2) by simp
  then obtain d where d: "2 powi e = of_int d * quantum F m"
    unfolding quantum_def using powi_div_int by blast
  have "m = of_int (int n * d) * quantum F m" by (subst n(1)) (simp add: d)
  then show ?thesis by (rule rnd_exact)
qed

lemma rnd_nat:
  assumes "0 < n" "n < 2 ^ prec F" "emin F \<le> 0"
  shows "rnd F (of_nat n) = of_nat n"
proof (rule rnd_repr)
  show "representable F (of_nat n)"
    unfolding representable_def using assms by (intro exI [of _ n] exI [of _ 0]) simp
qed (use assms in simp)

lemma rnd_representable:
  assumes F: "0 < prec F" and x: "0 < x"
  shows "representable F (rnd F x)"
proof -
  let ?e = "max (ilog2 x - int (prec F) + 1) (emin F)"
  define k where "k = round_even (x / quantum F x)"
  have k0: "0 \<le> k" unfolding k_def using x by (intro round_even_ge_int) (simp add: zero_le_divide_iff less_imp_le)
  have "x < 2 powi (ilog2 x + 1)" by (rule ilog2_bounds(2) [OF x])
  also have "\<dots> \<le> 2 powi (?e + int (prec F))" by (rule powi_mono) simp
  also have "\<dots> = of_int (2 ^ prec F) * quantum F x"
    by (simp add: quantum_def power_int_add)
  finally have "x / quantum F x \<le> of_int (2 ^ prec F)" by (simp add: divide_le_eq less_imp_le)
  then have k1: "k \<le> 2 ^ prec F" unfolding k_def by (rule round_even_le_int)
  have r: "rnd F x = of_int k * 2 powi ?e" by (simp add: rnd_def k_def quantum_def)
  show ?thesis
  proof (cases "k = 2 ^ prec F")
    case True
    obtain p where p: "prec F = Suc p" using F by (cases "prec F") auto
    have "rnd F x = of_nat (2 ^ p) * 2 powi (?e + 1)"
      by (simp add: r True p power_int_add)
    then show ?thesis unfolding representable_def
      by (intro exI [of _ "2 ^ p"] exI [of _ "?e + 1"]) (simp add: p)
  next
    case False
    with k0 k1 have "nat k < 2 ^ prec F" by (simp add: nat_less_iff)
    then show ?thesis unfolding representable_def using r k0
      by (intro exI [of _ "nat k"] exI [of _ ?e]) simp
  qed
qed


section \<open>Order and monotonicity\<close>

fun fp_ok :: "fp_format \<Rightarrow> fp \<Rightarrow> bool" where
  "fp_ok F (Finite s m) \<longleftrightarrow> representable F m \<and> 0 \<le> m \<and> m < 2 powi emax F"
| "fp_ok F _ \<longleftrightarrow> True"

text \<open>The rank of a value that is not NaN: the order of IEEE comparison is the one of the ranks.\<close>

fun fp_rank :: "fp \<Rightarrow> int \<times> rat" where
  "fp_rank (Infinity s) = (if s then (-1, 0) else (1, 0))"
| "fp_rank x = (0, fval x)"

lemma fp_lt_rank:
  "\<not> is_nan x \<Longrightarrow> \<not> is_nan y \<Longrightarrow>
    fp_lt x y \<longleftrightarrow> fst (fp_rank x) < fst (fp_rank y) \<or>
      fst (fp_rank x) = fst (fp_rank y) \<and> snd (fp_rank x) < snd (fp_rank y)"
  by (cases x; cases y) auto

lemma fp_le_rank:
  "fp_le x y \<longleftrightarrow> \<not> is_nan x \<and> \<not> is_nan y \<and>
     (fst (fp_rank x) < fst (fp_rank y) \<or>
      fst (fp_rank x) = fst (fp_rank y) \<and> snd (fp_rank x) \<le> snd (fp_rank y))"
  by (auto simp: fp_le_def fp_lt_rank)

lemma fp_le_trans [trans]: "fp_le x y \<Longrightarrow> fp_le y z \<Longrightarrow> fp_le x z"
  by (auto simp: fp_le_rank)

lemma fp_le_refl: "\<not> is_nan x \<Longrightarrow> fp_le x x"
  by (simp add: fp_le_rank)

lemma fp_le_total: "\<not> is_nan x \<Longrightarrow> \<not> is_nan y \<Longrightarrow> fp_le x y \<or> fp_le y x"
  by (auto simp: fp_le_rank)

lemma fp_le_Finite [simp]:
  "fp_le (Finite s m) (Finite t n) \<longleftrightarrow> fval (Finite s m) \<le> fval (Finite t n)"
  by (auto simp: fp_le_def)

lemma fp_le_Infinity [simp]:
  "fp_le (Infinity s) y \<longleftrightarrow> \<not> is_nan y \<and> (s \<or> y = Infinity False)"
  "fp_le x (Infinity t) \<longleftrightarrow> \<not> is_nan x \<and> (\<not> t \<or> x = Infinity True)"
  by (cases y; auto simp: fp_le_def) (cases x; auto simp: fp_le_def)

lemma fp_le_NaN [simp]: "\<not> fp_le NaN y" "\<not> fp_le x NaN"
  by (simp_all add: fp_le_def)

lemma fp_round_not_nan [simp]: "\<not> is_nan (fp_round F z r)"
  by (simp add: fp_round_def)

lemma fp_round_mono:
  assumes F: "0 < prec F" and rs: "r \<le> s"
  shows "fp_le (fp_round F z r) (fp_round F z' s)"
proof -
  have m: "rnd F \<bar>a\<bar> \<le> rnd F \<bar>b\<bar>" if "a \<noteq> 0" "\<bar>a\<bar> \<le> \<bar>b\<bar>" for a b
    using rnd_mono [OF F, of "\<bar>a\<bar>" "\<bar>b\<bar>"] that by simp
  have nn: "0 \<le> rnd F \<bar>a\<bar>" if "a \<noteq> 0" for a using rnd_nonneg [of "\<bar>a\<bar>" F] that by simp
  consider "0 \<le> r" | "s \<le> 0" "r < 0" | "r < 0" "0 < s" by linarith
  then show ?thesis
  proof cases
    case 1
    with rs have "r \<noteq> 0 \<Longrightarrow> rnd F \<bar>r\<bar> \<le> rnd F \<bar>s\<bar>" by (intro m) auto
    with 1 rs nn [of s] show ?thesis by (cases "r = 0") (auto simp: fp_round_def)
  next
    case 2
    with rs have "s \<noteq> 0 \<Longrightarrow> rnd F \<bar>s\<bar> \<le> rnd F \<bar>r\<bar>" by (intro m) auto
    with 2 nn [of r] show ?thesis by (cases "s = 0") (auto simp: fp_round_def)
  next
    case 3
    with nn [of r] nn [of s] show ?thesis by (auto simp: fp_round_def)
  qed
qed

lemma fp_round_ok [simp]: "0 < prec F \<Longrightarrow> fp_ok F (fp_round F z r)"
  using rnd_representable [of F "\<bar>r\<bar>"] rnd_nonneg [of "\<bar>r\<bar>" F]
  by (auto simp: fp_round_def zero_less_power_int)

lemma fp_round_fval:
  assumes "fp_ok F x" "x = Finite s m"
  shows "fp_eq (fp_round F z (fval x)) x"
  using assms rnd_repr [of m F] by (cases "m = 0") (auto simp: fp_round_def fp_eq_def)

lemma fp_add_mono:
  assumes F: "0 < prec F" and "fp_le x x'" "fp_le y y'"
    and "\<not> is_nan (fp_add F x y)" "\<not> is_nan (fp_add F x' y')"
  shows "fp_le (fp_add F x y) (fp_add F x' y')"
  using assms
  by (cases x; cases x'; cases y; cases y') (auto simp del: fval.simps intro!: fp_round_mono split: if_splits)

lemma fp_add_ok [simp]: "0 < prec F \<Longrightarrow> fp_ok F (fp_add F x y)"
  by (cases "(F, x, y)" rule: fp_add.cases) auto

text \<open>Adding something that is not negative does not lower a sum.\<close>

lemma fp_add_increasing:
  assumes F: "0 < prec F" and x: "fp_ok F x" "\<not> is_nan x" and y: "fp_le (Finite False 0) y"
    and n: "\<not> is_nan (fp_add F x y)"
  shows "fp_le x (fp_add F x y)"
proof (cases x)
  case (Finite s m)
  have z: "fp_eq (fp_add F x (Finite False 0)) x"
    using fp_round_fval [OF x(1) Finite] by (simp add: Finite del: fval.simps) (simp)
  have "fp_le (fp_add F x (Finite False 0)) (fp_add F x y)"
    using F x y n by (intro fp_add_mono) (auto simp: fp_le_refl Finite)
  with z show ?thesis by (auto simp: fp_eq_def intro: fp_le_trans)
next
  case (Infinity s)
  with n y show ?thesis by (cases y) (auto split: if_splits)
qed (use x in simp)

lemma fp_div_mono:
  assumes F: "0 < prec F" and "fp_le (Finite False 0) (Finite s m)"
    and "0 < n" "0 < n'" "n' \<le> n"
  shows "fp_le (fp_div F (Finite s m) (Finite False n)) (fp_div F (Finite s m) (Finite False n'))"
  using assms
  by (cases s) (auto intro!: fp_round_mono divide_left_mono simp: field_simps mult_left_mono_neg)


section \<open>Differences and quotients\<close>

text \<open>Gradual underflow: the rounded difference of two different numbers is not zero.\<close>

lemma representable_multiple:
  assumes "representable F m"
  shows "\<exists>k :: int. m = of_int k * 2 powi emin F"
proof -
  obtain n e where "m = of_nat n * 2 powi e" "emin F \<le> e"
    using assms by (auto simp: representable_def)
  then have "m = of_int (int n * 2 ^ nat (e - emin F)) * 2 powi emin F"
    using powi_div_int [of "emin F" e] by simp
  then show ?thesis by blast
qed

lemma fval_multiple: "fp_ok F (Finite s m) \<Longrightarrow> \<exists>k :: int. fval (Finite s m) = of_int k * 2 powi emin F"
  using representable_multiple [of F m] by auto (metis minus_mult_left of_int_minus)

lemma rnd_pos:
  assumes F: "0 < prec F" and "2 powi emin F \<le> x"
  shows "0 < rnd F x"
proof -
  have pos: "0 < (2 :: rat) powi emin F" by simp
  have "representable F (2 powi emin F)"
    unfolding representable_def using one_less_power [of "2 :: nat" "prec F"] F
    by (intro exI [of "\<lambda>n. \<exists>e. 2 powi emin F = of_nat n * 2 powi e \<and> emin F \<le> e \<and> n < 2 ^ prec F" 1]
          exI [of _ "emin F"]) simp
  then have "rnd F (2 powi emin F) = 2 powi emin F" using rnd_repr pos by blast
  then show ?thesis using rnd_mono [OF F pos assms(2)] pos by linarith
qed

lemma fp_sub_cases:
  "fp_sub F (Finite s m) (Finite t n) =
     fp_round F (s \<and> \<not> t) (fval (Finite s m) - fval (Finite t n))"
  by (simp add: fp_sub_def)

lemma fp_sub_pos:
  assumes F: "0 < prec F" and ok: "fp_ok F (Finite s m)" "fp_ok F (Finite t n)"
    and less: "fval (Finite t n) < fval (Finite s m)"
  shows "fp_sub F (Finite s m) (Finite t n) = Infinity False \<or>
    (\<exists>d. fp_sub F (Finite s m) (Finite t n) = Finite False d \<and> 0 < d)"
proof -
  let ?d = "fval (Finite s m) - fval (Finite t n)"
  obtain i j :: int where ij: "fval (Finite s m) = of_int i * 2 powi emin F"
      "fval (Finite t n) = of_int j * 2 powi emin F"
    using fval_multiple ok by metis
  have d: "?d = of_int (i - j) * 2 powi emin F" unfolding ij by (simp add: left_diff_distrib)
  have pos: "0 < (2 :: rat) powi emin F" by simp
  have "0 < ?d" using less by (simp del: fval.simps)
  then have "0 < i - j" unfolding d using pos by (simp add: zero_less_mult_iff)
  then have "(1 :: rat) \<le> of_int (i - j)" by simp
  then have "2 powi emin F \<le> ?d" using mult_right_mono [of 1 "of_int (i - j)" "(2 :: rat) powi emin F"]
    unfolding d by simp
  then have "0 < rnd F ?d" by (rule rnd_pos [OF F])
  then show ?thesis using less unfolding fp_sub_cases by (simp add: fp_round_def del: fval.simps)
qed

lemma fp_div_unit:
  assumes F: "0 < prec F" "emin F \<le> 0" "0 < emax F"
    and "fp_le (Finite False 0) (Finite s m)" "fp_le (Finite s m) (Finite False d)" "0 < d"
  shows "fp_le (Finite False 0) (fp_div F (Finite s m) (Finite False d))"
    and "fp_le (fp_div F (Finite s m) (Finite False d)) (Finite False 1)"
    and "fval (Finite s m) = d \<Longrightarrow> fp_div F (Finite s m) (Finite False d) = Finite False 1"
proof -
  have r1: "rnd F 1 = 1" using rnd_nat [of 1 F] F one_less_power [of "2 :: nat" "prec F"] by simp
  have "(2 :: rat) powi 0 < 2 powi emax F" using F(3) by (subst powi_less_iff)
  then have one: "fp_round F z 1 = Finite False 1" for z by (simp add: fp_round_def r1)
  let ?q = "fval (Finite s m) / d"
  have div: "fp_div F (Finite s m) (Finite False d) = fp_round F (s \<noteq> False) ?q"
    using assms(6) by simp
  have q: "0 \<le> ?q" "?q \<le> 1" using assms(4-6) by (auto simp: zero_le_divide_iff divide_le_eq split: if_splits)
  show "fp_le (Finite False 0) (fp_div F (Finite s m) (Finite False d))"
    unfolding div using fp_round_mono [OF F(1) q(1), of False "s \<noteq> False"] by (simp add: fp_round_def [of F False 0])
  show "fp_le (fp_div F (Finite s m) (Finite False d)) (Finite False 1)"
    unfolding div using fp_round_mono [OF F(1) q(2), of "s \<noteq> False" False] one by simp
  show "fp_div F (Finite s m) (Finite False d) = Finite False 1" if "fval (Finite s m) = d"
    unfolding div using that assms(6) one by simp
qed


section \<open>Exact values\<close>

lemma fp_round_exact:
  "representable F m \<Longrightarrow> 0 \<le> m \<Longrightarrow> m < 2 powi emax F \<Longrightarrow> fp_round F False m = Finite False m"
  using rnd_repr [of m F] by (cases "m = 0") (auto simp: fp_round_def)

text \<open>A binary64 number with a 53-bit significand and a small negative exponent is exact.\<close>

lemma f64_dyadic:
  assumes "n < 2 ^ 53" "k \<le> 1000"
  shows "fp_round binary64 False (of_nat n / 2 ^ k) = Finite False (of_nat n / 2 ^ k)"
proof (rule fp_round_exact)
  show "representable binary64 (of_nat n / 2 ^ k)"
    unfolding representable_def using assms
    by (intro exI [of _ n] exI [of _ "- int k"]) (simp add: binary64_def power_int_minus divide_inverse)
  have "(of_nat n :: rat) < 2 ^ 53" using assms(1) by (metis of_nat_less_iff of_nat_numeral of_nat_power)
  moreover have "(of_nat n :: rat) / 2 ^ k \<le> of_nat n" by (simp add: divide_le_eq mult_right_le_one_le mult_le_cancel_left1)
  ultimately show "(of_nat n :: rat) / 2 ^ k < 2 powi emax binary64"
    using powi_mono [of 53 1024] by (simp add: binary64_def power_int_def)
qed simp

lemma fp_of_nat_exact: "n < 2 ^ 53 \<Longrightarrow> fp_of_nat binary64 n = Finite False (of_nat n)"
  using f64_dyadic [of n 0] by (simp add: fp_of_nat_def fp_of_rat_def)

end
