(* ===== verification/Models.thy ===== *)
theory Models
  imports F64
begin

text \<open>
  The data model: JSON values (\<open>serde_json::Value\<close>), the enumerations and constants of
  \<open>src/src/common.rs\<close> and the request, storage and response types of
  \<open>src/src/models.rs\<close> with their conversions. Unsigned integers are \<open>nat\<close>, \<open>f64\<close> and
  \<open>f32\<close> are \<open>fp\<close>, a \<open>DateTime<Utc>\<close> is its number of nanoseconds since the epoch, and
  a JSON object or a \<open>HashMap\<close> is an association list with distinct keys.
\<close>

section \<open>JSON values\<close>

datatype number =
    PosInt nat
  | NegInt int
  | Float fp

datatype json =
    Null
  | Bool bool
  | Number number
  | String string
  | Array "json list"
  | Object "(string \<times> json) list"

fun is_null :: "json \<Rightarrow> bool" where
  "is_null Null = True"
| "is_null _ = False"

fun as_str :: "json \<Rightarrow> string option" where
  "as_str (String s) = Some s"
| "as_str _ = None"

definition json_key :: "json \<Rightarrow> string \<Rightarrow> json option" where
  "json_key v k = (case v of Object m \<Rightarrow> map_of m k | _ \<Rightarrow> None)"

fun as_array :: "json \<Rightarrow> json list option" where
  "as_array (Array xs) = Some xs"
| "as_array _ = None"

fun is_number :: "json \<Rightarrow> bool" where
  "is_number (Number _) = True"
| "is_number _ = False"

fun is_boolean :: "json \<Rightarrow> bool" where
  "is_boolean (Bool _) = True"
| "is_boolean _ = False"

fun is_array :: "json \<Rightarrow> bool" where
  "is_array (Array _) = True"
| "is_array _ = False"

fun is_object :: "json \<Rightarrow> bool" where
  "is_object (Object _) = True"
| "is_object _ = False"

text \<open>\<open>is_i64\<close>: an integer of at most \<open>i64::MAX\<close>; \<open>is_u64\<close>: not negative.\<close>

fun is_i64 :: "json \<Rightarrow> bool" where
  "is_i64 (Number (PosInt n)) = (n < 2 ^ 63)"
| "is_i64 (Number (NegInt _)) = True"
| "is_i64 _ = False"

fun is_u64 :: "json \<Rightarrow> bool" where
  "is_u64 (Number (PosInt _)) = True"
| "is_u64 _ = False"

fun number_as_f64 :: "number \<Rightarrow> fp" where
  "number_as_f64 (PosInt n) = fp_of_nat binary64 n"
| "number_as_f64 (NegInt i) = fp_of_int binary64 i"
| "number_as_f64 (Float x) = x"

section \<open>JSON documents at the API boundary\<close>

definition flatten_entry :: "json \<Rightarrow> json" where
  "flatten_entry v =
     (case v of
        Object obj \<Rightarrow>
          if length obj = 2 \<and> map_of obj ''value'' \<noteq> None \<and> map_of obj ''type'' \<noteq> None
          then unwrap_or v (map_of obj ''value'')
          else v
      | _ \<Rightarrow> v)"

definition flatten_doc_metadata :: "json \<Rightarrow> json" where
  "flatten_doc_metadata val =
     (case val of
        Object m \<Rightarrow>
          (case map_of m ''metadata'' of
             Some (Object meta) \<Rightarrow>
               Object (bt_insert ''metadata'' (Object (bt_collect (map (map_prod id flatten_entry) meta))) m)
           | _ \<Rightarrow> val)
      | _ \<Rightarrow> val)"

function strip_null_json_fields :: "json \<Rightarrow> json" where
  "strip_null_json_fields (Object m) =
     Object (bt_collect (map (\<lambda>(k, v). (k, strip_null_json_fields v)) (filter (\<lambda>(_, v). \<not> is_null v) m)))"
| "strip_null_json_fields (Array items) = Array (map strip_null_json_fields items)"
| "strip_null_json_fields Null = Null"
| "strip_null_json_fields (Bool b) = Bool b"
| "strip_null_json_fields (Number n) = Number n"
| "strip_null_json_fields (String s) = String s"
  by pat_completeness auto

lemma size_json_member: "(k, v) \<in> set m \<Longrightarrow> size v < size (Object m)"
  using size_list_estimation' [of "(k, v)" m "size v" "size_prod (\<lambda>_. 0) size"] by simp

lemma size_json_item: "d \<in> set items \<Longrightarrow> size d < size (Array items)"
  using size_list_estimation' [of d items "size d" size] by simp

termination strip_null_json_fields
  by (relation "measure size") (auto dest: size_json_member size_json_item simp del: json.size)

section \<open>Enumerations\<close>

datatype vector_type =
    DenseModel | SparseModel | FullText | Trigrams | Whitespace | Wmtr | Keyword
  | DenseCustom | SparseCustom | Noop

fun is_dense :: "vector_type \<Rightarrow> bool" where
  "is_dense DenseModel = True"
| "is_dense DenseCustom = True"
| "is_dense _ = False"

definition is_sparse :: "vector_type \<Rightarrow> bool" where
  "is_sparse t = (\<not> is_dense t)"

definition is_custom_tokenization :: "vector_type \<Rightarrow> bool" where
  "is_custom_tokenization t = List.member [FullText, Trigrams, Whitespace, Wmtr, Keyword, Noop] t"

definition is_transformer_based :: "vector_type \<Rightarrow> bool" where
  "is_transformer_based t = List.member [DenseModel, SparseModel] t"

definition is_custom_vectors :: "vector_type \<Rightarrow> bool" where
  "is_custom_vectors t = List.member [DenseCustom, SparseCustom] t"

definition sparse_types_contains :: "vector_type \<Rightarrow> bool" where
  "sparse_types_contains t =
     List.member [SparseModel, FullText, Trigrams, Whitespace, Wmtr, Keyword, SparseCustom, Noop] t"

fun vector_type_str :: "vector_type \<Rightarrow> string" where
  "vector_type_str DenseModel = ''dense_model''"
| "vector_type_str SparseModel = ''sparse_model''"
| "vector_type_str FullText = ''full_text''"
| "vector_type_str Trigrams = ''trigrams''"
| "vector_type_str Whitespace = ''whitespace''"
| "vector_type_str Wmtr = ''wmtr''"
| "vector_type_str Keyword = ''keyword''"
| "vector_type_str DenseCustom = ''dense_custom''"
| "vector_type_str SparseCustom = ''sparse_custom''"
| "vector_type_str Noop = ''noop''"

definition to_ascii_lowercase :: "string \<Rightarrow> string" where
  "to_ascii_lowercase s =
     map (\<lambda>c. if 65 \<le> byte_of c \<and> byte_of c \<le> 90 then char_of (byte_of c + 32) else c) s"

datatype vector_type_error = UnknownVectorType string

definition parse_vector_type :: "string \<Rightarrow> vector_type_error + vector_type" where
  "parse_vector_type s =
     (let lowered = to_ascii_lowercase s in
      if lowered = ''dense_model'' then Inr DenseModel
      else if lowered = ''sparse_model'' then Inr SparseModel
      else if lowered = ''full_text'' then Inr FullText
      else if lowered = ''trigrams'' then Inr Trigrams
      else if lowered = ''whitespace'' then Inr Whitespace
      else if lowered = ''wmtr'' then Inr Wmtr
      else if lowered = ''keyword'' then Inr Wmtr
      else if lowered = ''dense_custom'' then Inr DenseCustom
      else if lowered = ''sparse_custom'' then Inr SparseCustom
      else if lowered = ''noop'' then Inr Noop
      else Inl (UnknownVectorType lowered))"

datatype dense_distance = Cosine | Dot | Euclid

fun dense_distance_str :: "dense_distance \<Rightarrow> string" where
  "dense_distance_str Cosine = ''cosine''"
| "dense_distance_str Dot = ''dot''"
| "dense_distance_str Euclid = ''euclid''"

datatype document_field = FName | FDescription | FContent | FTemplate

fun document_field_str :: "document_field \<Rightarrow> string" where
  "document_field_str FName = ''name''"
| "document_field_str FDescription = ''description''"
| "document_field_str FContent = ''content''"
| "document_field_str FTemplate = ''template''"

definition indexable :: "document_field list" where
  "indexable = [FName, FDescription, FContent]"

datatype search_exclude_field = XName | XDescription | XContent | XTags | XMetadata

fun exclude_str :: "search_exclude_field \<Rightarrow> string" where
  "exclude_str XName = ''name''"
| "exclude_str XDescription = ''description''"
| "exclude_str XContent = ''content''"
| "exclude_str XTags = ''tags''"
| "exclude_str XMetadata = ''metadata''"

text \<open>
  \<open>apply_search_exclude\<close> nulls the excluded fields of a search hit and of every document joined to it.
\<close>

definition null_fields :: "search_exclude_field list \<Rightarrow> (string \<times> json) list \<Rightarrow> (string \<times> json) list" where
  "null_fields exclude m = foldl (\<lambda>m f. bt_insert (exclude_str f) Null m) m exclude"

lemma set_bt_insert_subset: "set (bt_insert k v m) \<subseteq> insert (k, v) (set m)"
  by (induction k v m rule: bt_insert.induct) (auto split: ordering.splits)

lemma set_null_fields: "set (null_fields exclude m) \<subseteq> set m \<union> {kv. snd kv = Null}"
  unfolding null_fields_def
proof (induction exclude arbitrary: m)
  case (Cons f fs)
  then show ?case using set_bt_insert_subset [of "exclude_str f" Null m] by fastforce
qed simp

lemma null_fields_Object:
  "map_of (null_fields exclude m) k = Some (Object j) \<Longrightarrow> (k, Object j) \<in> set m"
  using set_null_fields [of exclude m] map_of_SomeD [of "null_fields exclude m" k "Object j"] by auto

function apply_search_exclude :: "json \<Rightarrow> search_exclude_field list \<Rightarrow> json" where
  "apply_search_exclude (Object m0) exclude =
     (let m = null_fields exclude m0 in
      case map_of m ''joined'' of
        Some (Object joined) \<Rightarrow>
          Object (bt_insert ''joined''
            (Object (bt_collect (map (\<lambda>(coll, docs).
               (coll, case docs of
                        Array items \<Rightarrow> Array (map (\<lambda>d. apply_search_exclude d exclude) items)
                      | other \<Rightarrow> other)) joined))) m)
      | _ \<Rightarrow> Object m)"
| "apply_search_exclude (Array xs) exclude = Array xs"
| "apply_search_exclude Null exclude = Null"
| "apply_search_exclude (Bool b) exclude = Bool b"
| "apply_search_exclude (Number n) exclude = Number n"
| "apply_search_exclude (String s) exclude = String s"
  by pat_completeness auto

lemma size_joined:
  assumes "map_of (null_fields exclude m) ''joined'' = Some (Object joined)"
    "(coll, Array items) \<in> set joined" "d \<in> set items"
  shows "size d < size (Object m)"
proof -
  have "size d < size (Array items)" using assms(3) by (rule size_json_item)
  also have "\<dots> < size (Object joined)" using assms(2) by (rule size_json_member)
  also have "\<dots> < size (Object m)" using null_fields_Object [OF assms(1)] by (rule size_json_member)
  finally show ?thesis .
qed

termination apply_search_exclude
  by (relation "measure (size \<circ> fst)") (auto dest: size_joined simp del: json.size)

definition resolve_skippable_fields ::
    "search_exclude_field list option \<Rightarrow> search_exclude_field set \<Rightarrow> search_exclude_field set" where
  "resolve_skippable_fields exclude required_fields =
     (case exclude of
        None \<Rightarrow> {}
      | Some xs \<Rightarrow> set (filter (\<lambda>f. f \<notin> required_fields) xs))"

section \<open>Constants and names\<close>

definition DEFAULT_TOP_K :: nat where "DEFAULT_TOP_K = 128"
definition DEFAULT_WMTR_WORD_WEIGHT_PERCENTAGE :: nat where "DEFAULT_WMTR_WORD_WEIGHT_PERCENTAGE = 80"
definition DEFAULT_FACET_MAX_VALUES :: nat where "DEFAULT_FACET_MAX_VALUES = 10"
definition MAX_COLLECTION_NAME_LENGTH :: nat where "MAX_COLLECTION_NAME_LENGTH = 100"
definition MAX_BULK_UPLOAD :: nat where "MAX_BULK_UPLOAD = 100"
definition MAX_VECTOR_NAME_LENGTH :: nat where "MAX_VECTOR_NAME_LENGTH = 100"
definition MAX_MODEL_NAME_LENGTH :: nat where "MAX_MODEL_NAME_LENGTH = 210"
definition MAX_DOCUMENT_ID_LENGTH :: nat where "MAX_DOCUMENT_ID_LENGTH = 100"
definition MAX_DOCUMENT_NAME_LENGTH :: nat where "MAX_DOCUMENT_NAME_LENGTH = 1500"
definition MAX_DOCUMENT_DESCRIPTION_LENGTH :: nat where "MAX_DOCUMENT_DESCRIPTION_LENGTH = 3000"
definition MAX_DOCUMENT_CONTENT_LENGTH :: nat where "MAX_DOCUMENT_CONTENT_LENGTH = 1000000"
definition MAX_METADATA_KEY_LENGTH :: nat where "MAX_METADATA_KEY_LENGTH = 100"
definition MAX_METADATA_VALUE_LENGTH :: nat where "MAX_METADATA_VALUE_LENGTH = 1000000"
definition MAX_DOCUMENT_TAGS_COUNT :: nat where "MAX_DOCUMENT_TAGS_COUNT = 50"
definition MAX_DOCUMENT_TAG_LENGTH :: nat where "MAX_DOCUMENT_TAG_LENGTH = 100"
definition MAX_SEARCH_QUERY_LENGTH :: nat where "MAX_SEARCH_QUERY_LENGTH = 10000"
definition MAX_SEARCH_LIMIT :: nat where "MAX_SEARCH_LIMIT = 100"
definition MAX_TOP_K_VALUE :: nat where "MAX_TOP_K_VALUE = 10000"
definition MAX_VECTOR_DIMENSIONS :: nat where "MAX_VECTOR_DIMENSIONS = 8192"
definition MAX_FACET_PREFETCH_MULTIPLIER :: nat where "MAX_FACET_PREFETCH_MULTIPLIER = 10"
definition MAX_FACET_MAX_VALUES :: nat where "MAX_FACET_MAX_VALUES = 100"

definition SEARCH_PREFETCH_MIN :: nat where "SEARCH_PREFETCH_MIN = 5"

text \<open>\<open>((limit as f64 * SEARCH_PREFETCH_MULTIPLIER) as u64).max(SEARCH_PREFETCH_MIN)\<close>.\<close>

definition search_prefetch_limit :: "nat \<Rightarrow> nat" where
  "search_prefetch_limit limit =
     max (nat (fp_as_u64 (f64_mul (fp_of_nat binary64 limit) (f64 (3 / 2))))) SEARCH_PREFETCH_MIN"

definition get_real_collection_name :: "string \<Rightarrow> string" where
  "get_real_collection_name user_name = ''amgix'' @ ''_'' @ user_name"

definition get_user_collection_name :: "string \<Rightarrow> string" where
  "get_user_collection_name real_name =
     unwrap_or real_name (strip_prefix (''amgix'' @ ''_'') real_name)"

definition sys_collection_name :: "string \<Rightarrow> string" where
  "sys_collection_name sfx = ''amgix'' @ ''_sys_'' @ sfx"

fun contains_sub :: "string \<Rightarrow> string \<Rightarrow> bool" where
  "contains_sub p [] = (p = [])"
| "contains_sub p (c # s) = (prefix p (c # s) \<or> contains_sub p s)"

definition qdrant_client_url :: "string \<Rightarrow> string" where
  "qdrant_client_url connection_string =
     (let s = trim connection_string in
      case strip_prefix ''qdrant://'' s of
        Some rest \<Rightarrow> ''http://'' @ rest
      | None \<Rightarrow> if contains_sub ''://'' s then s else ''http://'' @ s)"

section \<open>Collection configuration\<close>

record metadata_index =
  mi_key :: string
  mi_value_type :: string

record vector_config =
  vc_name :: string
  vc_type :: vector_type
  vc_model :: "string option"
  vc_revision :: "string option"
  vc_query_model :: "string option"
  vc_query_revision :: "string option"
  vc_dimensions :: "nat option"
  vc_top_k :: nat
  vc_wmtr_word_ratio :: nat
  vc_index_fields :: "document_field list option"
  vc_doc_template :: "string option"
  vc_query_template :: "string option"
  vc_language_default_code :: string
  vc_language_detect :: bool
  vc_language_confidence :: fp
  vc_normalization :: "bool option"
  vc_dense_distance :: dense_distance
  vc_keep_case :: "bool option"

text \<open>\<open>VectorConfigInternal\<close> has the fields of \<open>VectorConfig\<close> and a version.\<close>

record vector_config_internal = vector_config +
  vci_version :: nat

record collection_config =
  cc_vectors :: "vector_config list"
  cc_store_content :: bool
  cc_metadata_indexes :: "metadata_index list option"

record collection_config_internal =
  cci_version :: nat
  cci_collection_id :: string
  cci_vectors :: "vector_config_internal list"
  cci_store_content :: bool
  cci_metadata_indexes :: "metadata_index list option"

definition default_keep_case :: "bool option" where
  "default_keep_case = Some False"

definition default_index_fields :: "document_field list" where
  "default_index_fields = [FContent]"

definition apply_normalization_default :: "bool option \<Rightarrow> vector_type \<Rightarrow> bool option" where
  "apply_normalization_default nrm vector_type = Some (unwrap_or (is_dense vector_type) nrm)"

fun canonical_vector_type :: "vector_type \<Rightarrow> vector_type" where
  "canonical_vector_type Keyword = Wmtr"
| "canonical_vector_type vt = vt"

definition vector_config_into_internal :: "vector_config \<Rightarrow> vector_config_internal" where
  "vector_config_into_internal v =
     (let vt = canonical_vector_type (vc_type v);
          normalization = apply_normalization_default (vc_normalization v) vt;
          (index_fields, doc_template, query_template) =
            (if vc_doc_template v \<noteq> None \<or> vc_query_template v \<noteq> None
             then (None, vc_doc_template v, vc_query_template v)
             else (Some (unwrap_or default_index_fields (vc_index_fields v)), None, None))
      in vector_config.extend
           (v\<lparr>vc_type := vt, vc_normalization := normalization, vc_index_fields := index_fields,
              vc_doc_template := doc_template, vc_query_template := query_template\<rparr>)
           (vector_config_internal.fields 1))"

definition vector_config_from_internal :: "vector_config_internal \<Rightarrow> vector_config" where
  "vector_config_from_internal vi =
     (let v = vector_config.truncate vi;
          vt = canonical_vector_type (vc_type v);
          normalization = apply_normalization_default (vc_normalization v) vt;
          uses_tmpl = (vc_doc_template v \<noteq> None)
      in v\<lparr>vc_type := vt, vc_query_model := None, vc_query_revision := None,
           vc_index_fields :=
             (if uses_tmpl then None
              else (case vc_index_fields v of None \<Rightarrow> Some default_index_fields | Some fs \<Rightarrow> Some fs)),
           vc_normalization := normalization, vc_keep_case := default_keep_case\<rparr>)"

definition collection_config_from_internal :: "collection_config_internal \<Rightarrow> collection_config" where
  "collection_config_from_internal c =
     \<lparr>cc_vectors = map vector_config_from_internal (cci_vectors c),
      cc_store_content = cci_store_content c,
      cc_metadata_indexes = cci_metadata_indexes c\<rparr>"

definition default_noop_vectors :: "vector_config list" where
  "default_noop_vectors =
     [\<lparr>vc_name = ''noop'', vc_type = Noop, vc_model = None, vc_revision = None, vc_query_model = None,
       vc_query_revision = None, vc_dimensions = None, vc_top_k = DEFAULT_TOP_K,
       vc_wmtr_word_ratio = DEFAULT_WMTR_WORD_WEIGHT_PERCENTAGE, vc_index_fields = Some [FName],
       vc_doc_template = None, vc_query_template = None, vc_language_default_code = ''en'',
       vc_language_detect = False, vc_language_confidence = f64 (9 / 10), vc_normalization = None,
       vc_dense_distance = Cosine, vc_keep_case = default_keep_case\<rparr>]"

text \<open>The part of \<open>CollectionConfig::deserialize\<close> after the fields of the request are read.\<close>

definition collection_config_deserialize ::
    "vector_config list option \<Rightarrow> bool option \<Rightarrow> metadata_index list option \<Rightarrow> collection_config" where
  "collection_config_deserialize raw_vectors raw_store_content raw_metadata_indexes =
     \<lparr>cc_vectors = (case raw_vectors of
                     Some v \<Rightarrow> if v \<noteq> [] then v else default_noop_vectors
                   | None \<Rightarrow> default_noop_vectors),
      cc_store_content = unwrap_or True raw_store_content,
      cc_metadata_indexes = raw_metadata_indexes\<rparr>"

section \<open>Documents\<close>

record custom_document_vector =
  cdv_vector_name :: string
  cdv_vector :: json
  cdv_field :: document_field

record vector_data =
  vd_vector_name :: string
  vd_field :: document_field
  vd_vector_type :: vector_type
  vd_dense_vector :: "fp list option"
  vd_sparse_indices :: "nat list option"
  vd_sparse_values :: "fp list option"

datatype document = Document
  (doc_id: string)
  (doc_timestamp: int)
  (doc_tags: "string list option")
  (doc_name: "string option")
  (doc_description: "string option")
  (doc_content: "string option")
  (doc_content_hash: "string option")
  (doc_metadata: "(string \<times> json) list option")
  (doc_custom_vectors: "custom_document_vector list option")
  (doc_joined: "(string \<times> document list) list option")
  (doc_vectors: "vector_data list option")
  (doc_token_lengths: "(string \<times> nat) list")

text \<open>Assignment to one field of a document.\<close>

fun set_doc_id :: "string \<Rightarrow> document \<Rightarrow> document" where
  "set_doc_id i (Document _ t tg n d c h m cv j v tls) = Document i t tg n d c h m cv j v tls"

fun set_doc_tags :: "string list option \<Rightarrow> document \<Rightarrow> document" where
  "set_doc_tags tg (Document i t _ n d c h m cv j v tls) = Document i t tg n d c h m cv j v tls"

fun set_doc_content_hash :: "string option \<Rightarrow> document \<Rightarrow> document" where
  "set_doc_content_hash h (Document i t tg n d c _ m cv j v tls) = Document i t tg n d c h m cv j v tls"

fun set_doc_metadata :: "(string \<times> json) list option \<Rightarrow> document \<Rightarrow> document" where
  "set_doc_metadata m (Document i t tg n d c h _ cv j v tls) = Document i t tg n d c h m cv j v tls"

fun set_doc_custom_vectors :: "custom_document_vector list option \<Rightarrow> document \<Rightarrow> document" where
  "set_doc_custom_vectors cv (Document i t tg n d c h m _ j v tls) = Document i t tg n d c h m cv j v tls"

fun set_doc_joined :: "(string \<times> document list) list option \<Rightarrow> document \<Rightarrow> document" where
  "set_doc_joined j (Document i t tg n d c h m cv _ v tls) = Document i t tg n d c h m cv j v tls"

section \<open>Search requests\<close>

record custom_vector =
  cv_vector_name :: string
  cv_vector :: json

record vector_search_option =
  vso_vector_name :: string
  vso_weight :: fp
  vso_field :: "document_field option"
  vso_wmtr_trigram_weight :: fp
  vso_raw_score_threshold :: "fp option"

datatype metadata_filter = MetadataFilter
  (mf_and: "metadata_filter list option")
  (mf_or: "metadata_filter list option")
  (mf_not: "metadata_filter option")
  (mf_key: "string option")
  (mf_op: "string option")
  (mf_value: "json option")

definition mf_default :: metadata_filter where
  "mf_default = MetadataFilter None None None None None None"

definition mf_cmp :: "string \<Rightarrow> string \<Rightarrow> json option \<Rightarrow> metadata_filter" where
  "mf_cmp key op value = MetadataFilter None None None (Some key) (Some op) value"

definition mf_negate :: "metadata_filter \<Rightarrow> metadata_filter" where
  "mf_negate f = MetadataFilter None None (Some f) None None None"

definition mf_all :: "metadata_filter list \<Rightarrow> metadata_filter" where
  "mf_all fs = MetadataFilter (Some fs) None None None None None"

definition mf_any :: "metadata_filter list \<Rightarrow> metadata_filter" where
  "mf_any fs = MetadataFilter None (Some fs) None None None None"

record facet_options =
  fo_prefetch_multiplier :: nat
  fo_max_values :: nat

datatype join_field =
    Single string
  | Multiple "string list"

record search_query_settings =
  sqs_vector_options :: "vector_search_option list"
  sqs_custom_vectors :: "custom_vector list option"
  sqs_limit :: nat
  sqs_score_threshold :: "fp option"
  sqs_document_tags :: "string list option"
  sqs_document_tags_match_all :: bool
  sqs_metadata_filter :: "metadata_filter option"
  sqs_raw_scores :: bool
  sqs_fusion_mode :: string
  sqs_join :: "join_field option"
  sqs_exclude :: "search_exclude_field list option"
  sqs_group_field :: "string option"
  sqs_group_max :: nat
  sqs_group_max_fetches :: nat
  sqs_facets :: bool
  sqs_facet_options :: "facet_options option"

record search_query =
  sq_query :: string
  sq_settings :: search_query_settings

record vector_score =
  vs_field :: string
  vs_vector :: string
  vs_score :: fp
  vs_rank :: nat

record search_result =
  sr_document :: document
  sr_score :: fp
  sr_vector_scores :: "vector_score list"

section \<open>The ingestion queue\<close>

datatype queued_document_status = Queued | Requeued | Indexed | Failed

datatype queue_operation_type = Upsert | Delete

record queue_document =
  qd_queue_id :: string
  qd_collection_name :: string
  qd_collection_id :: string
  qd_doc_id :: string
  qd_op_type :: queue_operation_type
  qd_doc_timestamp :: int
  qd_status :: queued_document_status
  qd_info :: "string option"
  qd_document :: "document option"
  qd_created_at :: int
  qd_timestamp :: int
  qd_try_count :: nat

section \<open>Properties of the names and constants\<close>

lemma prefetch_product:
  assumes "limit < 2 ^ 32"
  shows "f64_mul (fp_of_nat binary64 limit) (f64 (3 / 2)) = Finite False (of_nat (3 * limit) / 2 ^ 1)"
proof -
  have "f64 (3 / 2) = Finite False (3 / 2)"
    using f64_dyadic [of 3 1] by (simp add: fp_of_rat_def)
  moreover have "fp_of_nat binary64 limit = Finite False (of_nat limit)"
    using assms by (intro fp_of_nat_exact) simp
  ultimately show ?thesis
    using f64_dyadic [of "3 * limit" 1] assms by (simp add: mult.commute)
qed

text \<open>
  The per-arm candidate limit is computed in floating point without loss: for every \<open>u32\<close>
  limit it is one and a half times the limit, rounded down, and at least 5; so it is never below
  the limit itself.
\<close>

theorem search_prefetch_limit_exact:
  assumes "limit < 2 ^ 32"
  shows "search_prefetch_limit limit = max (3 * limit div 2) 5 \<and> limit \<le> search_prefetch_limit limit"
proof -
  have "\<lfloor>of_nat (3 * limit) / (2 :: rat)\<rfloor> = int (3 * limit div 2)"
    using floor_divide_of_nat_eq [of "3 * limit" 2, where 'a = rat] by simp
  then have "trunc (of_nat (3 * limit) / 2) = int (3 * limit div 2)"
    by (simp add: trunc_def)
  then have "search_prefetch_limit limit = max (3 * limit div 2) 5"
    unfolding search_prefetch_limit_def prefetch_product [OF assms] SEARCH_PREFETCH_MIN_def
    using assms by simp
  then show ?thesis by simp
qed

theorem search_prefetch_limit_exact_witness:
  "search_prefetch_limit 101 = 151 \<and> search_prefetch_limit 2 = 5"
  using search_prefetch_limit_exact [of 101] search_prefetch_limit_exact [of 2] by simp

section \<open>Properties of the JSON transformations\<close>

text \<open>A JSON value all of whose objects are ordered maps, and one no object of which has a null field.\<close>

function json_ok :: "json \<Rightarrow> bool" where
  "json_ok (Object m) \<longleftrightarrow> bt_ok m \<and> (\<forall>v \<in> snd ` set m. json_ok v)"
| "json_ok (Array xs) \<longleftrightarrow> (\<forall>x \<in> set xs. json_ok x)"
| "json_ok Null = True"
| "json_ok (Bool b) = True"
| "json_ok (Number n) = True"
| "json_ok (String s) = True"
  by pat_completeness auto
termination json_ok
  by (relation "measure size") (auto dest: size_json_member size_json_item simp del: json.size)

function null_free :: "json \<Rightarrow> bool" where
  "null_free (Object m) \<longleftrightarrow> (\<forall>v \<in> snd ` set m. v \<noteq> Null \<and> null_free v)"
| "null_free (Array xs) \<longleftrightarrow> (\<forall>x \<in> set xs. null_free x)"
| "null_free Null = True"
| "null_free (Bool b) = True"
| "null_free (Number n) = True"
| "null_free (String s) = True"
  by pat_completeness auto
termination null_free
  by (relation "measure size") (auto dest: size_json_member size_json_item simp del: json.size)

lemma is_null_iff [simp]: "is_null v \<longleftrightarrow> v = Null"
  by (cases v) auto

lemma strip_null_Null [simp]: "strip_null_json_fields v = Null \<longleftrightarrow> v = Null"
  by (cases v) auto

lemma bt_ok_filter: "bt_ok m \<Longrightarrow> bt_ok (filter P m)"
  by (simp add: bt_ok_def sorted_wrt_filter)

lemma bt_collect_mapped:
  "bt_ok m \<Longrightarrow> bt_collect (map (\<lambda>(k, v). (k, f k v)) m) = map (\<lambda>(k, v). (k, f k v)) m"
  by (rule bt_collect_id, subst bt_ok_map_snd [of _ m]) (auto simp: case_prod_unfold)

lemma strip_null_Object:
  "bt_ok m \<Longrightarrow> strip_null_json_fields (Object m) =
     Object (map (\<lambda>(k, v). (k, strip_null_json_fields v)) (filter (\<lambda>(_, v). v \<noteq> Null) m))"
  using bt_collect_mapped [OF bt_ok_filter [of m "\<lambda>(_, v). v \<noteq> Null"], of "\<lambda>_. strip_null_json_fields"]
  by simp

text \<open>
  An exported document has no null field at any depth, and stripping changes nothing else: a
  value without null fields is returned as it is.
\<close>

theorem strip_null_projection:
  assumes "json_ok v"
  shows "null_free (strip_null_json_fields v) \<and> (null_free v \<longrightarrow> strip_null_json_fields v = v)"
  using assms
proof (induction v rule: strip_null_json_fields.induct)
  case (1 m)
  then have ok: "bt_ok m" by simp
  from 1 have IH: "null_free (strip_null_json_fields v)"
    "null_free v \<Longrightarrow> strip_null_json_fields v = v" if "(k, v) \<in> set m" "v \<noteq> Null" for k v
    using that by force+
  have "null_free (strip_null_json_fields (Object m))"
    unfolding strip_null_Object [OF ok] using IH(1) by auto
  moreover have "strip_null_json_fields (Object m) = Object m" if "null_free (Object m)"
  proof -
    have "filter (\<lambda>(_, v). v \<noteq> Null) m = m" using that by (auto simp: filter_id_conv)
    moreover have "map (\<lambda>(k, v). (k, strip_null_json_fields v)) m = m"
      using that IH(2) by (intro map_idI) fastforce
    ultimately show ?thesis unfolding strip_null_Object [OF ok] by simp
  qed
  ultimately show ?case by blast
next
  case (2 items)
  then show ?case by (auto intro: map_idI)
qed simp_all

theorem strip_null_projection_witness:
  "json_ok (Object [(''a'', Null), (''b'', Array [Null])]) \<and>
   null_free (strip_null_json_fields (Object [(''a'', Null), (''b'', Array [Null])])) \<and>
   strip_null_json_fields (Object [(''a'', Null), (''b'', Array [Null])]) = Object [(''b'', Array [Null])]"
proof -
  have ok: "json_ok (Object [(''a'', Null), (''b'', Array [Null])])"
    by (simp add: bt_ok_def byte_of_def)
  show ?thesis
    using strip_null_projection [OF ok] ok by (simp add: bt_collect_def)
qed

text \<open>The documents of a search hit: the hit itself and, recursively, the documents joined to it.\<close>

inductive hit_document :: "json \<Rightarrow> json \<Rightarrow> bool" where
  self: "hit_document d d"
| joined: "map_of m ''joined'' = Some (Object j) \<Longrightarrow> (coll, Array items) \<in> set j \<Longrightarrow> y \<in> set items \<Longrightarrow>
    hit_document y d \<Longrightarrow> hit_document (Object m) d"

lemma exclude_str_joined [simp]: "exclude_str f \<noteq> ''joined''" "''joined'' \<noteq> exclude_str f"
  by (cases f; simp)+

lemma bt_ok_null_fields: "bt_ok m \<Longrightarrow> bt_ok (null_fields ex m)"
  unfolding null_fields_def by (induction ex arbitrary: m) auto

lemma map_of_null_fields:
  "bt_ok m \<Longrightarrow> map_of (null_fields ex m) k = (if k \<in> exclude_str ` set ex then Some Null else map_of m k)"
  unfolding null_fields_def
  by (induction ex arbitrary: m) (auto simp: map_of_bt_insert)

lemma apply_exclude_Object:
  assumes "bt_ok m"
  obtains m' where "apply_search_exclude (Object m) ex = Object m'"
    "\<And>k. k \<noteq> ''joined'' \<Longrightarrow> map_of m' k = (if k \<in> exclude_str ` set ex then Some Null else map_of m k)"
    "\<And>j. map_of m' ''joined'' = Some (Object j) \<Longrightarrow>
       \<exists>j0. map_of m ''joined'' = Some (Object j0) \<and>
        j = bt_collect (map (\<lambda>(coll, docs). (coll, case docs of
              Array items \<Rightarrow> Array (map (\<lambda>d. apply_search_exclude d ex) items)
            | other \<Rightarrow> other)) j0)"
proof -
  note facts = map_of_null_fields [OF assms] bt_ok_null_fields [OF assms]
  have none: "''joined'' \<notin> exclude_str ` set ex" by auto
  show thesis
  proof (cases "\<exists>j0. map_of m ''joined'' = Some (Object j0)")
    case True
    then obtain j0 where "map_of m ''joined'' = Some (Object j0)" by blast
    then show ?thesis
      using none by (intro that) (auto simp: facts map_of_bt_insert)
  next
    case False
    then have "apply_search_exclude (Object m) ex = Object (null_fields ex m)"
      using none by (cases "map_of m ''joined''") (auto simp: facts Let_def split: json.split)
    then show ?thesis using False none by (intro that) (auto simp: facts)
  qed
qed

declare apply_search_exclude.simps(1) [simp del]

lemma excluded_everywhere:
  assumes "json_ok v" "hit_document (apply_search_exclude v ex) (Object d)" "f \<in> set ex"
  shows "map_of d (exclude_str f) = Some Null"
  using assms(1,2)
proof (induction v rule: measure_induct_rule [of size])
  case (less v)
  show ?case
  proof (cases v)
    case (Object m)
    with less.prems(1) have ok: "bt_ok m" by simp
    obtain m' where m': "apply_search_exclude (Object m) ex = Object m'"
      "map_of m' (exclude_str f) = Some Null"
      "\<And>j. map_of m' ''joined'' = Some (Object j) \<Longrightarrow>
         \<exists>j0. map_of m ''joined'' = Some (Object j0) \<and>
          j = bt_collect (map (\<lambda>(coll, docs). (coll, case docs of
                Array items \<Rightarrow> Array (map (\<lambda>d. apply_search_exclude d ex) items)
              | other \<Rightarrow> other)) j0)"
      by (rule apply_exclude_Object [OF ok, of ex]) (use assms(3) in simp)
    from less.prems(2)[unfolded Object m'(1)] show ?thesis
    proof cases
      case self
      with m'(2) show ?thesis by simp
    next
      case (joined j coll items y)
      obtain j0 where j0: "map_of m ''joined'' = Some (Object j0)"
        and j: "j = bt_collect (map (\<lambda>(coll, docs). (coll, case docs of
                Array items \<Rightarrow> Array (map (\<lambda>d. apply_search_exclude d ex) items)
              | other \<Rightarrow> other)) j0)"
        using m'(3) [OF joined(1)] by blast
      have mem: "(''joined'', Object j0) \<in> set m" using j0 by (rule map_of_SomeD)
      then have okj: "json_ok (Object j0)" using less.prems(1) Object by force
      then obtain docs where docs: "(coll, docs) \<in> set j0"
        "Array items = (case docs of Array items \<Rightarrow> Array (map (\<lambda>d. apply_search_exclude d ex) items)
              | other \<Rightarrow> other)"
        using joined(2) unfolding j by (subst (asm) bt_collect_mapped) auto
      then obtain items0 where items: "docs = Array items0" "items = map (\<lambda>d. apply_search_exclude d ex) items0"
        by (cases docs) auto
      then obtain z where z: "z \<in> set items0" "y = apply_search_exclude z ex" using joined(3) by auto
      have "size z < size v"
        using size_json_item [OF z(1)] size_json_member [OF docs(1)] size_json_member [OF mem]
        unfolding items(1) Object by linarith
      moreover have "json_ok z" using okj docs(1) z(1) unfolding items(1) by force
      ultimately show ?thesis using less.IH [of z] joined(4) unfolding z(2) by blast
    qed
  qed (use less.prems(2) in \<open>auto elim: hit_document.cases\<close>)
qed

text \<open>
  After the exclusion every excluded field is present and null in the hit and in every document
  joined to it at any depth, and every other field of the hit except the joined documents is
  unchanged.
\<close>

theorem search_exclude_complete:
  assumes "json_ok (Object m)"
  shows "(\<forall>d f. hit_document (apply_search_exclude (Object m) ex) (Object d) \<longrightarrow> f \<in> set ex \<longrightarrow>
            map_of d (exclude_str f) = Some Null) \<and>
         (\<exists>m'. apply_search_exclude (Object m) ex = Object m' \<and>
            (\<forall>k. k \<noteq> ''joined'' \<longrightarrow> k \<notin> exclude_str ` set ex \<longrightarrow> map_of m' k = map_of m k))"
proof -
  obtain m' where "apply_search_exclude (Object m) ex = Object m'"
    "\<And>k. k \<noteq> ''joined'' \<Longrightarrow> map_of m' k = (if k \<in> exclude_str ` set ex then Some Null else map_of m k)"
    using assms apply_exclude_Object [of m ex] by (metis json_ok.simps(1))
  then show ?thesis using excluded_everywhere [OF assms, of ex] by auto
qed

theorem search_exclude_complete_witness:
  "map_of [(''id'', String ''1''), (''name'', Null)] (exclude_str XName) = Some Null \<and>
   apply_search_exclude (Object [(''id'', String ''1''), (''name'', String ''n'')]) [XName] =
     Object [(''id'', String ''1''), (''name'', Null)]"
proof -
  have ok: "json_ok (Object [(''id'', String ''1''), (''name'', String ''n'')])"
    by (simp add: bt_ok_def byte_of_def)
  have run: "apply_search_exclude (Object [(''id'', String ''1''), (''name'', String ''n'')]) [XName] =
     Object [(''id'', String ''1''), (''name'', Null)]"
    by (simp add: apply_search_exclude.simps null_fields_def byte_of_def)
  show ?thesis
    using search_exclude_complete [OF ok, of "[XName]"] hit_document.self run by auto
qed

section \<open>Properties of the collection configuration\<close>

lemma canonical_idem [simp]: "canonical_vector_type (canonical_vector_type t) = canonical_vector_type t"
  by (cases t) auto

lemma normalization_default_idem [simp]:
  "apply_normalization_default (apply_normalization_default n t) t = apply_normalization_default n t"
  by (simp add: apply_normalization_default_def)

lemma into_internal_fields:
  "vc_type (vector_config_into_internal v) = canonical_vector_type (vc_type v)"
  "vc_normalization (vector_config_into_internal v) =
     apply_normalization_default (vc_normalization v) (canonical_vector_type (vc_type v))"
  "vc_index_fields (vector_config_into_internal v) =
     (if vc_doc_template v = None \<and> vc_query_template v = None
      then Some (unwrap_or default_index_fields (vc_index_fields v)) else None)"
  "vc_doc_template (vector_config_into_internal v) = vc_doc_template v"
  "vc_query_template (vector_config_into_internal v) = vc_query_template v"
  by (simp_all add: vector_config_into_internal_def Let_def vector_config.defs)

lemma truncate_into_internal:
  "vector_config.truncate (vector_config_into_internal v) =
     v\<lparr>vc_type := canonical_vector_type (vc_type v),
       vc_normalization := apply_normalization_default (vc_normalization v) (canonical_vector_type (vc_type v)),
       vc_index_fields := (if vc_doc_template v = None \<and> vc_query_template v = None
         then Some (unwrap_or default_index_fields (vc_index_fields v)) else None)\<rparr>"
  by (cases v) (simp add: vector_config_into_internal_def Let_def vector_config.defs)

lemma from_into_internal:
  "vector_config_from_internal (vector_config_into_internal v) =
     v\<lparr>vc_type := canonical_vector_type (vc_type v), vc_query_model := None, vc_query_revision := None,
       vc_normalization := apply_normalization_default (vc_normalization v) (canonical_vector_type (vc_type v)),
       vc_index_fields := (if vc_doc_template v = None
         then Some (if vc_query_template v = None
                    then unwrap_or default_index_fields (vc_index_fields v) else default_index_fields)
         else None),
       vc_keep_case := default_keep_case\<rparr>"
  unfolding vector_config_from_internal_def truncate_into_internal Let_def
  by (cases v) simp

text \<open>
  The configuration shown by the API is stable: submitting it again stores a configuration that
  is shown the same way. A stored vector has index fields exactly when it has no template, never
  has the legacy \<open>keyword\<close> type and always has its normalization decided.
\<close>

theorem vector_config_stable:
  "vector_config_from_internal (vector_config_into_internal (vector_config_from_internal
     (vector_config_into_internal v))) =
     vector_config_from_internal (vector_config_into_internal v) \<and>
   (vc_index_fields (vector_config_into_internal v) \<noteq> None \<longleftrightarrow>
      vc_doc_template (vector_config_into_internal v) = None \<and>
      vc_query_template (vector_config_into_internal v) = None) \<and>
   vc_type (vector_config_into_internal v) \<noteq> Keyword \<and>
   vc_normalization (vector_config_into_internal v) \<noteq> None"
proof -
  have kw: "canonical_vector_type t \<noteq> Keyword" for t by (cases t) auto
  have nm: "apply_normalization_default n t \<noteq> None" for n t by (simp add: apply_normalization_default_def)
  have stable: "vector_config_from_internal (vector_config_into_internal (vector_config_from_internal
     (vector_config_into_internal v))) =
     vector_config_from_internal (vector_config_into_internal v)"
    unfolding from_into_internal by (cases v) simp
  show ?thesis
    unfolding stable using kw nm by (simp add: into_internal_fields)
qed

lemma to_ascii_lowercase_str [simp]: "to_ascii_lowercase (vector_type_str t) = vector_type_str t"
  by (cases t) (simp_all add: to_ascii_lowercase_def byte_of_def)

text \<open>
  Reading a vector type back from its written form gives the canonical type, and it is read
  whatever the case of its letters.
\<close>

theorem vector_type_roundtrip:
  "parse_vector_type (vector_type_str t) = Inr (canonical_vector_type t) \<and>
   (\<forall>s. to_ascii_lowercase s = vector_type_str t \<longrightarrow> parse_vector_type s = Inr (canonical_vector_type t))"
proof -
  have "parse_vector_type s = Inr (canonical_vector_type t)"
    if "to_ascii_lowercase s = vector_type_str t" for s
    using that by (cases t) (simp_all add: parse_vector_type_def)
  then show ?thesis by simp
qed

theorem vector_type_roundtrip_witness:
  "parse_vector_type ''Dense_MODEL'' = Inr DenseModel \<and> parse_vector_type ''keyword'' = Inr Wmtr"
proof -
  have "to_ascii_lowercase ''Dense_MODEL'' = vector_type_str DenseModel"
    by code_simp
  then show ?thesis
    using vector_type_roundtrip [of DenseModel] vector_type_roundtrip [of Keyword] by simp
qed

end
