(* ===== verification/Filter_Parser.thy ===== *)
theory Filter_Parser
  imports Models
begin

text \<open>
  The filter language: the grammar \<open>src/src/filter_parser.pest\<close> as functions on the remaining input, the
  construction of a filter from the parse tree and \<open>parse_filter\<close> of \<open>src/src/filter_parser.rs\<close>. The grammar is
  a parsing expression grammar: choices are ordered, repetition is greedy, and blanks may stand between the
  parts of every rule that is not atomic. The functions have fuel; \<open>parse_total\<close> shows that four times the
  length of the input and four more is always enough. The part that both grammars of the program share takes
  the rule for comparisons as an argument.
\<close>

section \<open>Tokens\<close>

definition is_blank :: "char \<Rightarrow> bool" where
  "is_blank c \<longleftrightarrow> c \<in> {CHR '' '', CHR 0x09, CHR 0x0D, CHR 0x0A}"

definition skip :: "string \<Rightarrow> string" where
  "skip s = dropWhile is_blank s"

definition is_digit :: "char \<Rightarrow> bool" where
  "is_digit c \<longleftrightarrow> 48 \<le> byte_of c \<and> byte_of c \<le> 57"

definition is_alpha :: "char \<Rightarrow> bool" where
  "is_alpha c \<longleftrightarrow> 65 \<le> byte_of c \<and> byte_of c \<le> 90 \<or> 97 \<le> byte_of c \<and> byte_of c \<le> 122"

definition is_alnum :: "char \<Rightarrow> bool" where
  "is_alnum c \<longleftrightarrow> is_alpha c \<or> is_digit c"

definition is_name_char :: "char \<Rightarrow> bool" where
  "is_name_char c \<longleftrightarrow> is_alnum c \<or> c = CHR ''_'' \<or> c = CHR ''-''"

definition ascii_lower :: "char \<Rightarrow> char" where
  "ascii_lower c = (if 65 \<le> byte_of c \<and> byte_of c \<le> 90 then char_of (byte_of c + 32) else c)"

text \<open>\<open>^"word"\<close>: the letters in any case, and nothing about what follows.\<close>

definition keyword :: "string \<Rightarrow> string \<Rightarrow> string option" where
  "keyword w s = (if map ascii_lower (take (length w) s) = w then Some (drop (length w) s) else None)"

definition literal :: "string \<Rightarrow> string \<Rightarrow> string option" where
  "literal w s = strip_prefix w s"

fun field :: "string \<Rightarrow> (string \<times> string) option" where
  "field [] = None"
| "field (c # s) = (if is_alnum c then Some (c # takeWhile is_name_char s, dropWhile is_name_char s) else None)"

datatype pop = RLte | RGte | RNeq | RLt | RGt | REq

definition op_table :: "(string \<times> pop) list" where
  "op_table = [(''<='', RLte), (''>='', RGte), (''!='', RNeq), (''<'', RLt), (''>'', RGt), (''='', REq)]"

fun first_op :: "(string \<times> pop) list \<Rightarrow> string \<Rightarrow> (pop \<times> string) option" where
  "first_op [] s = None"
| "first_op ((w, p) # ops) s = (case literal w s of Some r \<Rightarrow> Some (p, r) | None \<Rightarrow> first_op ops s)"

datatype pvalue =
    PString string
  | PFloat string
  | PInteger string
  | PBoolean string
  | PNull

fun string_p :: "string \<Rightarrow> (pvalue \<times> string) option" where
  "string_p [] = None"
| "string_p (c # s) =
     (if c = CHR 0x22
      then case dropWhile (\<lambda>x. x \<noteq> CHR 0x22) s of
             [] \<Rightarrow> None
           | q # r \<Rightarrow> Some (PString (takeWhile (\<lambda>x. x \<noteq> CHR 0x22) s), r)
      else None)"

definition split_sign :: "string \<Rightarrow> string \<times> string" where
  "split_sign s = (if s \<noteq> [] \<and> hd s = CHR ''-'' then (''-'', tl s) else ([], s))"

definition integer_p :: "string \<Rightarrow> (string \<times> string) option" where
  "integer_p s =
     (let (sign, r) = split_sign s; ds = takeWhile is_digit r
      in if ds = [] then None else Some (sign @ ds, dropWhile is_digit r))"

definition float_p :: "string \<Rightarrow> (string \<times> string) option" where
  "float_p s =
     (case integer_p s of
        None \<Rightarrow> None
      | Some (whole, r) \<Rightarrow>
          (case literal ''.'' r of
             None \<Rightarrow> None
           | Some t \<Rightarrow>
               if takeWhile is_digit t = [] then None
               else Some (whole @ ''.'' @ takeWhile is_digit t, dropWhile is_digit t)))"

definition value_p :: "string \<Rightarrow> (pvalue \<times> string) option" where
  "value_p s =
     (case string_p s of Some r \<Rightarrow> Some r
      | None \<Rightarrow> (case float_p s of Some (v, r) \<Rightarrow> Some (PFloat v, r)
      | None \<Rightarrow> (case integer_p s of Some (v, r) \<Rightarrow> Some (PInteger v, r)
      | None \<Rightarrow> (case keyword ''true'' s of Some r \<Rightarrow> Some (PBoolean (take 4 s), r)
      | None \<Rightarrow> (case keyword ''false'' s of Some r \<Rightarrow> Some (PBoolean (take 5 s), r)
      | None \<Rightarrow> (case keyword ''null'' s of Some r \<Rightarrow> Some (PNull, r)
      | None \<Rightarrow> None))))))"

section \<open>Grammar\<close>

datatype ptree =
    OrExpr "ptree list"
  | AndExpr "ptree list"
  | NotExpr ptree
  | ValueComparison string pop pvalue
  | IsNullComparison string
  | IsNotNullComparison string

definition value_comparison :: "(string \<Rightarrow> (string \<times> string) option) \<Rightarrow> string \<Rightarrow> (ptree \<times> string) option" where
  "value_comparison fld s =
     (case fld s of
        None \<Rightarrow> None
      | Some (k, r) \<Rightarrow>
          (case first_op op_table (skip r) of
             None \<Rightarrow> None
           | Some (p, r) \<Rightarrow> map_option (\<lambda>(v, r). (ValueComparison k p v, r)) (value_p (skip r))))"

definition null_comparison :: "bool \<Rightarrow> string \<Rightarrow> (ptree \<times> string) option" where
  "null_comparison negated s =
     (case field s of
        None \<Rightarrow> None
      | Some (k, r) \<Rightarrow>
          Option.bind (keyword ''is'' (skip r)) (\<lambda>r.
          Option.bind (if negated then keyword ''not'' (skip r) else Some r) (\<lambda>r.
          map_option (\<lambda>r. (if negated then IsNotNullComparison k else IsNullComparison k, r)) (keyword ''null'' (skip r)))))"

definition comparison :: "string \<Rightarrow> (ptree \<times> string) option" where
  "comparison s =
     (case null_comparison True s of Some r \<Rightarrow> Some r
      | None \<Rightarrow> (case null_comparison False s of Some r \<Rightarrow> Some r | None \<Rightarrow> value_comparison field s))"

datatype 'a presult = NoFuel | Fail | Parsed 'a string

definition lift_parse :: "('a \<times> string) option \<Rightarrow> 'a presult" where
  "lift_parse r = (case r of None \<Rightarrow> Fail | Some (t, s) \<Rightarrow> Parsed t s)"

text \<open>
  The rules that call each other are one function on the fuel and the rule. \<open>NOrRest\<close> and \<open>NAndRest\<close> are the
  repetitions \<open>(OR ~ and_expr)*\<close> and \<open>(AND ~ not_expr)*\<close> with the trees read so far.
\<close>

datatype grammar_rule =
    NOr
  | NOrRest "ptree list"
  | NAnd
  | NAndRest "ptree list"
  | NNot
  | NAtom

primrec grammar :: "(string \<Rightarrow> (ptree \<times> string) option) \<Rightarrow> nat \<Rightarrow> grammar_rule \<Rightarrow> string \<Rightarrow> ptree presult" where
  "grammar cmp 0 = (\<lambda>rule s. NoFuel)"
| "grammar cmp (Suc n) = (\<lambda>rule s. case rule of
     NOr \<Rightarrow>
       (case grammar cmp n NAnd s of Parsed t r \<Rightarrow> grammar cmp n (NOrRest [t]) r | Fail \<Rightarrow> Fail | NoFuel \<Rightarrow> NoFuel)
   | NOrRest ts \<Rightarrow>
       (case keyword ''or'' (skip s) of
          None \<Rightarrow> Parsed (OrExpr ts) s
        | Some r \<Rightarrow>
            (case grammar cmp n NAnd (skip r) of
               Parsed t q \<Rightarrow> grammar cmp n (NOrRest (ts @ [t])) q
             | Fail \<Rightarrow> Parsed (OrExpr ts) s
             | NoFuel \<Rightarrow> NoFuel))
   | NAnd \<Rightarrow>
       (case grammar cmp n NNot s of Parsed t r \<Rightarrow> grammar cmp n (NAndRest [t]) r | Fail \<Rightarrow> Fail | NoFuel \<Rightarrow> NoFuel)
   | NAndRest ts \<Rightarrow>
       (case keyword ''and'' (skip s) of
          None \<Rightarrow> Parsed (AndExpr ts) s
        | Some r \<Rightarrow>
            (case grammar cmp n NNot (skip r) of
               Parsed t q \<Rightarrow> grammar cmp n (NAndRest (ts @ [t])) q
             | Fail \<Rightarrow> Parsed (AndExpr ts) s
             | NoFuel \<Rightarrow> NoFuel))
   | NNot \<Rightarrow>
       (case keyword ''not'' s of
          None \<Rightarrow> grammar cmp n NAtom s
        | Some r \<Rightarrow>
            (case grammar cmp n NNot (skip r) of
               Parsed t q \<Rightarrow> Parsed (NotExpr t) q
             | Fail \<Rightarrow> grammar cmp n NAtom s
             | NoFuel \<Rightarrow> NoFuel))
   | NAtom \<Rightarrow>
       (case literal ''('' s of
          None \<Rightarrow> lift_parse (cmp s)
        | Some r \<Rightarrow>
            (case grammar cmp n NOr (skip r) of
               Parsed t q \<Rightarrow> (case literal '')'' (skip q) of Some u \<Rightarrow> Parsed t u | None \<Rightarrow> lift_parse (cmp s))
             | Fail \<Rightarrow> lift_parse (cmp s)
             | NoFuel \<Rightarrow> NoFuel)))"

definition parse_fuel :: "string \<Rightarrow> nat" where
  "parse_fuel s = 4 * length s + 4"

section \<open>Filters\<close>

fun parse_op :: "pop \<Rightarrow> string" where
  "parse_op REq = ''eq''"
| "parse_op RNeq = ''neq''"
| "parse_op RLt = ''lt''"
| "parse_op RGt = ''gt''"
| "parse_op RLte = ''lte''"
| "parse_op RGte = ''gte''"

fun digits_value :: "nat \<Rightarrow> string \<Rightarrow> nat" where
  "digits_value acc [] = acc"
| "digits_value acc (c # cs) = digits_value (10 * acc + (byte_of c - 48)) cs"

definition parse_i64 :: "string \<Rightarrow> string + int" where
  "parse_i64 s =
     (let (sign, ds) = split_sign s; i = (if sign = ''-'' then - 1 else 1) * int (digits_value 0 ds)
      in if i < - (2 ^ 63) then Inl ''number too small to fit in target type''
         else if 2 ^ 63 \<le> i then Inl ''number too large to fit in target type''
         else Inr i)"

definition json_of_i64 :: "int \<Rightarrow> json" where
  "json_of_i64 i = Number (if 0 \<le> i then PosInt (nat i) else NegInt i)"

text \<open>\<open>Value::from(f64)\<close> is \<open>Null\<close> for a number that is not finite.\<close>

definition json_of_f64 :: "fp \<Rightarrow> json" where
  "json_of_f64 f = (case f of Finite s m \<Rightarrow> Number (Float f) | _ \<Rightarrow> Null)"

function replace_escaped :: "string \<Rightarrow> string" where
  "replace_escaped s =
     (case s of
        [] \<Rightarrow> []
      | [c] \<Rightarrow> [c]
      | c # d # r \<Rightarrow> if c = CHR 0x5C \<and> d = CHR 0x22 then CHR 0x22 # replace_escaped r else c # replace_escaped (d # r))"
  by pat_completeness auto
termination replace_escaped
  by (relation "measure length") auto

declare replace_escaped.simps [simp del]

fun parse_value :: "(string \<Rightarrow> fp) \<Rightarrow> pvalue \<Rightarrow> string + json" where
  "parse_value parse_f64 (PString s) = Inr (String (replace_escaped s))"
| "parse_value parse_f64 (PFloat s) = Inr (json_of_f64 (parse_f64 s))"
| "parse_value parse_f64 (PInteger s) = and_then (map_err (\<lambda>e. ''Invalid integer: '' @ e) (parse_i64 s)) (\<lambda>i. Inr (json_of_i64 i))"
| "parse_value parse_f64 (PBoolean s) = Inr (Bool (map ascii_lower s = ''true''))"
| "parse_value parse_f64 PNull = Inr Null"

fun build_filter :: "(string \<Rightarrow> fp) \<Rightarrow> ptree \<Rightarrow> string + metadata_filter" where
  "build_filter parse_f64 (OrExpr ts) =
     and_then (collect_result (map (build_filter parse_f64) ts))
       (\<lambda>fs. Inr (if length fs = 1 then hd fs else MetadataFilter None (Some fs) None None None None))"
| "build_filter parse_f64 (AndExpr ts) =
     and_then (collect_result (map (build_filter parse_f64) ts))
       (\<lambda>fs. Inr (if length fs = 1 then hd fs else MetadataFilter (Some fs) None None None None None))"
| "build_filter parse_f64 (NotExpr t) =
     and_then (build_filter parse_f64 t) (\<lambda>f. Inr (MetadataFilter None None (Some f) None None None))"
| "build_filter parse_f64 (ValueComparison k p v) =
     and_then (parse_value parse_f64 v) (\<lambda>w. Inr (mf_cmp k (parse_op p) (Some w)))"
| "build_filter parse_f64 (IsNullComparison k) = Inr (mf_cmp k ''is_null'' None)"
| "build_filter parse_f64 (IsNotNullComparison k) =
     Inr (MetadataFilter None None (Some (mf_cmp k ''is_null'' None)) None None None)"

definition parse_filter :: "(string \<Rightarrow> fp) \<Rightarrow> (string \<Rightarrow> string) \<Rightarrow> string \<Rightarrow> (string + metadata_filter) option" where
  "parse_filter parse_f64 pest_error input =
     (case grammar comparison (parse_fuel (trim input)) NOr (trim input) of
        NoFuel \<Rightarrow> None
      | Fail \<Rightarrow> Some (Inl (''Invalid filter expression: '' @ pest_error (trim input)))
      | Parsed t r \<Rightarrow> Some (build_filter parse_f64 t))"


section \<open>The parser always answers\<close>

lemma skip_le: "length (skip s) \<le> length s"
  by (simp add: skip_def length_dropWhile_le)

lemma keyword_le: "keyword w s = Some r \<Longrightarrow> length r + length w = length s"
proof -
  assume k: "keyword w s = Some r"
  then have m: "map ascii_lower (take (length w) s) = w" and r: "r = drop (length w) s"
    by (auto simp: keyword_def split: if_splits)
  have "length w \<le> length s" using arg_cong [OF m, of length] by simp
  then show ?thesis by (simp add: r)
qed

lemma keyword_skip_le: "keyword w s = Some r \<Longrightarrow> length (skip r) + length w \<le> length s"
  using keyword_le [of w s r] skip_le [of r] by simp

lemma keyword_after_skip_le: "keyword w (skip s) = Some r \<Longrightarrow> length r \<le> length s"
  using keyword_le [of w "skip s" r] skip_le [of s] by simp

lemma keyword_skip2_le: "keyword w (skip s) = Some r \<Longrightarrow> length (skip r) + length w \<le> length s"
  using keyword_skip_le [of w "skip s" r] skip_le [of s] by simp

lemma literal_le: "literal w s = Some r \<Longrightarrow> length r + length w = length s"
  by (auto simp: literal_def strip_prefix_def prefix_def split: if_splits)

lemma literal_skip_le: "literal w s = Some r \<Longrightarrow> length (skip r) + length w \<le> length s"
  using literal_le [of w s r] skip_le [of r] by simp

lemma literal_skip2_le: "literal w (skip s) = Some r \<Longrightarrow> length r + length w \<le> length s"
  using literal_le [of w "skip s" r] skip_le [of s] by simp

fun rule_rank :: "grammar_rule \<Rightarrow> nat" where
  "rule_rank NOr = 3"
| "rule_rank NAnd = 2"
| "rule_rank NNot = 1"
| "rule_rank _ = 0"

fun is_rest :: "grammar_rule \<Rightarrow> bool" where
  "is_rest (NOrRest ts) = True"
| "is_rest (NAndRest ts) = True"
| "is_rest _ = False"

lemma grammar_mono: "grammar cmp n rule s \<noteq> NoFuel \<Longrightarrow> n \<le> m \<Longrightarrow> grammar cmp m rule s = grammar cmp n rule s"
proof (induction n arbitrary: m rule s)
  case 0
  then show ?case by simp
next
  case (Suc n)
  then obtain k where m: "m = Suc k" and k: "n \<le> k" by (cases m) auto
  have ih: "grammar cmp k rule s = grammar cmp n rule s" if "grammar cmp n rule s \<noteq> NoFuel" for rule s
    using Suc.IH [OF that k] .
  show ?case
    using Suc.prems(1) unfolding m
    by (cases rule) (auto simp: ih split: option.splits presult.splits)
qed

text \<open>What the shared rules rely on: a comparison consumes input.\<close>

locale comparison_rule =
  fixes cmp :: "string \<Rightarrow> (ptree \<times> string) option"
  assumes cmp_shortens: "cmp s = Some (t, r) \<Longrightarrow> length r < length s"
begin

lemma lift_shortens: "lift_parse (cmp s) = Parsed t r \<Longrightarrow> length r < length s"
  by (auto simp: lift_parse_def split: option.splits intro: cmp_shortens)

lemma lift_fuel: "lift_parse (cmp s) \<noteq> NoFuel"
  by (auto simp: lift_parse_def split: option.splits)

lemma grammar_shortens:
  "grammar cmp n rule s = Parsed t r \<Longrightarrow> length r \<le> length s \<and> (is_rest rule \<or> length r < length s)"
proof (induction n arbitrary: rule s t r)
  case 0
  then show ?case by simp
next
  case (Suc n)
  have le: "length r \<le> length s" if "grammar cmp n rule s = Parsed t r" for rule s t r
    using Suc.IH [OF that] by simp
  have lt: "length r < length s" if "grammar cmp n rule s = Parsed t r" "\<not> is_rest rule" for rule s t r
    using Suc.IH [OF that(1)] that(2) by simp
  show ?case
  proof (cases rule)
    case NOr
    with Suc.prems obtain t1 r1 where 1: "grammar cmp n NAnd s = Parsed t1 r1" and 2: "grammar cmp n (NOrRest [t1]) r1 = Parsed t r"
      by (auto split: presult.splits)
    show ?thesis using lt [OF 1] le [OF 2] by simp
  next
    case (NOrRest ts)
    show ?thesis
      using Suc.prems NOrRest by (auto split: presult.splits option.splits dest!: keyword_skip2_le le)
  next
    case NAnd
    with Suc.prems obtain t1 r1 where 1: "grammar cmp n NNot s = Parsed t1 r1" and 2: "grammar cmp n (NAndRest [t1]) r1 = Parsed t r"
      by (auto split: presult.splits)
    show ?thesis using lt [OF 1] le [OF 2] by simp
  next
    case (NAndRest ts)
    show ?thesis
      using Suc.prems NAndRest by (auto split: presult.splits option.splits dest!: keyword_skip2_le le)
  next
    case NNot
    show ?thesis
      using Suc.prems NNot by (auto split: presult.splits option.splits dest!: keyword_skip_le lt)
  next
    case NAtom
    show ?thesis
      using Suc.prems NAtom
      by (auto split: presult.splits option.splits dest!: literal_skip_le literal_skip2_le lt lift_shortens)
  qed
qed

lemma grammar_fuel: "4 * length s + rule_rank rule < n \<Longrightarrow> grammar cmp n rule s \<noteq> NoFuel"
proof (induction n arbitrary: rule s)
  case 0
  then show ?case by simp
next
  case (Suc n)
  have ih: "grammar cmp n rule s = NoFuel \<Longrightarrow> n \<le> 4 * length s + rule_rank rule" for rule s
    using Suc.IH [of s rule] by force
  have lt: "length r < length s" if "grammar cmp n rule s = Parsed t r" "\<not> is_rest rule" for rule s t r
    using grammar_shortens [OF that(1)] that(2) by simp
  show ?case
    using Suc.prems
    by (cases rule)
      (auto split: presult.splits option.splits
         dest!: ih lt keyword_skip_le keyword_skip2_le literal_skip_le simp: lift_fuel)
qed

lemma parse_fuel_enough: "grammar cmp (parse_fuel s) NOr s \<noteq> NoFuel"
  by (rule grammar_fuel) (simp add: parse_fuel_def)

end


lemma field_le: "field s = Some (k, r) \<Longrightarrow> length r < length s"
  by (cases s) (auto split: if_splits simp: less_Suc_eq_le length_dropWhile_le)

lemma string_p_le: "string_p s = Some (v, r) \<Longrightarrow> length r \<le> length s"
proof (cases s)
  case (Cons c u)
  assume "string_p s = Some (v, r)"
  then obtain q where "dropWhile (\<lambda>x. x \<noteq> CHR 0x22) u = q # r"
    by (auto simp: Cons split: if_splits list.splits)
  then have "length (q # r) \<le> length u" by (metis length_dropWhile_le)
  then show ?thesis by (simp add: Cons)
qed simp

lemma integer_p_le: "integer_p s = Some (v, r) \<Longrightarrow> length r \<le> length s"
  using length_dropWhile_le [of is_digit s] length_dropWhile_le [of is_digit "tl s"]
  by (auto simp: integer_p_def split_sign_def Let_def split: if_splits)

lemma float_p_le: "float_p s = Some (v, r) \<Longrightarrow> length r \<le> length s"
proof -
  assume "float_p s = Some (v, r)"
  then obtain w q u where i: "integer_p s = Some (w, u)" and q: "literal ''.'' u = Some q" and r: "r = dropWhile is_digit q"
    by (auto simp: float_p_def split: option.splits if_splits)
  show ?thesis using integer_p_le [OF i] literal_le [OF q] length_dropWhile_le [of is_digit q] by (simp add: r)
qed

lemma value_p_le: "value_p s = Some (v, r) \<Longrightarrow> length r \<le> length s"
  by (auto simp: value_p_def split: option.splits dest: string_p_le float_p_le integer_p_le keyword_le)

lemma first_op_le: "first_op ops s = Some (p, r) \<Longrightarrow> length r \<le> length s"
  by (induction ops s rule: first_op.induct) (auto split: option.splits dest: literal_le)

lemma value_comparison_le:
  assumes "value_comparison fld s = Some (t, r)" and fld: "\<And>k r. fld s = Some (k, r) \<Longrightarrow> length r < length s"
  shows "length r < length s"
proof -
  obtain k r1 p r2 v where 1: "fld s = Some (k, r1)" and 2: "first_op op_table (skip r1) = Some (p, r2)"
      and 3: "value_p (skip r2) = Some (v, r)"
    using assms(1) by (auto simp: value_comparison_def split: option.splits)
  show ?thesis
    using fld [OF 1] first_op_le [OF 2] value_p_le [OF 3] skip_le [of r1] skip_le [of r2] by simp
qed

lemma null_comparison_le: "null_comparison b s = Some (t, r) \<Longrightarrow> length r < length s"
  by (auto simp: null_comparison_def split: option.splits bind_splits if_splits
      dest!: field_le keyword_after_skip_le)

interpretation filter_rule: comparison_rule comparison
  by unfold_locales
    (auto simp: comparison_def split: option.splits dest: null_comparison_le value_comparison_le [OF _ field_le])

text \<open>
  Parsing a filter expression ends, on every input and whatever the number parser of the library does: the
  answer is an error message or a filter, so the fuel of the model never decides the outcome.
\<close>

theorem parse_filter_terminates: "\<exists>result. parse_filter parse_f64 pest_error input = Some result"
  using filter_rule.parse_fuel_enough [of "trim input"]
  by (auto simp: parse_filter_def split: presult.splits)


section \<open>Printing and reading back\<close>

text \<open>
  A filter is printed with parentheses around every part. \<open>printable\<close> is what the language can express without
  floating-point numbers: a conjunction or disjunction of at least two parts, a negation, or a comparison whose
  key is a field name that does not start with the letters of \<open>NOT\<close>, and whose value is a string without
  quotes, an integer of 64 bits, a truth value or null.
\<close>

fun print_value :: "json \<Rightarrow> string" where
  "print_value Null = ''null''"
| "print_value (Bool b) = (if b then ''true'' else ''false'')"
| "print_value (Number (PosInt n)) = nat_str n"
| "print_value (Number (NegInt i)) = ''-'' @ nat_str (nat (- i))"
| "print_value (String s) = [CHR 0x22] @ s @ [CHR 0x22]"
| "print_value _ = []"

fun printable_value :: "json \<Rightarrow> bool" where
  "printable_value Null = True"
| "printable_value (Bool b) = True"
| "printable_value (Number (PosInt n)) = (n < 2 ^ 63)"
| "printable_value (Number (NegInt i)) = (i < 0 \<and> - (2 ^ 63) \<le> i)"
| "printable_value (String s) = (CHR 0x22 \<notin> set s)"
| "printable_value _ = False"

definition printable_key :: "string \<Rightarrow> bool" where
  "printable_key k \<longleftrightarrow> field k = Some (k, []) \<and> map ascii_lower (take 3 k) \<noteq> ''not''"

fun op_symbol :: "pop \<Rightarrow> string" where
  "op_symbol REq = ''=''"
| "op_symbol RNeq = ''!=''"
| "op_symbol RLt = ''<''"
| "op_symbol RGt = ''>''"
| "op_symbol RLte = ''<=''"
| "op_symbol RGte = ''>=''"

definition pops :: "pop list" where
  "pops = [REq, RNeq, RLt, RGt, RLte, RGte]"

definition joined :: "string \<Rightarrow> string list \<Rightarrow> string" where
  "joined sep ps = (case ps of [] \<Rightarrow> [] | p # qs \<Rightarrow> p @ concat (map (\<lambda>q. sep @ q) qs))"

definition print_comparison :: "string \<Rightarrow> string \<Rightarrow> json option \<Rightarrow> string" where
  "print_comparison k p v =
     (case v of
        None \<Rightarrow> k @ '' is null''
      | Some w \<Rightarrow> k @ concat (map (\<lambda>q. if parse_op q = p then op_symbol q else []) pops) @ print_value w)"

definition printable_comparison :: "string \<Rightarrow> string \<Rightarrow> json option \<Rightarrow> bool" where
  "printable_comparison k p v \<longleftrightarrow>
     printable_key k \<and>
     (case v of None \<Rightarrow> p = ''is_null'' | Some w \<Rightarrow> p \<in> set (map parse_op pops) \<and> printable_value w)"

fun print_filter :: "metadata_filter \<Rightarrow> string" where
  "print_filter (MetadataFilter a b c k p v) =
     ''('' @
     (case a of
        Some fs \<Rightarrow> joined '' and '' (map print_filter fs)
      | None \<Rightarrow>
          (case b of
             Some fs \<Rightarrow> joined '' or '' (map print_filter fs)
           | None \<Rightarrow>
               (case c of
                  Some f \<Rightarrow> ''not '' @ print_filter f
                | None \<Rightarrow> print_comparison (the k) (the p) v))) @ '')''"

fun printable :: "metadata_filter \<Rightarrow> bool" where
  "printable (MetadataFilter a b c k p v) =
     (case a of
        Some fs \<Rightarrow> 2 \<le> length fs \<and> list_all printable fs \<and> b = None \<and> c = None \<and> k = None \<and> p = None \<and> v = None
      | None \<Rightarrow>
          (case b of
             Some fs \<Rightarrow> 2 \<le> length fs \<and> list_all printable fs \<and> c = None \<and> k = None \<and> p = None \<and> v = None
           | None \<Rightarrow>
               (case c of
                  Some f \<Rightarrow> printable f \<and> k = None \<and> p = None \<and> v = None
                | None \<Rightarrow> k \<noteq> None \<and> p \<noteq> None \<and> printable_comparison (the k) (the p) v)))"

definition parses :: "(string \<Rightarrow> (ptree \<times> string) option) \<Rightarrow> grammar_rule \<Rightarrow> string \<Rightarrow> ptree \<Rightarrow> string \<Rightarrow> bool" where
  "parses cmp rule s t r \<longleftrightarrow> (\<exists>n. grammar cmp n rule s = Parsed t r)"

lemma parsesI: "grammar cmp (Suc n) rule s = Parsed t r \<Longrightarrow> parses cmp rule s t r"
  unfolding parses_def by blast

lemma parses_at: "parses cmp rule s t r \<Longrightarrow> \<exists>n. \<forall>m\<ge>n. grammar cmp m rule s = Parsed t r"
  unfolding parses_def using grammar_mono [of cmp _ rule s] by (metis presult.distinct(3))

lemma parses_both:
  assumes "parses cmp rule s t r" "parses cmp rule' s' t' r'"
  obtains n where "grammar cmp n rule s = Parsed t r" "grammar cmp n rule' s' = Parsed t' r'"
  using parses_at [OF assms(1)] parses_at [OF assms(2)] by (metis nat_le_linear)

lemma parses_or: "parses cmp NAnd s t q \<Longrightarrow> parses cmp (NOrRest [t]) q u r \<Longrightarrow> parses cmp NOr s u r"
  apply (erule (1) parses_both)
  subgoal for n by (rule parsesI [of _ n]) simp
  done

lemma parses_and: "parses cmp NNot s t q \<Longrightarrow> parses cmp (NAndRest [t]) q u r \<Longrightarrow> parses cmp NAnd s u r"
  apply (erule (1) parses_both)
  subgoal for n by (rule parsesI [of _ n]) simp
  done

lemma parses_or_end: "keyword ''or'' (skip s) = None \<Longrightarrow> parses cmp (NOrRest ts) s (OrExpr ts) s"
  by (auto simp: parses_def intro: exI [of _ "Suc 0"])

lemma parses_and_end: "keyword ''and'' (skip s) = None \<Longrightarrow> parses cmp (NAndRest ts) s (AndExpr ts) s"
  by (auto simp: parses_def intro: exI [of _ "Suc 0"])

lemma parses_or_more:
  "keyword ''or'' (skip s) = Some q \<Longrightarrow> parses cmp NAnd (skip q) t p \<Longrightarrow> parses cmp (NOrRest (ts @ [t])) p u r \<Longrightarrow>
   parses cmp (NOrRest ts) s u r"
  apply (erule (1) parses_both)
  subgoal for n by (rule parsesI [of _ n]) simp
  done

lemma parses_and_more:
  "keyword ''and'' (skip s) = Some q \<Longrightarrow> parses cmp NNot (skip q) t p \<Longrightarrow> parses cmp (NAndRest (ts @ [t])) p u r \<Longrightarrow>
   parses cmp (NAndRest ts) s u r"
  apply (erule (1) parses_both)
  subgoal for n by (rule parsesI [of _ n]) simp
  done

lemma parses_not: "keyword ''not'' s = Some q \<Longrightarrow> parses cmp NNot (skip q) t r \<Longrightarrow> parses cmp NNot s (NotExpr t) r"
  unfolding parses_def [of cmp NNot "skip q"]
  apply (erule exE)
  subgoal for n by (rule parsesI [of _ n]) simp
  done

lemma parses_atom: "keyword ''not'' s = None \<Longrightarrow> parses cmp NAtom s t r \<Longrightarrow> parses cmp NNot s t r"
  unfolding parses_def [of cmp NAtom s]
  apply (erule exE)
  subgoal for n by (rule parsesI [of _ n]) simp
  done

lemma parses_paren:
  "literal ''('' s = Some q \<Longrightarrow> parses cmp NOr (skip q) t p \<Longrightarrow> literal '')'' (skip p) = Some r \<Longrightarrow> parses cmp NAtom s t r"
  unfolding parses_def [of cmp NOr "skip q"]
  apply (erule exE)
  subgoal for n by (rule parsesI [of _ n]) simp
  done

lemma parses_comparison: "literal ''('' s = None \<Longrightarrow> cmp s = Some (t, r) \<Longrightarrow> parses cmp NAtom s t r"
  by (auto simp: parses_def lift_parse_def intro: exI [of _ "Suc 0"])


subsection \<open>Values\<close>

lemma dec_ne [simp]: "nat_str n \<noteq> []"
  by (subst nat_str.simps) simp

lemma digit_byte: "d < 10 \<Longrightarrow> byte_of (char_of (48 + d)) = 48 + d"
  by (simp add: byte_of_def)

lemma digits_value_snoc: "digits_value acc (xs @ [c]) = 10 * digits_value acc xs + (byte_of c - 48)"
  by (induction xs arbitrary: acc) auto

lemma dec_value [simp]: "digits_value 0 (nat_str n) = n"
proof (induction n rule: nat_str.induct)
  case (1 n)
  show ?case
  proof (cases "n < 10")
    case True
    then show ?thesis by (simp add: nat_str.simps [of n] digit_byte)
  next
    case False
    then show ?thesis using 1 by (simp add: nat_str.simps [of n] digits_value_snoc digit_byte)
  qed
qed

lemma dec_digits: "c \<in> set (nat_str n) \<Longrightarrow> is_digit c"
proof (induction n rule: nat_str.induct)
  case (1 n)
  then show ?case
    by (subst (asm) (2) nat_str.simps) (auto simp: is_digit_def digit_byte split: if_splits)
qed

lemma dec_take: "takeWhile is_digit (nat_str n @ '')'' @ r) = nat_str n" "dropWhile is_digit (nat_str n @ '')'' @ r) = '')'' @ r"
  using dec_digits [of _ n] by (simp_all add: is_digit_def byte_of_def)

lemma dec_hd: "nat_str n = c # cs \<Longrightarrow> is_digit c"
  using dec_digits [of c n] by simp

lemma digit_not: "is_digit c \<Longrightarrow> c \<noteq> CHR ''-'' \<and> c \<noteq> CHR 0x22 \<and> \<not> is_blank c \<and> c \<noteq> CHR ''=''"
  by (auto simp: is_digit_def is_blank_def byte_of_def)

lemma split_sign_dec: "split_sign (nat_str n @ r) = ([], nat_str n @ r)" "split_sign (nat_str n) = ([], nat_str n)"
  "split_sign (''-'' @ s) = (''-'', s)"
  using dec_hd [of n "hd (nat_str n)" "tl (nat_str n)"] digit_not [of "hd (nat_str n)"]
  by (auto simp: split_sign_def)

lemma string_p_ne: "hd s \<noteq> CHR 0x22 \<Longrightarrow> string_p s = None"
  by (cases s) auto

lemma integer_p_dec:
  "integer_p (nat_str n @ '')'' @ r) = Some (nat_str n, '')'' @ r)"
  "integer_p (''-'' @ nat_str n @ '')'' @ r) = Some (''-'' @ nat_str n, '')'' @ r)"
  unfolding integer_p_def split_sign_dec by (simp_all add: dec_take [simplified])

lemma float_p_dec: "integer_p s = Some (v, '')'' @ r) \<Longrightarrow> float_p s = None"
  by (simp add: float_p_def literal_def strip_prefix_def)

lemma value_p_integer:
  "hd s \<noteq> CHR 0x22 \<Longrightarrow> integer_p s = Some (v, '')'' @ r) \<Longrightarrow> value_p s = Some (PInteger v, '')'' @ r)"
  unfolding value_p_def by (simp add: string_p_ne float_p_dec [simplified])

lemma hd_dec_ne: "hd (nat_str n @ r) \<noteq> CHR 0x22" "\<not> is_blank (hd (nat_str n @ r))" "hd (nat_str n) \<noteq> CHR ''=''"
  using dec_hd [of n "hd (nat_str n)" "tl (nat_str n)"] digit_not [of "hd (nat_str n)"] by auto

lemma replace_escaped_id: "CHR 0x22 \<notin> set s \<Longrightarrow> replace_escaped s = s"
  by (induction s rule: replace_escaped.induct) (subst replace_escaped.simps, auto split: list.splits)

lemma string_p_print: "CHR 0x22 \<notin> set s \<Longrightarrow> string_p (CHR 0x22 # s @ CHR 0x22 # r) = Some (PString s, r)"
  by (auto simp: takeWhile_append dropWhile_append)

lemma value_round_trip:
  assumes "printable_value v"
  shows "\<exists>p. value_p (print_value v @ '')'' @ r) = Some (p, '')'' @ r) \<and> parse_value pf p = Inr v"
proof (cases v)
  case (Number x)
  show ?thesis
  proof (cases x)
    case (PosInt n)
    have "value_p (nat_str n @ '')'' @ r) = Some (PInteger (nat_str n), '')'' @ r)"
      by (rule value_p_integer [OF hd_dec_ne(1) integer_p_dec(1)])
    moreover have "parse_value pf (PInteger (nat_str n)) = Inr v"
      using assms by (simp add: Number PosInt parse_i64_def split_sign_dec json_of_i64_def Let_def)
    ultimately show ?thesis by (auto simp: Number PosInt)
  next
    case (NegInt i)
    have "value_p (''-'' @ nat_str (nat (- i)) @ '')'' @ r) = Some (PInteger (''-'' @ nat_str (nat (- i))), '')'' @ r)"
      by (rule value_p_integer [OF _ integer_p_dec(2)]) simp
    moreover have "parse_value pf (PInteger (''-'' @ nat_str (nat (- i)))) = Inr v"
      unfolding parse_value.simps parse_i64_def split_sign_dec
      using assms by (simp add: Number NegInt json_of_i64_def Let_def not_less nat_le_iff)
    ultimately show ?thesis by (auto simp: Number NegInt)
  qed (use assms Number in auto)
next
  case (String s)
  then show ?thesis
    using assms string_p_print [of s "'')'' @ r"]
    by (auto simp: value_p_def replace_escaped_id)
next
  case (Bool b)
  then show ?thesis
    by (cases b) (simp_all add: value_p_def integer_p_def float_p_def split_sign_def is_digit_def byte_of_def keyword_def ascii_lower_def)
next
  case Null
  then show ?thesis
    by (simp add: value_p_def integer_p_def float_p_def split_sign_def is_digit_def byte_of_def keyword_def ascii_lower_def)
qed (use assms in auto)

lemma value_no_blank: "printable_value v \<Longrightarrow> skip (print_value v @ r) = print_value v @ r"
  by (cases v rule: print_value.cases)
    (use hd_dec_ne(2) in \<open>auto simp: skip_def is_blank_def dropWhile_eq_self_iff\<close>)


lemma value_hd: "printable_value v \<Longrightarrow> hd (print_value v @ r) \<noteq> CHR ''='' \<and> print_value v \<noteq> []"
  using hd_dec_ne(3) by (cases v rule: print_value.cases) auto

subsection \<open>Comparisons\<close>

lemma field_print:
  assumes "field k = Some (k, [])" "\<not> is_name_char c"
  shows "field (k @ c # r) = Some (k, c # r)"
proof (cases k)
  case (Cons a l)
  then have "is_alnum a" "takeWhile is_name_char l = l" "dropWhile is_name_char l = []"
    using assms(1) by (auto split: if_splits)
  then have "\<forall>x\<in>set l. is_name_char x" by (simp add: takeWhile_eq_all_conv)
  then show ?thesis using Cons \<open>is_alnum a\<close> assms(2) by simp
qed (use assms in simp)

lemma op_print: "hd v \<noteq> CHR ''='' \<Longrightarrow> v \<noteq> [] \<Longrightarrow> first_op op_table (op_symbol q @ v) = Some (q, v)"
  by (cases q; cases v) (auto simp: op_table_def literal_def strip_prefix_def)

lemma op_symbol_first:
  obtains c s where "op_symbol q = c # s" "\<not> is_name_char c" "\<not> is_blank c" "ascii_lower c \<notin> set ''iot''"
  by (cases q) (auto simp: is_name_char_def is_alnum_def is_alpha_def is_digit_def is_blank_def byte_of_def ascii_lower_def)

lemma print_op: "concat (map (\<lambda>x. if parse_op x = parse_op q then op_symbol x else []) pops) = op_symbol q"
  by (cases q) (simp_all add: pops_def)

lemma comparison_value:
  assumes "printable_key k" "printable_value w"
  shows "\<exists>p. comparison (k @ op_symbol q @ print_value w @ '')'' @ r) = Some (ValueComparison k q p, '')'' @ r) \<and>
    parse_value pf p = Inr w"
proof -
  obtain c s where c: "op_symbol q = c # s" "\<not> is_name_char c" "\<not> is_blank c" "ascii_lower c \<notin> set ''iot''"
    by (rule op_symbol_first)
  obtain p where p: "value_p (print_value w @ '')'' @ r) = Some (p, '')'' @ r)" "parse_value pf p = Inr w"
    using value_round_trip [OF assms(2), of r pf] by blast
  have f: "field (k @ op_symbol q @ print_value w @ '')'' @ r) = Some (k, op_symbol q @ print_value w @ '')'' @ r)"
    using field_print [of k c] assms(1) c by (simp add: printable_key_def)
  have sk: "skip (op_symbol q @ v) = op_symbol q @ v" for v
    using c by (simp add: skip_def)
  have op: "first_op op_table (op_symbol q @ print_value w @ '')'' @ r) = Some (q, print_value w @ '')'' @ r)"
    by (rule op_print) (use value_hd [OF assms(2), of "'')'' @ r"] in auto)
  have "null_comparison b (k @ op_symbol q @ print_value w @ '')'' @ r) = None" for b
    unfolding null_comparison_def f option.case prod.case sk using c by (auto simp: keyword_def)
  moreover have "value_comparison field (k @ op_symbol q @ print_value w @ '')'' @ r) = Some (ValueComparison k q p, '')'' @ r)"
    unfolding value_comparison_def f option.case prod.case sk op option.case value_no_blank [OF assms(2)] p by simp
  ultimately show ?thesis using p(2) by (simp add: comparison_def)
qed

lemma comparison_null:
  assumes "printable_key k"
  shows "comparison (k @ '' is null'' @ '')'' @ r) = Some (IsNullComparison k, '')'' @ r)"
proof -
  have f: "field (k @ '' is null'' @ '')'' @ r) = Some (k, '' is null'' @ '')'' @ r)"
    using field_print [of k "CHR '' ''"] assms
    by (simp add: printable_key_def is_name_char_def is_alnum_def is_alpha_def is_digit_def byte_of_def)
  show ?thesis
    unfolding comparison_def null_comparison_def f option.case prod.case
    by (simp add: skip_def is_blank_def keyword_def ascii_lower_def byte_of_def)
qed

lemma key_first:
  assumes "printable_key k"
  shows "literal ''('' (k @ r) = None" "ascii_lower c \<notin> set ''ot'' \<Longrightarrow> keyword ''not'' (k @ c # r) = None" "skip (k @ r) = k @ r"
proof -
  obtain a l where k: "k = a # l" and a: "is_alnum a"
    using assms by (cases k) (auto simp: printable_key_def split: if_splits)
  show "literal ''('' (k @ r) = None" "skip (k @ r) = k @ r"
    using a by (auto simp: k literal_def strip_prefix_def skip_def is_blank_def is_alnum_def is_alpha_def is_digit_def byte_of_def)
  show "keyword ''not'' (k @ c # r) = None" if "ascii_lower c \<notin> set ''ot''"
  proof (cases l)
    case Nil
    then show ?thesis using that by (auto simp: k keyword_def)
  next
    case (Cons b m)
    then show ?thesis using that assms by (cases m) (auto simp: k keyword_def printable_key_def)
  qed
qed


subsection \<open>Filters\<close>

lemma singleton_or: "parses cmp NAnd s t ('')'' @ r) \<Longrightarrow> parses cmp NOr s (OrExpr [t]) ('')'' @ r)"
  by (erule parses_or, rule parses_or_end) (simp add: skip_def is_blank_def keyword_def ascii_lower_def byte_of_def)

lemma singleton_and:
  "parses cmp NNot s t r \<Longrightarrow> keyword ''and'' (skip r) = None \<Longrightarrow> parses cmp NAnd s (AndExpr [t]) r"
  by (erule parses_and, rule parses_and_end)

lemma close_paren: "skip ('')'' @ r) = '')'' @ r" "keyword ''and'' ('')'' @ r) = None" "keyword ''or'' ('')'' @ r) = None"
  "literal '')'' ('')'' @ r) = Some r"
  by (simp_all add: skip_def is_blank_def keyword_def ascii_lower_def byte_of_def literal_def strip_prefix_def)

lemma open_paren: "keyword ''not'' (''('' @ s) = None" "skip (''('' @ s) = ''('' @ s" "literal ''('' (''('' @ s) = Some s"
  by (simp_all add: skip_def is_blank_def keyword_def ascii_lower_def byte_of_def literal_def strip_prefix_def)

lemma keyword_sep:
  "keyword ''and'' (skip ('' and '' @ s)) = Some ('' '' @ s)" "keyword ''or'' (skip ('' or '' @ s)) = Some ('' '' @ s)"
  "keyword ''and'' (skip ('' or '' @ s)) = None" "skip ('' '' @ s) = skip s"
  by (simp_all add: skip_def is_blank_def keyword_def ascii_lower_def byte_of_def)

lemma print_paren: "\<exists>s. print_filter f = ''('' @ s"
  by (cases f) auto

definition reads_back :: "(string \<Rightarrow> fp) \<Rightarrow> metadata_filter \<Rightarrow> bool" where
  "reads_back pf f \<longleftrightarrow> (\<forall>r. \<exists>t. parses comparison NNot (print_filter f @ r) t r \<and> build_filter pf t = Inr f)"

lemma reads_backD:
  "reads_back pf f \<Longrightarrow> \<exists>t. parses comparison NNot (print_filter f @ r) t r \<and> build_filter pf t = Inr f"
  by (simp add: reads_back_def)

lemma reads_backI:
  assumes "print_filter f = ''('' @ s @ '')''"
    and "\<And>r. \<exists>t. parses comparison NOr (skip (s @ '')'' @ r)) t ('')'' @ r) \<and> build_filter pf t = Inr f"
  shows "reads_back pf f"
  unfolding reads_back_def
proof
  fix r
  obtain t where t: "parses comparison NOr (skip (s @ '')'' @ r)) t ('')'' @ r)" "build_filter pf t = Inr f"
    using assms(2) by blast
  have "parses comparison NAtom (''('' @ s @ '')'' @ r) t r"
    by (rule parses_paren [OF open_paren(3) t(1)]) (simp only: close_paren)
  from parses_atom [OF open_paren(1) this]
  show "\<exists>t. parses comparison NNot (print_filter f @ r) t r \<and> build_filter pf t = Inr f"
    using t(2) by (auto simp: assms(1))
qed

lemma print_no_blank: "skip (print_filter f @ r) = print_filter f @ r"
  using print_paren [of f] open_paren(2) by auto

lemma and_list:
  assumes "\<forall>f\<in>set fs. reads_back pf f"
  shows "\<exists>ts. parses comparison (NAndRest acc) (concat (map (\<lambda>f. '' and '' @ print_filter f) fs) @ '')'' @ r)
      (AndExpr (acc @ ts)) ('')'' @ r) \<and> map (build_filter pf) ts = map Inr fs"
  using assms
proof (induction fs arbitrary: acc)
  case Nil
  have "parses comparison (NAndRest acc) ('')'' @ r) (AndExpr (acc @ [])) ('')'' @ r)"
    unfolding append_Nil2 by (rule parses_and_end) (simp only: close_paren)
  then show ?case by force
next
  case (Cons f fs)
  let ?q = "concat (map (\<lambda>f. '' and '' @ print_filter f) fs) @ '')'' @ r"
  obtain t where t: "parses comparison NNot (print_filter f @ ?q) t ?q" "build_filter pf t = Inr f"
    using reads_backD [OF bspec [OF Cons.prems list.set_intros(1)], of ?q] by blast
  obtain ts where ts: "parses comparison (NAndRest (acc @ [t])) ?q (AndExpr ((acc @ [t]) @ ts)) ('')'' @ r)"
      "map (build_filter pf) ts = map Inr fs"
    using Cons.IH [of "acc @ [t]"] Cons.prems by (metis list.set_intros(2))
  have "parses comparison (NAndRest acc) ('' and '' @ print_filter f @ ?q) (AndExpr ((acc @ [t]) @ ts)) ('')'' @ r)"
    by (rule parses_and_more [OF keyword_sep(1) _ ts(1)]) (simp only: keyword_sep print_no_blank t(1))
  then show ?case using t(2) ts(2) by (intro exI [of _ "t # ts"]) simp
qed

lemma or_list:
  assumes "\<forall>f\<in>set fs. reads_back pf f"
  shows "\<exists>ts. parses comparison (NOrRest acc) (concat (map (\<lambda>f. '' or '' @ print_filter f) fs) @ '')'' @ r)
      (OrExpr (acc @ ts)) ('')'' @ r) \<and> map (build_filter pf) ts = map Inr fs"
  using assms
proof (induction fs arbitrary: acc)
  case Nil
  have "parses comparison (NOrRest acc) ('')'' @ r) (OrExpr (acc @ [])) ('')'' @ r)"
    unfolding append_Nil2 by (rule parses_or_end) (simp only: close_paren)
  then show ?case by force
next
  case (Cons f fs)
  let ?q = "concat (map (\<lambda>f. '' or '' @ print_filter f) fs) @ '')'' @ r"
  obtain t where t: "parses comparison NNot (print_filter f @ ?q) t ?q" "build_filter pf t = Inr f"
    using reads_backD [OF bspec [OF Cons.prems list.set_intros(1)], of ?q] by blast
  have k: "keyword ''and'' (skip ?q) = None"
    by (cases fs) (simp_all only: list.map concat.simps append_Nil append_assoc close_paren keyword_sep)
  obtain ts where ts: "parses comparison (NOrRest (acc @ [AndExpr [t]])) ?q (OrExpr ((acc @ [AndExpr [t]]) @ ts)) ('')'' @ r)"
      "map (build_filter pf) ts = map Inr fs"
    using Cons.IH [of "acc @ [AndExpr [t]]"] Cons.prems by (metis list.set_intros(2))
  have "parses comparison (NOrRest acc) ('' or '' @ print_filter f @ ?q) (OrExpr ((acc @ [AndExpr [t]]) @ ts)) ('')'' @ r)"
    by (rule parses_or_more [OF keyword_sep(2) _ ts(1)]) (simp only: keyword_sep print_no_blank singleton_and [OF t(1) k])
  then show ?case using t(2) ts(2) by (intro exI [of _ "AndExpr [t] # ts"]) simp
qed

lemma joined_list: "joined sep (map g (f # fs)) = g f @ concat (map (\<lambda>x. sep @ g x) fs)"
  by (simp add: joined_def comp_def)

lemma and_reads_back:
  assumes "2 \<le> length fs" "\<forall>f\<in>set fs. reads_back pf f"
  shows "reads_back pf (MetadataFilter (Some fs) None None None None None)"
proof -
  obtain f gs where fs: "fs = f # gs" "gs \<noteq> []" using assms(1) by (cases fs; cases "tl fs") auto
  show ?thesis
  proof (rule reads_backI)
    fix r
    let ?q = "concat (map (\<lambda>f. '' and '' @ print_filter f) gs) @ '')'' @ r"
    obtain t where t: "parses comparison NNot (print_filter f @ ?q) t ?q" "build_filter pf t = Inr f"
      using reads_backD [OF bspec [OF assms(2) [unfolded fs(1)] list.set_intros(1)], of ?q] by blast
    obtain ts where ts: "parses comparison (NAndRest [t]) ?q (AndExpr ([t] @ ts)) ('')'' @ r)" "map (build_filter pf) ts = map Inr gs"
      using and_list [of gs pf "[t]" r] assms(2) unfolding fs(1) by (metis list.set_intros(2))
    have p: "skip (joined '' and '' (map print_filter fs) @ '')'' @ r) = print_filter f @ ?q"
      unfolding fs joined_list append_assoc by (rule print_no_blank)
    have "parses comparison NOr (print_filter f @ ?q) (OrExpr [AndExpr ([t] @ ts)]) ('')'' @ r)"
      by (rule singleton_or [OF parses_and [OF t(1) ts(1)]])
    moreover have "length ts = length gs" using arg_cong [OF ts(2), of length] by simp
    moreover have "collect_result (map (build_filter pf) (t # ts)) = Inr fs"
      using t(2) ts(2) by (simp add: fs collect_result_eq_Inr)
    ultimately show "\<exists>t. parses comparison NOr (skip (joined '' and '' (map print_filter fs) @ '')'' @ r)) t ('')'' @ r) \<and>
        build_filter pf t = Inr (MetadataFilter (Some fs) None None None None None)"
      unfolding p using fs(2) by (intro exI [of _ "OrExpr [AndExpr ([t] @ ts)]"]) (auto simp: fs)
  qed simp
qed


lemma or_reads_back:
  assumes "2 \<le> length fs" "\<forall>f\<in>set fs. reads_back pf f"
  shows "reads_back pf (MetadataFilter None (Some fs) None None None None)"
proof -
  obtain f gs where fs: "fs = f # gs" "gs \<noteq> []" using assms(1) by (cases fs; cases "tl fs") auto
  show ?thesis
  proof (rule reads_backI)
    fix r
    let ?q = "concat (map (\<lambda>f. '' or '' @ print_filter f) gs) @ '')'' @ r"
    obtain t where t: "parses comparison NNot (print_filter f @ ?q) t ?q" "build_filter pf t = Inr f"
      using reads_backD [OF bspec [OF assms(2) [unfolded fs(1)] list.set_intros(1)], of ?q] by blast
    have k: "keyword ''and'' (skip ?q) = None"
      by (cases gs) (simp_all only: list.map concat.simps append_Nil append_assoc close_paren keyword_sep)
    obtain ts where ts: "parses comparison (NOrRest [AndExpr [t]]) ?q (OrExpr ([AndExpr [t]] @ ts)) ('')'' @ r)"
        "map (build_filter pf) ts = map Inr gs"
      using or_list [of gs pf "[AndExpr [t]]" r] assms(2) unfolding fs(1) by (metis list.set_intros(2))
    have p: "skip (joined '' or '' (map print_filter fs) @ '')'' @ r) = print_filter f @ ?q"
      unfolding fs joined_list append_assoc by (rule print_no_blank)
    have "parses comparison NOr (print_filter f @ ?q) (OrExpr ([AndExpr [t]] @ ts)) ('')'' @ r)"
      by (rule parses_or [OF singleton_and [OF t(1) k] ts(1)])
    moreover have col: "collect_result (map (build_filter pf) ([AndExpr [t]] @ ts)) = Inr fs"
      using t(2) ts(2) by (simp add: fs collect_result_eq_Inr)
    moreover have "build_filter pf (OrExpr ([AndExpr [t]] @ ts)) = Inr (MetadataFilter None (Some fs) None None None None)"
      unfolding build_filter.simps(1) col using fs by simp
    ultimately show "\<exists>t. parses comparison NOr (skip (joined '' or '' (map print_filter fs) @ '')'' @ r)) t ('')'' @ r) \<and>
        build_filter pf t = Inr (MetadataFilter None (Some fs) None None None None)"
      unfolding p by blast
  qed simp
qed

lemma not_reads_back:
  assumes "reads_back pf f"
  shows "reads_back pf (MetadataFilter None None (Some f) None None None)"
proof (rule reads_backI)
  fix r
  obtain t where t: "parses comparison NNot (print_filter f @ '')'' @ r) t ('')'' @ r)" "build_filter pf t = Inr f"
    using reads_backD [OF assms, of "'')'' @ r"] by blast
  have n: "keyword ''not'' (''not '' @ s) = Some ('' '' @ s)" and s: "skip (''not '' @ s) = ''not '' @ s" for s
    by (simp_all add: keyword_def ascii_lower_def byte_of_def skip_def is_blank_def)
  have "parses comparison NNot (''not '' @ print_filter f @ '')'' @ r) (NotExpr t) ('')'' @ r)"
    by (rule parses_not [OF n]) (simp only: keyword_sep print_no_blank t(1))
  then have "parses comparison NOr (''not '' @ print_filter f @ '')'' @ r) (OrExpr [AndExpr [NotExpr t]]) ('')'' @ r)"
    by (intro singleton_or singleton_and) (simp_all only: close_paren)
  then show "\<exists>t. parses comparison NOr (skip ((''not '' @ print_filter f) @ '')'' @ r)) t ('')'' @ r) \<and>
      build_filter pf t = Inr (MetadataFilter None None (Some f) None None None)"
    unfolding append_assoc s using t(2) by (intro exI [of _ "OrExpr [AndExpr [NotExpr t]]"]) simp
qed simp

lemma comparison_reads_back:
  assumes "printable_comparison k p v"
  shows "reads_back pf (MetadataFilter None None None (Some k) (Some p) v)"
proof (rule reads_backI)
  fix r
  have k: "printable_key k" using assms by (simp add: printable_comparison_def)
  have "\<exists>c s t. print_comparison k p v @ '')'' @ r = k @ c # s \<and> ascii_lower c \<notin> set ''ot'' \<and>
      comparison (k @ c # s) = Some (t, '')'' @ r) \<and> build_filter pf t = Inr (mf_cmp k p v)"
  proof (cases v)
    case None
    then show ?thesis
      using assms comparison_null [OF k, of r]
      by (auto simp: print_comparison_def printable_comparison_def ascii_lower_def byte_of_def)
  next
    case (Some w)
    then obtain q where q: "p = parse_op q" and w: "printable_value w"
      using assms by (auto simp: printable_comparison_def)
    obtain c s where c: "op_symbol q = c # s" "ascii_lower c \<notin> set ''iot''" by (rule op_symbol_first)
    obtain u where "comparison (k @ op_symbol q @ print_value w @ '')'' @ r) = Some (ValueComparison k q u, '')'' @ r)"
        "parse_value pf u = Inr w"
      using comparison_value [OF k w, of q r pf] by blast
    then show ?thesis using c by (auto simp: print_comparison_def Some q print_op)
  qed
  then obtain c s t where e: "print_comparison k p v @ '')'' @ r = k @ c # s" "ascii_lower c \<notin> set ''ot''"
      and t: "comparison (k @ c # s) = Some (t, '')'' @ r)" "build_filter pf t = Inr (mf_cmp k p v)" by blast
  have "parses comparison NNot (k @ c # s) t ('')'' @ r)"
    by (rule parses_atom [OF key_first(2) [OF k e(2)] parses_comparison [of _ comparison, OF _ t(1)]]) (rule key_first(1) [OF k])
  then have "parses comparison NOr (k @ c # s) (OrExpr [AndExpr [t]]) ('')'' @ r)"
    by (intro singleton_or singleton_and) (simp_all only: close_paren)
  then show "\<exists>t. parses comparison NOr (skip (print_comparison k p v @ '')'' @ r)) t ('')'' @ r) \<and>
      build_filter pf t = Inr (MetadataFilter None None None (Some k) (Some p) v)"
    unfolding e(1) key_first(3) [OF k] using t(2) by (intro exI [of _ "OrExpr [AndExpr [t]]"]) (simp add: mf_cmp_def)
qed simp

lemma printable_reads_back: "printable f \<Longrightarrow> reads_back pf f"
proof (induction f rule: printable.induct)
  case (1 a b c k p v)
  then show ?case
    by (auto split: option.splits simp: list_all_iff
        intro!: and_reads_back or_reads_back not_reads_back comparison_reads_back)
qed

lemma parses_answer:
  assumes "parses comparison NOr (trim s) t r"
  shows "parse_filter pf pe s = Some (build_filter pf t)"
proof -
  obtain n where n: "\<forall>m\<ge>n. grammar comparison m NOr (trim s) = Parsed t r" using parses_at [OF assms] by blast
  have "grammar comparison (parse_fuel (trim s)) NOr (trim s) = grammar comparison (max n (parse_fuel (trim s))) NOr (trim s)"
    by (rule grammar_mono [symmetric, OF filter_rule.parse_fuel_enough]) simp
  then show ?thesis using n by (simp add: parse_filter_def)
qed

lemma trim_paren: "r = [] \<or> plain (last r) \<Longrightarrow> trim (print_filter f @ r) = print_filter f @ r"
  by (rule trim_plain, cases f) (auto simp: plain_def byte_of_def)

lemma filter_then:
  assumes "printable f" and "r = [] \<or> plain (last r)"
    and stop: "keyword ''and'' (skip r) = None" "keyword ''or'' (skip r) = None"
  shows "parse_filter pf pe (print_filter f @ r) = Some (Inr f)"
proof -
  obtain t where t: "parses comparison NNot (print_filter f @ r) t r" "build_filter pf t = Inr f"
    using reads_backD [OF printable_reads_back [OF assms(1), of pf], of r] by blast
  have "parses comparison NOr (print_filter f @ r) (OrExpr [AndExpr [t]]) r"
    by (rule parses_or [OF singleton_and [OF t(1) stop(1)] parses_or_end [OF stop(2)]])
  then show ?thesis
    using parses_answer [of "print_filter f @ r" "OrExpr [AndExpr [t]]" r] t(2) by (simp add: trim_paren [OF assms(2)])
qed

text \<open>
  Two consequences of the grammar that its users would not expect. The rule \<open>expr\<close> does not ask for the end of the
  input, so whatever follows a complete filter is dropped without an error; and a keyword needs no blank after it,
  so a key that starts with its letters is read as the keyword.
\<close>

lemma trailing_input_ignored:
  "printable f \<Longrightarrow> r \<noteq> [] \<Longrightarrow> plain (last r) \<Longrightarrow> \<not> is_blank (hd r) \<Longrightarrow> ascii_lower (hd r) \<notin> set ''ao'' \<Longrightarrow>
   parse_filter pf pe (print_filter f @ r) = Some (Inr f)"
  by (rule filter_then) (cases r; auto simp: skip_def keyword_def)+

lemma not_without_blank:
  "parse_filter (\<lambda>_. NaN) (\<lambda>_. []) ''note=1'' = Some (Inr (mf_negate (mf_cmp ''e'' ''eq'' (Some (Number (PosInt 1))))))"
proof -
  have t: "trim ''note=1'' = ''note=1''" by (rule trim_plain) (simp add: plain_def byte_of_def)
  show ?thesis unfolding parse_filter_def t by code_simp
qed

text \<open>
  C18: the filter language is expressive enough for the filters it is meant to write: for every filter built from
  conjunctions, disjunctions, negations and comparisons whose keys are field names not starting with the letters of
  \<open>NOT\<close> and whose values are strings without quotes, integers of 64 bits, truth values or null, the fully
  parenthesised text of the filter parses, and to that filter exactly.
\<close>

theorem filter_round_trip: "printable f \<Longrightarrow> parse_filter parse_f64 pest_error (print_filter f) = Some (Inr f)"
  using filter_then [of f "[]" parse_f64 pest_error] by (simp add: skip_def keyword_def)

lemma dec_small: "nat_str 7 = ''7''"
  by code_simp

theorem filter_round_trip_witness:
  "let f = MetadataFilter (Some [mf_cmp ''year'' ''gte'' (Some (Number (PosInt 7))), mf_negate (mf_cmp ''tag'' ''is_null'' None),
       MetadataFilter None (Some [mf_cmp ''a'' ''eq'' (Some (String ''x y'')), mf_cmp ''b'' ''lt'' (Some (Number (NegInt (- 7))))])
         None None None None]) None None None None None
   in print_filter f = ''((year>=7) and (not (tag is null)) and ((a='' @ [CHR 0x22] @ ''x y'' @ [CHR 0x22] @ '') or (b<-7)))'' \<and>
      parse_filter (\<lambda>_. NaN) (\<lambda>_. []) (print_filter f) = Some (Inr f)"
proof -
  let ?f = "MetadataFilter (Some [mf_cmp ''year'' ''gte'' (Some (Number (PosInt 7))), mf_negate (mf_cmp ''tag'' ''is_null'' None),
       MetadataFilter None (Some [mf_cmp ''a'' ''eq'' (Some (String ''x y'')), mf_cmp ''b'' ''lt'' (Some (Number (NegInt (- 7))))])
         None None None None]) None None None None None"
  have "print_filter ?f = ''((year>=7) and (not (tag is null)) and ((a='' @ [CHR 0x22] @ ''x y'' @ [CHR 0x22] @ '') or (b<-7)))''"
    by (simp add: dec_small joined_def print_comparison_def mf_cmp_def mf_negate_def pops_def)
  moreover have "printable ?f"
    by (simp add: printable_comparison_def mf_cmp_def mf_negate_def pops_def printable_key_def is_name_char_def is_alnum_def
        is_alpha_def is_digit_def byte_of_def ascii_lower_def)
  ultimately show ?thesis unfolding Let_def using filter_round_trip [of ?f "\<lambda>_. NaN" "\<lambda>_. []"] by simp
qed

end
