(* ===== verification/Join_Parser.thy ===== *)
theory Join_Parser
  imports Filter_Parser
begin

text \<open>
  The join language: the rules of \<open>src/src/join_parser.pest\<close> that are not those of the filter language, the
  construction of a join from the parse tree and the parsing of a \<open>join\<close> field, \<open>src/src/join_parser.rs\<close>. The
  filter of a join is read twice: the join grammar finds where it ends, with its own rule for field names and
  without the null tests, and \<open>parse_filter\<close> then reads the text between the parentheses.
\<close>

section \<open>Grammar\<close>

fun meta_key :: "string \<Rightarrow> (string \<times> string) option" where
  "meta_key [] = None"
| "meta_key (c # s) =
     (if is_alpha c \<or> c = CHR ''_'' then Some (c # takeWhile is_name_char s, dropWhile is_name_char s) else None)"

definition join_comparison :: "string \<Rightarrow> (ptree \<times> string) option" where
  "join_comparison s = value_comparison meta_key s"

definition collection_p :: "string \<Rightarrow> (string \<times> string) option" where
  "collection_p s =
     (if takeWhile is_name_char s = [] then None else Some (takeWhile is_name_char s, dropWhile is_name_char s))"

datatype join_ref_kind = RefId | RefMeta string

text \<open>\<open>parent_ref\<close> with the mark \<open>$\<close>, \<open>child_ref\<close> with the mark \<open>$$\<close>.\<close>

definition ref_p :: "string \<Rightarrow> string \<Rightarrow> (join_ref_kind \<times> string) option" where
  "ref_p mark s =
     (case literal (mark @ ''id'') s of
        Some r \<Rightarrow> Some (RefId, r)
      | None \<Rightarrow>
          (case literal (mark @ ''.meta.'') s of
             None \<Rightarrow> None
           | Some r \<Rightarrow> map_option (\<lambda>(k, q). (RefMeta k, q)) (meta_key (skip r))))"

definition join_keys_p :: "string \<Rightarrow> ((join_ref_kind \<times> join_ref_kind) \<times> string) option" where
  "join_keys_p s =
     Option.bind (literal ''['' s) (\<lambda>r.
     Option.bind (ref_p ''$'' (skip r)) (\<lambda>(p, r).
     Option.bind (literal ''='' (skip r)) (\<lambda>r.
     Option.bind (ref_p ''$$'' (skip r)) (\<lambda>(c, r).
     map_option (\<lambda>r. ((p, c), r)) (literal '']'' (skip r))))))"

definition filter_part_p :: "string \<Rightarrow> string presult" where
  "filter_part_p s =
     (case literal ''('' s of
        None \<Rightarrow> Fail
      | Some r \<Rightarrow>
          (let e = skip r in
           case grammar join_comparison (parse_fuel e) NOr e of
             NoFuel \<Rightarrow> NoFuel
           | Fail \<Rightarrow> Fail
           | Parsed t q \<Rightarrow>
               (case literal '')'' (skip q) of
                  None \<Rightarrow> Fail
                | Some u \<Rightarrow> Parsed (take (length e - length q) e) u)))"

datatype join_pair = JoinExpr string "(join_ref_kind \<times> join_ref_kind) option" "string option"

definition join_end :: "string \<Rightarrow> (join_ref_kind \<times> join_ref_kind) option \<Rightarrow> string option \<Rightarrow> string \<Rightarrow> join_pair presult" where
  "join_end c ks f s = (if skip s = [] then Parsed (JoinExpr c ks f) [] else Fail)"

definition join_expr :: "string \<Rightarrow> join_pair presult" where
  "join_expr s =
     (case collection_p s of
        None \<Rightarrow> Fail
      | Some (c, r) \<Rightarrow>
          (let (ks, q) = (case join_keys_p (skip r) of Some (ks, q) \<Rightarrow> (Some ks, q) | None \<Rightarrow> (None, r)) in
           case filter_part_p (skip q) of
             NoFuel \<Rightarrow> NoFuel
           | Fail \<Rightarrow> join_end c ks None q
           | Parsed f u \<Rightarrow> join_end c ks (Some f) u))"

section \<open>Joins\<close>

record join_side_ref =
  jr_kind :: join_ref_kind

record join_spec =
  js_collection_name :: string
  js_parent_ref :: join_side_ref
  js_child_ref :: join_side_ref
  js_metadata_filter :: "metadata_filter option"

definition ref_id :: join_side_ref where
  "ref_id = \<lparr>jr_kind = RefId\<rparr>"

definition ref_meta :: "string \<Rightarrow> join_side_ref" where
  "ref_meta key = \<lparr>jr_kind = RefMeta key\<rparr>"

definition en_dash :: string where
  "en_dash = [CHR 0xE2, CHR 0x80, CHR 0x93]"

definition validate_join_collection :: "string \<Rightarrow> string + unit" where
  "validate_join_collection name =
     (if name = [] \<or> MAX_COLLECTION_NAME_LENGTH < length name
      then Inl (''Invalid collection name '' @ quoted name @ '': must be 1'' @ en_dash @ nat_str MAX_COLLECTION_NAME_LENGTH @ '' characters'')
      else Inr ())"

definition validate_meta_key :: "string \<Rightarrow> string + unit" where
  "validate_meta_key key =
     (if key = [] \<or> MAX_METADATA_KEY_LENGTH < length key
      then Inl (''Metadata key '' @ quoted key @ '' exceeds '' @ nat_str MAX_METADATA_KEY_LENGTH @ '' character limit'')
      else Inr ())"

fun build_ref :: "join_ref_kind \<Rightarrow> string + join_side_ref" where
  "build_ref RefId = Inr ref_id"
| "build_ref (RefMeta key) = and_then (validate_meta_key key) (\<lambda>_. Inr (ref_meta key))"

definition build_join_keys :: "join_ref_kind \<times> join_ref_kind \<Rightarrow> string + join_side_ref \<times> join_side_ref" where
  "build_join_keys ks = and_then (build_ref (fst ks)) (\<lambda>p. and_then (build_ref (snd ks)) (\<lambda>c. Inr (p, c)))"

fun build_join_expr :: "(string \<Rightarrow> (string + metadata_filter) option) \<Rightarrow> join_pair \<Rightarrow> (string + join_spec) option" where
  "build_join_expr parse (JoinExpr c ks f) =
     (case and_then (validate_join_collection c) (\<lambda>_.
             case ks of None \<Rightarrow> Inr (ref_id, ref_id) | Some k \<Rightarrow> build_join_keys k) of
        Inl e \<Rightarrow> Some (Inl e)
      | Inr (p, ch) \<Rightarrow>
          (case f of
             None \<Rightarrow> Some (Inr \<lparr>js_collection_name = c, js_parent_ref = p, js_child_ref = ch, js_metadata_filter = None\<rparr>)
           | Some t \<Rightarrow>
               map_option (\<lambda>r. and_then r (\<lambda>mf.
                 Inr \<lparr>js_collection_name = c, js_parent_ref = p, js_child_ref = ch, js_metadata_filter = Some mf\<rparr>))
                 (parse t)))"

definition parse_join :: "(string \<Rightarrow> fp) \<Rightarrow> (string \<Rightarrow> string) \<Rightarrow> string \<Rightarrow> (string + join_spec) option" where
  "parse_join parse_f64 pest_error expr =
     (if trim expr = [] then Some (Inl ''Join expression cannot be empty'')
      else case join_expr (trim expr) of
             NoFuel \<Rightarrow> None
           | Fail \<Rightarrow> Some (Inl (''Invalid join expression: '' @ pest_error (trim expr)))
           | Parsed p r \<Rightarrow> build_join_expr (parse_filter parse_f64 pest_error) p)"

fun parse_joins ::
    "(string \<Rightarrow> (string + join_spec) option) \<Rightarrow> string set \<Rightarrow> join_spec list \<Rightarrow> string list \<Rightarrow> (string + join_spec list) option" where
  "parse_joins parse seen specs [] = Some (Inr specs)"
| "parse_joins parse seen specs (item # items) =
     (case parse item of
        None \<Rightarrow> None
      | Some (Inl e) \<Rightarrow> Some (Inl e)
      | Some (Inr spec) \<Rightarrow>
          (if js_collection_name spec \<in> seen
           then Some (Inl (''Duplicate join collection '' @ quoted (js_collection_name spec) @ '' in join list''))
           else parse_joins parse (insert (js_collection_name spec) seen) (specs @ [spec]) items))"

fun join_items :: "join_field \<Rightarrow> string list" where
  "join_items (Single s) = [s]"
| "join_items (Multiple v) = v"

definition into_specs :: "(string \<Rightarrow> fp) \<Rightarrow> (string \<Rightarrow> string) \<Rightarrow> join_field \<Rightarrow> (string + join_spec list) option" where
  "into_specs parse_f64 pest_error jf =
     (if join_items jf = [] then Some (Inl ''Join list cannot be empty'')
      else parse_joins (parse_join parse_f64 pest_error) {} [] (join_items jf))"

text \<open>\<open>deserialize_join_field\<close> on the value of the request's field, absent and null being \<open>None\<close>.\<close>

definition deserialize_join_field :: "json option \<Rightarrow> string + join_field option" where
  "deserialize_join_field v =
     (case v of
        None \<Rightarrow> Inr None
      | Some Null \<Rightarrow> Inr None
      | Some (String s) \<Rightarrow> Inr (Some (Single s))
      | Some (Array arr) \<Rightarrow>
          and_then (collect_result (map (\<lambda>item. ok_or ''Join list items must be strings'' (as_str item)) arr))
            (\<lambda>items. Inr (Some (Multiple items)))
      | Some _ \<Rightarrow> Inl ''Join must be a string or list of strings'')"

section \<open>Lemmas\<close>

lemma meta_key_le: "meta_key s = Some (k, r) \<Longrightarrow> length r < length s"
  by (cases s) (auto split: if_splits simp: less_Suc_eq_le length_dropWhile_le)

interpretation join_rule: comparison_rule join_comparison
  by unfold_locales (auto simp: join_comparison_def dest: value_comparison_le [OF _ meta_key_le])

lemma filter_part_total: "filter_part_p s \<noteq> NoFuel"
  using join_rule.parse_fuel_enough by (auto simp: filter_part_p_def Let_def split: option.splits presult.splits)

lemma join_expr_total: "join_expr s \<noteq> NoFuel"
  using filter_part_total
  by (auto simp: join_expr_def join_end_def Let_def split: option.splits presult.splits prod.splits)


lemma build_join_expr_total: "(\<And>t. parse t \<noteq> None) \<Longrightarrow> build_join_expr parse p \<noteq> None"
  by (cases p) (auto split: sum.splits option.splits simp del: not_None_eq simp: prod.split_sel)

lemma parse_join_total: "\<exists>r. parse_join pf pe s = Some r"
proof -
  have "\<exists>r. parse_filter pf pe t = Some r" for t
    using filter_rule.parse_fuel_enough [of "trim t"] by (auto simp: parse_filter_def split: presult.splits)
  then have "build_join_expr (parse_filter pf pe) p \<noteq> None" for p
    by (intro build_join_expr_total) auto
  then show ?thesis
    using join_expr_total [of "trim s"] by (auto simp: parse_join_def split: presult.splits)
qed

lemma parse_joins_total: "(\<And>s. \<exists>r. parse s = Some r) \<Longrightarrow> \<exists>r. parse_joins parse seen specs items = Some r"
proof (induction items arbitrary: seen specs)
  case (Cons item items)
  obtain r where "parse item = Some r" using Cons.prems by blast
  then show ?case using Cons.IH [OF Cons.prems] by (cases r) auto
qed simp

text \<open>
  Parsing the join field of a request ends on every input, with an error message or with the list of joins.
\<close>

theorem into_specs_terminates: "\<exists>result. into_specs parse_f64 pest_error join = Some result"
  unfolding into_specs_def using parse_joins_total [OF parse_join_total] by auto

definition join_key_ok :: "join_side_ref \<Rightarrow> bool" where
  "join_key_ok ref =
     (case jr_kind ref of
        RefId \<Rightarrow> True
      | RefMeta k \<Rightarrow> length k \<le> MAX_METADATA_KEY_LENGTH \<and> k \<noteq> [] \<and> list_all is_name_char k \<and> \<not> is_digit (hd k) \<and> hd k \<noteq> CHR ''-'')"

definition join_spec_ok :: "join_spec \<Rightarrow> bool" where
  "join_spec_ok spec \<longleftrightarrow>
     js_collection_name spec \<noteq> [] \<and> length (js_collection_name spec) \<le> MAX_COLLECTION_NAME_LENGTH \<and>
     list_all is_name_char (js_collection_name spec) \<and> join_key_ok (js_parent_ref spec) \<and> join_key_ok (js_child_ref spec)"

lemma take_name: "list_all is_name_char (takeWhile is_name_char s)"
  by (auto simp: list_all_iff dest: set_takeWhileD)

lemma meta_key_ok:
  "meta_key s = Some (k, r) \<Longrightarrow> k \<noteq> [] \<and> list_all is_name_char k \<and> \<not> is_digit (hd k) \<and> hd k \<noteq> CHR ''-''"
  by (cases s) (auto split: if_splits simp: take_name is_name_char_def is_alnum_def is_alpha_def is_digit_def byte_of_def)

fun ref_ok :: "join_ref_kind \<Rightarrow> bool" where
  "ref_ok RefId = True"
| "ref_ok (RefMeta k) = (k \<noteq> [] \<and> list_all is_name_char k \<and> \<not> is_digit (hd k) \<and> hd k \<noteq> CHR ''-'')"

lemma ref_p_ok: "ref_p mark s = Some (k, r) \<Longrightarrow> ref_ok k"
  by (auto simp: ref_p_def split: option.splits dest: meta_key_ok)

lemma join_keys_ok: "join_keys_p s = Some ((p, c), r) \<Longrightarrow> ref_ok p \<and> ref_ok c"
  by (auto simp: join_keys_p_def split: bind_splits dest: ref_p_ok)

lemma join_expr_ok:
  assumes "join_expr s = Parsed (JoinExpr c ks f) r"
  shows "list_all is_name_char c \<and> (\<forall>p q. ks = Some (p, q) \<longrightarrow> ref_ok p \<and> ref_ok q)"
proof -
  obtain d q where c: "collection_p s = Some (d, q)"
    using assms by (cases "collection_p s") (auto simp: join_expr_def)
  obtain k v where k: "(case join_keys_p (skip q) of Some (ks, v) \<Rightarrow> (Some ks, v) | None \<Rightarrow> (None, q)) = (k, v)"
    by fastforce
  have "c = d \<and> ks = k"
    using assms unfolding join_expr_def c option.case prod.case k Let_def
    by (auto simp: join_end_def split: presult.splits if_splits)
  then show ?thesis
    using c k by (auto simp: collection_p_def take_name split: if_splits option.splits dest: join_keys_ok)
qed

lemma ref_id_ok: "join_key_ok ref_id"
  by (simp add: join_key_ok_def ref_id_def)

lemma build_ref_ok: "build_ref k = Inr ref \<Longrightarrow> ref_ok k \<Longrightarrow> join_key_ok ref"
  by (cases k) (auto simp: join_key_ok_def ref_id_def ref_meta_def validate_meta_key_def split: if_splits)

lemma build_join_keys_ok:
  "build_join_keys (a, b) = Inr (p, c) \<Longrightarrow> ref_ok a \<Longrightarrow> ref_ok b \<Longrightarrow> join_key_ok p \<and> join_key_ok c"
  by (auto simp: build_join_keys_def dest: build_ref_ok)

lemma parse_join_ok:
  assumes "parse_join pf pe s = Some (Inr spec)"
  shows "join_spec_ok spec"
proof -
  obtain p r where p: "join_expr (trim s) = Parsed p r" and q: "build_join_expr (parse_filter pf pe) p = Some (Inr spec)"
    using assms by (cases "join_expr (trim s)") (auto simp: parse_join_def split: if_splits)
  obtain c ks f where cp: "p = JoinExpr c ks f" by (cases p)
  note e = p [unfolded cp] and b = q [unfolded cp]
  have "js_collection_name spec = c \<and> validate_join_collection c = Inr () \<and>
      Inr (js_parent_ref spec, js_child_ref spec) = (case ks of None \<Rightarrow> Inr (ref_id, ref_id) | Some k \<Rightarrow> build_join_keys k)"
    using b by (auto split: sum.splits option.splits)
  then show ?thesis
    using join_expr_ok [OF e]
    by (cases ks)
      (auto simp: join_spec_ok_def validate_join_collection_def ref_id_ok dest: build_join_keys_ok [OF sym] split: if_splits)
qed

lemma parse_joins_ok:
  assumes "parse_joins parse seen specs items = Some (Inr out)" "\<And>s spec. parse s = Some (Inr spec) \<Longrightarrow> Q spec"
    and "distinct (map js_collection_name specs)" "seen = js_collection_name ` set specs" "\<forall>spec\<in>set specs. Q spec"
  shows "distinct (map js_collection_name out) \<and> (\<forall>spec\<in>set out. Q spec) \<and> length out = length specs + length items"
  using assms
proof (induction items arbitrary: seen specs)
  case (Cons item items)
  then obtain spec where "parse item = Some (Inr spec)" "js_collection_name spec \<notin> seen"
      and rec: "parse_joins parse (insert (js_collection_name spec) seen) (specs @ [spec]) items = Some (Inr out)"
    by (auto split: option.splits sum.splits if_splits)
  then show ?case using Cons.IH [OF rec Cons.prems(2)] Cons.prems by auto
qed simp

text \<open>
  C19: what the join parser accepts is well formed: there is one join for each expression of the field and at least
  one, no two name the same collection, every collection name has between one and a hundred letters, digits,
  underscores and hyphens, and every metadata key has at most a hundred of them and starts with a letter or an
  underscore.
\<close>

theorem join_specs_valid:
  assumes "into_specs parse_f64 pest_error join = Some (Inr specs)"
  shows "specs \<noteq> [] \<and> length specs = length (join_items join) \<and> distinct (map js_collection_name specs) \<and> list_all join_spec_ok specs"
proof -
  have i: "join_items join \<noteq> []" and p: "parse_joins (parse_join parse_f64 pest_error) {} [] (join_items join) = Some (Inr specs)"
    using assms by (auto simp: into_specs_def split: if_splits)
  have "distinct (map js_collection_name specs) \<and> (\<forall>spec\<in>set specs. join_spec_ok spec) \<and> length specs = 0 + length (join_items join)"
    using parse_joins_ok [OF p, of join_spec_ok] parse_join_ok by auto
  then show ?thesis using i by (auto simp: list_all_iff)
qed

text \<open>
  The second reading of a filter may stop before the first did: the join grammar accepts a field name that starts
  with an underscore, \<open>parse_filter\<close> does not, and since it does not ask for the end of its input it drops the
  rest of the filter. The join runs with a weaker filter than the one that was written.
\<close>

lemma join_condition_dropped:
  "map_option (map_sum (\<lambda>e. e) js_metadata_filter) (parse_join (\<lambda>_. NaN) (\<lambda>_. []) ''c(a=1 and _x=2)'') =
   Some (Inr (Some (mf_cmp ''a'' ''eq'' (Some (Number (PosInt 1))))))"
proof -
  have t: "trim ''c(a=1 and _x=2)'' = ''c(a=1 and _x=2)''" "trim ''a=1 and _x=2'' = ''a=1 and _x=2''"
    by (rule trim_plain; simp add: plain_def byte_of_def)+
  have e: "join_expr ''c(a=1 and _x=2)'' = Parsed (JoinExpr ''c'' None (Some ''a=1 and _x=2'')) []"
    by code_simp
  have f: "parse_filter (\<lambda>_. NaN) (\<lambda>_. []) ''a=1 and _x=2'' = Some (Inr (mf_cmp ''a'' ''eq'' (Some (Number (PosInt 1)))))"
    unfolding parse_filter_def t by code_simp
  show ?thesis
    by (simp add: parse_join_def t e f validate_join_collection_def MAX_COLLECTION_NAME_LENGTH_def)
qed

theorem join_specs_valid_witness:
  "\<exists>spec. into_specs (\<lambda>_. NaN) (\<lambda>_. []) (Single ''c[$.meta.k=$$id]'') = Some (Inr [spec]) \<and>
     spec = \<lparr>js_collection_name = ''c'', js_parent_ref = ref_meta ''k'', js_child_ref = ref_id, js_metadata_filter = None\<rparr> \<and>
     list_all join_spec_ok [spec]"
proof -
  let ?s = "\<lparr>js_collection_name = ''c'', js_parent_ref = ref_meta ''k'', js_child_ref = ref_id, js_metadata_filter = None\<rparr>"
  have t: "trim ''c[$.meta.k=$$id]'' = ''c[$.meta.k=$$id]''"
    by (rule trim_plain) (simp add: plain_def byte_of_def)
  have e: "join_expr ''c[$.meta.k=$$id]'' = Parsed (JoinExpr ''c'' (Some (RefMeta ''k'', RefId)) None) []"
    by code_simp
  have i: "into_specs (\<lambda>_. NaN) (\<lambda>_. []) (Single ''c[$.meta.k=$$id]'') = Some (Inr [?s])"
    by (simp add: into_specs_def parse_join_def t e validate_join_collection_def build_join_keys_def validate_meta_key_def
        MAX_COLLECTION_NAME_LENGTH_def MAX_METADATA_KEY_LENGTH_def)
  show ?thesis using join_specs_valid [OF i] i by blast
qed

end
