(* ===== verification/Fusion.thy ===== *)
theory Fusion
  imports F64
begin

text \<open>
  Multi-retriever fusion (\<open>src/src/functions.rs\<close>: \<open>rrf_fuse\<close>,
  \<open>linear_weighted_score_fuse\<close>). Scores are IEEE doubles; \<open>weights[list_idx]\<close> out of range
  panics, which is the result \<open>None\<close>. The hash maps are iterated in an unspecified order
  \<open>it\<close>; \<open>sort_unstable_by\<close> is a sort by the comparator.

  The lemmas show that the fused score of an id is the left-to-right sum of its
  contributions, that the output is the best-ranked prefix of the candidates that pass the
  threshold, and that it does not depend on the iteration order of the hash maps.
\<close>

type_synonym scored = "(string \<times> fp) list"

definition f64_zero :: fp where
  "f64_zero = Finite False 0"

definition f64_one :: fp where
  "f64_one = Finite False 1"

section \<open>Reciprocal rank fusion\<close>

text \<open>One arm: \<open>*fused.entry(id).or_insert(0.0) += weight / (k + rank_idx + 1) as f64\<close>.\<close>

definition rrf_term :: "nat \<Rightarrow> fp \<Rightarrow> nat \<Rightarrow> fp" where
  "rrf_term k weight rank_idx = f64_div weight (fp_of_nat binary64 (k + rank_idx + 1))"

fun rrf_add_arm :: "nat \<Rightarrow> fp \<Rightarrow> nat \<Rightarrow> string list \<Rightarrow> scored \<Rightarrow> scored" where
  "rrf_add_arm k weight rank_idx [] fused = fused"
| "rrf_add_arm k weight rank_idx (item_id # ids) fused =
     rrf_add_arm k weight (Suc rank_idx) ids
       (hm_upsert item_id f64_zero (\<lambda>s. f64_add s (rrf_term k weight rank_idx)) fused)"

fun rrf_scores :: "nat \<Rightarrow> string list list \<Rightarrow> fp list \<Rightarrow> scored \<Rightarrow> scored option" where
  "rrf_scores k [] weights fused = Some fused"
| "rrf_scores k (ids # rest) [] fused = None"
| "rrf_scores k (ids # rest) (w # weights) fused =
     rrf_scores k rest weights (rrf_add_arm k w 0 ids fused)"

definition add_raw_sum :: "string \<times> fp \<Rightarrow> scored \<Rightarrow> scored" where
  "add_raw_sum p acc = hm_upsert (fst p) f64_zero (\<lambda>s. f64_add s (snd p)) acc"

definition raw_sums :: "scored list \<Rightarrow> scored" where
  "raw_sums scored_lists = fold (fold add_raw_sum) scored_lists []"

definition passes :: "fp option \<Rightarrow> fp \<Rightarrow> bool" where
  "passes score_threshold s = (case score_threshold of None \<Rightarrow> True | Some t \<Rightarrow> fp_le t s)"

definition cmp_desc :: "fp \<Rightarrow> fp \<Rightarrow> ordering" where
  "cmp_desc a b = unwrap_or Equal (partial_cmp b a)"

definition rrf_cmp :: "string \<times> fp \<times> fp \<Rightarrow> string \<times> fp \<times> fp \<Rightarrow> ordering" where
  "rrf_cmp a b =
     then_with (then_with (cmp_desc (fst (snd a)) (fst (snd b))) (cmp_desc (snd (snd a)) (snd (snd b))))
       (str_cmp (fst a) (fst b))"

definition rrf_fuse :: "(scored \<Rightarrow> scored) \<Rightarrow> string list list \<Rightarrow> fp list \<Rightarrow> scored list \<Rightarrow> nat \<Rightarrow>
    fp option \<Rightarrow> nat \<Rightarrow> scored option" where
  "rrf_fuse it id_lists weights scored_lists limit score_threshold k =
     (case rrf_scores k id_lists weights [] of
        None \<Rightarrow> None
      | Some fused \<Rightarrow>
          (let raws = raw_sums scored_lists;
               items = map (\<lambda>(id, rrf). (id, rrf, unwrap_or f64_zero (map_of raws id)))
                         (filter (\<lambda>(_, s). passes score_threshold s) (it fused));
               sorted = take limit (sort_by rrf_cmp items)
           in Some (map (\<lambda>(id, rrf, _). (id, rrf)) sorted)))"

section \<open>Linear weighted fusion\<close>

definition arm_min :: "scored \<Rightarrow> fp" where
  "arm_min arm = fold (\<lambda>p m. fp_min m (snd p)) arm (Infinity False)"

definition arm_max :: "scored \<Rightarrow> fp" where
  "arm_max arm = fold (\<lambda>p m. fp_max m (snd p)) arm (Infinity True)"

text \<open>\<open>collect()\<close> into a \<open>HashMap\<close>: a later entry of the same id replaces an earlier one.\<close>

definition norm_map :: "scored \<Rightarrow> scored" where
  "norm_map arm =
     (let mn = arm_min arm; mx = arm_max arm in
      fold (\<lambda>(id, n) m. AList.update id n m)
        (if fp_eq mx mn then map (\<lambda>(id, _). (id, f64_one)) arm
         else (let scale = f64_sub mx mn in map (\<lambda>(id, s). (id, f64_div (f64_sub s mn) scale)) arm))
        [])"

definition linear_add :: "fp \<Rightarrow> string \<times> fp \<Rightarrow> scored \<Rightarrow> scored" where
  "linear_add weight p candidates =
     hm_upsert (fst p) f64_zero (\<lambda>c. f64_add c (f64_mul weight (snd p))) candidates"

fun linear_scores :: "(scored \<Rightarrow> scored) \<Rightarrow> scored list \<Rightarrow> fp list \<Rightarrow> nat \<Rightarrow> scored \<Rightarrow> scored option" where
  "linear_scores it [] weights list_idx candidates = Some candidates"
| "linear_scores it (arm # rest) weights list_idx candidates =
     (if arm = [] then linear_scores it rest weights (Suc list_idx) candidates
      else if length weights \<le> list_idx then None
      else linear_scores it rest weights (Suc list_idx)
             (fold (linear_add (weights ! list_idx)) (it (norm_map arm)) candidates))"

definition linear_cmp :: "string \<times> fp \<Rightarrow> string \<times> fp \<Rightarrow> ordering" where
  "linear_cmp a b = then_with (cmp_desc (snd a) (snd b)) (str_cmp (fst a) (fst b))"

definition linear_weighted_score_fuse ::
    "(scored \<Rightarrow> scored) \<Rightarrow> scored list \<Rightarrow> fp list \<Rightarrow> nat \<Rightarrow> fp option \<Rightarrow> scored option" where
  "linear_weighted_score_fuse it scored_lists weights limit score_threshold =
     (case linear_scores it scored_lists weights 0 [] of
        None \<Rightarrow> None
      | Some candidates \<Rightarrow>
          (let items = filter (\<lambda>(_, s). passes score_threshold s) (it candidates)
           in Some (take limit (sort_by linear_cmp items))))"

section \<open>Comparators\<close>

lemma binary64_prec [simp]: "0 < prec binary64"
  by (simp add: binary64_def)

lemma cmp_desc_Greater: "\<not> is_nan a \<Longrightarrow> \<not> is_nan b \<Longrightarrow> cmp_desc a b \<noteq> Greater \<longleftrightarrow> fp_le b a"
  by (auto simp: cmp_desc_def partial_cmp_def fp_le_def fp_lt_rank)

lemma cmp_desc_Equal: "\<not> is_nan a \<Longrightarrow> \<not> is_nan b \<Longrightarrow> cmp_desc a b = Equal \<longleftrightarrow> fp_eq a b"
  by (auto simp: cmp_desc_def partial_cmp_def fp_le_def fp_lt_rank fp_eq_def)

lemma cmp_desc_rev: "\<not> is_nan a \<Longrightarrow> \<not> is_nan b \<Longrightarrow> cmp_desc b a = ord_reverse (cmp_desc a b)"
  by (auto simp: cmp_desc_def partial_cmp_def fp_lt_rank)

lemma cmp_desc_cases:
  assumes "\<not> is_nan a" "\<not> is_nan b"
  shows "cmp_desc a b = (if fp_eq a b then Equal else if fp_le b a then Less else Greater)"
  using assms by (auto simp: cmp_desc_def partial_cmp_def fp_le_def fp_lt_rank fp_eq_def)

interpretation desc_order: cmp_order cmp_desc "{x. \<not> is_nan x}"
proof
  fix x y :: fp assume "x \<in> {x. \<not> is_nan x}" "y \<in> {x. \<not> is_nan x}"
  then show "cmp_desc y x = ord_reverse (cmp_desc x y)" by (intro cmp_desc_rev) auto
  fix z assume "z \<in> {x. \<not> is_nan x}" "cmp_desc x y \<noteq> Greater" "cmp_desc y z \<noteq> Greater"
  with \<open>x \<in> _\<close> \<open>y \<in> _\<close> show "cmp_desc x z \<noteq> Greater"
    by (auto simp: cmp_desc_Greater intro: fp_le_trans)
qed

definition nan_free3 :: "(string \<times> fp \<times> fp) set" where
  "nan_free3 = {(i, s, r). \<not> is_nan s \<and> \<not> is_nan r}"

definition nan_free2 :: "(string \<times> fp) set" where
  "nan_free2 = {(i, s). \<not> is_nan s}"

interpretation rrf_order: cmp_order rrf_cmp nan_free3
proof -
  have "cmp_order (\<lambda>a b. then_with (then_with (cmp_desc (fst (snd a)) (fst (snd b)))
      (cmp_desc (snd (snd a)) (snd (snd b)))) (str_cmp (fst a) (fst b))) nan_free3"
    by (intro cmp_order_then_with cmp_order_on_key [OF desc_order.cmp_order_axioms]
          cmp_order_on_key [OF str_order.cmp_order_axioms]) (auto simp: nan_free3_def)
  then show "cmp_order rrf_cmp nan_free3" by (simp only: rrf_cmp_def [abs_def])
qed

interpretation linear_order: cmp_order linear_cmp nan_free2
proof -
  have "cmp_order (\<lambda>a b. then_with (cmp_desc (snd a) (snd b)) (str_cmp (fst a) (fst b))) nan_free2"
    by (intro cmp_order_then_with cmp_order_on_key [OF desc_order.cmp_order_axioms]
          cmp_order_on_key [OF str_order.cmp_order_axioms]) (auto simp: nan_free2_def)
  then show "cmp_order linear_cmp nan_free2" by (simp only: linear_cmp_def [abs_def])
qed

text \<open>No two items of one id: the comparators have no ties and the sorted list is unique.\<close>

lemma cmp_order_mono: "cmp_order c D \<Longrightarrow> E \<subseteq> D \<Longrightarrow> cmp_order c E"
  using cmp_order_on_key [of c D id E] by simp

lemma rrf_sort_perm:
  assumes "mset xs = mset ys" "set xs \<subseteq> nan_free3" "inj_on fst (set xs)"
  shows "sort_by rrf_cmp xs = sort_by rrf_cmp ys"
proof -
  have "cmp_linorder rrf_cmp (set xs)"
    using assms(3) cmp_order_mono [OF rrf_order.cmp_order_axioms assms(2)]
    by (intro cmp_linorderI) (simp_all add: rrf_cmp_def inj_on_def)
  then show ?thesis using assms(1) by (rule cmp_linorder.sort_by_perm) simp
qed

lemma linear_sort_perm:
  assumes "mset xs = mset ys" "set xs \<subseteq> nan_free2" "inj_on fst (set xs)"
  shows "sort_by linear_cmp xs = sort_by linear_cmp ys"
proof -
  have "cmp_linorder linear_cmp (set xs)"
    using assms(3) cmp_order_mono [OF linear_order.cmp_order_axioms assms(2)]
    by (intro cmp_linorderI) (simp_all add: linear_cmp_def inj_on_def)
  then show ?thesis using assms(1) by (rule cmp_linorder.sort_by_perm) simp
qed


section \<open>Fused scores\<close>

text \<open>
  What the loops add up for one id, arm after arm and rank after rank.
\<close>

fun arm_terms :: "nat \<Rightarrow> fp \<Rightarrow> nat \<Rightarrow> string list \<Rightarrow> string \<Rightarrow> fp list" where
  "arm_terms k w r [] i = []"
| "arm_terms k w r (x # xs) i =
     (if x = i then rrf_term k w r # arm_terms k w (Suc r) xs i else arm_terms k w (Suc r) xs i)"

fun rrf_terms :: "nat \<Rightarrow> string list list \<Rightarrow> fp list \<Rightarrow> string \<Rightarrow> fp list" where
  "rrf_terms k (ids # rest) (w # ws) i = arm_terms k w 0 ids i @ rrf_terms k rest ws i"
| "rrf_terms k _ _ i = []"

definition add_terms :: "fp option \<Rightarrow> fp list \<Rightarrow> fp option" where
  "add_terms s ts = (if ts = [] then s else Some (foldl f64_add (unwrap_or f64_zero s) ts))"

lemma add_terms_append: "add_terms s (ts @ us) = add_terms (add_terms s ts) us"
  by (simp add: add_terms_def)

lemma add_terms_Cons:
  "add_terms s (t # ts) = add_terms (Some (f64_add (unwrap_or f64_zero s) t)) ts"
  by (simp add: add_terms_def)

lemma add_terms_Nil [simp]: "add_terms s [] = s"
  by (simp add: add_terms_def)

lemma rrf_add_arm_get:
  "map_of (rrf_add_arm k w r ids fused) i = add_terms (map_of fused i) (arm_terms k w r ids i)"
  by (induction ids arbitrary: r fused) (auto simp: hm_upsert_get add_terms_Cons)

lemma rrf_add_arm_ok: "hm_ok fused \<Longrightarrow> hm_ok (rrf_add_arm k w r ids fused)"
  by (induction ids arbitrary: r fused) auto

lemma rrf_scores_get:
  "rrf_scores k ls ws fused = Some out \<Longrightarrow>
     map_of out i = add_terms (map_of fused i) (rrf_terms k ls ws i)"
  by (induction k ls ws fused rule: rrf_scores.induct)
    (auto simp: rrf_add_arm_get add_terms_append)

lemma rrf_scores_ok: "rrf_scores k ls ws fused = Some out \<Longrightarrow> hm_ok fused \<Longrightarrow> hm_ok out"
  by (induction k ls ws fused rule: rrf_scores.induct) (auto simp: rrf_add_arm_ok)

lemma rrf_scores_Some: "(\<exists>out. rrf_scores k ls ws fused = Some out) \<longleftrightarrow> length ls \<le> length ws"
  by (induction k ls ws fused rule: rrf_scores.induct) auto

text \<open>
  The specification, which shares nothing with the loops: an id at the 1-based \<open>rank\<close> of a list
  with weight \<open>w\<close> contributes \<open>w / (k + rank)\<close>, and its fused score is the sum of its
  contributions in list order; an id of no list has none. The raw score of an id is the sum of
  its scores over all lists, zero when it has none.
\<close>

definition rrf_contributions :: "nat \<Rightarrow> string list list \<Rightarrow> fp list \<Rightarrow> string \<Rightarrow> fp list" where
  "rrf_contributions k ls ws i =
     [f64_div w (fp_of_nat binary64 (k + rank)). (ids, w) \<leftarrow> zip ls ws, (rank, x) \<leftarrow> List.enumerate 1 ids, x = i]"

definition rrf_score :: "nat \<Rightarrow> string list list \<Rightarrow> fp list \<Rightarrow> string \<Rightarrow> fp option" where
  "rrf_score k ls ws i =
     (if \<exists>(ids, w) \<in> set (zip ls ws). i \<in> set ids
      then Some (foldl f64_add f64_zero (rrf_contributions k ls ws i)) else None)"

definition raw_score :: "scored list \<Rightarrow> string \<Rightarrow> fp" where
  "raw_score scored_lists i = foldl f64_add f64_zero [s. (x, s) \<leftarrow> concat scored_lists, x = i]"

lemma arm_terms_enumerate:
  "arm_terms k w r ids i =
     concat (map (\<lambda>(rank, x). if x = i then [f64_div w (fp_of_nat binary64 (k + rank))] else [])
       (List.enumerate (Suc r) ids))"
  by (induction ids arbitrary: r) (auto simp: rrf_term_def)

lemma rrf_contributions_terms: "rrf_contributions k ls ws i = rrf_terms k ls ws i"
  by (induction k ls ws i rule: rrf_terms.induct)
    (simp_all add: rrf_contributions_def arm_terms_enumerate One_nat_def)

lemma arm_terms_empty: "arm_terms k w r ids i = [] \<longleftrightarrow> i \<notin> set ids"
  by (induction ids arbitrary: r) auto

lemma rrf_terms_empty: "rrf_terms k ls ws i = [] \<longleftrightarrow> \<not> (\<exists>(ids, w) \<in> set (zip ls ws). i \<in> set ids)"
  by (induction k ls ws i rule: rrf_terms.induct) (auto simp: arm_terms_empty)

lemma rrf_score_terms: "rrf_score k ls ws i = add_terms None (rrf_terms k ls ws i)"
  unfolding rrf_score_def rrf_contributions_terms add_terms_def rrf_terms_empty by simp

lemma fold_add_raw_sum:
  "unwrap_or f64_zero (map_of (fold add_raw_sum arm acc) i)
     = foldl f64_add (unwrap_or f64_zero (map_of acc i)) [s. (x, s) \<leftarrow> arm, x = i]"
  by (induction arm arbitrary: acc) (auto simp: add_raw_sum_def hm_upsert_get)

lemma raw_sums_score: "unwrap_or f64_zero (map_of (raw_sums scored_lists) i) = raw_score scored_lists i"
proof -
  have "unwrap_or f64_zero (map_of (fold (fold add_raw_sum) ls acc) i)
      = foldl f64_add (unwrap_or f64_zero (map_of acc i)) [s. (x, s) \<leftarrow> concat ls, x = i]" for ls acc
    by (induction ls arbitrary: acc) (simp_all add: fold_add_raw_sum)
  from this [of scored_lists "[]"] show ?thesis by (simp add: raw_sums_def raw_score_def)
qed


section \<open>The candidates and their order\<close>

text \<open>
  \<open>rank_before\<close> is the order the results must have: higher fused score first, then higher
  raw-score sum, then lower id.
\<close>

definition rank_before :: "scored list \<Rightarrow> string \<times> fp \<Rightarrow> string \<times> fp \<Rightarrow> bool" where
  "rank_before scored_lists a b \<longleftrightarrow>
     fp_lt (snd b) (snd a)
   \<or> fp_eq (snd a) (snd b) \<and> fp_lt (raw_score scored_lists (fst b)) (raw_score scored_lists (fst a))
   \<or> fp_eq (snd a) (snd b) \<and> fp_eq (raw_score scored_lists (fst a)) (raw_score scored_lists (fst b))
       \<and> str_cmp (fst a) (fst b) = Less"

definition rrf_candidates :: "nat \<Rightarrow> string list list \<Rightarrow> fp list \<Rightarrow> fp option \<Rightarrow> (string \<times> fp) set" where
  "rrf_candidates k ls ws thr =
     {(i, s). rrf_score k ls ws i = Some s \<and> (\<forall>t. thr = Some t \<longrightarrow> fp_le t s)}"

lemma cmp_desc_Less: "\<not> is_nan a \<Longrightarrow> \<not> is_nan b \<Longrightarrow> cmp_desc a b = Less \<longleftrightarrow> fp_lt b a"
  by (auto simp: cmp_desc_def partial_cmp_def)

lemma rank_before_cmp:
  assumes "\<not> is_nan s" "\<not> is_nan t" "\<And>i. \<not> is_nan (raw_score scored_lists i)"
  shows "rank_before scored_lists (i, s) (j, t) \<longleftrightarrow>
     rrf_cmp (i, s, raw_score scored_lists i) (j, t, raw_score scored_lists j) = Less"
  using cmp_desc_Less [OF assms(1,2)] cmp_desc_Equal [OF assms(1,2)]
    cmp_desc_Less [OF assms(3) assms(3), of i j] cmp_desc_Equal [OF assms(3) assms(3), of i j]
  by (cases "cmp_desc s t"; cases "cmp_desc (raw_score scored_lists i) (raw_score scored_lists j)")
    (auto simp: rank_before_def rrf_cmp_def)

definition rrf_nan_free :: "nat \<Rightarrow> string list list \<Rightarrow> fp list \<Rightarrow> scored list \<Rightarrow> bool" where
  "rrf_nan_free k ls ws scored_lists \<longleftrightarrow>
     (\<forall>i s. rrf_score k ls ws i = Some s \<longrightarrow> \<not> is_nan s) \<and> (\<forall>i. \<not> is_nan (raw_score scored_lists i))"

definition rrf_items :: "scored list \<Rightarrow> fp option \<Rightarrow> scored \<Rightarrow> (string \<times> fp \<times> fp) list" where
  "rrf_items scored_lists thr m =
     map (\<lambda>(i, s). (i, s, raw_score scored_lists i)) (filter (\<lambda>(_, s). passes thr s) m)"

definition drop_raw :: "string \<times> fp \<times> fp \<Rightarrow> string \<times> fp" where
  "drop_raw t = (fst t, fst (snd t))"

lemma rrf_fuse_items:
  "rrf_fuse it ls ws scored_lists limit thr k =
     map_option (\<lambda>m. map drop_raw (take limit (sort_by rrf_cmp (rrf_items scored_lists thr (it m)))))
       (rrf_scores k ls ws [])"
  by (auto simp: rrf_fuse_def rrf_items_def raw_sums_score Let_def drop_raw_def [abs_def] case_prod_beta'
      split: option.splits)

lemma rrf_items_facts:
  assumes "rrf_scores k ls ws [] = Some m" "iter_order it" "rrf_nan_free k ls ws scored_lists"
  shows "set (rrf_items scored_lists thr (it m)) \<subseteq> nan_free3"
    and "distinct (map fst (rrf_items scored_lists thr (it m)))"
    and "drop_raw ` set (rrf_items scored_lists thr (it m)) = rrf_candidates k ls ws thr"
proof -
  have ok: "hm_ok m" using rrf_scores_ok [OF assms(1)] by simp
  have get: "(i, s) \<in> set (it m) \<longleftrightarrow> rrf_score k ls ws i = Some s" for i s
  proof -
    have "(i, s) \<in> set m \<longleftrightarrow> map_of m i = Some s" using ok by (simp add: hm_ok_def)
    then show ?thesis
      using rrf_scores_get [OF assms(1), of i] iter_order_set [OF assms(2), of m]
      by (simp add: rrf_score_terms)
  qed
  show "set (rrf_items scored_lists thr (it m)) \<subseteq> nan_free3"
    using assms(3) by (auto simp: rrf_items_def nan_free3_def rrf_nan_free_def get)
  show "drop_raw ` set (rrf_items scored_lists thr (it m)) = rrf_candidates k ls ws thr"
    by (force simp: rrf_items_def rrf_candidates_def drop_raw_def get image_iff passes_def split: option.splits)
  have "mset (map fst (it m)) = mset (map fst m)" using iter_orderD [OF assms(2), of m] by simp
  then have "distinct (map fst (it m))"
    using ok by (metis hm_ok_def mset_eq_imp_distinct_iff)
  then have "distinct (map fst (filter (\<lambda>(_, s). passes thr s) (it m)))"
    by (rule distinct_map_filter)
  moreover have "map fst (rrf_items scored_lists thr (it m)) = map fst (filter (\<lambda>(_, s). passes thr s) (it m))"
    by (simp add: rrf_items_def case_prod_beta')
  ultimately show "distinct (map fst (rrf_items scored_lists thr (it m)))" by simp
qed

lemma rrf_items_raw: "t \<in> set (rrf_items scored_lists thr m) \<Longrightarrow> snd (snd t) = raw_score scored_lists (fst t)"
  by (auto simp: rrf_items_def)

lemma rrf_items_linorder:
  assumes "set xs \<subseteq> nan_free3" "distinct (map fst xs)"
  shows "cmp_linorder rrf_cmp (set xs)"
  using assms(2) cmp_order_mono [OF rrf_order.cmp_order_axioms assms(1)]
  by (intro cmp_linorderI) (auto simp: rrf_cmp_def distinct_map dest: inj_onD)

text \<open>
  C10: reciprocal rank fusion returns, in rank order (fused score, then raw-score sum, then
  id) and without repetitions, exactly the best \<open>limit\<close> of the candidates that pass the
  threshold, where the fused score of an id is the left-to-right sum of
  \<open>weight / (k + rank)\<close> over its occurrences; it panics when there are fewer weights than
  arms. This holds for every iteration order of the hash map, so the order is irrelevant.
\<close>

theorem rrf_fuse_correct:
  assumes "iter_order it" "length ls \<le> length ws" "rrf_nan_free k ls ws scored_lists"
  shows "\<exists>out. rrf_fuse it ls ws scored_lists limit thr k = Some out
    \<and> sorted_wrt (rank_before scored_lists) out
    \<and> distinct (map fst out)
    \<and> set out \<subseteq> rrf_candidates k ls ws thr
    \<and> length out = min limit (card (rrf_candidates k ls ws thr))
    \<and> (\<forall>a \<in> set out. \<forall>b \<in> rrf_candidates k ls ws thr - set out. rank_before scored_lists a b)"
proof -
  obtain m where m: "rrf_scores k ls ws [] = Some m" using assms(2) rrf_scores_Some by blast
  let ?items = "rrf_items scored_lists thr (it m)"
  let ?top = "take limit (sort_by rrf_cmp ?items)"
  note f = rrf_items_facts [OF m assms(1,3)]
  note lin = rrf_items_linorder [OF f(1,2)]
  have dist: "distinct ?items" using f(2) by (simp add: distinct_map)
  have inj: "inj_on drop_raw (set ?items)"
    by (rule inj_onI) (auto simp: drop_raw_def prod_eq_iff rrf_items_raw)
  have sub: "set ?top \<subseteq> set ?items" using set_take_subset [of limit "sort_by rrf_cmp ?items"] by simp
  have before: "rank_before scored_lists (drop_raw a) (drop_raw b) \<longleftrightarrow> rrf_cmp a b = Less"
    if "a \<in> set ?items" "b \<in> set ?items" for a b
  proof -
    have "\<not> is_nan (fst (snd a))" "\<not> is_nan (fst (snd b))" using f(1) [of thr] that unfolding nan_free3_def by fastforce+
    then show ?thesis
      using rrf_items_raw [OF that(1)] rrf_items_raw [OF that(2)] assms(3)
        rank_before_cmp [of "fst (snd a)" "fst (snd b)" scored_lists "fst a" "fst b"]
      by (cases a; cases b) (simp add: drop_raw_def rrf_nan_free_def)
  qed
  have sorted: "sorted_wrt (\<lambda>a b. rrf_cmp a b = Less) ?top"
    using cmp_linorder.sort_by_strict [OF lin dist order_refl] by (rule sorted_wrt_take)
  have "sorted_wrt (rank_before scored_lists) (map drop_raw ?top)"
    unfolding sorted_wrt_map
    using sorted by (rule sorted_wrt_mono_rel [rotated]) (use sub before in blast)
  moreover have "distinct (map fst (map drop_raw ?top))"
  proof -
    have "map fst (map drop_raw (sort_by rrf_cmp ?items)) = map fst (sort_by rrf_cmp ?items)"
      by (simp add: drop_raw_def)
    moreover have "distinct (map fst (sort_by rrf_cmp ?items))"
      using f(2) by (simp add: distinct_map)
    ultimately show ?thesis by (metis distinct_take take_map)
  qed
  moreover have "set (map drop_raw ?top) \<subseteq> rrf_candidates k ls ws thr"
    using sub f(3) by auto
  moreover have "length (map drop_raw ?top) = min limit (card (rrf_candidates k ls ws thr))"
    unfolding f(3) [symmetric] using inj dist by (simp add: card_image distinct_card min.commute)
  moreover have "rank_before scored_lists a b"
    if ab: "a \<in> set (map drop_raw ?top)" "b \<in> rrf_candidates k ls ws thr - set (map drop_raw ?top)" for a b
  proof -
    have "b \<in> drop_raw ` set ?items" using ab(2) f(3) [of thr] by simp
    then obtain y where y: "b = drop_raw y" "y \<in> set ?items" by (rule imageE)
    have "a \<in> drop_raw ` set ?top" using ab(1) by simp
    then obtain x where "a = drop_raw x" "x \<in> set ?top" by (rule imageE)
    with y have xy: "x \<in> set ?top" "a = drop_raw x" "y \<in> set ?items" "b = drop_raw y" by auto
    then have "y \<notin> set ?top" using ab by auto
    then have "rrf_cmp x y = Less"
      using cmp_linorder.take_sort_by_best [OF lin dist order_refl xy(1,3)] by simp
    then show ?thesis using before [of x y] sub xy by auto
  qed
  ultimately show ?thesis by (auto simp: rrf_fuse_items m)
qed


text \<open>
  The result of reciprocal rank fusion does not depend on the iteration order of its
  hash map.
\<close>

theorem rrf_fuse_deterministic:
  assumes "iter_order it" "iter_order it'" "rrf_nan_free k ls ws scored_lists"
  shows "rrf_fuse it ls ws scored_lists limit thr k = rrf_fuse it' ls ws scored_lists limit thr k"
proof (cases "rrf_scores k ls ws []")
  case (Some m)
  let ?a = "rrf_items scored_lists thr (it m)" and ?b = "rrf_items scored_lists thr (it' m)"
  have "mset ?a = mset ?b"
    using iter_orderD [OF assms(1), of m] iter_orderD [OF assms(2), of m]
    by (simp add: rrf_items_def mset_filter)
  then have "sort_by rrf_cmp ?a = sort_by rrf_cmp ?b"
    using rrf_items_facts [OF Some assms(1,3)] by (intro rrf_sort_perm) (auto simp: distinct_map)
  then show ?thesis by (simp add: rrf_fuse_items Some)
qed (simp add: rrf_fuse_items)

section \<open>Rank dominance\<close>

lemma fp_of_nat_pos:
  "fp_of_nat binary64 (Suc n) = Infinity False \<or> (\<exists>m. fp_of_nat binary64 (Suc n) = Finite False m \<and> 1 \<le> m)"
proof -
  have "rnd binary64 1 = 1" using rnd_nat [of 1 binary64] by (simp add: binary64_def)
  then have "1 \<le> rnd binary64 (of_nat (Suc n))"
    using rnd_mono [OF binary64_prec, of 1 "of_nat (Suc n)"] by simp
  then show ?thesis by (auto simp: fp_of_nat_def fp_of_rat_def fp_round_def)
qed

lemma rrf_term_mono:
  assumes "fp_le f64_zero (Finite s m)" "r \<le> q"
  shows "fp_le (rrf_term k (Finite s m) q) (rrf_term k (Finite s m) r)"
    and "fp_le f64_zero (rrf_term k (Finite s m) q)"
proof -
  have zero: "fp_le f64_zero (rrf_term k (Finite s m) i)" for i
  proof (cases "fp_of_nat binary64 (Suc (k + i))")
    case (Finite t n)
    with fp_of_nat_pos [of "k + i"] have n: "t = False" "1 \<le> n" by auto
    have "fp_le (fp_round binary64 False 0) (fp_round binary64 (s \<noteq> False) (fval (Finite s m) / n))"
      using assms(1) n by (intro fp_round_mono) (auto simp: f64_zero_def zero_le_divide_iff divide_le_0_iff)
    then show ?thesis using Finite n by (simp add: rrf_term_def f64_zero_def fp_round_def)
  qed (use fp_of_nat_pos [of "k + i"] in \<open>auto simp: rrf_term_def f64_zero_def\<close>)
  then show "fp_le f64_zero (rrf_term k (Finite s m) q)" .
  have le: "fp_le (fp_of_nat binary64 (Suc (k + r))) (fp_of_nat binary64 (Suc (k + q)))"
    unfolding fp_of_nat_def fp_of_rat_def using assms(2) by (intro fp_round_mono) auto
  show "fp_le (rrf_term k (Finite s m) q) (rrf_term k (Finite s m) r)"
  proof (cases "fp_of_nat binary64 (Suc (k + q))")
    case (Finite t n)
    with le fp_of_nat_pos [of "k + q"] fp_of_nat_pos [of "k + r"] obtain n' where n:
      "t = False" "1 \<le> n" "fp_of_nat binary64 (Suc (k + r)) = Finite False n'" "1 \<le> n'" "n' \<le> n"
      by auto
    then have "fp_le (f64_div (Finite s m) (Finite False n)) (f64_div (Finite s m) (Finite False n'))"
      using assms(1) by (intro fp_div_mono) (auto simp: f64_zero_def)
    then show ?thesis using Finite n by (simp add: rrf_term_def)
  next
    case (Infinity t)
    then have "rrf_term k (Finite s m) q = Finite (s \<noteq> t) 0" by (simp add: rrf_term_def)
    then show ?thesis using zero [of r] by (auto simp: f64_zero_def fp_le_rank)
  qed (use fp_of_nat_pos [of "k + q"] in auto)
qed


definition ge0 :: "fp \<Rightarrow> bool" where
  "ge0 x \<longleftrightarrow> fp_le f64_zero x \<and> fp_ok binary64 x"

definition weight_ok :: "fp \<Rightarrow> bool" where
  "weight_ok w \<longleftrightarrow> fp_le f64_zero w \<and> (\<exists>s m. w = Finite s m)"

lemma ge0_zero [simp]: "ge0 f64_zero"
  by (simp add: ge0_def f64_zero_def binary64_def)

lemma ge0_not_nan [simp]: "ge0 x \<Longrightarrow> \<not> is_nan x"
  by (auto simp: ge0_def fp_le_def)

lemma ge0_add_not_nan: "fp_le f64_zero x \<Longrightarrow> fp_le f64_zero y \<Longrightarrow> \<not> is_nan (f64_add x y)"
  by (cases x; cases y) (auto simp: f64_zero_def)

lemma ge0_add: "ge0 x \<Longrightarrow> fp_le f64_zero y \<Longrightarrow> ge0 (f64_add x y)"
  using fp_add_increasing [OF binary64_prec, of x y] ge0_add_not_nan [of x y]
  by (auto simp: ge0_def f64_zero_def [symmetric] dest: fp_le_trans)

lemma rrf_term_ge0: "weight_ok w \<Longrightarrow> fp_le f64_zero (rrf_term k w r)"
  using rrf_term_mono(2) [of _ _ r r k] by (auto simp: weight_ok_def)

lemma arm_terms_ge0: "weight_ok w \<Longrightarrow> t \<in> set (arm_terms k w r ids i) \<Longrightarrow> fp_le f64_zero t"
  by (induction ids arbitrary: r) (auto simp: rrf_term_ge0 split: if_splits)

lemma rrf_terms_ge0:
  "\<forall>w \<in> set ws. weight_ok w \<Longrightarrow> t \<in> set (rrf_terms k ls ws i) \<Longrightarrow> fp_le f64_zero t"
  by (induction k ls ws i rule: rrf_terms.induct) (auto dest: arm_terms_ge0)

lemma foldl_ge0: "ge0 x \<Longrightarrow> \<forall>t \<in> set ts. fp_le f64_zero t \<Longrightarrow> ge0 (foldl f64_add x ts)"
  by (induction ts arbitrary: x) (auto simp: ge0_add)

lemma rrf_score_ge0:
  "\<forall>w \<in> set ws. weight_ok w \<Longrightarrow> rrf_score k ls ws i = Some s \<Longrightarrow> ge0 s"
  by (auto simp: rrf_score_terms add_terms_def split: if_splits
      intro!: foldl_ge0 dest: rrf_terms_ge0)

text \<open>In an arm without repetitions an id has one contribution, at its rank.\<close>

lemma arm_terms_notin [simp]: "i \<notin> set ids \<Longrightarrow> arm_terms k w r ids i = []"
  by (induction ids arbitrary: r) auto

lemma arm_terms_split:
  "i \<notin> set xs \<Longrightarrow> i \<notin> set ys \<Longrightarrow> arm_terms k w r (xs @ i # ys) i = [rrf_term k w (r + length xs)]"
  by (induction xs arbitrary: r) auto

definition ranked_before :: "string \<Rightarrow> string \<Rightarrow> string list \<Rightarrow> bool" where
  "ranked_before a b ids \<longleftrightarrow> (\<exists>xs ys zs. ids = xs @ a # ys @ b # zs)"

definition acc_le :: "fp option \<Rightarrow> fp option \<Rightarrow> bool" where
  "acc_le sb sa \<longleftrightarrow> (sb \<noteq> None \<longrightarrow> sa \<noteq> None) \<and> fp_le (unwrap_or f64_zero sb) (unwrap_or f64_zero sa)
     \<and> ge0 (unwrap_or f64_zero sa) \<and> ge0 (unwrap_or f64_zero sb)"

lemma acc_le_arm:
  assumes w: "weight_ok w" and d: "distinct ids" and dom: "b \<in> set ids \<longrightarrow> ranked_before a b ids"
    and le: "acc_le sb sa"
  shows "acc_le (add_terms sb (arm_terms k w 0 ids b)) (add_terms sa (arm_terms k w 0 ids a))"
proof -
  let ?x = "unwrap_or f64_zero sb" and ?y = "unwrap_or f64_zero sa"
  have y: "ge0 ?y" and x: "ge0 ?x" and xy: "fp_le ?x ?y" using le by (auto simp: acc_le_def)
  have grow: "fp_le ?y (f64_add ?y t)" if "fp_le f64_zero t" for t
    using y that ge0_add_not_nan [of ?y t]
    by (intro fp_add_increasing) (auto simp: ge0_def f64_zero_def)
  show ?thesis
  proof (cases "b \<in> set ids")
    case False
    show ?thesis
    proof (cases "a \<in> set ids")
      case True
      then obtain xs ys where ids: "ids = xs @ a # ys" by (auto simp: in_set_conv_decomp)
      then have t: "arm_terms k w 0 ids a = [rrf_term k w (length xs)]"
        using d arm_terms_split [of a xs ys k w 0] by simp
      show ?thesis
        using False le grow [of "rrf_term k w (length xs)"] rrf_term_ge0 [OF w, of k "length xs"] y
        by (auto simp: t add_terms_def acc_le_def ge0_add intro: fp_le_trans [OF xy])
    qed (use False le in simp)
  next
    case True
    with dom obtain xs ys zs where ids: "ids = xs @ a # ys @ b # zs" by (auto simp: ranked_before_def)
    let ?q = "length xs" and ?p = "length (xs @ a # ys)"
    have ta: "arm_terms k w 0 ids a = [rrf_term k w ?q]"
      using d arm_terms_split [of a xs "ys @ b # zs" k w 0] by (simp add: ids)
    have tb: "arm_terms k w 0 ids b = [rrf_term k w ?p]"
      using d arm_terms_split [of b "xs @ a # ys" zs k w 0] by (auto simp: ids)
    have "fp_le (rrf_term k w ?p) (rrf_term k w ?q)"
      using w rrf_term_mono(1) [of _ _ ?q ?p k] by (auto simp: weight_ok_def)
    then have "fp_le (f64_add ?x (rrf_term k w ?p)) (f64_add ?y (rrf_term k w ?q))"
      using xy x y rrf_term_ge0 [OF w] by (intro fp_add_mono) (auto simp: ge0_add_not_nan ge0_def)
    then show ?thesis
      using x y rrf_term_ge0 [OF w, of k ?p] rrf_term_ge0 [OF w, of k ?q]
      by (simp add: ta tb add_terms_def acc_le_def ge0_add)
  qed
qed

lemma acc_le_arms:
  assumes "\<forall>w \<in> set ws. weight_ok w" "\<forall>ids \<in> set ls. distinct ids"
    "\<forall>ids \<in> set ls. b \<in> set ids \<longrightarrow> ranked_before a b ids" "acc_le sb sa"
  shows "acc_le (add_terms sb (rrf_terms k ls ws b)) (add_terms sa (rrf_terms k ls ws a))"
  using assms
proof (induction k ls ws b arbitrary: sa sb rule: rrf_terms.induct)
  case (1 k ids rest w ws i)
  then have "acc_le (add_terms sb (arm_terms k w 0 ids i)) (add_terms sa (arm_terms k w 0 ids a))"
    by (intro acc_le_arm) auto
  with 1 show ?case by (simp add: add_terms_append)
qed simp_all

text \<open>
  Fusion respects dominance, in IEEE double arithmetic with its rounding: when no arm
  repeats an id and the weights are finite and not negative, an id that is ranked before
  another one in every arm in which the other occurs has a fused score that is at least as
  high.
\<close>

theorem rrf_dominance:
  assumes "\<forall>w \<in> set ws. weight_ok w" "\<forall>ids \<in> set ls. distinct ids"
    "\<forall>ids \<in> set ls. b \<in> set ids \<longrightarrow> ranked_before a b ids"
    "rrf_score k ls ws b = Some t"
  shows "\<exists>s. rrf_score k ls ws a = Some s \<and> fp_le t s"
proof -
  have "acc_le None None" by (simp add: acc_le_def fp_le_refl)
  from acc_le_arms [OF assms(1-3) this, of k] assms(4) show ?thesis
    by (auto simp: acc_le_def rrf_score_terms)
qed


theorem rrf_dominance_witness:
  "\<exists>s t. rrf_score 2 [[''a'', ''b''], [''a'']] [f64_one, f64_zero] ''a'' = Some s
     \<and> rrf_score 2 [[''a'', ''b''], [''a'']] [f64_one, f64_zero] ''b'' = Some t \<and> fp_le t s"
proof -
  have "rrf_score 2 [[''a'', ''b''], [''a'']] [f64_one, f64_zero] ''b'' = Some (f64_add f64_zero (rrf_term 2 f64_one 1))"
    by (simp add: rrf_score_terms add_terms_def)
  moreover have "ranked_before ''a'' ''b'' [''a'', ''b'']"
    unfolding ranked_before_def by (intro exI [of _ "[]"]) simp
  ultimately show ?thesis
    using rrf_dominance [of "[f64_one, f64_zero]" "[[''a'', ''b''], [''a'']]" "''b''" "''a''" 2]
    by (simp add: weight_ok_def f64_one_def f64_zero_def) blast
qed

lemma rrf_nan_freeI:
  "\<forall>w \<in> set ws. weight_ok w \<Longrightarrow> (\<And>i. \<not> is_nan (raw_score scored_lists i)) \<Longrightarrow>
     rrf_nan_free k ls ws scored_lists"
  by (auto simp: rrf_nan_free_def dest: rrf_score_ge0)

theorem rrf_fuse_correct_witness:
  "\<exists>out. rrf_fuse rev [[''b'', ''a''], [''a'']] [f64_one, f64_one] [] 1 None 2 = Some out
     \<and> length out = min 1 (card (rrf_candidates 2 [[''b'', ''a''], [''a'']] [f64_one, f64_one] None))"
proof -
  have "rrf_nan_free 2 [[''b'', ''a''], [''a'']] [f64_one, f64_one] []"
    by (rule rrf_nan_freeI) (auto simp: weight_ok_def raw_score_def f64_one_def f64_zero_def)
  from rrf_fuse_correct [OF iter_order_id(3) _ this, of 1 None] show ?thesis by auto
qed


theorem rrf_fuse_deterministic_witness:
  "rrf_fuse rev [[''b'', ''a'']] [f64_one] [] 5 None 2 = rrf_fuse id [[''b'', ''a'']] [f64_one] [] 5 None 2"
proof -
  have "rrf_nan_free 2 [[''b'', ''a'']] [f64_one] []"
    by (rule rrf_nan_freeI) (auto simp: weight_ok_def raw_score_def f64_one_def f64_zero_def)
  from rrf_fuse_deterministic [OF iter_order_id(3,1) this] show ?thesis .
qed


section \<open>Linear fusion\<close>

fun is_finite :: "fp \<Rightarrow> bool" where
  "is_finite (Finite _ _) = True"
| "is_finite _ = False"

lemma fold_min:
  assumes "\<not> is_nan m" "\<forall>p \<in> set arm. \<not> is_nan (snd p)"
  shows "fp_le (fold (\<lambda>p m. fp_min m (snd p)) arm m) m \<and>
    (\<forall>p \<in> set arm. fp_le (fold (\<lambda>p m. fp_min m (snd p)) arm m) (snd p)) \<and>
    fold (\<lambda>p m. fp_min m (snd p)) arm m \<in> insert m (snd ` set arm)"
  using assms
proof (induction arm arbitrary: m)
  case (Cons p arm)
  let ?n = "fp_min m (snd p)"
  have n: "\<not> is_nan ?n" "fp_le ?n m" "fp_le ?n (snd p)" "?n \<in> {m, snd p}"
    using Cons.prems by (auto simp: fp_min_def fp_le_def fp_lt_rank)
  with Cons.IH [of ?n] Cons.prems show ?case by (auto intro: fp_le_trans)
qed (simp add: fp_le_refl)

lemma fold_max:
  assumes "\<not> is_nan m" "\<forall>p \<in> set arm. \<not> is_nan (snd p)"
  shows "fp_le m (fold (\<lambda>p m. fp_max m (snd p)) arm m) \<and>
    (\<forall>p \<in> set arm. fp_le (snd p) (fold (\<lambda>p m. fp_max m (snd p)) arm m)) \<and>
    fold (\<lambda>p m. fp_max m (snd p)) arm m \<in> insert m (snd ` set arm)"
  using assms
proof (induction arm arbitrary: m)
  case (Cons p arm)
  let ?n = "fp_max m (snd p)"
  have n: "\<not> is_nan ?n" "fp_le m ?n" "fp_le (snd p) ?n" "?n \<in> {m, snd p}"
    using Cons.prems by (auto simp: fp_max_def fp_le_def fp_lt_rank)
  with Cons.IH [of ?n] Cons.prems show ?case by (auto intro: fp_le_trans)
qed (simp add: fp_le_refl)

definition arm_finite :: "scored \<Rightarrow> bool" where
  "arm_finite arm \<longleftrightarrow> (\<forall>p \<in> set arm. is_finite (snd p) \<and> fp_ok binary64 (snd p))"

lemma arm_finite_mem:
  assumes "arm_finite arm" "x \<in> snd ` set arm"
  shows "\<exists>s m. x = Finite s m \<and> fp_ok binary64 (Finite s m)"
proof -
  have "is_finite x" "fp_ok binary64 x" using assms by (auto simp: arm_finite_def)
  then show ?thesis by (cases x) auto
qed

lemma arm_bounds:
  assumes "arm_finite arm" "arm \<noteq> []"
  shows "arm_min arm \<in> snd ` set arm" "arm_max arm \<in> snd ` set arm"
    "p \<in> set arm \<Longrightarrow> fp_le (arm_min arm) (snd p)" "p \<in> set arm \<Longrightarrow> fp_le (snd p) (arm_max arm)"
proof -
  have nn: "\<forall>p \<in> set arm. \<not> is_nan (snd p)"
    using assms(1) by (metis arm_finite_def is_finite.simps(2) is_nan.elims(2))
  note lo = fold_min [of "Infinity False", OF _ nn, folded arm_min_def]
  note hi = fold_max [of "Infinity True", OF _ nn, folded arm_max_def]
  obtain q where q: "q \<in> set arm" using assms(2) by (cases arm) auto
  have "is_finite (snd q)" using assms(1) q by (simp add: arm_finite_def)
  then obtain s m where sq: "snd q = Finite s m" by (cases "snd q") auto
  have "arm_min arm \<noteq> Infinity False" using lo q sq by auto
  then show "arm_min arm \<in> snd ` set arm" using lo by auto
  have "arm_max arm \<noteq> Infinity True" using hi q sq by auto
  then show "arm_max arm \<in> snd ` set arm" using hi by auto
  show "p \<in> set arm \<Longrightarrow> fp_le (arm_min arm) (snd p)" "p \<in> set arm \<Longrightarrow> fp_le (snd p) (arm_max arm)"
    using lo hi by auto
qed


lemma map_of_fold_update: "map_of (fold (\<lambda>(i, n) m. AList.update i n m) l m) = map_of m ++ map_of (rev l)"
  by (induction l arbitrary: m) (auto simp: fun_eq_iff update_conv map_add_def split: option.splits)

lemma fold_update_ok: "hm_ok m \<Longrightarrow> hm_ok (fold (\<lambda>(i, n) m. AList.update i n m) l m)"
  by (induction l arbitrary: m) auto

lemma norm_map_ok: "hm_ok (norm_map arm)"
  by (simp add: norm_map_def Let_def fold_update_ok)

text \<open>What the normalisation assigns to a score of the arm.\<close>

definition norm_score :: "scored \<Rightarrow> fp \<Rightarrow> fp" where
  "norm_score arm s =
     (if fp_eq (arm_max arm) (arm_min arm) then f64_one
      else f64_div (f64_sub s (arm_min arm)) (f64_sub (arm_max arm) (arm_min arm)))"

lemma norm_map_get: "map_of (norm_map arm) i = map_option (norm_score arm) (map_of (rev arm) i)"
proof -
  have "norm_map arm = fold (\<lambda>(i, n) m. AList.update i n m) (map (\<lambda>(i, s). (i, norm_score arm s)) arm) []"
    by (auto simp: norm_map_def norm_score_def Let_def intro!: arg_cong2 [where f = "\<lambda>l. fold _ l"] map_cong)
  then have "map_of (norm_map arm) i = map_of (map (\<lambda>(i, s). (i, norm_score arm s)) (rev arm)) i"
    by (simp add: map_of_fold_update rev_map)
  also have "\<dots> = map_option (norm_score arm) (map_of (rev arm) i)"
    using map_of_map [of "norm_score arm" "rev arm"] by (simp add: case_prod_unfold)
  finally show ?thesis .
qed

text \<open>
  Min-max normalisation puts every score of an arm into the unit interval, the best one
  at exactly 1 (in IEEE double arithmetic, for finite scores whose range does not overflow).
\<close>

theorem norm_map_unit:
  assumes "arm_finite arm" "is_finite (f64_sub (arm_max arm) (arm_min arm))"
    and "map_of (norm_map arm) i = Some n"
  shows "fp_le f64_zero n \<and> fp_le n f64_one
    \<and> (map_of (rev arm) i = Some (arm_max arm) \<longrightarrow> n = f64_one)"
proof -
  obtain s where s: "map_of (rev arm) i = Some s" "n = norm_score arm s"
    using assms(3) by (auto simp: norm_map_get)
  then have mem: "(i, s) \<in> set arm" by (metis map_of_SomeD set_rev)
  then have "arm \<noteq> []" by auto
  note b = arm_bounds [OF assms(1) this]
  have "s \<in> snd ` set arm" using mem by force
  from arm_finite_mem [OF assms(1) this] arm_finite_mem [OF assms(1) b(1)] arm_finite_mem [OF assms(1) b(2)]
  obtain t m u l v h where fin: "s = Finite t m" "arm_min arm = Finite u l" "arm_max arm = Finite v h"
    and ok: "fp_ok binary64 (Finite t m)" "fp_ok binary64 (Finite u l)" "fp_ok binary64 (Finite v h)"
    by blast
  have ord: "fval (Finite u l) \<le> fval (Finite t m)" "fval (Finite t m) \<le> fval (Finite v h)"
    using b(3,4) [OF mem] by (simp_all add: fin del: fval.simps)
  show ?thesis
  proof (cases "fp_eq (arm_max arm) (arm_min arm)")
    case True
    then show ?thesis by (simp add: s norm_score_def f64_one_def f64_zero_def)
  next
    case False
    have F: "0 < prec binary64" "emin binary64 \<le> 0" "0 < emax binary64" by (simp_all add: binary64_def)
    from False have "fval (Finite u l) < fval (Finite v h)"
      using ord by (auto simp: fin fp_eq_def simp del: fval.simps)
    with fp_sub_pos [OF F(1) ok(3,2)] assms(2) obtain d where
      d: "f64_sub (arm_max arm) (arm_min arm) = Finite False d" "0 < d" by (auto simp: fin)
    have le: "fp_le (f64_sub s (arm_min arm)) (Finite False d)"
      unfolding d(1) [symmetric] fin fp_sub_cases using ord by (intro fp_round_mono) auto
    have ge: "fp_le (Finite False 0) (f64_sub s (arm_min arm))"
    proof -
      have "fp_le (fp_round binary64 False 0) (f64_sub s (arm_min arm))"
        unfolding fin fp_sub_cases using ord by (intro fp_round_mono) auto
      then show ?thesis by (simp add: fp_round_def)
    qed
    obtain z e where e: "f64_sub s (arm_min arm) = Finite z e"
      using le ge by (cases "f64_sub s (arm_min arm)") auto
    note unit = fp_div_unit [OF F ge [unfolded e] le [unfolded e] d(2)]
    have n: "n = f64_div (Finite z e) (Finite False d)"
      using False by (simp add: s norm_score_def e d)
    then have "fp_le f64_zero n" "fp_le n f64_one"
      using unit(1,2) unfolding f64_zero_def f64_one_def by (simp_all only:)
    moreover have "n = f64_one" if "s = arm_max arm"
    proof -
      have "fval (Finite z e) = d" using e d that by simp
      then show ?thesis using n unit(3) by (simp add: f64_one_def)
    qed
    ultimately show ?thesis using s(1) by auto
  qed
qed


theorem norm_map_unit_witness:
  "\<exists>n. map_of (norm_map [(''a'', f64_one), (''b'', f64_zero)]) ''a'' = Some n
     \<and> fp_le f64_zero n \<and> fp_le n f64_one \<and> n = f64_one"
proof -
  let ?arm = "[(''a'', f64_one), (''b'', f64_zero)]"
  have one: "rnd binary64 1 = 1" using rnd_nat [of 1 binary64] by (simp add: binary64_def)
  have mm: "arm_max ?arm = f64_one" "arm_min ?arm = f64_zero"
    by (simp_all add: arm_max_def arm_min_def fp_max_def fp_min_def f64_one_def f64_zero_def)
  have sub: "f64_sub f64_one f64_zero = f64_one"
    by (simp add: f64_one_def f64_zero_def fp_sub_def fp_round_def one) (simp add: binary64_def)
  have "arm_finite ?arm"
    using rnd_representable [of binary64 1]
    by (simp add: arm_finite_def f64_one_def f64_zero_def one) (simp add: binary64_def)
  moreover have "is_finite (f64_sub (arm_max ?arm) (arm_min ?arm))"
    unfolding mm sub by (simp add: f64_one_def)
  moreover obtain n where n: "map_of (norm_map ?arm) ''a'' = Some n" by (simp add: norm_map_get)
  ultimately have "fp_le f64_zero n \<and> fp_le n f64_one
      \<and> (map_of (rev ?arm) ''a'' = Some (arm_max ?arm) \<longrightarrow> n = f64_one)"
    by (rule norm_map_unit)
  then show ?thesis using n by (auto simp: mm)
qed

text \<open>The candidates do not depend on the order in which an arm's hash map is read.\<close>

lemma fold_linear_add_get:
  assumes "hm_ok m"
  shows "map_of (fold (linear_add w) m c) i =
    (case map_of m i of None \<Rightarrow> map_of c i
     | Some n \<Rightarrow> Some (f64_add (unwrap_or f64_zero (map_of c i)) (f64_mul w n)))"
  using assms
proof (induction m arbitrary: c)
  case (Cons p m)
  then have "hm_ok m" "fst p \<notin> fst ` set m" by (auto simp: hm_ok_def)
  then have "map_of m (fst p) = None" by (simp add: map_of_eq_None_iff)
  with Cons.IH [OF \<open>hm_ok m\<close>] show ?case
    by (cases p) (auto simp: linear_add_def hm_upsert_get split: option.splits)
qed simp

lemma fold_linear_add_ok: "hm_ok c \<Longrightarrow> hm_ok (fold (linear_add w) m c)"
  by (induction m arbitrary: c) (auto simp: linear_add_def)

lemma iter_order_map_of:
  assumes "iter_order it" "hm_ok m"
  shows "map_of (it m) = map_of m" "hm_ok (it m)"
proof -
  have "mset (map fst (it m)) = mset (map fst m)" using iter_orderD [OF assms(1), of m] by simp
  then show ok: "hm_ok (it m)" using assms(2) by (metis hm_ok_def mset_eq_imp_distinct_iff)
  have "set (it m) = set m" by (rule iter_order_set [OF assms(1)])
  then show "map_of (it m) = map_of m"
    using ok assms(2) by (intro map_of_inject_set [THEN iffD2]) (auto simp: hm_ok_def)
qed

lemma linear_scores_get:
  assumes "iter_order it" "iter_order it'" "hm_ok c" "hm_ok c'" "map_of c = map_of c'"
  shows "rel_option (\<lambda>m m'. hm_ok m \<and> hm_ok m' \<and> map_of m = map_of m')
    (linear_scores it ls ws n c) (linear_scores it' ls ws n c')"
  using assms(3-5)
proof (induction ls arbitrary: n c c')
  case (Cons arm ls)
  let ?f = "\<lambda>it c. fold (linear_add (ws ! n)) (it (norm_map arm)) c"
  have "map_of (?f it c) = map_of (?f it' c')"
    using Cons.prems assms(1,2) norm_map_ok [of arm]
    by (auto simp: fun_eq_iff fold_linear_add_get iter_order_map_of split: option.split)
  then show ?case using Cons by (simp add: fold_linear_add_ok)
qed simp

text \<open>
  The result of linear fusion does not depend on the iteration order of its hash maps,
  as long as no candidate's score is NaN.
\<close>

theorem linear_fuse_deterministic:
  assumes "iter_order it" "iter_order it'"
    and "\<forall>m. linear_scores it ls ws 0 [] = Some m \<longrightarrow> (\<forall>p \<in> set m. \<not> is_nan (snd p))"
  shows "linear_weighted_score_fuse it ls ws limit thr = linear_weighted_score_fuse it' ls ws limit thr"
proof -
  have rel: "rel_option (\<lambda>m m'. hm_ok m \<and> hm_ok m' \<and> map_of m = map_of m')
      (linear_scores it ls ws 0 []) (linear_scores it' ls ws 0 [])"
    by (rule linear_scores_get [OF assms(1,2)]) simp_all
  show ?thesis
  proof (cases "linear_scores it ls ws 0 []")
    case None
    with rel show ?thesis by (simp add: linear_weighted_score_fuse_def)
  next
    case (Some m)
    with rel obtain m' where m': "linear_scores it' ls ws 0 [] = Some m'"
      "hm_ok m" "hm_ok m'" "map_of m = map_of m'" by (cases "linear_scores it' ls ws 0 []") auto
    then have "mset m = mset m'"
      by (metis distinct_map hm_ok_def map_of_inject_set set_eq_iff_mset_eq_distinct)
    then have perm: "mset (it m) = mset (it' m')" using assms(1,2) by (simp add: iter_orderD)
    have "distinct (map fst (it m))" using iter_order_map_of(2) [OF assms(1) m'(2)] by (simp add: hm_ok_def)
    moreover have "set (it m) = set m" by (rule iter_order_set [OF assms(1)])
    ultimately have "sort_by linear_cmp (filter (\<lambda>(_, s). passes thr s) (it m)) =
        sort_by linear_cmp (filter (\<lambda>(_, s). passes thr s) (it' m'))"
      using perm assms(3) Some
      by (intro linear_sort_perm) (auto simp: nan_free2_def distinct_map inj_on_def)
    then show ?thesis by (simp add: linear_weighted_score_fuse_def Some m' Let_def)
  qed
qed


theorem linear_fuse_deterministic_witness:
  "linear_weighted_score_fuse rev [[(''a'', f64_one)], []] [f64_one] 3 None =
   linear_weighted_score_fuse id [[(''a'', f64_one)], []] [f64_one] 3 None"
proof (rule linear_fuse_deterministic)
  have "norm_map [(''a'', f64_one)] = [(''a'', f64_one)]"
    by (simp add: norm_map_def Let_def arm_max_def arm_min_def fp_max_def fp_min_def fp_eq_def f64_one_def)
  then have "linear_scores rev [[(''a'', f64_one)], []] [f64_one] 0 [] =
      Some [(''a'', f64_add f64_zero (f64_mul f64_one f64_one))]"
    by (simp add: linear_add_def hm_upsert_def)
  then show "\<forall>m. linear_scores rev [[(''a'', f64_one)], []] [f64_one] 0 [] = Some m \<longrightarrow>
      (\<forall>p \<in> set m. \<not> is_nan (snd p))"
    by (auto simp: f64_zero_def f64_one_def fp_round_def split: if_splits)
qed simp_all

end
