(* ===== verification/Metadata_Filter.thy ===== *)
theory Metadata_Filter
  imports Models
begin

text \<open>
  Metadata filters: their validation against the indexes of a collection
  (\<open>validate_metadata_filter\<close> of \<open>src/src/encoder.rs\<close>), their translation to filters of the Qdrant
  database (\<open>convert_metadata_filter\<close> and \<open>build_search_filter\<close> of \<open>src/src/qdrant.rs\<close>), and the
  validation of document metadata against the indexes. A Qdrant filter is a datatype with the
  variants of the protocol messages the code builds; what the database does with one is an argument
  \<open>holds\<close> with the documented law \<open>qdrant_laws\<close>. The date parser of \<open>src/src/datetime_parse.rs\<close> is
  the argument \<open>parse_dt\<close>.
\<close>

section \<open>Validation\<close>

definition as_i64 :: "json \<Rightarrow> int option" where
  "as_i64 v =
     (case v of
        Number (PosInt n) \<Rightarrow> if n < 2 ^ 63 then Some (int n) else None
      | Number (NegInt i) \<Rightarrow> Some i
      | _ \<Rightarrow> None)"

definition as_f64 :: "json \<Rightarrow> fp option" where
  "as_f64 v = (case v of Number n \<Rightarrow> Some (number_as_f64 n) | _ \<Rightarrow> None)"

fun is_string :: "json \<Rightarrow> bool" where
  "is_string (String _) = True"
| "is_string _ = False"

definition MAX_INDEXED_METADATA_VALUE_LENGTH :: nat where
  "MAX_INDEXED_METADATA_VALUE_LENGTH = 1024"

definition metadata_value_matches_index_type :: "(string \<Rightarrow> string + int) \<Rightarrow> json \<Rightarrow> string \<Rightarrow> bool" where
  "metadata_value_matches_index_type parse_dt v expected_type =
     (if expected_type = ''string'' then is_string v
      else if expected_type = ''integer'' then is_i64 v \<or> is_u64 v
      else if expected_type = ''float'' then is_number v
      else if expected_type = ''boolean'' then is_boolean v
      else if expected_type = ''datetime'' then
        (case as_str v of Some s \<Rightarrow> is_ok (parse_dt s) | None \<Rightarrow> False)
      else False)"

datatype metadata_error =
    TypeMismatch string string
  | ValueTooLong string

definition check_metadata_index ::
    "(string \<Rightarrow> string + int) \<Rightarrow> (string \<times> json) list \<Rightarrow> metadata_index \<Rightarrow> metadata_error + unit" where
  "check_metadata_index parse_dt metadata idx =
     (case map_of metadata (mi_key idx) of
        None \<Rightarrow> Inr ()
      | Some v \<Rightarrow>
          if is_null v then Inr ()
          else if \<not> metadata_value_matches_index_type parse_dt v (mi_value_type idx)
          then Inl (TypeMismatch (mi_key idx) (mi_value_type idx))
          else if mi_value_type idx = ''string'' \<and>
                  (case as_str v of Some s \<Rightarrow> chars_count s | None \<Rightarrow> 0) > MAX_INDEXED_METADATA_VALUE_LENGTH
          then Inl (ValueTooLong (mi_key idx))
          else Inr ())"

definition validate_metadata_types ::
    "(string \<Rightarrow> string + int) \<Rightarrow> collection_config_internal \<Rightarrow> document \<Rightarrow> metadata_error + unit" where
  "validate_metadata_types parse_dt config document =
     (case cci_metadata_indexes config of
        None \<Rightarrow> Inr ()
      | Some indexes \<Rightarrow>
          if indexes = [] then Inr ()
          else case doc_metadata document of
                 None \<Rightarrow> Inr ()
               | Some metadata \<Rightarrow>
                   if metadata = [] then Inr ()
                   else try_for_each (check_metadata_index parse_dt metadata) indexes)"

datatype filter_error =
    NoIndexes
  | NotIndexed string
  | OpUnsupported string string string
  | ValueMustBe string string
  | UnknownIndexType string string

text \<open>The checks on a node with a key, by the declared type of the key.\<close>

definition check_filter_value ::
    "(string \<Rightarrow> string + int) \<Rightarrow> string \<Rightarrow> string \<Rightarrow> string \<Rightarrow> json option \<Rightarrow> filter_error + unit" where
  "check_filter_value parse_dt key expected_type op v =
     (if expected_type = ''string'' then
        if op \<noteq> ''eq'' \<and> op \<noteq> ''neq'' then Inl (OpUnsupported op ''string'' key)
        else (case v of Some (String _) \<Rightarrow> Inr () | _ \<Rightarrow> Inl (ValueMustBe key ''a string''))
      else if expected_type = ''integer'' then
        (case v of
           Some (Number n) \<Rightarrow>
             if is_i64 (Number n) \<or> is_u64 (Number n) then Inr () else Inl (ValueMustBe key ''an integer'')
         | _ \<Rightarrow> Inl (ValueMustBe key ''an integer''))
      else if expected_type = ''float'' then
        (case v of Some (Number _) \<Rightarrow> Inr () | _ \<Rightarrow> Inl (ValueMustBe key ''a number''))
      else if expected_type = ''boolean'' then
        if op \<noteq> ''eq'' \<and> op \<noteq> ''neq'' then Inl (OpUnsupported op ''boolean'' key)
        else (case v of Some (Bool _) \<Rightarrow> Inr () | _ \<Rightarrow> Inl (ValueMustBe key ''a boolean''))
      else if expected_type = ''datetime'' then
        (case v of
           Some (String s) \<Rightarrow>
             if is_ok (parse_dt s) then Inr () else Inl (ValueMustBe key ''an ISO datetime string'')
         | _ \<Rightarrow> Inl (ValueMustBe key ''an ISO datetime string''))
      else Inl (UnknownIndexType expected_type key))"

lemma size_mf_and: "x \<in> set (unwrap_or [] a) \<Longrightarrow> size x < size (MetadataFilter a ors n k p v)"
  by (cases a) (auto dest!: size_list_estimation' [where f = size, OF _ order_refl])

lemma size_mf_or: "x \<in> set (unwrap_or [] ors) \<Longrightarrow> size x < size (MetadataFilter a ors n k p v)"
  by (cases ors) (auto dest!: size_list_estimation' [where f = size, OF _ order_refl])

lemma size_mf_not: "size x < size (MetadataFilter a ors (Some x) k p v)"
  by simp

lemmas mf_sizes = size_mf_and size_mf_or size_mf_not

text \<open>The check of the key of a node; \<open>True\<close> is the early return for \<open>is_null\<close>.\<close>

definition check_filter_key ::
    "(string \<Rightarrow> string + int) \<Rightarrow> (string \<times> string) list \<Rightarrow> string option \<Rightarrow> string option \<Rightarrow> json option \<Rightarrow>
     filter_error + bool" where
  "check_filter_key parse_dt indexed_types key p v =
     (case key of
        None \<Rightarrow> Inr False
      | Some k \<Rightarrow>
          and_then (ok_or (NotIndexed k) (map_of indexed_types k)) (\<lambda>expected_type.
            if unwrap_or [] p = ''is_null'' then Inr True
            else and_then (check_filter_value parse_dt k expected_type (unwrap_or [] p) v) (\<lambda>_. Inr False)))"

function validate_filter_node ::
    "(string \<Rightarrow> string + int) \<Rightarrow> (string \<times> string) list \<Rightarrow> metadata_filter \<Rightarrow> filter_error + unit" where
  "validate_filter_node parse_dt indexed_types (MetadataFilter ands ors nt key p v) =
     and_then (check_filter_key parse_dt indexed_types key p v) (\<lambda>early.
       if early then Inr ()
       else
         and_then (try_for_each (validate_filter_node parse_dt indexed_types) (unwrap_or [] ands)) (\<lambda>_.
         and_then (try_for_each (validate_filter_node parse_dt indexed_types) (unwrap_or [] ors)) (\<lambda>_.
         case nt of None \<Rightarrow> Inr () | Some n \<Rightarrow> validate_filter_node parse_dt indexed_types n)))"
  by pat_completeness auto
termination validate_filter_node
  by (relation "measure (\<lambda>(_, _, f). size f)") (auto intro: mf_sizes simp del: metadata_filter.size)

text \<open>The \<open>HashMap\<close> collected from the indexes keeps the last entry of a key.\<close>

definition index_types :: "metadata_index list \<Rightarrow> (string \<times> string) list" where
  "index_types indexes = rev (map (\<lambda>idx. (mi_key idx, mi_value_type idx)) indexes)"

definition validate_metadata_filter ::
    "(string \<Rightarrow> string + int) \<Rightarrow> collection_config_internal \<Rightarrow> metadata_filter \<Rightarrow> filter_error + unit" where
  "validate_metadata_filter parse_dt config f =
     (let indexes = unwrap_or [] (cci_metadata_indexes config) in
      if indexes = [] then Inl NoIndexes
      else validate_filter_node parse_dt (index_types indexes) f)"

section \<open>Translation to Qdrant filters\<close>

datatype match_value =
    MKeyword string
  | MInteger int
  | MBoolean bool
  | MKeywords "string list"

datatype 'a range_bound = Gt 'a | Gte 'a | Lt 'a | Lte 'a

datatype condition =
    FieldMatch string match_value
  | FieldRange string "fp range_bound"
  | FieldDatetimeRange string "int range_bound"
  | IsEmpty string
  | FilterCondition qfilter
and qfilter = Filter (must: "condition list") (should: "condition list") (must_not: "condition list")

datatype db_error =
    NotFound string
  | Qdrant string
  | Config string

definition range_bound :: "string \<Rightarrow> 'a \<Rightarrow> 'a range_bound option" where
  "range_bound p x =
     (if p = ''gt'' then Some (Gt x)
      else if p = ''gte'' then Some (Gte x)
      else if p = ''lt'' then Some (Lt x)
      else if p = ''lte'' then Some (Lte x)
      else None)"

definition filter_value_prefix :: "string \<Rightarrow> string" where
  "filter_value_prefix key = ''Metadata filter for key '' @ quoted key"

definition equality_match :: "string \<Rightarrow> string \<Rightarrow> json option \<Rightarrow> db_error + match_value" where
  "equality_match key p raw_value =
     (case raw_value of
        Some (String s) \<Rightarrow> Inr (MKeyword s)
      | Some (Bool b) \<Rightarrow> Inr (MBoolean b)
      | Some (Number n) \<Rightarrow> Inr (MInteger (unwrap_or 0 (as_i64 (Number n))))
      | _ \<Rightarrow> Inl (Config (filter_value_prefix key @
               '': missing or unsupported value type for operator '' @ quoted p)))"

definition convert_leaf ::
    "(string \<Rightarrow> string + int) \<Rightarrow> metadata_index list \<Rightarrow> string \<Rightarrow> string \<Rightarrow> json option \<Rightarrow> db_error + condition" where
  "convert_leaf parse_dt indexes key p raw_value =
     (let field_path = ''metadata.'' @ key;
          is_datetime = list_ex (\<lambda>mi. mi_key mi = key \<and> mi_value_type mi = ''datetime'') indexes
      in
      if p = ''is_null'' then Inr (IsEmpty field_path)
      else if p = ''eq'' \<or> p = ''neq'' then
        and_then (equality_match key p raw_value) (\<lambda>mv.
          Inr (if p = ''neq'' then FilterCondition (Filter [] [] [FieldMatch field_path mv])
               else FieldMatch field_path mv))
      else if is_datetime then
        and_then (ok_or (Config (filter_value_prefix key @ '': datetime value must be a string''))
                    (Option.bind raw_value as_str)) (\<lambda>s.
        and_then (map_err Config (parse_dt s)) (\<lambda>ts.
          case range_bound p ts of
            Some r \<Rightarrow> Inr (FieldDatetimeRange field_path r)
          | None \<Rightarrow> Inl (Config (''Unsupported operator '' @ quoted p @ '' for datetime key '' @ quoted key))))
      else
        and_then (ok_or (Config (filter_value_prefix key @ '': numeric value required for operator '' @ quoted p))
                    (Option.bind raw_value as_f64)) (\<lambda>x.
          case range_bound p x of
            Some r \<Rightarrow> Inr (FieldRange field_path r)
          | None \<Rightarrow> Inl (Config (''Unsupported operator '' @ quoted p @ '' for key '' @ quoted key))))"

function convert_metadata_node ::
    "(string \<Rightarrow> string + int) \<Rightarrow> metadata_index list \<Rightarrow> metadata_filter \<Rightarrow> db_error + condition" where
  "convert_metadata_node parse_dt indexes (MetadataFilter ands ors nt key p v) =
     (case key of
        Some k \<Rightarrow> convert_leaf parse_dt indexes k (unwrap_or [] p) v
      | None \<Rightarrow>
          and_then (collect_result (map (convert_metadata_node parse_dt indexes) (unwrap_or [] ands))) (\<lambda>mu.
          and_then (collect_result (map (convert_metadata_node parse_dt indexes) (unwrap_or [] ors))) (\<lambda>sh.
          and_then (case nt of
                      None \<Rightarrow> Inr []
                    | Some n \<Rightarrow> and_then (convert_metadata_node parse_dt indexes n) (\<lambda>c. Inr [c])) (\<lambda>mn.
            Inr (FilterCondition (Filter mu sh mn))))))"
  by pat_completeness auto
termination convert_metadata_node
  by (relation "measure (\<lambda>(_, _, f). size f)") (auto intro: mf_sizes simp del: metadata_filter.size)

definition convert_metadata_filter ::
    "(string \<Rightarrow> string + int) \<Rightarrow> metadata_index list \<Rightarrow> metadata_filter \<Rightarrow> db_error + qfilter" where
  "convert_metadata_filter parse_dt indexes node =
     and_then (convert_metadata_node parse_dt indexes node) (\<lambda>c.
       Inr (case c of FilterCondition f \<Rightarrow> f | other \<Rightarrow> Filter [other] [] []))"

definition tag_conditions :: "string list option \<Rightarrow> bool \<Rightarrow> condition list" where
  "tag_conditions document_tags match_all =
     (case document_tags of
        None \<Rightarrow> []
      | Some tags \<Rightarrow>
          if tags = [] then []
          else if match_all then map (\<lambda>tag. FieldMatch ''tags'' (MKeyword tag)) tags
          else [FieldMatch ''tags'' (MKeywords tags)])"

definition build_search_filter ::
    "(string \<Rightarrow> string + int) \<Rightarrow> metadata_index list \<Rightarrow> search_query_settings \<Rightarrow> db_error + qfilter option" where
  "build_search_filter parse_dt indexes settings =
     (let conditions = tag_conditions (sqs_document_tags settings) (sqs_document_tags_match_all settings);
          tags_filter = (if conditions = [] then None else Some (Filter conditions [] []))
      in and_then (case sqs_metadata_filter settings of
                     None \<Rightarrow> Inr None
                   | Some mf \<Rightarrow> and_then (convert_metadata_filter parse_dt indexes mf) (\<lambda>f. Inr (Some f)))
           (\<lambda>metadata_filter.
              Inr (case (tags_filter, metadata_filter) of
                     (Some tf, Some mf) \<Rightarrow> Some (Filter [FilterCondition tf, FilterCondition mf] [] [])
                   | (Some tf, None) \<Rightarrow> Some tf
                   | (None, Some mf) \<Rightarrow> Some mf
                   | (None, None) \<Rightarrow> None)))"

section \<open>Meaning of a filter\<close>

text \<open>
  A filter of the API, given the meaning \<open>leaf\<close> of its comparisons, and the documented meaning of a
  Qdrant filter: every \<open>must\<close> condition holds, some \<open>should\<close> condition holds if there is one, and no
  \<open>must_not\<close> condition holds.
\<close>

function mf_holds :: "(string \<Rightarrow> string \<Rightarrow> json option \<Rightarrow> bool) \<Rightarrow> metadata_filter \<Rightarrow> bool" where
  "mf_holds leaf (MetadataFilter ands ors nt key p v) =
     (case key of
        Some k \<Rightarrow> leaf k (unwrap_or [] p) v
      | None \<Rightarrow>
          (\<forall>f \<in> set (unwrap_or [] ands). mf_holds leaf f) \<and>
          (unwrap_or [] ors = [] \<or> (\<exists>f \<in> set (unwrap_or [] ors). mf_holds leaf f)) \<and>
          (case nt of None \<Rightarrow> True | Some n \<Rightarrow> \<not> mf_holds leaf n))"
  by pat_completeness auto
termination mf_holds
  by (relation "measure (\<lambda>(_, f). size f)") (auto intro: mf_sizes simp del: metadata_filter.size)

definition qdrant_laws :: "(condition \<Rightarrow> bool) \<Rightarrow> bool" where
  "qdrant_laws holds \<longleftrightarrow>
     (\<forall>mu sh mn. holds (FilterCondition (Filter mu sh mn)) \<longleftrightarrow>
        (\<forall>c \<in> set mu. holds c) \<and> (sh = [] \<or> (\<exists>c \<in> set sh. holds c)) \<and> (\<forall>c \<in> set mn. \<not> holds c))"

text \<open>
  Qdrant's documented reading of the conditions on one point, whose payload has the value \<open>pay path\<close>
  at \<open>path\<close>: a field condition holds when it holds of the value, or of an element of it when it is an
  array; \<open>is_empty\<close> holds when the value is missing, null or an empty array. \<open>date\<close> is the database's
  own reading of a stored text as a date.
\<close>

definition payload_values :: "(string \<Rightarrow> json option) \<Rightarrow> string \<Rightarrow> json list" where
  "payload_values pay path = (case pay path of None \<Rightarrow> [] | Some (Array vs) \<Rightarrow> vs | Some v \<Rightarrow> [v])"

fun in_bound :: "('a \<Rightarrow> 'a \<Rightarrow> bool) \<Rightarrow> ('a \<Rightarrow> 'a \<Rightarrow> bool) \<Rightarrow> 'a \<Rightarrow> 'a range_bound \<Rightarrow> bool" where
  "in_bound lt le x (Gt y) = lt y x"
| "in_bound lt le x (Gte y) = le y x"
| "in_bound lt le x (Lt y) = lt x y"
| "in_bound lt le x (Lte y) = le x y"

fun value_matches :: "json \<Rightarrow> match_value \<Rightarrow> bool" where
  "value_matches v (MKeyword s) = (v = String s)"
| "value_matches v (MInteger i) = (as_i64 v = Some i)"
| "value_matches v (MBoolean b) = (v = Bool b)"
| "value_matches v (MKeywords ss) = (\<exists>s \<in> set ss. v = String s)"

definition qdrant_point ::
    "(string \<Rightarrow> int option) \<Rightarrow> (string \<Rightarrow> json option) \<Rightarrow> (condition \<Rightarrow> bool) \<Rightarrow> bool" where
  "qdrant_point date pay holds \<longleftrightarrow> qdrant_laws holds
   \<and> (\<forall>path m. holds (FieldMatch path m) \<longleftrightarrow> (\<exists>v \<in> set (payload_values pay path). value_matches v m))
   \<and> (\<forall>path r. holds (FieldRange path r) \<longleftrightarrow>
        (\<exists>n. Number n \<in> set (payload_values pay path) \<and> in_bound fp_lt fp_le (number_as_f64 n) r))
   \<and> (\<forall>path r. holds (FieldDatetimeRange path r) \<longleftrightarrow>
        (\<exists>t d. String t \<in> set (payload_values pay path) \<and> date t = Some d \<and> in_bound (<) (\<le>) d r))
   \<and> (\<forall>path. holds (IsEmpty path) \<longleftrightarrow> pay path = None \<or> pay path = Some Null \<or> pay path = Some (Array []))"

text \<open>
  What a comparison of the API asks of the payload, operator by operator. A value that is compared
  by \<open>eq\<close> or \<open>neq\<close> is a text, a truth value or a whole number of 64 bits; \<open>gt\<close>, \<open>gte\<close>, \<open>lt\<close> and
  \<open>lte\<close> compare dates on the keys that are indexed as dates and numbers on the others.
\<close>

definition ordered_as :: "string \<Rightarrow> ('a \<Rightarrow> 'a \<Rightarrow> bool) \<Rightarrow> ('a \<Rightarrow> 'a \<Rightarrow> bool) \<Rightarrow> 'a \<Rightarrow> 'a \<Rightarrow> bool" where
  "ordered_as p lt le stored asked \<longleftrightarrow>
     p = ''gt'' \<and> lt asked stored \<or> p = ''gte'' \<and> le asked stored \<or>
     p = ''lt'' \<and> lt stored asked \<or> p = ''lte'' \<and> le stored asked"

fun same_value :: "json \<Rightarrow> json \<Rightarrow> bool" where
  "same_value (String s) (String t) = (s = t)"
| "same_value (Bool a) (Bool b) = (a = b)"
| "same_value (Number m) (Number n) = (as_i64 (Number m) = as_i64 (Number n))"
| "same_value _ _ = False"

definition leaf_means ::
    "(string \<Rightarrow> int option) \<Rightarrow> (string \<Rightarrow> json option) \<Rightarrow> (string \<Rightarrow> string + int) \<Rightarrow> metadata_index list \<Rightarrow>
     string \<Rightarrow> string \<Rightarrow> json option \<Rightarrow> bool" where
  "leaf_means date pay parse_dt indexes k p v =
     (let path = ''metadata.'' @ k; stored = set (payload_values pay path) in
      if p = ''is_null'' then pay path = None \<or> pay path = Some Null \<or> pay path = Some (Array [])
      else if p = ''eq'' then (\<exists>x \<in> stored. \<exists>y. v = Some y \<and> same_value x y)
      else if p = ''neq'' then \<not> (\<exists>x \<in> stored. \<exists>y. v = Some y \<and> same_value x y)
      else if \<exists>mi \<in> set indexes. mi_key mi = k \<and> mi_value_type mi = ''datetime'' then
        (\<exists>t d s e. String t \<in> stored \<and> date t = Some d \<and> v = Some (String s) \<and> parse_dt s = Inr e
           \<and> ordered_as p (<) (\<le>) d e)
      else (\<exists>m n. Number m \<in> stored \<and> v = Some (Number n)
              \<and> ordered_as p fp_lt fp_le (number_as_f64 m) (number_as_f64 n)))"

text \<open>Every comparison of a filter satisfies a condition on its operator and value.\<close>

function mf_every :: "(string \<Rightarrow> json option \<Rightarrow> bool) \<Rightarrow> metadata_filter \<Rightarrow> bool" where
  "mf_every P (MetadataFilter ands ors nt key p v) =
     (case key of
        Some k \<Rightarrow> P (unwrap_or [] p) v
      | None \<Rightarrow>
          (\<forall>f \<in> set (unwrap_or [] ands). mf_every P f) \<and> (\<forall>f \<in> set (unwrap_or [] ors). mf_every P f) \<and>
          (case nt of None \<Rightarrow> True | Some n \<Rightarrow> mf_every P n))"
  by pat_completeness auto
termination mf_every
  by (relation "measure (\<lambda>(_, f). size f)") (auto intro: mf_sizes simp del: metadata_filter.size)

definition whole_equality :: "string \<Rightarrow> json option \<Rightarrow> bool" where
  "whole_equality p v \<longleftrightarrow>
     (p = ''eq'' \<or> p = ''neq'') \<longrightarrow> (\<forall>n. v = Some (Number n) \<longrightarrow> as_i64 (Number n) \<noteq> None)"

lemma qdrant_lawsD:
  "qdrant_laws holds \<Longrightarrow> holds (FilterCondition (Filter mu sh mn)) \<longleftrightarrow>
     (\<forall>c \<in> set mu. holds c) \<and> (sh = [] \<or> (\<exists>c \<in> set sh. holds c)) \<and> (\<forall>c \<in> set mn. \<not> holds c)"
  by (simp add: qdrant_laws_def)

lemma qdrant_pointD: "qdrant_point date pay holds \<Longrightarrow> qdrant_laws holds"
  by (simp add: qdrant_point_def)

lemma collect_map_all:
  assumes "collect_result (map f xs) = Inr ys" "\<And>x y. x \<in> set xs \<Longrightarrow> f x = Inr y \<Longrightarrow> P y \<longleftrightarrow> Q x"
  shows "(\<forall>y \<in> set ys. P y) \<longleftrightarrow> (\<forall>x \<in> set xs. Q x)" "(\<exists>y \<in> set ys. P y) \<longleftrightarrow> (\<exists>x \<in> set xs. Q x)"
    "ys = [] \<longleftrightarrow> xs = []"
proof -
  have "map f xs = map Inr ys" using assms(1) by (simp add: collect_result_eq_Inr)
  then have "length xs = length ys" and el: "\<And>i. i < length xs \<Longrightarrow> f (xs ! i) = Inr (ys ! i)"
    by (auto dest: map_eq_imp_length_eq simp: list_eq_iff_nth_eq)
  moreover have "P (ys ! i) \<longleftrightarrow> Q (xs ! i)" if "i < length xs" for i
    using assms(2) el that by simp
  ultimately show "(\<forall>y \<in> set ys. P y) \<longleftrightarrow> (\<forall>x \<in> set xs. Q x)"
    "(\<exists>y \<in> set ys. P y) \<longleftrightarrow> (\<exists>x \<in> set xs. Q x)" "ys = [] \<longleftrightarrow> xs = []"
    by (auto simp: all_set_conv_all_nth in_set_conv_nth Bex_def simp flip: length_0_conv)
qed

lemma in_bound_range: "range_bound p y = Some r \<Longrightarrow> in_bound lt le x r \<longleftrightarrow> ordered_as p lt le x y"
  by (auto simp: range_bound_def ordered_as_def split: if_splits)

lemma equality_match_value:
  "equality_match k p (Some y) = Inr m \<Longrightarrow> whole_equality ''eq'' (Some y) \<Longrightarrow> value_matches x m \<longleftrightarrow> same_value x y"
  by (cases x; cases y) (auto simp: equality_match_def whole_equality_def as_i64_def)

lemma bind_as_str: "Option.bind v as_str = Some s \<longleftrightarrow> v = Some (String s)"
  by (cases v) (auto elim: as_str.elims)

lemma bind_as_f64: "Option.bind v as_f64 = Some x \<longleftrightarrow> (\<exists>n. v = Some (Number n) \<and> x = number_as_f64 n)"
  by (cases v) (auto simp: as_f64_def split: json.splits)

lemma convert_leaf_meaning:
  assumes point: "qdrant_point date pay holds" and c: "convert_leaf parse_dt indexes k p v = Inr c"
    and whole: "whole_equality p v"
  shows "holds c \<longleftrightarrow> leaf_means date pay parse_dt indexes k p v"
proof -
  note law = point [unfolded qdrant_point_def qdrant_laws_def]
  have dt: "list_ex (\<lambda>mi. mi_key mi = k \<and> mi_value_type mi = ''datetime'') indexes \<longleftrightarrow>
      (\<exists>mi \<in> set indexes. mi_key mi = k \<and> mi_value_type mi = ''datetime'')"
    by (simp add: list_ex_iff)
  consider (null) "p = ''is_null''" | (equality) "p = ''eq'' \<or> p = ''neq''"
    | (range) "p \<noteq> ''is_null''" "p \<noteq> ''eq''" "p \<noteq> ''neq''" by blast
  then show ?thesis
  proof cases
    case null
    then show ?thesis using c law by (auto simp: convert_leaf_def leaf_means_def Let_def)
  next
    case equality
    obtain m y where m: "equality_match k p v = Inr m" "v = Some y"
      using c equality by (cases v) (auto simp: convert_leaf_def Let_def equality_match_def)
    then have "value_matches x m \<longleftrightarrow> same_value x y" for x
      using equality_match_value [of k p y m x] whole equality by (auto simp: whole_equality_def)
    moreover have "c = (if p = ''neq'' then FilterCondition (Filter [] [] [FieldMatch (''metadata.'' @ k) m])
        else FieldMatch (''metadata.'' @ k) m)"
      using c equality m(1) by (auto simp: convert_leaf_def Let_def)
    ultimately show ?thesis
      using equality law by (elim disjE) (simp_all add: leaf_means_def Let_def m(2))
  next
    case range
    show ?thesis
    proof (cases "\<exists>mi \<in> set indexes. mi_key mi = k \<and> mi_value_type mi = ''datetime''")
      case True
      with c range obtain s e r where r: "v = Some (String s)" "parse_dt s = Inr e" "range_bound p e = Some r"
        "c = FieldDatetimeRange (''metadata.'' @ k) r"
        by (auto simp: convert_leaf_def Let_def dt bind_as_str split: option.splits)
      show ?thesis using range True law by (simp add: leaf_means_def r in_bound_range [OF r(3)])
    next
      case False
      with c range obtain n r where r: "v = Some (Number n)" "range_bound p (number_as_f64 n) = Some r"
        "c = FieldRange (''metadata.'' @ k) r"
        by (auto simp: convert_leaf_def Let_def dt bind_as_f64 split: option.splits)
      show ?thesis using range False law by (simp add: leaf_means_def r in_bound_range [OF r(2)])
    qed
  qed
qed

lemma convert_node_meaning:
  assumes point: "qdrant_point date pay holds"
  shows "convert_metadata_node parse_dt indexes node = Inr c \<Longrightarrow> mf_every whole_equality node \<Longrightarrow>
     holds c \<longleftrightarrow> mf_holds (leaf_means date pay parse_dt indexes) node"
proof (induction parse_dt indexes node arbitrary: c rule: convert_metadata_node.induct)
  case (1 parse_dt indexes ands ors nt key p v)
  show ?case
  proof (cases key)
    case (Some k)
    with 1(4,5) show ?thesis by (simp add: convert_leaf_meaning [OF point])
  next
    case None
    from 1(4) None obtain mu sh mn where
      mu: "collect_result (map (convert_metadata_node parse_dt indexes) (unwrap_or [] ands)) = Inr mu"
      and sh: "collect_result (map (convert_metadata_node parse_dt indexes) (unwrap_or [] ors)) = Inr sh"
      and mn: "(case nt of None \<Rightarrow> Inr [] | Some n \<Rightarrow>
            and_then (convert_metadata_node parse_dt indexes n) (\<lambda>c. Inr [c])) = Inr mn"
      and c: "c = FilterCondition (Filter mu sh mn)"
      by auto
    let ?Q = "mf_holds (leaf_means date pay parse_dt indexes)"
    have "(\<forall>c \<in> set mu. holds c) \<longleftrightarrow> (\<forall>f \<in> set (unwrap_or [] ands). ?Q f)"
      using 1(1) 1(5) None by (intro collect_map_all(1) [OF mu]) auto
    moreover have "(\<exists>c \<in> set sh. holds c) \<longleftrightarrow> (\<exists>f \<in> set (unwrap_or [] ors). ?Q f)" "sh = [] \<longleftrightarrow> unwrap_or [] ors = []"
      using 1(2) 1(5) None mu by (intro collect_map_all [OF sh, where P = holds]; auto)+
    moreover have "(\<forall>c \<in> set mn. \<not> holds c) \<longleftrightarrow> (case nt of None \<Rightarrow> True | Some n \<Rightarrow> \<not> ?Q n)"
      using mn 1(3) [OF None] 1(5) None by (auto split: option.splits)
    ultimately show ?thesis
      unfolding c qdrant_lawsD [OF qdrant_pointD [OF point]] by (simp add: None)
  qed
qed

text \<open>
  C12: the filter sent to the database selects the points the request asks for: all requested tags
  (or one of them, as asked) are among the tags of the point, and the metadata filter holds of its
  payload, with the connectives read as conjunction, disjunction and negation and every comparison
  read as \<open>leaf_means\<close> spells it out; with no tags and no filter there is no restriction. The numbers
  compared by \<open>eq\<close> and \<open>neq\<close> must be whole numbers of 64 bits: any other number is lost on the way
  (\<open>float_equality_lost\<close>).
\<close>

theorem search_filter_meaning:
  assumes "qdrant_point date pay holds" "build_search_filter parse_dt indexes settings = Inr r"
    "\<And>mf. sqs_metadata_filter settings = Some mf \<Longrightarrow> mf_every whole_equality mf"
  shows "(case r of None \<Rightarrow> True | Some f \<Rightarrow> holds (FilterCondition f)) \<longleftrightarrow>
    (case sqs_document_tags settings of
       None \<Rightarrow> True
     | Some tags \<Rightarrow>
         if sqs_document_tags_match_all settings
         then \<forall>tag \<in> set tags. String tag \<in> set (payload_values pay ''tags'')
         else tags = [] \<or> (\<exists>tag \<in> set tags. String tag \<in> set (payload_values pay ''tags''))) \<and>
    (case sqs_metadata_filter settings of
       None \<Rightarrow> True
     | Some mf \<Rightarrow> mf_holds (leaf_means date pay parse_dt indexes) mf)"
proof -
  note law = qdrant_lawsD [OF qdrant_pointD [OF assms(1)]]
  have match: "holds (FieldMatch path m) \<longleftrightarrow> (\<exists>v \<in> set (payload_values pay path). value_matches v m)" for path m
    using assms(1) by (simp add: qdrant_point_def)
  let ?conds = "tag_conditions (sqs_document_tags settings) (sqs_document_tags_match_all settings)"
  have tags: "(\<forall>c \<in> set ?conds. holds c) \<longleftrightarrow>
    (case sqs_document_tags settings of
       None \<Rightarrow> True
     | Some tags \<Rightarrow>
         if sqs_document_tags_match_all settings
         then \<forall>tag \<in> set tags. String tag \<in> set (payload_values pay ''tags'')
         else tags = [] \<or> (\<exists>tag \<in> set tags. String tag \<in> set (payload_values pay ''tags'')))"
    by (cases "sqs_document_tags settings") (auto simp: tag_conditions_def match)
  have filt: "holds (FilterCondition f) \<longleftrightarrow> mf_holds (leaf_means date pay parse_dt indexes) mf"
    if conv: "convert_metadata_filter parse_dt indexes mf = Inr f" and whole: "mf_every whole_equality mf" for mf f
  proof -
    obtain c where c: "convert_metadata_node parse_dt indexes mf = Inr c"
      "f = (case c of FilterCondition f \<Rightarrow> f | other \<Rightarrow> Filter [other] [] [])"
      using conv by (auto simp: convert_metadata_filter_def)
    have "holds (FilterCondition f) \<longleftrightarrow> holds c"
      by (cases c) (simp_all add: c(2) law)
    then show ?thesis using convert_node_meaning [OF assms(1) c(1) whole] by simp
  qed
  show ?thesis
    unfolding tags [symmetric] using assms(2,3)
    by (auto simp: build_search_filter_def Let_def filt law split: option.splits if_splits)
qed

section \<open>Validated filters\<close>

definition known_op :: "string \<Rightarrow> bool" where
  "known_op p \<longleftrightarrow> List.member [''eq'', ''neq'', ''gt'', ''gte'', ''lt'', ''lte'', ''is_null''] p"

function mf_ops_known :: "metadata_filter \<Rightarrow> bool" where
  "mf_ops_known (MetadataFilter ands ors nt key p v) =
     (case key of
        Some k \<Rightarrow> known_op (unwrap_or [] p)
      | None \<Rightarrow>
          (\<forall>f \<in> set (unwrap_or [] ands). mf_ops_known f) \<and> (\<forall>f \<in> set (unwrap_or [] ors). mf_ops_known f) \<and>
          (case nt of None \<Rightarrow> True | Some n \<Rightarrow> mf_ops_known n))"
  by pat_completeness auto
termination mf_ops_known
  by (relation "measure size") (auto intro: mf_sizes simp del: metadata_filter.size)

lemma range_bound_known:
  "known_op p \<Longrightarrow> p \<noteq> ''eq'' \<Longrightarrow> p \<noteq> ''neq'' \<Longrightarrow> p \<noteq> ''is_null'' \<Longrightarrow> \<exists>r. range_bound p x = Some r"
  by (auto simp: known_op_def range_bound_def)

lemma index_types_datetime:
  assumes "distinct (map mi_key indexes)"
  shows "map_of (index_types indexes) k = Some t \<longleftrightarrow> (\<exists>mi \<in> set indexes. mi_key mi = k \<and> mi_value_type mi = t)"
proof -
  have "distinct (map fst (index_types indexes))"
    using assms by (simp add: index_types_def rev_map [symmetric] o_def)
  then have "map_of (index_types indexes) k = Some t \<longleftrightarrow> (k, t) \<in> set (index_types indexes)" by simp
  then show ?thesis by (auto simp: index_types_def)
qed

lemma convert_leaf_total:
  assumes "check_filter_value parse_dt k t p v = Inr ()" "known_op p" "distinct (map mi_key indexes)"
    "map_of (index_types indexes) k = Some t"
  shows "\<exists>c. convert_leaf parse_dt indexes k p v = Inr c"
proof -
  let ?dt = "list_ex (\<lambda>mi. mi_key mi = k \<and> mi_value_type mi = ''datetime'') indexes"
  have dt: "?dt \<longleftrightarrow> t = ''datetime''"
    using index_types_datetime [OF assms(3), of k "''datetime''"] assms(4) by (auto simp: list_ex_iff)
  consider "p = ''is_null''" | "p = ''eq'' \<or> p = ''neq''"
    | (range) "p \<noteq> ''is_null''" "p \<noteq> ''eq''" "p \<noteq> ''neq''" by blast
  then show ?thesis
  proof cases
    case 2
    then have "\<exists>m. equality_match k p v = Inr m"
      using assms(1)
      by (auto simp: check_filter_value_def equality_match_def split: if_splits option.splits json.splits)
    with 2 show ?thesis by (auto simp: convert_leaf_def Let_def)
  next
    case range
    obtain r rd where r: "\<And>x :: fp. range_bound p x = Some (r x)" and rd: "\<And>x :: int. range_bound p x = Some (rd x)"
      using range_bound_known [OF assms(2)] range by metis
    show ?thesis
      using assms(1) range
      by (auto simp: convert_leaf_def Let_def dt r rd check_filter_value_def as_f64_def is_ok_def
          split: if_splits option.splits json.splits sum.splits)
  qed (simp add: convert_leaf_def)
qed

lemma convert_node_total:
  assumes "distinct (map mi_key indexes)"
  shows "validate_filter_node parse_dt (index_types indexes) node = Inr () \<Longrightarrow> mf_ops_known node \<Longrightarrow>
     \<exists>c. convert_metadata_node parse_dt indexes node = Inr c"
proof (induction node rule: mf_ops_known.induct)
  case (1 ands ors nt key p v)
  show ?case
  proof (cases key)
    case (Some k)
    have "convert_leaf parse_dt indexes k ''is_null'' v = Inr (IsEmpty (''metadata.'' @ k))"
      by (simp add: convert_leaf_def)
    moreover obtain t where t: "map_of (index_types indexes) k = Some t" "known_op (unwrap_or [] p)"
      "unwrap_or [] p = ''is_null'' \<or> check_filter_value parse_dt k t (unwrap_or [] p) v = Inr ()"
      using 1(4,5) Some by (auto simp: check_filter_key_def split: if_splits)
    ultimately have "\<exists>c. convert_leaf parse_dt indexes k (unwrap_or [] p) v = Inr c"
      using convert_leaf_total [OF _ t(2) assms t(1)] by metis
    then show ?thesis using Some by simp
  next
    case None
    have all: "\<exists>ys. collect_result (map (convert_metadata_node parse_dt indexes) xs) = Inr ys"
      if "\<forall>f \<in> set xs. \<exists>c. convert_metadata_node parse_dt indexes f = Inr c" for xs
      using that by (induction xs) auto
    have va: "\<forall>f \<in> set (unwrap_or [] ands). validate_filter_node parse_dt (index_types indexes) f = Inr ()"
      "\<forall>f \<in> set (unwrap_or [] ors). validate_filter_node parse_dt (index_types indexes) f = Inr ()"
      "\<forall>n. nt = Some n \<longrightarrow> validate_filter_node parse_dt (index_types indexes) n = Inr ()"
      using 1(4) None by (auto simp: check_filter_key_def)
    have "\<forall>f \<in> set (unwrap_or [] ands). \<exists>c. convert_metadata_node parse_dt indexes f = Inr c"
      "\<forall>f \<in> set (unwrap_or [] ors). \<exists>c. convert_metadata_node parse_dt indexes f = Inr c"
      "\<forall>n. nt = Some n \<longrightarrow> (\<exists>c. convert_metadata_node parse_dt indexes n = Inr c)"
      using 1(1-3) [OF None] va 1(5) None by auto
    then obtain mu sh where
      "collect_result (map (convert_metadata_node parse_dt indexes) (unwrap_or [] ands)) = Inr mu"
      "collect_result (map (convert_metadata_node parse_dt indexes) (unwrap_or [] ors)) = Inr sh"
      and "\<forall>n. nt = Some n \<longrightarrow> (\<exists>c. convert_metadata_node parse_dt indexes n = Inr c)"
      using all by blast
    then show ?thesis by (cases nt) (auto simp: None)
  qed
qed

text \<open>
  A filter that passed the validation against the indexes of the collection, with the operators
  of the API, is always translated: the search never fails on a filter it accepted.
\<close>

theorem validated_filter_converts:
  assumes "validate_metadata_filter parse_dt config node = Inr ()" "mf_ops_known node"
    "distinct (map mi_key (unwrap_or [] (cci_metadata_indexes config)))"
  shows "\<exists>f. convert_metadata_filter parse_dt (unwrap_or [] (cci_metadata_indexes config)) node = Inr f"
  using assms convert_node_total [OF assms(3), of parse_dt node]
  by (auto simp: validate_metadata_filter_def Let_def convert_metadata_filter_def split: if_splits)

text \<open>
  An equality filter on a key of type float is accepted but its value is lost: for every
  floating point value it is translated to the filter for the integer 0.
\<close>

theorem float_equality_lost:
  assumes "(k, ''float'') \<in> set (index_types indexes)" "distinct (map mi_key indexes)"
  shows "validate_filter_node parse_dt (index_types indexes) (mf_cmp k ''eq'' (Some (Number (Float x)))) = Inr () \<and>
    convert_metadata_filter parse_dt indexes (mf_cmp k ''eq'' (Some (Number (Float x)))) =
    convert_metadata_filter parse_dt indexes (mf_cmp k ''eq'' (Some (Number (PosInt 0))))"
proof -
  have "map_of (index_types indexes) k = Some ''float''"
    using assms(1) index_types_datetime [OF assms(2), of k "''float''"] by (auto simp: index_types_def)
  then show ?thesis
    by (simp add: mf_cmp_def check_filter_key_def check_filter_value_def convert_metadata_filter_def
        convert_leaf_def equality_match_def as_i64_def)
qed


text \<open>A point with one tag and one metadata field, as an instance of the laws.\<close>

definition example_payload :: "string \<Rightarrow> json option" where
  "example_payload path =
     (if path = ''tags'' then Some (Array [String ''a''])
      else if path = ''metadata.k'' then Some (String ''w'') else None)"

function example_holds :: "condition \<Rightarrow> bool" where
  "example_holds (FilterCondition (Filter mu sh mn)) \<longleftrightarrow>
     (\<forall>c \<in> set mu. example_holds c) \<and> (sh = [] \<or> (\<exists>c \<in> set sh. example_holds c)) \<and>
     (\<forall>c \<in> set mn. \<not> example_holds c)"
| "example_holds (FieldMatch k m) = list_ex (\<lambda>v. value_matches v m) (payload_values example_payload k)"
| "example_holds (FieldRange k r) = False"
| "example_holds (FieldDatetimeRange k d) = False"
| "example_holds (IsEmpty k) = (example_payload k = None)"
  by pat_completeness auto
termination example_holds
  by (relation "measure size") (auto dest!: size_list_estimation' [where f = size, OF _ order_refl])

lemma example_holds_point: "qdrant_point (\<lambda>_. None) example_payload example_holds"
  by (auto simp: qdrant_point_def qdrant_laws_def list_ex_iff payload_values_def example_payload_def
      split: if_splits)

definition example_settings :: search_query_settings where
  "example_settings =
     \<lparr>sqs_vector_options = [], sqs_custom_vectors = None, sqs_limit = 10, sqs_score_threshold = None,
      sqs_document_tags = Some [''a''], sqs_document_tags_match_all = False,
      sqs_metadata_filter = Some (mf_negate (mf_cmp ''k'' ''eq'' (Some (String ''v'')))),
      sqs_raw_scores = False, sqs_fusion_mode = ''rrf'', sqs_join = None, sqs_exclude = None,
      sqs_group_field = None, sqs_group_max = 3, sqs_group_max_fetches = 2, sqs_facets = False,
      sqs_facet_options = None\<rparr>"

definition example_config :: collection_config_internal where
  "example_config =
     \<lparr>cci_version = 1, cci_collection_id = ''c'', cci_vectors = [], cci_store_content = True,
      cci_metadata_indexes =
        Some [\<lparr>mi_key = ''k'', mi_value_type = ''string''\<rparr>, \<lparr>mi_key = ''p'', mi_value_type = ''float''\<rparr>]\<rparr>"

theorem search_filter_meaning_witness:
  "\<exists>f. build_search_filter (\<lambda>_. Inl ''no date'') [] example_settings = Inr (Some f) \<and>
     example_holds (FilterCondition f)"
proof -
  let ?mc = "FilterCondition (Filter [] [] [FieldMatch ''metadata.k'' (MKeyword ''v'')])"
  let ?f = "Filter [FilterCondition (Filter [FieldMatch ''tags'' (MKeywords [''a''])] [] []), ?mc] [] []"
  have run: "build_search_filter (\<lambda>_. Inl ''no date'') [] example_settings = Inr (Some ?f)"
    by (simp add: build_search_filter_def example_settings_def tag_conditions_def mf_negate_def mf_cmp_def
        convert_metadata_filter_def convert_leaf_def equality_match_def)
  show ?thesis
    using search_filter_meaning [OF example_holds_point run] run
    by (simp add: example_settings_def mf_negate_def mf_cmp_def whole_equality_def leaf_means_def
        payload_values_def example_payload_def)
qed

theorem validated_filter_converts_witness:
  "\<exists>f. convert_metadata_filter (\<lambda>_. Inl ''no date'') (unwrap_or [] (cci_metadata_indexes example_config))
     (mf_all [mf_cmp ''k'' ''eq'' (Some (String ''v'')), mf_cmp ''p'' ''lt'' (Some (Number (PosInt 3)))]) = Inr f"
  by (rule validated_filter_converts)
    (simp_all add: example_config_def mf_all_def mf_cmp_def validate_metadata_filter_def index_types_def
      check_filter_key_def check_filter_value_def known_op_def)

theorem float_equality_lost_witness:
  "convert_metadata_filter (\<lambda>_. Inl ''no date'') (unwrap_or [] (cci_metadata_indexes example_config))
     (mf_cmp ''p'' ''eq'' (Some (Number (Float (f64 (3 / 2)))))) =
   Inr (Filter [FieldMatch ''metadata.p'' (MInteger 0)] [] [])"
proof -
  have "(''p'', ''float'') \<in> set (index_types (unwrap_or [] (cci_metadata_indexes example_config)))"
    "distinct (map mi_key (unwrap_or [] (cci_metadata_indexes example_config)))"
    by (simp_all add: example_config_def index_types_def)
  from float_equality_lost [OF this, of "\<lambda>_. Inl ''no date''" "f64 (3 / 2)"] show ?thesis
    by (simp add: example_config_def mf_cmp_def convert_metadata_filter_def convert_leaf_def
        equality_match_def as_i64_def)
qed

end
