(* ===== verification/Search_Group.thy ===== *)
theory Search_Group
  imports Fusion Metadata_Filter
begin

text \<open>
  Grouping of search results (\<open>src/src/search_group.rs\<close>) and the merge of the candidates of several
  fetch rounds (\<open>merge_search_arms\<close> of \<open>src/src/qdrant.rs\<close>). The type \<open>'g\<close> of group values is
  arbitrary: the code uses JSON values compared by \<open>==\<close>. \<open>HashMap\<close> is an association list and the
  \<open>HashSet\<close> of saturated values a list without repetitions, whose iteration order the caller of
  \<open>build_group_exclusion_filter\<close> chooses.
\<close>

section \<open>Definitions\<close>

definition required_fields_for_group :: "string option \<Rightarrow> search_exclude_field set" where
  "required_fields_for_group group_field = (if group_field \<noteq> None then {XMetadata} else {})"

definition validate_group_field :: "collection_config_internal \<Rightarrow> string \<Rightarrow> string + unit" where
  "validate_group_field config group_field =
     (let indexed = unwrap_or [] (cci_metadata_indexes config) in
      if \<not> list_ex (\<lambda>idx. mi_key idx = group_field) indexed
      then Inl (''group_field '' @ quoted group_field @ '' is not indexed in collection metadata_indexes'')
      else Inr ())"

text \<open>The loop over the fused results with its variables \<open>selected\<close> and \<open>group_counts\<close>.\<close>

fun cap_loop :: "(string \<Rightarrow> 'g option) \<Rightarrow> nat \<Rightarrow> nat \<Rightarrow> scored \<Rightarrow> scored \<Rightarrow> ('g option \<times> nat) list \<Rightarrow>
    scored \<times> ('g option \<times> nat) list" where
  "cap_loop gv group_max limit [] selected group_counts = (selected, group_counts)"
| "cap_loop gv group_max limit ((item_id, score) # rest) selected group_counts =
     (if length selected \<ge> limit then (selected, group_counts)
      else
        let count = unwrap_or 0 (map_of group_counts (gv item_id)) in
        if count \<ge> group_max then cap_loop gv group_max limit rest selected group_counts
        else cap_loop gv group_max limit rest (selected @ [(item_id, score)])
               (AList.update (gv item_id) (count + 1) group_counts))"

definition apply_group_cap ::
    "scored \<Rightarrow> (string \<Rightarrow> 'g option) \<Rightarrow> nat \<Rightarrow> nat \<Rightarrow> scored \<times> 'g list \<times> bool \<times> bool" where
  "apply_group_cap fused_results gv group_max limit =
     (let (selected, group_counts) = cap_loop gv group_max limit fused_results [] [];
          pool_exhausted = (length selected < limit);
          saturated_values =
            List.map_filter (\<lambda>(v, count). if count \<ge> group_max then v else None) group_counts;
          null_saturated = (unwrap_or 0 (map_of group_counts None) \<ge> group_max)
      in (selected, saturated_values, null_saturated, pool_exhausted))"

definition build_group_exclusion_filter ::
    "metadata_filter option \<Rightarrow> string \<Rightarrow> json list \<Rightarrow> bool \<Rightarrow> metadata_filter option" where
  "build_group_exclusion_filter existing_filter group_field saturated_values null_saturated =
     (let exclusions =
            map (\<lambda>v. mf_negate (mf_cmp group_field ''eq'' (Some v))) saturated_values @
            (if null_saturated then [mf_negate (mf_cmp group_field ''is_null'' None)] else [])
      in if exclusions = [] then existing_filter
         else let exclusions = exclusions @ (case existing_filter of Some f \<Rightarrow> [f] | None \<Rightarrow> [])
              in if length exclusions = 1 then Some (hd exclusions) else Some (mf_all exclusions))"

text \<open>
  \<open>merge_search_arms\<close>: \<open>merge_arm\<close> is the loop over one arm, and an index out of range panics,
  which is the result \<open>None\<close>.
\<close>

fun merge_arm :: "(string \<times> (string \<times> fp)) list \<Rightarrow> string list \<times> scored \<times> string list \<Rightarrow>
    string list \<times> scored \<times> string list" where
  "merge_arm [] acc = acc"
| "merge_arm ((item, s) # rest) (ids, scoreds, seen) =
     (if item \<in> set seen then merge_arm rest (ids, scoreds, seen)
      else merge_arm rest (ids @ [item], scoreds @ [s], seen @ [item]))"

fun merge_arms :: "string list list \<Rightarrow> scored list \<Rightarrow> string list list \<Rightarrow> string list list \<Rightarrow> scored list \<Rightarrow>
    (string list list \<times> scored list \<times> string list list) option" where
  "merge_arms accs accss seens [] new_scored = Some (accs, accss, seens)"
| "merge_arms (a # accs) (s # accss) (seen # seens) (ids # new_ids) (sc # new_scored) =
     (case merge_arm (zip ids sc) (a, s, seen) of (a', s', seen') \<Rightarrow>
        map_option (\<lambda>(x, y, z). (a' # x, s' # y, seen' # z)) (merge_arms accs accss seens new_ids new_scored))"
| "merge_arms accs accss seens (ids # new_ids) new_scored = None"

definition merge_search_arms ::
    "string list list \<times> scored list \<times> string list list \<Rightarrow> string list list \<Rightarrow> scored list \<Rightarrow>
     (string list list \<times> scored list \<times> string list list) option" where
  "merge_search_arms acc new_id_lists new_scored_lists =
     (let (ids, scoreds, seen) =
            (if fst acc = []
             then (replicate (length new_id_lists) [], replicate (length new_scored_lists) [],
                   replicate (length new_id_lists) [])
             else acc)
      in merge_arms ids scoreds seen new_id_lists new_scored_lists)"

section \<open>The group cap\<close>

definition gcount :: "(string \<Rightarrow> 'g option) \<Rightarrow> 'g option \<Rightarrow> scored \<Rightarrow> nat" where
  "gcount gv g sel = length (filter (\<lambda>(i, _). gv i = g) sel)"

lemma gcount_simps [simp]:
  "gcount gv g [] = 0" "gcount gv g (xs @ ys) = gcount gv g xs + gcount gv g ys"
  "gcount gv g [(i, s)] = (if gv i = g then 1 else 0)"
  by (simp_all add: gcount_def)

definition counts_of :: "(string \<Rightarrow> 'g option) \<Rightarrow> scored \<Rightarrow> ('g option \<times> nat) list \<Rightarrow> bool" where
  "counts_of gv sel counts \<longleftrightarrow> distinct (map fst counts) \<and>
     (\<forall>g. map_of counts g = (if gcount gv g sel = 0 then None else Some (gcount gv g sel)))"

lemma counts_ofD: "counts_of gv sel counts \<Longrightarrow> unwrap_or 0 (map_of counts g) = gcount gv g sel"
  by (simp add: counts_of_def)

lemma counts_of_step:
  "counts_of gv sel counts \<Longrightarrow>
     counts_of gv (sel @ [(i, s)]) (AList.update (gv i) (gcount gv (gv i) sel + 1) counts)"
  by (auto simp: counts_of_def update_conv distinct_update)

definition takes :: "(string \<Rightarrow> 'g option) \<Rightarrow> nat \<Rightarrow> nat \<Rightarrow> scored \<Rightarrow> string \<times> fp \<Rightarrow> bool" where
  "takes gv group_max limit sel x \<longleftrightarrow> length sel < limit \<and> gcount gv (gv (fst x)) sel < group_max"

text \<open>The selection as a fold: an item is taken when there is room for it in the list and in its group.\<close>

definition greedy :: "(string \<Rightarrow> 'g option) \<Rightarrow> nat \<Rightarrow> nat \<Rightarrow> scored \<Rightarrow> scored \<Rightarrow> scored" where
  "greedy gv group_max limit fused sel =
     foldl (\<lambda>sel x. if takes gv group_max limit sel x then sel @ [x] else sel) sel fused"

lemma greedy_simps [simp]:
  "greedy gv m l [] sel = sel"
  "greedy gv m l (x # xs) sel = greedy gv m l xs (if takes gv m l sel x then sel @ [x] else sel)"
  "greedy gv m l (xs @ [x]) sel =
     (let s = greedy gv m l xs sel in if takes gv m l s x then s @ [x] else s)"
  by (simp_all add: greedy_def Let_def)

lemma greedy_full: "length sel \<ge> l \<Longrightarrow> greedy gv m l fused sel = sel"
  by (induction fused) (auto simp: takes_def)

lemma cap_loop_greedy:
  "counts_of gv sel counts \<Longrightarrow>
     \<exists>counts'. cap_loop gv m l fused sel counts = (greedy gv m l fused sel, counts') \<and>
       counts_of gv (greedy gv m l fused sel) counts'"
proof (induction gv m l fused sel counts rule: cap_loop.induct)
  case (2 gv m l i s rest sel counts)
  note cnt = counts_ofD [OF 2(3)]
  show ?case
  proof (cases "l \<le> length sel")
    case True
    then show ?thesis using 2(3) by (auto simp: takes_def greedy_full)
  next
    case False
    then show ?thesis
      using 2 counts_of_step [OF 2(3), of i s] cnt by (auto simp: takes_def Let_def)
  qed
qed auto

lemma greedy_bounds:
  "length sel \<le> l \<Longrightarrow> length (greedy gv m l fused sel) \<le> l"
  "\<forall>g. gcount gv g sel \<le> m \<Longrightarrow> gcount gv g (greedy gv m l fused sel) \<le> m"
  by (induction fused arbitrary: sel) (auto simp: takes_def)

lemma greedy_subseq: "subseq (greedy gv m l fused []) fused"
proof (induction fused rule: rev_induct)
  case (snoc x fused)
  then show ?case by (auto simp: Let_def intro: list_emb_append_mono subseq_append')
qed simp

lemma apply_group_cap_greedy:
  obtains counts where "apply_group_cap fused gv m l =
      (greedy gv m l fused [],
       List.map_filter (\<lambda>(v, count). if count \<ge> m then v else None) counts,
       gcount gv None (greedy gv m l fused []) \<ge> m, length (greedy gv m l fused []) < l)"
    "counts_of gv (greedy gv m l fused []) counts"
proof -
  have "counts_of gv [] []" by (simp add: counts_of_def)
  from cap_loop_greedy [OF this, of m l fused] show thesis
    using that by (auto simp: apply_group_cap_def Let_def counts_ofD)
qed
lemma greedy_prefix: "prefix sel (greedy gv m l fused sel)"
  by (induction fused arbitrary: sel) (auto simp: prefix_def, metis append.assoc)

lemma greedy_append: "greedy gv m l (xs @ ys) sel = greedy gv m l ys (greedy gv m l xs sel)"
  by (simp add: greedy_def)

lemma cap_fst [simp]: "fst (apply_group_cap fused gv m l) = greedy gv m l fused []"
  by (rule apply_group_cap_greedy [of fused gv m l]) simp

text \<open>
  C11: the group cap keeps the results in rank order, at most \<open>limit\<close> of them and at most
  \<open>group_max\<close> of each group; a result is passed over only when the results kept before it already
  fill the list or its group; and the saturated groups it reports are exactly the full ones.
\<close>

theorem group_cap_correct:
  assumes "apply_group_cap fused gv group_max limit = (sel, sat, nul, ex)" "0 < group_max"
  shows "subseq sel fused \<and> length sel \<le> limit \<and> (\<forall>g. gcount gv g sel \<le> group_max) \<and>
    (\<forall>pre x post. fused = pre @ x # post \<longrightarrow> x \<notin> set sel \<longrightarrow>
       (let before = fst (apply_group_cap pre gv group_max limit) in
        prefix before sel \<and> (limit \<le> length before \<or> group_max \<le> gcount gv (gv (fst x)) before))) \<and>
    set sat = {v. gcount gv (Some v) sel = group_max} \<and> distinct sat \<and>
    (nul \<longleftrightarrow> gcount gv None sel = group_max) \<and> (ex \<longleftrightarrow> length sel < limit)"
proof -
  let ?g = "greedy gv group_max limit"
  obtain counts where c: "apply_group_cap fused gv group_max limit =
      (?g fused [], List.map_filter (\<lambda>(v, count). if count \<ge> group_max then v else None) counts,
       gcount gv None (?g fused []) \<ge> group_max, length (?g fused []) < limit)"
    and counts: "counts_of gv (?g fused []) counts"
    by (rule apply_group_cap_greedy)
  have sel: "sel = ?g fused []" and ex: "ex \<longleftrightarrow> length sel < limit"
    and nul: "nul \<longleftrightarrow> gcount gv None sel \<ge> group_max"
    and sat: "sat = List.map_filter (\<lambda>(v, count). if count \<ge> group_max then v else None) counts"
    using assms(1) c by auto
  have le: "gcount gv g sel \<le> group_max" for g
    unfolding sel using greedy_bounds(2) [of gv "[]" group_max g limit fused] by simp
  have dist: "distinct (map fst counts)"
    and get: "map_of counts g = (if gcount gv g sel = 0 then None else Some (gcount gv g sel))" for g
    using counts by (auto simp: counts_of_def sel)
  have "v \<in> set sat \<longleftrightarrow> (\<exists>n. map_of counts (Some v) = Some n \<and> group_max \<le> n)" for v
    unfolding sat using dist
    by (auto simp: List.map_filter_def split: if_splits intro!: image_eqI [of _ _ "(Some v, _)"])
  then have mem: "v \<in> set sat \<longleftrightarrow> gcount gv (Some v) sel = group_max" for v
    using le [of "Some v"] assms(2) by (auto simp: get)
  have "map Some sat = filter (\<lambda>v. v \<noteq> None) (map fst (filter (\<lambda>(v, n). n \<ge> group_max) counts))"
    unfolding sat by (induction counts) (auto simp: List.map_filter_simps)
  then have "distinct (map Some sat)"
    using dist by (simp add: distinct_map_filter)
  then have "distinct sat" by (simp add: distinct_map)
  have pass: "prefix (?g pre []) sel \<and> (limit \<le> length (?g pre []) \<or> group_max \<le> gcount gv (gv (fst x)) (?g pre []))"
    if split: "fused = pre @ x # post" and x: "x \<notin> set sel" for pre x post
  proof -
    have "sel = ?g post (?g (pre @ [x]) [])"
      unfolding sel split using greedy_append [of gv group_max limit "pre @ [x]" post "[]"] by simp
    moreover have "\<not> takes gv group_max limit (?g pre []) x"
      using x calculation set_mono_prefix [OF greedy_prefix [of "?g (pre @ [x]) []" gv group_max limit post]]
      by (auto simp: Let_def split: if_splits)
    ultimately show ?thesis
      using greedy_prefix [of "?g pre []" gv group_max limit post] by (auto simp: takes_def Let_def)
  qed
  have nul': "nul \<longleftrightarrow> gcount gv None sel = group_max" using nul le [of None] by auto
  show ?thesis
    using greedy_subseq [of gv group_max limit fused] greedy_bounds(1) [of "[]" limit gv group_max fused]
      le mem \<open>distinct sat\<close> pass ex nul' by (auto simp: sel Let_def)
qed

theorem group_cap_correct_witness:
  "apply_group_cap [(''a'', f64_one), (''b'', f64_one), (''c'', f64_zero)]
     (\<lambda>i. if i = ''c'' then None else Some (0 :: nat)) 1 5 =
     ([(''a'', f64_one), (''c'', f64_zero)], [0], True, True) \<and>
   subseq [(''a'', f64_one), (''c'', f64_zero)] [(''a'', f64_one), (''b'', f64_one), (''c'', f64_zero)]"
proof -
  have run: "apply_group_cap [(''a'', f64_one), (''b'', f64_one), (''c'', f64_zero)]
     (\<lambda>i. if i = ''c'' then None else Some (0 :: nat)) 1 5 =
     ([(''a'', f64_one), (''c'', f64_zero)], [0], True, True)"
    by (simp add: apply_group_cap_def List.map_filter_simps)
  show ?thesis using group_cap_correct [OF run] run by simp
qed

section \<open>The exclusion filter\<close>

text \<open>
  The filter of the next fetch round asks for what the current filter asks and excludes the
  saturated group values, and the documents without a value when that group is saturated.
\<close>

theorem group_exclusion_meaning:
  "(case build_group_exclusion_filter existing gf sat nul of None \<Rightarrow> True | Some f \<Rightarrow> mf_holds leaf f) \<longleftrightarrow>
     (case existing of None \<Rightarrow> True | Some f \<Rightarrow> mf_holds leaf f) \<and>
     (\<forall>v \<in> set sat. \<not> leaf gf ''eq'' (Some v)) \<and> (nul \<longrightarrow> \<not> leaf gf ''is_null'' None)"
proof -
  let ?ex = "map (\<lambda>v. mf_negate (mf_cmp gf ''eq'' (Some v))) sat @
            (if nul then [mf_negate (mf_cmp gf ''is_null'' None)] else [])"
  let ?all = "?ex @ (case existing of Some f \<Rightarrow> [f] | None \<Rightarrow> [])"
  have leafs: "mf_holds leaf (mf_negate (mf_cmp gf p v)) \<longleftrightarrow> \<not> leaf gf p v" for p v
    by (simp add: mf_negate_def mf_cmp_def)
  have excl: "(\<forall>f \<in> set ?ex. mf_holds leaf f) \<longleftrightarrow>
     (\<forall>v \<in> set sat. \<not> leaf gf ''eq'' (Some v)) \<and> (nul \<longrightarrow> \<not> leaf gf ''is_null'' None)"
    by (cases nul) (auto simp: leafs)
  have conj: "mf_holds leaf (if length fs = 1 then hd fs else mf_all fs) \<longleftrightarrow> (\<forall>f \<in> set fs. mf_holds leaf f)" for fs
    by (cases fs) (auto simp: mf_all_def)
  show ?thesis
  proof (cases "?ex = []")
    case True
    then show ?thesis by (auto simp: build_group_exclusion_filter_def split: if_splits)
  next
    case False
    then have neg: "(?ex = []) = False" by simp
    have "build_group_exclusion_filter existing gf sat nul = Some (if length ?all = 1 then hd ?all else mf_all ?all)"
      unfolding build_group_exclusion_filter_def Let_def by (simp only: neg if_False if_distrib [of Some])
    moreover have "(\<forall>f \<in> set ?all. mf_holds leaf f) \<longleftrightarrow>
       (\<forall>f \<in> set ?ex. mf_holds leaf f) \<and> (case existing of None \<Rightarrow> True | Some f \<Rightarrow> mf_holds leaf f)"
      by (auto split: option.split)
    ultimately show ?thesis using excl conj [of ?all] by (simp only: option.case) blast
  qed
qed

theorem group_exclusion_meaning_witness:
  "build_group_exclusion_filter None ''g'' [String ''a''] False = Some (mf_negate (mf_cmp ''g'' ''eq'' (Some (String ''a'')))) \<and>
   \<not> mf_holds (\<lambda>k p v. v = Some (String ''a'')) (mf_negate (mf_cmp ''g'' ''eq'' (Some (String ''a''))))"
proof -
  have run: "build_group_exclusion_filter None ''g'' [String ''a''] False =
    Some (mf_negate (mf_cmp ''g'' ''eq'' (Some (String ''a''))))"
    by (simp add: build_group_exclusion_filter_def)
  then show ?thesis
    using group_exclusion_meaning [where existing = None and gf = "''g''" and sat = "[String ''a'']"
        and nul = False and leaf = "\<lambda>k p v. v = Some (String ''a'')"]
    by simp
qed

section \<open>Merging fetch rounds\<close>

text \<open>The first occurrence of every element.\<close>

definition first_occurrences :: "'a list \<Rightarrow> 'a list" where
  "first_occurrences xs = rev (remdups (rev xs))"

lemma first_occurrences_snoc:
  "first_occurrences (xs @ [x]) = (if x \<in> set xs then first_occurrences xs else first_occurrences xs @ [x])"
  by (simp add: first_occurrences_def)

lemma set_first_occurrences [simp]: "set (first_occurrences xs) = set xs"
  by (simp add: first_occurrences_def)

lemma merge_arm_dedup:
  assumes "ids = first_occurrences all" "seen = first_occurrences all" "map fst scoreds = ids"
    "\<forall>(i, s) \<in> set new. i = fst s"
  shows "\<exists>scoreds'. merge_arm new (ids, scoreds, seen) =
     (first_occurrences (all @ map fst new), scoreds', first_occurrences (all @ map fst new)) \<and>
     map fst scoreds' = first_occurrences (all @ map fst new)"
  using assms
proof (induction new arbitrary: ids scoreds seen all)
  case (Cons p new)
  obtain i s where p: "p = (i, s)" by (cases p)
  with Cons.prems have i: "i = fst s" by simp
  have IH: "\<exists>scoreds'. merge_arm new (ids', sc', ids') =
     (first_occurrences ((all @ [i]) @ map fst new), scoreds', first_occurrences ((all @ [i]) @ map fst new)) \<and>
     map fst scoreds' = first_occurrences ((all @ [i]) @ map fst new)"
    if "ids' = first_occurrences (all @ [i])" "map fst sc' = ids'" for ids' sc'
    using Cons.IH [OF that(1) that(1) that(2)] Cons.prems(4) by simp
  show ?case
  proof (cases "i \<in> set all")
    case True
    then show ?thesis using IH [of ids scoreds] Cons.prems by (simp add: p first_occurrences_snoc)
  next
    case False
    then show ?thesis
      using IH [of "ids @ [i]" "scoreds @ [s]"] Cons.prems i by (simp add: p first_occurrences_snoc)
  qed
qed simp


text \<open>One round of candidates: an id list and a scored list of the same ids per arm.\<close>

definition round_ok :: "nat \<Rightarrow> string list list \<times> scored list \<Rightarrow> bool" where
  "round_ok n r \<longleftrightarrow> length (fst r) = n \<and> map (map fst) (snd r) = fst r"

fun merge_rounds :: "(string list list \<times> scored list) list \<Rightarrow> string list list \<times> scored list \<times> string list list \<Rightarrow>
    (string list list \<times> scored list \<times> string list list) option" where
  "merge_rounds [] acc = Some acc"
| "merge_rounds (r # rs) acc =
     Option.bind (merge_search_arms acc (fst r) (snd r)) (merge_rounds rs)"

definition merged :: "string list list \<Rightarrow> string list list \<times> scored list \<times> string list list \<Rightarrow> bool" where
  "merged hist acc \<longleftrightarrow> fst acc = map first_occurrences hist \<and> snd (snd acc) = map first_occurrences hist \<and>
     map (map fst) (fst (snd acc)) = map first_occurrences hist"

lemma merge_arms_dedup:
  assumes "merged hist (ids, scoreds, seen)" "length hist = length (fst r)" "map (map fst) (snd r) = fst r"
  shows "\<exists>acc. merge_arms ids scoreds seen (fst r) (snd r) = Some acc \<and> merged (map2 (@) hist (fst r)) acc"
  using assms
proof (induction hist "fst r" arbitrary: r ids scoreds seen rule: list_induct2')
  case 1
  then show ?case by (auto simp: merged_def)
next
  case (4 h hist new news)
  obtain sc scs where r: "fst r = new # news" "snd r = sc # scs" "new = map fst sc"
    using 4(2) [symmetric] 4(5) by (cases "snd r") auto
  obtain a as s ss e es where acc: "ids = a # as" "scoreds = s # ss" "seen = e # es"
    and heads: "a = first_occurrences h" "e = first_occurrences h" "map fst s = a"
    and tails: "merged hist (as, ss, es)"
    using 4(3) by (cases ids; cases scoreds; cases seen) (auto simp: merged_def)
  have "\<forall>(i, s) \<in> set (zip new sc). i = fst s" unfolding r(3) zip_map1 by (auto simp: zip_same_conv_map)
  moreover have "map fst (zip new sc) = new" by (simp add: r(3))
  ultimately obtain s' where m: "merge_arm (zip new sc) (a, s, e) =
     (first_occurrences (h @ new), s', first_occurrences (h @ new))" "map fst s' = first_occurrences (h @ new)"
    using merge_arm_dedup [OF heads] by metis
  obtain acc' where "merge_arms as ss es news scs = Some acc'" "merged (map2 (@) hist news) acc'"
    using 4(1) [of "(news, scs)" as ss es] tails 4(4,5) r by auto
  then show ?case
    using m by (cases acc') (auto simp: r acc merged_def)
qed auto

lemma merge_search_arms_dedup:
  assumes "merged hist acc \<or> acc = ([], [], []) \<and> hist = replicate (length hist) []" "round_ok (length hist) r"
  shows "\<exists>acc'. merge_search_arms acc (fst r) (snd r) = Some acc' \<and> merged (map2 (@) hist (fst r)) acc'"
proof -
  have len: "length (snd r) = length (fst r)" using assms(2) by (metis length_map round_ok_def)
  have r: "length hist = length (fst r)" "map (map fst) (snd r) = fst r" using assms(2) by (auto simp: round_ok_def)
  obtain ids scoreds seen where acc: "acc = (ids, scoreds, seen)" by (cases acc)
  show ?thesis
  proof (cases "ids = []")
    case True
    let ?n = "length (fst r)"
    have "hist = replicate ?n []" using assms(1) True r(1) by (auto simp: merged_def acc)
    then have "merged hist (replicate ?n [], replicate ?n [], replicate ?n [])"
      by (simp add: merged_def first_occurrences_def)
    from merge_arms_dedup [OF this r] show ?thesis
      by (simp add: merge_search_arms_def acc True len)
  next
    case False
    with assms(1) have "merged hist (ids, scoreds, seen)" by (auto simp: acc)
    from merge_arms_dedup [OF this r] False show ?thesis by (simp add: merge_search_arms_def acc)
  qed
qed

text \<open>
  Merging fetch rounds never panics when every round has the same arms, and keeps, per arm, the
  first occurrence of every id in the order in which the rounds delivered them, with its score.
\<close>

theorem merge_rounds_dedup:
  assumes "\<forall>r \<in> set rounds. round_ok n r" "rounds \<noteq> []"
  shows "\<exists>ids scoreds seen. merge_rounds rounds ([], [], []) = Some (ids, scoreds, seen) \<and>
    ids = map (\<lambda>a. first_occurrences (concat (map (\<lambda>r. fst r ! a) rounds))) [0..<n] \<and>
    map (map fst) scoreds = ids"
proof -
  have step: "\<exists>acc'. merge_rounds rs acc = Some acc' \<and>
      merged (map (\<lambda>a. hist ! a @ concat (map (\<lambda>r. fst r ! a) rs)) [0..<n]) acc'"
    if "merged hist acc \<or> acc = ([], [], []) \<and> hist = replicate (length hist) [] \<and> rs \<noteq> []"
      "length hist = n" "\<forall>r \<in> set rs. round_ok n r" for rs hist acc
    using that
  proof (induction rs arbitrary: hist acc)
    case Nil
    then show ?case by (auto simp: map_nth)
  next
    case (Cons r rs)
    obtain acc' where a: "merge_search_arms acc (fst r) (snd r) = Some acc'" "merged (map2 (@) hist (fst r)) acc'"
      using merge_search_arms_dedup [of hist acc r] Cons.prems by auto
    have len: "length (fst r) = n" using Cons.prems(3) by (simp add: round_ok_def)
    have eq: "map (\<lambda>a. map2 (@) hist (fst r) ! a @ concat (map (\<lambda>r. fst r ! a) rs)) [0..<n] =
        map (\<lambda>a. hist ! a @ concat (map (\<lambda>r. fst r ! a) (r # rs))) [0..<n]"
      using len Cons.prems(2) by simp
    have "\<exists>acc''. merge_rounds rs acc' = Some acc'' \<and>
        merged (map (\<lambda>a. map2 (@) hist (fst r) ! a @ concat (map (\<lambda>r. fst r ! a) rs)) [0..<n]) acc''"
      using a(2) Cons.prems len by (intro Cons.IH) auto
    then show ?case unfolding eq by (simp add: a(1))
  qed
  have hist: "map (\<lambda>a. replicate n [] ! a @ concat (map (\<lambda>r. fst r ! a) rounds)) [0..<n] =
      map (\<lambda>a. concat (map (\<lambda>r. fst r ! a) rounds)) [0..<n]" by simp
  obtain acc where "merge_rounds rounds ([], [], []) = Some acc"
    "merged (map (\<lambda>a. concat (map (\<lambda>r. fst r ! a) rounds)) [0..<n]) acc"
    using step [of "replicate n []" "([], [], [])" rounds] assms unfolding hist by auto
  then show ?thesis by (cases acc) (auto simp: merged_def)
qed

theorem merge_rounds_dedup_witness:
  "merge_rounds [([[''a'', ''b'']], [[(''a'', f64_one), (''b'', f64_zero)]]),
                 ([[''b'', ''c'']], [[(''b'', f64_one), (''c'', f64_zero)]])] ([], [], []) =
     Some ([[''a'', ''b'', ''c'']], [[(''a'', f64_one), (''b'', f64_zero), (''c'', f64_zero)]],
           [[''a'', ''b'', ''c'']])"
proof -
  let ?r = "[([[''a'', ''b'']], [[(''a'', f64_one), (''b'', f64_zero)]]),
                 ([[''b'', ''c'']], [[(''b'', f64_one), (''c'', f64_zero)]])]"
  have "\<exists>ids scoreds seen. merge_rounds ?r ([], [], []) = Some (ids, scoreds, seen) \<and>
    ids = map (\<lambda>a. first_occurrences (concat (map (\<lambda>r. fst r ! a) ?r))) [0..<1] \<and>
    map (map fst) scoreds = ids"
    by (rule merge_rounds_dedup) (simp_all add: round_ok_def)
  then show ?thesis by (simp add: merge_search_arms_def)
qed

end
