(* ===== verification/Search_Facet.thy ===== *)
theory Search_Facet
  imports Models
begin

text \<open>
  Points returned by the database and facet counts over them (\<open>src/src/search_facet.rs\<close>, and
  \<open>qdrant_val_to_json\<close>, \<open>scored_point_id\<close> and \<open>split_first_underscore\<close> of
  \<open>src/src/functions.rs\<close>). A payload value is a datatype with the variants of the protocol's
  \<open>Kind\<close>. The debug print of a float is the argument \<open>f64_debug\<close>, the iteration order of the
  count maps the argument \<open>it\<close>.
\<close>

section \<open>Points\<close>

datatype qvalue =
    KindNone
  | NullValue
  | BoolValue bool
  | IntegerValue int
  | DoubleValue fp
  | StringValue string
  | ListValue "qvalue list"
  | StructValue "(string \<times> qvalue) list"

datatype point_id_options = Uuid string | Num nat

record scored_point =
  sp_id :: "point_id_options option option"
  sp_payload :: "(string \<times> qvalue) list"
  sp_score :: fp

definition scored_point_id :: "scored_point \<Rightarrow> string" where
  "scored_point_id point =
     (case sp_id point of
        Some (Some (Uuid u)) \<Rightarrow> u
      | Some (Some (Num n)) \<Rightarrow> nat_str n
      | Some None \<Rightarrow> []
      | None \<Rightarrow> [])"

text \<open>\<open>json!\<close> of an integer and of a float; a float that is not finite becomes null.\<close>

definition json_int :: "int \<Rightarrow> json" where
  "json_int i = Number (if i < 0 then NegInt i else PosInt (nat i))"

fun json_float :: "fp \<Rightarrow> json" where
  "json_float (Finite s m) = Number (Float (Finite s m))"
| "json_float _ = Null"

function qdrant_val_to_json :: "qvalue \<Rightarrow> json" where
  "qdrant_val_to_json KindNone = Null"
| "qdrant_val_to_json NullValue = Null"
| "qdrant_val_to_json (BoolValue b) = Bool b"
| "qdrant_val_to_json (IntegerValue i) = json_int i"
| "qdrant_val_to_json (DoubleValue d) = json_float d"
| "qdrant_val_to_json (StringValue s) = String s"
| "qdrant_val_to_json (ListValue vs) = Array (map qdrant_val_to_json vs)"
| "qdrant_val_to_json (StructValue fs) = Object (bt_collect (map (\<lambda>(k, v). (k, qdrant_val_to_json v)) fs))"
  by pat_completeness auto

lemma size_qvalue_field: "(k, v) \<in> set fs \<Longrightarrow> size v < size (StructValue fs)"
  using size_list_estimation' [of "(k, v)" fs "size v" "size_prod (\<lambda>_. 0) size"] by simp

lemma size_qvalue_item: "v \<in> set vs \<Longrightarrow> size v < size (ListValue vs)"
  using size_list_estimation' [of v vs "size v" size] by simp

termination qdrant_val_to_json
  by (relation "measure size") (auto dest: size_qvalue_field size_qvalue_item simp del: qvalue.size)

definition split_first_underscore :: "string \<Rightarrow> string \<times> string" where
  "split_first_underscore s =
     (if CHR ''_'' \<in> set s
      then (takeWhile (\<lambda>c. c \<noteq> CHR ''_'') s, tl (dropWhile (\<lambda>c. c \<noteq> CHR ''_'') s))
      else (s, []))"

section \<open>Facet counts\<close>

definition required_fields_for_facets :: "bool \<Rightarrow> search_exclude_field set" where
  "required_fields_for_facets facets_enabled = (if facets_enabled then {XMetadata} else {})"

definition facet_value_key :: "(fp \<Rightarrow> string) \<Rightarrow> qvalue \<Rightarrow> string \<Rightarrow> string option" where
  "facet_value_key f64_debug kind idx_type =
     (if idx_type = ''integer'' then
        (case kind of
           IntegerValue i \<Rightarrow> Some (int_str i)
         | DoubleValue d \<Rightarrow> Some (int_str (fp_as_i64 d))
         | _ \<Rightarrow> None)
      else if idx_type = ''float'' then
        (case kind of
           DoubleValue d \<Rightarrow> Some (f64_debug d)
         | IntegerValue i \<Rightarrow> Some (f64_debug (fp_of_int binary64 i))
         | _ \<Rightarrow> None)
      else if idx_type = ''boolean'' then
        (case kind of BoolValue b \<Rightarrow> Some (if b then ''true'' else ''false'') | _ \<Rightarrow> None)
      else
        (case kind of StringValue s \<Rightarrow> Some s | _ \<Rightarrow> None))"

text \<open>The key under which a point is counted for one indexed field, if any.\<close>

definition point_facet_key :: "(fp \<Rightarrow> string) \<Rightarrow> string \<Rightarrow> string \<Rightarrow> scored_point \<Rightarrow> string option" where
  "point_facet_key f64_debug key vtype point =
     (case map_of (sp_payload point) ''metadata'' of
        Some (StructValue meta) \<Rightarrow>
          (case map_of meta key of
             Some KindNone \<Rightarrow> None
           | Some kind \<Rightarrow> facet_value_key f64_debug kind vtype
           | None \<Rightarrow> None)
      | _ \<Rightarrow> None)"

definition count_point ::
    "(fp \<Rightarrow> string) \<Rightarrow> scored_point \<Rightarrow> string \<times> string \<times> (string \<times> nat) list \<Rightarrow> string \<times> string \<times> (string \<times> nat) list" where
  "count_point f64_debug point entry =
     (case entry of (key, vtype, counts) \<Rightarrow>
        (key, vtype,
         case point_facet_key f64_debug key vtype point of
           Some skey \<Rightarrow> hm_upsert skey 0 (\<lambda>n. n + 1) counts
         | None \<Rightarrow> counts))"

definition facet_cmp :: "string \<times> nat \<Rightarrow> string \<times> nat \<Rightarrow> ordering" where
  "facet_cmp a b = then_with (ord_cmp (snd b) (snd a)) (str_cmp (fst a) (fst b))"

definition compute_facet_counts ::
    "(fp \<Rightarrow> string) \<Rightarrow> ((string \<times> nat) list \<Rightarrow> (string \<times> nat) list) \<Rightarrow> scored_point list \<Rightarrow>
     (string \<times> string) list \<Rightarrow> nat \<Rightarrow> (string \<times> (string \<times> nat) list) list" where
  "compute_facet_counts f64_debug it points indexed_fields max_values =
     (let per_field =
            foldl (\<lambda>pf point. map (count_point f64_debug point) pf)
              (map (\<lambda>(k, t). (k, t, [])) indexed_fields) points
      in foldl (\<lambda>out (key, _, counts).
             bt_insert key (bt_collect (take max_values (sort_by facet_cmp (it counts)))) out) [] per_field)"

section \<open>Correctness of the counts\<close>

interpretation facet_order: cmp_linorder facet_cmp UNIV
proof (rule cmp_linorderI)
  have "cmp_order (\<lambda>a b. ord_cmp (snd b) (snd a)) UNIV"
    by (rule cmp_order_flip, rule cmp_order_on_key [OF num_order.cmp_order_axioms]) simp
  moreover have "cmp_order (\<lambda>a b. str_cmp (fst a) (fst b)) UNIV"
    by (rule cmp_order_on_key [OF str_order.cmp_order_axioms]) simp
  ultimately show "cmp_order facet_cmp UNIV"
    unfolding facet_cmp_def [abs_def] by (rule cmp_order_then_with)
next
  show "facet_cmp x y = Equal \<Longrightarrow> x = y" for x y
    by (cases x; cases y) (simp add: facet_cmp_def)
qed

lemma set_bt_collect: "distinct (map fst kvs) \<Longrightarrow> set (bt_collect kvs) = set kvs"
  using map_of_bt_collect [of kvs] bt_ok_distinct [of "bt_collect kvs"]
  by (metis bt_ok_collect map_of_inject_set)

lemma length_bt_collect: "distinct (map fst kvs) \<Longrightarrow> length (bt_collect kvs) = length kvs"
  using set_bt_collect [of kvs] bt_ok_distinct [of "bt_collect kvs"]
  by (metis bt_ok_collect distinct_card distinct_zipI1 distinct_map)

definition facet_occurrences :: "(scored_point \<Rightarrow> string option) \<Rightarrow> scored_point list \<Rightarrow> string \<Rightarrow> nat" where
  "facet_occurrences pk points v = length (filter (\<lambda>p. pk p = Some v) points)"

definition facet_counts :: "(scored_point \<Rightarrow> string option) \<Rightarrow> scored_point list \<Rightarrow> (string \<times> nat) list" where
  "facet_counts pk points =
     foldl (\<lambda>counts p. case pk p of Some skey \<Rightarrow> hm_upsert skey 0 (\<lambda>n. n + 1) counts | None \<Rightarrow> counts) [] points"

lemma facet_counts_get:
  "hm_ok (facet_counts pk points) \<and>
   map_of (facet_counts pk points) v =
     (if facet_occurrences pk points v = 0 then None else Some (facet_occurrences pk points v))"
proof (induction points rule: rev_induct)
  case (snoc p points)
  then show ?case
    by (auto simp: facet_counts_def facet_occurrences_def hm_upsert_get split: option.split)
qed (simp add: facet_counts_def facet_occurrences_def)

lemma per_field_counts:
  "foldl (\<lambda>pf point. map (count_point f64_debug point) pf) (map (\<lambda>(k, t). (k, t, [])) indexed_fields) points =
     map (\<lambda>(k, t). (k, t, facet_counts (point_facet_key f64_debug k t) points)) indexed_fields"
  by (induction points rule: rev_induct)
    (auto simp: facet_counts_def count_point_def)

lemma compute_facet_counts_get:
  assumes "distinct (map fst indexed_fields)" "(k, t) \<in> set indexed_fields"
  shows "map_of (compute_facet_counts f64_debug it points indexed_fields max_values) k =
    Some (bt_collect (take max_values (sort_by facet_cmp (it (facet_counts (point_facet_key f64_debug k t) points)))))"
proof -
  let ?entry = "\<lambda>(k, t). (k, bt_collect (take max_values
     (sort_by facet_cmp (it (facet_counts (point_facet_key f64_debug k t) points)))))"
  have "compute_facet_counts f64_debug it points indexed_fields max_values = bt_collect (map ?entry indexed_fields)"
    unfolding compute_facet_counts_def Let_def per_field_counts bt_collect_def foldl_map
    by (simp add: case_prod_unfold)
  moreover have d: "distinct (map fst (map ?entry indexed_fields))"
    using assms(1) by (simp add: o_def case_prod_unfold)
  moreover have "?entry (k, t) \<in> set (map ?entry indexed_fields)"
    unfolding set_map using assms(2) by (rule imageI)
  ultimately show ?thesis by (simp only: map_of_bt_collect prod.case map_of_is_SomeI)
qed

text \<open>
  For every indexed field the facets list values with the exact number of candidates that have
  them, the \<open>max_values\<close> most frequent ones (ties to the smaller value), all of them when there are
  no more; the result does not depend on the iteration order of the hash map.
\<close>

theorem facet_counts_correct:
  assumes "iter_order it" "distinct (map fst indexed_fields)" "(k, t) \<in> set indexed_fields"
  shows "\<exists>m. map_of (compute_facet_counts f64_debug it points indexed_fields max_values) k = Some m \<and>
    (let occ = facet_occurrences (point_facet_key f64_debug k t) points in
     distinct (map fst m) \<and> length m = min max_values (card {v. 0 < occ v}) \<and>
     (\<forall>(v, n) \<in> set m. n = occ v \<and> 0 < n) \<and>
     (\<forall>v \<in> fst ` set m. \<forall>w. 0 < occ w \<longrightarrow> w \<notin> fst ` set m \<longrightarrow>
        occ w < occ v \<or> occ w = occ v \<and> str_cmp v w = Less))"
proof -
  let ?pk = "point_facet_key f64_debug k t"
  let ?occ = "facet_occurrences ?pk points"
  let ?c = "facet_counts ?pk points"
  let ?top = "take max_values (sort_by facet_cmp (it ?c))"
  let ?m = "bt_collect ?top"
  note get = facet_counts_get [of ?pk points]
  have dc: "distinct (map fst ?c)" using get by (simp add: hm_ok_def)
  have ms: "mset (it ?c) = mset ?c" by (rule iter_orderD [OF assms(1)])
  then have dit: "distinct (map fst (it ?c))" using dc by (metis mset_map mset_eq_imp_distinct_iff)
  have "mset (map fst (sort_by facet_cmp (it ?c))) = mset (map fst (it ?c))" by simp
  then have ds: "distinct (map fst (sort_by facet_cmp (it ?c)))" using dit mset_eq_imp_distinct_iff by blast
  then have dtop: "distinct (map fst ?top)" by (simp flip: take_map)
  have setc: "(v, n) \<in> set (it ?c) \<longleftrightarrow> 0 < n \<and> n = ?occ v" for v n
  proof -
    have "(v, n) \<in> set (it ?c) \<longleftrightarrow> map_of ?c v = Some n"
      using dc by (simp add: iter_order_set [OF assms(1)])
    then show ?thesis using get by auto
  qed
  have sub: "set ?top \<subseteq> set (it ?c)" using set_take_subset [of max_values "sort_by facet_cmp (it ?c)"] by simp
  have "fst ` set (it ?c) = {v. 0 < ?occ v}"
    using setc by (auto intro: image_eqI [of _ _ "(_, ?occ _)"])
  then have len: "length ?top = min max_values (card {v. 0 < ?occ v})"
    using distinct_card [OF dit] by (simp add: min.commute)
  have best: "?occ w < ?occ v \<or> ?occ w = ?occ v \<and> str_cmp v w = Less"
    if vin: "v \<in> fst ` set ?top" and w0: "0 < ?occ w" and wout: "w \<notin> fst ` set ?top" for v w
  proof -
    obtain n where n: "(v, n) \<in> set ?top" using vin by auto
    then have "(v, n) \<in> set (it ?c)" using sub by blast
    with n setc have v: "(v, ?occ v) \<in> set ?top" by simp
    have w: "(w, ?occ w) \<in> set (it ?c)" using w0 setc by simp
    have w': "(w, ?occ w) \<notin> set ?top" using wout by (metis fst_conv image_eqI)
    have "facet_cmp (v, ?occ v) (w, ?occ w) = Less"
      using facet_order.take_sort_by_best [OF _ _ v w w'] dit by (simp add: distinct_map)
    then show ?thesis by (auto simp: facet_cmp_def ord_cmp_def split: if_splits)
  qed
  have "distinct (map fst ?m)" by (rule bt_ok_distinct) simp
  moreover have "length ?m = min max_values (card {v. 0 < ?occ v})" using len length_bt_collect [OF dtop] by simp
  moreover have "\<forall>(v, n) \<in> set ?m. n = ?occ v \<and> 0 < n" using sub setc set_bt_collect [OF dtop] by blast
  ultimately show ?thesis
    unfolding Let_def using compute_facet_counts_get [OF assms(2,3), of f64_debug it points max_values] best
    by (intro exI [of _ ?m]) (simp add: set_bt_collect [OF dtop])
qed


theorem facet_counts_correct_witness:
  "map_of (compute_facet_counts (\<lambda>_. []) rev
      [\<lparr>sp_id = None, sp_payload = [(''metadata'', StructValue [(''k'', BoolValue True)])], sp_score = NaN\<rparr>]
      [(''k'', ''boolean'')] 5) ''k'' = Some [(''true'', 1)]"
proof -
  let ?p = "\<lparr>sp_id = None, sp_payload = [(''metadata'', StructValue [(''k'', BoolValue True)])], sp_score = NaN\<rparr>"
  let ?occ = "facet_occurrences (point_facet_key (\<lambda>_. []) ''k'' ''boolean'') [?p]"
  obtain m where m: "map_of (compute_facet_counts (\<lambda>_. []) rev [?p] [(''k'', ''boolean'')] 5) ''k'' = Some m"
    and len: "length m = min 5 (card {v. 0 < ?occ v})" and el: "\<forall>(v, n) \<in> set m. n = ?occ v \<and> 0 < n"
    using facet_counts_correct [of rev "[(''k'', ''boolean'')]" "''k''" "''boolean''" "\<lambda>_. []" "[?p]" 5]
    by (auto simp: Let_def)
  have occ: "?occ v = (if v = ''true'' then 1 else 0)" for v
    by (simp add: facet_occurrences_def point_facet_key_def facet_value_key_def)
  then have "length m = 1" using len by simp
  then obtain v n where mv: "m = [(v, n)]" by (cases m) auto
  then have "n = 1" "v = ''true''" using el occ [of v] by (auto split: if_splits)
  then show ?thesis using m mv by simp
qed

end
