(* ===== verification/Templates.thy ===== *)
theory Templates
  imports Models
begin

text \<open>
  Document and query templates of vector configurations, \<open>src/src/templates.rs\<close>. The regular
  expression \<open>\{([^{}]+)\}\<close> is the function \<open>captures_iter\<close>, which gives the byte range and the
  group of each leftmost non-overlapping match; the rendering loop slices the template by these
  ranges. The printed form of a JSON number is the argument \<open>num_str\<close>. The main result is
  that a template accepted by the validation always renders, to the template with every placeholder
  replaced by its value.
\<close>

section \<open>Definitions\<close>

definition uses_templates :: "vector_config_internal \<Rightarrow> bool" where
  "uses_templates config = (vc_doc_template config \<noteq> None)"

definition vector_index_fields :: "vector_config_internal \<Rightarrow> string + document_field list" where
  "vector_index_fields config =
     (if uses_templates config then Inr [FTemplate]
      else case vc_index_fields config of
             Some xs \<Rightarrow>
               if xs \<noteq> [] then Inr xs
               else Inl (''Vector '' @ quoted (vc_name config) @ '' has empty index_fields and no templates'')
           | None \<Rightarrow> Inl (''Vector '' @ quoted (vc_name config) @ '' has no index_fields and no templates''))"

definition non_brace :: "char \<Rightarrow> bool" where
  "non_brace c \<longleftrightarrow> c \<noteq> CHR ''{'' \<and> c \<noteq> CHR ''}''"

text \<open>The match of the placeholder expression at the start of a string: its group and the rest.\<close>

definition placeholder_at :: "string \<Rightarrow> (string \<times> string) option" where
  "placeholder_at s =
     (case s of
        [] \<Rightarrow> None
      | c # cs \<Rightarrow>
          if c = CHR ''{'' \<and> takeWhile non_brace cs \<noteq> [] then
            (case dropWhile non_brace cs of
               d # rest \<Rightarrow> if d = CHR ''}'' then Some (takeWhile non_brace cs, rest) else None
             | [] \<Rightarrow> None)
          else None)"

lemma placeholder_at_Some:
  "placeholder_at s = Some (name, rest) \<longleftrightarrow>
     s = ''{'' @ name @ ''}'' @ rest \<and> name \<noteq> [] \<and> (\<forall>c \<in> set name. non_brace c)"
proof
  assume "placeholder_at s = Some (name, rest)"
  then obtain cs where s: "s = CHR ''{'' # cs" and n: "name = takeWhile non_brace cs" "name \<noteq> []"
    and d: "dropWhile non_brace cs = CHR ''}'' # rest"
    by (auto simp: placeholder_at_def split: list.splits if_splits)
  then show "s = ''{'' @ name @ ''}'' @ rest \<and> name \<noteq> [] \<and> (\<forall>c \<in> set name. non_brace c)"
    using takeWhile_dropWhile_id [of non_brace cs] by (auto dest: set_takeWhileD)
next
  assume "s = ''{'' @ name @ ''}'' @ rest \<and> name \<noteq> [] \<and> (\<forall>c \<in> set name. non_brace c)"
  then show "placeholder_at s = Some (name, rest)"
    by (simp add: placeholder_at_def takeWhile_append2 dropWhile_append2 non_brace_def)
qed

function captures_iter :: "nat \<Rightarrow> string \<Rightarrow> (nat \<times> nat \<times> string) list" where
  "captures_iter pos s =
     (case placeholder_at s of
        Some (name, rest) \<Rightarrow>
          (pos, pos + length name + 2, name) # captures_iter (pos + length name + 2) rest
      | None \<Rightarrow> (case s of [] \<Rightarrow> [] | _ # cs \<Rightarrow> captures_iter (Suc pos) cs))"
  by pat_completeness auto
termination captures_iter
  by (relation "measure (length \<circ> snd)") (auto simp: placeholder_at_Some)

declare captures_iter.simps [simp del]

definition parse_placeholders :: "string \<Rightarrow> string list" where
  "parse_placeholders template = map (\<lambda>(_, _, name). name) (captures_iter 0 template)"

definition META_PREFIX :: string where
  "META_PREFIX = ''.meta.''"

definition meta_key_char :: "char \<Rightarrow> bool" where
  "meta_key_char c \<longleftrightarrow>
     (let b = byte_of c in
      97 \<le> b \<and> b \<le> 122 \<or> 65 \<le> b \<and> b \<le> 90 \<or> 48 \<le> b \<and> b \<le> 57 \<or> c = CHR ''_'' \<or> c = CHR ''-'')"

definition meta_key_matches :: "string \<Rightarrow> bool" where
  "meta_key_matches key \<longleftrightarrow> key \<noteq> [] \<and> list_all meta_key_char key"

definition braced :: "string \<Rightarrow> string" where
  "braced name = quoted (''{'' @ name @ ''}'')"

definition check_doc_placeholder :: "string \<Rightarrow> string + unit" where
  "check_doc_placeholder name =
     (if name = ''name'' \<or> name = ''description'' \<or> name = ''content'' then Inr ()
      else case strip_prefix META_PREFIX name of
             Some key \<Rightarrow>
               if key = [] \<or> \<not> meta_key_matches key
               then Inl (''Invalid doc_template placeholder '' @ braced name @
                         '': meta key must match [a-zA-Z0-9_-]+'')
               else Inr ()
           | None \<Rightarrow>
               Inl (''Invalid doc_template placeholder '' @ braced name @
                    '': allowed are {name}, {description}, {content}, {.meta.<key>}''))"

definition validate_doc_template :: "string \<Rightarrow> string + unit" where
  "validate_doc_template template =
     (if template = [] then Inl ''doc_template cannot be empty''
      else
        let placeholders = parse_placeholders template in
        if placeholders = []
        then Inl (''doc_template must contain at least one placeholder '' @
                  ''({name}, {description}, {content}, or {.meta.<key>})'')
        else try_for_each check_doc_placeholder placeholders)"

definition validate_query_template :: "string \<Rightarrow> string + unit" where
  "validate_query_template template =
     (if template = [] then Inl ''query_template cannot be empty''
      else if parse_placeholders template \<noteq> [''query'']
      then Inl ''query_template must contain exactly one {query} placeholder and no others''
      else Inr ())"

definition bool_str :: "bool \<Rightarrow> string" where
  "bool_str b = (if b then ''true'' else ''false'')"

fun scalar_to_str :: "(number \<Rightarrow> string) \<Rightarrow> json \<Rightarrow> string option" where
  "scalar_to_str num_str (Bool b) = Some (bool_str b)"
| "scalar_to_str num_str (Number n) = Some (num_str n)"
| "scalar_to_str num_str (String s) = Some s"
| "scalar_to_str num_str _ = None"

fun join_with :: "string \<Rightarrow> string list \<Rightarrow> string" where
  "join_with sep [] = []"
| "join_with sep [x] = x"
| "join_with sep (x # y # ys) = x @ sep @ join_with sep (y # ys)"

text \<open>The loop over the items of an array, which gives up at the first item that is no scalar.\<close>

fun scalar_parts :: "(number \<Rightarrow> string) \<Rightarrow> json list \<Rightarrow> string list \<Rightarrow> string list option" where
  "scalar_parts num_str [] parts = Some parts"
| "scalar_parts num_str (item # items) parts =
     (case scalar_to_str num_str item of
        Some s \<Rightarrow> scalar_parts num_str items (parts @ [s])
      | None \<Rightarrow> None)"

fun json_kind :: "json \<Rightarrow> string" where
  "json_kind Null = ''null''"
| "json_kind (Bool _) = ''bool''"
| "json_kind (Number _) = ''number''"
| "json_kind (String _) = ''string''"
| "json_kind (Array _) = ''array''"
| "json_kind (Object _) = ''object''"

definition meta_value_to_template_str :: "(number \<Rightarrow> string) \<Rightarrow> json \<Rightarrow> string + string" where
  "meta_value_to_template_str num_str v =
     (if is_null v then Inr ''''
      else case scalar_to_str num_str v of
             Some s \<Rightarrow> Inr s
           | None \<Rightarrow>
               (case as_array v of
                  Some items \<Rightarrow>
                    (case scalar_parts num_str items [] of
                       Some parts \<Rightarrow> Inr (join_with '' '' parts)
                     | None \<Rightarrow> Inr '''')
                | None \<Rightarrow>
                    if is_object v then Inr ''''
                    else Inl (''Unsupported metadata value type for templates: '' @ json_kind v)))"

definition doc_placeholder_value ::
    "(number \<Rightarrow> string) \<Rightarrow> document \<Rightarrow> string \<Rightarrow> string + string" where
  "doc_placeholder_value num_str document name =
     (if name = ''name'' then Inr (unwrap_or '''' (doc_name document))
      else if name = ''description'' then Inr (unwrap_or '''' (doc_description document))
      else if name = ''content'' then Inr (unwrap_or '''' (doc_content document))
      else case strip_prefix META_PREFIX name of
             Some key \<Rightarrow>
               (case doc_metadata document of
                  None \<Rightarrow> Inr ''''
                | Some meta \<Rightarrow>
                    (case map_of meta key of
                       None \<Rightarrow> Inr ''''
                     | Some v \<Rightarrow> meta_value_to_template_str num_str v))
           | None \<Rightarrow> Inl (''Unexpected doc template placeholder '' @ braced name))"

definition slice :: "string \<Rightarrow> nat \<Rightarrow> nat \<Rightarrow> string" where
  "slice s i j = take (j - i) (drop i s)"

text \<open>The substitution loop: \<open>out\<close> and \<open>prev\<close> are its variables \<open>out\<close> and \<open>last\<close>.\<close>

fun render_loop :: "(string \<Rightarrow> string + string) \<Rightarrow> string \<Rightarrow> (nat \<times> nat \<times> string) list \<Rightarrow> string \<Rightarrow> nat \<Rightarrow>
    string + string" where
  "render_loop val template [] out prev = Inr (out @ drop prev template)"
| "render_loop val template ((m_start, m_end, name) # caps) out prev =
     and_then (val name) (\<lambda>v. render_loop val template caps (out @ slice template prev m_start @ v) m_end)"

definition render_doc_template ::
    "(number \<Rightarrow> string) \<Rightarrow> string \<Rightarrow> document \<Rightarrow> string + string" where
  "render_doc_template num_str template document =
     and_then (collect_result (map (doc_placeholder_value num_str document) (parse_placeholders template)))
       (\<lambda>vals.
          if list_all (\<lambda>v. trim v = []) vals then Inr ''''
          else render_loop (doc_placeholder_value num_str document) template (captures_iter 0 template) [] 0)"

text \<open>\<open>str::replace\<close> with a pattern that is not empty.\<close>

function str_replace :: "string \<Rightarrow> string \<Rightarrow> string \<Rightarrow> string" where
  "str_replace pat rep s =
     (case s of
        [] \<Rightarrow> []
      | c # cs \<Rightarrow>
          if pat \<noteq> [] \<and> prefix pat s
          then rep @ str_replace pat rep (drop (length pat) s)
          else c # str_replace pat rep cs)"
  by pat_completeness auto
termination str_replace
  by (relation "measure (\<lambda>(pat, rep, s). length s)") auto

declare str_replace.simps [simp del]

definition render_query_template :: "string \<Rightarrow> string \<Rightarrow> string" where
  "render_query_template template query = str_replace ''{query}'' query template"

definition debug_fields :: "document_field list \<Rightarrow> string" where
  "debug_fields slots =
     ''['' @ join_with '', '' (map (\<lambda>f. [CHR 0x22] @ document_field_str f @ [CHR 0x22]) slots) @ '']''"

definition resolve_search_field ::
    "vector_config_internal \<Rightarrow> document_field option \<Rightarrow> string + document_field" where
  "resolve_search_field config field =
     (if uses_templates config then Inr FTemplate
      else
        and_then (ok_or (''field is required for vector '' @ quoted (vc_name config) @ '' (not template-based)'') field)
          (\<lambda>field. and_then (vector_index_fields config)
             (\<lambda>slots.
                if field \<notin> set slots
                then Inl (''Field '' @ quoted (document_field_str field) @ '' is not configured for vector '' @
                          quoted (vc_name config) @ ''. Available fields: '' @ debug_fields slots)
                else Inr field)))"

section \<open>Templates as lists of pieces\<close>

datatype piece = Lit char | Placeholder string

function pieces :: "string \<Rightarrow> piece list" where
  "pieces s =
     (case placeholder_at s of
        Some (name, rest) \<Rightarrow> Placeholder name # pieces rest
      | None \<Rightarrow> (case s of [] \<Rightarrow> [] | c # cs \<Rightarrow> Lit c # pieces cs))"
  by pat_completeness auto
termination pieces
  by (relation "measure length") (auto simp: placeholder_at_Some)

declare pieces.simps [simp del]

fun subst_piece :: "(string \<Rightarrow> string) \<Rightarrow> piece \<Rightarrow> string" where
  "subst_piece v (Lit c) = [c]"
| "subst_piece v (Placeholder name) = v name"

definition subst :: "(string \<Rightarrow> string) \<Rightarrow> piece list \<Rightarrow> string" where
  "subst v ps = concat (map (subst_piece v) ps)"

lemma subst_simps [simp]:
  "subst v [] = []" "subst v (p # ps) = subst_piece v p @ subst v ps"
  "subst v (ps @ qs) = subst v ps @ subst v qs"
  by (simp_all add: subst_def)

lemma placeholder_at_Nil [simp]: "placeholder_at [] = None"
  by (simp add: placeholder_at_def)

lemma pieces_cases:
  obtains (nil) "s = []" "pieces s = []" "\<And>pos. captures_iter pos s = []"
  | (match) name rest where "placeholder_at s = Some (name, rest)" "pieces s = Placeholder name # pieces rest"
      "s = ''{'' @ name @ ''}'' @ rest" "\<forall>c \<in> set name. non_brace c" "name \<noteq> []"
      "\<And>pos. captures_iter pos s =
         (pos, pos + length name + 2, name) # captures_iter (pos + length name + 2) rest"
  | (char) c cs where "placeholder_at s = None" "s = c # cs" "pieces s = Lit c # pieces cs"
      "\<And>pos. captures_iter pos s = captures_iter (Suc pos) cs"
proof (cases "placeholder_at s")
  case None
  have p: "pieces s = (case s of [] \<Rightarrow> [] | c # cs \<Rightarrow> Lit c # pieces cs)"
    "\<And>pos. captures_iter pos s = (case s of [] \<Rightarrow> [] | _ # cs \<Rightarrow> captures_iter (Suc pos) cs)"
    using None by (simp_all add: pieces.simps [of s] captures_iter.simps [of _ s])
  show ?thesis
  proof (cases s)
    case Nil
    then show ?thesis using p by (intro nil) simp_all
  next
    case (Cons c cs)
    then show ?thesis using p by (intro char [OF None Cons]) simp_all
  qed
next
  case (Some p)
  then obtain name rest where p: "placeholder_at s = Some (name, rest)" by (cases p) auto
  have "pieces s = Placeholder name # pieces rest"
    "\<And>pos. captures_iter pos s =
         (pos, pos + length name + 2, name) # captures_iter (pos + length name + 2) rest"
    using p by (simp_all add: pieces.simps [of s] captures_iter.simps [of _ s])
  moreover have "s = ''{'' @ name @ ''}'' @ rest" "name \<noteq> []" "\<forall>c \<in> set name. non_brace c"
    using p by (simp_all only: placeholder_at_Some) blast+
  ultimately show ?thesis by (intro match [OF p])
qed

lemma pieces_unparse: "subst (\<lambda>n. ''{'' @ n @ ''}'') (pieces s) = s"
proof (induction s rule: length_induct)
  case (1 s)
  then show ?case by (cases rule: pieces_cases [of s]) auto
qed

lemma pieces_names: "map (\<lambda>(_, _, n). n) (captures_iter pos s) = map (\<lambda>p. case p of Placeholder n \<Rightarrow> n) (filter (\<lambda>p. \<exists>n. p = Placeholder n) (pieces s))"
proof (induction s arbitrary: pos rule: length_induct)
  case (1 s)
  then show ?case by (cases rule: pieces_cases [of s]) auto
qed

lemma placeholders_pieces: "set (parse_placeholders t) = {n. Placeholder n \<in> set (pieces t)}"
  unfolding parse_placeholders_def pieces_names by force

lemma slice_snoc: "prev \<le> length pre \<Longrightarrow> slice (pre @ c @ cs) prev (length pre + length c) = slice (pre @ c @ cs) prev (length pre) @ c"
  by (simp add: slice_def)

lemma slice_empty [simp]: "slice s i i = []"
  by (simp add: slice_def)

text \<open>The loop over byte ranges computes the substitution.\<close>

lemma render_loop_subst:
  assumes "\<And>n. Placeholder n \<in> set (pieces s) \<Longrightarrow> val n = Inr (v n)" "prev \<le> length pre"
  shows "render_loop val (pre @ s) (captures_iter (length pre) s) out prev =
     Inr (out @ slice (pre @ s) prev (length pre) @ subst v (pieces s))"
  using assms
proof (induction s arbitrary: pre out prev rule: length_induct)
  case (1 s)
  note IH = 1(1)[rule_format]
  show ?case
  proof (cases rule: pieces_cases [of s])
    case nil
    with 1(3) show ?thesis by (simp add: slice_def)
  next
    case (match name rest)
    have v: "val name = Inr (v name)" using 1(2) match by simp
    let ?pre = "pre @ ''{'' @ name @ ''}''"
    have "render_loop val (?pre @ rest) (captures_iter (length ?pre) rest) o2 (length ?pre) =
       Inr (o2 @ subst v (pieces rest))" for o2
      using match 1(2) by (subst IH) (auto simp del: append_assoc)
    moreover have "captures_iter (length pre) s =
        (length pre, length ?pre, name) # captures_iter (length ?pre) rest"
      using match(6) [of "length pre"] by simp
    moreover have "pre @ s = ?pre @ rest" by (simp add: match(3))
    ultimately show ?thesis by (simp only: render_loop.simps v and_then_simps match(2) subst_simps
        subst_piece.simps append_assoc)
  next
    case (char c cs)
    have "render_loop val ((pre @ [c]) @ cs) (captures_iter (length (pre @ [c])) cs) out prev =
       Inr (out @ slice ((pre @ [c]) @ cs) prev (length (pre @ [c])) @ subst v (pieces cs))"
      using char 1(2,3) by (subst IH) auto
    then show ?thesis using char slice_snoc [of prev pre "[c]" cs] 1(3) by simp
  qed
qed

section \<open>Properties\<close>

lemma meta_value_total: "\<exists>s. meta_value_to_template_str num_str v = Inr s"
  by (cases v) (auto simp: meta_value_to_template_str_def split: option.split)

lemma check_doc_placeholder_value:
  assumes "check_doc_placeholder n = Inr ()"
  shows "\<exists>s. doc_placeholder_value num_str d n = Inr s"
  using assms meta_value_total [of num_str]
  by (auto simp: check_doc_placeholder_def doc_placeholder_value_def split: if_splits option.splits)

lemma rendered_template:
  assumes "validate_doc_template t = Inr ()"
  shows "\<exists>v. (\<forall>n \<in> set (parse_placeholders t). doc_placeholder_value num_str d n = Inr (v n)) \<and>
     render_doc_template num_str t d =
       Inr (if \<forall>n \<in> set (parse_placeholders t). trim (v n) = [] then [] else subst v (pieces t)) \<and>
     subst (\<lambda>n. ''{'' @ n @ ''}'') (pieces t) = t"
proof -
  have ok: "\<forall>n \<in> set (parse_placeholders t). check_doc_placeholder n = Inr ()"
    using assms by (auto simp: validate_doc_template_def Let_def split: if_splits)
  then obtain v where v: "\<And>n. n \<in> set (parse_placeholders t) \<Longrightarrow> doc_placeholder_value num_str d n = Inr (v n)"
    using bchoice [of "set (parse_placeholders t)" "\<lambda>n s. doc_placeholder_value num_str d n = Inr s"]
      check_doc_placeholder_value by blast
  then have "collect_result (map (doc_placeholder_value num_str d) (parse_placeholders t)) =
      Inr (map v (parse_placeholders t))"
    by (simp add: collect_result_eq_Inr)
  moreover have "render_loop (doc_placeholder_value num_str d) t (captures_iter 0 t) [] 0 = Inr (subst v (pieces t))"
    using render_loop_subst [of t "doc_placeholder_value num_str d" v 0 "[]" "[]"] v
    by (simp add: placeholders_pieces)
  ultimately show ?thesis
    using v pieces_unparse [of t]
    by (intro exI [of _ v]) (simp add: render_doc_template_def list_all_iff)
qed

lemma validated_template_renders:
  "validate_doc_template t = Inr () \<Longrightarrow> \<exists>s. render_doc_template num_str t d = Inr s"
  using rendered_template [of t num_str d] by blast

text \<open>
  A document template that passes the validation renders for every document. The result is
  empty when every placeholder value is blank, and otherwise the template with each placeholder
  replaced by its value and every other character kept.
\<close>

theorem doc_template_renders:
  assumes "validate_doc_template t = Inr ()"
  shows "\<exists>v. (\<forall>n \<in> set (parse_placeholders t). doc_placeholder_value num_str d n = Inr (v n)) \<and>
     render_doc_template num_str t d =
       Inr (if \<forall>n \<in> set (parse_placeholders t). trim (v n) = [] then [] else subst v (pieces t)) \<and>
     subst (\<lambda>n. ''{'' @ n @ ''}'') (pieces t) = t"
  by (rule rendered_template [OF assms])

theorem doc_template_renders_witness:
  "render_doc_template (\<lambda>_. ''0'') ''<{name}>{.meta.k}''
     (Document ''1'' 0 None (Some ''n'') None None None (Some [(''k'', Array [Bool True, Number (PosInt 0)])])
        None None None []) = Inr ''<n>true 0''"
proof -
  let ?t = "''<{name}>{.meta.k}''"
  let ?d = "Document ''1'' 0 None (Some ''n'') None None None (Some [(''k'', Array [Bool True, Number (PosInt 0)])])
        None None None []"
  have ok: "validate_doc_template ?t = Inr ()" by code_simp
  obtain v where v: "\<forall>n \<in> set (parse_placeholders ?t). doc_placeholder_value (\<lambda>_. ''0'') ?d n = Inr (v n)"
    and r: "render_doc_template (\<lambda>_. ''0'') ?t ?d =
       Inr (if \<forall>n \<in> set (parse_placeholders ?t). trim (v n) = [] then [] else subst v (pieces ?t))"
    using doc_template_renders [OF ok, of "\<lambda>_. ''0''" ?d] by blast
  have ps: "parse_placeholders ?t = [''name'', ''.meta.k'']" by code_simp
  have pc: "pieces ?t = [Lit CHR ''<'', Placeholder ''name'', Lit CHR ''>'', Placeholder ''.meta.k'']"
    by code_simp
  have vals: "doc_placeholder_value (\<lambda>_. ''0'') ?d ''name'' = Inr ''n''"
    "doc_placeholder_value (\<lambda>_. ''0'') ?d ''.meta.k'' = Inr ''true 0''"
    by code_simp+
  have vn: "v ''name'' = ''n''" "v ''.meta.k'' = ''true 0''" using v vals by (auto simp: ps)
  have "trim ''n'' \<noteq> []" by code_simp
  then show ?thesis unfolding r by (simp add: ps pc vn)
qed

lemma query_prefix: "prefix ''{query}'' s \<longleftrightarrow> (\<exists>rest. placeholder_at s = Some (''query'', rest))"
  by (auto simp: placeholder_at_Some non_brace_def prefix_def)

lemma replace_nomatch: "\<not> prefix ''{query}'' (c # cs) \<Longrightarrow> str_replace ''{query}'' q (c # cs) = c # str_replace ''{query}'' q cs"
  by (subst str_replace.simps) (simp del: Cons_prefix_Cons)

lemma replace_skip: "\<forall>c \<in> set xs. c \<noteq> CHR ''{'' \<Longrightarrow> str_replace ''{query}'' q (xs @ ys) = xs @ str_replace ''{query}'' q ys"
proof (induction xs)
  case (Cons a xs)
  then have "\<not> prefix ''{query}'' (a # xs @ ys)" by auto
  from replace_nomatch [OF this, of q] Cons show ?case by simp
qed simp

lemma query_replace:
  "str_replace ''{query}'' q s = subst (\<lambda>n. if n = ''query'' then q else ''{'' @ n @ ''}'') (pieces s)"
proof (induction s rule: length_induct)
  case (1 s)
  show ?case
  proof (cases rule: pieces_cases [of s])
    case nil
    then show ?thesis by (simp add: str_replace.simps)
  next
    case (match name rest)
    show ?thesis
    proof (cases "name = ''query''")
      case True
      then have "str_replace ''{query}'' q s = q @ str_replace ''{query}'' q rest"
        by (subst str_replace.simps) (simp add: match(3))
      then show ?thesis using match 1 True by simp
    next
      case False
      then have np: "\<not> prefix ''{query}'' s" using query_prefix match(1) by simp
      then have "str_replace ''{query}'' q s = CHR ''{'' # str_replace ''{query}'' q (name @ ''}'' @ rest)"
        unfolding match(3) append_Cons append_Nil by (rule replace_nomatch)
      also have "str_replace ''{query}'' q (name @ ''}'' @ rest) = name @ ''}'' @ str_replace ''{query}'' q rest"
        using match(4) replace_skip [of "name @ ''}''" q rest] by (auto simp: non_brace_def)
      finally show ?thesis using 1 match False by simp
    qed
  next
    case (char c cs)
    then have "\<not> prefix ''{query}'' (c # cs)" using query_prefix [of "c # cs"] by (simp del: Cons_prefix_Cons)
    then show ?thesis using char 1 by (simp add: replace_nomatch del: Cons_prefix_Cons)
  qed
qed

lemma pieces_split:
  assumes "filter (\<lambda>p. \<exists>n. p = Placeholder n) ps = [Placeholder n]"
  obtains pre post where "ps = map Lit pre @ [Placeholder n] @ map Lit post"
proof -
  have lits: "\<exists>xs. qs = map Lit xs" if "filter (\<lambda>p. \<exists>n. p = Placeholder n) qs = []" for qs
    using that
  proof (induction qs)
    case (Cons q qs)
    then obtain xs c where "qs = map Lit xs" "q = Lit c" by (cases q) auto
    then show ?case by (intro exI [of _ "c # xs"]) simp
  qed simp
  from assms obtain us vs where "ps = us @ Placeholder n # vs"
    "\<forall>u \<in> set us. \<not> (\<exists>n. u = Placeholder n)" "[] = filter (\<lambda>p. \<exists>n. p = Placeholder n) vs"
    unfolding filter_eq_Cons_iff by blast
  then have "ps = us @ Placeholder n # vs" "filter (\<lambda>p. \<exists>n. p = Placeholder n) us = []"
    "filter (\<lambda>p. \<exists>n. p = Placeholder n) vs = []"
    by (simp_all only: filter_empty_conv)
  then show thesis using lits [of us] lits [of vs] that by auto
qed

lemma subst_lits [simp]: "subst v (map Lit xs) = xs"
  by (induction xs) auto

text \<open>
  A query template that passes the validation contains the placeholder once, and rendering puts
  the query there and keeps every other character.
\<close>

theorem query_template_renders:
  assumes "validate_query_template t = Inr ()"
  shows "\<exists>pre post. t = pre @ ''{query}'' @ post \<and> (\<forall>q. render_query_template t q = pre @ q @ post)"
proof -
  have "map (\<lambda>p. case p of Placeholder n \<Rightarrow> n) (filter (\<lambda>p. \<exists>n. p = Placeholder n) (pieces t)) = [''query'']"
    using assms pieces_names [of 0 t]
    by (auto simp: validate_query_template_def parse_placeholders_def split: if_splits)
  then obtain p where fp: "filter (\<lambda>p. \<exists>n. p = Placeholder n) (pieces t) = [p]"
    and p: "(case p of Placeholder n \<Rightarrow> n) = ''query''"
    unfolding map_eq_Cons_conv map_is_Nil_conv by blast
  have "p \<in> set (filter (\<lambda>p. \<exists>n. p = Placeholder n) (pieces t))" unfolding fp by simp
  then have "\<exists>n. p = Placeholder n" by simp
  with p fp have "filter (\<lambda>p. \<exists>n. p = Placeholder n) (pieces t) = [Placeholder ''query'']" by auto
  then obtain pre post where p: "pieces t = map Lit pre @ [Placeholder ''query''] @ map Lit post"
    by (rule pieces_split)
  then have "t = pre @ ''{query}'' @ post" using pieces_unparse [of t] by simp
  moreover have "render_query_template t q = pre @ q @ post" for q
    by (simp add: render_query_template_def query_replace p)
  ultimately show ?thesis by blast
qed

theorem query_template_renders_witness:
  "\<exists>pre post. ''q: {{query}'' = pre @ ''{query}'' @ post \<and>
     (\<forall>q. render_query_template ''q: {{query}'' q = pre @ q @ post)"
  by (rule query_template_renders) code_simp

text \<open>
  Resolving the field of a search option gives a slot the vector was indexed under, or an error;
  a field that is configured always resolves to itself, and a template vector ignores the field.
\<close>

theorem resolve_search_field_slot:
  "(resolve_search_field config field = Inr f \<longrightarrow>
      (\<exists>slots. vector_index_fields config = Inr slots \<and> f \<in> set slots)) \<and>
   (vector_index_fields config = Inr slots \<longrightarrow> f \<in> set slots \<longrightarrow> resolve_search_field config (Some f) = Inr f)"
  by (auto simp: resolve_search_field_def vector_index_fields_def split: if_splits option.splits)

theorem resolve_search_field_slot_witness:
  "resolve_search_field (vector_config_into_internal (hd default_noop_vectors)) (Some FName) = Inr FName"
proof -
  have "vector_index_fields (vector_config_into_internal (hd default_noop_vectors)) = Inr [FName]"
    by (simp add: vector_index_fields_def uses_templates_def into_internal_fields default_noop_vectors_def)
  then show ?thesis
    using resolve_search_field_slot [of "vector_config_into_internal (hd default_noop_vectors)" None FName "[FName]"]
    by simp
qed

end
