(* ===== verification/Search.thy ===== *)
theory Search
  imports Search_Group Search_Facet Templates
begin

text \<open>
  The search of \<open>src/src/qdrant.rs\<close>: \<open>search\<close>, \<open>search_grouped\<close>, \<open>execute_search_arms\<close> and the
  helpers that fuse, merge and convert candidates. What the code calls outside the repository is
  the record \<open>search_env\<close>: the batched database query (one function per call, so that the
  database may change between rounds), the date parser, the deserialization of a document, the
  debug print of a float and the iteration orders of the hash containers. A run either panics, fails
  with a database error or returns.
\<close>

section \<open>Runs\<close>

datatype 'a run =
    Panics
  | Errs db_error
  | Returns 'a

fun run_bind :: "'a run \<Rightarrow> ('a \<Rightarrow> 'b run) \<Rightarrow> 'b run" where
  "run_bind Panics f = Panics"
| "run_bind (Errs e) f = Errs e"
| "run_bind (Returns x) f = f x"

fun run_result :: "db_error + 'a \<Rightarrow> 'a run" where
  "run_result (Inl e) = Errs e"
| "run_result (Inr x) = Returns x"

fun run_option :: "'a option \<Rightarrow> 'a run" where
  "run_option None = Panics"
| "run_option (Some x) = Returns x"

lemma run_bind_Returns: "run_bind r f = Returns y \<longleftrightarrow> (\<exists>x. r = Returns x \<and> f x = Returns y)"
  by (cases r) auto

lemma run_bind_Panics: "run_bind r f = Panics \<longleftrightarrow> r = Panics \<or> (\<exists>x. r = Returns x \<and> f x = Panics)"
  by (cases r) auto

lemma run_result_eq [simp]:
  "run_result r = Returns x \<longleftrightarrow> r = Inr x" "run_result r \<noteq> Panics"
  by (cases r; simp)+

lemma run_option_eq [simp]:
  "run_option r = Returns x \<longleftrightarrow> r = Some x" "run_option r = Panics \<longleftrightarrow> r = None"
  by (cases r; simp)+

section \<open>State\<close>

datatype query_variant =
    DenseQuery "fp list"
  | SparseQuery "nat list" "fp list"

record arm_request =
  ar_using :: string
  ar_query :: query_variant
  ar_limit :: nat
  ar_payload :: "string list"
  ar_filter :: "qfilter option"
  ar_score_threshold :: "fp option"

record search_query_with_vectors =
  sqv_query :: string
  sqv_settings :: search_query_settings
  sqv_vectors :: "vector_data list"

record search_arms =
  sa_id_lists :: "string list list"
  sa_scored_lists :: "scored list"
  sa_point_lookup :: "(string \<times> scored_point) list"
  sa_raw_scores :: "(string \<times> vector_score list) list"
  sa_arm_weights :: "fp list"
  sa_prefetch_limit :: nat

record search_outcome =
  so_results :: "search_result list"
  so_facet_counts :: "(string \<times> (string \<times> nat) list) list option"

record search_env =
  se_query_batch :: "nat \<Rightarrow> arm_request list \<Rightarrow> db_error + scored_point list list"
  se_parse_dt :: "string \<Rightarrow> string + int"
  se_from_value :: "json \<Rightarrow> string + search_result"
  se_f64_debug :: "fp \<Rightarrow> string"
  se_iter :: "scored \<Rightarrow> scored"
  se_iter_groups :: "json list \<Rightarrow> json list"
  se_iter_counts :: "(string \<times> nat) list \<Rightarrow> (string \<times> nat) list"
  se_iter_points :: "(string \<times> scored_point) list \<Rightarrow> (string \<times> scored_point) list"

section \<open>Stage one: the arms\<close>

definition MIN_FACET_PREFETCH :: nat where
  "MIN_FACET_PREFETCH = 50"

definition DEFAULT_FACET_PREFETCH_MULTIPLIER :: nat where
  "DEFAULT_FACET_PREFETCH_MULTIPLIER = 2"

text \<open>A cast between float formats.\<close>

fun fp_cast :: "fp_format \<Rightarrow> fp \<Rightarrow> fp" where
  "fp_cast F (Finite s m) = fp_round F s (fval (Finite s m))"
| "fp_cast F x = x"

definition payload_fields :: "search_exclude_field list option \<Rightarrow> search_exclude_field set \<Rightarrow> string list" where
  "payload_fields exclude required_fields =
     [''id'', ''timestamp''] @
     map exclude_str (filter (\<lambda>f. f \<notin> resolve_skippable_fields exclude required_fields)
       [XName, XDescription, XContent, XMetadata, XTags])"

text \<open>Later entries of the collected map win, so its entries are listed from the last.\<close>

definition option_lookup ::
    "collection_config_internal \<Rightarrow> vector_search_option list \<Rightarrow> ((string \<times> string) \<times> vector_search_option) list" where
  "option_lookup config options =
     (let configs = rev (map (\<lambda>v. (vc_name v, v)) (cci_vectors config)) in
      rev (List.map_filter (\<lambda>w.
        case map_of configs (vso_vector_name w) of
          None \<Rightarrow> None
        | Some cfg \<Rightarrow>
            (case resolve_search_field cfg (vso_field w) of
               Inr f \<Rightarrow> Some ((vso_vector_name w, document_field_str f), w)
             | Inl _ \<Rightarrow> None)) options))"

definition arm_prefetch_limit :: "search_query_settings \<Rightarrow> nat" where
  "arm_prefetch_limit settings =
     (let limit = search_prefetch_limit (sqs_limit settings) in
      if sqs_facets settings then
        let mult = (case sqs_facet_options settings of
                      Some fo \<Rightarrow> fo_prefetch_multiplier fo
                    | None \<Rightarrow> DEFAULT_FACET_PREFETCH_MULTIPLIER)
        in max (max limit MIN_FACET_PREFETCH) (min (mult * sqs_limit settings) (2 ^ 64 - 1))
      else limit)"

definition query_variant_of :: "vector_data \<Rightarrow> query_variant" where
  "query_variant_of vd =
     (if is_dense (vd_vector_type vd) then DenseQuery (unwrap_or [] (vd_dense_vector vd))
      else SparseQuery (unwrap_or [] (vd_sparse_indices vd)) (unwrap_or [] (vd_sparse_values vd)))"

definition field_vector_name :: "vector_data \<Rightarrow> string" where
  "field_vector_name vd = document_field_str (vd_field vd) @ ''_'' @ vd_vector_name vd"

text \<open>The loop over the query vectors: requests, their vector names and the weight map.\<close>

fun build_requests ::
    "((string \<times> string) \<times> vector_search_option) list \<Rightarrow> nat \<Rightarrow> string list \<Rightarrow> qfilter option \<Rightarrow> vector_data list \<Rightarrow>
     arm_request list \<times> string list \<times> (string \<times> fp) list \<Rightarrow> arm_request list \<times> string list \<times> (string \<times> fp) list" where
  "build_requests lookup prefetch_limit payload final_filter [] acc = acc"
| "build_requests lookup prefetch_limit payload final_filter (vd # vds) (requests, names, weights) =
     (let opt = map_of lookup (vd_vector_name vd, document_field_str (vd_field vd));
          weight = (case opt of Some w \<Rightarrow> vso_weight w | None \<Rightarrow> f64_one)
      in if fp_eq weight f64_zero
         then build_requests lookup prefetch_limit payload final_filter vds (requests, names, weights)
         else build_requests lookup prefetch_limit payload final_filter vds
           (requests @
              [\<lparr>ar_using = field_vector_name vd, ar_query = query_variant_of vd, ar_limit = prefetch_limit,
                ar_payload = payload, ar_filter = final_filter,
                ar_score_threshold =
                  map_option (fp_cast binary32) (Option.bind opt vso_raw_score_threshold)\<rparr>],
            names @ [field_vector_name vd], AList.update (field_vector_name vd) weight weights))"

text \<open>The loops over the responses and over the points of one response (\<open>rank\<close> is one-based).\<close>

fun collect_points ::
    "bool \<Rightarrow> string \<Rightarrow> nat \<Rightarrow> scored_point list \<Rightarrow>
     string list \<times> scored \<times> (string \<times> scored_point) list \<times> (string \<times> vector_score list) list \<Rightarrow>
     string list \<times> scored \<times> (string \<times> scored_point) list \<times> (string \<times> vector_score list) list" where
  "collect_points raw name rank [] acc = acc"
| "collect_points raw name rank (point # points) (ids, scored_arm, lookup, raws) =
     (let point_id = scored_point_id point;
          score = fp_cast binary64 (sp_score point)
      in collect_points raw name (Suc rank) points
           (ids @ [point_id], scored_arm @ [(point_id, score)],
            (if map_of lookup point_id = None then AList.update point_id point lookup else lookup),
            (if raw then
               hm_upsert point_id [] (\<lambda>vs. vs @
                 [\<lparr>vs_field = fst (split_first_underscore name), vs_vector = snd (split_first_underscore name),
                   vs_score = score, vs_rank = rank mod 2 ^ 32\<rparr>]) raws
             else raws)))"

fun collect_responses ::
    "bool \<Rightarrow> string list \<Rightarrow> scored_point list list \<Rightarrow>
     string list list \<times> scored list \<times> (string \<times> scored_point) list \<times> (string \<times> vector_score list) list \<Rightarrow>
     (string list list \<times> scored list \<times> (string \<times> scored_point) list \<times> (string \<times> vector_score list) list) option" where
  "collect_responses raw names [] acc = Some acc"
| "collect_responses raw [] (response # responses) acc = None"
| "collect_responses raw (name # names) (response # responses) (id_lists, scored_lists, lookup, raws) =
     (case collect_points raw name 1 response ([], [], lookup, raws) of
        (ids, scored_arm, lookup', raws') \<Rightarrow>
          collect_responses raw names responses
            (id_lists @ [ids], scored_lists @ [scored_arm], lookup', raws'))"

definition execute_search_arms ::
    "search_env \<Rightarrow> nat \<Rightarrow> search_query_with_vectors \<Rightarrow> collection_config_internal \<Rightarrow> search_exclude_field set \<Rightarrow>
     search_arms option run" where
  "execute_search_arms env call query config required_fields =
     (let settings = sqv_settings query in
      run_bind (run_result (build_search_filter (se_parse_dt env)
                  (unwrap_or [] (cci_metadata_indexes config)) settings)) (\<lambda>final_filter.
      let payload = payload_fields (sqs_exclude settings) required_fields;
          lookup = option_lookup config (sqs_vector_options settings);
          prefetch_limit = arm_prefetch_limit settings;
          (requests, names, weight_map) =
            build_requests lookup prefetch_limit payload final_filter (sqv_vectors query) ([], [], [])
      in if requests = [] then Returns None
         else run_bind (run_result (se_query_batch env call requests)) (\<lambda>responses.
           let arm_weights = map (\<lambda>n. unwrap_or f64_one (map_of weight_map n)) names in
           run_bind (run_option (collect_responses (sqs_raw_scores settings) names responses ([], [], [], [])))
             (\<lambda>(id_lists, scored_lists, point_lookup, raws).
                Returns (Some \<lparr>sa_id_lists = id_lists, sa_scored_lists = scored_lists,
                  sa_point_lookup = point_lookup, sa_raw_scores = raws, sa_arm_weights = arm_weights,
                  sa_prefetch_limit = prefetch_limit\<rparr>)))))"

section \<open>Fusion and results\<close>

definition fuse_arms ::
    "search_env \<Rightarrow> search_query_with_vectors \<Rightarrow> string list list \<Rightarrow> scored list \<Rightarrow> fp list \<Rightarrow> nat \<Rightarrow> scored option" where
  "fuse_arms env query id_lists scored_lists arm_weights limit =
     (let settings = sqv_settings query in
      if sqs_fusion_mode settings = ''linear''
      then linear_weighted_score_fuse (se_iter env) scored_lists arm_weights limit (sqs_score_threshold settings)
      else rrf_fuse (se_iter env) id_lists arm_weights scored_lists limit (sqs_score_threshold settings) 2)"

definition vector_score_json :: "vector_score \<Rightarrow> json" where
  "vector_score_json vs =
     Object (bt_collect
       [(''field'', String (vs_field vs)), (''vector'', String (vs_vector vs)),
        (''score'', json_float (vs_score vs)), (''rank'', json_int (int (vs_rank vs)))])"

definition search_result_from_point ::
    "search_env \<Rightarrow> scored_point \<Rightarrow> fp \<Rightarrow> vector_score list \<Rightarrow> db_error + search_result" where
  "search_result_from_point env point score vector_scores =
     (let m = bt_collect (map (\<lambda>(k, v). (k, qdrant_val_to_json v)) (sp_payload point));
          m = bt_insert ''score'' (json_float score) m;
          m = bt_insert ''vector_scores'' (Array (map vector_score_json vector_scores)) m
      in map_err (\<lambda>e. Config (''SearchResult deserialization error: '' @ e)) (se_from_value env (Object m)))"

fun build_search_results ::
    "search_env \<Rightarrow> scored \<Rightarrow> (string \<times> scored_point) list \<Rightarrow> (string \<times> vector_score list) list \<Rightarrow> bool \<Rightarrow>
     search_result list \<Rightarrow> db_error + search_result list" where
  "build_search_results env [] lookup raws raw results = Inr results"
| "build_search_results env ((item_id, fused_score) # rest) lookup raws raw results =
     (case map_of lookup item_id of
        Some point \<Rightarrow>
          and_then (search_result_from_point env point fused_score
                      (if raw then unwrap_or [] (map_of raws item_id) else []))
            (\<lambda>r. build_search_results env rest lookup raws raw (results @ [r]))
      | None \<Rightarrow> build_search_results env rest lookup raws raw results)"

definition build_search_outcome ::
    "search_env \<Rightarrow> scored \<Rightarrow> (string \<times> scored_point) list \<Rightarrow> (string \<times> vector_score list) list \<Rightarrow>
     search_query_with_vectors \<Rightarrow> collection_config_internal \<Rightarrow> db_error + search_outcome" where
  "build_search_outcome env fused lookup raws query config =
     (let settings = sqv_settings query in
      and_then (build_search_results env fused lookup raws (sqs_raw_scores settings) []) (\<lambda>results.
        Inr \<lparr>so_results = results,
             so_facet_counts =
               (if sqs_facets settings then
                  let max_values = (case sqs_facet_options settings of
                                      Some fo \<Rightarrow> fo_max_values fo | None \<Rightarrow> DEFAULT_FACET_MAX_VALUES);
                      indexed_fields = map (\<lambda>idx. (mi_key idx, mi_value_type idx))
                                         (unwrap_or [] (cci_metadata_indexes config))
                  in Some (compute_facet_counts (se_f64_debug env) (se_iter_counts env)
                       (map snd (se_iter_points env lookup)) indexed_fields max_values)
                else None)\<rparr>))"

section \<open>Grouped search\<close>

definition group_value_from_point :: "scored_point \<Rightarrow> string \<Rightarrow> json option" where
  "group_value_from_point point group_field =
     (case map_of (sp_payload point) ''metadata'' of
        Some (StructValue fs) \<Rightarrow>
          (case map_of fs group_field of
             Some field_val \<Rightarrow>
               (let json_val = qdrant_val_to_json field_val in if is_null json_val then None else Some json_val)
           | None \<Rightarrow> None)
      | _ \<Rightarrow> None)"

text \<open>
  Group values are compared by the equality of \<open>serde_json\<close> values, for which the two floating point
  zeros are equal: a value is represented by its form with positive zeros.
\<close>

function json_canon :: "json \<Rightarrow> json" where
  "json_canon (Number n) =
     Number (case n of Float (Finite s m) \<Rightarrow> Float (Finite (s \<and> m \<noteq> 0) m) | other \<Rightarrow> other)"
| "json_canon (Array xs) = Array (map json_canon xs)"
| "json_canon (Object m) = Object (map (\<lambda>(k, v). (k, json_canon v)) m)"
| "json_canon Null = Null"
| "json_canon (Bool b) = Bool b"
| "json_canon (String s) = String s"
  by pat_completeness auto
termination json_canon
  by (relation "measure size") (auto dest: size_json_member size_json_item simp del: json.size)

definition group_value :: "(string \<times> scored_point) list \<Rightarrow> string \<Rightarrow> string \<Rightarrow> json option" where
  "group_value lookup group_field item_id =
     Option.bind (map_of lookup item_id) (\<lambda>p. map_option json_canon (group_value_from_point p group_field))"

record group_state =
  gs_filter :: "metadata_filter option"
  gs_acc :: "string list list \<times> scored list \<times> string list list"
  gs_weights :: "fp list"
  gs_points :: "(string \<times> scored_point) list"
  gs_raws :: "(string \<times> vector_score list) list"

definition extend_map :: "('k \<times> 'v) list \<Rightarrow> ('k \<times> 'v) list \<Rightarrow> ('k \<times> 'v) list" where
  "extend_map m new = foldl (\<lambda>m (k, v). AList.update k v m) m new"

definition or_insert_all :: "('k \<times> 'v) list \<Rightarrow> ('k \<times> 'v) list \<Rightarrow> ('k \<times> 'v) list" where
  "or_insert_all m new = foldl (\<lambda>m (k, v). if map_of m k = None then AList.update k v m else m) m new"

text \<open>
  One iteration of the loop after the arms were executed: \<open>group_decision\<close> applies the cap to the
  fused pool and gives either the selection to return or the state of the next round.
\<close>

definition group_decision ::
    "search_env \<Rightarrow> search_query_settings \<Rightarrow> string \<Rightarrow> nat \<Rightarrow> nat \<Rightarrow> bool \<Rightarrow> scored \<Rightarrow> group_state \<Rightarrow>
     (scored \<times> group_state) + group_state" where
  "group_decision env settings group_field fetch_round max_fetches arms_exhausted fused st =
     (let limit = sqs_limit settings;
          (selected, saturated_values, null_saturated, _) =
            apply_group_cap fused (group_value (gs_points st) group_field) (sqs_group_max settings) limit;
          is_last_round = (fetch_round + 1 \<ge> max_fetches);
          refetch_would_not_help = (saturated_values = [] \<and> \<not> null_saturated)
      in if length selected \<ge> limit \<or> is_last_round \<or> arms_exhausted \<or> refetch_would_not_help
         then Inl (selected, st)
         else Inr (st\<lparr>gs_filter :=
                build_group_exclusion_filter (gs_filter st) group_field
                  (se_iter_groups env saturated_values) null_saturated\<rparr>))"

definition group_round ::
    "search_env \<Rightarrow> search_query_with_vectors \<Rightarrow> string \<Rightarrow> nat \<Rightarrow> nat \<Rightarrow> search_arms \<Rightarrow> group_state \<Rightarrow>
     ((scored \<times> group_state) + group_state) option" where
  "group_round env query group_field fetch_round max_fetches arms st =
     (let weights = (if fetch_round = 0 then sa_arm_weights arms else gs_weights st);
          arms_exhausted = list_all (\<lambda>ids. length ids < sa_prefetch_limit arms) (sa_id_lists arms)
      in Option.bind (merge_search_arms (gs_acc st) (sa_id_lists arms) (sa_scored_lists arms)) (\<lambda>acc.
         let points = extend_map (gs_points st) (sa_point_lookup arms);
             raws = or_insert_all (gs_raws st) (sa_raw_scores arms);
             st' = \<lparr>gs_filter = gs_filter st, gs_acc = acc, gs_weights = weights, gs_points = points,
                    gs_raws = raws\<rparr>
         in map_option (\<lambda>fused.
              group_decision env (sqv_settings query) group_field fetch_round max_fetches arms_exhausted fused st')
              (fuse_arms env query (fst acc) (fst (snd acc)) weights (max (length points) 1))))"

text \<open>The loop \<open>for fetch_round in 0..max_fetches\<close>; \<open>n\<close> rounds are left.\<close>

fun group_loop ::
    "search_env \<Rightarrow> search_query_with_vectors \<Rightarrow> collection_config_internal \<Rightarrow> search_exclude_field set \<Rightarrow> string \<Rightarrow>
     nat \<Rightarrow> nat \<Rightarrow> group_state \<Rightarrow> search_outcome run" where
  "group_loop env query config required_fields group_field max_fetches 0 st = Panics"
| "group_loop env query config required_fields group_field max_fetches (Suc n) st =
     (let fetch_round = max_fetches - Suc n;
          current_query = query\<lparr>sqv_settings := (sqv_settings query)\<lparr>sqs_metadata_filter := gs_filter st\<rparr>\<rparr>
      in run_bind (execute_search_arms env fetch_round current_query config required_fields) (\<lambda>r.
           case r of
             None \<Rightarrow> Returns \<lparr>so_results = [], so_facet_counts = None\<rparr>
           | Some arms \<Rightarrow>
               run_bind (run_option (group_round env query group_field fetch_round max_fetches arms st)) (\<lambda>step.
                 case step of
                   Inl (selected, st') \<Rightarrow>
                     run_result (build_search_outcome env selected (gs_points st') (gs_raws st') query config)
                 | Inr st' \<Rightarrow>
                     group_loop env query config required_fields group_field max_fetches n st')))"

definition search_grouped ::
    "search_env \<Rightarrow> search_query_with_vectors \<Rightarrow> collection_config_internal \<Rightarrow> search_exclude_field set \<Rightarrow>
     search_outcome run" where
  "search_grouped env query config required_fields =
     (case sqs_group_field (sqv_settings query) of
        None \<Rightarrow> Panics
      | Some group_field \<Rightarrow>
          (let max_fetches = max (sqs_group_max_fetches (sqv_settings query)) 1 in
           group_loop env query config required_fields group_field max_fetches max_fetches
             \<lparr>gs_filter = sqs_metadata_filter (sqv_settings query), gs_acc = ([], [], []), gs_weights = [],
              gs_points = [], gs_raws = []\<rparr>))"

definition search ::
    "search_env \<Rightarrow> search_query_with_vectors \<Rightarrow> collection_config_internal \<Rightarrow> search_exclude_field set \<Rightarrow>
     search_outcome run" where
  "search env query config required_fields =
     (if sqs_group_field (sqv_settings query) \<noteq> None
      then search_grouped env query config required_fields
      else run_bind (execute_search_arms env 0 query config required_fields) (\<lambda>r.
        case r of
          None \<Rightarrow> Returns \<lparr>so_results = [], so_facet_counts = None\<rparr>
        | Some arms \<Rightarrow>
            run_bind (run_option (fuse_arms env query (sa_id_lists arms) (sa_scored_lists arms)
                        (sa_arm_weights arms) (sqs_limit (sqv_settings query)))) (\<lambda>fused.
              run_result (build_search_outcome env fused (sa_point_lookup arms) (sa_raw_scores arms)
                query config))))"

section \<open>Lengths\<close>

lemma fuse_length: "fuse_arms env query ids scs ws limit = Some fused \<Longrightarrow> length fused \<le> limit"
  by (auto simp: fuse_arms_def rrf_fuse_def linear_weighted_score_fuse_def Let_def split: if_splits option.splits)

lemma build_results_length:
  "build_search_results env fused lookup raws raw results = Inr out \<Longrightarrow> length out \<le> length results + length fused"
  by (induction env fused lookup raws raw results rule: build_search_results.induct)
    (fastforce split: option.splits)+

lemma build_outcome_results:
  "build_search_outcome env fused lookup raws query config = Inr out \<Longrightarrow>
     build_search_results env fused lookup raws (sqs_raw_scores (sqv_settings query)) [] = Inr (so_results out)"
  by (auto simp: build_search_outcome_def Let_def)

lemma build_outcome_length:
  "build_search_outcome env fused lookup raws query config = Inr out \<Longrightarrow> length (so_results out) \<le> length fused"
  using build_results_length [OF build_outcome_results] by simp

lemma collect_points_shape:
  "map fst s = i \<Longrightarrow> collect_points raw name rank points (i, s, lookup, raws) = (ids, scored_arm, lookup', raws') \<Longrightarrow>
     map fst scored_arm = ids"
  by (induction raw name rank points "(i, s, lookup, raws)" arbitrary: i s lookup raws rule: collect_points.induct)
    (simp_all add: Let_def)

lemma collect_responses_shape:
  "map (map fst) s = i \<Longrightarrow> length responses \<le> length names \<Longrightarrow>
     \<exists>ids scoreds l r. collect_responses raw names responses (i, s, lookup, raws) = Some (ids, scoreds, l, r) \<and>
       map (map fst) scoreds = ids \<and> length ids = length i + length responses"
proof (induction raw names responses "(i, s, lookup, raws)" arbitrary: i s lookup raws rule: collect_responses.induct)
  case (3 raw name names response responses i s lookup raws)
  obtain ids sc l r where c: "collect_points raw name 1 response ([], [], lookup, raws) = (ids, sc, l, r)"
    by (cases "collect_points raw name 1 response ([], [], lookup, raws)") auto
  have "map fst sc = ids" using collect_points_shape [OF _ c] by simp
  then have "map (map fst) (s @ [sc]) = i @ [ids]" using 3(2) by simp
  moreover have "length responses \<le> length names" using 3(3) by simp
  ultimately show ?case using 3(1) [OF c [symmetric] refl refl] by (simp add: c del: One_nat_def)
qed auto

text \<open>The query vectors that are searched: those whose weight is not zero.\<close>

definition active :: "((string \<times> string) \<times> vector_search_option) list \<Rightarrow> vector_data \<Rightarrow> bool" where
  "active lookup vd \<longleftrightarrow>
     \<not> fp_eq (case map_of lookup (vd_vector_name vd, document_field_str (vd_field vd)) of
               Some w \<Rightarrow> vso_weight w | None \<Rightarrow> f64_one) f64_zero"

lemma build_requests_shape:
  "\<exists>rq' nm' w'. build_requests lookup pl payload f vds (rq, nm, w) = (rq', nm', w') \<and>
     length rq' = length rq + length (filter (active lookup) vds) \<and>
     length nm' = length nm + length (filter (active lookup) vds) \<and>
     (\<forall>r \<in> set rq'. r \<in> set rq \<or> ar_limit r = pl \<and> ar_payload r = payload \<and> ar_filter r = f)"
proof (induction vds arbitrary: rq nm w)
  case (Cons vd vds)
  show ?case
  proof (cases "active lookup vd")
    case True
    then obtain x u where "build_requests lookup pl payload f (vd # vds) (rq, nm, w) =
        build_requests lookup pl payload f vds (rq @ [x], nm @ [field_vector_name vd], u)"
      "ar_limit x = pl" "ar_payload x = payload" "ar_filter x = f"
      by (simp add: active_def Let_def)
    then show ?thesis using Cons.IH [of "rq @ [x]" "nm @ [field_vector_name vd]" u] True by auto
  next
    case False
    then show ?thesis using Cons.IH [of rq nm w] by (simp add: active_def Let_def)
  qed
qed auto

definition arm_count :: "search_query_with_vectors \<Rightarrow> collection_config_internal \<Rightarrow> nat" where
  "arm_count query config =
     length (filter (active (option_lookup config (sqs_vector_options (sqv_settings query)))) (sqv_vectors query))"

section \<open>No panic\<close>

text \<open>The database answers every request of a batch.\<close>

definition responses_match :: "search_env \<Rightarrow> bool" where
  "responses_match env \<longleftrightarrow>
     (\<forall>call requests responses. se_query_batch env call requests = Inr responses \<longrightarrow>
        length responses = length requests)"

lemma execute_shape:
  assumes "responses_match env"
  shows "execute_search_arms env call query config required \<noteq> Panics \<and>
    (\<forall>arms. execute_search_arms env call query config required = Returns (Some arms) \<longrightarrow>
       round_ok (arm_count query config) (sa_id_lists arms, sa_scored_lists arms) \<and>
       length (sa_arm_weights arms) = arm_count query config)"
proof -
  let ?s = "sqv_settings query"
  have run: "collect_responses raw nm responses ([], [], [], []) \<noteq> None \<and>
      (\<forall>i s l r. collect_responses raw nm responses ([], [], [], []) = Some (i, s, l, r) \<longrightarrow>
         map (map fst) s = i \<and> length i = length responses)"
    if "length responses \<le> length nm" for raw nm responses
    using collect_responses_shape [of "[]" "[]" responses nm raw "[]" "[]"] that by auto
  show ?thesis
  proof (cases "build_search_filter (se_parse_dt env) (unwrap_or [] (cci_metadata_indexes config)) ?s")
    case (Inl e)
    then show ?thesis by (simp add: execute_search_arms_def Let_def)
  next
    case (Inr f)
    obtain rq nm w where b: "build_requests (option_lookup config (sqs_vector_options ?s)) (arm_prefetch_limit ?s)
        (payload_fields (sqs_exclude ?s) required) f (sqv_vectors query) ([], [], []) = (rq, nm, w)"
      and len: "length rq = arm_count query config" "length nm = arm_count query config"
      using build_requests_shape [of "option_lookup config (sqs_vector_options ?s)" "arm_prefetch_limit ?s"
          "payload_fields (sqs_exclude ?s) required" f "sqv_vectors query" "[]" "[]" "[]"]
      by (auto simp: arm_count_def)
    show ?thesis
    proof (cases "se_query_batch env call rq")
      case (Inl e)
      then show ?thesis by (simp add: execute_search_arms_def Let_def Inr b)
    next
      case (Inr responses)
      then have rl: "length responses = length rq" using assms by (auto simp: responses_match_def)
      then show ?thesis
        using run [of responses nm "sqs_raw_scores ?s"] len
          \<open>build_search_filter _ _ _ = Inr f\<close>
        by (cases "collect_responses (sqs_raw_scores ?s) nm responses ([], [], [], [])")
          (auto simp: execute_search_arms_def Let_def Inr b round_ok_def)
    qed
  qed
qed

lemma linear_scores_Some: "idx + length ls \<le> length ws \<Longrightarrow> \<exists>out. linear_scores it ls ws idx c = Some out"
  by (induction it ls ws idx c rule: linear_scores.induct) auto

lemma fuse_Some:
  assumes "length ids \<le> length ws" "length scs \<le> length ws"
  shows "fuse_arms env query ids scs ws limit \<noteq> None"
  using rrf_scores_Some [of 2 ids ws "[]"] linear_scores_Some [of 0 scs ws "se_iter env" "[]"] assms
  by (auto simp: fuse_arms_def rrf_fuse_def linear_weighted_score_fuse_def Let_def split: option.splits)

text \<open>The accumulated state before a round: nothing, or one list of candidates per arm.\<close>

definition group_inv :: "nat \<Rightarrow> nat \<Rightarrow> group_state \<Rightarrow> bool" where
  "group_inv n fetch_round st \<longleftrightarrow>
     (if fetch_round = 0 then gs_acc st = ([], [], [])
      else (\<exists>hist. length hist = n \<and> merged hist (gs_acc st)) \<and> length (gs_weights st) = n)"

lemma merged_lengths: "merged hist acc \<Longrightarrow> length (fst acc) = length hist \<and> length (fst (snd acc)) = length hist"
  unfolding merged_def by (metis length_map)

lemma group_decision_Inr:
  "group_decision env settings gf fetch_round max_fetches ex fused st = Inr st' \<Longrightarrow>
     fetch_round + 1 < max_fetches \<and> gs_acc st' = gs_acc st \<and> gs_weights st' = gs_weights st"
  by (auto simp: group_decision_def Let_def split: prod.splits if_splits)

lemma group_round_ok:
  assumes "group_inv n fetch_round st" "round_ok n (sa_id_lists arms, sa_scored_lists arms)"
    "length (sa_arm_weights arms) = n"
  shows "\<exists>step. group_round env query gf fetch_round max_fetches arms st = Some step \<and>
    (\<forall>st'. step = Inr st' \<longrightarrow> group_inv n (Suc fetch_round) st' \<and> fetch_round + 1 < max_fetches)"
proof -
  have "\<exists>hist. length hist = n \<and> (merged hist (gs_acc st) \<or> gs_acc st = ([], [], []) \<and> hist = replicate n [])"
    using assms(1) by (cases "fetch_round = 0") (auto simp: group_inv_def intro: exI [of _ "replicate n []"])
  then obtain hist where h: "length hist = n"
    "merged hist (gs_acc st) \<or> gs_acc st = ([], [], []) \<and> hist = replicate (length hist) []" by auto
  obtain acc where acc: "merge_search_arms (gs_acc st) (sa_id_lists arms) (sa_scored_lists arms) = Some acc"
    "merged (map2 (@) hist (sa_id_lists arms)) acc"
    using merge_search_arms_dedup [OF h(2), of "(sa_id_lists arms, sa_scored_lists arms)"] assms(2) h(1) by auto
  have len: "length (map2 (@) hist (sa_id_lists arms)) = n" using assms(2) h(1) by (simp add: round_ok_def)
  have ex: "\<exists>h. length h = n \<and> merged h acc" using len acc(2) by blast
  let ?w = "if fetch_round = 0 then sa_arm_weights arms else gs_weights st"
  have w: "length ?w = n" using assms by (auto simp: group_inv_def)
  have "fuse_arms env query (fst acc) (fst (snd acc)) ?w l \<noteq> None" for l
    by (rule fuse_Some) (use merged_lengths [OF acc(2)] len w in auto)
  then obtain fused where
    "fuse_arms env query (fst acc) (fst (snd acc)) ?w (max (length (extend_map (gs_points st) (sa_point_lookup arms))) 1) = Some fused"
    by blast
  then show ?thesis
    using acc(1) ex w by (auto simp: group_round_def Let_def group_inv_def dest!: group_decision_Inr)
qed

lemma arm_count_filter [simp]:
  "arm_count (query\<lparr>sqv_settings := (sqv_settings query)\<lparr>sqs_metadata_filter := f\<rparr>\<rparr>) config = arm_count query config"
  by (simp add: arm_count_def)

lemma group_loop_no_panic:
  assumes "responses_match env"
  shows "group_inv (arm_count query config) (max_fetches - n) st \<Longrightarrow> 0 < n \<Longrightarrow> n \<le> max_fetches \<Longrightarrow>
     group_loop env query config required gf max_fetches n st \<noteq> Panics"
proof (induction n arbitrary: st)
  case (Suc n)
  let ?q = "query\<lparr>sqv_settings := (sqv_settings query)\<lparr>sqs_metadata_filter := gs_filter st\<rparr>\<rparr>"
  let ?fr = "max_fetches - Suc n"
  note sh = execute_shape [OF assms, of ?fr ?q config required]
  have fr: "Suc ?fr = max_fetches - n" "?fr + 1 < max_fetches \<longrightarrow> 0 < n" using Suc.prems by auto
  show ?case
  proof
    assume p: "group_loop env query config required gf max_fetches (Suc n) st = Panics"
    with sh obtain arms where arms: "execute_search_arms env ?fr ?q config required = Returns (Some arms)"
      "run_bind (run_option (group_round env query gf ?fr max_fetches arms st)) (\<lambda>step.
                 case step of
                   Inl (selected, st') \<Rightarrow>
                     run_result (build_search_outcome env selected (gs_points st') (gs_raws st') query config)
                 | Inr st' \<Rightarrow> group_loop env query config required gf max_fetches n st') = Panics"
      by (auto simp: Let_def run_bind_Panics split: option.splits)
    have "round_ok (arm_count query config) (sa_id_lists arms, sa_scored_lists arms)"
      "length (sa_arm_weights arms) = arm_count query config"
      using sh arms(1) by auto
    from group_round_ok [OF Suc.prems(1) this, of env query gf max_fetches]
    obtain step where step: "group_round env query gf ?fr max_fetches arms st = Some step"
      "\<And>st'. step = Inr st' \<Longrightarrow> group_inv (arm_count query config) (Suc ?fr) st' \<and> ?fr + 1 < max_fetches"
      by blast
    show False
    proof (cases step)
      case (Inl x)
      then show False using arms(2) by (cases x) (simp add: step(1))
    next
      case (Inr st')
      then show False using arms(2) step(2) [OF Inr] Suc.IH [of st'] Suc.prems fr by (simp add: step(1))
    qed
  qed
qed simp

lemma search_calm:
  assumes "responses_match env"
  shows "search env query config required \<noteq> Panics"
proof (cases "sqs_group_field (sqv_settings query)")
  case (Some gf)
  let ?mf = "max (sqs_group_max_fetches (sqv_settings query)) 1"
  have "group_loop env query config required gf ?mf ?mf
      \<lparr>gs_filter = sqs_metadata_filter (sqv_settings query), gs_acc = ([], [], []), gs_weights = [],
       gs_points = [], gs_raws = []\<rparr> \<noteq> Panics"
    by (rule group_loop_no_panic [OF assms]) (simp_all add: group_inv_def)
  then show ?thesis by (simp add: search_def search_grouped_def Some Let_def)
next
  case None
  note sh = execute_shape [OF assms, of 0 query config required]
  have "fuse_arms env query (sa_id_lists arms) (sa_scored_lists arms) (sa_arm_weights arms) l \<noteq> None"
    if "execute_search_arms env 0 query config required = Returns (Some arms)" for arms l
  proof -
    have r: "round_ok (arm_count query config) (sa_id_lists arms, sa_scored_lists arms)"
      and w: "length (sa_arm_weights arms) = arm_count query config" using sh that by auto
    then have "length (sa_scored_lists arms) = arm_count query config" by (metis fst_conv length_map round_ok_def snd_conv)
    then show ?thesis using r w by (intro fuse_Some) (auto simp: round_ok_def)
  qed
  then show ?thesis
    using sh None by (auto simp: search_def run_bind_Panics split: option.splits)
qed

text \<open>
  When the database answers every request of a batch, neither a plain nor a grouped search
  panics: no index is out of range in the merge and fusion of the arms over all fetch rounds, and the
  grouped loop always returns before its end.
\<close>

theorem search_never_panics:
  assumes "responses_match env"
  shows "search env query config required \<noteq> Panics"
  by (rule search_calm [OF assms])

section \<open>Limits\<close>

lemma group_decision_Inl:
  assumes "group_decision env settings gf fetch_round max_fetches ex fused st = Inl (selected, st')"
  shows "st' = st \<and> selected = greedy (group_value (gs_points st) gf) (sqs_group_max settings) (sqs_limit settings) fused []"
proof -
  obtain sel sat nul pe where c: "apply_group_cap fused (group_value (gs_points st) gf) (sqs_group_max settings)
      (sqs_limit settings) = (sel, sat, nul, pe)" by (metis prod_cases4)
  then have "sel = greedy (group_value (gs_points st) gf) (sqs_group_max settings) (sqs_limit settings) fused []"
    by (metis cap_fst fst_conv)
  then show ?thesis using assms c by (auto simp: group_decision_def Let_def split: if_splits)
qed

lemma group_round_capped:
  assumes "group_round env query gf fetch_round max_fetches arms st = Some (Inl (selected, st'))"
  shows "length selected \<le> sqs_limit (sqv_settings query) \<and>
    (\<forall>g. gcount (group_value (gs_points st') gf) g selected \<le> sqs_group_max (sqv_settings query))"
proof -
  let ?s = "sqv_settings query"
  obtain ex fused st1 where "group_decision env ?s gf fetch_round max_fetches ex fused st1 = Inl (selected, st')"
    using assms by (auto simp: group_round_def Let_def bind_eq_Some_conv)
  from group_decision_Inl [OF this] show ?thesis
    using greedy_bounds(1) [of "[]" "sqs_limit ?s" "group_value (gs_points st') gf" "sqs_group_max ?s" fused]
      greedy_bounds(2) [of "group_value (gs_points st') gf" "[]" "sqs_group_max ?s" _ "sqs_limit ?s" fused]
    by simp
qed

text \<open>What a grouped search returns: results built from a selection that respects the caps.\<close>

definition capped_outcome ::
    "search_env \<Rightarrow> search_query_with_vectors \<Rightarrow> collection_config_internal \<Rightarrow> string \<Rightarrow> search_outcome \<Rightarrow> bool" where
  "capped_outcome env query config gf out \<longleftrightarrow>
     (\<exists>selected points raws.
        build_search_outcome env selected points raws query config = Inr out \<and>
        length selected \<le> sqs_limit (sqv_settings query) \<and>
        (\<forall>g. gcount (group_value points gf) g selected \<le> sqs_group_max (sqv_settings query)))"

lemma group_loop_capped:
  "group_loop env query config required gf max_fetches n st = Returns out \<Longrightarrow>
     so_results out = [] \<or> capped_outcome env query config gf out"
proof (induction n arbitrary: st)
  case (Suc n)
  let ?q = "query\<lparr>sqv_settings := (sqv_settings query)\<lparr>sqs_metadata_filter := gs_filter st\<rparr>\<rparr>"
  let ?fr = "max_fetches - Suc n"
  from Suc.prems obtain r where r: "execute_search_arms env ?fr ?q config required = Returns r"
    "(case r of None \<Rightarrow> Returns \<lparr>so_results = [], so_facet_counts = None\<rparr>
      | Some arms \<Rightarrow>
          run_bind (run_option (group_round env query gf ?fr max_fetches arms st)) (\<lambda>step.
            case step of
              Inl (selected, st') \<Rightarrow>
                run_result (build_search_outcome env selected (gs_points st') (gs_raws st') query config)
            | Inr st' \<Rightarrow> group_loop env query config required gf max_fetches n st')) = Returns out"
    by (auto simp: Let_def run_bind_Returns)
  show ?case
  proof (cases r)
    case None
    then show ?thesis using r(2) by auto
  next
    case (Some arms)
    then obtain step where step: "group_round env query gf ?fr max_fetches arms st = Some step"
      "(case step of
              Inl (selected, st') \<Rightarrow>
                run_result (build_search_outcome env selected (gs_points st') (gs_raws st') query config)
            | Inr st' \<Rightarrow> group_loop env query config required gf max_fetches n st') = Returns out"
      using r(2) by (auto simp: run_bind_Returns)
    show ?thesis
    proof (cases step)
      case (Inl x)
      then obtain selected st' where x: "step = Inl (selected, st')" by (cases x) auto
      then show ?thesis
        using step group_round_capped [of env query gf ?fr max_fetches arms st selected st']
        by (auto simp: capped_outcome_def)
    next
      case (Inr st')
      then show ?thesis using step(2) Suc.IH by simp
    qed
  qed
qed simp

text \<open>
  C9: a search returns at most \<open>limit\<close> results, and the results of a grouped search come from a
  selection with at most \<open>group_max\<close> candidates of each group value, whatever the database returns
  in each round.
\<close>

theorem search_respects_limits:
  assumes "search env query config required = Returns out"
  shows "length (so_results out) \<le> sqs_limit (sqv_settings query) \<and>
    (\<forall>gf. sqs_group_field (sqv_settings query) = Some gf \<longrightarrow>
       so_results out = [] \<or> capped_outcome env query config gf out)"
proof (cases "sqs_group_field (sqv_settings query)")
  case (Some gf)
  then have "so_results out = [] \<or> capped_outcome env query config gf out"
    using assms by (auto simp: search_def search_grouped_def Let_def dest: group_loop_capped)
  then show ?thesis
    using Some by (fastforce simp: capped_outcome_def dest: build_outcome_length)
next
  case None
  then show ?thesis
    using assms
    by (fastforce simp: search_def run_bind_Returns split: option.splits
        dest: build_outcome_length fuse_length)
qed

lemma execute_cong:
  assumes "se_query_batch env call = se_query_batch env' call" "se_parse_dt env = se_parse_dt env'"
  shows "execute_search_arms env call query config required = execute_search_arms env' call query config required"
  unfolding execute_search_arms_def assms ..

lemma group_loop_fetches:
  assumes "\<And>call. call < max_fetches \<Longrightarrow> se_query_batch env call = qb call"
  shows "n \<le> max_fetches \<Longrightarrow> group_loop (env\<lparr>se_query_batch := qb\<rparr>) query config required gf max_fetches n st =
     group_loop env query config required gf max_fetches n st"
proof (induction n arbitrary: st)
  case (Suc n)
  have q: "qb (max_fetches - Suc n) = se_query_batch env (max_fetches - Suc n)"
    using assms [of "max_fetches - Suc n"] Suc.prems by simp
  have ex: "execute_search_arms (env\<lparr>se_query_batch := qb\<rparr>) (max_fetches - Suc n) q config required =
      execute_search_arms env (max_fetches - Suc n) q config required" for q
    by (rule execute_cong) (simp_all add: q)
  have sel: "se_iter (env\<lparr>se_query_batch := qb\<rparr>) = se_iter env"
    "se_iter_groups (env\<lparr>se_query_batch := qb\<rparr>) = se_iter_groups env"
    "se_iter_counts (env\<lparr>se_query_batch := qb\<rparr>) = se_iter_counts env"
    "se_iter_points (env\<lparr>se_query_batch := qb\<rparr>) = se_iter_points env"
    "se_f64_debug (env\<lparr>se_query_batch := qb\<rparr>) = se_f64_debug env"
    by simp_all
  have gr: "group_round (env\<lparr>se_query_batch := qb\<rparr>) query gf fr max_fetches arms st =
      group_round env query gf fr max_fetches arms st" for fr arms st
    unfolding group_round_def fuse_arms_def group_decision_def sel ..
  have br: "build_search_results (env\<lparr>se_query_batch := qb\<rparr>) fused lookup raws raw results =
      build_search_results env fused lookup raws raw results" for fused lookup raws raw results
    by (induction env fused lookup raws raw results rule: build_search_results.induct)
      (auto simp: search_result_from_point_def split: option.split intro!: arg_cong2 [where f = and_then])
  have bo: "build_search_outcome (env\<lparr>se_query_batch := qb\<rparr>) fused lookup raws query config =
      build_search_outcome env fused lookup raws query config" for fused lookup raws
    unfolding build_search_outcome_def br sel ..
  have IH: "group_loop (env\<lparr>se_query_batch := qb\<rparr>) query config required gf max_fetches n st =
     group_loop env query config required gf max_fetches n st" for st
    using Suc by simp
  show ?case unfolding group_loop.simps Let_def ex gr bo IH ..
qed simp

text \<open>
  A grouped search queries the database at most \<open>group_max_fetches\<close> times (once when that is
  zero): what later queries would answer cannot change the result.
\<close>

theorem grouped_fetch_bound:
  assumes "\<forall>call < max (sqs_group_max_fetches (sqv_settings query)) 1. qb call = se_query_batch env call"
  shows "search_grouped (env\<lparr>se_query_batch := qb\<rparr>) query config required = search_grouped env query config required"
proof (cases "sqs_group_field (sqv_settings query)")
  case (Some gf)
  show ?thesis
    unfolding search_grouped_def Some Let_def option.case
    by (rule group_loop_fetches) (use assms in auto)
qed (simp add: search_grouped_def)

section \<open>Instances\<close>

text \<open>
  A database with one point, a query with one sparse vector, and a deserializer that returns a
  document without content.
\<close>

definition example_point :: scored_point where
  "example_point =
     \<lparr>sp_id = Some (Some (Uuid ''u'')),
      sp_payload = [(''metadata'', StructValue [(''k'', StringValue ''v'')])], sp_score = Finite False 1\<rparr>"

definition example_result :: search_result where
  "example_result =
     \<lparr>sr_document = Document ''u'' 0 None None None None None None None None None [],
      sr_score = f64_one, sr_vector_scores = []\<rparr>"

definition example_env :: search_env where
  "example_env =
     \<lparr>se_query_batch = (\<lambda>_ requests. Inr (map (\<lambda>_. [example_point]) requests)),
      se_parse_dt = (\<lambda>_. Inl ''no date''), se_from_value = (\<lambda>_. Inr example_result),
      se_f64_debug = (\<lambda>_. []), se_iter = (\<lambda>m. m), se_iter_groups = (\<lambda>m. m), se_iter_counts = (\<lambda>m. m),
      se_iter_points = (\<lambda>m. m)\<rparr>"

definition example_query :: search_query_with_vectors where
  "example_query =
     \<lparr>sqv_query = ''q'',
      sqv_settings = example_settings\<lparr>sqs_metadata_filter := None, sqs_group_field := Some ''k''\<rparr>,
      sqv_vectors = [\<lparr>vd_vector_name = ''t'', vd_field = FContent, vd_vector_type = Trigrams,
        vd_dense_vector = None, vd_sparse_indices = Some [], vd_sparse_values = Some []\<rparr>]\<rparr>"

lemma example_responses: "responses_match example_env"
  by (auto simp: responses_match_def example_env_def)

theorem search_never_panics_witness:
  "search example_env example_query example_config {} \<noteq> Panics"
  by (rule search_never_panics) (rule example_responses)

theorem grouped_fetch_bound_witness:
  "search_grouped (example_env\<lparr>se_query_batch := (\<lambda>call requests.
       if call < 2 then se_query_batch example_env call requests else Inl (NotFound ''late''))\<rparr>)
     example_query example_config {} = search_grouped example_env example_query example_config {}"
  by (rule grouped_fetch_bound) (simp add: example_query_def example_settings_def)

lemma example_arms:
  "execute_search_arms example_env 0 example_query example_config {} =
     Returns (Some \<lparr>sa_id_lists = [[''u'']], sa_scored_lists = [[(''u'', fp_cast binary64 (Finite False 1))]],
       sa_point_lookup = [(''u'', example_point)], sa_raw_scores = [], sa_arm_weights = [f64_one],
       sa_prefetch_limit = 15\<rparr>)"
proof -
  have w: "\<not> fp_eq f64_one f64_zero" by (simp add: f64_one_def f64_zero_def fp_eq_def)
  have id: "scored_point_id example_point = ''u''" by (simp add: scored_point_id_def example_point_def)
  have sc: "sp_score example_point = Finite False 1" by (simp add: example_point_def)
  have pl: "search_prefetch_limit 10 = 15" using search_prefetch_limit_exact [of 10] by simp
  show ?thesis
    by (simp add: execute_search_arms_def build_search_filter_def tag_conditions_def example_query_def
        example_settings_def option_lookup_def List.map_filter_simps arm_prefetch_limit_def pl w Let_def
        field_vector_name_def example_env_def id sc del: fp_cast.simps)
qed

lemma example_fuse:
  "\<exists>s. fuse_arms example_env example_query [[''u'']] [[(''u'', x)]] [f64_one] (Suc 0) = Some [(''u'', s)]"
  by (simp add: fuse_arms_def rrf_fuse_def example_query_def example_settings_def example_env_def passes_def
      sort_by_def hm_upsert_def)

lemma example_search:
  "search example_env example_query example_config {} =
     Returns \<lparr>so_results = [example_result], so_facet_counts = None\<rparr>"
proof -
  obtain s where s: "fuse_arms example_env example_query [[''u'']] [[(''u'', fp_cast binary64 (Finite False 1))]]
      [f64_one] (Suc 0) = Some [(''u'', s)]"
    using example_fuse by blast
  have q: "example_query\<lparr>sqv_settings := (sqv_settings example_query)\<lparr>sqs_metadata_filter := None\<rparr>\<rparr> = example_query"
    by (simp add: example_query_def)
  have sets: "sqs_group_field (sqv_settings example_query) = Some ''k''" "sqs_metadata_filter (sqv_settings example_query) = None"
    "sqs_group_max_fetches (sqv_settings example_query) = 2" "sqs_group_max (sqv_settings example_query) = 3"
    "sqs_limit (sqv_settings example_query) = 10" "sqs_facets (sqv_settings example_query) = False"
    "sqs_raw_scores (sqv_settings example_query) = False"
    by (simp_all add: example_query_def example_settings_def)
  have gv: "group_value [(''u'', example_point)] ''k'' ''u'' = Some (String ''v'')"
    by (simp add: group_value_def group_value_from_point_def example_point_def)
  have step: "group_round example_env example_query ''k'' 0 2
      \<lparr>sa_id_lists = [[''u'']], sa_scored_lists = [[(''u'', fp_cast binary64 (Finite False 1))]],
       sa_point_lookup = [(''u'', example_point)], sa_raw_scores = [], sa_arm_weights = [f64_one],
       sa_prefetch_limit = 15\<rparr>
      \<lparr>gs_filter = None, gs_acc = ([], [], []), gs_weights = [], gs_points = [], gs_raws = []\<rparr> =
      Some (Inl ([(''u'', s)], \<lparr>gs_filter = None, gs_acc = ([[''u'']], [[(''u'', fp_cast binary64 (Finite False 1))]], [[''u'']]),
        gs_weights = [f64_one], gs_points = [(''u'', example_point)], gs_raws = []\<rparr>))"
    by (simp add: group_round_def group_decision_def merge_search_arms_def extend_map_def or_insert_all_def s
        apply_group_cap_def sets gv List.map_filter_simps del: fp_cast.simps)
  have "search example_env example_query example_config {} =
      run_result (build_search_outcome example_env [(''u'', s)] [(''u'', example_point)] [] example_query example_config)"
    by (simp add: search_def search_grouped_def sets Let_def numeral_2_eq_2 q example_arms
        step [unfolded numeral_2_eq_2] del: fp_cast.simps)
  then show ?thesis
    by (simp add: build_search_outcome_def sets search_result_from_point_def example_env_def)
qed

theorem search_respects_limits_witness:
  "search example_env example_query example_config {} = Returns \<lparr>so_results = [example_result], so_facet_counts = None\<rparr> \<and>
   capped_outcome example_env example_query example_config ''k'' \<lparr>so_results = [example_result], so_facet_counts = None\<rparr>"
  using search_respects_limits [OF example_search] example_search
  by (simp add: example_query_def)

end
