(* ===== verification/Normalize.thy ===== *)
theory Normalize
  imports Metadata_Filter
begin

text \<open>
  Normalisation of document metadata, \<open>src/src/functions.rs\<close>: an entry of the legacy form
  \<open>{value, type}\<close> is checked and replaced by its value, any other entry is kept. The parser of
  date strings is the argument \<open>parse_dt\<close>.
\<close>

section \<open>Definitions\<close>

definition MAX_METADATA_VALUE_LENGTH :: nat where "MAX_METADATA_VALUE_LENGTH = 1000000"

fun json_type_name :: "json \<Rightarrow> string" where
  "json_type_name Null = ''null''"
| "json_type_name (Bool _) = ''bool''"
| "json_type_name (Number n) = (if is_i64 (Number n) \<or> is_u64 (Number n) then ''int'' else ''float'')"
| "json_type_name (String _) = ''str''"
| "json_type_name (Array _) = ''list''"
| "json_type_name (Object _) = ''dict''"

datatype normalize_error =
    InvalidMetaType string string
  | StringTooLong string
  | MustBe string string string
  | BadDatetime string string

definition validate_and_clone_meta_inner ::
    "(string \<Rightarrow> string + int) \<Rightarrow> string \<Rightarrow> string \<Rightarrow> json \<Rightarrow> (normalize_error + json) option" where
  "validate_and_clone_meta_inner parse_dt key type_str val =
     (if type_str = ''string'' then
        Some (case as_str val of
          Some s \<Rightarrow> if MAX_METADATA_VALUE_LENGTH < chars_count s then Inl (StringTooLong key) else Inr (String s)
        | None \<Rightarrow> Inl (MustBe key type_str (json_type_name val)))
      else if type_str = ''integer'' then
        Some (if is_i64 val \<or> is_u64 val then Inr val else Inl (MustBe key type_str (json_type_name val)))
      else if type_str = ''float'' then
        Some (if is_number val then Inr val else Inl (MustBe key type_str (json_type_name val)))
      else if type_str = ''boolean'' then
        Some (if is_boolean val then Inr val else Inl (MustBe key type_str (json_type_name val)))
      else if type_str = ''datetime'' then
        Some (case as_str val of
          Some s \<Rightarrow> if is_ok (parse_dt s) then Inr (String s) else Inl (BadDatetime key s)
        | None \<Rightarrow> Inl (MustBe key type_str (json_type_name val)))
      else if type_str = ''array'' then
        Some (if is_array val then Inr val else Inl (MustBe key type_str (json_type_name val)))
      else if type_str = ''object'' then
        Some (if is_object val \<or> is_null val then Inr val else Inl (MustBe key type_str (json_type_name val)))
      else None)"

definition allowed_meta_types :: "string list" where
  "allowed_meta_types = [''string'', ''integer'', ''float'', ''boolean'', ''datetime'', ''array'', ''object'']"

definition debug_strs :: "string list \<Rightarrow> string" where
  "debug_strs xs =
     ''['' @ concat (map (\<lambda>x. [CHR 0x22] @ x @ [CHR 0x22] @ '', '') (butlast xs)) @
     (if xs = [] then [] else [CHR 0x22] @ last xs @ [CHR 0x22]) @ '']''"

fun normalize_error_str :: "normalize_error \<Rightarrow> string" where
  "normalize_error_str (InvalidMetaType t key) =
     ''Invalid metadata type '' @ quoted t @ '' for key '' @ quoted key @ ''. Allowed types: '' @ debug_strs allowed_meta_types"
| "normalize_error_str (StringTooLong key) =
     ''String metadata value for key '' @ quoted key @ '' exceeds '' @ nat_str MAX_METADATA_VALUE_LENGTH @ '' character limit''"
| "normalize_error_str (MustBe key t got) =
     ''Metadata value for key '' @ quoted key @ '' must be '' @
     (if t = ''float'' then ''number'' else if t = ''datetime'' then ''string (ISO 8601)''
      else if t = ''object'' then ''object or null'' else t) @
     '' for type='' @ quoted t @ '', got '' @ got"
| "normalize_error_str (BadDatetime key s) =
     ''Metadata value for key '' @ quoted key @ '' must be a valid ISO 8601 datetime string, got '' @ quoted s"

text \<open>The two fields of a legacy entry, when the object has exactly these two.\<close>

definition meta_value_parts :: "(string \<times> json) list \<Rightarrow> (string \<times> json) option" where
  "meta_value_parts m =
     (if length m = 2
      then case (map_of m ''value'', Option.bind (map_of m ''type'') as_str) of
             (Some v, Some t) \<Rightarrow> Some (t, v)
           | _ \<Rightarrow> None
      else None)"

definition normalize_one_metadata_value ::
    "(string \<Rightarrow> string + int) \<Rightarrow> string \<Rightarrow> json \<Rightarrow> (normalize_error + json) option" where
  "normalize_one_metadata_value parse_dt key v =
     (case v of
        Object m \<Rightarrow>
          (case meta_value_parts m of
             Some (type_str, val) \<Rightarrow>
               if type_str \<notin> set allowed_meta_types then Some (Inl (InvalidMetaType type_str key))
               else validate_and_clone_meta_inner parse_dt key type_str val
           | None \<Rightarrow> Some (Inr (Object m)))
      | String s \<Rightarrow>
          Some (if MAX_METADATA_VALUE_LENGTH < chars_count s then Inl (StringTooLong key) else Inr (String s))
      | _ \<Rightarrow> Some (Inr v))"

text \<open>The \<open>unreachable!()\<close> of the last branch is the value \<open>None\<close>; entries are visited in list order.\<close>

fun normalize_entries ::
    "(string \<Rightarrow> string + int) \<Rightarrow> (string \<times> json) list \<Rightarrow> (normalize_error + (string \<times> json) list) option" where
  "normalize_entries parse_dt [] = Some (Inr [])"
| "normalize_entries parse_dt ((k, v) # m) =
     (case normalize_one_metadata_value parse_dt k v of
        None \<Rightarrow> None
      | Some (Inl e) \<Rightarrow> Some (Inl e)
      | Some (Inr v') \<Rightarrow>
          map_option (\<lambda>r. and_then r (\<lambda>m'. Inr ((k, v') # m'))) (normalize_entries parse_dt m))"

definition normalize_document_metadata_inplace ::
    "(string \<Rightarrow> string + int) \<Rightarrow> document \<Rightarrow> (normalize_error + document) option" where
  "normalize_document_metadata_inplace parse_dt doc =
     (case doc_metadata doc of
        None \<Rightarrow> Some (Inr doc)
      | Some md \<Rightarrow> map_option (\<lambda>r. and_then r (\<lambda>m. Inr (set_doc_metadata (Some m) doc))) (normalize_entries parse_dt md))"

definition typed_entry :: "json \<Rightarrow> string \<Rightarrow> json" where
  "typed_entry v t = Object [(''value'', v), (''type'', String t)]"

section \<open>Properties\<close>

lemma validate_and_clone_total:
  "t \<in> set allowed_meta_types \<Longrightarrow> validate_and_clone_meta_inner parse_dt k t v \<noteq> None"
  by (auto simp: validate_and_clone_meta_inner_def allowed_meta_types_def)

lemma normalize_one_total: "normalize_one_metadata_value parse_dt k v \<noteq> None"
  using validate_and_clone_total
  by (auto simp: normalize_one_metadata_value_def split: json.splits option.splits prod.splits)

lemma normalize_entries_total: "normalize_entries parse_dt m \<noteq> None"
  using normalize_one_total by (induction parse_dt m rule: normalize_entries.induct) (auto split: option.splits sum.splits)

lemma normalize_doc_total: "normalize_document_metadata_inplace parse_dt d \<noteq> None"
  using normalize_entries_total by (auto simp: normalize_document_metadata_inplace_def split: option.splits)

lemma set_doc_metadata_sel [simp]:
  "doc_id (set_doc_metadata m d) = doc_id d" "doc_timestamp (set_doc_metadata m d) = doc_timestamp d"
  "doc_metadata (set_doc_metadata m d) = m" "doc_token_lengths (set_doc_metadata m d) = doc_token_lengths d"
  "doc_vectors (set_doc_metadata m d) = doc_vectors d" "doc_custom_vectors (set_doc_metadata m d) = doc_custom_vectors d"
  by (cases d; simp)+

lemma set_doc_content_hash_sel [simp]:
  "doc_id (set_doc_content_hash m d) = doc_id d" "doc_timestamp (set_doc_content_hash m d) = doc_timestamp d"
  "doc_token_lengths (set_doc_content_hash m d) = doc_token_lengths d"
  by (cases d; simp)+

lemma normalize_doc_keeps:
  "normalize_document_metadata_inplace parse_dt d = Some (Inr d') \<Longrightarrow> doc_id d' = doc_id d \<and> doc_timestamp d' = doc_timestamp d"
  by (auto simp: normalize_document_metadata_inplace_def split: option.splits)

text \<open>What an entry means: the value of a legacy entry, and any other entry itself.\<close>

definition meta_meaning :: "json \<Rightarrow> json" where
  "meta_meaning v = (case v of Object m \<Rightarrow> (case meta_value_parts m of Some (_, w) \<Rightarrow> w | None \<Rightarrow> v) | _ \<Rightarrow> v)"

lemma validate_and_clone_value:
  "validate_and_clone_meta_inner parse_dt k t v = Some (Inr w) \<Longrightarrow> w = v"
  by (cases v) (auto simp: validate_and_clone_meta_inner_def split: if_splits)

lemma normalize_one_meaning:
  "normalize_one_metadata_value parse_dt k v = Some (Inr w) \<Longrightarrow> w = meta_meaning v"
  using validate_and_clone_value
  by (auto simp: normalize_one_metadata_value_def meta_meaning_def split: json.splits option.splits prod.splits if_splits)

lemma normalize_entries_meaning:
  "normalize_entries parse_dt m = Some (Inr m') \<Longrightarrow> m' = map (\<lambda>(k, v). (k, meta_meaning v)) m"
proof (induction m arbitrary: m')
  case (Cons p m)
  obtain k v where p: "p = (k, v)" by fastforce
  with Cons.prems obtain w where w: "normalize_one_metadata_value parse_dt k v = Some (Inr w)"
    by (auto split: option.splits sum.splits)
  with Cons.prems p obtain r where "normalize_entries parse_dt m = Some (Inr r)" "m' = (k, w) # r" by auto
  then show ?case using Cons.IH normalize_one_meaning [OF w] by (simp add: p)
qed simp

text \<open>
  Normalisation never reaches its unreachable branch, keeps the keys and their order, and replaces
  each entry by its meaning; nothing else of the document changes.
\<close>

theorem normalize_metadata_correct:
  "normalize_document_metadata_inplace parse_dt d \<noteq> None \<and>
   (normalize_document_metadata_inplace parse_dt d = Some (Inr d') \<longrightarrow>
      d' = (case doc_metadata d of None \<Rightarrow> d
            | Some m \<Rightarrow> set_doc_metadata (Some (map (\<lambda>(k, v). (k, meta_meaning v)) m)) d))"
proof -
  have "d' = (case doc_metadata d of None \<Rightarrow> d
            | Some m \<Rightarrow> set_doc_metadata (Some (map (\<lambda>(k, v). (k, meta_meaning v)) m)) d)"
    if "normalize_document_metadata_inplace parse_dt d = Some (Inr d')"
    using that normalize_entries_meaning
    by (fastforce simp: normalize_document_metadata_inplace_def split: option.splits)
  then show ?thesis using normalize_doc_total by blast
qed

text \<open>
  Normalisation is not idempotent: the value of a legacy entry may itself have the legacy form, and a
  second pass unwraps it again.
\<close>

lemma normalize_twice_unwraps:
  "normalize_one_metadata_value parse_dt k (typed_entry (typed_entry (Bool b) ''boolean'') ''object'') =
     Some (Inr (typed_entry (Bool b) ''boolean'')) \<and>
   normalize_one_metadata_value parse_dt k (typed_entry (Bool b) ''boolean'') = Some (Inr (Bool b))"
  by (simp add: normalize_one_metadata_value_def typed_entry_def meta_value_parts_def allowed_meta_types_def
      validate_and_clone_meta_inner_def)

end
