(* ===== verification/Config_Cache.thy ===== *)
theory Config_Cache
  imports Models
begin

text \<open>
  The cache of collection configurations of \<open>src/src/encoder.rs\<close> (\<open>CollectionConfigCache\<close>) and
  the two ways to read a configuration through it. Instants are seconds on a clock the operations get
  as an argument; what the database answers is an argument too. The contract of a cache whose entries
  expire is the locale \<open>expiring_cache\<close>.
\<close>

section \<open>Definitions\<close>

definition CACHE_TTL_SECS :: nat where "CACHE_TTL_SECS = 60"
definition CACHE_MAX_ENTRIES :: nat where "CACHE_MAX_ENTRIES = 1000"

record cache_entry =
  ce_config :: collection_config_internal
  ce_inserted_at :: nat

record config_cache =
  cache_map :: "(string, cache_entry) hash_map"
  cache_cluster_mode :: bool

definition cache_new :: "bool \<Rightarrow> config_cache" where
  "cache_new cluster_mode = \<lparr>cache_map = [], cache_cluster_mode = cluster_mode\<rparr>"

definition get_for_search :: "config_cache \<Rightarrow> nat \<Rightarrow> string \<Rightarrow> collection_config_internal option" where
  "get_for_search c now name =
     Option.bind (map_of (cache_map c) name)
       (\<lambda>e. if now - ce_inserted_at e < CACHE_TTL_SECS then Some (ce_config e) else None)"

definition cache_get :: "config_cache \<Rightarrow> nat \<Rightarrow> string \<Rightarrow> collection_config_internal option" where
  "cache_get c now name = (if cache_cluster_mode c then None else get_for_search c now name)"

text \<open>\<open>min_by_key\<close>: the first entry with the least insertion time.\<close>

fun oldest :: "(string \<times> cache_entry) list \<Rightarrow> (string \<times> cache_entry) option" where
  "oldest [] = None"
| "oldest (p # ps) =
     (case oldest ps of
        None \<Rightarrow> Some p
      | Some q \<Rightarrow> if ce_inserted_at (snd p) \<le> ce_inserted_at (snd q) then Some p else Some q)"

definition cache_set :: "string \<Rightarrow> collection_config_internal \<Rightarrow> nat \<Rightarrow> config_cache \<Rightarrow> config_cache" where
  "cache_set name config now c =
     (let m = cache_map c;
          m = (if length m \<ge> CACHE_MAX_ENTRIES \<and> map_of m name = None
               then case oldest m of Some (k, _) \<Rightarrow> AList.delete k m | None \<Rightarrow> m
               else m)
      in c\<lparr>cache_map := AList.update name \<lparr>ce_config = config, ce_inserted_at = now\<rparr> m\<rparr>)"

definition cache_invalidate :: "string \<Rightarrow> config_cache \<Rightarrow> config_cache" where
  "cache_invalidate name c = c\<lparr>cache_map := AList.delete name (cache_map c)\<rparr>"

definition get_collection_info_cached ::
    "'e + collection_config_internal \<Rightarrow> nat \<Rightarrow> string \<Rightarrow> config_cache \<Rightarrow>
     config_cache \<times> ('e + collection_config_internal \<times> bool)" where
  "get_collection_info_cached info now name c =
     (case get_for_search c now name of
        Some cached \<Rightarrow> (c, Inr (cached, True))
      | None \<Rightarrow> (case info of
                  Inl e \<Rightarrow> (c, Inl e)
                | Inr config \<Rightarrow> (cache_set name config now c, Inr (config, False))))"

definition get_collection_info_for_write ::
    "'e + collection_config_internal \<Rightarrow> nat \<Rightarrow> string \<Rightarrow> config_cache \<Rightarrow>
     config_cache \<times> ('e + collection_config_internal)" where
  "get_collection_info_for_write info now name c =
     (case cache_get c now name of
        Some cached \<Rightarrow> (c, Inr cached)
      | None \<Rightarrow> (case info of
                  Inl e \<Rightarrow> (c, Inl e)
                | Inr config \<Rightarrow> (cache_set name config now c, Inr config)))"

definition cache_ok :: "config_cache \<Rightarrow> bool" where
  "cache_ok c \<longleftrightarrow> hm_ok (cache_map c) \<and> length (cache_map c) \<le> CACHE_MAX_ENTRIES"

definition cache_entries :: "config_cache \<Rightarrow> string \<rightharpoonup> collection_config_internal \<times> nat" where
  "cache_entries c k = map_option (\<lambda>e. (ce_config e, ce_inserted_at e)) (map_of (cache_map c) k)"

text \<open>Histories of a cache.\<close>

datatype ('k, 'v) cache_op =
    Put 'k 'v nat
  | Drop 'k

fun apply_cache_op :: "('k \<Rightarrow> 'v \<Rightarrow> nat \<Rightarrow> 'c \<Rightarrow> 'c) \<Rightarrow> ('k \<Rightarrow> 'c \<Rightarrow> 'c) \<Rightarrow> ('k, 'v) cache_op \<Rightarrow> 'c \<Rightarrow> 'c" where
  "apply_cache_op store remove (Put k v t) c = store k v t c"
| "apply_cache_op store remove (Drop k) c = remove k c"

fun touches :: "'k \<Rightarrow> ('k, 'v) cache_op \<Rightarrow> bool" where
  "touches k (Put j _ _) \<longleftrightarrow> j = k"
| "touches k (Drop j) \<longleftrightarrow> j = k"

section \<open>The contract of an expiring cache\<close>

locale expiring_cache =
  fixes lookup :: "'c \<Rightarrow> nat \<Rightarrow> 'k \<Rightarrow> 'v option"
    and store :: "'k \<Rightarrow> 'v \<Rightarrow> nat \<Rightarrow> 'c \<Rightarrow> 'c"
    and remove :: "'k \<Rightarrow> 'c \<Rightarrow> 'c"
    and entries :: "'c \<Rightarrow> 'k \<rightharpoonup> 'v \<times> nat"
    and ok :: "'c \<Rightarrow> bool"
    and ttl :: nat
  assumes lookup: "ok c \<Longrightarrow> lookup c now k = Some v \<Longrightarrow> \<exists>t. entries c k = Some (v, t) \<and> now < t + ttl"
    and store_same: "ok c \<Longrightarrow> entries (store k v t c) k = Some (v, t)"
    and store_other: "ok c \<Longrightarrow> j \<noteq> k \<Longrightarrow> entries (store k v t c) j = None \<or> entries (store k v t c) j = entries c j"
    and remove_same: "ok c \<Longrightarrow> entries (remove k c) k = None"
    and remove_other: "ok c \<Longrightarrow> j \<noteq> k \<Longrightarrow> entries (remove k c) j = entries c j"
    and ok_store: "ok c \<Longrightarrow> ok (store k v t c)"
    and ok_remove: "ok c \<Longrightarrow> ok (remove k c)"
begin

lemma ok_run: "ok c \<Longrightarrow> ok (fold (apply_cache_op store remove) ops c)"
proof (induction ops arbitrary: c)
  case (Cons x ops)
  then show ?case by (cases x) (simp_all add: ok_store ok_remove)
qed simp

lemma entry_origin:
  assumes "ok c" "\<And>k. entries c k = None" "entries (fold (apply_cache_op store remove) ops c) k = Some (v, t)"
  shows "\<exists>before after. ops = before @ Put k v t # after \<and> \<not> list_ex (touches k) after"
  using assms(3)
proof (induction ops arbitrary: v t rule: rev_induct)
  case Nil
  then show ?case using assms(2) by simp
next
  case (snoc x ops)
  let ?c = "fold (apply_cache_op store remove) ops c"
  have ok: "ok ?c" by (rule ok_run [OF assms(1)])
  have now: "entries (apply_cache_op store remove x ?c) k = Some (v, t)" using snoc.prems by simp
  show ?case
  proof (cases "touches k x")
    case True
    then have "x = Put k v t" using now ok by (cases x) (simp_all add: store_same remove_same)
    then show ?thesis by (intro exI [of _ ops] exI [of _ "[]"]) simp
  next
    case False
    then have "entries ?c k = Some (v, t)"
      using now store_other [OF ok, of k] remove_other [OF ok, of k] by (cases x) (auto, metis option.distinct(1))
    then obtain before after where "ops = before @ Put k v t # after" "\<not> list_ex (touches k) after"
      using snoc.IH by blast
    then show ?thesis using False by (intro exI [of _ before] exI [of _ "after @ [x]"]) simp
  qed
qed

text \<open>A value that is found was stored recently, and the key was not written or dropped since.\<close>

lemma freshness:
  assumes "ok c" "\<And>k. entries c k = None" "lookup (fold (apply_cache_op store remove) ops c) now k = Some v"
  shows "\<exists>before t after. ops = before @ Put k v t # after \<and> \<not> list_ex (touches k) after \<and> now < t + ttl"
  using lookup [OF ok_run [OF assms(1)] assms(3)] entry_origin [OF assms(1,2)] by blast

end

section \<open>The cache satisfies the contract\<close>

lemma oldest_None [simp]: "oldest ps = None \<longleftrightarrow> ps = []"
  by (cases ps) (auto split: option.splits)

lemma oldest_in: "oldest ps = Some p \<Longrightarrow> p \<in> set ps \<and> (\<forall>q\<in>set ps. ce_inserted_at (snd p) \<le> ce_inserted_at (snd q))"
  by (induction ps arbitrary: p) (auto split: option.splits if_splits)

lemma length_delete_key: "hm_ok m \<Longrightarrow> (k, v) \<in> set m \<Longrightarrow> length (AList.delete k m) < length m"
  unfolding AList.delete_eq by (rule length_filter_less) auto

lemma length_update_key: "length (AList.update k v m) \<le> Suc (length m)"
  by (induction m) auto

lemma length_update_present: "map_of m k \<noteq> None \<Longrightarrow> length (AList.update k v m) = length m"
  by (induction m) auto

lemma hm_ok_delete [simp]: "hm_ok m \<Longrightarrow> hm_ok (AList.delete k m)"
  by (simp add: hm_ok_def distinct_delete)

lemma cache_set_ok: "cache_ok c \<Longrightarrow> cache_ok (cache_set name config now c)"
proof -
  assume c: "cache_ok c"
  let ?m = "cache_map c" and ?e = "\<lparr>ce_config = config, ce_inserted_at = now\<rparr>"
  consider (present) "map_of ?m name \<noteq> None" | (room) "map_of ?m name = None" "length ?m < CACHE_MAX_ENTRIES"
    | (full) "map_of ?m name = None" "length ?m \<ge> CACHE_MAX_ENTRIES" by linarith
  then show ?thesis
  proof cases
    case present
    then show ?thesis using c length_update_present [OF present] by (auto simp: cache_ok_def cache_set_def Let_def)
  next
    case room
    then show ?thesis using c length_update_key [of name ?e ?m] by (simp add: cache_ok_def cache_set_def Let_def)
  next
    case full
    then obtain k v where o: "oldest ?m = Some (k, v)"
      by (cases "oldest ?m") (auto simp: CACHE_MAX_ENTRIES_def)
    then have "length (AList.delete k ?m) < length ?m"
      using oldest_in [OF o] c by (intro length_delete_key) (auto simp: cache_ok_def)
    then show ?thesis using c full o length_update_key [of name ?e "AList.delete k ?m"]
      by (simp add: cache_ok_def cache_set_def Let_def)
  qed
qed

lemma cache_set_entries:
  "cache_entries (cache_set name config now c) name = Some (config, now)"
  "j \<noteq> name \<Longrightarrow> cache_entries (cache_set name config now c) j = None \<or>
     cache_entries (cache_set name config now c) j = cache_entries c j"
  by (auto simp: cache_entries_def cache_set_def Let_def update_conv delete_conv split: option.splits)

interpretation config_cache: expiring_cache get_for_search cache_set cache_invalidate cache_entries cache_ok CACHE_TTL_SECS
proof
  fix c now k v
  assume "get_for_search c now k = Some v"
  then show "\<exists>t. cache_entries c k = Some (v, t) \<and> now < t + CACHE_TTL_SECS"
    by (auto simp: get_for_search_def cache_entries_def bind_eq_Some_conv CACHE_TTL_SECS_def split: if_splits)
next
  fix c k show "cache_entries (cache_invalidate k c) k = None"
    by (simp add: cache_entries_def cache_invalidate_def delete_conv)
next
  fix c and j k :: string assume "j \<noteq> k"
  then show "cache_entries (cache_invalidate k c) j = cache_entries c j"
    by (simp add: cache_entries_def cache_invalidate_def delete_conv)
next
  fix c k assume "cache_ok c"
  then show "cache_ok (cache_invalidate k c)"
    using length_delete_le [of k "cache_map c"] by (simp add: cache_ok_def cache_invalidate_def)
qed (auto simp: cache_set_ok cache_set_entries)

lemma cache_mode_run:
  "cache_cluster_mode (fold (apply_cache_op cache_set cache_invalidate) ops c) = cache_cluster_mode c"
proof (induction ops arbitrary: c)
  case (Cons x ops)
  then show ?case by (cases x) (simp_all add: cache_set_def cache_invalidate_def Let_def)
qed simp

text \<open>
  C6: a configuration served from the cache is fresh. After any history of stores and invalidations
  the cache holds at most 1000 entries, and what the search path gets for a collection was stored less
  than 60 seconds ago with no later store or invalidation of that collection; the write path never
  uses the cache in cluster mode, and otherwise gets the same.
\<close>

theorem cache_serves_fresh:
  assumes "get_for_search (fold (apply_cache_op cache_set cache_invalidate) ops (cache_new cluster)) now name = Some config"
  shows "(\<exists>before t after. ops = before @ Put name config t # after \<and> \<not> list_ex (touches name) after \<and> now < t + 60) \<and>
    length (cache_map (fold (apply_cache_op cache_set cache_invalidate) ops (cache_new cluster))) \<le> 1000 \<and>
    snd (get_collection_info_for_write info now name
      (fold (apply_cache_op cache_set cache_invalidate) ops (cache_new cluster))) =
      (if cluster then info else Inr config)"
proof -
  let ?c = "fold (apply_cache_op cache_set cache_invalidate) ops (cache_new cluster)"
  have new: "cache_ok (cache_new cluster)" "cache_entries (cache_new cluster) k = None" for k
    by (simp_all add: cache_ok_def cache_new_def cache_entries_def)
  have "\<exists>before t after. ops = before @ Put name config t # after \<and> \<not> list_ex (touches name) after \<and> now < t + 60"
    using config_cache.freshness [OF new assms] by (simp add: CACHE_TTL_SECS_def)
  moreover have "length (cache_map ?c) \<le> 1000"
    using config_cache.ok_run [OF new(1), of ops] by (simp add: cache_ok_def CACHE_MAX_ENTRIES_def)
  moreover have "cache_cluster_mode ?c = cluster" by (simp add: cache_mode_run cache_new_def)
  then have "cache_get ?c now name = (if cluster then None else Some config)" using assms by (cases cluster) (simp_all add: cache_get_def)
  then have "snd (get_collection_info_for_write info now name ?c) = (if cluster then info else Inr config)"
    by (cases info) (simp_all add: get_collection_info_for_write_def)
  ultimately show ?thesis by blast
qed

definition example_cached_config :: collection_config_internal where
  "example_cached_config = \<lparr>cci_version = 2, cci_collection_id = ''c'', cci_vectors = [], cci_store_content = True,
     cci_metadata_indexes = None\<rparr>"

theorem cache_serves_fresh_witness:
  "\<exists>before t after. [Put ''a'' example_cached_config 10] = before @ Put ''a'' example_cached_config t # after \<and>
     \<not> list_ex (touches ''a'') after \<and> (20::nat) < t + 60"
proof -
  have "get_for_search (fold (apply_cache_op cache_set cache_invalidate) [Put ''a'' example_cached_config 10] (cache_new False))
      20 ''a'' = Some example_cached_config"
    by (simp add: get_for_search_def cache_set_def cache_new_def CACHE_TTL_SECS_def CACHE_MAX_ENTRIES_def)
  then show ?thesis using cache_serves_fresh by blast
qed

end
