(* ===== verification/Tokenizer.thy ===== *)
theory Tokenizer
  imports F64 "HOL-Library.Word"
begin

text \<open>
  The tokenizers of \<open>src/src/amgix.rs\<close>, which turn a text into a sparse vector, and the text
  preprocessing of \<open>src/src/vectors/vector_base.rs\<close>. A string is its UTF-8 encoding. Weights are
  \<open>f32\<close> values computed in the order of the code. A \<open>None\<close> is a panic: the comparators of the sorts
  unwrap \<open>partial_cmp\<close>, which fails on a NaN.

  The record \<open>text_lib\<close> holds the libraries: Unicode tables, MurmurHash3, UAX #29 word boundaries, the
  NLTK stop words, the Snowball stemmers and \<open>log10\<close>; and the orders that are not specified, in
  which a hash map is iterated and an unstable sort meets equal elements.
\<close>

section \<open>Characters and words\<close>

function utf8_chars :: "string \<Rightarrow> string list" where
  "utf8_chars [] = []"
| "utf8_chars (c # cs) = (c # takeWhile is_continuation cs) # utf8_chars (dropWhile is_continuation cs)"
  by pat_completeness auto
termination utf8_chars
  by (relation "measure length") (auto simp: le_imp_less_Suc length_dropWhile_le)

declare utf8_chars.simps [simp del]

definition is_whitespace :: "string \<Rightarrow> bool" where
  "is_whitespace ch \<longleftrightarrow> ch \<in> set white_space"

fun split_chars :: "string list \<Rightarrow> string list" where
  "split_chars [] = [[]]"
| "split_chars (ch # chs) =
     (if is_whitespace ch then [] # split_chars chs
      else (case split_chars chs of [] \<Rightarrow> [ch] | w # ws \<Rightarrow> (ch @ w) # ws))"

definition split_whitespace :: "string \<Rightarrow> string list" where
  "split_whitespace text = filter (\<lambda>w. w \<noteq> []) (split_chars (utf8_chars text))"

fun collapse :: "bool \<Rightarrow> string list \<Rightarrow> string" where
  "collapse prev_space [] = []"
| "collapse prev_space (ch # chs) =
     (if is_whitespace ch then (if prev_space then [] else '' '') @ collapse True chs
      else ch @ collapse False chs)"

section \<open>Libraries\<close>

datatype nltk_language =
    English | Spanish | French | German | Italian | Portuguese | Dutch | Russian | Arabic | Turkish | Swedish
  | Danish | Norwegian | Finnish | Hungarian | Romanian | Greek

datatype stem_algorithm =
    SEnglish | SFrench | SGerman | SSpanish | SItalian | SPortuguese | SDutch | SSwedish | SNorwegian | SDanish
  | SRussian | STurkish | SHungarian | SArabic | SGreek | SRomanian | STamil

record text_lib =
  tl_lowercase :: "string \<Rightarrow> string"
  tl_alphanumeric :: "string \<Rightarrow> bool"
  tl_murmur3 :: "string \<Rightarrow> 32 word"
  tl_word_bounds :: "string \<Rightarrow> string list"
  tl_nltk :: "nltk_language \<Rightarrow> string list option"
  tl_stem :: "stem_algorithm \<Rightarrow> string \<Rightarrow> string"
  tl_log10 :: "fp \<Rightarrow> fp"
  tl_iter_counts :: "(string \<times> nat) list \<Rightarrow> (string \<times> nat) list"
  tl_iter_weights :: "(nat \<times> fp) list \<Rightarrow> (nat \<times> fp) list"
  tl_unstable :: "(nat \<times> fp) list \<Rightarrow> (nat \<times> fp) list"

definition preprocess_text :: "text_lib \<Rightarrow> string \<Rightarrow> string" where
  "preprocess_text lib text = collapse False (utf8_chars (trim (tl_lowercase lib text)))"

section \<open>Stop words\<close>

definition lang_code_to_nltk_language :: "text_lib \<Rightarrow> string \<Rightarrow> nltk_language option" where
  "lang_code_to_nltk_language lib lang_code =
     map_of [(''en'', English), (''es'', Spanish), (''fr'', French), (''de'', German), (''it'', Italian),
             (''pt'', Portuguese), (''nl'', Dutch), (''ru'', Russian), (''ar'', Arabic), (''tr'', Turkish),
             (''sv'', Swedish), (''da'', Danish), (''no'', Norwegian), (''fi'', Finnish), (''hu'', Hungarian),
             (''ro'', Romanian), (''el'', Greek)] (tl_lowercase lib lang_code)"

definition stopwords_of :: "text_lib \<Rightarrow> string \<Rightarrow> string set" where
  "stopwords_of lib lang_code =
     (case lang_code_to_nltk_language lib lang_code of
        Some language \<Rightarrow> (case tl_nltk lib language of Some ws \<Rightarrow> tl_lowercase lib ` set ws | None \<Rightarrow> {})
      | None \<Rightarrow> {})"

text \<open>The cache of stop word sets; the set of an unknown code is computed and kept.\<close>

definition get_stopwords_cached ::
    "text_lib \<Rightarrow> string \<Rightarrow> (string \<rightharpoonup> string set) \<Rightarrow> (string \<rightharpoonup> string set) \<times> string set" where
  "get_stopwords_cached lib lang_code cache =
     (case cache lang_code of
        Some ws \<Rightarrow> (cache, ws)
      | None \<Rightarrow> (cache(lang_code \<mapsto> stopwords_of lib lang_code), stopwords_of lib lang_code))"

definition stopwords_for :: "text_lib \<Rightarrow> bool \<Rightarrow> string \<Rightarrow> string set" where
  "stopwords_for lib use_stopwords lang_code = (if use_stopwords then stopwords_of lib lang_code else {})"

section \<open>Token ids\<close>

definition TOKEN_HASH_RANGE :: int where "TOKEN_HASH_RANGE = 2147483647"

definition hash_token :: "text_lib \<Rightarrow> string \<Rightarrow> nat" where
  "hash_token lib token = nat (sint (tl_murmur3 lib token) mod TOKEN_HASH_RANGE)"

definition hash_with_prefix :: "text_lib \<Rightarrow> nat \<Rightarrow> string \<Rightarrow> nat" where
  "hash_with_prefix lib kind token =
     hash_token lib ((if kind = 1 then ''#'' else if kind = 2 then ''##'' else if kind = 3 then ''###'' else []) @ token)"

section \<open>Weights\<close>

abbreviation f32 :: "rat \<Rightarrow> fp" where "f32 \<equiv> fp_of_rat binary32"
abbreviation f32_of_nat :: "nat \<Rightarrow> fp" where "f32_of_nat \<equiv> fp_of_nat binary32"

definition BM25_K1 :: fp where "BM25_K1 = f32 (12 / 10)"
definition BM25_B :: fp where "BM25_B = f32 (3 / 4)"
definition BM25_DELTA :: fp where "BM25_DELTA = f32 0"
definition WMTR_WEIGHT_WHITESPACE :: fp where "WMTR_WEIGHT_WHITESPACE = f32 4"
definition WMTR_WEIGHT_LANG :: fp where "WMTR_WEIGHT_LANG = f32 8"
definition WMTR_LEN_BOOST :: fp where "WMTR_LEN_BOOST = f32 (1 / 2)"

definition bm25_tf_saturation :: "fp \<Rightarrow> fp \<Rightarrow> fp" where
  "bm25_tf_saturation tf length_norm =
     fp_add binary32
       (fp_div binary32 (fp_mul binary32 tf (fp_add binary32 BM25_K1 (f32 1)))
                        (fp_add binary32 tf (fp_mul binary32 BM25_K1 length_norm)))
       BM25_DELTA"

definition length_norm_of :: "nat \<Rightarrow> fp \<Rightarrow> fp" where
  "length_norm_of doc_length avgdl =
     fp_add binary32 (fp_sub binary32 (f32 1) BM25_B)
       (fp_mul binary32 BM25_B (fp_div binary32 (f32_of_nat doc_length) avgdl))"

definition count_tokens :: "string list \<Rightarrow> (string, nat) hash_map" where
  "count_tokens tokens = fold (\<lambda>t. hm_upsert t 0 Suc) tokens []"

definition get_count_weights :: "text_lib \<Rightarrow> string list \<Rightarrow> fp \<Rightarrow> fp \<Rightarrow> (nat \<times> fp) list" where
  "get_count_weights lib tokens base_weight avgdl =
     map (\<lambda>(token, count). (hash_token lib token,
            fp_mul binary32 base_weight (bm25_tf_saturation (f32_of_nat count) (length_norm_of (length tokens) avgdl))))
       (tl_iter_counts lib (count_tokens tokens))"

definition calculate_length_boost :: "nat \<Rightarrow> nat \<Rightarrow> fp \<Rightarrow> fp" where
  "calculate_length_boost token_length text_length max_boost_scaled =
     (if token_length < 3 then f32 0
      else fp_mul binary32 (fp_div binary32 (f32_of_nat token_length) (f32_of_nat text_length)) max_boost_scaled)"

definition max_boost :: "text_lib \<Rightarrow> nat \<Rightarrow> fp" where
  "max_boost lib text_length =
     fp_mul binary32 WMTR_LEN_BOOST
       (fp_min (fp_div binary32 (f32 1) (fp_max (tl_log10 lib (f32_of_nat text_length)) (f32 1))) (f32 1))"

definition get_count_weights_prefixed_with_norm ::
    "text_lib \<Rightarrow> string list \<Rightarrow> fp \<Rightarrow> nat \<Rightarrow> nat \<Rightarrow> fp \<Rightarrow> (nat \<times> fp) list" where
  "get_count_weights_prefixed_with_norm lib tokens base_weight kind text_length length_norm =
     (let max_boost_scaled = (if kind = 1 \<or> kind = 2 then max_boost lib text_length else f32 0)
      in map (\<lambda>(token, count).
           let base_score = fp_mul binary32 base_weight (bm25_tf_saturation (f32_of_nat count) length_norm)
           in (hash_with_prefix lib kind token,
               if kind = 1 \<or> kind = 2
               then fp_add binary32 base_score (calculate_length_boost (length token) text_length max_boost_scaled)
               else base_score))
         (tl_iter_counts lib (count_tokens tokens)))"

section \<open>Selection\<close>

definition weight_cmp :: "nat \<times> fp \<Rightarrow> nat \<times> fp \<Rightarrow> ordering" where
  "weight_cmp a b = unwrap_or Equal (partial_cmp (snd b) (snd a))"

text \<open>A sort of two or more elements compares each of them at least once.\<close>

definition sort_weights :: "((nat \<times> fp) list \<Rightarrow> (nat \<times> fp) list) \<Rightarrow> (nat \<times> fp) list \<Rightarrow> (nat \<times> fp) list option" where
  "sort_weights order ws =
     (if 2 \<le> length ws \<and> list_ex (\<lambda>w. is_nan (snd w)) ws then None else Some (sort_by weight_cmp (order ws)))"

text \<open>
  \<open>select_nth_unstable_by\<close> returns the elements before position \<open>k - 1\<close>, that element, and the rest;
  the code keeps the first of the three.
\<close>

definition select_before :: "text_lib \<Rightarrow> nat \<Rightarrow> (nat \<times> fp) list \<Rightarrow> (nat \<times> fp) list option" where
  "select_before lib kth ws = map_option (take kth) (sort_weights (tl_unstable lib) ws)"

definition top_k :: "text_lib \<Rightarrow> (nat \<times> fp) list \<Rightarrow> nat \<Rightarrow> (nat list \<times> fp list) option" where
  "top_k lib token_weights k =
     (if k = 0 \<or> token_weights = [] then Some ([], [])
      else map_option (\<lambda>ws. (map fst (take k ws), map snd (take k ws)))
        (if length token_weights \<le> k then sort_weights (tl_unstable lib) token_weights
         else Option.bind (select_before lib (k - 1) token_weights) (sort_weights (tl_unstable lib))))"

definition dedup_sparse :: "text_lib \<Rightarrow> nat list \<Rightarrow> fp list \<Rightarrow> (nat list \<times> fp list) option" where
  "dedup_sparse lib indices values =
     (let token_map = fold (\<lambda>(idx, v). hm_upsert idx (f32 0) (\<lambda>w. fp_add binary32 w v)) (zip indices values) []
      in map_option (\<lambda>ws. (map fst ws, map snd ws)) (sort_weights (\<lambda>ws. ws) (tl_iter_weights lib token_map)))"

section \<open>Tokenizers\<close>

definition tokenize_whitespace ::
    "text_lib \<Rightarrow> string \<Rightarrow> string \<Rightarrow> nat \<Rightarrow> bool \<Rightarrow> fp \<Rightarrow> (nat list \<times> fp list) option" where
  "tokenize_whitespace lib text lang_code top_k_limit use_stopwords avgdl =
     (if trim text = [] then Some ([], [])
      else let tokens = filter (\<lambda>t. t \<notin> stopwords_for lib use_stopwords lang_code) (split_whitespace text)
           in Option.bind (top_k lib (get_count_weights lib tokens (f32 1) avgdl) top_k_limit)
                (\<lambda>(indices, values). dedup_sparse lib indices values))"

fun trigrams :: "string list \<Rightarrow> string list" where
  "trigrams (a # b # c # chs) = (a @ b @ c) # trigrams (b # c # chs)"
| "trigrams _ = []"

definition trigram_weights :: "text_lib \<Rightarrow> string list \<Rightarrow> fp \<Rightarrow> fp \<Rightarrow> (nat \<times> fp) list" where
  "trigram_weights lib chars weight length_norm =
     map (\<lambda>(token, count). (hash_with_prefix lib 3 token,
            fp_mul binary32 weight (bm25_tf_saturation (f32_of_nat count) length_norm)))
       (tl_iter_counts lib (count_tokens (trigrams chars)))"

definition tokenize_trigrams :: "text_lib \<Rightarrow> string \<Rightarrow> nat \<Rightarrow> fp \<Rightarrow> (nat list \<times> fp list) option" where
  "tokenize_trigrams lib text top_k_limit avgdl =
     (if trim text = [] then Some ([], [])
      else let chars = utf8_chars (''  '' @ text @ ''  '')
           in Option.bind (top_k lib (trigram_weights lib chars (f32 1) (length_norm_of (length chars - 2) avgdl)) top_k_limit)
                (\<lambda>(indices, values). dedup_sparse lib indices values))"

definition stem_algorithm_of :: "text_lib \<Rightarrow> string \<Rightarrow> stem_algorithm option" where
  "stem_algorithm_of lib lang_code =
     map_of [(''en'', SEnglish), (''fr'', SFrench), (''de'', SGerman), (''es'', SSpanish), (''it'', SItalian),
             (''pt'', SPortuguese), (''nl'', SDutch), (''sv'', SSwedish), (''no'', SNorwegian), (''da'', SDanish),
             (''ru'', SRussian), (''tr'', STurkish), (''hu'', SHungarian), (''ar'', SArabic), (''el'', SGreek),
             (''ro'', SRomanian), (''ta'', STamil)] (tl_lowercase lib lang_code)"

definition tokenize_with_stemming :: "text_lib \<Rightarrow> string \<Rightarrow> string \<Rightarrow> string set \<Rightarrow> string list" where
  "tokenize_with_stemming lib text lang_code stopwords =
     (let tokens = filter (\<lambda>w. w \<noteq> [] \<and> list_ex (tl_alphanumeric lib) (utf8_chars w) \<and> w \<notin> stopwords)
                     (tl_word_bounds lib text)
      in case stem_algorithm_of lib lang_code of
           Some algorithm \<Rightarrow> map (tl_stem lib algorithm) tokens
         | None \<Rightarrow> tokens)"

definition tokenize_fulltext ::
    "text_lib \<Rightarrow> string \<Rightarrow> string \<Rightarrow> nat \<Rightarrow> bool \<Rightarrow> fp \<Rightarrow> (nat list \<times> fp list) option" where
  "tokenize_fulltext lib text lang_code top_k_limit use_stopwords avgdl =
     (if trim text = [] then Some ([], [])
      else let tokens = tokenize_with_stemming lib text lang_code (stopwords_for lib use_stopwords lang_code)
           in Option.bind (top_k lib (get_count_weights lib tokens (f32 1) avgdl) top_k_limit)
                (\<lambda>(indices, values). dedup_sparse lib indices values))"

fun join_words :: "string \<Rightarrow> string list \<Rightarrow> string" where
  "join_words sep [] = []"
| "join_words sep [w] = w"
| "join_words sep (w # ws) = w @ sep @ join_words sep ws"

definition word_slots :: "nat \<Rightarrow> nat \<Rightarrow> nat" where
  "word_slots top_k_limit percentage =
     nat (fp_as_int 0 (2 ^ 64 - 1)
       (fp_mul binary32 (f32_of_nat top_k_limit) (fp_div binary32 (f32_of_nat percentage) (f32 100))))"

definition tokenize_wmtr ::
    "text_lib \<Rightarrow> string \<Rightarrow> string \<Rightarrow> nat \<Rightarrow> nat \<Rightarrow> bool \<Rightarrow> fp \<Rightarrow> fp \<Rightarrow> (nat list \<times> fp list) option" where
  "tokenize_wmtr lib text lang_code top_k_limit word_weight_percentage use_stopwords avgdl trigram_weight =
     (if trim text = [] then Some ([], [])
      else
        let stopwords = stopwords_for lib use_stopwords lang_code;
            words = filter (\<lambda>t. t \<notin> stopwords) (split_whitespace text);
            lang_tokens = tokenize_with_stemming lib text lang_code stopwords;
            whitespace_tokens = filter (\<lambda>t. t \<notin> set lang_tokens) words;
            chars = utf8_chars ('' '' @ join_words '' '' words @ '' '');
            text_length = chars_count text;
            length_norm = length_norm_of (length lang_tokens) avgdl;
            ws_weights = get_count_weights_prefixed_with_norm lib whitespace_tokens WMTR_WEIGHT_WHITESPACE 1 text_length length_norm;
            lang_weights = get_count_weights_prefixed_with_norm lib lang_tokens WMTR_WEIGHT_LANG 2 text_length length_norm;
            word_k = word_slots top_k_limit word_weight_percentage
        in Option.bind (top_k lib (ws_weights @ lang_weights) word_k) (\<lambda>(word_indices, word_values).
           Option.bind (top_k lib (trigram_weights lib chars trigram_weight length_norm) (top_k_limit - word_k))
             (\<lambda>(trigram_indices, trigram_values).
               dedup_sparse lib (word_indices @ trigram_indices) (word_values @ trigram_values))))"

section \<open>The selection keeps the heaviest tokens\<close>

text \<open>
  The documented behaviour of the libraries: iteration and sorting permute, the pieces between word
  boundaries make up the text, a stem is a Rust string, of fewer than
  \<open>2\<^sup>6\<^sup>3\<close> bytes, and the logarithm is an \<open>f32\<close>.
\<close>

definition text_lib_ok :: "text_lib \<Rightarrow> bool" where
  "text_lib_ok lib \<longleftrightarrow>
     iter_order (tl_iter_counts lib) \<and> iter_order (tl_iter_weights lib) \<and> iter_order (tl_unstable lib) \<and>
     (\<forall>text. concat (tl_word_bounds lib text) = text) \<and> (\<forall>a w. length (tl_stem lib a w) < 2 ^ 63) \<and>
     (\<forall>x. fp_ok binary32 (tl_log10 lib x))"

definition no_nan :: "(nat \<times> fp) list \<Rightarrow> bool" where
  "no_nan ws \<longleftrightarrow> (\<forall>w\<in>set ws. \<not> is_nan (snd w))"

abbreviation heavier :: "nat \<times> fp \<Rightarrow> nat \<times> fp \<Rightarrow> bool" where
  "heavier a b \<equiv> fp_le (snd b) (snd a)"

lemma weight_cmp_iff: "\<not> is_nan (snd a) \<Longrightarrow> \<not> is_nan (snd b) \<Longrightarrow> weight_cmp a b \<noteq> Greater \<longleftrightarrow> heavier a b"
  by (auto simp: weight_cmp_def partial_cmp_def fp_le_def fp_lt_rank unwrap_or_def)

interpretation by_weight: cmp_order weight_cmp "{w. \<not> is_nan (snd w)}"
proof
  show "weight_cmp y x = ord_reverse (weight_cmp x y)"
    if "x \<in> {w. \<not> is_nan (snd w)}" "y \<in> {w. \<not> is_nan (snd w)}" for x y
    using that by (auto simp: weight_cmp_def partial_cmp_def fp_lt_rank unwrap_or_def)
  show "weight_cmp x z \<noteq> Greater"
    if "x \<in> {w. \<not> is_nan (snd w)}" "y \<in> {w. \<not> is_nan (snd w)}" "z \<in> {w. \<not> is_nan (snd w)}"
      "weight_cmp x y \<noteq> Greater" "weight_cmp y z \<noteq> Greater" for x y z
    using that fp_le_trans by (simp add: weight_cmp_iff)
qed

lemma sorted_weights:
  "no_nan ws \<Longrightarrow> sorted_wrt (\<lambda>a b. heavier a b) (sort_by weight_cmp ws)"
  using by_weight.sort_by_sorted [of ws]
  by (rule sorted_wrt_mono_rel [rotated]) (auto simp: no_nan_def weight_cmp_iff)

lemma sort_weights_eq:
  assumes "iter_order order" "no_nan ws"
  shows "\<exists>s. sort_weights order ws = Some s \<and> mset s = mset ws \<and> sorted_wrt (\<lambda>a b. heavier a b) s"
proof -
  have "set (order ws) = set ws" by (metis assms(1) iter_orderD set_mset_mset)
  then have "sorted_wrt (\<lambda>a b. heavier a b) (sort_by weight_cmp (order ws))"
    using assms(2) by (intro sorted_weights) (simp add: no_nan_def)
  moreover have "mset (sort_by weight_cmp (order ws)) = mset ws" using assms(1) by (simp add: iter_orderD)
  moreover have "\<not> list_ex (\<lambda>w. is_nan (snd w)) ws" using assms(2) by (auto simp: no_nan_def list_ex_iff)
  ultimately show ?thesis by (simp add: sort_weights_def)
qed

lemma top_k_kept:
  assumes "text_lib_ok lib" "no_nan ws" "0 < k"
  shows "\<exists>kept rest. top_k lib ws k = Some (map fst kept, map snd kept) \<and> mset (kept @ rest) = mset ws \<and>
    sorted_wrt (\<lambda>a b. heavier a b) kept \<and> (\<forall>a\<in>set kept. \<forall>b\<in>set rest. heavier a b) \<and>
    length kept = (if length ws \<le> k then length ws else k - 1)"
proof -
  have order: "iter_order (tl_unstable lib)" using assms(1) by (simp add: text_lib_ok_def)
  obtain s where s: "sort_weights (tl_unstable lib) ws = Some s" "mset s = mset ws" "sorted_wrt (\<lambda>a b. heavier a b) s"
    using sort_weights_eq [OF order assms(2)] by blast
  have len: "length s = length ws" by (metis s(2) size_mset)
  show ?thesis
  proof (cases "length ws \<le> k")
    case True
    then have "top_k lib ws k = Some (map fst s, map snd s)"
      using assms(3) s(1) len s(2) by (auto simp: top_k_def)
    then show ?thesis using True s len by (intro exI [of _ s] exI [of _ "[]"]) simp
  next
    case False
    let ?l = "take (k - 1) s" and ?r = "drop (k - 1) s"
    have "set ?l \<subseteq> set ws" by (metis s(2) set_mset_mset set_take_subset)
    then have "no_nan ?l" using assms(2) unfolding no_nan_def by blast
    then obtain t where t: "sort_weights (tl_unstable lib) ?l = Some t" "mset t = mset ?l" "sorted_wrt (\<lambda>a b. heavier a b) t"
      using sort_weights_eq [OF order] by blast
    have "length t = length ?l" by (metis t(2) size_mset)
    then have lt: "length t = k - 1" using False len by simp
    have "ws \<noteq> []" using False by auto
    then have "top_k lib ws k = Some (map fst t, map snd t)"
      using False assms(3) s(1) t(1) lt by (simp add: top_k_def select_before_def)
    moreover have "mset (t @ ?r) = mset ws" using t(2) s(2) by (metis append_take_drop_id mset_append)
    moreover have "\<forall>a\<in>set ?l. \<forall>b\<in>set ?r. heavier a b"
      using s(3) by (metis append_take_drop_id sorted_wrt_append)
    moreover have "set t = set ?l" by (metis set_mset_mset t(2))
    ultimately show ?thesis using t(3) lt False by (intro exI [of _ t] exI [of _ ?r]) simp
  qed
qed

section \<open>Numbers that are not negative\<close>

fun fnn :: "fp \<Rightarrow> bool" where
  "fnn NaN = False"
| "fnn (Infinity s) = (\<not> s)"
| "fnn (Finite s m) = (\<not> s \<and> 0 \<le> m)"

lemma fnn_not_nan: "fnn x \<Longrightarrow> \<not> is_nan x"
  by (cases x) auto

lemma fnn_round: "0 \<le> r \<Longrightarrow> fnn (fp_round F False r)"
  using rnd_nonneg [of r F] by (auto simp: fp_round_def)

lemma fnn_of_nat [simp]: "fnn (fp_of_nat F n)" "0 \<le> r \<Longrightarrow> fnn (fp_of_rat F r)"
  by (simp_all add: fp_of_nat_def fp_of_rat_def fnn_round)

lemma fnn_add: "fnn x \<Longrightarrow> fnn y \<Longrightarrow> fnn (fp_add F x y)"
  by (cases x; cases y) (auto simp: fnn_round)

lemma fnn_mul: "0 < c \<Longrightarrow> fnn x \<Longrightarrow> fnn (fp_mul F (Finite False c) x)"
  by (cases x) (auto simp: fnn_round)

lemma fnn_mul_finite: "0 \<le> m \<Longrightarrow> 0 \<le> c \<Longrightarrow> fnn (fp_mul F (Finite False c) (Finite False m))"
  by (auto simp: fnn_round)

text \<open>A positive divisor: not zero, perhaps infinite.\<close>

definition fpos :: "fp \<Rightarrow> bool" where
  "fpos x \<longleftrightarrow> fnn x \<and> x \<noteq> Finite False 0"

lemma fnn_div: "0 \<le> m \<Longrightarrow> fpos y \<Longrightarrow> fnn (fp_div F (Finite False m) y)"
  by (cases y) (auto simp: fpos_def fnn_round)

lemma fpos_ge_one: "fnn x \<Longrightarrow> fp_le (Finite False 1) x \<Longrightarrow> fpos x"
  by (cases x) (auto simp: fpos_def)

text \<open>A count is exact or rounded, but never zero or infinite.\<close>

lemma binary32_simps [simp]: "prec binary32 = 24" "emin binary32 = -149" "emax binary32 = 128"
  by (simp_all add: binary32_def)

lemma f32_small: "n < 2 ^ 24 \<Longrightarrow> fp_of_nat binary32 n = Finite False (of_nat n)"
proof -
  assume n: "n < 2 ^ 24"
  have "representable binary32 (of_nat n)"
    unfolding representable_def using n by (intro exI [of _ n] exI [of _ 0]) simp
  moreover have "(of_nat n :: rat) < 2 ^ 24" using n by (metis of_nat_less_iff of_nat_numeral of_nat_power)
  then have "(of_nat n :: rat) < 2 powi 128" by (simp add: power_int_def)
  ultimately show ?thesis by (simp add: fp_of_nat_def fp_of_rat_def fp_round_exact)
qed

lemma fp_round_le_power:
  assumes "0 \<le> r" "r \<le> 2 ^ e" "e \<le> 100"
  shows "\<exists>m. fp_round binary32 False r = Finite False m \<and> 0 \<le> m \<and> m \<le> 2 ^ e"
proof -
  have "representable binary32 (2 ^ e)"
    unfolding representable_def by (intro exI [of _ 1] exI [of _ "int e"]) simp
  moreover have "(2 :: rat) ^ e \<le> 2 ^ 100" using assms(3) by (intro power_increasing) auto
  then have "(2 :: rat) ^ e < 2 powi 128" by (simp add: power_int_def)
  ultimately have "fp_round binary32 False (2 ^ e) = Finite False (2 ^ e)" by (simp add: fp_round_exact)
  then have "fp_le (fp_round binary32 False r) (Finite False (2 ^ e))"
    using fp_round_mono [of binary32 r "2 ^ e" False False] assms(2) by simp
  then show ?thesis using fnn_round [OF assms(1), of binary32] by (cases "fp_round binary32 False r") auto
qed

lemma f32_count:
  assumes "n < 2 ^ 64"
  obtains m where "fp_of_nat binary32 n = Finite False m" "0 \<le> m" "m \<le> 2 ^ 64" "1 \<le> n \<Longrightarrow> 1 \<le> m"
proof -
  have "(of_nat n :: rat) \<le> 2 ^ 64" using assms by (metis less_imp_le of_nat_le_iff of_nat_numeral of_nat_power)
  then obtain m where m: "fp_of_nat binary32 n = Finite False m" "0 \<le> m" "m \<le> 2 ^ 64"
    using fp_round_le_power [of "of_nat n" 64] by (auto simp: fp_of_nat_def fp_of_rat_def)
  have "1 \<le> m" if "1 \<le> n"
  proof -
    have "fp_le (fp_round binary32 False 1) (fp_of_nat binary32 n)"
      unfolding fp_of_nat_def fp_of_rat_def using that by (intro fp_round_mono) simp_all
    moreover have "fp_round binary32 False 1 = Finite False 1"
      using f32_small [of 1] by (simp add: fp_of_nat_def fp_of_rat_def)
    ultimately show ?thesis by (simp add: m(1))
  qed
  with m that show ?thesis by blast
qed

section \<open>Weights are never NaN\<close>

lemma BM25_K1_range: "\<exists>k. BM25_K1 = Finite False k \<and> 0 < k \<and> k \<le> 2"
proof -
  obtain k where k: "BM25_K1 = Finite False k" "0 \<le> k" "k \<le> 2"
    using fp_round_le_power [of "12 / 10" 1] by (auto simp: BM25_K1_def fp_of_rat_def)
  have "fp_le (fp_round binary32 False 1) (fp_round binary32 False (12 / 10))"
    by (intro fp_round_mono) simp_all
  then have "1 \<le> k" using k(1) f32_small [of 1] by (simp add: BM25_K1_def fp_of_rat_def fp_of_nat_def)
  then show ?thesis using k by auto
qed

lemma f32_consts: "f32 0 = Finite False 0" "f32 1 = Finite False 1" "f32 4 = Finite False 4" "f32 8 = Finite False 8" "f32 100 = Finite False 100"
  using f32_small [of 0] f32_small [of 1] f32_small [of 4] f32_small [of 8] f32_small [of 100] by (simp_all add: fp_of_nat_def)

lemma f32_fractions: "f32 (3 / 4) = Finite False (3 / 4)" "f32 (1 / 2) = Finite False (1 / 2)" "f32 (1 / 4) = Finite False (1 / 4)"
proof -
  have "representable binary32 (of_nat n * 2 powi - 2)" if "n < 2 ^ 24" for n
    unfolding representable_def using that by (intro exI [of _ n] exI [of _ "-2"]) simp
  from this [of 3] this [of 2] this [of 1]
  have "representable binary32 (3 / 4)" "representable binary32 (1 / 2)" "representable binary32 (1 / 4)"
    by (simp_all add: power_int_def power2_eq_square)
  then show "f32 (3 / 4) = Finite False (3 / 4)" "f32 (1 / 2) = Finite False (1 / 2)" "f32 (1 / 4) = Finite False (1 / 4)"
    by (simp_all add: fp_of_rat_def fp_round_exact power_int_def)
qed

lemma bm25_finite:
  assumes "1 \<le> c" "c < 2 ^ 64" "fnn length_norm"
  shows "\<exists>m. bm25_tf_saturation (f32_of_nat c) length_norm = Finite False m \<and> 0 \<le> m"
proof -
  obtain t where t: "f32_of_nat c = Finite False t" "0 \<le> t" "t \<le> 2 ^ 64" "1 \<le> t"
    using f32_count [OF assms(2)] assms(1) by metis
  obtain k where k: "BM25_K1 = Finite False k" "0 < k" "k \<le> 2" using BM25_K1_range by blast
  have "\<exists>j. fp_add binary32 BM25_K1 (f32 1) = Finite False j \<and> 0 \<le> j \<and> j \<le> 4"
    unfolding k(1) f32_consts using fp_round_le_power [of "k + 1" 2] k(2,3) by auto
  then obtain j where j: "fp_add binary32 BM25_K1 (f32 1) = Finite False j" "0 \<le> j" "j \<le> 4" by blast
  have "t * j \<le> 2 ^ 64 * 2 ^ 2" using t j by (intro mult_mono) simp_all
  then have "t * j \<le> 2 ^ 66" by simp
  then obtain n where n: "fp_mul binary32 (f32_of_nat c) (fp_add binary32 BM25_K1 (f32 1)) = Finite False n"
      "0 \<le> n" "n \<le> 2 ^ 66"
    using fp_round_le_power [of "t * j" 66] t j by auto
  let ?den = "fp_add binary32 (f32_of_nat c) (fp_mul binary32 BM25_K1 length_norm)"
  have y: "fnn (fp_mul binary32 BM25_K1 length_norm)" unfolding k(1) by (rule fnn_mul [OF k(2) assms(3)])
  have den: "fnn ?den" using y by (intro fnn_add) simp_all
  have "fp_le (f32_of_nat c) ?den"
  proof (rule fp_add_increasing)
    show "fp_le (Finite False 0) (fp_mul binary32 BM25_K1 length_norm)"
      using y by (cases "fp_mul binary32 BM25_K1 length_norm") auto
    show "\<not> is_nan ?den" by (rule fnn_not_nan [OF den])
  qed (simp_all add: fp_of_nat_def fp_of_rat_def)
  moreover have "fp_le (Finite False 1) (f32_of_nat c)" using t(1,4) by simp
  ultimately have ge: "fp_le (Finite False 1) ?den" by (rule fp_le_trans [rotated])
  have q: "\<exists>m. fp_div binary32 (Finite False n) ?den = Finite False m \<and> 0 \<le> m \<and> m \<le> 2 ^ 66"
  proof (cases ?den)
    case (Finite s d)
    then have d: "\<not> s" "1 \<le> d" using ge den by auto
    then have "n / d \<le> n / 1" using n(2) by (intro divide_left_mono) simp_all
    then have "n / d \<le> 2 ^ 66" using n(3) by simp
    then show ?thesis using fp_round_le_power [of "n / d" 66] d n(2) unfolding Finite by auto
  qed (use den in auto)
  then obtain m where m: "fp_div binary32 (Finite False n) ?den = Finite False m" "0 \<le> m" "m \<le> 2 ^ 66" by blast
  show ?thesis unfolding bm25_tf_saturation_def n(1) m(1) unfolding BM25_DELTA_def f32_consts
    using fp_round_le_power [of m 66] m(2,3) by auto
qed

lemma length_norm_nonneg:
  assumes "n < 2 ^ 64" "fpos avgdl"
  shows "fnn (length_norm_of n avgdl)"
proof -
  obtain m where m: "f32_of_nat n = Finite False m" "0 \<le> m" using f32_count [OF assms(1)] by metis
  have "fp_sub binary32 (f32 1) BM25_B = Finite False (1 / 4)"
    unfolding BM25_B_def f32_fractions f32_consts fp_sub_cases using f32_fractions(3) by (simp add: fp_of_rat_def)
  moreover have "fnn (fp_mul binary32 BM25_B (fp_div binary32 (f32_of_nat n) avgdl))"
    unfolding BM25_B_def f32_fractions m(1) by (rule fnn_mul) (simp_all add: fnn_div [OF m(2) assms(2)])
  ultimately show ?thesis by (simp add: length_norm_of_def fnn_add)
qed

lemma scaled_saturation_nonneg:
  "1 \<le> c \<Longrightarrow> c < 2 ^ 64 \<Longrightarrow> fnn length_norm \<Longrightarrow> 0 \<le> b \<Longrightarrow>
   fnn (fp_mul binary32 (Finite False b) (bm25_tf_saturation (f32_of_nat c) length_norm))"
  using bm25_finite [of c length_norm] by (auto simp: fnn_round)

lemma hash_token_range: "int (hash_token lib t) < TOKEN_HASH_RANGE" "int (hash_with_prefix lib kind t) < TOKEN_HASH_RANGE"
  by (simp_all add: hash_with_prefix_def hash_token_def TOKEN_HASH_RANGE_def)

lemma map_of_count_tokens:
  "hm_ok (count_tokens ts) \<and> map_of (count_tokens ts) t = (if t \<in> set ts then Some (count_list ts t) else None)"
  unfolding count_tokens_def
  by (induction ts rule: rev_induct) (auto simp: hm_upsert_get unwrap_or_def count_notin)

lemma count_tokens_range: "(t, c) \<in> set (count_tokens ts) \<Longrightarrow> t \<in> set ts \<and> 1 \<le> c \<and> c \<le> length ts"
  using map_of_count_tokens [of ts t] count_le_length [of ts t] count_list_0_iff [of ts t]
  by (auto simp: hm_ok_def Suc_le_eq split: if_splits dest: map_of_is_SomeI)

definition good_weights :: "(nat \<times> fp) list \<Rightarrow> bool" where
  "good_weights ws \<longleftrightarrow> (\<forall>(i, w)\<in>set ws. int i < TOKEN_HASH_RANGE \<and> fnn w)"

lemma good_weights_no_nan: "good_weights ws \<Longrightarrow> no_nan ws"
  unfolding good_weights_def no_nan_def using fnn_not_nan by fastforce

lemma good_count_weights:
  assumes "text_lib_ok lib" "length tokens < 2 ^ 64" "fpos avgdl"
  shows "good_weights (get_count_weights lib tokens (f32 1) avgdl)"
proof -
  have "fnn (fp_mul binary32 (f32 1) (bm25_tf_saturation (f32_of_nat c) (length_norm_of (length tokens) avgdl)))"
    if "(t, c) \<in> set (count_tokens tokens)" for t c
    unfolding f32_consts
    using count_tokens_range [OF that] assms by (intro scaled_saturation_nonneg length_norm_nonneg) auto
  then show ?thesis
    using assms(1) by (auto simp: good_weights_def get_count_weights_def hash_token_range text_lib_ok_def iter_order_set)
qed

lemma good_trigram_weights:
  assumes "text_lib_ok lib" "length (trigrams chars) < 2 ^ 64" "fnn length_norm" "0 \<le> b"
  shows "good_weights (trigram_weights lib chars (Finite False b) length_norm)"
proof -
  have "fnn (fp_mul binary32 (Finite False b) (bm25_tf_saturation (f32_of_nat c) length_norm))"
    if "(t, c) \<in> set (count_tokens (trigrams chars))" for t c
    using count_tokens_range [OF that] assms by (intro scaled_saturation_nonneg) auto
  then show ?thesis
    using assms(1) by (auto simp: good_weights_def trigram_weights_def hash_token_range text_lib_ok_def iter_order_set)
qed

lemma max_boost_range: "text_lib_ok lib \<Longrightarrow> \<exists>m. max_boost lib n = Finite False m \<and> 0 \<le> m"
proof -
  assume lib: "text_lib_ok lib"
  let ?x = "fp_max (tl_log10 lib (f32_of_nat n)) (Finite False 1)"
  have ge: "fp_le (Finite False 1) ?x" 
    using fp_le_total [of "Finite False 1" "tl_log10 lib (f32_of_nat n)"] by (auto simp: fp_max_def fp_le_def)
  have "fp_ok binary32 (Finite False 1)" using fp_round_ok [of binary32 False 1] f32_consts(2) unfolding fp_of_rat_def by simp
  then have "fp_ok binary32 ?x" using lib by (simp add: fp_max_def text_lib_ok_def)
  then have pos: "fpos ?x" using ge by (cases ?x) (auto simp: fpos_def split: if_splits)
  have q: "fnn (fp_div binary32 (Finite False 1) ?x)" by (rule fnn_div [OF _ pos]) simp
  then have "\<exists>m. fp_min (fp_div binary32 (Finite False 1) ?x) (Finite False 1) = Finite False m \<and> 0 \<le> m \<and> m \<le> 1"
    by (cases "fp_div binary32 (Finite False 1) ?x") (auto simp: fp_min_def)
  then obtain m where m: "fp_min (fp_div binary32 (Finite False 1) ?x) (Finite False 1) = Finite False m" "0 \<le> m" "m \<le> 1"
    by blast
  show ?thesis unfolding max_boost_def WMTR_LEN_BOOST_def f32_fractions f32_consts m(1)
    using fp_round_le_power [of "1 / 2 * m" 0] m(2,3) by auto
qed

lemma length_boost_nonneg:
  assumes "n < 2 ^ 64" "1 \<le> t" "t < 2 ^ 64" "0 \<le> m"
  shows "fnn (calculate_length_boost n t (Finite False m))"
proof -
  obtain a where a: "f32_of_nat n = Finite False a" "0 \<le> a" "a \<le> 2 ^ 64" using f32_count [OF assms(1)] by metis
  obtain b where b: "f32_of_nat t = Finite False b" "1 \<le> b" using f32_count [OF assms(3)] assms(2) by metis
  have "a / b \<le> a / 1" using a b by (intro divide_left_mono) simp_all
  then have "\<exists>q. fp_div binary32 (Finite False a) (Finite False b) = Finite False q \<and> 0 \<le> q"
    using fp_round_le_power [of "a / b" 64] a b by auto
  then obtain q where q: "fp_div binary32 (Finite False a) (Finite False b) = Finite False q" "0 \<le> q" by blast
  have "fnn (fp_mul binary32 (Finite False q) (Finite False m))" by (rule fnn_mul_finite [OF assms(4) q(2)])
  then show ?thesis unfolding calculate_length_boost_def a(1) b(1) q(1) by (simp add: f32_consts)
qed

lemma good_prefixed_weights:
  assumes "text_lib_ok lib" "length tokens < 2 ^ 64" "\<forall>t\<in>set tokens. length t < 2 ^ 64"
    "1 \<le> text_length" "text_length < 2 ^ 64" "fnn length_norm" "0 \<le> b" "kind = 1 \<or> kind = 2"
  shows "good_weights (get_count_weights_prefixed_with_norm lib tokens (Finite False b) kind text_length length_norm)"
proof -
  obtain m where m: "max_boost lib text_length = Finite False m" "0 \<le> m" using max_boost_range [OF assms(1)] by blast
  have "fnn (fp_add binary32 (fp_mul binary32 (Finite False b) (bm25_tf_saturation (f32_of_nat c) length_norm))
      (calculate_length_boost (length t) text_length (Finite False m)))"
    if "(t, c) \<in> set (count_tokens tokens)" for t c
    using count_tokens_range [OF that] assms m(2) by (intro fnn_add scaled_saturation_nonneg length_boost_nonneg) auto
  then show ?thesis unfolding get_count_weights_prefixed_with_norm_def Let_def m(1)
    using assms(1,8) by (auto simp: good_weights_def hash_token_range text_lib_ok_def iter_order_set m(1))
qed

section \<open>Every tokenizer returns a sparse vector\<close>

definition sparse_ok :: "nat \<Rightarrow> nat list \<times> fp list \<Rightarrow> bool" where
  "sparse_ok n v \<longleftrightarrow>
     length (fst v) = length (snd v) \<and> length (fst v) \<le> n \<and> distinct (fst v) \<and>
     (\<forall>i\<in>set (fst v). int i < TOKEN_HASH_RANGE) \<and> (\<forall>w\<in>set (snd v). fnn w) \<and> sorted_wrt (\<lambda>a b. fp_le b a) (snd v)"

lemma top_k_good:
  assumes "text_lib_ok lib" "good_weights ws"
  obtains kept where "top_k lib ws k = Some (map fst kept, map snd kept)" "good_weights kept" "length kept \<le> k"
proof (cases "k = 0")
  case True
  then show ?thesis using that [of "[]"] by (simp add: top_k_def good_weights_def)
next
  case False
  then obtain kept rest where k: "top_k lib ws k = Some (map fst kept, map snd kept)" "mset (kept @ rest) = mset ws"
      "length kept = (if length ws \<le> k then length ws else k - 1)"
    using top_k_kept [OF assms(1) good_weights_no_nan [OF assms(2)], of k] by blast
  have "set kept \<subseteq> set ws" using k(2) by (metis le_sup_iff order_refl set_append set_mset_mset)
  then have "good_weights kept" using assms(2) unfolding good_weights_def by blast
  then show ?thesis using that k by (auto split: if_splits)
qed

abbreviation add_weight :: "nat \<times> fp \<Rightarrow> (nat, fp) hash_map \<Rightarrow> (nat, fp) hash_map" where
  "add_weight \<equiv> \<lambda>(idx, v). hm_upsert idx (f32 0) (\<lambda>w. fp_add binary32 w v)"

lemma hm_upsert_set: "set (hm_upsert k d f m) \<subseteq> insert (k, f (unwrap_or d (map_of m k))) (set m)"
  unfolding hm_upsert_def by (rule set_alist_update)

lemma good_weights_upsert:
  assumes "good_weights m" "int i < TOKEN_HASH_RANGE" "fnn v"
  shows "good_weights (hm_upsert i (f32 0) (\<lambda>w. fp_add binary32 w v) m)"
proof -
  have "fnn (unwrap_or (f32 0) (map_of m i))"
    using assms(1) by (auto simp: good_weights_def unwrap_or_def f32_consts split: option.splits dest!: map_of_SomeD)
  then have "fnn (fp_add binary32 (unwrap_or (f32 0) (map_of m i)) v)" using assms(3) by (rule fnn_add)
  then show ?thesis using hm_upsert_set [of i "f32 0" "\<lambda>w. fp_add binary32 w v" m] assms(1,2)
    unfolding good_weights_def by blast
qed

lemma length_update_le: "length (AList.update k v m) \<le> Suc (length m)"
  by (induction m) auto

lemma dedup_map:
  "good_weights m \<Longrightarrow> hm_ok m \<Longrightarrow> good_weights ws \<Longrightarrow>
   good_weights (fold add_weight ws m) \<and> hm_ok (fold add_weight ws m) \<and> length (fold add_weight ws m) \<le> length m + length ws"
proof (induction ws arbitrary: m)
  case (Cons w ws)
  obtain i v where w: "w = (i, v)" by fastforce
  let ?m = "hm_upsert i (f32 0) (\<lambda>w. fp_add binary32 w v) m"
  have "good_weights ?m" using Cons.prems by (intro good_weights_upsert) (auto simp: w good_weights_def)
  moreover have "length ?m \<le> Suc (length m)" by (simp add: hm_upsert_def length_update_le)
  moreover have "good_weights ws" using Cons.prems(3) by (simp add: good_weights_def)
  ultimately show ?case using Cons.IH [of ?m] Cons.prems(2) by (auto simp: w)
qed simp

lemma dedup_sparse_ok:
  assumes "text_lib_ok lib" "good_weights ws"
  shows "\<exists>v. dedup_sparse lib (map fst ws) (map snd ws) = Some v \<and> sparse_ok (length ws) v"
proof -
  let ?m = "fold add_weight ws []"
  have m: "good_weights ?m" "hm_ok ?m" "length ?m \<le> length ws"
    using dedup_map [of "[]" ws] assms(2) by (simp_all add: good_weights_def)
  let ?i = "tl_iter_weights lib ?m"
  have perm: "mset ?i = mset ?m" using assms(1) by (simp add: text_lib_ok_def iter_orderD)
  then have "set ?i = set ?m" by (rule mset_eq_setD)
  then have i: "good_weights ?i" using m(1) by (simp add: good_weights_def)
  obtain s where s: "sort_weights (\<lambda>ws. ws) ?i = Some s" "mset s = mset ?i" "sorted_wrt (\<lambda>a b. heavier a b) s"
    using sort_weights_eq [of "\<lambda>ws. ws" ?i] good_weights_no_nan [OF i] by auto
  have "set s = set ?m" using s(2) perm by (metis set_mset_mset)
  then have "good_weights s" using m(1) by (simp add: good_weights_def)
  moreover have "distinct (map fst s)"
    using m(2) s(2) perm unfolding hm_ok_def by (metis mset_eq_imp_distinct_iff mset_map)
  moreover have "length s \<le> length ws" using m(3) s(2) perm by (metis size_mset)
  ultimately have "sparse_ok (length ws) (map fst s, map snd s)"
    using s(3) by (auto simp: sparse_ok_def good_weights_def sorted_wrt_map)
  moreover have "dedup_sparse lib (map fst ws) (map snd ws) = Some (map fst s, map snd s)"
    using s(1) by (simp add: dedup_sparse_def Let_def zip_map_fst_snd)
  ultimately show ?thesis by blast
qed

lemma sparse_ok_mono: "sparse_ok n v \<Longrightarrow> n \<le> k \<Longrightarrow> sparse_ok k v"
  by (auto simp: sparse_ok_def)

lemma select_and_dedup:
  assumes "text_lib_ok lib" "good_weights ws"
  shows "\<exists>v. Option.bind (top_k lib ws k) (\<lambda>(indices, values). dedup_sparse lib indices values) = Some v \<and> sparse_ok k v"
proof -
  obtain kept where k: "top_k lib ws k = Some (map fst kept, map snd kept)" "good_weights kept" "length kept \<le> k"
    using top_k_good [OF assms] by metis
  then show ?thesis using dedup_sparse_ok [OF assms(1) k(2)] sparse_ok_mono by fastforce
qed

lemma concat_utf8_chars [simp]: "concat (utf8_chars s) = s"
  by (induction s rule: utf8_chars.induct) (simp_all add: utf8_chars.simps)

lemma length_utf8_chars: "length (utf8_chars s) \<le> length s"
  by (induction s rule: utf8_chars.induct) (auto simp: utf8_chars.simps intro: order_trans [OF _ length_dropWhile_le])

lemma length_nonempty: "length (filter (\<lambda>w. w \<noteq> []) ws) \<le> length (concat ws)"
proof (induction ws)
  case (Cons w ws)
  then show ?case by (cases w) auto
qed simp

lemma length_split_chars: "length (concat (split_chars chs)) \<le> length (concat chs)"
  by (induction chs) (auto split: list.splits)

lemma length_split_whitespace: "length (concat (split_whitespace text)) \<le> length text" "length (split_whitespace text) \<le> length text"
proof -
  have "concat (filter (\<lambda>w. w \<noteq> []) ws) = concat ws" for ws :: "string list" by (induction ws) auto
  then show "length (concat (split_whitespace text)) \<le> length text"
    using length_split_chars [of "utf8_chars text"] by (simp add: split_whitespace_def)
  then show "length (split_whitespace text) \<le> length text"
    using length_nonempty [of "split_whitespace text"] by (simp add: split_whitespace_def)
qed

lemma length_concat_filter: "length (concat (filter P ws)) \<le> length (concat ws)"
  by (induction ws) auto

lemma length_member_concat: "w \<in> set ws \<Longrightarrow> length w \<le> length (concat ws)"
  by (induction ws) auto

lemma length_trigrams: "length (trigrams chs) \<le> length chs"
  by (induction chs rule: trigrams.induct) auto

lemma length_join_words: "length (join_words sep ws) \<le> length (concat ws) + length sep * length ws"
  by (induction sep ws rule: join_words.induct) auto

lemma lang_tokens_small:
  assumes "text_lib_ok lib" "length text < 2 ^ 60"
  shows "length (tokenize_with_stemming lib text lang stop) < 2 ^ 64"
    and "t \<in> set (tokenize_with_stemming lib text lang stop) \<Longrightarrow> length t < 2 ^ 64"
proof -
  let ?P = "\<lambda>w. w \<noteq> [] \<and> list_ex (tl_alphanumeric lib) (utf8_chars w) \<and> w \<notin> stop"
  let ?ws = "filter ?P (tl_word_bounds lib text)"
  have bounds: "concat (tl_word_bounds lib text) = text" using assms(1) by (simp add: text_lib_ok_def)
  have "length (filter ?P ws) \<le> length (filter (\<lambda>w. w \<noteq> []) ws)" for ws
    by (induction ws) auto
  from order_trans [OF this length_nonempty, of "tl_word_bounds lib text"]
  have "length ?ws \<le> length text" by (simp add: bounds)
  then show "length (tokenize_with_stemming lib text lang stop) < 2 ^ 64"
    using assms(2) by (auto simp: tokenize_with_stemming_def Let_def split: option.splits)
  have "length w \<le> length text" if "w \<in> set ?ws" for w
    using length_member_concat [of w "tl_word_bounds lib text"] bounds that by simp
  moreover have "length (tl_stem lib a w) < 2 ^ 64" for a w
    using assms(1) less_trans [of "length (tl_stem lib a w)" "2 ^ 63" "2 ^ 64"] by (simp add: text_lib_ok_def)
  ultimately show "length t < 2 ^ 64" if "t \<in> set (tokenize_with_stemming lib text lang stop)"
    using that assms(2) by (fastforce simp: tokenize_with_stemming_def Let_def split: option.splits)
qed

lemma word_slots_le:
  assumes "k < 2 ^ 24" "p \<le> 100"
  shows "word_slots k p \<le> k"
proof -
  have p: "f32_of_nat p = Finite False (of_nat p)" "f32_of_nat k = Finite False (of_nat k)"
    using assms by (simp_all add: f32_small)
  have "(of_nat p :: rat) / 100 \<le> 1" using assms(2) by simp
  then obtain q where q: "fp_div binary32 (Finite False (of_nat p)) (Finite False 100) = Finite False q" "0 \<le> q" "q \<le> 1"
    using fp_round_le_power [of "of_nat p / 100" 0] by auto
  have "fp_le (fp_round binary32 False (of_nat k * q)) (fp_round binary32 False (of_nat k))"
    using q by (intro fp_round_mono) (simp_all add: mult_left_le)
  also have "fp_round binary32 False (of_nat k) = Finite False (of_nat k)"
    using f32_small [OF assms(1)] by (simp add: fp_of_nat_def fp_of_rat_def)
  finally obtain m where m: "fp_mul binary32 (Finite False (of_nat k)) (Finite False q) = Finite False m" "0 \<le> m" "m \<le> of_nat k"
    using fnn_round [of "of_nat k * q" binary32] q(2) by (cases "fp_round binary32 False (of_nat k * q)") auto
  have "\<lfloor>m\<rfloor> \<le> int k" using m(3) by (simp add: floor_le_iff)
  then show ?thesis unfolding word_slots_def p f32_consts q(1) m(1) using m(2) by (simp add: trunc_def nat_le_iff)
qed

lemma wmtr_sparse:
  assumes lib: "text_lib_ok lib" and short: "length text < 2 ^ 60" "text = [] \<or> \<not> is_continuation (hd text)"
    and avgdl: "fpos avgdl" and w: "0 \<le> w" and k: "k < 2 ^ 24" "p \<le> 100"
  shows "\<exists>v. tokenize_wmtr lib text lang k p use avgdl (Finite False w) = Some v \<and> sparse_ok k v"
proof (cases "trim text = []")
  case False
  let ?stop = "stopwords_for lib use lang"
  let ?words = "filter (\<lambda>t. t \<notin> ?stop) (split_whitespace text)"
  let ?lang = "tokenize_with_stemming lib text lang ?stop"
  let ?ws = "filter (\<lambda>t. t \<notin> set ?lang) ?words"
  let ?chars = "utf8_chars ('' '' @ join_words '' '' ?words @ '' '')"
  let ?norm = "length_norm_of (length ?lang) avgdl"
  note small = lang_tokens_small [OF lib short(1)]
  have norm: "fnn ?norm" by (rule length_norm_nonneg [OF small(1) avgdl])
  have "text \<noteq> []" using False trim_plain [of "[]"] by auto
  then have "1 \<le> chars_count text" using short(2) by (cases "text") (auto simp: chars_count_def)
  moreover have "chars_count text \<le> length text" by (simp add: chars_count_def)
  then have tl: "chars_count text < 2 ^ 64" using short(1) by simp
  moreover have "length ?ws \<le> length ?words" "length ?words \<le> length (split_whitespace text)"
    by (rule length_filter_le)+
  then have "length ?ws \<le> length text" using length_split_whitespace(2) [of "text"] by linarith
  then have "length ?ws < 2 ^ 64" using short(1) by (rule_tac le_less_trans) (auto intro: less_trans)
  moreover have "length t < 2 ^ 64" if "t \<in> set ?ws" for t
    using length_member_concat [of t "split_whitespace text"] length_split_whitespace(1) [of "text"] short(1) that by simp
  ultimately have words: "good_weights (get_count_weights_prefixed_with_norm lib ?ws WMTR_WEIGHT_WHITESPACE 1 (chars_count text) ?norm @
      get_count_weights_prefixed_with_norm lib ?lang WMTR_WEIGHT_LANG 2 (chars_count text) ?norm)"
    using good_prefixed_weights [OF lib _ _ _ tl norm, of ?ws 4 1] good_prefixed_weights [OF lib small(1) _ _ tl norm, of lang ?stop 8 2] small(2)
    by (simp add: WMTR_WEIGHT_WHITESPACE_def WMTR_WEIGHT_LANG_def f32_consts good_weights_def ball_Un)
  have "length (join_words '' '' ?words) \<le> 2 * length text"
  proof -
    have "length (concat ?words) \<le> length text"
      by (rule le_trans [OF length_concat_filter length_split_whitespace(1)])
    moreover have "length ?words \<le> length text"
      by (rule le_trans [OF length_filter_le length_split_whitespace(2)])
    ultimately show ?thesis using length_join_words [of "'' ''" ?words] by simp
  qed
  then have "length (trigrams ?chars) < 2 ^ 64"
    using length_trigrams [of ?chars] length_utf8_chars [of "'' '' @ join_words '' '' ?words @ '' ''"] short(1) by simp
  then have tri: "good_weights (trigram_weights lib ?chars (Finite False w) ?norm)"
    by (rule good_trigram_weights [OF lib _ norm w])
  obtain a where a: "top_k lib (get_count_weights_prefixed_with_norm lib ?ws WMTR_WEIGHT_WHITESPACE 1 (chars_count text) ?norm @
      get_count_weights_prefixed_with_norm lib ?lang WMTR_WEIGHT_LANG 2 (chars_count text) ?norm) (word_slots k p) =
      Some (map fst a, map snd a)" "good_weights a" "length a \<le> word_slots k p"
    using top_k_good [OF lib words] by metis
  obtain b where b: "top_k lib (trigram_weights lib ?chars (Finite False w) ?norm) (k - word_slots k p) =
      Some (map fst b, map snd b)" "good_weights b" "length b \<le> k - word_slots k p"
    using top_k_good [OF lib tri] by metis
  have "good_weights (a @ b)" using a(2) b(2) by (auto simp: good_weights_def)
  from dedup_sparse_ok [OF lib this] obtain v where v: "dedup_sparse lib (map fst a @ map fst b) (map snd a @ map snd b) = Some v"
      "sparse_ok (length a + length b) v" by auto
  have "length a + length b \<le> k" using a(3) b(3) word_slots_le [OF k] by linarith
  then have "sparse_ok k v" by (rule sparse_ok_mono [OF v(2)])
  then show ?thesis unfolding tokenize_wmtr_def Let_def a(1) b(1) using False v(1) by simp
qed (simp add: tokenize_wmtr_def sparse_ok_def)

lemma words_small:
  "length text < 2 ^ 60 \<Longrightarrow> length (filter P (split_whitespace text)) < 2 ^ 64"
  using le_trans [OF length_filter_le length_split_whitespace(2), of P "text"] by simp

lemma trigrams_sparse:
  assumes "text_lib_ok lib" "length text < 2 ^ 60" "fpos avgdl"
  shows "\<exists>v. tokenize_trigrams lib text k avgdl = Some v \<and> sparse_ok k v"
proof (cases "trim text = []")
  case False
  let ?chars = "utf8_chars (''  '' @ text @ ''  '')"
  have "length ?chars < 2 ^ 64" using length_utf8_chars [of "''  '' @ text @ ''  ''"] assms(2) by simp
  moreover have "length (trigrams ?chars) \<le> length ?chars" "length ?chars - 2 \<le> length ?chars"
    by (rule length_trigrams) simp
  ultimately have small: "length (trigrams ?chars) < 2 ^ 64" "length ?chars - 2 < 2 ^ 64" by linarith+
  have "good_weights (trigram_weights lib ?chars (f32 1) (length_norm_of (length ?chars - 2) avgdl))"
    unfolding f32_consts
    by (rule good_trigram_weights [OF assms(1) small(1) length_norm_nonneg [OF small(2) assms(3)]]) simp
  from select_and_dedup [OF assms(1) this] show ?thesis using False by (simp add: tokenize_trigrams_def Let_def)
qed (simp add: tokenize_trigrams_def sparse_ok_def)

lemma word_tokenizers_sparse:
  assumes "text_lib_ok lib" "length text < 2 ^ 60" "fpos avgdl"
  shows "\<exists>v. tokenize_whitespace lib text lang k use avgdl = Some v \<and> sparse_ok k v"
    and "\<exists>v. tokenize_fulltext lib text lang k use avgdl = Some v \<and> sparse_ok k v"
  using select_and_dedup [OF assms(1) good_count_weights [OF assms(1) words_small [OF assms(2)] assms(3)]]
    select_and_dedup [OF assms(1) good_count_weights [OF assms(1) lang_tokens_small(1) [OF assms(1,2)] assms(3)]]
  by (simp_all add: tokenize_whitespace_def tokenize_fulltext_def Let_def sparse_ok_def [of k "([], [])"])

definition example_lib :: text_lib where
  "example_lib =
     \<lparr>tl_lowercase = (\<lambda>s. s), tl_alphanumeric = (\<lambda>ch. ch \<noteq> ''!''), tl_murmur3 = (\<lambda>s. of_nat (length s)),
      tl_word_bounds = (\<lambda>t. [t]), tl_nltk = (\<lambda>_. None), tl_stem = (\<lambda>_ _. ''x''), tl_log10 = (\<lambda>_. Finite False 0),
      tl_iter_counts = (\<lambda>m. m), tl_iter_weights = (\<lambda>m. m), tl_unstable = rev\<rparr>"

lemma example_lib_ok: "text_lib_ok example_lib"
  by (simp add: text_lib_ok_def example_lib_def)

text \<open>
  C4: every tokenizer returns a sparse vector. For a text of any realistic length and a positive average
  document length, whatever the order of hash maps and ties, no comparison meets a NaN and so no
  tokenizer panics; the indices are distinct and below 2147483647, there are at most \<open>top_k\<close> of them,
  also when WMTR divides the budget between words and trigrams with rounding, and the weights are not
  negative and in descending order.
\<close>

theorem tokenizers_return_sparse_vectors:
  assumes "text_lib_ok lib" "length text < 2 ^ 60" "text = [] \<or> \<not> is_continuation (hd text)"
    and "fpos avgdl" "0 \<le> w" "k < 2 ^ 24" "p \<le> 100"
  shows "(\<exists>v. tokenize_whitespace lib text lang k use avgdl = Some v \<and> sparse_ok k v) \<and>
    (\<exists>v. tokenize_trigrams lib text k avgdl = Some v \<and> sparse_ok k v) \<and>
    (\<exists>v. tokenize_fulltext lib text lang k use avgdl = Some v \<and> sparse_ok k v) \<and>
    (\<exists>v. tokenize_wmtr lib text lang k p use avgdl (Finite False w) = Some v \<and> sparse_ok k v)"
  by (intro conjI) (rule word_tokenizers_sparse [OF assms(1,2,4)] trigrams_sparse [OF assms(1,2,4)] wmtr_sparse [OF assms])+

theorem tokenizers_return_sparse_vectors_witness:
  "\<exists>v. tokenize_wmtr example_lib ''ab'' ''en'' 10 30 True (Finite False 5) (Finite False 1) = Some v \<and> sparse_ok 10 v"
proof -
  have "\<not> is_continuation (hd ''ab'')" by (simp add: is_continuation_def byte_of_def)
  then show ?thesis
    using tokenizers_return_sparse_vectors [OF example_lib_ok, of "''ab''" "Finite False 5" 1 10 30 "''en''" True]
    by (simp add: fpos_def)
qed

text \<open>
  \<open>top_k\<close> returns one token too few. What it returns is sorted and at least as heavy as everything it
  drops, but when there are more than \<open>k\<close> tokens it returns \<open>k - 1\<close> of them, and for \<open>k = 1\<close> none.
\<close>

theorem top_k_returns_one_less:
  assumes "text_lib_ok lib" "no_nan ws" "0 < k" "k < length ws"
  shows "\<exists>kept rest. top_k lib ws k = Some (map fst kept, map snd kept) \<and> mset (kept @ rest) = mset ws \<and>
    sorted_wrt (\<lambda>a b. heavier a b) kept \<and> (\<forall>a\<in>set kept. \<forall>b\<in>set rest. heavier a b) \<and> length kept = k - 1"
  using top_k_kept [OF assms(1-3)] assms(4) by (simp add: not_le [symmetric])

theorem top_k_returns_one_less_witness:
  "top_k example_lib [(7, Finite False 2), (8, Finite False 1)] 1 = Some ([], [])"
  using top_k_returns_one_less [OF example_lib_ok, of "[(7, Finite False 2), (8, Finite False 1)]" 1]
  by (auto simp: no_nan_def)

lemma top_k_nan:
  assumes "text_lib_ok lib" "2 \<le> length ws" "\<forall>w\<in>set ws. is_nan (snd w)" "0 < k"
  shows "top_k lib ws k = None"
proof -
  have "list_ex (\<lambda>w. is_nan (snd w)) ws" using assms(2,3) by (cases ws) auto
  then have "sort_weights (tl_unstable lib) ws = None" using assms(2) by (simp add: sort_weights_def)
  then show ?thesis using assms(2,4) by (auto simp: top_k_def select_before_def)
qed

lemma nan_norm: "length_norm_of 0 (Finite False 0) = NaN" "bm25_tf_saturation x NaN = NaN"
  by (cases x; simp add: length_norm_of_def fp_sub_cases fp_of_nat_def fp_of_rat_def fp_round_def BM25_B_def bm25_tf_saturation_def)+

lemma length_count_tokens: "length (count_tokens ts) = card (set ts)"
proof -
  have d: "distinct (map fst (count_tokens ts))" using map_of_count_tokens [of ts] by (simp add: hm_ok_def)
  have "fst ` set (count_tokens ts) = dom (map_of (count_tokens ts))" by (simp add: dom_map_of_conv_image_fst)
  also have "\<dots> = set ts" using map_of_count_tokens [of ts] by (auto simp: dom_def)
  finally show ?thesis using distinct_card [OF d] by simp
qed

text \<open>
  The WMTR tokenizer panics when the stored average length is zero and a text has no word. The
  length ratio is then \<open>0 / 0\<close>, every weight is NaN and the first comparison of trigram weights unwraps
  \<open>None\<close>.
\<close>

theorem wmtr_panics_on_zero_average:
  assumes "text_lib_ok lib" "trim text \<noteq> []" "stop = stopwords_for lib use lang"
    and "tokenize_with_stemming lib text lang stop = []"
    and "2 \<le> card (set (trigrams (utf8_chars ('' '' @ join_words '' '' (filter (\<lambda>t. t \<notin> stop) (split_whitespace text)) @ '' ''))))"
    and "word_slots k p < k"
  shows "tokenize_wmtr lib text lang k p use (Finite False 0) w = None"
proof -
  let ?ws = "trigram_weights lib (utf8_chars ('' '' @ join_words '' '' (filter (\<lambda>t. t \<notin> stop) (split_whitespace text)) @ '' '')) w NaN"
  have "mset (tl_iter_counts lib m) = mset m" for m using assms(1) by (simp add: text_lib_ok_def iter_orderD)
  then have "length (tl_iter_counts lib m) = length m" for m by (metis size_mset)
  then have "2 \<le> length ?ws" using assms(5) by (simp add: trigram_weights_def length_count_tokens)
  moreover have "fp_mul binary32 w NaN = NaN" by (cases w) simp_all
  then have "\<forall>w\<in>set ?ws. is_nan (snd w)" by (auto simp: trigram_weights_def nan_norm)
  ultimately have "top_k lib ?ws (k - word_slots k p) = None" using assms(6) by (intro top_k_nan [OF assms(1)]) simp_all
  then show ?thesis using assms(2-4) by (simp add: tokenize_wmtr_def Let_def nan_norm split: bind_splits)
qed

lemma example_split: "split_whitespace ''!!'' = [''!!'']" "utf8_chars '' !! '' = ['' '', ''!'', ''!'', '' '']"
  by (simp_all add: split_whitespace_def utf8_chars.simps is_whitespace_def white_space_def is_continuation_def byte_of_def)

theorem wmtr_panics_on_zero_average_witness:
  "tokenize_wmtr example_lib ''!!'' ''xx'' 2 0 False (Finite False 0) (Finite False 1) = None"
proof (rule wmtr_panics_on_zero_average [OF example_lib_ok _ refl])
  show "trim ''!!'' \<noteq> []" by (subst trim_plain) (simp_all add: plain_def byte_of_def)
  show "tokenize_with_stemming example_lib ''!!'' ''xx'' (stopwords_for example_lib False ''xx'') = []"
    by (simp add: tokenize_with_stemming_def example_lib_def stem_algorithm_of_def utf8_chars.simps is_continuation_def byte_of_def)
  show "2 \<le> card (set (trigrams (utf8_chars ('' '' @ join_words '' ''
      (filter (\<lambda>t. t \<notin> stopwords_for example_lib False ''xx'') (split_whitespace ''!!'')) @ '' ''))))"
    using example_split by (simp add: stopwords_for_def)
  show "word_slots 2 0 < 2"
    by (simp add: word_slots_def f32_small f32_consts fp_round_def trunc_def)
qed

end
