(* ===== verification/Vectorizer.thy ===== *)
theory Vectorizer
  imports Templates Tokenizer
begin

text \<open>
  Vectorization of documents, \<open>src/src/vectors/vectorizer.rs\<close> with \<open>vector_base.rs\<close>,
  \<open>dense_custom.rs\<close> and \<open>sparse_custom.rs\<close>. The neural models, the tokenizers, language
  detection, case folding and the parsing of vectors from JSON are the record \<open>embedders\<close>. An index
  out of range is the value \<open>None\<close>. Metrics are left out.
\<close>

section \<open>Embedding\<close>

type_synonym sparse = "nat list \<times> fp list"

record embedders =
  em_dense_model :: "vector_config_internal \<Rightarrow> string list \<Rightarrow> string + fp list list"
  em_sparse_model :: "vector_config_internal \<Rightarrow> string list \<Rightarrow> fp \<Rightarrow> string + sparse list"
  em_text :: text_lib
  em_whatlang :: "string \<Rightarrow> (string \<times> fp) option"
  em_dense_json :: "json \<Rightarrow> string + fp list"
  em_sparse_json :: "json \<Rightarrow> string + (nat \<times> fp) list"
  em_num_str :: "number \<Rightarrow> string"

definition DEFAULT_WMTR_TRIGRAM_WEIGHT :: fp where "DEFAULT_WMTR_TRIGRAM_WEIGHT = f64 1"

fun as_f32 :: "fp \<Rightarrow> fp" where
  "as_f32 (Finite s m) = fp_round binary32 s (fval (Finite s m))"
| "as_f32 x = x"

definition validate_text :: "string \<Rightarrow> bool" where
  "validate_text text \<longleftrightarrow> text \<noteq> []"

definition detect_language :: "embedders \<Rightarrow> string \<Rightarrow> (string \<times> fp) option" where
  "detect_language em text = (if trim text = [] then None else em_whatlang em (trim text))"

definition get_language_code :: "embedders \<Rightarrow> vector_config_internal \<Rightarrow> string \<Rightarrow> string + string" where
  "get_language_code em config text =
     (let fallback = (if vc_language_default_code config \<noteq> [] then Inr (vc_language_default_code config)
                      else Inl (''No language code could be determined for vector config '' @ quoted (vc_name config) @
                                ''. Either enable language_detect=True or specify language_default_code.''))
      in case (if vc_language_detect config then detect_language em text else None) of
           Some (lang_code, confidence) \<Rightarrow>
             if fp_le (as_f32 (vc_language_confidence config)) confidence then Inr lang_code else fallback
         | None \<Rightarrow> fallback)"

text \<open>
  \<open>get_sparse_vector_single\<close> of the tokenizing vector types; all but the trigrams need a language.
  \<open>None\<close> is a panic of the tokenizer.
\<close>

definition get_sparse_vector_single ::
    "embedders \<Rightarrow> vector_config_internal \<Rightarrow> string \<Rightarrow> fp \<Rightarrow> fp \<Rightarrow> (string + sparse) option" where
  "get_sparse_vector_single em config text avgdl trigram_weight =
     (if vc_type config = Noop \<or> \<not> validate_text text then Some (Inr ([], []))
      else if vc_type config = Trigrams
      then map_option Inr (tokenize_trigrams (em_text em) text (vc_top_k config) (as_f32 avgdl))
      else case get_language_code em config text of
             Inl e \<Rightarrow> Some (Inl e)
           | Inr lang_code \<Rightarrow>
               map_option Inr
                 (if vc_type config = FullText
                  then tokenize_fulltext (em_text em) text lang_code (vc_top_k config) True (as_f32 avgdl)
                  else if vc_type config = Whitespace
                  then tokenize_whitespace (em_text em) text lang_code (vc_top_k config) True (as_f32 avgdl)
                  else tokenize_wmtr (em_text em) text lang_code (vc_top_k config) (vc_wmtr_word_ratio config) True
                         (as_f32 avgdl) (as_f32 trigram_weight)))"

text \<open>Collecting results stops at the first error; a panic before it is a panic.\<close>

fun collect_panicking :: "('e + 'a) option list \<Rightarrow> ('e + 'a list) option" where
  "collect_panicking [] = Some (Inr [])"
| "collect_panicking (r # rs) =
     (case r of
        None \<Rightarrow> None
      | Some (Inl e) \<Rightarrow> Some (Inl e)
      | Some (Inr x) \<Rightarrow> map_option (\<lambda>q. and_then q (\<lambda>xs. Inr (x # xs))) (collect_panicking rs))"

definition get_sparse_vector ::
    "embedders \<Rightarrow> vector_config_internal \<Rightarrow> string list \<Rightarrow> fp list \<Rightarrow> fp \<Rightarrow> (string + sparse list) option" where
  "get_sparse_vector em config docs avgdls trigram_weight =
     collect_panicking (map (\<lambda>(doc, avgdl).
       get_sparse_vector_single em config (preprocess_text (em_text em) doc) avgdl trigram_weight) (zip docs avgdls))"

datatype routed_embed =
    RDense "fp list list"
  | RSparse "sparse list"

fun vector_type_debug :: "vector_type \<Rightarrow> string" where
  "vector_type_debug DenseModel = ''DenseModel''"
| "vector_type_debug SparseModel = ''SparseModel''"
| "vector_type_debug FullText = ''FullText''"
| "vector_type_debug Trigrams = ''Trigrams''"
| "vector_type_debug Whitespace = ''Whitespace''"
| "vector_type_debug Wmtr = ''Wmtr''"
| "vector_type_debug Keyword = ''Keyword''"
| "vector_type_debug DenseCustom = ''DenseCustom''"
| "vector_type_debug SparseCustom = ''SparseCustom''"
| "vector_type_debug Noop = ''Noop''"

definition route_embed_dispatch ::
    "embedders \<Rightarrow> vector_config_internal \<Rightarrow> string list \<Rightarrow> fp list option \<Rightarrow> fp \<Rightarrow> (string + routed_embed) option" where
  "route_embed_dispatch em config docs avgdls trigram_weight =
     (case vc_type config of
        DenseModel \<Rightarrow> Some (and_then (em_dense_model em config docs) (\<lambda>v. Inr (RDense v)))
      | SparseModel \<Rightarrow> Some (and_then (em_sparse_model em config docs trigram_weight) (\<lambda>v. Inr (RSparse v)))
      | DenseCustom \<Rightarrow> Some (Inl ''route_embed_dispatch must not be called for dense_custom/sparse_custom'')
      | SparseCustom \<Rightarrow> Some (Inl ''route_embed_dispatch must not be called for dense_custom/sparse_custom'')
      | _ \<Rightarrow>
          (case avgdls of
             None \<Rightarrow> Some (Inl (''avgdl entries required for custom tokenization vector '' @ quoted (vc_name config) @
                       '' ('' @ vector_type_debug (vc_type config) @ '')''))
           | Some av \<Rightarrow>
               map_option (\<lambda>r. and_then r (\<lambda>v. Inr (RSparse v))) (get_sparse_vector em config docs av trigram_weight)))"

section \<open>Texts and provided vectors\<close>

definition get_field_text :: "document \<Rightarrow> document_field \<Rightarrow> string" where
  "get_field_text document field =
     unwrap_or [] (case field of
        FName \<Rightarrow> doc_name document
      | FDescription \<Rightarrow> doc_description document
      | FContent \<Rightarrow> doc_content document
      | FTemplate \<Rightarrow> None)"

definition text_for_slot ::
    "(number \<Rightarrow> string) \<Rightarrow> vector_config_internal \<Rightarrow> document \<Rightarrow> document_field \<Rightarrow> string + string" where
  "text_for_slot num_str config document field =
     (if field = FTemplate
      then and_then (ok_or (''Vector '' @ quoted (vc_name config) @ '' slot 'template' requires doc_template'') (vc_doc_template config))
             (\<lambda>tmpl. render_doc_template num_str tmpl document)
      else Inr (get_field_text document field))"

text \<open>The map of the vectors that come with a document; a later entry replaces an earlier one.\<close>

definition provided_map :: "document \<Rightarrow> string \<times> document_field \<rightharpoonup> vector_data" where
  "provided_map document =
     map_of (rev (map (\<lambda>vd. ((vd_vector_name vd, vd_field vd), vd)) (unwrap_or [] (doc_vectors document))))"

definition provided_slots :: "vector_config_internal \<Rightarrow> document_field list \<Rightarrow> document \<Rightarrow> vector_data list" where
  "provided_slots config slots document = List.map_filter (\<lambda>f. provided_map document (vc_name config, f)) slots"

definition missing_slots :: "vector_config_internal \<Rightarrow> document_field list \<Rightarrow> document \<Rightarrow> document_field list" where
  "missing_slots config slots document = filter (\<lambda>f. provided_map document (vc_name config, f) = None) slots"

definition field_vector_name :: "document_field \<Rightarrow> string \<Rightarrow> string" where
  "field_vector_name field name = document_field_str field @ ''_'' @ name"

definition record_sparse_token_length :: "vector_data \<Rightarrow> (string, nat) hash_map \<Rightarrow> (string, nat) hash_map" where
  "record_sparse_token_length vd token_lengths =
     (if sparse_types_contains (vd_vector_type vd)
      then case vd_sparse_indices vd of
             Some indices \<Rightarrow> AList.update (field_vector_name (vd_field vd) (vd_vector_name vd)) (length indices) token_lengths
           | None \<Rightarrow> token_lengths
      else token_lengths)"

section \<open>Custom vectors\<close>

definition find_custom :: "vector_config_internal \<Rightarrow> document_field \<Rightarrow> custom_document_vector list \<Rightarrow> custom_document_vector option" where
  "find_custom config field cvs = List.find (\<lambda>cv. cdv_vector_name cv = vc_name config \<and> cdv_field cv = field) cvs"

definition extract_dense_field ::
    "embedders \<Rightarrow> vector_config_internal \<Rightarrow> custom_document_vector list \<Rightarrow> document_field \<Rightarrow> string + (document_field \<times> fp list)" where
  "extract_dense_field em config cvs field =
     and_then (ok_or (''Custom dense vector '' @ quoted (vc_name config) @ '' for field '' @ quoted (document_field_str field) @ '' not provided'')
                (find_custom config field cvs))
       (\<lambda>cv. and_then (map_err (\<lambda>e. ''Failed to parse dense vector: '' @ e) (em_dense_json em (cdv_vector cv)))
       (\<lambda>vec. case vc_dimensions config of
                Some dims \<Rightarrow>
                  if length vec \<noteq> dims
                  then Inl (''Custom dense vector '' @ quoted (vc_name config) @ '' has '' @ nat_str (length vec) @
                            '' dimensions, expected '' @ nat_str dims)
                  else Inr (field, vec)
              | None \<Rightarrow> Inr (field, vec)))"

definition extract_sparse_field ::
    "embedders \<Rightarrow> vector_config_internal \<Rightarrow> custom_document_vector list \<Rightarrow> document_field \<Rightarrow> string + (document_field \<times> sparse)" where
  "extract_sparse_field em config cvs field =
     and_then (ok_or (''Custom sparse vector '' @ quoted (vc_name config) @ '' for field '' @ quoted (document_field_str field) @ '' not provided'')
                (find_custom config field cvs))
       (\<lambda>cv. and_then (map_err (\<lambda>e. ''Failed to parse sparse vector: '' @ e) (em_sparse_json em (cdv_vector cv)))
       (\<lambda>pairs. if length pairs > vc_top_k config
                then Inl (''Custom sparse vector '' @ quoted (vc_name config) @ '' has '' @ nat_str (length pairs) @
                          '' entries, max allowed: '' @ nat_str (vc_top_k config))
                else Inr (field, (map fst pairs, map snd pairs))))"

text \<open>\<open>extract_for_documents\<close> of the custom vector types, for the extraction of one field.\<close>

definition extract_for_document ::
    "string \<Rightarrow> (custom_document_vector list \<Rightarrow> document_field \<Rightarrow> string + (document_field \<times> 'v)) \<Rightarrow>
     vector_config_internal \<Rightarrow> document \<Rightarrow> string + (document_field \<times> 'v) list" where
  "extract_for_document kind extract config document =
     and_then (ok_or (''Custom '' @ kind @ '' vector '' @ quoted (vc_name config) @ '' requires custom vectors but document has none'')
                (doc_custom_vectors document))
       (\<lambda>cvs. and_then (vector_index_fields config) (\<lambda>fs. collect_result (map (extract cvs) fs)))"

section \<open>One vector configuration\<close>

type_synonym doc_vectors_lengths = "vector_data list \<times> (string, nat) hash_map"

definition mk_vector_data ::
    "vector_config_internal \<Rightarrow> document_field \<Rightarrow> fp list option \<Rightarrow> nat list option \<Rightarrow> fp list option \<Rightarrow> vector_data" where
  "mk_vector_data config field dense indices vs =
     \<lparr>vd_vector_name = vc_name config, vd_field = field, vd_vector_type = vc_type config, vd_dense_vector = dense,
      vd_sparse_indices = indices, vd_sparse_values = vs\<rparr>"

text \<open>The embedded vector \<open>i\<close> belongs to the slot \<open>i\<close>; a missing one is a panic.\<close>

fun assign_slots :: "('s \<Rightarrow> 'v \<Rightarrow> 'e + 'w) \<Rightarrow> 's list \<Rightarrow> 'v list \<Rightarrow> ('e + 'w list) option" where
  "assign_slots g [] vs = Some (Inr [])"
| "assign_slots g (s # ss) [] = None"
| "assign_slots g (s # ss) (v # vs) =
     (case g s v of
        Inl e \<Rightarrow> Some (Inl e)
      | Inr w \<Rightarrow> map_option (\<lambda>r. and_then r (\<lambda>ws. Inr (w # ws))) (assign_slots g ss vs))"

definition embed_slots ::
    "vector_config_internal \<Rightarrow> document_field list \<Rightarrow> document list \<Rightarrow> (nat \<times> document_field) list" where
  "embed_slots config slots documents =
     concat (map (\<lambda>(doc_idx, doc). map (Pair doc_idx) (missing_slots config slots doc)) (enumerate 0 documents))"

definition embedded_of :: "nat \<Rightarrow> (nat \<times> vector_data) list \<Rightarrow> vector_data list" where
  "embedded_of doc_idx ws = map snd (filter (\<lambda>w. fst w = doc_idx) ws)"

definition dense_slot ::
    "vector_config_internal \<Rightarrow> nat \<times> document_field \<Rightarrow> fp list \<Rightarrow> string + (nat \<times> vector_data)" where
  "dense_slot config s v =
     (case vc_dimensions config of
        Some dims \<Rightarrow>
          if length v \<noteq> dims
          then Inl (''Specified dimensions '' @ nat_str dims @ '' don't match generated dimensions '' @ nat_str (length v) @
                    '' for vector '' @ quoted (vc_name config) @ '' field '' @ quoted (document_field_str (snd s)))
          else Inr (fst s, mk_vector_data config (snd s) (Some v) None None)
      | None \<Rightarrow> Inr (fst s, mk_vector_data config (snd s) (Some v) None None))"

definition sparse_slot :: "vector_config_internal \<Rightarrow> nat \<times> document_field \<Rightarrow> sparse \<Rightarrow> string + (nat \<times> vector_data)" where
  "sparse_slot config s v = Inr (fst s, mk_vector_data config (snd s) None (Some (fst v)) (Some (snd v)))"

definition dense_model_vectors ::
    "embedders \<Rightarrow> vector_config_internal \<Rightarrow> document_field list \<Rightarrow> document list \<Rightarrow> (string + doc_vectors_lengths list) option" where
  "dense_model_vectors em config slots documents =
     (let es = embed_slots config slots documents in
      case collect_result (map (\<lambda>(i, f). text_for_slot (em_num_str em) config (documents ! i) f) es) of
        Inl e \<Rightarrow> Some (Inl e)
      | Inr texts \<Rightarrow>
          map_option (\<lambda>r. and_then r (\<lambda>ws.
            Inr (map (\<lambda>(i, doc). (provided_slots config slots doc @ embedded_of i ws, [])) (enumerate 0 documents))))
          (if texts = [] then Some (Inr [])
           else case route_embed_dispatch em config texts None DEFAULT_WMTR_TRIGRAM_WEIGHT of
                  None \<Rightarrow> None
                | Some (Inl e) \<Rightarrow> Some (Inl e)
                | Some (Inr (RDense vs)) \<Rightarrow> assign_slots (dense_slot config) es vs
                | Some (Inr (RSparse _)) \<Rightarrow>
                    Some (Inl (''dense_model vector '' @ quoted (vc_name config) @ '' routed to non-dense embedding''))))"

definition avgdl_for :: "vector_config_internal \<Rightarrow> (string, fp) hash_map option \<Rightarrow> document_field \<Rightarrow> string + fp" where
  "avgdl_for config avgdl_dict field =
     (if is_custom_tokenization (vc_type config)
      then and_then (ok_or (''avgdl_dict required for '' @ quoted (vc_name config) @ '' ('' @ vector_type_debug (vc_type config) @ '')'') avgdl_dict)
             (\<lambda>table. ok_or (''Missing avgdl_dict entry '' @ quoted (field_vector_name field (vc_name config)) @
                             '' for vector '' @ quoted (vc_name config))
                        (map_of table (field_vector_name field (vc_name config))))
      else Inr (f64 0))"

definition slot_input ::
    "embedders \<Rightarrow> vector_config_internal \<Rightarrow> (string, fp) hash_map option \<Rightarrow> document \<Rightarrow> document_field \<Rightarrow> string + (string \<times> fp)" where
  "slot_input em config avgdl_dict doc field =
     and_then (text_for_slot (em_num_str em) config doc field)
       (\<lambda>t. and_then (avgdl_for config avgdl_dict field) (\<lambda>a. Inr (t, a)))"

definition add_token_length :: "vector_config_internal \<Rightarrow> vector_data \<Rightarrow> (string, nat) hash_map \<Rightarrow> (string, nat) hash_map" where
  "add_token_length config vd tls =
     (if sparse_types_contains (vc_type config)
      then AList.update (field_vector_name (vd_field vd) (vc_name config)) (length (unwrap_or [] (vd_sparse_indices vd))) tls
      else tls)"

definition sparse_vectors ::
    "embedders \<Rightarrow> vector_config_internal \<Rightarrow> (string, fp) hash_map option \<Rightarrow> document_field list \<Rightarrow> document list \<Rightarrow>
     (string + doc_vectors_lengths list) option" where
  "sparse_vectors em config avgdl_dict slots documents =
     (let es = embed_slots config slots documents in
      case collect_result (map (\<lambda>(i, f). slot_input em config avgdl_dict (documents ! i) f) es) of
        Inl e \<Rightarrow> Some (Inl e)
      | Inr inputs \<Rightarrow>
          map_option (\<lambda>r. and_then r (\<lambda>ws.
            Inr (map (\<lambda>(i, doc).
                   (provided_slots config slots doc @ embedded_of i ws,
                    fold (add_token_length config) (embedded_of i ws)
                      (fold record_sparse_token_length (provided_slots config slots doc) [])))
                 (enumerate 0 documents))))
          (if inputs = [] then Some (Inr [])
           else case route_embed_dispatch em config (map fst inputs)
                       (if is_custom_tokenization (vc_type config) then Some (map snd inputs) else None)
                       DEFAULT_WMTR_TRIGRAM_WEIGHT of
                  None \<Rightarrow> None
                | Some (Inl e) \<Rightarrow> Some (Inl e)
                | Some (Inr (RSparse vs)) \<Rightarrow> assign_slots (sparse_slot config) es vs
                | Some (Inr (RDense _)) \<Rightarrow>
                    Some (Inl (''sparse vector '' @ quoted (vc_name config) @ '' routed to dense embedding''))))"

definition config_vectors ::
    "embedders \<Rightarrow> vector_config_internal \<Rightarrow> (string, fp) hash_map option \<Rightarrow> document_field list \<Rightarrow> document list \<Rightarrow>
     (string + doc_vectors_lengths list) option" where
  "config_vectors em config avgdl_dict slots documents =
     (case vc_type config of
        DenseModel \<Rightarrow> dense_model_vectors em config slots documents
      | DenseCustom \<Rightarrow>
          Some (collect_result (map (\<lambda>doc.
            and_then (extract_for_document ''dense'' (extract_dense_field em config) config doc)
              (\<lambda>fs. Inr (map (\<lambda>(f, v). mk_vector_data config f (Some v) None None) fs, []))) documents))
      | SparseCustom \<Rightarrow>
          Some (collect_result (map (\<lambda>doc.
            and_then (extract_for_document ''sparse'' (extract_sparse_field em config) config doc)
              (\<lambda>fs. Inr (map (\<lambda>(f, v). mk_vector_data config f None (Some (fst v)) (Some (snd v))) fs,
                         fold (\<lambda>(f, v). AList.update (field_vector_name f (vc_name config)) (length (fst v))) fs [])))
            documents))
      | _ \<Rightarrow> sparse_vectors em config avgdl_dict slots documents)"

definition wrap_vector_error :: "vector_config_internal \<Rightarrow> document_field list \<Rightarrow> string \<Rightarrow> string" where
  "wrap_vector_error config slots e =
     (if vc_type config \<in> {DenseCustom, SparseCustom} then e
      else ''Failed to generate vector '' @ quoted (vc_name config) @ '' for fields '' @ [CHR 0x22] @
           concat (map (\<lambda>f. document_field_str f @ '','') (butlast slots)) @ document_field_str (last slots) @ [CHR 0x22] @
           '': '' @ e)"

definition vectorize_single_config ::
    "embedders \<Rightarrow> vector_config_internal \<Rightarrow> document list \<Rightarrow> (string, fp) hash_map option \<Rightarrow>
     (string + doc_vectors_lengths list) option" where
  "vectorize_single_config em config documents avgdl_dict =
     (case vector_index_fields config of
        Inl e \<Rightarrow> Some (Inl e)
      | Inr slots \<Rightarrow> map_option (map_err (wrap_vector_error config slots)) (config_vectors em config avgdl_dict slots documents))"

section \<open>All configurations\<close>

function chunks :: "nat \<Rightarrow> 'a list \<Rightarrow> 'a list list" where
  "chunks n xs = (if xs = [] \<or> n = 0 then [] else take n xs # chunks n (drop n xs))"
  by pat_completeness auto
termination chunks
  by (relation "measure (\<lambda>(n, xs). length xs)") auto

declare chunks.simps [simp del]

text \<open>A panic in a thread replaces the results of all configurations of the thread by one error.\<close>

definition thread_results :: "(string + 'r) option list \<Rightarrow> (string + 'r) list" where
  "thread_results rs = (case those rs of Some rs' \<Rightarrow> rs' | None \<Rightarrow> [Inl ''vectorize thread panicked''])"

definition per_config_results ::
    "embedders \<Rightarrow> nat \<Rightarrow> document list \<Rightarrow> vector_config_internal list \<Rightarrow> (string, fp) hash_map option \<Rightarrow>
     (string + doc_vectors_lengths list) list option" where
  "per_config_results em index_threads documents configs avgdl_dict =
     (let run = (\<lambda>config. vectorize_single_config em config documents avgdl_dict) in
      if length configs > 1
      then let max_threads = min index_threads (length configs);
               chunk_size = (length configs + max_threads - 1) div max_threads
           in Some (concat (map (\<lambda>chunk. thread_results (map run chunk)) (chunks chunk_size configs)))
      else those (map run configs))"

definition merge_lengths :: "(string, nat) hash_map \<Rightarrow> (string, nat) hash_map \<Rightarrow> (string, nat) hash_map" where
  "merge_lengths new acc = fold (\<lambda>(k, n). AList.update k n) new acc"

fun set_doc_vectors :: "vector_data list option \<Rightarrow> document \<Rightarrow> document" where
  "set_doc_vectors v (Document i t tg n d c h m cv j _ tls) = Document i t tg n d c h m cv j v tls"

fun set_doc_token_lengths :: "(string \<times> nat) list \<Rightarrow> document \<Rightarrow> document" where
  "set_doc_token_lengths tls (Document i t tg n d c h m cv j v _) = Document i t tg n d c h m cv j v tls"

definition merge_configs :: "nat \<Rightarrow> doc_vectors_lengths list list \<Rightarrow> doc_vectors_lengths" where
  "merge_configs doc_idx results =
     (concat (map (\<lambda>r. fst (r ! doc_idx)) results),
      fold (\<lambda>r. merge_lengths (snd (r ! doc_idx))) results [])"

definition vectorize_documents ::
    "embedders \<Rightarrow> nat \<Rightarrow> document list \<Rightarrow> vector_config_internal list \<Rightarrow> (string, fp) hash_map option \<Rightarrow>
     (string + document list) option" where
  "vectorize_documents em index_threads documents configs avgdl_dict =
     map_option (\<lambda>results. and_then (collect_result results) (\<lambda>rs.
       Inr (map (\<lambda>(i, doc). set_doc_joined None (set_doc_token_lengths (snd (merge_configs i rs))
                  (set_doc_vectors (Some (fst (merge_configs i rs))) doc))) (enumerate 0 documents))))
       (per_config_results em index_threads documents configs avgdl_dict)"

section \<open>Every slot gets one vector\<close>

definition embedders_ok :: "embedders \<Rightarrow> bool" where
  "embedders_ok em \<longleftrightarrow>
     (\<forall>config texts vs. em_dense_model em config texts = Inr vs \<longrightarrow> length vs = length texts) \<and>
     (\<forall>config texts w vs. em_sparse_model em config texts w = Inr vs \<longrightarrow> length vs = length texts)"

abbreviation vd_key :: "vector_data \<Rightarrow> string \<times> document_field" where
  "vd_key vd \<equiv> (vd_vector_name vd, vd_field vd)"

lemma mk_vector_data_key [simp]:
  "vd_vector_name (mk_vector_data config f a b c) = vc_name config" "vd_field (mk_vector_data config f a b c) = f"
  by (simp_all add: mk_vector_data_def)

lemma collect_result_length: "collect_result rs = Inr xs \<Longrightarrow> length xs = length rs"
  by (induction rs arbitrary: xs) auto

lemma collect_result_nth: "collect_result rs = Inr xs \<Longrightarrow> i < length rs \<Longrightarrow> rs ! i = Inr (xs ! i)"
  by (induction rs arbitrary: xs i) (auto simp: nth_Cons split: nat.splits)

lemma assign_slots_total: "length ss \<le> length vs \<Longrightarrow> assign_slots g ss vs \<noteq> None"
  by (induction g ss vs rule: assign_slots.induct) (auto split: sum.splits)

lemma assign_slots_all:
  "assign_slots g ss vs = Some (Inr ws) \<Longrightarrow> list_all2 (\<lambda>s w. \<exists>v. g s v = Inr w) ss ws"
proof (induction ss arbitrary: vs ws)
  case (Cons s ss)
  then show ?case by (cases vs) (auto split: sum.splits)
qed simp

lemma provided_map_key: "provided_map doc k = Some vd \<Longrightarrow> vd_key vd = k"
  by (auto simp: provided_map_def dest!: map_of_SomeD)

lemma mset_provided_missing:
  "mset (map (\<lambda>vd. vd_key vd) (provided_slots config slots doc)) +
   mset (map (Pair (vc_name config)) (missing_slots config slots doc)) = mset (map (Pair (vc_name config)) slots)"
  unfolding provided_slots_def missing_slots_def
proof (induction slots)
  case (Cons f slots)
  then show ?case
    by (cases "provided_map doc (vc_name config, f)") (auto simp: List.map_filter_simps dest!: provided_map_key)
qed (simp add: List.map_filter_simps)

lemma filter_embed_slots_from:
  "i < length documents \<Longrightarrow>
   filter (\<lambda>s. fst s = n + i)
     (concat (map (\<lambda>(j, doc). map (Pair j) (missing_slots config slots doc)) (enumerate n documents))) =
   map (Pair (n + i)) (missing_slots config slots (documents ! i))"
proof (induction documents arbitrary: n i)
  case (Cons d documents)
  have none: "filter (\<lambda>s. fst s = n)
      (concat (map (\<lambda>(j, doc). map (Pair j) (missing_slots config slots doc)) (enumerate (Suc n) documents))) = []"
    by (auto simp: filter_empty_conv in_set_enumerate_eq)
  show ?case
  proof (cases i)
    case 0
    then show ?thesis using none by (simp add: filter_map o_def)
  next
    case (Suc k)
    then show ?thesis using Cons.IH [of k "Suc n"] Cons.prems by (simp add: filter_map o_def)
  qed
qed simp

lemma embedded_fields:
  assumes "map (\<lambda>w. (fst w, vd_field (snd w))) ws = embed_slots config slots documents" "i < length documents"
  shows "map vd_field (embedded_of i ws) = missing_slots config slots (documents ! i)"
proof -
  have "map (\<lambda>w. (fst w, vd_field (snd w))) (filter (\<lambda>w. fst w = i) ws) =
      filter (\<lambda>s. fst s = i) (embed_slots config slots documents)"
    by (simp add: assms(1) [symmetric] filter_map o_def)
  also have "\<dots> = map (Pair i) (missing_slots config slots (documents ! i))"
    using filter_embed_slots_from [OF assms(2), of 0] by (simp add: embed_slots_def)
  finally have "map snd (map (\<lambda>w. (fst w, vd_field (snd w))) (filter (\<lambda>w. fst w = i) ws)) =
      map snd (map (Pair i) (missing_slots config slots (documents ! i)))" by simp
  then show ?thesis by (simp add: embedded_of_def o_def)
qed

text \<open>What a configuration owes each document.\<close>

definition covers_slots :: "vector_config_internal \<Rightarrow> document_field list \<Rightarrow> vector_data list \<Rightarrow> bool" where
  "covers_slots config slots vds \<longleftrightarrow> mset (map (\<lambda>vd. vd_key vd) vds) = mset (map (Pair (vc_name config)) slots)"

lemma covers_embedded:
  assumes "map (\<lambda>w. (fst w, vd_field (snd w))) ws = embed_slots config slots documents"
    "\<forall>w\<in>set ws. vd_vector_name (snd w) = vc_name config" "i < length documents"
  shows "covers_slots config slots (provided_slots config slots (documents ! i) @ embedded_of i ws)"
proof -
  have "map (\<lambda>vd. vd_key vd) (embedded_of i ws) = map (Pair (vc_name config)) (map vd_field (embedded_of i ws))"
    using assms(2) by (auto simp: embedded_of_def)
  also have "\<dots> = map (Pair (vc_name config)) (missing_slots config slots (documents ! i))"
    by (simp only: embedded_fields [OF assms(1,3)])
  finally show ?thesis
    using mset_provided_missing [of config slots "documents ! i"] by (simp add: covers_slots_def)
qed

lemma assign_keys:
  assumes "\<And>s v w. g s v = Inr w \<Longrightarrow> (fst w, vd_field (snd w)) = s \<and> vd_vector_name (snd w) = vc_name config"
    and "assign_slots g ss vs = Some (Inr ws)"
  shows "map (\<lambda>w. (fst w, vd_field (snd w))) ws = ss" "\<forall>w\<in>set ws. vd_vector_name (snd w) = vc_name config"
proof -
  have "list_all2 (\<lambda>s w. (fst w, vd_field (snd w)) = s \<and> vd_vector_name (snd w) = vc_name config) ss ws"
    using assign_slots_all [OF assms(2)] by (rule list_all2_mono) (use assms(1) in blast)
  then show "map (\<lambda>w. (fst w, vd_field (snd w))) ws = ss" "\<forall>w\<in>set ws. vd_vector_name (snd w) = vc_name config"
    by (induction ss ws rule: list_all2_induct) auto
qed

lemma dense_slot_key: "dense_slot config s v = Inr w \<Longrightarrow> (fst w, vd_field (snd w)) = s \<and> vd_vector_name (snd w) = vc_name config"
  by (auto simp: dense_slot_def split: option.splits if_splits)

lemma sparse_slot_key: "sparse_slot config s v = Inr w \<Longrightarrow> (fst w, vd_field (snd w)) = s \<and> vd_vector_name (snd w) = vc_name config"
  by (auto simp: sparse_slot_def)

lemma collect_panicking_length: "collect_panicking rs = Some (Inr xs) \<Longrightarrow> length xs = length rs"
  by (induction rs arbitrary: xs) (auto split: option.splits sum.splits)

lemma collect_panicking_total: "None \<notin> set rs \<Longrightarrow> collect_panicking rs \<noteq> None"
proof (induction rs)
  case (Cons r rs)
  then obtain x where "r = Some x" by (cases r) auto
  with Cons show ?case by (cases x) auto
qed simp

lemma get_sparse_vector_length:
  "length avgdls = length docs \<Longrightarrow> get_sparse_vector em config docs avgdls w = Some (Inr vs) \<Longrightarrow> length vs = length docs"
  using collect_panicking_length by (fastforce simp: get_sparse_vector_def)

lemma route_lengths:
  assumes "embedders_ok em"
  shows "route_embed_dispatch em config docs avgdls w = Some (Inr (RDense vs)) \<Longrightarrow> length vs = length docs"
    and "avgdls = (if is_custom_tokenization (vc_type config) then Some av else None) \<Longrightarrow> length av = length docs \<Longrightarrow>
         route_embed_dispatch em config docs avgdls w = Some (Inr (RSparse ss)) \<Longrightarrow> length ss = length docs"
  using assms get_sparse_vector_length
  by (auto simp: route_embed_dispatch_def embedders_ok_def is_custom_tokenization_def
      split: vector_type.splits if_splits option.splits)

definition good_result :: "vector_config_internal \<Rightarrow> document_field list \<Rightarrow> nat \<Rightarrow> (string + doc_vectors_lengths list) option \<Rightarrow> bool" where
  "good_result config slots n r \<longleftrightarrow>
     (\<forall>rs. r = Some (Inr rs) \<longrightarrow> length rs = n \<and> (\<forall>i<n. covers_slots config slots (fst (rs ! i))))"

lemma dense_model_vectors_good:
  shows "good_result config slots (length documents) (dense_model_vectors em config slots documents)"
proof -
  let ?es = "embed_slots config slots documents"
  let ?in = "collect_result (map (\<lambda>(i, f). text_for_slot (em_num_str em) config (documents ! i) f) ?es)"
  show ?thesis
  proof (cases ?in)
    case (Inr texts)
    have len: "length texts = length ?es" using collect_result_length [OF Inr] by simp
    let ?r = "if texts = [] then Some (Inr [])
           else case route_embed_dispatch em config texts None DEFAULT_WMTR_TRIGRAM_WEIGHT of
                  None \<Rightarrow> None
                | Some (Inl e) \<Rightarrow> Some (Inl e)
                | Some (Inr (RDense vs)) \<Rightarrow> assign_slots (dense_slot config) ?es vs
                | Some (Inr (RSparse _)) \<Rightarrow>
                    Some (Inl (''dense_model vector '' @ quoted (vc_name config) @ '' routed to non-dense embedding''))"
    have ok: "covers_slots config slots (provided_slots config slots (documents ! i) @ embedded_of i ws)"
      if w: "?r = Some (Inr ws)" "i < length documents" for ws i
    proof (cases "texts = []")
      case True
      then have "ws = []" "?es = []" using w len by auto
      then show ?thesis using covers_embedded [of ws config slots documents i] w(2) by simp
    next
      case False
      then obtain vs where vs: "assign_slots (dense_slot config) ?es vs = Some (Inr ws)"
        using w(1) by (auto split: option.splits sum.splits routed_embed.splits if_splits)
      show ?thesis by (rule covers_embedded [OF assign_keys [OF dense_slot_key vs] w(2)])
    qed
    show ?thesis
      using ok unfolding good_result_def dense_model_vectors_def Let_def Inr sum.case
      by (auto simp: nth_enumerate_eq split del: if_split)
  qed (simp add: good_result_def dense_model_vectors_def)
qed

lemma sparse_vectors_good:
  shows "good_result config slots (length documents) (sparse_vectors em config avgdl_dict slots documents)"
proof -
  let ?es = "embed_slots config slots documents"
  let ?in = "collect_result (map (\<lambda>(i, f). slot_input em config avgdl_dict (documents ! i) f) ?es)"
  show ?thesis
  proof (cases ?in)
    case (Inr inputs)
    have len: "length inputs = length ?es" using collect_result_length [OF Inr] by simp
    let ?av = "if is_custom_tokenization (vc_type config) then Some (map snd inputs) else None"
    let ?r = "if inputs = [] then Some (Inr [])
           else case route_embed_dispatch em config (map fst inputs) ?av DEFAULT_WMTR_TRIGRAM_WEIGHT of
                  None \<Rightarrow> None
                | Some (Inl e) \<Rightarrow> Some (Inl e)
                | Some (Inr (RSparse vs)) \<Rightarrow> assign_slots (sparse_slot config) ?es vs
                | Some (Inr (RDense _)) \<Rightarrow>
                    Some (Inl (''sparse vector '' @ quoted (vc_name config) @ '' routed to dense embedding''))"
    have ok: "covers_slots config slots (provided_slots config slots (documents ! i) @ embedded_of i ws)"
      if w: "?r = Some (Inr ws)" "i < length documents" for ws i
    proof (cases "inputs = []")
      case True
      then have "ws = []" "?es = []" using w len by auto
      then show ?thesis using covers_embedded [of ws config slots documents i] w(2) by simp
    next
      case False
      then obtain vs where vs: "assign_slots (sparse_slot config) ?es vs = Some (Inr ws)"
        using w(1) by (auto split: option.splits sum.splits routed_embed.splits if_splits)
      show ?thesis by (rule covers_embedded [OF assign_keys [OF sparse_slot_key vs] w(2)])
    qed
    show ?thesis
      using ok unfolding good_result_def sparse_vectors_def Let_def Inr sum.case
      by (auto simp: nth_enumerate_eq split del: if_split)
  qed (simp add: good_result_def sparse_vectors_def)
qed

lemma covers_per_document:
  assumes "collect_result (map (\<lambda>doc. and_then (X doc) (\<lambda>fs. Inr (V fs, L fs))) documents) = Inr rs"
    and "\<And>doc fs. X doc = Inr fs \<Longrightarrow> covers_slots config slots (V fs)"
  shows "length rs = length documents \<and> (\<forall>i<length documents. covers_slots config slots (fst (rs ! i)))"
proof -
  have "covers_slots config slots (fst (rs ! i))" if "i < length documents" for i
  proof -
    have "and_then (X (documents ! i)) (\<lambda>fs. Inr (V fs, L fs)) = Inr (rs ! i)"
      using collect_result_nth [OF assms(1), of i] that by (simp del: and_then_eq_Inr)
    then obtain fs where "X (documents ! i) = Inr fs" "rs ! i = (V fs, L fs)" by auto
    then show ?thesis using assms(2) by simp
  qed
  then show ?thesis using collect_result_length [OF assms(1)] by simp
qed

lemma collect_fields: "collect_result (map F fs) = Inr xs \<Longrightarrow> (\<And>f x. F f = Inr x \<Longrightarrow> fst x = f) \<Longrightarrow> map fst xs = fs"
  by (induction fs arbitrary: xs) auto

lemma extract_fields:
  "extract_for_document kind F config doc = Inr xs \<Longrightarrow> (\<And>cvs f x. F cvs f = Inr x \<Longrightarrow> fst x = f) \<Longrightarrow>
   vector_index_fields config = Inr slots \<Longrightarrow> map fst xs = slots"
  by (auto simp: extract_for_document_def intro: collect_fields)

lemma extract_field_name:
  "extract_dense_field em config cvs f = Inr x \<Longrightarrow> fst x = f"
  "extract_sparse_field em config cvs f = Inr y \<Longrightarrow> fst y = f"
  by (auto simp: extract_dense_field_def extract_sparse_field_def split: option.splits if_splits)

lemma covers_mk: "map fst fs = slots \<Longrightarrow>
  covers_slots config slots (map (\<lambda>(f, v). mk_vector_data config f (A v) (B v) (C v)) fs)"
  by (auto simp: covers_slots_def case_prod_beta multiset.map_comp o_def)

lemma config_vectors_good:
  assumes "vector_index_fields config = Inr slots"
  shows "good_result config slots (length documents) (config_vectors em config avgdl_dict slots documents)"
proof -
  have dense: "covers_slots config slots (map (\<lambda>(f, v). mk_vector_data config f (Some v) None None) fs)"
    if "extract_for_document ''dense'' (extract_dense_field em config) config doc = Inr fs" for doc fs
    using extract_fields [OF that _ assms] extract_field_name(1) by (intro covers_mk) blast
  have sparse: "covers_slots config slots (map (\<lambda>(f, v). mk_vector_data config f None (Some (fst v)) (Some (snd v))) fs)"
    if "extract_for_document ''sparse'' (extract_sparse_field em config) config doc = Inr fs" for doc fs
    using extract_fields [OF that _ assms] extract_field_name(2) by (intro covers_mk) blast
  have "length rs = length documents \<and> (\<forall>i<length documents. covers_slots config slots (fst (rs ! i)))"
    if "vc_type config = DenseCustom" "config_vectors em config avgdl_dict slots documents = Some (Inr rs)" for rs
    using covers_per_document [OF _ dense] that by (simp add: config_vectors_def)
  moreover have "length rs = length documents \<and> (\<forall>i<length documents. covers_slots config slots (fst (rs ! i)))"
    if "vc_type config = SparseCustom" "config_vectors em config avgdl_dict slots documents = Some (Inr rs)" for rs
    using covers_per_document [OF _ sparse] that by (simp add: config_vectors_def)
  ultimately show ?thesis
    using dense_model_vectors_good sparse_vectors_good
    by (cases "vc_type config") (simp_all add: config_vectors_def good_result_def)
qed

lemma vectorize_single_good:
  "vectorize_single_config em config documents avgdl_dict = Some (Inr rs) \<Longrightarrow>
    \<exists>slots. vector_index_fields config = Inr slots \<and> length rs = length documents \<and>
      (\<forall>i<length documents. covers_slots config slots (fst (rs ! i)))"
  using config_vectors_good
  by (auto simp: vectorize_single_config_def good_result_def split: sum.splits)

lemma concat_chunks: "0 < n \<Longrightarrow> concat (chunks n xs) = xs"
  by (induction n xs rule: chunks.induct) (subst chunks.simps, simp)

lemma those_all_Some: "\<forall>x\<in>set xs. f x \<noteq> None \<Longrightarrow> those (map f xs) = Some (map (the \<circ> f) xs)"
  by (induction xs) auto

lemma those_Some_iff: "those xs = Some ys \<longleftrightarrow> xs = map Some ys"
  by (induction xs arbitrary: ys) (auto split: option.splits)

lemma chunk_size_pos: "0 < threads \<Longrightarrow> 1 < n \<Longrightarrow> 0 < (n + min threads n - 1) div min threads n"
  for n :: nat
  by (simp add: div_greater_zero_iff)

lemma per_config_results_no_panic:
  assumes "0 < threads" "\<forall>c\<in>set configs. vectorize_single_config em c documents avgdl_dict \<noteq> None"
  shows "per_config_results em threads documents configs avgdl_dict =
    Some (map (\<lambda>config. the (vectorize_single_config em config documents avgdl_dict)) configs)"
proof -
  let ?run = "\<lambda>config. vectorize_single_config em config documents avgdl_dict"
  have t: "those (map ?run cs) = Some (map (the \<circ> ?run) cs)" if "set cs \<subseteq> set configs" for cs
    using assms(2) that by (intro those_all_Some) blast
  show ?thesis
  proof (cases "length configs > 1")
    case True
    let ?n = "(length configs + min threads (length configs) - 1) div min threads (length configs)"
    have n: "0 < ?n" by (rule chunk_size_pos [OF assms(1) True])
    have "thread_results (map ?run c) = map (the \<circ> ?run) c" if "c \<in> set (chunks ?n configs)" for c
    proof -
      have "set c \<subseteq> set (concat (chunks ?n configs))" using that by auto
      then have "set c \<subseteq> set configs" unfolding concat_chunks [OF n] .
      from t [OF this] show ?thesis by (simp add: thread_results_def)
    qed
    then have "concat (map (\<lambda>c. thread_results (map ?run c)) (chunks ?n configs)) = map (the \<circ> ?run) (concat (chunks ?n configs))"
      by (simp add: map_concat cong: map_cong)
    then show ?thesis using True concat_chunks [OF n, of configs] by (simp add: per_config_results_def Let_def o_def)
  next
    case False
    then show ?thesis using t [of configs] by (simp add: per_config_results_def o_def)
  qed
qed

lemma thread_results_Inr:
  assumes "thread_results (map run cs) = map Inr rs"
  shows "map run cs = map (Some \<circ> Inr) rs"
proof (cases "those (map run cs)")
  case None
  then show ?thesis using assms by (cases rs) (auto simp: thread_results_def)
next
  case (Some xs)
  then have "xs = map Inr rs" using assms by (simp add: thread_results_def)
  then show ?thesis using Some by (simp add: those_Some_iff)
qed

lemma concat_threads_Inr:
  "concat (map (\<lambda>c. thread_results (map run c)) css) = map Inr rs \<Longrightarrow> map run (concat css) = map (Some \<circ> Inr) rs"
proof (induction css arbitrary: rs)
  case (Cons c css)
  then obtain as bs where "rs = as @ bs" "thread_results (map run c) = map Inr as"
      "concat (map (\<lambda>c. thread_results (map run c)) css) = map Inr bs"
    by (auto simp: append_eq_map_conv)
  then show ?case using Cons.IH [of bs] thread_results_Inr [of run c as] by simp
qed simp

lemma per_config_results_Inr:
  assumes "0 < threads" "per_config_results em threads documents configs avgdl_dict = Some results" "collect_result results = Inr rs"
  shows "map (\<lambda>config. vectorize_single_config em config documents avgdl_dict) configs = map (Some \<circ> Inr) rs"
proof -
  let ?run = "\<lambda>config. vectorize_single_config em config documents avgdl_dict"
  have r: "results = map Inr rs" using assms(3) by (simp add: collect_result_eq_Inr)
  show ?thesis
  proof (cases "length configs > 1")
    case True
    let ?n = "(length configs + min threads (length configs) - 1) div min threads (length configs)"
    have "concat (map (\<lambda>c. thread_results (map ?run c)) (chunks ?n configs)) = map Inr rs"
      using assms(2) True r by (simp add: per_config_results_def Let_def)
    from concat_threads_Inr [OF this] show ?thesis
      unfolding concat_chunks [OF chunk_size_pos [OF assms(1) True]] .
  next
    case False
    then show ?thesis using assms(2) r by (simp add: per_config_results_def those_Some_iff)
  qed
qed

lemma set_doc_sel [simp]:
  "doc_id (set_doc_vectors v d) = doc_id d" "doc_timestamp (set_doc_vectors v d) = doc_timestamp d"
  "doc_vectors (set_doc_vectors v d) = v" "doc_token_lengths (set_doc_vectors v d) = doc_token_lengths d"
  "doc_id (set_doc_token_lengths tls d) = doc_id d" "doc_timestamp (set_doc_token_lengths tls d) = doc_timestamp d"
  "doc_vectors (set_doc_token_lengths tls d) = doc_vectors d" "doc_token_lengths (set_doc_token_lengths tls d) = tls"
  "doc_id (set_doc_joined j d) = doc_id d" "doc_timestamp (set_doc_joined j d) = doc_timestamp d"
  "doc_vectors (set_doc_joined j d) = doc_vectors d" "doc_token_lengths (set_doc_joined j d) = doc_token_lengths d"
  by (cases d; simp)+

definition slots_of :: "vector_config_internal \<Rightarrow> document_field list" where
  "slots_of config = (case vector_index_fields config of Inr slots \<Rightarrow> slots | Inl _ \<Rightarrow> [])"

lemma vectorize_documents_nth:
  assumes "0 < threads" "vectorize_documents em threads documents configs avgdl_dict = Some (Inr out)"
  shows "length out = length documents \<and> (\<forall>i<length documents.
    doc_id (out ! i) = doc_id (documents ! i) \<and> doc_timestamp (out ! i) = doc_timestamp (documents ! i) \<and>
    (\<exists>vds. doc_vectors (out ! i) = Some vds \<and>
       mset (map (\<lambda>vd. vd_key vd) vds) = mset (concat (map (\<lambda>c. map (Pair (vc_name c)) (slots_of c)) configs))))"
proof -
  obtain results rs where rs: "per_config_results em threads documents configs avgdl_dict = Some results" "collect_result results = Inr rs"
    and out: "out = map (\<lambda>(i, doc). set_doc_joined None (set_doc_token_lengths (snd (merge_configs i rs))
                  (set_doc_vectors (Some (fst (merge_configs i rs))) doc))) (enumerate 0 documents)"
    using assms(2) by (auto simp: vectorize_documents_def)
  note runs = per_config_results_Inr [OF assms(1) rs]
  have "list_all2 (\<lambda>c r. covers_slots c (slots_of c) (fst (r ! i))) configs rs" if i: "i < length documents" for i
  proof (rule list_all2_all_nthI)
    show len: "length configs = length rs" using arg_cong [OF runs, of length] by simp
    fix n assume n: "n < length configs"
    then have "vectorize_single_config em (configs ! n) documents avgdl_dict = Some (Inr (rs ! n))"
      using arg_cong [OF runs, of "\<lambda>xs. xs ! n"] len by simp
    from vectorize_single_good [OF this] show "covers_slots (configs ! n) (slots_of (configs ! n)) (fst (rs ! n ! i))"
      using i by (auto simp: slots_of_def)
  qed
  note * = this
  have "mset (map (\<lambda>vd. vd_key vd) (concat (map (\<lambda>r. fst (r ! i)) rs))) =
      mset (concat (map (\<lambda>c. map (Pair (vc_name c)) (slots_of c)) configs))" if "i < length documents" for i
  proof -
    have "list_all2 (\<lambda>c r. covers_slots c (slots_of c) (fst (r ! i))) configs rs" using that * by blast
    then show ?thesis by (induction configs rs rule: list_all2_induct) (auto simp: covers_slots_def)
  qed
  then show ?thesis by (simp add: out nth_enumerate_eq merge_configs_def)
qed

text \<open>
  C5: vectorization gives every document exactly the vectors the configuration asks for. On any number
  of threads, a successful call returns the documents in order, and each has exactly one vector for every
  slot of every configured vector and no other, whether the vector was computed or came with the document.
\<close>

theorem vectorize_covers_slots:
  assumes "0 < threads" "vectorize_documents em threads documents configs avgdl_dict = Some (Inr out)"
  shows "length out = length documents \<and> (\<forall>i<length documents.
    doc_id (out ! i) = doc_id (documents ! i) \<and> doc_timestamp (out ! i) = doc_timestamp (documents ! i) \<and>
    (\<exists>vds. doc_vectors (out ! i) = Some vds \<and>
       mset (map (\<lambda>vd. vd_key vd) vds) = mset (concat (map (\<lambda>c. map (Pair (vc_name c)) (slots_of c)) configs))))"
  by (rule vectorize_documents_nth [OF assms])

section \<open>No panic\<close>

text \<open>A Rust string is not astronomically long and starts at a character.\<close>

definition rust_text :: "string \<Rightarrow> bool" where
  "rust_text text \<longleftrightarrow> length text < 2 ^ 60 \<and> (text = [] \<or> \<not> is_continuation (hd text))"

definition config_ok :: "embedders \<Rightarrow> document list \<Rightarrow> (string, fp) hash_map option \<Rightarrow> vector_config_internal \<Rightarrow> bool" where
  "config_ok em documents avgdl_dict config \<longleftrightarrow>
     vc_top_k config < 2 ^ 24 \<and> vc_wmtr_word_ratio config \<le> 100 \<and>
     (\<forall>d\<in>set documents. \<forall>f t. text_for_slot (em_num_str em) config d f = Inr t \<longrightarrow> rust_text (preprocess_text (em_text em) t)) \<and>
     (\<forall>table k v. avgdl_dict = Some table \<longrightarrow> map_of table k = Some v \<longrightarrow> fpos (as_f32 v))"

lemma get_sparse_vector_single_calm:
  assumes "text_lib_ok (em_text em)" "rust_text text" "fpos (as_f32 avgdl)"
    "vc_top_k config < 2 ^ 24" "vc_wmtr_word_ratio config \<le> 100" "as_f32 w = Finite False c" "0 \<le> c"
  shows "get_sparse_vector_single em config text avgdl w \<noteq> None"
proof -
  have t: "length text < 2 ^ 60" "text = [] \<or> \<not> is_continuation (hd text)" using assms(2) by (auto simp: rust_text_def)
  have "tokenize_trigrams (em_text em) text (vc_top_k config) (as_f32 avgdl) \<noteq> None"
    "tokenize_whitespace (em_text em) text lang (vc_top_k config) True (as_f32 avgdl) \<noteq> None"
    "tokenize_fulltext (em_text em) text lang (vc_top_k config) True (as_f32 avgdl) \<noteq> None"
    "tokenize_wmtr (em_text em) text lang (vc_top_k config) (vc_wmtr_word_ratio config) True (as_f32 avgdl) (as_f32 w) \<noteq> None" for lang
    using trigrams_sparse [OF assms(1) t(1) assms(3), of "vc_top_k config"]
      word_tokenizers_sparse [OF assms(1) t(1) assms(3), of lang "vc_top_k config" True]
      wmtr_sparse [OF assms(1) t assms(3,7,4,5), of lang True] assms(6) by auto
  then show ?thesis by (simp add: get_sparse_vector_single_def split: sum.splits)
qed

lemma default_trigram_weight: "as_f32 DEFAULT_WMTR_TRIGRAM_WEIGHT = Finite False 1"
  using fp_of_nat_exact [of 1] f32_consts(2) by (simp add: DEFAULT_WMTR_TRIGRAM_WEIGHT_def fp_of_nat_def fp_of_rat_def)

lemma route_calm:
  assumes "text_lib_ok (em_text em)" "vc_top_k config < 2 ^ 24" "vc_wmtr_word_ratio config \<le> 100"
    and "is_custom_tokenization (vc_type config) \<Longrightarrow>
      \<forall>(t, a)\<in>set inputs. rust_text (preprocess_text (em_text em) t) \<and> fpos (as_f32 a)"
  shows "route_embed_dispatch em config (map fst inputs)
    (if is_custom_tokenization (vc_type config) then Some (map snd inputs) else None) DEFAULT_WMTR_TRIGRAM_WEIGHT \<noteq> None"
proof (cases "is_custom_tokenization (vc_type config)")
  case True
  have "get_sparse_vector_single em config (preprocess_text (em_text em) t) a DEFAULT_WMTR_TRIGRAM_WEIGHT \<noteq> None"
    if "(t, a) \<in> set inputs" for t a
    using assms(4) [OF True] that get_sparse_vector_single_calm [OF assms(1) _ _ assms(2,3) default_trigram_weight]
    by fastforce
  then have "None \<notin> set (map (\<lambda>(t, a). get_sparse_vector_single em config (preprocess_text (em_text em) t) a DEFAULT_WMTR_TRIGRAM_WEIGHT) inputs)"
    by force
  from collect_panicking_total [OF this]
  have "get_sparse_vector em config (map fst inputs) (map snd inputs) DEFAULT_WMTR_TRIGRAM_WEIGHT \<noteq> None"
    by (simp add: get_sparse_vector_def zip_map_fst_snd)
  then show ?thesis using True by (auto simp: route_embed_dispatch_def is_custom_tokenization_def split: vector_type.splits)
next
  case False
  then show ?thesis by (auto simp: route_embed_dispatch_def is_custom_tokenization_def split: vector_type.splits)
qed

lemma dense_calm: "embedders_ok em \<Longrightarrow> vc_type config = DenseModel \<Longrightarrow> dense_model_vectors em config slots documents \<noteq> None"
proof -
  assume em: "embedders_ok em" and t: "vc_type config = DenseModel"
  let ?es = "embed_slots config slots documents"
  show ?thesis
  proof (cases "collect_result (map (\<lambda>(i, f). text_for_slot (em_num_str em) config (documents ! i) f) ?es)")
    case (Inr texts)
    have "length texts = length ?es" using collect_result_length [OF Inr] by simp
    then have "assign_slots (dense_slot config) ?es vs \<noteq> None" if "em_dense_model em config texts = Inr vs" for vs
      using em that by (intro assign_slots_total) (simp add: embedders_ok_def)
    then show ?thesis using Inr t
      by (auto simp: dense_model_vectors_def route_embed_dispatch_def Let_def split: sum.splits)
  qed (simp add: dense_model_vectors_def)
qed

lemma sparse_calm:
  assumes "embedders_ok em" "text_lib_ok (em_text em)" "config_ok em documents avgdl_dict config"
  shows "sparse_vectors em config avgdl_dict slots documents \<noteq> None"
proof -
  let ?es = "embed_slots config slots documents"
  show ?thesis
  proof (cases "collect_result (map (\<lambda>(i, f). slot_input em config avgdl_dict (documents ! i) f) ?es)")
    case (Inr inputs)
    have len: "length inputs = length ?es" using collect_result_length [OF Inr] by simp
    let ?av = "if is_custom_tokenization (vc_type config) then Some (map snd inputs) else None"
    have es: "i < length documents" if "(i, f) \<in> set ?es" for i f
      using that by (auto simp: embed_slots_def in_set_enumerate_eq)
    have "rust_text (preprocess_text (em_text em) t) \<and> fpos (as_f32 a)"
      if c: "is_custom_tokenization (vc_type config)" and ta: "(t, a) \<in> set inputs" for t a
    proof -
      obtain i f where "(i, f) \<in> set ?es" "slot_input em config avgdl_dict (documents ! i) f = Inr (t, a)"
        using Inr ta by (auto simp: collect_result_eq_Inr list_eq_iff_nth_eq in_set_conv_nth case_prod_beta) (metis nth_mem prod.collapse)
      then show ?thesis using assms(3) c nth_mem [OF es [of i f]]
        by (auto simp: slot_input_def avgdl_for_def config_ok_def ok_or_def split: option.splits)
    qed
    then have route: "route_embed_dispatch em config (map fst inputs) ?av DEFAULT_WMTR_TRIGRAM_WEIGHT \<noteq> None"
      using assms(2,3) by (intro route_calm) (auto simp: config_ok_def)
    have "assign_slots (sparse_slot config) ?es vs \<noteq> None"
      if "route_embed_dispatch em config (map fst inputs) ?av DEFAULT_WMTR_TRIGRAM_WEIGHT = Some (Inr (RSparse vs))" for vs
      using route_lengths(2) [OF assms(1) refl _ that] len by (intro assign_slots_total) simp
    moreover obtain r where r: "route_embed_dispatch em config (map fst inputs) ?av DEFAULT_WMTR_TRIGRAM_WEIGHT = Some r"
      using route by blast
    ultimately show ?thesis unfolding sparse_vectors_def Let_def Inr sum.case r option.case
      by (auto simp del: not_None_eq split: sum.splits routed_embed.splits)
  qed (simp add: sparse_vectors_def)
qed

lemma vectorize_single_calm:
  assumes "embedders_ok em" "text_lib_ok (em_text em)" "config_ok em documents avgdl_dict config"
  shows "vectorize_single_config em config documents avgdl_dict \<noteq> None"
  using dense_calm [OF assms(1)] sparse_calm [OF assms]
  by (cases "vc_type config") (auto simp: vectorize_single_config_def config_vectors_def split: sum.splits)

text \<open>
  Vectorization does not panic. When the models return one vector per text, the libraries behave as
  documented and the stored average lengths are positive, the tokenizers meet no NaN and no index is out of
  range: the configurations are computed one by one or on any number of threads with the same results, and
  no thread fails.
\<close>

theorem vectorize_no_panic:
  assumes "embedders_ok em" "text_lib_ok (em_text em)" "0 < threads" "\<forall>c\<in>set configs. config_ok em documents avgdl_dict c"
  shows "per_config_results em threads documents configs avgdl_dict =
      Some (map (\<lambda>config. the (vectorize_single_config em config documents avgdl_dict)) configs) \<and>
    (\<forall>c\<in>set configs. vectorize_single_config em c documents avgdl_dict \<noteq> None) \<and>
    vectorize_documents em threads documents configs avgdl_dict \<noteq> None"
proof -
  have calm: "\<forall>c\<in>set configs. vectorize_single_config em c documents avgdl_dict \<noteq> None"
    using vectorize_single_calm [OF assms(1,2)] assms(4) by blast
  show ?thesis using per_config_results_no_panic [OF assms(3) calm] calm by (simp add: vectorize_documents_def)
qed

definition example_embedders :: embedders where
  "example_embedders =
     \<lparr>em_dense_model = (\<lambda>_ texts. Inr (map (\<lambda>_. []) texts)), em_sparse_model = (\<lambda>_ texts _. Inr (map (\<lambda>_. ([], [])) texts)),
      em_text = example_lib, em_whatlang = (\<lambda>_. None),
      em_dense_json = (\<lambda>_. Inl ''x''), em_sparse_json = (\<lambda>_. Inl ''x''), em_num_str = (\<lambda>_. [])\<rparr>"

definition example_document :: "string \<Rightarrow> int \<Rightarrow> document" where
  "example_document i t = Document i t None (Some ''n'') None None None None None None None []"

definition example_vector_config :: vector_config_internal where
  "example_vector_config = vector_config_into_internal (hd default_noop_vectors)"

lemma example_vector_config_simps:
  "vc_name example_vector_config = ''noop''" "vc_type example_vector_config = Noop"
  "vector_index_fields example_vector_config = Inr [FName]" "uses_templates example_vector_config = False"
  by (simp_all add: example_vector_config_def into_internal_fields default_noop_vectors_def vector_index_fields_def
      uses_templates_def vector_config_into_internal_def vector_config.defs vector_config_internal.defs)

lemma example_vectorize:
  "vectorize_documents example_embedders 1 [example_document i t] [example_vector_config] (Some [(''name_noop'', f64 50)]) =
     Some (Inr [Document i t None (Some ''n'') None None None None None None
       (Some [mk_vector_data example_vector_config FName None (Some []) (Some [])]) [(''name_noop'', 0)]])"
  by (simp add: vectorize_documents_def per_config_results_def vectorize_single_config_def example_vector_config_simps
      config_vectors_def sparse_vectors_def embed_slots_def missing_slots_def provided_map_def provided_slots_def
      example_document_def slot_input_def text_for_slot_def avgdl_for_def is_custom_tokenization_def
      field_vector_name_def route_embed_dispatch_def get_sparse_vector_def get_sparse_vector_single_def
      sparse_slot_def merge_configs_def embedded_of_def add_token_length_def merge_lengths_def mk_vector_data_def
      sparse_types_contains_def List.map_filter_simps unwrap_or_def)

theorem vectorize_covers_slots_witness:
  "mset (map (\<lambda>vd. vd_key vd) [mk_vector_data example_vector_config FName None (Some []) (Some [])]) =
     mset (map (Pair (vc_name example_vector_config)) (slots_of example_vector_config))"
  using vectorize_covers_slots [OF _ example_vectorize, of "''a''" 1] by simp

theorem vectorize_no_panic_witness:
  "vectorize_documents example_embedders 1 [example_document ''a'' 1] [example_vector_config] (Some [(''name_noop'', f64 50)]) \<noteq> None"
proof -
  have "embedders_ok example_embedders" by (simp add: embedders_ok_def example_embedders_def)
  moreover have "text_lib_ok (em_text example_embedders)" by (simp add: example_embedders_def example_lib_ok)
  moreover have "fpos (as_f32 (f64 50))"
    using fp_of_nat_exact [of 50] f32_small [of 50] by (simp add: fp_of_nat_def fp_of_rat_def fpos_def)
  moreover have "text_for_slot n example_vector_config (example_document ''a'' 1) f = Inr t \<Longrightarrow> t \<in> {'''', ''n''}" for n f t
    by (cases f) (auto simp: text_for_slot_def get_field_text_def example_document_def example_vector_config_def
      vector_config_into_internal_def default_noop_vectors_def unwrap_or_def vector_config.defs vector_config_internal.defs ok_or_def)
  moreover have "rust_text (preprocess_text example_lib '''')" "rust_text (preprocess_text example_lib ''n'')"
    by (simp_all add: preprocess_text_def example_lib_def trim_plain plain_def byte_of_def utf8_chars.simps rust_text_def
      is_continuation_def is_whitespace_def white_space_def)
  moreover have "vc_top_k example_vector_config < 2 ^ 24" "vc_wmtr_word_ratio example_vector_config \<le> 100"
    by (simp_all add: example_vector_config_def vector_config_into_internal_def default_noop_vectors_def
      vector_config.defs vector_config_internal.defs DEFAULT_TOP_K_def DEFAULT_WMTR_WORD_WEIGHT_PERCENTAGE_def)
  ultimately have "\<forall>c\<in>set [example_vector_config]. config_ok example_embedders [example_document ''a'' 1] (Some [(''name_noop'', f64 50)]) c"
    by (force simp: config_ok_def example_embedders_def)
  from vectorize_no_panic [OF \<open>embedders_ok example_embedders\<close> \<open>text_lib_ok (em_text example_embedders)\<close> _ this, of 1]
  show ?thesis by simp
qed

end
