(* ===== verification/Queue_Poller.thy ===== *)
theory Queue_Poller
  imports Fusion Metadata_Filter
begin

text \<open>
  The standalone ingestion poller, \<open>src/src/queue_poller.rs\<close>. The calls of the poller on the queue
  collection (\<open>update_queue_status\<close>, \<open>delete_from_queue\<close>) are the events of a run; what the
  upsert and delete workers answer, whether a status update fails and the iteration order of the
  map of collections are the record \<open>poller_env\<close>. One iteration of the polling loop is
  \<open>poll_iteration\<close>. Timestamps are nanoseconds, durations are seconds as \<open>f64\<close> or milliseconds.
\<close>

section \<open>Errors\<close>

datatype upsert_sync_error =
    UNotFound string
  | UDb db_error
  | UValidation string
  | UVectorization string
  | UQueueCollectionMismatch string
  | UIngressQueueFull string
  | UIngressWorkerExited string
  | UQueueEntryGone

fun db_error_str :: "db_error \<Rightarrow> string" where
  "db_error_str (NotFound msg) = ''Not found: '' @ msg"
| "db_error_str (Qdrant e) = ''Qdrant error: '' @ e"
| "db_error_str (Config msg) = ''Config error: '' @ msg"

fun upsert_error_str :: "upsert_sync_error \<Rightarrow> string" where
  "upsert_error_str (UNotFound m) = m"
| "upsert_error_str (UDb e) = db_error_str e"
| "upsert_error_str (UValidation m) = m"
| "upsert_error_str (UVectorization m) = m"
| "upsert_error_str (UQueueCollectionMismatch m) = m"
| "upsert_error_str (UIngressQueueFull m) = m"
| "upsert_error_str (UIngressWorkerExited m) = m"
| "upsert_error_str UQueueEntryGone = ''queue entry already removed''"

record bulk_upsert_outcome =
  buo_skipped :: "string list"
  buo_drained :: "string list"

record queue_verify =
  qv_queue_id :: string
  qv_collection_id :: string

section \<open>Retries and idling\<close>

definition MAX_QUEUE_DELIVERY_ATTEMPTS :: nat where "MAX_QUEUE_DELIVERY_ATTEMPTS = 4"
definition MAX_DB_RETRIES :: nat where "MAX_DB_RETRIES = 200"
definition QUEUE_POLLER_BATCH_SIZE :: nat where "QUEUE_POLLER_BATCH_SIZE = 192"
definition QUEUE_POLLER_IDLE_MS :: nat where "QUEUE_POLLER_IDLE_MS = 1000"
definition QUEUE_POLLER_IDLE_MAX_MS :: nat where "QUEUE_POLLER_IDLE_MAX_MS = 16000"

definition MAX_RETRY_SLEEP_SECONDS :: fp where "MAX_RETRY_SLEEP_SECONDS = f64 20"

definition wrapping_mul32 :: "nat \<Rightarrow> nat \<Rightarrow> nat" where
  "wrapping_mul32 a b = a * b mod 2 ^ 32"

definition retry_delay_secs :: "nat \<Rightarrow> fp" where
  "retry_delay_secs try_count =
     (let base = f64_mul (f64 2) (fp_of_nat binary64 try_count);
          jitter = f64_add (f64 (1 / 10))
                     (f64_div (fp_of_nat binary64 (wrapping_mul32 try_count 2654435761 mod 1400)) (f64 1000))
      in fp_min (f64_add base jitter) MAX_RETRY_SLEEP_SECONDS)"

text \<open>\<open>num_milliseconds\<close> of a duration in nanoseconds truncates toward zero.\<close>

definition num_milliseconds :: "int \<Rightarrow> int" where
  "num_milliseconds ns = (if ns < 0 then - ((- ns) div 1000000) else ns div 1000000)"

definition backoff_elapsed :: "int \<Rightarrow> queue_document \<Rightarrow> bool" where
  "backoff_elapsed now entry =
     (if qd_try_count entry = 0 then True
      else fp_le (retry_delay_secs (qd_try_count entry))
             (f64_div (fp_of_int binary64 (num_milliseconds (now - qd_timestamp entry))) (f64 1000)))"

definition saturating_succ32 :: "nat \<Rightarrow> nat" where
  "saturating_succ32 n = min (n + 1) (2 ^ 32 - 1)"

definition next_idle_ms :: "nat \<Rightarrow> nat" where
  "next_idle_ms idle_ms = min (min (idle_ms * 2) (2 ^ 64 - 1)) QUEUE_POLLER_IDLE_MAX_MS"

section \<open>Events and outcomes\<close>

datatype queue_event =
    UpdateStatus string nat queued_document_status string
  | DeleteRows "string list"

definition outcome_status :: "upsert_sync_error \<Rightarrow> nat \<Rightarrow> queued_document_status option" where
  "outcome_status err new_try =
     (case err of
        UQueueEntryGone \<Rightarrow> None
      | UValidation _ \<Rightarrow> Some Failed
      | UQueueCollectionMismatch _ \<Rightarrow> Some Failed
      | UNotFound _ \<Rightarrow> Some Failed
      | UVectorization _ \<Rightarrow>
          Some (if new_try < MAX_QUEUE_DELIVERY_ATTEMPTS then Requeued else Failed)
      | _ \<Rightarrow> Some (if new_try < MAX_DB_RETRIES then Requeued else Failed))"

definition mark_outcome :: "queue_document \<Rightarrow> upsert_sync_error \<Rightarrow> queue_event list" where
  "mark_outcome entry err =
     (let new_try = saturating_succ32 (qd_try_count entry) in
      case outcome_status err new_try of
        None \<Rightarrow> []
      | Some status \<Rightarrow> [UpdateStatus (qd_queue_id entry) new_try status (upsert_error_str err)])"

record upsert_work =
  uw_entry :: queue_document
  uw_document :: document

record poller_env =
  pe_upsert_bulk :: "string \<Rightarrow> document list \<Rightarrow> queue_verify list \<Rightarrow> upsert_sync_error + bulk_upsert_outcome"
  pe_delete_sync :: "queue_document \<Rightarrow> upsert_sync_error + string list"
  pe_status_fails :: "string \<Rightarrow> db_error option"
  pe_iter :: "(string \<times> upsert_work list) list \<Rightarrow> (string \<times> upsert_work list) list"

text \<open>The loop that groups the upserts by collection; it stops at a failing status update.\<close>

fun group_upserts ::
    "poller_env \<Rightarrow> queue_document list \<Rightarrow> queue_event list \<Rightarrow> (string \<times> upsert_work list) list \<Rightarrow>
     queue_event list \<times> (db_error + (string \<times> upsert_work list) list)" where
  "group_upserts env [] evs by_collection = (evs, Inr by_collection)"
| "group_upserts env (entry # entries) evs by_collection =
     (case qd_document entry of
        None \<Rightarrow>
          (let ev = UpdateStatus (qd_queue_id entry) (saturating_succ32 (qd_try_count entry)) Failed
                      ''missing document payload''
           in case pe_status_fails env (qd_queue_id entry) of
                Some e \<Rightarrow> (evs @ [ev], Inl e)
              | None \<Rightarrow> group_upserts env entries (evs @ [ev]) by_collection)
      | Some document \<Rightarrow>
          group_upserts env entries evs
            (hm_upsert (qd_collection_name entry) [] (\<lambda>ws. ws @ [\<lparr>uw_entry = entry, uw_document = document\<rparr>])
              by_collection))"

definition work_cmp :: "upsert_work \<Rightarrow> upsert_work \<Rightarrow> ordering" where
  "work_cmp a b =
     then_with (str_cmp (doc_id (uw_document a)) (doc_id (uw_document b)))
       (ord_cmp (doc_timestamp (uw_document a)) (doc_timestamp (uw_document b)))"

text \<open>The loop over the sorted works: a newer work of the same document replaces the last winner.\<close>

fun pick_winners :: "upsert_work list \<Rightarrow> upsert_work list \<Rightarrow> queue_document list \<Rightarrow>
    upsert_work list \<times> queue_document list" where
  "pick_winners [] winners superseded = (winners, superseded)"
| "pick_winners (work # works) winners superseded =
     (if winners \<noteq> [] \<and> doc_id (uw_document (last winners)) = doc_id (uw_document work)
      then pick_winners works (butlast winners @ [work]) (superseded @ [uw_entry (last winners)])
      else pick_winners works (winners @ [work]) superseded)"

definition verify_of :: "upsert_work \<Rightarrow> queue_verify" where
  "verify_of w = \<lparr>qv_queue_id = qd_queue_id (uw_entry w), qv_collection_id = qd_collection_id (uw_entry w)\<rparr>"

definition process_collection :: "poller_env \<Rightarrow> string \<times> upsert_work list \<Rightarrow> queue_event list" where
  "process_collection env cw =
     (case cw of (collection_name, works) \<Rightarrow>
      let (winners, superseded) = pick_winners (sort_by work_cmp works) [] [];
          acks = map (\<lambda>entry. DeleteRows [qd_queue_id entry]) superseded
      in if winners = [] then acks
         else acks @
           (case pe_upsert_bulk env collection_name (map uw_document winners) (map verify_of winners) of
              Inr outcome \<Rightarrow>
                (let to_delete = map (qd_queue_id \<circ> uw_entry)
                       (filter (\<lambda>w. doc_id (uw_document w) \<notin> set (buo_drained outcome)) winners)
                 in if to_delete \<noteq> [] then [DeleteRows to_delete] else [])
            | Inl UQueueEntryGone \<Rightarrow> []
            | Inl e \<Rightarrow> concat (map (\<lambda>w. mark_outcome (uw_entry w) e) winners)))"

definition process_delete :: "poller_env \<Rightarrow> queue_document \<Rightarrow> queue_event list" where
  "process_delete env entry =
     (case pe_delete_sync env entry of
        Inr _ \<Rightarrow> [DeleteRows [qd_queue_id entry]]
      | Inl UQueueEntryGone \<Rightarrow> []
      | Inl e \<Rightarrow> mark_outcome entry e)"

definition process_batch :: "poller_env \<Rightarrow> queue_document list \<Rightarrow> queue_event list \<times> (db_error + unit)" where
  "process_batch env eligible =
     (let upserts = filter (\<lambda>e. qd_op_type e = Upsert) eligible;
          deletes = filter (\<lambda>e. qd_op_type e = Delete) eligible
      in case group_upserts env upserts [] [] of
           (evs, Inl e) \<Rightarrow> (evs, Inl e)
         | (evs, Inr by_collection) \<Rightarrow>
             (evs @ concat (map (process_collection env) (pe_iter env by_collection)) @
              concat (map (process_delete env) deletes), Inr ()))"

section \<open>The polling loop\<close>

text \<open>
  What one iteration observes: the stop flag before and after the claim and after an idle wait, and
  the claimed rows or an error. \<open>poll_iteration\<close> gives the events, whether the loop ends, and the
  next idle time.
\<close>

record poll_input =
  pi_stop_before :: bool
  pi_claim :: "db_error + queue_document list"
  pi_stop_after_claim :: bool
  pi_idle_stop :: bool
  pi_now :: int

definition poll_iteration ::
    "poller_env \<Rightarrow> poll_input \<Rightarrow> nat \<Rightarrow> queue_event list \<times> bool \<times> nat" where
  "poll_iteration env i idle_ms =
     (if pi_stop_before i then ([], True, idle_ms)
      else case pi_claim i of
        Inl _ \<Rightarrow> if pi_idle_stop i then ([], True, idle_ms) else ([], False, next_idle_ms idle_ms)
      | Inr pending \<Rightarrow>
          if pi_stop_after_claim i then ([], True, idle_ms)
          else
            let eligible = filter (backoff_elapsed (pi_now i)) pending in
            if eligible = [] then
              if pi_idle_stop i then ([], True, idle_ms)
              else ([], False, if pending = [] then next_idle_ms idle_ms else idle_ms)
            else
              case process_batch env eligible of
                (evs, Inr _) \<Rightarrow> (evs, False, QUEUE_POLLER_IDLE_MS)
              | (evs, Inl _) \<Rightarrow>
                  if pi_idle_stop i then (evs, True, idle_ms) else (evs, False, next_idle_ms idle_ms))"

section \<open>Deduplication of a claim\<close>

lemma work_cmp_ok:
  "work_cmp a b \<noteq> Greater \<longleftrightarrow>
     str_cmp (doc_id (uw_document a)) (doc_id (uw_document b)) = Less \<or>
     doc_id (uw_document a) = doc_id (uw_document b) \<and>
     doc_timestamp (uw_document a) \<le> doc_timestamp (uw_document b)"
proof (cases "str_cmp (doc_id (uw_document a)) (doc_id (uw_document b))")
  case Equal
  then show ?thesis by (simp add: work_cmp_def ord_cmp_def)
qed (auto simp: work_cmp_def)

interpretation work_order: cmp_order work_cmp UNIV
proof -
  have "cmp_order (\<lambda>a b. str_cmp (doc_id (uw_document a)) (doc_id (uw_document b))) UNIV"
    by (rule cmp_order_on_key [OF str_order.cmp_order_axioms]) simp
  moreover have "cmp_order (\<lambda>a b. ord_cmp (doc_timestamp (uw_document a)) (doc_timestamp (uw_document b))) UNIV"
    by (rule cmp_order_on_key [OF num_order.cmp_order_axioms]) simp
  ultimately show "cmp_order work_cmp UNIV"
    unfolding work_cmp_def [abs_def] by (rule cmp_order_then_with)
qed

abbreviation work_id :: "upsert_work \<Rightarrow> string" where
  "work_id w \<equiv> doc_id (uw_document w)"

abbreviation work_ts :: "upsert_work \<Rightarrow> int" where
  "work_ts w \<equiv> doc_timestamp (uw_document w)"

lemma pick_winners_newest:
  assumes "sorted_wrt (\<lambda>a b. work_cmp a b \<noteq> Greater) (winners @ works)" "distinct (map work_id winners)"
    "pick_winners works winners old = (winners', old')"
  shows "distinct (map work_id winners') \<and> work_id ` set winners' = work_id ` set (winners @ works) \<and>
    (\<forall>w \<in> set winners'. \<forall>v \<in> set (winners @ works). work_id v = work_id w \<longrightarrow> work_ts v \<le> work_ts w) \<and>
    mset (map uw_entry winners') + mset old' = mset (map uw_entry (winners @ works)) + mset old \<and>
    set winners' \<subseteq> set (winners @ works)"
  using assms
proof (induction works winners old rule: pick_winners.induct)
  case (1 winners old)
  have "work_ts v \<le> work_ts w" if "w \<in> set winners" "v \<in> set winners" "work_id v = work_id w" for v w
    using that 1(2) by (metis distinct_map inj_onD order_refl)
  with 1 show ?case by auto
next
  case (2 work works winners old)
  show ?case
  proof (cases "winners \<noteq> [] \<and> work_id (last winners) = work_id work")
    case True
    then obtain ws prev where ws: "winners = ws @ [prev]" "work_id prev = work_id work"
      by (metis append_butlast_last_id)
    have s: "sorted_wrt (\<lambda>a b. work_cmp a b \<noteq> Greater) ((ws @ [work]) @ works)"
      using 2(3) ws by (auto simp: sorted_wrt_append)
    have le: "work_ts prev \<le> work_ts work" using 2(3) ws by (auto simp: sorted_wrt_append work_cmp_ok)
    have IH: "distinct (map work_id winners') \<and> work_id ` set winners' = work_id ` set ((ws @ [work]) @ works) \<and>
      (\<forall>w \<in> set winners'. \<forall>v \<in> set ((ws @ [work]) @ works). work_id v = work_id w \<longrightarrow> work_ts v \<le> work_ts w) \<and>
      mset (map uw_entry winners') + mset old' =
        mset (map uw_entry ((ws @ [work]) @ works)) + mset (old @ [uw_entry prev]) \<and>
      set winners' \<subseteq> set ((ws @ [work]) @ works)"
      using 2(1) [OF True] s 2(4,5) True ws by simp
    have "\<forall>w \<in> set winners'. work_id prev = work_id w \<longrightarrow> work_ts prev \<le> work_ts w"
      using IH le ws(2) by (metis (no_types, lifting) Un_iff in_set_conv_decomp order_trans set_append)
    then show ?thesis using IH ws by auto
  next
    case False
    have new: "work_id x \<noteq> work_id work" if "x \<in> set winners" for x
    proof
      assume eq: "work_id x = work_id work"
      from that have ne: "winners \<noteq> []" by auto
      have "work_cmp (last winners) work \<noteq> Greater" using 2(3) ne by (simp add: sorted_wrt_append)
      with False ne have less: "str_cmp (work_id (last winners)) (work_id work) = Less" by (simp add: work_cmp_ok)
      moreover have "x = last winners \<or> work_cmp x (last winners) \<noteq> Greater"
        using 2(3) that ne by (cases winners rule: rev_cases) (auto simp: sorted_wrt_append)
      ultimately have "str_cmp (work_id x) (work_id work) = Less"
        by (auto simp: work_cmp_ok intro: str_cmp_trans_Less)
      with eq show False by simp
    qed
    then have d: "distinct (map work_id (winners @ [work]))" using 2(4) by force
    have s: "sorted_wrt (\<lambda>a b. work_cmp a b \<noteq> Greater) ((winners @ [work]) @ works)" using 2(3) by simp
    show ?thesis using 2(2) [OF False s d] 2(5) False by (simp split: if_splits)
  qed
qed

text \<open>
  Of the queued upserts of one collection the poller applies exactly one per document, the one
  with the newest timestamp, and acknowledges every other one as superseded: no row is lost.
\<close>

theorem winners_are_newest:
  assumes "pick_winners (sort_by work_cmp works) [] [] = (winners, superseded)"
  shows "distinct (map work_id winners) \<and> work_id ` set winners = work_id ` set works \<and>
    (\<forall>w \<in> set winners. w \<in> set works \<and> (\<forall>v \<in> set works. work_id v = work_id w \<longrightarrow> work_ts v \<le> work_ts w)) \<and>
    mset (map uw_entry winners) + mset superseded = mset (map uw_entry works)"
proof -
  have "sorted_wrt (\<lambda>a b. work_cmp a b \<noteq> Greater) ([] @ sort_by work_cmp works)"
    using work_order.sort_by_sorted [of works] by simp
  from pick_winners_newest [OF this _ assms] show ?thesis by auto
qed

section \<open>Every claimed row is settled once\<close>

fun event_ids :: "queue_event \<Rightarrow> string list" where
  "event_ids (UpdateStatus q _ _ _) = [q]"
| "event_ids (DeleteRows qs) = qs"

definition settled :: "queue_event list \<Rightarrow> string list" where
  "settled evs = concat (map event_ids evs)"

lemma settled_simps [simp]:
  "settled [] = []" "settled (ev # evs) = event_ids ev @ settled evs"
  "settled (xs @ ys) = settled xs @ settled ys"
  by (simp_all add: settled_def)

lemma settled_concat_map [simp]: "settled (concat (map f xs)) = concat (map (\<lambda>x. settled (f x)) xs)"
  by (induction xs) auto

lemma settled_mark: "settled (mark_outcome entry err) = (if err = UQueueEntryGone then [] else [qd_queue_id entry])"
  by (cases err) (auto simp: mark_outcome_def outcome_status_def Let_def)

lemma settled_acks: "settled (map (\<lambda>entry. DeleteRows [f entry]) xs) = map f xs"
  by (induction xs) auto

text \<open>The row of a work is left alone exactly when the bulk upsert reports it as gone.\<close>

definition work_gone :: "poller_env \<Rightarrow> queue_document \<Rightarrow> bool" where
  "work_gone env entry \<longleftrightarrow>
     (\<exists>document docs verifies. qd_document entry = Some document \<and>
        (pe_upsert_bulk env (qd_collection_name entry) docs verifies = Inl UQueueEntryGone \<or>
         (\<exists>outcome. pe_upsert_bulk env (qd_collection_name entry) docs verifies = Inr outcome \<and>
            doc_id document \<in> set (buo_drained outcome))))"

definition entry_gone :: "poller_env \<Rightarrow> queue_document \<Rightarrow> bool" where
  "entry_gone env entry \<longleftrightarrow>
     (case qd_op_type entry of
        Upsert \<Rightarrow> work_gone env entry
      | Delete \<Rightarrow> pe_delete_sync env entry = Inl UQueueEntryGone)"

definition works_ok :: "string \<times> upsert_work list \<Rightarrow> bool" where
  "works_ok cw \<longleftrightarrow>
     (\<forall>w \<in> set (snd cw). qd_document (uw_entry w) = Some (uw_document w) \<and> qd_collection_name (uw_entry w) = fst cw)"

lemma process_collection_settles:
  assumes "works_ok (c, works)"
  shows "mset (settled (process_collection env (c, works))) \<subseteq># mset (map (qd_queue_id \<circ> uw_entry) works) \<and>
    (\<forall>w \<in> set works. qd_queue_id (uw_entry w) \<notin> set (settled (process_collection env (c, works))) \<longrightarrow>
       work_gone env (uw_entry w))"
proof -
  obtain winners old where p: "pick_winners (sort_by work_cmp works) [] [] = (winners, old)" by fastforce
  note w = pick_winners_newest [of "[]" "sort_by work_cmp works" "[]" winners old]
  have parts: "mset (map uw_entry winners) + mset old = mset (map uw_entry works)" and sub: "set winners \<subseteq> set works"
    using w p work_order.sort_by_sorted [of works] by auto
  have ids: "mset (map (qd_queue_id \<circ> uw_entry) works) =
      mset (map (qd_queue_id \<circ> uw_entry) winners) + mset (map qd_queue_id old)"
    using arg_cong [OF parts, of "image_mset qd_queue_id"] by (simp add: image_mset.compositionality o_def)
  have mem: "uw_entry v \<in> uw_entry ` set winners \<or> uw_entry v \<in> set old" if "v \<in> set works" for v
  proof -
    have "uw_entry v \<in># mset (map uw_entry works)" using that by simp
    then show ?thesis unfolding parts [symmetric] by auto
  qed
  let ?r = "pe_upsert_bulk env c (map uw_document winners) (map verify_of winners)"
  have gone: "work_gone env (uw_entry v)"
    if "v \<in> set winners" "?r = Inl UQueueEntryGone \<or> (\<exists>outcome. ?r = Inr outcome \<and> work_id v \<in> set (buo_drained outcome))" for v
    using that assms sub unfolding work_gone_def works_ok_def by (metis fst_conv snd_conv subsetD)
  show ?thesis
  proof (cases ?r)
    case (Inl e)
    have s: "settled (process_collection env (c, works)) =
        map qd_queue_id old @ (if e = UQueueEntryGone then [] else map (qd_queue_id \<circ> uw_entry) winners)"
      using Inl by (cases e) (auto simp: process_collection_def p settled_acks settled_mark Let_def concat_map_singleton o_def)
    show ?thesis unfolding s ids using mem gone Inl by force
  next
    case (Inr outcome)
    let ?del = "filter (\<lambda>w. work_id w \<notin> set (buo_drained outcome)) winners"
    have s: "settled (process_collection env (c, works)) = map qd_queue_id old @ map (qd_queue_id \<circ> uw_entry) ?del"
      using Inr by (auto simp: process_collection_def p settled_acks Let_def)
    have "mset (map (qd_queue_id \<circ> uw_entry) ?del) \<subseteq># mset (map (qd_queue_id \<circ> uw_entry) winners)"
      by (simp add: image_mset_subseteq_mono multiset_filter_subset)
    moreover have "work_gone env (uw_entry v)"
      if v: "v \<in> set works" and v_old: "qd_queue_id (uw_entry v) \<notin> qd_queue_id ` set old"
        and v_del: "qd_queue_id (uw_entry v) \<notin> (qd_queue_id \<circ> uw_entry) ` set ?del" for v
    proof -
      obtain u where u: "u \<in> set winners" "uw_entry u = uw_entry v" using mem [OF v] v_old by force
      then have "work_id u \<in> set (buo_drained outcome)" using v_del
        by (metis (mono_tags, lifting) comp_apply image_eqI mem_Collect_eq set_filter)
      then show ?thesis using gone [of u] Inr u by auto
    qed
    ultimately show ?thesis unfolding s ids by auto
  qed
qed

lemma process_delete_settles:
  "settled (process_delete env entry) =
     (if pe_delete_sync env entry = Inl UQueueEntryGone then [] else [qd_queue_id entry])"
  by (auto simp: process_delete_def settled_mark split: sum.split upsert_sync_error.split)

lemma hm_upsert_cases:
  "hm_ok m \<Longrightarrow> (k \<notin> fst ` set m \<and> hm_upsert k d f m = m @ [(k, f d)]) \<or>
     (\<exists>m1 v m2. m = m1 @ (k, v) # m2 \<and> hm_upsert k d f m = m1 @ (k, f v) # m2)"
proof (induction m)
  case (Cons p m)
  show ?case
  proof (cases "fst p = k")
    case True
    then have "p # m = [] @ (k, snd p) # m \<and> hm_upsert k d f (p # m) = [] @ (k, f (snd p)) # m"
      by (cases p) (simp add: hm_upsert_def)
    then show ?thesis by blast
  next
    case False
    then have eq: "hm_upsert k d f (p # m) = p # hm_upsert k d f m" by (cases p) (simp add: hm_upsert_def)
    have "hm_ok m" using Cons.prems by (simp add: hm_ok_def)
    from Cons.IH [OF this] show ?thesis
    proof
      assume "k \<notin> fst ` set m \<and> hm_upsert k d f m = m @ [(k, f d)]"
      then show ?thesis using False eq by auto
    next
      assume "\<exists>m1 v m2. m = m1 @ (k, v) # m2 \<and> hm_upsert k d f m = m1 @ (k, f v) # m2"
      then obtain m1 v m2 where "m = m1 @ (k, v) # m2" "hm_upsert k d f m = m1 @ (k, f v) # m2" by blast
      then have "p # m = (p # m1) @ (k, v) # m2 \<and> hm_upsert k d f (p # m) = (p # m1) @ (k, f v) # m2"
        using eq by simp
      then show ?thesis by blast
    qed
  qed
qed (simp add: hm_upsert_def)

lemma group_step:
  fixes w :: upsert_work and k :: string
  assumes "hm_ok m"
  defines "m' \<equiv> hm_upsert k [] (\<lambda>ws. ws @ [w]) m"
  shows "mset (concat (map snd m')) = add_mset w (mset (concat (map snd m)))"
    "\<exists>cw \<in> set m'. w \<in> set (snd cw)" "\<forall>cw \<in> set m. \<exists>cw' \<in> set m'. set (snd cw) \<subseteq> set (snd cw')"
    "list_all works_ok m \<Longrightarrow> qd_document (uw_entry w) = Some (uw_document w) \<Longrightarrow> qd_collection_name (uw_entry w) = k \<Longrightarrow>
       list_all works_ok m'"
proof -
  consider (new) "m' = m @ [(k, [w])]" | (old) m1 v m2 where "m = m1 @ (k, v) # m2" "m' = m1 @ (k, v @ [w]) # m2"
    using hm_upsert_cases [OF assms(1), of k "[]" "\<lambda>ws. ws @ [w]"] by (auto simp: m'_def)
  then have "mset (concat (map snd m')) = add_mset w (mset (concat (map snd m))) \<and>
    (\<exists>cw \<in> set m'. w \<in> set (snd cw)) \<and> (\<forall>cw \<in> set m. \<exists>cw' \<in> set m'. set (snd cw) \<subseteq> set (snd cw')) \<and>
    (list_all works_ok m \<longrightarrow> qd_document (uw_entry w) = Some (uw_document w) \<longrightarrow> qd_collection_name (uw_entry w) = k \<longrightarrow>
       list_all works_ok m')"
  proof cases
    case new
    then show ?thesis by (auto simp: works_ok_def)
  next
    case old
    have "\<forall>cw \<in> set m. \<exists>cw' \<in> set m'. set (snd cw) \<subseteq> set (snd cw')"
    proof
      fix cw assume "cw \<in> set m"
      then consider "cw \<in> set m'" | "cw = (k, v)" using old by auto
      then show "\<exists>cw' \<in> set m'. set (snd cw) \<subseteq> set (snd cw')"
        by cases (auto simp: old(2) intro: bexI [of _ "(k, v @ [w])"])
    qed
    then show ?thesis using old by (auto simp: works_ok_def)
  qed
  then show "mset (concat (map snd m')) = add_mset w (mset (concat (map snd m)))"
    "\<exists>cw \<in> set m'. w \<in> set (snd cw)" "\<forall>cw \<in> set m. \<exists>cw' \<in> set m'. set (snd cw) \<subseteq> set (snd cw')"
    "list_all works_ok m \<Longrightarrow> qd_document (uw_entry w) = Some (uw_document w) \<Longrightarrow> qd_collection_name (uw_entry w) = k \<Longrightarrow>
       list_all works_ok m'"
    by blast+
qed

text \<open>The works of the map of collections: every entry with a document, under its collection.\<close>

lemma group_upserts_ok:
  assumes "group_upserts env entries evs m = (evs', Inr m')" "hm_ok m" "list_all works_ok m"
  shows "hm_ok m' \<and> list_all works_ok m' \<and>
    mset (settled evs') + mset (map (qd_queue_id \<circ> uw_entry) (concat (map snd m'))) =
      mset (settled evs) + mset (map (qd_queue_id \<circ> uw_entry) (concat (map snd m))) + mset (map qd_queue_id entries) \<and>
    set (settled evs) \<subseteq> set (settled evs') \<and>
    (\<forall>e \<in> set entries. qd_queue_id e \<in> set (settled evs') \<or> (\<exists>cw \<in> set m'. e \<in> uw_entry ` set (snd cw))) \<and>
    (\<forall>cw \<in> set m. \<exists>cw' \<in> set m'. set (snd cw) \<subseteq> set (snd cw'))"
  using assms
proof (induction env entries evs m rule: group_upserts.induct)
  case (1 env evs m)
  then show ?case by auto
next
  case (2 env e es evs m)
  show ?case
  proof (cases "qd_document e")
    case None
    then show ?thesis using 2 by (auto simp: Let_def split: option.splits)
  next
    case (Some d)
    let ?w = "\<lparr>uw_entry = e, uw_document = d\<rparr>"
    let ?m = "hm_upsert (qd_collection_name e) [] (\<lambda>ws. ws @ [?w]) m"
    have run: "group_upserts env es evs ?m = (evs', Inr m')" using 2(3) Some by simp
    have ok: "hm_ok ?m" "list_all works_ok ?m"
      and cnt: "mset (map (qd_queue_id \<circ> uw_entry) (concat (map snd ?m))) =
         mset (map (qd_queue_id \<circ> uw_entry) (concat (map snd m))) + {#qd_queue_id e#}"
      and new: "\<exists>cw \<in> set ?m. ?w \<in> set (snd cw)"
      and keep: "\<forall>cw \<in> set m. \<exists>cw' \<in> set ?m. set (snd cw) \<subseteq> set (snd cw')"
      using group_step [OF 2(4), where k = "qd_collection_name e" and w = ?w] 2(4,5) Some by (auto simp: mset_map)
    note IH = 2(2) [OF Some run ok]
    have "\<exists>cw \<in> set m'. ?w \<in> set (snd cw)" using IH new by (meson subsetD)
    then have "\<exists>cw \<in> set m'. e \<in> uw_entry ` set (snd cw)" by force
    moreover have "\<forall>cw \<in> set m. \<exists>cw' \<in> set m'. set (snd cw) \<subseteq> set (snd cw')"
      using IH keep by (meson order_trans)
    ultimately show ?thesis using IH cnt by (simp add: o_def)
  qed
qed

lemma collections_settle:
  assumes "list_all works_ok cws"
  shows "mset (settled (concat (map (process_collection env) cws))) \<subseteq>#
      mset (map (qd_queue_id \<circ> uw_entry) (concat (map snd cws)))"
  using assms
proof (induction cws)
  case (Cons cw cws)
  have "mset (settled (process_collection env cw)) \<subseteq># mset (map (qd_queue_id \<circ> uw_entry) (snd cw))"
    using process_collection_settles [of "fst cw" "snd cw" env] Cons.prems by simp
  with Cons show ?case by (simp add: o_def subset_mset.add_mono)
qed simp

lemma op_split: "mset (filter (\<lambda>e. qd_op_type e = Upsert) es) + mset (filter (\<lambda>e. qd_op_type e = Delete) es) = mset es"
proof (induction es)
  case (Cons e es)
  then show ?case by (cases "qd_op_type e") auto
qed simp

lemma batch_settles:
  assumes "process_batch env eligible = (evs, Inr ())" "iter_order (pe_iter env)"
    "distinct (map qd_queue_id eligible)"
  shows "distinct (settled evs) \<and> set (settled evs) \<subseteq> qd_queue_id ` set eligible \<and>
    (\<forall>e \<in> set eligible. qd_queue_id e \<notin> set (settled evs) \<longrightarrow> entry_gone env e)"
proof -
  let ?up = "filter (\<lambda>e. qd_op_type e = Upsert) eligible"
  let ?del = "filter (\<lambda>e. qd_op_type e = Delete) eligible"
  obtain evs1 m where g: "group_upserts env ?up [] [] = (evs1, Inr m)"
    and evs: "evs = evs1 @ concat (map (process_collection env) (pe_iter env m)) @
       concat (map (process_delete env) ?del)"
    using assms(1) by (auto simp: process_batch_def Let_def split: prod.splits sum.splits)
  note gu = group_upserts_ok [OF g]
  have m: "list_all works_ok m"
    and cnt: "mset (settled evs1) + mset (map (qd_queue_id \<circ> uw_entry) (concat (map snd m))) = mset (map qd_queue_id ?up)"
    and cover: "\<forall>e \<in> set ?up. qd_queue_id e \<in> set (settled evs1) \<or> (\<exists>cw \<in> set m. e \<in> uw_entry ` set (snd cw))"
    using gu by auto
  have it: "mset (pe_iter env m) = mset m" by (rule iter_orderD [OF assms(2)])
  then have itok: "list_all works_ok (pe_iter env m)" using m by (metis list_all_iff set_mset_mset)
  have flat: "mset (concat (map snd l)) = \<Sum>\<^sub># (image_mset (mset \<circ> snd) (mset l))"
    for l :: "(string \<times> upsert_work list) list"
    by (induction l) auto
  have "mset (concat (map snd (pe_iter env m))) = mset (concat (map snd m))"
    unfolding flat it ..
  then have works: "mset (map (qd_queue_id \<circ> uw_entry) (concat (map snd (pe_iter env m)))) =
      mset (map (qd_queue_id \<circ> uw_entry) (concat (map snd m)))" by simp
  have dels: "mset (settled (concat (map (process_delete env) ds))) \<subseteq># mset (map qd_queue_id ds)" for ds
    by (induction ds) (auto simp: process_delete_settles subset_mset.add_mono intro: subset_mset.order_trans)
  have "mset (settled evs) \<subseteq># mset (settled evs1) + mset (map (qd_queue_id \<circ> uw_entry) (concat (map snd m))) +
      mset (map qd_queue_id ?del)"
    unfolding evs settled_simps mset_append works [symmetric] add.assoc
    using collections_settle [OF itok, of env] dels [of ?del] by (intro subset_mset.add_mono) simp_all
  also have "\<dots> = mset (map qd_queue_id eligible)"
    unfolding cnt using arg_cong [OF op_split [of eligible], of "image_mset qd_queue_id"] by simp
  finally have sub: "mset (settled evs) \<subseteq># mset (map qd_queue_id eligible)" .
  have "count (mset (settled evs)) q \<le> 1" for q
    using mset_subset_eq_count [OF sub, of q] assms(3) unfolding distinct_count_atmost_1
    by (metis le_trans le_numeral_extra(4) zero_le_one)
  then have "count (mset (settled evs)) q = (if q \<in> set (settled evs) then 1 else 0)" for q
    by (metis count_eq_zero_iff le_less_linear less_one order_antisym set_mset_mset zero_less_iff_neq_zero One_nat_def Suc_leI)
  then have dist: "distinct (settled evs)" by (simp only: distinct_count_atmost_1) simp
  have gone: "entry_gone env e" if e: "e \<in> set eligible" "qd_queue_id e \<notin> set (settled evs)" for e
  proof (cases "qd_op_type e")
    case Upsert
    then obtain c works w where cw: "(c, works) \<in> set m" "w \<in> set works" "e = uw_entry w"
      using cover e unfolding evs by auto
    then have in_it: "(c, works) \<in> set (pe_iter env m)" using it by (metis set_mset_mset)
    then have "qd_queue_id e \<notin> set (settled (process_collection env (c, works)))"
      using e(2) unfolding evs by auto
    moreover have "works_ok (c, works)" using m cw(1) by (auto simp: list_all_iff)
    ultimately have "work_gone env e" using process_collection_settles [of c works env] cw by auto
    then show ?thesis by (simp add: entry_gone_def Upsert)
  next
    case Delete
    then have "e \<in> set ?del" using e(1) by simp
    then have "qd_queue_id e \<notin> set (settled (process_delete env e))" using e(2) unfolding evs by auto
    then show ?thesis by (simp add: entry_gone_def Delete process_delete_settles split: if_splits)
  qed
  have "set (settled evs) \<subseteq> qd_queue_id ` set eligible"
    using set_mset_mono [OF sub] by simp
  with dist gone show ?thesis by blast
qed

text \<open>
  A batch that completes settles every claimed row at most once, by one acknowledgement or one
  status update, touches no other row, and leaves a row alone only when the worker reported that the
  row was already gone.
\<close>

theorem batch_settles_rows:
  assumes "process_batch env eligible = (evs, Inr ())" "iter_order (pe_iter env)"
    "distinct (map qd_queue_id eligible)"
  shows "distinct (settled evs) \<and> set (settled evs) \<subseteq> qd_queue_id ` set eligible \<and>
    (\<forall>e \<in> set eligible. qd_queue_id e \<notin> set (settled evs) \<longrightarrow> entry_gone env e)"
  using assms by (rule batch_settles)

definition example_entry :: "string \<Rightarrow> int \<Rightarrow> queue_document" where
  "example_entry q ts =
     \<lparr>qd_queue_id = q, qd_collection_name = ''c'', qd_collection_id = ''i'', qd_doc_id = ''d'', qd_op_type = Upsert,
      qd_doc_timestamp = ts, qd_status = Queued, qd_info = None,
      qd_document = Some (Document ''d'' ts None None None None None None None None None []),
      qd_created_at = 0, qd_timestamp = 0, qd_try_count = 0\<rparr>"

definition example_poller :: poller_env where
  "example_poller =
     \<lparr>pe_upsert_bulk = (\<lambda>_ _ _. Inr \<lparr>buo_skipped = [], buo_drained = []\<rparr>), pe_delete_sync = (\<lambda>_. Inr []),
      pe_status_fails = (\<lambda>_. None), pe_iter = (\<lambda>m. m)\<rparr>"

definition example_work :: "string \<Rightarrow> int \<Rightarrow> upsert_work" where
  "example_work q ts = \<lparr>uw_entry = example_entry q ts,
     uw_document = Document ''d'' ts None None None None None None None None None []\<rparr>"

lemma example_pick:
  "pick_winners (sort_by work_cmp [example_work ''q1'' 2, example_work ''q2'' 1]) [] [] =
     ([example_work ''q1'' 2], [example_entry ''q2'' 1])"
  by (simp add: sort_by_def work_cmp_def ord_cmp_def example_work_def)

theorem winners_are_newest_witness:
  "pick_winners (sort_by work_cmp [example_work ''q1'' 2, example_work ''q2'' 1]) [] [] =
     ([example_work ''q1'' 2], [example_entry ''q2'' 1]) \<and>
   work_ts (example_work ''q2'' 1) \<le> work_ts (example_work ''q1'' 2)"
  using winners_are_newest [OF example_pick] example_pick by (simp add: example_work_def)

theorem batch_settles_rows_witness:
  "process_batch example_poller [example_entry ''q1'' 2, example_entry ''q2'' 1] =
     ([DeleteRows [''q2''], DeleteRows [''q1'']], Inr ()) \<and>
   distinct (settled [DeleteRows [''q2''], DeleteRows [''q1'']])"
proof -
  have run: "process_batch example_poller [example_entry ''q1'' 2, example_entry ''q2'' 1] =
     ([DeleteRows [''q2''], DeleteRows [''q1'']], Inr ())"
    using example_pick
    by (simp add: process_batch_def example_poller_def process_collection_def hm_upsert_def
        example_entry_def example_work_def)
  show ?thesis
    using batch_settles_rows [OF run] run by (simp add: example_poller_def example_entry_def)
qed

section \<open>Retries\<close>

text \<open>
  A failed row is requeued only with a higher try count, a permanent error fails it at once, a
  vectorization error at the fourth attempt and any other error at the latest at the two hundredth;
  so the try count of a row that is still queued stays below 200.
\<close>

theorem retries_bounded:
  assumes "mark_outcome entry err = [UpdateStatus q new_try status info]"
  shows "q = qd_queue_id entry \<and> (status = Requeued \<or> status = Failed) \<and>
    (status = Requeued \<longrightarrow> new_try = qd_try_count entry + 1 \<and> new_try < 200) \<and>
    (status = Failed \<longleftrightarrow>
       (case err of
          UValidation _ \<Rightarrow> True
        | UQueueCollectionMismatch _ \<Rightarrow> True
        | UNotFound _ \<Rightarrow> True
        | UVectorization _ \<Rightarrow> 3 \<le> qd_try_count entry
        | _ \<Rightarrow> 199 \<le> qd_try_count entry))"
  using assms
  by (cases err) (auto simp: mark_outcome_def outcome_status_def Let_def saturating_succ32_def
      MAX_QUEUE_DELIVERY_ATTEMPTS_def MAX_DB_RETRIES_def split: if_splits)

theorem retries_bounded_witness:
  "mark_outcome (example_entry ''q'' 0) (UVectorization ''e'') = [UpdateStatus ''q'' 1 Requeued ''e''] \<and>
   (1 :: nat) < 200"
proof -
  have run: "mark_outcome (example_entry ''q'' 0) (UVectorization ''e'') = [UpdateStatus ''q'' 1 Requeued ''e'']"
    by (simp add: mark_outcome_def outcome_status_def example_entry_def saturating_succ32_def
        MAX_QUEUE_DELIVERY_ATTEMPTS_def)
  show ?thesis using retries_bounded [OF run] run by simp
qed

lemma idle_power: "(next_idle_ms ^^ k) 1000 = min (1000 * 2 ^ k) 16000"
proof (induction k)
  case (Suc k)
  then show ?case by (auto simp: next_idle_ms_def QUEUE_POLLER_IDLE_MAX_MS_def min_def)
qed simp

text \<open>
  The idle time of the poller doubles from one second and stays at sixteen; every iteration keeps
  it between the two, and an iteration that sees a stop request before or after its claim touches no
  row and ends the loop.
\<close>

theorem poller_idle_bounded:
  assumes "1000 \<le> idle" "idle \<le> 16000" "poll_iteration env i idle = (evs, exit, idle')"
  shows "1000 \<le> idle' \<and> idle' \<le> 16000 \<and> (next_idle_ms ^^ k) 1000 = min (1000 * 2 ^ k) 16000 \<and>
    (pi_stop_before i \<or> pi_stop_after_claim i \<and> is_ok (pi_claim i) \<longrightarrow> evs = [] \<and> exit)"
proof -
  have n: "1000 \<le> next_idle_ms idle \<and> next_idle_ms idle \<le> 16000"
    using assms(1,2) by (simp add: next_idle_ms_def QUEUE_POLLER_IDLE_MAX_MS_def)
  then have "1000 \<le> idle' \<and> idle' \<le> 16000"
    using assms by (auto simp: poll_iteration_def Let_def QUEUE_POLLER_IDLE_MS_def split: if_splits sum.splits prod.splits)
  moreover have "pi_stop_before i \<or> pi_stop_after_claim i \<and> is_ok (pi_claim i) \<longrightarrow> evs = [] \<and> exit"
    using assms(3) by (auto simp: poll_iteration_def is_ok_def split: if_splits sum.splits)
  ultimately show ?thesis using idle_power by blast
qed

theorem poller_idle_bounded_witness:
  "poll_iteration example_poller \<lparr>pi_stop_before = False, pi_claim = Inr [], pi_stop_after_claim = False,
     pi_idle_stop = False, pi_now = 0\<rparr> 1000 = ([], False, 2000) \<and> (next_idle_ms ^^ 3) 1000 = 8000"
proof -
  have run: "poll_iteration example_poller \<lparr>pi_stop_before = False, pi_claim = Inr [], pi_stop_after_claim = False,
     pi_idle_stop = False, pi_now = 0\<rparr> 1000 = ([], False, 2000)"
    by (simp add: poll_iteration_def next_idle_ms_def QUEUE_POLLER_IDLE_MAX_MS_def)
  show ?thesis using poller_idle_bounded [OF _ _ run, of 3] run by simp
qed

lemma fp_round_ge0: "0 \<le> r \<Longrightarrow> fp_le f64_zero (fp_round binary64 False r)"
  using rnd_nonneg [of "\<bar>r\<bar>" binary64] by (auto simp: fp_round_def f64_zero_def)

lemma f64_nat: "n < 2 ^ 53 \<Longrightarrow> f64 (of_nat n) = Finite False (of_nat n)"
  using fp_of_nat_exact [of n] by (simp add: fp_of_nat_def)

lemma retry_jitter_ge0:
  "fp_le f64_zero (f64_add (f64 (1 / 10))
     (f64_div (fp_of_nat binary64 (wrapping_mul32 n 2654435761 mod 1400)) (f64 1000)))"
proof -
  have "wrapping_mul32 n 2654435761 mod 1400 < 2 ^ 53"
    by (rule less_trans [OF mod_less_divisor]) simp_all
  then have "f64_div (fp_of_nat binary64 (wrapping_mul32 n 2654435761 mod 1400)) (f64 1000) =
      fp_round binary64 False (of_nat (wrapping_mul32 n 2654435761 mod 1400) / 1000)"
    using f64_nat [of 1000] by (simp add: fp_of_nat_exact)
  then have j: "fp_le f64_zero (f64_div (fp_of_nat binary64 (wrapping_mul32 n 2654435761 mod 1400)) (f64 1000))"
    by (simp add: fp_round_ge0)
  have t: "fp_le f64_zero (f64 (1 / 10))" by (simp add: fp_of_rat_def fp_round_ge0)
  have "fp_le (f64 (1 / 10)) (f64_add (f64 (1 / 10))
     (f64_div (fp_of_nat binary64 (wrapping_mul32 n 2654435761 mod 1400)) (f64 1000)))"
    using t j ge0_add_not_nan [OF t j] by (intro fp_add_increasing) (auto simp: fp_of_rat_def f64_zero_def)
  with t show ?thesis by (rule fp_le_trans)
qed

text \<open>
  The delay before a retry is at least twice the try count and never more than 20 seconds, both
  after all floating point rounding; from the tenth try on it is exactly 20 seconds.
\<close>

theorem retry_delay_bounds:
  assumes "n < 2 ^ 32"
  shows "fp_le (retry_delay_secs n) (f64 20) \<and>
    fp_le (f64 (of_nat (min (2 * n) 20))) (retry_delay_secs n) \<and>
    (10 \<le> n \<longrightarrow> retry_delay_secs n = f64 20)"
proof -
  let ?j = "f64_add (f64 (1 / 10))
     (f64_div (fp_of_nat binary64 (wrapping_mul32 n 2654435761 mod 1400)) (f64 1000))"
  have base: "f64_mul (f64 2) (fp_of_nat binary64 n) = Finite False (of_nat (2 * n))"
    using f64_nat [of 2] fp_of_nat_exact [of n] f64_dyadic [of "2 * n" 0] assms by simp
  have twenty: "f64 20 = Finite False 20" using f64_nat [of 20] by simp
  have lo: "f64 (of_nat (min (2 * n) 20)) = Finite False (of_nat (min (2 * n) 20))" by (rule f64_nat) simp
  have okb: "fp_ok binary64 (Finite False (of_nat (2 * n)))"
  proof -
    have "2 * n < 2 ^ 53" using assms by simp
    then have "fp_round binary64 False (of_nat (2 * n)) = Finite False (of_nat (2 * n))"
      using f64_dyadic [of "2 * n" 0] by (simp only: power_0 div_by_1)
    then show ?thesis using fp_round_ok [OF binary64_prec, of False "of_nat (2 * n)"] by (simp only:)
  qed
  have nn: "\<not> is_nan (f64_add (Finite False (of_nat (2 * n))) ?j)"
    by (rule ge0_add_not_nan [OF _ retry_jitter_ge0]) (simp add: f64_zero_def)
  have ge: "fp_le (Finite False (of_nat (2 * n))) (f64_add (Finite False (of_nat (2 * n))) ?j)"
    using okb nn retry_jitter_ge0 [of n] by (intro fp_add_increasing) (auto simp: f64_zero_def)
  define s where "s = f64_add (Finite False (of_nat (2 * n))) ?j"
  have r: "retry_delay_secs n = fp_min s (Finite False 20)"
    by (simp only: retry_delay_secs_def Let_def base MAX_RETRY_SLEEP_SECONDS_def twenty s_def)
  have s: "\<not> is_nan s" "fp_le (Finite False (of_nat (2 * n))) s" unfolding s_def by (rule nn, rule ge)
  have ten: "\<not> fp_lt s (Finite False 20)" if "10 \<le> n"
  proof -
    have "(20 :: rat) \<le> of_nat (2 * n)" using of_nat_mono [of 20 "2 * n", where 'a = rat] that by simp
    then have "fp_le (Finite False 20) (Finite False (of_nat (2 * n)))" by simp
    then have "fp_le (Finite False 20) s" using s(2) by (rule fp_le_trans)
    then show ?thesis by (simp add: fp_le_def)
  qed
  have "fp_le (fp_min s (Finite False 20)) (Finite False 20)"
    using s(1) by (cases s) (auto simp: fp_min_def)
  moreover have "fp_le (Finite False (of_nat (min (2 * n) 20))) (fp_min s (Finite False 20))"
  proof -
    have "(of_nat (min (2 * n) 20) :: rat) \<le> of_nat (2 * n)" by (rule of_nat_mono) simp
    then have "fp_le (Finite False (of_nat (min (2 * n) 20))) (Finite False (of_nat (2 * n)))" by simp
    then have "fp_le (Finite False (of_nat (min (2 * n) 20))) s" using s(2) by (rule fp_le_trans)
    moreover have "(of_nat (min (2 * n) 20) :: rat) \<le> 20"
      using of_nat_mono [of "min (2 * n) 20" 20, where 'a = rat] by simp
    then have "fp_le (Finite False (of_nat (min (2 * n) 20))) (Finite False 20)" by simp
    ultimately show ?thesis by (simp add: fp_min_def)
  qed
  moreover have "10 \<le> n \<Longrightarrow> fp_min s (Finite False 20) = Finite False 20"
    using ten s(1) by (simp add: fp_min_def)
  ultimately show ?thesis unfolding r twenty lo by blast
qed

theorem retry_delay_bounds_witness:
  "fp_le (f64 6) (retry_delay_secs 3) \<and> retry_delay_secs 12 = f64 20"
  using retry_delay_bounds [of 3] retry_delay_bounds [of 12] by simp

end
