(* ===== verification/Ingestion.thy ===== *)
theory Ingestion
  imports Normalize Config_Cache Vectorizer Queue_Poller
begin

text \<open>
  The write path of \<open>src/src/encoder.rs\<close>: \<open>document_upsert_bulk_internal\<close>,
  \<open>document_delete_sync\<close>, the decision \<open>needs_revectorization\<close>, and the statistics jobs they
  produce; with the operations of \<open>src/src/qdrant.rs\<close> on stored documents and queue rows.

  The state \<open>store\<close> holds the points of all collections by collection and document id, the rows of
  the ingestion queue, the statistics jobs sent to the batcher in order, and the configuration cache.
  A document in the store is the document \<open>get_documents\<close> reads back from the payload. What may
  fail outside (database calls, locks, the batcher) is the record \<open>ingest_env\<close>; a failed call
  changes nothing. Logging and metrics are left out.
\<close>

section \<open>State\<close>

record token_length_update =
  tlu_new_doc_count :: int
  tlu_new_sum_token_lengths :: int
  tlu_update_doc_count :: int
  tlu_update_sum_token_lengths :: int
  tlu_old_sum_token_lengths :: int

record stats_job =
  sj_collection_name :: string
  sj_updates :: "(string, token_length_update) hash_map"

record store =
  st_docs :: "string \<times> string \<rightharpoonup> document"
  st_vectors :: "string \<times> string \<rightharpoonup> vector_data list"
  st_queue :: "queue_document list"
  st_jobs :: "stats_job list"
  st_cache :: config_cache

record ingest_env =
  ie_info1 :: "db_error + collection_config_internal"
  ie_info2 :: "db_error + collection_config_internal"
  ie_now1 :: nat
  ie_now2 :: nat
  ie_parse_dt :: "string \<Rightarrow> string + int"
  ie_hash :: "string \<Rightarrow> string"
  ie_lock_error :: "string \<Rightarrow> string option"
  ie_queue_error :: "db_error option"
  ie_get_error :: "db_error option"
  ie_patch_error :: "db_error option"
  ie_stats :: "db_error + (string, fp) hash_map"
  ie_embedders :: embedders
  ie_threads :: nat
  ie_add_result :: "nat \<Rightarrow> db_error option"
  ie_enqueue_error :: "db_error option"
  ie_cancel_error :: "db_error option"
  ie_delete_error :: "db_error option"

definition ADD_DOCUMENTS_MAX_ATTEMPTS :: nat where "ADD_DOCUMENTS_MAX_ATTEMPTS = 3"

section \<open>Operations of the database\<close>

text \<open>
  The payload of a document, as the document it is read back as: the vectors and the token lengths are
  not part of it, the content only when the collection stores it.
\<close>

fun doc_to_payload :: "bool \<Rightarrow> document \<Rightarrow> document" where
  "doc_to_payload store_content (Document i t tg n d c h m cv j v tls) =
     Document i t tg n d (if store_content then c else None) h m None j None []"

fun doc_payload_only :: "bool \<Rightarrow> document \<Rightarrow> document" where
  "doc_payload_only store_content (Document i t tg n d c h m cv j v tls) =
     Document i t tg n d (if store_content then c else None) h m cv j v []"

definition add_documents :: "string \<Rightarrow> document list \<Rightarrow> bool \<Rightarrow> store \<Rightarrow> store" where
  "add_documents coll docs store_content st =
     fold (\<lambda>d st. st\<lparr>st_docs := (st_docs st)((coll, doc_id d) \<mapsto> doc_to_payload store_content d),
                     st_vectors := (st_vectors st)((coll, doc_id d) \<mapsto> unwrap_or [] (doc_vectors d))\<rparr>) docs st"

text \<open>Overwriting the payload of a point that is not there does nothing.\<close>

definition patch_documents :: "string \<Rightarrow> document list \<Rightarrow> bool \<Rightarrow> store \<Rightarrow> store" where
  "patch_documents coll docs store_content st =
     fold (\<lambda>d st. if st_docs st (coll, doc_id d) = None then st
                  else st\<lparr>st_docs := (st_docs st)((coll, doc_id d) \<mapsto> doc_payload_only store_content d)\<rparr>) docs st"

text \<open>A document is returned for the first occurrence of its id only.\<close>

fun get_documents :: "string \<Rightarrow> store \<Rightarrow> string set \<Rightarrow> string list \<Rightarrow> document option list" where
  "get_documents coll st gone [] = []"
| "get_documents coll st gone (i # ids) =
     (if i \<in> gone then None else st_docs st (coll, i)) # get_documents coll st (insert i gone) ids"

definition delete_document :: "string \<Rightarrow> string \<Rightarrow> store \<Rightarrow> store" where
  "delete_document coll i st =
     st\<lparr>st_docs := (st_docs st)((coll, i) := None), st_vectors := (st_vectors st)((coll, i) := None)\<rparr>"

definition get_from_queue :: "string list \<Rightarrow> store \<Rightarrow> queue_document list" where
  "get_from_queue qids st = filter (\<lambda>q. qd_queue_id q \<in> set qids) (st_queue st)"

definition cancelled :: "string \<Rightarrow> string \<Rightarrow> int \<Rightarrow> queue_document \<Rightarrow> bool" where
  "cancelled coll i ts q \<longleftrightarrow>
     qd_collection_name q = coll \<and> qd_doc_id q = i \<and> qd_op_type q = Upsert \<and> qd_doc_timestamp q \<le> ts"

definition delete_upserts_from_queue :: "string \<Rightarrow> string \<Rightarrow> int \<Rightarrow> store \<Rightarrow> store" where
  "delete_upserts_from_queue coll i ts st = st\<lparr>st_queue := filter (\<lambda>q. \<not> cancelled coll i ts q) (st_queue st)\<rparr>"

definition enqueue_stats :: "string \<Rightarrow> (string, token_length_update) hash_map \<Rightarrow> store \<Rightarrow> store" where
  "enqueue_stats coll updates st = st\<lparr>st_jobs := st_jobs st @ [\<lparr>sj_collection_name = coll, sj_updates = updates\<rparr>]\<rparr>"

section \<open>When a document needs new vectors\<close>

text \<open>Equality of JSON values: numbers compare by value within their kind.\<close>

fun number_eq :: "number \<Rightarrow> number \<Rightarrow> bool" where
  "number_eq (PosInt a) (PosInt b) = (a = b)"
| "number_eq (NegInt a) (NegInt b) = (a = b)"
| "number_eq (Float a) (Float b) = fp_eq a b"
| "number_eq _ _ = False"

fun json_eq :: "json \<Rightarrow> json \<Rightarrow> bool"
and json_list_eq :: "json list \<Rightarrow> json list \<Rightarrow> bool"
and json_map_eq :: "(string \<times> json) list \<Rightarrow> (string \<times> json) list \<Rightarrow> bool" where
  "json_eq (Number a) (Number b) = number_eq a b"
| "json_eq (Array xs) (Array ys) = json_list_eq xs ys"
| "json_eq (Object xs) (Object ys) = json_map_eq xs ys"
| "json_eq Null Null = True"
| "json_eq (Bool a) (Bool b) = (a = b)"
| "json_eq (String a) (String b) = (a = b)"
| "json_eq _ _ = False"
| "json_list_eq [] [] = True"
| "json_list_eq (x # xs) (y # ys) = (json_eq x y \<and> json_list_eq xs ys)"
| "json_list_eq _ _ = False"
| "json_map_eq [] [] = True"
| "json_map_eq ((k, x) # xs) ((l, y) # ys) = (k = l \<and> json_eq x y \<and> json_map_eq xs ys)"
| "json_map_eq _ _ = False"

definition metadata_eq :: "(string \<times> json) list option \<Rightarrow> (string \<times> json) list option \<Rightarrow> bool" where
  "metadata_eq a b =
     (case (a, b) of
        (None, None) \<Rightarrow> True
      | (Some m, Some n) \<Rightarrow>
          length m = length n \<and>
          list_all (\<lambda>(k, v). case map_of n k of Some w \<Rightarrow> json_eq v w | None \<Rightarrow> False) m
      | _ \<Rightarrow> False)"

definition indexed_fields :: "collection_config_internal \<Rightarrow> document_field list" where
  "indexed_fields config =
     concat (map (\<lambda>v. if uses_templates v then []
                      else case vector_index_fields v of Inr slots \<Rightarrow> slots | Inl _ \<Rightarrow> []) (cci_vectors config))"

definition field_value :: "document_field \<Rightarrow> document \<Rightarrow> string option" where
  "field_value field doc =
     (case field of FName \<Rightarrow> doc_name doc | FDescription \<Rightarrow> doc_description doc | FContent \<Rightarrow> doc_content doc
      | FTemplate \<Rightarrow> None)"

definition field_changed :: "collection_config_internal \<Rightarrow> document \<Rightarrow> document \<Rightarrow> document_field \<Rightarrow> bool" where
  "field_changed config incoming existing field =
     (if field = FContent \<and> \<not> cci_store_content config
      then doc_content_hash incoming \<noteq> doc_content_hash existing
      else field_value field incoming \<noteq> field_value field existing)"

definition needs_revectorization :: "document \<Rightarrow> document \<Rightarrow> collection_config_internal \<Rightarrow> bool" where
  "needs_revectorization incoming existing config =
     (doc_vectors incoming \<noteq> None \<or> doc_custom_vectors incoming \<noteq> None \<or>
      list_ex (field_changed config incoming existing) (indexed_fields config) \<or>
      list_ex uses_templates (cci_vectors config) \<and>
        (doc_name incoming \<noteq> doc_name existing \<or> doc_description incoming \<noteq> doc_description existing \<or>
         (if \<not> cci_store_content config then doc_content_hash incoming \<noteq> doc_content_hash existing
          else doc_content incoming \<noteq> doc_content existing) \<or>
         \<not> metadata_eq (doc_metadata incoming) (doc_metadata existing)))"

definition set_content_hash :: "(string \<Rightarrow> string) \<Rightarrow> document \<Rightarrow> document" where
  "set_content_hash hash doc = set_doc_content_hash (Some (hash (unwrap_or [] (doc_content doc)))) doc"

section \<open>Upserts\<close>

fun config_read_error :: "db_error \<Rightarrow> upsert_sync_error" where
  "config_read_error (NotFound _) = UNotFound ''Collection configuration not found''"
| "config_read_error e = UDb e"

definition mismatch_error :: "string \<Rightarrow> string \<Rightarrow> upsert_sync_error" where
  "mismatch_error expected current =
     UQueueCollectionMismatch (''Collection configuration changed during processing. Documents were queued for collection_id '' @
       expected @ '', but current collection has collection_id '' @ current @ ''. Please re-upload the documents.'')"

fun first_verify :: "queue_verify option list \<Rightarrow> queue_verify option" where
  "first_verify [] = None"
| "first_verify (Some v # qs) = Some v"
| "first_verify (None # qs) = first_verify qs"

definition checked_config ::
    "ingest_env \<Rightarrow> string \<Rightarrow> queue_verify option list \<Rightarrow> config_cache \<Rightarrow>
     config_cache \<times> (upsert_sync_error + collection_config_internal)" where
  "checked_config env coll verifies cache =
     (case get_collection_info_for_write (ie_info1 env) (ie_now1 env) coll cache of
        (cache, Inl e) \<Rightarrow> (cache, Inl (config_read_error e))
      | (cache, Inr config) \<Rightarrow>
          (case first_verify verifies of
             None \<Rightarrow> (cache, Inr config)
           | Some v \<Rightarrow>
               if cci_collection_id config = qv_collection_id v then (cache, Inr config)
               else case get_collection_info_for_write (ie_info2 env) (ie_now2 env) coll (cache_invalidate coll cache) of
                      (cache, Inl e) \<Rightarrow> (cache, Inl (config_read_error e))
                    | (cache, Inr config) \<Rightarrow>
                        if cci_collection_id config = qv_collection_id v then (cache, Inr config)
                        else (cache, Inl (mismatch_error (qv_collection_id v) (cci_collection_id config)))))"

text \<open>\<open>None\<close> is the unreachable branch of the normalisation.\<close>

definition normalize_doc :: "(string \<Rightarrow> string + int) \<Rightarrow> document \<Rightarrow> upsert_sync_error + document" where
  "normalize_doc parse_dt doc =
     (case normalize_document_metadata_inplace parse_dt doc of
        Some r \<Rightarrow> map_err (\<lambda>e. UValidation (normalize_error_str e)) r
      | None \<Rightarrow> Inl (UValidation ''internal error: entered unreachable code''))"

fun metadata_error_str :: "metadata_error \<Rightarrow> string" where
  "metadata_error_str (TypeMismatch key t) =
     ''Metadata key '' @ quoted key @ '' value does not match collection config expected type '' @ quoted t"
| "metadata_error_str (ValueTooLong key) =
     ''String metadata value for key '' @ quoted key @ '' exceeds '' @ nat_str MAX_INDEXED_METADATA_VALUE_LENGTH @ '' character limit''"

definition check_documents ::
    "ingest_env \<Rightarrow> collection_config_internal \<Rightarrow> document list \<Rightarrow> upsert_sync_error + document list" where
  "check_documents env config documents =
     and_then (collect_result (map (normalize_doc (ie_parse_dt env)) documents))
       (\<lambda>docs. and_then (try_for_each (\<lambda>d. map_err (\<lambda>e. UValidation (metadata_error_str e))
                  (validate_metadata_types (ie_parse_dt env) config d)) docs)
       (\<lambda>_. Inr docs))"

definition lock_ids :: "document list \<Rightarrow> string list" where
  "lock_ids docs = remdups_adj (sort_by str_cmp (map doc_id docs))"

definition take_locks :: "ingest_env \<Rightarrow> document list \<Rightarrow> upsert_sync_error + unit" where
  "take_locks env docs =
     try_for_each (\<lambda>i. case ie_lock_error env i of Some e \<Rightarrow> Inl (UDb (Config e)) | None \<Rightarrow> Inr ()) (lock_ids docs)"

text \<open>Documents whose queue row is gone, and the others; the two lists run in parallel.\<close>

fun split_drained :: "string set \<Rightarrow> queue_verify option list \<Rightarrow> document list \<Rightarrow> document list \<times> string list" where
  "split_drained still vs [] = ([], [])"
| "split_drained still vs (d # ds) =
     (let (kept, drained) = split_drained still (tl vs) ds in
      case (if vs = [] then None else hd vs) of
        Some v \<Rightarrow> if qv_queue_id v \<notin> still then (kept, doc_id d # drained) else (d # kept, drained)
      | None \<Rightarrow> (d # kept, drained))"

definition reverify ::
    "ingest_env \<Rightarrow> queue_verify option list \<Rightarrow> document list \<Rightarrow> store \<Rightarrow> upsert_sync_error + document list \<times> string list" where
  "reverify env verifies docs st =
     (if list_ex (\<lambda>q. q \<noteq> None) verifies
      then case ie_queue_error env of
             Some e \<Rightarrow> Inl (UDb e)
           | None \<Rightarrow>
               Inr (split_drained
                 (set (map qd_queue_id (get_from_queue (map qv_queue_id (List.map_filter (\<lambda>q. q) verifies)) st)))
                 verifies docs)
      else Inr (docs, []))"

definition existing_map :: "string list \<Rightarrow> document option list \<Rightarrow> string \<rightharpoonup> document" where
  "existing_map ids results = map_of (rev (List.map_filter (\<lambda>(i, r). map_option (Pair i) r) (zip ids results)))"

record partition =
  pt_skipped :: "string list"
  pt_vectorize :: "(document \<times> bool) list"
  pt_patch :: "document list"

definition partition_step ::
    "(string \<rightharpoonup> document) \<Rightarrow> collection_config_internal \<Rightarrow> document \<Rightarrow> partition \<Rightarrow> partition" where
  "partition_step existing config doc p =
     (case existing (doc_id doc) of
        Some ex \<Rightarrow>
          if doc_timestamp doc \<le> doc_timestamp ex then p\<lparr>pt_skipped := pt_skipped p @ [doc_id doc]\<rparr>
          else if needs_revectorization doc ex config then p\<lparr>pt_vectorize := pt_vectorize p @ [(doc, False)]\<rparr>
          else p\<lparr>pt_patch := pt_patch p @ [doc]\<rparr>
      | None \<Rightarrow> p\<lparr>pt_vectorize := pt_vectorize p @ [(doc, True)]\<rparr>)"

definition partition_docs :: "(string \<rightharpoonup> document) \<Rightarrow> collection_config_internal \<Rightarrow> document list \<Rightarrow> partition" where
  "partition_docs existing config docs =
     fold (partition_step existing config) docs \<lparr>pt_skipped = [], pt_vectorize = [], pt_patch = []\<rparr>"

text \<open>Average lengths with a default for the fields of tokenizing vectors.\<close>

definition default_avgdls ::
    "collection_config_internal \<Rightarrow> (string, fp) hash_map \<Rightarrow> (string, fp) hash_map" where
  "default_avgdls config avgdls =
     fold (\<lambda>c avgdls.
       if is_custom_tokenization (vc_type c)
       then case vector_index_fields c of
              Inl _ \<Rightarrow> avgdls
            | Inr slots \<Rightarrow> fold (\<lambda>f avgdls. hm_upsert (field_vector_name f (vc_name c)) (f64 50) (\<lambda>v. v) avgdls) slots avgdls
       else avgdls) (cci_vectors config) avgdls"

text \<open>The attempts to write; \<open>Inr\<close> means that one of them succeeded.\<close>

fun add_attempts :: "ingest_env \<Rightarrow> nat list \<Rightarrow> upsert_sync_error + unit" where
  "add_attempts env [] = Inr ()"
| "add_attempts env (attempt # rest) =
     (case ie_add_result env attempt of
        None \<Rightarrow> Inr ()
      | Some e \<Rightarrow> if attempt < ADD_DOCUMENTS_MAX_ATTEMPTS then add_attempts env rest else Inl (UDb e))"

definition token_update ::
    "int \<Rightarrow> int \<Rightarrow> bool \<Rightarrow> document option \<Rightarrow> string \<times> nat \<Rightarrow>
     (string, token_length_update) hash_map \<Rightarrow> (string, token_length_update) hash_map" where
  "token_update new_docs upd_docs is_new existing p updates =
     hm_upsert (fst p)
       \<lparr>tlu_new_doc_count = new_docs, tlu_new_sum_token_lengths = 0, tlu_update_doc_count = upd_docs,
        tlu_update_sum_token_lengths = 0, tlu_old_sum_token_lengths = 0\<rparr>
       (\<lambda>u. if is_new then u\<lparr>tlu_new_sum_token_lengths := tlu_new_sum_token_lengths u + int (snd p)\<rparr>
            else u\<lparr>tlu_update_sum_token_lengths := tlu_update_sum_token_lengths u + int (snd p),
                   tlu_old_sum_token_lengths := tlu_old_sum_token_lengths u +
                     (case existing of
                        Some ex \<Rightarrow> (case map_of (doc_token_lengths ex) (fst p) of Some old \<Rightarrow> int old | None \<Rightarrow> 0)
                      | None \<Rightarrow> 0)\<rparr>)
       updates"

definition stats_updates ::
    "(string \<rightharpoonup> document) \<Rightarrow> (document \<times> bool) list \<Rightarrow> document list \<Rightarrow> (string, token_length_update) hash_map" where
  "stats_updates existing to_vectorize docs_with_vectors =
     (let new_docs = int (length (filter (\<lambda>p. snd p) to_vectorize));
          upd_docs = int (length (filter (\<lambda>p. \<not> snd p) to_vectorize))
      in fold (\<lambda>((doc, is_new), dv) updates.
                 fold (token_update new_docs upd_docs is_new (existing (doc_id doc))) (doc_token_lengths dv) updates)
           (zip to_vectorize docs_with_vectors) [])"

text \<open>From the partition on: patch, vectorize, write, and send the statistics.\<close>

definition apply_partition ::
    "ingest_env \<Rightarrow> string \<Rightarrow> collection_config_internal \<Rightarrow> (string \<rightharpoonup> document) \<Rightarrow> partition \<Rightarrow> string list \<Rightarrow> store \<Rightarrow>
     store \<times> (upsert_sync_error + bulk_upsert_outcome)" where
  "apply_partition env coll config existing p drained st =
     (case (if pt_patch p = [] then Inr []
            else and_then (collect_result (map (normalize_doc (ie_parse_dt env)) (pt_patch p)))
                   (\<lambda>docs. case ie_patch_error env of Some e \<Rightarrow> Inl (UDb e) | None \<Rightarrow> Inr docs)) of
        Inl e \<Rightarrow> (st, Inl e)
      | Inr patch_docs \<Rightarrow>
          let st = patch_documents coll patch_docs (cci_store_content config) st;
              outcome = \<lparr>buo_skipped = pt_skipped p, buo_drained = drained\<rparr>
          in if pt_vectorize p = [] then (st, Inr outcome)
             else case ie_stats env of
               Inl e \<Rightarrow> (st, Inl (UDb e))
             | Inr avgdls \<Rightarrow>
                 (case collect_result (map (normalize_doc (ie_parse_dt env)) (map fst (pt_vectorize p))) of
                    Inl e \<Rightarrow> (st, Inl e)
                  | Inr docs_owned \<Rightarrow>
                      (case vectorize_documents (ie_embedders env) (ie_threads env) docs_owned (cci_vectors config)
                              (Some (default_avgdls config avgdls)) of
                         None \<Rightarrow> (st, Inl (UVectorization ''Rayon channel dropped: channel closed''))
                       | Some (Inl e) \<Rightarrow> (st, Inl (UVectorization e))
                       | Some (Inr docs_with_vectors) \<Rightarrow>
                           (case add_attempts env [1..<ADD_DOCUMENTS_MAX_ATTEMPTS + 1] of
                              Inl e \<Rightarrow> (st, Inl e)
                            | Inr _ \<Rightarrow>
                                let st = add_documents coll docs_with_vectors (cci_store_content config) st;
                                    updates = stats_updates existing (pt_vectorize p) docs_with_vectors
                                in if updates = [] then (st, Inr outcome)
                                   else case ie_enqueue_error env of
                                          Some e \<Rightarrow> (st, Inl (UDb e))
                                        | None \<Rightarrow> (enqueue_stats coll updates st, Inr outcome)))))"

definition document_upsert_bulk_internal ::
    "ingest_env \<Rightarrow> string \<Rightarrow> document list \<Rightarrow> queue_verify option list \<Rightarrow> store \<Rightarrow>
     store \<times> (upsert_sync_error + bulk_upsert_outcome)" where
  "document_upsert_bulk_internal env coll documents verifies st =
     (if documents = [] then (st, Inr \<lparr>buo_skipped = [], buo_drained = []\<rparr>)
      else case checked_config env coll verifies (st_cache st) of
        (cache, Inl e) \<Rightarrow> (st\<lparr>st_cache := cache\<rparr>, Inl e)
      | (cache, Inr config) \<Rightarrow>
          let st = st\<lparr>st_cache := cache\<rparr> in
          (case and_then (check_documents env config documents)
                  (\<lambda>docs. and_then (take_locks env docs) (\<lambda>_. reverify env verifies docs st)) of
             Inl e \<Rightarrow> (st, Inl e)
           | Inr (docs, drained) \<Rightarrow>
               if list_ex (\<lambda>q. q \<noteq> None) verifies \<and> docs = []
               then (st, Inr \<lparr>buo_skipped = [], buo_drained = drained\<rparr>)
               else
                 let docs = (if cci_store_content config then docs else map (set_content_hash (ie_hash env)) docs);
                     ids = map doc_id docs
                 in case ie_get_error env of
                      Some e \<Rightarrow> (st, Inl (UDb e))
                    | None \<Rightarrow>
                        let existing = existing_map ids (get_documents coll st {} ids)
                        in apply_partition env coll config existing (partition_docs existing config docs) drained st))"

section \<open>Deletes\<close>

definition delete_updates :: "document \<Rightarrow> (string, token_length_update) hash_map" where
  "delete_updates doc =
     fold (\<lambda>(f, n). AList.update f
       \<lparr>tlu_new_doc_count = -1, tlu_new_sum_token_lengths = - int n, tlu_update_doc_count = 0,
        tlu_update_sum_token_lengths = 0, tlu_old_sum_token_lengths = 0\<rparr>) (doc_token_lengths doc) []"

definition delete_precheck :: "ingest_env \<Rightarrow> queue_verify option \<Rightarrow> upsert_sync_error + unit" where
  "delete_precheck env queue =
     (case queue of
        None \<Rightarrow> Inr ()
      | Some qv \<Rightarrow>
          (case ie_info1 env of
             Inl e \<Rightarrow> Inl (config_read_error e)
           | Inr config \<Rightarrow>
               if cci_collection_id config \<noteq> qv_collection_id qv
               then Inl (mismatch_error (qv_collection_id qv) (cci_collection_id config)) else Inr ()))"

definition delete_reverify :: "ingest_env \<Rightarrow> queue_verify option \<Rightarrow> store \<Rightarrow> upsert_sync_error + unit" where
  "delete_reverify env queue st =
     (case queue of
        None \<Rightarrow> Inr ()
      | Some qv \<Rightarrow>
          (case ie_queue_error env of
             Some e \<Rightarrow> Inl (UDb e)
           | None \<Rightarrow> if get_from_queue [qv_queue_id qv] st = [] then Inl UQueueEntryGone else Inr ()))"

definition document_delete_sync ::
    "ingest_env \<Rightarrow> string \<Rightarrow> string \<Rightarrow> int \<Rightarrow> queue_verify option \<Rightarrow> store \<Rightarrow>
     store \<times> (upsert_sync_error + string list)" where
  "document_delete_sync env coll i ts queue st =
     (case and_then (delete_precheck env queue)
             (\<lambda>_. and_then (case ie_lock_error env i of Some e \<Rightarrow> Inl (UDb (Config e)) | None \<Rightarrow> Inr ())
             (\<lambda>_. and_then (delete_reverify env queue st)
             (\<lambda>_. case ie_get_error env of Some e \<Rightarrow> Inl (UDb e) | None \<Rightarrow> Inr ()))) of
        Inl e \<Rightarrow> (st, Inl e)
      | Inr _ \<Rightarrow>
          let existing = st_docs st (coll, i) in
          (case ie_cancel_error env of
             Some e \<Rightarrow> (st, Inl (UDb e))
           | None \<Rightarrow>
               let st = delete_upserts_from_queue coll i ts st in
               (case existing of
                  None \<Rightarrow> (st, Inr [])
                | Some doc \<Rightarrow>
                    if ts \<le> doc_timestamp doc then (st, Inr [i])
                    else case ie_delete_error env of
                           Some (NotFound _) \<Rightarrow> (st, Inr [])
                         | Some e \<Rightarrow> (st, Inl (UDb e))
                         | None \<Rightarrow>
                             let st = delete_document coll i st; updates = delete_updates doc
                             in if updates = [] then (st, Inr [])
                                else case ie_enqueue_error env of
                                       Some e \<Rightarrow> (st, Inl (UDb e))
                                     | None \<Rightarrow> (enqueue_stats coll updates st, Inr []))))"

section \<open>The pieces of an upsert\<close>

lemma get_documents_zip:
  "map_of (rev (List.map_filter (\<lambda>(i, r). map_option (Pair i) r) (zip ids (get_documents coll st gone ids)))) i =
     (if i \<in> set ids \<and> i \<notin> gone then st_docs st (coll, i) else None)"
proof (induction ids arbitrary: gone)
  case (Cons j ids)
  show ?case
    by (cases "st_docs st (coll, j)") (auto simp: Cons.IH List.map_filter_simps map_add_def split: option.splits)
qed (simp add: List.map_filter_simps)

lemma existing_map_eq:
  "existing_map ids (get_documents coll st {} ids) i = (if i \<in> set ids then st_docs st (coll, i) else None)"
  using get_documents_zip [of ids coll st "{}" i] by (simp add: existing_map_def)

definition stale :: "(string \<rightharpoonup> document) \<Rightarrow> document \<Rightarrow> bool" where
  "stale existing d \<longleftrightarrow> (case existing (doc_id d) of Some ex \<Rightarrow> doc_timestamp d \<le> doc_timestamp ex | None \<Rightarrow> False)"

definition to_patch :: "(string \<rightharpoonup> document) \<Rightarrow> collection_config_internal \<Rightarrow> document \<Rightarrow> bool" where
  "to_patch existing config d \<longleftrightarrow> \<not> stale existing d \<and>
     (case existing (doc_id d) of Some ex \<Rightarrow> \<not> needs_revectorization d ex config | None \<Rightarrow> False)"

lemma partition_fold:
  "fold (partition_step existing config) docs p =
     \<lparr>pt_skipped = pt_skipped p @ map doc_id (filter (stale existing) docs),
      pt_vectorize = pt_vectorize p @ map (\<lambda>d. (d, existing (doc_id d) = None))
        (filter (\<lambda>d. \<not> stale existing d \<and> \<not> to_patch existing config d) docs),
      pt_patch = pt_patch p @ filter (to_patch existing config) docs\<rparr>"
  by (induction docs arbitrary: p) (auto simp: partition_step_def stale_def to_patch_def split: option.splits)

lemma partition_docs_eq:
  "partition_docs existing config docs =
     \<lparr>pt_skipped = map doc_id (filter (stale existing) docs),
      pt_vectorize = map (\<lambda>d. (d, existing (doc_id d) = None))
        (filter (\<lambda>d. \<not> stale existing d \<and> \<not> to_patch existing config d) docs),
      pt_patch = filter (to_patch existing config) docs\<rparr>"
  by (simp add: partition_docs_def partition_fold)

lemma doc_to_payload_sel [simp]:
  "doc_id (doc_to_payload b d) = doc_id d" "doc_timestamp (doc_to_payload b d) = doc_timestamp d"
  "doc_token_lengths (doc_to_payload b d) = []"
  "doc_id (doc_payload_only b d) = doc_id d" "doc_timestamp (doc_payload_only b d) = doc_timestamp d"
  "doc_token_lengths (doc_payload_only b d) = []"
  by (cases d; simp)+

lemma add_documents_docs:
  "st_docs (add_documents coll docs b st) =
     st_docs st ++ map_of (rev (map (\<lambda>d. ((coll, doc_id d), doc_to_payload b d)) docs))"
  unfolding add_documents_def by (induction docs arbitrary: st) (simp_all add: map_add_upd_left)

lemma add_documents_frame [simp]:
  "st_jobs (add_documents coll docs b st) = st_jobs st" "st_queue (add_documents coll docs b st) = st_queue st"
  "st_cache (add_documents coll docs b st) = st_cache st"
  unfolding add_documents_def by (induction docs arbitrary: st; simp)+

lemma patch_documents_docs:
  "\<forall>d\<in>set docs. st_docs st (coll, doc_id d) \<noteq> None \<Longrightarrow>
   st_docs (patch_documents coll docs b st) =
     st_docs st ++ map_of (rev (map (\<lambda>d. ((coll, doc_id d), doc_payload_only b d)) docs))"
proof (induction docs arbitrary: st)
  case (Cons d docs)
  let ?st = "st\<lparr>st_docs := (st_docs st)((coll, doc_id d) \<mapsto> doc_payload_only b d)\<rparr>"
  have "patch_documents coll (d # docs) b st = patch_documents coll docs b ?st"
    using Cons.prems by (auto simp: patch_documents_def)
  moreover have "\<forall>d\<in>set docs. st_docs ?st (coll, doc_id d) \<noteq> None" using Cons.prems by simp
  ultimately show ?case using Cons.IH [of ?st] by (auto simp: fun_eq_iff map_add_def split: option.splits)
qed (simp add: patch_documents_def)

lemma patch_documents_frame [simp]:
  "st_jobs (patch_documents coll docs b st) = st_jobs st" "st_queue (patch_documents coll docs b st) = st_queue st"
  "st_cache (patch_documents coll docs b st) = st_cache st" "st_vectors (patch_documents coll docs b st) = st_vectors st"
  unfolding patch_documents_def by (induction docs arbitrary: st; simp)+

lemma add_documents_vectors:
  "c \<noteq> coll \<or> i \<notin> doc_id ` set docs \<Longrightarrow> st_vectors (add_documents coll docs b st) (c, i) = st_vectors st (c, i)"
  unfolding add_documents_def by (induction docs arbitrary: st) auto

lemma enqueue_stats_frame [simp]:
  "st_vectors (enqueue_stats coll u st) = st_vectors st"
  "st_jobs (enqueue_stats coll u st) = st_jobs st @ [\<lparr>sj_collection_name = coll, sj_updates = u\<rparr>]"
  "st_docs (enqueue_stats coll u st) = st_docs st" "st_queue (enqueue_stats coll u st) = st_queue st"
  by (simp_all add: enqueue_stats_def)

lemma normalize_doc_keeps_ids:
  "normalize_doc p d = Inr d' \<Longrightarrow> doc_id d' = doc_id d \<and> doc_timestamp d' = doc_timestamp d"
  by (auto simp: normalize_doc_def split: option.splits dest: normalize_doc_keeps)

abbreviation doc_version :: "document \<Rightarrow> string \<times> int" where
  "doc_version d \<equiv> (doc_id d, doc_timestamp d)"

text \<open>Normalisation as a total function, and the fields it leaves alone.\<close>

definition norm_doc :: "document \<Rightarrow> document" where
  "norm_doc d = set_doc_metadata (map_option (map (\<lambda>(k, v). (k, meta_meaning v))) (doc_metadata d)) d"

lemma norm_doc_sel [simp]:
  "doc_id (norm_doc d) = doc_id d" "doc_timestamp (norm_doc d) = doc_timestamp d" "doc_tags (norm_doc d) = doc_tags d"
  "doc_name (norm_doc d) = doc_name d" "doc_description (norm_doc d) = doc_description d" "doc_content (norm_doc d) = doc_content d"
  "doc_content_hash (norm_doc d) = doc_content_hash d" "doc_custom_vectors (norm_doc d) = doc_custom_vectors d"
  "doc_vectors (norm_doc d) = doc_vectors d"
  "doc_metadata (norm_doc d) = map_option (map (\<lambda>(k, v). (k, meta_meaning v))) (doc_metadata d)"
  by (cases d; simp add: norm_doc_def)+

lemma normalize_doc_eq: "normalize_doc p d = Inr d' \<Longrightarrow> d' = norm_doc d"
proof -
  assume "normalize_doc p d = Inr d'"
  then have "normalize_document_metadata_inplace p d = Some (Inr d')" by (auto simp: normalize_doc_def split: option.splits)
  then have "d' = (case doc_metadata d of None \<Rightarrow> d | Some m \<Rightarrow> set_doc_metadata (Some (map (\<lambda>(k, v). (k, meta_meaning v)) m)) d)"
    using normalize_metadata_correct by blast
  then show ?thesis by (cases d) (auto simp: norm_doc_def split: option.splits)
qed

lemma normalize_all_eq: "collect_result (map (normalize_doc p) docs) = Inr docs' \<Longrightarrow> docs' = map norm_doc docs"
  by (induction docs arbitrary: docs') (auto dest: normalize_doc_eq)

lemma vectorize_payloads:
  assumes "vectorize_documents em n docs cfgs av = Some (Inr out)"
  shows "map (doc_to_payload b) out = map (doc_to_payload b \<circ> set_doc_joined None) docs"
proof (rule nth_equalityI)
  have payload: "doc_to_payload b (set_doc_joined None (set_doc_token_lengths t (set_doc_vectors v d))) =
      doc_to_payload b (set_doc_joined None d)" for t v d by (cases d) simp
  fix i assume "i < length (map (doc_to_payload b) out)"
  then show "map (doc_to_payload b) out ! i = map (doc_to_payload b \<circ> set_doc_joined None) docs ! i"
    using assms by (auto simp: vectorize_documents_def case_prod_beta nth_enumerate_eq payload)
qed (use assms in \<open>auto simp: vectorize_documents_def\<close>)

lemma normalize_all_versions:
  "collect_result (map (normalize_doc p) docs) = Inr docs' \<Longrightarrow> map (\<lambda>d. doc_version d) docs' = map (\<lambda>d. doc_version d) docs"
  by (induction docs arbitrary: docs') (auto dest: normalize_doc_keeps_ids)

lemma vectorize_versions:
  "vectorize_documents em n docs cfgs av = Some (Inr out) \<Longrightarrow> map (\<lambda>d. doc_version d) out = map (\<lambda>d. doc_version d) docs"
  by (auto simp: vectorize_documents_def case_prod_beta intro!: nth_equalityI simp: nth_enumerate_eq)

lemma check_documents_versions:
  "check_documents env config docs = Inr docs' \<Longrightarrow> map (\<lambda>d. doc_version d) docs' = map (\<lambda>d. doc_version d) docs"
  by (auto simp: check_documents_def dest: normalize_all_versions)

text \<open>The documents whose queue row is no longer there.\<close>

definition row_gone :: "store \<Rightarrow> queue_verify option list \<Rightarrow> nat \<Rightarrow> bool" where
  "row_gone st verifies j \<longleftrightarrow>
     j < length verifies \<and> (case verifies ! j of Some v \<Rightarrow> qv_queue_id v \<notin> qd_queue_id ` set (st_queue st) | None \<Rightarrow> False)"

lemma split_drained_eq:
  "split_drained still vs docs =
     (nths docs {j. \<not> (j < length vs \<and> (case vs ! j of Some v \<Rightarrow> qv_queue_id v \<notin> still | None \<Rightarrow> False))},
      map doc_id (nths docs {j. j < length vs \<and> (case vs ! j of Some v \<Rightarrow> qv_queue_id v \<notin> still | None \<Rightarrow> False)}))"
proof (induction still vs docs rule: split_drained.induct)
  case (2 still vs d ds)
  then show ?case by (cases vs) (auto simp: nths_Cons Let_def split: option.splits)
qed simp

lemma reverify_eq:
  assumes "reverify env verifies docs st = Inr (kept, drained)"
  shows "kept = nths docs {j. \<not> row_gone st verifies j}" "drained = map doc_id (nths docs {j. row_gone st verifies j})"
proof -
  let ?still = "set (map qd_queue_id (get_from_queue (map qv_queue_id (List.map_filter (\<lambda>q. q) verifies)) st))"
  have gone: "row_gone st verifies j \<longleftrightarrow>
      j < length verifies \<and> (case verifies ! j of Some v \<Rightarrow> qv_queue_id v \<notin> ?still | None \<Rightarrow> False)" for j
  proof (cases "j < length verifies")
    case True
    show ?thesis
    proof (cases "verifies ! j")
      case (Some v)
      then have "Some v \<in> set verifies" using True nth_mem by metis
      then have "qv_queue_id v \<in> set (map qv_queue_id (List.map_filter (\<lambda>q. q) verifies))" by (force simp: List.map_filter_def)
      then show ?thesis using Some by (auto simp: row_gone_def get_from_queue_def)
    qed (simp add: row_gone_def)
  qed (simp add: row_gone_def)
  have none: "\<not> row_gone st verifies j" if "\<not> list_ex (\<lambda>q. q \<noteq> None) verifies" for j
    using that by (auto simp: row_gone_def list_ex_length split: option.splits)
  show "kept = nths docs {j. \<not> row_gone st verifies j}" "drained = map doc_id (nths docs {j. row_gone st verifies j})"
  proof -
    have "kept = nths docs {j. \<not> row_gone st verifies j} \<and> drained = map doc_id (nths docs {j. row_gone st verifies j})"
    proof (cases "list_ex (\<lambda>q. q \<noteq> None) verifies")
      case True
      then have "split_drained ?still verifies docs = (kept, drained)" using assms by (auto simp: reverify_def split: option.splits)
      then show ?thesis by (simp only: split_drained_eq prod.inject gone)
    next
      case False
      then show ?thesis using assms none by (auto simp: reverify_def nths_all nths_empty)
    qed
    then show "kept = nths docs {j. \<not> row_gone st verifies j}" "drained = map doc_id (nths docs {j. row_gone st verifies j})"
      by simp_all
  qed
qed

lemma nths_disjoint_ids:
  assumes "distinct (map doc_id docs)" "d \<in> set (nths docs {j. \<not> P j})"
  shows "doc_id d \<notin> doc_id ` set (nths docs {j. P j})"
  using assms by (auto simp: set_nths distinct_conv_nth)

definition written :: "(document \<Rightarrow> document) \<Rightarrow> string \<Rightarrow> document list \<Rightarrow> string \<times> string \<rightharpoonup> document" where
  "written f coll docs = map_of (rev (map (\<lambda>d. ((coll, doc_id d), f d)) docs))"

lemma written_Nil [simp]: "written f coll [] = Map.empty"
  by (simp add: written_def)

lemma written_payload:
  "(\<And>d. doc_id (f d) = doc_id d) \<Longrightarrow> written f coll docs = map_of (rev (map (\<lambda>x. ((coll, doc_id x), x)) (map f docs)))"
  by (simp add: written_def o_def)

lemma set_doc_joined_sel [simp]:
  "doc_id (set_doc_joined j d) = doc_id d" "doc_timestamp (set_doc_joined j d) = doc_timestamp d" "doc_tags (set_doc_joined j d) = doc_tags d"
  "doc_name (set_doc_joined j d) = doc_name d" "doc_description (set_doc_joined j d) = doc_description d"
  "doc_content (set_doc_joined j d) = doc_content d" "doc_content_hash (set_doc_joined j d) = doc_content_hash d"
  "doc_metadata (set_doc_joined j d) = doc_metadata d"
  by (cases d; simp)+

definition patched :: "bool \<Rightarrow> document \<Rightarrow> document" where
  "patched b d = doc_payload_only b (norm_doc d)"

definition added :: "bool \<Rightarrow> document \<Rightarrow> document" where
  "added b d = doc_to_payload b (set_doc_joined None (norm_doc d))"

lemma patched_added_id [simp]:
  "doc_id (patched b d) = doc_id d" "doc_timestamp (patched b d) = doc_timestamp d" "doc_token_lengths (patched b d) = []"
  "doc_id (added b d) = doc_id d" "doc_timestamp (added b d) = doc_timestamp d" "doc_token_lengths (added b d) = []"
  by (simp_all add: patched_def added_def)

text \<open>What the last part of an upsert may have written.\<close>

definition partition_effect ::
    "bool \<Rightarrow> string \<Rightarrow> partition \<Rightarrow> string list \<Rightarrow> store \<Rightarrow> store \<Rightarrow> upsert_sync_error + bulk_upsert_outcome \<Rightarrow> bool" where
  "partition_effect b coll p drained st st' r \<longleftrightarrow>
     (\<exists>P A js. st_docs st' = st_docs st ++ written (patched b) coll P ++ written (added b) coll A \<and>
       (\<forall>c i. c \<noteq> coll \<or> i \<notin> doc_id ` set A \<longrightarrow> st_vectors st' (c, i) = st_vectors st (c, i)) \<and>
       st_queue st' = st_queue st \<and> st_jobs st' = st_jobs st @ js \<and> (\<forall>j\<in>set js. sj_collection_name j = coll) \<and>
       (r = Inr \<lparr>buo_skipped = pt_skipped p, buo_drained = drained\<rparr> \<or> \<not> is_ok r) \<and>
       (P = pt_patch p \<or> \<not> is_ok r \<and> P = []) \<and>
       (A = map fst (pt_vectorize p) \<or> \<not> is_ok r \<and> A = []))"

lemma apply_partition_effect:
  assumes "apply_partition env coll config existing p drained st = (st', r)"
    and "\<forall>d\<in>set (pt_patch p). st_docs st (coll, doc_id d) \<noteq> None"
  shows "partition_effect (cci_store_content config) coll p drained st st' r"
proof -
  let ?b = "cci_store_content config"
  let ?patch = "if pt_patch p = [] then Inr []
            else and_then (collect_result (map (normalize_doc (ie_parse_dt env)) (pt_patch p)))
                   (\<lambda>docs. case ie_patch_error env of Some e \<Rightarrow> Inl (UDb e) | None \<Rightarrow> Inr docs)"
  show ?thesis
  proof (cases ?patch)
    case (Inl e)
    then have "st' = st" "r = Inl e" using assms(1) by (simp_all add: apply_partition_def)
    then show ?thesis unfolding partition_effect_def by (intro exI [of _ "[]"]) simp
  next
    case (Inr P)
    have P: "P = map norm_doc (pt_patch p)"
      using Inr normalize_all_eq by (auto split: if_splits option.splits)
    let ?st = "patch_documents coll P ?b st"
    have "\<forall>d\<in>set P. st_docs st (coll, doc_id d) \<noteq> None" using assms(2) by (simp add: P)
    then have st: "st_docs ?st = st_docs st ++ written (patched ?b) coll (pt_patch p)"
      by (simp add: patch_documents_docs written_def P patched_def o_def)
    have err: ?thesis if "st' = ?st" "r = Inl e" for e
      unfolding partition_effect_def by (rule exI [of _ "pt_patch p"], rule exI [of _ "[]"], rule exI [of _ "[]"]) (use that st in auto)
    have ok: ?thesis
      if "st_docs st' = st_docs ?st ++ written (added ?b) coll (map fst (pt_vectorize p))"
        "\<And>c i. c \<noteq> coll \<or> i \<notin> doc_id ` set (map fst (pt_vectorize p)) \<Longrightarrow> st_vectors st' (c, i) = st_vectors st (c, i)"
        "st_queue st' = st_queue st" "st_jobs st' = st_jobs st @ js" "\<forall>j\<in>set js. sj_collection_name j = coll"
        "r = Inr \<lparr>buo_skipped = pt_skipped p, buo_drained = drained\<rparr> \<or> \<not> is_ok r" for js
      unfolding partition_effect_def
      by (rule exI [of _ "pt_patch p"], rule exI [of _ "map fst (pt_vectorize p)"], rule exI [of _ js]) (use that st in simp)
    note run = assms(1) [unfolded apply_partition_def Inr sum.case Let_def]
    show ?thesis
    proof (cases "pt_vectorize p = []")
      case True
      then show ?thesis using run ok [of "[]"] by auto
    next
      case False
      note run = run [unfolded if_not_P [OF False]]
      show ?thesis
      proof (cases "ie_stats env")
        case (Inl e)
        then show ?thesis using run err by auto
      next
        case (Inr avgdls)
        note run = run [unfolded Inr sum.case]
        show ?thesis
        proof (cases "collect_result (map (normalize_doc (ie_parse_dt env)) (map fst (pt_vectorize p)))")
          case (Inl e)
          then show ?thesis using run err by auto
        next
          case (Inr docs)
          note run = run [unfolded Inr sum.case]
          have docs: "docs = map norm_doc (map fst (pt_vectorize p))" by (rule normalize_all_eq [OF Inr])
          consider (fail) e where "(st', r) = (?st, Inl e)"
            | (fin) A js where "vectorize_documents (ie_embedders env) (ie_threads env) docs (cci_vectors config)
                              (Some (default_avgdls config avgdls)) = Some (Inr A)"
                "st_docs st' = st_docs (add_documents coll A ?b ?st)" "st_vectors st' = st_vectors (add_documents coll A ?b ?st)"
                "st_queue st' = st_queue st" "st_jobs st' = st_jobs st @ js" "\<forall>j\<in>set js. sj_collection_name j = coll"
                "r = Inr \<lparr>buo_skipped = pt_skipped p, buo_drained = drained\<rparr> \<or> \<not> is_ok r"
            using run by (auto split: option.splits sum.splits if_splits)
          then show ?thesis
          proof cases
            case fail
            then show ?thesis using err by simp
          next
            case (fin A js)
            have pay: "map (doc_to_payload ?b) A = map (added ?b) (map fst (pt_vectorize p))"
              using vectorize_payloads [OF fin(1), of ?b] by (simp add: docs added_def o_def)
            have w: "written (doc_to_payload ?b) coll A = written (added ?b) coll (map fst (pt_vectorize p))"
              by (simp only: written_payload doc_to_payload_sel patched_added_id pay)
            have "map doc_id A = map doc_id (map fst (pt_vectorize p))"
              using arg_cong [OF pay, of "map doc_id"] by (simp add: o_def)
            then have "doc_id ` set A = doc_id ` set (map fst (pt_vectorize p))" by (metis list.set_map)
            then show ?thesis
              using ok [OF _ _ fin(4-7)] fin(2,3) w add_documents_vectors [of _ coll _ A ?b ?st]
              by (simp add: add_documents_docs written_def [symmetric])
          qed
        qed
      qed
    qed
  qed
qed

text \<open>The part of the store an upsert compares with.\<close>

definition live :: "string \<Rightarrow> store \<Rightarrow> document list \<Rightarrow> string \<rightharpoonup> document" where
  "live coll st docs i = (if i \<in> doc_id ` set docs then st_docs st (coll, i) else None)"

definition hashed :: "ingest_env \<Rightarrow> collection_config_internal \<Rightarrow> document \<Rightarrow> document" where
  "hashed env config d = (if cci_store_content config then d else set_content_hash (ie_hash env) d)"

lemma hashed_sel [simp]: "doc_id (hashed env config d) = doc_id d" "doc_timestamp (hashed env config d) = doc_timestamp d"
  by (simp_all add: hashed_def set_content_hash_def)

text \<open>The documents an upsert goes on with, and those it drains.\<close>

definition kept_of ::
    "ingest_env \<Rightarrow> collection_config_internal \<Rightarrow> document list \<Rightarrow> queue_verify option list \<Rightarrow> store \<Rightarrow> string list \<Rightarrow> document list \<Rightarrow> bool" where
  "kept_of env config documents verifies st drained kept \<longleftrightarrow>
     kept = map (\<lambda>d. hashed env config (norm_doc d)) (nths documents {j. \<not> row_gone st verifies j}) \<and>
     drained = map doc_id (nths documents {j. row_gone st verifies j})"

lemma reverify_kept:
  assumes "check_documents env config documents = Inr docs" "reverify env verifies docs (st\<lparr>st_cache := cache\<rparr>) = Inr (kept, drained)"
  shows "kept_of env config documents verifies st drained (map (hashed env config) kept)"
proof -
  have "docs = map norm_doc documents" using assms(1) normalize_all_eq by (auto simp: check_documents_def)
  moreover have "row_gone (st\<lparr>st_cache := cache\<rparr>) verifies j = row_gone st verifies j" for j
    by (simp add: row_gone_def split: option.split)
  ultimately show ?thesis using reverify_eq [OF assms(2)] by (simp add: kept_of_def nths_map o_def)
qed

lemma upsert_effect:
  assumes "document_upsert_bulk_internal env coll documents verifies st = (st', r)"
  shows "documents = [] \<and> st' = st \<and> r = Inr \<lparr>buo_skipped = [], buo_drained = []\<rparr> \<or>
    st_docs st' = st_docs st \<and> \<not> is_ok r \<or>
    (\<exists>config drained kept. snd (checked_config env coll verifies (st_cache st)) = Inr config \<and>
      kept_of env config documents verifies st drained kept \<and>
      partition_effect (cci_store_content config) coll (partition_docs (live coll st kept) config kept) drained st st' r)"
proof (cases "documents = []")
  case True
  then show ?thesis using assms by (simp add: document_upsert_bulk_internal_def)
next
  case False
  obtain cache c where c: "checked_config env coll verifies (st_cache st) = (cache, c)" by fastforce
  let ?st = "st\<lparr>st_cache := cache\<rparr>"
  note run = assms [unfolded document_upsert_bulk_internal_def if_not_P [OF False] c prod.case Let_def]
  show ?thesis
  proof (cases c)
    case (Inl e)
    then show ?thesis using run by auto
  next
    case (Inr config)
    note run = run [unfolded Inr sum.case]
    let ?pre = "and_then (check_documents env config documents)
      (\<lambda>docs. and_then (take_locks env docs) (\<lambda>_. reverify env verifies docs ?st))"
    show ?thesis
    proof (cases ?pre)
      case (Inl e)
      then show ?thesis using run by auto
    next
      case (Inr kd)
      obtain kept drained where kd: "kd = (kept, drained)" by fastforce
      note run = run [unfolded Inr kd sum.case prod.case]
      obtain docs where docs: "check_documents env config documents = Inr docs" "reverify env verifies docs ?st = Inr (kept, drained)"
        using Inr kd by auto
      let ?kept = "map (hashed env config) kept"
      have h: "(if cci_store_content config then kept else map (set_content_hash (ie_hash env)) kept) = ?kept"
        by (cases "cci_store_content config") (simp_all add: hashed_def [abs_def])
      have k: "kept_of env config documents verifies st drained ?kept" by (rule reverify_kept [OF docs])
      have ex: "existing_map (map doc_id ?kept) (get_documents coll ?st {} (map doc_id ?kept)) = live coll st ?kept"
        by (rule ext) (simp add: existing_map_eq live_def image_image)
      have "partition_effect (cci_store_content config) coll (partition_docs (live coll st ?kept) config ?kept) drained st st' r \<or>
          st_docs st' = st_docs st \<and> \<not> is_ok r"
      proof (cases "list_ex (\<lambda>q. q \<noteq> None) verifies \<and> kept = []")
        case True
        then have "?kept = []" "st' = ?st" "r = Inr \<lparr>buo_skipped = [], buo_drained = drained\<rparr>" using run by auto
        then show ?thesis by (auto simp: partition_effect_def partition_docs_eq)
      next
        case False
        note run = run [unfolded if_not_P [OF False]]
        show ?thesis
        proof (cases "ie_get_error env")
          case None
          have patch: "\<forall>d\<in>set (pt_patch (partition_docs (live coll st ?kept) config ?kept)). st_docs ?st (coll, doc_id d) \<noteq> None"
            by (auto simp: partition_docs_eq to_patch_def live_def split: option.splits if_splits)
          have "apply_partition env coll config (live coll st ?kept) (partition_docs (live coll st ?kept) config ?kept) drained ?st = (st', r)"
            using run [unfolded h] None ex by simp
          from apply_partition_effect [OF this patch] show ?thesis by (simp add: partition_effect_def)
        qed (use run in auto)
      qed
      then show ?thesis using k c \<open>c = Inr config\<close> by auto
    qed
  qed
qed

lemma written_None: "written f coll docs (c, i) = None \<longleftrightarrow> c \<noteq> coll \<or> i \<notin> doc_id ` set docs"
  by (auto simp: written_def map_of_eq_None_iff image_image)

lemma written_Some: "written f coll docs (c, i) = Some x \<Longrightarrow> c = coll \<and> (\<exists>d\<in>set docs. i = doc_id d \<and> x = f d)"
  by (auto simp: written_def dest!: map_of_SomeD)

abbreviation fresh_of :: "string \<Rightarrow> store \<Rightarrow> document list \<Rightarrow> document \<Rightarrow> bool" where
  "fresh_of coll st kept d \<equiv> d \<in> set kept \<and> \<not> stale (live coll st kept) d"

definition stored :: "bool \<Rightarrow> document \<Rightarrow> document \<Rightarrow> bool" where
  "stored b d s \<longleftrightarrow> s = patched b d \<and> doc_vectors d = None \<and> doc_custom_vectors d = None \<or> s = added b d"

lemma stored_version: "stored b d s \<Longrightarrow> doc_id s = doc_id d \<and> doc_timestamp s = doc_timestamp d"
  by (auto simp: stored_def)

lemma written_fresh:
  assumes "partition_effect b coll (partition_docs (live coll st kept) config kept) drained st st' r"
  shows "\<exists>P A. st_docs st' = st_docs st ++ written (patched b) coll P ++ written (added b) coll A \<and>
    (\<forall>d\<in>set P. fresh_of coll st kept d \<and> stored b d (patched b d)) \<and> (\<forall>d\<in>set A. fresh_of coll st kept d \<and> stored b d (added b d)) \<and>
    (is_ok r \<longrightarrow> (\<forall>d. fresh_of coll st kept d \<longrightarrow> d \<in> set P \<union> set A)) \<and>
    (\<forall>c i. c \<noteq> coll \<or> i \<notin> doc_id ` set A \<longrightarrow> st_vectors st' (c, i) = st_vectors st (c, i))"
proof -
  let ?p = "partition_docs (live coll st kept) config kept"
  obtain P A where e: "st_docs st' = st_docs st ++ written (patched b) coll P ++ written (added b) coll A"
    "P = pt_patch ?p \<or> \<not> is_ok r \<and> P = []" "A = map fst (pt_vectorize ?p) \<or> \<not> is_ok r \<and> A = []"
    "\<forall>c i. c \<noteq> coll \<or> i \<notin> doc_id ` set A \<longrightarrow> st_vectors st' (c, i) = st_vectors st (c, i)"
    using assms unfolding partition_effect_def by blast
  have "fresh_of coll st kept d \<and> stored b d (patched b d)" if "d \<in> set (pt_patch ?p)" for d
    using that by (auto simp: partition_docs_eq to_patch_def stored_def needs_revectorization_def split: option.splits)
  moreover have "fresh_of coll st kept d \<and> stored b d (added b d)" if "d \<in> set (map fst (pt_vectorize ?p))" for d
    using that by (auto simp: partition_docs_eq stored_def)
  moreover have "d \<in> set (pt_patch ?p) \<union> set (map fst (pt_vectorize ?p))" if "fresh_of coll st kept d" for d
    using that by (auto simp: partition_docs_eq)
  ultimately have "\<forall>d\<in>set P. fresh_of coll st kept d \<and> stored b d (patched b d)" "\<forall>d\<in>set A. fresh_of coll st kept d \<and> stored b d (added b d)"
    "is_ok r \<longrightarrow> (\<forall>d. fresh_of coll st kept d \<longrightarrow> d \<in> set P \<union> set A)"
    using e(2,3) by (metis empty_iff list.set(1), metis empty_iff list.set(1), metis)
  then show ?thesis using e(1,4) by blast
qed

lemma partition_written:
  assumes "partition_effect b coll (partition_docs (live coll st kept) config kept) drained st st' r"
  shows "st_docs st' (c, i) = st_docs st (c, i) \<and> st_vectors st' (c, i) = st_vectors st (c, i) \<or>
    c = coll \<and> (\<exists>s d. st_docs st' (c, i) = Some s \<and> fresh_of coll st kept d \<and> i = doc_id d \<and> stored b d s)"
proof -
  obtain P A where e: "st_docs st' = st_docs st ++ written (patched b) coll P ++ written (added b) coll A"
    "\<forall>d\<in>set P. fresh_of coll st kept d \<and> stored b d (patched b d)" "\<forall>d\<in>set A. fresh_of coll st kept d \<and> stored b d (added b d)"
    "\<forall>c i. c \<noteq> coll \<or> i \<notin> doc_id ` set A \<longrightarrow> st_vectors st' (c, i) = st_vectors st (c, i)"
    using written_fresh [OF assms] by blast
  show ?thesis
  proof (cases "written (added b) coll A (c, i)")
    case None
    then have v: "st_vectors st' (c, i) = st_vectors st (c, i)" using e(4) by (simp add: written_None)
    show ?thesis
    proof (cases "written (patched b) coll P (c, i)")
      case None
      then show ?thesis using v \<open>written (added b) coll A (c, i) = None\<close> by (simp add: e(1) map_add_def)
    next
      case (Some x)
      then obtain d where "c = coll" "d \<in> set P" "i = doc_id d" "x = patched b d" using written_Some by blast
      then show ?thesis using e(2) Some \<open>written (added b) coll A (c, i) = None\<close>
        by (intro disjI2 conjI exI [of _ x] exI [of _ d]) (auto simp: e(1) map_add_def)
    qed
  next
    case (Some x)
    then obtain d where "c = coll" "d \<in> set A" "i = doc_id d" "x = added b d" using written_Some by blast
    then show ?thesis using e(3) Some by (intro disjI2 conjI exI [of _ x] exI [of _ d]) (auto simp: e(1) map_add_def)
  qed
qed

text \<open>With distinct ids, everything that is fresh is written.\<close>

lemma partition_complete:
  assumes eff: "partition_effect b coll (partition_docs (live coll st kept) config kept) drained st st' r" "is_ok r"
    and "fresh_of coll st kept d"
  shows "\<exists>s e. st_docs st' (coll, doc_id d) = Some s \<and> fresh_of coll st kept e \<and> doc_id e = doc_id d \<and> stored b e s"
proof -
  obtain P A where e: "st_docs st' = st_docs st ++ written (patched b) coll P ++ written (added b) coll A"
    "\<forall>d\<in>set P. fresh_of coll st kept d \<and> stored b d (patched b d)" "\<forall>d\<in>set A. fresh_of coll st kept d \<and> stored b d (added b d)"
    "\<forall>d. fresh_of coll st kept d \<longrightarrow> d \<in> set P \<union> set A"
    using written_fresh [OF eff(1)] eff(2) by blast
  have mem: "d \<in> set P \<or> d \<in> set A" using e(4) assms(3) by blast
  show ?thesis
  proof (cases "written (added b) coll A (coll, doc_id d)")
    case None
    then have "d \<in> set P" using mem by (auto simp: written_None)
    then obtain x where x: "written (patched b) coll P (coll, doc_id d) = Some x"
      by (cases "written (patched b) coll P (coll, doc_id d)") (auto simp: written_None)
    then obtain a where "a \<in> set P" "doc_id d = doc_id a" "x = patched b a" using written_Some by blast
    then show ?thesis using e(2) x None by (intro exI [of _ x] exI [of _ a]) (auto simp: e(1) map_add_def)
  next
    case (Some x)
    then obtain a where "a \<in> set A" "doc_id d = doc_id a" "x = added b a" using written_Some by blast
    then show ?thesis using e(3) Some by (intro exI [of _ x] exI [of _ a]) (auto simp: e(1) map_add_def)
  qed
qed

lemma partition_skipped: "pt_skipped (partition_docs (live coll st kept) config kept) = map doc_id (filter (stale (live coll st kept)) kept)"
  by (simp add: partition_docs_eq)

text \<open>What is stored for a document, field by field: the metadata is unwrapped by both normalisations.\<close>

definition stored_as :: "bool \<Rightarrow> (string \<Rightarrow> string) \<Rightarrow> document \<Rightarrow> document \<Rightarrow> bool" where
  "stored_as store_content hash d s \<longleftrightarrow>
     doc_id s = doc_id d \<and> doc_timestamp s = doc_timestamp d \<and> doc_tags s = doc_tags d \<and> doc_name s = doc_name d \<and>
     doc_description s = doc_description d \<and> doc_content s = (if store_content then doc_content d else None) \<and>
     doc_content_hash s = (if store_content then doc_content_hash d else Some (hash (unwrap_or [] (doc_content d)))) \<and>
     doc_metadata s = map_option (map (\<lambda>(k, v). (k, meta_meaning (meta_meaning v)))) (doc_metadata d) \<and>
     doc_custom_vectors s = None \<and> doc_vectors s = None \<and> doc_token_lengths s = []"

lemma payload_fields:
  "doc_tags (doc_to_payload b d) = doc_tags d" "doc_name (doc_to_payload b d) = doc_name d"
  "doc_description (doc_to_payload b d) = doc_description d" "doc_content (doc_to_payload b d) = (if b then doc_content d else None)"
  "doc_content_hash (doc_to_payload b d) = doc_content_hash d" "doc_metadata (doc_to_payload b d) = doc_metadata d"
  "doc_custom_vectors (doc_to_payload b d) = None" "doc_vectors (doc_to_payload b d) = None"
  "doc_tags (doc_payload_only b d) = doc_tags d" "doc_name (doc_payload_only b d) = doc_name d"
  "doc_description (doc_payload_only b d) = doc_description d" "doc_content (doc_payload_only b d) = (if b then doc_content d else None)"
  "doc_content_hash (doc_payload_only b d) = doc_content_hash d" "doc_metadata (doc_payload_only b d) = doc_metadata d"
  "doc_custom_vectors (doc_payload_only b d) = doc_custom_vectors d" "doc_vectors (doc_payload_only b d) = doc_vectors d"
  by (cases d; simp)+

lemma hashed_fields:
  "doc_tags (hashed env config d) = doc_tags d" "doc_name (hashed env config d) = doc_name d"
  "doc_description (hashed env config d) = doc_description d" "doc_content (hashed env config d) = doc_content d"
  "doc_content_hash (hashed env config d) =
     (if cci_store_content config then doc_content_hash d else Some (ie_hash env (unwrap_or [] (doc_content d))))"
  "doc_metadata (hashed env config d) = doc_metadata d" "doc_custom_vectors (hashed env config d) = doc_custom_vectors d"
  "doc_vectors (hashed env config d) = doc_vectors d"
  by (cases d; simp add: hashed_def set_content_hash_def)+

lemma stored_stored_as:
  "stored (cci_store_content config) (hashed env config (norm_doc d)) s \<Longrightarrow> stored_as (cci_store_content config) (ie_hash env) d s"
  unfolding stored_def stored_as_def
  by (elim disjE conjE; simp add: patched_def added_def payload_fields hashed_fields option.map_comp o_def case_prod_beta')

text \<open>What an upsert promises for one document.\<close>

definition applied_or_stale ::
    "bool \<Rightarrow> (string \<Rightarrow> string) \<Rightarrow> string \<Rightarrow> store \<Rightarrow> store \<Rightarrow> bulk_upsert_outcome \<Rightarrow> document \<Rightarrow> bool" where
  "applied_or_stale store_content hash coll st st' out d \<longleftrightarrow>
     (if \<exists>ex. st_docs st (coll, doc_id d) = Some ex \<and> doc_timestamp d \<le> doc_timestamp ex
      then st_docs st' (coll, doc_id d) = st_docs st (coll, doc_id d) \<and>
           st_vectors st' (coll, doc_id d) = st_vectors st (coll, doc_id d) \<and> doc_id d \<in> set (buo_skipped out)
      else (\<exists>s. st_docs st' (coll, doc_id d) = Some s \<and> stored_as store_content hash d s) \<and> doc_id d \<notin> set (buo_skipped out))"

lemma unique_version:
  "distinct (map doc_id docs) \<Longrightarrow> d \<in> set docs \<Longrightarrow> e \<in> set docs \<Longrightarrow> doc_id d = doc_id e \<Longrightarrow> d = e"
  by (auto simp: distinct_map dest: inj_onD)

lemma kept_applied:
  assumes eff: "partition_effect (cci_store_content config) coll (partition_docs (live coll st kept) config kept) drained st st' (Inr out)"
    and k: "distinct (map doc_id kept)" "hashed env config (norm_doc d) \<in> set kept"
  shows "applied_or_stale (cci_store_content config) (ie_hash env) coll st st' out d"
proof -
  let ?k = "hashed env config (norm_doc d)" and ?stale = "stale (live coll st kept)"
  have out: "set (buo_skipped out) = doc_id ` {e \<in> set kept. ?stale e}"
    using eff by (auto simp: partition_effect_def partition_skipped is_ok_def)
  have same: "e = ?k" if "e \<in> set kept" "doc_id e = doc_id d" for e
    using unique_version [OF k(1) that(1) k(2)] that(2) by simp
  have "doc_id d \<in> doc_id ` {e \<in> set kept. ?stale e} \<longleftrightarrow> ?stale ?k"
  proof
    assume "doc_id d \<in> doc_id ` {e \<in> set kept. ?stale e}"
    then obtain e where "doc_id d = doc_id e" "e \<in> {e \<in> set kept. ?stale e}" by (rule imageE)
    then show "?stale ?k" using same [of e] by simp
  next
    assume "?stale ?k"
    then show "doc_id d \<in> doc_id ` {e \<in> set kept. ?stale e}" using k(2) by (intro image_eqI [of _ _ ?k]) simp_all
  qed
  then have skip: "doc_id d \<in> set (buo_skipped out) \<longleftrightarrow> ?stale ?k" unfolding out .
  have "live coll st kept (doc_id d) = st_docs st (coll, doc_id d)" using imageI [OF k(2), of doc_id] by (simp add: live_def)
  then have st: "?stale ?k \<longleftrightarrow> (\<exists>ex. st_docs st (coll, doc_id d) = Some ex \<and> doc_timestamp d \<le> doc_timestamp ex)"
    by (auto simp: stale_def split: option.splits)
  show ?thesis
  proof (cases "?stale ?k")
    case True
    have "st_docs st' (coll, doc_id d) = st_docs st (coll, doc_id d) \<and> st_vectors st' (coll, doc_id d) = st_vectors st (coll, doc_id d)"
      using partition_written [OF eff, of coll "doc_id d"] same True by metis
    then show ?thesis using True skip st by (simp add: applied_or_stale_def)
  next
    case False
    then obtain s e where s: "st_docs st' (coll, doc_id ?k) = Some s" "e \<in> set kept" "doc_id e = doc_id ?k"
        "stored (cci_store_content config) e s"
      using partition_complete [OF eff, of ?k] k(2) unfolding is_ok_def sum.case by blast
    have "e = ?k" using same [OF s(2)] s(3) by simp
    then have "stored_as (cci_store_content config) (ie_hash env) d s" using s(4) stored_stored_as by simp
    then show ?thesis using False skip st s(1) by (auto simp: applied_or_stale_def)
  qed
qed

text \<open>
  C1: the newest version wins. A bulk upsert that returns normally, of one or more documents with
  different ids, drains exactly the documents whose queue row is no longer in the queue and writes
  nothing for them; of the others, one that is not newer than the stored document is reported as
  skipped and leaves the document and its vectors in place, and every other is stored with its fields
  (without the content if the collection does not keep it, then with its hash) and not reported. All
  other documents and vectors, and the queue, stay as they are; only statistics of the collection are
  sent on.
\<close>

theorem upsert_newest_wins:
  assumes "document_upsert_bulk_internal env coll documents verifies st = (st', Inr out)"
    and "distinct (map doc_id documents)" "documents \<noteq> []"
  shows "\<exists>config js. snd (checked_config env coll verifies (st_cache st)) = Inr config \<and>
    buo_drained out = map doc_id (nths documents {j. row_gone st verifies j}) \<and>
    (\<forall>d\<in>set (nths documents {j. \<not> row_gone st verifies j}).
       applied_or_stale (cci_store_content config) (ie_hash env) coll st st' out d) \<and>
    (\<forall>c i. c \<noteq> coll \<or> i \<notin> doc_id ` set (nths documents {j. \<not> row_gone st verifies j}) \<longrightarrow>
       st_docs st' (c, i) = st_docs st (c, i) \<and> st_vectors st' (c, i) = st_vectors st (c, i)) \<and>
    st_queue st' = st_queue st \<and> st_jobs st' = st_jobs st @ js \<and> (\<forall>j\<in>set js. sj_collection_name j = coll)"
proof -
  let ?docs = "nths documents {j. \<not> row_gone st verifies j}"
  obtain config drained kept where c: "snd (checked_config env coll verifies (st_cache st)) = Inr config"
    and k: "kept_of env config documents verifies st drained kept"
    and eff: "partition_effect (cci_store_content config) coll (partition_docs (live coll st kept) config kept) drained st st' (Inr out)"
    using upsert_effect [OF assms(1)] assms(3) by (auto simp: is_ok_def)
  have kept: "kept = map (\<lambda>d. hashed env config (norm_doc d)) ?docs" and drained: "drained = map doc_id (nths documents {j. row_gone st verifies j})"
    using k by (simp_all add: kept_of_def)
  have "distinct (map doc_id ?docs)" using assms(2) by (simp add: nths_map [symmetric] distinct_nthsI)
  then have dist: "distinct (map doc_id kept)" by (simp add: kept o_def)
  have "applied_or_stale (cci_store_content config) (ie_hash env) coll st st' out d" if "d \<in> set ?docs" for d
    by (rule kept_applied [OF eff dist]) (use that in \<open>simp add: kept\<close>)
  moreover have "st_docs st' (c, i) = st_docs st (c, i) \<and> st_vectors st' (c, i) = st_vectors st (c, i)"
    if "c \<noteq> coll \<or> i \<notin> doc_id ` set ?docs" for c i
    using partition_written [OF eff, of c i] that by (auto simp: kept)
  moreover obtain js where "st_queue st' = st_queue st" "st_jobs st' = st_jobs st @ js" "\<forall>j\<in>set js. sj_collection_name j = coll"
    "buo_drained out = drained"
    using eff unfolding partition_effect_def is_ok_def by auto
  ultimately show ?thesis using c unfolding drained by (intro exI [of _ config] exI [of _ js]) blast
qed

text \<open>
  C2: an upsert never loses a document and never goes back in time. Whatever the documents, also with
  repeated ids, and whatever fails on the way, every stored document is still there afterwards and its
  timestamp is not smaller.
\<close>

theorem upsert_never_regresses:
  assumes "document_upsert_bulk_internal env coll documents verifies st = (st', r)" "st_docs st k = Some ex"
  shows "\<exists>s. st_docs st' k = Some s \<and> doc_timestamp ex \<le> doc_timestamp s"
proof -
  consider "st_docs st' = st_docs st"
    | config drained kept where "partition_effect (cci_store_content config) coll
        (partition_docs (live coll st kept) config kept) drained st st' r"
    using upsert_effect [OF assms(1)] by blast
  then show ?thesis
  proof cases
    case 1
    then show ?thesis using assms(2) by simp
  next
    case 2
    obtain c i where k: "k = (c, i)" by fastforce
    show ?thesis using partition_written [OF 2, of c i]
    proof (elim disjE exE conjE)
      assume "st_docs st' (c, i) = st_docs st (c, i)"
      then show ?thesis using assms(2) k by simp
    next
      fix s d
      assume s: "st_docs st' (c, i) = Some s" "stored (cci_store_content config) d s" "\<not> stale (live coll st kept) d"
        and d: "d \<in> set kept" "i = doc_id d" "c = coll"
      have "live coll st kept (doc_id d) = Some ex" using assms(2) d by (simp add: live_def k)
      then have "doc_timestamp ex < doc_timestamp d" using s(3) by (simp add: stale_def)
      then show ?thesis using s(1) stored_version [OF s(2)] by (auto simp: k)
    qed
  qed
qed

section \<open>Deletes respect timestamps\<close>

text \<open>
  C3: a delete that returns normally touches only its document and the queue. It cancels exactly the queued
  upserts of the document that are not newer than the request, also when the document is not stored, so that
  none of them can bring it back; it removes the stored document exactly when the request is newer (a document
  the database no longer finds counts as removed), and otherwise keeps it and reports it as skipped.
\<close>

theorem delete_newest_wins:
  assumes "document_delete_sync env coll i ts queue st = (st', Inr skipped)"
  shows "(\<forall>k. k \<noteq> (coll, i) \<longrightarrow> st_docs st' k = st_docs st k) \<and>
    st_queue st' = filter (\<lambda>q. \<not> (qd_collection_name q = coll \<and> qd_doc_id q = i \<and> qd_op_type q = Upsert \<and>
                                  qd_doc_timestamp q \<le> ts)) (st_queue st) \<and>
    (case st_docs st (coll, i) of
       None \<Rightarrow> skipped = [] \<and> st_docs st' (coll, i) = None
     | Some ex \<Rightarrow>
         if ts \<le> doc_timestamp ex then skipped = [i] \<and> st_docs st' (coll, i) = Some ex
         else skipped = [] \<and> (st_docs st' (coll, i) = None \<or> (\<exists>e. ie_delete_error env = Some (NotFound e))))"
  using assms
  by (auto simp: document_delete_sync_def delete_upserts_from_queue_def cancelled_def delete_document_def Let_def
      split: sum.splits option.splits if_splits db_error.splits)

section \<open>Statistics\<close>

text \<open>Documents are read back from payloads, which do not hold token lengths.\<close>

definition no_lengths :: "store \<Rightarrow> bool" where
  "no_lengths st \<longleftrightarrow> (\<forall>k d. st_docs st k = Some d \<longrightarrow> doc_token_lengths d = [])"

lemma written_no_lengths:
  "written (added b) coll docs (c, i) = Some d \<Longrightarrow> doc_token_lengths d = []"
  "written (patched b) coll docs (c, i) = Some d \<Longrightarrow> doc_token_lengths d = []"
  by (auto dest!: written_Some)

lemma upsert_no_lengths:
  assumes "document_upsert_bulk_internal env coll documents verifies st = (st', r)" "no_lengths st"
  shows "no_lengths st'"
proof -
  consider "st_docs st' = st_docs st"
    | b P A where "st_docs st' = st_docs st ++ written (patched b) coll P ++ written (added b) coll A"
    using upsert_effect [OF assms(1)] unfolding partition_effect_def by blast
  then show ?thesis
    using assms(2) by cases (auto simp: no_lengths_def map_add_def split: option.splits dest: written_no_lengths)
qed

definition no_old_lengths :: "(string, token_length_update) hash_map \<Rightarrow> bool" where
  "no_old_lengths updates \<longleftrightarrow> (\<forall>(f, u)\<in>set updates. tlu_old_sum_token_lengths u = 0)"

lemma token_update_no_old:
  assumes "no_old_lengths updates" "\<forall>ex. existing = Some ex \<longrightarrow> doc_token_lengths ex = []"
  shows "no_old_lengths (token_update n u is_new existing p updates)"
proof -
  let ?d = "\<lparr>tlu_new_doc_count = n, tlu_new_sum_token_lengths = 0, tlu_update_doc_count = u,
        tlu_update_sum_token_lengths = 0, tlu_old_sum_token_lengths = 0\<rparr>"
  have "tlu_old_sum_token_lengths (unwrap_or ?d (map_of updates (fst p))) = 0"
    using assms(1) by (auto simp: unwrap_or_def no_old_lengths_def split: option.splits dest!: map_of_SomeD)
  moreover have "(case existing of Some ex \<Rightarrow> (case map_of (doc_token_lengths ex) (fst p) of Some old \<Rightarrow> int old | None \<Rightarrow> 0) | None \<Rightarrow> 0) = 0"
    using assms(2) by (auto split: option.splits)
  ultimately show ?thesis
    using assms(1) hm_upsert_set [of "fst p" ?d _ updates]
    unfolding token_update_def no_old_lengths_def by (fastforce split: if_splits)
qed

lemma stats_updates_no_old:
  assumes "\<forall>i ex. existing i = Some ex \<longrightarrow> doc_token_lengths ex = []"
  shows "no_old_lengths (stats_updates existing to_vectorize docs)"
proof -
  have inner: "no_old_lengths (fold (token_update n u is_new (existing i)) ps updates)"
    if "no_old_lengths updates" for n u is_new i ps updates
    using that by (induction ps arbitrary: updates) (simp_all add: token_update_no_old assms)
  have outer: "no_old_lengths (fold (\<lambda>((doc, is_new), dv) updates.
      fold (token_update n u is_new (existing (doc_id doc))) (doc_token_lengths dv) updates) xs updates)"
    if "no_old_lengths updates" for n u xs updates
    using that by (induction xs arbitrary: updates) (simp_all add: inner case_prod_beta)
  show ?thesis unfolding stats_updates_def Let_def by (rule outer) (simp add: no_old_lengths_def)
qed

lemma apply_partition_jobs:
  assumes "apply_partition env coll config existing p drained st = (st', r)"
    and "\<forall>i ex. existing i = Some ex \<longrightarrow> doc_token_lengths ex = []"
  shows "\<exists>jobs. st_jobs st' = st_jobs st @ jobs \<and> (\<forall>j\<in>set jobs. no_old_lengths (sj_updates j))"
  using assms(1) stats_updates_no_old [OF assms(2)]
  by (auto simp: apply_partition_def Let_def enqueue_stats_def split: sum.splits option.splits if_splits)

lemma upsert_jobs:
  assumes "document_upsert_bulk_internal env coll documents verifies st = (st', r)" "no_lengths st"
  shows "\<exists>jobs. st_jobs st' = st_jobs st @ jobs \<and> (\<forall>j\<in>set jobs. no_old_lengths (sj_updates j))"
proof -
  have ex: "\<forall>i ex. existing_map ids (get_documents coll (st\<lparr>st_cache := cache\<rparr>) {} ids) i = Some ex \<longrightarrow> doc_token_lengths ex = []" for ids cache
    using assms(2) by (auto simp: existing_map_eq no_lengths_def split: if_splits)
  have none: "\<exists>jobs. st_jobs st'' = st_jobs st @ jobs \<and> (\<forall>j\<in>set jobs. no_old_lengths (sj_updates j))"
    if "st_jobs st'' = st_jobs st" for st''
    using that by (intro exI [of _ "[]"]) simp
  show ?thesis
    using assms(1) apply_partition_jobs [OF _ ex]
    by (fastforce simp: document_upsert_bulk_internal_def Let_def intro: none split: if_splits prod.splits sum.splits option.splits)
qed

text \<open>
  Token lengths are never subtracted from the statistics. A stored document is read back without its
  token lengths, so for every upsert the old sum of every statistics job is zero, and a delete sends no job at
  all: the average lengths and the document count of a collection only grow.
\<close>

theorem stats_never_subtract:
  assumes "no_lengths st"
  shows "(document_upsert_bulk_internal env coll documents verifies st = (st', r) \<longrightarrow>
      no_lengths st' \<and>
      (\<exists>jobs. st_jobs st' = st_jobs st @ jobs \<and>
        (\<forall>j\<in>set jobs. \<forall>(f, u)\<in>set (sj_updates j). tlu_old_sum_token_lengths u = 0))) \<and>
    (document_delete_sync env coll i ts queue st = (st'', r') \<longrightarrow> no_lengths st'' \<and> st_jobs st'' = st_jobs st)"
proof -
  have "no_lengths st'' \<and> st_jobs st'' = st_jobs st" if "document_delete_sync env coll i ts queue st = (st'', r')"
    using that assms
    by (auto simp: document_delete_sync_def delete_upserts_from_queue_def delete_document_def Let_def no_lengths_def delete_updates_def
      split: sum.splits option.splits if_splits db_error.splits)
  then show ?thesis
    using upsert_no_lengths [OF _ assms, of env coll documents verifies st' r] upsert_jobs [OF _ assms, of env coll documents verifies st' r]
    by (auto simp: no_old_lengths_def)
qed

section \<open>Runs\<close>

definition example_env :: ingest_env where
  "example_env =
     \<lparr>ie_info1 = Inr example_cached_config, ie_info2 = Inr example_cached_config, ie_now1 = 0, ie_now2 = 0,
      ie_parse_dt = (\<lambda>_. Inr 0), ie_hash = (\<lambda>s. s), ie_lock_error = (\<lambda>_. None), ie_queue_error = None,
      ie_get_error = None, ie_patch_error = None, ie_stats = Inr [], ie_embedders = example_embedders, ie_threads = 1,
      ie_add_result = (\<lambda>_. None), ie_enqueue_error = None, ie_cancel_error = None, ie_delete_error = None\<rparr>"

definition example_row :: "string \<Rightarrow> string \<Rightarrow> string \<Rightarrow> queue_document" where
  "example_row qid cid i =
     \<lparr>qd_queue_id = qid, qd_collection_name = ''c'', qd_collection_id = cid, qd_doc_id = i, qd_op_type = Upsert,
      qd_doc_timestamp = 1, qd_status = Queued, qd_info = None, qd_document = None, qd_created_at = 0, qd_timestamp = 0,
      qd_try_count = 0\<rparr>"

definition example_store :: "(string \<times> string \<rightharpoonup> document) \<Rightarrow> queue_document list \<Rightarrow> store" where
  "example_store docs rows =
     \<lparr>st_docs = docs, st_vectors = Map.empty, st_queue = rows, st_jobs = [], st_cache = cache_new True\<rparr>"

abbreviation example_docs :: "(string \<times> int) list \<Rightarrow> document list" where
  "example_docs ps \<equiv> map (\<lambda>(i, t). example_document i t) ps"

lemma example_checked:
  "first_verify vs = None \<or> (\<exists>q. first_verify vs = Some \<lparr>qv_queue_id = q, qv_collection_id = ''c''\<rparr>) \<Longrightarrow>
   snd (checked_config example_env ''c'' vs (cache_new True)) = Inr example_cached_config"
  by (auto simp: checked_config_def get_collection_info_for_write_def example_env_def cache_new_def cache_get_def
      cache_set_def example_cached_config_def)

lemma example_normalize: "normalize_doc p (example_document i t) = Inr (example_document i t)"
  by (simp add: normalize_doc_def normalize_document_metadata_inplace_def example_document_def)

lemma example_normalize_all: "collect_result (map (normalize_doc p) (example_docs ps)) = Inr (example_docs ps)"
  by (induction ps) (auto simp: example_normalize)

lemma example_check: "check_documents example_env example_cached_config (example_docs ps) = Inr (example_docs ps)"
proof -
  have "validate_metadata_types p example_cached_config d = Inr ()" for p d
    by (simp add: validate_metadata_types_def example_cached_config_def)
  then show ?thesis by (simp add: check_documents_def example_normalize_all del: map_map)
qed

lemma example_locks: "take_locks example_env docs = Inr ()"
proof -
  have "try_for_each (\<lambda>_. Inr ()) is = Inr ()" for "is" :: "string list" by (induction "is") simp_all
  then show ?thesis by (simp add: take_locks_def example_env_def)
qed

definition example_vectorized :: "document \<Rightarrow> document" where
  "example_vectorized d = set_doc_joined None (set_doc_token_lengths [] (set_doc_vectors (Some []) d))"

lemma example_apply:
  assumes "pt_patch p = []" "map fst (pt_vectorize p) = example_docs ps"
  shows "apply_partition example_env coll example_cached_config existing p drained st =
    (add_documents coll (map example_vectorized (example_docs ps)) True st, Inr \<lparr>buo_skipped = pt_skipped p, buo_drained = drained\<rparr>)"
proof -
  let ?out = "map example_vectorized (example_docs ps)"
  have v: "vectorize_documents example_embedders 1 docs [] av = Some (Inr (map example_vectorized docs))" for docs av
    by (auto simp: vectorize_documents_def per_config_results_def merge_configs_def example_vectorized_def nth_enumerate_eq
        intro!: nth_equalityI)
  have "fold (token_update n u is_new ex) (doc_token_lengths (example_vectorized d)) m = m" for n u is_new ex d m
    by (simp add: example_vectorized_def)
  then have "fold (\<lambda>((doc, is_new), dv) updates. fold (token_update n u is_new (existing (doc_id doc))) (doc_token_lengths dv) updates)
      (zip xs (map example_vectorized ds)) m = m" for n u xs ds m
    by (induction xs ds arbitrary: m rule: list_induct2') (simp_all add: case_prod_beta)
  then have u: "stats_updates existing (pt_vectorize p) ?out = []" by (simp add: stats_updates_def Let_def del: map_map)
  have a: "add_attempts example_env [1..<ADD_DOCUMENTS_MAX_ATTEMPTS + 1] = Inr ()"
    by (simp add: ADD_DOCUMENTS_MAX_ATTEMPTS_def upt_rec example_env_def)
  show ?thesis
  proof (cases "pt_vectorize p = []")
    case True
    then have "ps = []" using assms(2) by simp
    then show ?thesis using assms True by (simp add: apply_partition_def patch_documents_def add_documents_def)
  next
    case False
    then show ?thesis using assms(1) u a v
      by (simp add: apply_partition_def patch_documents_def assms(2) example_normalize_all example_env_def example_cached_config_def Let_def del: map_map)
  qed
qed

lemma example_upsert:
  assumes "ps \<noteq> []" "snd (checked_config example_env ''c'' vs (cache_new True)) = Inr example_cached_config"
    and "\<And>cache. reverify example_env vs (example_docs ps) (example_store docs rows\<lparr>st_cache := cache\<rparr>) = Inr (example_docs ps, [])"
    and "\<forall>(i, t)\<in>set ps. docs (''c'', i) = None"
  shows "\<exists>cache. document_upsert_bulk_internal example_env ''c'' (example_docs ps) vs (example_store docs rows) =
    (add_documents ''c'' (map example_vectorized (example_docs ps)) True (example_store docs rows\<lparr>st_cache := cache\<rparr>),
     Inr \<lparr>buo_skipped = [], buo_drained = []\<rparr>)"
proof -
  obtain cache where c: "checked_config example_env ''c'' vs (cache_new True) = (cache, Inr example_cached_config)"
    using assms(2) by (metis prod.collapse)
  let ?st = "example_store docs rows\<lparr>st_cache := cache\<rparr>"
  let ?ds = "example_docs ps"
  let ?ex = "existing_map (map doc_id ?ds) (get_documents ''c'' ?st {} (map doc_id ?ds))"
  let ?p = "partition_docs ?ex example_cached_config ?ds"
  have new: "?ex (doc_id d) = None" if "d \<in> set ?ds" for d
    unfolding existing_map_eq using assms(4) that by (auto simp: example_store_def example_document_def)
  then have "filter (stale ?ex) ?ds = []" "filter (to_patch ?ex example_cached_config) ?ds = []"
    "filter (\<lambda>d. \<not> stale ?ex d \<and> \<not> to_patch ?ex example_cached_config d) ?ds = ?ds"
    by (auto simp: filter_empty_conv filter_id_conv stale_def to_patch_def simp del: filter_map)
  then have p: "pt_patch ?p = []" "pt_skipped ?p = []" "map fst (pt_vectorize ?p) = ?ds"
    by (simp_all add: partition_docs_eq o_def del: filter_map)
  have "st_cache (example_store docs rows) = cache_new True" "ie_get_error example_env = None"
    "cci_store_content example_cached_config" "?ds \<noteq> []"
    using assms(1) by (simp_all add: example_store_def example_env_def example_cached_config_def)
  then have "document_upsert_bulk_internal example_env ''c'' ?ds vs (example_store docs rows) =
      apply_partition example_env ''c'' example_cached_config ?ex ?p [] ?st"
    unfolding document_upsert_bulk_internal_def by (simp add: c example_check example_locks assms(3) Let_def del: map_map)
  then show ?thesis unfolding example_apply [OF p(1,3)] p(2) by blast
qed

lemma example_reverify_none: "reverify env [] docs st = Inr (docs, [])"
  by (simp add: reverify_def)

text \<open>
  Repeated ids in one request can leave the older document. Every document of a request is compared with
  the store as it was before the request, so of two documents with one id, the newer first, the older one is
  written last and stays; neither is reported as skipped.
\<close>

theorem duplicate_ids_keep_older:
  "\<exists>st'. document_upsert_bulk_internal example_env ''c'' [example_document ''a'' 2, example_document ''a'' 1] []
      (example_store Map.empty []) = (st', Inr \<lparr>buo_skipped = [], buo_drained = []\<rparr>) \<and>
    map_option doc_timestamp (st_docs st' (''c'', ''a'')) = Some 1"
proof -
  obtain cache where c: "document_upsert_bulk_internal example_env ''c'' (example_docs [(''a'', 2), (''a'', 1)]) [] (example_store Map.empty []) =
      (add_documents ''c'' (map example_vectorized (example_docs [(''a'', 2), (''a'', 1)])) True (example_store Map.empty []\<lparr>st_cache := cache\<rparr>),
       Inr \<lparr>buo_skipped = [], buo_drained = []\<rparr>)"
    using example_upsert [OF _ example_checked example_reverify_none, of "[(''a'', 2), (''a'', 1)]" Map.empty "[]"] by auto
  then show ?thesis by (simp add: add_documents_docs example_vectorized_def example_document_def)
qed

text \<open>
  Only the first queue row is checked against the collection. A row that was queued for an earlier
  collection of the same name is applied to the present one when a row of the present one comes before it in
  the batch.
\<close>

theorem stale_collection_row_applied:
  "\<exists>st'. document_upsert_bulk_internal example_env ''c'' [example_document ''a'' 1, example_document ''b'' 1]
      [Some \<lparr>qv_queue_id = ''q1'', qv_collection_id = ''c''\<rparr>, Some \<lparr>qv_queue_id = ''q2'', qv_collection_id = ''old''\<rparr>]
      (example_store Map.empty [example_row ''q1'' ''c'' ''a'', example_row ''q2'' ''old'' ''b'']) =
      (st', Inr \<lparr>buo_skipped = [], buo_drained = []\<rparr>) \<and>
    map_option doc_timestamp (st_docs st' (''c'', ''b'')) = Some 1"
proof -
  let ?vs = "[Some \<lparr>qv_queue_id = ''q1'', qv_collection_id = ''c''\<rparr>, Some \<lparr>qv_queue_id = ''q2'', qv_collection_id = ''old''\<rparr>]"
  let ?rows = "[example_row ''q1'' ''c'' ''a'', example_row ''q2'' ''old'' ''b'']"
  have "reverify example_env ?vs (example_docs [(''a'', 1), (''b'', 1)]) (example_store Map.empty ?rows\<lparr>st_cache := cache\<rparr>) =
      Inr (example_docs [(''a'', 1), (''b'', 1)], [])" for cache
    by (simp add: reverify_def get_from_queue_def example_store_def example_row_def example_env_def List.map_filter_simps)
  from example_upsert [OF _ example_checked this]
  obtain cache where c: "document_upsert_bulk_internal example_env ''c'' (example_docs [(''a'', 1), (''b'', 1)]) ?vs (example_store Map.empty ?rows) =
      (add_documents ''c'' (map example_vectorized (example_docs [(''a'', 1), (''b'', 1)])) True (example_store Map.empty ?rows\<lparr>st_cache := cache\<rparr>),
       Inr \<lparr>buo_skipped = [], buo_drained = []\<rparr>)"
    by auto
  then show ?thesis by (simp add: add_documents_docs example_vectorized_def example_document_def)
qed

lemma example_single:
  assumes "docs (''c'', ''a'') = None"
  shows "\<exists>cache. document_upsert_bulk_internal example_env ''c'' [example_document ''a'' 1] [] (example_store docs []) =
    (add_documents ''c'' [example_vectorized (example_document ''a'' 1)] True (example_store docs []\<lparr>st_cache := cache\<rparr>),
     Inr \<lparr>buo_skipped = [], buo_drained = []\<rparr>)"
  using example_upsert [OF _ example_checked example_reverify_none, of "[(''a'', 1)]" docs "[]"] assms by auto

theorem upsert_newest_wins_witness:
  "\<exists>st'. document_upsert_bulk_internal example_env ''c'' [example_document ''a'' 1] [] (example_store Map.empty []) =
      (st', Inr \<lparr>buo_skipped = [], buo_drained = []\<rparr>) \<and>
    applied_or_stale True (ie_hash example_env) ''c'' (example_store Map.empty []) st' \<lparr>buo_skipped = [], buo_drained = []\<rparr> (example_document ''a'' 1)"
proof -
  obtain cache where c: "document_upsert_bulk_internal example_env ''c'' [example_document ''a'' 1] [] (example_store Map.empty []) =
    (add_documents ''c'' [example_vectorized (example_document ''a'' 1)] True (example_store Map.empty []\<lparr>st_cache := cache\<rparr>),
     Inr \<lparr>buo_skipped = [], buo_drained = []\<rparr>)" using example_single [of Map.empty] by auto
  have "snd (checked_config example_env ''c'' [] (st_cache (example_store Map.empty []))) = Inr example_cached_config"
    using example_checked [of "[]"] by (simp add: example_store_def)
  moreover have "cci_store_content example_cached_config" by (simp add: example_cached_config_def)
  moreover have "nths [example_document ''a'' 1] {j. \<not> row_gone (example_store Map.empty []) [] j} = [example_document ''a'' 1]"
    by (simp add: row_gone_def nths_all)
  ultimately show ?thesis using upsert_newest_wins [OF c] c by auto
qed

theorem upsert_never_regresses_witness:
  "\<exists>st' s. document_upsert_bulk_internal example_env ''c'' [example_document ''a'' 1] []
      (example_store [(''c'', ''b'') \<mapsto> example_document ''b'' 5] []) = (st', Inr \<lparr>buo_skipped = [], buo_drained = []\<rparr>) \<and>
    st_docs st' (''c'', ''b'') = Some s \<and> 5 \<le> doc_timestamp s"
proof -
  let ?st = "example_store [(''c'', ''b'') \<mapsto> example_document ''b'' 5] []"
  obtain cache where c: "document_upsert_bulk_internal example_env ''c'' [example_document ''a'' 1] [] ?st =
    (add_documents ''c'' [example_vectorized (example_document ''a'' 1)] True (?st\<lparr>st_cache := cache\<rparr>),
     Inr \<lparr>buo_skipped = [], buo_drained = []\<rparr>)" using example_single [of "[(''c'', ''b'') \<mapsto> example_document ''b'' 5]"] by auto
  have "st_docs ?st (''c'', ''b'') = Some (example_document ''b'' 5)" by (simp add: example_store_def)
  from upsert_never_regresses [OF c this] c show ?thesis by (auto simp: example_document_def)
qed

theorem delete_newest_wins_witness:
  "\<exists>st'. document_delete_sync example_env ''c'' ''a'' 2 None
      (example_store [(''c'', ''a'') \<mapsto> example_document ''a'' 1] [example_row ''q1'' ''c'' ''a'']) = (st', Inr []) \<and>
    st_docs st' (''c'', ''a'') = None \<and> st_queue st' = []"
proof -
  let ?st = "example_store [(''c'', ''a'') \<mapsto> example_document ''a'' 1] [example_row ''q1'' ''c'' ''a'']"
  obtain st' where d: "document_delete_sync example_env ''c'' ''a'' 2 None ?st = (st', Inr [])"
    by (simp add: document_delete_sync_def delete_precheck_def delete_reverify_def example_env_def example_store_def
        example_document_def delete_upserts_from_queue_def delete_updates_def Let_def)
  from delete_newest_wins [OF d] d show ?thesis
    by (simp add: example_store_def example_document_def example_row_def example_env_def)
qed

theorem stats_never_subtract_witness:
  "\<exists>st'. document_delete_sync example_env ''c'' ''a'' 2 None (example_store [(''c'', ''a'') \<mapsto> example_document ''a'' 1] []) =
      (st', Inr []) \<and> st_jobs st' = []"
proof -
  let ?st = "example_store [(''c'', ''a'') \<mapsto> example_document ''a'' 1] []"
  obtain st' where d: "document_delete_sync example_env ''c'' ''a'' 2 None ?st = (st', Inr [])"
    by (simp add: document_delete_sync_def delete_precheck_def delete_reverify_def example_env_def example_store_def
        example_document_def delete_upserts_from_queue_def delete_updates_def Let_def)
  have "no_lengths ?st" by (auto simp: no_lengths_def example_store_def example_document_def split: if_splits)
  from stats_never_subtract [OF this, of example_env "''c''" "[]" "[]" ?st "Inr \<lparr>buo_skipped = [], buo_drained = []\<rparr>" "''a''" 2 None st' "Inr []"] d
  show ?thesis by (simp add: example_store_def)
qed

end
