(* ===== verification/Search_Join.thy ===== *)
theory Search_Join
  imports Join_Parser Search Ingestion
begin

text \<open>
  Joins of search results and fetched documents: \<open>src/src/search_join.rs\<close>, with the two ways of
  \<open>src/src/qdrant.rs\<close> to read the children, by id and by the value of a metadata key. A parent is a document or a
  search result, the two instances of the trait \<open>JoinParent\<close>: the definitions take the two operations of the trait
  they need as arguments, the locale \<open>join_parent\<close> has their laws. What the clients of the database answer and
  the text of a JSON value are fields of \<open>join_env\<close>.
\<close>

section \<open>Environment\<close>

record join_env =
  je_collection_info :: "string \<Rightarrow> db_error + collection_config_internal"
  je_get_points :: "string \<Rightarrow> string list \<Rightarrow> db_error + (string option \<times> (db_error + document)) list"
  je_scroll :: "string \<Rightarrow> nat \<Rightarrow> qfilter \<Rightarrow> db_error + (string + document) list"
  je_uuid :: "string \<Rightarrow> string"
  je_to_string :: "json \<Rightarrow> string"
  je_parse_datetime :: "string \<Rightarrow> string + int"
  je_now :: nat

text \<open>The message of an \<open>InvalidFilter\<close> that the validation of a filter gives is kept as the error it prints.\<close>

datatype search_error =
    SearchNotFound string
  | InvalidFilter "string + filter_error"
  | Vectorization string
  | Db db_error
  | IngressQueueFull string
  | IngressWorkerExited string

definition parse_join_field_validated ::
    "(string \<Rightarrow> fp) \<Rightarrow> (string \<Rightarrow> string) \<Rightarrow> join_field \<Rightarrow> (search_error + join_spec list) option" where
  "parse_join_field_validated parse_f64 pest_error join =
     map_option (map_err (\<lambda>e. InvalidFilter (Inl e))) (into_specs parse_f64 pest_error join)"

definition required_fields_for_joins :: "join_spec list \<Rightarrow> search_exclude_field set" where
  "required_fields_for_joins specs =
     (if list_ex (\<lambda>spec. jr_kind (js_parent_ref spec) \<noteq> RefId) specs then {XMetadata} else {})"

section \<open>Values and filters\<close>

definition side_value :: "document \<Rightarrow> join_side_ref \<Rightarrow> json option" where
  "side_value doc side =
     (case jr_kind side of
        RefId \<Rightarrow> Some (String (doc_id doc))
      | RefMeta key \<Rightarrow> Option.bind (doc_metadata doc) (\<lambda>m. map_of m key))"

definition parent_join_value :: "('p \<Rightarrow> document) \<Rightarrow> 'p \<Rightarrow> join_side_ref \<Rightarrow> json option" where
  "parent_join_value as_doc p side = side_value (as_doc p) side"

definition child_join_value :: "document \<Rightarrow> join_side_ref \<Rightarrow> json option" where
  "child_join_value doc side = side_value doc side"

definition values_equal :: "json \<Rightarrow> json \<Rightarrow> bool" where
  "values_equal a b = (if is_null a \<or> is_null b then is_null a \<and> is_null b else json_eq a b)"

definition compare_ordered :: "json \<Rightarrow> json \<Rightarrow> string \<Rightarrow> bool" where
  "compare_ordered v c p =
     (case (case (v, c) of
              (Number a, Number b) \<Rightarrow> Some (unwrap_or Equal (partial_cmp (number_as_f64 a) (number_as_f64 b)))
            | (String a, String b) \<Rightarrow> Some (str_cmp a b)
            | _ \<Rightarrow> None) of
        None \<Rightarrow> False
      | Some ord \<Rightarrow>
          if p = ''gt'' then ord = Greater
          else if p = ''gte'' then ord \<noteq> Less
          else if p = ''lt'' then ord = Less
          else if p = ''lte'' then ord \<noteq> Greater
          else False)"

definition eval_leaf :: "(string \<times> json) list option \<Rightarrow> string \<Rightarrow> string \<Rightarrow> json option \<Rightarrow> bool" where
  "eval_leaf metadata key p cmp =
     (let v = Option.bind metadata (\<lambda>m. map_of m key) in
      if p = ''eq'' then values_equal (unwrap_or Null v) (unwrap_or Null cmp)
      else if p = ''neq'' then \<not> values_equal (unwrap_or Null v) (unwrap_or Null cmp)
      else if p = ''gt'' \<or> p = ''gte'' \<or> p = ''lt'' \<or> p = ''lte'' then
        (case (v, cmp) of (Some w, Some c) \<Rightarrow> compare_ordered w c p | _ \<Rightarrow> False)
      else False)"

function eval_filter_node :: "(string \<times> json) list option \<Rightarrow> metadata_filter \<Rightarrow> bool" where
  "eval_filter_node metadata (MetadataFilter ands ors nt key p v) =
     (case key of
        Some k \<Rightarrow> eval_leaf metadata k (unwrap_or [] p) v
      | None \<Rightarrow>
          (case nt of
             Some n \<Rightarrow> \<not> eval_filter_node metadata n
           | None \<Rightarrow>
               (case ands of
                  Some fs \<Rightarrow> \<forall>f\<in>set fs. eval_filter_node metadata f
                | None \<Rightarrow> (case ors of Some fs \<Rightarrow> \<exists>f\<in>set fs. eval_filter_node metadata f | None \<Rightarrow> True))))"
  by pat_completeness auto
termination eval_filter_node
  by (relation "measure (\<lambda>(_, f). size f)") (auto intro: mf_sizes simp del: metadata_filter.size)

definition document_matches_metadata_filter :: "document \<Rightarrow> metadata_filter \<Rightarrow> bool" where
  "document_matches_metadata_filter doc f = eval_filter_node (doc_metadata doc) f"

section \<open>Reading the children\<close>

fun point_map ::
    "(string option \<times> (db_error + document)) list \<Rightarrow> (string \<times> document) list \<Rightarrow> db_error + (string \<times> document) list" where
  "point_map [] m = Inr m"
| "point_map ((None, r) # ps) m = point_map ps m"
| "point_map ((Some u, r) # ps) m = and_then r (\<lambda>d. point_map ps (AList.update u d m))"

fun take_points :: "(string \<Rightarrow> string) \<Rightarrow> (string \<times> document) list \<Rightarrow> string list \<Rightarrow> document option list" where
  "take_points uuid m [] = []"
| "take_points uuid m (i # ids) = map_of m (uuid i) # take_points uuid (AList.delete (uuid i) m) ids"

definition get_documents_by_ids :: "join_env \<Rightarrow> string \<Rightarrow> string list \<Rightarrow> bool \<Rightarrow> db_error + document option list" where
  "get_documents_by_ids env coll ids suppress_not_found =
     and_then (je_get_points env coll (map (je_uuid env) ids)) (\<lambda>points.
     and_then (point_map points []) (\<lambda>m.
       let out = take_points (je_uuid env) m ids;
           missing = map fst (filter (\<lambda>(i, d). d = None) (zip ids out))
       in if \<not> suppress_not_found \<and> missing \<noteq> []
          then Inl (NotFound (''Documents not found for document_ids: '' @ joined '', '' missing))
          else Inr out))"

definition json_to_match_value :: "json \<Rightarrow> db_error + match_value" where
  "json_to_match_value v =
     (case v of
        String s \<Rightarrow> Inr (MKeyword s)
      | Bool b \<Rightarrow> Inr (MBoolean b)
      | Number n \<Rightarrow> Inr (MInteger (unwrap_or 0 (as_i64 (Number n))))
      | _ \<Rightarrow> Inl (Config ''Join metadata value must be a string, boolean, or number''))"

definition join_values_match_condition :: "string \<Rightarrow> json list \<Rightarrow> db_error + condition" where
  "join_values_match_condition field_path vs =
     (case vs of
        [v] \<Rightarrow> and_then (json_to_match_value v) (\<lambda>m. Inr (FieldMatch field_path m))
      | _ \<Rightarrow>
          and_then (collect_result (map (\<lambda>v. and_then (json_to_match_value v) (\<lambda>m. Inr (FieldMatch field_path m))) vs))
            (\<lambda>sh. Inr (FilterCondition (Filter [] sh []))))"

definition fetch_documents_by_metadata_values ::
    "join_env \<Rightarrow> string \<Rightarrow> string \<Rightarrow> json list \<Rightarrow> metadata_filter option \<Rightarrow> collection_config_internal \<Rightarrow> nat \<Rightarrow>
     db_error + document list" where
  "fetch_documents_by_metadata_values env coll key vs mf config max_documents =
     (if vs = [] \<or> max_documents = 0 then Inr []
      else
        and_then (join_values_match_condition (''metadata.'' @ key) vs) (\<lambda>in_condition.
        and_then (case mf of
                    None \<Rightarrow> Inr None
                  | Some f \<Rightarrow> and_then (convert_metadata_filter (je_parse_datetime env) (unwrap_or [] (cci_metadata_indexes config)) f)
                               (\<lambda>q. Inr (Some q))) (\<lambda>extra.
        and_then (je_scroll env coll max_documents
                   (Filter (in_condition # (case extra of None \<Rightarrow> [] | Some q \<Rightarrow> [FilterCondition q])) [] [])) (\<lambda>points.
          collect_result (map (map_err (\<lambda>e. Config (''Document deserialization error: '' @ e))) points)))))"

definition fetch_children_for_join ::
    "join_env \<Rightarrow> join_spec \<Rightarrow> json list \<Rightarrow> collection_config_internal \<Rightarrow> string \<Rightarrow> nat \<Rightarrow> search_error + document list" where
  "fetch_children_for_join env spec join_values child_config real_child max_documents =
     (if join_values = [] \<or> max_documents = 0 then Inr []
      else case jr_kind (js_child_ref spec) of
             RefId \<Rightarrow>
               and_then (map_err Db (get_documents_by_ids env real_child
                           (map (\<lambda>v. case v of String s \<Rightarrow> s | _ \<Rightarrow> je_to_string env v) join_values) True)) (\<lambda>fetched.
                 Inr (filter (\<lambda>doc. case js_metadata_filter spec of None \<Rightarrow> True | Some f \<Rightarrow> document_matches_metadata_filter doc f)
                        (List.map_filter (\<lambda>d. d) fetched)))
           | RefMeta key \<Rightarrow>
               map_err Db (fetch_documents_by_metadata_values env real_child key join_values (js_metadata_filter spec)
                 child_config max_documents))"

section \<open>Attaching them\<close>

definition validate_join_spec :: "join_env \<Rightarrow> join_spec \<Rightarrow> collection_config_internal \<Rightarrow> search_error + unit" where
  "validate_join_spec env spec config =
     and_then (case jr_kind (js_child_ref spec) of
         RefId \<Rightarrow> Inr ()
       | RefMeta key \<Rightarrow>
           (let indexes = unwrap_or [] (cci_metadata_indexes config) in
            if indexes = [] then
              Inl (InvalidFilter (Inl (''Join child collection '' @ quoted (js_collection_name spec) @
                '' has no metadata_indexes; cannot join on metadata key '' @ quoted key)))
            else if \<not> list_ex (\<lambda>idx. mi_key idx = key) indexes then
              Inl (InvalidFilter (Inl (''Join child metadata key '' @ quoted key @ '' is not indexed in collection '' @
                quoted (js_collection_name spec))))
            else Inr ())) (\<lambda>_.
     case js_metadata_filter spec of
       None \<Rightarrow> Inr ()
     | Some f \<Rightarrow> map_err (\<lambda>e. InvalidFilter (Inr e)) (validate_metadata_filter (je_parse_datetime env) config f))"

definition join_value_key :: "join_env \<Rightarrow> json \<Rightarrow> string" where
  "join_value_key env v = je_to_string env v"

definition group_children_by_join_key :: "join_env \<Rightarrow> document list \<Rightarrow> join_side_ref \<Rightarrow> (string \<times> document list) list" where
  "group_children_by_join_key env children side =
     fold (\<lambda>doc groups. case child_join_value doc side of
         None \<Rightarrow> groups
       | Some v \<Rightarrow>
           if is_null v then groups
           else let k = join_value_key env v in AList.update k (unwrap_or [] (map_of groups k) @ [doc]) groups) children []"

definition collect_join_values :: "join_env \<Rightarrow> json option list \<Rightarrow> json list" where
  "collect_join_values env pvs =
     snd (fold (\<lambda>pv (seen, vs). case pv of
         None \<Rightarrow> (seen, vs)
       | Some v \<Rightarrow>
           if is_null v then (seen, vs)
           else let k = join_value_key env v in if k \<in> seen then (seen, vs) else (insert k seen, vs @ [v])) pvs ({}, []))"

definition saturating_mul32 :: "nat \<Rightarrow> nat \<Rightarrow> nat" where
  "saturating_mul32 a b = min (a * b) (2 ^ 32 - 1)"

definition attach :: "('p \<Rightarrow> document) \<Rightarrow> ((document \<Rightarrow> document) \<Rightarrow> 'p \<Rightarrow> 'p) \<Rightarrow> string \<Rightarrow> document list \<Rightarrow> 'p \<Rightarrow> 'p" where
  "attach as_doc on_doc coll children p =
     on_doc (set_doc_joined (Some (AList.update coll children (unwrap_or [] (doc_joined (as_doc p)))))) p"

definition enrich_with_spec ::
    "join_env \<Rightarrow> ('p \<Rightarrow> document) \<Rightarrow> ((document \<Rightarrow> document) \<Rightarrow> 'p \<Rightarrow> 'p) \<Rightarrow> config_cache \<Rightarrow> 'p list \<Rightarrow> join_spec \<Rightarrow> nat \<Rightarrow>
     config_cache \<times> (search_error + 'p list)" where
  "enrich_with_spec env as_doc on_doc cache docs spec limit =
     (let real_child = get_real_collection_name (js_collection_name spec);
          (cache', info) = get_collection_info_cached (je_collection_info env real_child) (je_now env) real_child cache
      in (cache',
          and_then (map_err (\<lambda>e. case e of
                 NotFound _ \<Rightarrow> InvalidFilter (Inl (''Join collection '' @ quoted (js_collection_name spec) @ '' not found''))
               | other \<Rightarrow> Db other) info) (\<lambda>(child_config, hit).
          and_then (validate_join_spec env spec child_config) (\<lambda>_.
          let join_values = collect_join_values env (map (\<lambda>p. parent_join_value as_doc p (js_parent_ref spec)) docs);
              max_documents = saturating_mul32 limit (length docs mod 2 ^ 32)
          in and_then (fetch_children_for_join env spec join_values child_config real_child max_documents) (\<lambda>children.
          let by_key = group_children_by_join_key env children (js_child_ref spec)
          in Inr (map (\<lambda>p. attach as_doc on_doc (js_collection_name spec)
                 (case parent_join_value as_doc p (js_parent_ref spec) of
                    None \<Rightarrow> []
                  | Some v \<Rightarrow> if is_null v then [] else unwrap_or [] (map_of by_key (join_value_key env v))) p) docs))))))"

fun enrich_documents_with_parsed_joins ::
    "join_env \<Rightarrow> ('p \<Rightarrow> document) \<Rightarrow> ((document \<Rightarrow> document) \<Rightarrow> 'p \<Rightarrow> 'p) \<Rightarrow> config_cache \<Rightarrow> 'p list \<Rightarrow> join_spec list \<Rightarrow> nat \<Rightarrow>
     config_cache \<times> (search_error + 'p list)" where
  "enrich_documents_with_parsed_joins env as_doc on_doc cache docs [] limit = (cache, Inr docs)"
| "enrich_documents_with_parsed_joins env as_doc on_doc cache docs (spec # specs) limit =
     (case enrich_with_spec env as_doc on_doc cache docs spec limit of
        (cache', Inl e) \<Rightarrow> (cache', Inl e)
      | (cache', Inr docs') \<Rightarrow> enrich_documents_with_parsed_joins env as_doc on_doc cache' docs' specs limit)"

definition enrich_documents_with_joins ::
    "(string \<Rightarrow> fp) \<Rightarrow> (string \<Rightarrow> string) \<Rightarrow> join_env \<Rightarrow> ('p \<Rightarrow> document) \<Rightarrow> ((document \<Rightarrow> document) \<Rightarrow> 'p \<Rightarrow> 'p) \<Rightarrow> config_cache \<Rightarrow>
     'p list \<Rightarrow> join_field \<Rightarrow> nat \<Rightarrow> (config_cache \<times> (search_error + 'p list)) option" where
  "enrich_documents_with_joins parse_f64 pest_error env as_doc on_doc cache docs join limit =
     map_option (\<lambda>r. case r of
         Inl e \<Rightarrow> (cache, Inl e)
       | Inr specs \<Rightarrow> enrich_documents_with_parsed_joins env as_doc on_doc cache docs specs limit)
       (parse_join_field_validated parse_f64 pest_error join)"


section \<open>The filter of a join\<close>

text \<open>What the filter parser builds: one of the fields at a time, and at least two parts under \<open>and\<close> and \<open>or\<close>.\<close>

function parsed_shape :: "metadata_filter \<Rightarrow> bool" where
  "parsed_shape (MetadataFilter ands ors nt key p v) =
     (case key of
        Some k \<Rightarrow> True
      | None \<Rightarrow>
          (case nt of
             Some n \<Rightarrow> ands = None \<and> ors = None \<and> parsed_shape n
           | None \<Rightarrow>
               (case ands of
                  Some fs \<Rightarrow> ors = None \<and> (\<forall>f\<in>set fs. parsed_shape f)
                | None \<Rightarrow> (case ors of Some fs \<Rightarrow> fs \<noteq> [] \<and> (\<forall>f\<in>set fs. parsed_shape f) | None \<Rightarrow> True))))"
  by pat_completeness auto
termination parsed_shape
  by (relation "measure size") (auto intro: mf_sizes simp del: metadata_filter.size)

fun tree_ok :: "ptree \<Rightarrow> bool" where
  "tree_ok (OrExpr ts) = (ts \<noteq> [] \<and> list_all tree_ok ts)"
| "tree_ok (AndExpr ts) = list_all tree_ok ts"
| "tree_ok (NotExpr t) = tree_ok t"
| "tree_ok _ = True"

lemma grammar_tree_ok:
  assumes "\<And>s t r. cmp s = Some (t, r) \<Longrightarrow> tree_ok t"
  shows "grammar cmp n rule s = Parsed t r \<Longrightarrow>
    (case rule of NOrRest ts \<Rightarrow> ts \<noteq> [] \<and> list_all tree_ok ts | NAndRest ts \<Rightarrow> list_all tree_ok ts | _ \<Rightarrow> True) \<Longrightarrow> tree_ok t"
proof (induction n arbitrary: rule s t r)
  case (Suc n)
  have l: "lift_parse (cmp s) = Parsed t r \<Longrightarrow> tree_ok t" for s t r
    using assms by (auto simp: lift_parse_def split: option.splits)
  note ih = Suc.IH
  have ihs: "grammar cmp n NAnd s = Parsed t r \<Longrightarrow> tree_ok t" "grammar cmp n NOr s = Parsed t r \<Longrightarrow> tree_ok t"
    "grammar cmp n NNot s = Parsed t r \<Longrightarrow> tree_ok t" "grammar cmp n NAtom s = Parsed t r \<Longrightarrow> tree_ok t" for s t r
    using ih by fastforce+
  have rest: "grammar cmp n (NOrRest ts) s = Parsed t r \<Longrightarrow> ts \<noteq> [] \<Longrightarrow> list_all tree_ok ts \<Longrightarrow> tree_ok t"
    "grammar cmp n (NAndRest ts) s = Parsed t r \<Longrightarrow> list_all tree_ok ts \<Longrightarrow> tree_ok t" for ts s t r
    using ih [of "NOrRest ts"] ih [of "NAndRest ts"] by auto
  show ?case
    using Suc.prems
    by (cases rule; auto split: option.splits presult.splits dest: ihs l; fastforce dest: ihs intro: rest)
qed simp

lemma comparison_tree_ok: "comparison s = Some (t, r) \<Longrightarrow> tree_ok t"
  by (auto simp: comparison_def null_comparison_def value_comparison_def split: option.splits bind_splits if_splits)

lemma build_filter_shape: "build_filter pf t = Inr f \<Longrightarrow> tree_ok t \<Longrightarrow> parsed_shape f"
proof (induction t arbitrary: f)
  case (OrExpr ts)
  then obtain fs where c: "map (build_filter pf) ts = map Inr fs"
      and f: "f = (if length fs = 1 then hd fs else MetadataFilter None (Some fs) None None None None)"
    by (auto simp: collect_result_eq_Inr split: if_splits)
  have "parsed_shape g" if "g \<in> set fs" for g
  proof -
    have "Inr g \<in> set (map (build_filter pf) ts)" unfolding c using that by simp
    then obtain t where "t \<in> set ts" "build_filter pf t = Inr g" by auto
    then show ?thesis using OrExpr.IH OrExpr.prems(2) by (auto simp: list_all_iff)
  qed
  moreover have "fs \<noteq> []" using c OrExpr.prems(2) by auto
  ultimately show ?case by (auto simp: f)
next
  case (AndExpr ts)
  then obtain fs where c: "map (build_filter pf) ts = map Inr fs"
      and f: "f = (if length fs = 1 then hd fs else MetadataFilter (Some fs) None None None None None)"
    by (auto simp: collect_result_eq_Inr split: if_splits)
  have "parsed_shape g" if "g \<in> set fs" for g
  proof -
    have "Inr g \<in> set (map (build_filter pf) ts)" unfolding c using that by simp
    then obtain t where "t \<in> set ts" "build_filter pf t = Inr g" by auto
    then show ?thesis using AndExpr.IH AndExpr.prems(2) by (auto simp: list_all_iff)
  qed
  then show ?case by (cases fs) (auto simp: f)
qed (auto simp: mf_cmp_def)

lemma parse_filter_shape: "parse_filter pf pe s = Some (Inr f) \<Longrightarrow> parsed_shape f"
  using grammar_tree_ok [of comparison, OF comparison_tree_ok]
  by (auto simp: parse_filter_def split: presult.splits intro: build_filter_shape)

text \<open>
  What a comparison of a join filter asks of the metadata of a child, case by case. A missing value
  reads as null for \<open>eq\<close> and \<open>neq\<close>; equal numbers are of the same kind and have the same value; \<open>gt\<close>,
  \<open>gte\<close>, \<open>lt\<close> and \<open>lte\<close> compare numbers as doubles and texts bytewise, and hold of nothing else; every
  other operator, \<open>is_null\<close> among them, holds of nothing.
\<close>

fun equal_values :: "json \<Rightarrow> json \<Rightarrow> bool" where
  "equal_values Null Null = True"
| "equal_values (Bool a) (Bool b) = (a = b)"
| "equal_values (String a) (String b) = (a = b)"
| "equal_values (Number (PosInt a)) (Number (PosInt b)) = (a = b)"
| "equal_values (Number (NegInt a)) (Number (NegInt b)) = (a = b)"
| "equal_values (Number (Float a)) (Number (Float b)) = fp_eq a b"
| "equal_values (Array xs) (Array ys) = list_all2 json_eq xs ys"
| "equal_values (Object xs) (Object ys) = list_all2 (\<lambda>(k, x) (l, y). k = l \<and> json_eq x y) xs ys"
| "equal_values _ _ = False"

fun greater_value :: "json \<Rightarrow> json \<Rightarrow> bool" where
  "greater_value (Number a) (Number b) = fp_lt (number_as_f64 b) (number_as_f64 a)"
| "greater_value (String a) (String b) = (str_cmp b a = Less)"
| "greater_value _ _ = False"

fun comparable :: "json \<Rightarrow> json \<Rightarrow> bool" where
  "comparable (Number _) (Number _) = True"
| "comparable (String _) (String _) = True"
| "comparable _ _ = False"

definition child_leaf_means :: "(string \<times> json) list option \<Rightarrow> string \<Rightarrow> string \<Rightarrow> json option \<Rightarrow> bool" where
  "child_leaf_means metadata key p asked =
     (let stored = (case metadata of None \<Rightarrow> None | Some m \<Rightarrow> map_of m key);
          orders = (\<lambda>R. \<exists>x y. stored = Some x \<and> asked = Some y \<and> comparable x y \<and> R x y)
      in p = ''eq'' \<and> equal_values (unwrap_or Null stored) (unwrap_or Null asked)
       \<or> p = ''neq'' \<and> \<not> equal_values (unwrap_or Null stored) (unwrap_or Null asked)
       \<or> p = ''gt'' \<and> orders greater_value
       \<or> p = ''gte'' \<and> orders (\<lambda>x y. \<not> greater_value y x)
       \<or> p = ''lt'' \<and> orders (\<lambda>x y. greater_value y x)
       \<or> p = ''lte'' \<and> orders (\<lambda>x y. \<not> greater_value x y))"

lemma json_list_eq_all2: "json_list_eq xs ys \<longleftrightarrow> list_all2 json_eq xs ys"
proof (induction xs arbitrary: ys)
  case Nil
  then show ?case by (cases ys) simp_all
next
  case (Cons x xs)
  then show ?case by (cases ys) simp_all
qed

lemma json_map_eq_all2: "json_map_eq xs ys \<longleftrightarrow> list_all2 (\<lambda>(k, x) (l, y). k = l \<and> json_eq x y) xs ys"
proof (induction xs arbitrary: ys)
  case Nil
  then show ?case by (cases ys) simp_all
next
  case (Cons p xs)
  show ?case
  proof (cases ys)
    case (Cons q ys')
    with Cons.IH [of ys'] show ?thesis by (cases p; cases q) (simp del: split_paired_All)
  qed (cases p, simp)
qed

lemma equal_numbers: "equal_values (Number m) (Number n) \<longleftrightarrow> number_eq m n"
  by (cases m; cases n; simp)

lemma values_equal_means: "values_equal a b \<longleftrightarrow> equal_values a b"
  by (cases a; cases b; simp add: values_equal_def json_list_eq_all2 json_map_eq_all2 equal_numbers)

lemma compare_ordered_means:
  "compare_ordered x y ''gt'' \<longleftrightarrow> comparable x y \<and> greater_value x y"
  "compare_ordered x y ''gte'' \<longleftrightarrow> comparable x y \<and> \<not> greater_value y x"
  "compare_ordered x y ''lt'' \<longleftrightarrow> comparable x y \<and> greater_value y x"
  "compare_ordered x y ''lte'' \<longleftrightarrow> comparable x y \<and> \<not> greater_value x y"
proof -
  have num: "partial_cmp u v = Some Greater \<longleftrightarrow> fp_lt v u" "partial_cmp u v = Some Less \<longleftrightarrow> fp_lt u v" for u v
    by (cases "is_nan u \<or> is_nan v"; auto simp: partial_cmp_def fp_lt_rank; cases u; cases v; auto)+
  then have num': "unwrap_or Equal (partial_cmp u v) = Greater \<longleftrightarrow> fp_lt v u"
      "unwrap_or Equal (partial_cmp u v) = Less \<longleftrightarrow> fp_lt u v" for u v
    using num [of u v] by (cases "partial_cmp u v"; simp)+
  have str: "str_cmp s t = Greater \<longleftrightarrow> str_cmp t s = Less" for s t
    using str_cmp_rev [of s t] by (metis ord_reverse.simps ordering.exhaust)
  show "compare_ordered x y ''gt'' \<longleftrightarrow> comparable x y \<and> greater_value x y"
    "compare_ordered x y ''gte'' \<longleftrightarrow> comparable x y \<and> \<not> greater_value y x"
    "compare_ordered x y ''lt'' \<longleftrightarrow> comparable x y \<and> greater_value y x"
    "compare_ordered x y ''lte'' \<longleftrightarrow> comparable x y \<and> \<not> greater_value x y"
    by (cases x; cases y; simp add: compare_ordered_def num' str)+
qed

lemma eval_leaf_means: "eval_leaf m k p c \<longleftrightarrow> child_leaf_means m k p c"
  by (auto simp: eval_leaf_def child_leaf_means_def Let_def values_equal_means compare_ordered_means
      split: option.split)

lemma eval_filter_meaning: "parsed_shape f \<Longrightarrow> eval_filter_node m f \<longleftrightarrow> mf_holds (child_leaf_means m) f"
proof (induction f rule: parsed_shape.induct)
  case (1 ands ors nt key p v)
  then show ?case by (auto simp: eval_leaf_means split: option.splits)
qed

text \<open>
  C21: the filter of a join is applied to the fetched children in memory as it reads: on every filter the parser
  accepts, the evaluation with its early returns agrees with the meaning in which a conjunction holds if all of
  its parts hold, a disjunction if one does, a negation if its part does not, and a comparison as
  \<open>child_leaf_means\<close> spells it out. \<open>IS NULL\<close>, which the grammar of joins does not have, never holds here.
\<close>

theorem join_filter_meaning:
  "parse_filter parse_f64 pest_error input = Some (Inr f) \<Longrightarrow>
   document_matches_metadata_filter doc f \<longleftrightarrow> mf_holds (child_leaf_means (doc_metadata doc)) f"
  unfolding document_matches_metadata_filter_def by (rule eval_filter_meaning [OF parse_filter_shape])

theorem join_filter_meaning_witness:
  "let f = MetadataFilter None (Some [mf_cmp ''a'' ''eq'' (Some (Number (PosInt 7))), mf_cmp ''b'' ''is_null'' None]) None None None None;
       d = Document ''1'' 0 None None None None None (Some [(''a'', Number (PosInt 7))]) None None None []
   in parse_filter (\<lambda>_. NaN) (\<lambda>_. []) ''((a=7) or (b is null))'' = Some (Inr f) \<and>
      document_matches_metadata_filter d f \<and> mf_holds (child_leaf_means (doc_metadata d)) f"
proof -
  let ?f = "MetadataFilter None (Some [mf_cmp ''a'' ''eq'' (Some (Number (PosInt 7))), mf_cmp ''b'' ''is_null'' None]) None None None None"
  let ?d = "Document ''1'' 0 None None None None None (Some [(''a'', Number (PosInt 7))]) None None None []"
  have "trim ''((a=7) or (b is null))'' = ''((a=7) or (b is null))''"
    by (rule trim_plain) (simp add: plain_def byte_of_def)
  then have p: "parse_filter (\<lambda>_. NaN) (\<lambda>_. []) ''((a=7) or (b is null))'' = Some (Inr ?f)"
    unfolding parse_filter_def by simp code_simp
  have "document_matches_metadata_filter ?d ?f"
    by (simp add: document_matches_metadata_filter_def mf_cmp_def eval_leaf_def values_equal_def)
  then show ?thesis unfolding Let_def using join_filter_meaning [OF p, of ?d] p by simp
qed

section \<open>The children of a parent\<close>

text \<open>The trait \<open>JoinParent\<close>: the document of a parent and the update of it.\<close>

locale join_parent =
  fixes as_doc :: "'p \<Rightarrow> document" and on_doc :: "(document \<Rightarrow> document) \<Rightarrow> 'p \<Rightarrow> 'p"
  assumes as_doc_on_doc: "as_doc (on_doc f p) = f (as_doc p)"
begin

lemma as_doc_attach:
  "as_doc (attach as_doc on_doc coll ch p) =
   set_doc_joined (Some (AList.update coll ch (unwrap_or [] (doc_joined (as_doc p))))) (as_doc p)"
  by (simp add: attach_def as_doc_on_doc)

end

lemma doc_joined_set [simp]: "doc_joined (set_doc_joined j d) = j"
  by (cases d) simp

lemma side_value_joined [simp]: "side_value (set_doc_joined j d) side = side_value d side"
  by (cases d) (simp add: side_value_def split: join_ref_kind.splits)

interpretation doc_parent: join_parent "\<lambda>d. d" "\<lambda>f d. f d"
  by unfold_locales simp

interpretation result_parent: join_parent sr_document sr_document_update
  by unfold_locales simp

definition joins_on :: "join_env \<Rightarrow> join_side_ref \<Rightarrow> string \<Rightarrow> document \<Rightarrow> bool" where
  "joins_on env side k c \<longleftrightarrow> (\<exists>w. child_join_value c side = Some w \<and> \<not> is_null w \<and> join_value_key env w = k)"

lemma group_children_fold:
  "unwrap_or [] (map_of (fold (\<lambda>doc groups. case child_join_value doc side of
         None \<Rightarrow> groups
       | Some v \<Rightarrow>
           if is_null v then groups
           else let k = join_value_key env v in AList.update k (unwrap_or [] (map_of groups k) @ [doc]) groups) children g) k) =
   unwrap_or [] (map_of g k) @ filter (joins_on env side k) children"
proof (induction children arbitrary: g)
  case (Cons c cs)
  show ?case
    by (cases "child_join_value c side") (auto simp: Cons joins_on_def Let_def update_conv')
qed simp

lemma group_children: "unwrap_or [] (map_of (group_children_by_join_key env children side) k) = filter (joins_on env side k) children"
  using group_children_fold [of env side children "[]" k] by (simp add: group_children_by_join_key_def)

text \<open>Two join values with the same text are the same value: what the text of a value is used for.\<close>

definition keys_faithful :: "join_env \<Rightarrow> json set \<Rightarrow> bool" where
  "keys_faithful env vs \<longleftrightarrow> inj_on (je_to_string env) vs"

definition children_of :: "join_spec \<Rightarrow> document list \<Rightarrow> json option \<Rightarrow> document list" where
  "children_of spec children pv =
     (case pv of
        None \<Rightarrow> []
      | Some v \<Rightarrow> if is_null v then [] else filter (\<lambda>c. child_join_value c (js_child_ref spec) = Some v) children)"

lemma children_for_parent:
  assumes "keys_faithful env (insert v {w. \<exists>c\<in>set children. child_join_value c (js_child_ref spec) = Some w})" "\<not> is_null v"
  shows "unwrap_or [] (map_of (group_children_by_join_key env children (js_child_ref spec)) (join_value_key env v)) =
    children_of spec children (Some v)"
proof -
  have "joins_on env (js_child_ref spec) (join_value_key env v) c \<longleftrightarrow> child_join_value c (js_child_ref spec) = Some v"
    if "c \<in> set children" for c
    using assms that by (auto simp: joins_on_def keys_faithful_def join_value_key_def inj_on_def)
  then show ?thesis using assms(2) by (auto simp: group_children children_of_def intro: filter_cong)
qed

definition join_values_of :: "('p \<Rightarrow> document) \<Rightarrow> 'p list \<Rightarrow> join_spec \<Rightarrow> document list \<Rightarrow> json set" where
  "join_values_of as_doc docs spec children =
     {v. \<exists>p\<in>set docs. parent_join_value as_doc p (js_parent_ref spec) = Some v} \<union>
     {w. \<exists>c\<in>set children. child_join_value c (js_child_ref spec) = Some w}"

lemma enrich_with_specD:
  assumes "enrich_with_spec env as_doc on_doc cache docs spec limit = (cache', Inr docs')"
  obtains config children where
    "fetch_children_for_join env spec
       (collect_join_values env (map (\<lambda>p. parent_join_value as_doc p (js_parent_ref spec)) docs)) config
       (get_real_collection_name (js_collection_name spec)) (saturating_mul32 limit (length docs mod 2 ^ 32)) = Inr children"
    "validate_join_spec env spec config = Inr ()"
    "docs' = map (\<lambda>p. attach as_doc on_doc (js_collection_name spec)
       (case parent_join_value as_doc p (js_parent_ref spec) of
          None \<Rightarrow> []
        | Some v \<Rightarrow>
            if is_null v then []
            else unwrap_or [] (map_of (group_children_by_join_key env children (js_child_ref spec)) (join_value_key env v))) p) docs"
  using assms by (auto simp: enrich_with_spec_def Let_def split: prod.splits)

lemma attached_children:
  assumes "keys_faithful env (join_values_of as_doc docs spec children)" "p \<in> set docs"
  shows "(case parent_join_value as_doc p (js_parent_ref spec) of
          None \<Rightarrow> []
        | Some v \<Rightarrow>
            if is_null v then []
            else unwrap_or [] (map_of (group_children_by_join_key env children (js_child_ref spec)) (join_value_key env v))) =
    children_of spec children (parent_join_value as_doc p (js_parent_ref spec))"
proof (cases "parent_join_value as_doc p (js_parent_ref spec)")
  case (Some v)
  have "keys_faithful env (insert v {w. \<exists>c\<in>set children. child_join_value c (js_child_ref spec) = Some w})"
    using assms Some unfolding keys_faithful_def by (rule_tac inj_on_subset) (auto simp: join_values_of_def)
  then show ?thesis using children_for_parent [of env v children spec] by (auto simp: Some children_of_def)
qed (simp add: children_of_def)

text \<open>
  C20: a join gives every search result its children and nothing else: when it succeeds there is one list of
  fetched children, and if different join values have different texts the entry of the joined collection in each
  result is the list of those children, in the order they were fetched, whose join value is the join value of the
  result, none when that value is missing or null. The other entries, the other parts of the result and the order
  of the results stay as they were.
\<close>

theorem joined_children_exact:
  assumes "enrich_with_spec env sr_document sr_document_update cache results spec limit = (cache', Inr results')"
  shows "\<exists>config children.
    fetch_children_for_join env spec
      (collect_join_values env (map (\<lambda>p. parent_join_value sr_document p (js_parent_ref spec)) results)) config
      (get_real_collection_name (js_collection_name spec)) (saturating_mul32 limit (length results mod 2 ^ 32)) = Inr children \<and>
    (keys_faithful env (join_values_of sr_document results spec children) \<longrightarrow>
     results' = map (\<lambda>p. p\<lparr>sr_document := set_doc_joined
       (Some (AList.update (js_collection_name spec)
          (children_of spec children (side_value (sr_document p) (js_parent_ref spec)))
          (unwrap_or [] (doc_joined (sr_document p))))) (sr_document p)\<rparr>) results)"
proof -
  obtain config children where f: "fetch_children_for_join env spec
       (collect_join_values env (map (\<lambda>p. parent_join_value sr_document p (js_parent_ref spec)) results)) config
       (get_real_collection_name (js_collection_name spec)) (saturating_mul32 limit (length results mod 2 ^ 32)) = Inr children"
    and "validate_join_spec env spec config = Inr ()"
    and r: "results' = map (\<lambda>p. attach sr_document sr_document_update (js_collection_name spec)
       (case parent_join_value sr_document p (js_parent_ref spec) of
          None \<Rightarrow> []
        | Some v \<Rightarrow>
            if is_null v then []
            else unwrap_or [] (map_of (group_children_by_join_key env children (js_child_ref spec)) (join_value_key env v))) p) results"
    by (rule enrich_with_specD [OF assms])
  have "results' = map (\<lambda>p. p\<lparr>sr_document := set_doc_joined
       (Some (AList.update (js_collection_name spec)
          (children_of spec children (side_value (sr_document p) (js_parent_ref spec)))
          (unwrap_or [] (doc_joined (sr_document p))))) (sr_document p)\<rparr>) results"
    if "keys_faithful env (join_values_of sr_document results spec children)"
    unfolding r using attached_children [OF that]
    by (intro map_cong) (simp_all add: attach_def parent_join_value_def)
  then show ?thesis using f by blast
qed

text \<open>
  A parent value that is not a string never finds children by id: the document is fetched under the text of the
  value, but its join value is a string, so it is in no group the parent looks at.
\<close>

lemma non_string_parent_no_children:
  "jr_kind (js_child_ref spec) = RefId \<Longrightarrow> pv = Some v \<Longrightarrow> \<forall>s. v \<noteq> String s \<Longrightarrow> children_of spec children pv = []"
  by (auto simp: children_of_def child_join_value_def side_value_def filter_empty_conv)

definition example_child :: document where
  "example_child = Document ''1'' 0 None None None None None (Some [(''a'', Bool True)]) None None None []"

definition example_join_env :: join_env where
  "example_join_env = \<lparr>je_collection_info = (\<lambda>_. Inr example_cached_config), je_get_points = (\<lambda>_ _. Inr [(Some ''1'', Inr example_child)]),
     je_scroll = (\<lambda>_ _ _. Inr []), je_uuid = (\<lambda>i. i), je_to_string = (\<lambda>v. case v of String s \<Rightarrow> s | _ \<Rightarrow> []),
     je_parse_datetime = (\<lambda>_. Inl []), je_now = 0\<rparr>"

definition example_join_spec :: join_spec where
  "example_join_spec = \<lparr>js_collection_name = ''c'', js_parent_ref = ref_id, js_child_ref = ref_id, js_metadata_filter = None\<rparr>"

definition example_parent :: search_result where
  "example_parent = \<lparr>sr_document = set_doc_metadata None example_child, sr_score = NaN, sr_vector_scores = []\<rparr>"

theorem joined_children_exact_witness:
  "\<exists>cache'. enrich_with_spec example_join_env sr_document sr_document_update (cache_new False) [example_parent] example_join_spec 5 =
     (cache', Inr [example_parent\<lparr>sr_document := set_doc_joined (Some [(''c'', [example_child])]) (sr_document example_parent)\<rparr>])"
proof -
  let ?run = "enrich_with_spec example_join_env sr_document sr_document_update (cache_new False) [example_parent] example_join_spec 5"
  have v: "parent_join_value sr_document example_parent ref_id = Some (String ''1'')"
    by (simp add: parent_join_value_def side_value_def ref_id_def example_parent_def example_child_def)
  have f: "fetch_children_for_join example_join_env example_join_spec [String ''1''] config coll m = Inr [example_child]"
    if "m \<noteq> 0" for config coll m
    using that by (simp add: fetch_children_for_join_def example_join_spec_def ref_id_def get_documents_by_ids_def
        example_join_env_def List.map_filter_def)
  have vs: "collect_join_values example_join_env [Some (String ''1'')] = [String ''1'']"
    by (simp add: collect_join_values_def)
  have sp: "js_parent_ref example_join_spec = ref_id" "js_child_ref example_join_spec = ref_id"
    "js_collection_name example_join_spec = ''c''" "validate_join_spec example_join_env example_join_spec config = Inr ()" for config
    by (simp_all add: example_join_spec_def validate_join_spec_def ref_id_def)
  have "je_collection_info example_join_env coll = Inr example_cached_config" for coll by (simp add: example_join_env_def)
  then have "snd (get_collection_info_cached (je_collection_info example_join_env coll) now coll (cache_new False)) =
      Inr (example_cached_config, False)" for coll now
    by (simp add: get_collection_info_cached_def get_for_search_def cache_new_def)
  then obtain cache' where c: "get_collection_info_cached (je_collection_info example_join_env (get_real_collection_name ''c''))
      (je_now example_join_env) (get_real_collection_name ''c'') (cache_new False) = (cache', Inr (example_cached_config, False))"
    by (metis prod.collapse)
  have m: "saturating_mul32 5 (Suc 0) \<noteq> 0" by (simp add: saturating_mul32_def)
  obtain r where run: "?run = (cache', Inr r)"
    by (simp add: enrich_with_spec_def Let_def sp c v vs f [OF m])
  have cv: "child_join_value example_child ref_id = Some (String ''1'')"
    by (simp add: child_join_value_def side_value_def ref_id_def example_child_def)
  have k: "keys_faithful example_join_env (join_values_of sr_document [example_parent] example_join_spec [example_child])"
    by (auto simp: keys_faithful_def join_values_of_def sp v cv)
  have ch: "children_of example_join_spec [example_child] (Some (String ''1'')) = [example_child]"
    by (simp add: children_of_def sp cv)
  have "side_value (sr_document example_parent) ref_id = Some (String ''1'')" "doc_joined (sr_document example_parent) = None"
    using v by (simp_all add: parent_join_value_def example_parent_def example_child_def)
  then show ?thesis
    using joined_children_exact [OF run] run k by (auto simp: v vs f [OF m] sp ch)
qed

end
