(* ===== verification/Metrics.thy ===== *)
theory Metrics
  imports Fusion
begin

text \<open>
  The metrics report thread, \<open>src/src/metrics.rs\<close>: live five-second buckets, their roll-up to
  one-minute and five-minute buckets, the trimming of old data, and the list of buckets waiting to be
  written with its concurrent flush. Times are \<open>f64\<close> seconds, bucket starts and counts unbounded
  integers in place of \<open>i64\<close>. A \<open>HashMap\<close> is an association list and is iterated in the order of
  the list: the results are used as collections, and the theorems do not depend on the order. The
  panicking accesses (\<open>self.data[k]\<close>, \<open>unwrap\<close>) give \<open>None\<close>.
\<close>

section \<open>State\<close>

datatype agg = AggSum | AggAvg

record metric_event =
  me_key :: "string list"
  me_value :: fp
  me_agg :: agg
  me_n :: "int option"
  me_wall_ts :: fp

record live_bucket =
  lb_key :: string
  lb_dims :: "string list"
  lb_start :: int
  lb_value :: fp
  lb_n :: "int option"

record metrics_bucket =
  mb_key :: string
  mb_dims :: "string list"
  mb_start :: int
  mb_seconds :: int
  mb_value :: fp
  mb_n :: "int option"

record report_state =
  rs_agg :: "(string list \<times> agg) list"
  rs_data :: "(string list \<times> live_bucket list) list"
  rs_last_seen :: "(string list \<times> fp) list"
  rs_last_flushed_1m :: int
  rs_last_flushed_5m :: int
  rs_pending_1m_for_5m :: "metrics_bucket list"

definition LIVE_BUCKET_SECONDS :: int where "LIVE_BUCKET_SECONDS = 5"
definition ONE_MINUTE :: int where "ONE_MINUTE = 60"
definition FIVE_MINUTES :: int where "FIVE_MINUTES = 300"
definition MAX_WINDOW :: int where "MAX_WINDOW = 60"
definition WINDOWS :: "int list" where "WINDOWS = [30, 60]"
definition PENDING_BUCKET_MAX_AGE_S :: fp where "PENDING_BUCKET_MAX_AGE_S = f64 86400"

text \<open>Division of \<open>i64\<close> truncates toward zero.\<close>

definition i64_div :: "int \<Rightarrow> int \<Rightarrow> int" where
  "i64_div a b = (if a < 0 then - ((- a) div b) else a div b)"

definition floor_to :: "int \<Rightarrow> int \<Rightarrow> int" where
  "floor_to ts bucket = i64_div ts bucket * bucket"

definition bucket_start_for :: "fp \<Rightarrow> int" where
  "bucket_start_for ts = i64_div (fp_as_i64 ts) LIVE_BUCKET_SECONDS * LIVE_BUCKET_SECONDS"

section \<open>Operations\<close>

definition record_event :: "string \<Rightarrow> string list \<Rightarrow> fp \<Rightarrow> int option \<Rightarrow> fp \<Rightarrow> metric_event" where
  "record_event key dims v n now =
     \<lparr>me_key = key # dims, me_value = v, me_agg = (if n \<noteq> None then AggAvg else AggSum), me_n = n,
      me_wall_ts = now\<rparr>"

definition report_state_new :: report_state where
  "report_state_new =
     \<lparr>rs_agg = [], rs_data = [], rs_last_seen = [], rs_last_flushed_1m = 0, rs_last_flushed_5m = 0,
      rs_pending_1m_for_5m = []\<rparr>"

definition add_to_bucket :: "metric_event \<Rightarrow> live_bucket \<Rightarrow> live_bucket" where
  "add_to_bucket event b =
     b\<lparr>lb_value := f64_add (lb_value b) (me_value event),
       lb_n := (if me_agg event = AggAvg then Some (unwrap_or 0 (lb_n b) + unwrap_or 0 (me_n event)) else lb_n b)\<rparr>"

definition new_live_bucket :: "metric_event \<Rightarrow> int \<Rightarrow> live_bucket" where
  "new_live_bucket event start =
     \<lparr>lb_key = hd (me_key event), lb_dims = tl (me_key event), lb_start = start, lb_value = me_value event,
      lb_n = (if me_agg event = AggAvg then Some (unwrap_or 0 (me_n event)) else None)\<rparr>"

definition push_event :: "metric_event \<Rightarrow> live_bucket list \<Rightarrow> live_bucket list" where
  "push_event event buckets =
     (let start = bucket_start_for (me_wall_ts event) in
      if buckets \<noteq> [] \<and> lb_start (last buckets) = start
      then butlast buckets @ [add_to_bucket event (last buckets)]
      else buckets @ [new_live_bucket event start])"

definition apply_event :: "metric_event \<Rightarrow> report_state \<Rightarrow> report_state option" where
  "apply_event event st =
     (let k = me_key event;
          st1 = (case map_of (rs_agg st) k of
                   None \<Rightarrow> Some (st\<lparr>rs_agg := AList.update k (me_agg event) (rs_agg st),
                                  rs_data := AList.update k [] (rs_data st)\<rparr>)
                 | Some existing \<Rightarrow> if existing \<noteq> me_agg event then None else Some st)
      in case st1 of
           None \<Rightarrow> Some st
         | Some st1 \<Rightarrow>
             (case map_of (rs_data st1) k of
                None \<Rightarrow> None
              | Some buckets \<Rightarrow>
                  if k = [] then None
                  else Some (st1\<lparr>rs_last_seen := AList.update k (me_wall_ts event) (rs_last_seen st1),
                            rs_data := AList.update k (push_event event buckets) (rs_data st1)\<rparr>)))"

text \<open>One window of the snapshot: the newest buckets, up to the first one that is too old.\<close>

definition window_sum :: "agg \<Rightarrow> int \<Rightarrow> live_bucket list \<Rightarrow> fp \<times> int option" where
  "window_sum a bucket_cut buckets =
     (let recent = takeWhile (\<lambda>b. \<not> lb_start b < bucket_cut) (rev buckets) in
      (foldl (\<lambda>total b. f64_add total (lb_value b)) f64_zero recent,
       if a = AggAvg then Some (foldl (\<lambda>count b. count + unwrap_or 0 (lb_n b)) 0 recent) else None))"

definition snapshot :: "fp \<Rightarrow> report_state \<Rightarrow> (string list \<times> (int \<times> fp \<times> int option) list) list option" where
  "snapshot now st =
     those (map (\<lambda>(k, a).
       map_option (\<lambda>buckets.
         (k, map (\<lambda>win. (win, window_sum a (bucket_start_for now - win + LIVE_BUCKET_SECONDS) buckets)) WINDOWS))
         (map_of (rs_data st) k)) (rs_agg st))"

definition merge_live :: "string list \<Rightarrow> agg \<Rightarrow> int \<Rightarrow> int \<Rightarrow> live_bucket \<Rightarrow> (int \<times> metrics_bucket) list \<Rightarrow>
    (int \<times> metrics_bucket) list" where
  "merge_live k a low high b merged =
     (let slot = floor_to (lb_start b) ONE_MINUTE in
      if slot < low \<or> slot \<ge> high then merged
      else hm_upsert slot
        \<lparr>mb_key = hd k, mb_dims = tl k, mb_start = slot, mb_seconds = ONE_MINUTE, mb_value = f64_zero,
         mb_n = (if a = AggAvg then Some 0 else None)\<rparr>
        (\<lambda>e. e\<lparr>mb_value := f64_add (mb_value e) (lb_value b),
               mb_n := (if a = AggAvg then Some (unwrap_or 0 (mb_n e) + unwrap_or 0 (lb_n b)) else mb_n e)\<rparr>) merged)"

definition completed_of_key :: "int \<Rightarrow> int \<Rightarrow> string list \<Rightarrow> agg \<Rightarrow> live_bucket list \<Rightarrow> metrics_bucket list" where
  "completed_of_key low high k a buckets =
     map snd (foldl (\<lambda>merged b. merge_live k a low high b merged) [] buckets)"

definition in_range :: "int \<Rightarrow> int \<Rightarrow> live_bucket \<Rightarrow> bool" where
  "in_range low high b \<longleftrightarrow> floor_to (lb_start b) ONE_MINUTE \<ge> low \<and> floor_to (lb_start b) ONE_MINUTE < high"

definition collect_completed_1m :: "fp \<Rightarrow> report_state \<Rightarrow> (report_state \<times> metrics_bucket list) option" where
  "collect_completed_1m now st =
     (let current = floor_to (fp_as_i64 now) ONE_MINUTE;
          low = rs_last_flushed_1m st
      in if current \<le> low then Some (st, [])
         else map_option (\<lambda>results.
           let result = concat results;
               has_raw = list_ex (\<lambda>(_, buckets). list_ex (in_range low current) buckets) (rs_data st)
           in (if result \<noteq> [] \<or> \<not> has_raw then st\<lparr>rs_last_flushed_1m := current\<rparr> else st, result))
           (those (map (\<lambda>(k, a). map_option (completed_of_key low current k a) (map_of (rs_data st) k)) (rs_agg st))))"

definition merge_5m :: "int \<Rightarrow> int \<Rightarrow> metrics_bucket \<Rightarrow> ((string \<times> string list \<times> int) \<times> metrics_bucket) list \<Rightarrow>
    ((string \<times> string list \<times> int) \<times> metrics_bucket) list" where
  "merge_5m low high b merged =
     (let slot = floor_to (mb_start b) FIVE_MINUTES;
          avg = (mb_n b \<noteq> None)
      in if slot < low \<or> slot \<ge> high then merged
      else hm_upsert (mb_key b, mb_dims b, slot)
        \<lparr>mb_key = mb_key b, mb_dims = mb_dims b, mb_start = slot, mb_seconds = FIVE_MINUTES,
         mb_value = f64_zero, mb_n = (if avg then Some 0 else None)\<rparr>
        (\<lambda>e. e\<lparr>mb_value := f64_add (mb_value e) (mb_value b),
               mb_n := (if avg then Some (unwrap_or 0 (mb_n e) + unwrap_or 0 (mb_n b)) else mb_n e)\<rparr>) merged)"

definition collect_completed_5m_from_1m ::
    "metrics_bucket list \<Rightarrow> fp \<Rightarrow> report_state \<Rightarrow> report_state \<times> metrics_bucket list" where
  "collect_completed_5m_from_1m completed_1m now st =
     (let current = floor_to (fp_as_i64 now) FIVE_MINUTES;
          low = rs_last_flushed_5m st
      in if current \<le> low then (st, [])
         else
           let cutoff = f64_sub now PENDING_BUCKET_MAX_AGE_S;
               pending = filter (\<lambda>b. fp_le cutoff (fp_of_int binary64 (mb_start b))) (rs_pending_1m_for_5m st) @
                         completed_1m;
               merged = foldl (\<lambda>m b. merge_5m low current b m) [] pending;
               has_1m = list_ex (\<lambda>b. floor_to (mb_start b) FIVE_MINUTES \<ge> low \<and>
                                     floor_to (mb_start b) FIVE_MINUTES < current) pending
           in (if merged \<noteq> [] \<or> \<not> has_1m
               then st\<lparr>rs_pending_1m_for_5m := filter (\<lambda>b. floor_to (mb_start b) FIVE_MINUTES \<ge> current) pending,
                       rs_last_flushed_5m := current\<rparr>
               else st\<lparr>rs_pending_1m_for_5m := pending\<rparr>,
               map snd merged))"

definition trim_buckets :: "fp \<Rightarrow> report_state \<Rightarrow> report_state" where
  "trim_buckets now st =
     (let window_cutoff = bucket_start_for now - MAX_WINDOW + LIVE_BUCKET_SECONDS;
          trim_cutoff = min window_cutoff (rs_last_flushed_1m st);
          data = map (\<lambda>(k, buckets). (k, dropWhile (\<lambda>b. lb_start b < trim_cutoff) buckets)) (rs_data st);
          empty_keys = map fst (filter (\<lambda>(_, buckets). buckets = []) data)
      in st\<lparr>rs_data := filter (\<lambda>(k, _). k \<notin> set empty_keys) data,
            rs_agg := filter (\<lambda>(k, _). k \<notin> set empty_keys) (rs_agg st),
            rs_last_seen := filter (\<lambda>(k, _). k \<notin> set empty_keys) (rs_last_seen st)\<rparr>)"

fun drain_events :: "metric_event list \<Rightarrow> report_state \<Rightarrow> report_state option" where
  "drain_events [] st = Some st"
| "drain_events (e # es) st = Option.bind (apply_event e st) (drain_events es)"

definition drain_and_process ::
    "metric_event list \<Rightarrow> fp \<Rightarrow> report_state \<Rightarrow>
     (report_state \<times> (string list \<times> (int \<times> fp \<times> int option) list) list \<times> metrics_bucket list) option" where
  "drain_and_process events now st =
     Option.bind (drain_events events st) (\<lambda>st.
     Option.bind (snapshot now st) (\<lambda>snap.
     map_option (\<lambda>(st, completed). (trim_buckets now st, snap, completed)) (collect_completed_1m now st)))"

section \<open>The buckets waiting to be written\<close>

definition bucket_id :: "metrics_bucket \<Rightarrow> string \<times> string list \<times> int \<times> int" where
  "bucket_id b = (mb_key b, mb_dims b, mb_start b, mb_seconds b)"

text \<open>The tick of the report thread: expired buckets go, completed ones come.\<close>

definition extend_pending :: "fp \<Rightarrow> metrics_bucket list \<Rightarrow> metrics_bucket list \<Rightarrow> metrics_bucket list" where
  "extend_pending now completed pending =
     filter (\<lambda>b. fp_le (f64_sub now PENDING_BUCKET_MAX_AGE_S) (fp_of_int binary64 (mb_start b))) pending @ completed"

definition flushed_pending :: "metrics_bucket list \<Rightarrow> metrics_bucket list \<Rightarrow> metrics_bucket list" where
  "flushed_pending batch pending = filter (\<lambda>b. bucket_id b \<notin> bucket_id ` set batch) pending"

text \<open>
  One turn of the loop of \<open>report_thread_main\<close> without the message and the flush: the completed
  one-minute and five-minute buckets of the turn are part of the result.
\<close>

definition report_tick ::
    "metric_event list \<Rightarrow> fp \<Rightarrow> fp \<Rightarrow> report_state \<times> metrics_bucket list \<Rightarrow>
     ((report_state \<times> metrics_bucket list) \<times> metrics_bucket list \<times> metrics_bucket list) option" where
  "report_tick events now now2 sp =
     map_option (\<lambda>(st, snap, completed_1m).
       let (st', completed_5m) = collect_completed_5m_from_1m completed_1m now2 st
       in ((st', extend_pending now2 (completed_1m @ completed_5m) (snd sp)), completed_1m, completed_5m))
       (drain_and_process events now (fst sp))"

fun report_run ::
    "(metric_event list \<times> fp \<times> fp) list \<Rightarrow> report_state \<times> metrics_bucket list \<Rightarrow>
     ((report_state \<times> metrics_bucket list) \<times> metrics_bucket list \<times> metrics_bucket list) option" where
  "report_run [] sp = Some (sp, [], [])"
| "report_run ((events, now, now2) # ticks) sp =
     Option.bind (report_tick events now now2 sp) (\<lambda>(sp', m1, f1).
     map_option (\<lambda>(sp'', ms, fs). (sp'', m1 @ ms, f1 @ fs)) (report_run ticks sp'))"

text \<open>
  The interleavings of the report thread with its flush task: \<open>fs_batch\<close> is the batch the running
  flush copied, \<open>fs_written\<close> what the database has taken, \<open>fs_completed\<close> all buckets so far.
\<close>

record flush_state =
  fs_pending :: "metrics_bucket list"
  fs_batch :: "metrics_bucket list option"
  fs_written :: "metrics_bucket set"
  fs_completed :: "metrics_bucket set"
  fs_expired :: "metrics_bucket set"

inductive flush_step :: "flush_state \<Rightarrow> flush_state \<Rightarrow> bool" where
  tick: "distinct (map bucket_id completed) \<Longrightarrow> bucket_id ` set completed \<inter> bucket_id ` fs_completed s = {} \<Longrightarrow>
    s' = s\<lparr>fs_pending := extend_pending now completed (fs_pending s),
           fs_completed := fs_completed s \<union> set completed,
           fs_expired := fs_expired s \<union> (set (fs_pending s) - set (extend_pending now [] (fs_pending s)))\<rparr> \<Longrightarrow>
    flush_step s s'"
| flush_start: "fs_batch s = None \<Longrightarrow> fs_pending s \<noteq> [] \<Longrightarrow> flush_step s (s\<lparr>fs_batch := Some (fs_pending s)\<rparr>)"
| flush_ok: "fs_batch s = Some batch \<Longrightarrow>
    flush_step s (s\<lparr>fs_batch := None, fs_written := fs_written s \<union> set batch,
                   fs_pending := flushed_pending batch (fs_pending s)\<rparr>)"
| flush_failed: "fs_batch s = Some batch \<Longrightarrow> flush_step s (s\<lparr>fs_batch := None\<rparr>)"

definition flush_init :: flush_state where
  "flush_init = \<lparr>fs_pending = [], fs_batch = None, fs_written = {}, fs_completed = {}, fs_expired = {}\<rparr>"

text \<open>Events at the seconds 310 and 550, and turns of the report thread at 300, 360 and 600.\<close>

definition example_event :: "nat \<Rightarrow> metric_event" where
  "example_event t = record_event ''api_request_ms'' [] (fp_of_nat binary64 1) (Some 1) (fp_of_nat binary64 t)"

definition example_tick :: "metric_event list \<Rightarrow> nat \<Rightarrow> metric_event list \<times> fp \<times> fp" where
  "example_tick events t = (events, fp_of_nat binary64 t, fp_of_nat binary64 t)"

definition example_ticks :: "(metric_event list \<times> fp \<times> fp) list" where
  "example_ticks = [example_tick [] 300, example_tick [example_event 310] 360, example_tick [example_event 550] 600]"

definition example_live :: "nat \<Rightarrow> live_bucket" where
  "example_live t = \<lparr>lb_key = ''api_request_ms'', lb_dims = [], lb_start = int t, lb_value = Finite False 1, lb_n = Some 1\<rparr>"

definition example_bucket :: "int \<Rightarrow> int \<Rightarrow> metrics_bucket" where
  "example_bucket start secs = \<lparr>mb_key = ''api_request_ms'', mb_dims = [], mb_start = start, mb_seconds = secs,
     mb_value = Finite False 1, mb_n = Some 1\<rparr>"

definition example_state :: "live_bucket list \<Rightarrow> fp \<Rightarrow> int \<Rightarrow> int \<Rightarrow> report_state" where
  "example_state bs seen l1 l5 = \<lparr>rs_agg = [([''api_request_ms''], AggAvg)], rs_data = [([''api_request_ms''], bs)],
     rs_last_seen = [([''api_request_ms''], seen)], rs_last_flushed_1m = l1, rs_last_flushed_5m = l5,
     rs_pending_1m_for_5m = []\<rparr>"

section \<open>Invariant\<close>

definition bucket_ok :: "agg \<Rightarrow> live_bucket \<Rightarrow> bool" where
  "bucket_ok a b \<longleftrightarrow> 0 \<le> lb_start b \<and> (lb_n b \<noteq> None \<longleftrightarrow> a = AggAvg)"

text \<open>Each key has one aggregation, given by \<open>kind\<close>; the two tables have the same keys.\<close>

definition metrics_ok :: "(string list \<Rightarrow> agg) \<Rightarrow> report_state \<Rightarrow> bool" where
  "metrics_ok kind st \<longleftrightarrow>
     map fst (rs_agg st) = map fst (rs_data st) \<and> distinct (map fst (rs_data st)) \<and>
     [] \<notin> fst ` set (rs_data st) \<and> (\<forall>k a. (k, a) \<in> set (rs_agg st) \<longrightarrow> a = kind k) \<and>
     (\<forall>k buckets. (k, buckets) \<in> set (rs_data st) \<longrightarrow> (\<forall>b\<in>set buckets. bucket_ok (kind k) b)) \<and>
     0 \<le> rs_last_flushed_1m st \<and> 60 dvd rs_last_flushed_1m st"

definition event_ok :: "(string list \<Rightarrow> agg) \<Rightarrow> int \<Rightarrow> metric_event \<Rightarrow> bool" where
  "event_ok kind low e \<longleftrightarrow>
     me_key e \<noteq> [] \<and> me_agg e = kind (me_key e) \<and> (me_n e \<noteq> None \<longleftrightarrow> me_agg e = AggAvg) \<and>
     low \<le> fp_as_i64 (me_wall_ts e)"

text \<open>The events of every turn carry a time stamp that is not before the minute already collected.\<close>

fun on_time :: "(string list \<Rightarrow> agg) \<Rightarrow> int \<Rightarrow> (metric_event list \<times> fp \<times> fp) list \<Rightarrow> bool" where
  "on_time kind low [] \<longleftrightarrow> True"
| "on_time kind low ((events, now, now2) # ticks) \<longleftrightarrow>
     list_all (event_ok kind low) events \<and>
     on_time kind (max low (floor_to (fp_as_i64 now) ONE_MINUTE)) ticks"

definition count_of :: "live_bucket list \<Rightarrow> int" where
  "count_of buckets = sum_list (map (\<lambda>b. unwrap_or 0 (lb_n b)) buckets)"

definition live_count :: "string list \<Rightarrow> report_state \<Rightarrow> int" where
  "live_count k st =
     count_of (filter (\<lambda>b. rs_last_flushed_1m st \<le> lb_start b) (unwrap_or [] (map_of (rs_data st) k)))"

definition event_count :: "string list \<Rightarrow> metric_event list \<Rightarrow> int" where
  "event_count k es = sum_list (map (\<lambda>e. unwrap_or 0 (me_n e)) (filter (\<lambda>e. me_key e = k) es))"

definition bucket_count :: "string list \<Rightarrow> metrics_bucket list \<Rightarrow> int" where
  "bucket_count k bs = sum_list (map (\<lambda>b. unwrap_or 0 (mb_n b)) (filter (\<lambda>b. mb_key b # mb_dims b = k) bs))"

lemma count_of_simps [simp]:
  "count_of [] = 0" "count_of (b # bs) = unwrap_or 0 (lb_n b) + count_of bs" "count_of (xs @ ys) = count_of xs + count_of ys"
  by (simp_all add: count_of_def)

lemma event_count_simps [simp]:
  "event_count k [] = 0"
  "event_count k (e # es) = (if me_key e = k then unwrap_or 0 (me_n e) else 0) + event_count k es"
  "event_count k (xs @ ys) = event_count k xs + event_count k ys"
  by (simp_all add: event_count_def)

lemma bucket_count_simps [simp]:
  "bucket_count k [] = 0"
  "bucket_count k (b # bs) = (if mb_key b # mb_dims b = k then unwrap_or 0 (mb_n b) else 0) + bucket_count k bs"
  "bucket_count k (xs @ ys) = bucket_count k xs + bucket_count k ys"
  by (simp_all add: bucket_count_def)

section \<open>Slots\<close>

lemma floor_to_nonneg: "0 \<le> x \<Longrightarrow> floor_to x 60 = x - x mod 60"
  by (simp add: floor_to_def i64_div_def minus_mod_eq_div_mult)

lemma slot_ge: "0 \<le> x \<Longrightarrow> 60 dvd low \<Longrightarrow> low \<le> floor_to x ONE_MINUTE \<longleftrightarrow> low \<le> x"
  unfolding ONE_MINUTE_def by (auto simp: floor_to_nonneg elim!: dvdE) presburger+

lemma floor_to_dvd [simp]: "60 dvd floor_to x ONE_MINUTE"
  by (simp add: floor_to_def ONE_MINUTE_def)

lemma slot_less: "0 \<le> x \<Longrightarrow> 60 dvd high \<Longrightarrow> floor_to x ONE_MINUTE < high \<longleftrightarrow> x < high"
  using slot_ge [of x high] by auto

lemma bucket_start_ge:
  assumes "low \<le> fp_as_i64 ts" "0 \<le> low" "60 dvd low"
  shows "low \<le> bucket_start_for ts" "0 \<le> bucket_start_for ts"
proof -
  have "bucket_start_for ts = fp_as_i64 ts - fp_as_i64 ts mod 5"
    using assms by (simp add: bucket_start_for_def i64_div_def LIVE_BUCKET_SECONDS_def minus_mod_eq_div_mult)
  then show "low \<le> bucket_start_for ts" "0 \<le> bucket_start_for ts"
    using assms by (auto elim!: dvdE) presburger+
qed

section \<open>Events\<close>

lemma in_set_update:
  assumes "distinct (map fst m)"
  shows "(j, v) \<in> set (AList.update k x m) \<longleftrightarrow> (if j = k then v = x else (j, v) \<in> set m)"
proof -
  have "(j, v) \<in> set (AList.update k x m) \<longleftrightarrow> map_of (AList.update k x m) j = Some v"
    using distinct_update [OF assms] by (simp add: map_of_eq_Some_iff)
  also have "\<dots> \<longleftrightarrow> (if j = k then v = x else (j, v) \<in> set m)"
    using assms by (auto simp: update_conv map_of_eq_Some_iff)
  finally show ?thesis .
qed

lemma hm_upsert_all:
  assumes "distinct (map fst m)" "\<forall>p\<in>set m. P p" "P (k, f d)" "\<And>v. P (k, v) \<Longrightarrow> P (k, f v)"
  shows "\<forall>p\<in>set (hm_upsert k d f m). P p"
proof
  fix p assume p: "p \<in> set (hm_upsert k d f m)"
  have "P (k, f (unwrap_or d (map_of m k)))"
    using assms(2-4) by (cases "map_of m k") (auto dest!: map_of_SomeD simp: unwrap_or_def)
  then show "P p" using p assms(2) in_set_update [OF assms(1), of "fst p" "snd p"]
    by (cases p) (auto simp: hm_upsert_def split: if_splits)
qed

lemma push_event_ok:
  assumes "\<forall>b\<in>set buckets. bucket_ok (kind (me_key e)) b" "event_ok kind low e" "0 \<le> low" "60 dvd low"
  shows "\<forall>b\<in>set (push_event e buckets). bucket_ok (kind (me_key e)) b"
    and "count_of (filter (\<lambda>b. low \<le> lb_start b) (push_event e buckets)) =
         count_of (filter (\<lambda>b. low \<le> lb_start b) buckets) + unwrap_or 0 (me_n e)"
proof -
  have s: "low \<le> bucket_start_for (me_wall_ts e)" "0 \<le> bucket_start_for (me_wall_ts e)"
    using bucket_start_ge assms(2-4) by (auto simp: event_ok_def)
  have sum: "me_agg e \<noteq> AggAvg \<Longrightarrow> me_n e = None" using assms(2) by (auto simp: event_ok_def)
  show "\<forall>b\<in>set (push_event e buckets). bucket_ok (kind (me_key e)) b"
    using assms(1,2) s(2) last_in_set [of buckets]
    by (auto simp: push_event_def Let_def bucket_ok_def add_to_bucket_def new_live_bucket_def event_ok_def
        dest: in_set_butlastD)
  show "count_of (filter (\<lambda>b. low \<le> lb_start b) (push_event e buckets)) =
         count_of (filter (\<lambda>b. low \<le> lb_start b) buckets) + unwrap_or 0 (me_n e)"
  proof (cases "buckets \<noteq> [] \<and> lb_start (last buckets) = bucket_start_for (me_wall_ts e)")
    case True
    then obtain xs b where "buckets = xs @ [b]" "lb_start b = bucket_start_for (me_wall_ts e)"
      by (metis append_butlast_last_id)
    then show ?thesis using s(1) sum by (simp add: push_event_def add_to_bucket_def unwrap_or_def)
  next
    case False
    then show ?thesis using s(1) sum by (auto simp: push_event_def new_live_bucket_def unwrap_or_def)
  qed
qed

lemma apply_event_ok:
  assumes ok: "metrics_ok kind st" and e: "event_ok kind (rs_last_flushed_1m st) e"
  obtains st' where "apply_event e st = Some st'" "metrics_ok kind st'"
    "rs_last_flushed_1m st' = rs_last_flushed_1m st"
    "\<And>k. live_count k st' = live_count k st + event_count k [e]"
proof -
  let ?k = "me_key e"
  define bs where "bs = unwrap_or [] (map_of (rs_data st) ?k)"
  define st1 where "st1 = (if ?k \<in> set (map fst (rs_data st)) then st
     else st\<lparr>rs_agg := AList.update ?k (me_agg e) (rs_agg st), rs_data := AList.update ?k [] (rs_data st)\<rparr>)"
  note ok' = ok [unfolded metrics_ok_def]
  have keys: "map fst (rs_agg st) = map fst (rs_data st)" "distinct (map fst (rs_data st))" using ok' by auto
  have agg_dom: "map_of (rs_agg st) ?k = (if ?k \<in> set (map fst (rs_data st)) then Some (me_agg e) else None)"
  proof -
    have "map_of (rs_agg st) ?k = None \<longleftrightarrow> ?k \<notin> set (map fst (rs_data st))"
      using keys(1) by (metis map_of_eq_None_iff set_map)
    moreover have "a = me_agg e" if "map_of (rs_agg st) ?k = Some a" for a
      using map_of_SomeD [OF that] ok' e by (auto simp: event_ok_def)
    ultimately show ?thesis by (cases "map_of (rs_agg st) ?k") auto
  qed
  have ok1: "metrics_ok kind st1"
    using ok' e keys unfolding metrics_ok_def st1_def
    by (auto simp: update_keys distinct_update in_set_update dom_update event_ok_def split: if_splits)
  have data1: "map_of (rs_data st1) ?k = Some bs"
    using keys by (auto simp: st1_def bs_def update_conv unwrap_or_def split: option.splits)
      (metis map_of_eq_None_iff image_eqI fst_conv)
  define st' where "st' = st1\<lparr>rs_last_seen := AList.update ?k (me_wall_ts e) (rs_last_seen st1),
                            rs_data := AList.update ?k (push_event e bs) (rs_data st1)\<rparr>"
  have st': "apply_event e st = Some st'"
  proof (cases "?k \<in> set (map fst (rs_data st))")
    case True
    then have "map_of (rs_data st) ?k = Some bs" "st1 = st" using data1 by (simp_all add: st1_def)
    then show ?thesis using agg_dom True e by (auto simp: apply_event_def st'_def event_ok_def)
  next
    case False
    then have a: "map_of (rs_agg st) ?k = None" and d: "map_of (rs_data st1) ?k = Some bs"
      and s: "st1 = st\<lparr>rs_agg := AList.update ?k (me_agg e) (rs_agg st), rs_data := AList.update ?k [] (rs_data st)\<rparr>"
      using agg_dom data1 by (simp_all add: st1_def)
    show ?thesis using d e unfolding apply_event_def Let_def a option.case s [symmetric]
      by (simp add: st'_def event_ok_def)
  qed
  have 1: "\<forall>b\<in>set bs. bucket_ok (kind ?k) b"
    using ok1 map_of_SomeD [OF data1] by (auto simp: metrics_ok_def)
  have l1: "rs_last_flushed_1m st1 = rs_last_flushed_1m st" by (simp add: st1_def)
  have low: "0 \<le> rs_last_flushed_1m st" "60 dvd rs_last_flushed_1m st" using ok' by auto
  note push = push_event_ok [OF 1 e low]
  have "metrics_ok kind st'"
    using ok1 push(1) map_of_SomeD [OF data1]
    by (auto simp: metrics_ok_def st'_def update_keys distinct_update in_set_update dom_update image_iff split: if_splits
        intro!: bexI [of _ "(?k, bs)"])
  moreover have "live_count k st' = live_count k st + event_count k [e]" for k
  proof -
    have "live_count k st1 = live_count k st"
      using map_of_eq_None_iff [of "rs_data st" ?k]
      by (auto simp: live_count_def st1_def update_conv unwrap_or_def split: option.splits)
    moreover have "live_count k st' = live_count k st1 + event_count k [e]"
      using push(2) data1 l1 by (auto simp: live_count_def st'_def update_conv unwrap_or_def)
    ultimately show ?thesis by simp
  qed
  ultimately show ?thesis using that st' l1 by (simp add: st'_def)
qed

lemma drain_events_ok:
  assumes "metrics_ok kind st" "list_all (event_ok kind (rs_last_flushed_1m st)) es"
  obtains st' where "drain_events es st = Some st'" "metrics_ok kind st'"
    "rs_last_flushed_1m st' = rs_last_flushed_1m st"
    "\<And>k. live_count k st' = live_count k st + event_count k es"
  using assms
proof (induction es arbitrary: st thesis)
  case (Cons e es)
  have "event_ok kind (rs_last_flushed_1m st) e" using Cons.prems(3) by simp
  from apply_event_ok [OF Cons.prems(2) this] obtain st1 where
    1: "apply_event e st = Some st1" "metrics_ok kind st1" "rs_last_flushed_1m st1 = rs_last_flushed_1m st"
      "\<And>k. live_count k st1 = live_count k st + event_count k [e]" by blast
  obtain st2 where "drain_events es st1 = Some st2" "metrics_ok kind st2"
    "rs_last_flushed_1m st2 = rs_last_flushed_1m st1" "\<And>k. live_count k st2 = live_count k st1 + event_count k es"
    using Cons.IH [OF _ 1(2)] Cons.prems(3) 1(3) by auto
  then show ?case using Cons.prems(1) [of st2] 1 by simp
qed simp

section \<open>Completed minutes\<close>

lemma sum_update:
  fixes g :: "'v \<Rightarrow> int"
  assumes "distinct (map fst m)"
  shows "sum_list (map (\<lambda>p. g (snd p)) (AList.update k v m)) =
         sum_list (map (\<lambda>p. g (snd p)) m) + g v - (case map_of m k of None \<Rightarrow> 0 | Some u \<Rightarrow> g u)"
  using assms by (induction m) auto

lemma hm_upsert_sum:
  fixes g :: "'v \<Rightarrow> int"
  assumes "distinct (map fst m)" "\<And>v. g (f v) = g v + d" "g z = 0"
  shows "sum_list (map (\<lambda>p. g (snd p)) (hm_upsert k z f m)) = sum_list (map (\<lambda>p. g (snd p)) m) + d"
  using assms by (simp add: hm_upsert_def sum_update unwrap_or_def split: option.split)

definition minute_entry :: "string list \<Rightarrow> agg \<Rightarrow> int \<Rightarrow> int \<Rightarrow> int \<times> metrics_bucket \<Rightarrow> bool" where
  "minute_entry k a low high p \<longleftrightarrow>
     mb_start (snd p) = fst p \<and> mb_key (snd p) # mb_dims (snd p) = k \<and> mb_seconds (snd p) = ONE_MINUTE \<and>
     (mb_n (snd p) \<noteq> None \<longleftrightarrow> a = AggAvg) \<and> low \<le> fst p \<and> fst p < high"

lemma range_iff: "low \<le> s \<and> s < high \<Longrightarrow> \<not> (s < low \<or> high \<le> s)" for s :: int
  by auto

lemma merge_live_ok:
  assumes "distinct (map fst m)" "\<forall>p\<in>set m. minute_entry k a low high p" "k \<noteq> []" "bucket_ok a b"
  shows "distinct (map fst (merge_live k a low high b m))"
    and "\<forall>p\<in>set (merge_live k a low high b m). minute_entry k a low high p"
    and "sum_list (map (\<lambda>p. unwrap_or 0 (mb_n (snd p))) (merge_live k a low high b m)) =
         sum_list (map (\<lambda>p. unwrap_or 0 (mb_n (snd p))) m) + count_of (filter (in_range low high) [b])"
    and "in_range low high b \<or> m \<noteq> [] \<longleftrightarrow> merge_live k a low high b m \<noteq> []"
proof -
  have n: "a \<noteq> AggAvg \<Longrightarrow> lb_n b = None" using assms(4) by (auto simp: bucket_ok_def)
  show "distinct (map fst (merge_live k a low high b m))"
    using assms(1) by (simp add: merge_live_def Let_def hm_upsert_def distinct_update)
  show "\<forall>p\<in>set (merge_live k a low high b m). minute_entry k a low high p"
  proof (cases "in_range low high b")
    case True
    then have r: "low \<le> floor_to (lb_start b) ONE_MINUTE" "floor_to (lb_start b) ONE_MINUTE < high"
      by (simp_all add: in_range_def)
    show ?thesis
      using r assms(3) unfolding merge_live_def Let_def if_not_P [OF True [unfolded in_range_def, THEN range_iff]]
      by - (rule hm_upsert_all [OF assms(1,2)]; auto simp: minute_entry_def)
  next
    case False
    then show ?thesis using assms(2) by (auto simp: merge_live_def Let_def in_range_def)
  qed
  show "sum_list (map (\<lambda>p. unwrap_or 0 (mb_n (snd p))) (merge_live k a low high b m)) =
         sum_list (map (\<lambda>p. unwrap_or 0 (mb_n (snd p))) m) + count_of (filter (in_range low high) [b])"
  proof (cases "in_range low high b")
    case True
    then show ?thesis
      using n unfolding merge_live_def Let_def if_not_P [OF True [unfolded in_range_def, THEN range_iff]]
      by (subst hm_upsert_sum [OF assms(1), where g = "\<lambda>e. unwrap_or 0 (mb_n e)"]) (auto simp: unwrap_or_def)
  next
    case False
    then show ?thesis by (auto simp: merge_live_def Let_def in_range_def)
  qed
  show "in_range low high b \<or> m \<noteq> [] \<longleftrightarrow> merge_live k a low high b m \<noteq> []"
    by (auto simp: merge_live_def Let_def hm_upsert_def in_range_def update_nonempty)
qed

lemma merge_live_fold_ok:
  assumes "distinct (map fst m)" "\<forall>p\<in>set m. minute_entry k a low high p" "k \<noteq> []" "\<forall>b\<in>set bs. bucket_ok a b"
    and "m' = foldl (\<lambda>merged b. merge_live k a low high b merged) m bs"
  shows "distinct (map fst m') \<and> (\<forall>p\<in>set m'. minute_entry k a low high p) \<and>
    sum_list (map (\<lambda>p. unwrap_or 0 (mb_n (snd p))) m') =
      sum_list (map (\<lambda>p. unwrap_or 0 (mb_n (snd p))) m) + count_of (filter (in_range low high) bs) \<and>
    ((\<exists>b\<in>set bs. in_range low high b) \<or> m \<noteq> [] \<longleftrightarrow> m' \<noteq> [])"
  using assms
proof (induction bs arbitrary: m)
  case (Cons b bs)
  have b: "bucket_ok a b" using Cons.prems(4) by simp
  note step = merge_live_ok [OF Cons.prems(1-3) b]
  have "\<forall>b\<in>set bs. bucket_ok a b" using Cons.prems(4) by simp
  note IH = Cons.IH [OF step(1,2) Cons.prems(3) this, of ] 
  have "m' = foldl (\<lambda>merged b. merge_live k a low high b merged) (merge_live k a low high b m) bs"
    using Cons.prems(5) by simp
  from IH [OF this] step(3,4) show ?case by auto
qed simp

lemma completed_of_key_ok:
  assumes "k \<noteq> []" "\<forall>b\<in>set bs. bucket_ok a b"
  shows "distinct (map bucket_id (completed_of_key low high k a bs))"
    and "\<And>c. c \<in> set (completed_of_key low high k a bs) \<Longrightarrow>
           mb_key c # mb_dims c = k \<and> low \<le> mb_start c \<and> mb_start c < high \<and> mb_seconds c = ONE_MINUTE"
    and "bucket_count k (completed_of_key low high k a bs) = count_of (filter (in_range low high) bs)"
    and "completed_of_key low high k a bs \<noteq> [] \<longleftrightarrow> (\<exists>b\<in>set bs. in_range low high b)"
proof -
  define m where "m = foldl (\<lambda>merged b. merge_live k a low high b merged) [] bs"
  have m: "distinct (map fst m)" "\<And>p. p \<in> set m \<Longrightarrow> minute_entry k a low high p"
    "sum_list (map (\<lambda>p. unwrap_or 0 (mb_n (snd p))) m) = count_of (filter (in_range low high) bs)"
    "m \<noteq> [] \<longleftrightarrow> (\<exists>b\<in>set bs. in_range low high b)"
    using merge_live_fold_ok [of "[]" k a low high bs m] assms by (auto simp: m_def)
  have c: "completed_of_key low high k a bs = map snd m" by (simp add: completed_of_key_def m_def)
  have "map mb_start (map snd m) = map fst m" using m(2) by (auto simp: minute_entry_def)
  then have "distinct (map mb_start (map snd m))" using m(1) by (simp only:)
  then show "distinct (map bucket_id (completed_of_key low high k a bs))"
    unfolding c by (auto simp: distinct_map inj_on_def bucket_id_def)
  show "mb_key c # mb_dims c = k \<and> low \<le> mb_start c \<and> mb_start c < high \<and> mb_seconds c = ONE_MINUTE"
    if "c \<in> set (completed_of_key low high k a bs)" for c
    using that m(2) unfolding c by (auto simp: minute_entry_def)
  have "filter (\<lambda>b. mb_key b # mb_dims b = k) (map snd m) = map snd m"
    using m(2) by (auto simp: filter_id_conv minute_entry_def)
  then show "bucket_count k (completed_of_key low high k a bs) = count_of (filter (in_range low high) bs)"
    unfolding c bucket_count_def using m(3) by (simp add: o_def)
  show "completed_of_key low high k a bs \<noteq> [] \<longleftrightarrow> (\<exists>b\<in>set bs. in_range low high b)"
    using m(4) by (simp add: c)
qed

lemma bucket_count_other: "\<forall>c\<in>set cs. mb_key c # mb_dims c \<noteq> k \<Longrightarrow> bucket_count k cs = 0"
  by (induction cs) auto

lemma concat_by_key:
  assumes "distinct (map fst ps)" "\<And>k a c. (k, a) \<in> set ps \<Longrightarrow> c \<in> set (F k a) \<Longrightarrow> mb_key c # mb_dims c = k"
  shows "bucket_count k (concat (map (\<lambda>(k, a). F k a) ps)) =
           (case map_of ps k of None \<Rightarrow> 0 | Some a \<Rightarrow> bucket_count k (F k a))"
    and "(\<And>k a. (k, a) \<in> set ps \<Longrightarrow> distinct (map bucket_id (F k a))) \<Longrightarrow>
           distinct (map bucket_id (concat (map (\<lambda>(k, a). F k a) ps)))"
proof -
  show "bucket_count k (concat (map (\<lambda>(k, a). F k a) ps)) =
           (case map_of ps k of None \<Rightarrow> 0 | Some a \<Rightarrow> bucket_count k (F k a))"
    using assms
  proof (induction ps)
    case (Cons p ps)
    obtain j a where p: "p = (j, a)" by fastforce
    have "\<And>c. c \<in> set (F j a) \<Longrightarrow> mb_key c # mb_dims c = j" using Cons.prems(2) by (auto simp: p)
    moreover have "map_of ps j = None" using Cons.prems(1) by (auto simp: p map_of_eq_None_iff)
    moreover have "bucket_count k (concat (map (\<lambda>(k, a). F k a) ps)) =
        (case map_of ps k of None \<Rightarrow> 0 | Some a \<Rightarrow> bucket_count k (F k a))"
      by (rule Cons.IH) (use Cons.prems in auto)
    ultimately show ?case using bucket_count_other [of "F j a" k] by (auto simp: p)
  qed simp
  assume d: "\<And>k a. (k, a) \<in> set ps \<Longrightarrow> distinct (map bucket_id (F k a))"
  show "distinct (map bucket_id (concat (map (\<lambda>(k, a). F k a) ps)))"
    using assms d
  proof (induction ps)
    case (Cons p ps)
    obtain j a where p: "p = (j, a)" by fastforce
    have "bucket_id c \<noteq> bucket_id c'" if "c \<in> set (F j a)" "(k, b) \<in> set ps" "c' \<in> set (F k b)" for c c' k b
    proof -
      have "mb_key c # mb_dims c = j" "mb_key c' # mb_dims c' = k" using Cons.prems(2) that by (auto simp: p)
      moreover have "j \<noteq> k" using Cons.prems(1) that(2) by (force simp: p)
      ultimately show ?thesis by (auto simp: bucket_id_def)
    qed
    then have "set (map bucket_id (F j a)) \<inter> set (map bucket_id (concat (map (\<lambda>(k, a). F k a) ps))) = {}"
      by fastforce
    moreover have "distinct (map bucket_id (concat (map (\<lambda>(k, a). F k a) ps)))"
      by (rule Cons.IH) (use Cons.prems in auto)
    ultimately show ?case using Cons.prems(3) by (simp add: p)
  qed simp
qed

lemma count_split:
  assumes "\<forall>b\<in>set bs. 0 \<le> lb_start b" "60 dvd low" "60 dvd high" "low \<le> high"
  shows "count_of (filter (\<lambda>b. low \<le> lb_start b) bs) =
         count_of (filter (in_range low high) bs) + count_of (filter (\<lambda>b. high \<le> lb_start b) bs)"
  using assms by (induction bs) (auto simp: in_range_def slot_ge slot_less)

lemma those_map_Some: "(\<And>x. x \<in> set xs \<Longrightarrow> f x = Some (g x)) \<Longrightarrow> those (map f xs) = Some (map g xs)"
  by (induction xs) auto

lemma collect_completed_1m_ok:
  assumes ok: "metrics_ok kind st"
  obtains st' res where "collect_completed_1m now st = Some (st', res)"
    "st' = st\<lparr>rs_last_flushed_1m := max (rs_last_flushed_1m st) (floor_to (fp_as_i64 now) ONE_MINUTE)\<rparr>"
    "metrics_ok kind st'"
    "\<And>k. live_count k st = bucket_count k res + live_count k st'" "distinct (map bucket_id res)"
    "\<And>c. c \<in> set res \<Longrightarrow> rs_last_flushed_1m st \<le> mb_start c \<and> mb_start c < rs_last_flushed_1m st' \<and>
       mb_seconds c = ONE_MINUTE"
proof (cases "floor_to (fp_as_i64 now) ONE_MINUTE \<le> rs_last_flushed_1m st")
  case True
  then have "st\<lparr>rs_last_flushed_1m := max (rs_last_flushed_1m st) (floor_to (fp_as_i64 now) ONE_MINUTE)\<rparr> = st"
    by simp
  then show ?thesis using that [of st "[]"] True ok by (simp add: collect_completed_1m_def)
next
  case False
  let ?cur = "floor_to (fp_as_i64 now) ONE_MINUTE" and ?low = "rs_last_flushed_1m st"
  define bs where "bs k = unwrap_or [] (map_of (rs_data st) k)" for k
  define F where "F k a = completed_of_key ?low ?cur k a (bs k)" for k a
  define res where "res = concat (map (\<lambda>(k, a). F k a) (rs_agg st))"
  define st' where "st' = st\<lparr>rs_last_flushed_1m := ?cur\<rparr>"
  note ok' = ok [unfolded metrics_ok_def]
  have keys: "fst ` set (rs_agg st) = fst ` set (rs_data st)" "distinct (map fst (rs_agg st))"
    using ok' by (metis set_map, simp)
  have entry: "map_of (rs_data st) k = Some (bs k) \<and> k \<noteq> [] \<and> a = kind k \<and> (\<forall>b\<in>set (bs k). bucket_ok a b)"
    if "(k, a) \<in> set (rs_agg st)" for k a
  proof -
    have "k \<in> fst ` set (rs_data st)" using that keys(1) by force
    then obtain b where b: "map_of (rs_data st) k = Some b" "(k, b) \<in> set (rs_data st)"
      by (metis map_of_eq_None_iff map_of_SomeD not_None_eq)
    moreover have "a = kind k" using that ok' by blast
    ultimately show ?thesis using ok' by (auto simp: bs_def unwrap_or_def image_iff)
  qed
  have F: "distinct (map bucket_id (F k a))"
      "bucket_count k (F k a) = count_of (filter (in_range ?low ?cur) (bs k))"
      "F k a \<noteq> [] \<longleftrightarrow> (\<exists>b\<in>set (bs k). in_range ?low ?cur b)"
    and Fc: "\<And>c. c \<in> set (F k a) \<Longrightarrow> mb_key c # mb_dims c = k \<and> ?low \<le> mb_start c \<and> mb_start c < ?cur \<and>
        mb_seconds c = ONE_MINUTE"
    if "(k, a) \<in> set (rs_agg st)" for k a
    using completed_of_key_ok [where low = ?low and high = ?cur, of k "bs k" a] entry [OF that] unfolding F_def by blast+
  have raw: "res \<noteq> [] \<or> \<not> list_ex (\<lambda>(_, buckets). list_ex (in_range ?low ?cur) buckets) (rs_data st)"
  proof (rule ccontr)
    assume a: "\<not> ?thesis"
    then obtain k b where kb: "(k, b) \<in> set (rs_data st)" "\<exists>x\<in>set b. in_range ?low ?cur x"
      by (auto simp: list_ex_iff)
    then obtain a where ka: "(k, a) \<in> set (rs_agg st)" using keys(1) by force
    have "map_of (rs_data st) k = Some b" using kb(1) ok' by simp
    then have "F k a \<noteq> []" using F(3) [OF ka] kb(2) by (auto simp: bs_def unwrap_or_def)
    then show False using ka a by (force simp: res_def)
  qed
  have "those (map (\<lambda>(k, a). map_option (completed_of_key ?low ?cur k a) (map_of (rs_data st) k)) (rs_agg st)) =
      Some (map (\<lambda>(k, a). F k a) (rs_agg st))"
    using entry by (intro those_map_Some) (auto simp: F_def)
  then have 1: "collect_completed_1m now st = Some (st', res)"
    using False raw by (auto simp: collect_completed_1m_def Let_def res_def st'_def)
  have low: "60 dvd ?low" using ok' by blast
  have 2: "live_count k st = bucket_count k res + live_count k st'" for k
  proof -
    have "bucket_count k res = (case map_of (rs_agg st) k of None \<Rightarrow> 0 | Some a \<Rightarrow> bucket_count k (F k a))"
      unfolding res_def using concat_by_key(1) [OF keys(2), of F] Fc by blast
    also have "\<dots> = count_of (filter (in_range ?low ?cur) (bs k))"
      using F(2) [of k] keys(1) map_of_eq_None_iff [of "rs_agg st" k] map_of_eq_None_iff [of "rs_data st" k]
      by (auto split: option.splits simp: bs_def unwrap_or_def dest: map_of_SomeD)
    finally have "bucket_count k res = count_of (filter (in_range ?low ?cur) (bs k))" .
    moreover have "0 \<le> lb_start b" if "b \<in> set (bs k)" for b
      using that ok' by (auto simp: bs_def unwrap_or_def bucket_ok_def split: option.splits dest!: map_of_SomeD)
    ultimately show ?thesis
      using count_split [of "bs k" ?low ?cur] low False by (auto simp: live_count_def st'_def bs_def)
  qed
  have 3: "metrics_ok kind st'" using ok' False by (auto simp: metrics_ok_def st'_def)
  have 4: "distinct (map bucket_id res)"
    unfolding res_def using concat_by_key(2) [OF keys(2), of F] Fc F(1) by blast
  have 5: "?low \<le> mb_start c \<and> mb_start c < rs_last_flushed_1m st' \<and> mb_seconds c = ONE_MINUTE" if "c \<in> set res" for c
    using that Fc by (force simp: res_def st'_def)
  show ?thesis using that [OF 1 _ 3 2 4 5] False by (simp add: st'_def)
qed

section \<open>Trimming and turns\<close>

lemma snapshot_some: "metrics_ok kind st \<Longrightarrow> \<exists>snap. snapshot now st = Some snap"
proof -
  assume ok: "metrics_ok kind st"
  have "map_of (rs_data st) k \<noteq> None" if "(k, a) \<in> set (rs_agg st)" for k a
    using that ok unfolding map_of_eq_None_iff metrics_ok_def by (metis fst_conv image_eqI set_map)
  then have "those (map (\<lambda>(k, a). map_option (\<lambda>buckets.
         (k, map (\<lambda>win. (win, window_sum a (bucket_start_for now - win + LIVE_BUCKET_SECONDS) buckets)) WINDOWS))
         (map_of (rs_data st) k)) (rs_agg st)) =
      Some (map (\<lambda>(k, a). (k, map (\<lambda>win. (win, window_sum a (bucket_start_for now - win + LIVE_BUCKET_SECONDS)
         (the (map_of (rs_data st) k)))) WINDOWS)) (rs_agg st))"
    by (intro those_map_Some) (force simp del: not_None_eq)
  then show ?thesis by (simp add: snapshot_def)
qed

lemma filter_dropWhile: "(\<And>x. P x \<Longrightarrow> \<not> Q x) \<Longrightarrow> filter Q (dropWhile P xs) = filter Q xs"
  by (induction xs) auto

lemma map_of_without: "map_of (filter (\<lambda>(k, _). k \<notin> E) m) k = (if k \<in> E then None else map_of m k)"
  by (induction m) auto

lemma map_fst_without: "map fst (filter (\<lambda>(k, _). k \<notin> E) m) = filter (\<lambda>k. k \<notin> E) (map fst m)"
  by (induction m) auto

lemma trim_buckets_ok:
  assumes ok: "metrics_ok kind st"
  shows "metrics_ok kind (trim_buckets now st)"
    and "live_count k (trim_buckets now st) = live_count k st"
    and "rs_last_flushed_1m (trim_buckets now st) = rs_last_flushed_1m st"
proof -
  define c where "c = min (bucket_start_for now - MAX_WINDOW + LIVE_BUCKET_SECONDS) (rs_last_flushed_1m st)"
  define data where "data = map (\<lambda>(k, buckets). (k, dropWhile (\<lambda>b. lb_start b < c) buckets)) (rs_data st)"
  define E where "E = fst ` {p \<in> set data. snd p = []}"
  have t: "rs_data (trim_buckets now st) = filter (\<lambda>(k, _). k \<notin> E) data"
    "rs_agg (trim_buckets now st) = filter (\<lambda>(k, _). k \<notin> E) (rs_agg st)"
    "rs_last_flushed_1m (trim_buckets now st) = rs_last_flushed_1m st"
    by (simp_all add: trim_buckets_def Let_def c_def data_def E_def case_prod_beta)
  then show "rs_last_flushed_1m (trim_buckets now st) = rs_last_flushed_1m st" by simp
  have keys: "map fst data = map fst (rs_data st)" by (auto simp: data_def)
  have "bucket_ok (kind k) b" if "(k, bs) \<in> set data" "b \<in> set bs" for k bs b
    using that ok by (auto simp: data_def metrics_ok_def dest!: set_dropWhileD)
  then show "metrics_ok kind (trim_buckets now st)"
    using ok keys unfolding metrics_ok_def t by (auto simp: map_fst_without) (metis image_eqI fst_conv set_map)
  have get: "map_of data k = map_option (dropWhile (\<lambda>b. lb_start b < c)) (map_of (rs_data st) k)"
    unfolding data_def by (induction "rs_data st") (auto simp: map_of_map)
  have dropped: "filter (\<lambda>b. rs_last_flushed_1m st \<le> lb_start b) (dropWhile (\<lambda>b. lb_start b < c) bs) =
      filter (\<lambda>b. rs_last_flushed_1m st \<le> lb_start b) bs" for bs
    by (rule filter_dropWhile) (auto simp: c_def)
  have "distinct (map fst data)" using ok keys by (simp add: metrics_ok_def)
  then have E: "map_of data k = Some []" if "k \<in> E"
    using that by (auto simp: E_def intro!: map_of_is_SomeI)
  show "live_count k (trim_buckets now st) = live_count k st"
  proof (cases "k \<in> E")
    case True
    then obtain bs where "map_of (rs_data st) k = Some bs" "dropWhile (\<lambda>b. lb_start b < c) bs = []"
      using E get by (auto simp del: dropWhile_eq_Nil_conv)
    then have "filter (\<lambda>b. rs_last_flushed_1m st \<le> lb_start b) bs = []"
      by (auto simp: filter_empty_conv c_def)
    then show ?thesis using True \<open>map_of (rs_data st) k = Some bs\<close>
      by (simp add: live_count_def t map_of_without unwrap_or_def)
  next
    case False
    then show ?thesis
      by (cases "map_of (rs_data st) k") (auto simp: live_count_def t map_of_without unwrap_or_def get intro: arg_cong [OF dropped])
  qed
qed

lemma collect_5m_frame:
  "rs_agg (fst (collect_completed_5m_from_1m c now st)) = rs_agg st"
  "rs_data (fst (collect_completed_5m_from_1m c now st)) = rs_data st"
  "rs_last_flushed_1m (fst (collect_completed_5m_from_1m c now st)) = rs_last_flushed_1m st"
  by (simp_all add: collect_completed_5m_from_1m_def Let_def)

lemma report_tick_ok:
  assumes ok: "metrics_ok kind st" and es: "list_all (event_ok kind (rs_last_flushed_1m st)) events"
  obtains st' pend' ms fs where "report_tick events now now2 (st, pend) = Some ((st', pend'), ms, fs)"
    "metrics_ok kind st'"
    "rs_last_flushed_1m st' = max (rs_last_flushed_1m st) (floor_to (fp_as_i64 now) ONE_MINUTE)"
    "\<And>k. live_count k st + event_count k events = bucket_count k ms + live_count k st'"
    "distinct (map bucket_id ms)"
    "\<And>c. c \<in> set ms \<Longrightarrow> rs_last_flushed_1m st \<le> mb_start c \<and> mb_start c < rs_last_flushed_1m st'"
proof -
  obtain st1 where 1: "drain_events events st = Some st1" "metrics_ok kind st1"
    "rs_last_flushed_1m st1 = rs_last_flushed_1m st"
    "\<And>k. live_count k st1 = live_count k st + event_count k events"
    using drain_events_ok [OF ok es] by blast
  obtain snap where 2: "snapshot now st1 = Some snap" using snapshot_some [OF 1(2)] by blast
  obtain st2 ms where 3: "collect_completed_1m now st1 = Some (st2, ms)"
    "st2 = st1\<lparr>rs_last_flushed_1m := max (rs_last_flushed_1m st1) (floor_to (fp_as_i64 now) ONE_MINUTE)\<rparr>"
    "metrics_ok kind st2" "\<And>k. live_count k st1 = bucket_count k ms + live_count k st2"
    "distinct (map bucket_id ms)"
    "\<And>c. c \<in> set ms \<Longrightarrow> rs_last_flushed_1m st1 \<le> mb_start c \<and> mb_start c < rs_last_flushed_1m st2 \<and>
       mb_seconds c = ONE_MINUTE"
    using collect_completed_1m_ok [OF 1(2)] by metis
  define st3 where "st3 = trim_buckets now st2"
  note 4 = trim_buckets_ok [OF 3(3), where now = now, folded st3_def]
  obtain st4 fs where 5: "collect_completed_5m_from_1m ms now2 st3 = (st4, fs)" by fastforce
  have 6: "rs_agg st4 = rs_agg st3" "rs_data st4 = rs_data st3" "rs_last_flushed_1m st4 = rs_last_flushed_1m st3"
    using collect_5m_frame [of ms now2 st3] 5 by auto
  have "metrics_ok kind st4" using 4(1) 6 by (simp add: metrics_ok_def)
  moreover have "live_count k st4 = live_count k st3" for k using 6 by (simp add: live_count_def)
  moreover have "report_tick events now now2 (st, pend) = Some ((st4, extend_pending now2 (ms @ fs) pend), ms, fs)"
    using 1(1) 2 3(1) 5 by (simp add: report_tick_def drain_and_process_def st3_def)
  ultimately show ?thesis using that [of st4] 1(3,4) 3(2,4-6) 4(2,3) 6(3) by auto
qed

lemma report_run_ok:
  assumes "metrics_ok kind st" "on_time kind (rs_last_flushed_1m st) ticks"
  shows "\<exists>st' pend' ms fs. report_run ticks (st, pend) = Some ((st', pend'), ms, fs) \<and>
    distinct (map bucket_id ms) \<and> (\<forall>c\<in>set ms. rs_last_flushed_1m st \<le> mb_start c) \<and>
    (\<forall>k. live_count k st + event_count k (concat (map fst ticks)) = bucket_count k ms + live_count k st')"
  using assms
proof (induction ticks arbitrary: st pend)
  case (Cons t ticks)
  obtain events now now2 where t: "t = (events, now, now2)" by (cases t) auto
  have "list_all (event_ok kind (rs_last_flushed_1m st)) events" using Cons.prems(2) by (simp add: t)
  from report_tick_ok [OF Cons.prems(1) this, of now now2 pend] obtain st1 pend1 ms1 fs1 where
    1: "report_tick events now now2 (st, pend) = Some ((st1, pend1), ms1, fs1)" "metrics_ok kind st1"
    "rs_last_flushed_1m st1 = max (rs_last_flushed_1m st) (floor_to (fp_as_i64 now) ONE_MINUTE)"
    "\<And>k. live_count k st + event_count k events = bucket_count k ms1 + live_count k st1"
    "distinct (map bucket_id ms1)"
    "\<And>c. c \<in> set ms1 \<Longrightarrow> rs_last_flushed_1m st \<le> mb_start c \<and> mb_start c < rs_last_flushed_1m st1" by metis
  have "on_time kind (rs_last_flushed_1m st1) ticks" using Cons.prems(2) 1(3) by (simp add: t)
  from Cons.IH [OF 1(2) this, of pend1] obtain st2 pend2 ms2 fs2 where
    2: "report_run ticks (st1, pend1) = Some ((st2, pend2), ms2, fs2)" "distinct (map bucket_id ms2)"
    "\<And>c. c \<in> set ms2 \<Longrightarrow> rs_last_flushed_1m st1 \<le> mb_start c"
    "\<And>k. live_count k st1 + event_count k (concat (map fst ticks)) = bucket_count k ms2 + live_count k st2" by blast
  have "bucket_id c \<noteq> bucket_id d" if "c \<in> set ms1" "d \<in> set ms2" for c d
    using 1(6) [OF that(1)] 2(3) [OF that(2)] by (auto simp: bucket_id_def)
  then have "bucket_id ` set ms1 \<inter> bucket_id ` set ms2 = {}"
    by (intro equals0I) (elim IntE imageE, metis)
  then have "distinct (map bucket_id (ms1 @ ms2))" using 1(5) 2(2) by simp
  moreover have "\<forall>c\<in>set (ms1 @ ms2). rs_last_flushed_1m st \<le> mb_start c" using 1(3,6) 2(3) by fastforce
  moreover have "live_count k st + event_count k (concat (map fst (t # ticks))) =
      bucket_count k (ms1 @ ms2) + live_count k st2" for k
    using 1(4) [of k] 2(4) [of k] by (simp add: t)
  ultimately show ?case using 1(1) 2(1) by (simp add: t)
qed simp

text \<open>
  C13: the one-minute roll-up counts every event once. When the events of each turn of the report thread
  are not older than the minute collected last (and a key is always recorded with the same
  aggregation), no turn panics, no one-minute bucket is produced twice, and for every key the counts of
  the recorded events are the counts of the produced buckets plus those still live. Trimming old live
  buckets never loses one that was not collected.
\<close>

theorem counts_exactly_once:
  assumes "on_time kind 0 ticks"
  shows "\<exists>st pend ms fs. report_run ticks (report_state_new, []) = Some ((st, pend), ms, fs) \<and>
    distinct (map bucket_id ms) \<and>
    (\<forall>k. event_count k (concat (map fst ticks)) = bucket_count k ms + live_count k st)"
proof -
  have "metrics_ok kind report_state_new" "rs_last_flushed_1m report_state_new = 0"
    "\<And>k. live_count k report_state_new = 0"
    by (simp_all add: metrics_ok_def report_state_new_def live_count_def unwrap_or_def)
  then show ?thesis using report_run_ok [of kind report_state_new ticks "[]"] assms by fastforce
qed

lemmas example_eval = fp_of_nat_exact example_ticks_def example_tick_def example_event_def record_event_def trunc_def

lemma example_on_time: "on_time (\<lambda>_. AggAvg) 0 example_ticks"
  by (simp add: example_eval event_ok_def floor_to_def i64_div_def ONE_MINUTE_def)

lemmas tick_eval = floor_to_def i64_div_def ONE_MINUTE_def bucket_start_for_def LIVE_BUCKET_SECONDS_def
  FIVE_MINUTES_def MAX_WINDOW_def WINDOWS_def trunc_def

lemma example_zero_plus_one: "f64_add f64_zero (Finite False 1) = Finite False 1"
  using f64_dyadic [of 1 0] by (simp add: f64_zero_def)

lemma example_tick1:
  "report_tick [] (fp_of_nat binary64 300) (fp_of_nat binary64 300) (report_state_new, []) =
     Some ((report_state_new\<lparr>rs_last_flushed_1m := 300, rs_last_flushed_5m := 300\<rparr>, []), [], [])"
  by (simp add: report_tick_def drain_and_process_def report_state_new_def snapshot_def collect_completed_1m_def
      trim_buckets_def collect_completed_5m_from_1m_def extend_pending_def fp_of_nat_exact tick_eval)

lemma example_drain2:
  "drain_events [example_event 310] (report_state_new\<lparr>rs_last_flushed_1m := 300, rs_last_flushed_5m := 300\<rparr>) =
     Some (example_state [example_live 310] (Finite False 310) 300 300)"
  by (simp add: apply_event_def report_state_new_def push_event_def new_live_bucket_def example_eval tick_eval
      example_state_def example_live_def unwrap_or_def Let_def)

lemma example_drain3:
  "drain_events [example_event 550] (example_state [example_live 310] s 360 300) =
     Some (example_state [example_live 310, example_live 550] (Finite False 550) 360 300)"
  by (simp add: apply_event_def push_event_def new_live_bucket_def example_eval tick_eval
      example_state_def example_live_def unwrap_or_def Let_def)

lemma example_collect2:
  "collect_completed_1m (Finite False 360) (example_state [example_live 310] s 300 300) =
     Some (example_state [example_live 310] s 360 300, [example_bucket 300 60])"
  by (simp add: collect_completed_1m_def example_state_def completed_of_key_def merge_live_def hm_upsert_def
      example_live_def tick_eval unwrap_or_def example_zero_plus_one example_bucket_def)

lemma example_collect3:
  "collect_completed_1m (Finite False 600) (example_state [example_live 310, example_live 550] s 360 300) =
     Some (example_state [example_live 310, example_live 550] s 600 300, [example_bucket 540 60])"
  by (simp add: collect_completed_1m_def example_state_def completed_of_key_def merge_live_def hm_upsert_def
      example_live_def tick_eval unwrap_or_def example_zero_plus_one example_bucket_def)

lemma example_5m:
  "snd (collect_completed_5m_from_1m [example_bucket 540 60] (Finite False 600) (example_state bs s 600 300)) = [example_bucket 300 300]"
  by (simp add: collect_completed_5m_from_1m_def example_state_def merge_5m_def hm_upsert_def
      tick_eval unwrap_or_def example_zero_plus_one example_bucket_def)

lemma example_trim:
  "trim_buckets (Finite False 360) (example_state [example_live 310] s 360 300) = example_state [example_live 310] s 360 300"
  "trim_buckets (Finite False 600) (example_state [example_live 310, example_live 550] s 600 300) =
     example_state [example_live 550] s 600 300"
  by (auto simp: trim_buckets_def example_state_def example_live_def tick_eval)

lemma example_snapshot: "\<exists>snap. snapshot now (example_state bs s l1 l5) = Some snap"
  by (simp add: snapshot_def example_state_def)

lemma example_5m_early:
  "collect_completed_5m_from_1m c (Finite False 360) (example_state bs s 360 300) = (example_state bs s 360 300, [])"
  by (simp add: collect_completed_5m_from_1m_def tick_eval example_state_def)

lemma example_run:
  "\<exists>sp. report_run example_ticks (report_state_new, []) =
     Some (sp, [example_bucket 300 60, example_bucket 540 60], [example_bucket 300 300])"
proof -
  let ?st = "example_state [example_live 310] (Finite False 310)"
  obtain snap where "snapshot (Finite False 360) (?st 300 300) = Some snap" using example_snapshot by blast
  then have 2: "\<exists>p. report_tick [example_event 310] (Finite False 360) (Finite False 360)
      (report_state_new\<lparr>rs_last_flushed_1m := 300, rs_last_flushed_5m := 300\<rparr>, []) =
      Some ((?st 360 300, p), [example_bucket 300 60], [])"
    by (simp only: report_tick_def drain_and_process_def fst_conv example_drain2 Option.bind.simps example_collect2)
      (simp add: example_trim example_5m_early)
  obtain snap' where "snapshot (Finite False 600) (example_state [example_live 310, example_live 550] (Finite False 550) 360 300) = Some snap'"
    using example_snapshot by blast
  then have 3: "\<exists>sp. report_tick [example_event 550] (Finite False 600) (Finite False 600) (?st 360 300, p) =
      Some (sp, [example_bucket 540 60], [example_bucket 300 300])" for p
    using example_5m [of "[example_live 550]" "Finite False 550"]
    by (simp only: report_tick_def drain_and_process_def fst_conv example_drain3 Option.bind.simps example_collect3)
      (simp add: example_trim case_prod_beta Let_def)
  obtain p where "report_tick [example_event 310] (Finite False 360) (Finite False 360)
      (report_state_new\<lparr>rs_last_flushed_1m := 300, rs_last_flushed_5m := 300\<rparr>, []) =
      Some ((?st 360 300, p), [example_bucket 300 60], [])" using 2 by blast
  moreover obtain sp where "report_tick [example_event 550] (Finite False 600) (Finite False 600) (?st 360 300, p) =
      Some (sp, [example_bucket 540 60], [example_bucket 300 300])" using 3 by blast
  ultimately show ?thesis
    using example_tick1 by (simp add: example_ticks_def example_tick_def fp_of_nat_exact)
qed

theorem counts_exactly_once_witness:
  "\<exists>st pend ms fs. report_run example_ticks (report_state_new, []) = Some ((st, pend), ms, fs) \<and>
    distinct (map bucket_id ms) \<and> 2 = bucket_count [''api_request_ms''] ms + live_count [''api_request_ms''] st"
proof -
  have "event_count [''api_request_ms''] (concat (map fst example_ticks)) = 2"
    by (simp add: example_ticks_def example_tick_def example_event_def record_event_def unwrap_or_def)
  then show ?thesis using counts_exactly_once [OF example_on_time] by metis
qed

text \<open>
  The five-minute roll-up loses minutes. \<open>collect_completed_5m_from_1m\<close> returns before it stores
  the completed one-minute buckets when no five-minute boundary was crossed, so only the minutes that
  complete in the turn that crosses the boundary reach the five-minute bucket: here the minutes at 300
  and 540, with one event each, were both completed, and the five-minute bucket at 300 counts one event.
\<close>

theorem five_minute_rollup_loses_minutes:
  "\<exists>sp ms fs. report_run example_ticks (report_state_new, []) = Some (sp, ms, fs) \<and>
     map (\<lambda>b. (mb_start b, mb_n b)) ms = [(300, Some 1), (540, Some 1)] \<and>
     map (\<lambda>b. (mb_start b, mb_seconds b, mb_n b)) fs = [(300, 300, Some 1)]"
  using example_run by (auto simp: example_bucket_def)

section \<open>Writing the buckets\<close>

definition flush_inv :: "flush_state \<Rightarrow> bool" where
  "flush_inv s \<longleftrightarrow>
     inj_on bucket_id (fs_completed s) \<and> set (fs_pending s) \<subseteq> fs_completed s \<and> fs_written s \<subseteq> fs_completed s \<and>
     fs_completed s \<subseteq> set (fs_pending s) \<union> fs_written s \<union> fs_expired s \<and>
     set (fs_pending s) \<inter> fs_written s = {} \<and>
     (\<forall>batch. fs_batch s = Some batch \<longrightarrow> set batch \<subseteq> fs_completed s - fs_written s)"

lemma flush_step_inv:
  assumes "flush_step s s'" "flush_inv s"
  shows "flush_inv s'"
  using assms
proof (induction rule: flush_step.induct)
  case (tick completed s s' now)
  have fresh: "set completed \<inter> fs_completed s = {}" using tick(2) by blast
  have "inj_on bucket_id (fs_completed s \<union> set completed)"
    using tick(1,2,4) by (auto simp: flush_inv_def inj_on_Un distinct_map dest: inj_onD)
  then show ?case using tick(3,4) fresh by (auto simp: flush_inv_def extend_pending_def)
next
  case (flush_ok s batch)
  have "bucket_id b \<in> bucket_id ` set batch \<longleftrightarrow> b \<in> set batch" if "b \<in> fs_completed s" for b
    using that flush_ok by (auto simp: flush_inv_def dest: inj_onD)
  then show ?case using flush_ok by (auto simp: flush_inv_def flushed_pending_def)
qed (auto simp: flush_inv_def)

text \<open>
  No completed bucket is lost between the report thread and its flush task. In every interleaving
  of turns that add fresh buckets with flushes that succeed or fail, each completed bucket is still
  waiting, was written, or passed the age limit; a written bucket is no longer waiting, and the batch of
  a running flush holds nothing that was written before.
\<close>

theorem flush_loses_nothing:
  assumes "flush_step\<^sup>*\<^sup>* flush_init s"
  shows "fs_completed s \<subseteq> set (fs_pending s) \<union> fs_written s \<union> fs_expired s \<and>
    set (fs_pending s) \<inter> fs_written s = {} \<and> set (unwrap_or [] (fs_batch s)) \<inter> fs_written s = {}"
proof -
  have "flush_inv s"
    using assms
  proof (induction rule: rtranclp_induct)
    case base
    show ?case by (simp add: flush_inv_def flush_init_def)
  next
    case (step s s')
    then show ?case using flush_step_inv by blast
  qed
  then show ?thesis by (cases "fs_batch s") (auto simp: flush_inv_def unwrap_or_def)
qed

theorem flush_loses_nothing_witness:
  "\<exists>s. flush_step\<^sup>*\<^sup>* flush_init s \<and> fs_completed s = {example_bucket 300 60} \<and>
     fs_completed s \<subseteq> set (fs_pending s) \<union> fs_written s \<union> fs_expired s"
proof -
  let ?s = "flush_init\<lparr>fs_pending := [example_bucket 300 60], fs_completed := {example_bucket 300 60}\<rparr>"
  have "flush_step flush_init ?s"
    by (rule flush_step.tick [of "[example_bucket 300 60]" _ _ "Finite False 360"])
      (simp_all add: flush_init_def extend_pending_def)
  then have "flush_step\<^sup>*\<^sup>* flush_init ?s" by (rule r_into_rtranclp)
  then show ?thesis using flush_loses_nothing [of ?s] by (intro exI [of _ ?s]) (simp add: flush_init_def)
qed

end
