(* ===== verification/Locks.thy ===== *)
theory Locks
  imports Ingestion
begin

text \<open>
  The lock registries: \<open>NamedLocks\<close> of \<open>src/src/encoder.rs\<close> and \<open>LocalLocks\<close> of
  \<open>src/src/lock_client.rs\<close>, which are the same code, used by the upserts and deletes; and the client of the
  distributed lock service.

  A registry maps keys to mutexes. A task that locks a key clones the mutex from the map (the map itself is
  locked meanwhile, so this is one step) and then waits for it; a sweep removes the entries nobody else has a
  clone of. The steps of any number of tasks and the sweep interleave. A task locks the keys of its documents
  in the order of \<open>lock_ids\<close> and drops all its guards at the end, or at any moment when it fails or is
  cancelled. Mutexes are numbered in the order of their creation.
\<close>

section \<open>The registry\<close>

definition doc_lock_name :: "(string \<Rightarrow> string) \<Rightarrow> string \<Rightarrow> string \<Rightarrow> string" where
  "doc_lock_name uuid collection_name document_id = ''doc-'' @ uuid (collection_name @ ''-'' @ document_id)"

record task =
  tk_todo :: "string list"
  tk_waiting :: "(string \<times> nat) option"
  tk_guards :: "(string \<times> nat) list"

record lock_table =
  lt_map :: "(string, nat) hash_map"
  lt_next :: nat
  lt_tasks :: "(nat \<times> task) list"

definition locks_new :: lock_table where
  "locks_new = \<lparr>lt_map = [], lt_next = 0, lt_tasks = []\<rparr>"

definition task_clones :: "task \<Rightarrow> (string \<times> nat) list" where
  "task_clones tk = (case tk_waiting tk of Some p \<Rightarrow> [p] | None \<Rightarrow> []) @ tk_guards tk"

definition clones :: "lock_table \<Rightarrow> (string \<times> nat) list" where
  "clones s = concat (map (\<lambda>(t, tk). task_clones tk) (lt_tasks s))"

definition strong_count :: "lock_table \<Rightarrow> nat \<Rightarrow> nat" where
  "strong_count s m = 1 + length (filter (\<lambda>p. snd p = m) (clones s))"

definition mutex_free :: "lock_table \<Rightarrow> nat \<Rightarrow> bool" where
  "mutex_free s m \<longleftrightarrow> list_all (\<lambda>(t, tk). list_all (\<lambda>p. snd p \<noteq> m) (tk_guards tk)) (lt_tasks s)"

definition set_task :: "nat \<Rightarrow> task \<Rightarrow> lock_table \<Rightarrow> lock_table" where
  "set_task t tk s = s\<lparr>lt_tasks := AList.update t tk (lt_tasks s)\<rparr>"

definition drop_task :: "nat \<Rightarrow> lock_table \<Rightarrow> lock_table" where
  "drop_task t s = s\<lparr>lt_tasks := AList.delete t (lt_tasks s)\<rparr>"

definition lock_entry :: "string \<Rightarrow> lock_table \<Rightarrow> nat \<times> lock_table" where
  "lock_entry k s =
     (case map_of (lt_map s) k of
        Some m \<Rightarrow> (m, s)
      | None \<Rightarrow> (lt_next s, s\<lparr>lt_map := AList.update k (lt_next s) (lt_map s), lt_next := Suc (lt_next s)\<rparr>))"

definition sweep :: "lock_table \<Rightarrow> lock_table" where
  "sweep s = s\<lparr>lt_map := filter (\<lambda>(k, m). 1 < strong_count s m) (lt_map s)\<rparr>"

definition begin_task :: "(string \<Rightarrow> string) \<Rightarrow> string \<Rightarrow> document list \<Rightarrow> task" where
  "begin_task uuid coll docs = \<lparr>tk_todo = map (doc_lock_name uuid coll) (lock_ids docs), tk_waiting = None, tk_guards = []\<rparr>"

text \<open>The steps of a task towards its end, and what may happen around it.\<close>

inductive work_step :: "lock_table \<Rightarrow> lock_table \<Rightarrow> bool" where
  enter: "map_of (lt_tasks s) t = Some tk \<Longrightarrow> tk_waiting tk = None \<Longrightarrow> tk_todo tk = k # ks \<Longrightarrow> lock_entry k s = (m, s') \<Longrightarrow>
    work_step s (set_task t (tk\<lparr>tk_todo := ks, tk_waiting := Some (k, m)\<rparr>) s')"
| acquire: "map_of (lt_tasks s) t = Some tk \<Longrightarrow> tk_waiting tk = Some (k, m) \<Longrightarrow> mutex_free s m \<Longrightarrow>
    work_step s (set_task t (tk\<lparr>tk_waiting := None, tk_guards := tk_guards tk @ [(k, m)]\<rparr>) s)"
| finish: "map_of (lt_tasks s) t = Some tk \<Longrightarrow> tk_waiting tk = None \<Longrightarrow> tk_todo tk = [] \<Longrightarrow> work_step s (drop_task t s)"

inductive other_step :: "(string \<Rightarrow> string) \<Rightarrow> lock_table \<Rightarrow> lock_table \<Rightarrow> bool" for uuid where
  start: "map_of (lt_tasks s) t = None \<Longrightarrow> other_step uuid s (set_task t (begin_task uuid coll docs) s)"
| cancel: "map_of (lt_tasks s) t = Some tk \<Longrightarrow> other_step uuid s (drop_task t s)"
| clean: "other_step uuid s (sweep s)"

inductive reachable :: "(string \<Rightarrow> string) \<Rightarrow> lock_table \<Rightarrow> bool" for uuid where
  init: "reachable uuid locks_new"
| work: "reachable uuid s \<Longrightarrow> work_step s s' \<Longrightarrow> reachable uuid s'"
| other: "reachable uuid s \<Longrightarrow> other_step uuid s s' \<Longrightarrow> reachable uuid s'"

section \<open>Invariant\<close>

definition key_less :: "(string \<Rightarrow> string) \<Rightarrow> string \<Rightarrow> string \<Rightarrow> bool" where
  "key_less uuid k l \<longleftrightarrow> (\<exists>a b. k = ''doc-'' @ uuid a \<and> l = ''doc-'' @ uuid b \<and> str_cmp a b = Less)"

definition task_keys :: "task \<Rightarrow> string list" where
  "task_keys tk = map fst (tk_guards tk) @ (case tk_waiting tk of Some (k, m) \<Rightarrow> [k] | None \<Rightarrow> []) @ tk_todo tk"

definition lock_inv :: "(string \<Rightarrow> string) \<Rightarrow> lock_table \<Rightarrow> bool" where
  "lock_inv uuid s \<longleftrightarrow>
     distinct (map fst (lt_tasks s)) \<and> distinct (map fst (lt_map s)) \<and> distinct (map snd (lt_map s)) \<and>
     (\<forall>m\<in>snd ` set (lt_map s). m < lt_next s) \<and>
     (\<forall>t tk. map_of (lt_tasks s) t = Some tk \<longrightarrow>
        (\<forall>(k, m)\<in>set (task_clones tk). map_of (lt_map s) k = Some m) \<and> sorted_wrt (key_less uuid) (task_keys tk)) \<and>
     (\<forall>t t' tk tk' k k' m. map_of (lt_tasks s) t = Some tk \<longrightarrow> map_of (lt_tasks s) t' = Some tk' \<longrightarrow>
        (k, m) \<in> set (tk_guards tk) \<longrightarrow> (k', m) \<in> set (tk_guards tk') \<longrightarrow> t = t')"

lemma lock_invD:
  assumes "lock_inv uuid s" "map_of (lt_tasks s) t = Some tk"
  shows "(k, m) \<in> set (task_clones tk) \<Longrightarrow> map_of (lt_map s) k = Some m" "sorted_wrt (key_less uuid) (task_keys tk)"
  using assms unfolding lock_inv_def by blast+

lemma lock_inv_exclusive:
  "lock_inv uuid s \<Longrightarrow> map_of (lt_tasks s) t = Some tk \<Longrightarrow> map_of (lt_tasks s) t' = Some tk' \<Longrightarrow>
   (k, m) \<in> set (tk_guards tk) \<Longrightarrow> (k', m) \<in> set (tk_guards tk') \<Longrightarrow> t = t'"
  unfolding lock_inv_def by blast

lemma set_task_inv:
  assumes inv: "lock_inv uuid s"
    and clones: "\<And>k m. (k, m) \<in> set (task_clones tk) \<Longrightarrow> map_of (lt_map s) k = Some m"
    and keys: "sorted_wrt (key_less uuid) (task_keys tk)"
    and guards: "\<And>t' tk' k k' m. t' \<noteq> t \<Longrightarrow> map_of (lt_tasks s) t' = Some tk' \<Longrightarrow> (k, m) \<in> set (tk_guards tk) \<Longrightarrow> (k', m) \<notin> set (tk_guards tk')"
  shows "lock_inv uuid (set_task t tk s)"
proof -
  let ?s = "set_task t tk s"
  have m: "map_of (lt_tasks ?s) t' = (if t' = t then Some tk else map_of (lt_tasks s) t')" for t'
    by (simp add: set_task_def update_conv)
  have "t1 = t2" if h: "map_of (lt_tasks ?s) t1 = Some tk1" "map_of (lt_tasks ?s) t2 = Some tk2"
      "(k, n) \<in> set (tk_guards tk1)" "(k', n) \<in> set (tk_guards tk2)" for t1 t2 tk1 tk2 k k' n
  proof (cases "t1 = t"; cases "t2 = t")
    assume "t1 = t" "t2 \<noteq> t"
    then show ?thesis using guards [of t2 tk2 k n k'] h unfolding m by simp
  next
    assume "t1 \<noteq> t" "t2 = t"
    then show ?thesis using guards [of t1 tk1 k' n k] h unfolding m by simp
  next
    assume "t1 \<noteq> t" "t2 \<noteq> t"
    then show ?thesis using lock_inv_exclusive [OF inv _ _ h(3,4)] h(1,2) unfolding m by simp
  qed simp
  moreover have "(\<forall>(k, m)\<in>set (task_clones tk1). map_of (lt_map ?s) k = Some m) \<and> sorted_wrt (key_less uuid) (task_keys tk1)"
    if h: "map_of (lt_tasks ?s) t1 = Some tk1" for t1 tk1
    using h clones keys lock_invD [OF inv] unfolding m by (auto simp: set_task_def split: if_splits)
  moreover have "distinct (map fst (lt_tasks ?s))" "lt_map ?s = lt_map s" "lt_next ?s = lt_next s"
    using inv by (simp_all add: lock_inv_def set_task_def distinct_update)
  ultimately show ?thesis using inv unfolding lock_inv_def by simp
qed

lemma drop_task_inv: "lock_inv uuid s \<Longrightarrow> lock_inv uuid (drop_task t s)"
proof -
  assume inv: "lock_inv uuid s"
  have "map_of (AList.delete t xs) t' = (if t' = t then None else map_of xs t')" for xs :: "(nat \<times> task) list" and t'
    by (simp add: delete_conv')
  then show ?thesis using inv unfolding lock_inv_def drop_task_def
    by (auto simp: distinct_delete split: if_splits)
qed

lemma lock_entry_inv:
  assumes "lock_inv uuid s" "lock_entry k s = (m, s')"
  shows "lock_inv uuid s' \<and> map_of (lt_map s') k = Some m \<and> lt_tasks s' = lt_tasks s"
proof (cases "map_of (lt_map s) k")
  case (Some n)
  then show ?thesis using assms by (simp add: lock_entry_def)
next
  case None
  then have s': "s' = s\<lparr>lt_map := AList.update k (lt_next s) (lt_map s), lt_next := Suc (lt_next s)\<rparr>" "m = lt_next s"
    using assms(2) by (auto simp: lock_entry_def)
  have app: "AList.update k v xs = xs @ [(k, v)]" if "map_of xs k = None" for v and xs :: "(string, nat) hash_map"
    using that by (induction xs) (auto split: if_splits)
  have clones: "map_of (lt_map s) k' = Some n \<Longrightarrow> map_of (lt_map s') k' = Some n" for k' n
    using None s' by (auto simp: update_conv)
  have "distinct (map fst (lt_map s'))" "distinct (map snd (lt_map s'))" "\<forall>m\<in>snd ` set (lt_map s'). m < lt_next s'"
    using assms(1) None s' unfolding lock_inv_def by (force simp: app map_of_eq_None_iff)+
  then show ?thesis using assms(1) s' clones unfolding lock_inv_def by (auto simp: update_conv)
qed

lemma strong_count_gt: "1 < strong_count s m \<longleftrightarrow> (\<exists>t tk k. (t, tk) \<in> set (lt_tasks s) \<and> (k, m) \<in> set (task_clones tk))"
proof -
  have "1 < strong_count s m \<longleftrightarrow> (\<exists>p\<in>set (clones s). snd p = m)"
    unfolding strong_count_def by (auto simp: filter_empty_conv)
  also have "\<dots> \<longleftrightarrow> (\<exists>t tk k. (t, tk) \<in> set (lt_tasks s) \<and> (k, m) \<in> set (task_clones tk))"
    by (force simp: clones_def)
  finally show ?thesis .
qed

lemma sweep_inv:
  assumes inv: "lock_inv uuid s"
  shows "lock_inv uuid (sweep s)"
proof -
  have d: "distinct (map fst (lt_map s))" "distinct (map snd (lt_map s))" using inv by (simp_all add: lock_inv_def)
  have clones: "map_of (lt_map (sweep s)) k = Some m" if h: "map_of (lt_tasks s) t = Some tk" "(k, m) \<in> set (task_clones tk)" for t tk k m
  proof -
    have "map_of (lt_map s) k = Some m" by (rule lock_invD(1) [OF inv h])
    then have "(k, m) \<in> set (lt_map s)" by (rule map_of_SomeD)
    moreover have "1 < strong_count s m" unfolding strong_count_gt using h by (blast dest: map_of_SomeD)
    ultimately show ?thesis using d(1) by (simp add: sweep_def distinct_map_filter)
  qed
  have "distinct (map fst (lt_map (sweep s)))" "distinct (map snd (lt_map (sweep s)))"
    using d by (simp_all add: sweep_def distinct_map_filter)
  moreover have "\<forall>m\<in>snd ` set (lt_map (sweep s)). m < lt_next (sweep s)" using inv by (auto simp: lock_inv_def sweep_def)
  moreover have "lt_tasks (sweep s) = lt_tasks s" by (simp add: sweep_def)
  ultimately show ?thesis using inv clones unfolding lock_inv_def by auto
qed

section \<open>Every step keeps the invariant\<close>

lemma str_cmp_append [simp]: "str_cmp (p @ a) (p @ b) = str_cmp a b"
  by (induction p) auto

lemma strict_remdups_adj:
  "sorted_wrt (\<lambda>a b. str_cmp a b \<noteq> Greater) xs \<Longrightarrow> sorted_wrt (\<lambda>a b. str_cmp a b = Less) (remdups_adj xs)"
proof (induction xs rule: remdups_adj.induct)
  case (3 x y xs)
  show ?case
  proof (cases "x = y")
    case False
    have IH: "sorted_wrt (\<lambda>a b. str_cmp a b = Less) (remdups_adj (y # xs))" using 3 False by simp
    have "str_cmp x y = Less" using "3.prems" False str_cmp_Equal [of x y] by (cases "str_cmp x y") auto
    moreover have "str_cmp x z = Less" if "z \<in> set xs" for z
      using "3.prems" that \<open>str_cmp x y = Less\<close> str_order.cmp_trans_Less [of x y z] by auto
    ultimately have "\<forall>z\<in>set (remdups_adj (y # xs)). str_cmp x z = Less" by auto
    then show ?thesis using IH False by simp
  qed (use 3 in simp)
qed simp_all

lemma lock_ids_sorted: "sorted_wrt (\<lambda>a b. str_cmp a b = Less) (lock_ids docs)"
  unfolding lock_ids_def by (rule strict_remdups_adj) (rule str_order.sort_by_sorted, simp)

lemma begin_task_keys: "sorted_wrt (key_less uuid) (task_keys (begin_task uuid coll docs))"
proof -
  have less: "key_less uuid (doc_lock_name uuid coll a) (doc_lock_name uuid coll b)" if "str_cmp a b = Less" for a b
    unfolding key_less_def doc_lock_name_def using that
    by (intro exI [of _ "coll @ ''-'' @ a"] exI [of _ "coll @ ''-'' @ b"]) simp
  have "sorted_wrt (\<lambda>a b. key_less uuid (doc_lock_name uuid coll a) (doc_lock_name uuid coll b)) (lock_ids docs)"
    by (rule sorted_wrt_mono_rel [OF less lock_ids_sorted])
  then show ?thesis by (simp add: begin_task_def task_keys_def sorted_wrt_map)
qed

lemma work_step_inv: "work_step s s' \<Longrightarrow> lock_inv uuid s \<Longrightarrow> lock_inv uuid s'"
proof (induction rule: work_step.induct)
  case (enter s t tk k ks m s')
  note e = lock_entry_inv [OF enter.prems enter.hyps(4)]
  have "map_of (lt_tasks s') t = Some tk" using e enter.hyps(1) by simp
  note old = lock_invD [OF conjunct1 [OF e] this]
  show ?case
  proof (rule set_task_inv [OF conjunct1 [OF e]])
    show "map_of (lt_map s') k' = Some m'"
      if "(k', m') \<in> set (task_clones (tk\<lparr>tk_todo := ks, tk_waiting := Some (k, m)\<rparr>))" for k' m'
      using that old(1) e enter.hyps(2) by (auto simp: task_clones_def)
    show "sorted_wrt (key_less uuid) (task_keys (tk\<lparr>tk_todo := ks, tk_waiting := Some (k, m)\<rparr>))"
      using old(2) enter.hyps(2,3) by (simp add: task_keys_def)
    show "(k2, n) \<notin> set (tk_guards tk')"
      if "t' \<noteq> t" "map_of (lt_tasks s') t' = Some tk'" "(k1, n) \<in> set (tk_guards (tk\<lparr>tk_todo := ks, tk_waiting := Some (k, m)\<rparr>))"
      for t' tk' k1 k2 n
      using that lock_inv_exclusive [OF enter.prems enter.hyps(1)] e by auto
  qed
next
  case (acquire s t tk k m)
  note old = lock_invD [OF acquire.prems acquire.hyps(1)]
  show ?case
  proof (rule set_task_inv [OF acquire.prems])
    show "map_of (lt_map s) k' = Some m'"
      if "(k', m') \<in> set (task_clones (tk\<lparr>tk_waiting := None, tk_guards := tk_guards tk @ [(k, m)]\<rparr>))" for k' m'
      using that old(1) acquire.hyps(2) by (auto simp: task_clones_def)
    show "sorted_wrt (key_less uuid) (task_keys (tk\<lparr>tk_waiting := None, tk_guards := tk_guards tk @ [(k, m)]\<rparr>))"
      using old(2) acquire.hyps(2) by (simp add: task_keys_def)
    show "(k2, n) \<notin> set (tk_guards tk')"
      if "t' \<noteq> t" "map_of (lt_tasks s) t' = Some tk'" "(k1, n) \<in> set (tk_guards (tk\<lparr>tk_waiting := None, tk_guards := tk_guards tk @ [(k, m)]\<rparr>))"
      for t' tk' k1 k2 n
    proof (cases "(k1, n) \<in> set (tk_guards tk)")
      case True
      then show ?thesis using that(1,2) lock_inv_exclusive [OF acquire.prems acquire.hyps(1) that(2) True] by auto
    next
      case False
      then have "n = m" using that(3) by simp
      then show ?thesis using acquire.hyps(3) map_of_SomeD [OF that(2)] by (fastforce simp: mutex_free_def list_all_iff)
    qed
  qed
qed (rule drop_task_inv)

lemma other_step_inv: "other_step uuid s s' \<Longrightarrow> lock_inv uuid s \<Longrightarrow> lock_inv uuid s'"
proof (induction rule: other_step.induct)
  case (start s t coll docs)
  show ?case by (rule set_task_inv [OF start.prems _ begin_task_keys]) (simp_all add: begin_task_def task_clones_def)
qed (simp_all add: drop_task_inv sweep_inv)

lemma reachable_inv: "reachable uuid s \<Longrightarrow> lock_inv uuid s"
proof (induction rule: reachable.induct)
  case init
  show ?case by (simp add: lock_inv_def locks_new_def)
qed (simp_all add: work_step_inv other_step_inv)

section \<open>No deadlock\<close>

lemma key_less_order:
  assumes "inj uuid"
  shows "asymp_on A (key_less uuid)" "transp_on A (key_less uuid)"
proof -
  have less: "key_less uuid (''doc-'' @ uuid a) (''doc-'' @ uuid b) \<longleftrightarrow> str_cmp a b = Less" for a b
    using assms by (auto simp: key_less_def dest: injD)
  show "asymp_on A (key_less uuid)"
  proof (rule asymp_onI)
    show "\<not> key_less uuid y x" if xy: "key_less uuid x y" for x y
    proof -
      obtain a b where "x = ''doc-'' @ uuid a" "y = ''doc-'' @ uuid b" "str_cmp a b = Less"
        using xy unfolding key_less_def by blast
      then show ?thesis using less [of b a] str_cmp_rev [of b a] by simp
    qed
  qed
  show "transp_on A (key_less uuid)"
  proof (rule transp_onI)
    show "key_less uuid x z" if xy: "key_less uuid x y" and yz: "key_less uuid y z" for x y z
    proof -
      obtain a b where ab: "x = ''doc-'' @ uuid a" "y = ''doc-'' @ uuid b" "str_cmp a b = Less"
        using xy unfolding key_less_def by blast
      obtain c where c: "z = ''doc-'' @ uuid c" using yz unfolding key_less_def by blast
      then show ?thesis using ab yz less [of b c] less [of a c] str_cmp_trans_Less [of a b c] by simp
    qed
  qed
qed

definition waiting_keys :: "lock_table \<Rightarrow> string set" where
  "waiting_keys s = {k. \<exists>t tk m. map_of (lt_tasks s) t = Some tk \<and> tk_waiting tk = Some (k, m)}"

lemma finite_waiting_keys: "finite (waiting_keys s)"
proof -
  have "waiting_keys s \<subseteq> (\<lambda>(t, tk). fst (the (tk_waiting tk))) ` set (lt_tasks s)"
    unfolding waiting_keys_def by (force dest: map_of_SomeD)
  then show ?thesis by (rule finite_subset) simp
qed

lemma holder_of:
  assumes "lock_inv uuid s" "\<not> mutex_free s m" "map_of (lt_map s) k = Some m"
  shows "\<exists>t tk. map_of (lt_tasks s) t = Some tk \<and> (k, m) \<in> set (tk_guards tk)"
proof -
  obtain t tk k' where t: "(t, tk) \<in> set (lt_tasks s)" "(k', m) \<in> set (tk_guards tk)"
    using assms(2) by (auto simp: mutex_free_def list_all_iff)
  have tk: "map_of (lt_tasks s) t = Some tk" using assms(1) t(1) by (simp add: lock_inv_def map_of_is_SomeI)
  have "(k', m) \<in> set (task_clones tk)" using t(2) by (simp add: task_clones_def)
  then have "map_of (lt_map s) k' = Some m" by (rule lock_invD(1) [OF assms(1) tk])
  then have "(k', m) \<in> set (lt_map s)" "(k, m) \<in> set (lt_map s)" using assms(3) by (auto dest: map_of_SomeD)
  moreover have "distinct (map snd (lt_map s))" using assms(1) by (simp add: lock_inv_def)
  ultimately have "k' = k" using inj_onD [of snd "set (lt_map s)" "(k', m)" "(k, m)"] by (simp add: distinct_map)
  then show ?thesis using tk t(2) by blast
qed

lemma some_work_step:
  assumes inv: "lock_inv uuid s" and inj: "inj uuid" and ne: "lt_tasks s \<noteq> []"
  shows "\<exists>s'. work_step s s'"
proof (cases "\<exists>t tk. map_of (lt_tasks s) t = Some tk \<and> tk_waiting tk = None")
  case True
  then obtain t tk where t: "map_of (lt_tasks s) t = Some tk" "tk_waiting tk = None" by blast
  show ?thesis
  proof (cases "tk_todo tk")
    case Nil
    then show ?thesis using work_step.finish [OF t] by blast
  next
    case (Cons k ks)
    obtain m s' where "lock_entry k s = (m, s')" by fastforce
    then show ?thesis using work_step.enter [OF t Cons] by blast
  qed
next
  case False
  obtain t tk where t: "map_of (lt_tasks s) t = Some tk" using ne by (cases "lt_tasks s") fastforce+
  then obtain k m where "tk_waiting tk = Some (k, m)" using False by fastforce
  then have "waiting_keys s \<noteq> {}" using t by (auto simp: waiting_keys_def)
  then obtain k where k: "k \<in> waiting_keys s" "\<forall>l\<in>waiting_keys s. l \<noteq> k \<longrightarrow> \<not> key_less uuid k l"
    using Finite_Set.bex_max_element [OF finite_waiting_keys key_less_order [OF inj]] by blast
  then obtain t tk m where t: "map_of (lt_tasks s) t = Some tk" "tk_waiting tk = Some (k, m)" by (auto simp: waiting_keys_def)
  show ?thesis
  proof (cases "mutex_free s m")
    case True
    then show ?thesis using work_step.acquire [OF t] by blast
  next
    case held: False
    have "map_of (lt_map s) k = Some m" using lock_invD(1) [OF inv t(1)] t(2) by (simp add: task_clones_def)
    from holder_of [OF inv held this] obtain t' tk' where t': "map_of (lt_tasks s) t' = Some tk'" "(k, m) \<in> set (tk_guards tk')"
      by blast
    then obtain l n where l: "tk_waiting tk' = Some (l, n)" using False by fastforce
    then have "key_less uuid k l"
      using lock_invD(2) [OF inv t'(1)] t'(2) by (fastforce simp: task_keys_def sorted_wrt_append)
    moreover have "l \<in> waiting_keys s" using t'(1) l by (auto simp: waiting_keys_def)
    moreover have "l \<noteq> k" using \<open>key_less uuid k l\<close> key_less_order(1) [OF inj, of UNIV] by (auto dest: asymp_onD)
    ultimately show ?thesis using k(2) by blast
  qed
qed

definition task_work :: "task \<Rightarrow> nat" where
  "task_work tk = 2 * length (tk_todo tk) + (if tk_waiting tk = None then 0 else 1) + 1"

definition remaining_work :: "lock_table \<Rightarrow> nat" where
  "remaining_work s = sum_list (map (\<lambda>(t, tk). task_work tk) (lt_tasks s))"

lemma remaining_work_update:
  "distinct (map fst xs) \<Longrightarrow> map_of xs t = Some old \<Longrightarrow>
   sum_list (map (\<lambda>(t, tk). task_work tk) (AList.update t new xs)) + task_work old =
     sum_list (map (\<lambda>(t, tk). task_work tk) xs) + task_work new"
proof (induction xs)
  case (Cons x xs)
  then show ?case by (cases x) (auto split: if_splits)
qed simp

lemma remaining_work_delete:
  fixes t :: nat
  shows "distinct (map fst xs) \<Longrightarrow> map_of xs t = Some old \<Longrightarrow>
   sum_list (map (\<lambda>(t, tk). task_work tk) (AList.delete t xs)) + task_work old = sum_list (map (\<lambda>(t, tk). task_work tk) xs)"
proof (induction xs)
  case (Cons x xs)
  have none: "AList.delete t ys = ys" if "map_of ys t = None" for ys :: "(nat \<times> task) list"
    using that by (induction ys) (auto split: if_splits)
  show ?case
  proof (cases "fst x = t")
    case True
    then have "map_of xs t = None" using Cons.prems(1) by (auto simp: map_of_eq_None_iff)
    then show ?thesis using Cons.prems(2) True by (cases x) (simp add: none)
  qed (use Cons in \<open>cases x; auto\<close>)
qed simp

lemma work_step_decreases: "work_step s s' \<Longrightarrow> lock_inv uuid s \<Longrightarrow> remaining_work s' < remaining_work s"
proof (induction rule: work_step.induct)
  case (enter s t tk k ks m s')
  have d: "distinct (map fst (lt_tasks s))" using enter.prems by (simp add: lock_inv_def)
  have "lt_tasks s' = lt_tasks s" using lock_entry_inv [OF enter.prems enter.hyps(4)] by simp
  then show ?case using remaining_work_update [OF d enter.hyps(1), of "tk\<lparr>tk_todo := ks, tk_waiting := Some (k, m)\<rparr>"] enter.hyps(2,3)
    by (simp add: remaining_work_def set_task_def task_work_def)
next
  case (acquire s t tk k m)
  have d: "distinct (map fst (lt_tasks s))" using acquire.prems by (simp add: lock_inv_def)
  show ?case using remaining_work_update [OF d acquire.hyps(1), of "tk\<lparr>tk_waiting := None, tk_guards := tk_guards tk @ [(k, m)]\<rparr>"] acquire.hyps(2)
    by (simp add: remaining_work_def set_task_def task_work_def)
next
  case (finish s t tk)
  have d: "distinct (map fst (lt_tasks s))" using finish.prems by (simp add: lock_inv_def)
  show ?case using remaining_work_delete [OF d finish.hyps(1)] by (simp add: remaining_work_def drop_task_def task_work_def)
qed

text \<open>
  C14: document locks exclude each other. In every interleaving of any number of upserts and deletes,
  cancellations and sweeps of the registry, no two tasks hold the lock of one document at the same time: a
  sweep never removes an entry that some task holds or waits for, so a key never has two mutexes in use.
\<close>

theorem document_locks_exclude:
  assumes "reachable uuid s" "map_of (lt_tasks s) t = Some tk" "map_of (lt_tasks s) t' = Some tk'"
    and "(k, m) \<in> set (tk_guards tk)" "(k, m') \<in> set (tk_guards tk')"
  shows "t = t' \<and> m = m' \<and> map_of (lt_map s) k = Some m"
proof -
  have inv: "lock_inv uuid s" by (rule reachable_inv [OF assms(1)])
  have "map_of (lt_map s) k = Some m" "map_of (lt_map s) k = Some m'"
    using lock_invD(1) [OF inv assms(2)] lock_invD(1) [OF inv assms(3)] assms(4,5) by (auto simp: task_clones_def)
  then show ?thesis using lock_inv_exclusive [OF inv assms(2-4)] assms(5) by auto
qed

text \<open>
  C15: the document locks cannot deadlock. In every reachable state with unfinished tasks some task can go
  on, and every step of a task reduces the remaining work: left alone, the tasks all finish after at most
  \<open>remaining_work\<close> steps. It rests on the order in which a task locks its documents.
\<close>

theorem document_locks_make_progress:
  assumes "reachable uuid s" "inj uuid"
  shows "(lt_tasks s \<noteq> [] \<longrightarrow> (\<exists>s'. work_step s s')) \<and> (\<forall>s'. work_step s s' \<longrightarrow> remaining_work s' < remaining_work s)"
  using some_work_step [OF reachable_inv [OF assms(1)] assms(2)] work_step_decreases [OF _ reachable_inv [OF assms(1)]] by blast

section \<open>The lock service client\<close>

datatype lock_error =
    AcquisitionTimeout "string list"
  | LockRpc string

text \<open>
  The replies of the service to successive attempts, and the time at which each attempt starts, are
  functions of the number of the attempt; the loop has fuel.
\<close>

fun acquire_loop ::
    "(nat \<Rightarrow> string + bool) \<Rightarrow> (nat \<Rightarrow> nat) \<Rightarrow> nat \<Rightarrow> nat \<Rightarrow> nat \<Rightarrow> string option \<Rightarrow> string list \<Rightarrow>
     (lock_error + nat) option" where
  "acquire_loop rpc clock deadline 0 attempt last_err names = None"
| "acquire_loop rpc clock deadline (Suc fuel) attempt last_err names =
     (if clock attempt < deadline
      then case rpc attempt of
             Inr True \<Rightarrow> Some (Inr attempt)
           | Inr False \<Rightarrow> acquire_loop rpc clock deadline fuel (Suc attempt) None names
           | Inl e \<Rightarrow> acquire_loop rpc clock deadline fuel (Suc attempt) (Some e) names
      else Some (Inl (case last_err of Some e \<Rightarrow> LockRpc e | None \<Rightarrow> AcquisitionTimeout names)))"

definition backoff :: "nat \<Rightarrow> nat" where
  "backoff attempt = min (attempt * 100) 1000"

text \<open>
  The local lock of the set of names is taken first. \<open>local_ready\<close> is the time at which a local lock is
  obtained, \<open>None\<close> when its holder never gives it up: then the call waits for ever. The deadline is
  computed after this wait.
\<close>

fun join_with :: "string \<Rightarrow> string list \<Rightarrow> string" where
  "join_with sep [] = []"
| "join_with sep [x] = x"
| "join_with sep (x # xs) = x @ sep @ join_with sep xs"

definition local_lock_key :: "string list \<Rightarrow> string" where
  "local_lock_key names = join_with ''|'' (sort_by str_cmp names)"

definition lock_acquire ::
    "(string \<Rightarrow> nat option) \<Rightarrow> (nat \<Rightarrow> string + bool) \<Rightarrow> (nat \<Rightarrow> nat) \<Rightarrow> nat \<Rightarrow> nat \<Rightarrow> string list \<Rightarrow> (lock_error + nat) option" where
  "lock_acquire local_ready rpc clock timeout fuel names =
     (case local_ready (local_lock_key names) of
        None \<Rightarrow> None
      | Some ready \<Rightarrow> acquire_loop rpc clock (ready + timeout) fuel 0 None names)"

definition RELEASE_MAX_ATTEMPTS :: nat where "RELEASE_MAX_ATTEMPTS = 3"

datatype rpc_reply =
    RpcFailed string
  | RpcRefused "string option"
  | RpcDone

fun release_loop :: "(nat \<Rightarrow> rpc_reply) \<Rightarrow> nat list \<Rightarrow> string \<Rightarrow> string + unit" where
  "release_loop rpc [] last_err = Inl last_err"
| "release_loop rpc (attempt # rest) last_err =
     (case rpc attempt of
        RpcDone \<Rightarrow> Inr ()
      | RpcRefused e \<Rightarrow> Inl (unwrap_or ''release failed'' e)
      | RpcFailed e \<Rightarrow> release_loop rpc rest e)"

definition release_with_retry :: "(nat \<Rightarrow> rpc_reply) \<Rightarrow> string + unit" where
  "release_with_retry rpc = release_loop rpc [0..<RELEASE_MAX_ATTEMPTS] []"

text \<open>A clock that the sleeps between the attempts advance.\<close>

definition sleeps :: "(nat \<Rightarrow> nat) \<Rightarrow> bool" where
  "sleeps clock \<longleftrightarrow> (\<forall>n. clock n + backoff (Suc n) \<le> clock (Suc n))"

lemma clock_advances: "sleeps clock \<Longrightarrow> clock n + 100 * d \<le> clock (n + d)"
proof (induction d)
  case (Suc d)
  have "clock (n + d) + backoff (Suc (n + d)) \<le> clock (n + Suc d)" using Suc.prems by (simp add: sleeps_def)
  moreover have "100 \<le> backoff (Suc (n + d))" by (simp add: backoff_def)
  ultimately show ?case using Suc by simp
qed simp

lemma acquire_loop_outcome:
  assumes "sleeps clock"
  shows "deadline \<le> clock n + 100 * fuel \<Longrightarrow>
    (\<exists>a. acquire_loop rpc clock deadline (Suc fuel) n err names = Some (Inr a) \<and> n \<le> a \<and> rpc a = Inr True \<and> clock a < deadline) \<or>
    (\<exists>e. acquire_loop rpc clock deadline (Suc fuel) n err names = Some (Inl e) \<and> (\<forall>a\<ge>n. clock a < deadline \<longrightarrow> rpc a \<noteq> Inr True))"
proof (induction fuel arbitrary: n err)
  case 0
  have "clock n \<le> clock a" if "n \<le> a" for a using clock_advances [OF assms, of n "a - n"] that by simp
  then show ?case using 0 by fastforce
next
  case (Suc fuel)
  have mono: "clock n \<le> clock a" if "n \<le> a" for a using clock_advances [OF assms, of n "a - n"] that by simp
  have "deadline \<le> clock (Suc n) + 100 * fuel" using Suc.prems clock_advances [OF assms, of n 1] by simp
  note IH = Suc.IH [OF this]
  have split: "(\<forall>a\<ge>n. P a) \<longleftrightarrow> P n \<and> (\<forall>a\<ge>Suc n. P a)" for P by (metis Suc_leD le_antisym not_less_eq_eq order_refl)
  show ?case
  proof (cases "clock n < deadline")
    case False
    then show ?thesis using mono by (force intro: exI)
  next
    case True
    show ?thesis
    proof (cases "rpc n")
      case (Inl e)
      then show ?thesis using True IH [of "Some e"] by (subst (1 2) acquire_loop.simps(2)) (auto simp: split simp del: acquire_loop.simps)
    next
      case (Inr b)
      then show ?thesis using True IH [of None]
        by (cases b; subst (1 2) acquire_loop.simps(2)) (auto simp: split simp del: acquire_loop.simps)
    qed
  qed
qed

text \<open>
  C17: acquiring a distributed lock ends once the local lock of the process is obtained. As the sleeps
  between the attempts advance the clock, the loop then returns after at most \<open>timeout div 100 + 2\<close>
  attempts; it returns a lock exactly when the service grants some attempt that starts before the
  deadline, which is \<open>timeout\<close> after the local lock was obtained. The wait for the local lock itself is not
  bounded by the timeout: when its holder never gives it up, the call does not return.
\<close>

theorem lock_acquire_terminates:
  assumes "sleeps clock" "timeout div 100 + 2 \<le> fuel"
  shows "case local_ready (local_lock_key names) of
      None \<Rightarrow> lock_acquire local_ready rpc clock timeout fuel names = None
    | Some ready \<Rightarrow> ready \<le> clock 0 \<longrightarrow>
        (\<exists>r. lock_acquire local_ready rpc clock timeout fuel names = Some r \<and>
           (is_ok r \<longleftrightarrow> (\<exists>a. clock a < ready + timeout \<and> rpc a = Inr True)))"
proof (cases "local_ready (local_lock_key names)")
  case (Some ready)
  have "\<exists>r. lock_acquire local_ready rpc clock timeout fuel names = Some r \<and>
      (is_ok r \<longleftrightarrow> (\<exists>a. clock a < ready + timeout \<and> rpc a = Inr True))" if ready: "ready \<le> clock 0"
  proof -
    obtain f where f: "fuel = Suc f" "timeout div 100 + 1 \<le> f" using assms(2) by (cases fuel) auto
    have "timeout \<le> 100 * (timeout div 100 + 1)" by simp
    also have "\<dots> \<le> 100 * f" using f(2) by simp
    finally have "ready + timeout \<le> clock 0 + 100 * f" using ready by simp
    from acquire_loop_outcome [OF assms(1) this, of rpc None names] show ?thesis
      unfolding lock_acquire_def f(1) Some by (auto simp del: acquire_loop.simps)
  qed
  then show ?thesis by (simp add: Some)
qed (simp add: lock_acquire_def)

text \<open>
  Releasing takes at most three attempts: it succeeds when an attempt is confirmed and all before it were
  not answered, and a refusal ends it at once.
\<close>

lemma release_with_retry_ok:
  "is_ok (release_with_retry rpc) \<longleftrightarrow> (\<exists>a<3. rpc a = RpcDone \<and> (\<forall>b<a. \<exists>e. rpc b = RpcFailed e))"
proof -
  have "[0..<RELEASE_MAX_ATTEMPTS] = [0, 1, 2]" by (simp add: RELEASE_MAX_ATTEMPTS_def upt_rec)
  moreover have "(\<exists>a<3. P a) \<longleftrightarrow> P 0 \<or> P 1 \<or> P 2" "(\<forall>b<1. P b) \<longleftrightarrow> P 0" "(\<forall>b<2. P b) \<longleftrightarrow> P 0 \<and> P 1" for P :: "nat \<Rightarrow> bool"
    by (auto simp: numeral_3_eq_3 numeral_2_eq_2 less_Suc_eq)
  ultimately show ?thesis unfolding release_with_retry_def
    by (cases "rpc 0"; cases "rpc 1"; cases "rpc 2") auto
qed

section \<open>Runs\<close>

definition example_locked :: lock_table where
  "example_locked =
     \<lparr>lt_map = [(''doc-c-a'', 0)], lt_next = 1,
      lt_tasks = [(0, \<lparr>tk_todo = [], tk_waiting = None, tk_guards = [(''doc-c-a'', 0)]\<rparr>)]\<rparr>"

lemma example_locked_reachable: "reachable (\<lambda>s. s) example_locked"
proof -
  let ?t = "begin_task (\<lambda>s. s) ''c'' [example_document ''a'' 1]"
  have t: "?t = \<lparr>tk_todo = [''doc-c-a''], tk_waiting = None, tk_guards = []\<rparr>"
    by (simp add: begin_task_def lock_ids_def example_document_def doc_lock_name_def sort_by_def)
  have 1: "reachable (\<lambda>s. s) (set_task 0 ?t locks_new)"
    by (rule reachable.other [OF reachable.init other_step.start]) (simp add: locks_new_def)
  have 2: "work_step (set_task 0 ?t locks_new) (set_task 0 (?t\<lparr>tk_todo := [], tk_waiting := Some (''doc-c-a'', 0)\<rparr>)
      (set_task 0 ?t locks_new\<lparr>lt_map := [(''doc-c-a'', 0)], lt_next := 1\<rparr>))" (is "work_step _ ?s")
    by (rule work_step.enter) (simp_all add: t set_task_def locks_new_def lock_entry_def)
  have "work_step ?s (set_task 0 (?t\<lparr>tk_todo := [], tk_waiting := None, tk_guards := [] @ [(''doc-c-a'', 0)]\<rparr>) ?s)"
    using work_step.acquire [of ?s 0 "?t\<lparr>tk_todo := [], tk_waiting := Some (''doc-c-a'', 0)\<rparr>" "''doc-c-a''" 0]
    by (simp add: t set_task_def locks_new_def mutex_free_def)
  from reachable.work [OF reachable.work [OF 1 2] this] show ?thesis
    by (simp add: t set_task_def locks_new_def example_locked_def)
qed

theorem document_locks_exclude_witness:
  "map_of (lt_map example_locked) ''doc-c-a'' = Some 0"
  using document_locks_exclude [OF example_locked_reachable, of 0 "\<lparr>tk_todo = [], tk_waiting = None, tk_guards = [(''doc-c-a'', 0)]\<rparr>" 0
      "\<lparr>tk_todo = [], tk_waiting = None, tk_guards = [(''doc-c-a'', 0)]\<rparr>" "''doc-c-a''" 0 0]
  by (simp add: example_locked_def)

theorem document_locks_make_progress_witness: "\<exists>s'. work_step example_locked s'"
  using document_locks_make_progress [OF example_locked_reachable] by (simp add: example_locked_def)

theorem lock_acquire_terminates_witness:
  "\<exists>r. lock_acquire (\<lambda>_. Some 7) (\<lambda>a. Inr (a = 2)) (\<lambda>n. 10 + 1000 * n) 5000 52 [''x''] = Some r \<and> is_ok r"
proof -
  have "sleeps (\<lambda>n. 10 + 1000 * n)" by (simp add: sleeps_def backoff_def)
  from lock_acquire_terminates [OF this, where timeout = 5000 and fuel = 52 and local_ready = "\<lambda>_. Some 7" and names = "[''x'']"
      and rpc = "\<lambda>a. Inr (a = 2)"] show ?thesis by auto
qed

end
