(* ===== verification/Validation.thy ===== *)
theory Validation
  imports Vectorizer Filter_Parser Search
begin

text \<open>
  Validation of incoming requests, \<open>src/src/validation.rs\<close>: documents and their vectors, bulk uploads, collection
  configurations and search queries, with the coercions that run before or after. Each function is the source's
  sequence of checks, the first that fails giving the message. Which strings are dates is an argument.
\<close>

section \<open>Errors\<close>

text \<open>
  The message of a \<open>ValidationError\<close>; the one for an unknown fusion mode, which prints the string as the
  program text would write it, and the one for a document of a bulk upload keep their parts.
\<close>

datatype validation_error =
    ValidationError string
  | UnknownFusionMode string
  | InDocument nat validation_error

type_synonym vresult = "validation_error + unit"

definition reject_if :: "bool \<Rightarrow> string \<Rightarrow> vresult" where
  "reject_if b msg = (if b then Inl (ValidationError msg) else Inr ())"

definition in_double_quotes :: "string \<Rightarrow> string" where
  "in_double_quotes s = [CHR 0x22] @ s @ [CHR 0x22]"

definition debug_strs :: "string list \<Rightarrow> string" where
  "debug_strs xs = ''['' @ joined '', '' (map in_double_quotes xs) @ '']''"

definition vec_field :: "string \<Rightarrow> document_field \<Rightarrow> string" where
  "vec_field name fld = ''Vector '' @ quoted name @ '' field '' @ quoted (document_field_str fld)"

section \<open>Names\<close>

definition RE_ALPHANUMERIC :: "string \<Rightarrow> bool" where
  "RE_ALPHANUMERIC s \<longleftrightarrow> meta_key_matches s"

definition RE_LANGUAGE_CODE :: "string \<Rightarrow> bool" where
  "RE_LANGUAGE_CODE s \<longleftrightarrow> length s = 2 \<and> list_all is_alpha s"

definition validate_collection_name :: "string \<Rightarrow> vresult" where
  "validate_collection_name name =
     (if name = [] then Inl (ValidationError ''ensure this value has at least 1 characters'')
      else if MAX_COLLECTION_NAME_LENGTH < chars_count name
      then Inl (ValidationError (''ensure this value has at most '' @ nat_str MAX_COLLECTION_NAME_LENGTH @ '' characters''))
      else if \<not> RE_ALPHANUMERIC name
      then Inl (ValidationError (''string does not match regex '' @ in_double_quotes ''^[a-zA-Z0-9_-]+$''))
      else Inr ())"

definition validate_document_id :: "string \<Rightarrow> vresult" where
  "validate_document_id i =
     (if trim i = [] then Inl (ValidationError ''id: Document ID cannot be empty or whitespace'')
      else if \<not> RE_ALPHANUMERIC (trim i)
      then Inl (ValidationError ''id: Document ID can only contain letters, numbers, underscores, and hyphens'')
      else if MAX_DOCUMENT_ID_LENGTH < chars_count (trim i)
      then Inl (ValidationError (''id: ensure this value has at most '' @ nat_str MAX_DOCUMENT_ID_LENGTH @ '' characters''))
      else Inr ())"

definition validate_custom_query_vector_name_stripped :: "string \<Rightarrow> vresult" where
  "validate_custom_query_vector_name_stripped raw =
     (if trim raw = [] then Inl (ValidationError ''vector_name: Vector name cannot be empty or whitespace'')
      else if \<not> RE_ALPHANUMERIC (trim raw)
      then Inl (ValidationError ''vector_name: Vector name can only contain letters, numbers, underscores, and hyphens'')
      else if MAX_VECTOR_NAME_LENGTH < chars_count (trim raw)
      then Inl (ValidationError (''vector_name: Vector name cannot exceed '' @ nat_str MAX_VECTOR_NAME_LENGTH @ '' characters''))
      else Inr ())"

definition validate_vector_name :: "string \<Rightarrow> vresult" where
  "validate_vector_name name =
     (if trim name = [] then Inl (ValidationError ''name: Vector configuration name cannot be empty or whitespace'')
      else if \<not> RE_ALPHANUMERIC name
      then Inl (ValidationError ''name: Vector name can only contain letters, numbers, underscores, and hyphens'')
      else if MAX_VECTOR_NAME_LENGTH < chars_count name
      then Inl (ValidationError (''name: Vector name cannot exceed '' @ nat_str MAX_VECTOR_NAME_LENGTH @ '' characters''))
      else Inr ())"

definition validate_search_vector_name :: "string \<Rightarrow> vresult" where
  "validate_search_vector_name name =
     (if trim name = [] then Inl (ValidationError ''vector_options.vector_name: Vector name cannot be empty or whitespace'')
      else if \<not> RE_ALPHANUMERIC name
      then Inl (ValidationError
        ''vector_options.vector_name: Vector name can only contain letters, numbers, underscores, and hyphens'')
      else if MAX_VECTOR_NAME_LENGTH < chars_count name
      then Inl (ValidationError
        (''vector_options.vector_name: Vector name cannot exceed '' @ nat_str MAX_VECTOR_NAME_LENGTH @ '' characters''))
      else Inr ())"

section \<open>Documents\<close>

text \<open>The tags that are left after trimming, empty ones dropped.\<close>

definition trimmed_tags :: "string list \<Rightarrow> string list" where
  "trimmed_tags tags = filter (\<lambda>t. t \<noteq> []) (map trim tags)"

definition normalize_document_python :: "document \<Rightarrow> document" where
  "normalize_document_python doc =
     set_doc_custom_vectors
       (map_option (map (\<lambda>c. c\<lparr>cdv_vector_name := trim (cdv_vector_name c)\<rparr>)) (doc_custom_vectors doc))
       (set_doc_tags (map_option trimmed_tags (doc_tags doc)) (set_doc_id (trim (doc_id doc)) doc))"

fun check_tags :: "string set \<Rightarrow> string list \<Rightarrow> vresult" where
  "check_tags seen [] = Inr ()"
| "check_tags seen (tag # tags) =
     (let t = trim tag in
      if t = [] then check_tags seen tags
      else if CHR 0x7C \<in> set t
      then Inl (ValidationError (''tags: Tag '' @ quoted t @ '' cannot contain pipe characters (|)''))
      else if MAX_DOCUMENT_TAG_LENGTH < chars_count t
      then Inl (ValidationError (''tags: Tag '' @ quoted t @ '' exceeds '' @ nat_str MAX_DOCUMENT_TAG_LENGTH @ '' character limit''))
      else if t \<in> seen then Inl (ValidationError ''tags: Tags must not contain duplicates'')
      else check_tags (insert t seen) tags)"

definition validate_tags :: "string list \<Rightarrow> vresult" where
  "validate_tags tags =
     (if MAX_DOCUMENT_TAGS_COUNT < length tags
      then Inl (ValidationError (''tags: ensure this value has at most '' @ nat_str MAX_DOCUMENT_TAGS_COUNT @ '' items''))
      else check_tags {} tags)"

definition validate_length_opt :: "string \<Rightarrow> nat \<Rightarrow> string option \<Rightarrow> vresult" where
  "validate_length_opt what bound s =
     (case s of
        None \<Rightarrow> Inr ()
      | Some x \<Rightarrow>
          reject_if (bound < chars_count x) (what @ '': ensure this value has at most '' @ nat_str bound @ '' characters''))"

definition validate_document_name_opt :: "string option \<Rightarrow> vresult" where
  "validate_document_name_opt name = validate_length_opt ''name'' MAX_DOCUMENT_NAME_LENGTH name"

definition validate_document_description_opt :: "string option \<Rightarrow> vresult" where
  "validate_document_description_opt desc = validate_length_opt ''description'' MAX_DOCUMENT_DESCRIPTION_LENGTH desc"

definition validate_document_content_opt :: "string option \<Rightarrow> vresult" where
  "validate_document_content_opt content = validate_length_opt ''content'' MAX_DOCUMENT_CONTENT_LENGTH content"

fun json_type_name :: "json \<Rightarrow> string" where
  "json_type_name Null = ''null''"
| "json_type_name (Bool _) = ''bool''"
| "json_type_name (Number n) = (if is_i64 (Number n) \<or> is_u64 (Number n) then ''int'' else ''float'')"
| "json_type_name (String _) = ''str''"
| "json_type_name (Array _) = ''list''"
| "json_type_name (Object _) = ''dict''"

definition meta_value_types :: "string list" where
  "meta_value_types = [''string'', ''integer'', ''float'', ''boolean'', ''datetime'', ''array'', ''object'']"

definition wrong_meta_type :: "string \<Rightarrow> string \<Rightarrow> string \<Rightarrow> json \<Rightarrow> vresult" where
  "wrong_meta_type key wanted type_str v =
     Inl (ValidationError (''metadata.'' @ key @ '': value must be '' @ wanted @ '' for type='' @ quoted type_str @ '', got '' @ json_type_name v))"

text \<open>After the first test the seven names are the only ones left: the last alternative is \<open>object\<close>.\<close>

definition validate_meta_value_type :: "(string \<Rightarrow> bool) \<Rightarrow> string \<Rightarrow> string \<Rightarrow> json \<Rightarrow> vresult" where
  "validate_meta_value_type valid_dt key type_str v =
     (if type_str \<notin> set meta_value_types
      then Inl (ValidationError (''metadata.'' @ key @ '': invalid type '' @ quoted type_str @ ''. Allowed types: '' @ debug_strs meta_value_types))
      else if type_str = ''string'' then
        (case as_str v of
           Some s \<Rightarrow>
             reject_if (MAX_METADATA_VALUE_LENGTH < chars_count s)
               (''metadata.'' @ key @ '': string value exceeds '' @ nat_str MAX_METADATA_VALUE_LENGTH @ '' character limit'')
         | None \<Rightarrow> wrong_meta_type key ''string'' type_str v)
      else if type_str = ''integer'' then
        (if is_i64 v \<or> is_u64 v then Inr () else wrong_meta_type key ''integer'' type_str v)
      else if type_str = ''float'' then (if is_number v then Inr () else wrong_meta_type key ''number'' type_str v)
      else if type_str = ''boolean'' then (if is_boolean v then Inr () else wrong_meta_type key ''boolean'' type_str v)
      else if type_str = ''datetime'' then
        (case as_str v of
           Some s \<Rightarrow>
             reject_if (\<not> valid_dt s)
               (''metadata.'' @ key @ '': value must be a valid ISO 8601 datetime string, got '' @ quoted s)
         | None \<Rightarrow> wrong_meta_type key ''string (ISO 8601)'' type_str v)
      else if type_str = ''array'' then (if is_array v then Inr () else wrong_meta_type key ''array'' type_str v)
      else (if is_object v \<or> is_null v then Inr () else wrong_meta_type key ''object or null'' type_str v))"

text \<open>
  One entry of the metadata. All the kinds of JSON values are accepted in their plain form; an object with exactly
  the members \<open>value\<close> and \<open>type\<close> has a declared type.
\<close>

definition validate_meta_value :: "(string \<Rightarrow> bool) \<Rightarrow> string \<Rightarrow> json \<Rightarrow> vresult" where
  "validate_meta_value valid_dt key v =
     (case v of
        Object m \<Rightarrow>
          (case (map_of m ''value'', map_of m ''type'') of
             (Some x, Some t) \<Rightarrow>
               if length m = 2 then
                 (case as_str t of
                    Some type_str \<Rightarrow> validate_meta_value_type valid_dt key type_str x
                  | None \<Rightarrow>
                      Inl (ValidationError (''metadata.'' @ key @ '': value is a dict but missing '' @ quoted ''value'' @ '' or '' @ quoted ''type'' @
                        '' fields. For datetime, use {'' @ in_double_quotes ''value'' @ '': '' @ in_double_quotes ''...'' @ '', '' @
                        in_double_quotes ''type'' @ '': '' @ in_double_quotes ''datetime'' @ ''}'')))
               else Inr ()
           | _ \<Rightarrow> Inr ())
      | String s \<Rightarrow>
          reject_if (MAX_METADATA_VALUE_LENGTH < chars_count s)
            (''metadata.'' @ key @ '': string value exceeds '' @ nat_str MAX_METADATA_VALUE_LENGTH @ '' character limit'')
      | _ \<Rightarrow> Inr ())"

definition validate_meta_entry :: "(string \<Rightarrow> bool) \<Rightarrow> string \<times> json \<Rightarrow> vresult" where
  "validate_meta_entry valid_dt kv =
     (let (key, v) = kv in
      if \<not> RE_ALPHANUMERIC key
      then Inl (ValidationError (''metadata.'' @ key @ '': key can only contain letters, numbers, underscores, and hyphens''))
      else if MAX_METADATA_KEY_LENGTH < chars_count key
      then Inl (ValidationError (''metadata.'' @ key @ '': key exceeds '' @ nat_str MAX_METADATA_KEY_LENGTH @ '' character limit''))
      else validate_meta_value valid_dt key v)"

definition validate_metadata :: "(string \<Rightarrow> bool) \<Rightarrow> (string \<times> json) list \<Rightarrow> vresult" where
  "validate_metadata valid_dt metadata = try_for_each (validate_meta_entry valid_dt) metadata"

definition check_sparse_item :: "json \<Rightarrow> vresult" where
  "check_sparse_item item =
     (case as_array item of
        Some [i, x] \<Rightarrow>
          reject_if (\<not> (is_i64 i \<or> is_u64 i) \<or> \<not> is_number x) ''Sparse vector tuples must be (int, float) pairs''
      | _ \<Rightarrow> Inl (ValidationError ''Sparse vector must contain (index, value) tuples''))"

definition validate_custom_vector_data_value :: "json \<Rightarrow> vresult" where
  "validate_custom_vector_data_value v =
     (case as_array v of
        None \<Rightarrow> Inl (ValidationError ''Vector data cannot be empty'')
      | Some [] \<Rightarrow> Inl (ValidationError ''Vector data cannot be empty'')
      | Some (first # rest) \<Rightarrow>
          if is_number first
          then try_for_each (\<lambda>x. reject_if (\<not> is_number x) ''Dense vector must contain only numbers'') (first # rest)
          else if is_array first then try_for_each check_sparse_item (first # rest)
          else Inl (ValidationError
            ''Vector must be either list of numbers (dense) or list of (index, value) tuples (sparse)''))"

definition validate_custom_document_vector :: "custom_document_vector \<Rightarrow> vresult" where
  "validate_custom_document_vector c =
     and_then (validate_custom_query_vector_name_stripped (cdv_vector_name c)) (\<lambda>_.
       validate_custom_vector_data_value (cdv_vector c))"

definition validate_document :: "(string \<Rightarrow> bool) \<Rightarrow> document \<Rightarrow> vresult" where
  "validate_document valid_dt doc =
     and_then (validate_document_id (doc_id doc)) (\<lambda>_.
     and_then (case doc_tags doc of None \<Rightarrow> Inr () | Some tags \<Rightarrow> validate_tags tags) (\<lambda>_.
     and_then (validate_document_name_opt (doc_name doc)) (\<lambda>_.
     and_then (validate_document_description_opt (doc_description doc)) (\<lambda>_.
     and_then (validate_document_content_opt (doc_content doc)) (\<lambda>_.
     and_then (case doc_metadata doc of None \<Rightarrow> Inr () | Some m \<Rightarrow> validate_metadata valid_dt m) (\<lambda>_.
     case doc_custom_vectors doc of None \<Rightarrow> Inr () | Some cv \<Rightarrow> try_for_each validate_custom_document_vector cv))))))"

fun validate_documents_from :: "(string \<Rightarrow> bool) \<Rightarrow> nat \<Rightarrow> document list \<Rightarrow> validation_error + document list" where
  "validate_documents_from valid_dt i [] = Inr []"
| "validate_documents_from valid_dt i (doc # docs) =
     (let d = normalize_document_python doc in
      and_then (map_err (InDocument i) (validate_document valid_dt d)) (\<lambda>_.
      and_then (validate_documents_from valid_dt (Suc i) docs) (\<lambda>ds. Inr (d # ds))))"

text \<open>The documents of an accepted request, coerced in place.\<close>

definition validate_bulk_upload :: "(string \<Rightarrow> bool) \<Rightarrow> document list \<Rightarrow> validation_error + document list" where
  "validate_bulk_upload valid_dt docs =
     (if MAX_BULK_UPLOAD < length docs
      then Inl (ValidationError (''documents: ensure this value has at most '' @ nat_str MAX_BULK_UPLOAD @ '' items''))
      else validate_documents_from valid_dt 0 docs)"


section \<open>Vectors that come with a document\<close>

definition validate_provided_vector_shape :: "vector_data \<Rightarrow> vector_config_internal \<Rightarrow> vresult" where
  "validate_provided_vector_shape vd config =
     (let label = vec_field (vd_vector_name vd) (vd_field vd) in
      if is_dense (vc_type config) then
        (case vd_dense_vector vd of
           None \<Rightarrow> Inl (ValidationError (label @ '' requires dense_vector''))
         | Some dense \<Rightarrow>
             if dense = [] then Inl (ValidationError (label @ '' requires dense_vector''))
             else (case vc_dimensions config of
                     None \<Rightarrow> Inr ()
                   | Some d \<Rightarrow>
                       reject_if (length dense \<noteq> d)
                         (label @ '' has '' @ nat_str (length dense) @ '' dimensions, expected '' @ nat_str d)))
      else
        (case (vd_sparse_indices vd, vd_sparse_values vd) of
           (Some indices, Some vals) \<Rightarrow>
             if length indices \<noteq> length vals
             then Inl (ValidationError (label @ '': sparse_indices and sparse_values length mismatch''))
             else reject_if (vc_top_k config < length indices)
                    (label @ '' has '' @ nat_str (length indices) @ '' entries, max allowed: '' @ nat_str (vc_top_k config))
         | _ \<Rightarrow> Inl (ValidationError (label @ '' requires sparse_indices and sparse_values''))))"

type_synonym slot = "string \<times> document_field"

fun expected_slots ::
    "vector_config_internal list \<Rightarrow> (slot \<times> vector_config_internal) list \<Rightarrow> validation_error + (slot \<times> vector_config_internal) list" where
  "expected_slots [] m = Inr m"
| "expected_slots (config # configs) m =
     (if is_custom_vectors (vc_type config) then expected_slots configs m
      else and_then (map_err ValidationError (vector_index_fields config)) (\<lambda>fs.
             expected_slots configs (fold (\<lambda>f. AList.update (vc_name config, f) config) fs m)))"

fun provided_vectors ::
    "(slot \<times> vector_config_internal) list \<Rightarrow> vector_data list \<Rightarrow> (slot \<times> vector_data) list \<Rightarrow> validation_error + (slot \<times> vector_data) list" where
  "provided_vectors expected [] m = Inr m"
| "provided_vectors expected (vd # vds) m =
     (let key = (vd_vector_name vd, vd_field vd); label = vec_field (vd_vector_name vd) (vd_field vd) in
      if is_custom_vectors (vd_vector_type vd)
      then Inl (ValidationError (label @ '' has type '' @ quoted (vector_type_str (vd_vector_type vd)) @
             ''; custom vector types must use custom_vectors''))
      else if map_of m key \<noteq> None
      then Inl (ValidationError (''Duplicate vector entry for '' @ quoted (vd_vector_name vd) @ '' field '' @
             quoted (document_field_str (vd_field vd))))
      else (case map_of expected key of
              None \<Rightarrow>
                Inl (ValidationError (''Unexpected vector '' @ quoted (vd_vector_name vd) @ '' field '' @
                  quoted (document_field_str (vd_field vd)) @ '' (not a non-custom collection vector slot)''))
            | Some config \<Rightarrow>
                if vd_vector_type vd \<noteq> vc_type config
                then Inl (ValidationError (label @ '' has type '' @ quoted (vector_type_str (vd_vector_type vd)) @ '', expected '' @
                       quoted (vector_type_str (vc_type config))))
                else and_then (validate_provided_vector_shape vd config) (\<lambda>_. provided_vectors expected vds ((key, vd) # m))))"

definition slot_labels :: "slot list \<Rightarrow> string" where
  "slot_labels ks = joined '', '' (sort_by str_cmp (map (\<lambda>(n, f). n @ ''/'' @ document_field_str f) ks))"

definition validate_document_vectors :: "collection_config_internal \<Rightarrow> document \<Rightarrow> vresult" where
  "validate_document_vectors config doc =
     (case doc_vectors doc of
        None \<Rightarrow> Inr ()
      | Some vectors \<Rightarrow>
          if vectors = []
          then Inl (ValidationError ''vectors must be omitted or contain the complete non-custom vector set'')
          else
            and_then (expected_slots (cci_vectors config) []) (\<lambda>expected.
            and_then (provided_vectors expected vectors []) (\<lambda>provided.
            let missing = filter (\<lambda>k. map_of provided k = None) (map fst expected) in
            if missing \<noteq> [] then Inl (ValidationError (''Incomplete vectors: missing non-custom slots: '' @ slot_labels missing))
            else (case doc_custom_vectors doc of
                    None \<Rightarrow> Inr ()
                  | Some cvs \<Rightarrow>
                      let custom_keys = map (\<lambda>cv. (cdv_vector_name cv, cdv_field cv)) cvs;
                          overlap = filter (\<lambda>k. k \<in> set custom_keys) (map fst provided)
                      in reject_if (overlap \<noteq> []) (''Duplicate vector slots in vectors and custom_vectors: '' @ slot_labels overlap)))))"

section \<open>Collection configurations\<close>

definition validate_model_name_length :: "string \<Rightarrow> string option \<Rightarrow> vresult" where
  "validate_model_name_length what s = validate_length_opt what MAX_MODEL_NAME_LENGTH s"

definition index_value_types :: "string list" where
  "index_value_types = [''string'', ''integer'', ''float'', ''boolean'', ''datetime'']"

definition validate_metadata_index :: "metadata_index \<Rightarrow> vresult" where
  "validate_metadata_index mi =
     (if \<not> RE_ALPHANUMERIC (mi_key mi)
      then Inl (ValidationError (''metadata_indexes.'' @ mi_key mi @ '': key can only contain letters, numbers, underscores, and hyphens''))
      else if MAX_METADATA_KEY_LENGTH < chars_count (mi_key mi)
      then Inl (ValidationError (''metadata_indexes.'' @ mi_key mi @ '': key cannot exceed '' @ nat_str MAX_METADATA_KEY_LENGTH @ '' characters''))
      else if mi_value_type mi \<notin> set index_value_types
      then Inl (ValidationError (''metadata_indexes.'' @ mi_key mi @ '': invalid type '' @ quoted (mi_value_type mi) @
             ''. Allowed types: '' @ debug_strs index_value_types))
      else Inr ())"

definition validate_top_k :: "nat \<Rightarrow> vresult" where
  "validate_top_k k =
     (if k = 0 then Inl (ValidationError ''top_k must be positive (greater than 0)'')
      else reject_if (MAX_TOP_K_VALUE < k) (''top_k cannot exceed '' @ nat_str MAX_TOP_K_VALUE))"

definition validate_wmtr_word_ratio :: "nat \<Rightarrow> vresult" where
  "validate_wmtr_word_ratio w = reject_if (100 < w) ''ensure this value is less than or equal to 100''"

definition validate_language_confidence :: "fp \<Rightarrow> vresult" where
  "validate_language_confidence c =
     reject_if (\<not> (fp_le (f64 0) c \<and> fp_le c (f64 1))) ''language_confidence must be between 0.0 and 1.0''"

definition validate_language_code :: "string option \<Rightarrow> vresult" where
  "validate_language_code code =
     (case code of
        None \<Rightarrow> Inr ()
      | Some c \<Rightarrow> reject_if (\<not> RE_LANGUAGE_CODE c) ''Language code must be a valid ISO 639-1 code (2 letters)'')"

definition validate_dense_distance :: "dense_distance \<Rightarrow> vector_type \<Rightarrow> vresult" where
  "validate_dense_distance distance vtype =
     (let allowed = [''cosine'', ''dot'', ''euclid''] in
      if dense_distance_str distance \<notin> set allowed then Inl (ValidationError (''dense_distance must be one of '' @ debug_strs allowed))
      else reject_if (distance \<noteq> Cosine \<and> \<not> is_dense vtype)
             (''dense_distance can only be specified for dense vectors. Current type: '' @ vector_type_str vtype))"

definition validate_normalization :: "bool option \<Rightarrow> vector_type \<Rightarrow> vresult" where
  "validate_normalization nrm vtype =
     reject_if (nrm = Some True \<and> \<not> is_dense vtype)
       (''Normalization is not supported for sparse vector type '' @ quoted (vector_type_str vtype) @
        ''. Only dense vectors support normalization.'')"

definition validate_model_requirements :: "vector_config \<Rightarrow> vresult" where
  "validate_model_requirements v =
     (if is_transformer_based (vc_type v) \<and> vc_model v = None
      then Inl (ValidationError (''Model is required for '' @ vector_type_str (vc_type v) @ '' vector type''))
      else reject_if (vc_model v \<noteq> None \<and> is_custom_tokenization (vc_type v))
             (''Model should not be specified for '' @ vector_type_str (vc_type v) @ '' vector type''))"

definition validate_custom_vector_config :: "vector_config \<Rightarrow> vresult" where
  "validate_custom_vector_config v =
     (if is_custom_vectors (vc_type v) \<and> vc_model v \<noteq> None
      then Inl (ValidationError (''Model should not be specified for '' @ vector_type_str (vc_type v) @ '' vector type''))
      else if is_custom_vectors (vc_type v) \<and> vc_type v = DenseCustom \<and> vc_dimensions v = None
      then Inl (ValidationError (''Dimensions are required for '' @ vector_type_str (vc_type v) @ '' vector type''))
      else (case vc_dimensions v of
              None \<Rightarrow> Inr ()
            | Some dims \<Rightarrow>
                if dims = 0 then Inl (ValidationError ''Dimensions must be positive (greater than 0)'')
                else reject_if (MAX_VECTOR_DIMENSIONS < dims) (''Dimensions cannot exceed '' @ nat_str MAX_VECTOR_DIMENSIONS)))"

definition validate_language_config :: "vector_config \<Rightarrow> vresult" where
  "validate_language_config v =
     reject_if (vc_type v \<in> {FullText, Whitespace, Wmtr} \<and> vc_language_default_code v = [])
       (''language_default_code is required for '' @ vector_type_str (vc_type v) @ '' vector type'')"

definition validate_templates_and_index_fields :: "vector_config \<Rightarrow> vresult" where
  "validate_templates_and_index_fields v =
     (if vc_doc_template v \<noteq> None \<or> vc_query_template v \<noteq> None then
        (case (vc_doc_template v, vc_query_template v) of
           (Some dt, Some qt) \<Rightarrow>
             if vc_index_fields v \<noteq> None
             then Inl (ValidationError ''index_fields cannot be set when doc_template and query_template are set'')
             else if is_custom_vectors (vc_type v) \<or> vc_type v = Noop
             then Inl (ValidationError (''doc_template/query_template are not supported for vector type '' @ quoted (vector_type_str (vc_type v))))
             else and_then (map_err ValidationError (validate_doc_template dt)) (\<lambda>_.
                    map_err ValidationError (validate_query_template qt))
         | _ \<Rightarrow> Inl (ValidationError ''doc_template and query_template must both be specified together''))
      else (case vc_index_fields v of
              None \<Rightarrow> Inr ()
            | Some fs \<Rightarrow>
                if fs = [] then Inl (ValidationError ''index_fields cannot be empty'')
                else try_for_each (\<lambda>f. reject_if (f \<notin> set indexable)
                       (''Index field must be one of '' @ debug_strs (map document_field_str indexable))) fs))"

definition validate_vector_config :: "vector_config \<Rightarrow> vresult" where
  "validate_vector_config v =
     and_then (validate_vector_name (vc_name v)) (\<lambda>_.
     and_then (validate_top_k (vc_top_k v)) (\<lambda>_.
     and_then (validate_wmtr_word_ratio (vc_wmtr_word_ratio v)) (\<lambda>_.
     and_then (validate_language_confidence (vc_language_confidence v)) (\<lambda>_.
     and_then (validate_language_code (Some (vc_language_default_code v))) (\<lambda>_.
     and_then (validate_dense_distance (vc_dense_distance v) (vc_type v)) (\<lambda>_.
     and_then (validate_normalization (vc_normalization v) (vc_type v)) (\<lambda>_.
     and_then (validate_model_requirements v) (\<lambda>_.
     and_then (validate_custom_vector_config v) (\<lambda>_.
     and_then (validate_language_config v) (\<lambda>_.
     and_then (validate_templates_and_index_fields v) (\<lambda>_.
     and_then (validate_model_name_length ''model'' (vc_model v)) (\<lambda>_.
     and_then (validate_model_name_length ''revision'' (vc_revision v)) (\<lambda>_.
     and_then (validate_model_name_length ''query_model'' (vc_query_model v)) (\<lambda>_.
       validate_model_name_length ''query_revision'' (vc_query_revision v)))))))))))))))"

fun duplicate_names :: "string set \<Rightarrow> string list \<Rightarrow> string list" where
  "duplicate_names seen [] = []"
| "duplicate_names seen (n # ns) = (if n \<in> seen then n # duplicate_names seen ns else duplicate_names (insert n seen) ns)"

definition validate_collection_config :: "collection_config \<Rightarrow> vresult" where
  "validate_collection_config config =
     (let duplicates = duplicate_names {} (map vc_name (cc_vectors config)) in
      if duplicates \<noteq> []
      then Inl (ValidationError (''Duplicate vector names found: '' @ joined '', '' duplicates @
             ''. Each vector name must be unique within a collection.''))
      else and_then (try_for_each validate_vector_config (cc_vectors config)) (\<lambda>_.
             case cc_metadata_indexes config of None \<Rightarrow> Inr () | Some indexes \<Rightarrow> try_for_each validate_metadata_index indexes))"

section \<open>Search queries\<close>

fun dedupe_exclude :: "search_exclude_field set \<Rightarrow> search_exclude_field list \<Rightarrow> search_exclude_field list" where
  "dedupe_exclude seen [] = []"
| "dedupe_exclude seen (f # fs) = (if f \<in> seen then dedupe_exclude seen fs else f # dedupe_exclude (insert f seen) fs)"

definition normalize_search_query_python :: "search_query \<Rightarrow> search_query" where
  "normalize_search_query_python q =
     q\<lparr>sq_settings := (sq_settings q)\<lparr>
         sqs_vector_options := map (\<lambda>w. w\<lparr>vso_vector_name := trim (vso_vector_name w)\<rparr>) (sqs_vector_options (sq_settings q)),
         sqs_custom_vectors := map_option (map (\<lambda>c. c\<lparr>cv_vector_name := trim (cv_vector_name c)\<rparr>)) (sqs_custom_vectors (sq_settings q)),
         sqs_exclude := map_option (dedupe_exclude {}) (sqs_exclude (sq_settings q))\<rparr>\<rparr>"

definition check_document_tag :: "string \<Rightarrow> vresult" where
  "check_document_tag tag =
     (let t = trim tag in
      if t = [] then Inl (ValidationError ''document_tags: Document tags cannot be empty or whitespace'')
      else if CHR 0x7C \<in> set t
      then Inl (ValidationError (''document_tags: Document tag '' @ quoted t @ '' cannot contain pipe characters (|)''))
      else reject_if (MAX_DOCUMENT_TAG_LENGTH < chars_count t)
             (''document_tags: Document tag '' @ quoted t @ '' exceeds '' @ nat_str MAX_DOCUMENT_TAG_LENGTH @ '' character limit''))"

definition validate_document_tags :: "string list option \<Rightarrow> vresult" where
  "validate_document_tags tags =
     (case tags of
        None \<Rightarrow> Inr ()
      | Some ts \<Rightarrow>
          if MAX_DOCUMENT_TAGS_COUNT < length ts
          then Inl (ValidationError (''document_tags: ensure this value has at most '' @ nat_str MAX_DOCUMENT_TAGS_COUNT @ '' items''))
          else try_for_each check_document_tag ts)"

definition validate_fusion_mode :: "string \<Rightarrow> vresult" where
  "validate_fusion_mode s = (if s = ''rrf'' \<or> s = ''linear'' then Inr () else Inl (UnknownFusionMode s))"

definition validate_facet_options :: "facet_options option \<Rightarrow> vresult" where
  "validate_facet_options opts =
     (case opts of
        None \<Rightarrow> Inr ()
      | Some fo \<Rightarrow>
          if fo_prefetch_multiplier fo < 1 \<or> MAX_FACET_PREFETCH_MULTIPLIER < fo_prefetch_multiplier fo
          then Inl (ValidationError (''facet_options.prefetch_multiplier: ensure this value is between 1 and '' @
                 nat_str MAX_FACET_PREFETCH_MULTIPLIER))
          else reject_if (fo_max_values fo < 1 \<or> MAX_FACET_MAX_VALUES < fo_max_values fo)
                 (''facet_options.max_values: ensure this value is between 1 and '' @ nat_str MAX_FACET_MAX_VALUES))"

definition validate_search_query :: "search_query \<Rightarrow> vresult" where
  "validate_search_query q =
     (let s = sq_settings q in
     and_then (reject_if (trim (sq_query q) = []) ''query: Query string cannot be empty or whitespace'') (\<lambda>_.
     and_then (reject_if (MAX_SEARCH_QUERY_LENGTH < chars_count (sq_query q))
        (''query: ensure this value has at most '' @ nat_str MAX_SEARCH_QUERY_LENGTH @ '' characters'')) (\<lambda>_.
     and_then (reject_if (sqs_limit s < 1) ''limit: ensure this value is greater than or equal to 1'') (\<lambda>_.
     and_then (reject_if (MAX_SEARCH_LIMIT < sqs_limit s)
        (''limit: ensure this value is less than or equal to '' @ nat_str MAX_SEARCH_LIMIT)) (\<lambda>_.
     and_then (validate_document_tags (sqs_document_tags s)) (\<lambda>_.
     and_then (try_for_each (\<lambda>w. validate_search_vector_name (vso_vector_name w)) (sqs_vector_options s)) (\<lambda>_.
     and_then (case sqs_custom_vectors s of
                 None \<Rightarrow> Inr ()
               | Some cvs \<Rightarrow>
                   try_for_each (\<lambda>c. and_then (validate_custom_query_vector_name_stripped (cv_vector_name c)) (\<lambda>_.
                     validate_custom_vector_data_value (cv_vector c))) cvs) (\<lambda>_.
     and_then (validate_fusion_mode (sqs_fusion_mode s)) (\<lambda>_.
     and_then (reject_if (sqs_group_max s < 1) ''group_max: ensure this value is greater than or equal to 1'') (\<lambda>_.
     and_then (reject_if (sqs_group_max_fetches s < 1) ''group_max_fetches: ensure this value is greater than or equal to 1'') (\<lambda>_.
       validate_facet_options (sqs_facet_options s))))))))))))"


section \<open>What is accepted\<close>

text \<open>
  The collection \<open>accepts_iff\<close> has for each check the predicate it decides, so that the theorems about whole
  requests are rewriting with it.
\<close>

named_theorems accepts_iff

definition name_ok :: "nat \<Rightarrow> string \<Rightarrow> bool" where
  "name_ok n s \<longleftrightarrow> s \<noteq> [] \<and> list_all meta_key_char s \<and> length s \<le> n"

definition fits :: "nat \<Rightarrow> string option \<Rightarrow> bool" where
  "fits n s = (case s of None \<Rightarrow> True | Some x \<Rightarrow> chars_count x \<le> n)"

definition tag_ok :: "string \<Rightarrow> bool" where
  "tag_ok t \<longleftrightarrow> t \<noteq> [] \<and> CHR 0x7C \<notin> set t \<and> chars_count t \<le> MAX_DOCUMENT_TAG_LENGTH"

definition typed_as :: "(string \<Rightarrow> bool) \<Rightarrow> string \<Rightarrow> json \<Rightarrow> bool" where
  "typed_as valid_dt t v \<longleftrightarrow>
     (case v of
        String s \<Rightarrow> t = ''string'' \<and> chars_count s \<le> MAX_METADATA_VALUE_LENGTH \<or> t = ''datetime'' \<and> valid_dt s
      | Number (Float _) \<Rightarrow> t = ''float''
      | Number _ \<Rightarrow> t = ''integer'' \<or> t = ''float''
      | Bool _ \<Rightarrow> t = ''boolean''
      | Array _ \<Rightarrow> t = ''array''
      | Object _ \<Rightarrow> t = ''object''
      | Null \<Rightarrow> t = ''object'')"

text \<open>A declared value is of its declared type; a plain string is not too long.\<close>

definition meta_value_ok :: "(string \<Rightarrow> bool) \<Rightarrow> json \<Rightarrow> bool" where
  "meta_value_ok valid_dt v =
     (case v of
        Object m \<Rightarrow>
          (case (map_of m ''value'', map_of m ''type'') of
             (Some x, Some t) \<Rightarrow> length m = 2 \<longrightarrow> (\<exists>ty. t = String ty \<and> typed_as valid_dt ty x)
           | _ \<Rightarrow> True)
      | String s \<Rightarrow> chars_count s \<le> MAX_METADATA_VALUE_LENGTH
      | _ \<Rightarrow> True)"

definition vector_value_ok :: "json \<Rightarrow> bool" where
  "vector_value_ok v \<longleftrightarrow>
     (\<exists>xs. v = Array xs \<and> xs \<noteq> [] \<and>
        ((\<forall>x\<in>set xs. is_number x) \<or> (\<forall>x\<in>set xs. \<exists>i y. x = Array [i, y] \<and> (is_i64 i \<or> is_u64 i) \<and> is_number y)))"

definition document_ok :: "(string \<Rightarrow> bool) \<Rightarrow> document \<Rightarrow> bool" where
  "document_ok valid_dt d \<longleftrightarrow>
     name_ok MAX_DOCUMENT_ID_LENGTH (doc_id d) \<and>
     (case doc_tags d of None \<Rightarrow> True | Some ts \<Rightarrow> length ts \<le> MAX_DOCUMENT_TAGS_COUNT \<and> distinct ts \<and> list_all tag_ok ts) \<and>
     fits MAX_DOCUMENT_NAME_LENGTH (doc_name d) \<and> fits MAX_DOCUMENT_DESCRIPTION_LENGTH (doc_description d) \<and>
     fits MAX_DOCUMENT_CONTENT_LENGTH (doc_content d) \<and>
     (case doc_metadata d of
        None \<Rightarrow> True
      | Some m \<Rightarrow> list_all (\<lambda>(k, v). name_ok MAX_METADATA_KEY_LENGTH k \<and> meta_value_ok valid_dt v) m) \<and>
     (case doc_custom_vectors d of
        None \<Rightarrow> True
      | Some cvs \<Rightarrow> list_all (\<lambda>c. name_ok MAX_VECTOR_NAME_LENGTH (cdv_vector_name c) \<and> vector_value_ok (cdv_vector c)) cvs)"

lemma name_chars_count: "list_all meta_key_char s \<Longrightarrow> chars_count s = length s"
proof -
  assume s: "list_all meta_key_char s"
  have "\<not> is_continuation c" if "c \<in> set s" for c
    using s that by (auto simp: list_all_iff meta_key_char_def is_continuation_def byte_of_def Let_def)
  then show ?thesis by (auto simp: chars_count_def filter_id_conv)
qed

lemma meta_key_char_plain: "meta_key_char c \<Longrightarrow> plain c"
  by (auto simp: meta_key_char_def plain_def byte_of_def Let_def)

lemma as_str_iff: "as_str v = Some s \<longleftrightarrow> v = String s"
  by (cases v) auto

lemma name_trim: "list_all meta_key_char s \<Longrightarrow> trim s = s"
  by (rule trim_plain, cases "s = []") (simp_all add: list_all_iff meta_key_char_plain)

lemma reject_if_accepts [accepts_iff]: "reject_if b msg = Inr u \<longleftrightarrow> \<not> b"
  by (simp add: reject_if_def)

lemma validate_length_opt_accepts [accepts_iff]: "validate_length_opt what n s = Inr u \<longleftrightarrow> fits n s"
  by (simp add: validate_length_opt_def fits_def reject_if_def not_less split: option.splits)

lemma RE_ALPHANUMERIC_iff: "RE_ALPHANUMERIC s \<longleftrightarrow> s \<noteq> [] \<and> list_all meta_key_char s"
  by (simp add: RE_ALPHANUMERIC_def meta_key_matches_def)

lemma names_accept [accepts_iff]:
  "validate_collection_name s = Inr u \<longleftrightarrow> name_ok MAX_COLLECTION_NAME_LENGTH s"
  "validate_document_id s = Inr u \<longleftrightarrow> name_ok MAX_DOCUMENT_ID_LENGTH (trim s)"
  "validate_custom_query_vector_name_stripped s = Inr u \<longleftrightarrow> name_ok MAX_VECTOR_NAME_LENGTH (trim s)"
  "validate_vector_name s = Inr u \<longleftrightarrow> name_ok MAX_VECTOR_NAME_LENGTH s"
  "validate_search_vector_name s = Inr u \<longleftrightarrow> name_ok MAX_VECTOR_NAME_LENGTH s"
  unfolding validate_collection_name_def validate_document_id_def validate_custom_query_vector_name_stripped_def
    validate_vector_name_def validate_search_vector_name_def name_ok_def
  by (auto simp: RE_ALPHANUMERIC_iff name_chars_count name_trim)

lemma check_tags_accepts:
  "check_tags seen tags = Inr () \<longleftrightarrow>
     distinct (trimmed_tags tags) \<and> set (trimmed_tags tags) \<inter> seen = {} \<and> list_all tag_ok (trimmed_tags tags)"
proof (induction tags arbitrary: seen)
  case (Cons t ts)
  show ?case
    by (cases "trim t = []") (auto simp: Cons trimmed_tags_def tag_ok_def Let_def)
qed (simp add: trimmed_tags_def)

lemma validate_tags_accepts [accepts_iff]:
  "validate_tags tags = Inr u \<longleftrightarrow>
     length tags \<le> MAX_DOCUMENT_TAGS_COUNT \<and> distinct (trimmed_tags tags) \<and> list_all tag_ok (trimmed_tags tags)"
  using check_tags_accepts [of "{}" tags] by (auto simp: validate_tags_def)

lemma wrong_meta_type_accepts [accepts_iff]: "wrong_meta_type k w t v = Inr u \<longleftrightarrow> False"
  by (simp add: wrong_meta_type_def)

lemma validate_meta_value_type_accepts [accepts_iff]:
  "validate_meta_value_type valid_dt k t v = Inr u \<longleftrightarrow> typed_as valid_dt t v"
  by (cases v) (auto simp: validate_meta_value_type_def typed_as_def meta_value_types_def accepts_iff not_less
      split: if_splits number.splits)

lemma validate_meta_value_accepts [accepts_iff]: "validate_meta_value valid_dt k v = Inr u \<longleftrightarrow> meta_value_ok valid_dt v"
  by (cases v) (auto simp: validate_meta_value_def meta_value_ok_def accepts_iff as_str_iff not_less split: option.splits)

lemma validate_meta_entry_accepts [accepts_iff]:
  "validate_meta_entry valid_dt (k, v) = Inr u \<longleftrightarrow> name_ok MAX_METADATA_KEY_LENGTH k \<and> meta_value_ok valid_dt v"
  by (auto simp: validate_meta_entry_def RE_ALPHANUMERIC_iff name_ok_def name_chars_count accepts_iff)

lemma check_sparse_item_accepts [accepts_iff]:
  "check_sparse_item x = Inr u \<longleftrightarrow> (\<exists>i y. x = Array [i, y] \<and> (is_i64 i \<or> is_u64 i) \<and> is_number y)"
  by (cases x) (auto simp: check_sparse_item_def reject_if_def split: list.splits)

lemma vector_value_accepts [accepts_iff]: "validate_custom_vector_data_value v = Inr u \<longleftrightarrow> vector_value_ok v"
proof (cases v)
  case (Array xs)
  show ?thesis
  proof (cases xs)
    case (Cons x rest)
    then show ?thesis
      by (cases x) (auto simp: Array validate_custom_vector_data_value_def vector_value_ok_def accepts_iff)
  qed (simp add: Array validate_custom_vector_data_value_def vector_value_ok_def)
qed (simp_all add: validate_custom_vector_data_value_def vector_value_ok_def)

lemma normalized_fields [simp]:
  "doc_id (normalize_document_python d) = trim (doc_id d)"
  "doc_tags (normalize_document_python d) = map_option trimmed_tags (doc_tags d)"
  "doc_custom_vectors (normalize_document_python d) =
     map_option (map (\<lambda>c. c\<lparr>cdv_vector_name := trim (cdv_vector_name c)\<rparr>)) (doc_custom_vectors d)"
  "doc_name (normalize_document_python d) = doc_name d" "doc_description (normalize_document_python d) = doc_description d"
  "doc_content (normalize_document_python d) = doc_content d" "doc_metadata (normalize_document_python d) = doc_metadata d"
  by (cases d; simp add: normalize_document_python_def)+

lemma trimmed_tags_idem [simp]: "trimmed_tags (trimmed_tags ts) = trimmed_tags ts"
  by (induction ts) (auto simp: trimmed_tags_def)

lemma validate_document_accepts:
  "validate_document valid_dt (normalize_document_python d) = Inr () \<longleftrightarrow> document_ok valid_dt (normalize_document_python d)"
  unfolding validate_document_def validate_document_name_opt_def validate_document_description_opt_def
    validate_document_content_opt_def validate_metadata_def validate_custom_document_vector_def document_ok_def
  by (auto simp: accepts_iff list_all_iff split: option.splits)

lemma validate_documents_from_accepts:
  "validate_documents_from valid_dt i docs = Inr ds \<longleftrightarrow>
     ds = map normalize_document_python docs \<and> list_all (document_ok valid_dt) ds"
proof (induction docs arbitrary: i ds)
  case (Cons d docs)
  have "map_err (InDocument i) r = Inr () \<longleftrightarrow> r = Inr ()" for r by (cases r) auto
  then show ?case
    using validate_document_accepts [of valid_dt d] by (auto simp: Cons Let_def)
qed auto

text \<open>
  C22: a bulk upload is accepted exactly when it has at most a hundred documents and each of them is, once trimmed,
  well formed, and then the trimmed documents are what goes on: identifiers, metadata keys and vector names have
  only letters, digits, underscores and hyphens and a hundred characters at most, tags are distinct, not empty, without
  pipes and at most fifty, the texts are within their limits, declared metadata values have their declared type, and
  custom vectors are lists of numbers or of pairs of an index and a number.
\<close>

theorem bulk_upload_accepts:
  "validate_bulk_upload valid_dt docs = Inr ds \<longleftrightarrow>
     length docs \<le> MAX_BULK_UPLOAD \<and> ds = map normalize_document_python docs \<and> list_all (document_ok valid_dt) ds"
  by (auto simp: validate_bulk_upload_def validate_documents_from_accepts)

subsection \<open>Vectors of a document\<close>

definition shape_ok :: "vector_data \<Rightarrow> vector_config_internal \<Rightarrow> bool" where
  "shape_ok vd c \<longleftrightarrow>
     (if is_dense (vc_type c)
      then \<exists>xs. vd_dense_vector vd = Some xs \<and> xs \<noteq> [] \<and> (\<forall>d. vc_dimensions c = Some d \<longrightarrow> length xs = d)
      else \<exists>is xs. vd_sparse_indices vd = Some is \<and> vd_sparse_values vd = Some xs \<and> length is = length xs \<and> length is \<le> vc_top_k c)"

lemma shape_accepts [accepts_iff]: "validate_provided_vector_shape vd c = Inr u \<longleftrightarrow> shape_ok vd c"
  by (auto simp: validate_provided_vector_shape_def shape_ok_def reject_if_def Let_def not_less split: option.splits)

definition computed_slots :: "vector_config_internal \<Rightarrow> slot set" where
  "computed_slots c = (if is_custom_vectors (vc_type c) then {} else Pair (vc_name c) ` set (slots_of c))"

lemma expected_slots_lookup:
  assumes "expected_slots cs m = Inr e"
  shows "dom (map_of e) = dom (map_of m) \<union> \<Union> (computed_slots ` set cs) \<and>
    (\<forall>k c. map_of e k = Some c \<longrightarrow> map_of m k = Some c \<or> c \<in> set cs \<and> k \<in> computed_slots c)"
  using assms
proof (induction cs arbitrary: m)
  case (Cons c cs)
  show ?case
  proof (cases "is_custom_vectors (vc_type c)")
    case True
    have e: "expected_slots cs m = Inr e" using Cons.prems True by simp
    have c: "computed_slots c = {}" using True by (simp add: computed_slots_def)
    show ?thesis
      using Cons.IH [OF e] by (intro conjI) (simp add: c, meson list.set_intros(2))
  next
    case False
    then obtain fs where fs: "vector_index_fields c = Inr fs"
        and e: "expected_slots cs (fold (\<lambda>f. AList.update (vc_name c, f) c) fs m) = Inr e"
      using Cons.prems by (auto split: sum.splits simp: map_err_def)
    let ?m = "fold (\<lambda>f. AList.update (vc_name c, f) c) fs m"
    have lk: "map_of ?m k = (if k \<in> computed_slots c then Some c else map_of m k)" for k
      using False fs unfolding map_of_fold_const by (simp add: computed_slots_def slots_of_def)
    have dm: "dom (map_of ?m) = dom (map_of m) \<union> computed_slots c"
      by (auto simp only: dom_def lk split: if_splits)
    note ih = Cons.IH [OF e]
    show ?thesis
    proof (intro conjI allI impI)
      show "dom (map_of e) = dom (map_of m) \<union> \<Union> (computed_slots ` set (c # cs))"
        using ih unfolding dm by (simp add: Un_assoc)
      fix k c' assume "map_of e k = Some c'"
      then have "map_of ?m k = Some c' \<or> c' \<in> set cs \<and> k \<in> computed_slots c'" using ih by blast
      then show "map_of m k = Some c' \<or> c' \<in> set (c # cs) \<and> k \<in> computed_slots c'"
        unfolding lk by (cases "k \<in> computed_slots c") auto
    qed
  qed
qed simp

lemma provided_vectors_lookup:
  assumes "provided_vectors e vds m = Inr p" "distinct (map fst m)"
  shows "map fst p = rev (map vd_key vds) @ map fst m \<and> distinct (map fst p) \<and>
    (\<forall>vd\<in>set vds. \<exists>c. map_of e (vd_key vd) = Some c \<and> vd_vector_type vd = vc_type c \<and> shape_ok vd c)"
  using assms
proof (induction vds arbitrary: m)
  case (Cons vd vds)
  from Cons.prems(1) obtain c where c: "map_of e (vd_key vd) = Some c" "vd_vector_type vd = vc_type c" "shape_ok vd c"
      and new: "map_of m (vd_key vd) = None" and rec: "provided_vectors e vds ((vd_key vd, vd) # m) = Inr p"
    by (auto simp: Let_def accepts_iff split: if_splits option.splits)
  have "distinct (map fst ((vd_key vd, vd) # m))" using new Cons.prems(2) by (simp add: map_of_eq_None_iff)
  note ih = Cons.IH [OF rec this]
  show ?case
  proof (intro conjI)
    show "map fst p = rev (map vd_key (vd # vds)) @ map fst m" using ih by simp
    show "distinct (map fst p)" using ih by blast
    show "\<forall>v\<in>set (vd # vds). \<exists>c. map_of e (vd_key v) = Some c \<and> vd_vector_type v = vc_type c \<and> shape_ok v c"
      using ih c by simp
  qed
qed simp

text \<open>
  Vectors that come with a document and are accepted are complete: there is exactly one for each slot of each
  configured vector that is not custom, and none else, each of the configured type and of the right shape, a dense
  vector with the configured dimensions, a sparse one with as many values as indices and at most \<open>top_k\<close>.
\<close>

theorem document_vectors_complete:
  assumes "validate_document_vectors config doc = Inr ()" "doc_vectors doc = Some vds"
  shows "distinct (map vd_key vds) \<and> set (map vd_key vds) = \<Union> (computed_slots ` set (cci_vectors config)) \<and>
    (\<forall>vd\<in>set vds. \<exists>c\<in>set (cci_vectors config). vd_key vd \<in> computed_slots c \<and> vd_vector_type vd = vc_type c \<and> shape_ok vd c)"
proof -
  obtain e p where e: "expected_slots (cci_vectors config) [] = Inr e" and p: "provided_vectors e vds [] = Inr p"
      and all: "filter (\<lambda>k. map_of p k = None) (map fst e) = []"
    using assms by (auto simp: validate_document_vectors_def Let_def split: if_splits)
  note ee = expected_slots_lookup [OF e, simplified] and pp = provided_vectors_lookup [OF p, simplified]
  have "set (map vd_key vds) = dom (map_of p)" using pp by (simp add: dom_map_of_conv_image_fst flip: set_map)
  moreover have "dom (map_of e) \<subseteq> dom (map_of p)"
    using all by (auto simp: filter_empty_conv dom_map_of_conv_image_fst) (metis domI dom_map_of_conv_image_fst image_eqI fst_conv)
  moreover have "set (map vd_key vds) \<subseteq> dom (map_of e)" using pp by auto
  ultimately have "set (map vd_key vds) = \<Union> (computed_slots ` set (cci_vectors config))" using ee by auto
  moreover have "distinct (map vd_key vds)" using pp by (metis distinct_rev)
  moreover have "\<forall>vd\<in>set vds. \<exists>c\<in>set (cci_vectors config). vd_key vd \<in> computed_slots c \<and> vd_vector_type vd = vc_type c \<and> shape_ok vd c"
    using ee pp by blast
  ultimately show ?thesis by blast
qed

subsection \<open>Collection configurations\<close>

lemma duplicate_names_empty: "duplicate_names seen ns = [] \<longleftrightarrow> distinct ns \<and> set ns \<inter> seen = {}"
  by (induction ns arbitrary: seen) auto

lemma map_err_accepts [accepts_iff]: "map_err f r = Inr x \<longleftrightarrow> r = Inr x"
  by (cases r) (auto simp: map_err_def)

lemma validate_top_k_accepts [accepts_iff]: "validate_top_k k = Inr u \<longleftrightarrow> 1 \<le> k \<and> k \<le> MAX_TOP_K_VALUE"
  by (auto simp: validate_top_k_def reject_if_def)

lemma custom_vector_config_accepts [accepts_iff]:
  "validate_custom_vector_config v = Inr u \<longleftrightarrow>
     (is_custom_vectors (vc_type v) \<longrightarrow> vc_model v = None) \<and> (vc_type v = DenseCustom \<longrightarrow> vc_dimensions v \<noteq> None) \<and>
     (\<forall>d. vc_dimensions v = Some d \<longrightarrow> 1 \<le> d \<and> d \<le> MAX_VECTOR_DIMENSIONS)"
  by (auto simp: validate_custom_vector_config_def reject_if_def is_custom_vectors_def Suc_le_eq split: option.splits)

lemma model_requirements_accepts [accepts_iff]:
  "validate_model_requirements v = Inr u \<longleftrightarrow>
     (is_transformer_based (vc_type v) \<longrightarrow> vc_model v \<noteq> None) \<and> (is_custom_tokenization (vc_type v) \<longrightarrow> vc_model v = None)"
  by (auto simp: validate_model_requirements_def reject_if_def)

lemma templates_accepts [accepts_iff]:
  "validate_templates_and_index_fields v = Inr u \<longleftrightarrow>
     (case (vc_doc_template v, vc_query_template v) of
        (None, None) \<Rightarrow> \<forall>fs. vc_index_fields v = Some fs \<longrightarrow> fs \<noteq> [] \<and> set fs \<subseteq> set indexable
      | (Some dt, Some qt) \<Rightarrow>
          vc_index_fields v = None \<and> \<not> is_custom_vectors (vc_type v) \<and> vc_type v \<noteq> Noop \<and>
          validate_doc_template dt = Inr () \<and> validate_query_template qt = Inr ()
      | _ \<Rightarrow> False)"
  by (auto simp: validate_templates_and_index_fields_def accepts_iff split: option.splits)

lemma into_internal_kept:
  "vc_name (vector_config_into_internal v) = vc_name v" "vc_top_k (vector_config_into_internal v) = vc_top_k v"
  "vc_model (vector_config_into_internal v) = vc_model v" "vc_dimensions (vector_config_into_internal v) = vc_dimensions v"
  "vc_wmtr_word_ratio (vector_config_into_internal v) = vc_wmtr_word_ratio v"
  by (simp_all add: vector_config_into_internal_def Let_def vector_config.defs)

lemma canonical_kinds [simp]:
  "is_transformer_based (canonical_vector_type t) = is_transformer_based t"
  "canonical_vector_type t = DenseCustom \<longleftrightarrow> t = DenseCustom"
  by (cases t; simp add: is_transformer_based_def)+

text \<open>
  A collection configuration that passes the validation can be used: the names of its vectors are different, and
  each vector, in the form that is stored, has at least one slot to index, a \<open>top_k\<close> between 1 and 10000 and a word
  ratio of at most a hundred, a model if it needs one, dimensions if it is a custom dense vector, and a document
  template that renders for every document if it has one.
\<close>

theorem valid_config_usable:
  assumes "validate_collection_config config = Inr ()" "v \<in> set (cc_vectors config)"
  shows "let c = vector_config_into_internal v in
    distinct (map vc_name (cc_vectors config)) \<and> (\<exists>slots. vector_index_fields c = Inr slots \<and> slots \<noteq> []) \<and>
    1 \<le> vc_top_k c \<and> vc_top_k c \<le> 10000 \<and> vc_wmtr_word_ratio c \<le> 100 \<and>
    (is_transformer_based (vc_type c) \<longrightarrow> vc_model c \<noteq> None) \<and>
    (vc_type c = DenseCustom \<longrightarrow> (\<exists>d. vc_dimensions c = Some d \<and> 1 \<le> d \<and> d \<le> 8192)) \<and>
    (\<forall>t. vc_doc_template c = Some t \<longrightarrow> (\<forall>num_str d. \<exists>s. render_doc_template num_str t d = Inr s))"
proof -
  have d: "distinct (map vc_name (cc_vectors config))" and v: "validate_vector_config v = Inr ()"
    using assms by (auto simp: validate_collection_config_def duplicate_names_empty Let_def split: if_splits)
  have parts: "1 \<le> vc_top_k v" "vc_top_k v \<le> MAX_TOP_K_VALUE" "vc_wmtr_word_ratio v \<le> 100"
      "is_transformer_based (vc_type v) \<longrightarrow> vc_model v \<noteq> None" "vc_type v = DenseCustom \<longrightarrow> vc_dimensions v \<noteq> None"
      "\<forall>d. vc_dimensions v = Some d \<longrightarrow> 1 \<le> d \<and> d \<le> MAX_VECTOR_DIMENSIONS" "validate_templates_and_index_fields v = Inr ()"
    using v by (auto simp: validate_vector_config_def validate_wmtr_word_ratio_def accepts_iff)
  have slots: "\<exists>slots. vector_index_fields (vector_config_into_internal v) = Inr slots \<and> slots \<noteq> []"
    using parts(7)
    by (cases "vc_index_fields v") (auto simp: accepts_iff vector_index_fields_def uses_templates_def into_internal_fields default_index_fields_def
        split: option.splits)
  have "validate_doc_template t = Inr ()" if "vc_doc_template v = Some t" for t
    using parts(7) that by (auto simp: accepts_iff split: option.splits)
  then show ?thesis
    using d parts slots validated_template_renders
    by (auto simp: Let_def into_internal_kept into_internal_fields MAX_TOP_K_VALUE_def MAX_VECTOR_DIMENSIONS_def)
qed

subsection \<open>Search queries\<close>

lemma check_document_tag_accepts [accepts_iff]: "check_document_tag t = Inr u \<longleftrightarrow> tag_ok (trim t)"
  by (auto simp: check_document_tag_def tag_ok_def reject_if_def Let_def not_less)

text \<open>
  C23: a query that passes the validation asks for a bounded amount of work: between 1 and 100 results, at least one
  result and one round per group, facet options in their ranges, one of the two fusion modes, and no arm prefetches
  more than a thousand points, so none of the limits sent to the database wraps around.
\<close>

theorem valid_query_bounded:
  assumes "validate_search_query q = Inr ()"
  shows "let s = sq_settings q in
    1 \<le> sqs_limit s \<and> sqs_limit s \<le> 100 \<and> 1 \<le> sqs_group_max s \<and> 1 \<le> sqs_group_max_fetches s \<and>
    (sqs_fusion_mode s = ''rrf'' \<or> sqs_fusion_mode s = ''linear'') \<and>
    (\<forall>fo. sqs_facet_options s = Some fo \<longrightarrow>
       1 \<le> fo_prefetch_multiplier fo \<and> fo_prefetch_multiplier fo \<le> 10 \<and> 1 \<le> fo_max_values fo \<and> fo_max_values fo \<le> 100) \<and>
    sqs_limit s \<le> arm_prefetch_limit s \<and> arm_prefetch_limit s \<le> 1000 \<and>
    (\<forall>w\<in>set (sqs_vector_options s). name_ok 100 (vso_vector_name w))"
proof -
  let ?s = "sq_settings q"
  have lim: "1 \<le> sqs_limit ?s" "sqs_limit ?s \<le> 100" and g: "1 \<le> sqs_group_max ?s" "1 \<le> sqs_group_max_fetches ?s"
    and f: "sqs_fusion_mode ?s = ''rrf'' \<or> sqs_fusion_mode ?s = ''linear''" and fo: "validate_facet_options (sqs_facet_options ?s) = Inr ()"
    and n: "\<forall>w\<in>set (sqs_vector_options ?s). name_ok 100 (vso_vector_name w)"
    using assms
    by (auto simp: validate_search_query_def Let_def accepts_iff validate_fusion_mode_def MAX_SEARCH_LIMIT_def MAX_VECTOR_NAME_LENGTH_def
        split: if_splits)
  have fo': "1 \<le> fo_prefetch_multiplier fc \<and> fo_prefetch_multiplier fc \<le> 10 \<and> 1 \<le> fo_max_values fc \<and> fo_max_values fc \<le> 100"
    if "sqs_facet_options ?s = Some fc" for fc
    using fo that by (auto simp: validate_facet_options_def accepts_iff MAX_FACET_PREFETCH_MULTIPLIER_def MAX_FACET_MAX_VALUES_def split: if_splits)
  have p: "search_prefetch_limit (sqs_limit ?s) = max (3 * sqs_limit ?s div 2) 5"
    using search_prefetch_limit_exact [of "sqs_limit ?s"] lim by simp
  have m: "x * sqs_limit ?s \<le> 1000" if "x \<le> 10" for x
    using mult_le_mono [OF that lim(2)] by simp
  have "sqs_limit ?s \<le> arm_prefetch_limit ?s \<and> arm_prefetch_limit ?s \<le> 1000"
    using lim fo' m [of 2] m by (auto simp: min_le_iff_disj arm_prefetch_limit_def p Let_def MIN_FACET_PREFETCH_def DEFAULT_FACET_PREFETCH_MULTIPLIER_def split: option.splits)
  then show ?thesis using lim g f fo' n by (simp add: Let_def)
qed

subsection \<open>Instances\<close>

definition example_vectors_document :: document where
  "example_vectors_document = Document ''d'' 0 None None None None None None None None
     (Some [\<lparr>vd_vector_name = ''noop'', vd_field = FName, vd_vector_type = Noop,
       vd_dense_vector = None, vd_sparse_indices = Some [3], vd_sparse_values = Some [f64 1]\<rparr>]) []"

definition example_noop_vector :: vector_config where
  "example_noop_vector = (hd default_noop_vectors)\<lparr>vc_language_confidence := Finite False 1\<rparr>"

definition example_noop_config :: collection_config where
  "example_noop_config = collection_config_deserialize (Some [example_noop_vector]) None (Some [\<lparr>mi_key = ''year'', mi_value_type = ''integer''\<rparr>])"

definition example_search_query :: search_query where
  "example_search_query = \<lparr>sq_query = ''q'', sq_settings = example_settings\<lparr>sqs_facets := True\<rparr>\<rparr>"

lemma example_top_k: "vc_top_k example_vector_config = 128"
  by (simp add: example_vector_config_def into_internal_kept default_noop_vectors_def DEFAULT_TOP_K_def)

theorem document_vectors_complete_witness:
  "\<exists>vds. doc_vectors example_vectors_document = Some vds \<and>
     set (map vd_key vds) = \<Union> (computed_slots ` set (cci_vectors (example_config\<lparr>cci_vectors := [example_vector_config]\<rparr>)))"
proof -
  let ?c = "example_config\<lparr>cci_vectors := [example_vector_config]\<rparr>"
  have "validate_document_vectors ?c example_vectors_document = Inr ()"
    by (simp add: validate_document_vectors_def example_vectors_document_def is_custom_vectors_def example_vector_config_simps Let_def
        validate_provided_vector_shape_def reject_if_def example_top_k map_err_def)
  moreover obtain vds where "doc_vectors example_vectors_document = Some vds" by (simp add: example_vectors_document_def)
  ultimately show ?thesis using document_vectors_complete [of ?c example_vectors_document vds] by blast
qed

lemma example_noop_valid: "validate_collection_config example_noop_config = Inr ()"
proof -
  have "fp_le (f64 0) (Finite False 1)" "fp_le (Finite False 1) (f64 1)"
    using f64_dyadic [of 1 0] f64_dyadic [of 0 0] by (simp_all add: fp_le_def fp_of_rat_def)
  then have "validate_vector_config example_noop_vector = Inr ()"
    by (simp add: validate_vector_config_def example_noop_vector_def default_noop_vectors_def accepts_iff name_ok_def meta_key_char_def byte_of_def
        MAX_VECTOR_NAME_LENGTH_def DEFAULT_TOP_K_def MAX_TOP_K_VALUE_def DEFAULT_WMTR_WORD_WEIGHT_PERCENTAGE_def
        validate_wmtr_word_ratio_def validate_language_confidence_def validate_language_code_def RE_LANGUAGE_CODE_def is_alpha_def
        validate_dense_distance_def validate_normalization_def is_custom_tokenization_def is_transformer_based_def is_custom_vectors_def
        validate_language_config_def validate_model_name_length_def indexable_def fits_def Let_def)
  then show ?thesis
    by (simp add: validate_collection_config_def example_noop_config_def collection_config_deserialize_def validate_metadata_index_def
        RE_ALPHANUMERIC_iff meta_key_char_def byte_of_def MAX_METADATA_KEY_LENGTH_def chars_count_def index_value_types_def Let_def)
qed

theorem valid_config_usable_witness:
  "\<exists>slots. vector_index_fields (vector_config_into_internal example_noop_vector) = Inr slots \<and> slots \<noteq> []"
proof -
  have "example_noop_vector \<in> set (cc_vectors example_noop_config)"
    by (simp add: example_noop_config_def collection_config_deserialize_def)
  then show ?thesis
    using valid_config_usable [OF example_noop_valid, of example_noop_vector] unfolding Let_def by blast
qed

theorem valid_query_bounded_witness: "arm_prefetch_limit (sq_settings example_search_query) \<le> 1000"
proof -
  have t: "trim ''q'' = ''q''" "trim ''a'' = ''a''" by (rule trim_plain; simp add: plain_def byte_of_def)+
  have "validate_search_query example_search_query = Inr ()"
    by (simp add: validate_search_query_def example_search_query_def example_settings_def accepts_iff t chars_count_def is_continuation_def
        byte_of_def MAX_SEARCH_QUERY_LENGTH_def MAX_SEARCH_LIMIT_def validate_document_tags_def MAX_DOCUMENT_TAGS_COUNT_def tag_ok_def
        MAX_DOCUMENT_TAG_LENGTH_def validate_fusion_mode_def validate_facet_options_def Let_def)
  then show ?thesis using valid_query_bounded [of example_search_query] unfolding Let_def by blast
qed


text \<open>
  The tags of a stored document are trimmed. Those of a search are checked after trimming but sent to the database
  as they are: a search for a tag with blanks around it is accepted and matches no document.
\<close>

lemma stored_tags_trimmed:
  "doc_tags (normalize_document_python d) = Some ts \<Longrightarrow> t \<in> set ts \<Longrightarrow> trim t = t"
  by (auto simp: trimmed_tags_def)

lemma search_tags_not_trimmed:
  assumes "t \<in> set (unwrap_or [] (sqs_document_tags (sq_settings q)))" "trim t \<noteq> t"
    and "doc_tags (normalize_document_python d) = Some ts"
  shows "t \<in> set (unwrap_or [] (sqs_document_tags (sq_settings (normalize_search_query_python q)))) \<and> t \<notin> set ts"
  using assms stored_tags_trimmed [of d ts t] by (auto simp: normalize_search_query_python_def)

end
