(* ===== verification/Query_Vectors.thy ===== *)
theory Query_Vectors
  imports Vectorizer Search
begin

text \<open>
  The vectors of search queries: the second half of \<open>src/src/vectors/vectorizer.rs\<close>, with the custom vectors of
  queries. One call serves a batch of query strings that share their settings. The iteration orders of the hash sets
  and maps are the fields of \<open>query_orders\<close>; \<open>None\<close> is a panic.
\<close>

section \<open>Texts and configurations\<close>

definition query_text_for_config :: "vector_config_internal \<Rightarrow> string \<Rightarrow> string + string" where
  "query_text_for_config config query =
     (if uses_templates config
      then and_then (ok_or (''Vector '' @ quoted (vc_name config) @ '' requires query_template'') (vc_query_template config))
             (\<lambda>tmpl. Inr (render_query_template tmpl query))
      else Inr query)"

definition dense_config_with_query_embedding_model :: "vector_config_internal \<Rightarrow> vector_config_internal" where
  "dense_config_with_query_embedding_model c =
     (if vc_query_model c \<noteq> None then c\<lparr>vc_model := vc_query_model c, vc_revision := vc_query_revision c\<rparr> else c)"

definition sparse_model_config_query_embedding :: "vector_config_internal \<Rightarrow> vector_config_internal" where
  "sparse_model_config_query_embedding c =
     (if vc_type c = SparseModel \<and> vc_query_model c \<noteq> None
      then c\<lparr>vc_model := vc_query_model c, vc_revision := vc_query_revision c\<rparr> else c)"

definition extract_dense_for_query :: "embedders \<Rightarrow> vector_config_internal \<Rightarrow> custom_vector list \<Rightarrow> string + fp list" where
  "extract_dense_for_query em config cvs =
     and_then (ok_or (''Custom dense vector '' @ quoted (vc_name config) @ '' not provided in query'')
                (List.find (\<lambda>cv. cv_vector_name cv = vc_name config) cvs)) (\<lambda>cv.
     and_then (map_err (\<lambda>e. ''Failed to parse dense vector: '' @ e) (em_dense_json em (cv_vector cv))) (\<lambda>vec.
       case vc_dimensions config of
         Some dims \<Rightarrow>
           if length vec \<noteq> dims
           then Inl (''Custom dense vector '' @ quoted (vc_name config) @ '' has '' @ nat_str (length vec) @
                     '' dimensions, expected '' @ nat_str dims)
           else Inr vec
       | None \<Rightarrow> Inr vec))"

definition extract_sparse_for_query :: "embedders \<Rightarrow> vector_config_internal \<Rightarrow> custom_vector list \<Rightarrow> string + sparse" where
  "extract_sparse_for_query em config cvs =
     and_then (ok_or (''Custom sparse vector '' @ quoted (vc_name config) @ '' not provided in query'')
                (List.find (\<lambda>cv. cv_vector_name cv = vc_name config) cvs)) (\<lambda>cv.
     and_then (map_err (\<lambda>e. ''Failed to parse sparse vector: '' @ e) (em_sparse_json em (cv_vector cv))) (\<lambda>pairs.
       if vc_top_k config < length pairs
       then Inl (''Custom sparse vector '' @ quoted (vc_name config) @ '' has '' @ nat_str (length pairs) @
                 '' entries, max allowed: '' @ nat_str (vc_top_k config))
       else Inr (map fst pairs, map snd pairs)))"

section \<open>One group of vectors\<close>

definition check_query_dimensions :: "vector_config_internal \<Rightarrow> fp list \<Rightarrow> string + fp list" where
  "check_query_dimensions config vec =
     (case vc_dimensions config of
        Some dims \<Rightarrow>
          if length vec \<noteq> dims
          then Inl (''Specified dimensions '' @ nat_str dims @ '' don'' @ [CHR 0x27] @ ''t match generated dimensions '' @
                    nat_str (length vec) @ '' for vector '' @ quoted (vc_name config))
          else Inr vec
      | None \<Rightarrow> Inr vec)"

definition dense_fields :: "vector_config_internal \<Rightarrow> document_field list \<Rightarrow> fp list \<Rightarrow> vector_data list" where
  "dense_fields config fs vec = map (\<lambda>f. mk_vector_data config f (Some vec) None None) fs"

definition sparse_fields :: "vector_config_internal \<Rightarrow> document_field list \<Rightarrow> sparse \<Rightarrow> vector_data list" where
  "sparse_fields config fs sv = map (\<lambda>f. mk_vector_data config f None (Some (fst sv)) (Some (snd sv))) fs"

definition batch_length_error :: "string \<Rightarrow> nat \<Rightarrow> nat \<Rightarrow> string" where
  "batch_length_error kind got n = kind @ '' batch length '' @ nat_str got @ '' != query count '' @ nat_str n"

definition assign_dense :: "vector_config_internal \<Rightarrow> document_field list \<Rightarrow> nat \<Rightarrow> routed_embed \<Rightarrow> string + vector_data list list" where
  "assign_dense config fs n routed =
     (case routed of
        RSparse _ \<Rightarrow> Inl ''dense routing returned sparse''
      | RDense vs \<Rightarrow>
          if length vs \<noteq> n then Inl (batch_length_error ''dense'' (length vs) n)
          else and_then (collect_result (map (check_query_dimensions config) vs)) (\<lambda>vs. Inr (map (dense_fields config fs) vs)))"

definition assign_sparse :: "vector_config_internal \<Rightarrow> document_field list \<Rightarrow> nat \<Rightarrow> routed_embed \<Rightarrow> string + vector_data list list" where
  "assign_sparse config fs n routed =
     (case routed of
        RDense _ \<Rightarrow> Inl ''sparse routing returned dense''
      | RSparse ss \<Rightarrow>
          if length ss \<noteq> n then Inl (batch_length_error ''sparse'' (length ss) n)
          else Inr (map (sparse_fields config fs) ss))"

definition query_avgdls :: "vector_config_internal \<Rightarrow> nat \<Rightarrow> fp list option" where
  "query_avgdls config n = (if is_custom_tokenization (vc_type config) then Some (replicate n (f64 5)) else None)"

definition generate_vectors_for_query_batch ::
    "embedders \<Rightarrow> vector_config_internal \<Rightarrow> string list \<Rightarrow> document_field list \<Rightarrow> search_query_settings \<Rightarrow> bool \<Rightarrow> fp \<Rightarrow>
     (string + vector_data list list) option" where
  "generate_vectors_for_query_batch em config query_texts fs settings validation_mode trigram_weight =
     (let n = length query_texts in
      case collect_result (map (query_text_for_config config) query_texts) of
        Inl e \<Rightarrow> Some (Inl e)
      | Inr texts \<Rightarrow>
          (case vc_type config of
             DenseModel \<Rightarrow>
               map_option (\<lambda>r. and_then r (assign_dense config fs n))
                 (route_embed_dispatch em (dense_config_with_query_embedding_model config) texts None DEFAULT_WMTR_TRIGRAM_WEIGHT)
           | DenseCustom \<Rightarrow>
               Some (if validation_mode then Inr (replicate n [])
                     else and_then (ok_or (''Custom dense vector '' @ quoted (vc_name config) @ '' requires custom vectors but query has none'')
                                      (sqs_custom_vectors settings)) (\<lambda>cvs.
                          and_then (extract_dense_for_query em config cvs) (\<lambda>vec. Inr (replicate n (dense_fields config fs vec)))))
           | SparseCustom \<Rightarrow>
               Some (if validation_mode then Inr (replicate n [])
                     else and_then (ok_or (''Custom sparse vector '' @ quoted (vc_name config) @ '' requires custom vectors but query has none'')
                                      (sqs_custom_vectors settings)) (\<lambda>cvs.
                          and_then (extract_sparse_for_query em config cvs) (\<lambda>sv. Inr (replicate n (sparse_fields config fs sv)))))
           | _ \<Rightarrow>
               map_option (\<lambda>r. and_then r (assign_sparse config fs n))
                 (route_embed_dispatch em (sparse_model_config_query_embedding config) texts (query_avgdls config n) trigram_weight)))"

section \<open>The whole batch\<close>

type_synonym query_slot = "string \<times> document_field"

record query_orders =
  qo_slots :: "query_slot list \<Rightarrow> query_slot list"
  qo_groups :: "(string \<times> document_field list) list \<Rightarrow> (string \<times> document_field list) list"
  qo_names :: "string list \<Rightarrow> string list"

definition config_map :: "vector_config_internal list \<Rightarrow> (string \<times> vector_config_internal) list" where
  "config_map configs = fold (\<lambda>c. AList.update (vc_name c) c) configs []"

definition config_not_found :: "query_orders \<Rightarrow> vector_config_internal list \<Rightarrow> string \<Rightarrow> string" where
  "config_not_found ord configs name =
     ''Vector configuration '' @ quoted name @ '' not found. Available vectors: '' @
     join_with '', '' (qo_names ord (map fst (config_map configs)))"

definition slot_insert :: "query_slot \<Rightarrow> query_slot list \<Rightarrow> query_slot list" where
  "slot_insert s ss = (if s \<in> set ss then ss else ss @ [s])"

text \<open>The slots of the given options, and the options by slot, the later one first.\<close>

fun option_slots ::
    "query_orders \<Rightarrow> vector_config_internal list \<Rightarrow> vector_search_option list \<Rightarrow> query_slot list \<Rightarrow> (query_slot \<times> vector_search_option) list \<Rightarrow>
     string + query_slot list \<times> (query_slot \<times> vector_search_option) list" where
  "option_slots ord configs [] slots m = Inr (slots, m)"
| "option_slots ord configs (w # ws) slots m =
     (if fp_eq (vso_weight w) f64_zero then option_slots ord configs ws slots m
      else and_then (ok_or (config_not_found ord configs (vso_vector_name w)) (map_of (config_map configs) (vso_vector_name w))) (\<lambda>config.
           and_then (resolve_search_field config (vso_field w)) (\<lambda>f.
             option_slots ord configs ws (slot_insert (vso_vector_name w, f) slots) (((vso_vector_name w, f), w) # m))))"

fun all_slots :: "vector_config_internal list \<Rightarrow> query_slot list \<Rightarrow> string + query_slot list" where
  "all_slots [] slots = Inr slots"
| "all_slots (config # configs) slots =
     and_then (vector_index_fields config) (\<lambda>fs. all_slots configs (fold (\<lambda>f. slot_insert (vc_name config, f)) fs slots))"

definition auto_option :: "fp \<Rightarrow> query_slot \<Rightarrow> vector_search_option" where
  "auto_option weight s =
     \<lparr>vso_vector_name = fst s, vso_weight = weight, vso_field = (if snd s = FTemplate then None else Some (snd s)),
      vso_wmtr_trigram_weight = DEFAULT_WMTR_TRIGRAM_WEIGHT, vso_raw_score_threshold = None\<rparr>"

text \<open>The slot of an automatic option; both \<open>expect\<close>s are panics.\<close>

definition auto_slot :: "vector_config_internal list \<Rightarrow> vector_search_option \<Rightarrow> (query_slot \<times> vector_search_option) option" where
  "auto_slot configs w =
     (case map_of (config_map configs) (vso_vector_name w) of
        None \<Rightarrow> None
      | Some config \<Rightarrow>
          if uses_templates config then Some ((vso_vector_name w, FTemplate), w)
          else map_option (\<lambda>f. ((vso_vector_name w, f), w)) (vso_field w))"

text \<open>The slots, the options by slot and the settings with the options that are used.\<close>

definition select_slots ::
    "query_orders \<Rightarrow> vector_config_internal list \<Rightarrow> search_query_settings \<Rightarrow>
     (string + query_slot list \<times> (query_slot \<times> vector_search_option) list \<times> search_query_settings) option" where
  "select_slots ord configs settings =
     (if sqs_vector_options settings \<noteq> []
      then Some (and_then (option_slots ord configs (sqs_vector_options settings) [] []) (\<lambda>(slots, m). Inr (slots, m, settings)))
      else case all_slots configs [] of
             Inl e \<Rightarrow> Some (Inl e)
           | Inr slots \<Rightarrow>
               (let weight = f64_div (f64 1) (fp_of_nat binary64 (length slots));
                    opts = (if slots = [] then [] else map (auto_option weight) (qo_slots ord slots))
                in map_option (\<lambda>m. Inr (slots, rev m, settings\<lparr>sqs_vector_options := opts\<rparr>)) (those (map (auto_slot configs) opts))))"

definition field_not_configured :: "document_field list \<Rightarrow> string \<Rightarrow> document_field \<Rightarrow> string" where
  "field_not_configured slots name f =
     ''Field '' @ quoted (document_field_str f) @ '' is not configured for vector '' @ quoted name @ ''. Available fields: '' @ debug_fields slots"

record work_groups =
  wg_normal :: "(string \<times> document_field list) list"
  wg_wmtr :: "(string \<times> document_field list \<times> fp) list"

fun group_slots ::
    "query_orders \<Rightarrow> vector_config_internal list \<Rightarrow> (query_slot \<times> vector_search_option) list \<Rightarrow> query_slot list \<Rightarrow> work_groups \<Rightarrow>
     string + work_groups" where
  "group_slots ord configs opts [] wg = Inr wg"
| "group_slots ord configs opts ((name, f) # slots) wg =
     and_then (ok_or (config_not_found ord configs name) (map_of (config_map configs) name)) (\<lambda>config.
     and_then (vector_index_fields config) (\<lambda>fs.
       if f \<notin> set fs then Inl (field_not_configured fs name f)
       else group_slots ord configs opts slots
              (if vc_type config = Wmtr
               then wg\<lparr>wg_wmtr := wg_wmtr wg @ [(vc_name config, [f],
                      case map_of opts (name, f) of Some w \<Rightarrow> vso_wmtr_trigram_weight w | None \<Rightarrow> DEFAULT_WMTR_TRIGRAM_WEIGHT)]\<rparr>
               else wg\<lparr>wg_normal := AList.update name (unwrap_or [] (map_of (wg_normal wg) name) @ [f]) (wg_normal wg)\<rparr>)))"

definition work_items :: "query_orders \<Rightarrow> work_groups \<Rightarrow> (string \<times> document_field list \<times> fp) list" where
  "work_items ord wg =
     map (\<lambda>(name, fs). (name, fs, DEFAULT_WMTR_TRIGRAM_WEIGHT)) (qo_groups ord (wg_normal wg)) @ wg_wmtr wg"

text \<open>The second check of the fields; an unknown name is a panic.\<close>

definition check_item :: "vector_config_internal list \<Rightarrow> string \<times> document_field list \<times> fp \<Rightarrow> (string + unit) option" where
  "check_item configs item =
     (let (name, fs, _) = item in
      map_option (\<lambda>config. and_then (vector_index_fields config) (\<lambda>slots.
          try_for_each (\<lambda>f. if f \<notin> set slots then Inl (field_not_configured slots name f) else Inr ()) fs))
        (map_of (config_map configs) name))"

definition run_item ::
    "embedders \<Rightarrow> vector_config_internal list \<Rightarrow> string list \<Rightarrow> search_query_settings \<Rightarrow> bool \<Rightarrow> string \<times> document_field list \<times> fp \<Rightarrow>
     (string + vector_data list list) option" where
  "run_item em configs query_texts settings validation_mode item =
     (let (name, fs, trigram_weight) = item in
      case map_of (config_map configs) name of
        None \<Rightarrow> None
      | Some config \<Rightarrow>
          map_option (map_err (\<lambda>e. ''Failed to generate vector '' @ quoted name @ '': '' @ e))
            (generate_vectors_for_query_batch em config query_texts fs settings validation_mode trigram_weight))"

definition query_results ::
    "string list \<Rightarrow> search_query_settings \<Rightarrow> vector_data list list list \<Rightarrow> search_query_with_vectors list option" where
  "query_results query_texts settings groups =
     (if \<forall>g\<in>set groups. length query_texts \<le> length g
      then Some (map (\<lambda>(i, q). \<lparr>sqv_query = q, sqv_settings = settings, sqv_vectors = concat (map (\<lambda>g. g ! i) groups)\<rparr>)
                  (enumerate 0 query_texts))
      else None)"

definition vectorize_search_queries ::
    "embedders \<Rightarrow> query_orders \<Rightarrow> string list \<Rightarrow> search_query_settings \<Rightarrow> vector_config_internal list \<Rightarrow> bool \<Rightarrow>
     (string + search_query_with_vectors list) option" where
  "vectorize_search_queries em ord query_texts settings configs validation_mode =
     (if query_texts = [] then Some (Inl ''Search query batch cannot be empty'')
      else if \<exists>t\<in>set query_texts. trim t = [] then Some (Inl ''Search query cannot be empty'')
      else case (if validation_mode then List.find (\<lambda>c. vc_type c = DenseCustom \<and> vc_dimensions c = None) configs else None) of
             Some c \<Rightarrow> Some (Inl (''Dense custom vector '' @ quoted (vc_name c) @ '' requires dimensions to be specified''))
           | None \<Rightarrow>
               (case select_slots ord configs settings of
                  None \<Rightarrow> None
                | Some (Inl e) \<Rightarrow> Some (Inl e)
                | Some (Inr (slots, opts, settings')) \<Rightarrow>
                    (case group_slots ord configs opts (qo_slots ord slots) \<lparr>wg_normal = [], wg_wmtr = []\<rparr> of
                       Inl e \<Rightarrow> Some (Inl e)
                     | Inr wg \<Rightarrow>
                         (let items = work_items ord wg in
                          case collect_panicking (map (check_item configs) items) of
                            None \<Rightarrow> None
                          | Some (Inl e) \<Rightarrow> Some (Inl e)
                          | Some (Inr _) \<Rightarrow>
                              (case collect_panicking (map (run_item em configs query_texts settings' validation_mode) items) of
                                 None \<Rightarrow> None
                               | Some (Inl e) \<Rightarrow> Some (Inl e)
                               | Some (Inr groups) \<Rightarrow> map_option Inr (query_results query_texts settings' groups))))))"

definition vectorize_search_query ::
    "embedders \<Rightarrow> query_orders \<Rightarrow> search_query \<Rightarrow> vector_config_internal list \<Rightarrow> bool \<Rightarrow> (string + search_query_with_vectors) option" where
  "vectorize_search_query em ord query configs validation_mode =
     map_option (\<lambda>r. and_then r (\<lambda>batch. if batch = [] then Inl ''internal: empty search batch'' else Inr (last batch)))
       (vectorize_search_queries em ord [sq_query query] (sq_settings query) configs validation_mode)"


section \<open>Every selected slot gets one vector\<close>

lemma config_map_name: "map_of (config_map configs) n = Some c \<Longrightarrow> vc_name c = n \<and> c \<in> set configs"
proof -
  have "map_of (fold (\<lambda>c. AList.update (vc_name c) c) configs m) n = Some c \<Longrightarrow>
      map_of m n = Some c \<or> vc_name c = n \<and> c \<in> set configs" for m
  proof (induction configs arbitrary: m)
    case (Cons d ds)
    from Cons.IH [OF Cons.prems [simplified]] show ?case by (auto simp: update_conv' split: if_splits)
  qed simp
  then show "map_of (config_map configs) n = Some c \<Longrightarrow> vc_name c = n \<and> c \<in> set configs"
    unfolding config_map_def by fastforce
qed

lemma config_map_dom: "c \<in> set configs \<Longrightarrow> \<exists>d. map_of (config_map configs) (vc_name c) = Some d"
proof -
  have "map_of (fold (\<lambda>c. AList.update (vc_name c) c) configs m) n \<noteq> None \<longleftrightarrow> map_of m n \<noteq> None \<or> n \<in> vc_name ` set configs" for m n
    by (induction configs arbitrary: m) (auto simp: update_conv')
  then show "c \<in> set configs \<Longrightarrow> \<exists>d. map_of (config_map configs) (vc_name c) = Some d"
    unfolding config_map_def by fastforce
qed

lemma field_keys [simp]:
  "map vd_key (dense_fields config fs v) = map (Pair (vc_name config)) fs"
  "map vd_key (sparse_fields config fs s) = map (Pair (vc_name config)) fs"
  by (simp_all add: dense_fields_def sparse_fields_def)

lemma check_query_dimensions_id: "check_query_dimensions config v = Inr u \<Longrightarrow> u = v"
  by (auto simp: check_query_dimensions_def split: option.splits if_splits)

lemma assign_dense_Inr:
  "assign_dense config fs n r = Inr g \<longleftrightarrow>
     (\<exists>vs. r = RDense vs \<and> length vs = n \<and> (\<forall>v\<in>set vs. check_query_dimensions config v = Inr v) \<and> g = map (dense_fields config fs) vs)"
proof -
  have "collect_result (map (check_query_dimensions config) vs) = Inr us \<longleftrightarrow>
      us = vs \<and> (\<forall>v\<in>set vs. check_query_dimensions config v = Inr v)" for vs us
    by (induction vs arbitrary: us) (auto dest: check_query_dimensions_id)
  then show ?thesis by (auto simp: assign_dense_def split: routed_embed.splits)
qed

lemma assign_sparse_Inr:
  "assign_sparse config fs n r = Inr g \<longleftrightarrow> (\<exists>ss. r = RSparse ss \<and> length ss = n \<and> g = map (sparse_fields config fs) ss)"
  by (auto simp: assign_sparse_def split: routed_embed.splits)

lemmas assign_Inr = assign_dense_Inr assign_sparse_Inr

lemma generate_keys:
  assumes "generate_vectors_for_query_batch em config texts fs settings False w = Some (Inr g)"
  shows "length g = length texts \<and> (\<forall>vs\<in>set g. map vd_key vs = map (Pair (vc_name config)) fs)"
  using assms unfolding generate_vectors_for_query_batch_def Let_def
  by (auto split: sum.splits vector_type.splits if_splits simp: assign_Inr)

lemma run_item_keys:
  assumes "run_item em configs texts settings False (name, fs, w) = Some (Inr g)"
  shows "length g = length texts \<and> (\<forall>vs\<in>set g. map vd_key vs = map (Pair name) fs)"
proof -
  obtain config where c: "map_of (config_map configs) name = Some config"
      and g: "generate_vectors_for_query_batch em config texts fs settings False w = Some (Inr g)"
    using assms by (auto simp: run_item_def split: option.splits)
  show ?thesis using generate_keys [OF g] config_map_name [OF c] by simp
qed

definition item_slots :: "(string \<times> document_field list \<times> fp) list \<Rightarrow> query_slot list" where
  "item_slots items = concat (map (\<lambda>(name, fs, w). map (Pair name) fs) items)"

lemma mset_update_group:
  "mset (concat (map (\<lambda>(n, fs). map (Pair n) fs) (AList.update name (unwrap_or [] (map_of m name) @ [f]) m))) =
   add_mset (name, f) (mset (concat (map (\<lambda>(n, fs). map (Pair n) fs) m)))"
  by (induction m) auto

definition group_mset :: "work_groups \<Rightarrow> query_slot multiset" where
  "group_mset wg = mset (concat (map (\<lambda>(n, fs). map (Pair n) fs) (wg_normal wg))) + mset (item_slots (wg_wmtr wg))"

lemma group_slots_mset: "group_slots ord configs opts slots wg = Inr wg' \<Longrightarrow> group_mset wg' = group_mset wg + mset slots"
proof (induction ord configs opts slots wg rule: group_slots.induct)
  case (2 ord configs opts name f slots wg)
  then obtain config fs where c: "map_of (config_map configs) name = Some config" "vector_index_fields config = Inr fs" "f \<in> set fs"
    by (auto simp: ok_or_def split: option.splits if_splits)
  show ?case
    using 2 c config_map_name [OF c(1)]
    by (auto simp: ok_or_def group_mset_def item_slots_def mset_update_group split: if_splits)
qed simp

definition orders_ok :: "query_orders \<Rightarrow> bool" where
  "orders_ok ord \<longleftrightarrow> (\<forall>xs. mset (qo_slots ord xs) = mset xs) \<and> (\<forall>xs. mset (qo_groups ord xs) = mset xs)"

lemma work_items_mset: "orders_ok ord \<Longrightarrow> mset (item_slots (work_items ord wg)) = group_mset wg"
  using mset_concat_map_cong [of "qo_groups ord (wg_normal wg)" "wg_normal wg" "\<lambda>(n, fs). map (Pair n) fs"]
  by (simp add: orders_ok_def work_items_def item_slots_def group_mset_def comp_def split_def)

lemma collect_panicking_Inr: "collect_panicking rs = Some (Inr xs) \<longleftrightarrow> rs = map (\<lambda>x. Some (Inr x)) xs"
proof (induction rs arbitrary: xs)
  case (Cons r rs)
  have "map_option (\<lambda>q. and_then q (\<lambda>xs. Inr (x # xs))) (collect_panicking rs) = Some (Inr ys) \<longleftrightarrow>
      (\<exists>zs. ys = x # zs \<and> rs = map (\<lambda>x. Some (Inr x)) zs)" for x ys
    using Cons.IH by (auto simp: eq_commute [of "_ # _"])
  then show ?case by (cases xs) (auto split: option.splits sum.splits)
qed auto

definition option_slot :: "vector_config_internal list \<Rightarrow> vector_search_option \<Rightarrow> query_slot set" where
  "option_slot configs w =
     {(vso_vector_name w, f) | f. \<not> fp_eq (vso_weight w) f64_zero \<and>
        (\<exists>c. map_of (config_map configs) (vso_vector_name w) = Some c \<and> resolve_search_field c (vso_field w) = Inr f)}"

definition wanted_slots :: "vector_config_internal list \<Rightarrow> search_query_settings \<Rightarrow> query_slot set" where
  "wanted_slots configs settings =
     (if sqs_vector_options settings \<noteq> [] then \<Union> (option_slot configs ` set (sqs_vector_options settings))
      else {(vc_name c, f) | c f fs. c \<in> set configs \<and> vector_index_fields c = Inr fs \<and> f \<in> set fs})"

lemma slot_insert [simp]:
  "set (slot_insert s ss) = insert s (set ss)" "distinct (slot_insert s ss) \<longleftrightarrow> distinct ss"
  by (auto simp: slot_insert_def)

lemma fold_slot_insert [simp]:
  "set (fold (\<lambda>f. slot_insert (n, f)) fs slots) = set slots \<union> Pair n ` set fs"
  "distinct (fold (\<lambda>f. slot_insert (n, f)) fs slots) \<longleftrightarrow> distinct slots"
  by (induction fs arbitrary: slots) auto

lemma option_slots_set:
  "option_slots ord configs ws slots m = Inr (slots', m') \<Longrightarrow>
     (distinct slots' \<longleftrightarrow> distinct slots) \<and> set slots' = set slots \<union> \<Union> (option_slot configs ` set ws)"
proof (induction ord configs ws slots m rule: option_slots.induct)
  case (2 ord configs w ws slots m)
  show ?case
  proof (cases "fp_eq (vso_weight w) f64_zero")
    case True
    then show ?thesis using 2 by (simp add: option_slot_def)
  next
    case False
    with 2(3) obtain c f where c: "map_of (config_map configs) (vso_vector_name w) = Some c" "resolve_search_field c (vso_field w) = Inr f"
        and rest: "option_slots ord configs ws (slot_insert (vso_vector_name w, f) slots) (((vso_vector_name w, f), w) # m) = Inr (slots', m')"
      by (auto simp: ok_or_def split: option.splits)
    have "option_slot configs w = {(vso_vector_name w, f)}" using False c by (simp add: option_slot_def)
    then show ?thesis using 2(2) [OF False rest] c by (simp add: ok_or_def)
  qed
qed simp

lemma all_slots_set:
  "all_slots configs slots = Inr slots' \<Longrightarrow>
     (distinct slots' \<longleftrightarrow> distinct slots) \<and>
     set slots' = set slots \<union> {(vc_name c, f) | c f fs. c \<in> set configs \<and> vector_index_fields c = Inr fs \<and> f \<in> set fs}"
proof (induction configs slots rule: all_slots.induct)
  case (2 config configs slots)
  then obtain fs where fs: "vector_index_fields config = Inr fs"
      and rest: "all_slots configs (fold (\<lambda>f. slot_insert (vc_name config, f)) fs slots) = Inr slots'" by auto
  have "{(vc_name c, f) | c f fs. c \<in> set (config # configs) \<and> vector_index_fields c = Inr fs \<and> f \<in> set fs} =
      Pair (vc_name config) ` set fs \<union> {(vc_name c, f) | c f fs. c \<in> set configs \<and> vector_index_fields c = Inr fs \<and> f \<in> set fs}"
    using fs by auto
  with 2(1) [OF rest] show ?case by auto
qed simp

lemma select_slots_wanted:
  assumes "select_slots ord configs settings = Some (Inr (slots, opts, settings'))"
  shows "distinct slots" and "set slots = wanted_slots configs settings"
    and "sqs_vector_options settings \<noteq> [] \<Longrightarrow> settings' = settings"
proof -
  have "distinct slots \<and> set slots = wanted_slots configs settings \<and> (sqs_vector_options settings \<noteq> [] \<longrightarrow> settings' = settings)"
  proof (cases "sqs_vector_options settings = []")
    case True
    then have "all_slots configs [] = Inr slots"
      using assms by (auto simp: select_slots_def Let_def split: sum.splits)
    from all_slots_set [OF this] True show ?thesis by (simp add: wanted_slots_def)
  next
    case False
    then have "\<exists>m. option_slots ord configs (sqs_vector_options settings) [] [] = Inr (slots, m) \<and> settings' = settings"
      using assms by (auto simp: select_slots_def)
    then show ?thesis using option_slots_set False by (fastforce simp: wanted_slots_def)
  qed
  then show "distinct slots" "set slots = wanted_slots configs settings"
      "sqs_vector_options settings \<noteq> [] \<Longrightarrow> settings' = settings"
    by blast+
qed

lemma group_keys:
  assumes "map (run_item em configs texts settings False) items = map (\<lambda>x. Some (Inr x)) groups" and "i < length texts"
  shows "map vd_key (concat (map (\<lambda>g. g ! i) groups)) = item_slots items"
  using assms(1)
proof (induction items arbitrary: groups)
  case (Cons item items)
  obtain name fs w where item: "item = (name, fs, w)" by (metis prod_cases3)
  from Cons.prems obtain g gs where g: "groups = g # gs" "run_item em configs texts settings False item = Some (Inr g)"
      "map (run_item em configs texts settings False) items = map (\<lambda>x. Some (Inr x)) gs"
    by (cases groups) auto
  have "g ! i \<in> set g" and "\<forall>vs\<in>set g. map vd_key vs = map (Pair name) fs"
    using run_item_keys [OF g(2) [unfolded item]] assms(2) by auto
  then show ?case using Cons.IH [OF g(3)] by (simp add: g(1) item item_slots_def)
qed (simp add: item_slots_def)

text \<open>
  C24: A successful vectorisation of a batch of search queries returns one result for each query, in order, and each
  result holds exactly one vector for every slot the query asks for and no other: the field of each vector option of
  non-zero weight, or every field of every vector of the collection when no options are given. The iteration orders of
  the hash containers do not matter.
\<close>

theorem query_vectors_cover_slots:
  assumes "orders_ok ord"
    and "vectorize_search_queries em ord texts settings configs False = Some (Inr rs)"
  shows "map sqv_query rs = texts \<and>
    (\<forall>r\<in>set rs. distinct (map vd_key (sqv_vectors r)) \<and> vd_key ` set (sqv_vectors r) = wanted_slots configs settings)"
proof -
  obtain slots opts settings' wg where sel: "select_slots ord configs settings = Some (Inr (slots, opts, settings'))"
      and wg: "group_slots ord configs opts (qo_slots ord slots) \<lparr>wg_normal = [], wg_wmtr = []\<rparr> = Inr wg"
      and rest: "\<exists>groups. collect_panicking (map (run_item em configs texts settings' False) (work_items ord wg)) = Some (Inr groups) \<and>
                   query_results texts settings' groups = Some rs"
    using assms(2) by (auto simp: vectorize_search_queries_def Let_def split: if_splits option.splits sum.splits)
  from rest obtain groups where groups: "map (run_item em configs texts settings' False) (work_items ord wg) = map (\<lambda>x. Some (Inr x)) groups"
      and rs: "query_results texts settings' groups = Some rs"
    by (auto simp: collect_panicking_Inr)
  have slots: "mset (item_slots (work_items ord wg)) = mset slots"
    using work_items_mset [OF assms(1), of wg] group_slots_mset [OF wg] assms(1)
    by (simp add: group_mset_def item_slots_def orders_ok_def)
  have rs': "rs = map (\<lambda>(i, q). \<lparr>sqv_query = q, sqv_settings = settings', sqv_vectors = concat (map (\<lambda>g. g ! i) groups)\<rparr>) (enumerate 0 texts)"
    using rs by (auto simp: query_results_def split: if_splits)
  have "map vd_key (sqv_vectors r) = item_slots (work_items ord wg)" if "r \<in> set rs" for r
    using that group_keys [OF groups] by (auto simp: rs' in_set_enumerate_eq simp del: map_concat)
  moreover have "map sqv_query rs = texts" by (simp add: rs' comp_def split_def)
  moreover have "distinct (item_slots (work_items ord wg))" "set (item_slots (work_items ord wg)) = wanted_slots configs settings"
    using select_slots_wanted [OF sel] slots mset_eq_imp_distinct_iff mset_eq_setD by metis+
  ultimately show ?thesis by (simp flip: list.set_map)
qed

section \<open>A batch is its queries, one by one\<close>

definition no_models :: "vector_config_internal list \<Rightarrow> bool" where
  "no_models configs \<longleftrightarrow> (\<forall>c\<in>set configs. vc_type c \<noteq> DenseModel \<and> vc_type c \<noteq> SparseModel)"

lemma get_sparse_vector_nth:
  assumes "get_sparse_vector em config docs (replicate (length docs) a) w = Some (Inr ss)" "i < length docs"
  shows "get_sparse_vector em config [docs ! i] [a] w = Some (Inr [ss ! i])"
proof -
  have eq: "map (\<lambda>(doc, avgdl). get_sparse_vector_single em config (preprocess_text (em_text em) doc) avgdl w) (zip docs (replicate (length docs) a)) =
      map (\<lambda>x. Some (Inr x)) ss"
    using assms(1) by (simp add: get_sparse_vector_def collect_panicking_Inr)
  have "length ss = length docs" using arg_cong [OF eq, of length] by simp
  with arg_cong [OF eq, of "\<lambda>l. l ! i"] show ?thesis using assms(2) by (simp add: get_sparse_vector_def)
qed

lemma route_nth:
  assumes "vc_type config \<noteq> DenseModel" "vc_type config \<noteq> SparseModel"
    and "route_embed_dispatch em config docs (if is_custom_tokenization (vc_type config) then Some (replicate (length docs) a) else None) w
         = Some (Inr r)"
  shows "\<exists>ss. r = RSparse ss \<and> (\<forall>i<length docs.
    route_embed_dispatch em config [docs ! i] (if is_custom_tokenization (vc_type config) then Some [a] else None) w = Some (Inr (RSparse [ss ! i])))"
proof -
  have custom: "is_custom_tokenization (vc_type config)"
    using assms by (auto simp: route_embed_dispatch_def is_custom_tokenization_def split: vector_type.splits)
  then obtain ss where ss: "get_sparse_vector em config docs (replicate (length docs) a) w = Some (Inr ss)" "r = RSparse ss"
    using assms by (auto simp: route_embed_dispatch_def is_custom_tokenization_def split: vector_type.splits)
  have "route_embed_dispatch em config [docs ! i] (Some [a]) w = Some (Inr (RSparse [ss ! i]))" if "i < length docs" for i
    using get_sparse_vector_nth [OF ss(1) that] assms(1,2) custom
    by (auto simp: route_embed_dispatch_def is_custom_tokenization_def split: vector_type.splits)
  then show ?thesis using ss(2) custom by auto
qed

lemma generate_nth:
  assumes "vc_type config \<noteq> DenseModel" "vc_type config \<noteq> SparseModel" "i < length texts"
    and "generate_vectors_for_query_batch em config texts fs settings mode w = Some (Inr g)"
  shows "generate_vectors_for_query_batch em config [texts ! i] fs settings mode w = Some (Inr [g ! i])"
proof -
  obtain ts where ts: "map (query_text_for_config config) texts = map Inr ts"
    using assms(4) by (auto simp: generate_vectors_for_query_batch_def Let_def collect_result_eq_Inr split: sum.splits)
  then have len: "length ts = length texts" by (metis map_eq_imp_length_eq)
  have t: "query_text_for_config config (texts ! i) = Inr (ts ! i)"
    using arg_cong [OF ts, of "\<lambda>l. l ! i"] assms(3) len by simp
  have same: "sparse_model_config_query_embedding config = config"
    using assms(2) by (simp add: sparse_model_config_query_embedding_def)
  have all: "collect_result (map (query_text_for_config config) texts) = Inr ts"
    using ts by (simp add: collect_result_eq_Inr)
  show ?thesis
  proof (cases "vc_type config \<in> {DenseCustom, SparseCustom}")
    case True
    then show ?thesis using assms(3,4) t
      by (auto simp: generate_vectors_for_query_batch_def all Let_def split: if_splits)
  next
    case False
    define r where "r = route_embed_dispatch em config ts (query_avgdls config (length ts)) w"
    have g: "map_option (\<lambda>r. and_then r (assign_sparse config fs (length texts))) r = Some (Inr g)"
      using assms(1,2,4) False unfolding r_def
      by (auto simp: generate_vectors_for_query_batch_def all Let_def same len split: vector_type.splits)
    then obtain q where q: "r = Some (Inr q)" "assign_sparse config fs (length texts) q = Inr g" by auto
    have av: "query_avgdls config 1 = (if is_custom_tokenization (vc_type config) then Some [f64 5] else None)"
      by (simp add: query_avgdls_def)
    obtain ss where ss: "q = RSparse ss"
        "route_embed_dispatch em config [ts ! i] (query_avgdls config 1) w = Some (Inr (RSparse [ss ! i]))"
      using route_nth [OF assms(1,2) q(1) [unfolded r_def query_avgdls_def]] assms(3) unfolding len av by blast
    have "g ! i = sparse_fields config fs (ss ! i)" using q(2) ss(1) assms(3) by (auto simp: assign_sparse_Inr)
    then show ?thesis using assms(1,2) False t ss(2)
      by (auto simp: generate_vectors_for_query_batch_def Let_def same assign_sparse_Inr split: vector_type.splits)
  qed
qed

lemma run_item_nth:
  assumes "no_models configs" "i < length texts" "run_item em configs texts settings mode item = Some (Inr g)"
  shows "run_item em configs [texts ! i] settings mode item = Some (Inr [g ! i])"
proof -
  obtain name fs w where item: "item = (name, fs, w)" by (metis prod_cases3)
  obtain config where c: "map_of (config_map configs) name = Some config"
      and g: "generate_vectors_for_query_batch em config texts fs settings mode w = Some (Inr g)"
    using assms(3) by (auto simp: run_item_def item split: option.splits)
  have "vc_type config \<noteq> DenseModel" "vc_type config \<noteq> SparseModel"
    using assms(1) config_map_name [OF c] by (auto simp: no_models_def)
  from generate_nth [OF this assms(2) g] show ?thesis by (simp add: run_item_def item c)
qed

lemma run_items_nth:
  assumes "no_models configs" "i < length texts"
    and "map (run_item em configs texts settings mode) items = map (\<lambda>x. Some (Inr x)) groups"
  shows "map (run_item em configs [texts ! i] settings mode) items = map (\<lambda>g. Some (Inr [g ! i])) groups"
  using assms(3)
proof (induction items arbitrary: groups)
  case (Cons item items)
  then show ?case using run_item_nth [OF assms(1,2)] by (cases groups) auto
qed simp

lemma batch_pointwise:
  assumes "no_models configs" "i < length texts"
    and "vectorize_search_queries em ord texts settings configs mode = Some (Inr rs)"
  shows "vectorize_search_queries em ord [texts ! i] settings configs mode = Some (Inr [rs ! i])"
proof -
  let ?bad = "if mode then List.find (\<lambda>c. vc_type c = DenseCustom \<and> vc_dimensions c = None) configs else None"
  have ne: "texts \<noteq> []" "\<forall>t\<in>set texts. trim t \<noteq> []" and bad: "?bad = None"
    using assms(3) by (auto simp: vectorize_search_queries_def split: if_splits option.splits)
  note run = assms(3) [unfolded vectorize_search_queries_def bad option.case Let_def]
  obtain slots opts settings' wg where sel: "select_slots ord configs settings = Some (Inr (slots, opts, settings'))"
      and wg: "group_slots ord configs opts (qo_slots ord slots) \<lparr>wg_normal = [], wg_wmtr = []\<rparr> = Inr wg"
      and rest: "\<exists>us groups. collect_panicking (map (check_item configs) (work_items ord wg)) = Some (Inr us) \<and>
                   collect_panicking (map (run_item em configs texts settings' mode) (work_items ord wg)) = Some (Inr groups) \<and>
                   query_results texts settings' groups = Some rs"
    using run by (auto split: if_splits option.splits sum.splits)
  from rest obtain us groups where us: "collect_panicking (map (check_item configs) (work_items ord wg)) = Some (Inr us)"
      and groups: "map (run_item em configs texts settings' mode) (work_items ord wg) = map (\<lambda>x. Some (Inr x)) groups"
      and rs: "query_results texts settings' groups = Some rs"
    by (auto simp: collect_panicking_Inr)
  have one: "collect_panicking (map (run_item em configs [texts ! i] settings' mode) (work_items ord wg)) = Some (Inr (map (\<lambda>g. [g ! i]) groups))"
    using run_items_nth [OF assms(1,2) groups] by (simp add: collect_panicking_Inr comp_def)
  have rs_i: "rs ! i = \<lparr>sqv_query = texts ! i, sqv_settings = settings', sqv_vectors = concat (map (\<lambda>g. g ! i) groups)\<rparr>"
    using rs assms(2) by (auto simp: query_results_def nth_enumerate_eq split: if_splits)
  have "trim (texts ! i) \<noteq> []" using ne(2) assms(2) by simp
  then show ?thesis
    unfolding vectorize_search_queries_def bad option.case Let_def
    by (simp add: sel wg us one query_results_def rs_i comp_def)
qed

text \<open>
  When no vector of the collection needs a model, embedding a batch of queries at once gives every query what it
  gets alone: the i-th result of the batch is the result of \<open>vectorize_search_query\<close> on the i-th query with the same
  settings. Grouping the searches that wait in a bucket is an optimisation that cannot be observed.
\<close>

theorem query_batch_pointwise:
  assumes "no_models configs" "i < length texts"
    and "vectorize_search_queries em ord texts settings configs mode = Some (Inr rs)"
  shows "vectorize_search_query em ord \<lparr>sq_query = texts ! i, sq_settings = settings\<rparr> configs mode = Some (Inr (rs ! i))"
  using batch_pointwise [OF assms] by (simp add: vectorize_search_query_def)

section \<open>No panic\<close>

definition weight_ok :: "fp \<Rightarrow> bool" where
  "weight_ok w \<longleftrightarrow> (\<exists>c. as_f32 w = Finite False c \<and> 0 \<le> c)"

definition query_config_ok :: "embedders \<Rightarrow> string list \<Rightarrow> vector_config_internal \<Rightarrow> bool" where
  "query_config_ok em texts config \<longleftrightarrow>
     vc_top_k config < 2 ^ 24 \<and> vc_wmtr_word_ratio config \<le> 100 \<and>
     (\<forall>fs. vc_index_fields config = Some fs \<longrightarrow> FTemplate \<notin> set fs) \<and>
     (\<forall>q\<in>set texts. \<forall>t. query_text_for_config config q = Inr t \<longrightarrow> rust_text (preprocess_text (em_text em) t))"

lemma query_avgdl_pos: "fpos (as_f32 (f64 5))"
  using fp_of_nat_exact [of 5] f32_small [of 5] by (simp add: fp_of_nat_def fp_of_rat_def fpos_def)

lemma config_map_distinct: "distinct (map vc_name configs) \<Longrightarrow> c \<in> set configs \<Longrightarrow> map_of (config_map configs) (vc_name c) = Some c"
  using config_map_dom [of c configs] config_map_name by (metis (no_types, lifting) distinct_map inj_on_def)

lemma auto_slot_total:
  assumes "distinct (map vc_name configs)" "c \<in> set configs" "vector_index_fields c = Inr fs" "f \<in> set fs" "query_config_ok em texts c"
  shows "auto_slot configs (auto_option w (vc_name c, f)) \<noteq> None"
proof -
  have "\<not> uses_templates c \<Longrightarrow> f \<noteq> FTemplate"
    using assms(3-5) by (auto simp: vector_index_fields_def query_config_ok_def split: if_splits option.splits)
  then show ?thesis by (simp add: auto_slot_def auto_option_def config_map_distinct [OF assms(1,2)])
qed

lemma those_total: "None \<notin> set xs \<Longrightarrow> \<exists>ys. those xs = Some ys \<and> length ys = length xs"
proof (induction xs)
  case (Cons x xs)
  then obtain y where "x = Some y" by (cases x) auto
  with Cons show ?case by auto
qed simp

lemma those_elem: "those xs = Some ys \<Longrightarrow> y \<in> set ys \<Longrightarrow> Some y \<in> set xs"
  by (induction xs arbitrary: ys) (auto split: option.splits)

lemma select_slots_total:
  assumes "orders_ok ord" "distinct (map vc_name configs)" "\<forall>c\<in>set configs. query_config_ok em texts c"
  shows "select_slots ord configs settings \<noteq> None"
proof (cases "all_slots configs []")
  case (Inr slots)
  have "None \<notin> set (map (auto_slot configs) (map (auto_option w) (qo_slots ord slots)))" for w
  proof -
    have "set (qo_slots ord slots) = set slots" using assms(1) by (metis orders_ok_def mset_eq_setD)
    then have "s \<in> set (qo_slots ord slots) \<Longrightarrow> auto_slot configs (auto_option w s) \<noteq> None" for s
      using all_slots_set [OF Inr] auto_slot_total [OF assms(2)] assms(3) by fastforce
    then show ?thesis by force
  qed
  from those_total [OF this] show ?thesis by (auto simp: select_slots_def Inr Let_def simp del: map_map)
qed (auto simp: select_slots_def)

definition groups_ok :: "vector_config_internal list \<Rightarrow> (string \<times> document_field list \<times> fp) list \<Rightarrow> bool" where
  "groups_ok configs items \<longleftrightarrow> (\<forall>(name, fs, w)\<in>set items. map_of (config_map configs) name \<noteq> None \<and> weight_ok w)"

lemma default_weight_ok [simp]: "weight_ok DEFAULT_WMTR_TRIGRAM_WEIGHT"
  by (simp add: weight_ok_def default_trigram_weight)

lemma option_slots_options:
  "option_slots ord configs ws slots m = Inr (slots', m') \<Longrightarrow> snd ` set m' \<subseteq> snd ` set m \<union> set ws"
proof (induction ord configs ws slots m rule: option_slots.induct)
  case (2 ord configs w ws slots m)
  show ?case
  proof (cases "fp_eq (vso_weight w) f64_zero")
    case True
    then show ?thesis using 2(1,3) by auto
  next
    case False
    with 2(3) obtain f where
        "option_slots ord configs ws (slot_insert (vso_vector_name w, f) slots) (((vso_vector_name w, f), w) # m) = Inr (slots', m')"
      by (auto simp: ok_or_def split: option.splits)
    from 2(2) [OF False this] show ?thesis by auto
  qed
qed simp

lemma auto_slot_option: "auto_slot configs w = Some (s, w') \<Longrightarrow> w' = w"
  by (auto simp: auto_slot_def split: option.splits if_splits)

lemma select_slots_weights:
  assumes "select_slots ord configs settings = Some (Inr (slots, opts, settings'))"
    and "\<forall>w\<in>set (sqs_vector_options settings). weight_ok (vso_wmtr_trigram_weight w)"
    and "(s, w) \<in> set opts"
  shows "weight_ok (vso_wmtr_trigram_weight w)"
proof (cases "sqs_vector_options settings = []")
  case True
  let ?ws = "if slots = [] then [] else map (auto_option (f64_div (f64 1) (fp_of_nat binary64 (length slots)))) (qo_slots ord slots)"
  have "\<exists>m. those (map (auto_slot configs) ?ws) = Some m \<and> opts = rev m"
    using assms(1) True by (cases "all_slots configs []") (auto simp: select_slots_def Let_def simp del: if_image_distrib map_map cong: if_cong)
  then obtain m where "those (map (auto_slot configs) ?ws) = Some m" "opts = rev m" by blast
  moreover have weights: "\<forall>w\<in>set ?ws. vso_wmtr_trigram_weight w = DEFAULT_WMTR_TRIGRAM_WEIGHT"
    by (auto simp: auto_option_def)
  moreover have "Some (s, w) \<in> auto_slot configs ` set ws"
    if "those (map (auto_slot configs) ws) = Some m" "opts = rev m" for ws
    using assms(3) those_elem [OF that(1), of "(s, w)"] that(2) by simp
  ultimately have "Some (s, w) \<in> auto_slot configs ` set ?ws" by blast
  then obtain w0 where w0: "w0 \<in> set ?ws" "Some (s, w) = auto_slot configs w0" by (rule imageE)
  then show ?thesis using auto_slot_option [OF w0(2) [symmetric]] weights by (metis default_weight_ok)
next
  case False
  then have "option_slots ord configs (sqs_vector_options settings) [] [] = Inr (slots, opts)"
    using assms(1) by (auto simp: select_slots_def)
  from option_slots_options [OF this] show ?thesis using assms(2,3) by force
qed

lemma group_slots_ok:
  assumes "\<forall>s w. (s, w) \<in> set opts \<longrightarrow> weight_ok (vso_wmtr_trigram_weight w)"
  shows "group_slots ord configs opts slots wg = Inr wg' \<Longrightarrow> groups_ok configs (wg_wmtr wg) \<Longrightarrow>
    \<forall>(n, fs)\<in>set (wg_normal wg). map_of (config_map configs) n \<noteq> None \<Longrightarrow>
    groups_ok configs (wg_wmtr wg') \<and> (\<forall>(n, fs)\<in>set (wg_normal wg'). map_of (config_map configs) n \<noteq> None)"
  using assms
proof (induction ord configs opts slots wg rule: group_slots.induct)
  case (2 ord configs opts name f slots wg)
  then obtain config fs where c: "map_of (config_map configs) name = Some config" "vector_index_fields config = Inr fs" "f \<in> set fs"
    by (auto simp: ok_or_def split: option.splits if_splits)
  let ?w = "case map_of opts (name, f) of Some w \<Rightarrow> vso_wmtr_trigram_weight w | None \<Rightarrow> DEFAULT_WMTR_TRIGRAM_WEIGHT"
  let ?wg = "if vc_type config = Wmtr then wg\<lparr>wg_wmtr := wg_wmtr wg @ [(vc_name config, [f], ?w)]\<rparr>
             else wg\<lparr>wg_normal := AList.update name (unwrap_or [] (map_of (wg_normal wg) name) @ [f]) (wg_normal wg)\<rparr>"
  have w: "weight_ok ?w" using 2(5) by (auto split: option.splits dest: map_of_SomeD)
  have wmtr: "groups_ok configs (wg_wmtr ?wg)"
    using 2(3) w c config_map_name [OF c(1)] by (auto simp: groups_ok_def)
  have normal: "\<forall>(n, fs)\<in>set (wg_normal ?wg). map_of (config_map configs) n \<noteq> None"
  proof -
    have "fst ` set (wg_normal ?wg) \<subseteq> insert name (fst ` set (wg_normal wg))"
      by (cases "vc_type config = Wmtr") (simp_all add: dom_update subset_insertI)
    moreover have "\<forall>n\<in>fst ` set (wg_normal wg). map_of (config_map configs) n \<noteq> None" using 2(4) by force
    ultimately have "\<forall>n\<in>fst ` set (wg_normal ?wg). map_of (config_map configs) n \<noteq> None" using c(1) by blast
    then show ?thesis by (simp only: ball_simps split_def image_iff)
  qed
  have "group_slots ord configs opts slots ?wg = Inr wg'" using 2(2) c by (simp add: ok_or_def)
  then show ?case using 2(1) [of fs config] c wmtr normal 2(5) by (simp add: ok_or_def)
qed simp

lemma generate_total:
  assumes "text_lib_ok (em_text em)" "query_config_ok em texts config" "weight_ok w"
  shows "\<exists>r. generate_vectors_for_query_batch em config texts fs settings mode w = Some r \<and> (\<forall>g. r = Inr g \<longrightarrow> length g = length texts)"
proof (cases "collect_result (map (query_text_for_config config) texts)")
  case (Inr ts)
  then have ts: "map (query_text_for_config config) texts = map Inr ts" by (simp add: collect_result_eq_Inr)
  then have len: "length ts = length texts" by (metis map_eq_imp_length_eq)
  have "rust_text (preprocess_text (em_text em) t)" if "t \<in> set ts" for t
  proof -
    from that obtain i where i: "i < length texts" "t = ts ! i" using len by (metis in_set_conv_nth)
    have "query_text_for_config config (texts ! i) = Inr t" using arg_cong [OF ts, of "\<lambda>l. l ! i"] i len by simp
    then show ?thesis using assms(2) nth_mem [OF i(1)] unfolding query_config_ok_def by blast
  qed
  then have "get_sparse_vector_single em c (preprocess_text (em_text em) t) (f64 5) w \<noteq> None"
    if "t \<in> set ts" "vc_top_k c = vc_top_k config" "vc_wmtr_word_ratio c = vc_wmtr_word_ratio config" for t c
    using that assms get_sparse_vector_single_calm [OF assms(1) _ query_avgdl_pos, of _ c w]
    by (auto simp: query_config_ok_def weight_ok_def)
  then have "None \<notin> set (map (\<lambda>(doc, avgdl). get_sparse_vector_single em c (preprocess_text (em_text em) doc) avgdl w) (zip ts (replicate n (f64 5))))"
    if "vc_top_k c = vc_top_k config" "vc_wmtr_word_ratio c = vc_wmtr_word_ratio config" for c n
    using that by (force dest: set_zip_leftD set_zip_rightD)
  then have "get_sparse_vector em c ts (replicate n (f64 5)) w \<noteq> None"
    if "vc_top_k c = vc_top_k config" "vc_wmtr_word_ratio c = vc_wmtr_word_ratio config" for c n
    using that collect_panicking_total unfolding get_sparse_vector_def by blast
  then have "route_embed_dispatch em (sparse_model_config_query_embedding config) ts (query_avgdls config n) w \<noteq> None" for n
    by (auto simp: route_embed_dispatch_def query_avgdls_def sparse_model_config_query_embedding_def split: vector_type.splits)
  moreover have "route_embed_dispatch em (dense_config_with_query_embedding_model config) ts None v \<noteq> None" for v
    by (auto simp: route_embed_dispatch_def split: vector_type.splits)
  ultimately have "generate_vectors_for_query_batch em config texts fs settings mode w \<noteq> None"
    by (auto simp: generate_vectors_for_query_batch_def Let_def Inr split: vector_type.splits)
  moreover have "length g = length texts" if "generate_vectors_for_query_batch em config texts fs settings mode w = Some (Inr g)" for g
    using that unfolding generate_vectors_for_query_batch_def Let_def
    by (auto split: sum.splits vector_type.splits if_splits simp: assign_Inr)
  ultimately show ?thesis by blast
qed (simp add: generate_vectors_for_query_batch_def)

lemma run_item_total:
  assumes "text_lib_ok (em_text em)" "\<forall>c\<in>set configs. query_config_ok em texts c" "groups_ok configs items" "item \<in> set items"
  shows "check_item configs item \<noteq> None"
    and "\<exists>r. run_item em configs texts settings mode item = Some r \<and> (\<forall>g. r = Inr g \<longrightarrow> length g = length texts)"
proof -
  obtain name fs w where item: "item = (name, fs, w)" by (metis prod_cases3)
  obtain config where c: "map_of (config_map configs) name = Some config" and w: "weight_ok w"
    using assms(3,4) by (force simp: groups_ok_def item)
  have "query_config_ok em texts config" using assms(2) config_map_name [OF c] by blast
  from generate_total [OF assms(1) this w, of fs settings mode]
  show "\<exists>r. run_item em configs texts settings mode item = Some r \<and> (\<forall>g. r = Inr g \<longrightarrow> length g = length texts)"
    by (auto simp: run_item_def item c)
  show "check_item configs item \<noteq> None" by (simp add: check_item_def item c)
qed

lemma vectorize_queries_calm:
  assumes "orders_ok ord" "text_lib_ok (em_text em)" "distinct (map vc_name configs)"
    and "\<forall>c\<in>set configs. query_config_ok em texts c"
    and "\<forall>w\<in>set (sqs_vector_options settings). weight_ok (vso_wmtr_trigram_weight w)"
  shows "vectorize_search_queries em ord texts settings configs mode \<noteq> None"
proof -
  obtain r where r: "select_slots ord configs settings = Some r" using select_slots_total [OF assms(1,3,4)] by blast
  have calm: "vectorize_search_queries em ord texts settings configs mode \<noteq> None"
    if sel: "select_slots ord configs settings = Some (Inr (slots, opts, settings'))"
      and wg: "group_slots ord configs opts (qo_slots ord slots) \<lparr>wg_normal = [], wg_wmtr = []\<rparr> = Inr wg"
    for slots opts settings' wg
  proof -
    have "groups_ok configs (work_items ord wg)"
    proof -
      have "groups_ok configs (wg_wmtr wg) \<and> (\<forall>(n, fs)\<in>set (wg_normal wg). map_of (config_map configs) n \<noteq> None)"
        by (rule group_slots_ok [OF _ wg]) (use select_slots_weights [OF sel assms(5)] in \<open>auto simp: groups_ok_def\<close>)
      moreover have "set (qo_groups ord (wg_normal wg)) = set (wg_normal wg)"
        using assms(1) by (metis orders_ok_def mset_eq_setD)
      ultimately show ?thesis by (auto simp: groups_ok_def work_items_def)
    qed
    note total = run_item_total [OF assms(2,4) this]
    have check: "collect_panicking (map (check_item configs) (work_items ord wg)) \<noteq> None"
      by (rule collect_panicking_total) (use total(1) in force)
    have run: "collect_panicking (map (run_item em configs texts settings' mode) (work_items ord wg)) \<noteq> None"
      by (rule collect_panicking_total) (use total(2) in \<open>simp add: image_iff, metis option.distinct(1)\<close>)
    have results: "query_results texts settings' groups \<noteq> None"
      if "collect_panicking (map (run_item em configs texts settings' mode) (work_items ord wg)) = Some (Inr groups)" for groups
    proof -
      have eq: "map (run_item em configs texts settings' mode) (work_items ord wg) = map (\<lambda>x. Some (Inr x)) groups"
        using that by (simp add: collect_panicking_Inr)
      have "length g = length texts" if "g \<in> set groups" for g
      proof -
        have "Some (Inr g) \<in> run_item em configs texts settings' mode ` set (work_items ord wg)"
          using arg_cong [OF eq, of set] that by (simp add: image_iff)
        then obtain item where "item \<in> set (work_items ord wg)" "Some (Inr g) = run_item em configs texts settings' mode item" by (rule imageE)
        then show ?thesis using total(2) [of item settings' mode] by auto
      qed
      then show ?thesis by (simp add: query_results_def)
    qed
    show ?thesis
      using check run results by (auto simp: vectorize_search_queries_def sel wg Let_def split: option.splits sum.splits)
  qed
  show ?thesis
  proof (cases r)
    case (Inr p)
    then obtain slots opts settings' where sel: "select_slots ord configs settings = Some (Inr (slots, opts, settings'))"
      using r by (cases p) auto
    show ?thesis
      using calm [OF sel] by (cases "group_slots ord configs opts (qo_slots ord slots) \<lparr>wg_normal = [], wg_wmtr = []\<rparr>")
        (auto simp: vectorize_search_queries_def sel split: option.splits)
  qed (use r in \<open>auto simp: vectorize_search_queries_def split: option.splits\<close>)
qed

text \<open>
  Vectorising search queries cannot panic on the inputs that validation lets through: for the vectors of a validated
  collection (distinct names, no \<open>template\<close> among the index fields, the size bounds), finite non-negative trigram weights
  and texts of less than 2^60 bytes, every \<open>expect\<close>, index and tokenizer on the path is safe, whatever the models, the
  language detector and the iteration orders of the hash containers return.
\<close>

theorem query_vectors_no_panic:
  assumes "orders_ok ord" "text_lib_ok (em_text em)" "distinct (map vc_name configs)"
    and "\<forall>c\<in>set configs. query_config_ok em texts c"
    and "\<forall>w\<in>set (sqs_vector_options settings). weight_ok (vso_wmtr_trigram_weight w)"
  shows "vectorize_search_queries em ord texts settings configs mode \<noteq> None"
  by (rule vectorize_queries_calm [OF assms])

section \<open>An example\<close>

definition plain_orders :: query_orders where
  "plain_orders = \<lparr>qo_slots = (\<lambda>xs. xs), qo_groups = (\<lambda>xs. xs), qo_names = (\<lambda>xs. xs)\<rparr>"

definition example_query_settings :: search_query_settings where
  "example_query_settings = example_settings\<lparr>sqs_metadata_filter := None, sqs_vector_options := [\<lparr>vso_vector_name = ''noop'', vso_weight = f64_one,
     vso_field = Some FName, vso_wmtr_trigram_weight = DEFAULT_WMTR_TRIGRAM_WEIGHT, vso_raw_score_threshold = None\<rparr>]\<rparr>"

definition example_query_result :: "string \<Rightarrow> search_query_with_vectors" where
  "example_query_result q = \<lparr>sqv_query = q, sqv_settings = example_query_settings,
     sqv_vectors = [mk_vector_data example_vector_config FName None (Some []) (Some [])]\<rparr>"

lemma plain_orders_ok: "orders_ok plain_orders"
  by (simp add: orders_ok_def plain_orders_def)

lemma example_query_options:
  "sqs_vector_options example_query_settings = [\<lparr>vso_vector_name = ''noop'', vso_weight = f64_one,
     vso_field = Some FName, vso_wmtr_trigram_weight = DEFAULT_WMTR_TRIGRAM_WEIGHT, vso_raw_score_threshold = None\<rparr>]"
  "\<not> fp_eq f64_one f64_zero"
  "resolve_search_field example_vector_config (Some FName) = Inr FName"
  by (simp_all add: example_query_settings_def f64_one_def f64_zero_def fp_eq_def resolve_search_field_def example_vector_config_simps)

lemma example_query_run:
  assumes "trim a \<noteq> []" "trim b \<noteq> []"
  shows "vectorize_search_queries example_embedders plain_orders [a, b] example_query_settings [example_vector_config] False =
     Some (Inr [example_query_result a, example_query_result b])"
  using assms
  by (simp add: vectorize_search_queries_def select_slots_def example_query_options
      config_map_def example_vector_config_simps ok_or_def slot_insert_def plain_orders_def work_items_def check_item_def
      run_item_def generate_vectors_for_query_batch_def query_text_for_config_def unwrap_or_def
      sparse_model_config_query_embedding_def query_avgdls_def is_custom_tokenization_def route_embed_dispatch_def
      get_sparse_vector_def get_sparse_vector_single_def assign_sparse_def sparse_fields_def query_results_def
      example_query_result_def Let_def)

lemma example_texts: "trim ''n'' \<noteq> []" "trim ''m'' \<noteq> []"
  by (simp_all add: trim_plain plain_def byte_of_def)

lemmas example_run_nm = example_query_run [OF example_texts]

theorem query_vectors_cover_slots_witness:
  "vd_key ` set (sqv_vectors (example_query_result ''m'')) = wanted_slots [example_vector_config] example_query_settings"
  using query_vectors_cover_slots [OF plain_orders_ok example_run_nm] by simp

theorem query_batch_pointwise_witness:
  "vectorize_search_query example_embedders plain_orders \<lparr>sq_query = ''m'', sq_settings = example_query_settings\<rparr>
     [example_vector_config] False = Some (Inr (example_query_result ''m''))"
proof -
  have "no_models [example_vector_config]" by (simp add: no_models_def example_vector_config_simps)
  from query_batch_pointwise [OF this _ example_run_nm, of 1] show ?thesis by simp
qed

theorem query_vectors_no_panic_witness:
  "vectorize_search_queries example_embedders plain_orders [''n''] example_query_settings [example_vector_config] False \<noteq> None"
proof (rule query_vectors_no_panic [OF plain_orders_ok])
  show "text_lib_ok (em_text example_embedders)" by (simp add: example_embedders_def example_lib_ok)
  have "rust_text (preprocess_text example_lib ''n'')"
    by (simp add: preprocess_text_def example_lib_def trim_plain plain_def byte_of_def utf8_chars.simps rust_text_def
      is_continuation_def is_whitespace_def white_space_def)
  then show "\<forall>c\<in>set [example_vector_config]. query_config_ok example_embedders [''n''] c"
    by (auto simp: query_config_ok_def query_text_for_config_def example_embedders_def example_vector_config_simps
        example_vector_config_def into_internal_fields default_noop_vectors_def uses_templates_def
        vector_config_into_internal_def vector_config.defs vector_config_internal.defs DEFAULT_TOP_K_def
        DEFAULT_WMTR_WORD_WEIGHT_PERCENTAGE_def)
qed (simp_all add: example_query_options)

end
