(* ===== verification/Collection_Stats.thy ===== *)
theory Collection_Stats
  imports Ingestion
begin

text \<open>
  The statistics of collections: the jobs that uploads send (\<open>st_jobs\<close> of theory \<open>Ingestion\<close>) are collected into
  batches, grouped by collection and applied to the stored statistics (\<open>src/src/encoder.rs\<close>, with the reads and writes
  of \<open>src/src/qdrant.rs\<close>). The worker's channel and its timer are a list of events; the stored statistics are a map by
  collection name; an error of a database call is an argument. Counters are unbounded integers: 63 bits are out of reach
  of sums of lengths. The updates of a job are listed in the iteration order of their hash map; the order of the groups
  is an argument.
\<close>

section \<open>Definitions\<close>

definition STATS_BATCH_MAX_JOBS :: nat where
  "STATS_BATCH_MAX_JOBS = 10"

definition STATS_SET_STATS_MAX_ATTEMPTS :: nat where
  "STATS_SET_STATS_MAX_ATTEMPTS = 3"

record collection_stats =
  cs_doc_count :: int
  cs_avgdls :: "(string, fp) hash_map"

definition default_collection_stats :: collection_stats where
  "default_collection_stats = \<lparr>cs_doc_count = 0, cs_avgdls = []\<rparr>"

definition new_avgdl :: "int \<Rightarrow> int \<Rightarrow> fp \<Rightarrow> token_length_update \<Rightarrow> fp" where
  "new_avgdl old_doc_count new_doc_count old_avgdl u =
     f64_div
       (f64_add
         (f64_add
           (f64_sub (f64_mul old_avgdl (fp_of_int binary64 old_doc_count)) (fp_of_int binary64 (tlu_old_sum_token_lengths u)))
           (fp_of_int binary64 (tlu_new_sum_token_lengths u)))
         (fp_of_int binary64 (tlu_update_sum_token_lengths u)))
       (fp_of_int binary64 new_doc_count)"

definition apply_token_length_updates_to_stats ::
    "(string, token_length_update) hash_map \<Rightarrow> collection_stats \<Rightarrow> collection_stats" where
  "apply_token_length_updates_to_stats updates stats =
     (let old_doc_count = cs_doc_count stats;
          new_docs_in_batch = (case updates of [] \<Rightarrow> 0 | (_, u) # _ \<Rightarrow> tlu_new_doc_count u);
          new_doc_count = old_doc_count + new_docs_in_batch
      in if new_doc_count \<le> 0 then \<lparr>cs_doc_count = 0, cs_avgdls = []\<rparr>
         else \<lparr>cs_doc_count = new_doc_count,
               cs_avgdls = fold (\<lambda>(f, u) avgdls.
                 AList.update f (new_avgdl old_doc_count new_doc_count (unwrap_or f64_zero (map_of avgdls f)) u) avgdls)
                 updates (cs_avgdls stats)\<rparr>)"

type_synonym stats_db = "string \<rightharpoonup> collection_stats"

record stats_env =
  sn_get_error :: "string \<Rightarrow> db_error option"
  sn_set_error :: "string \<Rightarrow> nat \<Rightarrow> db_error option"
  sn_groups :: "(string, stats_job list) hash_map \<Rightarrow> (string, stats_job list) hash_map"

definition get_collection_stats :: "stats_env \<Rightarrow> string \<Rightarrow> stats_db \<Rightarrow> db_error + collection_stats" where
  "get_collection_stats env coll db =
     (case sn_get_error env coll of
        Some e \<Rightarrow> Inl e
      | None \<Rightarrow> Inr (unwrap_or default_collection_stats (db coll)))"

definition set_collection_stats :: "stats_env \<Rightarrow> string \<Rightarrow> nat \<Rightarrow> collection_stats \<Rightarrow> stats_db \<Rightarrow> db_error + stats_db" where
  "set_collection_stats env coll attempt stats db =
     (case sn_set_error env coll attempt of Some e \<Rightarrow> Inl e | None \<Rightarrow> Inr (db(coll \<mapsto> stats)))"

fun set_stats_attempts :: "stats_env \<Rightarrow> string \<Rightarrow> collection_stats \<Rightarrow> nat list \<Rightarrow> stats_db \<Rightarrow> stats_db \<times> (db_error + unit)" where
  "set_stats_attempts env coll stats [] db = (db, Inr ())"
| "set_stats_attempts env coll stats (attempt # attempts) db =
     (case set_collection_stats env coll attempt stats db of
        Inr db \<Rightarrow> (db, Inr ())
      | Inl e \<Rightarrow>
          if attempt < STATS_SET_STATS_MAX_ATTEMPTS then set_stats_attempts env coll stats attempts db else (db, Inl e))"

definition persist_stats_maps_for_collection ::
    "stats_env \<Rightarrow> string \<Rightarrow> (string, token_length_update) hash_map list \<Rightarrow> stats_db \<Rightarrow> stats_db \<times> (db_error + unit)" where
  "persist_stats_maps_for_collection env coll maps_in_order db =
     (case get_collection_stats env coll db of
        Inl e \<Rightarrow> (db, Inl e)
      | Inr stats \<Rightarrow>
          set_stats_attempts env coll (fold apply_token_length_updates_to_stats maps_in_order stats)
            [1..<STATS_SET_STATS_MAX_ATTEMPTS + 1] db)"

text \<open>
  What the worker can observe: a job arrives, or 200 ms pass. The end of the list is the closed channel. While no batch
  is open there is no timer.
\<close>

datatype stats_event = Arrive stats_job | Elapsed

fun fill_batch :: "stats_job list \<Rightarrow> stats_event list \<Rightarrow> stats_job list \<times> stats_event list" where
  "fill_batch batch [] = (batch, [])"
| "fill_batch batch (Elapsed # es) = (batch, es)"
| "fill_batch batch (Arrive j # es) =
     (if STATS_BATCH_MAX_JOBS \<le> length batch + 1 then (batch @ [j], es) else fill_batch (batch @ [j]) es)"

fun collect_stats_batch :: "stats_event list \<Rightarrow> (stats_job list \<times> stats_event list) option" where
  "collect_stats_batch [] = None"
| "collect_stats_batch (Elapsed # es) = collect_stats_batch es"
| "collect_stats_batch (Arrive first # es) =
     (if STATS_BATCH_MAX_JOBS \<le> 1 then Some ([first], es) else Some (fill_batch [first] es))"

definition group_jobs :: "stats_job list \<Rightarrow> (string, stats_job list) hash_map" where
  "group_jobs batch = fold (\<lambda>job. hm_upsert (sj_collection_name job) [] (\<lambda>js. js @ [job])) batch []"

text \<open>The message to the leader, one for each job.\<close>

definition json_i64 :: "int \<Rightarrow> json" where
  "json_i64 i = Number (if 0 \<le> i then PosInt (nat i) else NegInt i)"

definition update_json :: "token_length_update \<Rightarrow> json" where
  "update_json u = Object (bt_collect
     [(''new_doc_count'', json_i64 (tlu_new_doc_count u)),
      (''new_sum_token_lengths'', json_i64 (tlu_new_sum_token_lengths u)),
      (''update_doc_count'', json_i64 (tlu_update_doc_count u)),
      (''update_sum_token_lengths'', json_i64 (tlu_update_sum_token_lengths u)),
      (''old_sum_token_lengths'', json_i64 (tlu_old_sum_token_lengths u))])"

definition stats_message :: "string \<Rightarrow> stats_job \<Rightarrow> json" where
  "stats_message coll job = Object (bt_collect
     [(''collection_name'', String coll),
      (''updates'', Object (bt_collect (map (\<lambda>(f, u). (f, update_json u)) (sj_updates job))))])"

record stats_world =
  sw_db :: stats_db
  sw_talk :: "json list"

text \<open>Errors of single collections are logged and the next collection follows.\<close>

definition flush_group :: "stats_env \<Rightarrow> bool \<Rightarrow> string \<times> stats_job list \<Rightarrow> stats_world \<Rightarrow> stats_world" where
  "flush_group env cluster grp w =
     (let (coll, jobs) = grp in
      if cluster then w\<lparr>sw_talk := sw_talk w @ map (stats_message coll) jobs\<rparr>
      else w\<lparr>sw_db := fst (persist_stats_maps_for_collection env coll (map sj_updates jobs) (sw_db w))\<rparr>)"

definition flush_stats_job_batch :: "stats_env \<Rightarrow> bool \<Rightarrow> stats_job list \<Rightarrow> stats_world \<Rightarrow> stats_world" where
  "flush_stats_job_batch env cluster batch w = fold (flush_group env cluster) (sn_groups env (group_jobs batch)) w"

lemma fill_batch_shorter: "length (snd (fill_batch batch es)) \<le> length es"
  by (induction batch es rule: fill_batch.induct) auto

lemma collect_shorter: "collect_stats_batch es = Some (batch, es') \<Longrightarrow> length es' < length es"
proof (induction es rule: collect_stats_batch.induct)
  case (3 first es)
  then show ?case using fill_batch_shorter [of "[first]" es] by (auto split: if_splits)
qed auto

text \<open>The worker: one environment for each batch, since the database may fail at one time and not at another.\<close>

function stats_worker :: "(nat \<Rightarrow> stats_env) \<Rightarrow> bool \<Rightarrow> nat \<Rightarrow> stats_event list \<Rightarrow> stats_world \<Rightarrow> stats_world" where
  "stats_worker envs cluster n es w =
     (case collect_stats_batch es of
        None \<Rightarrow> w
      | Some (batch, es') \<Rightarrow> stats_worker envs cluster (Suc n) es' (flush_stats_job_batch (envs n) cluster batch w))"
  by pat_completeness auto
termination
  by (relation "measure (\<lambda>(envs, cluster, n, es, w). length es)") (auto simp: collect_shorter)

declare stats_worker.simps [simp del]


section \<open>Batches\<close>

fun arrived :: "stats_event list \<Rightarrow> stats_job list" where
  "arrived [] = []"
| "arrived (Arrive j # es) = j # arrived es"
| "arrived (Elapsed # es) = arrived es"

lemma fill_batch_arrived:
  "fill_batch batch es = (batch', es') \<Longrightarrow> length batch < STATS_BATCH_MAX_JOBS \<Longrightarrow>
     batch' @ arrived es' = batch @ arrived es \<and> length batch \<le> length batch' \<and> length batch' \<le> STATS_BATCH_MAX_JOBS"
  by (induction batch es rule: fill_batch.induct) (fastforce split: if_splits)+

lemma collect_arrived:
  "collect_stats_batch es = Some (batch, es') \<Longrightarrow>
     batch @ arrived es' = arrived es \<and> batch \<noteq> [] \<and> length batch \<le> STATS_BATCH_MAX_JOBS"
proof (induction es rule: collect_stats_batch.induct)
  case (3 first es)
  then show ?case using fill_batch_arrived [of "[first]" es batch es'] by (auto simp: STATS_BATCH_MAX_JOBS_def)
qed auto

lemma collect_none: "collect_stats_batch es = None \<Longrightarrow> arrived es = []"
  by (induction es rule: collect_stats_batch.induct) (auto split: if_splits)

section \<open>One batch\<close>

definition of_collection :: "string \<Rightarrow> stats_job list \<Rightarrow> stats_job list" where
  "of_collection coll jobs = filter (\<lambda>j. sj_collection_name j = coll) jobs"

lemma of_collection_simps [simp]:
  "of_collection coll [] = []" "of_collection coll (a @ b) = of_collection coll a @ of_collection coll b"
  "of_collection coll (j # js) = (if sj_collection_name j = coll then j # of_collection coll js else of_collection coll js)"
  by (simp_all add: of_collection_def)

lemma group_jobs_get:
  "unwrap_or [] (map_of (group_jobs batch) coll) = of_collection coll batch"
  "map_of (group_jobs batch) coll = None \<longleftrightarrow> of_collection coll batch = []"
  "hm_ok (group_jobs batch)"
proof -
  have get: "unwrap_or [] (map_of (fold (\<lambda>job. hm_upsert (sj_collection_name job) [] (\<lambda>js. js @ [job])) batch m) coll) =
      unwrap_or [] (map_of m coll) @ of_collection coll batch" for m
    by (induction batch arbitrary: m) (auto simp: hm_upsert_get unwrap_or_def)
  have none: "map_of (fold (\<lambda>job. hm_upsert (sj_collection_name job) [] (\<lambda>js. js @ [job])) batch m) coll = None \<longleftrightarrow>
      map_of m coll = None \<and> of_collection coll batch = []" for m
    by (induction batch arbitrary: m) (auto simp: hm_upsert_get)
  have ok: "hm_ok m \<Longrightarrow> hm_ok (fold (\<lambda>job. hm_upsert (sj_collection_name job) [] (\<lambda>js. js @ [job])) batch m)"
    for m :: "(string, stats_job list) hash_map"
    by (induction batch arbitrary: m) auto
  show "unwrap_or [] (map_of (group_jobs batch) coll) = of_collection coll batch"
    "map_of (group_jobs batch) coll = None \<longleftrightarrow> of_collection coll batch = []" "hm_ok (group_jobs batch)"
    using get [of "[]"] none [of "[]"] ok [of "[]"] by (simp_all add: group_jobs_def unwrap_or_def)
qed

text \<open>The database answers for a collection: reads succeed, and one of the attempts to write does.\<close>

definition healthy :: "stats_env \<Rightarrow> string \<Rightarrow> bool" where
  "healthy env coll \<longleftrightarrow> sn_get_error env coll = None \<and> (\<exists>n\<in>{1..STATS_SET_STATS_MAX_ATTEMPTS}. sn_set_error env coll n = None)"

lemma persist_other:
  "c \<noteq> coll \<Longrightarrow> fst (persist_stats_maps_for_collection env coll maps db) c = db c"
proof -
  assume c: "c \<noteq> coll"
  have "fst (set_stats_attempts env coll stats ns db) c = db c" for stats ns
    using c by (induction ns) (auto simp: set_collection_stats_def split: option.splits)
  then show ?thesis by (simp add: persist_stats_maps_for_collection_def split: sum.splits)
qed

lemma persist_healthy:
  assumes "healthy env coll"
  shows "persist_stats_maps_for_collection env coll maps db =
    (db(coll \<mapsto> fold apply_token_length_updates_to_stats maps (unwrap_or default_collection_stats (db coll))), Inr ())"
proof -
  have three: "[1..<STATS_SET_STATS_MAX_ATTEMPTS + 1] = [1, 2, 3]" "{1..STATS_SET_STATS_MAX_ATTEMPTS} = {1, 2, 3}"
    by (auto simp: STATS_SET_STATS_MAX_ATTEMPTS_def upt_rec)
  show ?thesis
    using assms unfolding healthy_def persist_stats_maps_for_collection_def three
    by (auto simp: get_collection_stats_def set_collection_stats_def
        STATS_SET_STATS_MAX_ATTEMPTS_def split: option.splits)
qed

lemma order_map_of:
  assumes "hm_ok m" "iter_order it"
  shows "map_of (it m) = map_of m" and "hm_ok (it m)"
proof -
  have "mset (map fst (it m)) = mset (map fst m)" using iter_orderD [OF assms(2), of m] by simp
  then show ok: "hm_ok (it m)" using assms(1) mset_eq_imp_distinct_iff unfolding hm_ok_def by blast
  show "map_of (it m) = map_of m"
    using ok assms(1) iter_order_set [OF assms(2), of m] by (simp add: hm_ok_def map_of_inject_set)
qed

lemma flush_groups:
  assumes "hm_ok gs" "healthy env coll"
  shows "sw_db (fold (flush_group env False) gs w) coll =
    (case map_of gs coll of
       None \<Rightarrow> sw_db w coll
     | Some js \<Rightarrow> Some (fold apply_token_length_updates_to_stats (map sj_updates js) (unwrap_or default_collection_stats (sw_db w coll))))"
  using assms(1)
proof (induction gs arbitrary: w)
  case (Cons g gs)
  obtain c js where g: "g = (c, js)" by (cases g)
  have ok: "hm_ok gs" "c \<notin> fst ` set gs" using Cons.prems by (auto simp: hm_ok_def g)
  show ?case
  proof (cases "c = coll")
    case True
    then have "map_of gs coll = None" using ok(2) by (simp add: map_of_eq_None_iff)
    moreover have "sw_db (flush_group env False g w) coll =
        Some (fold apply_token_length_updates_to_stats (map sj_updates js) (unwrap_or default_collection_stats (sw_db w coll)))"
      using True by (simp add: g flush_group_def persist_healthy [OF assms(2)])
    ultimately show ?thesis using Cons.IH [OF ok(1)] True by (simp add: g)
  next
    case False
    then have "sw_db (flush_group env False g w) coll = sw_db w coll" by (simp add: g flush_group_def persist_other)
    then show ?thesis using Cons.IH [OF ok(1)] False by (simp add: g split: option.splits)
  qed
qed simp

definition stats_after :: "stats_job list \<Rightarrow> stats_db \<Rightarrow> stats_db" where
  "stats_after jobs db = fold (\<lambda>j db. db(sj_collection_name j \<mapsto>
     apply_token_length_updates_to_stats (sj_updates j) (unwrap_or default_collection_stats (db (sj_collection_name j))))) jobs db"

lemma stats_after_at:
  "stats_after jobs db coll =
     (if of_collection coll jobs = [] then db coll
      else Some (fold apply_token_length_updates_to_stats (map sj_updates (of_collection coll jobs)) (unwrap_or default_collection_stats (db coll))))"
  unfolding stats_after_def by (induction jobs arbitrary: db) (auto simp: unwrap_or_def)

lemma stats_after_append: "stats_after (a @ b) db = stats_after b (stats_after a db)"
  by (simp add: stats_after_def)

lemma flush_batch_after:
  assumes "iter_order (sn_groups env)" "healthy env coll"
  shows "sw_db (flush_stats_job_batch env False batch w) coll = stats_after batch (sw_db w) coll"
proof -
  have "hm_ok (group_jobs batch)" by (rule group_jobs_get)
  note ord = order_map_of [OF this assms(1)]
  have js: "map_of (group_jobs batch) coll = (if of_collection coll batch = [] then None else Some (of_collection coll batch))"
    using group_jobs_get(1,2) [of batch coll] by (auto simp: unwrap_or_def split: option.splits)
  show ?thesis
    unfolding flush_stats_job_batch_def flush_groups [OF ord(2) assms(2)] ord(1) js stats_after_at by simp
qed

lemma stats_after_cong: "db coll = db' coll \<Longrightarrow> stats_after jobs db coll = stats_after jobs db' coll"
  by (simp add: stats_after_at)

text \<open>
  C25: In standalone mode the worker that collects statistics jobs into batches and groups them by collection leaves the
  statistics of a collection as if every job had been applied alone, in the order of arrival. It depends only on the
  database answering for that collection: whatever fails for other collections, however the jobs fall into batches, and
  in whatever order the groups are taken, no job is lost, doubled or reordered. When the channel closes everything that
  was sent is applied.
\<close>

theorem stats_batching_transparent:
  assumes "\<forall>n. iter_order (sn_groups (envs n)) \<and> healthy (envs n) coll"
  shows "sw_db (stats_worker envs False n es w) coll = stats_after (arrived es) (sw_db w) coll"
  using assms
proof (induction envs False n es w rule: stats_worker.induct)
  case (1 envs n es w)
  show ?case
  proof (cases "collect_stats_batch es")
    case None
    then show ?thesis using collect_none [OF None] by (subst stats_worker.simps) (simp add: stats_after_def)
  next
    case (Some p)
    then obtain batch es' where p: "collect_stats_batch es = Some (batch, es')" by (cases p) auto
    have "sw_db (stats_worker envs False n es w) coll = stats_after (arrived es') (sw_db (flush_stats_job_batch (envs n) False batch w)) coll"
      using 1(1) [OF p refl 1(2)] p by (subst stats_worker.simps) simp
    also have "\<dots> = stats_after (arrived es') (stats_after batch (sw_db w)) coll"
      by (rule stats_after_cong) (use 1(2) in \<open>blast intro: flush_batch_after\<close>)
    also have "\<dots> = stats_after (arrived es) (sw_db w) coll" using collect_arrived [OF p] by (metis stats_after_append)
    finally show ?thesis .
  qed
qed

section \<open>One job\<close>

definition update_avgdls :: "int \<Rightarrow> int \<Rightarrow> (string, token_length_update) hash_map \<Rightarrow> (string, fp) hash_map \<Rightarrow> (string, fp) hash_map" where
  "update_avgdls a b updates avgdls =
     fold (\<lambda>(f, u) avgdls. AList.update f (new_avgdl a b (unwrap_or f64_zero (map_of avgdls f)) u) avgdls) updates avgdls"

lemma update_avgdls_get:
  "hm_ok updates \<Longrightarrow> map_of (update_avgdls a b updates avgdls) f =
     (case map_of updates f of
        None \<Rightarrow> map_of avgdls f
      | Some u \<Rightarrow> Some (new_avgdl a b (unwrap_or f64_zero (map_of avgdls f)) u))"
proof (induction updates arbitrary: avgdls)
  case (Cons p updates)
  obtain g u where p: "p = (g, u)" by (cases p)
  have ok: "hm_ok updates" "g \<notin> fst ` set updates" using Cons.prems by (auto simp: hm_ok_def p)
  have "update_avgdls a b (p # updates) avgdls =
      update_avgdls a b updates (AList.update g (new_avgdl a b (unwrap_or f64_zero (map_of avgdls g)) u) avgdls)"
    by (simp add: update_avgdls_def p)
  then have "map_of (update_avgdls a b (p # updates) avgdls) f = (case map_of updates f of
        None \<Rightarrow> if f = g then Some (new_avgdl a b (unwrap_or f64_zero (map_of avgdls g)) u) else map_of avgdls f
      | Some v \<Rightarrow> Some (new_avgdl a b (unwrap_or f64_zero (if f = g then Some (new_avgdl a b (unwrap_or f64_zero (map_of avgdls g)) u) else map_of avgdls f)) v))"
    using Cons.IH [OF ok(1)] by (auto simp: update_conv' split: option.splits)
  moreover have "map_of updates g = None" using ok(2) by (simp add: map_of_eq_None_iff)
  ultimately show ?case by (cases "f = g") (simp_all add: p split: option.splits)
qed (simp add: update_avgdls_def)

lemma apply_updates_eq:
  "apply_token_length_updates_to_stats updates stats =
     (let n = cs_doc_count stats + (case updates of [] \<Rightarrow> 0 | (_, u) # _ \<Rightarrow> tlu_new_doc_count u) in
      if n \<le> 0 then \<lparr>cs_doc_count = 0, cs_avgdls = []\<rparr>
      else \<lparr>cs_doc_count = n, cs_avgdls = update_avgdls (cs_doc_count stats) n updates (cs_avgdls stats)\<rparr>)"
  by (simp add: apply_token_length_updates_to_stats_def update_avgdls_def Let_def)

text \<open>The updates of an upload: distinct fields, one document count, sums that only add.\<close>

definition upload_updates :: "int \<Rightarrow> (string, token_length_update) hash_map \<Rightarrow> bool" where
  "upload_updates n updates \<longleftrightarrow> hm_ok updates \<and> 0 \<le> n \<and>
     (\<forall>(f, u)\<in>set updates. tlu_new_doc_count u = n \<and> tlu_old_sum_token_lengths u = 0 \<and>
        0 \<le> tlu_new_sum_token_lengths u \<and> 0 \<le> tlu_update_sum_token_lengths u)"

lemma token_update_upload:
  assumes "upload_updates n updates" "\<forall>ex. existing = Some ex \<longrightarrow> doc_token_lengths ex = []"
  shows "upload_updates n (token_update n u is_new existing p updates)"
proof -
  let ?d = "\<lparr>tlu_new_doc_count = n, tlu_new_sum_token_lengths = 0, tlu_update_doc_count = u,
        tlu_update_sum_token_lengths = 0, tlu_old_sum_token_lengths = 0\<rparr>"
  let ?good = "\<lambda>v. tlu_new_doc_count v = n \<and> tlu_old_sum_token_lengths v = 0 \<and>
        0 \<le> tlu_new_sum_token_lengths v \<and> 0 \<le> tlu_update_sum_token_lengths v"
  have "?good (unwrap_or ?d (map_of updates (fst p)))"
    using assms(1) by (auto simp: unwrap_or_def upload_updates_def split: option.splits dest!: map_of_SomeD)
  moreover have "(case existing of Some ex \<Rightarrow> (case map_of (doc_token_lengths ex) (fst p) of Some old \<Rightarrow> int old | None \<Rightarrow> 0) | None \<Rightarrow> 0) = 0"
    using assms(2) by (auto split: option.splits)
  ultimately show ?thesis
    using assms(1) hm_upsert_set [of "fst p" ?d _ updates]
    unfolding token_update_def upload_updates_def by (fastforce split: if_splits)
qed

lemma stats_updates_upload:
  assumes "\<forall>i ex. existing i = Some ex \<longrightarrow> doc_token_lengths ex = []"
  shows "upload_updates (int (length (filter snd to_vectorize))) (stats_updates existing to_vectorize docs)"
proof -
  have inner: "upload_updates n (fold (token_update n u is_new (existing i)) ps updates)"
    if "upload_updates n updates" for n u is_new i ps updates
    using that by (induction ps arbitrary: updates) (simp_all add: token_update_upload assms)
  have outer: "upload_updates n (fold (\<lambda>((doc, is_new), dv) updates.
      fold (token_update n u is_new (existing (doc_id doc))) (doc_token_lengths dv) updates) xs updates)"
    if "upload_updates n updates" for n u xs updates
    using that by (induction xs arbitrary: updates) (simp_all add: inner case_prod_beta)
  show ?thesis unfolding stats_updates_def Let_def by (rule outer) (simp add: upload_updates_def)
qed

lemma upload_updates_order: "upload_updates n updates \<Longrightarrow> mset xs = mset updates \<Longrightarrow> upload_updates n xs"
proof -
  assume u: "upload_updates n updates" and m: "mset xs = mset updates"
  have "mset (map fst xs) = mset (map fst updates)" using m by simp
  then have "hm_ok xs" using u mset_eq_imp_distinct_iff unfolding upload_updates_def hm_ok_def by blast
  then show ?thesis using u mset_eq_setD [OF m] unfolding upload_updates_def by simp
qed

text \<open>
  The statistics do not depend on the iteration order of the hash map of updates, although the code takes the number
  of new documents from whichever entry comes first. For the updates that an upload sends, in any order, the document
  count grows by the number of new documents of the upload, every field of the updates gets the average computed from
  its own entry, and the other fields keep theirs.
\<close>

theorem stats_order_independent:
  assumes "\<forall>i ex. existing i = Some ex \<longrightarrow> doc_token_lengths ex = []"
    and "mset xs = mset (stats_updates existing to_vectorize docs)" "xs \<noteq> []"
    and "0 < cs_doc_count stats + int (length (filter snd to_vectorize))"
  shows "cs_doc_count (apply_token_length_updates_to_stats xs stats) = cs_doc_count stats + int (length (filter snd to_vectorize)) \<and>
    map_of (cs_avgdls (apply_token_length_updates_to_stats xs stats)) f =
      (case map_of (stats_updates existing to_vectorize docs) f of
         None \<Rightarrow> map_of (cs_avgdls stats) f
       | Some u \<Rightarrow> Some (new_avgdl (cs_doc_count stats) (cs_doc_count stats + int (length (filter snd to_vectorize)))
           (unwrap_or f64_zero (map_of (cs_avgdls stats) f)) u))"
proof -
  let ?n = "int (length (filter snd to_vectorize))" and ?u = "stats_updates existing to_vectorize docs"
  have u: "upload_updates ?n ?u" by (rule stats_updates_upload [OF assms(1)])
  from upload_updates_order [OF this assms(2)] have xs: "upload_updates ?n xs" .
  then have first: "(case xs of [] \<Rightarrow> 0 | (_, u) # _ \<Rightarrow> tlu_new_doc_count u) = ?n"
    using assms(3) by (cases xs) (auto simp: upload_updates_def)
  have "map_of xs = map_of ?u"
    using xs u mset_eq_setD [OF assms(2)] by (simp add: upload_updates_def hm_ok_def map_of_inject_set)
  then show ?thesis
    using assms(4) xs by (simp add: apply_updates_eq first update_avgdls_get upload_updates_def Let_def)
qed

section \<open>The averages stay meaningful\<close>

text \<open>No document means no average, and averages are non-negative numbers, never NaN.\<close>

definition stats_ok :: "collection_stats \<Rightarrow> bool" where
  "stats_ok stats \<longleftrightarrow> 0 \<le> cs_doc_count stats \<and> (cs_doc_count stats = 0 \<longrightarrow> cs_avgdls stats = []) \<and>
     (\<forall>f a. map_of (cs_avgdls stats) f = Some a \<longrightarrow> fnn a)"

lemma fnn_of_int [simp]: "0 \<le> i \<Longrightarrow> fnn (fp_of_int F i)"
  by (simp add: fp_of_int_def)

lemma fp_of_int_exact: "0 \<le> i \<Longrightarrow> i < 2 ^ 53 \<Longrightarrow> fp_of_int binary64 i = Finite False (of_int i)"
  using fp_of_nat_exact [of "nat i"] by (simp add: fp_of_int_def fp_of_nat_def)

lemma fnn_sub_zero: "fnn x \<Longrightarrow> fnn (fp_sub F x (Finite False 0))"
  by (cases x) (auto simp: fp_sub_def fnn_round)

lemma fnn_mul_right: "0 < c \<Longrightarrow> fnn x \<Longrightarrow> fnn (fp_mul F x (Finite False c))"
  by (cases x) (auto simp: fnn_round)

lemma fnn_div_pos: "fnn x \<Longrightarrow> 0 < m \<Longrightarrow> fnn (fp_div F x (Finite False m))"
  by (cases x) (auto simp: fnn_round)

lemma new_avgdl_fnn:
  assumes "fnn old" "0 \<le> a" "a < 2 ^ 53" "0 < b" "b < 2 ^ 53" "a = 0 \<Longrightarrow> old = f64_zero"
    and "tlu_old_sum_token_lengths u = 0" "0 \<le> tlu_new_sum_token_lengths u" "0 \<le> tlu_update_sum_token_lengths u"
  shows "fnn (new_avgdl a b old u)"
proof -
  have "fnn (f64_mul old (fp_of_int binary64 a))"
    using assms(1-3,6) fp_of_int_exact [of a] by (cases "a = 0") (auto simp: fnn_mul_right f64_zero_def fnn_round)
  moreover have "fp_of_int binary64 0 = Finite False 0" using fp_of_int_exact [of 0] by simp
  ultimately show ?thesis
    using assms fp_of_int_exact [of b] by (simp add: new_avgdl_def fnn_sub_zero fnn_add fnn_div_pos)
qed

lemma apply_upload_ok:
  assumes "upload_updates n updates" "stats_ok stats" "cs_doc_count stats + n < 2 ^ 53"
  shows "stats_ok (apply_token_length_updates_to_stats updates stats)"
proof -
  let ?n = "case updates of [] \<Rightarrow> 0 | (_, u) # _ \<Rightarrow> tlu_new_doc_count u"
  have n: "0 \<le> ?n" "?n \<le> n" using assms(1) by (cases updates; auto simp: upload_updates_def)+
  have "fnn a" if "map_of (update_avgdls (cs_doc_count stats) (cs_doc_count stats + ?n) updates (cs_avgdls stats)) f = Some a"
    "0 < cs_doc_count stats + ?n" for f a
  proof (cases "map_of updates f")
    case None
    then show ?thesis using that assms(1,2) by (simp add: update_avgdls_get upload_updates_def stats_ok_def)
  next
    case (Some u)
    then have a: "a = new_avgdl (cs_doc_count stats) (cs_doc_count stats + ?n) (unwrap_or f64_zero (map_of (cs_avgdls stats) f)) u"
      using that(1) assms(1) by (simp add: update_avgdls_get upload_updates_def)
    have "(f, u) \<in> set updates" using Some by (rule map_of_SomeD)
    then have u: "tlu_old_sum_token_lengths u = 0" "0 \<le> tlu_new_sum_token_lengths u" "0 \<le> tlu_update_sum_token_lengths u"
      using assms(1) by (auto simp: upload_updates_def)
    have "fnn (unwrap_or f64_zero (map_of (cs_avgdls stats) f))"
      using assms(2) by (auto simp: stats_ok_def unwrap_or_def f64_zero_def split: option.splits)
    moreover have "cs_doc_count stats = 0 \<Longrightarrow> unwrap_or f64_zero (map_of (cs_avgdls stats) f) = f64_zero"
      using assms(2) by (simp add: stats_ok_def unwrap_or_def)
    ultimately show ?thesis unfolding a
      using new_avgdl_fnn [OF _ _ _ that(2) _ _ u] assms(2,3) n by (simp add: stats_ok_def)
  qed
  then show ?thesis using n assms(2) by (auto simp: apply_updates_eq Let_def stats_ok_def)
qed



definition job_docs :: "stats_job \<Rightarrow> int" where
  "job_docs j = (case sj_updates j of [] \<Rightarrow> 0 | (_, u) # _ \<Rightarrow> tlu_new_doc_count u)"

definition upload_job :: "stats_job \<Rightarrow> bool" where
  "upload_job j \<longleftrightarrow> upload_updates (job_docs j) (sj_updates j)"

abbreviation total_docs :: "stats_job list \<Rightarrow> int" where
  "total_docs jobs \<equiv> sum_list (map job_docs jobs)"

lemma upload_job_docs: "upload_job j \<Longrightarrow> 0 \<le> job_docs j"
  by (simp add: upload_job_def upload_updates_def)

lemma total_docs_nonneg: "\<forall>j\<in>set jobs. upload_job j \<Longrightarrow> 0 \<le> total_docs jobs"
  by (induction jobs) (auto simp: upload_job_docs)

lemma jobs_ok:
  "\<forall>j\<in>set jobs. upload_job j \<Longrightarrow> stats_ok stats \<Longrightarrow> cs_doc_count stats + total_docs jobs < 2 ^ 53 \<Longrightarrow>
     stats_ok (fold apply_token_length_updates_to_stats (map sj_updates jobs) stats) \<and>
     cs_doc_count (fold apply_token_length_updates_to_stats (map sj_updates jobs) stats) = cs_doc_count stats + total_docs jobs"
proof (induction jobs arbitrary: stats)
  case (Cons j jobs)
  have j: "upload_job j" "0 \<le> job_docs j" "0 \<le> total_docs jobs"
    using Cons.prems(1) upload_job_docs total_docs_nonneg [of jobs] by auto
  have "stats_ok (apply_token_length_updates_to_stats (sj_updates j) stats)"
    using j Cons.prems by (intro apply_upload_ok [of "job_docs j"]) (auto simp: upload_job_def)
  moreover have "cs_doc_count (apply_token_length_updates_to_stats (sj_updates j) stats) = cs_doc_count stats + job_docs j"
    using j(2) Cons.prems(2) by (simp add: apply_updates_eq Let_def stats_ok_def job_docs_def)
  ultimately show ?case using Cons.IH [of "apply_token_length_updates_to_stats (sj_updates j) stats"] Cons.prems by simp
qed simp

definition db_ok :: "int \<Rightarrow> stats_db \<Rightarrow> bool" where
  "db_ok r db \<longleftrightarrow> (\<forall>c. stats_ok (unwrap_or default_collection_stats (db c)) \<and>
     cs_doc_count (unwrap_or default_collection_stats (db c)) + r < 2 ^ 53)"

lemma persist_cases:
  "fst (persist_stats_maps_for_collection env coll maps db) = db \<or>
   fst (persist_stats_maps_for_collection env coll maps db) =
     db(coll \<mapsto> fold apply_token_length_updates_to_stats maps (unwrap_or default_collection_stats (db coll)))"
proof -
  have "fst (set_stats_attempts env coll stats ns db) \<in> {db, db(coll \<mapsto> stats)}" for stats ns
    by (induction ns) (auto simp: set_collection_stats_def split: option.splits)
  then show ?thesis
    by (auto simp: persist_stats_maps_for_collection_def get_collection_stats_def split: option.splits)
qed

lemma flush_group_ok:
  assumes "\<forall>j\<in>set jobs. upload_job j" "db_ok (total_docs jobs + r) (sw_db w)" "0 \<le> r"
  shows "db_ok r (sw_db (flush_group env False (coll, jobs) w))"
proof -
  have nn: "0 \<le> total_docs jobs" using assms(1) by (rule total_docs_nonneg)
  have same: "db_ok r (sw_db w)" unfolding db_ok_def
  proof
    fix c show "stats_ok (unwrap_or default_collection_stats (sw_db w c)) \<and>
        cs_doc_count (unwrap_or default_collection_stats (sw_db w c)) + r < 2 ^ 53"
      using assms(2) [unfolded db_ok_def, rule_format, of c] nn by simp
  qed
  have old: "stats_ok (unwrap_or default_collection_stats (sw_db w coll))"
      "cs_doc_count (unwrap_or default_collection_stats (sw_db w coll)) + total_docs jobs + r < 2 ^ 53"
    using assms(2) by (simp_all add: db_ok_def add.assoc)
  define s where "s = fold apply_token_length_updates_to_stats (map sj_updates jobs) (unwrap_or default_collection_stats (sw_db w coll))"
  have "stats_ok s \<and> cs_doc_count s + r < 2 ^ 53"
    using jobs_ok [OF assms(1) old(1)] old(2) assms(3) by (simp add: s_def)
  then have "db_ok r ((sw_db w)(coll \<mapsto> s))" using same by (simp add: db_ok_def unwrap_or_def)
  then show ?thesis
    using same persist_cases [of env coll "map sj_updates jobs" "sw_db w"] by (auto simp: flush_group_def s_def)
qed

lemma flush_groups_ok:
  assumes "\<forall>j\<in>set (concat (map snd gs)). upload_job j" "db_ok (total_docs (concat (map snd gs)) + r) (sw_db w)" "0 \<le> r"
  shows "db_ok r (sw_db (fold (flush_group env False) gs w))"
  using assms(1,2)
proof (induction gs arbitrary: w)
  case (Cons g gs)
  obtain coll jobs where g: "g = (coll, jobs)" by (cases g)
  have "0 \<le> total_docs (concat (map snd gs)) + r" using Cons.prems(1) assms(3) total_docs_nonneg [of "concat (map snd gs)"] by auto
  then have "db_ok (total_docs (concat (map snd gs)) + r) (sw_db (flush_group env False g w))"
    unfolding g using Cons.prems by (intro flush_group_ok) (auto simp: g add.assoc)
  then show ?case using Cons.IH Cons.prems(1) by simp
qed simp

lemma mset_append_group:
  "mset (concat (map snd (hm_upsert k [] (\<lambda>js. js @ [j]) m))) = add_mset j (mset (concat (map snd m)))"
  unfolding hm_upsert_def by (induction m) auto

lemma group_jobs_mset: "mset (concat (map snd (group_jobs batch))) = mset batch"
proof -
  have "mset (concat (map snd (fold (\<lambda>job. hm_upsert (sj_collection_name job) [] (\<lambda>js. js @ [job])) batch m))) =
      mset batch + mset (concat (map snd m))" for m
    by (induction batch arbitrary: m) (simp_all add: mset_append_group)
  from this [of "[]"] show ?thesis by (simp add: group_jobs_def)
qed

lemma flush_batch_ok:
  assumes "iter_order (sn_groups env)" "\<forall>j\<in>set batch. upload_job j" "db_ok (total_docs batch + r) (sw_db w)" "0 \<le> r"
  shows "db_ok r (sw_db (flush_stats_job_batch env False batch w))"
proof -
  let ?gs = "sn_groups env (group_jobs batch)"
  have "mset (concat (map snd ?gs)) = mset batch"
    using mset_concat_map_cong [OF iter_orderD [OF assms(1)], of snd "group_jobs batch"] group_jobs_mset by simp
  then have "set (concat (map snd ?gs)) = set batch" "total_docs (concat (map snd ?gs)) = total_docs batch"
    by (metis mset_eq_setD, metis mset_map sum_mset_sum_list)
  then show ?thesis unfolding flush_stats_job_batch_def using assms by (intro flush_groups_ok) auto
qed

lemma worker_ok:
  assumes "\<forall>n. iter_order (sn_groups (envs n))" "\<forall>j\<in>set (arrived es). upload_job j" "db_ok (total_docs (arrived es)) (sw_db w)"
  shows "db_ok 0 (sw_db (stats_worker envs False n es w))"
  using assms
proof (induction envs False n es w rule: stats_worker.induct)
  case (1 envs n es w)
  show ?case
  proof (cases "collect_stats_batch es")
    case None
    then show ?thesis using 1(4) collect_none [OF None] by (subst stats_worker.simps) simp
  next
    case (Some p)
    then obtain batch es' where p: "collect_stats_batch es = Some (batch, es')" by (cases p) auto
    have es: "arrived es = batch @ arrived es'" using collect_arrived [OF p] by simp
    have "db_ok (total_docs (arrived es')) (sw_db (flush_stats_job_batch (envs n) False batch w))"
      using 1(2-4) es total_docs_nonneg [of "arrived es'"] by (intro flush_batch_ok) auto
    then show ?thesis using 1(1) [OF p refl 1(2)] 1(3) es p by (subst stats_worker.simps) simp
  qed
qed

lemma upsert_upload_jobs:
  assumes "document_upsert_bulk_internal env coll documents verifies st = (st', r)" "no_lengths st"
  shows "\<exists>jobs. st_jobs st' = st_jobs st @ jobs \<and> (\<forall>j\<in>set jobs. upload_job j)"
proof -
  have job: "upload_job \<lparr>sj_collection_name = coll, sj_updates = stats_updates existing tv docs\<rparr>"
    if ex: "\<forall>i ex. existing i = Some ex \<longrightarrow> doc_token_lengths ex = []" and "stats_updates existing tv docs \<noteq> []" for existing tv docs
  proof -
    have u: "upload_updates (int (length (filter snd tv))) (stats_updates existing tv docs)" by (rule stats_updates_upload [OF ex])
    then have "job_docs \<lparr>sj_collection_name = coll, sj_updates = stats_updates existing tv docs\<rparr> = int (length (filter snd tv))"
      using that(2) by (cases "stats_updates existing tv docs") (auto simp: job_docs_def upload_updates_def)
    with u show ?thesis by (simp add: upload_job_def)
  qed
  have part: "\<exists>jobs. st_jobs st' = st_jobs s @ jobs \<and> (\<forall>j\<in>set jobs. upload_job j)"
    if "apply_partition env coll config existing p drained s = (st', r)"
      "\<forall>i ex. existing i = Some ex \<longrightarrow> doc_token_lengths ex = []" for config existing p drained s
    using that(1) job [OF that(2)]
    by (auto simp: apply_partition_def Let_def enqueue_stats_def split: sum.splits option.splits if_splits)
  have ex: "\<forall>i ex. existing_map ids (get_documents coll (st\<lparr>st_cache := cache\<rparr>) {} ids) i = Some ex \<longrightarrow> doc_token_lengths ex = []" for ids cache
    using assms(2) by (auto simp: existing_map_eq no_lengths_def split: if_splits)
  have none: "\<exists>jobs. st_jobs st'' = st_jobs st @ jobs \<and> (\<forall>j\<in>set jobs. upload_job j)"
    if "st_jobs st'' = st_jobs st" for st''
    using that by (intro exI [of _ "[]"]) simp
  show ?thesis
    using assms(1) part [OF _ ex]
    by (fastforce simp: document_upsert_bulk_internal_def Let_def intro: none split: if_splits prod.splits sum.splits option.splits)
qed

text \<open>
  The statistics that uploads produce stay meaningful. Every job an upload sends is well formed, and the worker,
  whatever database calls fail and however often, keeps the stored statistics valid: the document count is never
  negative, a collection without documents has no averages, and every average is a non-negative number and never NaN,
  as the tokenizers need it (as long as fewer than 2^53 documents are counted).
\<close>

theorem stats_stay_valid:
  assumes "no_lengths st" "document_upsert_bulk_internal ienv coll documents verifies st = (st', r)"
    and "\<forall>n. iter_order (sn_groups (envs n))" "\<forall>j\<in>set (arrived es). upload_job j" "db_ok (total_docs (arrived es)) (sw_db w)"
  shows "(\<exists>jobs. st_jobs st' = st_jobs st @ jobs \<and> (\<forall>j\<in>set jobs. upload_job j)) \<and>
    db_ok 0 (sw_db (stats_worker envs False n es w))"
  using upsert_upload_jobs [OF assms(2,1)] worker_ok [OF assms(3-5)] by blast

section \<open>In a cluster\<close>

definition job_message :: "stats_job \<Rightarrow> json" where
  "job_message j = stats_message (sj_collection_name j) j"

lemma group_jobs_names: "(c, js) \<in> set (group_jobs batch) \<Longrightarrow> j \<in> set js \<Longrightarrow> sj_collection_name j = c"
proof -
  assume "(c, js) \<in> set (group_jobs batch)" "j \<in> set js"
  moreover have "map_of (group_jobs batch) c = Some js"
    using calculation(1) group_jobs_get(3) by (simp add: hm_ok_def)
  then have "js = of_collection c batch" using group_jobs_get(1) [of batch c] by (simp add: unwrap_or_def)
  ultimately show ?thesis by (simp add: of_collection_def)
qed

lemma flush_talk:
  assumes "iter_order (sn_groups env)"
  shows "mset (sw_talk (flush_stats_job_batch env True batch w)) = mset (sw_talk w) + mset (map job_message batch)"
    and "sw_db (flush_stats_job_batch env True batch w) = sw_db w"
proof -
  let ?gs = "sn_groups env (group_jobs batch)"
  have names: "map (stats_message c) js = map job_message js" if "(c, js) \<in> set ?gs" for c js
    using that iter_order_set [OF assms] group_jobs_names by (auto simp: job_message_def)
  have run: "sw_talk (fold (flush_group env True) gs v) = sw_talk v @ map job_message (concat (map snd gs)) \<and>
      sw_db (fold (flush_group env True) gs v) = sw_db v" if "set gs \<subseteq> set ?gs" for gs v
    using that
  proof (induction gs arbitrary: v)
    case (Cons g gs)
    have g: "flush_group env True g v = v\<lparr>sw_talk := sw_talk v @ map job_message (snd g)\<rparr>"
      using Cons.prems names [of "fst g" "snd g"] by (simp add: flush_group_def split_def del: map_eq_conv)
    have "sw_talk (fold (flush_group env True) gs (flush_group env True g v)) =
        sw_talk (flush_group env True g v) @ map job_message (concat (map snd gs)) \<and>
        sw_db (fold (flush_group env True) gs (flush_group env True g v)) = sw_db (flush_group env True g v)"
      using Cons by simp
    then show ?case by (simp add: g)
  qed simp
  have "mset (concat (map snd ?gs)) = mset batch"
    using mset_concat_map_cong [OF iter_orderD [OF assms], of snd "group_jobs batch"] group_jobs_mset by simp
  then have "mset (map job_message (concat (map snd ?gs))) = mset (map job_message batch)" by (metis mset_map)
  then show "mset (sw_talk (flush_stats_job_batch env True batch w)) = mset (sw_talk w) + mset (map job_message batch)"
    "sw_db (flush_stats_job_batch env True batch w) = sw_db w"
    using run [of ?gs w] by (simp_all add: flush_stats_job_batch_def)
qed

text \<open>In a cluster the database is left alone and every job is published exactly once.\<close>

theorem cluster_publishes_each_job:
  assumes "\<forall>n. iter_order (sn_groups (envs n))"
  shows "sw_db (stats_worker envs True n es w) = sw_db w \<and>
    mset (sw_talk (stats_worker envs True n es w)) = mset (sw_talk w) + mset (map job_message (arrived es))"
  using assms
proof (induction envs True n es w rule: stats_worker.induct)
  case (1 envs n es w)
  show ?case
  proof (cases "collect_stats_batch es")
    case None
    then show ?thesis using collect_none [OF None] by (subst (1 2) stats_worker.simps) simp
  next
    case (Some p)
    then obtain batch es' where p: "collect_stats_batch es = Some (batch, es')" by (cases p) auto
    have es: "arrived es = batch @ arrived es'" using collect_arrived [OF p] by simp
    have step: "stats_worker envs True n es w = stats_worker envs True (Suc n) es' (flush_stats_job_batch (envs n) True batch w)"
      using p by (subst stats_worker.simps) simp
    show ?thesis unfolding step using 1(1) [OF p refl 1(2)] flush_talk [of "envs n" batch w] 1(2) by (simp add: es)
  qed
qed

section \<open>Examples\<close>

definition calm_stats_env :: stats_env where
  "calm_stats_env = \<lparr>sn_get_error = (\<lambda>_. None), sn_set_error = (\<lambda>_ n. if n = 1 then Some (NotFound ''busy'') else None), sn_groups = (\<lambda>m. m)\<rparr>"

definition example_update :: token_length_update where
  "example_update = \<lparr>tlu_new_doc_count = 1, tlu_new_sum_token_lengths = 3, tlu_update_doc_count = 0,
     tlu_update_sum_token_lengths = 0, tlu_old_sum_token_lengths = 0\<rparr>"

definition example_job :: stats_job where
  "example_job = \<lparr>sj_collection_name = ''c'', sj_updates = [(''name_w'', example_update)]\<rparr>"

lemma calm_stats: "iter_order (sn_groups calm_stats_env)" "healthy calm_stats_env c"
  by (auto simp: calm_stats_env_def healthy_def STATS_SET_STATS_MAX_ATTEMPTS_def)

theorem stats_batching_transparent_witness:
  "sw_db (stats_worker (\<lambda>_. calm_stats_env) False 0 [Arrive example_job, Elapsed, Arrive example_job] \<lparr>sw_db = Map.empty, sw_talk = []\<rparr>) ''c'' =
   stats_after [example_job, example_job] Map.empty ''c''"
  using stats_batching_transparent [of "\<lambda>_. calm_stats_env" "''c''" 0] calm_stats by simp

lemma example_stats_updates:
  "stats_updates Map.empty [(example_document ''a'' 1, True)] [set_doc_token_lengths [(''name_w'', 3)] (example_document ''a'' 1)] =
     [(''name_w'', example_update)]"
  by (simp add: stats_updates_def token_update_def hm_upsert_def unwrap_or_def example_update_def example_document_def)

theorem stats_order_independent_witness:
  "cs_doc_count (apply_token_length_updates_to_stats [(''name_w'', example_update)] default_collection_stats) = 1"
  using stats_order_independent [of Map.empty "[(''name_w'', example_update)]" "[(example_document ''a'' 1, True)]"
      "[set_doc_token_lengths [(''name_w'', 3)] (example_document ''a'' 1)]" default_collection_stats]
  unfolding example_stats_updates by (simp add: default_collection_stats_def)

theorem stats_stay_valid_witness:
  "db_ok 0 (sw_db (stats_worker (\<lambda>_. calm_stats_env) False 0 [Arrive example_job] \<lparr>sw_db = Map.empty, sw_talk = []\<rparr>))"
proof -
  have "document_upsert_bulk_internal example_env ''c'' [] [] (example_store Map.empty []) =
      (example_store Map.empty [], Inr \<lparr>buo_skipped = [], buo_drained = []\<rparr>)"
    by (simp add: document_upsert_bulk_internal_def)
  moreover have "no_lengths (example_store Map.empty [])" by (simp add: no_lengths_def example_store_def)
  moreover have "upload_job example_job" "job_docs example_job = 1"
    by (simp_all add: upload_job_def upload_updates_def job_docs_def example_job_def example_update_def hm_ok_def)
  moreover have "db_ok 1 Map.empty" by (simp add: db_ok_def unwrap_or_def default_collection_stats_def stats_ok_def)
  ultimately show ?thesis
    using stats_stay_valid [of "example_store Map.empty []" example_env "''c''" "[]" "[]" "example_store Map.empty []"
        "Inr \<lparr>buo_skipped = [], buo_drained = []\<rparr>" "\<lambda>_. calm_stats_env" "[Arrive example_job]" "\<lparr>sw_db = Map.empty, sw_talk = []\<rparr>" 0] calm_stats
    by simp
qed

text \<open>
  An upload whose texts are all empty stores the average length 0: the value for which the tokenizers can panic.
\<close>

lemma zero_average_stored:
  "map_of (cs_avgdls (apply_token_length_updates_to_stats [(''name_w'', example_update\<lparr>tlu_new_sum_token_lengths := 0\<rparr>)]
     default_collection_stats)) ''name_w'' = Some (Finite False 0)"
  using fp_of_int_exact [of 0] fp_of_int_exact [of 1]
  by (simp add: apply_token_length_updates_to_stats_def default_collection_stats_def example_update_def new_avgdl_def unwrap_or_def
      f64_zero_def fp_sub_def fp_round_def)

end
