(* ===== verification/Settings_Key.thy ===== *)
theory Settings_Key
  imports Ingestion
begin

text \<open>
  The key under which waiting searches are put together: equality and hash of \<open>SearchQuerySettings\<close>
  (\<open>src/src/models.rs\<close>). Hashing feeds words to the state; a hash is modelled by what it feeds. The derived
  implementations of the standard library are written out: a list feeds its length and its elements, an option its
  discriminant and its value. The printed form of a JSON number is the argument \<open>num_str\<close>.
\<close>

section \<open>Equality\<close>

definition opt_f64_eq :: "fp option \<Rightarrow> fp option \<Rightarrow> bool" where
  "opt_f64_eq a b = (case (a, b) of (None, None) \<Rightarrow> True | (Some x, Some y) \<Rightarrow> x = y | _ \<Rightarrow> False)"

definition vector_search_option_eq :: "vector_search_option \<Rightarrow> vector_search_option \<Rightarrow> bool" where
  "vector_search_option_eq a b \<longleftrightarrow>
     vso_vector_name a = vso_vector_name b \<and> vso_field a = vso_field b \<and> vso_weight a = vso_weight b \<and>
     vso_wmtr_trigram_weight a = vso_wmtr_trigram_weight b \<and>
     opt_f64_eq (vso_raw_score_threshold a) (vso_raw_score_threshold b)"

definition custom_vector_eq :: "custom_vector \<Rightarrow> custom_vector \<Rightarrow> bool" where
  "custom_vector_eq a b \<longleftrightarrow> cv_vector_name a = cv_vector_name b \<and> json_eq (cv_vector a) (cv_vector b)"

fun metadata_filter_eq :: "metadata_filter \<Rightarrow> metadata_filter \<Rightarrow> bool"
and metadata_filters_eq :: "metadata_filter list \<Rightarrow> metadata_filter list \<Rightarrow> bool"
and metadata_filters_opt_eq :: "metadata_filter list option \<Rightarrow> metadata_filter list option \<Rightarrow> bool"
and metadata_filter_opt_eq :: "metadata_filter option \<Rightarrow> metadata_filter option \<Rightarrow> bool" where
  "metadata_filter_eq (MetadataFilter a1 o1 n1 k1 p1 v1) (MetadataFilter a2 o2 n2 k2 p2 v2) \<longleftrightarrow>
     metadata_filters_opt_eq a1 a2 \<and> metadata_filters_opt_eq o1 o2 \<and> metadata_filter_opt_eq n1 n2 \<and>
     k1 = k2 \<and> p1 = p2 \<and> rel_option json_eq v1 v2"
| "metadata_filters_eq [] [] = True"
| "metadata_filters_eq (x # xs) (y # ys) = (metadata_filter_eq x y \<and> metadata_filters_eq xs ys)"
| "metadata_filters_eq _ _ = False"
| "metadata_filters_opt_eq None None = True"
| "metadata_filters_opt_eq (Some xs) (Some ys) = metadata_filters_eq xs ys"
| "metadata_filters_opt_eq _ _ = False"
| "metadata_filter_opt_eq None None = True"
| "metadata_filter_opt_eq (Some x) (Some y) = metadata_filter_eq x y"
| "metadata_filter_opt_eq _ _ = False"

definition settings_eq :: "search_query_settings \<Rightarrow> search_query_settings \<Rightarrow> bool" where
  "settings_eq a b \<longleftrightarrow>
     list_all2 vector_search_option_eq (sqs_vector_options a) (sqs_vector_options b) \<and>
     rel_option (list_all2 custom_vector_eq) (sqs_custom_vectors a) (sqs_custom_vectors b) \<and>
     sqs_limit a = sqs_limit b \<and>
     opt_f64_eq (sqs_score_threshold a) (sqs_score_threshold b) \<and>
     sqs_document_tags a = sqs_document_tags b \<and>
     sqs_document_tags_match_all a = sqs_document_tags_match_all b \<and>
     metadata_filter_opt_eq (sqs_metadata_filter a) (sqs_metadata_filter b) \<and>
     sqs_raw_scores a = sqs_raw_scores b \<and>
     sqs_fusion_mode a = sqs_fusion_mode b \<and>
     sqs_join a = sqs_join b \<and>
     sqs_exclude a = sqs_exclude b \<and>
     sqs_group_field a = sqs_group_field b \<and>
     sqs_group_max a = sqs_group_max b \<and>
     sqs_group_max_fetches a = sqs_group_max_fetches b \<and>
     sqs_facets a = sqs_facets b \<and>
     sqs_facet_options a = sqs_facet_options b"

section \<open>Hash\<close>

datatype hash_word =
    H8 nat
  | HBool bool
  | HStr string
  | HLen nat
  | H32 nat
  | HBits fp
  | HTag nat

fun hash_json_value :: "(number \<Rightarrow> string) \<Rightarrow> json \<Rightarrow> hash_word list"
and hash_json_list :: "(number \<Rightarrow> string) \<Rightarrow> json list \<Rightarrow> hash_word list"
and hash_json_map :: "(number \<Rightarrow> string) \<Rightarrow> (string \<times> json) list \<Rightarrow> hash_word list" where
  "hash_json_value num_str Null = [H8 0]"
| "hash_json_value num_str (Bool b) = [H8 1, HBool b]"
| "hash_json_value num_str (Number n) = [H8 2, HStr (num_str n)]"
| "hash_json_value num_str (String s) = [H8 3, HStr s]"
| "hash_json_value num_str (Array xs) = H8 4 # HLen (length xs) # hash_json_list num_str xs"
| "hash_json_value num_str (Object m) = H8 5 # HLen (length m) # hash_json_map num_str m"
| "hash_json_list num_str [] = []"
| "hash_json_list num_str (x # xs) = hash_json_value num_str x @ hash_json_list num_str xs"
| "hash_json_map num_str [] = []"
| "hash_json_map num_str ((k, x) # m) = HStr k # hash_json_value num_str x @ hash_json_map num_str m"

definition hash_opt_f64 :: "fp option \<Rightarrow> hash_word list" where
  "hash_opt_f64 x = (case x of None \<Rightarrow> [H8 0] | Some f \<Rightarrow> [H8 1, HBits f])"

definition hash_list :: "('a \<Rightarrow> hash_word list) \<Rightarrow> 'a list \<Rightarrow> hash_word list" where
  "hash_list h xs = HLen (length xs) # concat (map h xs)"

definition hash_option :: "('a \<Rightarrow> hash_word list) \<Rightarrow> 'a option \<Rightarrow> hash_word list" where
  "hash_option h x = (case x of None \<Rightarrow> [HTag 0] | Some v \<Rightarrow> HTag 1 # h v)"

definition hash_str :: "string \<Rightarrow> hash_word list" where
  "hash_str s = [HStr s]"

definition hash_document_field :: "document_field \<Rightarrow> hash_word list" where
  "hash_document_field f = [HTag (case f of FName \<Rightarrow> 0 | FDescription \<Rightarrow> 1 | FContent \<Rightarrow> 2 | FTemplate \<Rightarrow> 3)]"

definition hash_exclude_field :: "search_exclude_field \<Rightarrow> hash_word list" where
  "hash_exclude_field f = [HTag (case f of XName \<Rightarrow> 0 | XDescription \<Rightarrow> 1 | XContent \<Rightarrow> 2 | XTags \<Rightarrow> 3 | XMetadata \<Rightarrow> 4)]"

definition hash_join_field :: "join_field \<Rightarrow> hash_word list" where
  "hash_join_field j = (case j of Single s \<Rightarrow> [HTag 0, HStr s] | Multiple ss \<Rightarrow> HTag 1 # hash_list hash_str ss)"

definition hash_facet_options :: "facet_options \<Rightarrow> hash_word list" where
  "hash_facet_options f = [H32 (fo_prefetch_multiplier f), H32 (fo_max_values f)]"

definition custom_vector_hash :: "(number \<Rightarrow> string) \<Rightarrow> custom_vector \<Rightarrow> hash_word list" where
  "custom_vector_hash num_str v = hash_str (cv_vector_name v) @ hash_json_value num_str (cv_vector v)"

definition vector_search_option_hash :: "vector_search_option \<Rightarrow> hash_word list" where
  "vector_search_option_hash w =
     hash_str (vso_vector_name w) @ [HBits (vso_weight w)] @ hash_option hash_document_field (vso_field w) @
     [HBits (vso_wmtr_trigram_weight w)] @ hash_opt_f64 (vso_raw_score_threshold w)"

fun metadata_filter_hash :: "(number \<Rightarrow> string) \<Rightarrow> metadata_filter \<Rightarrow> hash_word list"
and metadata_filters_hash :: "(number \<Rightarrow> string) \<Rightarrow> metadata_filter list \<Rightarrow> hash_word list"
and metadata_filters_opt_hash :: "(number \<Rightarrow> string) \<Rightarrow> metadata_filter list option \<Rightarrow> hash_word list"
and metadata_filter_opt_hash :: "(number \<Rightarrow> string) \<Rightarrow> metadata_filter option \<Rightarrow> hash_word list" where
  "metadata_filter_hash num_str (MetadataFilter a o1 n k p v) =
     metadata_filters_opt_hash num_str a @ metadata_filters_opt_hash num_str o1 @ metadata_filter_opt_hash num_str n @
     hash_option hash_str k @ hash_option hash_str p @ (case v of None \<Rightarrow> [] | Some x \<Rightarrow> hash_json_value num_str x)"
| "metadata_filters_hash num_str [] = []"
| "metadata_filters_hash num_str (x # xs) = metadata_filter_hash num_str x @ metadata_filters_hash num_str xs"
| "metadata_filters_opt_hash num_str None = [HTag 0]"
| "metadata_filters_opt_hash num_str (Some xs) = HTag 1 # HLen (length xs) # metadata_filters_hash num_str xs"
| "metadata_filter_opt_hash num_str None = [HTag 0]"
| "metadata_filter_opt_hash num_str (Some x) = HTag 1 # metadata_filter_hash num_str x"

definition settings_hash :: "(number \<Rightarrow> string) \<Rightarrow> search_query_settings \<Rightarrow> hash_word list" where
  "settings_hash num_str s =
     hash_list vector_search_option_hash (sqs_vector_options s) @
     hash_option (hash_list (custom_vector_hash num_str)) (sqs_custom_vectors s) @
     [H32 (sqs_limit s)] @
     hash_opt_f64 (sqs_score_threshold s) @
     hash_option (hash_list hash_str) (sqs_document_tags s) @
     [HBool (sqs_document_tags_match_all s)] @
     metadata_filter_opt_hash num_str (sqs_metadata_filter s) @
     [HBool (sqs_raw_scores s)] @
     hash_str (sqs_fusion_mode s) @
     hash_option hash_join_field (sqs_join s) @
     hash_option (hash_list hash_exclude_field) (sqs_exclude s) @
     hash_option hash_str (sqs_group_field s) @
     [H32 (sqs_group_max s), H32 (sqs_group_max_fetches s), HBool (sqs_facets s)] @
     hash_option hash_facet_options (sqs_facet_options s)"

section \<open>Keys are equal exactly when the settings are\<close>

text \<open>
  A floating point number of a JSON text is never NaN, and its magnitude is not negative. It may be a
  negative zero, which is equal to zero as a number: \<open>canon\<close> replaces it and changes nothing else.
\<close>

fun json_float :: "fp \<Rightarrow> bool" where
  "json_float (Finite s m) = (0 \<le> m)"
| "json_float (Infinity s) = True"
| "json_float NaN = False"

fun json_number :: "number \<Rightarrow> bool" where
  "json_number (Float x) = json_float x"
| "json_number _ = True"

fun json_ok :: "json \<Rightarrow> bool"
and json_list_ok :: "json list \<Rightarrow> bool"
and json_map_ok :: "(string \<times> json) list \<Rightarrow> bool" where
  "json_ok (Number n) = json_number n"
| "json_ok (Array xs) = json_list_ok xs"
| "json_ok (Object m) = json_map_ok m"
| "json_ok _ = True"
| "json_list_ok [] = True"
| "json_list_ok (x # xs) = (json_ok x \<and> json_list_ok xs)"
| "json_map_ok [] = True"
| "json_map_ok ((k, x) # m) = (json_ok x \<and> json_map_ok m)"

fun canon_float :: "fp \<Rightarrow> fp" where
  "canon_float (Finite s m) = (if m = 0 then Finite False 0 else Finite s m)"
| "canon_float x = x"

fun canon_number :: "number \<Rightarrow> number" where
  "canon_number (Float x) = Float (canon_float x)"
| "canon_number n = n"

fun canon_json :: "json \<Rightarrow> json"
and canon_list :: "json list \<Rightarrow> json list"
and canon_map :: "(string \<times> json) list \<Rightarrow> (string \<times> json) list" where
  "canon_json (Number n) = Number (canon_number n)"
| "canon_json (Array xs) = Array (canon_list xs)"
| "canon_json (Object m) = Object (canon_map m)"
| "canon_json v = v"
| "canon_list [] = []"
| "canon_list (x # xs) = canon_json x # canon_list xs"
| "canon_map [] = []"
| "canon_map ((k, x) # m) = (k, canon_json x) # canon_map m"

fun filter_ok :: "metadata_filter \<Rightarrow> bool"
and filters_ok :: "metadata_filter list \<Rightarrow> bool"
and filters_opt_ok :: "metadata_filter list option \<Rightarrow> bool"
and filter_opt_ok :: "metadata_filter option \<Rightarrow> bool" where
  "filter_ok (MetadataFilter a o1 n k p v) \<longleftrightarrow>
     filters_opt_ok a \<and> filters_opt_ok o1 \<and> filter_opt_ok n \<and> pred_option json_ok v"
| "filters_ok [] = True"
| "filters_ok (x # xs) = (filter_ok x \<and> filters_ok xs)"
| "filters_opt_ok None = True"
| "filters_opt_ok (Some xs) = filters_ok xs"
| "filter_opt_ok None = True"
| "filter_opt_ok (Some x) = filter_ok x"

fun canon_filter :: "metadata_filter \<Rightarrow> metadata_filter"
and canon_filters :: "metadata_filter list \<Rightarrow> metadata_filter list"
and canon_filters_opt :: "metadata_filter list option \<Rightarrow> metadata_filter list option"
and canon_filter_opt :: "metadata_filter option \<Rightarrow> metadata_filter option" where
  "canon_filter (MetadataFilter a o1 n k p v) =
     MetadataFilter (canon_filters_opt a) (canon_filters_opt o1) (canon_filter_opt n) k p (map_option canon_json v)"
| "canon_filters [] = []"
| "canon_filters (x # xs) = canon_filter x # canon_filters xs"
| "canon_filters_opt None = None"
| "canon_filters_opt (Some xs) = Some (canon_filters xs)"
| "canon_filter_opt None = None"
| "canon_filter_opt (Some x) = Some (canon_filter x)"

definition canon_custom :: "custom_vector \<Rightarrow> custom_vector" where
  "canon_custom v = v\<lparr>cv_vector := canon_json (cv_vector v)\<rparr>"

definition canon_settings :: "search_query_settings \<Rightarrow> search_query_settings" where
  "canon_settings s =
     s\<lparr>sqs_custom_vectors := map_option (map canon_custom) (sqs_custom_vectors s),
       sqs_metadata_filter := canon_filter_opt (sqs_metadata_filter s)\<rparr>"

definition settings_ok :: "search_query_settings \<Rightarrow> bool" where
  "settings_ok s \<longleftrightarrow> filter_opt_ok (sqs_metadata_filter s) \<and>
     pred_option (list_all (\<lambda>v. json_ok (cv_vector v))) (sqs_custom_vectors s)"

text \<open>Settings without a negative zero among their JSON numbers.\<close>

definition plain_settings :: "search_query_settings \<Rightarrow> bool" where
  "plain_settings s \<longleftrightarrow> settings_ok s \<and> canon_settings s = s"

lemma canon_float_eq: "json_float x \<Longrightarrow> json_float y \<Longrightarrow> fp_eq x y \<longleftrightarrow> canon_float x = canon_float y"
  by (cases x; cases y) (auto simp: fp_eq_def fp_le_def)

lemma canon_number_eq: "json_number a \<Longrightarrow> json_number b \<Longrightarrow> number_eq a b \<longleftrightarrow> canon_number a = canon_number b"
  by (cases a; cases b) (auto simp: canon_float_eq)

lemma canon_json_eq:
  "json_ok x \<Longrightarrow> json_ok y \<Longrightarrow> json_eq x y \<longleftrightarrow> canon_json x = canon_json y"
  "json_list_ok xs \<Longrightarrow> json_list_ok ys \<Longrightarrow> json_list_eq xs ys \<longleftrightarrow> canon_list xs = canon_list ys"
  "json_map_ok m \<Longrightarrow> json_map_ok n \<Longrightarrow> json_map_eq m n \<longleftrightarrow> canon_map m = canon_map n"
  by (induction x y and xs ys and m n rule: json_eq_json_list_eq_json_map_eq.induct) (auto simp: canon_number_eq)

lemma rel_option_canon:
  "pred_option json_ok v \<Longrightarrow> pred_option json_ok w \<Longrightarrow>
     rel_option json_eq v w \<longleftrightarrow> map_option canon_json v = map_option canon_json w"
  by (cases v; cases w) (auto simp: canon_json_eq)

lemma canon_filter_eq:
  "filter_ok f \<Longrightarrow> filter_ok g \<Longrightarrow> metadata_filter_eq f g \<longleftrightarrow> canon_filter f = canon_filter g"
  "filters_ok fs \<Longrightarrow> filters_ok gs \<Longrightarrow> metadata_filters_eq fs gs \<longleftrightarrow> canon_filters fs = canon_filters gs"
  "filters_opt_ok a \<Longrightarrow> filters_opt_ok b \<Longrightarrow> metadata_filters_opt_eq a b \<longleftrightarrow> canon_filters_opt a = canon_filters_opt b"
  "filter_opt_ok c \<Longrightarrow> filter_opt_ok d \<Longrightarrow> metadata_filter_opt_eq c d \<longleftrightarrow> canon_filter_opt c = canon_filter_opt d"
  by (induction f g and fs gs and a b and c d
      rule: metadata_filter_eq_metadata_filters_eq_metadata_filters_opt_eq_metadata_filter_opt_eq.induct)
    (auto simp: rel_option_canon)

lemma opt_f64_eq [simp]: "opt_f64_eq a b \<longleftrightarrow> a = b"
  by (cases a; cases b) (simp_all add: opt_f64_eq_def)

lemma vector_search_option_eq [simp]: "vector_search_option_eq a b \<longleftrightarrow> a = b"
  by (cases a; cases b) (auto simp: vector_search_option_eq_def)

lemma custom_vector_canon:
  "json_ok (cv_vector v) \<Longrightarrow> json_ok (cv_vector w) \<Longrightarrow>
     custom_vector_eq v w \<longleftrightarrow> canon_custom v = canon_custom (w :: custom_vector)"
  by (cases v; cases w) (simp add: custom_vector_eq_def canon_custom_def canon_json_eq)

lemma list_all2_custom_canon:
  "list_all (\<lambda>v. json_ok (cv_vector v)) vs \<Longrightarrow> list_all (\<lambda>v. json_ok (cv_vector v)) ws \<Longrightarrow>
     list_all2 custom_vector_eq vs ws \<longleftrightarrow> map canon_custom vs = map canon_custom (ws :: custom_vector list)"
proof (induction vs arbitrary: ws)
  case (Cons v vs)
  then show ?case by (cases ws) (auto simp: custom_vector_canon)
qed auto

lemma rel_option_custom_canon:
  "pred_option (list_all (\<lambda>v. json_ok (cv_vector v))) a \<Longrightarrow> pred_option (list_all (\<lambda>v. json_ok (cv_vector v))) b \<Longrightarrow>
     rel_option (list_all2 custom_vector_eq) a b \<longleftrightarrow>
       map_option (map canon_custom) a = map_option (map canon_custom) (b :: custom_vector list option)"
  by (cases a; cases b) (auto simp: list_all2_custom_canon)

lemma settings_fields_eq:
  "(x :: search_query_settings) = y \<longleftrightarrow>
     sqs_vector_options x = sqs_vector_options y \<and>
     sqs_custom_vectors x = sqs_custom_vectors y \<and>
     sqs_limit x = sqs_limit y \<and>
     sqs_score_threshold x = sqs_score_threshold y \<and>
     sqs_document_tags x = sqs_document_tags y \<and>
     sqs_document_tags_match_all x = sqs_document_tags_match_all y \<and>
     sqs_metadata_filter x = sqs_metadata_filter y \<and>
     sqs_raw_scores x = sqs_raw_scores y \<and>
     sqs_fusion_mode x = sqs_fusion_mode y \<and>
     sqs_join x = sqs_join y \<and>
     sqs_exclude x = sqs_exclude y \<and>
     sqs_group_field x = sqs_group_field y \<and>
     sqs_group_max x = sqs_group_max y \<and>
     sqs_group_max_fetches x = sqs_group_max_fetches y \<and>
     sqs_facets x = sqs_facets y \<and>
     sqs_facet_options x = sqs_facet_options y"
  by (cases x; cases y) simp

lemma canon_settings_eq:
  assumes "settings_ok a" "settings_ok b"
  shows "settings_eq a b \<longleftrightarrow> canon_settings a = canon_settings b"
proof -
  have "vector_search_option_eq = (=)" by (intro ext) simp
  then have all2: "list_all2 vector_search_option_eq xs ys \<longleftrightarrow> xs = ys" for xs ys by (simp add: list.rel_eq)
  show ?thesis
    using assms unfolding settings_eq_def settings_ok_def settings_fields_eq [of "canon_settings a"]
    by (simp add: all2 rel_option_custom_canon canon_filter_eq canon_settings_def)
qed

lemma plain_settings_eq: "plain_settings a \<Longrightarrow> plain_settings b \<Longrightarrow> settings_eq a b \<longleftrightarrow> a = b"
  using canon_settings_eq [of a b] by (simp add: plain_settings_def)

text \<open>
  C26: The key of the search batches is exact: the keys of two searches are equal exactly when all their settings are
  the same, bit for bit in the floating point fields, except that a negative zero among the JSON numbers of the filter
  and of the custom vectors counts as zero. So a batch never answers a query with the settings of another one. The
  JSON numbers are not NaN, which no JSON text can express.
\<close>

theorem settings_key_exact:
  assumes "settings_ok a" "settings_ok b"
  shows "settings_eq a b \<longleftrightarrow> canon_settings a = canon_settings b"
  by (rule canon_settings_eq [OF assms])

text \<open>
  With a negative zero the law between equality and hash fails: the values are equal as numbers, but the hash is taken
  of what they print.
\<close>

theorem negative_zero_breaks_hash:
  assumes "num_str (Float (Finite True 0)) \<noteq> num_str (Float (Finite False 0))"
  shows "settings_eq (s\<lparr>sqs_vector_options := [], sqs_custom_vectors := None, sqs_metadata_filter := Some (mf_cmp k p (Some (Number (Float (Finite True 0)))))\<rparr>)
      (s\<lparr>sqs_vector_options := [], sqs_custom_vectors := None, sqs_metadata_filter := Some (mf_cmp k p (Some (Number (Float (Finite False 0)))))\<rparr>) \<and>
    settings_hash num_str (s\<lparr>sqs_vector_options := [], sqs_custom_vectors := None, sqs_metadata_filter := Some (mf_cmp k p (Some (Number (Float (Finite True 0)))))\<rparr>) \<noteq>
    settings_hash num_str (s\<lparr>sqs_vector_options := [], sqs_custom_vectors := None, sqs_metadata_filter := Some (mf_cmp k p (Some (Number (Float (Finite False 0)))))\<rparr>)"
  using assms by (simp add: settings_eq_def settings_hash_def mf_cmp_def fp_eq_def)

theorem settings_key_exact_witness:
  "\<not> settings_eq (example_settings\<lparr>sqs_limit := 1\<rparr>) (example_settings\<lparr>sqs_limit := 2\<rparr>)"
proof -
  have "settings_ok (example_settings\<lparr>sqs_limit := n\<rparr>)" for n
    by (simp add: settings_ok_def example_settings_def mf_negate_def mf_cmp_def)
  from settings_key_exact [OF this [of 1] this [of 2]]
  show ?thesis by (simp add: example_settings_def canon_settings_def)
qed

end
