(* ===== verification/Search_Pipeline.thy ===== *)
theory Search_Pipeline
  imports Query_Vectors Search_Join Settings_Key
begin

text \<open>
  The way of a search through the encoder (\<open>src/src/encoder.rs\<close>): the bounded queue, the micro-batches, the buckets of
  searches with one key, and for each bucket the configuration, the checks, the query vectors, the search and the joins.
  A reply channel is the number of its job. A panic in a micro-batch ends its task and the replies it still owed are
  answered with \<open>IngressWorkerExited\<close>; a panic in the search pool, which has no panic handler, aborts the process.
  The answers of the database are in \<open>pipeline_env\<close>, those for the search of a job by the number of the job.
\<close>

section \<open>Jobs and answers\<close>

definition SEARCH_INGRESS_QUEUE_CAPACITY :: nat where
  "SEARCH_INGRESS_QUEUE_CAPACITY = 10240"

definition SEARCH_INGRESS_MICROBATCH_DRAIN_MAX :: nat where
  "SEARCH_INGRESS_MICROBATCH_DRAIN_MAX = 64"

record search_job =
  job_collection :: string
  job_query :: search_query
  job_reply :: nat

type_synonym search_reply = "nat \<times> (search_error + search_outcome)"

record pipeline_env =
  pe_info :: "string \<Rightarrow> db_error + collection_config_internal"
  pe_info_again :: "string \<Rightarrow> db_error + collection_config_internal"
  pe_now :: nat
  pe_now_again :: nat
  pe_parse_dt :: "string \<Rightarrow> string + int"
  pe_parse_f64 :: "string \<Rightarrow> fp"
  pe_pest_error :: "string \<Rightarrow> string"
  pe_num_str :: "number \<Rightarrow> string"
  pe_embedders :: embedders
  pe_orders :: query_orders
  pe_search :: "nat \<Rightarrow> search_env"
  pe_join :: "nat \<Rightarrow> join_env"

datatype task_end = Finished | Panicked | Aborted

record pipeline =
  pl_cache :: config_cache
  pl_replies :: "search_reply list"
  pl_end :: task_end

definition reply_all :: "search_job list \<Rightarrow> search_error \<Rightarrow> search_reply list" where
  "reply_all jobs e = map (\<lambda>j. (job_reply j, Inl e)) jobs"

section \<open>One bucket\<close>

definition bucket_config_error :: "db_error \<Rightarrow> search_error" where
  "bucket_config_error e = (case e of NotFound _ \<Rightarrow> SearchNotFound ''Collection configuration not found'' | e \<Rightarrow> Db e)"

definition bucket_checks :: "pipeline_env \<Rightarrow> collection_config_internal \<Rightarrow> search_query_settings \<Rightarrow> search_error + unit" where
  "bucket_checks env config settings =
     and_then (case sqs_metadata_filter settings of
                 None \<Rightarrow> Inr ()
               | Some f \<Rightarrow> map_err (\<lambda>e. InvalidFilter (Inr e)) (validate_metadata_filter (pe_parse_dt env) config f)) (\<lambda>_.
       case sqs_group_field settings of
         None \<Rightarrow> Inr ()
       | Some f \<Rightarrow> map_err (\<lambda>e. InvalidFilter (Inl e)) (validate_group_field config f))"

text \<open>\<open>None\<close> is a parser that does not end.\<close>

definition bucket_joins :: "pipeline_env \<Rightarrow> search_query_settings \<Rightarrow> (search_error + join_spec list) option" where
  "bucket_joins env settings =
     (case sqs_join settings of
        None \<Rightarrow> Some (Inr [])
      | Some join \<Rightarrow> parse_join_field_validated (pe_parse_f64 env) (pe_pest_error env) join)"

definition bucket_required_fields :: "join_spec list \<Rightarrow> search_query_settings \<Rightarrow> search_exclude_field set" where
  "bucket_required_fields join_specs settings =
     required_fields_for_joins join_specs \<union> required_fields_for_group (sqs_group_field settings) \<union>
     required_fields_for_facets (sqs_facets settings)"

text \<open>
  The vectors of the queries; when they fail under a configuration from the cache it is read again. The result is the
  cache, the configuration that goes on, and the vectors.
\<close>

definition spawn_vectorize ::
    "pipeline_env \<Rightarrow> collection_config_internal \<Rightarrow> string list \<Rightarrow> search_query_settings \<Rightarrow> (string + search_query_with_vectors list) option" where
  "spawn_vectorize env config query_texts settings =
     vectorize_search_queries (pe_embedders env) (pe_orders env) query_texts settings (cci_vectors config) False"

definition bucket_vectors ::
    "pipeline_env \<Rightarrow> string \<Rightarrow> collection_config_internal \<Rightarrow> bool \<Rightarrow> string list \<Rightarrow> search_query_settings \<Rightarrow> config_cache \<Rightarrow>
     config_cache \<times> collection_config_internal \<times> (string + search_query_with_vectors list) option" where
  "bucket_vectors env coll config from_cache query_texts settings cache =
     (case spawn_vectorize env config query_texts settings of
        Some (Inl e) \<Rightarrow>
          if from_cache
          then case get_collection_info_cached (pe_info_again env coll) (pe_now_again env) coll (cache_invalidate coll cache) of
                 (cache, Inr (fresh, _)) \<Rightarrow> (cache, fresh, spawn_vectorize env fresh query_texts settings)
               | (cache, Inl _) \<Rightarrow> (cache, config, Some (Inl e))
          else (cache, config, Some (Inl e))
      | first \<Rightarrow> (cache, config, first))"

definition search_db_error :: "db_error \<Rightarrow> search_error" where
  "search_db_error e = (case e of Config m \<Rightarrow> InvalidFilter (Inl m) | e \<Rightarrow> Db e)"

text \<open>The answer to one job; \<open>None\<close> is a panic of the search.\<close>

definition answer_job ::
    "pipeline_env \<Rightarrow> collection_config_internal \<Rightarrow> join_spec list \<Rightarrow> search_exclude_field set \<Rightarrow> search_job \<Rightarrow> search_query_with_vectors \<Rightarrow>
     config_cache \<Rightarrow> (config_cache \<times> (search_error + search_outcome)) option" where
  "answer_job env config join_specs required_fields j qv cache =
     (case search (pe_search env (job_reply j)) qv config required_fields of
        Panics \<Rightarrow> None
      | Errs e \<Rightarrow> Some (cache, Inl (search_db_error e))
      | Returns outcome \<Rightarrow>
          if join_specs \<noteq> []
          then case enrich_documents_with_parsed_joins (pe_join env (job_reply j)) sr_document sr_document_update cache
                      (so_results outcome) join_specs (sqs_limit (sq_settings (job_query j))) of
                 (cache, Inr results) \<Rightarrow> Some (cache, Inr (outcome\<lparr>so_results := results\<rparr>))
               | (cache, Inl e) \<Rightarrow> Some (cache, Inl e)
          else Some (cache, Inr outcome))"

fun answer_jobs ::
    "pipeline_env \<Rightarrow> collection_config_internal \<Rightarrow> join_spec list \<Rightarrow> search_exclude_field set \<Rightarrow>
     (search_job \<times> search_query_with_vectors) list \<Rightarrow> config_cache \<Rightarrow> pipeline" where
  "answer_jobs env config join_specs required_fields [] cache = \<lparr>pl_cache = cache, pl_replies = [], pl_end = Finished\<rparr>"
| "answer_jobs env config join_specs required_fields ((j, qv) # rest) cache =
     (case answer_job env config join_specs required_fields j qv cache of
        None \<Rightarrow> \<lparr>pl_cache = cache, pl_replies = [], pl_end = Panicked\<rparr>
      | Some (cache, r) \<Rightarrow>
          (let p = answer_jobs env config join_specs required_fields rest cache
           in p\<lparr>pl_replies := (job_reply j, r) # pl_replies p\<rparr>))"

definition run_search_bucket :: "pipeline_env \<Rightarrow> string \<Rightarrow> search_job list \<Rightarrow> config_cache \<Rightarrow> pipeline" where
  "run_search_bucket env coll bucket_jobs cache =
     (let ended = (\<lambda>cache e. \<lparr>pl_cache = cache, pl_replies = reply_all bucket_jobs e, pl_end = Finished\<rparr>);
          settings0 = sq_settings (job_query (hd bucket_jobs));
          query_texts = map (\<lambda>j. sq_query (job_query j)) bucket_jobs
      in case get_collection_info_cached (pe_info env coll) (pe_now env) coll cache of
           (cache, Inl e) \<Rightarrow> ended cache (bucket_config_error e)
         | (cache, Inr (config, from_cache)) \<Rightarrow>
             (case bucket_checks env config settings0 of
                Inl e \<Rightarrow> ended cache e
              | Inr _ \<Rightarrow>
                  (case bucket_joins env settings0 of
                     None \<Rightarrow> \<lparr>pl_cache = cache, pl_replies = [], pl_end = Aborted\<rparr>
                   | Some (Inl e) \<Rightarrow> ended cache e
                   | Some (Inr join_specs) \<Rightarrow>
                       (case bucket_vectors env coll config from_cache query_texts settings0 cache of
                          (cache, config, None) \<Rightarrow> \<lparr>pl_cache = cache, pl_replies = [], pl_end = Aborted\<rparr>
                        | (cache, config, Some (Inl msg)) \<Rightarrow> ended cache (Vectorization msg)
                        | (cache, config, Some (Inr vectorized)) \<Rightarrow>
                            if length vectorized \<noteq> length bucket_jobs
                            then ended cache (Vectorization ''internal: vectorized batch length mismatch'')
                            else answer_jobs env config join_specs (bucket_required_fields join_specs settings0)
                                   (zip bucket_jobs vectorized) cache))))"

section \<open>Micro-batches and the queue\<close>

text \<open>A hash map finds an entry by hash and equality.\<close>

definition same_bucket :: "pipeline_env \<Rightarrow> search_job \<Rightarrow> search_job \<Rightarrow> bool" where
  "same_bucket env a b \<longleftrightarrow>
     job_collection a = job_collection b \<and>
     settings_hash (pe_num_str env) (sq_settings (job_query a)) = settings_hash (pe_num_str env) (sq_settings (job_query b)) \<and>
     settings_eq (sq_settings (job_query a)) (sq_settings (job_query b))"

fun add_to_buckets :: "pipeline_env \<Rightarrow> search_job \<Rightarrow> search_job list list \<Rightarrow> search_job list list" where
  "add_to_buckets env j [] = [[j]]"
| "add_to_buckets env j (b # bs) = (if same_bucket env (hd b) j then (b @ [j]) # bs else b # add_to_buckets env j bs)"

definition search_buckets :: "pipeline_env \<Rightarrow> search_job list \<Rightarrow> search_job list list" where
  "search_buckets env jobs = fold (add_to_buckets env) jobs []"

text \<open>The buckets come in the order in which the hash map is iterated.\<close>

fun run_buckets :: "pipeline_env \<Rightarrow> search_job list list \<Rightarrow> config_cache \<Rightarrow> pipeline" where
  "run_buckets env [] cache = \<lparr>pl_cache = cache, pl_replies = [], pl_end = Finished\<rparr>"
| "run_buckets env (b # bs) cache =
     (let p = run_search_bucket env (job_collection (hd b)) b cache in
      if pl_end p = Finished
      then (let q = run_buckets env bs (pl_cache p) in q\<lparr>pl_replies := pl_replies p @ pl_replies q\<rparr>)
      else p)"

definition process_search_microbatch ::
    "pipeline_env \<Rightarrow> (search_job list list \<Rightarrow> search_job list list) \<Rightarrow> search_job list \<Rightarrow> config_cache \<Rightarrow> pipeline" where
  "process_search_microbatch env order jobs cache = run_buckets env (order (search_buckets env jobs)) cache"

definition queue_full :: search_error where
  "queue_full = IngressQueueFull (''Search ingress queue full (capacity '' @ nat_str SEARCH_INGRESS_QUEUE_CAPACITY @ ''); retry later.'')"

definition search_send :: "search_job \<Rightarrow> search_job list \<Rightarrow> search_error + search_job list" where
  "search_send j queue = (if length queue < SEARCH_INGRESS_QUEUE_CAPACITY then Inr (queue @ [j]) else Inl queue_full)"

definition drain_microbatch :: "search_job list \<Rightarrow> search_job list \<times> search_job list" where
  "drain_microbatch queue = (take SEARCH_INGRESS_MICROBATCH_DRAIN_MAX queue, drop SEARCH_INGRESS_MICROBATCH_DRAIN_MAX queue)"

text \<open>What the caller of \<open>SearchIngress::search\<close> gets when its micro-batch is over.\<close>

definition search_response :: "search_reply list \<Rightarrow> nat \<Rightarrow> search_error + search_outcome" where
  "search_response replies n = unwrap_or (Inl (IngressWorkerExited ''Search ingress worker stopped.'')) (map_of replies n)"

section \<open>Buckets\<close>

lemma add_to_buckets_mset: "mset (concat (add_to_buckets env j bs)) = add_mset j (mset (concat bs))"
  by (induction bs) auto

lemma search_buckets_mset: "mset (concat (search_buckets env jobs)) = mset jobs"
proof -
  have "mset (concat (fold (add_to_buckets env) jobs bs)) = mset jobs + mset (concat bs)" for bs
    by (induction jobs arbitrary: bs) (simp_all add: add_to_buckets_mset)
  from this [of "[]"] show ?thesis by (simp add: search_buckets_def)
qed

definition plain_job :: "search_job \<Rightarrow> bool" where
  "plain_job j \<longleftrightarrow> plain_settings (sq_settings (job_query j))"

definition uniform :: "search_job list \<Rightarrow> bool" where
  "uniform b \<longleftrightarrow> b \<noteq> [] \<and> (\<forall>j\<in>set b. plain_job j \<and> job_collection j = job_collection (hd b) \<and>
     sq_settings (job_query j) = sq_settings (job_query (hd b)))"

lemma add_to_buckets_uniform: "plain_job j \<Longrightarrow> \<forall>b\<in>set bs. uniform b \<Longrightarrow> \<forall>b\<in>set (add_to_buckets env j bs). uniform b"
proof (induction bs)
  case (Cons b bs)
  have b: "uniform b" using Cons.prems by simp
  then have "hd b \<in> set b" by (simp add: uniform_def)
  then have "plain_settings (sq_settings (job_query (hd b)))" using b unfolding uniform_def plain_job_def by blast
  from plain_settings_eq [OF this Cons.prems(1) [unfolded plain_job_def]]
  have "same_bucket env (hd b) j \<Longrightarrow> sq_settings (job_query j) = sq_settings (job_query (hd b))"
    unfolding same_bucket_def by metis
  moreover have "same_bucket env (hd b) j \<Longrightarrow> job_collection j = job_collection (hd b)" by (simp add: same_bucket_def)
  moreover have h: "hd (b @ [j]) = hd b" using b unfolding uniform_def by simp
  ultimately have "same_bucket env (hd b) j \<Longrightarrow> uniform (b @ [j])"
    using b Cons.prems(1) unfolding uniform_def h set_append list.set append_is_Nil_conv by blast
  then show ?case using Cons by simp
qed (simp add: uniform_def)

lemma search_buckets_uniform: "\<forall>j\<in>set jobs. plain_job j \<Longrightarrow> b \<in> set (search_buckets env jobs) \<Longrightarrow> uniform b"
proof -
  have "\<forall>j\<in>set jobs. plain_job j \<Longrightarrow> \<forall>b\<in>set bs. uniform b \<Longrightarrow> \<forall>b\<in>set (fold (add_to_buckets env) jobs bs). uniform b" for bs
  proof (induction jobs arbitrary: bs)
    case (Cons j jobs)
    then have "\<forall>b\<in>set (add_to_buckets env j bs). uniform b" by (intro add_to_buckets_uniform) simp_all
    then show ?case using Cons.IH [of "add_to_buckets env j bs"] Cons.prems(1) by simp
  qed simp
  from this [of "[]"] show "\<forall>j\<in>set jobs. plain_job j \<Longrightarrow> b \<in> set (search_buckets env jobs) \<Longrightarrow> uniform b"
    by (simp add: search_buckets_def)
qed

section \<open>Every search is answered once\<close>

lemma answer_jobs_replies:
  assumes "answer_jobs env config specs required ps cache = p"
  shows "\<exists>n. map fst (pl_replies p) = take n (map (\<lambda>(j, qv). job_reply j) ps) \<and> (pl_end p = Finished \<longrightarrow> n = length ps)"
  using assms
proof (induction ps arbitrary: cache p)
  case (Cons q ps)
  obtain j qv where q: "q = (j, qv)" by (cases q)
  show ?case
  proof (cases "answer_job env config specs required j qv cache")
    case None
    then show ?thesis using Cons.prems by (intro exI [of _ 0]) (auto simp: q)
  next
    case (Some r)
    then obtain cache' ans where r: "answer_job env config specs required j qv cache = Some (cache', ans)" by (cases r) auto
    let ?p = "answer_jobs env config specs required ps cache'"
    obtain n where "map fst (pl_replies ?p) = take n (map (\<lambda>(j, qv). job_reply j) ps)" "pl_end ?p = Finished \<longrightarrow> n = length ps"
      using Cons.IH by blast
    then show ?thesis using Cons.prems r by (intro exI [of _ "Suc n"]) (auto simp: q Let_def)
  qed
qed auto

lemma bucket_replies:
  assumes "run_search_bucket env coll b cache = p"
  shows "\<exists>n. map fst (pl_replies p) = take n (map job_reply b) \<and> (pl_end p = Finished \<longrightarrow> n = length b)"
proof -
  have all: "\<exists>n. map fst (reply_all b e) = take n (map job_reply b) \<and> n = length b" for e
    by (simp add: reply_all_def comp_def)
  have none: "\<exists>n. [] = take n (map job_reply b)" by (intro exI [of _ 0]) simp
  have "map (\<lambda>(j, qv). job_reply j) (zip b vs) = map job_reply b" if "length vs = length b" for vs :: "search_query_with_vectors list"
    using that by (intro nth_equalityI) auto
  then have answers: "\<exists>n. map fst (pl_replies (answer_jobs env config specs required (zip b vs) cache)) = take n (map job_reply b) \<and>
      (pl_end (answer_jobs env config specs required (zip b vs) cache) = Finished \<longrightarrow> n = length b)"
    if "length vs = length b" for config specs required vs cache
    using answer_jobs_replies [OF refl, of env config specs required "zip b vs" cache] that by simp
  show ?thesis
    using assms all none answers
    by (auto simp: run_search_bucket_def Let_def split: prod.splits sum.splits option.splits if_splits)
qed

lemma run_buckets_replies:
  assumes "run_buckets env bs cache = p"
  shows "\<exists>n. map fst (pl_replies p) = take n (map job_reply (concat bs)) \<and> (pl_end p = Finished \<longrightarrow> n = length (concat bs))"
  using assms
proof (induction bs arbitrary: cache p)
  case (Cons b bs)
  let ?p = "run_search_bucket env (job_collection (hd b)) b cache"
  obtain n where n: "map fst (pl_replies ?p) = take n (map job_reply b)" "pl_end ?p = Finished \<longrightarrow> n = length b"
    using bucket_replies [OF refl, of env "job_collection (hd b)" b cache] by blast
  show ?case
  proof (cases "pl_end ?p = Finished")
    case True
    obtain m where "map fst (pl_replies (run_buckets env bs (pl_cache ?p))) = take m (map job_reply (concat bs))"
        "pl_end (run_buckets env bs (pl_cache ?p)) = Finished \<longrightarrow> m = length (concat bs)"
      using Cons.IH [OF refl] by blast
    then show ?thesis using n True Cons.prems by (intro exI [of _ "length b + m"]) (auto simp: Let_def)
  next
    case False
    then show ?thesis using n Cons.prems by (intro exI [of _ "min n (length b)"]) (auto simp: Let_def min_def)
  qed
qed auto

text \<open>
  What a search may be answered: the error that ended its bucket before the search, or the outcome or error of the
  search with the vectors of its own text under the settings of its bucket, with its joins. \<open>h\<close> is the first job of
  the bucket.
\<close>

definition own_vectors :: "pipeline_env \<Rightarrow> search_query_settings \<Rightarrow> string \<Rightarrow> collection_config_internal \<Rightarrow>
    search_query_with_vectors \<Rightarrow> bool" where
  "own_vectors env settings txt config qv \<longleftrightarrow>
     (\<exists>texts vs i. spawn_vectorize env config texts settings = Some (Inr vs) \<and> i < length texts \<and> texts ! i = txt \<and>
        qv = vs ! i \<and> sqv_query qv = txt)"

definition search_reply :: "pipeline_env \<Rightarrow> search_job \<Rightarrow> join_spec list \<Rightarrow> search_outcome \<Rightarrow> search_error + search_outcome \<Rightarrow> bool" where
  "search_reply env j specs outcome r \<longleftrightarrow>
     specs = [] \<and> r = Inr outcome \<or>
     specs \<noteq> [] \<and> (\<exists>cache. case snd (enrich_documents_with_parsed_joins (pe_join env (job_reply j)) sr_document sr_document_update
         cache (so_results outcome) specs (sqs_limit (sq_settings (job_query j)))) of
       Inr results \<Rightarrow> r = Inr (outcome\<lparr>so_results := results\<rparr>)
     | Inl e \<Rightarrow> r = Inl e)"

definition reply_of :: "pipeline_env \<Rightarrow> search_job \<Rightarrow> search_job \<Rightarrow> search_error + search_outcome \<Rightarrow> bool" where
  "reply_of env h j r \<longleftrightarrow>
     (let settings = sq_settings (job_query h); txt = sq_query (job_query j) in
        (\<exists>d. pe_info env (job_collection h) = Inl d \<and> r = Inl (bucket_config_error d))
      \<or> (\<exists>config e. bucket_checks env config settings = Inl e \<and> r = Inl e)
      \<or> (\<exists>e. bucket_joins env settings = Some (Inl e) \<and> r = Inl e)
      \<or> (\<exists>config texts m. txt \<in> set texts \<and> spawn_vectorize env config texts settings = Some (Inl m) \<and>
           r = Inl (Vectorization m))
      \<or> (\<exists>config qv specs. own_vectors env settings txt config qv \<and> bucket_joins env settings = Some (Inr specs) \<and>
           (case search (pe_search env (job_reply j)) qv config (bucket_required_fields specs settings) of
              Panics \<Rightarrow> False
            | Errs d \<Rightarrow> r = Inl (search_db_error d)
            | Returns outcome \<Rightarrow> search_reply env j specs outcome r)))"

lemma answer_job_reply:
  assumes "answer_job env config specs required j qv cache = Some (cache', r)"
  shows "case search (pe_search env (job_reply j)) qv config required of
      Panics \<Rightarrow> False | Errs d \<Rightarrow> r = Inl (search_db_error d) | Returns outcome \<Rightarrow> search_reply env j specs outcome r"
proof (cases "search (pe_search env (job_reply j)) qv config required")
  case (Returns outcome)
  let ?joined = "\<lambda>c. enrich_documents_with_parsed_joins (pe_join env (job_reply j)) sr_document sr_document_update c
    (so_results outcome) specs (sqs_limit (sq_settings (job_query j)))"
  have "search_reply env j specs outcome r"
  proof (cases "specs = []")
    case True
    then show ?thesis using assms Returns by (simp add: answer_job_def search_reply_def)
  next
    case False
    obtain c a where "?joined cache = (c, a)" by (cases "?joined cache")
    then have "case snd (?joined cache) of Inr results \<Rightarrow> r = Inr (outcome\<lparr>so_results := results\<rparr>) | Inl e \<Rightarrow> r = Inl e"
      using assms Returns False by (cases a) (simp_all add: answer_job_def)
    then show ?thesis using False unfolding search_reply_def by blast
  qed
  then show ?thesis by (simp add: Returns)
qed (use assms in \<open>simp_all add: answer_job_def\<close>)

lemma answer_jobs_own:
  "(n, r) \<in> set (pl_replies (answer_jobs env config specs required ps cache)) \<Longrightarrow>
     \<exists>j qv c c'. (j, qv) \<in> set ps \<and> n = job_reply j \<and> answer_job env config specs required j qv c = Some (c', r)"
proof (induction ps arbitrary: cache)
  case (Cons q ps)
  obtain j qv where q: "q = (j, qv)" by (cases q)
  show ?case
  proof (cases "answer_job env config specs required j qv cache")
    case None
    then show ?thesis using Cons.prems by (simp add: q)
  next
    case (Some a)
    then obtain cache' r' where a: "answer_job env config specs required j qv cache = Some (cache', r')" by (cases a) auto
    with Cons.prems consider "n = job_reply j" "r = r'" | "(n, r) \<in> set (pl_replies (answer_jobs env config specs required ps cache'))"
      by (auto simp: q Let_def)
    then show ?thesis
    proof cases
      case 1
      then show ?thesis using a by (auto simp: q)
    next
      case 2
      then show ?thesis using Cons.IH by (fastforce simp: q)
    qed
  qed
qed simp

lemma vectorize_length: "vectorize_search_queries em ord texts settings configs mode = Some (Inr rs) \<Longrightarrow> length rs = length texts"
  by (auto simp: vectorize_search_queries_def Let_def query_results_def split: if_splits option.splits sum.splits)

lemma vectorize_text:
  "vectorize_search_queries em ord texts settings configs mode = Some (Inr rs) \<Longrightarrow> i < length texts \<Longrightarrow> sqv_query (rs ! i) = texts ! i"
  by (auto simp: vectorize_search_queries_def Let_def query_results_def nth_enumerate_eq
      split: if_splits option.splits sum.splits)

lemma bucket_vectors_source:
  assumes "bucket_vectors env coll config hit texts settings cache = (cache', config', Some r)"
  shows "\<exists>c. spawn_vectorize env c texts settings = Some r" "\<And>vs. r = Inr vs \<Longrightarrow> spawn_vectorize env config' texts settings = Some r"
  using assms by (auto simp: bucket_vectors_def split: option.splits sum.splits if_splits prod.splits)

lemma bucket_own:
  assumes "(n, r) \<in> set (pl_replies (run_search_bucket env (job_collection (hd b)) b cache))"
  shows "\<exists>j\<in>set b. n = job_reply j \<and> reply_of env (hd b) j r"
proof -
  let ?s = "sq_settings (job_query (hd b))" and ?coll = "job_collection (hd b)"
  let ?texts = "map (\<lambda>j. sq_query (job_query j)) b"
  have ended: "\<exists>j\<in>set b. n = job_reply j \<and> reply_of env (hd b) j r"
    if "(n, r) \<in> set (reply_all b e)" "\<And>j. j \<in> set b \<Longrightarrow> reply_of env (hd b) j (Inl e)" for e
    using that by (auto simp: reply_all_def)
  obtain cache1 info where info: "get_collection_info_cached (pe_info env ?coll) (pe_now env) ?coll cache = (cache1, info)"
    by (cases "get_collection_info_cached (pe_info env ?coll) (pe_now env) ?coll cache")
  note run = assms [unfolded run_search_bucket_def Let_def info]
  show ?thesis
  proof (cases info)
    case (Inl d)
    then have "pe_info env ?coll = Inl d"
      using info by (auto simp: get_collection_info_cached_def split: option.splits sum.splits)
    then show ?thesis using run Inl by (intro ended) (auto simp: reply_of_def Let_def)
  next
    case (Inr ch)
    obtain config hit where ch: "ch = (config, hit)" by (cases ch)
    show ?thesis
    proof (cases "bucket_checks env config ?s")
      case (Inl e)
      then show ?thesis using run Inr ch by (intro ended [of e]) (auto simp: reply_of_def Let_def)
    next
      case checked: (Inr u)
      show ?thesis
      proof (cases "bucket_joins env ?s")
        case None
        then show ?thesis using run Inr ch checked by simp
      next
        case (Some js)
        show ?thesis
        proof (cases js)
          case (Inl e)
          then show ?thesis using run Inr ch checked Some by (intro ended [of e]) (auto simp: reply_of_def Let_def)
        next
          case specs: (Inr specs)
          note run' = run [unfolded Inr ch, simplified, unfolded checked Some specs, simplified]
          obtain cache2 config2 v where v: "bucket_vectors env ?coll config hit ?texts ?s cache1 = (cache2, config2, v)"
            by (metis prod_cases3)
          show ?thesis
          proof (cases v)
            case None
            then show ?thesis using run' v by simp
          next
            case vec: (Some w)
            note src = bucket_vectors_source [OF v [unfolded vec]]
            show ?thesis
            proof (cases w)
              case (Inl m)
              obtain c where c: "spawn_vectorize env c ?texts ?s = Some (Inl m)" using src(1) Inl by blast
              have "reply_of env (hd b) j (Inl (Vectorization m))" if "j \<in> set b" for j
              proof -
                have "sq_query (job_query j) \<in> set ?texts" using that by simp
                then show ?thesis using c unfolding reply_of_def Let_def by blast
              qed
              then show ?thesis using run' v vec Inl by (intro ended [of "Vectorization m"]) auto
            next
              case vs: (Inr vs)
              have spawn: "spawn_vectorize env config2 ?texts ?s = Some (Inr vs)" using src(2) vs by simp
              have len: "length vs = length b" using vectorize_length [OF spawn [unfolded spawn_vectorize_def]] by simp
              have "(n, r) \<in> set (pl_replies (answer_jobs env config2 specs (bucket_required_fields specs ?s) (zip b vs) cache2))"
                using run' v vec vs len by simp
              from answer_jobs_own [OF this] obtain j qv c c' where jq: "(j, qv) \<in> set (zip b vs)" "n = job_reply j"
                "answer_job env config2 specs (bucket_required_fields specs ?s) j qv c = Some (c', r)" by blast
              obtain k where k: "k < length b" "j = b ! k" "qv = vs ! k" using jq(1) len by (auto simp: set_zip)
              have "own_vectors env ?s (sq_query (job_query j)) config2 qv"
                unfolding own_vectors_def using spawn k vectorize_text [OF spawn [unfolded spawn_vectorize_def], of k]
                by (intro exI [of _ ?texts] exI [of _ vs] exI [of _ k]) simp
              then have "reply_of env (hd b) j r"
                using answer_job_reply [OF jq(3)] Some specs unfolding reply_of_def Let_def by blast
              then show ?thesis using k jq(2) by auto
            qed
          qed
        qed
      qed
    qed
  qed
qed

lemma run_buckets_own:
  "(n, r) \<in> set (pl_replies (run_buckets env bs cache)) \<Longrightarrow> \<exists>b\<in>set bs. \<exists>j\<in>set b. n = job_reply j \<and> reply_of env (hd b) j r"
proof (induction bs arbitrary: cache)
  case (Cons b bs)
  let ?p = "run_search_bucket env (job_collection (hd b)) b cache"
  from Cons.prems consider "(n, r) \<in> set (pl_replies ?p)" | "(n, r) \<in> set (pl_replies (run_buckets env bs (pl_cache ?p)))"
    by (auto simp: Let_def split: if_splits)
  then show ?case using bucket_own [of n r env b cache] Cons.IH by cases auto
qed simp

text \<open>The jobs of a bucket have the key of its first job.\<close>

definition keyed :: "pipeline_env \<Rightarrow> search_job list \<Rightarrow> bool" where
  "keyed env b \<longleftrightarrow> b \<noteq> [] \<and> (\<forall>j\<in>set (tl b). same_bucket env (hd b) j)"

lemma search_buckets_keyed: "b \<in> set (search_buckets env jobs) \<Longrightarrow> keyed env b"
proof -
  have add: "\<forall>b\<in>set bs. keyed env b \<Longrightarrow> \<forall>b\<in>set (add_to_buckets env j bs). keyed env b" for j bs
    by (induction bs) (auto simp: keyed_def)
  have "\<forall>b\<in>set bs. keyed env b \<Longrightarrow> \<forall>b\<in>set (fold (add_to_buckets env) jobs bs). keyed env b" for bs
  proof (induction jobs arbitrary: bs)
    case (Cons j jobs)
    show ?case using Cons.IH [OF add [OF Cons.prems]] by simp
  qed simp
  from this [of "[]"] show "b \<in> set (search_buckets env jobs) \<Longrightarrow> keyed env b" by (simp add: search_buckets_def)
qed

definition own_reply :: "pipeline_env \<Rightarrow> search_job list \<Rightarrow> search_job \<Rightarrow> search_error + search_outcome \<Rightarrow> bool" where
  "own_reply env jobs j r \<longleftrightarrow> (\<exists>h\<in>set jobs. (h = j \<or> same_bucket env h j) \<and> reply_of env h j r)"

text \<open>
  C27: The searches of a micro-batch are answered, each with its own reply. No reply channel is used twice. When the
  task ends normally the caller of every search gets the reply that was sent to it, and this reply is its own: the
  error that ended its bucket, or the outcome of the search with the vectors computed for its own text under the
  settings of its key, with its own joins. When the task panicked before, the caller gets its own reply or the error
  that the worker has stopped. (When the process aborts, nobody gets anything.)
\<close>

theorem every_search_answered:
  assumes "distinct (map job_reply jobs)" "\<forall>bs. mset (order bs) = mset bs"
    and "process_search_microbatch env order jobs cache = p" "j \<in> set jobs" "r = search_response (pl_replies p) (job_reply j)"
  shows "distinct (map fst (pl_replies p))
    \<and> (pl_end p = Finished \<longrightarrow> (job_reply j, r) \<in> set (pl_replies p) \<and> own_reply env jobs j r)
    \<and> (r = Inl (IngressWorkerExited ''Search ingress worker stopped.'') \<or> (job_reply j, r) \<in> set (pl_replies p) \<and> own_reply env jobs j r)"
proof -
  let ?bs = "order (search_buckets env jobs)"
  have bs: "set ?bs = set (search_buckets env jobs)" using assms(2) by (metis mset_eq_setD)
  have jobs: "mset (concat ?bs) = mset jobs"
    using mset_concat_map_cong [of ?bs "search_buckets env jobs" "\<lambda>b. b"] assms(2) search_buckets_mset by simp
  then have ids: "mset (map job_reply (concat ?bs)) = mset (map job_reply jobs)" by (metis mset_map)
  then have dist: "distinct (map job_reply (concat ?bs))" using assms(1) mset_eq_imp_distinct_iff by blast
  obtain n where n: "map fst (pl_replies p) = take n (map job_reply (concat ?bs))"
      "pl_end p = Finished \<longrightarrow> n = length (concat ?bs)"
    using run_buckets_replies [of env ?bs cache p] assms(3) by (auto simp: process_search_microbatch_def)
  have once: "distinct (map fst (pl_replies p))" unfolding n(1) using dist by simp
  have own: "own_reply env jobs j x" if sent: "(job_reply j, x) \<in> set (pl_replies p)" for x
  proof -
    obtain b k where b: "b \<in> set ?bs" "k \<in> set b" "job_reply j = job_reply k" "reply_of env (hd b) k x"
      using run_buckets_own [of "job_reply j" x env ?bs cache] sent assms(3) by (auto simp: process_search_microbatch_def)
    have sub: "set b \<subseteq> set jobs" using b(1) mset_eq_setD [OF jobs] by auto
    then have "k = j" using b(2,3) assms(1,4) by (auto simp: distinct_map dest: inj_onD)
    moreover have "keyed env b" using b(1) bs search_buckets_keyed by blast
    then have "hd b \<in> set b" "hd b = k \<or> same_bucket env (hd b) k"
      using b(2) by (auto simp: keyed_def dest: list.set_sel(1)) (cases b; auto)
    ultimately show ?thesis using b(4) sub unfolding own_reply_def by blast
  qed
  have sent: "(job_reply j, r) \<in> set (pl_replies p)" if in_replies: "job_reply j \<in> set (map fst (pl_replies p))"
  proof -
    obtain x where "map_of (pl_replies p) (job_reply j) = Some x"
      using in_replies map_of_eq_None_iff [of "pl_replies p" "job_reply j"] by (cases "map_of (pl_replies p) (job_reply j)") simp_all
    then show ?thesis using assms(5) map_of_SomeD [of "pl_replies p"] by (simp add: search_response_def)
  qed
  have unsent: "r = Inl (IngressWorkerExited ''Search ingress worker stopped.'')" if "job_reply j \<notin> set (map fst (pl_replies p))"
    using that assms(5) map_of_eq_None_iff [of "pl_replies p" "job_reply j"] by (simp add: search_response_def)
  have "pl_end p = Finished \<longrightarrow> job_reply j \<in> set (map fst (pl_replies p))"
    unfolding n(1) using n(2) mset_eq_setD [OF ids] assms(4) by auto
  then show ?thesis using once own [OF sent] sent unsent by (cases "job_reply j \<in> set (map fst (pl_replies p))") simp_all
qed

section \<open>A bucket is its searches, one by one\<close>

lemma answer_jobs_map:
  assumes "pl_end (answer_jobs env config [] required ps cache) = Finished"
  shows "pl_replies (answer_jobs env config [] required ps cache) =
    concat (map (\<lambda>p. pl_replies (answer_jobs env config [] required [p] cache)) ps)"
  using assms
proof (induction ps)
  case (Cons q ps)
  obtain j qv where q: "q = (j, qv)" by (cases q)
  obtain r where r: "answer_job env config [] required j qv cache = Some (cache, r)"
    using Cons.prems by (auto simp: q answer_job_def split: run.splits)
  then show ?case using Cons by (simp add: q Let_def)
qed simp

text \<open>
  C28: Putting searches together changes no answer. In a bucket of a micro-batch the replies are those that every search
  gets in a bucket of its own, with the same cache and database, also when the collection is missing or the filter or
  the group field is refused. The conditions: the settings have no joins and no negative zero among their JSON numbers,
  the collection has no vectors of models, the query vectors of the whole bucket can be computed (otherwise all
  searches of the bucket get the error of one), and no search of the bucket panics.
\<close>

theorem bucket_transparent:
  assumes "\<forall>j\<in>set jobs. plain_job j" "b \<in> set (search_buckets env jobs)" "coll = job_collection (hd b)"
    and "settings = sq_settings (job_query (hd b))" "sqs_join settings = None"
    and "\<forall>config hit cache'. get_collection_info_cached (pe_info env coll) (pe_now env) coll cache = (cache', Inr (config, hit)) \<longrightarrow>
      no_models (cci_vectors config) \<and> (\<exists>vs. spawn_vectorize env config (map (\<lambda>j. sq_query (job_query j)) b) settings = Some (Inr vs))"
    and "pl_end (run_search_bucket env coll b cache) = Finished"
  shows "pl_replies (run_search_bucket env coll b cache) = concat (map (\<lambda>j. pl_replies (run_search_bucket env coll [j] cache)) b)"
proof -
  let ?texts = "map (\<lambda>j. sq_query (job_query j)) b"
  have b: "uniform b" by (rule search_buckets_uniform [OF assms(1,2)])
  then have same: "sq_settings (job_query j) = settings" if "j \<in> set b" for j using b that assms(4) unfolding uniform_def by blast
  have all: "reply_all b e = concat (map (\<lambda>j. reply_all [j] e) b)" for e by (induction b) (simp_all add: reply_all_def)
  show ?thesis
  proof (cases "get_collection_info_cached (pe_info env coll) (pe_now env) coll cache")
    case (Pair cache' info)
    show ?thesis
    proof (cases info)
      case (Inl e)
      then show ?thesis by (simp add: run_search_bucket_def Pair Let_def all)
    next
      case (Inr ch)
      then obtain config hit where info: "info = Inr (config, hit)" by (cases ch) auto
      obtain vs where nm: "no_models (cci_vectors config)" and vs: "spawn_vectorize env config ?texts settings = Some (Inr vs)"
        using assms(6) Pair info by blast
      have len: "length vs = length b" using vectorize_length [OF vs [unfolded spawn_vectorize_def]] by simp
      let ?required = "bucket_required_fields [] settings"
      have joins: "bucket_joins env settings = Some (Inr [])" using assms(5) by (simp add: bucket_joins_def)
      have run: "run_search_bucket env coll c cache =
          (case bucket_checks env config settings of
             Inl e \<Rightarrow> \<lparr>pl_cache = cache', pl_replies = reply_all c e, pl_end = Finished\<rparr>
           | Inr _ \<Rightarrow> answer_jobs env config [] ?required (zip c ws) cache')"
        if "sq_settings (job_query (hd c)) = settings" "length ws = length c"
          "spawn_vectorize env config (map (\<lambda>j. sq_query (job_query j)) c) settings = Some (Inr ws)" for c ws
        using that by (simp add: run_search_bucket_def Pair info Let_def joins bucket_vectors_def split: sum.splits)
      note run_b = run [OF assms(4) [symmetric] len vs]
      show ?thesis
      proof (cases "bucket_checks env config settings")
        case bad: (Inl e)
        have "run_search_bucket env coll [j] cache = \<lparr>pl_cache = cache', pl_replies = reply_all [j] e, pl_end = Finished\<rparr>" if "j \<in> set b" for j
          using same [OF that] by (simp add: run_search_bucket_def Pair info Let_def bad)
        then have eq: "map (\<lambda>j. pl_replies (run_search_bucket env coll [j] cache)) b = map (\<lambda>j. reply_all [j] e) b" by simp
        show ?thesis unfolding eq using run_b bad all [of e] by simp
      next
        case good: (Inr u)
        have one: "run_search_bucket env coll [b ! i] cache = answer_jobs env config [] ?required [(b ! i, vs ! i)] cache'" if "i < length b" for i
        proof -
          have "spawn_vectorize env config [?texts ! i] settings = Some (Inr [vs ! i])"
            using batch_pointwise [OF nm _ vs [unfolded spawn_vectorize_def], of i] that by (simp add: spawn_vectorize_def)
          then show ?thesis using run [of "[b ! i]" "[vs ! i]"] same that by (simp add: good)
        qed
        have "map (\<lambda>p. pl_replies (answer_jobs env config [] ?required [p] cache')) (zip b vs) =
            map (\<lambda>j. pl_replies (run_search_bucket env coll [j] cache)) b"
          using len one by (intro nth_equalityI) simp_all
        then show ?thesis
          using answer_jobs_map [of env config ?required "zip b vs" cache'] run_b assms(7) good by simp
      qed
    qed
  qed
qed

section \<open>No search panics\<close>

definition good_config :: "pipeline_env \<Rightarrow> string set \<Rightarrow> collection_config_internal \<Rightarrow> bool" where
  "good_config env texts c \<longleftrightarrow> distinct (map vc_name (cci_vectors c)) \<and>
     (\<forall>v\<in>set (cci_vectors c). \<forall>t\<in>texts. query_config_ok (pe_embedders env) [t] v) \<and>
     (\<forall>v\<in>set (cci_vectors c). query_config_ok (pe_embedders env) [] v)"

definition good_cache :: "pipeline_env \<Rightarrow> string set \<Rightarrow> config_cache \<Rightarrow> bool" where
  "good_cache env texts cache \<longleftrightarrow> (\<forall>e\<in>snd ` set (cache_map cache). good_config env texts (ce_config e))"

definition good_env :: "pipeline_env \<Rightarrow> string set \<Rightarrow> bool" where
  "good_env env texts \<longleftrightarrow> orders_ok (pe_orders env) \<and> text_lib_ok (em_text (pe_embedders env)) \<and>
     (\<forall>n. responses_match (pe_search env n)) \<and>
     (\<forall>coll c. pe_info env coll = Inr c \<or> pe_info_again env coll = Inr c \<or> (\<exists>n. je_collection_info (pe_join env n) coll = Inr c) \<longrightarrow>
        good_config env texts c)"

lemma query_config_ok_texts:
  "(\<forall>t\<in>set texts. query_config_ok em [t] v) \<Longrightarrow> query_config_ok em [] v \<Longrightarrow> query_config_ok em texts v"
  by (auto simp: query_config_ok_def)

lemma good_cache_set: "good_cache env texts cache \<Longrightarrow> good_config env texts config \<Longrightarrow> good_cache env texts (cache_set coll config now cache)"
proof -
  assume c: "good_cache env texts cache" "good_config env texts config"
  have del: "snd ` set (AList.delete k m) \<subseteq> snd ` set m" for k and m :: "(string \<times> cache_entry) list"
    by (auto simp: AList.delete_eq)
  have upd: "snd ` set (AList.update k v m) \<subseteq> insert v (snd ` set m)" for k v and m :: "(string \<times> cache_entry) list"
    by (induction m) auto
  let ?m = "if length (cache_map cache) \<ge> CACHE_MAX_ENTRIES \<and> map_of (cache_map cache) coll = None
               then case oldest (cache_map cache) of Some (k, _) \<Rightarrow> AList.delete k (cache_map cache) | None \<Rightarrow> cache_map cache
               else cache_map cache"
  have "snd ` set ?m \<subseteq> snd ` set (cache_map cache)" using del by (simp split: option.splits prod.splits)
  moreover have "cache_map (cache_set coll config now cache) = AList.update coll \<lparr>ce_config = config, ce_inserted_at = now\<rparr> ?m"
    by (simp add: cache_set_def Let_def)
  ultimately have "snd ` set (cache_map (cache_set coll config now cache)) \<subseteq>
      insert \<lparr>ce_config = config, ce_inserted_at = now\<rparr> (snd ` set (cache_map cache))"
    using upd [of coll "\<lparr>ce_config = config, ce_inserted_at = now\<rparr>" ?m] by (metis (no_types, lifting) insert_mono order_trans)
  then show ?thesis using c unfolding good_cache_def by (metis (no_types, lifting) cache_entry.select_convs(1) insert_iff subsetD)
qed

lemma cached_good:
  assumes "good_cache env texts cache" "\<And>c. info = Inr c \<Longrightarrow> good_config env texts c"
    and "get_collection_info_cached info now coll cache = (cache', r)"
  shows "good_cache env texts cache'" and "r = Inr (config, hit) \<Longrightarrow> good_config env texts config"
proof -
  have entry: "good_config env texts c" if "get_for_search cache now coll = Some c" for c
    using that assms(1) by (auto simp: get_for_search_def good_cache_def bind_eq_Some_conv split: if_splits dest!: map_of_SomeD)
  show "good_cache env texts cache'" "r = Inr (config, hit) \<Longrightarrow> good_config env texts config"
    using assms entry by (auto simp: get_collection_info_cached_def good_cache_set split: option.splits sum.splits)
qed

lemma good_invalidate: "good_cache env texts cache \<Longrightarrow> good_cache env texts (cache_invalidate coll cache)"
  by (auto simp: good_cache_def cache_invalidate_def AList.delete_eq)

lemma enrich_good:
  assumes "good_env env texts" "good_cache env texts cache"
    and "enrich_documents_with_parsed_joins (pe_join env n) as_doc on_doc cache docs specs limit = (cache', r)"
  shows "good_cache env texts cache'"
  using assms(2,3)
proof (induction specs arbitrary: cache docs)
  case (Cons spec specs)
  obtain cache1 r1 where one: "enrich_with_spec (pe_join env n) as_doc on_doc cache docs spec limit = (cache1, r1)"
    by (cases "enrich_with_spec (pe_join env n) as_doc on_doc cache docs spec limit")
  obtain info where info: "get_collection_info_cached (je_collection_info (pe_join env n) (get_real_collection_name (js_collection_name spec)))
      (je_now (pe_join env n)) (get_real_collection_name (js_collection_name spec)) cache = (cache1, info)"
    using one by (auto simp: enrich_with_spec_def Let_def split: prod.splits)
  have "good_cache env texts cache1"
    by (rule cached_good(1) [OF Cons.prems(1) _ info]) (use assms(1) in \<open>auto simp: good_env_def\<close>)
  then show ?case using Cons one by (cases r1) auto
qed simp

lemma answer_jobs_calm:
  assumes "good_env env texts"
  shows "good_cache env texts cache \<Longrightarrow> pl_end (answer_jobs env config specs required ps cache) = Finished \<and>
    good_cache env texts (pl_cache (answer_jobs env config specs required ps cache))"
proof (induction ps arbitrary: cache)
  case (Cons q ps)
  obtain j qv where q: "q = (j, qv)" by (cases q)
  have "search (pe_search env (job_reply j)) qv config required \<noteq> Panics"
    using assms by (intro search_calm) (simp add: good_env_def)
  then have "answer_job env config specs required j qv cache \<noteq> None"
    by (auto simp: answer_job_def split: run.splits prod.splits sum.splits)
  then obtain cache' r where r: "answer_job env config specs required j qv cache = Some (cache', r)" by auto
  have "good_cache env texts cache'"
    using r Cons.prems enrich_good [OF assms Cons.prems]
    by (auto simp: answer_job_def split: run.splits prod.splits sum.splits if_splits)
  then show ?case using Cons.IH [of cache'] by (simp add: q r Let_def)
qed simp


lemma bucket_calm:
  assumes env: "good_env env texts" and cache: "good_cache env texts cache" and ne: "b \<noteq> []"
    and t: "\<forall>j\<in>set b. sq_query (job_query j) \<in> texts"
    and w: "\<forall>j\<in>set b. \<forall>v\<in>set (sqs_vector_options (sq_settings (job_query j))). weight_ok (vso_wmtr_trigram_weight v)"
  shows "pl_end (run_search_bucket env coll b cache) = Finished \<and> good_cache env texts (pl_cache (run_search_bucket env coll b cache))"
proof -
  let ?s = "sq_settings (job_query (hd b))" and ?texts = "map (\<lambda>j. sq_query (job_query j)) b"
  have vec: "spawn_vectorize env config ?texts ?s \<noteq> None" if c: "good_config env texts config" for config
    unfolding spawn_vectorize_def
  proof (rule vectorize_queries_calm)
    show "orders_ok (pe_orders env)" "text_lib_ok (em_text (pe_embedders env))" using env by (simp_all add: good_env_def)
    show "distinct (map vc_name (cci_vectors config))" using c by (simp add: good_config_def)
    show "\<forall>v\<in>set (cci_vectors config). query_config_ok (pe_embedders env) ?texts v"
    proof
      fix v assume v: "v \<in> set (cci_vectors config)"
      have sub: "set ?texts \<subseteq> texts" using t by auto
      show "query_config_ok (pe_embedders env) ?texts v"
        by (rule query_config_ok_texts) (use c v sub in \<open>unfold good_config_def, blast+\<close>)
    qed
    show "\<forall>v\<in>set (sqs_vector_options ?s). weight_ok (vso_wmtr_trigram_weight v)" using w ne hd_in_set by blast
  qed
  obtain cache1 info where info: "get_collection_info_cached (pe_info env coll) (pe_now env) coll cache = (cache1, info)"
    by (cases "get_collection_info_cached (pe_info env coll) (pe_now env) coll cache")
  have src: "pe_info env coll = Inr c \<Longrightarrow> good_config env texts c" "pe_info_again env coll = Inr c \<Longrightarrow> good_config env texts c" for c
    using env unfolding good_env_def by blast+
  have one: "good_cache env texts cache1" "\<And>config hit. info = Inr (config, hit) \<Longrightarrow> good_config env texts config"
    using cached_good [OF cache _ info] src(1) by blast+
  have two: "good_cache env texts cache2 \<and> good_config env texts config2 \<and> r \<noteq> None"
    if "bucket_vectors env coll config hit ?texts ?s cache1 = (cache2, config2, r)" "good_config env texts config" for config hit cache2 config2 r
  proof -
    obtain c i where again: "get_collection_info_cached (pe_info_again env coll) (pe_now_again env) coll (cache_invalidate coll cache1) = (c, i)"
      by (cases "get_collection_info_cached (pe_info_again env coll) (pe_now_again env) coll (cache_invalidate coll cache1)")
    have g: "good_cache env texts c" "\<And>fresh h. i = Inr (fresh, h) \<Longrightarrow> good_config env texts fresh"
      using cached_good [OF good_invalidate [OF one(1)] src(2) again] by blast+
    have "spawn_vectorize env config ?texts ?s \<noteq> None" by (rule vec [OF that(2)])
    then obtain y where y: "spawn_vectorize env config ?texts ?s = Some y" by blast
    show ?thesis
      using that one(1) g vec by (cases y) (auto simp: bucket_vectors_def again y split: sum.splits if_splits)
  qed
  have joins: "bucket_joins env ?s \<noteq> None"
    using into_specs_terminates [of "pe_parse_f64 env" "pe_pest_error env"]
    by (auto simp: bucket_joins_def parse_join_field_validated_def split: option.splits)
  show ?thesis
  proof (cases info)
    case (Inl e)
    then show ?thesis using info one(1) by (simp add: run_search_bucket_def Let_def)
  next
    case (Inr ch)
    then obtain config hit where ch: "info = Inr (config, hit)" by (cases ch) auto
    obtain cache2 config2 r where v: "bucket_vectors env coll config hit ?texts ?s cache1 = (cache2, config2, r)"
      by (metis prod_cases3)
    from two [OF v one(2) [OF ch]] obtain q where good: "good_cache env texts cache2" "r = Some q" by auto
    obtain js where js: "bucket_joins env ?s = Some js" using joins by blast
    have "good_cache env texts cache1" by (rule one(1))
    then show ?thesis
      using answer_jobs_calm [OF env good(1)] good
      by (cases js; cases q; cases "bucket_checks env config ?s")
        (simp_all add: run_search_bucket_def Let_def info ch js v)
  qed
qed

lemma run_buckets_calm:
  assumes "good_env env texts" "\<forall>b\<in>set bs. b \<noteq> []" "\<forall>j\<in>set (concat bs). sq_query (job_query j) \<in> texts"
    and "\<forall>j\<in>set (concat bs). \<forall>v\<in>set (sqs_vector_options (sq_settings (job_query j))). weight_ok (vso_wmtr_trigram_weight v)"
  shows "good_cache env texts cache \<Longrightarrow> pl_end (run_buckets env bs cache) = Finished"
  using assms(2-4)
proof (induction bs arbitrary: cache)
  case (Cons b bs)
  have "pl_end (run_search_bucket env (job_collection (hd b)) b cache) = Finished \<and>
      good_cache env texts (pl_cache (run_search_bucket env (job_collection (hd b)) b cache))"
    using Cons.prems by (intro bucket_calm [OF assms(1)]) auto
  moreover have "pl_end (run_buckets env bs c) = Finished" if "good_cache env texts c" for c
    using that Cons.prems by (intro Cons.IH) auto
  ultimately show ?case by (simp add: Let_def)
qed simp

lemma search_buckets_nonempty: "b \<in> set (search_buckets env jobs) \<Longrightarrow> b \<noteq> []"
proof -
  have add: "[] \<notin> set bs \<Longrightarrow> [] \<notin> set (add_to_buckets env j bs)" for j bs by (induction bs) auto
  have "[] \<notin> set bs \<Longrightarrow> [] \<notin> set (fold (add_to_buckets env) jobs bs)" for bs
    by (induction jobs arbitrary: bs) (simp_all add: add)
  from this [of "[]"] show "b \<in> set (search_buckets env jobs) \<Longrightarrow> b \<noteq> []" by (auto simp: search_buckets_def)
qed

text \<open>
  No search can bring the encoder down. When the configurations that the cache holds and the database returns are
  ones that validation accepts, the database answers every request of a batch and the trigram weights are finite and
  non-negative, a micro-batch of any searches runs to its end: the join parser returns, the search pool does not panic
  (which would abort the process), neither do the search and the joins, also when a configuration is read again after
  an error. Then every caller has its reply.
\<close>

theorem search_microbatch_finishes:
  assumes "texts = (\<lambda>j. sq_query (job_query j)) ` set jobs" "good_env env texts" "good_cache env texts cache"
    and "\<forall>bs. mset (order bs) = mset bs"
    and "\<forall>j\<in>set jobs. \<forall>v\<in>set (sqs_vector_options (sq_settings (job_query j))). weight_ok (vso_wmtr_trigram_weight v)"
  shows "pl_end (process_search_microbatch env order jobs cache) = Finished"
proof -
  let ?bs = "order (search_buckets env jobs)"
  have "set (concat ?bs) = set jobs"
    using mset_concat_map_cong [of ?bs "search_buckets env jobs" "\<lambda>b. b"] assms(4) search_buckets_mset [of env jobs]
    by (metis list.map_ident mset_eq_setD)
  moreover have "\<forall>b\<in>set ?bs. b \<noteq> []" using assms(4) search_buckets_nonempty by (metis mset_eq_setD)
  ultimately show ?thesis
    unfolding process_search_microbatch_def using assms(1,5) by (intro run_buckets_calm [OF assms(2) _ _ _ assms(3)]) auto
qed

section \<open>An example\<close>

definition example_pipeline_config :: collection_config_internal where
  "example_pipeline_config = example_cached_config\<lparr>cci_vectors := [example_vector_config]\<rparr>"

definition example_pipeline_env :: pipeline_env where
  "example_pipeline_env =
     \<lparr>pe_info = (\<lambda>_. Inr example_pipeline_config), pe_info_again = (\<lambda>_. Inr example_pipeline_config), pe_now = 0, pe_now_again = 0,
      pe_parse_dt = (\<lambda>_. Inl ''no date''), pe_parse_f64 = (\<lambda>_. NaN), pe_pest_error = (\<lambda>_. []), pe_num_str = (\<lambda>_. []),
      pe_embedders = example_embedders, pe_orders = plain_orders, pe_search = (\<lambda>_. Search.example_env),
      pe_join = (\<lambda>_. example_join_env\<lparr>je_collection_info := (\<lambda>_. Inl (NotFound []))\<rparr>)\<rparr>"

definition example_search_job :: "nat \<Rightarrow> string \<Rightarrow> search_job" where
  "example_search_job n q = \<lparr>job_collection = ''c'', job_query = \<lparr>sq_query = q, sq_settings =
     example_query_settings\<rparr>, job_reply = n\<rparr>"

lemma example_query_ok: "query_config_ok example_embedders [''n''] example_vector_config" "query_config_ok example_embedders [] example_vector_config"
proof -
  have "rust_text (preprocess_text example_lib ''n'')"
    by (simp add: preprocess_text_def example_lib_def trim_plain plain_def byte_of_def utf8_chars.simps rust_text_def
      is_continuation_def is_whitespace_def white_space_def)
  then show "query_config_ok example_embedders [''n''] example_vector_config" "query_config_ok example_embedders [] example_vector_config"
    by (auto simp: query_config_ok_def query_text_for_config_def example_embedders_def example_vector_config_simps
        example_vector_config_def into_internal_fields default_noop_vectors_def uses_templates_def
        vector_config_into_internal_def vector_config.defs vector_config_internal.defs DEFAULT_TOP_K_def
        DEFAULT_WMTR_WORD_WEIGHT_PERCENTAGE_def)
qed

lemma example_good_config: "good_config example_pipeline_env {''n''} example_pipeline_config"
  using example_query_ok by (simp add: good_config_def example_pipeline_env_def example_pipeline_config_def)

lemma example_microbatch_finishes:
  "pl_end (process_search_microbatch example_pipeline_env (\<lambda>bs. bs) [example_search_job 0 ''n'', example_search_job 1 ''n''] (cache_new False)) = Finished"
proof (rule search_microbatch_finishes [OF refl])
  have texts: "(\<lambda>j. sq_query (job_query j)) ` set [example_search_job 0 ''n'', example_search_job 1 ''n''] = {''n''}"
    by (simp add: example_search_job_def)
  show "good_env example_pipeline_env ((\<lambda>j. sq_query (job_query j)) ` set [example_search_job 0 ''n'', example_search_job 1 ''n''])"
    unfolding texts using example_good_config plain_orders_ok example_lib_ok example_responses
    by (auto simp: good_env_def example_pipeline_env_def example_embedders_def)
  show "good_cache example_pipeline_env ((\<lambda>j. sq_query (job_query j)) ` set [example_search_job 0 ''n'', example_search_job 1 ''n'']) (cache_new False)"
    by (simp add: good_cache_def cache_new_def)
qed (simp_all add: example_search_job_def example_query_settings_def)

theorem every_search_answered_witness:
  "own_reply example_pipeline_env [example_search_job 0 ''n'', example_search_job 1 ''n''] (example_search_job 1 ''n'')
     (search_response (pl_replies (process_search_microbatch example_pipeline_env (\<lambda>bs. bs)
       [example_search_job 0 ''n'', example_search_job 1 ''n''] (cache_new False))) 1)"
proof -
  let ?jobs = "[example_search_job 0 ''n'', example_search_job 1 ''n'']"
  have finished: "pl_end (process_search_microbatch example_pipeline_env (\<lambda>bs. bs) ?jobs (cache_new False)) = Finished"
    by (rule example_microbatch_finishes)
  from every_search_answered [of ?jobs "\<lambda>bs. bs" example_pipeline_env "cache_new False" _ "example_search_job 1 ''n''",
      OF _ _ refl _ refl] finished
  show ?thesis by (simp add: example_search_job_def)
qed

theorem bucket_transparent_witness:
  "pl_replies (run_search_bucket example_pipeline_env ''c'' [example_search_job 0 ''n'', example_search_job 1 ''n''] (cache_new False)) =
   pl_replies (run_search_bucket example_pipeline_env ''c'' [example_search_job 0 ''n''] (cache_new False)) @
   pl_replies (run_search_bucket example_pipeline_env ''c'' [example_search_job 1 ''n''] (cache_new False))"
proof -
  let ?b = "[example_search_job 0 ''n'', example_search_job 1 ''n'']"
  have plain: "plain_settings example_query_settings"
    by (simp add: plain_settings_def settings_ok_def canon_settings_def example_query_settings_def example_settings_def)
  then have jobs: "\<forall>j\<in>set ?b. plain_job j" by (simp add: plain_job_def example_search_job_def)
  have "same_bucket example_pipeline_env (example_search_job 0 ''n'') (example_search_job 1 ''n'')"
    using plain_settings_eq [OF plain plain] by (simp add: same_bucket_def example_search_job_def)
  then have bucket: "?b \<in> set (search_buckets example_pipeline_env ?b)" by (simp add: search_buckets_def)
  have coll: "''c'' = job_collection (hd ?b)" and settings: "example_query_settings = sq_settings (job_query (hd ?b))"
    by (simp_all add: example_search_job_def)
  have join: "sqs_join example_query_settings = None" by (simp add: example_query_settings_def example_settings_def)
  have info: "get_collection_info_cached (pe_info example_pipeline_env coll) now coll (cache_new False) =
      (cache_set coll example_pipeline_config now (cache_new False), Inr (example_pipeline_config, False))" for coll now
    by (simp add: get_collection_info_cached_def get_for_search_def cache_new_def example_pipeline_env_def)
  have models: "no_models (cci_vectors example_pipeline_config)"
    by (simp add: no_models_def example_pipeline_config_def example_vector_config_simps)
  have texts: "map (\<lambda>j. sq_query (job_query j)) ?b = [''n'', ''n'']" by (simp add: example_search_job_def)
  have vectors: "spawn_vectorize example_pipeline_env example_pipeline_config [''n'', ''n''] example_query_settings =
      Some (Inr [example_query_result ''n'', example_query_result ''n''])"
    using example_query_run [OF example_texts(1) example_texts(1)]
    by (simp add: spawn_vectorize_def example_pipeline_env_def example_pipeline_config_def)
  have "good_env example_pipeline_env {''n''}"
    using example_good_config plain_orders_ok example_lib_ok example_responses
    by (auto simp: good_env_def example_pipeline_env_def example_embedders_def)
  then have finished: "pl_end (run_search_bucket example_pipeline_env ''c'' ?b (cache_new False)) = Finished"
    using bucket_calm [of example_pipeline_env "{''n''}" "cache_new False" ?b "''c''"]
    by (simp add: good_cache_def cache_new_def example_search_job_def example_query_options)
  show ?thesis
    using bucket_transparent [OF jobs bucket coll settings join _ finished] unfolding texts info by (simp add: models vectors)
qed

end
