(* ===== verification/Document_Ingress.thy ===== *)
theory Document_Ingress
  imports Ingestion
begin

text \<open>
  The queues in front of the bulk upsert (\<open>src/src/encoder.rs\<close>): single documents are collected into micro-batches, of
  which only the newest document of an id goes on, and bulk uploads are cut into chunks whose outcomes are merged.
  A reply channel is a number. The metrics that are recorded on the way are left out.
\<close>

section \<open>Single documents\<close>

definition SINGLE_UPSERT_QUEUE_CAPACITY :: nat where
  "SINGLE_UPSERT_QUEUE_CAPACITY = 10240"

definition SINGLE_UPSERT_MICROBATCH_DRAIN_MAX :: nat where
  "SINGLE_UPSERT_MICROBATCH_DRAIN_MAX = 32"

definition BULK_UPSERT_QUEUE_CAPACITY :: nat where
  "BULK_UPSERT_QUEUE_CAPACITY = 128"

definition BULK_UPSERT_CHUNK_SIZE :: nat where
  "BULK_UPSERT_CHUNK_SIZE = 16"

record single_job =
  sg_collection :: string
  sg_document :: document
  sg_reply :: "nat option"
  sg_queue :: "queue_verify option"

type_synonym single_reply = "nat \<times> (upsert_sync_error + string list)"

definition send_single_ingress_reply :: "single_job \<Rightarrow> (upsert_sync_error + string list) \<Rightarrow> single_reply list" where
  "send_single_ingress_reply job msg = (case sg_reply job of Some tx \<Rightarrow> [(tx, msg)] | None \<Rightarrow> [])"

fun replicate_upsert_sync_err :: "upsert_sync_error \<Rightarrow> upsert_sync_error" where
  "replicate_upsert_sync_err (UDb e) = UDb (Config (db_error_str e))"
| "replicate_upsert_sync_err e = e"

record single_pick =
  pk_winner :: "(string, nat) hash_map"
  pk_answered :: "nat list"

text \<open>One document of the micro-batch against the winner so far; equal timestamps keep the earlier one.\<close>

definition pick_step :: "single_job list \<Rightarrow> nat \<Rightarrow> single_pick \<Rightarrow> single_pick" where
  "pick_step slots idx p =
     (let d = sg_document (slots ! idx) in
      case map_of (pk_winner p) (doc_id d) of
        None \<Rightarrow> p\<lparr>pk_winner := AList.update (doc_id d) idx (pk_winner p)\<rparr>
      | Some bi \<Rightarrow>
          if doc_timestamp (sg_document (slots ! bi)) < doc_timestamp d
          then p\<lparr>pk_winner := AList.update (doc_id d) idx (pk_winner p), pk_answered := pk_answered p @ [bi]\<rparr>
          else p\<lparr>pk_answered := pk_answered p @ [idx]\<rparr>)"

definition pick_singles :: "single_job list \<Rightarrow> single_pick" where
  "pick_singles slots = fold (pick_step slots) [0..<length slots] \<lparr>pk_winner = [], pk_answered = []\<rparr>"

definition winner_indices :: "single_job list \<Rightarrow> single_pick \<Rightarrow> nat list" where
  "winner_indices slots p = filter (\<lambda>i. i \<in> snd ` set (pk_winner p)) [0..<length slots]"

definition loser_replies :: "single_job list \<Rightarrow> single_pick \<Rightarrow> single_reply list" where
  "loser_replies slots p =
     concat (map (\<lambda>i. send_single_ingress_reply (slots ! i) (Inr [doc_id (sg_document (slots ! i))])) (pk_answered p))"

definition winner_reply :: "single_job list \<Rightarrow> single_pick \<Rightarrow> bulk_upsert_outcome \<Rightarrow> nat \<Rightarrow> single_reply list" where
  "winner_reply slots p outcome idx =
     (let i = doc_id (sg_document (slots ! idx)) in
      if idx \<in> set (pk_answered p) \<or> map_of (pk_winner p) i \<noteq> Some idx then []
      else send_single_ingress_reply (slots ! idx)
             (if i \<in> set (buo_drained outcome) then Inl UQueueEntryGone
              else if i \<in> set (buo_skipped outcome) then Inr [i] else Inr []))"

definition error_reply :: "single_job list \<Rightarrow> single_pick \<Rightarrow> upsert_sync_error \<Rightarrow> nat \<Rightarrow> single_reply list" where
  "error_reply slots p e idx =
     (if idx \<in> set (pk_answered p) then [] else send_single_ingress_reply (slots ! idx) (Inl (replicate_upsert_sync_err e)))"

definition respond_single_microbatch_for_collection ::
    "ingest_env \<Rightarrow> string \<Rightarrow> single_job list \<Rightarrow> store \<Rightarrow> store \<times> single_reply list" where
  "respond_single_microbatch_for_collection env coll slots st =
     (let p = pick_singles slots;
          winners = winner_indices slots p;
          merged = map (\<lambda>i. sg_document (slots ! i)) winners;
          queue_verifies = map (\<lambda>i. sg_queue (slots ! i)) winners
      in if merged = [] then (st, loser_replies slots p)
         else case document_upsert_bulk_internal env coll merged queue_verifies st of
                (st, Inr outcome) \<Rightarrow> (st, loser_replies slots p @ concat (map (winner_reply slots p outcome) [0..<length slots]))
              | (st, Inl e) \<Rightarrow> (st, loser_replies slots p @ concat (map (error_reply slots p e) [0..<length slots])))"

text \<open>The collections of a micro-batch, each with an environment of its own, in the order of the hash map.\<close>

definition group_singles :: "single_job list \<Rightarrow> (string, single_job list) hash_map" where
  "group_singles jobs = fold (\<lambda>j. hm_upsert (sg_collection j) [] (\<lambda>js. js @ [j])) jobs []"

definition process_single_document_microbatch ::
    "(string \<Rightarrow> ingest_env) \<Rightarrow> ((string, single_job list) hash_map \<Rightarrow> (string, single_job list) hash_map) \<Rightarrow> single_job list \<Rightarrow> store \<Rightarrow>
     store \<times> single_reply list" where
  "process_single_document_microbatch envs order jobs st =
     fold (\<lambda>(coll, slots) (st, replies).
       let (st', rs) = respond_single_microbatch_for_collection (envs coll) coll slots st in (st', replies @ rs))
       (order (group_singles jobs)) (st, [])"

definition drain_singles :: "single_job list \<Rightarrow> single_job list \<times> single_job list" where
  "drain_singles queue = (take SINGLE_UPSERT_MICROBATCH_DRAIN_MAX queue, drop SINGLE_UPSERT_MICROBATCH_DRAIN_MAX queue)"

definition document_upsert_sync_send :: "string \<Rightarrow> document \<Rightarrow> nat \<Rightarrow> single_job list \<Rightarrow> upsert_sync_error + single_job list" where
  "document_upsert_sync_send coll document reply queue =
     (if length queue < SINGLE_UPSERT_QUEUE_CAPACITY
      then Inr (queue @ [\<lparr>sg_collection = coll, sg_document = document, sg_reply = Some reply, sg_queue = None\<rparr>])
      else Inl (UIngressQueueFull (''Single-document ingress queue full (capacity '' @ nat_str SINGLE_UPSERT_QUEUE_CAPACITY @ ''); retry later.'')))"

section \<open>Bulk uploads\<close>

record bulk_job =
  bj_collection :: string
  bj_documents :: "document list"
  bj_verifies :: "queue_verify option list"
  bj_reply :: nat

fun chunks_of :: "nat \<Rightarrow> 'a list \<Rightarrow> 'a list list" where
  "chunks_of n xs = (if n = 0 \<or> xs = [] then [] else take n xs # chunks_of n (drop n xs))"

declare chunks_of.simps [simp del]

definition bulk_chunks :: "document list \<Rightarrow> queue_verify option list \<Rightarrow> (document list \<times> queue_verify option list) list" where
  "bulk_chunks documents queue_verifies =
     (if queue_verifies = [] then map (\<lambda>c. (c, [])) (chunks_of BULK_UPSERT_CHUNK_SIZE documents)
      else zip (chunks_of BULK_UPSERT_CHUNK_SIZE documents) (chunks_of BULK_UPSERT_CHUNK_SIZE queue_verifies))"

text \<open>What joining a chunk task gives; the results come in the order in which the tasks end.\<close>

datatype chunk_result = ChunkDone "upsert_sync_error + bulk_upsert_outcome" | ChunkPanicked

fun merge_chunks :: "chunk_result list \<Rightarrow> string list \<Rightarrow> string list \<Rightarrow> upsert_sync_error option \<Rightarrow> upsert_sync_error + bulk_upsert_outcome" where
  "merge_chunks [] skipped drained first_err =
     (case first_err of Some e \<Rightarrow> Inl e | None \<Rightarrow> Inr \<lparr>buo_skipped = skipped, buo_drained = drained\<rparr>)"
| "merge_chunks (ChunkDone (Inr o1) # rs) skipped drained first_err =
     merge_chunks rs (skipped @ buo_skipped o1) (drained @ buo_drained o1) first_err"
| "merge_chunks (ChunkDone (Inl e) # rs) skipped drained first_err =
     merge_chunks rs skipped drained (if first_err = None then Some e else first_err)"
| "merge_chunks (ChunkPanicked # rs) skipped drained first_err = merge_chunks rs skipped drained first_err"

definition bulk_outcome :: "chunk_result list \<Rightarrow> upsert_sync_error + bulk_upsert_outcome" where
  "bulk_outcome results = merge_chunks results [] [] None"

definition document_upsert_bulk_send ::
    "string \<Rightarrow> document list \<Rightarrow> nat \<Rightarrow> bulk_job list \<Rightarrow> upsert_sync_error + bulk_job list" where
  "document_upsert_bulk_send coll documents reply queue =
     (if documents = [] then Inr queue
      else if length queue < BULK_UPSERT_QUEUE_CAPACITY
      then Inr (queue @ [\<lparr>bj_collection = coll, bj_documents = documents, bj_verifies = [], bj_reply = reply\<rparr>])
      else Inl (UIngressQueueFull (''Bulk ingest queue full (capacity '' @ nat_str BULK_UPSERT_QUEUE_CAPACITY @ ''); retry later.'')))"

section \<open>The newest document of an id goes on\<close>

abbreviation slot_id :: "single_job list \<Rightarrow> nat \<Rightarrow> string" where
  "slot_id slots i \<equiv> doc_id (sg_document (slots ! i))"

abbreviation slot_ts :: "single_job list \<Rightarrow> nat \<Rightarrow> int" where
  "slot_ts slots i \<equiv> doc_timestamp (sg_document (slots ! i))"

text \<open>The winner of an id after \<open>m\<close> documents: the first of those with the greatest timestamp.\<close>

definition wins :: "single_job list \<Rightarrow> nat \<Rightarrow> nat \<Rightarrow> bool" where
  "wins slots m w \<longleftrightarrow> w < m \<and>
     (\<forall>i<m. slot_id slots i = slot_id slots w \<longrightarrow> slot_ts slots i \<le> slot_ts slots w \<and> (i < w \<longrightarrow> slot_ts slots i < slot_ts slots w))"

definition pick_inv :: "single_job list \<Rightarrow> nat \<Rightarrow> single_pick \<Rightarrow> bool" where
  "pick_inv slots m p \<longleftrightarrow>
     (\<forall>i<m. map_of (pk_winner p) (slot_id slots i) \<noteq> None) \<and>
     (\<forall>k w. map_of (pk_winner p) k = Some w \<longrightarrow> wins slots m w \<and> slot_id slots w = k) \<and>
     hm_ok (pk_winner p) \<and> distinct (pk_answered p) \<and>
     set (pk_answered p) = {i. i < m \<and> map_of (pk_winner p) (slot_id slots i) \<noteq> Some i}"

lemma pick_invD:
  assumes "pick_inv slots m p"
  shows "i < m \<Longrightarrow> \<exists>v. map_of (pk_winner p) (slot_id slots i) = Some v"
    and "map_of (pk_winner p) k = Some w \<Longrightarrow> wins slots m w" and "map_of (pk_winner p) k = Some w \<Longrightarrow> slot_id slots w = k"
  using assms by (simp_all add: pick_inv_def)

lemma wins_unique: "wins slots m v \<Longrightarrow> wins slots m w \<Longrightarrow> slot_id slots v = slot_id slots w \<Longrightarrow> v = w"
  unfolding wins_def by (metis less_irrefl nat_neq_iff order_less_le_trans)

lemma wins_other: "wins slots m w \<Longrightarrow> slot_id slots m \<noteq> slot_id slots w \<Longrightarrow> wins slots (Suc m) w"
  unfolding wins_def by (metis less_Suc_eq)

lemma pick_step_inv:
  assumes "pick_inv slots m p"
  shows "pick_inv slots (Suc m) (pick_step slots m p)"
proof -
  let ?k = "slot_id slots m"
  have old: "wins slots m w \<and> slot_id slots w = k" if "map_of (pk_winner p) k = Some w" for k w
    using assms that by (simp add: pick_inv_def)
  have known: "map_of (pk_winner p) (slot_id slots i) \<noteq> None" if "i < m" for i using assms that by (simp add: pick_inv_def)
  have ok: "hm_ok (pk_winner p)" "distinct (pk_answered p)"
    and ans: "set (pk_answered p) = {i. i < m \<and> map_of (pk_winner p) (slot_id slots i) \<noteq> Some i}"
    using assms by (simp_all add: pick_inv_def)
  have keep: "wins slots (Suc m) w \<and> slot_id slots w = k" if "map_of (pk_winner p) k = Some w" "k \<noteq> ?k" for k w
    using old [OF that(1)] that(2) wins_other by auto
  show ?thesis
  proof (cases "map_of (pk_winner p) ?k")
    case None
    have "slot_id slots i \<noteq> ?k" if "i < m" for i using known [OF that] None by metis
    then have first: "wins slots (Suc m) m" by (auto simp: wins_def less_Suc_eq)
    have "set (pk_answered p) = {i. i < Suc m \<and> map_of (AList.update ?k m (pk_winner p)) (slot_id slots i) \<noteq> Some i}"
      using ans None known by (auto simp: update_conv' less_Suc_eq)
    then show ?thesis
      using keep first known ok None
      by (auto simp: pick_inv_def pick_step_def Let_def update_conv' less_Suc_eq split: if_splits)
  next
    case (Some bi)
    have bi: "wins slots m bi" "slot_id slots bi = ?k" using old [OF Some] by auto
    then have less: "bi < m" by (simp add: wins_def)
    have new: "bi \<notin> set (pk_answered p)" "m \<notin> set (pk_answered p)" using ans Some bi(2) by auto
    show ?thesis
    proof (cases "slot_ts slots bi < slot_ts slots m")
      case True
      have "slot_ts slots i < slot_ts slots m" if "i < m" "slot_id slots i = ?k" for i
        using bi True that unfolding wins_def by (metis order_le_less_trans)
      then have first: "wins slots (Suc m) m" unfolding wins_def by (simp add: less_Suc_eq) (meson less_imp_le)
      have "insert bi (set (pk_answered p)) = {i. i < Suc m \<and> map_of (AList.update ?k m (pk_winner p)) (slot_id slots i) \<noteq> Some i}"
      proof (rule set_eqI)
        fix i
        have "i = m \<Longrightarrow> i \<noteq> bi" using less by simp
        then show "i \<in> insert bi (set (pk_answered p)) \<longleftrightarrow>
            i \<in> {i. i < Suc m \<and> map_of (AList.update ?k m (pk_winner p)) (slot_id slots i) \<noteq> Some i}"
          using Some less bi(2) unfolding ans mem_Collect_eq insert_iff update_conv'
          by (cases "i = m"; cases "slot_id slots i = ?k") (auto simp: less_Suc_eq)
      qed
      then show ?thesis
        using keep first known ok Some True new less
        by (auto simp: pick_inv_def pick_step_def Let_def update_conv' less_Suc_eq split: if_splits)
    next
      case False
      have still: "wins slots (Suc m) bi" using bi False less by (auto simp: wins_def less_Suc_eq)
      have "insert m (set (pk_answered p)) = {i. i < Suc m \<and> map_of (pk_winner p) (slot_id slots i) \<noteq> Some i}"
      proof (rule set_eqI)
        fix i show "i \<in> insert m (set (pk_answered p)) \<longleftrightarrow> i \<in> {i. i < Suc m \<and> map_of (pk_winner p) (slot_id slots i) \<noteq> Some i}"
          using Some less unfolding ans mem_Collect_eq insert_iff by (cases "i = m") (simp_all add: less_Suc_eq)
      qed
      moreover have "wins slots (Suc m) w \<and> slot_id slots w = k" if "map_of (pk_winner p) k = Some w" for k w
        using that keep still Some bi(2) by (cases "k = ?k") auto
      ultimately show ?thesis
        using known ok Some False new
        by (auto simp: pick_inv_def pick_step_def Let_def less_Suc_eq)
    qed
  qed
qed

lemma pick_singles_inv: "pick_inv slots (length slots) (pick_singles slots)"
proof -
  have "pick_inv slots m (fold (pick_step slots) [0..<m] \<lparr>pk_winner = [], pk_answered = []\<rparr>)" for m
    by (induction m) (auto simp: pick_step_inv, simp add: pick_inv_def)
  then show ?thesis by (simp add: pick_singles_def)
qed

lemma winner_indices_eq:
  "winner_indices slots (pick_singles slots) = filter (wins slots (length slots)) [0..<length slots]"
proof -
  let ?p = "pick_singles slots"
  have inv: "pick_inv slots (length slots) ?p" by (rule pick_singles_inv)
  have "i \<in> snd ` set (pk_winner ?p) \<longleftrightarrow> wins slots (length slots) i" if "i < length slots" for i
  proof
    assume "i \<in> snd ` set (pk_winner ?p)"
    then obtain k where "(k, i) \<in> set (pk_winner ?p)" by (rule imageE) (metis prod.collapse)
    then have "map_of (pk_winner ?p) k = Some i" using inv by (simp add: pick_inv_def hm_ok_def)
    then show "wins slots (length slots) i" using inv by (simp add: pick_inv_def)
  next
    assume w: "wins slots (length slots) i"
    obtain v where v: "map_of (pk_winner ?p) (slot_id slots i) = Some v" using pick_invD(1) [OF inv \<open>i < length slots\<close>] by blast
    then have "wins slots (length slots) v" "slot_id slots v = slot_id slots i" using pick_invD(2,3) [OF inv v] by blast+
    then have "v = i" using wins_unique [OF _ w] by blast
    then show "i \<in> snd ` set (pk_winner ?p)" using map_of_SomeD [OF v] by force
  qed
  then show ?thesis unfolding winner_indices_def by (intro filter_cong) auto
qed

lemma answered_eq: "set (pk_answered (pick_singles slots)) = {i. i < length slots \<and> \<not> wins slots (length slots) i}"
  and winner_get: "i < length slots \<Longrightarrow> map_of (pk_winner (pick_singles slots)) (slot_id slots i) = Some i \<longleftrightarrow> wins slots (length slots) i"
proof -
  have inv: "pick_inv slots (length slots) (pick_singles slots)" by (rule pick_singles_inv)
  have iff: "map_of (pk_winner (pick_singles slots)) (slot_id slots i) = Some i \<longleftrightarrow> wins slots (length slots) i" if i: "i < length slots" for i
  proof
    assume w: "wins slots (length slots) i"
    obtain v where v: "map_of (pk_winner (pick_singles slots)) (slot_id slots i) = Some v" using pick_invD(1) [OF inv i] by blast
    then have "wins slots (length slots) v" "slot_id slots v = slot_id slots i" using pick_invD(2,3) [OF inv v] by blast+
    then show "map_of (pk_winner (pick_singles slots)) (slot_id slots i) = Some i" using v wins_unique [OF _ w] by metis
  qed (use inv in \<open>simp add: pick_inv_def\<close>)
  then show "i < length slots \<Longrightarrow> map_of (pk_winner (pick_singles slots)) (slot_id slots i) = Some i \<longleftrightarrow> wins slots (length slots) i" .
  show "set (pk_answered (pick_singles slots)) = {i. i < length slots \<and> \<not> wins slots (length slots) i}"
    using inv iff by (auto simp: pick_inv_def)
qed


text \<open>The reply of a slot: its document was overtaken, or it went on and got the outcome.\<close>

definition slot_reply :: "single_job list \<Rightarrow> (upsert_sync_error + bulk_upsert_outcome) \<Rightarrow> nat \<Rightarrow> upsert_sync_error + string list" where
  "slot_reply slots r i =
     (if \<not> wins slots (length slots) i then Inr [slot_id slots i]
      else case r of
             Inl e \<Rightarrow> Inl (replicate_upsert_sync_err e)
           | Inr outcome \<Rightarrow>
               if slot_id slots i \<in> set (buo_drained outcome) then Inl UQueueEntryGone
               else if slot_id slots i \<in> set (buo_skipped outcome) then Inr [slot_id slots i] else Inr [])"

lemma mset_split_indices:
  assumes "distinct A" "set A = {i. i < n \<and> \<not> P i}" "\<And>i. i < n \<Longrightarrow> \<not> P i \<Longrightarrow> f i = h i" "\<And>i. i < n \<Longrightarrow> g i = (if P i then h i else [])"
  shows "mset (concat (map f A) @ concat (map g [0..<n])) = mset (concat (map h [0..<n]))"
proof -
  have "mset A = mset (filter (\<lambda>i. \<not> P i) [0..<n])"
    using assms(1,2) by (intro set_eq_iff_mset_eq_distinct [THEN iffD1]) auto
  then have "mset (concat (map f A)) = mset (concat (map f (filter (\<lambda>i. \<not> P i) [0..<n])))" by (rule mset_concat_map_cong)
  also have "map f (filter (\<lambda>i. \<not> P i) [0..<n]) = map h (filter (\<lambda>i. \<not> P i) [0..<n])" using assms(3) by simp
  finally have fs: "mset (concat (map f A)) = mset (concat (map h (filter (\<lambda>i. \<not> P i) [0..<n])))" .
  have gs: "map g [0..<n] = map (\<lambda>i. if P i then h i else []) [0..<n]" using assms(4) by simp
  have "mset (concat (map h (filter (\<lambda>i. \<not> P i) xs))) + mset (concat (map (\<lambda>i. if P i then h i else []) xs)) = mset (concat (map h xs))" for xs
    by (induction xs) auto
  then show ?thesis using fs unfolding gs by simp
qed

text \<open>
  C29: The micro-batch of single documents of a collection. Of the documents of one id exactly the newest goes on to the
  bulk upsert, the first of them when timestamps are equal, so that no id occurs twice there, each with its own queue
  ticket; and every document gets exactly one reply: an overtaken one that it was skipped, the others the outcome of the
  upsert for their id.
\<close>

theorem single_microbatch_correct:
  assumes "respond_single_microbatch_for_collection env coll slots st = (st', replies)" "slots \<noteq> []"
  shows "\<exists>winners r. document_upsert_bulk_internal env coll (map (\<lambda>i. sg_document (slots ! i)) winners)
      (map (\<lambda>i. sg_queue (slots ! i)) winners) st = (st', r) \<and>
    distinct (map (slot_id slots) winners) \<and> slot_id slots ` set winners = slot_id slots ` {..<length slots} \<and>
    (\<forall>w\<in>set winners. \<forall>i<length slots. slot_id slots i = slot_id slots w \<longrightarrow> slot_ts slots i \<le> slot_ts slots w) \<and>
    mset replies = mset (concat (map (\<lambda>i. send_single_ingress_reply (slots ! i) (slot_reply slots r i)) [0..<length slots]))"
proof -
  let ?n = "length slots" and ?p = "pick_singles slots"
  let ?ws = "filter (wins slots ?n) [0..<?n]"
  have inv: "pick_inv slots ?n ?p" by (rule pick_singles_inv)
  have ids: "slot_id slots ` set ?ws = slot_id slots ` {..<?n}"
  proof -
    have "slot_id slots i \<in> slot_id slots ` set ?ws" if i: "i < ?n" for i
    proof -
      obtain v where v: "map_of (pk_winner ?p) (slot_id slots i) = Some v" using pick_invD(1) [OF inv i] by blast
      then have "wins slots ?n v" "slot_id slots v = slot_id slots i" using pick_invD(2,3) [OF inv v] by blast+
      then show ?thesis by (auto simp: wins_def image_iff intro!: bexI [of _ v])
    qed
    then show ?thesis by auto
  qed
  have "slot_id slots ` set ?ws \<noteq> {}" unfolding ids using assms(2) by auto
  then have ne: "?ws \<noteq> []" by force
  obtain r where run: "document_upsert_bulk_internal env coll (map (\<lambda>i. sg_document (slots ! i)) ?ws)
      (map (\<lambda>i. sg_queue (slots ! i)) ?ws) st = (st', r)"
      and replies: "replies = loser_replies slots ?p @ concat (map (case r of Inr outcome \<Rightarrow> winner_reply slots ?p outcome | Inl e \<Rightarrow> error_reply slots ?p e) [0..<?n])"
    using assms(1) ne
    by (auto simp: respond_single_microbatch_for_collection_def Let_def winner_indices_eq split: prod.splits sum.splits)
  have "mset replies = mset (concat (map (\<lambda>i. send_single_ingress_reply (slots ! i) (slot_reply slots r i)) [0..<?n]))"
    unfolding replies loser_replies_def
  proof (rule mset_split_indices [where P = "wins slots ?n"])
    show "distinct (pk_answered ?p)" using inv by (simp add: pick_inv_def)
    show "set (pk_answered ?p) = {i. i < ?n \<and> \<not> wins slots ?n i}" by (rule answered_eq)
  next
    fix i assume "i < ?n" "\<not> wins slots ?n i"
    then show "send_single_ingress_reply (slots ! i) (Inr [slot_id slots i]) = send_single_ingress_reply (slots ! i) (slot_reply slots r i)"
      by (simp add: slot_reply_def)
  next
    fix i assume i: "i < ?n"
    show "(case r of Inr outcome \<Rightarrow> winner_reply slots ?p outcome | Inl e \<Rightarrow> error_reply slots ?p e) i =
        (if wins slots ?n i then send_single_ingress_reply (slots ! i) (slot_reply slots r i) else [])"
      using i winner_get [OF i] by (auto simp: slot_reply_def winner_reply_def error_reply_def answered_eq Let_def split: sum.splits)
  qed
  moreover have "distinct (map (slot_id slots) ?ws)"
    unfolding distinct_map using wins_unique by (auto simp: inj_on_def)
  moreover have "\<forall>w\<in>set ?ws. \<forall>i<?n. slot_id slots i = slot_id slots w \<longrightarrow> slot_ts slots i \<le> slot_ts slots w"
    by (auto simp: wins_def)
  ultimately show ?thesis using run ids by blast
qed

section \<open>Chunks\<close>

lemma chunks_concat: "0 < n \<Longrightarrow> concat (chunks_of n xs) = xs"
  by (induction n xs rule: chunks_of.induct) (subst chunks_of.simps, simp)

lemma chunks_length: "c \<in> set (chunks_of n xs) \<Longrightarrow> c \<noteq> [] \<and> length c \<le> n"
proof (induction n xs rule: chunks_of.induct)
  case (1 n xs)
  then show ?case by (subst (asm) (2) chunks_of.simps) (auto split: if_splits)
qed

lemma chunks_zip:
  "0 < n \<Longrightarrow> length vs = length xs \<Longrightarrow>
     concat (map (\<lambda>(c, d). zip c d) (zip (chunks_of n xs) (chunks_of n vs))) = zip xs vs \<and>
     (\<forall>(c, d)\<in>set (zip (chunks_of n xs) (chunks_of n vs)). length d = length c) \<and>
     length (chunks_of n vs) = length (chunks_of n xs)"
proof (induction n xs arbitrary: vs rule: chunks_of.induct)
  case (1 n xs)
  show ?case
  proof (cases "xs = []")
    case True
    then show ?thesis using 1 by (simp add: chunks_of.simps)
  next
    case False
    then have "vs \<noteq> []" using 1(3) by auto
    have step: "chunks_of n xs = take n xs # chunks_of n (drop n xs)" "chunks_of n vs = take n vs # chunks_of n (drop n vs)"
      using False \<open>vs \<noteq> []\<close> 1(2) by (subst chunks_of.simps, simp)+
    have "zip (take n xs) (take n vs) @ zip (drop n xs) (drop n vs) = zip xs vs"
      by (metis append_take_drop_id take_zip drop_zip)
    then show ?thesis using 1(1) [of "drop n vs"] False 1(2,3) by (simp add: step)
  qed
qed

lemma merge_chunks_eq:
  "merge_chunks rs sk dr fe =
     (case (fe, List.map_filter (\<lambda>r. case r of ChunkDone (Inl e) \<Rightarrow> Some e | _ \<Rightarrow> None) rs) of
        (Some e, _) \<Rightarrow> Inl e
      | (None, e # _) \<Rightarrow> Inl e
      | (None, []) \<Rightarrow>
          (let os = List.map_filter (\<lambda>r. case r of ChunkDone (Inr x) \<Rightarrow> Some x | _ \<Rightarrow> None) rs
           in Inr \<lparr>buo_skipped = sk @ concat (map buo_skipped os), buo_drained = dr @ concat (map buo_drained os)\<rparr>))"
  by (induction rs sk dr fe rule: merge_chunks.induct) (auto simp: List.map_filter_simps Let_def split: option.splits list.splits)

lemma merge_oks:
  "merge_chunks (map (\<lambda>x. ChunkDone (Inr x)) os @ rs) sk dr fe =
     merge_chunks rs (sk @ concat (map buo_skipped os)) (dr @ concat (map buo_drained os)) fe"
  by (induction os arbitrary: sk dr) simp_all

text \<open>
  A bulk upload is cut into chunks of at most sixteen documents without losing or moving one: put together the chunks
  are the upload, and every document stays beside its own queue ticket. When no chunk task panics, the job succeeds
  exactly when every chunk does, with all their skipped and drained documents, and fails with the error of the first
  chunk that failed otherwise.
\<close>

theorem bulk_chunks_correct:
  assumes "verifies = [] \<or> length verifies = length documents" "ChunkPanicked \<notin> set results"
  shows "concat (map fst (bulk_chunks documents verifies)) = documents \<and>
    (\<forall>(c, v)\<in>set (bulk_chunks documents verifies). c \<noteq> [] \<and> length c \<le> 16 \<and> (v = [] \<longleftrightarrow> verifies = [])) \<and>
    (verifies \<noteq> [] \<longrightarrow> concat (map (\<lambda>(c, v). zip c v) (bulk_chunks documents verifies)) = zip documents verifies) \<and>
    (\<forall>outcome. bulk_outcome results = Inr outcome \<longleftrightarrow>
       (\<exists>os. results = map (\<lambda>x. ChunkDone (Inr x)) os \<and>
          outcome = \<lparr>buo_skipped = concat (map buo_skipped os), buo_drained = concat (map buo_drained os)\<rparr>))"
proof -
  let ?n = BULK_UPSERT_CHUNK_SIZE
  have n: "0 < ?n" "?n = 16" by (simp_all add: BULK_UPSERT_CHUNK_SIZE_def)
  have pair: "length verifies = length documents \<Longrightarrow> (c, v) \<in> set (zip (chunks_of ?n documents) (chunks_of ?n verifies)) \<Longrightarrow>
      c \<noteq> [] \<and> length c \<le> 16 \<and> v \<noteq> []" for c v
    using chunks_length [of c ?n documents] chunks_length [of v ?n verifies] n(2) by (auto dest: set_zip_leftD set_zip_rightD)
  have zips: "length verifies = length documents \<Longrightarrow> length (chunks_of ?n verifies) = length (chunks_of ?n documents) \<and>
      concat (map (\<lambda>(c, d). zip c d) (zip (chunks_of ?n documents) (chunks_of ?n verifies))) = zip documents verifies"
    using chunks_zip [OF n(1)] by blast
  have chunks: "concat (map fst (bulk_chunks documents verifies)) = documents"
    using assms(1) zips by (auto simp: bulk_chunks_def chunks_concat [OF n(1)] comp_def)
  have sizes: "\<forall>(c, v)\<in>set (bulk_chunks documents verifies). c \<noteq> [] \<and> length c \<le> 16 \<and> (v = [] \<longleftrightarrow> verifies = [])"
  proof (cases "verifies = []")
    case True
    then show ?thesis using chunks_length [of _ ?n documents] n(2) by (auto simp: bulk_chunks_def)
  next
    case False
    then have "length verifies = length documents" using assms(1) by simp
    then show ?thesis using pair False unfolding bulk_chunks_def by auto
  qed
  have tickets: "verifies \<noteq> [] \<longrightarrow> concat (map (\<lambda>(c, v). zip c v) (bulk_chunks documents verifies)) = zip documents verifies"
    using assms(1) zips by (auto simp: bulk_chunks_def)
  have out: "bulk_outcome rs = Inr outcome \<longleftrightarrow> (\<exists>os. rs = map (\<lambda>x. ChunkDone (Inr x)) os \<and>
      outcome = \<lparr>buo_skipped = concat (map buo_skipped os), buo_drained = concat (map buo_drained os)\<rparr>)"
    if "ChunkPanicked \<notin> set rs" for rs outcome
  proof (cases "\<exists>os. rs = map (\<lambda>x. ChunkDone (Inr x)) os")
    case True
    then obtain os where os: "rs = map (\<lambda>x. ChunkDone (Inr x)) os" by blast
    have inj: "map (\<lambda>x. ChunkDone (Inr x)) a = map (\<lambda>x. ChunkDone (Inr x)) b \<longleftrightarrow> a = b" for a b :: "bulk_upsert_outcome list"
      by (rule inj_map_eq_map) (simp add: inj_def)
    show ?thesis unfolding os inj using merge_oks [of os "[]" "[]" "[]" None] by (auto simp: bulk_outcome_def)
  next
    case False
    have "\<exists>e. ChunkDone (Inl e) \<in> set rs"
    proof (rule ccontr)
      assume none: "\<nexists>e. ChunkDone (Inl e) \<in> set rs"
      have "\<exists>x. r = ChunkDone (Inr x)" if "r \<in> set rs" for r
      proof (cases r)
        case (ChunkDone x)
        then show ?thesis using that none by (cases x) auto
      qed (use that \<open>ChunkPanicked \<notin> set rs\<close> in auto)
      then have "\<exists>os. rs = map (\<lambda>x. ChunkDone (Inr x)) os" by (intro ex_map_conv [THEN iffD2]) blast
      with False show False by blast
    qed
    then obtain e where "ChunkDone (Inl e) \<in> set rs" ..
    then have "List.map_filter (\<lambda>r. case r of ChunkDone (Inl e) \<Rightarrow> Some e | _ \<Rightarrow> None) rs \<noteq> []"
      by (auto simp: List.map_filter_def filter_empty_conv intro!: bexI [of _ "ChunkDone (Inl e)"])
    then show ?thesis using False by (auto simp: bulk_outcome_def merge_chunks_eq split: list.splits)
  qed
  show ?thesis using chunks sizes tickets out [OF assms(2)] by blast
qed

text \<open>
  A chunk whose task panicked is not counted as a failure: the job is reported as a success although documents of it
  were not written.
\<close>

theorem panicked_chunk_reported_as_success:
  "bulk_outcome (map (\<lambda>x. ChunkDone (Inr x)) os @ [ChunkPanicked]) =
     Inr \<lparr>buo_skipped = concat (map buo_skipped os), buo_drained = concat (map buo_drained os)\<rparr>"
  by (simp add: bulk_outcome_def merge_oks)

section \<open>Examples\<close>

definition example_single :: "string \<Rightarrow> int \<Rightarrow> nat \<Rightarrow> single_job" where
  "example_single i t n = \<lparr>sg_collection = ''c'', sg_document = example_document i t, sg_reply = Some n, sg_queue = None\<rparr>"

theorem single_microbatch_correct_witness:
  "\<exists>winners r st'. document_upsert_bulk_internal example_env ''c'' (map (\<lambda>i. sg_document ([example_single ''a'' 1 0, example_single ''a'' 2 1] ! i)) winners)
      (map (\<lambda>i. sg_queue ([example_single ''a'' 1 0, example_single ''a'' 2 1] ! i)) winners) (example_store Map.empty []) = (st', r)"
proof -
  obtain st' replies where "respond_single_microbatch_for_collection example_env ''c'' [example_single ''a'' 1 0, example_single ''a'' 2 1]
      (example_store Map.empty []) = (st', replies)"
    by (cases "respond_single_microbatch_for_collection example_env ''c'' [example_single ''a'' 1 0, example_single ''a'' 2 1]
      (example_store Map.empty [])")
  from single_microbatch_correct [OF this] show ?thesis by blast
qed

theorem bulk_chunks_correct_witness:
  "concat (map fst (bulk_chunks [example_document ''a'' 1] [None])) = [example_document ''a'' 1] \<and>
   (bulk_outcome [ChunkDone (Inr \<lparr>buo_skipped = [], buo_drained = []\<rparr>)] = Inr \<lparr>buo_skipped = [], buo_drained = []\<rparr>)"
  using bulk_chunks_correct [of "[None]" "[example_document ''a'' 1]" "[ChunkDone (Inr \<lparr>buo_skipped = [], buo_drained = []\<rparr>)]"]
  by (simp add: bulk_outcome_def)

end
