(* ===== verification/Queue_Store.thy ===== *)
theory Queue_Store
  imports Ingestion
begin

text \<open>
  The queue collection: the operations of \<open>src/src/qdrant.rs\<close> on the rows of the ingestion queue
  (\<open>add_to_queue\<close>, \<open>get_from_queue\<close>, \<open>delete_from_queue\<close>, \<open>update_queue_status\<close>,
  \<open>claim_pending_queue\<close>, \<open>get_queue_entries\<close>, \<open>get_queue_info\<close>, \<open>get_queue_statuses\<close>), and the poller of
  \<open>Queue_Poller\<close> running on it.

  The state is the list of the stored rows. A row is the \<open>QueueDocument\<close> its payload is read back
  as; the documents queued by the API carry no token lengths, the only field the payload leaves out.
  Pages and counts come from the Qdrant server: they are the record \<open>queue_client\<close>, and \<open>scroll_ok\<close>
  and \<open>count_ok\<close> are the documented behaviour of its answers (a page holds the first rows of the
  matching ones in the requested order, ten when no limit is given). A failed call changes nothing.
\<close>

section \<open>Conditions, pages and counts\<close>

datatype queue_condition =
    CollectionIs string
  | DocIdIs string
  | StatusIn "queued_document_status list"
  | OpTypeIs queue_operation_type
  | TryCountIs nat
  | TryCountGt nat

fun meets :: "queue_condition \<Rightarrow> queue_document \<Rightarrow> bool" where
  "meets (CollectionIs c) q = (qd_collection_name q = c)"
| "meets (DocIdIs i) q = (qd_doc_id q = i)"
| "meets (StatusIn ss) q = (qd_status q \<in> set ss)"
| "meets (OpTypeIs op) q = (qd_op_type q = op)"
| "meets (TryCountIs n) q = (qd_try_count q = n)"
| "meets (TryCountGt n) q = (n < qd_try_count q)"

definition matches :: "queue_condition list \<Rightarrow> queue_document \<Rightarrow> bool" where
  "matches conds q = list_all (\<lambda>c. meets c q) conds"

datatype order_field = CreatedAt | Timestamp

fun order_value :: "order_field \<Rightarrow> queue_document \<Rightarrow> int" where
  "order_value CreatedAt q = qd_created_at q"
| "order_value Timestamp q = qd_timestamp q"

record queue_client =
  qc_scroll :: "queue_condition list \<Rightarrow> nat option \<Rightarrow> order_field \<Rightarrow> queue_document list \<Rightarrow>
    db_error + queue_document list"
  qc_count :: "queue_condition list \<Rightarrow> queue_document list \<Rightarrow> db_error + nat option"

definition DEFAULT_PAGE :: nat where
  "DEFAULT_PAGE = 10"

definition scroll_ok :: "queue_client \<Rightarrow> bool" where
  "scroll_ok c \<longleftrightarrow>
     (\<forall>conds limit f rows page. qc_scroll c conds limit f rows = Inr page \<longrightarrow>
        (\<exists>sorted. mset sorted = mset (filter (matches conds) rows) \<and>
           sorted_wrt (\<lambda>a b. order_value f a \<le> order_value f b) sorted \<and>
           page = take (unwrap_or DEFAULT_PAGE limit) sorted))"

definition count_ok :: "queue_client \<Rightarrow> bool" where
  "count_ok c \<longleftrightarrow>
     (\<forall>conds rows n. qc_count c conds rows = Inr n \<longrightarrow> n = Some (length (filter (matches conds) rows)))"

section \<open>Writing\<close>

text \<open>A point with the same id is replaced.\<close>

definition upsert_row :: "queue_document \<Rightarrow> queue_document list \<Rightarrow> queue_document list" where
  "upsert_row q rows =
     (if qd_queue_id q \<in> qd_queue_id ` set rows
      then map (\<lambda>r. if qd_queue_id r = qd_queue_id q then q else r) rows
      else rows @ [q])"

definition queue_row ::
    "int \<Rightarrow> string \<Rightarrow> string \<Rightarrow> queue_operation_type \<Rightarrow> string \<times> document \<times> int \<Rightarrow> queue_document" where
  "queue_row now coll cid op p =
     (case p of (qid, document, ts) \<Rightarrow>
      \<lparr>qd_queue_id = qid, qd_collection_name = coll, qd_collection_id = cid, qd_doc_id = doc_id document,
       qd_op_type = op, qd_doc_timestamp = ts, qd_status = Queued, qd_info = None, qd_document = Some document,
       qd_created_at = now, qd_timestamp = now, qd_try_count = 0\<rparr>)"

text \<open>\<open>uuid i\<close> is the identifier drawn for the \<open>i\<close>-th document, \<open>err\<close> the failure of the write.\<close>

fun queue_points ::
    "(nat \<Rightarrow> string) \<Rightarrow> queue_operation_type \<Rightarrow> int option \<Rightarrow> nat \<Rightarrow> document list \<Rightarrow>
     db_error + (string \<times> document \<times> int) list" where
  "queue_points uuid op ts i [] = Inr []"
| "queue_points uuid op ts i (d # ds) =
     and_then (if op = Delete
               then ok_or (Config ''request_timestamp required for delete queue entries'') ts
               else Inr (doc_timestamp d))
       (\<lambda>t. and_then (queue_points uuid op ts (Suc i) ds) (\<lambda>ps. Inr ((uuid i, d, t) # ps)))"

definition add_to_queue ::
    "(nat \<Rightarrow> string) \<Rightarrow> int \<Rightarrow> db_error option \<Rightarrow> string \<Rightarrow> string \<Rightarrow> document list \<Rightarrow> queue_operation_type \<Rightarrow>
     int option \<Rightarrow> queue_document list \<Rightarrow> queue_document list \<times> (db_error + string list)" where
  "add_to_queue uuid now err coll cid documents op ts rows =
     (case queue_points uuid op ts 0 documents of
        Inl e \<Rightarrow> (rows, Inl e)
      | Inr points \<Rightarrow>
          (case err of
             Some e \<Rightarrow> (rows, Inl e)
           | None \<Rightarrow> (fold (\<lambda>p. upsert_row (queue_row now coll cid op p)) points rows, Inr (map fst points))))"

definition delete_from_queue :: "db_error option \<Rightarrow> string list \<Rightarrow> queue_document list \<Rightarrow> queue_document list \<times> (db_error + unit)" where
  "delete_from_queue err qids rows =
     (if qids = [] then (rows, Inr ())
      else case err of
             Some e \<Rightarrow> (rows, Inl e)
           | None \<Rightarrow> (filter (\<lambda>q. qd_queue_id q \<notin> set qids) rows, Inr ()))"

definition delete_from_queue_by_collection ::
    "db_error option \<Rightarrow> string \<Rightarrow> queue_document list \<Rightarrow> queue_document list \<times> (db_error + unit)" where
  "delete_from_queue_by_collection err coll rows =
     (case err of
        Some e \<Rightarrow> (rows, Inl e)
      | None \<Rightarrow> (filter (\<lambda>q. \<not> matches [CollectionIs coll] q) rows, Inr ()))"

text \<open>Rows are grouped by their new try count; one call per group, in the order of the map.\<close>

definition set_status ::
    "queued_document_status \<Rightarrow> int \<Rightarrow> string \<Rightarrow> nat \<Rightarrow> queue_document \<Rightarrow> queue_document" where
  "set_status status now info n q =
     q\<lparr>qd_status := status, qd_timestamp := now, qd_try_count := n, qd_info := Some info\<rparr>"

definition status_groups :: "(string \<times> nat) list \<Rightarrow> (nat, string list) hash_map" where
  "status_groups ids = fold (\<lambda>(qid, n). hm_upsert n [] (\<lambda>l. l @ [qid])) ids []"

fun set_groups ::
    "queued_document_status \<Rightarrow> int \<Rightarrow> string \<Rightarrow> (nat \<Rightarrow> db_error option) \<Rightarrow> (nat \<times> string list) list \<Rightarrow>
     queue_document list \<Rightarrow> queue_document list \<times> (db_error + unit)" where
  "set_groups status now info err [] rows = (rows, Inr ())"
| "set_groups status now info err ((n, ids) # gs) rows =
     (case err n of
        Some e \<Rightarrow> (rows, Inl e)
      | None \<Rightarrow>
          set_groups status now info err gs
            (map (\<lambda>q. if qd_queue_id q \<in> set ids then set_status status now info n q else q) rows))"

definition update_queue_status ::
    "((nat \<times> string list) list \<Rightarrow> (nat \<times> string list) list) \<Rightarrow> int \<Rightarrow> (nat \<Rightarrow> db_error option) \<Rightarrow> (string \<times> nat) list \<Rightarrow>
     queued_document_status \<Rightarrow> string \<Rightarrow> queue_document list \<Rightarrow> queue_document list \<times> (db_error + unit)" where
  "update_queue_status it now err ids status info rows =
     (if ids = [] then (rows, Inr ())
      else set_groups status now info err (it (status_groups ids)) rows)"

section \<open>Reading\<close>

fun comma_join :: "string list \<Rightarrow> string" where
  "comma_join [] = []"
| "comma_join [x] = x"
| "comma_join (x # y # zs) = x @ '', '' @ comma_join (y # zs)"

definition get_rows_from_queue ::
    "db_error option \<Rightarrow> string list \<Rightarrow> bool \<Rightarrow> queue_document list \<Rightarrow> db_error + queue_document list" where
  "get_rows_from_queue err qids suppress_not_found rows =
     (if qids = [] then Inr []
      else case err of
        Some e \<Rightarrow> Inl e
      | None \<Rightarrow>
          let found = filter (\<lambda>q. qd_queue_id q \<in> set qids) rows;
              missing = filter (\<lambda>i. i \<notin> qd_queue_id ` set found) qids
          in if length found \<noteq> length qids \<and> \<not> suppress_not_found
             then Inl (NotFound (''Queue documents not found for queue_ids: '' @ comma_join missing))
             else Inr found)"

definition pending_status_condition :: queue_condition where
  "pending_status_condition = StatusIn [Queued, Requeued]"

definition scroll_pending_queue_phase ::
    "queue_client \<Rightarrow> nat \<Rightarrow> bool \<Rightarrow> queue_document list \<Rightarrow> db_error + queue_document list" where
  "scroll_pending_queue_phase c limit try_count_zero rows =
     (if limit = 0 then Inr []
      else qc_scroll c [pending_status_condition, if try_count_zero then TryCountIs 0 else TryCountGt 0]
             (Some (limit mod 2 ^ 32)) CreatedAt rows)"

definition claim_pending_queue :: "queue_client \<Rightarrow> nat \<Rightarrow> queue_document list \<Rightarrow> db_error + queue_document list" where
  "claim_pending_queue c limit rows =
     and_then (scroll_pending_queue_phase c limit True rows)
       (\<lambda>out. if length out < limit
              then and_then (scroll_pending_queue_phase c (limit - length out) False rows) (\<lambda>more. Inr (out @ more))
              else Inr out)"

definition get_queue_entries ::
    "queue_client \<Rightarrow> string \<Rightarrow> string option \<Rightarrow> queue_document list \<Rightarrow> db_error + queue_document list" where
  "get_queue_entries c coll doc rows =
     qc_scroll c (CollectionIs coll # (case doc of Some i \<Rightarrow> [DocIdIs i] | None \<Rightarrow> [])) None Timestamp rows"

record queue_info =
  qi_queued_upsert :: int
  qi_queued_delete :: int
  qi_requeued_upsert :: int
  qi_requeued_delete :: int
  qi_failed_upsert :: int
  qi_failed_delete :: int
  qi_total :: int

definition queue_cells :: "(queued_document_status \<times> queue_operation_type) list" where
  "queue_cells = List.product [Queued, Requeued, Failed] [Upsert, Delete]"

fun queue_counts ::
    "queue_client \<Rightarrow> string \<Rightarrow> queue_document list \<Rightarrow> (queued_document_status \<times> queue_operation_type) list \<Rightarrow>
     (queued_document_status \<times> queue_operation_type, int) hash_map \<Rightarrow>
     db_error + (queued_document_status \<times> queue_operation_type, int) hash_map" where
  "queue_counts c coll rows [] counts = Inr counts"
| "queue_counts c coll rows ((status, op) # cells) counts =
     and_then (qc_count c [CollectionIs coll, StatusIn [status], OpTypeIs op] rows)
       (\<lambda>n. queue_counts c coll rows cells (AList.update (status, op) (int (unwrap_or 0 n)) counts))"

definition get_queue_info :: "queue_client \<Rightarrow> string \<Rightarrow> queue_document list \<Rightarrow> db_error + queue_info" where
  "get_queue_info c coll rows =
     and_then (queue_counts c coll rows queue_cells [])
       (\<lambda>counts.
          let cell = (\<lambda>s op. unwrap_or 0 (map_of counts (s, op)));
              queued_upsert = cell Queued Upsert; queued_delete = cell Queued Delete;
              requeued_upsert = cell Requeued Upsert; requeued_delete = cell Requeued Delete;
              failed_upsert = cell Failed Upsert; failed_delete = cell Failed Delete
          in Inr \<lparr>qi_queued_upsert = queued_upsert, qi_queued_delete = queued_delete,
                  qi_requeued_upsert = requeued_upsert, qi_requeued_delete = requeued_delete,
                  qi_failed_upsert = failed_upsert, qi_failed_delete = failed_delete,
                  qi_total = queued_upsert + queued_delete + requeued_upsert + requeued_delete +
                    failed_upsert + failed_delete\<rparr>)"

record document_status =
  ds_status :: queued_document_status
  ds_op_type :: "queue_operation_type option"
  ds_info :: "string option"
  ds_timestamp :: int
  ds_queue_id :: "string option"
  ds_try_count :: "nat option"

definition indexed_status :: "document \<Rightarrow> document_status" where
  "indexed_status doc =
     \<lparr>ds_status = Indexed, ds_op_type = None, ds_info = None, ds_timestamp = doc_timestamp doc,
      ds_queue_id = None, ds_try_count = None\<rparr>"

definition indexed_statuses :: "document option list \<Rightarrow> document_status list" where
  "indexed_statuses docs = (case docs of Some doc # _ \<Rightarrow> [indexed_status doc] | _ \<Rightarrow> [])"

definition row_status :: "queue_document \<Rightarrow> document_status" where
  "row_status q =
     \<lparr>ds_status = qd_status q, ds_op_type = Some (qd_op_type q), ds_info = qd_info q,
      ds_timestamp = qd_timestamp q, ds_queue_id = Some (qd_queue_id q), ds_try_count = Some (qd_try_count q)\<rparr>"

text \<open>\<open>docs\<close> is what \<open>get_documents\<close> answers for the one identifier.\<close>

definition get_queue_statuses ::
    "queue_client \<Rightarrow> db_error + document option list \<Rightarrow> string \<Rightarrow> string \<Rightarrow> queue_document list \<Rightarrow>
     db_error + document_status list" where
  "get_queue_statuses c docs coll i rows =
     and_then docs (\<lambda>ds.
     and_then (get_queue_entries c coll (Some i) rows) (\<lambda>entries.
       Inr (sort_by (\<lambda>a b. ord_cmp (ds_timestamp b) (ds_timestamp a))
         (indexed_statuses ds @ map row_status entries))))"

section \<open>The poller on the queue\<close>

text \<open>
  One call of the poller on the queue, and one iteration of its loop at time \<open>now\<close> on the rows the
  claim finds. \<open>Some e\<close> of \<open>err\<close> makes the call of an event fail.
\<close>

fun run_event :: "int \<Rightarrow> (queue_event \<Rightarrow> db_error option) \<Rightarrow> queue_event \<Rightarrow> queue_document list \<Rightarrow> queue_document list" where
  "run_event now err (UpdateStatus qid n status info) rows =
     fst (update_queue_status (\<lambda>m. m) now (\<lambda>_. err (UpdateStatus qid n status info)) [(qid, n)] status info rows)"
| "run_event now err (DeleteRows qids) rows = fst (delete_from_queue (err (DeleteRows qids)) qids rows)"

definition poll_queue ::
    "queue_client \<Rightarrow> poller_env \<Rightarrow> int \<Rightarrow> (queue_event \<Rightarrow> db_error option) \<Rightarrow> bool \<times> bool \<times> bool \<Rightarrow>
     queue_document list \<times> nat \<Rightarrow> (queue_document list \<times> nat) \<times> bool" where
  "poll_queue c env now err stops s =
     (case (stops, s) of ((before, after, idle), (rows, idle_ms)) \<Rightarrow>
      case poll_iteration env
             \<lparr>pi_stop_before = before, pi_claim = claim_pending_queue c QUEUE_POLLER_BATCH_SIZE rows,
              pi_stop_after_claim = after, pi_idle_stop = idle, pi_now = now\<rparr> idle_ms of
        (evs, ends, idle_ms) \<Rightarrow> ((fold (run_event now err) evs rows, idle_ms), ends))"

section \<open>Claims\<close>

definition pending :: "queue_document \<Rightarrow> bool" where
  "pending q \<longleftrightarrow> qd_status q = Queued \<or> qd_status q = Requeued"

definition claimed_before :: "queue_document \<Rightarrow> queue_document \<Rightarrow> bool" where
  "claimed_before a b \<longleftrightarrow>
     qd_try_count a = 0 \<and> 0 < qd_try_count b \<or>
     (qd_try_count a = 0 \<longleftrightarrow> qd_try_count b = 0) \<and> qd_created_at a \<le> qd_created_at b"

lemma matches_simps [simp]: "matches [] q" "matches (c # cs) q \<longleftrightarrow> meets c q \<and> matches cs q"
  by (simp_all add: matches_def)

lemma meets_pending [simp]: "meets pending_status_condition q = pending q"
  by (auto simp: pending_status_condition_def pending_def)

text \<open>What a page says about the rows it leaves out.\<close>

lemma page_first:
  assumes "scroll_ok c" "qc_scroll c conds limit f rows = Inr page"
  shows "mset page \<subseteq># mset (filter (matches conds) rows) \<and>
    length page = min (unwrap_or DEFAULT_PAGE limit) (length (filter (matches conds) rows)) \<and>
    sorted_wrt (\<lambda>a b. order_value f a \<le> order_value f b) page \<and>
    (\<forall>a \<in> set page. \<forall>b \<in># mset (filter (matches conds) rows) - mset page. order_value f a \<le> order_value f b)"
proof -
  obtain l where l: "mset l = mset (filter (matches conds) rows)"
      "sorted_wrt (\<lambda>a b. order_value f a \<le> order_value f b) l"
    and page: "page = take (unwrap_or DEFAULT_PAGE limit) l"
    using assms unfolding scroll_ok_def by blast
  let ?n = "unwrap_or DEFAULT_PAGE limit"
  have parts: "mset l = mset page + mset (drop ?n l)" unfolding page by (simp flip: mset_append)
  have sorted: "sorted_wrt (\<lambda>a b. order_value f a \<le> order_value f b) (page @ drop ?n l)"
    using l(2) unfolding page by simp
  have "length l = length (filter (matches conds) rows)" using l(1) by (metis size_mset)
  then have "length page = min ?n (length (filter (matches conds) rows))" unfolding page by simp
  moreover have "mset (filter (matches conds) rows) - mset page = mset (drop ?n l)"
    using parts l(1) by (metis add_diff_cancel_left')
  ultimately show ?thesis using sorted parts l(1) unfolding sorted_wrt_append
    by (metis mset_subset_eq_add_left set_mset_mset)
qed

lemma phase_page:
  assumes "scroll_ok c" "limit < 2 ^ 32" "scroll_pending_queue_phase c limit zero rows = Inr page"
  defines "P \<equiv> \<lambda>q. pending q \<and> (qd_try_count q = 0 \<longleftrightarrow> zero)"
  shows "mset page \<subseteq># mset (filter P rows) \<and> length page = min limit (length (filter P rows)) \<and>
    (\<forall>a \<in> set page. \<forall>b \<in># mset (filter P rows) - mset page. qd_created_at a \<le> qd_created_at b)"
proof (cases "limit = 0")
  case True
  then show ?thesis using assms(3) by (simp add: scroll_pending_queue_phase_def)
next
  case False
  let ?conds = "[pending_status_condition, if zero then TryCountIs 0 else TryCountGt 0]"
  have m: "matches ?conds = P" by (auto simp: P_def fun_eq_iff)
  have "qc_scroll c ?conds (Some limit) CreatedAt rows = Inr page"
    using assms(2,3) False by (simp add: scroll_pending_queue_phase_def)
  from page_first [OF assms(1) this] show ?thesis unfolding m by (simp add: unwrap_or_def)
qed

lemma filter_split: "mset (filter P xs) = mset (filter (\<lambda>x. P x \<and> Q x) xs) + mset (filter (\<lambda>x. P x \<and> \<not> Q x) xs)"
  by (induction xs) auto

lemma multiset_diff_union_assoc2: "B \<subseteq># A \<Longrightarrow> (A + C) - B = (A - B) + (C :: 'a multiset)"
  by (metis add.commute multiset_diff_union_assoc)

lemma claim_cases:
  assumes "scroll_ok c" "limit < 2 ^ 32" "claim_pending_queue c limit rows = Inr out"
  shows "length out = min limit (length (filter pending rows)) \<and> mset out \<subseteq># mset (filter pending rows) \<and>
    (\<forall>a \<in> set out. \<forall>b \<in># mset (filter pending rows) - mset out. claimed_before a b)"
proof -
  let ?new = "filter (\<lambda>q. pending q \<and> qd_try_count q = 0) rows"
  let ?old = "filter (\<lambda>q. pending q \<and> \<not> qd_try_count q = 0) rows"
  have all: "mset (filter pending rows) = mset ?new + mset ?old" by (rule filter_split)
  have len: "length (filter pending rows) = length ?new + length ?old"
    using arg_cong [OF all, of size] by (simp only: size_mset size_union)
  obtain p1 where p1: "scroll_pending_queue_phase c limit True rows = Inr p1"
    using assms(3) by (auto simp: claim_pending_queue_def and_then_eq_Inr)
  have f1: "mset p1 \<subseteq># mset ?new" "length p1 = min limit (length ?new)"
    "\<forall>a \<in> set p1. \<forall>b \<in># mset ?new - mset p1. qd_created_at a \<le> qd_created_at b"
    using phase_page [OF assms(1,2) p1] by simp_all
  have new1: "pending a \<and> qd_try_count a = 0" if "a \<in># mset p1" for a
    using mset_subset_eqD [OF f1(1) that] by simp
  show ?thesis
  proof (cases "length p1 < limit")
    case True
    obtain p2 where p2: "scroll_pending_queue_phase c (limit - length p1) False rows = Inr p2" and out: "out = p1 @ p2"
      using assms(3) p1 True by (auto simp: claim_pending_queue_def and_then_eq_Inr)
    have "limit - length p1 < 2 ^ 32" using assms(2) by simp
    from phase_page [OF assms(1) this p2]
    have f2: "mset p2 \<subseteq># mset ?old" "length p2 = min (limit - length p1) (length ?old)"
      "\<forall>a \<in> set p2. \<forall>b \<in># mset ?old - mset p2. qd_created_at a \<le> qd_created_at b"
      by simp_all
    have eq: "mset p1 = mset ?new"
    proof (rule ccontr)
      assume "mset p1 \<noteq> mset ?new"
      with f1(1) have "mset p1 \<subset># mset ?new" by (simp add: subset_mset.less_le)
      then have "length p1 < length ?new" using mset_subset_size by (metis size_mset)
      then show False using f1(2) True by simp
    qed
    have rest: "mset (filter pending rows) - mset out = mset ?old - mset p2"
      unfolding all out using eq by simp
    have "0 < qd_try_count b" if "b \<in># mset ?old" for b using that by simp
    then have old: "0 < qd_try_count b" if "b \<in># mset ?old - mset p2 \<or> b \<in># mset p2" for b
      using that in_diffD [of b "mset ?old"] mset_subset_eqD [OF f2(1), of b] by blast
    have "claimed_before a b" if "a \<in> set out" "b \<in># mset ?old - mset p2" for a b
    proof (cases "a \<in> set p1")
      case True
      then show ?thesis using new1 [of a] old [of b] that by (simp add: claimed_before_def)
    next
      case False
      then have "a \<in> set p2" using that(1) unfolding out by simp
      then show ?thesis using f2(3) old [of a] old [of b] that(2) by (simp add: claimed_before_def)
    qed
    moreover have "length out = min limit (length (filter pending rows))"
      using f1(2) f2(2) True len unfolding out by simp
    moreover have "mset out \<subseteq># mset (filter pending rows)"
      unfolding all out using eq f2(1) by simp
    ultimately show ?thesis unfolding rest by blast
  next
    case False
    then have out: "out = p1" using assms(3) p1 by (simp add: claim_pending_queue_def)
    have rest: "mset (filter pending rows) - mset out = (mset ?new - mset p1) + mset ?old"
      unfolding all out by (rule multiset_diff_union_assoc2 [OF f1(1)])
    have "claimed_before a b" if "a \<in> set out" "b \<in># (mset ?new - mset p1) + mset ?old" for a b
    proof (cases "b \<in># mset ?old")
      case True
      then show ?thesis using new1 [of a] that(1) by (simp add: claimed_before_def out)
    next
      case False
      then have b: "b \<in># mset ?new - mset p1" using that(2) by (metis UnE set_mset_union)
      then have "qd_try_count b = 0" using in_diffD [OF b] by simp
      then show ?thesis using f1(3) b new1 [of a] that(1) by (simp add: claimed_before_def out)
    qed
    moreover have "length out = min limit (length (filter pending rows))"
      using f1(2) False len unfolding out by simp
    moreover have "mset out \<subseteq># mset (filter pending rows)"
      unfolding all out by (rule subset_mset.order_trans [OF f1(1) mset_subset_eq_add_left])
    ultimately show ?thesis unfolding rest by blast
  qed
qed

text \<open>
  A claim takes as many pending rows as there are, up to its limit; no row it leaves behind comes
  before one it takes, where rows that were never tried come before retries and older rows before
  younger ones. So retries that wait for their backoff never keep a new row from being claimed.
\<close>

theorem claim_takes_first:
  assumes "scroll_ok c" "limit < 2 ^ 32" "claim_pending_queue c limit rows = Inr out"
  shows "length out = min limit (length (filter pending rows)) \<and> mset out \<subseteq># mset (filter pending rows) \<and>
    (\<forall>a \<in> set out. \<forall>b \<in># mset (filter pending rows) - mset out. claimed_before a b)"
  using assms by (rule claim_cases)

section \<open>What a poll does to the rows\<close>

definition rows_ok :: "queue_document list \<Rightarrow> bool" where
  "rows_ok rows \<longleftrightarrow> distinct (map qd_queue_id rows) \<and> (\<forall>q \<in> set rows. pending q \<longrightarrow> qd_try_count q < MAX_DB_RETRIES)"

text \<open>An event seen from one row.\<close>

fun event_row :: "int \<Rightarrow> queue_event \<Rightarrow> queue_document \<Rightarrow> queue_document option" where
  "event_row now (UpdateStatus qid n status info) q =
     Some (if qd_queue_id q = qid then set_status status now info n q else q)"
| "event_row now (DeleteRows qids) q = (if qd_queue_id q \<in> set qids then None else Some q)"

fun row_after :: "int \<Rightarrow> queue_event list \<Rightarrow> queue_document \<Rightarrow> queue_document option" where
  "row_after now [] q = Some q"
| "row_after now (ev # evs) q = Option.bind (event_row now ev q) (row_after now evs)"

definition event_runs :: "(queue_event \<Rightarrow> db_error option) \<Rightarrow> queue_event list \<Rightarrow> queue_event list" where
  "event_runs err evs = filter (\<lambda>ev. err ev = None) evs"

lemma map_filter_total: "(\<And>x. f x = Some (g x)) \<Longrightarrow> List.map_filter f xs = map g xs"
  by (induction xs) (simp_all add: List.map_filter_simps)

lemma map_filter_bind: "List.map_filter g (List.map_filter f xs) = List.map_filter (\<lambda>x. Option.bind (f x) g) xs"
  by (induction xs) (auto simp: List.map_filter_simps split: option.split)

lemma run_event_row: "err ev = None \<Longrightarrow> run_event now err ev rows = List.map_filter (event_row now ev) rows"
proof (cases ev)
  case (DeleteRows qids)
  assume "err ev = None"
  then show ?thesis unfolding DeleteRows
    by (induction rows) (auto simp: delete_from_queue_def List.map_filter_simps)
qed (simp add: update_queue_status_def status_groups_def hm_upsert_def map_filter_total [OF event_row.simps(1)])

lemma run_event_failed: "err ev = Some e \<Longrightarrow> run_event now err ev rows = rows"
  by (cases ev) (auto simp: update_queue_status_def status_groups_def hm_upsert_def delete_from_queue_def unwrap_or_def)

lemma run_events_rows: "fold (run_event now err) evs rows = List.map_filter (row_after now (event_runs err evs)) rows"
proof (induction evs arbitrary: rows)
  case (Cons ev evs)
  then show ?case
    by (cases "err ev") (simp_all add: event_runs_def run_event_row run_event_failed map_filter_bind)
qed (simp add: event_runs_def map_filter_total [OF row_after.simps(1)])

lemma event_row_id: "event_row now ev q = Some r \<Longrightarrow> qd_queue_id r = qd_queue_id q"
  by (cases ev) (auto simp: set_status_def split: if_splits)

lemma row_after_id: "row_after now evs q = Some r \<Longrightarrow> qd_queue_id r = qd_queue_id q"
  by (induction evs arbitrary: q) (auto simp: bind_eq_Some_conv dest: event_row_id)

lemma row_after_other: "qd_queue_id q \<notin> set (settled evs) \<Longrightarrow> row_after now evs q = Some q"
proof (induction evs)
  case (Cons ev evs)
  then show ?case by (cases ev) auto
qed simp

text \<open>A status update of a batch, seen from the row it is meant for.\<close>

fun update_ok :: "(string \<Rightarrow> nat option) \<Rightarrow> queue_event \<Rightarrow> bool" where
  "update_ok tries (UpdateStatus qid n status info) \<longleftrightarrow>
     status = Failed \<or> status = Requeued \<and> n < MAX_DB_RETRIES \<and> (\<exists>t. tries qid = Some t \<and> n = t + 1)"
| "update_ok tries (DeleteRows qids) \<longleftrightarrow> True"

definition weight :: "queue_document \<Rightarrow> nat" where
  "weight q = (if pending q then MAX_DB_RETRIES - qd_try_count q else 0)"

definition potential :: "queue_document list \<Rightarrow> nat" where
  "potential rows = sum_list (map weight rows)"

lemma row_after_weight:
  assumes "distinct (settled evs)" "list_all (update_ok tries) evs" "tries (qd_queue_id q) = Some (qd_try_count q)"
    "qd_queue_id q \<in> set (settled evs)" "pending q" "qd_try_count q < MAX_DB_RETRIES"
  shows "case row_after now evs q of None \<Rightarrow> True | Some r \<Rightarrow> weight r < weight q"
  using assms
proof (induction evs)
  case (Cons ev evs)
  show ?case
  proof (cases "qd_queue_id q \<in> set (event_ids ev)")
    case False
    then have "event_row now ev q = Some q" by (cases ev) auto
    then show ?thesis using Cons False by auto
  next
    case True
    then have rest: "qd_queue_id q \<notin> set (settled evs)" using Cons.prems(1) by auto
    show ?thesis
    proof (cases "event_row now ev q")
      case (Some r)
      then have "row_after now evs r = Some r" using row_after_other [of r evs now] rest event_row_id by metis
      moreover have "weight r < weight q"
        using Some True Cons.prems(2,3,5,6)
        by (cases ev) (auto simp: weight_def pending_def set_status_def split: if_splits)
      ultimately show ?thesis using Some by simp
    qed simp
  qed
qed simp

lemma mark_outcome_ok:
  assumes "tries (qd_queue_id e) = Some (qd_try_count e)" "qd_try_count e < MAX_DB_RETRIES"
  shows "list_all (update_ok tries) (mark_outcome e err)"
  using assms
  by (cases err) (auto simp: mark_outcome_def outcome_status_def Let_def saturating_succ32_def MAX_DB_RETRIES_def
      MAX_QUEUE_DELIVERY_ATTEMPTS_def)

lemma set_update_sub: "set (AList.update k v m) \<subseteq> insert (k, v) (set m)"
  by (induction m) auto

lemma upsert_works:
  assumes "\<forall>cw \<in> set m. \<forall>w \<in> set (snd cw). P w" "P w"
  shows "\<forall>cw \<in> set (hm_upsert k [] (\<lambda>ws. ws @ [w]) m). \<forall>w \<in> set (snd cw). P w"
proof -
  have "\<forall>v \<in> set (unwrap_or [] (map_of m k)). P v"
    using assms(1) by (cases "map_of m k") (fastforce simp: unwrap_or_def dest: map_of_SomeD)+
  then have "\<forall>cw \<in> insert (k, unwrap_or [] (map_of m k) @ [w]) (set m). \<forall>v \<in> set (snd cw). P v"
    using assms by simp
  then show ?thesis using set_update_sub [of k "unwrap_or [] (map_of m k) @ [w]" m]
    unfolding hm_upsert_def by (meson subsetD)
qed

lemma group_upserts_events:
  assumes "group_upserts env es evs m = (evs', r)" "list_all (update_ok tries) evs"
    "\<forall>e \<in> set es. P e" "\<forall>cw \<in> set m. \<forall>w \<in> set (snd cw). P (uw_entry w)"
  shows "list_all (update_ok tries) evs' \<and>
    (\<forall>m'. r = Inr m' \<longrightarrow> (\<forall>cw \<in> set m'. \<forall>w \<in> set (snd cw). P (uw_entry w)))"
  using assms
proof (induction env es evs m rule: group_upserts.induct)
  case (2 env e es evs m)
  show ?case
  proof (cases "qd_document e")
    case None
    then show ?thesis using 2(1,3-) by (auto simp: Let_def split: option.splits)
  next
    case (Some d)
    then have run: "group_upserts env es evs
        (hm_upsert (qd_collection_name e) [] (\<lambda>ws. ws @ [\<lparr>uw_entry = e, uw_document = d\<rparr>]) m) = (evs', r)"
      using 2(3) by simp
    have "\<forall>cw \<in> set (hm_upsert (qd_collection_name e) [] (\<lambda>ws. ws @ [\<lparr>uw_entry = e, uw_document = d\<rparr>]) m).
        \<forall>w \<in> set (snd cw). P (uw_entry w)"
      by (rule upsert_works) (use 2(5,6) in auto)
    then show ?thesis using 2(2) [OF Some run 2(4)] 2(5) by simp
  qed
qed auto

lemma list_all_concat_map: "list_all P (concat (map f xs)) \<longleftrightarrow> (\<forall>x \<in> set xs. list_all P (f x))"
  by (induction xs) auto

lemma collection_events:
  assumes "\<forall>w \<in> set works. tries (qd_queue_id (uw_entry w)) = Some (qd_try_count (uw_entry w)) \<and>
    qd_try_count (uw_entry w) < MAX_DB_RETRIES"
  shows "list_all (update_ok tries) (process_collection env (coll, works))"
proof -
  obtain winners old where p: "pick_winners (sort_by work_cmp works) [] [] = (winners, old)" by fastforce
  have "set winners \<subseteq> set works"
    using pick_winners_newest [of "[]" "sort_by work_cmp works" "[]" winners old] p work_order.sort_by_sorted [of works]
    by auto
  then have "list_all (update_ok tries) (concat (map (\<lambda>w. mark_outcome (uw_entry w) e) winners))" for e
    using assms mark_outcome_ok by (auto simp: list_all_concat_map)
  then show ?thesis
    unfolding process_collection_def by (auto simp: p Let_def list_all_iff split: sum.split upsert_sync_error.split)
qed

lemma batch_events:
  assumes "process_batch env es = (evs, r)" "iter_order (pe_iter env)"
    "\<forall>e \<in> set es. tries (qd_queue_id e) = Some (qd_try_count e) \<and> qd_try_count e < MAX_DB_RETRIES"
  shows "list_all (update_ok tries) evs"
proof -
  let ?P = "\<lambda>e. tries (qd_queue_id e) = Some (qd_try_count e) \<and> qd_try_count e < MAX_DB_RETRIES"
  obtain evs1 g where g: "group_upserts env (filter (\<lambda>e. qd_op_type e = Upsert) es) [] [] = (evs1, g)" by fastforce
  have "list_all (update_ok tries) evs1 \<and> (\<forall>m. g = Inr m \<longrightarrow> (\<forall>cw \<in> set m. \<forall>w \<in> set (snd cw). ?P (uw_entry w)))"
    by (rule group_upserts_events [OF g]) (use assms(3) in auto)
  moreover have "list_all (update_ok tries) (process_delete env e)" if "e \<in> set es" for e
    using that assms(3) mark_outcome_ok [of tries e]
    by (auto simp: process_delete_def split: sum.split upsert_sync_error.split)
  moreover have "set (pe_iter env m) = set m" for m by (rule iter_order_set [OF assms(2)])
  ultimately show ?thesis using assms(1) g collection_events [of _ tries env]
    by (auto simp: process_batch_def Let_def list_all_concat_map split: sum.splits)
qed

lemma group_upserts_total:
  assumes "\<forall>q. pe_status_fails env q = None"
  shows "\<exists>evs' m'. group_upserts env es evs m = (evs', Inr m')"
  using assms by (induction env es evs m rule: group_upserts.induct) (auto simp: Let_def split: option.split)

definition tries_of :: "queue_document list \<Rightarrow> string \<Rightarrow> nat option" where
  "tries_of rows = map_of (map (\<lambda>q. (qd_queue_id q, qd_try_count q)) rows)"

lemma tries_of_row: "rows_ok rows \<Longrightarrow> q \<in> set rows \<Longrightarrow> tries_of rows (qd_queue_id q) = Some (qd_try_count q)"
  unfolding tries_of_def rows_ok_def by (rule map_of_is_SomeI) (auto simp: o_def)

lemma group_upserts_settled:
  "group_upserts env es evs m = (evs', r) \<Longrightarrow> set (settled evs') \<subseteq> set (settled evs) \<union> qd_queue_id ` set es"
proof (induction env es evs m rule: group_upserts.induct)
  case (2 env e es evs m)
  then show ?case by (cases "qd_document e") (fastforce simp: Let_def split: option.splits)+
qed auto

lemma batch_settled_sub:
  assumes "process_batch env es = (evs, r)" "iter_order (pe_iter env)" "distinct (map qd_queue_id es)"
  shows "set (settled evs) \<subseteq> qd_queue_id ` set es"
proof (cases r)
  case (Inr u)
  then show ?thesis using batch_settles [of env es evs] assms by simp
next
  case (Inl e)
  then have "group_upserts env (filter (\<lambda>e. qd_op_type e = Upsert) es) [] [] = (evs, Inl e)"
    using assms(1) by (auto simp: process_batch_def Let_def split: prod.splits sum.splits)
  from group_upserts_settled [OF this] show ?thesis by auto
qed

lemma distinct_sub_mset:
  assumes "mset xs \<subseteq># mset ys" "distinct ys"
  shows "distinct xs"
proof -
  obtain zs where "mset ys = mset (xs @ zs)"
    using assms(1) by (metis mset_append mset_subset_eq_exists_conv ex_mset)
  then have "distinct (xs @ zs)" using assms(2) mset_eq_imp_distinct_iff by blast
  then show ?thesis by simp
qed

lemma claimed_rows:
  assumes "scroll_ok c" "rows_ok rows" "claim_pending_queue c QUEUE_POLLER_BATCH_SIZE rows = Inr out"
  shows "set out \<subseteq> {q \<in> set rows. pending q} \<and> distinct (map qd_queue_id out) \<and>
    (out = [] \<longleftrightarrow> filter pending rows = [])"
proof -
  have c: "length out = min QUEUE_POLLER_BATCH_SIZE (length (filter pending rows))"
    "mset out \<subseteq># mset (filter pending rows)"
    using claim_cases [OF assms(1) _ assms(3)] by (simp_all add: QUEUE_POLLER_BATCH_SIZE_def)
  have "mset (map qd_queue_id out) \<subseteq># mset (map qd_queue_id (filter pending rows))"
    using c(2) by (simp add: image_mset_subseteq_mono)
  moreover have "distinct (map qd_queue_id (filter pending rows))"
    using assms(2) by (simp add: rows_ok_def distinct_map_filter)
  ultimately have "distinct (map qd_queue_id out)" by (rule distinct_sub_mset)
  moreover have "set out \<subseteq> {q \<in> set rows. pending q}" using set_mset_mono [OF c(2)] by auto
  moreover have "out = [] \<longleftrightarrow> filter pending rows = []"
    using c(1) by (auto simp: QUEUE_POLLER_BATCH_SIZE_def min_def simp flip: length_0_conv split: if_splits)
  ultimately show ?thesis by blast
qed

lemma poll_iteration_events:
  "poll_iteration env i idle = (evs, ends, idle') \<Longrightarrow>
     evs = [] \<or> (\<exists>out r. pi_claim i = Inr out \<and> process_batch env (filter (backoff_elapsed (pi_now i)) out) = (evs, r))"
  by (auto simp: poll_iteration_def Let_def split: if_splits sum.splits prod.splits)

text \<open>
  The events of one iteration: those of the batch of the claimed rows whose backoff has elapsed, or
  none.
\<close>

lemma poll_queue_events:
  assumes "poll_queue c env now err stops (rows, idle) = ((rows', idle'), ends)"
    "scroll_ok c" "rows_ok rows" "iter_order (pe_iter env)"
  shows "\<exists>evs. rows' = List.map_filter (row_after now (event_runs err evs)) rows \<and>
    list_all (update_ok (tries_of rows)) evs \<and> set (settled evs) \<subseteq> qd_queue_id ` {q \<in> set rows. pending q}"
proof -
  obtain before after idle_stop where st: "stops = (before, after, idle_stop)" by (cases stops)
  obtain evs where rows': "rows' = fold (run_event now err) evs rows"
    and evs: "evs = [] \<or> (\<exists>out r. claim_pending_queue c QUEUE_POLLER_BATCH_SIZE rows = Inr out \<and>
        process_batch env (filter (backoff_elapsed now) out) = (evs, r))"
    using assms(1) unfolding poll_queue_def st by (fastforce split: prod.splits dest: poll_iteration_events)
  show ?thesis
  proof (cases "evs = []")
    case True
    then show ?thesis unfolding rows' run_events_rows by (intro exI [of _ "[]"]) simp
  next
    case False
    then obtain out r where out: "claim_pending_queue c QUEUE_POLLER_BATCH_SIZE rows = Inr out"
      and b: "process_batch env (filter (backoff_elapsed now) out) = (evs, r)" using evs by blast
    note cl = claimed_rows [OF assms(2,3) out]
    have "list_all (update_ok (tries_of rows)) evs"
      by (rule batch_events [OF b assms(4)]) (use cl assms(3) tries_of_row in \<open>auto simp: rows_ok_def\<close>)
    moreover have "set (settled evs) \<subseteq> qd_queue_id ` {q \<in> set rows. pending q}"
      using batch_settled_sub [OF b assms(4)] cl by (fastforce simp: distinct_map_filter)
    ultimately show ?thesis unfolding rows' run_events_rows by blast
  qed
qed

lemma row_after_ok:
  assumes "row_after now evs q = Some r" "list_all (update_ok tries) evs" "pending q \<longrightarrow> qd_try_count q < MAX_DB_RETRIES"
  shows "pending r \<longrightarrow> qd_try_count r < MAX_DB_RETRIES"
  using assms
proof (induction evs arbitrary: q)
  case (Cons ev evs)
  then obtain q' where q': "event_row now ev q = Some q'" "row_after now evs q' = Some r"
    by (auto simp: bind_eq_Some_conv)
  have "pending q' \<longrightarrow> qd_try_count q' < MAX_DB_RETRIES"
    using q'(1) Cons.prems(2,3) by (cases ev) (auto simp: set_status_def pending_def split: if_splits)
  then show ?case using Cons.IH [OF q'(2)] Cons.prems(2) by simp
qed simp

lemma set_map_filter_iff: "r \<in> set (List.map_filter f xs) \<longleftrightarrow> (\<exists>x \<in> set xs. f x = Some r)"
  by (induction xs) (auto simp: List.map_filter_simps split: option.split)

lemma distinct_map_filter_id:
  assumes "distinct (map k xs)" "\<And>x r. f x = Some r \<Longrightarrow> k r = k x"
  shows "distinct (map k (List.map_filter f xs))"
  using assms(1)
proof (induction xs)
  case (Cons x xs)
  have "k x \<notin> k ` set (List.map_filter f xs)"
    using Cons.prems assms(2) by (fastforce simp: set_map_filter_iff)
  then show ?case using Cons assms(2) [of x] by (auto simp: List.map_filter_simps split: option.split)
qed (simp add: List.map_filter_simps)

lemma poll_rows_ok:
  assumes "poll_queue c env now err stops (rows, idle) = ((rows', idle'), ends)"
    "scroll_ok c" "rows_ok rows" "iter_order (pe_iter env)"
  shows "rows_ok rows'" "q \<in> set rows \<Longrightarrow> \<not> pending q \<Longrightarrow> q \<in> set rows'"
proof -
  obtain evs where rows': "rows' = List.map_filter (row_after now (event_runs err evs)) rows"
    and ok: "list_all (update_ok (tries_of rows)) evs"
    and sub: "set (settled evs) \<subseteq> qd_queue_id ` {q \<in> set rows. pending q}"
    using poll_queue_events [OF assms] by blast
  have runs: "list_all (update_ok (tries_of rows)) (event_runs err evs)"
    using ok by (auto simp: event_runs_def list_all_iff)
  show "rows_ok rows'"
    using assms(3) row_after_ok [OF _ runs] distinct_map_filter_id [OF _ row_after_id] unfolding rows_ok_def rows'
    by (fastforce simp: set_map_filter_iff)
  assume q: "q \<in> set rows" "\<not> pending q"
  then have "qd_queue_id q \<notin> set (settled evs)"
    using sub assms(3) unfolding rows_ok_def distinct_map by (fastforce dest: inj_onD)
  then have "qd_queue_id q \<notin> set (settled (event_runs err evs))"
    by (auto simp: event_runs_def settled_def)
  then show "q \<in> set rows'" using q(1) row_after_other [of q] unfolding rows' set_map_filter_iff by blast
qed

section \<open>The life of the queue\<close>

inductive queue_step :: "queue_client \<Rightarrow> queue_document list \<Rightarrow> queue_document list \<Rightarrow> bool" for c where
  Enqueue: "queue_step c rows rows'"
    if "inj_on uuid {..<length documents}" "uuid ` {..<length documents} \<inter> qd_queue_id ` set rows = {}"
       "add_to_queue uuid now err coll cid documents op ts rows = (rows', r)"
| Poll: "queue_step c rows rows'"
    if "iter_order (pe_iter env)" "poll_queue c env now err stops (rows, idle) = ((rows', idle'), ends)"
| Withdraw: "queue_step c rows rows'" if "delete_from_queue err qids rows = (rows', u)"
| Cancel: "queue_step c rows (filter (\<lambda>q. \<not> cancelled coll i ts q) rows)"
| Clear: "queue_step c rows rows'" if "delete_from_queue_by_collection err coll rows = (rows', u)"

lemma rows_ok_filter: "rows_ok rows \<Longrightarrow> rows_ok (filter P rows)"
  by (auto simp: rows_ok_def distinct_map_filter)

lemma queue_points_ids: "queue_points uuid op ts i ds = Inr ps \<Longrightarrow> map fst ps = map uuid [i..<i + length ds]"
proof (induction ds arbitrary: i ps)
  case (Cons d ds)
  then obtain t ps' where "queue_points uuid op ts (Suc i) ds = Inr ps'" "ps = (uuid i, d, t) # ps'"
    by (auto simp: and_then_eq_Inr)
  then show ?case using Cons.IH [of "Suc i" ps'] by (simp add: upt_conv_Cons del: upt_Suc)
qed simp

lemma fresh_rows:
  assumes "distinct (map fst ps)" "fst ` set ps \<inter> qd_queue_id ` set rows = {}"
  shows "fold (\<lambda>p. upsert_row (queue_row now coll cid op p)) ps rows = rows @ map (queue_row now coll cid op) ps"
  using assms
proof (induction ps arbitrary: rows)
  case (Cons p ps)
  have id: "qd_queue_id (queue_row now coll cid op p) = fst p" for p by (simp add: queue_row_def split: prod.split)
  have "upsert_row (queue_row now coll cid op p) rows = rows @ [queue_row now coll cid op p]"
    using Cons.prems(2) by (auto simp: upsert_row_def id)
  then show ?case using Cons.IH [of "rows @ [queue_row now coll cid op p]"] Cons.prems by (auto simp: id)
qed simp

lemma add_to_queue_rows:
  assumes "inj_on uuid {..<length documents}" "uuid ` {..<length documents} \<inter> qd_queue_id ` set rows = {}"
    "add_to_queue uuid now err coll cid documents op ts rows = (rows', r)"
  shows "case r of
      Inl _ \<Rightarrow> rows' = rows
    | Inr ids \<Rightarrow> ids = map uuid [0..<length documents] \<and>
        (\<exists>ps. queue_points uuid op ts 0 documents = Inr ps \<and> rows' = rows @ map (queue_row now coll cid op) ps)"
proof (cases "queue_points uuid op ts 0 documents")
  case (Inr ps)
  have ids: "map fst ps = map uuid [0..<length documents]" using queue_points_ids [OF Inr] by simp
  then have "fst ` set ps = uuid ` {..<length documents}" by (metis atLeast_upt list.set_map lessThan_atLeast0)
  then have "fst ` set ps \<inter> qd_queue_id ` set rows = {}" using assms(2) by simp
  moreover have "distinct (map fst ps)" using assms(1) unfolding ids by (simp add: distinct_map atLeast_upt)
  ultimately have "fold (\<lambda>p. upsert_row (queue_row now coll cid op p)) ps rows = rows @ map (queue_row now coll cid op) ps"
    by (intro fresh_rows)
  then show ?thesis using assms(3) Inr ids by (auto simp: add_to_queue_def split: option.splits)
qed (use assms(3) in \<open>auto simp: add_to_queue_def\<close>)

lemma queue_step_ok:
  assumes "queue_step c rows rows'" "scroll_ok c" "rows_ok rows"
  shows "rows_ok rows'"
  using assms(1)
proof cases
  case (Enqueue uuid documents now err coll cid op ts r)
  note add = add_to_queue_rows [OF Enqueue]
  show ?thesis
  proof (cases r)
    case (Inr ids)
    then obtain ps where ps: "queue_points uuid op ts 0 documents = Inr ps"
      and rows': "rows' = rows @ map (queue_row now coll cid op) ps" using add by auto
    have row: "qd_queue_id (queue_row now coll cid op p) = fst p \<and> qd_try_count (queue_row now coll cid op p) = 0" for p
      by (simp add: queue_row_def split: prod.split)
    have ids: "map fst ps = map uuid [0..<length documents]" using queue_points_ids [OF ps] by simp
    then have "fst ` set ps = uuid ` {..<length documents}" by (metis atLeast_upt list.set_map lessThan_atLeast0)
    moreover have "distinct (map fst ps)" using Enqueue(1) unfolding ids by (simp add: distinct_map atLeast_upt)
    ultimately show ?thesis using assms(3) Enqueue(2)
      by (auto simp: rows' rows_ok_def row o_def MAX_DB_RETRIES_def)
  qed (use add assms(3) in simp)
next
  case (Poll env now err stops idle idle' ends)
  then show ?thesis using poll_rows_ok(1) assms(2,3) by blast
next
  case (Withdraw err qids u)
  then show ?thesis using assms(3) by (auto simp: delete_from_queue_def rows_ok_filter split: if_splits option.splits)
next
  case (Cancel coll i ts)
  then show ?thesis using assms(3) by (simp add: rows_ok_filter)
next
  case (Clear err coll u)
  then show ?thesis
    using assms(3) by (auto simp: delete_from_queue_by_collection_def rows_ok_filter split: option.splits)
qed

lemma reachable_rows_ok: "(queue_step c)\<^sup>*\<^sup>* [] rows \<Longrightarrow> scroll_ok c \<Longrightarrow> rows_ok rows"
proof (induction rule: rtranclp_induct)
  case base
  then show ?case by (simp add: rows_ok_def)
next
  case (step y z)
  then show ?case using queue_step_ok by blast
qed

text \<open>
  C31: whatever is enqueued, polled, withdrawn, cancelled or cleared, and whichever calls fail, no two
  rows of the queue share an identifier and every pending row has been tried fewer than 200 times;
  and an iteration of the poller leaves every row that is not pending as it is, so a failed row is
  never taken up again.
\<close>

theorem queue_rows_valid:
  assumes "scroll_ok c" "(queue_step c)\<^sup>*\<^sup>* [] rows"
  shows "distinct (map qd_queue_id rows) \<and> (\<forall>q \<in> set rows. pending q \<longrightarrow> qd_try_count q < 200) \<and>
    (\<forall>env now err stops idle rows' idle' ends q.
       iter_order (pe_iter env) \<longrightarrow> poll_queue c env now err stops (rows, idle) = ((rows', idle'), ends) \<longrightarrow>
       q \<in> set rows \<longrightarrow> \<not> pending q \<longrightarrow> q \<in> set rows')"
proof -
  have ok: "rows_ok rows" using assms by (rule_tac reachable_rows_ok)
  then show ?thesis using poll_rows_ok(2) [OF _ assms(1) ok] by (auto simp: rows_ok_def MAX_DB_RETRIES_def)
qed

section \<open>The queue drains\<close>

lemma sum_list_less:
  fixes f g :: "'a \<Rightarrow> nat"
  assumes "\<forall>x \<in> set xs. f x \<le> g x" "x \<in> set xs" "f x < g x"
  shows "sum_list (map f xs) < sum_list (map g xs)"
  using assms
proof (induction xs)
  case (Cons y ys)
  have "sum_list (map f ys) \<le> sum_list (map g ys)" using Cons.prems(1) by (intro sum_list_mono) simp
  then show ?case using Cons by (cases "x = y") (auto intro: add_less_le_mono add_le_less_mono)
qed simp

lemma potential_map_filter:
  "potential (List.map_filter f rows) = sum_list (map (\<lambda>q. case f q of None \<Rightarrow> 0 | Some r \<Rightarrow> weight r) rows)"
  by (induction rows) (auto simp: potential_def List.map_filter_simps split: option.split)

text \<open>A retry waits for at most twenty seconds.\<close>

lemma backoff_after_20s:
  assumes "qd_timestamp q + 20 * 10 ^ 9 \<le> now" "qd_try_count q < 2 ^ 32"
  shows "backoff_elapsed now q"
proof -
  let ?ms = "num_milliseconds (now - qd_timestamp q)"
  have ms: "20000 \<le> ?ms"
    using assms(1) zdiv_mono1 [of "20 * 10 ^ 9" "now - qd_timestamp q" 1000000] by (simp add: num_milliseconds_def)
  have th: "f64 1000 = Finite False 1000" "f64 20 = Finite False 20" using f64_nat [of 1000] f64_nat [of 20] by simp_all
  have div: "fp_le (Finite False 20) (f64_div x (Finite False 1000))" if x: "fp_le (Finite False 20000) x" for x
  proof (cases x)
    case (Finite s m)
    then have "20000 \<le> fval x" using x by simp
    then have "fp_le (fp_round binary64 False 20) (fp_round binary64 s (fval x / 1000))"
      by (intro fp_round_mono) (simp_all add: binary64_prec)
    then show ?thesis using Finite th(2) by (simp add: fp_of_rat_def)
  qed (use x in auto)
  have "fp_le (fp_round binary64 False 20000) (fp_round binary64 False (of_int ?ms))"
    using ms by (intro fp_round_mono) (simp_all add: binary64_prec)
  then have "fp_le (Finite False 20000) (fp_of_int binary64 ?ms)"
    using f64_nat [of 20000] by (simp add: fp_of_int_def fp_of_rat_def)
  then have "fp_le (f64 20) (f64_div (fp_of_int binary64 ?ms) (f64 1000))" using div th by simp
  moreover have "fp_le (retry_delay_secs (qd_try_count q)) (f64 20)" using retry_delay_bounds [OF assms(2)] by blast
  ultimately show ?thesis unfolding backoff_elapsed_def using fp_le_trans by auto
qed

definition calm_env :: "poller_env \<Rightarrow> bool" where
  "calm_env env \<longleftrightarrow> iter_order (pe_iter env) \<and> (\<forall>q. pe_status_fails env q = None)"

text \<open>
  A row of the batch that a worker reports as gone, and that the poller therefore leaves alone, is gone
  from the queue (the workers report what a new look at the queue did not find).
\<close>

definition gone_is_gone :: "poller_env \<Rightarrow> queue_document list \<Rightarrow> queue_document list \<Rightarrow> bool" where
  "gone_is_gone env batch left \<longleftrightarrow>
     (\<forall>e \<in> set batch. entry_gone env e \<and> qd_queue_id e \<notin> set (settled (fst (process_batch env batch))) \<longrightarrow>
        qd_queue_id e \<notin> qd_queue_id ` set left)"

lemma calm_batch:
  assumes "calm_env env" "distinct (map qd_queue_id es)"
    "\<forall>e \<in> set es. tries (qd_queue_id e) = Some (qd_try_count e) \<and> qd_try_count e < MAX_DB_RETRIES"
  shows "\<exists>evs. process_batch env es = (evs, Inr ()) \<and> distinct (settled evs) \<and>
    set (settled evs) \<subseteq> qd_queue_id ` set es \<and> list_all (update_ok tries) evs \<and>
    (\<forall>e \<in> set es. qd_queue_id e \<notin> set (settled evs) \<longrightarrow> entry_gone env e)"
proof -
  obtain evs where b: "process_batch env es = (evs, Inr ())"
    using group_upserts_total [of env "filter (\<lambda>e. qd_op_type e = Upsert) es" "[]" "[]"] assms(1)
    by (auto simp: process_batch_def calm_env_def)
  have it: "iter_order (pe_iter env)" using assms(1) by (simp add: calm_env_def)
  then show ?thesis using b batch_settles [OF b it assms(2)] batch_events [OF b it assms(3)] by blast
qed

lemma filter_map_filter: "filter P (List.map_filter f xs) = List.map_filter (\<lambda>x. Option.bind (f x) (\<lambda>r. if P r then Some r else None)) xs"
  by (induction xs) (auto simp: List.map_filter_simps split: option.split)

lemma poll_drains:
  assumes "scroll_ok c" "rows_ok rows" "calm_env env" "claim_pending_queue c QUEUE_POLLER_BATCH_SIZE rows = Inr out"
    "\<forall>q \<in> set rows. qd_timestamp q + 20 * 10 ^ 9 \<le> now"
    "poll_queue c env now (\<lambda>_. None) (False, False, False) (rows, idle) = ((polled, idle'), ends)"
    "left = filter keep polled" "gone_is_gone env (filter (backoff_elapsed now) out) left" "filter pending rows \<noteq> []"
  shows "potential left < potential rows"
proof -
  note cl = claimed_rows [OF assms(1,2,4)]
  have tries: "\<forall>e \<in> set out. tries_of rows (qd_queue_id e) = Some (qd_try_count e) \<and> qd_try_count e < MAX_DB_RETRIES"
    using cl assms(2) tries_of_row by (auto simp: rows_ok_def)
  then have "\<forall>q \<in> set out. backoff_elapsed now q"
    using assms(5) cl by (intro ballI backoff_after_20s) (auto simp: MAX_DB_RETRIES_def)
  then have el: "filter (backoff_elapsed now) out = out" by simp
  obtain evs where b: "process_batch env out = (evs, Inr ())" and dist: "distinct (settled evs)"
    and ids: "set (settled evs) \<subseteq> qd_queue_id ` set out" and ok: "list_all (update_ok (tries_of rows)) evs"
    and gone: "\<forall>e \<in> set out. qd_queue_id e \<notin> set (settled evs) \<longrightarrow> entry_gone env e"
    using calm_batch [OF assms(3) _ tries] cl by blast
  have "out \<noteq> []" using cl assms(9) by simp
  then have polled: "polled = List.map_filter (row_after now evs) rows"
    using assms(4,6) b el by (simp add: poll_queue_def poll_iteration_def run_events_rows event_runs_def)
  note keep = assms(7)
  define f where "f q = Option.bind (row_after now evs q) (\<lambda>r. if keep r then Some r else None)" for q
  have left: "left = List.map_filter f rows" unfolding keep polled filter_map_filter f_def ..
  let ?w = "\<lambda>q. case f q of None \<Rightarrow> 0 | Some r \<Rightarrow> weight r"
  have less: "?w q < weight q" if q: "q \<in> set out" for q
  proof -
    have pos: "0 < weight q" using q tries cl by (auto simp: weight_def)
    show ?thesis
    proof (cases "qd_queue_id q \<in> set (settled evs)")
      case True
      have "case row_after now evs q of None \<Rightarrow> True | Some r \<Rightarrow> weight r < weight q"
        by (rule row_after_weight [OF dist ok _ True]) (use q tries cl in auto)
      then show ?thesis using pos by (auto simp: f_def split: option.splits)
    next
      case False
      then have "qd_queue_id q \<notin> qd_queue_id ` set left" using gone q assms(8) unfolding el gone_is_gone_def b by auto
      then have "q \<notin> set left" by blast
      then have "f q \<noteq> Some q" using q cl unfolding left set_map_filter_iff by blast
      then show ?thesis using row_after_other [OF False, of now] pos by (auto simp: f_def)
    qed
  qed
  have "?w q \<le> weight q" if q: "q \<in> set rows" for q
  proof (cases "qd_queue_id q \<in> set (settled evs)")
    case True
    then have "q \<in> set out" using ids cl assms(2) q unfolding rows_ok_def distinct_map by (fastforce dest: inj_onD)
    then show ?thesis using less by (simp add: less_imp_le)
  qed (simp add: f_def row_after_other)
  moreover obtain q where "q \<in> set out" using \<open>out \<noteq> []\<close> by (cases out) auto
  ultimately show ?thesis unfolding left potential_map_filter unfolding potential_def
    using cl less by (intro sum_list_less [of rows ?w weight q]) auto
qed

lemma rows_ok_left: "left = filter keep polled \<Longrightarrow> rows_ok polled \<Longrightarrow> rows_ok left"
  by (auto simp: rows_ok_filter)

lemma potential_filter: "potential (filter P rows) \<le> potential rows"
  by (induction rows) (auto simp: potential_def)

lemma pending_potential: "rows_ok rows \<Longrightarrow> filter pending rows = [] \<longleftrightarrow> potential rows = 0"
proof -
  assume ok: "rows_ok rows"
  have "potential rows = 0 \<longleftrightarrow> (\<forall>q \<in> set rows. weight q = 0)" by (simp add: potential_def)
  also have "\<dots> \<longleftrightarrow> (\<forall>q \<in> set rows. \<not> pending q)" using ok by (fastforce simp: weight_def rows_ok_def)
  finally show ?thesis by (simp add: filter_empty_conv)
qed

lemma potential_bound: "potential rows \<le> 200 * length rows"
  by (induction rows) (auto simp: potential_def weight_def MAX_DB_RETRIES_def)

text \<open>Whatever fails in an iteration, a row it touches has one try less, and the others stay as they are.\<close>

lemma event_weight:
  assumes "update_ok tries ev" "tries (qd_queue_id q) = Some t" "t < MAX_DB_RETRIES" "event_row now ev q = Some r"
    "weight q \<le> MAX_DB_RETRIES - t"
  shows "if qd_queue_id q \<in> set (event_ids ev) then weight r < MAX_DB_RETRIES - t else r = q"
  using assms by (cases ev) (auto simp: weight_def pending_def set_status_def split: if_splits)

lemma row_after_less:
  assumes "list_all (update_ok tries) evs" "tries (qd_queue_id q) = Some t" "t < MAX_DB_RETRIES"
    "row_after now evs q = Some r" "weight q < MAX_DB_RETRIES - t \<or> weight q = MAX_DB_RETRIES - t \<and> qd_queue_id q \<in> set (settled evs)"
  shows "weight r < MAX_DB_RETRIES - t"
  using assms
proof (induction evs arbitrary: q)
  case (Cons ev evs)
  obtain q' where q': "event_row now ev q = Some q'" "row_after now evs q' = Some r"
    using Cons.prems(4) by (auto simp: bind_eq_Some_conv)
  have id: "qd_queue_id q' = qd_queue_id q" by (rule event_row_id [OF q'(1)])
  have w: "if qd_queue_id q \<in> set (event_ids ev) then weight q' < MAX_DB_RETRIES - t else q' = q"
    by (rule event_weight [where tries = tries and q = q, OF _ Cons.prems(2,3) q'(1)]) (use Cons.prems in auto)
  show ?case
    by (rule Cons.IH [of q', OF _ Cons.prems(2) [folded id] Cons.prems(3) q'(2)])
      (use Cons.prems w id in \<open>auto split: if_splits\<close>)
qed simp

lemma poll_progress:
  assumes "poll_queue c env now err stops (rows, idle) = ((rows', idle'), ends)"
    "scroll_ok c" "rows_ok rows" "iter_order (pe_iter env)"
  shows "rows' = rows \<or> potential rows' < potential rows"
proof -
  obtain evs where rows': "rows' = List.map_filter (row_after now (event_runs err evs)) rows"
    and ok: "list_all (update_ok (tries_of rows)) evs"
    and sub: "set (settled evs) \<subseteq> qd_queue_id ` {q \<in> set rows. pending q}"
    using poll_queue_events [OF assms] by blast
  let ?runs = "event_runs err evs"
  have runs: "list_all (update_ok (tries_of rows)) ?runs" "set (settled ?runs) \<subseteq> set (settled evs)"
    using ok by (auto simp: event_runs_def list_all_iff settled_def)
  let ?w = "\<lambda>q. case row_after now ?runs q of None \<Rightarrow> 0 | Some r \<Rightarrow> weight r"
  have less: "?w q < weight q" if q: "q \<in> set rows" "qd_queue_id q \<in> set (settled ?runs)" for q
  proof -
    have "pending q"
      using q sub runs(2) assms(3) unfolding rows_ok_def distinct_map by (fastforce dest: inj_onD)
    then have t: "qd_try_count q < MAX_DB_RETRIES" "weight q = MAX_DB_RETRIES - qd_try_count q"
      using q(1) assms(3) by (auto simp: rows_ok_def weight_def)
    show ?thesis
      using row_after_less [OF runs(1) tries_of_row [OF assms(3) q(1)] t(1)] t q(2) by (auto split: option.split)
  qed
  have same: "row_after now ?runs q = Some q" if "qd_queue_id q \<notin> set (settled ?runs)" for q
    by (rule row_after_other [OF that])
  have le: "\<forall>q \<in> set rows. ?w q \<le> weight q"
  proof
    fix q assume "q \<in> set rows"
    then show "?w q \<le> weight q" using less [of q] same [of q] by (cases "qd_queue_id q \<in> set (settled ?runs)") auto
  qed
  show ?thesis
  proof (cases "\<exists>q \<in> set rows. qd_queue_id q \<in> set (settled ?runs)")
    case True
    then obtain q where "q \<in> set rows" "qd_queue_id q \<in> set (settled ?runs)" by blast
    then have "potential rows' < potential rows"
      unfolding rows' potential_map_filter unfolding potential_def using less by (intro sum_list_less [OF le]) auto
    then show ?thesis ..
  next
    case False
    then have "\<forall>q \<in> set rows. row_after now ?runs q = Some q" using same by blast
    then have "rows' = rows" unfolding rows' by (induction rows) (simp_all add: List.map_filter_simps)
    then show ?thesis ..
  qed
qed

text \<open>
  An iteration goes through: the loop is not being stopped, no call on the database fails, and a row
  that a worker reports as gone is gone from the queue.
\<close>

definition good_poll ::
    "queue_client \<Rightarrow> poller_env \<Rightarrow> int \<Rightarrow> (queue_event \<Rightarrow> db_error option) \<Rightarrow> bool \<times> bool \<times> bool \<Rightarrow>
     queue_document list \<Rightarrow> queue_document list \<Rightarrow> bool" where
  "good_poll c env now err stops rows left \<longleftrightarrow>
     stops = (False, False, False) \<and> err = (\<lambda>_. None) \<and> (\<forall>q. pe_status_fails env q = None) \<and>
     (\<exists>claimed. claim_pending_queue c QUEUE_POLLER_BATCH_SIZE rows = Inr claimed \<and>
        gone_is_gone env (filter (backoff_elapsed now) claimed) left)"

text \<open>One iteration, and the removals that requests and workers make until the next one.\<close>

definition next_rows ::
    "queue_client \<Rightarrow> poller_env \<Rightarrow> int \<Rightarrow> (queue_event \<Rightarrow> db_error option) \<Rightarrow> bool \<times> bool \<times> bool \<Rightarrow> nat \<Rightarrow>
     queue_document list \<Rightarrow> queue_document list \<Rightarrow> bool" where
  "next_rows c env now err stops idle rows left \<longleftrightarrow>
     iter_order (pe_iter env) \<and> (\<exists>keep. left = filter keep (fst (fst (poll_queue c env now err stops (rows, idle)))))"

lemma next_rows_progress:
  assumes "next_rows c env now err stops idle rows left" "scroll_ok c" "rows_ok rows"
  shows "rows_ok left" "set left \<subseteq> set rows \<or> potential left < potential rows" "potential left \<le> potential rows"
proof -
  obtain polled idle' ends where p: "poll_queue c env now err stops (rows, idle) = ((polled, idle'), ends)"
    by (metis prod.collapse)
  obtain keep where it: "iter_order (pe_iter env)" and left: "left = filter keep polled"
    using assms(1) p by (auto simp: next_rows_def)
  show "rows_ok left" using rows_ok_left [OF left] poll_rows_ok(1) [OF p assms(2,3) it] by simp
  have le: "potential left \<le> potential polled" unfolding left by (rule potential_filter)
  from poll_progress [OF p assms(2,3) it]
  show "set left \<subseteq> set rows \<or> potential left < potential rows" "potential left \<le> potential rows"
    using le unfolding left by auto
qed

lemma good_poll_drains:
  assumes "next_rows c env now err stops idle rows left" "good_poll c env now err stops rows left" "scroll_ok c" "rows_ok rows"
    "\<forall>q \<in> set rows. qd_timestamp q + 20 * 10 ^ 9 \<le> now" "filter pending rows \<noteq> []"
  shows "potential left < potential rows"
proof -
  obtain out where out: "claim_pending_queue c QUEUE_POLLER_BATCH_SIZE rows = Inr out"
      and gone: "gone_is_gone env (filter (backoff_elapsed now) out) left"
    using assms(2) by (auto simp: good_poll_def)
  obtain polled idle' ends where p: "poll_queue c env now err stops (rows, idle) = ((polled, idle'), ends)"
    by (metis prod.collapse)
  obtain keep where "calm_env env" "left = filter keep polled"
    using assms(1,2) p by (auto simp: next_rows_def good_poll_def calm_env_def)
  then show ?thesis
    using poll_drains [OF assms(3,4) _ out assms(5) _ _ gone assms(6)] p assms(2) by (auto simp: good_poll_def)
qed

lemma decreasing_stable:
  fixes f :: "nat \<Rightarrow> nat"
  assumes "\<And>n. f (Suc n) \<le> f n"
  shows "\<exists>N. \<forall>n \<ge> N. f n = f N"
proof -
  obtain N where N: "\<forall>n. f N \<le> f n" using ex_has_least_nat [of "\<lambda>_. True" 0 f] by auto
  have "f n \<le> f N" if "N \<le> n" for n using lift_Suc_antimono_le [of f, OF assms that] .
  then show ?thesis using N by (intro exI [of _ N]) (auto intro: antisym)
qed

text \<open>
  C30: the queue drains. Let the poller run on, the clock advance beyond every bound, and no rows be
  added. Iterations may fail in any way, workers may answer what they like, and rows may be removed
  by requests meanwhile, as long as at times as late as one likes some iteration goes through (not
  stopped, no failing call on the database, and a row a worker reports as gone is gone). Then from
  some iteration on no row is pending: each one has been applied and removed, cancelled, or marked as
  failed. The iterations need not wait for the backoff of the rows.
\<close>

theorem queue_drains:
  assumes "scroll_ok c" "rows_ok (rows 0)"
    "\<forall>n. next_rows c (env n) (now n) (err n) (stops n) (idle n) (rows n) (rows (Suc n))"
    "\<forall>t k. \<exists>n \<ge> k. t \<le> now n \<and> good_poll c (env n) (now n) (err n) (stops n) (rows n) (rows (Suc n))"
  shows "\<exists>N. \<forall>n \<ge> N. \<forall>q \<in> set (rows n). \<not> pending q"
proof -
  have ok: "rows_ok (rows n)" for n
  proof (induction n)
    case (Suc n)
    then show ?case using next_rows_progress(1) [OF spec [OF assms(3)] assms(1)] by blast
  qed (rule assms(2))
  note progress = next_rows_progress [OF spec [OF assms(3)] assms(1) ok]
  obtain N where N: "\<forall>n \<ge> N. potential (rows n) = potential (rows N)"
    using decreasing_stable [of "\<lambda>n. potential (rows n)"] progress(3) by blast
  have same: "potential (rows n) = potential (rows N)" if "N \<le> n" for n using N that by blast
  have sub: "set (rows n) \<subseteq> set (rows N)" if "N \<le> n" for n
    using that
  proof (induction rule: dec_induct)
    case (step n)
    have "potential (rows (Suc n)) = potential (rows n)"
      using same [of n] same [of "Suc n"] step.hyps(1) by linarith
    then show ?case using progress(2) [of n] step.IH by auto
  qed simp
  let ?late = "Max (insert 0 (qd_timestamp ` set (rows N)))"
  obtain n where n: "N \<le> n" "?late + 20 * 10 ^ 9 \<le> now n" "good_poll c (env n) (now n) (err n) (stops n) (rows n) (rows (Suc n))"
    using assms(4) by blast
  have due: "\<forall>q \<in> set (rows n). qd_timestamp q + 20 * 10 ^ 9 \<le> now n"
  proof
    fix q assume "q \<in> set (rows n)"
    then have "qd_timestamp q \<le> ?late" using sub [OF n(1)] by (intro Max_ge) auto
    then show "qd_timestamp q + 20 * 10 ^ 9 \<le> now n" using n(2) by linarith
  qed
  have "potential (rows (Suc n)) = potential (rows n)"
    using same [of n] same [of "Suc n"] n(1) by linarith
  then have "filter pending (rows n) = []"
    using good_poll_drains [OF spec [OF assms(3)] n(3) assms(1) ok due] by linarith
  then have "potential (rows N) = 0" using pending_potential [OF ok [of n]] same [OF n(1)] by simp
  then have "\<forall>m \<ge> N. filter pending (rows m) = []" using same pending_potential [OF ok] by metis
  then show ?thesis by (auto simp: filter_empty_conv)
qed

section \<open>Counts and statuses\<close>

lemma filter_cells:
  "int (length (filter (\<lambda>q. P q \<and> qd_status q \<noteq> Indexed) rows)) =
     sum_list (map (\<lambda>(s, op). int (length (filter (\<lambda>q. P q \<and> qd_status q = s \<and> qd_op_type q = op) rows))) queue_cells)"
proof (induction rows)
  case (Cons q rows)
  show ?case
  proof (cases "P q")
    case True
    then show ?thesis using Cons
      by (cases "qd_status q"; cases "qd_op_type q") (simp_all add: queue_cells_def)
  qed (use Cons in simp)
qed (simp add: queue_cells_def)

text \<open>
  The queue information of a collection counts, for each of the six combinations of status and
  operation, exactly the rows of that collection with it; the total is the number of its rows that
  are queued, requeued or failed.
\<close>

theorem queue_info_counts:
  assumes "count_ok c" "get_queue_info c coll rows = Inr info"
  shows "qi_total info = int (length (filter (\<lambda>q. qd_collection_name q = coll \<and> qd_status q \<noteq> Indexed) rows)) \<and>
    (let cell = (\<lambda>s op. int (length (filter (\<lambda>q. qd_collection_name q = coll \<and> qd_status q = s \<and> qd_op_type q = op) rows)))
     in qi_queued_upsert info = cell Queued Upsert \<and> qi_queued_delete info = cell Queued Delete \<and>
        qi_requeued_upsert info = cell Requeued Upsert \<and> qi_requeued_delete info = cell Requeued Delete \<and>
        qi_failed_upsert info = cell Failed Upsert \<and> qi_failed_delete info = cell Failed Delete)"
proof -
  let ?n = "\<lambda>s op. length (filter (\<lambda>q. qd_collection_name q = coll \<and> qd_status q = s \<and> qd_op_type q = op) rows)"
  have m: "matches [CollectionIs coll, StatusIn [s], OpTypeIs op] =
      (\<lambda>q. qd_collection_name q = coll \<and> qd_status q = s \<and> qd_op_type q = op)" for s op
    by (auto simp: fun_eq_iff)
  have n: "qc_count c [CollectionIs coll, StatusIn [s], OpTypeIs op] rows = Inr n \<Longrightarrow> n = Some (?n s op)" for s op n
    using assms(1) unfolding count_ok_def m [symmetric] by blast
  have "info = \<lparr>qi_queued_upsert = int (?n Queued Upsert), qi_queued_delete = int (?n Queued Delete),
      qi_requeued_upsert = int (?n Requeued Upsert), qi_requeued_delete = int (?n Requeued Delete),
      qi_failed_upsert = int (?n Failed Upsert), qi_failed_delete = int (?n Failed Delete),
      qi_total = int (?n Queued Upsert) + int (?n Queued Delete) + int (?n Requeued Upsert) + int (?n Requeued Delete) +
        int (?n Failed Upsert) + int (?n Failed Delete)\<rparr>"
    using assms(2) by (auto simp: get_queue_info_def queue_cells_def and_then_eq_Inr Let_def unwrap_or_def dest!: n)
  moreover have "int (length (filter (\<lambda>q. qd_collection_name q = coll \<and> qd_status q \<noteq> Indexed) rows)) =
      int (?n Queued Upsert) + int (?n Queued Delete) + int (?n Requeued Upsert) + int (?n Requeued Delete) +
        int (?n Failed Upsert) + int (?n Failed Delete)"
    unfolding filter_cells by (simp add: queue_cells_def)
  ultimately show ?thesis by simp
qed

text \<open>
  The statuses of a document come from one page of ten rows, oldest first: of a document with more
  rows the newest are left out, although the answer lists the newest status first.
\<close>

theorem status_omits_newest:
  assumes "scroll_ok c" "distinct (map qd_queue_id rows)" "get_queue_statuses c docs coll i rows = Inr ss"
    "10 < length (filter (\<lambda>q. qd_collection_name q = coll \<and> qd_doc_id q = i) rows)"
  shows "\<exists>q \<in> set rows. qd_collection_name q = coll \<and> qd_doc_id q = i \<and> row_status q \<notin> set ss \<and>
    (\<forall>s \<in> set ss. ds_queue_id s \<noteq> None \<longrightarrow> ds_timestamp s \<le> qd_timestamp q)"
proof -
  let ?of = "filter (\<lambda>q. qd_collection_name q = coll \<and> qd_doc_id q = i) rows"
  obtain es ds where es: "get_queue_entries c coll (Some i) rows = Inr es"
    and ss: "set ss = set (indexed_statuses ds) \<union> row_status ` set es"
    using assms(3) by (auto simp: get_queue_statuses_def and_then_eq_Inr set_sort_by)
  have m: "matches [CollectionIs coll, DocIdIs i] = (\<lambda>q. qd_collection_name q = coll \<and> qd_doc_id q = i)"
    by (auto simp: fun_eq_iff)
  have page: "mset es \<subseteq># mset ?of" "length es = min 10 (length ?of)"
    "\<forall>a \<in> set es. \<forall>b \<in># mset ?of - mset es. qd_timestamp a \<le> qd_timestamp b"
    using page_first [OF assms(1) es [unfolded get_queue_entries_def option.case]] unfolding m
    by (simp_all add: unwrap_or_def DEFAULT_PAGE_def)
  have "size (mset ?of - mset es) = length ?of - length es" using page(1) by (simp add: size_Diff_submset del: mset_filter)
  then have "size (mset ?of - mset es) \<noteq> 0" using page(2) assms(4) by simp
  then obtain q where q: "q \<in># mset ?of - mset es" by fastforce
  have "distinct ?of" using assms(2) by (simp add: distinct_map)
  then have "count (mset ?of) q \<le> 1" by (simp add: distinct_count_atmost_1 del: mset_filter)
  moreover have "count (mset es) q < count (mset ?of) q" using q by (simp only: in_diff_count)
  ultimately have "count (mset es) q = 0" by linarith
  then have new: "q \<notin> set es" by (simp add: count_eq_zero_iff)
  have row: "q \<in> set ?of" using in_diffD [OF q] by simp
  have "row_status a \<noteq> row_status q" if "a \<in> set es" for a
  proof
    assume "row_status a = row_status q"
    then have "qd_queue_id a = qd_queue_id q" by (simp add: row_status_def)
    moreover have "a \<in> set rows" using mset_subset_eqD [OF page(1), of a] that by simp
    ultimately have "a = q" using row assms(2) unfolding distinct_map by (auto dest: inj_onD)
    then show False using that new by simp
  qed
  moreover have none: "ds_queue_id s = None" if "s \<in> set (indexed_statuses ds)" for s ds
    using that by (auto simp: indexed_statuses_def indexed_status_def split: list.splits option.splits)
  moreover have "ds_queue_id (row_status q) = Some (qd_queue_id q)" by (simp add: row_status_def)
  ultimately have "row_status q \<notin> set ss" unfolding ss by (metis (no_types, lifting) UnE imageE option.discI)
  moreover have "ds_timestamp s \<le> qd_timestamp q" if s: "s \<in> set ss" "ds_queue_id s \<noteq> None" for s
  proof -
    obtain a where "a \<in> set es" "s = row_status a" using s none [of s ds] unfolding ss by auto
    then show ?thesis using page(3) q by (simp add: row_status_def)
  qed
  ultimately show ?thesis using row by auto
qed

section \<open>Instances\<close>

definition plain_client :: queue_client where
  "plain_client =
     \<lparr>qc_scroll = (\<lambda>conds limit f rows.
        Inr (take (unwrap_or DEFAULT_PAGE limit) (sort_key (order_value f) (filter (matches conds) rows)))),
      qc_count = (\<lambda>conds rows. Inr (Some (length (filter (matches conds) rows))))\<rparr>"

lemma plain_client_ok: "scroll_ok plain_client" "count_ok plain_client"
proof -
  have "sorted_wrt (\<lambda>a b. order_value f a \<le> order_value f b) (sort_key (order_value f) xs)" for f and xs :: "queue_document list"
    using sorted_sort_key [of "order_value f" xs] by (simp add: sorted_map)
  then show "scroll_ok plain_client"
    unfolding scroll_ok_def plain_client_def by (metis mset_sort queue_client.select_convs(1) sum.inject(2))
  show "count_ok plain_client" by (simp add: count_ok_def plain_client_def)
qed

theorem claim_takes_first_witness:
  "claim_pending_queue plain_client 1 [example_entry ''r'' 0\<lparr>qd_try_count := 2\<rparr>, example_entry ''q'' 0] =
     Inr [example_entry ''q'' 0] \<and>
   claimed_before (example_entry ''q'' 0) (example_entry ''r'' 0\<lparr>qd_try_count := 2\<rparr>)"
proof -
  let ?rows = "[example_entry ''r'' 0\<lparr>qd_try_count := 2\<rparr>, example_entry ''q'' 0]"
  have run: "claim_pending_queue plain_client 1 ?rows = Inr [example_entry ''q'' 0]"
    by (simp add: claim_pending_queue_def scroll_pending_queue_phase_def plain_client_def example_entry_def pending_def unwrap_or_def)
  have "filter pending ?rows = ?rows" by (simp add: pending_def example_entry_def)
  then show ?thesis using claim_takes_first [OF plain_client_ok(1) _ run] run by (simp add: example_entry_def)
qed

lemma example_poll:
  "poll_queue plain_client example_poller now (\<lambda>_. None) (False, False, False) ([example_entry ''q'' 0], 1000) =
     (([], 1000), False)"
  "poll_queue plain_client example_poller now (\<lambda>_. Some e) (False, False, False) ([example_entry ''q'' 0], 1000) =
     (([example_entry ''q'' 0], 1000), False)"
  by (simp_all add: poll_queue_def poll_iteration_def claim_pending_queue_def scroll_pending_queue_phase_def plain_client_def
      example_entry_def pending_def unwrap_or_def QUEUE_POLLER_BATCH_SIZE_def QUEUE_POLLER_IDLE_MS_def backoff_elapsed_def process_batch_def
      hm_upsert_def example_poller_def process_collection_def verify_of_def sort_by_def delete_from_queue_def)

lemma example_poller_iter: "iter_order (pe_iter example_poller)"
  by (simp add: iter_order_def example_poller_def)

lemma example_poll_empty:
  "poll_queue plain_client example_poller now (\<lambda>_. None) (False, False, False) ([], 1000) = (([], 2000), False)"
  by (simp add: poll_queue_def poll_iteration_def claim_pending_queue_def scroll_pending_queue_phase_def plain_client_def
      unwrap_or_def QUEUE_POLLER_BATCH_SIZE_def next_idle_ms_def QUEUE_POLLER_IDLE_MAX_MS_def)

theorem queue_drains_witness:
  "let rows = (\<lambda>n :: nat. if n < 2 then [example_entry ''q'' 0] else []) in
   filter pending (rows 0) \<noteq> [] \<and> (\<exists>N. {n. N \<le> n \<and> filter pending (rows n) \<noteq> []} = {})"
proof -
  let ?rows = "\<lambda>n :: nat. if n < 2 then [example_entry ''q'' 0] else []"
  let ?err = "\<lambda>n :: nat. if n = 0 then (\<lambda>_. Some (Qdrant ''down'')) else (\<lambda>_. None)"
  let ?now = "\<lambda>n :: nat. 20000000000 + int n"
  have claim: "claim_pending_queue plain_client QUEUE_POLLER_BATCH_SIZE [] = Inr []"
    by (simp add: claim_pending_queue_def scroll_pending_queue_phase_def plain_client_def)
  have "\<exists>N. \<forall>n \<ge> N. \<forall>q \<in> set (?rows n). \<not> pending q"
  proof (rule queue_drains [OF plain_client_ok(1), of ?rows "\<lambda>_. example_poller" ?now ?err "\<lambda>_. (False, False, False)" "\<lambda>_. 1000"])
    show "\<forall>n. next_rows plain_client example_poller (?now n) (?err n) (False, False, False) 1000 (?rows n) (?rows (Suc n))"
      (is "\<forall>n. ?next n")
    proof
      fix n :: nat
      consider "n = 0" | "n = 1" | "2 \<le> n" by linarith
      then show "?next n"
        by cases (auto simp: next_rows_def example_poll example_poll_empty example_poller_iter)
    qed
    show "\<forall>t k. \<exists>n \<ge> k. t \<le> ?now n \<and> good_poll plain_client example_poller (?now n) (?err n) (False, False, False) (?rows n) (?rows (Suc n))"
    proof (intro allI)
      fix t :: int and k :: nat
      show "\<exists>n \<ge> k. t \<le> ?now n \<and> good_poll plain_client example_poller (?now n) (?err n) (False, False, False) (?rows n) (?rows (Suc n))"
        by (intro exI [of _ "max (max k 2) (nat t)"]) (auto simp: good_poll_def claim example_poller_def gone_is_gone_def)
    qed
  qed (simp add: rows_ok_def example_entry_def MAX_DB_RETRIES_def)
  then have "\<exists>N. {n. N \<le> n \<and> filter pending (?rows n) \<noteq> []} = {}"
    by (simp add: filter_empty_conv) (metis (no_types, lifting))
  moreover have "filter pending (?rows 0) \<noteq> []" by (simp add: pending_def example_entry_def)
  ultimately show ?thesis by (simp add: Let_def)
qed

theorem queue_rows_valid_witness:
  "(queue_step plain_client)\<^sup>*\<^sup>* [] [example_entry ''q'' 0] \<and> distinct (map qd_queue_id [example_entry ''q'' 0])"
proof -
  have "add_to_queue (\<lambda>_. ''q'') 0 None ''c'' ''i'' [Document ''d'' 0 None None None None None None None None None []] Upsert None [] =
      ([example_entry ''q'' 0], Inr [''q''])"
    by (simp add: add_to_queue_def upsert_row_def queue_row_def example_entry_def)
  then have "queue_step plain_client [] [example_entry ''q'' 0]" by (rule Enqueue [rotated 2]) (auto simp: inj_on_def)
  then have "(queue_step plain_client)\<^sup>*\<^sup>* [] [example_entry ''q'' 0]" by blast
  then show ?thesis using queue_rows_valid [OF plain_client_ok(1)] by blast
qed

theorem queue_info_counts_witness:
  "\<exists>info. get_queue_info plain_client ''c'' [example_entry ''q'' 0] = Inr info \<and> qi_total info = 1"
proof -
  obtain info where run: "get_queue_info plain_client ''c'' [example_entry ''q'' 0] = Inr info"
    by (simp add: get_queue_info_def queue_cells_def plain_client_def Let_def)
  show ?thesis using queue_info_counts [OF plain_client_ok(2) run] run by (simp add: example_entry_def)
qed

end
