(* ===== verification/Collections.thy ===== *)
theory Collections
  imports Collection_Stats Queue_Store
begin

text \<open>
  The collections of the Qdrant database as \<open>src/src/qdrant.rs\<close> uses them: \<open>configure\<close>,
  \<open>create_collection\<close>, \<open>create_metadata_index\<close>, \<open>delete_collection\<close>, \<open>empty_collection\<close>,
  \<open>get_collection_info_internal\<close>, \<open>list_collections\<close> and \<open>wait_connected\<close>.

  The state \<open>database\<close> holds the collections that exist with their vectors and payload indexes, the
  points of the meta collection (the configuration and the statistics of each collection), and the
  \<open>store\<close> of theory \<open>Ingestion\<close> with the documents, the queue rows and the configuration cache. The
  system collections are collections like the others: whoever deletes or empties one loses its
  points, and a call on a collection that does not exist fails. The \<open>n\<close>-th call of an operation fails
  when \<open>de_fail n\<close> says so; a failed call changes nothing.
\<close>

section \<open>State\<close>

datatype field_type = KeywordIndex | IntegerIndex | FloatIndex | BoolIndex | DatetimeIndex

record collection_schema =
  cs_dense :: "(string, nat \<times> dense_distance) hash_map"
  cs_sparse :: "(string, bool) hash_map"
  cs_indexes :: "(string \<times> field_type) list"

record database =
  db_schemas :: "(string \<times> collection_schema) list"
  db_configs :: "string \<rightharpoonup> collection_config_internal"
  db_stats :: "string \<rightharpoonup> collection_stats"
  db_store :: store

record db_env =
  de_fail :: "nat \<Rightarrow> db_error option"
  de_missing :: "string \<Rightarrow> string"
  de_exists :: "string \<Rightarrow> string"

definition meta_collection :: string where
  "meta_collection = sys_collection_name ''meta''"

definition metrics_collection :: string where
  "metrics_collection = sys_collection_name ''metrics''"

definition queue_collection :: string where
  "queue_collection = sys_collection_name ''queue''"

definition exists_collection :: "string \<Rightarrow> database \<Rightarrow> bool" where
  "exists_collection coll db \<longleftrightarrow> map_of (db_schemas db) coll \<noteq> None"

definition call_on :: "db_env \<Rightarrow> nat \<Rightarrow> string \<Rightarrow> database \<Rightarrow> db_error + unit" where
  "call_on env n coll db =
     (case de_fail env n of
        Some e \<Rightarrow> Inl e
      | None \<Rightarrow> if exists_collection coll db then Inr () else Inl (Qdrant (de_missing env coll)))"

section \<open>Calls of the client\<close>

definition client_create :: "db_env \<Rightarrow> nat \<Rightarrow> string \<Rightarrow> collection_schema \<Rightarrow> database \<Rightarrow> database \<times> (db_error + unit)" where
  "client_create env n coll schema db =
     (case de_fail env n of
        Some e \<Rightarrow> (db, Inl e)
      | None \<Rightarrow>
          if exists_collection coll db then (db, Inl (Qdrant (de_exists env coll)))
          else (db\<lparr>db_schemas := db_schemas db @ [(coll, schema)]\<rparr>, Inr ()))"

definition client_index :: "db_env \<Rightarrow> nat \<Rightarrow> string \<Rightarrow> string \<times> field_type \<Rightarrow> database \<Rightarrow> database \<times> (db_error + unit)" where
  "client_index env n coll idx db =
     (case call_on env n coll db of
        Inl e \<Rightarrow> (db, Inl e)
      | Inr _ \<Rightarrow>
          (db\<lparr>db_schemas := map (\<lambda>(c, s). (c, if c = coll then s\<lparr>cs_indexes := cs_indexes s @ [idx]\<rparr> else s)) (db_schemas db)\<rparr>,
           Inr ()))"

text \<open>The points of a collection disappear with it, or when it is emptied.\<close>

definition drop_points :: "string \<Rightarrow> database \<Rightarrow> database" where
  "drop_points coll db =
     (let st = db_store db;
          st = st\<lparr>st_docs := (\<lambda>k. if fst k = coll then None else st_docs st k),
                  st_vectors := (\<lambda>k. if fst k = coll then None else st_vectors st k),
                  st_queue := (if coll = queue_collection then [] else st_queue st)\<rparr>
      in db\<lparr>db_configs := (if coll = meta_collection then Map.empty else db_configs db),
            db_stats := (if coll = meta_collection then Map.empty else db_stats db),
            db_store := st\<rparr>)"

definition drop_collection :: "string \<Rightarrow> database \<Rightarrow> database" where
  "drop_collection coll db =
     (if exists_collection coll db
      then (drop_points coll db)\<lparr>db_schemas := filter (\<lambda>p. fst p \<noteq> coll) (db_schemas db)\<rparr>
      else db)"

section \<open>System collections\<close>

definition dummy_schema :: collection_schema where
  "dummy_schema = \<lparr>cs_dense = [(''dummy'', (1, Dot))], cs_sparse = [], cs_indexes = []\<rparr>"

text \<open>Consecutive calls, each given its number; the first error ends the sequence.\<close>

fun run_calls ::
    "nat \<Rightarrow> (nat \<Rightarrow> database \<Rightarrow> database \<times> (db_error + unit)) list \<Rightarrow> database \<Rightarrow> database \<times> (db_error + unit)" where
  "run_calls n [] db = (db, Inr ())"
| "run_calls n (call # calls) db =
     (case call n db of
        (db, Inl e) \<Rightarrow> (db, Inl e)
      | (db, Inr _) \<Rightarrow> run_calls (Suc n) calls db)"

definition exists_call :: "db_env \<Rightarrow> nat \<Rightarrow> db_error + unit" where
  "exists_call env n = (case de_fail env n of Some e \<Rightarrow> Inl e | None \<Rightarrow> Inr ())"

definition configure_meta_collection :: "db_env \<Rightarrow> nat \<Rightarrow> database \<Rightarrow> database \<times> (db_error + unit)" where
  "configure_meta_collection env n db =
     (case exists_call env n of
        Inl e \<Rightarrow> (db, Inl e)
      | Inr _ \<Rightarrow>
          if exists_collection meta_collection db then (db, Inr ())
          else client_create env (n + 1) meta_collection dummy_schema db)"

definition configure_metrics_collection :: "db_env \<Rightarrow> nat \<Rightarrow> database \<Rightarrow> database \<times> (db_error + unit)" where
  "configure_metrics_collection env n db =
     (case exists_call env n of
        Inl e \<Rightarrow> (db, Inl e)
      | Inr _ \<Rightarrow>
          if exists_collection metrics_collection db then (db, Inr ())
          else run_calls (n + 1)
            ((\<lambda>i. client_create env i metrics_collection dummy_schema) #
             map (\<lambda>idx i. client_index env i metrics_collection idx)
               [(''key'', KeywordIndex), (''bucket_seconds'', IntegerIndex), (''bucket_start'', IntegerIndex)]) db)"

definition indexed_paths :: "string \<Rightarrow> database \<Rightarrow> string list" where
  "indexed_paths coll db =
     (case map_of (db_schemas db) coll of None \<Rightarrow> [] | Some s \<Rightarrow> map fst (cs_indexes s))"

definition configure_queue_collection :: "db_env \<Rightarrow> nat \<Rightarrow> database \<Rightarrow> database \<times> (db_error + unit)" where
  "configure_queue_collection env n db =
     (case exists_call env n of
        Inl e \<Rightarrow> (db, Inl e)
      | Inr _ \<Rightarrow>
          (case (if exists_collection queue_collection db then (db, Inr ())
                 else run_calls (n + 1)
                   ((\<lambda>i. client_create env i queue_collection dummy_schema) #
                    map (\<lambda>idx i. client_index env i queue_collection idx)
                      [(''collection_name'', KeywordIndex), (''doc_id'', KeywordIndex), (''status'', KeywordIndex),
                       (''timestamp'', DatetimeIndex)]) db) of
             (db, Inl e) \<Rightarrow> (db, Inl e)
           | (db, Inr _) \<Rightarrow>
               (case call_on env (n + 6) queue_collection db of
                  Inl e \<Rightarrow> (db, Inl e)
                | Inr _ \<Rightarrow>
                    let present = indexed_paths queue_collection db in
                    run_calls (n + 7)
                      (map (\<lambda>idx i. client_index env i queue_collection idx)
                        (filter (\<lambda>idx. fst idx \<notin> set present)
                          [(''op_type'', KeywordIndex), (''doc_timestamp'', DatetimeIndex), (''created_at'', DatetimeIndex),
                           (''try_count'', IntegerIndex)])) db)))"

definition configure :: "db_env \<Rightarrow> database \<Rightarrow> database \<times> (db_error + unit)" where
  "configure env db =
     (case configure_meta_collection env 0 db of
        (db, Inl e) \<Rightarrow> (db, Inl e)
      | (db, Inr _) \<Rightarrow>
          (case configure_metrics_collection env 2 db of
             (db, Inl e) \<Rightarrow> (db, Inl e)
           | (db, Inr _) \<Rightarrow> configure_queue_collection env 7 db))"

text \<open>The waits, in seconds, between the attempts to reach the database.\<close>

definition MAX_DATABASE_WAIT_SECONDS :: nat where
  "MAX_DATABASE_WAIT_SECONDS = 30"

fun wait_connected :: "nat \<Rightarrow> bool list \<Rightarrow> nat list option" where
  "wait_connected wait_secs [] = None"
| "wait_connected wait_secs (up # rest) =
     (if up then Some []
      else map_option (\<lambda>ws. wait_secs # ws) (wait_connected (min (wait_secs + 2) MAX_DATABASE_WAIT_SECONDS) rest))"

section \<open>Collections of the users\<close>

fun vector_params ::
    "vector_config_internal list \<Rightarrow> (string, nat \<times> dense_distance) hash_map \<Rightarrow> (string, bool) hash_map \<Rightarrow>
     db_error + (string, nat \<times> dense_distance) hash_map \<times> (string, bool) hash_map" where
  "vector_params [] dense sparse = Inr (dense, sparse)"
| "vector_params (vc # vcs) dense sparse =
     (if is_dense (vc_type vc) then
        and_then (ok_or (Config (''Dimensions required for dense vector '' @ quoted (vc_name vc))) (vc_dimensions vc)) (\<lambda>dims.
        and_then (map_err Config (vector_index_fields vc)) (\<lambda>fields.
          vector_params vcs
            (fold (\<lambda>f. AList.update (field_vector_name f (vc_name vc)) (dims, vc_dense_distance vc)) fields dense) sparse))
      else if is_sparse (vc_type vc) then
        and_then (map_err Config (vector_index_fields vc)) (\<lambda>fields.
          vector_params vcs dense
            (fold (\<lambda>f. AList.update (field_vector_name f (vc_name vc)) (is_custom_tokenization (vc_type vc))) fields sparse))
      else vector_params vcs dense sparse)"

fun index_field_type :: "string \<Rightarrow> field_type option" where
  "index_field_type t =
     (if t = ''string'' then Some KeywordIndex
      else if t = ''integer'' then Some IntegerIndex
      else if t = ''float'' then Some FloatIndex
      else if t = ''boolean'' then Some BoolIndex
      else if t = ''datetime'' then Some DatetimeIndex
      else None)"

definition create_metadata_index ::
    "db_env \<Rightarrow> nat \<Rightarrow> string \<Rightarrow> metadata_index \<Rightarrow> database \<Rightarrow> database \<times> (db_error + unit)" where
  "create_metadata_index env n coll mi db =
     (case index_field_type (mi_value_type mi) of
        None \<Rightarrow> (db, Inr ())
      | Some t \<Rightarrow> client_index env n coll (''metadata.'' @ mi_key mi, t) db)"

definition upsert_config :: "db_env \<Rightarrow> nat \<Rightarrow> string \<Rightarrow> collection_config_internal \<Rightarrow> database \<Rightarrow> database \<times> (db_error + unit)" where
  "upsert_config env n coll config db =
     (case call_on env n meta_collection db of
        Inl e \<Rightarrow> (db, Inl e)
      | Inr _ \<Rightarrow> (db\<lparr>db_configs := (db_configs db)(coll \<mapsto> config)\<rparr>, Inr ()))"

definition create_collection ::
    "db_env \<Rightarrow> string \<Rightarrow> collection_config_internal \<Rightarrow> database \<Rightarrow> database \<times> (db_error + bool)" where
  "create_collection env coll config db =
     (case vector_params (cci_vectors config) [] [] of
        Inl e \<Rightarrow> (db, Inl e)
      | Inr (dense, sparse) \<Rightarrow>
          (case run_calls 0
                  ((\<lambda>i. client_create env i coll \<lparr>cs_dense = dense, cs_sparse = sparse, cs_indexes = []\<rparr>) #
                   (\<lambda>i. upsert_config env i coll config) #
                   (\<lambda>i. client_index env i coll (''tags'', KeywordIndex)) #
                   map (\<lambda>mi i. create_metadata_index env i coll mi) (unwrap_or [] (cci_metadata_indexes config))) db of
             (db, Inl e) \<Rightarrow> (db, Inl e)
           | (db, Inr _) \<Rightarrow> (db, Inr True)))"

definition delete_meta :: "db_env \<Rightarrow> nat \<Rightarrow> string \<Rightarrow> bool \<Rightarrow> database \<Rightarrow> database \<times> (db_error + unit)" where
  "delete_meta env n coll config_too db =
     (case call_on env n meta_collection db of
        Inl e \<Rightarrow> (db, Inl e)
      | Inr _ \<Rightarrow>
          (db\<lparr>db_configs := (if config_too then (db_configs db)(coll := None) else db_configs db),
              db_stats := (db_stats db)(coll := None)\<rparr>, Inr ()))"

definition delete_queue_rows :: "db_env \<Rightarrow> nat \<Rightarrow> string \<Rightarrow> database \<Rightarrow> database \<times> (db_error + unit)" where
  "delete_queue_rows env n coll db =
     (case call_on env n queue_collection db of
        Inl e \<Rightarrow> (db, Inl e)
      | Inr _ \<Rightarrow>
          (db\<lparr>db_store := (db_store db)\<lparr>st_queue := fst (delete_from_queue_by_collection None coll (st_queue (db_store db)))\<rparr>\<rparr>, Inr ()))"

text \<open>Deleting a collection that does not exist is no error of the client.\<close>

definition client_delete :: "db_env \<Rightarrow> nat \<Rightarrow> string \<Rightarrow> database \<Rightarrow> database \<times> (db_error + unit)" where
  "client_delete env n coll db =
     (case de_fail env n of Some e \<Rightarrow> (db, Inl e) | None \<Rightarrow> (drop_collection coll db, Inr ()))"

definition delete_collection :: "db_env \<Rightarrow> string \<Rightarrow> database \<Rightarrow> database \<times> (db_error + bool)" where
  "delete_collection env coll db =
     (case run_calls 0 [\<lambda>i. client_delete env i coll, \<lambda>i. delete_meta env i coll True, \<lambda>i. delete_queue_rows env i coll] db of
        (db, Inl e) \<Rightarrow> (db, Inl e)
      | (db, Inr _) \<Rightarrow> (db, Inr True))"

definition client_delete_points :: "db_env \<Rightarrow> nat \<Rightarrow> string \<Rightarrow> database \<Rightarrow> database \<times> (db_error + unit)" where
  "client_delete_points env n coll db =
     (case call_on env n coll db of Inl e \<Rightarrow> (db, Inl e) | Inr _ \<Rightarrow> (drop_points coll db, Inr ()))"

definition empty_collection :: "db_env \<Rightarrow> string \<Rightarrow> database \<Rightarrow> database \<times> (db_error + bool)" where
  "empty_collection env coll db =
     (case run_calls 0 [\<lambda>i. client_delete_points env i coll, \<lambda>i. delete_meta env i coll False, \<lambda>i. delete_queue_rows env i coll] db of
        (db, Inl e) \<Rightarrow> (db, Inl e)
      | (db, Inr _) \<Rightarrow> (db, Inr True))"

definition get_collection_info_internal :: "db_env \<Rightarrow> nat \<Rightarrow> string \<Rightarrow> database \<Rightarrow> db_error + collection_config_internal" where
  "get_collection_info_internal env n coll db =
     and_then (call_on env n meta_collection db)
       (\<lambda>_. ok_or (NotFound (''Configuration not found for '' @ quoted coll)) (db_configs db coll))"

definition user_prefix :: string where
  "user_prefix = ''amgix_''"

definition sys_prefix :: string where
  "sys_prefix = ''amgix_sys_''"

definition list_collections :: "db_env \<Rightarrow> nat \<Rightarrow> database \<Rightarrow> db_error + string list" where
  "list_collections env n db =
     (case de_fail env n of
        Some e \<Rightarrow> Inl e
      | None \<Rightarrow> Inr (filter (\<lambda>c. prefix user_prefix c \<and> \<not> prefix sys_prefix c) (map fst (db_schemas db))))"

section \<open>What creation stores\<close>

lemma field_vector_name_inj: "field_vector_name f n = field_vector_name g m \<longleftrightarrow> f = g \<and> n = m"
  by (cases f; cases g) (auto simp: field_vector_name_def)

definition vector_names :: "vector_config_internal \<Rightarrow> string set" where
  "vector_names c = (\<lambda>f. field_vector_name f (vc_name c)) ` set (slots_of c)"

text \<open>The vectors of the server that a configured vector needs, with its dimensions or its modifier.\<close>

definition schema_has ::
    "(string, nat \<times> dense_distance) hash_map \<Rightarrow> (string, bool) hash_map \<Rightarrow> vector_config_internal \<Rightarrow> bool" where
  "schema_has dense sparse c \<longleftrightarrow>
     (\<forall>k \<in> vector_names c.
        if is_dense (vc_type c)
        then \<exists>d. vc_dimensions c = Some d \<and> map_of dense k = Some (d, vc_dense_distance c)
        else map_of sparse k = Some (is_custom_tokenization (vc_type c)))"

lemma vector_params_frame:
  assumes "vector_params vcs dense sparse = Inr (dense', sparse')" "k \<notin> \<Union> (vector_names ` set vcs)"
  shows "map_of dense' k = map_of dense k \<and> map_of sparse' k = map_of sparse k"
  using assms
proof (induction vcs dense sparse rule: vector_params.induct)
  case (2 vc vcs dense sparse)
  have k: "k \<notin> vector_names vc" "k \<notin> \<Union> (vector_names ` set vcs)" using 2(5) by auto
  obtain fields where f: "vector_index_fields vc = Inr fields"
    using 2(4) by (auto simp: is_sparse_def and_then_eq_Inr map_err_eq_Inr split: if_splits)
  then have names: "vector_names vc = (\<lambda>f. field_vector_name f (vc_name vc)) ` set fields"
    by (simp add: vector_names_def slots_of_def)
  show ?case
  proof (cases "is_dense (vc_type vc)")
    case True
    then show ?thesis using 2(1) [OF True _ k(2)] 2(4) f k(1) unfolding names
      by (auto simp: and_then_eq_Inr ok_or_eq_Inr map_of_fold_const)
  next
    case False
    then show ?thesis using 2(2) [OF False _ _ k(2)] 2(4) f k(1) unfolding names
      by (auto simp: is_sparse_def and_then_eq_Inr map_of_fold_const)
  qed
qed simp

lemma vector_params_has:
  assumes "vector_params vcs dense sparse = Inr (dense', sparse')" "distinct (map vc_name vcs)" "c \<in> set vcs"
  shows "schema_has dense' sparse' c \<and> (\<exists>fields. vector_index_fields c = Inr fields)"
  using assms
proof (induction vcs dense sparse rule: vector_params.induct)
  case (2 vc vcs dense sparse)
  obtain fields where f: "vector_index_fields vc = Inr fields"
    using 2(4) by (auto simp: is_sparse_def and_then_eq_Inr map_err_eq_Inr split: if_splits)
  then have names: "vector_names vc = (\<lambda>f. field_vector_name f (vc_name vc)) ` set fields"
    by (simp add: vector_names_def slots_of_def)
  define dense1 where "dense1 = fold (\<lambda>f. AList.update (field_vector_name f (vc_name vc))
      (the (vc_dimensions vc), vc_dense_distance vc)) fields dense"
  define sparse1 where "sparse1 = fold (\<lambda>f. AList.update (field_vector_name f (vc_name vc))
      (is_custom_tokenization (vc_type vc))) fields sparse"
  have run: "if is_dense (vc_type vc) then vc_dimensions vc \<noteq> None \<and> vector_params vcs dense1 sparse = Inr (dense', sparse')
      else vector_params vcs dense sparse1 = Inr (dense', sparse')"
    using 2(4) f by (auto simp: is_sparse_def and_then_eq_Inr ok_or_eq_Inr dense1_def sparse1_def split: if_splits)
  show ?case
  proof (cases "c = vc")
    case True
    have other: "k \<notin> \<Union> (vector_names ` set vcs)" if "k \<in> vector_names vc" for k
      using that 2(5) by (auto simp: vector_names_def field_vector_name_inj)
    show ?thesis
    proof (cases "is_dense (vc_type vc)")
      case d: True
      then have r: "vector_params vcs dense1 sparse = Inr (dense', sparse')" "vc_dimensions vc \<noteq> None" using run by simp_all
      show ?thesis using True f d r(2) vector_params_frame [OF r(1) other]
        by (auto simp: schema_has_def names dense1_def map_of_fold_const)
    next
      case s: False
      then have r: "vector_params vcs dense sparse1 = Inr (dense', sparse')" using run by simp
      show ?thesis using True f s vector_params_frame [OF r other]
        by (auto simp: schema_has_def names sparse1_def map_of_fold_const)
    qed
  next
    case False
    then have "c \<in> set vcs" "distinct (map vc_name vcs)" using 2(5,6) by auto
    then show ?thesis using 2(1,2) run f
      by (cases "is_dense (vc_type vc)") (auto simp: is_sparse_def dense1_def sparse1_def)
  qed
qed simp

definition add_indexes ::
    "string \<Rightarrow> (string \<times> field_type) list \<Rightarrow> (string \<times> collection_schema) list \<Rightarrow> (string \<times> collection_schema) list" where
  "add_indexes coll idxs = map (\<lambda>(c, s). (c, if c = coll then s\<lparr>cs_indexes := cs_indexes s @ idxs\<rparr> else s))"

lemma add_indexes_append: "add_indexes coll b (add_indexes coll a l) = add_indexes coll (a @ b) l"
  by (auto simp: add_indexes_def)

lemma add_indexes_Nil [simp]: "add_indexes coll [] l = l"
  by (induction l) (auto simp: add_indexes_def)

lemma map_of_add_indexes:
  "map_of (add_indexes coll idxs l) c =
     map_option (\<lambda>s. if c = coll then s\<lparr>cs_indexes := cs_indexes s @ idxs\<rparr> else s) (map_of l c)"
  by (induction l) (auto simp: add_indexes_def)

lemma client_index_Inr:
  "client_index env n coll idx db = (db', Inr ()) \<longleftrightarrow>
     call_on env n coll db = Inr () \<and> db' = db\<lparr>db_schemas := add_indexes coll [idx] (db_schemas db)\<rparr>"
  by (auto simp: client_index_def add_indexes_def split: sum.splits)

definition metadata_index_fields :: "metadata_index list \<Rightarrow> (string \<times> field_type) list" where
  "metadata_index_fields mis =
     List.map_filter (\<lambda>mi. map_option (Pair (''metadata.'' @ mi_key mi)) (index_field_type (mi_value_type mi))) mis"

lemma metadata_indexes_Inr:
  "run_calls n (map (\<lambda>mi i. create_metadata_index env i coll mi) mis) db = (db', Inr ()) \<Longrightarrow>
     db' = db\<lparr>db_schemas := add_indexes coll (metadata_index_fields mis) (db_schemas db)\<rparr>"
proof (induction mis arbitrary: n db)
  case (Cons mi mis)
  then obtain db1 where 1: "create_metadata_index env n coll mi db = (db1, Inr ())"
    and 2: "run_calls (Suc n) (map (\<lambda>mi i. create_metadata_index env i coll mi) mis) db1 = (db', Inr ())"
    by (auto split: prod.splits sum.splits)
  have "db1 = db\<lparr>db_schemas := add_indexes coll (metadata_index_fields [mi]) (db_schemas db)\<rparr>"
    using 1 by (auto simp: create_metadata_index_def metadata_index_fields_def List.map_filter_simps client_index_Inr
        simp del: index_field_type.simps split: option.splits)
  then show ?case using Cons.IH [OF 2]
    by (simp add: add_indexes_append metadata_index_fields_def List.map_filter_simps del: index_field_type.simps split: option.split)
qed (simp add: metadata_index_fields_def List.map_filter_simps)

lemma run_calls_Cons_Inr:
  "run_calls n (call # calls) db = (db', Inr ()) \<longleftrightarrow>
     (\<exists>db1. call n db = (db1, Inr ()) \<and> run_calls (Suc n) calls db1 = (db', Inr ()))"
  by (auto split: prod.splits sum.splits)

text \<open>
  A created collection: its configuration is stored as given, and the collection of the server has a
  vector for every slot of every configured vector and an index for the tags and for every declared
  metadata field.
\<close>

lemma create_collection_Inr:
  assumes "create_collection env coll config db = (db', Inr r)" "distinct (map vc_name (cci_vectors config))"
  shows "r \<and> \<not> exists_collection coll db \<and> exists_collection meta_collection db' \<and> db_configs db' = (db_configs db)(coll \<mapsto> config) \<and>
    db_stats db' = db_stats db \<and> db_store db' = db_store db \<and>
    (\<exists>s. map_of (db_schemas db') coll = Some s \<and>
       (\<forall>c \<in> set (cci_vectors config). schema_has (cs_dense s) (cs_sparse s) c) \<and>
       cs_indexes s = (''tags'', KeywordIndex) # metadata_index_fields (unwrap_or [] (cci_metadata_indexes config)))"
proof -
  obtain dense sparse where vp: "vector_params (cci_vectors config) [] [] = Inr (dense, sparse)"
    using assms(1) by (auto simp: create_collection_def split: sum.splits)
  let ?s = "\<lparr>cs_dense = dense, cs_sparse = sparse, cs_indexes = []\<rparr>"
  let ?calls = "(\<lambda>i. client_create env i coll ?s) # (\<lambda>i. upsert_config env i coll config) #
    (\<lambda>i. client_index env i coll (''tags'', KeywordIndex)) #
    map (\<lambda>mi i. create_metadata_index env i coll mi) (unwrap_or [] (cci_metadata_indexes config))"
  have run: "run_calls 0 ?calls db = (db', Inr ())" and r: "r"
    using assms(1) vp by (auto simp: create_collection_def split: prod.splits sum.splits)
  obtain db1 db2 db3 where c1: "client_create env 0 coll ?s db = (db1, Inr ())"
    and c2: "upsert_config env 1 coll config db1 = (db2, Inr ())"
    and c3: "client_index env 2 coll (''tags'', KeywordIndex) db2 = (db3, Inr ())"
    and c4: "run_calls 3 (map (\<lambda>mi i. create_metadata_index env i coll mi) (unwrap_or [] (cci_metadata_indexes config))) db3 = (db', Inr ())"
    using run unfolding run_calls_Cons_Inr by (auto simp: numeral_2_eq_2 numeral_3_eq_3)
  have new: "\<not> exists_collection coll db" and db1: "db1 = db\<lparr>db_schemas := db_schemas db @ [(coll, ?s)]\<rparr>"
    using c1 by (auto simp: client_create_def split: option.splits if_splits)
  have db2: "db2 = db1\<lparr>db_configs := (db_configs db1)(coll \<mapsto> config)\<rparr>"
    and meta: "exists_collection meta_collection db1"
    using c2 by (auto simp: upsert_config_def call_on_def split: sum.splits option.splits if_splits)
  have db': "db' = db2\<lparr>db_schemas := add_indexes coll ((''tags'', KeywordIndex) #
      metadata_index_fields (unwrap_or [] (cci_metadata_indexes config))) (db_schemas db2)\<rparr>"
    using metadata_indexes_Inr [OF c4] c3 by (simp add: client_index_Inr add_indexes_append)
  have "map_of (db_schemas db) coll = None" using new by (simp add: exists_collection_def)
  moreover have "exists_collection meta_collection db'"
    using meta by (simp add: db' db2 exists_collection_def map_of_add_indexes del: map_of_eq_None_iff)
  ultimately show ?thesis using new r vector_params_has [OF vp assms(2)]
    by (simp add: db' db2 db1 map_of_add_indexes map_add_def)
qed

section \<open>Isolation\<close>

text \<open>Everything that belongs to other collections is the same in two states.\<close>

definition others_kept :: "string \<Rightarrow> database \<Rightarrow> database \<Rightarrow> bool" where
  "others_kept coll db db' \<longleftrightarrow>
     (\<forall>c. c \<noteq> coll \<longrightarrow> db_configs db' c = db_configs db c \<and> db_stats db' c = db_stats db c \<and>
        map_of (db_schemas db') c = map_of (db_schemas db) c) \<and>
     (\<forall>k. fst k \<noteq> coll \<longrightarrow> st_docs (db_store db') k = st_docs (db_store db) k \<and>
        st_vectors (db_store db') k = st_vectors (db_store db) k) \<and>
     filter (\<lambda>q. qd_collection_name q \<noteq> coll) (st_queue (db_store db')) =
       filter (\<lambda>q. qd_collection_name q \<noteq> coll) (st_queue (db_store db))"

lemma others_kept_refl: "others_kept coll db db"
  by (simp add: others_kept_def)

lemma others_kept_trans: "others_kept coll a b \<Longrightarrow> others_kept coll b c \<Longrightarrow> others_kept coll a c"
  by (simp add: others_kept_def)

lemma run_calls_kept:
  assumes "\<forall>call \<in> set calls. \<forall>n db. others_kept coll db (fst (call n db))"
  shows "others_kept coll db (fst (run_calls n calls db))"
  using assms
proof (induction calls arbitrary: n db)
  case (Cons call calls)
  obtain db1 r where c: "call n db = (db1, r)" by fastforce
  then have "others_kept coll db db1" using Cons.prems by (metis fst_conv list.set_intros(1))
  moreover have "others_kept coll db1 (fst (run_calls (Suc n) calls db1))" using Cons by simp
  ultimately show ?case using c others_kept_trans by (auto split: sum.split)
qed (simp add: others_kept_refl)

lemma map_of_filter_key: "map_of (filter (\<lambda>p. fst p \<noteq> k) l) c = (if c = k then None else map_of l c)"
  by (induction l) auto

lemma client_kept:
  "others_kept coll db (fst (client_create env n coll schema db))"
  "others_kept coll db (fst (client_index env n coll idx db))"
  "others_kept coll db (fst (upsert_config env n coll config db))"
  "others_kept coll db (fst (create_metadata_index env n coll mi db))"
  "others_kept coll db (fst (delete_meta env n coll b db))"
  "others_kept coll db (fst (delete_queue_rows env n coll db))"
proof -
  have idx: "others_kept coll db (fst (client_index env n coll idx db))" for idx
    by (auto simp: client_index_def others_kept_def map_of_add_indexes option.map_ident simp flip: add_indexes_def split: sum.split)
  then show "others_kept coll db (fst (client_index env n coll idx db))" .
  show "others_kept coll db (fst (create_metadata_index env n coll mi db))"
    using idx by (auto simp: create_metadata_index_def others_kept_refl simp del: index_field_type.simps split: option.split)
  show "others_kept coll db (fst (client_create env n coll schema db))"
    by (auto simp: client_create_def others_kept_def map_add_def split: option.splits)
  show "others_kept coll db (fst (upsert_config env n coll config db))"
    by (auto simp: upsert_config_def others_kept_def split: sum.split)
  show "others_kept coll db (fst (delete_meta env n coll b db))"
    by (auto simp: delete_meta_def others_kept_def split: sum.split)
  show "others_kept coll db (fst (delete_queue_rows env n coll db))"
    by (auto simp: delete_queue_rows_def delete_from_queue_by_collection_def others_kept_def filter_filter intro: filter_cong split: sum.split)
qed

lemma drop_kept:
  assumes "coll \<noteq> meta_collection" "coll \<noteq> queue_collection"
  shows "others_kept coll db (drop_points coll db)" "others_kept coll db (drop_collection coll db)"
    "others_kept coll db (fst (client_delete env n coll db))" "others_kept coll db (fst (client_delete_points env n coll db))"
proof -
  show p: "others_kept coll db (drop_points coll db)"
    using assms by (simp add: drop_points_def others_kept_def Let_def)
  show d: "others_kept coll db (drop_collection coll db)"
    using p by (simp add: drop_collection_def others_kept_def map_of_filter_key)
  show "others_kept coll db (fst (client_delete env n coll db))"
    using d by (auto simp: client_delete_def others_kept_refl split: option.split)
  show "others_kept coll db (fst (client_delete_points env n coll db))"
    using p by (auto simp: client_delete_points_def others_kept_refl split: sum.split)
qed

lemma collection_calls_kept:
  "others_kept coll db (fst (create_collection env coll config db))"
  "coll \<noteq> meta_collection \<Longrightarrow> coll \<noteq> queue_collection \<Longrightarrow> others_kept coll db (fst (delete_collection env coll db))"
  "coll \<noteq> meta_collection \<Longrightarrow> coll \<noteq> queue_collection \<Longrightarrow> others_kept coll db (fst (empty_collection env coll db))"
proof -
  have fst_case: "fst (case p of (d, Inl e) \<Rightarrow> (d, Inl e) | (d, Inr u) \<Rightarrow> (d, Inr True)) = fst p"
    for p :: "database \<times> (db_error + unit)"
    by (cases p) (auto split: sum.split)
  have "others_kept coll db (fst (run_calls 0
      ((\<lambda>i. client_create env i coll s) # (\<lambda>i. upsert_config env i coll config) #
       (\<lambda>i. client_index env i coll (''tags'', KeywordIndex)) #
       map (\<lambda>mi i. create_metadata_index env i coll mi) (unwrap_or [] (cci_metadata_indexes config))) db))" for s
    by (rule run_calls_kept) (auto simp: client_kept)
  then show "others_kept coll db (fst (create_collection env coll config db))"
    unfolding create_collection_def by (simp add: fst_case others_kept_refl split: sum.split)
  show "others_kept coll db (fst (delete_collection env coll db))" if "coll \<noteq> meta_collection" "coll \<noteq> queue_collection"
    unfolding delete_collection_def fst_case by (rule run_calls_kept) (simp add: client_kept drop_kept [OF that])
  show "others_kept coll db (fst (empty_collection env coll db))" if "coll \<noteq> meta_collection" "coll \<noteq> queue_collection"
    unfolding empty_collection_def fst_case by (rule run_calls_kept) (simp add: client_kept drop_kept [OF that])
qed

lemma delete_collection_Inr:
  assumes "delete_collection env coll db = (db', Inr r)"
  shows "r \<and> coll \<noteq> meta_collection \<and> coll \<noteq> queue_collection \<and> \<not> exists_collection coll db' \<and>
    exists_collection meta_collection db' \<and> db_configs db' coll = None \<and> db_stats db' coll = None \<and>
    (exists_collection coll db \<longrightarrow> (\<forall>i. st_docs (db_store db') (coll, i) = None)) \<and>
    (\<forall>q \<in> set (st_queue (db_store db')). qd_collection_name q \<noteq> coll)"
proof -
  obtain db1 db2 where c1: "client_delete env 0 coll db = (db1, Inr ())"
    and c2: "delete_meta env 1 coll True db1 = (db2, Inr ())" and c3: "delete_queue_rows env 2 coll db2 = (db', Inr ())"
    and r: r
    using assms unfolding delete_collection_def
    by (auto simp: numeral_2_eq_2 split: prod.splits sum.splits)
  have db1: "db1 = drop_collection coll db" using c1 by (auto simp: client_delete_def split: option.splits)
  have gone: "\<not> exists_collection coll db1"
    by (auto simp: db1 drop_collection_def exists_collection_def map_of_filter_key drop_points_def Let_def)
  have db2: "db2 = db1\<lparr>db_configs := (db_configs db1)(coll := None), db_stats := (db_stats db1)(coll := None)\<rparr>"
    and m: "exists_collection meta_collection db1"
    using c2 by (auto simp: delete_meta_def call_on_def split: sum.splits option.splits if_splits)
  have db': "db' = db2\<lparr>db_store := (db_store db2)\<lparr>st_queue := filter (\<lambda>q. qd_collection_name q \<noteq> coll) (st_queue (db_store db2))\<rparr>\<rparr>"
    and q: "exists_collection queue_collection db2"
    using c3 by (auto simp: delete_queue_rows_def delete_from_queue_by_collection_def call_on_def split: sum.splits option.splits if_splits)
  have "exists_collection coll db \<longrightarrow> (\<forall>i. st_docs (db_store db1) (coll, i) = None)"
    by (simp add: db1 drop_collection_def drop_points_def Let_def)
  then show ?thesis using r gone m q by (auto simp: db' db2 exists_collection_def)
qed

section \<open>Calls that succeed\<close>

lemma client_index_succeeds:
  assumes "\<And>n. de_fail env n = None" "exists_collection coll db"
  shows "\<exists>db'. client_index env n coll idx db = (db', Inr ()) \<and> exists_collection coll db'"
  using assms unfolding client_index_Inr
  by (simp add: call_on_def exists_collection_def map_of_add_indexes del: map_of_eq_None_iff)

lemma metadata_indexes_succeed:
  assumes "\<And>n. de_fail env n = None" "exists_collection coll db"
  shows "\<exists>db'. run_calls n (map (\<lambda>mi i. create_metadata_index env i coll mi) mis) db = (db', Inr ())"
  using assms(2)
proof (induction mis arbitrary: n db)
  case (Cons mi mis)
  obtain db1 where "create_metadata_index env n coll mi db = (db1, Inr ())" "exists_collection coll db1"
  proof (cases "index_field_type (mi_value_type mi)")
    case (Some t)
    then show thesis using client_index_succeeds [OF assms(1) Cons.prems, of n "(''metadata.'' @ mi_key mi, t)"] that
      by (auto simp: create_metadata_index_def simp del: index_field_type.simps)
  qed (use Cons.prems that in \<open>simp add: create_metadata_index_def del: index_field_type.simps\<close>)
  then show ?case using Cons.IH [of db1 "Suc n"] by (auto simp: run_calls_Cons_Inr simp del: run_calls.simps)
qed simp

lemma create_collection_succeeds:
  assumes calm: "\<And>n. de_fail env n = None" and "\<not> exists_collection coll db" "exists_collection meta_collection db"
    and vp: "vector_params (cci_vectors config) [] [] = Inr p"
  shows "\<exists>db'. create_collection env coll config db = (db', Inr True)"
proof -
  obtain dense sparse where p: "p = (dense, sparse)" by fastforce
  let ?s = "\<lparr>cs_dense = dense, cs_sparse = sparse, cs_indexes = []\<rparr>"
  define db1 where "db1 = db\<lparr>db_schemas := db_schemas db @ [(coll, ?s)]\<rparr>"
  define db2 where "db2 = db1\<lparr>db_configs := (db_configs db1)(coll \<mapsto> config)\<rparr>"
  have c1: "client_create env n coll ?s db = (db1, Inr ())" for n
    using calm assms(2) by (simp add: client_create_def db1_def)
  have "exists_collection meta_collection db1" using assms(3) by (auto simp: exists_collection_def db1_def map_add_def split: option.splits)
  then have c2: "upsert_config env n coll config db1 = (db2, Inr ())" for n
    using calm by (simp add: upsert_config_def call_on_def db2_def)
  have "exists_collection coll db2" by (simp add: exists_collection_def db2_def db1_def map_add_def split: option.splits)
  from client_index_succeeds [OF calm this] obtain db3
    where c3: "client_index env (Suc (Suc 0)) coll (''tags'', KeywordIndex) db2 = (db3, Inr ())" "exists_collection coll db3" by blast
  from metadata_indexes_succeed [OF calm c3(2)] obtain db' where
    "run_calls (Suc (Suc (Suc 0))) (map (\<lambda>mi i. create_metadata_index env i coll mi) (unwrap_or [] (cci_metadata_indexes config))) db3 = (db', Inr ())"
    by blast
  then show ?thesis using c1 c2 c3(1) by (simp add: create_collection_def vp p)
qed

end
