(* ===== verification/Datetime.thy ===== *)
theory Datetime
  imports Models
begin

text \<open>
  Date parsing, \<open>src/src/datetime_parse.rs\<close>. The parsers of the chrono library are the record
  \<open>chrono\<close>: for a format, the instant in nanoseconds, with the offset from UTC in seconds for a zoned
  value. A date without time is midnight, a date without zone is taken as UTC.
\<close>

section \<open>Definitions\<close>

record chrono =
  ch_rfc3339 :: "string \<Rightarrow> (int \<times> int) option"
  ch_zoned :: "string \<Rightarrow> string \<Rightarrow> (int \<times> int) option"
  ch_naive :: "string \<Rightarrow> string \<Rightarrow> int option"
  ch_date :: "string \<Rightarrow> string \<Rightarrow> int option"

definition ZONED_FMTS :: "string list" where
  "ZONED_FMTS =
     [''%Y-%m-%dT%H:%M:%S%.f%z'', ''%Y-%m-%dT%H:%M:%S%z'', ''%Y-%m-%dT%H:%M:%S%.f%:z'', ''%Y-%m-%dT%H:%M:%S%:z'',
      ''%Y-%m-%d %H:%M:%S%.f%z'', ''%Y-%m-%d %H:%M:%S%z'', ''%Y-%m-%d %H:%M:%S%.f%:z'', ''%Y-%m-%d %H:%M:%S%:z'',
      ''%Y-%m-%d %H:%M:%S%.f %z'', ''%Y-%m-%d %H:%M:%S %z'', ''%Y-%m-%d %H:%M:%S%.f %:z'', ''%Y-%m-%d %H:%M:%S %:z'',
      ''%Y-%m-%dT%H:%M:%S%.f %z'', ''%Y-%m-%dT%H:%M:%S %z'', ''%Y-%m-%dT%H:%M:%S%.f %:z'', ''%Y-%m-%dT%H:%M:%S %:z'']"

definition NAIVE_FMTS :: "string list" where
  "NAIVE_FMTS = [''%Y-%m-%dT%H:%M:%S%.f'', ''%Y-%m-%dT%H:%M:%S'', ''%Y-%m-%d %H:%M:%S%.f'', ''%Y-%m-%d %H:%M:%S'']"

definition DATE :: string where
  "DATE = ''%Y-%m-%d''"

fun find_map :: "('a \<Rightarrow> 'b option) \<Rightarrow> 'a list \<Rightarrow> 'b option" where
  "find_map f [] = None"
| "find_map f (x # xs) = (case f x of Some y \<Rightarrow> Some y | None \<Rightarrow> find_map f xs)"

definition parse_zoned_datetime :: "chrono \<Rightarrow> string \<Rightarrow> (int \<times> int) option" where
  "parse_zoned_datetime ch str =
     (let s = trim str in
      case ch_rfc3339 ch s of
        Some dt \<Rightarrow> Some dt
      | None \<Rightarrow> find_map (\<lambda>fmt. ch_zoned ch s fmt) ZONED_FMTS)"

definition parse_naive_datetime :: "chrono \<Rightarrow> string \<Rightarrow> int option" where
  "parse_naive_datetime ch str = (let s = trim str in find_map (\<lambda>fmt. ch_naive ch s fmt) NAIVE_FMTS)"

definition parse_date :: "chrono \<Rightarrow> string \<Rightarrow> int option" where
  "parse_date ch s = ch_date ch (trim s) DATE"

definition parse_utc_datetime :: "chrono \<Rightarrow> string \<Rightarrow> string + int" where
  "parse_utc_datetime ch str =
     (let s = trim str in
      case parse_zoned_datetime ch s of
        Some (t, offset) \<Rightarrow>
          if offset \<noteq> 0 then Inl ''Timestamp must be in UTC timezone'' else Inr t
      | None \<Rightarrow>
          if parse_naive_datetime ch s \<noteq> None then Inl ''Timestamp must include timezone information''
          else Inl ''Timestamp must be a valid ISO 8601 datetime string'')"

definition is_valid_datetime_string :: "chrono \<Rightarrow> string \<Rightarrow> bool" where
  "is_valid_datetime_string ch s \<longleftrightarrow>
     parse_zoned_datetime ch s \<noteq> None \<or> parse_naive_datetime ch s \<noteq> None \<or> parse_date ch s \<noteq> None"

definition parse_datetime_as_utc :: "chrono \<Rightarrow> string \<Rightarrow> string + int" where
  "parse_datetime_as_utc ch str =
     (let s = trim str in
      case parse_zoned_datetime ch s of
        Some (t, _) \<Rightarrow> Inr t
      | None \<Rightarrow>
          (case parse_naive_datetime ch s of
             Some t \<Rightarrow> Inr t
           | None \<Rightarrow>
               (case parse_date ch s of
                  Some t \<Rightarrow> Inr t
                | None \<Rightarrow>
                    Inl (''Invalid datetime value '' @ quoted s @
                      '': expected ISO 8601 (e.g. '' @ quoted ''2021-05-01'' @ '', '' @ quoted ''2021-05-01T00:00:00Z'' @ '')''))))"

section \<open>Agreement of the parsers\<close>

lemma parsers_trim [simp]:
  "parse_zoned_datetime ch (trim s) = parse_zoned_datetime ch s"
  "parse_naive_datetime ch (trim s) = parse_naive_datetime ch s"
  "parse_date ch (trim s) = parse_date ch s"
  by (simp_all add: parse_zoned_datetime_def parse_naive_datetime_def parse_date_def)

text \<open>
  A string passes the check of date metadata exactly when the parser used for filters and stored
  values accepts it, so a date that was accepted can always be compared; and a document timestamp that
  is accepted denotes the same instant for both parsers.
\<close>

theorem valid_datetime_parses:
  "(is_valid_datetime_string ch s \<longleftrightarrow> is_ok (parse_datetime_as_utc ch s)) \<and>
   (\<forall>t. parse_utc_datetime ch s = Inr t \<longrightarrow> is_valid_datetime_string ch s \<and> parse_datetime_as_utc ch s = Inr t)"
  by (auto simp: is_valid_datetime_string_def parse_datetime_as_utc_def parse_utc_datetime_def Let_def is_ok_def
      split: option.splits if_splits)

definition example_chrono :: chrono where
  "example_chrono =
     \<lparr>ch_rfc3339 = (\<lambda>s. if s = ''1970-01-01T00:00:00Z'' then Some (0, 0) else None), ch_zoned = (\<lambda>_ _. None),
      ch_naive = (\<lambda>_ _. None), ch_date = (\<lambda>_ _. None)\<rparr>"

theorem valid_datetime_parses_witness:
  "parse_utc_datetime example_chrono ''1970-01-01T00:00:00Z'' = Inr 0 \<and>
   parse_datetime_as_utc example_chrono ''1970-01-01T00:00:00Z'' = Inr 0"
proof -
  have t: "trim ''1970-01-01T00:00:00Z'' = ''1970-01-01T00:00:00Z''"
    by (rule trim_plain) (simp add: plain_def byte_of_def)
  have run: "parse_utc_datetime example_chrono ''1970-01-01T00:00:00Z'' = Inr 0"
    by (simp add: parse_utc_datetime_def parse_zoned_datetime_def t example_chrono_def)
  show ?thesis using valid_datetime_parses [of example_chrono "''1970-01-01T00:00:00Z''"] run by blast
qed

end
