(* ===== verification/Http_Api.thy ===== *)
theory Http_Api
  imports Collections Datetime Validation Query_Vectors Search_Join Document_Ingress
begin

text \<open>
  The HTTP handlers of \<open>src/src/main.rs\<close>: error responses, the handlers of collections, uploads,
  deletes, status, stored documents and search, and \<open>validate_models\<close> of \<open>src/src/encoder.rs\<close>.

  The state \<open>app\<close> holds the database of theory \<open>Collections\<close> with the configuration cache, whether a
  message broker is configured, and the messages published to it. A handler takes the request the
  router extracted and what the outside answers (record \<open>api_env\<close>) and gives the new state and a
  response: \<open>Inl\<close> a status code with its JSON body, or \<open>Inr\<close> the answer of a successful request.
  \<open>None\<close> is a panic. Uploads and searches that go through an ingress queue take the worker's reply as
  an argument; theories \<open>Document_Ingress\<close> and \<open>Search_Pipeline\<close> say what it is.
\<close>

section \<open>Error responses\<close>

type_synonym http_error = "nat \<times> json"

definition api_error :: "nat \<Rightarrow> string \<Rightarrow> http_error" where
  "api_error status msg = (status, Object [(''detail'', String msg)])"

fun split_at_colon :: "string \<Rightarrow> (string \<times> string) option" where
  "split_at_colon [] = None"
| "split_at_colon (c # cs) =
     (if prefix '': '' (c # cs) then Some ([], drop 1 cs)
      else map_option (\<lambda>(a, b). (c # a, b)) (split_at_colon cs))"

definition error_item :: "json \<Rightarrow> string \<Rightarrow> json" where
  "error_item loc msg =
     Array [Object [(''input'', Null), (''loc'', loc), (''msg'', String msg), (''type'', String ''validation_error'')]]"

definition validation_error_detail_list :: "string \<Rightarrow> json" where
  "validation_error_detail_list msg =
     (case split_at_colon msg of
        Some (field_path, rest) \<Rightarrow>
          error_item (Array (String ''body'' # map String (split_on (CHR ''.'') field_path))) rest
      | None \<Rightarrow> error_item (Array [String ''body'']) msg)"

text \<open>\<open>dbg\<close> is the debug form of a string.\<close>

fun validation_error_str :: "(string \<Rightarrow> string) \<Rightarrow> validation_error \<Rightarrow> string" where
  "validation_error_str dbg (ValidationError msg) = msg"
| "validation_error_str dbg (UnknownFusionMode s) =
     ''fusion_mode must be one of ['' @ quoted ''rrf'' @ '', '' @ quoted ''linear'' @ ''], got '' @ dbg s"
| "validation_error_str dbg (InDocument i e) = ''documents['' @ nat_str i @ '']: '' @ validation_error_str dbg e"

definition validation_error_response :: "(string \<Rightarrow> string) \<Rightarrow> validation_error \<Rightarrow> http_error" where
  "validation_error_response dbg e =
     (422, Object [(''detail'', validation_error_detail_list (validation_error_str dbg e))])"

definition query_validation_error :: "string \<Rightarrow> string \<Rightarrow> http_error" where
  "query_validation_error fld msg =
     (422, Object [(''detail'', error_item (Array [String ''query'', String fld]) msg)])"

datatype json_rejection =
    JsonDataError string
  | JsonSyntaxError string
  | MissingJsonContentType string
  | BytesRejection string
  | OtherRejection string

fun after_sub :: "string \<Rightarrow> string \<Rightarrow> string option" where
  "after_sub p [] = (if p = [] then Some [] else None)"
| "after_sub p (c # cs) = (if prefix p (c # cs) then Some (drop (length p) (c # cs)) else after_sub p cs)"

definition infer_json_error_loc :: "string \<Rightarrow> json" where
  "infer_json_error_loc msg =
     (case after_sub (''missing field '' @ [CHR 0x60]) msg of
        Some rest \<Rightarrow>
          if CHR 0x60 \<in> set rest
          then Array [String ''body'', String (takeWhile (\<lambda>c. c \<noteq> CHR 0x60) rest)]
          else Array [String ''body'']
      | None \<Rightarrow> Array [String ''body''])"

fun json_rejection_response :: "json_rejection \<Rightarrow> http_error" where
  "json_rejection_response (JsonDataError m) = (422, Object [(''detail'', error_item (infer_json_error_loc m) m)])"
| "json_rejection_response (JsonSyntaxError m) = (400, Object [(''detail'', error_item (infer_json_error_loc m) m)])"
| "json_rejection_response (MissingJsonContentType m) = (415, Object [(''detail'', error_item (infer_json_error_loc m) m)])"
| "json_rejection_response (BytesRejection m) = (400, Object [(''detail'', error_item (infer_json_error_loc m) m)])"
| "json_rejection_response (OtherRejection m) = (400, Object [(''detail'', error_item (infer_json_error_loc m) m)])"

fun upsert_error_response :: "upsert_sync_error \<Rightarrow> http_error" where
  "upsert_error_response (UNotFound m) = api_error 404 m"
| "upsert_error_response (UValidation m) = api_error 400 m"
| "upsert_error_response (UVectorization m) = api_error 400 m"
| "upsert_error_response (UQueueCollectionMismatch m) = api_error 400 m"
| "upsert_error_response (UIngressQueueFull m) = api_error 429 m"
| "upsert_error_response (UIngressWorkerExited m) = api_error 503 m"
| "upsert_error_response UQueueEntryGone = api_error 409 ''Queue entry already removed''"
| "upsert_error_response (UDb e) = api_error 500 (''Database error: '' @ db_error_str e)"

text \<open>\<open>show_filter\<close> prints an error of the filter validation.\<close>

fun search_error_response :: "(filter_error \<Rightarrow> string) \<Rightarrow> search_error \<Rightarrow> http_error" where
  "search_error_response show_filter (SearchNotFound m) = api_error 404 m"
| "search_error_response show_filter (InvalidFilter e) =
     api_error 400 (case e of Inl m \<Rightarrow> m | Inr fe \<Rightarrow> show_filter fe)"
| "search_error_response show_filter (Vectorization m) = api_error 400 m"
| "search_error_response show_filter (IngressQueueFull m) = api_error 429 m"
| "search_error_response show_filter (IngressWorkerExited m) = api_error 503 m"
| "search_error_response show_filter (Db e) = api_error 500 (''Database error: '' @ db_error_str e)"

section \<open>State and environment\<close>

record app =
  ap_db :: database
  ap_cluster :: bool
  ap_talks :: "(string \<times> json) list"

record api_env =
  ae_db :: "nat \<Rightarrow> db_env"
  ae_client :: queue_client
  ae_debug :: "string \<Rightarrow> string"
  ae_show_filter :: "filter_error \<Rightarrow> string"
  ae_chrono :: chrono
  ae_uuid :: "nat \<Rightarrow> string"
  ae_new_collection_id :: string
  ae_now :: int
  ae_talk_error :: "string option"
  ae_withdraw_error :: "db_error option"
  ae_embedders :: embedders
  ae_orders :: query_orders
  ae_panicked :: string
  ae_points_count :: "string \<Rightarrow> db_error + nat option"

record ok_response =
  or_ok :: bool
  or_skipped :: "string list option"

definition ok :: ok_response where
  "ok = \<lparr>or_ok = True, or_skipped = None\<rparr>"

definition ok_with_skipped :: "string list \<Rightarrow> ok_response" where
  "ok_with_skipped skipped = \<lparr>or_ok = True, or_skipped = (if skipped = [] then None else Some skipped)\<rparr>"

definition check_name :: "api_env \<Rightarrow> string \<Rightarrow> http_error + unit" where
  "check_name env name = map_err (validation_error_response (ae_debug env)) (validate_collection_name name)"

text \<open>
  Reading the configuration. The handlers differ in the message of an unexpected error; \<open>named\<close> tells
  whether a missing collection is reported with its name or with the message of the database.
\<close>

definition read_config ::
    "api_env \<Rightarrow> nat \<Rightarrow> bool \<Rightarrow> string \<Rightarrow> string \<Rightarrow> database \<Rightarrow> http_error + collection_config_internal" where
  "read_config env i named what name db =
     map_err (\<lambda>e. case e of
         NotFound m \<Rightarrow> api_error 404 (if named then ''Collection '' @ quoted name @ '' not found'' else m)
       | e \<Rightarrow> api_error 500 (what @ '': '' @ db_error_str e))
       (get_collection_info_internal (ae_db env i) 0 (get_real_collection_name name) db)"

section \<open>Health and listing\<close>

record ready_response =
  rr_database :: bool
  rr_rabbitmq :: bool
  rr_index :: bool
  rr_query :: bool
  rr_ready :: bool

definition health_ready :: "bool \<Rightarrow> bool option \<Rightarrow> nat \<times> ready_response" where
  "health_ready database bunny =
     (let rabbitmq = unwrap_or True bunny; index = True; query = True;
          ready = (database \<and> rabbitmq \<and> index \<and> query);
          status = (if \<not> database \<or> \<not> rabbitmq \<or> (\<not> index \<and> \<not> query) then 503 else if ready then 200 else 218)
      in (status, \<lparr>rr_database = database, rr_rabbitmq = rabbitmq, rr_index = index, rr_query = query, rr_ready = ready\<rparr>))"

definition list_collections_handler :: "api_env \<Rightarrow> app \<Rightarrow> http_error + string list" where
  "list_collections_handler env a =
     and_then (map_err (\<lambda>e. api_error 500 (''Failed to list collections: '' @ db_error_str e))
       (list_collections (ae_db env 0) 0 (ap_db a)))
       (\<lambda>names. Inr (map get_user_collection_name names))"

record system_info_response =
  si_amgix_version :: string
  si_database_version :: string
  si_collection_count :: nat

definition system_info :: "api_env \<Rightarrow> string \<Rightarrow> string \<Rightarrow> app \<Rightarrow> http_error + system_info_response" where
  "system_info env version_display qdrant_version a =
     and_then (map_err (\<lambda>e. api_error 500 (''Failed to list collections: '' @ db_error_str e))
       (list_collections (ae_db env 0) 0 (ap_db a)))
       (\<lambda>names. Inr \<lparr>si_amgix_version = version_display, si_database_version = qdrant_version,
                     si_collection_count = length names\<rparr>)"

section \<open>Validation of models\<close>

record model_validation_result =
  mv_valid :: bool
  mv_dimension :: "nat option"
  mv_error :: "string option"

type_synonym model_validation_response = "(string, model_validation_result) hash_map option \<times> string option"

definition validation_options :: "vector_config_internal list \<Rightarrow> vector_search_option list" where
  "validation_options configs =
     concat (map (\<lambda>config.
       map (\<lambda>f. \<lparr>vso_vector_name = vc_name config, vso_weight = f64 1,
                 vso_field = (if f = FTemplate then None else Some f),
                 vso_wmtr_trigram_weight = DEFAULT_WMTR_TRIGRAM_WEIGHT, vso_raw_score_threshold = None\<rparr>)
         (case vector_index_fields config of Inr fs \<Rightarrow> fs | Inl _ \<Rightarrow> [])) configs)"

definition DEFAULT_SEARCH_LIMIT :: nat where
  "DEFAULT_SEARCH_LIMIT = 10"

definition dummy_query :: "vector_search_option list \<Rightarrow> search_query" where
  "dummy_query options =
     \<lparr>sq_query = ''x'',
      sq_settings =
        \<lparr>sqs_vector_options = options, sqs_custom_vectors = None, sqs_limit = DEFAULT_SEARCH_LIMIT, sqs_score_threshold = None,
         sqs_document_tags = None, sqs_document_tags_match_all = False, sqs_metadata_filter = None, sqs_raw_scores = False,
         sqs_fusion_mode = ''rrf'', sqs_join = None, sqs_exclude = None, sqs_group_field = None, sqs_group_max = 3,
         sqs_group_max_fetches = 2, sqs_facets = False, sqs_facet_options = None\<rparr>\<rparr>"

definition model_result :: "vector_data list \<Rightarrow> vector_config_internal \<Rightarrow> model_validation_result" where
  "model_result vectors config =
     (if vc_type config = DenseModel
      then case Option.bind (List.find (\<lambda>v. vd_vector_name v = vc_name config \<and> vd_dense_vector v \<noteq> None) vectors) vd_dense_vector of
             Some dv \<Rightarrow> \<lparr>mv_valid = True, mv_dimension = (if length dv < 2 ^ 32 then Some (length dv) else None), mv_error = None\<rparr>
           | None \<Rightarrow> \<lparr>mv_valid = False, mv_dimension = None, mv_error = Some ''No dense vector generated''\<rparr>
      else \<lparr>mv_valid = True, mv_dimension = None, mv_error = None\<rparr>)"

definition validate_models_inner :: "api_env \<Rightarrow> vector_config_internal list \<Rightarrow> model_validation_response option" where
  "validate_models_inner env configs =
     map_option (\<lambda>r. case r of
         Inl e \<Rightarrow> (None, Some e)
       | Inr q \<Rightarrow> (Some (fold (\<lambda>config. AList.update (vc_name config) (model_result (sqv_vectors q) config)) configs []), None))
       (vectorize_search_query (ae_embedders env) (ae_orders env) (dummy_query (validation_options configs)) configs True)"

text \<open>A panic of the blocking task is an error of its join handle.\<close>

definition validate_models :: "api_env \<Rightarrow> vector_config_internal list \<Rightarrow> model_validation_response" where
  "validate_models env configs =
     (case validate_models_inner env configs of
        Some r \<Rightarrow> r
      | None \<Rightarrow> (None, Some (''validate_models task: '' @ ae_panicked env)))"

section \<open>Collections\<close>

definition get_collection_config :: "api_env \<Rightarrow> string \<Rightarrow> app \<Rightarrow> http_error + collection_config" where
  "get_collection_config env name a =
     and_then (check_name env name) (\<lambda>_.
     and_then (read_config env 0 True ''Failed to get collection config'' name (ap_db a)) (\<lambda>config.
       Inr (collection_config_from_internal config)))"

fun full_vectors :: "(string, model_validation_result) hash_map \<Rightarrow> vector_config list \<Rightarrow> http_error + vector_config_internal list" where
  "full_vectors results [] = Inr []"
| "full_vectors results (vc # vcs) =
     and_then
       (if vc_type vc = DenseModel
        then and_then (ok_or (api_error 400 (''Model validation failed for '' @ vc_name vc)) (map_of results (vc_name vc))) (\<lambda>r.
             if \<not> mv_valid r
             then Inl (api_error 400 (''Model '' @ vc_name vc @ '' is not valid: '' @ unwrap_or ''Model validation failed'' (mv_error r)))
             else and_then (ok_or (api_error 400 (''Model '' @ vc_name vc @ '' is valid but has no reported dimension after validation''))
                    (mv_dimension r)) (\<lambda>dim. Inr ((vector_config_into_internal vc)\<lparr>vc_dimensions := Some dim\<rparr>)))
        else Inr (vector_config_into_internal vc))
       (\<lambda>full. and_then (full_vectors results vcs) (\<lambda>rest. Inr (full # rest)))"

definition checked_new_collection ::
    "api_env \<Rightarrow> string \<Rightarrow> json_rejection + collection_config \<Rightarrow> app \<Rightarrow> http_error + collection_config_internal" where
  "checked_new_collection env name payload a =
     and_then (map_err json_rejection_response payload) (\<lambda>config.
     and_then (check_name env name) (\<lambda>_.
     and_then (map_err (validation_error_response (ae_debug env)) (validate_collection_config config)) (\<lambda>_.
     and_then
       (case get_collection_info_internal (ae_db env 0) 0 (get_real_collection_name name) (ap_db a) of
          Inr _ \<Rightarrow> Inl (api_error 409 (''Collection '' @ quoted name @ '' already exists''))
        | Inl (NotFound _) \<Rightarrow> Inr ()
        | Inl e \<Rightarrow> Inl (api_error 500 (''Failed to check collection: '' @ db_error_str e))) (\<lambda>_.
     and_then
       (case validate_models env (map vector_config_into_internal (cc_vectors config)) of
          (_, Some err) \<Rightarrow> Inl (api_error 400 (''Model validation failed: '' @ err))
        | (results, None) \<Rightarrow> ok_or (api_error 400 ''Model validation returned no results map'') results) (\<lambda>results.
     and_then (full_vectors results (cc_vectors config)) (\<lambda>vectors.
       Inr \<lparr>cci_version = 1, cci_collection_id = ae_new_collection_id env, cci_vectors = vectors,
            cci_store_content = cc_store_content config, cci_metadata_indexes = cc_metadata_indexes config\<rparr>))))))"

definition invalidate_cache :: "string \<Rightarrow> database \<Rightarrow> database" where
  "invalidate_cache coll db = db\<lparr>db_store := (db_store db)\<lparr>st_cache := cache_invalidate coll (st_cache (db_store db))\<rparr>\<rparr>"

text \<open>What create, delete and empty do with the answer of the database.\<close>

definition collection_outcome ::
    "string \<Rightarrow> string \<Rightarrow> database \<times> (db_error + bool) \<Rightarrow> app \<Rightarrow> app \<times> (http_error + ok_response)" where
  "collection_outcome verb name r a =
     (case r of
        (db, Inr True) \<Rightarrow> (a\<lparr>ap_db := invalidate_cache (get_real_collection_name name) db\<rparr>, Inr ok)
      | (db, Inr False) \<Rightarrow> (a\<lparr>ap_db := db\<rparr>, Inl (api_error 500 (''Failed to '' @ verb @ '' collection '' @ quoted name)))
      | (db, Inl e) \<Rightarrow> (a\<lparr>ap_db := db\<rparr>, Inl (api_error 500 (''Failed to '' @ verb @ '' collection: '' @ db_error_str e))))"

definition create_collection_handler ::
    "api_env \<Rightarrow> string \<Rightarrow> json_rejection + collection_config \<Rightarrow> app \<Rightarrow> app \<times> (http_error + ok_response)" where
  "create_collection_handler env name payload a =
     (case checked_new_collection env name payload a of
        Inl e \<Rightarrow> (a, Inl e)
      | Inr config \<Rightarrow>
          collection_outcome ''create'' name (create_collection (ae_db env 1) (get_real_collection_name name) config (ap_db a)) a)"

definition delete_collection_handler :: "api_env \<Rightarrow> string \<Rightarrow> app \<Rightarrow> app \<times> (http_error + ok_response)" where
  "delete_collection_handler env name a =
     (case check_name env name of
        Inl e \<Rightarrow> (a, Inl e)
      | Inr _ \<Rightarrow> collection_outcome ''delete'' name (delete_collection (ae_db env 0) (get_real_collection_name name) (ap_db a)) a)"

definition empty_collection_handler :: "api_env \<Rightarrow> string \<Rightarrow> app \<Rightarrow> app \<times> (http_error + ok_response)" where
  "empty_collection_handler env name a =
     (case check_name env name of
        Inl e \<Rightarrow> (a, Inl e)
      | Inr _ \<Rightarrow>
          (case empty_collection (ae_db env 0) (get_real_collection_name name) (ap_db a) of
             (db, Inl e) \<Rightarrow> (a\<lparr>ap_db := db\<rparr>, Inl (api_error 500 (''Failed to empty collection: '' @ db_error_str e)))
           | (db, Inr b) \<Rightarrow> (a\<lparr>ap_db := db\<rparr>, Inr \<lparr>or_ok = b, or_skipped = None\<rparr>)))"

definition collection_exists :: "api_env \<Rightarrow> string \<Rightarrow> app \<Rightarrow> http_error + bool" where
  "collection_exists env name a =
     and_then (check_name env name) (\<lambda>_.
       case get_collection_info_internal (ae_db env 0) 0 (get_real_collection_name name) (ap_db a) of
         Inr _ \<Rightarrow> Inr True
       | Inl (NotFound _) \<Rightarrow> Inr False
       | Inl e \<Rightarrow> Inl (api_error 500 (''Failed to check collection: '' @ db_error_str e)))"

definition queue_info_of :: "api_env \<Rightarrow> nat \<Rightarrow> string \<Rightarrow> database \<Rightarrow> http_error + queue_info" where
  "queue_info_of env i name db =
     map_err (\<lambda>e. api_error 500 (''Failed to get queue info: '' @ db_error_str e))
       (and_then (call_on (ae_db env i) 0 queue_collection db) (\<lambda>_.
          get_queue_info (ae_client env) (get_real_collection_name name) (st_queue (db_store db))))"

definition get_collection_stats_handler :: "api_env \<Rightarrow> string \<Rightarrow> app \<Rightarrow> http_error + int \<times> queue_info" where
  "get_collection_stats_handler env name a =
     and_then (check_name env name) (\<lambda>_.
     and_then (read_config env 0 True ''Failed to check collection'' name (ap_db a)) (\<lambda>_.
     and_then (map_err (\<lambda>e. api_error 500 (''Failed to get document count: '' @ db_error_str e))
       (and_then (ae_points_count env (get_real_collection_name name))
         (ok_or (Config ''Collection points_count is unavailable'')))) (\<lambda>n.
     and_then (queue_info_of env 1 name (ap_db a)) (\<lambda>queue. Inr (int n, queue)))))"

definition get_queue_info_handler :: "api_env \<Rightarrow> string \<Rightarrow> app \<Rightarrow> http_error + queue_info" where
  "get_queue_info_handler env name a =
     and_then (check_name env name) (\<lambda>_.
     and_then (read_config env 0 True ''Failed to check collection'' name (ap_db a)) (\<lambda>_.
       queue_info_of env 1 name (ap_db a)))"

definition delete_collection_queue :: "api_env \<Rightarrow> string \<Rightarrow> app \<Rightarrow> app \<times> (http_error + ok_response)" where
  "delete_collection_queue env name a =
     (case and_then (check_name env name) (\<lambda>_. read_config env 0 True ''Failed to check collection'' name (ap_db a)) of
        Inl e \<Rightarrow> (a, Inl e)
      | Inr _ \<Rightarrow>
          (case delete_queue_rows (ae_db env 1) 0 (get_real_collection_name name) (ap_db a) of
             (db, Inl e) \<Rightarrow> (a\<lparr>ap_db := db\<rparr>, Inl (api_error 500 (''Failed to clear queue: '' @ db_error_str e)))
           | (db, Inr _) \<Rightarrow> (a\<lparr>ap_db := db\<rparr>, Inr ok)))"

section \<open>Documents\<close>

definition set_queue :: "queue_document list \<Rightarrow> app \<Rightarrow> app" where
  "set_queue rows a = a\<lparr>ap_db := (ap_db a)\<lparr>db_store := (db_store (ap_db a))\<lparr>st_queue := rows\<rparr>\<rparr>\<rparr>"

definition bulk_message :: "string list \<Rightarrow> json" where
  "bulk_message queue_ids = Object [(''queue_ids'', Array (map String queue_ids))]"

definition single_message :: "string \<Rightarrow> string \<Rightarrow> json" where
  "single_message coll queue_id = Object [(''collection_name'', String coll), (''queue_id'', String queue_id)]"

text \<open>
  The message names the identifiers of the rows; with no document the access \<open>queue_ids[0]\<close> panics.
  The metadata of a message for tracing is left out.
\<close>

definition queue_message :: "string \<Rightarrow> document list \<Rightarrow> string list \<Rightarrow> (string \<times> json) option" where
  "queue_message coll documents queue_ids =
     (if 1 < length documents then Some (''documents-bulk'', bulk_message queue_ids)
      else case (queue_ids, documents) of
             (queue_id # _, _ # _) \<Rightarrow> Some (''documents'', single_message coll queue_id)
           | _ \<Rightarrow> None)"

definition upload_documents_to_queue ::
    "api_env \<Rightarrow> nat \<Rightarrow> string \<Rightarrow> string \<Rightarrow> document list \<Rightarrow> queue_operation_type \<Rightarrow> int option \<Rightarrow> app \<Rightarrow>
     (app \<times> (http_error + unit)) option" where
  "upload_documents_to_queue env i coll cid documents op ts a =
     (case add_to_queue (ae_uuid env) (ae_now env)
             (case call_on (ae_db env i) 0 queue_collection (ap_db a) of Inl e \<Rightarrow> Some e | Inr _ \<Rightarrow> None)
             coll cid documents op ts (st_queue (db_store (ap_db a))) of
        (rows, Inl e) \<Rightarrow>
          Some (set_queue rows a, Inl (api_error 500 (''Failed to add documents to queue: '' @ db_error_str e)))
      | (rows, Inr queue_ids) \<Rightarrow>
          let a = set_queue rows a in
          if \<not> ap_cluster a then Some (a, Inr ())
          else case queue_message coll documents queue_ids of
                 None \<Rightarrow> None
               | Some msg \<Rightarrow>
                   (case ae_talk_error env of
                      None \<Rightarrow> Some (a\<lparr>ap_talks := ap_talks a @ [msg]\<rparr>, Inr ())
                    | Some e \<Rightarrow>
                        Some (set_queue (fst (delete_from_queue (ae_withdraw_error env) queue_ids rows)) a,
                              Inl (api_error 500 (''Failed to publish event to internal queue: '' @ e)))))"

definition valid_dt :: "api_env \<Rightarrow> string \<Rightarrow> bool" where
  "valid_dt env = is_valid_datetime_string (ae_chrono env)"

text \<open>The checks of one uploaded document: the normalised document and the configuration.\<close>

definition checked_document ::
    "api_env \<Rightarrow> string \<Rightarrow> json_rejection + document \<Rightarrow> app \<Rightarrow> http_error + document \<times> collection_config_internal" where
  "checked_document env name payload a =
     and_then (map_err json_rejection_response payload) (\<lambda>document.
     and_then (check_name env name) (\<lambda>_.
       let document = normalize_document_python document in
     and_then (map_err (validation_error_response (ae_debug env)) (validate_document (valid_dt env) document)) (\<lambda>_.
     and_then (read_config env 0 True ''Failed to get collection config'' name (ap_db a)) (\<lambda>config.
     and_then (map_err (\<lambda>e. api_error 400 (validation_error_str (ae_debug env) e)) (validate_document_vectors config document)) (\<lambda>_.
       Inr (document, config))))))"

definition after_upload ::
    "(app \<times> (http_error + unit)) option \<Rightarrow> (app \<times> (http_error + ok_response)) option" where
  "after_upload r = map_option (\<lambda>(a, r). (a, and_then r (\<lambda>_. Inr ok))) r"

definition upsert_document ::
    "api_env \<Rightarrow> string \<Rightarrow> json_rejection + document \<Rightarrow> app \<Rightarrow> (app \<times> (http_error + ok_response)) option" where
  "upsert_document env name payload a =
     (case checked_document env name payload a of
        Inl e \<Rightarrow> Some (a, Inl e)
      | Inr (document, config) \<Rightarrow>
          after_upload (upload_documents_to_queue env 1 (get_real_collection_name name) (cci_collection_id config)
            [document] Upsert None a))"

text \<open>\<open>ingress\<close> is what \<open>document_upsert_sync\<close> answers for the document.\<close>

definition upsert_document_sync ::
    "api_env \<Rightarrow> (string \<Rightarrow> document \<Rightarrow> upsert_sync_error + string list) \<Rightarrow> string \<Rightarrow> json_rejection + document \<Rightarrow> app \<Rightarrow>
     http_error + ok_response" where
  "upsert_document_sync env ingress name payload a =
     and_then (checked_document env name payload a) (\<lambda>(document, _).
     and_then (map_err upsert_error_response (ingress (get_real_collection_name name) document)) (\<lambda>skipped.
       Inr (ok_with_skipped skipped)))"

fun check_bulk_vectors :: "api_env \<Rightarrow> collection_config_internal \<Rightarrow> nat \<Rightarrow> document list \<Rightarrow> http_error + unit" where
  "check_bulk_vectors env config i [] = Inr ()"
| "check_bulk_vectors env config i (d # ds) =
     and_then (map_err (\<lambda>e. api_error 400 (''documents['' @ nat_str i @ '']: '' @ validation_error_str (ae_debug env) e))
                (validate_document_vectors config d))
       (\<lambda>_. check_bulk_vectors env config (Suc i) ds)"

definition checked_bulk ::
    "api_env \<Rightarrow> string \<Rightarrow> json_rejection + document list \<Rightarrow> app \<Rightarrow> http_error + document list \<times> collection_config_internal" where
  "checked_bulk env name payload a =
     and_then (map_err json_rejection_response payload) (\<lambda>documents.
     and_then (check_name env name) (\<lambda>_.
     and_then (map_err (validation_error_response (ae_debug env)) (validate_bulk_upload (valid_dt env) documents)) (\<lambda>documents.
     and_then (read_config env 0 True ''Failed to get collection config'' name (ap_db a)) (\<lambda>config.
     and_then (check_bulk_vectors env config 0 documents) (\<lambda>_. Inr (documents, config))))))"

definition upsert_documents_bulk ::
    "api_env \<Rightarrow> string \<Rightarrow> json_rejection + document list \<Rightarrow> app \<Rightarrow> (app \<times> (http_error + ok_response)) option" where
  "upsert_documents_bulk env name payload a =
     (case checked_bulk env name payload a of
        Inl e \<Rightarrow> Some (a, Inl e)
      | Inr (documents, config) \<Rightarrow>
          after_upload (upload_documents_to_queue env 1 (get_real_collection_name name) (cci_collection_id config)
            documents Upsert None a))"

definition request_time :: "api_env \<Rightarrow> string \<Rightarrow> http_error + int" where
  "request_time env s =
     map_err (\<lambda>_. query_validation_error ''request_timestamp''
        (quoted ''request_timestamp'' @ '' must include a UTC timezone (e.g. 2024-01-01T00:00:00Z). Got '' @ s))
       (parse_utc_datetime (ae_chrono env) s)"

definition delete_marker :: "string \<Rightarrow> int \<Rightarrow> document" where
  "delete_marker i ts = Document i ts None (Some ''__delete__'') None None None None None None None []"

definition delete_document_handler ::
    "api_env \<Rightarrow> string \<Rightarrow> string \<Rightarrow> string \<Rightarrow> app \<Rightarrow> (app \<times> (http_error + ok_response)) option" where
  "delete_document_handler env name i timestamp a =
     (case and_then (check_name env name) (\<lambda>_.
           and_then (request_time env timestamp) (\<lambda>ts.
           and_then (read_config env 0 True ''Failed to get collection config'' name (ap_db a)) (\<lambda>config. Inr (ts, config)))) of
        Inl e \<Rightarrow> Some (a, Inl e)
      | Inr (ts, config) \<Rightarrow>
          after_upload (upload_documents_to_queue env 1 (get_real_collection_name name) (cci_collection_id config)
            [delete_marker i ts] Delete (Some ts) a))"

definition delete_document_sync_handler ::
    "api_env \<Rightarrow> ingest_env \<Rightarrow> string \<Rightarrow> string \<Rightarrow> string \<Rightarrow> app \<Rightarrow> app \<times> (http_error + ok_response)" where
  "delete_document_sync_handler env ie name i timestamp a =
     (case and_then (check_name env name) (\<lambda>_. request_time env timestamp) of
        Inl e \<Rightarrow> (a, Inl e)
      | Inr ts \<Rightarrow>
          (case document_delete_sync ie (get_real_collection_name name) i ts None (db_store (ap_db a)) of
             (st, r) \<Rightarrow>
               (a\<lparr>ap_db := (ap_db a)\<lparr>db_store := st\<rparr>\<rparr>,
                and_then (map_err upsert_error_response r) (\<lambda>skipped. Inr (ok_with_skipped skipped)))))"

definition get_document_status :: "api_env \<Rightarrow> string \<Rightarrow> string \<Rightarrow> app \<Rightarrow> http_error + document_status list" where
  "get_document_status env name i a =
     and_then (check_name env name) (\<lambda>_.
       let coll = get_real_collection_name name; db = ap_db a in
     and_then (map_err (\<lambda>e. case e of
           Config m \<Rightarrow> api_error 400 m
         | e \<Rightarrow> api_error 500 (''Database error: '' @ db_error_str e))
       (get_queue_statuses (ae_client env)
          (and_then (call_on (ae_db env 0) 0 coll db) (\<lambda>_. Inr (get_documents coll (db_store db) {} [i])))
          coll i (st_queue (db_store db)))) (\<lambda>statuses.
       if statuses = []
       then Inl (api_error 404 (''Document '' @ i @ '' not found in collection '' @ name))
       else Inr statuses))"

section \<open>Search\<close>

record search_answer =
  sa_results :: "json list"
  sa_facet_counts :: json

text \<open>
  \<open>to_value\<close> and \<open>facets_value\<close> are the JSON forms of a result and of facet counts; the time of the
  query is left out.
\<close>

definition search_handler ::
    "api_env \<Rightarrow> (string \<Rightarrow> search_query \<Rightarrow> search_error + search_outcome) \<Rightarrow> (search_result \<Rightarrow> json) \<Rightarrow>
     ((string \<times> (string \<times> nat) list) list \<Rightarrow> json) \<Rightarrow> string \<Rightarrow> json_rejection + search_query \<Rightarrow> http_error + search_answer" where
  "search_handler env ingress to_value facets_value name payload =
     and_then (map_err json_rejection_response payload) (\<lambda>query.
     and_then (check_name env name) (\<lambda>_.
     and_then (map_err (validation_error_response (ae_debug env)) (validate_search_query query)) (\<lambda>_.
       let query = normalize_search_query_python query; exclude = sqs_exclude (sq_settings query) in
     and_then (map_err (search_error_response (ae_show_filter env)) (ingress (get_real_collection_name name) query)) (\<lambda>outcome.
       Inr \<lparr>sa_results = map (\<lambda>r. let v = flatten_doc_metadata (to_value r) in
                             case exclude of Some fs \<Rightarrow> apply_search_exclude v fs | None \<Rightarrow> v) (so_results outcome),
            sa_facet_counts = unwrap_or Null (map_option facets_value (so_facet_counts outcome))\<rparr>))))"

section \<open>Failed requests\<close>

definition client_error :: "http_error + 'r \<Rightarrow> bool" where
  "client_error r = (case r of Inl (status, _) \<Rightarrow> 400 \<le> status \<and> status < 500 | Inr _ \<Rightarrow> False)"

lemma client_error_simps [simp]:
  "client_error (Inl (s, b)) \<longleftrightarrow> 400 \<le> s \<and> s < 500" "\<not> client_error (Inr x)"
  "client_error (Inl (api_error s m)) \<longleftrightarrow> 400 \<le> s \<and> s < 500"
  by (simp_all add: client_error_def api_error_def)

lemma collection_outcome_error: "collection_outcome verb name r a = (a', res) \<Longrightarrow> \<not> client_error res"
  by (auto simp: collection_outcome_def split: prod.splits sum.splits bool.splits)

lemma upload_error:
  "upload_documents_to_queue env i coll cid documents op ts a = Some (a', r) \<Longrightarrow> \<not> client_error r"
  by (auto simp: upload_documents_to_queue_def Let_def split: prod.splits sum.splits if_splits option.splits)

lemma after_upload_error:
  assumes "after_upload (upload_documents_to_queue env i coll cid documents op ts a) = Some (a', r)"
  shows "\<not> client_error r"
proof -
  obtain u where u: "upload_documents_to_queue env i coll cid documents op ts a = Some (a', u)"
      "r = and_then u (\<lambda>_. Inr ok)"
    using assms by (auto simp: after_upload_def)
  from upload_error [OF u(1)] show ?thesis using u(2) by (cases u) auto
qed

lemma delete_sync_error:
  "document_delete_sync ie coll i ts None st = (st', Inl e) \<Longrightarrow> \<exists>d. e = UDb d"
  unfolding document_delete_sync_def delete_precheck_def delete_reverify_def
  by (auto simp: Let_def and_then_eq_Inl split: option.splits sum.splits if_splits prod.splits db_error.splits)

text \<open>
  C32: a request to create, delete or empty a collection, to clear its queue, to upload one or many
  documents through the queue, or to delete a document (queued or at once) that is answered with an error
  of the client (a status from 400 to 499: malformed or invalid, unknown collection, existing
  collection) changes nothing: no collection, no configuration,
  no document, no queue row and no message.
\<close>

theorem rejected_requests_change_nothing:
  assumes "client_error r"
  shows "(create_collection_handler env name config_payload a = (a', r) \<longrightarrow> a' = a) \<and>
    (delete_collection_handler env name a = (a', r) \<longrightarrow> a' = a) \<and>
    (empty_collection_handler env name a = (a', r) \<longrightarrow> a' = a) \<and>
    (delete_collection_queue env name a = (a', r) \<longrightarrow> a' = a) \<and>
    (upsert_document env name payload a = Some (a', r) \<longrightarrow> a' = a) \<and>
    (upsert_documents_bulk env name bulk_payload a = Some (a', r) \<longrightarrow> a' = a) \<and>
    (delete_document_handler env name i timestamp a = Some (a', r) \<longrightarrow> a' = a) \<and>
    (delete_document_sync_handler env ie name i timestamp a = (a', r) \<longrightarrow> a' = a)"
proof (intro conjI impI)
  show "a' = a" if "create_collection_handler env name config_payload a = (a', r)"
    using that assms collection_outcome_error by (auto simp: create_collection_handler_def split: sum.splits)
  show "a' = a" if "delete_collection_handler env name a = (a', r)"
    using that assms collection_outcome_error by (auto simp: delete_collection_handler_def split: sum.splits)
  show "a' = a" if "empty_collection_handler env name a = (a', r)"
    using that assms by (auto simp: empty_collection_handler_def split: sum.splits prod.splits)
  show "a' = a" if "delete_collection_queue env name a = (a', r)"
    using that assms by (auto simp: delete_collection_queue_def split: sum.splits prod.splits)
  show "a' = a" if "upsert_document env name payload a = Some (a', r)"
    using that assms after_upload_error by (auto simp: upsert_document_def split: sum.splits)
  show "a' = a" if "upsert_documents_bulk env name bulk_payload a = Some (a', r)"
    using that assms after_upload_error by (auto simp: upsert_documents_bulk_def split: sum.splits)
  show "a' = a" if "delete_document_handler env name i timestamp a = Some (a', r)"
    using that assms after_upload_error by (auto simp: delete_document_handler_def split: sum.splits)
  show "a' = a" if h: "delete_document_sync_handler env ie name i timestamp a = (a', r)"
  proof (cases "and_then (check_name env name) (\<lambda>_. request_time env timestamp)")
    case (Inr ts)
    obtain st res where d: "document_delete_sync ie (get_real_collection_name name) i ts None (db_store (ap_db a)) = (st, res)"
      by fastforce
    then have r: "r = and_then (map_err upsert_error_response res) (\<lambda>skipped. Inr (ok_with_skipped skipped))"
      using h Inr by (simp add: delete_document_sync_handler_def)
    show ?thesis
    proof (cases res)
      case (Inl e)
      then obtain x where "e = UDb x" using delete_sync_error d by blast
      then show ?thesis using assms r Inl by simp
    qed (use assms r in simp)
  qed (use h in \<open>simp add: delete_document_sync_handler_def\<close>)
qed

section \<open>Uploads\<close>

definition app_queue :: "app \<Rightarrow> queue_document list" where
  "app_queue a = st_queue (db_store (ap_db a))"

lemma set_queue_simps [simp]:
  "app_queue (set_queue rows a) = rows" "ap_cluster (set_queue rows a) = ap_cluster a"
  "ap_talks (set_queue rows a) = ap_talks a" "set_queue r (set_queue rows a) = set_queue r a"
  "set_queue (app_queue a) a = a" "db_configs (ap_db (set_queue rows a)) = db_configs (ap_db a)"
  by (simp_all add: set_queue_def app_queue_def)

text \<open>Two states that differ in the queue and the messages only.\<close>

definition same_but_queue :: "app \<Rightarrow> app \<Rightarrow> bool" where
  "same_but_queue a a' \<longleftrightarrow> a' = (set_queue (app_queue a') a)\<lparr>ap_talks := ap_talks a'\<rparr>"

lemma same_but_queueI [simp]:
  "same_but_queue a a" "same_but_queue a (set_queue rows a)" "same_but_queue a ((set_queue rows a)\<lparr>ap_talks := ts\<rparr>)"
  by (simp_all add: same_but_queue_def set_queue_def app_queue_def)

lemma app_queue_talks [simp]: "app_queue (a\<lparr>ap_talks := ts\<rparr>) = app_queue a"
  by (simp add: app_queue_def)

text \<open>The rows of uploaded documents, and the identifiers that the broker is told.\<close>

definition enqueued :: "api_env \<Rightarrow> string \<Rightarrow> string \<Rightarrow> document list \<Rightarrow> queue_document list" where
  "enqueued env coll cid documents =
     map (\<lambda>(i, d). \<lparr>qd_queue_id = ae_uuid env i, qd_collection_name = coll, qd_collection_id = cid, qd_doc_id = doc_id d,
         qd_op_type = Upsert, qd_doc_timestamp = doc_timestamp d, qd_status = Queued, qd_info = None, qd_document = Some d,
         qd_created_at = ae_now env, qd_timestamp = ae_now env, qd_try_count = 0\<rparr>) (enumerate 0 documents)"

definition told :: "string \<Rightarrow> queue_document list \<Rightarrow> string \<times> json" where
  "told coll rows =
     (if length rows = 1
      then (''documents'', Object [(''collection_name'', String coll), (''queue_id'', String (qd_queue_id (hd rows)))])
      else (''documents-bulk'', Object [(''queue_ids'', Array (map (\<lambda>q. String (qd_queue_id q)) rows))]))"

lemma enqueued_rows:
  "enqueued env coll cid documents =
     map (\<lambda>(i, d). queue_row (ae_now env) coll cid Upsert (ae_uuid env i, d, doc_timestamp d)) (enumerate 0 documents)"
  by (simp add: enqueued_def queue_row_def)

lemma told_message:
  assumes "queue_message coll documents (map (ae_uuid env) [0..<length documents]) = Some m"
  shows "m = told coll (enqueued env coll cid documents)"
proof -
  have ids: "map (\<lambda>q. String (qd_queue_id q)) (enqueued env coll cid documents) = map String (map (ae_uuid env) [0..<length documents])"
    by (intro nth_equalityI) (simp_all add: enqueued_def nth_enumerate_eq split_def)
  show ?thesis
  proof (cases documents)
    case Nil
    then show ?thesis using assms by (simp add: queue_message_def)
  next
    case (Cons d ds)
    show ?thesis
    proof (cases ds)
      case Nil
      then show ?thesis using assms Cons by (simp add: queue_message_def told_def enqueued_def single_message_def)
    next
      case more: (Cons e es)
      have "length (enqueued env coll cid documents) \<noteq> 1" by (simp add: enqueued_def Cons more)
      then show ?thesis using assms Cons more ids by (simp add: queue_message_def told_def bulk_message_def)
    qed
  qed
qed

definition fresh_uuids :: "api_env \<Rightarrow> app \<Rightarrow> bool" where
  "fresh_uuids env a \<longleftrightarrow> inj (ae_uuid env) \<and> range (ae_uuid env) \<inter> qd_queue_id ` set (app_queue a) = {}"

lemma queue_points_upsert:
  "queue_points uuid Upsert ts i ds = Inr (map (\<lambda>(j, d). (uuid j, d, doc_timestamp d)) (enumerate i ds))"
  by (induction ds arbitrary: i) auto

lemma enumerate_Nil_iff [simp]: "enumerate n xs = [] \<longleftrightarrow> xs = []"
  by (cases xs) simp_all

lemma delete_appended:
  assumes "set ids \<inter> qd_queue_id ` set rows = {}" "qd_queue_id ` set new \<subseteq> set ids"
  shows "fst (delete_from_queue None ids (rows @ new)) = rows"
proof (cases "ids = []")
  case False
  have "filter (\<lambda>q. qd_queue_id q \<notin> set ids) rows = rows" using assms(1) by (auto simp: filter_id_conv)
  moreover have "filter (\<lambda>q. qd_queue_id q \<notin> set ids) new = []" using assms(2) by (auto simp: filter_empty_conv)
  ultimately show ?thesis using False by (simp add: delete_from_queue_def)
qed (use assms(2) in \<open>simp add: delete_from_queue_def\<close>)

lemma upload_effect:
  assumes "upload_documents_to_queue env n coll cid documents Upsert None a = Some (a', r)" "fresh_uuids env a"
  shows "same_but_queue a a' \<and>
    (case r of
       Inl _ \<Rightarrow> ap_talks a' = ap_talks a \<and> (ae_withdraw_error env = None \<longrightarrow> app_queue a' = app_queue a)
     | Inr _ \<Rightarrow> app_queue a' = app_queue a @ enqueued env coll cid documents \<and>
         ap_talks a' = ap_talks a @
           (if ap_cluster a
            then [told coll (enqueued env coll cid documents)] else []))"
proof -
  let ?err = "case call_on (ae_db env n) 0 queue_collection (ap_db a) of Inl e \<Rightarrow> Some e | Inr _ \<Rightarrow> None"
  obtain rows q where add: "add_to_queue (ae_uuid env) (ae_now env) ?err coll cid documents Upsert None (app_queue a) = (rows, q)"
    by fastforce
  have fresh: "inj_on (ae_uuid env) {..<length documents}"
      "ae_uuid env ` {..<length documents} \<inter> qd_queue_id ` set (app_queue a) = {}"
    using assms(2) unfolding fresh_uuids_def by (blast intro: inj_on_subset)+
  note rows = add_to_queue_rows [OF fresh add]
  show ?thesis
  proof (cases q)
    case (Inl e)
    then have "rows = app_queue a" using rows by simp
    then show ?thesis using assms(1) add Inl by (auto simp: upload_documents_to_queue_def app_queue_def [symmetric])
  next
    case (Inr ids)
    then have ids: "ids = map (ae_uuid env) [0..<length documents]"
      and new: "rows = app_queue a @ enqueued env coll cid documents"
      using rows by (auto simp: queue_points_upsert enqueued_rows o_def split_def)
    have "qd_queue_id ` set (enqueued env coll cid documents) \<subseteq> set ids"
      by (auto simp: enqueued_def ids enumerate_eq_zip in_set_zip)
    then have undo: "fst (delete_from_queue None ids rows) = app_queue a"
      unfolding new using fresh(2) by (intro delete_appended) (simp_all add: ids lessThan_atLeast0)
    show ?thesis
      using assms(1) add Inr undo
      by (auto simp: upload_documents_to_queue_def app_queue_def [symmetric] Let_def ids new split: if_splits option.splits
          dest: told_message [where env = env and cid = cid])
  qed
qed

lemma check_bulk_vectors_Inr:
  "check_bulk_vectors env config i ds = Inr u \<longleftrightarrow> list_all (\<lambda>d. validate_document_vectors config d = Inr ()) ds"
  by (induction ds arbitrary: i) (auto simp: and_then_eq_Inr map_err_eq_Inr)

lemma read_config_Inr: "read_config env i named what name db = Inr config \<Longrightarrow> db_configs db (get_real_collection_name name) = Some config"
  by (auto simp: read_config_def map_err_eq_Inr get_collection_info_internal_def and_then_eq_Inr ok_or_eq_Inr)

lemma checked_bulk_Inr:
  assumes "checked_bulk env name payload a = Inr (ds, config)"
  shows "\<exists>documents. payload = Inr documents \<and> ds = map normalize_document_python documents \<and>
    db_configs (ap_db a) (get_real_collection_name name) = Some config \<and>
    list_all (\<lambda>d. document_ok (valid_dt env) d \<and> validate_document_vectors config d = Inr ()) ds"
  using assms
  by (auto simp: checked_bulk_def and_then_eq_Inr map_err_eq_Inr validate_bulk_upload_def validate_documents_from_accepts
      check_bulk_vectors_Inr list_all_iff split: if_splits dest: read_config_Inr)

text \<open>
  C34: a bulk upload that is accepted appends to the queue exactly one row per document, in order, with
  the normalised document, the collection and the identifier of its current configuration; each
  document is well formed and its vectors fit the configuration. With a broker it sends one message and
  without one none: for one document on the topic \<open>documents\<close> with the collection and the identifier of
  the new row, for several on \<open>documents-bulk\<close> with the identifiers of all new rows. An upload that is
  not accepted sends nothing and leaves the queue as it was, unless withdrawing the rows after a failed
  publication fails too. Nothing else changes, and the handler panics only for an empty list of
  documents with a broker. The identifiers drawn for the rows are new.
\<close>

theorem bulk_upload_enqueues:
  assumes "fresh_uuids env a"
  shows "case upsert_documents_bulk env name payload a of
      None \<Rightarrow> ap_cluster a \<and> payload = Inr []
    | Some (a', r) \<Rightarrow>
        same_but_queue a a' \<and>
        (case r of
           Inl _ \<Rightarrow> ap_talks a' = ap_talks a \<and> (ae_withdraw_error env = None \<longrightarrow> app_queue a' = app_queue a)
         | Inr _ \<Rightarrow>
             \<exists>documents config. payload = Inr documents \<and>
               db_configs (ap_db a) (get_real_collection_name name) = Some config \<and>
               (let ds = map normalize_document_python documents;
                    coll = get_real_collection_name name;
                    new = enqueued env coll (cci_collection_id config) ds in
                list_all (\<lambda>d. document_ok (valid_dt env) d \<and> validate_document_vectors config d = Inr ()) ds \<and>
                app_queue a' = app_queue a @ new \<and>
                ap_talks a' = ap_talks a @ (if ap_cluster a then [told coll new] else [])))"
proof (cases "checked_bulk env name payload a")
  case (Inl e)
  then show ?thesis by (simp add: upsert_documents_bulk_def)
next
  case (Inr p)
  then obtain ds config where chk: "checked_bulk env name payload a = Inr (ds, config)" by (cases p) auto
  from checked_bulk_Inr [OF chk] obtain documents where doc: "payload = Inr documents"
      "ds = map normalize_document_python documents" "db_configs (ap_db a) (get_real_collection_name name) = Some config"
      "list_all (\<lambda>d. document_ok (valid_dt env) d \<and> validate_document_vectors config d = Inr ()) ds" by blast
  let ?up = "upload_documents_to_queue env 1 (get_real_collection_name name) (cci_collection_id config) ds Upsert None a"
  have run: "upsert_documents_bulk env name payload a = after_upload ?up" using chk by (simp add: upsert_documents_bulk_def)
  show ?thesis
  proof (cases ?up)
    case None
    then have "ap_cluster a \<and> ds = []"
      by (auto simp: upload_documents_to_queue_def Let_def queue_message_def add_to_queue_def queue_points_upsert
          split: if_splits option.splits sum.splits prod.splits list.splits)
    then show ?thesis unfolding run None using doc by (simp add: after_upload_def)
  next
    case (Some x)
    obtain a' r where x: "x = (a', r)" by fastforce
    note eff = upload_effect [OF Some [unfolded x] assms]
    show ?thesis
    proof (cases r)
      case e: (Inl e)
      then show ?thesis unfolding run Some x using eff by (auto simp: after_upload_def)
    next
      case o: (Inr u)
      then show ?thesis unfolding run Some x using eff doc by (simp add: after_upload_def Let_def)
    qed
  qed
qed

section \<open>Collections through the API\<close>

lemma real_name_iff [simp]:
  "get_real_collection_name name = meta_collection \<longleftrightarrow> name = ''sys_meta''"
  "get_real_collection_name name = queue_collection \<longleftrightarrow> name = ''sys_queue''"
  by (simp_all add: get_real_collection_name_def meta_collection_def queue_collection_def sys_collection_name_def)

lemma invalidate_cache_simps [simp]:
  "db_configs (invalidate_cache coll db) = db_configs db" "db_stats (invalidate_cache coll db) = db_stats db"
  "db_schemas (invalidate_cache coll db) = db_schemas db" "exists_collection c (invalidate_cache coll db) = exists_collection c db"
  "st_docs (db_store (invalidate_cache coll db)) = st_docs (db_store db)"
  "st_queue (db_store (invalidate_cache coll db)) = st_queue (db_store db)"
  "others_kept c db0 (invalidate_cache coll db) = others_kept c db0 db"
  by (simp_all add: invalidate_cache_def exists_collection_def others_kept_def)

lemma invalidated_not_served: "get_for_search (st_cache (db_store (invalidate_cache coll db))) now coll = None"
  by (simp add: invalidate_cache_def get_for_search_def cache_invalidate_def delete_conv')

text \<open>
  C35: creating, deleting or emptying a collection and clearing its queue leave the configuration, the
  statistics, the stored documents and the queue rows of every other collection as they are, whatever
  call fails on the way. The names \<open>sys_meta\<close> and \<open>sys_queue\<close> of the two system collections are excepted:
  there it does not hold (\<open>system_collections_deletable\<close>).
\<close>

theorem handlers_isolate_collections:
  assumes "name \<noteq> ''sys_meta''" "name \<noteq> ''sys_queue''"
  defines "coll \<equiv> get_real_collection_name name"
  shows "others_kept coll (ap_db a) (ap_db (fst (create_collection_handler env name config_payload a))) \<and>
    others_kept coll (ap_db a) (ap_db (fst (delete_collection_handler env name a))) \<and>
    others_kept coll (ap_db a) (ap_db (fst (empty_collection_handler env name a))) \<and>
    others_kept coll (ap_db a) (ap_db (fst (delete_collection_queue env name a)))"
proof (intro conjI)
  have sys: "coll \<noteq> meta_collection" "coll \<noteq> queue_collection" using assms by simp_all
  have out: "others_kept coll (ap_db a) (ap_db (fst (collection_outcome verb name p a)))"
    if "others_kept coll (ap_db a) (fst p)" for verb and p :: "database \<times> (db_error + bool)"
    using that by (cases p) (auto simp: collection_outcome_def split: sum.splits bool.splits)
  show "others_kept coll (ap_db a) (ap_db (fst (create_collection_handler env name config_payload a)))"
    using out collection_calls_kept(1) [of coll]
    by (auto simp: create_collection_handler_def others_kept_refl coll_def split: sum.split)
  show "others_kept coll (ap_db a) (ap_db (fst (delete_collection_handler env name a)))"
    using out collection_calls_kept(2) [OF sys]
    by (auto simp: delete_collection_handler_def others_kept_refl coll_def split: sum.split)
  show "others_kept coll (ap_db a) (ap_db (fst (empty_collection_handler env name a)))"
    using collection_calls_kept(3) [OF sys, of "ap_db a" "ae_db env 0"]
    by (auto simp: empty_collection_handler_def others_kept_refl coll_def split: sum.splits prod.splits)
  show "others_kept coll (ap_db a) (ap_db (fst (delete_collection_queue env name a)))"
    using client_kept(6) [of coll "ap_db a" "ae_db env 1" 0]
    by (auto simp: delete_collection_queue_def others_kept_refl coll_def split: sum.splits prod.splits)
qed

lemma read_back:
  assumes "name_ok MAX_COLLECTION_NAME_LENGTH name" "de_fail (ae_db env 0) 0 = None" "exists_collection meta_collection (ap_db a)"
  shows "get_collection_config env name a =
      (case db_configs (ap_db a) (get_real_collection_name name) of
         Some config \<Rightarrow> Inr (collection_config_from_internal config)
       | None \<Rightarrow> Inl (api_error 404 (''Collection '' @ quoted name @ '' not found'')))"
    "collection_exists env name a = Inr (db_configs (ap_db a) (get_real_collection_name name) \<noteq> None)"
proof -
  have "validate_collection_name name = Inr ()" using assms(1) by (simp add: accepts_iff)
  then have c: "check_name env name = Inr ()" by (simp add: check_name_def)
  show "get_collection_config env name a =
      (case db_configs (ap_db a) (get_real_collection_name name) of
         Some config \<Rightarrow> Inr (collection_config_from_internal config)
       | None \<Rightarrow> Inl (api_error 404 (''Collection '' @ quoted name @ '' not found'')))"
    using assms(2,3) c
    by (cases "db_configs (ap_db a) (get_real_collection_name name)")
      (simp_all add: get_collection_config_def read_config_def get_collection_info_internal_def call_on_def ok_or_def)
  show "collection_exists env name a = Inr (db_configs (ap_db a) (get_real_collection_name name) \<noteq> None)"
    using assms(2,3) c
    by (cases "db_configs (ap_db a) (get_real_collection_name name)")
      (simp_all add: collection_exists_def get_collection_info_internal_def call_on_def ok_or_def)
qed

text \<open>
  After a successful deletion the collection is gone: reading its configuration answers 404 and
  the existence check false, its documents, statistics and queue rows are removed, and the cache
  serves no configuration for it.
\<close>

theorem deleted_collection_gone:
  assumes "delete_collection_handler env name a = (a', Inr r)"
    "de_fail (ae_db env' 0) 0 = None"
  defines "coll \<equiv> get_real_collection_name name"
  shows "get_collection_config env' name a' = Inl (api_error 404 (''Collection '' @ quoted name @ '' not found'')) \<and>
    collection_exists env' name a' = Inr False \<and> \<not> exists_collection coll (ap_db a') \<and> db_stats (ap_db a') coll = None \<and>
    (exists_collection coll (ap_db a) \<longrightarrow> (\<forall>i. st_docs (db_store (ap_db a')) (coll, i) = None)) \<and>
    (\<forall>q \<in> set (app_queue a'). qd_collection_name q \<noteq> coll) \<and>
    get_for_search (st_cache (db_store (ap_db a'))) now coll = None"
proof -
  have name: "check_name env name = Inr ()"
    using assms(1) by (auto simp: delete_collection_handler_def split: sum.splits)
  then have name: "name_ok MAX_COLLECTION_NAME_LENGTH name"
    by (simp add: check_name_def map_err_eq_Inr accepts_iff)
  obtain db b where d: "delete_collection (ae_db env 0) coll (ap_db a) = (db, Inr b)"
    and a': "a' = a\<lparr>ap_db := invalidate_cache coll db\<rparr>"
    using assms(1) by (auto simp: delete_collection_handler_def collection_outcome_def coll_def split: sum.splits prod.splits bool.splits)
  note gone = delete_collection_Inr [OF d]
  have "exists_collection meta_collection (ap_db a')" using gone by (simp add: a')
  from read_back [OF name assms(2) this] show ?thesis
    using gone unfolding coll_def [symmetric] by (simp add: a' app_queue_def invalidated_not_served)
qed

text \<open>
  What is stored for a vector of the request, and what the API gives back for it, field by field. Both
  keep the fields of \<open>same_settings\<close>; the type \<open>keyword\<close> is read as \<open>wmtr\<close>, a missing normalisation is the one
  of the type, and the dimension of a dense model is the one its validation reported. What is stored
  also keeps the model of the queries and the case flag, which the API does not give back.
\<close>

definition reported_dimension :: "api_env \<Rightarrow> collection_config \<Rightarrow> string \<Rightarrow> nat option" where
  "reported_dimension env config n =
     (case validate_models env (map vector_config_into_internal (cc_vectors config)) of
        (Some results, None) \<Rightarrow> Option.bind (map_of results n) mv_dimension
      | _ \<Rightarrow> None)"

definition same_settings :: "(string \<Rightarrow> nat option) \<Rightarrow> vector_config \<Rightarrow> 'a vector_config_scheme \<Rightarrow> bool" where
  "same_settings dimension v w \<longleftrightarrow>
     vc_name w = vc_name v \<and> vc_type w = (if vc_type v = Keyword then Wmtr else vc_type v) \<and>
     vc_model w = vc_model v \<and> vc_revision w = vc_revision v \<and>
     vc_dimensions w = (if vc_type v = DenseModel then dimension (vc_name v) else vc_dimensions v) \<and>
     (vc_type v = DenseModel \<longrightarrow> dimension (vc_name v) \<noteq> None) \<and>
     vc_top_k w = vc_top_k v \<and> vc_wmtr_word_ratio w = vc_wmtr_word_ratio v \<and>
     vc_doc_template w = vc_doc_template v \<and> vc_query_template w = vc_query_template v \<and>
     vc_language_default_code w = vc_language_default_code v \<and> vc_language_detect w = vc_language_detect v \<and>
     vc_language_confidence w = vc_language_confidence v \<and>
     vc_normalization w = (case vc_normalization v of None \<Rightarrow> Some (is_dense (vc_type v)) | Some n \<Rightarrow> Some n) \<and>
     vc_dense_distance w = vc_dense_distance v"

definition stored_vector :: "(string \<Rightarrow> nat option) \<Rightarrow> vector_config \<Rightarrow> vector_config_internal \<Rightarrow> bool" where
  "stored_vector dimension v c \<longleftrightarrow> same_settings dimension v c \<and>
     vc_query_model c = vc_query_model v \<and> vc_query_revision c = vc_query_revision v \<and> vc_keep_case c = vc_keep_case v \<and>
     vc_index_fields c =
       (if vc_doc_template v \<noteq> None \<or> vc_query_template v \<noteq> None then None
        else case vc_index_fields v of None \<Rightarrow> Some [FContent] | Some fs \<Rightarrow> Some fs)"

definition given_back :: "(string \<Rightarrow> nat option) \<Rightarrow> vector_config \<Rightarrow> vector_config \<Rightarrow> bool" where
  "given_back dimension v w \<longleftrightarrow> same_settings dimension v w \<and>
     vc_query_model w = None \<and> vc_query_revision w = None \<and> vc_keep_case w = Some False \<and>
     vc_index_fields w =
       (if vc_doc_template v \<noteq> None then None
        else if vc_query_template v \<noteq> None then Some [FContent]
        else case vc_index_fields v of None \<Rightarrow> Some [FContent] | Some fs \<Rightarrow> Some fs)"

lemma canonical_type_eq: "canonical_vector_type t = (if t = Keyword then Wmtr else t)"
  by (cases t) simp_all

lemma into_internal_same:
  "vc_revision (vector_config_into_internal v) = vc_revision v"
  "vc_language_default_code (vector_config_into_internal v) = vc_language_default_code v"
  "vc_language_detect (vector_config_into_internal v) = vc_language_detect v"
  "vc_language_confidence (vector_config_into_internal v) = vc_language_confidence v"
  "vc_dense_distance (vector_config_into_internal v) = vc_dense_distance v"
  "vc_query_model (vector_config_into_internal v) = vc_query_model v"
  "vc_query_revision (vector_config_into_internal v) = vc_query_revision v"
  "vc_keep_case (vector_config_into_internal v) = vc_keep_case v"
  by (simp_all add: vector_config_into_internal_def Let_def vector_config.defs)

lemma into_internal_stored:
  assumes "vc_type v \<noteq> DenseModel"
  shows "stored_vector dimension v (vector_config_into_internal v)"
  using assms
  by (simp add: stored_vector_def same_settings_def into_internal_fields into_internal_kept into_internal_same canonical_type_eq
      apply_normalization_default_def default_index_fields_def unwrap_or_def split: option.split)

lemma into_internal_dimension:
  assumes "vc_type v = DenseModel" "dimension (vc_name v) = Some size_found"
  shows "stored_vector dimension v ((vector_config_into_internal v)\<lparr>vc_dimensions := Some size_found\<rparr>)"
  using assms
  by (simp add: stored_vector_def same_settings_def into_internal_fields into_internal_kept into_internal_same canonical_type_eq
      apply_normalization_default_def default_index_fields_def unwrap_or_def split: option.split)

lemma full_vectors_Inr:
  "full_vectors results vcs = Inr full \<Longrightarrow> list_all2 (stored_vector (\<lambda>n. Option.bind (map_of results n) mv_dimension)) vcs full"
  by (induction vcs arbitrary: full)
    (auto simp: and_then_eq_Inr ok_or_eq_Inr into_internal_stored into_internal_dimension split: if_splits)

lemma stored_names: "list_all2 (stored_vector d) vcs full \<Longrightarrow> map vc_name full = map vc_name vcs"
  by (induction rule: list_all2_induct) (auto simp: stored_vector_def same_settings_def)

lemma stored_given_back: "stored_vector d v c \<Longrightarrow> given_back d v (vector_config_from_internal c)"
  by (auto simp: stored_vector_def given_back_def same_settings_def vector_config_from_internal_def Let_def vector_config.defs
      canonical_type_eq apply_normalization_default_def default_index_fields_def default_keep_case_def unwrap_or_def
      split: option.split)

lemma models_result_Inr:
  "(case vm of (_, Some err) \<Rightarrow> Inl (f err) | (results, None) \<Rightarrow> ok_or e results) = Inr x \<longleftrightarrow> vm = (Some x, None)"
  by (cases vm) (auto simp: ok_or_eq_Inr split: option.splits)

lemma checked_new_collection_Inr:
  assumes "checked_new_collection env name payload a = Inr internal"
  obtains config where "payload = Inr config" "name_ok MAX_COLLECTION_NAME_LENGTH name" "validate_collection_config config = Inr ()"
    "cci_collection_id internal = ae_new_collection_id env"
    "list_all2 (stored_vector (reported_dimension env config)) (cc_vectors config) (cci_vectors internal)"
    "cci_store_content internal = cc_store_content config" "cci_metadata_indexes internal = cc_metadata_indexes config"
proof -
  obtain config results where c: "payload = Inr config" "name_ok MAX_COLLECTION_NAME_LENGTH name"
      "validate_collection_config config = Inr ()"
      "validate_models env (map vector_config_into_internal (cc_vectors config)) = (Some results, None)"
      "full_vectors results (cc_vectors config) = Inr (cci_vectors internal)" "cci_collection_id internal = ae_new_collection_id env"
      "cci_store_content internal = cc_store_content config" "cci_metadata_indexes internal = cc_metadata_indexes config"
    using assms
    by (auto simp: checked_new_collection_def and_then_eq_Inr map_err_eq_Inr check_name_def accepts_iff models_result_Inr)
  have "reported_dimension env config = (\<lambda>n. Option.bind (map_of results n) mv_dimension)"
    by (simp add: reported_dimension_def c(4) fun_eq_iff)
  then show ?thesis using that [OF c(1-3,6)] full_vectors_Inr [OF c(5)] c(7,8) by simp
qed

text \<open>
  C33: after a successful creation the collection can be used. Its configuration is stored with a new
  identifier, the content flag, the indexes and the vectors of the request (\<open>stored_vector\<close>); the server's
  collection, which did not exist before, has a vector for every slot of each and an index for the tags
  and every declared metadata field. Reading the configuration gives back the content flag, the indexes
  and the vectors of the request in order (\<open>given_back\<close>), without the query model, its revision and the
  case flag. The existence check answers true, creating it again is answered with 409 and changes
  nothing, and the cache serves no older configuration.
\<close>

theorem created_collection_readable:
  assumes "create_collection_handler env name payload a = (a', Inr r)" "de_fail (ae_db env' 0) 0 = None"
  defines "coll \<equiv> get_real_collection_name name"
  shows "\<exists>config internal s given. payload = Inr config \<and> db_configs (ap_db a') coll = Some internal \<and>
    \<not> exists_collection coll (ap_db a) \<and>
    cci_collection_id internal = ae_new_collection_id env \<and>
    list_all2 (stored_vector (reported_dimension env config)) (cc_vectors config) (cci_vectors internal) \<and>
    cci_store_content internal = cc_store_content config \<and> cci_metadata_indexes internal = cc_metadata_indexes config \<and>
    map_of (db_schemas (ap_db a')) coll = Some s \<and>
    (\<forall>c \<in> set (cci_vectors internal). schema_has (cs_dense s) (cs_sparse s) c) \<and>
    cs_indexes s = (''tags'', KeywordIndex) # metadata_index_fields (unwrap_or [] (cc_metadata_indexes config)) \<and>
    get_collection_config env' name a' = Inr given \<and>
    list_all2 (given_back (reported_dimension env config)) (cc_vectors config) (cc_vectors given) \<and>
    cc_store_content given = cc_store_content config \<and> cc_metadata_indexes given = cc_metadata_indexes config \<and>
    collection_exists env' name a' = Inr True \<and>
    create_collection_handler env' name payload a' = (a', Inl (api_error 409 (''Collection '' @ quoted name @ '' already exists''))) \<and>
    get_for_search (st_cache (db_store (ap_db a'))) now coll = None"
proof -
  obtain internal where chk: "checked_new_collection env name payload a = Inr internal"
    using assms(1) by (auto simp: create_collection_handler_def split: sum.splits)
  from checked_new_collection_Inr [OF this] obtain config where p: "payload = Inr config"
    and name: "name_ok MAX_COLLECTION_NAME_LENGTH name" and valid: "validate_collection_config config = Inr ()"
    and cid: "cci_collection_id internal = ae_new_collection_id env" and vs: "list_all2 (stored_vector (reported_dimension env config)) (cc_vectors config) (cci_vectors internal)"
    and sc: "cci_store_content internal = cc_store_content config" and mi: "cci_metadata_indexes internal = cc_metadata_indexes config" .
  obtain db b where c: "create_collection (ae_db env 1) coll internal (ap_db a) = (db, Inr b)"
    and a': "a' = a\<lparr>ap_db := invalidate_cache coll db\<rparr>"
    using assms(1) chk by (auto simp: create_collection_handler_def collection_outcome_def coll_def split: sum.splits prod.splits bool.splits)
  have "distinct (map vc_name (cci_vectors internal))"
    using valid unfolding stored_names [OF vs] by (auto simp: validate_collection_config_def duplicate_names_empty Let_def split: if_splits)
  from create_collection_Inr [OF c this] obtain s where fresh: "\<not> exists_collection coll (ap_db a)"
    and made: "exists_collection meta_collection db"
      "db_configs db coll = Some internal" "map_of (db_schemas db) coll = Some s"
      "\<forall>c \<in> set (cci_vectors internal). schema_has (cs_dense s) (cs_sparse s) c"
      "cs_indexes s = (''tags'', KeywordIndex) # metadata_index_fields (unwrap_or [] (cci_metadata_indexes internal))" by auto
  have conf: "db_configs (ap_db a') coll = Some internal" and meta: "exists_collection meta_collection (ap_db a')"
    using made(1,2) by (simp_all add: a')
  note rb = read_back [OF name assms(2) meta, folded coll_def, unfolded conf]
  have "validate_collection_name name = Inr ()" using name by (simp add: accepts_iff)
  then have again: "create_collection_handler env' name payload a' =
      (a', Inl (api_error 409 (''Collection '' @ quoted name @ '' already exists'')))"
    using p valid conf meta assms(2)
    by (simp add: create_collection_handler_def checked_new_collection_def check_name_def get_collection_info_internal_def
        call_on_def coll_def)
  let ?given = "collection_config_from_internal internal"
  have given: "list_all2 (given_back (reported_dimension env config)) (cc_vectors config) (cc_vectors ?given)"
    "cc_store_content ?given = cc_store_content config" "cc_metadata_indexes ?given = cc_metadata_indexes config"
    using vs sc mi
    by (simp_all add: collection_config_from_internal_def list_all2_conv_all_nth stored_given_back)
  show ?thesis
    using p conf fresh cid vs sc mi made rb again given
    by (intro exI [of _ config] exI [of _ internal] exI [of _ s] exI [of _ ?given] conjI) (simp_all add: a' invalidated_not_served)
qed

section \<open>Where the handlers surprise\<close>

lemma sys_names_ok: "check_name env ''sys_meta'' = Inr ()" "check_name env ''sys_queue'' = Inr ()"
proof -
  have "validate_collection_name ''sys_meta'' = Inr ()" "validate_collection_name ''sys_queue'' = Inr ()"
    by (simp_all add: accepts_iff name_ok_def meta_key_char_def byte_of_def MAX_COLLECTION_NAME_LENGTH_def)
  then show "check_name env ''sys_meta'' = Inr ()" "check_name env ''sys_queue'' = Inr ()" by (simp_all add: check_name_def)
qed

text \<open>
  The system collections are reachable under the names \<open>sys_meta\<close> and \<open>sys_queue\<close>: deleting the first
  through the API removes the configuration of every collection, and the second every queue row.
\<close>

lemma system_collections_deletable:
  assumes "\<And>n. de_fail (ae_db env 0) n = None" "exists_collection meta_collection (ap_db a)" "exists_collection queue_collection (ap_db a)"
  shows "db_configs (ap_db (fst (delete_collection_handler env ''sys_meta'' a))) = Map.empty"
    "app_queue (fst (delete_collection_handler env ''sys_queue'' a)) = []"
proof -
  have names: "get_real_collection_name ''sys_meta'' = meta_collection" "get_real_collection_name ''sys_queue'' = queue_collection"
    by simp_all
  have gone: "\<not> exists_collection c (drop_collection c db)" for c db
    by (auto simp: drop_collection_def exists_collection_def map_of_filter_key drop_points_def Let_def)
  have other: "exists_collection meta_collection (drop_collection queue_collection (ap_db a))"
    using assms(2) by (simp add: drop_collection_def exists_collection_def map_of_filter_key drop_points_def Let_def
        meta_collection_def queue_collection_def sys_collection_name_def)
  show "db_configs (ap_db (fst (delete_collection_handler env ''sys_meta'' a))) = Map.empty"
    using assms(1,2) gone [of meta_collection]
    by (simp add: delete_collection_handler_def sys_names_ok names collection_outcome_def delete_collection_def client_delete_def
        delete_meta_def call_on_def) (simp add: drop_collection_def drop_points_def Let_def)
  show "app_queue (fst (delete_collection_handler env ''sys_queue'' a)) = []"
    using assms(1,3) gone [of queue_collection] other
    by (simp add: delete_collection_handler_def sys_names_ok names collection_outcome_def delete_collection_def client_delete_def
        delete_meta_def delete_queue_rows_def call_on_def exists_collection_def app_queue_def)
      (simp add: drop_collection_def drop_points_def Let_def exists_collection_def)
qed

text \<open>A bulk upload with no document is accepted by the validation and panics when a broker is configured.\<close>

lemma empty_bulk_panics:
  assumes "ap_cluster a" "name_ok MAX_COLLECTION_NAME_LENGTH name"
    "de_fail (ae_db env 0) 0 = None" "de_fail (ae_db env 1) 0 = None" "exists_collection meta_collection (ap_db a)"
    "exists_collection queue_collection (ap_db a)" "db_configs (ap_db a) (get_real_collection_name name) = Some config"
  shows "upsert_documents_bulk env name (Inr []) a = None"
proof -
  have "validate_collection_name name = Inr ()" using assms(2) by (simp add: accepts_iff)
  then have "checked_bulk env name (Inr []) a = Inr ([], config)"
    using assms by (simp add: checked_bulk_def check_name_def validate_bulk_upload_def read_config_def get_collection_info_internal_def
        call_on_def)
  then show ?thesis using assms
    by (simp add: upsert_documents_bulk_def after_upload_def upload_documents_to_queue_def add_to_queue_def call_on_def
        queue_message_def)
qed

text \<open>
  A creation that fails after the server made the collection leaves it without a configuration: it
  does not exist for the readers, and every further creation fails until it is deleted.
\<close>

lemma half_created_collection:
  assumes "db_configs (ap_db a) (get_real_collection_name name) = None" "exists_collection (get_real_collection_name name) (ap_db a)"
    "exists_collection meta_collection (ap_db a)" "de_fail (ae_db env 0) 0 = None" "name_ok MAX_COLLECTION_NAME_LENGTH name"
  shows "collection_exists env name a = Inr False" "snd (create_collection_handler env name payload a) \<noteq> Inr r"
proof -
  show "collection_exists env name a = Inr False" using read_back(2) [OF assms(5,4,3)] assms(1) by simp
  have "fst (create_collection (ae_db env 1) (get_real_collection_name name) config (ap_db a)) = ap_db a \<and>
      (\<exists>e. snd (create_collection (ae_db env 1) (get_real_collection_name name) config (ap_db a)) = Inl e)" for config
    using assms(2) by (auto simp: create_collection_def client_create_def split: sum.splits option.splits)
  then show "snd (create_collection_handler env name payload a) \<noteq> Inr r"
    by (auto simp: create_collection_handler_def collection_outcome_def split: sum.splits prod.splits bool.splits) (metis Inl_Inr_False snd_conv)+
qed

text \<open>The location of an error in a bulk upload names the document but not the field.\<close>

lemma bulk_error_location:
  "validation_error_detail_list (validation_error_str dbg (InDocument 0 (ValidationError ''description: too long''))) =
     error_item (Array [String ''body'', String ''documents[0]'']) ''description: too long''"
  by (simp add: validation_error_detail_list_def nat_str.simps char_of_def bit_0)

section \<open>Instances\<close>

definition example_database :: "(string \<rightharpoonup> collection_config_internal) \<Rightarrow> string list \<Rightarrow> database" where
  "example_database configs colls =
     \<lparr>db_schemas = map (\<lambda>c. (c, dummy_schema)) ([meta_collection, queue_collection] @ map get_real_collection_name colls),
      db_configs = configs, db_stats = Map.empty, db_store = example_store Map.empty []\<rparr>"

definition example_app :: "(string \<rightharpoonup> collection_config_internal) \<Rightarrow> string list \<Rightarrow> app" where
  "example_app configs colls = \<lparr>ap_db = example_database configs colls, ap_cluster = False, ap_talks = []\<rparr>"

definition calm_api :: api_env where
  "calm_api =
     \<lparr>ae_db = (\<lambda>_. \<lparr>de_fail = (\<lambda>_. None), de_missing = (\<lambda>c. c), de_exists = (\<lambda>c. c)\<rparr>), ae_client = plain_client, ae_debug = (\<lambda>s. s),
      ae_show_filter = (\<lambda>_. []), ae_chrono = example_chrono, ae_uuid = (\<lambda>n. replicate n (CHR ''u'')), ae_new_collection_id = ''new'',
      ae_now = 0, ae_talk_error = None, ae_withdraw_error = None, ae_embedders = example_embedders, ae_orders = plain_orders,
      ae_panicked = ''panic'', ae_points_count = (\<lambda>_. Inr (Some 0))\<rparr>"

lemma calm_api_simps [simp]:
  "de_fail (ae_db calm_api i) n = None" "ae_new_collection_id calm_api = ''new''" "ae_now calm_api = 0"
  "ae_talk_error calm_api = None" "ae_embedders calm_api = example_embedders" "ae_orders calm_api = plain_orders"
  by (simp_all add: calm_api_def)

lemma exists_collection_iff: "exists_collection c db \<longleftrightarrow> c \<in> fst ` set (db_schemas db)"
  unfolding exists_collection_def by (metis map_of_eq_None_iff)

lemma example_app_simps [simp]:
  "db_configs (ap_db (example_app configs colls)) = configs" "app_queue (example_app configs colls) = []"
  "ap_cluster (example_app configs colls) = False" "st_queue (db_store (ap_db (example_app configs colls))) = []"
  "exists_collection c (ap_db (example_app configs colls)) \<longleftrightarrow>
     c = meta_collection \<or> c = queue_collection \<or> c \<in> get_real_collection_name ` set colls"
  by (auto simp: example_app_def example_database_def app_queue_def example_store_def exists_collection_iff image_image)

lemma example_name: "validate_collection_name ''c'' = Inr ()"
  by (simp add: accepts_iff name_ok_def meta_key_char_def byte_of_def MAX_COLLECTION_NAME_LENGTH_def)

theorem rejected_requests_change_nothing_witness:
  "fst (create_collection_handler calm_api ''c'' (Inl (JsonSyntaxError ''eof'')) (example_app Map.empty [])) = example_app Map.empty []"
proof -
  obtain a' r where run: "create_collection_handler calm_api ''c'' (Inl (JsonSyntaxError ''eof'')) (example_app Map.empty []) = (a', r)"
    by fastforce
  then have "client_error r" by (auto simp: create_collection_handler_def checked_new_collection_def)
  from rejected_requests_change_nothing [OF this] run show ?thesis by simp
qed

theorem bulk_upload_enqueues_witness:
  "\<exists>a' r. upsert_documents_bulk calm_api ''c'' (Inr [example_document ''d'' 1]) (example_app [get_real_collection_name ''c'' \<mapsto> example_cached_config] [''c'']) =
       Some (a', Inr r) \<and> length (app_queue a') = 1"
proof -
  let ?a = "example_app [get_real_collection_name ''c'' \<mapsto> example_cached_config] [''c'']"
  have "fresh_uuids calm_api ?a"
    by (auto simp: fresh_uuids_def calm_api_def inj_def replicate_eq_replicate)
  note result = bulk_upload_enqueues [OF this, where name = "''c''" and payload = "Inr [example_document ''d'' 1]"]
  have doc: "normalize_document_python (example_document ''d'' 1) = example_document ''d'' 1"
    by (simp add: normalize_document_python_def example_document_def trim_plain plain_def byte_of_def)
  have "document_ok v (example_document ''d'' 1)" for v
    by (simp add: document_ok_def example_document_def name_ok_def meta_key_char_def byte_of_def fits_def chars_count_def
        is_continuation_def MAX_DOCUMENT_ID_LENGTH_def MAX_DOCUMENT_NAME_LENGTH_def)
  then have "validate_documents_from (valid_dt calm_api) 0 [example_document ''d'' 1] = Inr [example_document ''d'' 1]"
    unfolding validate_documents_from_accepts by (simp add: doc)
  moreover have "validate_document_vectors example_cached_config (example_document ''d'' 1) = Inr ()"
    by (simp add: validate_document_vectors_def example_document_def example_cached_config_def)
  ultimately have "checked_bulk calm_api ''c'' (Inr [example_document ''d'' 1]) ?a = Inr ([example_document ''d'' 1], example_cached_config)"
    by (simp add: checked_bulk_def check_name_def example_name validate_bulk_upload_def read_config_def
        get_collection_info_internal_def call_on_def MAX_BULK_UPLOAD_def)
  then have "\<exists>a' r. upsert_documents_bulk calm_api ''c'' (Inr [example_document ''d'' 1]) ?a = Some (a', Inr r)"
    by (simp add: upsert_documents_bulk_def after_upload_def upload_documents_to_queue_def add_to_queue_def call_on_def
        queue_points_upsert)
  with result show ?thesis by (auto simp: enqueued_def)
qed

theorem handlers_isolate_collections_witness:
  "db_configs (ap_db (fst (delete_collection_handler calm_api ''c'' (example_app [''other'' \<mapsto> example_cached_config] [''c''])))) ''other'' =
     Some example_cached_config"
proof -
  let ?a = "example_app [''other'' \<mapsto> example_cached_config] [''c'']"
  have "others_kept (get_real_collection_name ''c'') (ap_db ?a) (ap_db (fst (delete_collection_handler calm_api ''c'' ?a)))"
    using handlers_isolate_collections [of "''c''" ?a calm_api] by blast
  then show ?thesis by (simp add: others_kept_def get_real_collection_name_def)
qed

theorem deleted_collection_gone_witness:
  "collection_exists calm_api ''c''
     (fst (delete_collection_handler calm_api ''c'' (example_app [get_real_collection_name ''c'' \<mapsto> example_cached_config] [''c'']))) =
   Inr False"
proof -
  let ?a = "example_app [get_real_collection_name ''c'' \<mapsto> example_cached_config] [''c'']"
  have sys: "get_real_collection_name ''c'' \<noteq> meta_collection" "get_real_collection_name ''c'' \<noteq> queue_collection" by simp_all
  have "exists_collection meta_collection (drop_collection (get_real_collection_name ''c'') (ap_db ?a))"
      "exists_collection queue_collection (drop_collection (get_real_collection_name ''c'') (ap_db ?a))"
    using sys [symmetric] by (auto simp: drop_collection_def drop_points_def Let_def exists_collection_iff example_app_def example_database_def)
  then obtain a' r where run: "delete_collection_handler calm_api ''c'' ?a = (a', Inr r)"
    by (auto simp: delete_collection_handler_def check_name_def example_name collection_outcome_def delete_collection_def
        client_delete_def delete_meta_def delete_queue_rows_def call_on_def exists_collection_def)
  from deleted_collection_gone [OF run, of calm_api] run show ?thesis by simp
qed

lemma example_noop_simps:
  "vc_name (vector_config_into_internal example_noop_vector) = ''noop''" "vc_type (vector_config_into_internal example_noop_vector) = Noop"
  "vector_index_fields (vector_config_into_internal example_noop_vector) = Inr [FName]"
  "uses_templates (vector_config_into_internal example_noop_vector) = False"
  by (simp_all add: example_noop_vector_def into_internal_kept into_internal_fields default_noop_vectors_def vector_index_fields_def
      uses_templates_def)

lemma example_models:
  "\<exists>results. validate_models calm_api [vector_config_into_internal example_noop_vector] = (Some results, None)"
proof -
  let ?c = "vector_config_into_internal example_noop_vector"
  let ?q = "dummy_query (validation_options [?c])"
  have opts: "sqs_vector_options (sq_settings ?q) = [\<lparr>vso_vector_name = ''noop'', vso_weight = f64 1, vso_field = Some FName,
      vso_wmtr_trigram_weight = DEFAULT_WMTR_TRIGRAM_WEIGHT, vso_raw_score_threshold = None\<rparr>]"
      "sq_query ?q = ''x''" "sqs_custom_vectors (sq_settings ?q) = None"
    by (simp_all add: dummy_query_def validation_options_def example_noop_simps)
  have "trim ''x'' \<noteq> []" by (simp add: trim_plain plain_def byte_of_def)
  moreover have "\<not> fp_eq (f64 1) f64_zero" using f64_dyadic [of 1 0] by (simp add: fp_eq_def f64_zero_def fp_of_rat_def)
  moreover have "resolve_search_field ?c (Some FName) = Inr FName"
    by (simp add: resolve_search_field_def example_noop_simps)
  ultimately have "\<exists>r. vectorize_search_query example_embedders plain_orders ?q [?c] True = Some (Inr r)"
    by (simp add: vectorize_search_query_def vectorize_search_queries_def select_slots_def opts
      config_map_def example_noop_simps ok_or_def slot_insert_def plain_orders_def work_items_def check_item_def
      run_item_def generate_vectors_for_query_batch_def query_text_for_config_def unwrap_or_def
      sparse_model_config_query_embedding_def query_avgdls_def is_custom_tokenization_def route_embed_dispatch_def
      get_sparse_vector_def get_sparse_vector_single_def assign_sparse_def sparse_fields_def query_results_def Let_def)
  then show ?thesis by (auto simp: validate_models_def validate_models_inner_def)
qed

theorem created_collection_readable_witness:
  "\<exists>config. get_collection_config calm_api ''c'' (fst (create_collection_handler calm_api ''c'' (Inr example_noop_config) (example_app Map.empty []))) =
     Inr config"
proof -
  let ?c = "vector_config_into_internal example_noop_vector" and ?a = "example_app Map.empty []"
  obtain results where models: "validate_models calm_api [?c] = (Some results, None)" using example_models by blast
  have vs: "cc_vectors example_noop_config = [example_noop_vector]" "vc_type example_noop_vector = Noop"
    by (simp_all add: example_noop_config_def collection_config_deserialize_def example_noop_vector_def default_noop_vectors_def)
  have "\<exists>internal. checked_new_collection calm_api ''c'' (Inr example_noop_config) ?a = Inr internal \<and> cci_vectors internal = [?c]"
    by (simp add: checked_new_collection_def check_name_def example_name example_noop_valid get_collection_info_internal_def call_on_def
        vs models)
  then obtain internal where chk: "checked_new_collection calm_api ''c'' (Inr example_noop_config) ?a = Inr internal"
    and i: "cci_vectors internal = [?c]" by blast
  obtain p where vp: "vector_params (cci_vectors internal) [] [] = Inr p"
    by (simp add: i example_noop_simps is_sparse_def)
  obtain db where "create_collection (ae_db calm_api 1) (get_real_collection_name ''c'') internal (ap_db ?a) = (db, Inr True)"
    using create_collection_succeeds [OF _ _ _ vp, of "ae_db calm_api 1" "get_real_collection_name ''c''" "ap_db ?a"] by auto
  then obtain a' r where run: "create_collection_handler calm_api ''c'' (Inr example_noop_config) ?a = (a', Inr r)"
    by (simp add: create_collection_handler_def chk collection_outcome_def)
  from created_collection_readable [OF run, of calm_api] run show ?thesis by auto
qed

end
