(* ===== verification/Document_Reader.thy ===== *)
theory Document_Reader
  imports Http_Api
begin

text \<open>
  Reading stored documents: \<open>vectors_from_point_vectors\<close>, \<open>get_documents\<close>, \<open>fetch_documents\<close> and
  \<open>build_fetch_filter\<close> of \<open>src/src/qdrant.rs\<close>, and the handlers \<open>get_document\<close>, \<open>fetch_documents\<close> and
  \<open>export_documents\<close> of \<open>src/src/main.rs\<close>.

  The Qdrant server answers through \<open>read_client\<close>; \<open>scroll_pages\<close> is the documented law of its pages. A
  payload is taken as the document it deserializes to, or the error. The export loop runs until the
  server gives no further page: it is a partial function, and theorem \<open>export_complete\<close> proves that it
  ends. The body of an export is the list of its chunks before compression.
\<close>

section \<open>Points\<close>

datatype point_id = Uuid string | Num nat

datatype point_vector = DenseOutput "fp list" | SparseOutput "nat list" "fp list" | OtherOutput

record document_point =
  dp_id :: "point_id option"
  dp_payload :: "db_error + document"
  dp_vectors :: "(string, point_vector) hash_map option option"

record read_client =
  rc_scroll :: "string \<Rightarrow> qfilter option \<Rightarrow> nat \<Rightarrow> point_id option \<Rightarrow> bool \<Rightarrow>
                db_error + document_point list \<times> point_id option option"
  rc_get_points :: "string \<Rightarrow> point_id list \<Rightarrow> bool \<Rightarrow> db_error + document_point list"
  rc_uuid :: "string \<Rightarrow> string"
  rc_parse_dt :: "string \<Rightarrow> string + int"

text \<open>The named vectors that \<open>add_documents\<close> stores for a document.\<close>

definition named_vectors :: "vector_data list \<Rightarrow> (string, point_vector) hash_map" where
  "named_vectors vds =
     fold (\<lambda>vd m.
       let name = Vectorizer.field_vector_name (vd_field vd) (vd_vector_name vd) in
       if is_dense (vd_vector_type vd)
       then case vd_dense_vector vd of Some dv \<Rightarrow> AList.update name (DenseOutput dv) m | None \<Rightarrow> m
       else AList.update name (SparseOutput (unwrap_or [] (vd_sparse_indices vd)) (unwrap_or [] (vd_sparse_values vd))) m) vds []"

definition read_slot ::
    "(string, point_vector) hash_map \<Rightarrow> vector_config_internal \<Rightarrow> document_field \<Rightarrow> db_error + vector_data" where
  "read_slot named vector f =
     (let name = Vectorizer.field_vector_name f (vc_name vector) in
      and_then (ok_or (Config (''Missing stored vector '' @ quoted name)) (map_of named name)) (\<lambda>raw.
      if is_dense (vc_type vector)
      then case raw of
             DenseOutput d \<Rightarrow> Inr (mk_vector_data vector f (Some d) None None)
           | _ \<Rightarrow> Inl (Config (''Stored vector '' @ quoted name @ '' is not dense''))
      else case raw of
             SparseOutput indices vals \<Rightarrow> Inr (mk_vector_data vector f None (Some indices) (Some vals))
           | _ \<Rightarrow> Inl (Config (''Stored vector '' @ quoted name @ '' is not sparse''))))"

definition vectors_from_point_vectors ::
    "(string, point_vector) hash_map option \<Rightarrow> collection_config_internal \<Rightarrow> db_error + vector_data list" where
  "vectors_from_point_vectors point_vectors config =
     and_then (ok_or (Config ''Point has no named vectors'') point_vectors) (\<lambda>named.
     and_then (collect_result (map (\<lambda>vector.
        and_then (map_err Config (vector_index_fields vector)) (\<lambda>fs. collect_result (map (read_slot named vector) fs)))
        (cci_vectors config))) (\<lambda>vss. Inr (concat vss)))"

definition point_document :: "bool \<Rightarrow> collection_config_internal option \<Rightarrow> document_point \<Rightarrow> db_error + document" where
  "point_document with_vectors config p =
     and_then (dp_payload p) (\<lambda>doc.
     if \<not> with_vectors then Inr doc
     else and_then (ok_or (Config (''Document '' @ doc_id doc @ '' has no vectors'')) (dp_vectors p)) (\<lambda>pv.
          and_then (ok_or (Config ''collection_config is required when with_vectors is true'') config) (\<lambda>cfg.
          and_then (vectors_from_point_vectors pv cfg) (\<lambda>vs. Inr (set_doc_vectors (Some vs) doc)))))"

section \<open>One document\<close>

fun collect_points ::
    "bool \<Rightarrow> collection_config_internal option \<Rightarrow> document_point list \<Rightarrow> (string, document) hash_map \<Rightarrow>
     db_error + (string, document) hash_map" where
  "collect_points wv cfg [] m = Inr m"
| "collect_points wv cfg (p # ps) m =
     (case dp_id p of
        Some (Uuid u) \<Rightarrow> and_then (point_document wv cfg p) (\<lambda>doc. collect_points wv cfg ps (AList.update u doc m))
      | _ \<Rightarrow> collect_points wv cfg ps m)"

definition get_documents_with ::
    "read_client \<Rightarrow> string \<Rightarrow> string list \<Rightarrow> bool \<Rightarrow> bool \<Rightarrow> collection_config_internal option \<Rightarrow> db_error + document option list" where
  "get_documents_with rc coll ids suppress_not_found with_vectors cfg =
     and_then (rc_get_points rc coll (map (\<lambda>i. Uuid (rc_uuid rc i)) ids) with_vectors) (\<lambda>points.
     and_then (collect_points with_vectors cfg points []) (\<lambda>m.
       let out = take_points (rc_uuid rc) m ids;
           missing = map fst (filter (\<lambda>(i, d). d = None) (zip ids out))
       in if \<not> suppress_not_found \<and> missing \<noteq> []
          then Inl (NotFound (''Documents not found for document_ids: '' @ joined '', '' missing))
          else Inr out))"

definition get_document ::
    "api_env \<Rightarrow> read_client \<Rightarrow> (document \<Rightarrow> json) \<Rightarrow> string \<Rightarrow> string \<Rightarrow> bool \<Rightarrow> app \<Rightarrow> http_error + json" where
  "get_document env rc to_value name i with_vectors a =
     and_then (check_name env name) (\<lambda>_.
     and_then (if with_vectors
               then and_then (read_config env 0 False ''Database error'' name (ap_db a)) (\<lambda>c. Inr (Some c))
               else Inr None) (\<lambda>cfg.
     and_then (map_err (\<lambda>e. case e of
           NotFound m \<Rightarrow> api_error 404 m
         | Config m \<Rightarrow> api_error 400 m
         | e \<Rightarrow> api_error 500 (''Database error: '' @ db_error_str e))
       (get_documents_with rc (get_real_collection_name name) [i] False with_vectors cfg)) (\<lambda>rows.
     and_then (ok_or (api_error 404 (''Document '' @ quoted i @ '' not found'')) (case rows of r # _ \<Rightarrow> r | [] \<Rightarrow> None)) (\<lambda>doc.
       Inr (flatten_doc_metadata (to_value doc))))))"

section \<open>Pages\<close>

record document_fetch_request =
  fr_page_size :: nat
  fr_after :: "string option"
  fr_metadata_filter :: "metadata_filter option"
  fr_document_tags :: "string list option"
  fr_document_tags_match_all :: bool
  fr_join :: "join_field option"
  fr_with_vectors :: bool

definition default_fetch_page_size :: nat where
  "default_fetch_page_size = 100"

definition build_fetch_filter ::
    "(string \<Rightarrow> string + int) \<Rightarrow> document_fetch_request \<Rightarrow> collection_config_internal \<Rightarrow> db_error + qfilter option" where
  "build_fetch_filter parse_dt request config =
     (let conditions = tag_conditions (fr_document_tags request) (fr_document_tags_match_all request);
          tags_filter = (if conditions = [] then None else Some (Filter conditions [] []))
      in and_then (case fr_metadata_filter request of
                     None \<Rightarrow> Inr None
                   | Some mf \<Rightarrow> and_then (convert_metadata_filter parse_dt (unwrap_or [] (cci_metadata_indexes config)) mf) (\<lambda>f. Inr (Some f)))
           (\<lambda>metadata_filter.
              Inr (case (tags_filter, metadata_filter) of
                     (Some tf, Some mf) \<Rightarrow> Some (Filter [FilterCondition tf, FilterCondition mf] [] [])
                   | (Some tf, None) \<Rightarrow> Some tf
                   | (None, Some mf) \<Rightarrow> Some mf
                   | (None, None) \<Rightarrow> None)))"

fun page_after :: "point_id option \<Rightarrow> string" where
  "page_after (Some (Uuid u)) = u"
| "page_after (Some (Num n)) = nat_str n"
| "page_after None = []"

definition fetch_documents ::
    "read_client \<Rightarrow> string \<Rightarrow> document_fetch_request \<Rightarrow> collection_config_internal \<Rightarrow> db_error + document list \<times> string option" where
  "fetch_documents rc coll request config =
     and_then (build_fetch_filter (rc_parse_dt rc) request config) (\<lambda>f.
     and_then (rc_scroll rc coll f (fr_page_size request) (map_option Uuid (fr_after request)) (fr_with_vectors request)) (\<lambda>(points, next).
     and_then (collect_result (map (point_document (fr_with_vectors request) (Some config)) points)) (\<lambda>documents.
       Inr (documents, map_option page_after next))))"

definition fetch_joins ::
    "api_env \<Rightarrow> (string \<Rightarrow> fp) \<Rightarrow> (string \<Rightarrow> string) \<Rightarrow> join_env \<Rightarrow> document_fetch_request \<Rightarrow> document list \<Rightarrow> app \<Rightarrow>
     (app \<times> (http_error + document list)) option" where
  "fetch_joins env parse_f64 pest_error je request documents a =
     (case fr_join request of
        None \<Rightarrow> Some (a, Inr documents)
      | Some join \<Rightarrow>
          map_option (\<lambda>(cache, r).
            (a\<lparr>ap_db := (ap_db a)\<lparr>db_store := (db_store (ap_db a))\<lparr>st_cache := cache\<rparr>\<rparr>\<rparr>,
             map_err (search_error_response (ae_show_filter env)) r))
            (enrich_documents_with_joins parse_f64 pest_error je (\<lambda>d. d) (\<lambda>f d. f d) (st_cache (db_store (ap_db a))) documents join
               (fr_page_size request)))"

definition checked_fetch ::
    "api_env \<Rightarrow> read_client \<Rightarrow> string \<Rightarrow> json_rejection + document_fetch_request \<Rightarrow> app \<Rightarrow>
     http_error + document_fetch_request \<times> document list \<times> string option" where
  "checked_fetch env rc name payload a =
     and_then (map_err json_rejection_response payload) (\<lambda>request.
     and_then (check_name env name) (\<lambda>_.
     and_then (if fr_page_size request = 0 \<or> 1000 < fr_page_size request
               then Inl (api_error 422 ''page_size must be between 1 and 1000'') else Inr ()) (\<lambda>_.
     and_then (read_config env 0 False ''Database error'' name (ap_db a)) (\<lambda>config.
     and_then (case fr_metadata_filter request of
                 None \<Rightarrow> Inr ()
               | Some mf \<Rightarrow> map_err (\<lambda>e. api_error 400 (ae_show_filter env e)) (validate_metadata_filter (rc_parse_dt rc) config mf)) (\<lambda>_.
     and_then (map_err (\<lambda>e. case e of
           Config m \<Rightarrow> api_error 400 m
         | e \<Rightarrow> api_error 500 (''Database error: '' @ db_error_str e))
       (fetch_documents rc (get_real_collection_name name) request config)) (\<lambda>(documents, after).
       Inr (request, documents, after)))))))"

definition fetch_documents_handler ::
    "api_env \<Rightarrow> read_client \<Rightarrow> (string \<Rightarrow> fp) \<Rightarrow> (string \<Rightarrow> string) \<Rightarrow> join_env \<Rightarrow> (document \<Rightarrow> json) \<Rightarrow> string \<Rightarrow>
     json_rejection + document_fetch_request \<Rightarrow> app \<Rightarrow> (app \<times> (http_error + json list \<times> string option)) option" where
  "fetch_documents_handler env rc parse_f64 pest_error je to_value name payload a =
     (case checked_fetch env rc name payload a of
        Inl e \<Rightarrow> Some (a, Inl e)
      | Inr (request, documents, after) \<Rightarrow>
          map_option (\<lambda>(a, r). (a, and_then r (\<lambda>docs. Inr (map (\<lambda>d. flatten_doc_metadata (to_value d)) docs, after))))
            (fetch_joins env parse_f64 pest_error je request documents a))"

section \<open>Export\<close>

definition MAX_DOCUMENT_FETCH_PAGE_SIZE :: nat where
  "MAX_DOCUMENT_FETCH_PAGE_SIZE = 1000"

definition export_request :: "bool \<Rightarrow> string option \<Rightarrow> document_fetch_request" where
  "export_request with_vectors after =
     \<lparr>fr_page_size = MAX_DOCUMENT_FETCH_PAGE_SIZE, fr_after = after, fr_metadata_filter = None, fr_document_tags = None,
      fr_document_tags_match_all = False, fr_join = None, fr_with_vectors = with_vectors\<rparr>"

text \<open>\<open>print\<close> prints a JSON value; \<open>document_to_export_json\<close> fails when \<open>to_value\<close> or \<open>print\<close> does.\<close>

definition document_to_export_json :: "(document \<Rightarrow> json option) \<Rightarrow> (json \<Rightarrow> string option) \<Rightarrow> document \<Rightarrow> string option" where
  "document_to_export_json to_value print doc =
     Option.bind (to_value doc) (\<lambda>v. print (strip_null_json_fields (flatten_doc_metadata v)))"

text \<open>The chunks of one page, and whether no document was sent yet; a document that cannot be printed ends the page.\<close>

fun export_page :: "(document \<Rightarrow> string option) \<Rightarrow> bool \<Rightarrow> document list \<Rightarrow> string list \<times> bool" where
  "export_page to_json first [] = ([], first)"
| "export_page to_json first (doc # docs) =
     (case to_json doc of
        None \<Rightarrow> ([], first)
      | Some text \<Rightarrow>
          (case export_page to_json False docs of
             (out, first') \<Rightarrow> ((if first then text else CHR '','' # text) # out, first')))"

text \<open>The \<open>n\<close>-th page is asked of the server as it is then, \<open>rcs n\<close>.\<close>

partial_function (option) export_loop ::
    "(nat \<Rightarrow> read_client) \<Rightarrow> string \<Rightarrow> collection_config_internal \<Rightarrow> bool \<Rightarrow> (document \<Rightarrow> string option) \<Rightarrow> nat \<Rightarrow> bool \<Rightarrow>
     string option \<Rightarrow> string list option" where
  "export_loop rcs coll config with_vectors to_json n first after =
     (case fetch_documents (rcs n) coll (export_request with_vectors after) config of
        Inl _ \<Rightarrow> Some []
      | Inr (documents, next) \<Rightarrow>
          (case export_page to_json first documents of
             (out, first') \<Rightarrow>
               if next = None then Some out
               else Option.bind (export_loop rcs coll config with_vectors to_json (Suc n) first' next)
                      (\<lambda>rest. Some (out @ rest))))"

text \<open>
  The answer is the name of the file and the text of the body; no text when the loop does not end. A
  valid collection name can always stand in the header.
\<close>

definition export_documents ::
    "api_env \<Rightarrow> (nat \<Rightarrow> read_client) \<Rightarrow> (document \<Rightarrow> string option) \<Rightarrow> string \<Rightarrow> string \<Rightarrow> bool \<Rightarrow> app \<Rightarrow>
     http_error + string \<times> string option" where
  "export_documents env rcs to_json timestamp name with_vectors a =
     and_then (check_name env name) (\<lambda>_.
     and_then (read_config env 0 False ''Failed to get collection config'' name (ap_db a)) (\<lambda>config.
       let coll = get_real_collection_name name in
       Inr (get_user_collection_name coll @ ''-'' @ timestamp @ ''.json.gz'',
            map_option (\<lambda>out. concat ([''[''] @ out @ ['']'']))
              (export_loop rcs coll config with_vectors to_json 0 True None))))"

section \<open>Stored vectors are read back\<close>

text \<open>
  The vectors of a document that was stored: one for every slot of every configured vector, of its
  type, with the parts that a vector of that type has.
\<close>

definition vector_parts :: "vector_data \<Rightarrow> bool" where
  "vector_parts vd \<longleftrightarrow>
     (if is_dense (vd_vector_type vd)
      then vd_dense_vector vd \<noteq> None \<and> vd_sparse_indices vd = None \<and> vd_sparse_values vd = None
      else vd_dense_vector vd = None \<and> vd_sparse_indices vd \<noteq> None \<and> vd_sparse_values vd \<noteq> None)"

definition config_slots :: "collection_config_internal \<Rightarrow> (string \<times> document_field) list" where
  "config_slots config = concat (map (\<lambda>c. map (Pair (vc_name c)) (slots_of c)) (cci_vectors config))"

definition vectors_fit :: "collection_config_internal \<Rightarrow> vector_data list \<Rightarrow> bool" where
  "vectors_fit config vds \<longleftrightarrow>
     distinct (map vd_key vds) \<and> mset (map vd_key vds) = mset (config_slots config) \<and>
     (\<forall>vd \<in> set vds. vector_parts vd \<and>
        (\<forall>c \<in> set (cci_vectors config). vc_name c = vd_vector_name vd \<longrightarrow> vc_type c = vd_vector_type vd))"

definition output_of :: "vector_data \<Rightarrow> point_vector" where
  "output_of vd =
     (if is_dense (vd_vector_type vd) then DenseOutput (the (vd_dense_vector vd))
      else SparseOutput (the (vd_sparse_indices vd)) (the (vd_sparse_values vd)))"

lemma named_vectors_get:
  assumes "\<forall>vd \<in> set vds. vector_parts vd" "distinct (map vd_key vds)" "vd \<in> set vds"
  shows "map_of (named_vectors vds) (Vectorizer.field_vector_name (vd_field vd) (vd_vector_name vd)) = Some (output_of vd)"
proof -
  let ?name = "\<lambda>vd. Vectorizer.field_vector_name (vd_field vd) (vd_vector_name vd)"
  have step: "named_vectors vds = fold (\<lambda>vd. AList.update (?name vd) (output_of vd)) vds []"
    unfolding named_vectors_def using assms(1)
    by (intro fold_cong) (auto simp: vector_parts_def output_of_def Let_def split: if_splits)
  have "map_of (fold (\<lambda>vd. AList.update (?name vd) (output_of vd)) vds m) (?name vd) = Some (output_of vd)" for m
    using assms(2,3)
  proof (induction vds arbitrary: m)
    case (Cons w vds)
    show ?case
    proof (cases "vd \<in> set vds")
      case False
      then have eq: "vd = w" using Cons.prems by simp
      have "\<forall>x \<in> set vds. ?name x \<noteq> ?name vd" using Cons.prems(1) eq by (auto simp: field_vector_name_inj image_iff)
      then have "map_of (fold (\<lambda>vd. AList.update (?name vd) (output_of vd)) vds m') (?name vd) = map_of m' (?name vd)" for m'
        by (induction vds arbitrary: m') (auto simp: update_conv')
      then show ?thesis by (simp add: eq update_conv')
    qed (use Cons in simp)
  qed simp
  then show ?thesis by (simp add: step)
qed

lemma read_slot_stored:
  assumes "vectors_fit config vds" "c \<in> set (cci_vectors config)" "vd \<in> set vds" "vd_key vd = (vc_name c, f)"
  shows "read_slot (named_vectors vds) c f = Inr vd"
proof -
  have fit: "vector_parts vd" "vc_type c = vd_vector_type vd" using assms by (auto simp: vectors_fit_def)
  have "map_of (named_vectors vds) (Vectorizer.field_vector_name f (vc_name c)) = Some (output_of vd)"
    using named_vectors_get [of vds vd] assms by (auto simp: vectors_fit_def)
  then show ?thesis using fit assms(4)
    by (cases vd) (auto simp: read_slot_def output_of_def mk_vector_data_def vector_parts_def)
qed

lemma collect_result_map: "\<forall>p \<in> set ps. f p = Inr (g p) \<Longrightarrow> collect_result (map f ps) = Inr (map g ps)"
  by (simp add: collect_result_eq_Inr)

text \<open>
  C36: the vectors of a stored document can be read back: reading never fails, and gives exactly the
  vectors that were stored, whatever the order in which the configuration lists their slots.
\<close>

theorem stored_vectors_readable:
  assumes "vectors_fit config vds" "\<forall>c \<in> set (cci_vectors config). is_ok (vector_index_fields c)"
  shows "\<exists>vs. vectors_from_point_vectors (Some (named_vectors vds)) config = Inr vs \<and> mset vs = mset vds \<and>
    map vd_key vs = config_slots config"
proof -
  define vec where "vec k = the (map_of (map (\<lambda>vd. (vd_key vd, vd)) vds) k)" for k
  have vec: "vec (vd_key vd) = vd" if "vd \<in> set vds" for vd
    using assms(1) that by (auto simp: vec_def vectors_fit_def o_def intro!: map_of_is_SomeI [THEN arg_cong, of _ _ _ the, simplified])
  have keys: "set (map vd_key vds) = set (config_slots config)"
    using assms(1) by (metis vectors_fit_def mset_eq_setD)
  have slot: "read_slot (named_vectors vds) c f = Inr (vec (vc_name c, f)) \<and> vd_key (vec (vc_name c, f)) = (vc_name c, f)"
    if c: "c \<in> set (cci_vectors config)" and f: "f \<in> set (slots_of c)" for c f
  proof -
    have "(vc_name c, f) \<in> set (map vd_key vds)" using that unfolding keys by (auto simp: config_slots_def)
    then obtain vd where vd: "vd \<in> set vds" "vd_key vd = (vc_name c, f)" by auto
    then show ?thesis using read_slot_stored [OF assms(1) c vd] vec [OF vd(1)] by simp
  qed
  let ?vss = "map (\<lambda>c. map (\<lambda>f. vec (vc_name c, f)) (slots_of c)) (cci_vectors config)"
  have one: "and_then (map_err Config (vector_index_fields c)) (\<lambda>fs. collect_result (map (read_slot (named_vectors vds) c) fs)) =
      Inr (map (\<lambda>f. vec (vc_name c, f)) (slots_of c))" if c: "c \<in> set (cci_vectors config)" for c
  proof -
    obtain fs where fs: "vector_index_fields c = Inr fs" using assms(2) c by (cases "vector_index_fields c") (auto simp: is_ok_def)
    then have "slots_of c = fs" by (simp add: slots_of_def)
    then show ?thesis using slot [OF c] fs by (auto simp: collect_result_eq_Inr)
  qed
  have run: "vectors_from_point_vectors (Some (named_vectors vds)) config = Inr (concat ?vss)"
    using collect_result_map [of "cci_vectors config", OF ballI, OF one] by (simp add: vectors_from_point_vectors_def)
  have conc: "concat ?vss = map vec (config_slots config)" by (simp add: config_slots_def map_concat o_def)
  have "map vd_key (map vec (config_slots config)) = config_slots config"
    using slot by (auto simp: config_slots_def intro!: map_idI)
  moreover have "mset (map vec (config_slots config)) = mset vds"
  proof -
    have "mset (map vec (config_slots config)) = image_mset vec (mset (map vd_key vds))"
      using assms(1) by (simp add: vectors_fit_def)
    also have "\<dots> = mset (map (\<lambda>vd. vec (vd_key vd)) vds)" by (simp add: multiset.map_comp o_def)
    also have "map (\<lambda>vd. vec (vd_key vd)) vds = vds" using vec by (simp add: map_idI)
    finally show ?thesis .
  qed
  ultimately show ?thesis using run conc by auto
qed

section \<open>Pages cover the collection\<close>

text \<open>
  The documented pages of the server: the points from the offset on that the filter selects, in the
  order of their ids, cut at the limit, and the id of the next such point if there is one.
\<close>

definition from_offset :: "point_id option \<Rightarrow> document_point list \<Rightarrow> document_point list" where
  "from_offset off points = (case off of None \<Rightarrow> points | Some i \<Rightarrow> dropWhile (\<lambda>p. dp_id p \<noteq> Some i) points)"

definition scroll_pages :: "(qfilter \<Rightarrow> document_point \<Rightarrow> bool) \<Rightarrow> document_point list \<Rightarrow> read_client \<Rightarrow> string \<Rightarrow> bool" where
  "scroll_pages sel points rc coll \<longleftrightarrow>
     (\<forall>f limit off wv page next. rc_scroll rc coll f limit off wv = Inr (page, next) \<longrightarrow>
        (let rest = filter (\<lambda>p. case f of None \<Rightarrow> True | Some q \<Rightarrow> sel q p) (from_offset off points)
         in page = take limit rest \<and> next = (case drop limit rest of [] \<Rightarrow> None | p # _ \<Rightarrow> Some (dp_id p))))"

definition uuid_points :: "document_point list \<Rightarrow> bool" where
  "uuid_points points \<longleftrightarrow> distinct (map dp_id points) \<and> (\<forall>p \<in> set points. \<exists>u. dp_id p = Some (Uuid u))"

lemma from_offset_suffix:
  assumes "distinct (map dp_id points)" "suffix (p # rest) points" "dp_id p = Some i"
  shows "from_offset (Some i) points = p # rest"
proof -
  obtain xs where xs: "points = xs @ p # rest" using assms(2) by (auto simp: suffix_def)
  have "\<forall>q \<in> set xs. dp_id q \<noteq> Some i" using assms(1,3) by (auto simp: xs image_iff)
  then show ?thesis using assms(3) by (simp add: from_offset_def xs dropWhile_append2)
qed

lemma export_request_simps [simp]:
  "build_fetch_filter parse_dt (export_request wv after) config = Inr None"
  "fr_page_size (export_request wv after) = MAX_DOCUMENT_FETCH_PAGE_SIZE" "fr_after (export_request wv after) = after"
  "fr_with_vectors (export_request wv after) = wv"
  by (simp_all add: build_fetch_filter_def export_request_def tag_conditions_def)

text \<open>The filter of a page is the filter of a search with the same tags and metadata filter.\<close>

lemma fetch_filter_is_search_filter:
  assumes "sqs_document_tags settings = fr_document_tags request" "sqs_document_tags_match_all settings = fr_document_tags_match_all request"
    "sqs_metadata_filter settings = fr_metadata_filter request"
  shows "build_fetch_filter parse_dt request config =
    build_search_filter parse_dt (unwrap_or [] (cci_metadata_indexes config)) settings"
  using assms by (simp add: build_fetch_filter_def build_search_filter_def)

text \<open>The chunks of printed documents: a comma before each but the first of all.\<close>

definition separated :: "bool \<Rightarrow> string list \<Rightarrow> string list" where
  "separated first texts =
     (case texts of [] \<Rightarrow> [] | t # ts \<Rightarrow> (if first then t else CHR '','' # t) # map ((#) (CHR '','')) ts)"

lemma separated_append: "separated first (xs @ ys) = separated first xs @ separated (first \<and> xs = []) ys"
  by (auto simp: separated_def split: list.split)

lemma export_page_all:
  assumes "\<forall>d \<in> set docs. to_json d = Some (text d)"
  shows "export_page to_json first docs = (separated first (map text docs), first \<and> docs = [])"
  using assms
proof (induction docs arbitrary: first)
  case (Cons d docs)
  then show ?case by (auto simp: separated_def split: list.split)
qed (simp add: separated_def)

lemma export_loop_rest:
  assumes pages: "\<And>n. scroll_pages sel points (rcs n) coll" "uuid_points points"
    and up: "\<And>n off. is_ok (rc_scroll (rcs n) coll None MAX_DOCUMENT_FETCH_PAGE_SIZE off wv)"
    and docs: "\<forall>p \<in> set points. point_document wv (Some config) p = Inr (doc p) \<and> to_json (doc p) = Some (text (doc p))"
    and rest: "suffix rest points" "from_offset (map_option Uuid after) points = rest"
  shows "export_loop rcs coll config wv to_json n first after = Some (separated first (map (\<lambda>p. text (doc p)) rest))"
  using rest
proof (induction "length rest" arbitrary: rest after n first rule: less_induct)
  case less
  let ?L = MAX_DOCUMENT_FETCH_PAGE_SIZE
  obtain page nxt where scroll: "rc_scroll (rcs n) coll None ?L (map_option Uuid after) wv = Inr (page, nxt)"
    using up [of n "map_option Uuid after"] by (auto simp: is_ok_def split: sum.splits)
  have page: "page = take ?L rest" and nxt: "nxt = (case drop ?L rest of [] \<Rightarrow> None | p # _ \<Rightarrow> Some (dp_id p))"
    using pages(1) [of n, unfolded scroll_pages_def, rule_format, OF scroll] less.prems(2) by (simp_all add: Let_def)
  have sub: "set page \<subseteq> set points" using less.prems(1) set_take_subset [of ?L rest] by (auto simp: page suffix_def)
  have fetch: "fetch_documents (rcs n) coll (export_request wv after) config = Inr (map doc page, map_option page_after nxt)"
    using scroll collect_result_map [of page "point_document wv (Some config)" doc] docs sub by (auto simp: fetch_documents_def)
  have out: "export_page to_json first (map doc page) = (separated first (map (\<lambda>p. text (doc p)) page), first \<and> page = [])"
    using export_page_all [of "map doc page" to_json "text" first] docs sub by (auto simp: o_def)
  show ?case
  proof (cases "drop ?L rest")
    case Nil
    then have "page = rest" by (simp add: page)
    then show ?thesis using fetch out nxt Nil by (subst export_loop.simps) simp
  next
    case (Cons p ps)
    have split: "rest = page @ p # ps" using Cons page by (metis append_take_drop_id)
    have suf: "suffix (p # ps) points" using less.prems(1) split by (metis suffix_appendD suffix_def append.assoc)
    then have "p \<in> set points" by (auto simp: suffix_def)
    then obtain u where u: "dp_id p = Some (Uuid u)" using pages(2) by (auto simp: uuid_points_def)
    have "from_offset (Some (Uuid u)) points = p # ps"
      using from_offset_suffix [OF _ suf u] pages(2) by (simp add: uuid_points_def)
    moreover have "page \<noteq> []" using Cons by (auto simp: page MAX_DOCUMENT_FETCH_PAGE_SIZE_def)
    moreover from this have "length (p # ps) < length rest" by (simp add: split)
    ultimately have "export_loop rcs coll config wv to_json (Suc n) (first \<and> page = []) (Some u) =
        Some (separated (first \<and> page = []) (map (\<lambda>p. text (doc p)) (p # ps)))"
      using less.hyps [of "p # ps" "Some u" "Suc n" "first \<and> page = []"] suf by simp
    then show ?thesis using fetch out nxt Cons u by (subst export_loop.simps) (simp add: split separated_append)
  qed
qed

lemma joined_separated: "concat (separated True texts) = joined '','' texts"
proof (cases texts)
  case (Cons t ts)
  have "concat (map ((#) (CHR '','')) ts) = concat (map ((@) '','') ts)" by (induction ts) simp_all
  then show ?thesis by (simp add: Cons separated_def joined_def)
qed (simp add: separated_def joined_def)

text \<open>
  C37: an export of a collection that does not change while it runs ends and is complete: whatever the
  number of pages, the body is the JSON array of all documents of the collection, each once, in the
  order of the server.
\<close>

theorem export_complete:
  assumes "\<forall>n. scroll_pages sel points (rcs n) (get_real_collection_name name)" "uuid_points points"
    and "\<forall>n off. is_ok (rc_scroll (rcs n) (get_real_collection_name name) None MAX_DOCUMENT_FETCH_PAGE_SIZE off wv)"
    and "\<forall>p \<in> set points. point_document wv (Some config) p = Inr (doc p) \<and> to_json (doc p) = Some (text (doc p))"
    and "check_name env name = Inr ()" "read_config env 0 False ''Failed to get collection config'' name (ap_db a) = Inr config"
  shows "\<exists>file. export_documents env rcs to_json timestamp name wv a =
    Inr (file, Some (''['' @ joined '','' (map (\<lambda>p. text (doc p)) points) @ '']''))"
proof -
  have "export_loop rcs (get_real_collection_name name) config wv to_json 0 True None =
      Some (separated True (map (\<lambda>p. text (doc p)) points))"
    by (rule export_loop_rest [where sel = sel and points = points]) (use assms in \<open>simp_all add: from_offset_def\<close>)
  then show ?thesis using assms(5,6) by (simp add: export_documents_def Let_def joined_separated)
qed

text \<open>A page that cannot be read ends the export silently: the answer is 200 with the documents so far.\<close>

lemma export_truncated_silently:
  assumes "rc_scroll (rcs 0) (get_real_collection_name name) None MAX_DOCUMENT_FETCH_PAGE_SIZE None wv = Inl e"
    "check_name env name = Inr ()" "read_config env 0 False ''Failed to get collection config'' name (ap_db a) = Inr config"
  shows "\<exists>file. export_documents env rcs to_json timestamp name wv a = Inr (file, Some ''[]'')"
  using assms by (simp add: export_documents_def Let_def export_loop.simps fetch_documents_def)

section \<open>Instances\<close>

definition example_stored_point :: "string \<Rightarrow> document_point" where
  "example_stored_point i =
     \<lparr>dp_id = Some (Uuid i), dp_payload = Inr (example_document i 1),
      dp_vectors = Some (Some (named_vectors [mk_vector_data example_vector_config FName None (Some []) (Some [])]))\<rparr>"

definition paging_client :: "document_point list \<Rightarrow> read_client" where
  "paging_client points =
     \<lparr>rc_scroll = (\<lambda>coll f limit off wv.
        let rest = filter (\<lambda>p. case f of None \<Rightarrow> True | Some q \<Rightarrow> True) (from_offset off points)
        in Inr (take limit rest, case drop limit rest of [] \<Rightarrow> None | p # _ \<Rightarrow> Some (dp_id p))),
      rc_get_points = (\<lambda>coll ids wv. Inr (filter (\<lambda>p. dp_id p \<in> Some ` set ids) points)),
      rc_uuid = (\<lambda>i. i), rc_parse_dt = (\<lambda>_. Inl ''x'')\<rparr>"

lemma paging_client_ok:
  "scroll_pages (\<lambda>_ _. True) points (paging_client points) coll"
  "is_ok (rc_scroll (paging_client points) coll f limit off wv)"
  by (auto simp: scroll_pages_def paging_client_def Let_def is_ok_def)

theorem export_complete_witness:
  "\<exists>file. export_documents calm_api (\<lambda>_. paging_client [example_stored_point ''a'', example_stored_point ''b'']) (\<lambda>d. Some (doc_id d)) ''t'' ''c''
     False (example_app [get_real_collection_name ''c'' \<mapsto> example_cached_config] [''c'']) = Inr (file, Some ''[a,b]'')"
proof -
  let ?ps = "[example_stored_point ''a'', example_stored_point ''b'']"
  define a where "a = example_app [get_real_collection_name ''c'' \<mapsto> example_cached_config] [''c'']"
  have "check_name calm_api ''c'' = Inr ()" by (simp add: check_name_def example_name)
  moreover have "read_config calm_api 0 False ''Failed to get collection config'' ''c'' (ap_db a) = Inr example_cached_config"
    by (simp add: a_def read_config_def get_collection_info_internal_def call_on_def)
  moreover have "uuid_points ?ps" by (simp add: uuid_points_def example_stored_point_def)
  moreover have "\<forall>p \<in> set ?ps. point_document False (Some example_cached_config) p =
        Inr (example_document (case dp_id p of Some (Uuid u) \<Rightarrow> u | _ \<Rightarrow> []) 1) \<and>
      Some (doc_id (example_document (case dp_id p of Some (Uuid u) \<Rightarrow> u | _ \<Rightarrow> []) 1)) =
        Some (doc_id (example_document (case dp_id p of Some (Uuid u) \<Rightarrow> u | _ \<Rightarrow> []) 1))"
    by (simp add: point_document_def example_stored_point_def)
  ultimately have "\<exists>file. export_documents calm_api (\<lambda>_. paging_client ?ps) (\<lambda>d. Some (doc_id d)) ''t'' ''c'' False a =
      Inr (file, Some (''['' @ joined '','' (map (\<lambda>p. doc_id (example_document (case dp_id p of Some (Uuid u) \<Rightarrow> u | _ \<Rightarrow> []) 1)) ?ps) @ '']''))"
    using paging_client_ok by (intro export_complete [where sel = "\<lambda>_ _. True"]) auto
  then show ?thesis unfolding a_def by (simp add: joined_def example_stored_point_def example_document_def)
qed

theorem stored_vectors_readable_witness:
  "\<exists>vs. vectors_from_point_vectors (Some (named_vectors [mk_vector_data example_vector_config FName None (Some [3]) (Some [f64 1])]))
     (example_config\<lparr>cci_vectors := [example_vector_config]\<rparr>) = Inr vs \<and> length vs = 1"
proof -
  let ?vds = "[mk_vector_data example_vector_config FName None (Some [3]) (Some [f64 1])]"
  let ?c = "example_config\<lparr>cci_vectors := [example_vector_config]\<rparr>"
  have "vectors_fit ?c ?vds"
    by (simp add: vectors_fit_def config_slots_def slots_of_def example_vector_config_simps mk_vector_data_def vector_parts_def)
  moreover have "\<forall>c \<in> set (cci_vectors ?c). is_ok (vector_index_fields c)" by (simp add: example_vector_config_simps)
  ultimately obtain vs where "vectors_from_point_vectors (Some (named_vectors ?vds)) ?c = Inr vs" "mset vs = mset ?vds"
    using stored_vectors_readable by blast
  then show ?thesis by (metis size_mset size_single length_Cons list.size(3) One_nat_def)
qed

end
