(* ===== verification/Bunny_Talk.thy ===== *)
theory Bunny_Talk
  imports Models
begin

text \<open>
  The client of the message broker, \<open>src/src/bunny_talk.rs\<close>: the address, the attempts to connect, the
  bodies of messages, and remote calls with their replies. The AMQP library is not modelled: what it
  answers are the events of a step relation, one for each region of the code between two awaits, so
  every order of calls, confirmations, replies, acknowledgements, timeouts and closings is a run.
\<close>

section \<open>Connecting\<close>

definition split_once :: "char \<Rightarrow> string \<Rightarrow> (string \<times> string) option" where
  "split_once c s = (if c \<in> set s then Some (takeWhile (\<lambda>x. x \<noteq> c) s, drop 1 (dropWhile (\<lambda>x. x \<noteq> c) s)) else None)"

definition trim_end_matches :: "char \<Rightarrow> string \<Rightarrow> string" where
  "trim_end_matches c s = rev (dropWhile (\<lambda>x. x = c) (rev s))"

text \<open>What follows the last occurrence of a character.\<close>

definition after_last :: "char \<Rightarrow> string \<Rightarrow> string option" where
  "after_last c s = (if c \<in> set s then Some (rev (takeWhile (\<lambda>x. x \<noteq> c) (rev s))) else None)"

definition normalize_amqp_vhost :: "string \<Rightarrow> string" where
  "normalize_amqp_vhost url =
     (let (base, query) = (case split_once (CHR ''?'') url of Some (b, q) \<Rightarrow> (b, Some q) | None \<Rightarrow> (url, None))
      in case after_last (CHR ''@'') base of
           None \<Rightarrow> url
         | Some host_and_path \<Rightarrow>
             if host_and_path \<noteq> [] \<and> last host_and_path = CHR ''/'' \<and> CHR ''/'' \<notin> set (butlast host_and_path)
             then let fixed_base = trim_end_matches (CHR ''/'') base @ ''/%2f''
                  in case query of Some q \<Rightarrow> fixed_base @ ''?'' @ q | None \<Rightarrow> fixed_base
             else url)"

definition HEARTBEAT_SECONDS :: nat where "HEARTBEAT_SECONDS = 35"
definition MAX_RETRIES :: nat where "MAX_RETRIES = 10"
definition RETRY_DELAY_SECONDS :: nat where "RETRY_DELAY_SECONDS = 5"
definition CONNECT_ATTEMPT_TIMEOUT_SECONDS :: nat where "CONNECT_ATTEMPT_TIMEOUT_SECONDS = 10"
definition SETUP_TIMEOUT_SECONDS :: nat where "SETUP_TIMEOUT_SECONDS = 30"
definition RPC_TIMEOUT_SECONDS :: nat where "RPC_TIMEOUT_SECONDS = 60"

definition url_with_heartbeat :: "string \<Rightarrow> string" where
  "url_with_heartbeat url =
     (let url = normalize_amqp_vhost url in
      url @ (if CHR ''?'' \<in> set url then ''&'' else ''?'') @ ''heartbeat='' @ nat_str HEARTBEAT_SECONDS)"

text \<open>What comes of one attempt: connecting, and then setting up the client.\<close>

datatype 'b attempt =
    ConnectError string
  | ConnectTimeout
  | SetupError string
  | SetupTimeout
  | Connected 'b

fun attempt_result :: "'b attempt \<Rightarrow> string + 'b" where
  "attempt_result (Connected b) = Inr b"
| "attempt_result (ConnectError e) = Inl e"
| "attempt_result ConnectTimeout =
     Inl (''RabbitMQ connect timed out after '' @ nat_str CONNECT_ATTEMPT_TIMEOUT_SECONDS @ '' seconds'')"
| "attempt_result (SetupError e) = Inl e"
| "attempt_result SetupTimeout = Inl (''RabbitMQ setup timed out after '' @ nat_str SETUP_TIMEOUT_SECONDS @ '' seconds'')"

text \<open>The attempts from number \<open>n\<close> on, and how long is waited in all between them.\<close>

function connect_from :: "(nat \<Rightarrow> 'b attempt) \<Rightarrow> nat \<Rightarrow> string \<Rightarrow> nat \<times> (string + 'b)" where
  "connect_from attempts n last_err =
     (if MAX_RETRIES < n
      then (0, Inl (''Failed to connect to RabbitMQ after '' @ nat_str MAX_RETRIES @ '' attempts: '' @ last_err))
      else case attempt_result (attempts n) of
             Inr b \<Rightarrow> (0, Inr b)
           | Inl e \<Rightarrow>
               (case connect_from attempts (Suc n) e of
                  (waited, r) \<Rightarrow> ((if n < MAX_RETRIES then RETRY_DELAY_SECONDS else 0) + waited, r)))"
  by pat_completeness auto
termination by (relation "measure (\<lambda>(_, n, _). Suc MAX_RETRIES - n)") auto

declare connect_from.simps [simp del]

definition create :: "(nat \<Rightarrow> 'b attempt) \<Rightarrow> nat \<times> (string + 'b)" where
  "create attempts = connect_from attempts 1 []"

section \<open>Messages\<close>

definition message_body :: "json \<Rightarrow> json" where
  "message_body kwargs = Object [(''args'', Array []), (''kwargs'', kwargs)]"

text \<open>The trace of a call: its identifier and a chain of one entry.\<close>

definition build_trace :: "string \<Rightarrow> string \<Rightarrow> string \<Rightarrow> string \<Rightarrow> string \<Rightarrow> string \<Rightarrow> string \<times> json" where
  "build_trace trace_id call_id host timestamp routing_key meth =
     (trace_id,
      Array [Object [(''call_id'', String call_id), (''function'', String (''amgix->'' @ meth @ ''->'' @ routing_key)),
                     (''hostname'', String host), (''timestamp'', String timestamp)]])"

definition trace_headers :: "(json \<Rightarrow> string) \<Rightarrow> string \<Rightarrow> json \<Rightarrow> json \<Rightarrow> (string \<times> string) list" where
  "trace_headers print trace_id trace_chain trace_meta =
     [(''amgix_trace_id'', trace_id), (''amgix_trace_chain'', print trace_chain), (''amgix_trace_meta'', print trace_meta)]"

definition expiration_ms :: "nat \<Rightarrow> string" where
  "expiration_ms timeout_secs = nat_str ((timeout_secs + 5) * 1000)"

record rpc_response =
  rr_success :: bool
  rr_result :: "json option"
  rr_error :: "string option"
  rr_error_type :: "string option"
  rr_result_type :: "string option"

text \<open>\<open>parse\<close> reads JSON text; \<open>decode\<close> is the derived deserializer of a response.\<close>

definition parse_rpc_reply :: "(string \<Rightarrow> string + json) \<Rightarrow> (json \<Rightarrow> string + rpc_response) \<Rightarrow> string \<Rightarrow> string + rpc_response" where
  "parse_rpc_reply parse decode data =
     and_then (map_err (\<lambda>e. ''Invalid RPC reply JSON: '' @ e) (parse data)) (\<lambda>payload.
     and_then (ok_or ''RPC reply missing kwargs.response''
       (Option.bind (json_key payload ''kwargs'') (\<lambda>k. json_key k ''response''))) (\<lambda>response_val.
       map_err (\<lambda>e. ''Failed to parse RpcResponse: '' @ e) (decode response_val)))"

section \<open>Remote calls\<close>

text \<open>
  A call: its correlation id and routing key, where it is, and its channel. The channel is open, holds
  what was sent into it, or has lost its sender. A call that failed first waits for the lock of the
  pending calls, then removes its entry and returns; the future of a call may also be dropped.
\<close>

datatype rpc_phase = Publishing | Confirming | Awaiting | Failing string | Returned "string + rpc_response" | Abandoned

datatype rpc_channel = Open | Sent "string + rpc_response" | SenderDropped

record rpc_call =
  rc_correlation_id :: string
  rc_routing_key :: string
  rc_timeout :: nat
  rc_phase :: rpc_phase
  rc_slot :: rpc_channel

text \<open>
  The pending calls by correlation id; the replies that have taken their entry and are being
  acknowledged, each with its call; the calls of \<open>close\<close> that are past their check; and, for the
  properties only, every reply that found its call.
\<close>

record bunny =
  bt_pending :: "(string, nat) hash_map"
  bt_calls :: "rpc_call list"
  bt_acking :: "(nat \<times> (string + rpc_response)) list"
  bt_closing :: nat
  bt_replies :: "(string \<times> (string + rpc_response)) list"

datatype rpc_event =
    Rpc string string nat
  | PublishFailed nat string
  | PublishSent nat
  | ConfirmFailed nat string
  | Confirmed nat
  | Reply "string option" string
  | ReplyAcked nat
  | ReplyLost nat
  | Received nat
  | ChannelClosed nat
  | TimedOut nat
  | Removed nat
  | Dropped nat
  | CloseCalled bool
  | CloseDrains

definition set_call :: "nat \<Rightarrow> (rpc_call \<Rightarrow> rpc_call) \<Rightarrow> bunny \<Rightarrow> bunny" where
  "set_call i f b = b\<lparr>bt_calls := (bt_calls b)[i := f (bt_calls b ! i)]\<rparr>"

definition set_call_phase :: "nat \<Rightarrow> rpc_phase \<Rightarrow> bunny \<Rightarrow> bunny" where
  "set_call_phase i ph b = set_call i (\<lambda>c. c\<lparr>rc_phase := ph\<rparr>) b"

definition forget :: "nat \<Rightarrow> bunny \<Rightarrow> bunny" where
  "forget i b = b\<lparr>bt_pending := AList.delete (rc_correlation_id (bt_calls b ! i)) (bt_pending b)\<rparr>"

definition in_phase :: "nat \<Rightarrow> rpc_phase \<Rightarrow> bunny \<Rightarrow> bool" where
  "in_phase i ph b \<longleftrightarrow> i < length (bt_calls b) \<and> rc_phase (bt_calls b ! i) = ph"

definition timed_out :: "rpc_call \<Rightarrow> string" where
  "timed_out c = ''RPC call to '' @ quoted (rc_routing_key c) @ '' timed out after '' @ nat_str (rc_timeout c) @ '' seconds''"

definition channel_closed :: "rpc_call \<Rightarrow> string" where
  "channel_closed c = ''RPC channel closed for routing_key='' @ rc_routing_key c"

text \<open>
  One step for each region of the code between two awaits. \<open>Reply\<close> takes the entry of its correlation id
  out of the pending calls, and \<open>ReplyAcked\<close>, after the acknowledgement, sends the response into the
  channel of the call; \<open>ReplyLost\<close> is the end of the handler in between, which drops the sender. A timeout
  fires only while nothing has come into the channel. \<open>CloseDrains\<close> sends an error to all pending calls.
\<close>

fun bunny_step :: "(string \<Rightarrow> string + rpc_response) \<Rightarrow> rpc_event \<Rightarrow> bunny \<Rightarrow> bunny option" where
  "bunny_step parse (Rpc correlation_id routing_key timeout) b =
     Some (b\<lparr>bt_pending := AList.update correlation_id (length (bt_calls b)) (bt_pending b),
             bt_calls := bt_calls b @ [\<lparr>rc_correlation_id = correlation_id, rc_routing_key = routing_key, rc_timeout = timeout,
                                        rc_phase = Publishing, rc_slot = Open\<rparr>]\<rparr>)"
| "bunny_step parse (PublishFailed i e) b =
     (if in_phase i Publishing b then Some (set_call_phase i (Failing (''RPC publish failed: '' @ e)) b) else None)"
| "bunny_step parse (PublishSent i) b =
     (if in_phase i Publishing b then Some (set_call_phase i Confirming b) else None)"
| "bunny_step parse (ConfirmFailed i e) b =
     (if in_phase i Confirming b then Some (set_call_phase i (Failing (''RPC publish confirm failed: '' @ e)) b) else None)"
| "bunny_step parse (Confirmed i) b =
     (if in_phase i Confirming b then Some (set_call_phase i Awaiting b) else None)"
| "bunny_step parse (Reply None data) b = Some b"
| "bunny_step parse (Reply (Some correlation_id) data) b =
     (case map_of (bt_pending b) correlation_id of
        None \<Rightarrow> Some b
      | Some i \<Rightarrow>
          Some (b\<lparr>bt_pending := AList.delete correlation_id (bt_pending b), bt_acking := (i, parse data) # bt_acking b,
                  bt_replies := (correlation_id, parse data) # bt_replies b\<rparr>))"
| "bunny_step parse (ReplyAcked i) b =
     (case map_of (bt_acking b) i of
        None \<Rightarrow> None
      | Some r \<Rightarrow> Some (set_call i (\<lambda>c. c\<lparr>rc_slot := Sent r\<rparr>) (b\<lparr>bt_acking := AList.delete i (bt_acking b)\<rparr>)))"
| "bunny_step parse (ReplyLost i) b =
     (case map_of (bt_acking b) i of
        None \<Rightarrow> None
      | Some r \<Rightarrow> Some (set_call i (\<lambda>c. c\<lparr>rc_slot := SenderDropped\<rparr>) (b\<lparr>bt_acking := AList.delete i (bt_acking b)\<rparr>)))"
| "bunny_step parse (Received i) b =
     (if in_phase i Awaiting b
      then case rc_slot (bt_calls b ! i) of Sent r \<Rightarrow> Some (set_call_phase i (Returned r) b) | _ \<Rightarrow> None else None)"
| "bunny_step parse (ChannelClosed i) b =
     (if in_phase i Awaiting b \<and> rc_slot (bt_calls b ! i) = SenderDropped
      then Some (set_call_phase i (Failing (channel_closed (bt_calls b ! i))) b) else None)"
| "bunny_step parse (TimedOut i) b =
     (if in_phase i Awaiting b \<and> rc_slot (bt_calls b ! i) = Open
      then Some (set_call_phase i (Failing (timed_out (bt_calls b ! i))) b) else None)"
| "bunny_step parse (Removed i) b =
     (if i < length (bt_calls b)
      then case rc_phase (bt_calls b ! i) of Failing e \<Rightarrow> Some (set_call_phase i (Returned (Inl e)) (forget i b)) | _ \<Rightarrow> None
      else None)"
| "bunny_step parse (Dropped i) b =
     (if i < length (bt_calls b)
      then case rc_phase (bt_calls b ! i) of Returned _ \<Rightarrow> None | _ \<Rightarrow> Some (set_call_phase i Abandoned b)
      else None)"
| "bunny_step parse (CloseCalled up) b = Some (if up then b\<lparr>bt_closing := Suc (bt_closing b)\<rparr> else b)"
| "bunny_step parse CloseDrains b =
     (if bt_closing b = 0 then None
      else Some (b\<lparr>bt_closing := bt_closing b - 1,
                   bt_calls := map (\<lambda>(i, c). if i \<in> snd ` set (bt_pending b) then c\<lparr>rc_slot := Sent (Inl ''BunnyTalk closed'')\<rparr> else c)
                                 (enumerate 0 (bt_calls b)),
                   bt_pending := []\<rparr>))"

definition bunny_new :: bunny where
  "bunny_new = \<lparr>bt_pending = [], bt_calls = [], bt_acking = [], bt_closing = 0, bt_replies = []\<rparr>"

text \<open>Correlation ids are fresh.\<close>

definition fresh_event :: "rpc_event \<Rightarrow> bunny \<Rightarrow> bool" where
  "fresh_event ev b = (case ev of Rpc cid _ _ \<Rightarrow> cid \<notin> rc_correlation_id ` set (bt_calls b) | _ \<Rightarrow> True)"

inductive bunny_run :: "(string \<Rightarrow> string + rpc_response) \<Rightarrow> bunny \<Rightarrow> bool" for parse where
  br_new: "bunny_run parse bunny_new"
| br_step: "bunny_run parse b \<Longrightarrow> fresh_event ev b \<Longrightarrow> bunny_step parse ev b = Some b' \<Longrightarrow> bunny_run parse b'"

section \<open>Replies reach their calls\<close>

text \<open>
  A pending entry belongs to a call with that correlation id whose channel is open; a call that still
  waits on an open channel is pending or its reply is being acknowledged; what is being acknowledged,
  is in a channel or was returned as a response came as a reply with the correlation id of the call.
\<close>

abbreviation call_id :: "bunny \<Rightarrow> nat \<Rightarrow> string" where
  "call_id b i \<equiv> rc_correlation_id (bt_calls b ! i)"

definition waiting :: "rpc_phase \<Rightarrow> bool" where
  "waiting ph \<longleftrightarrow> ph = Publishing \<or> ph = Confirming \<or> ph = Awaiting"

definition call_ok :: "bunny \<Rightarrow> nat \<Rightarrow> bool" where
  "call_ok b i \<longleftrightarrow>
     (let c = bt_calls b ! i; cid = rc_correlation_id c in
      (map_of (bt_pending b) cid = Some i \<longrightarrow> rc_slot c = Open \<and> map_of (bt_acking b) i = None \<and> (\<forall>r. rc_phase c \<noteq> Returned r)) \<and>
      (\<forall>r. map_of (bt_acking b) i = Some r \<longrightarrow> rc_slot c = Open \<and> (cid, r) \<in> set (bt_replies b)) \<and>
      (waiting (rc_phase c) \<and> rc_slot c = Open \<longrightarrow> map_of (bt_pending b) cid = Some i \<or> map_of (bt_acking b) i \<noteq> None) \<and>
      (\<forall>x. rc_slot c = Sent (Inr x) \<longrightarrow> (cid, Inr x) \<in> set (bt_replies b)) \<and>
      (\<forall>x. rc_phase c = Returned (Inr x) \<longrightarrow> (cid, Inr x) \<in> set (bt_replies b)))"

definition bunny_inv :: "bunny \<Rightarrow> bool" where
  "bunny_inv b \<longleftrightarrow>
     distinct (map rc_correlation_id (bt_calls b)) \<and> hm_ok (bt_pending b) \<and>
     (\<forall>(cid, i) \<in> set (bt_pending b). i < length (bt_calls b) \<and> call_id b i = cid) \<and>
     fst ` set (bt_acking b) \<subseteq> {..<length (bt_calls b)} \<and>
     distinct (map fst (bt_replies b)) \<and>
     fst ` set (bt_replies b) \<subseteq> rc_correlation_id ` set (bt_calls b) - fst ` set (bt_pending b) \<and>
     (\<forall>i < length (bt_calls b). call_ok b i)"

lemma pendingD:
  assumes "bunny_inv b" "map_of (bt_pending b) cid = Some i"
  shows "i < length (bt_calls b) \<and> call_id b i = cid"
  using assms map_of_SomeD [OF assms(2)] by (auto simp: bunny_inv_def)

lemma ackingD: "bunny_inv b \<Longrightarrow> map_of (bt_acking b) i = Some r \<Longrightarrow> i < length (bt_calls b)"
proof -
  assume "bunny_inv b" "map_of (bt_acking b) i = Some r"
  then have "i \<in> fst ` set (bt_acking b)" "fst ` set (bt_acking b) \<subseteq> {..<length (bt_calls b)}"
    using map_of_SomeD [of "bt_acking b" i r] by (force, simp add: bunny_inv_def)
  then show ?thesis by blast
qed

lemma inv_call: "bunny_inv b \<Longrightarrow> i < length (bt_calls b) \<Longrightarrow> call_ok b i"
  by (simp add: bunny_inv_def)

lemma cid_inj:
  assumes "bunny_inv b" "i < length (bt_calls b)" "j < length (bt_calls b)" "call_id b i = call_id b j"
  shows "i = j"
  using assms nth_eq_iff_index_eq [of "map rc_correlation_id (bt_calls b)" i j] by (simp add: bunny_inv_def)

lemma pending_delete_ok:
  "hm_ok m \<Longrightarrow> hm_ok (AList.delete k m)" "set (AList.delete k m) \<subseteq> set m"
  by (auto simp: hm_ok_def distinct_map_filter AList.delete_eq)

text \<open>A step that concerns one call keeps the others.\<close>

lemma change_call_inv:
  assumes inv: "bunny_inv b" and i: "i < length (bt_calls b)"
    and b': "b' = set_call i f (b\<lparr>bt_pending := pend, bt_acking := ack, bt_replies := reps\<rparr>)"
    and cid: "rc_correlation_id (f (bt_calls b ! i)) = call_id b i"
    and pend: "pend = bt_pending b \<or> pend = AList.delete (call_id b i) (bt_pending b)"
    and ack: "\<And>j. j \<noteq> i \<Longrightarrow> map_of ack j = map_of (bt_acking b) j" "fst ` set ack \<subseteq> {..<length (bt_calls b)}"
    and reps: "reps = bt_replies b \<or>
      (\<exists>r. reps = (call_id b i, r) # bt_replies b \<and> call_id b i \<in> fst ` set (bt_pending b) \<and> call_id b i \<notin> fst ` set pend)"
    and own: "call_ok b' i"
  shows "bunny_inv b'"
proof -
  have calls: "bt_calls b' = (bt_calls b)[i := f (bt_calls b ! i)]"
    and new: "bt_pending b' = pend" "bt_acking b' = ack" "bt_replies b' = reps"
    by (simp_all add: b' set_call_def)
  have ids: "map rc_correlation_id (bt_calls b') = map rc_correlation_id (bt_calls b)"
    using i cid by (auto simp: calls list_eq_iff_nth_eq nth_list_update)
  then have id_set: "rc_correlation_id ` set (bt_calls b') = rc_correlation_id ` set (bt_calls b)" by (metis set_map)
  have len: "length (bt_calls b') = length (bt_calls b)" by (simp add: calls)
  have sub: "set pend \<subseteq> set (bt_pending b)" and ok: "hm_ok pend"
    using pend pending_delete_ok [where m = "bt_pending b" and k = "call_id b i"] inv by (auto simp: bunny_inv_def)
  have entry: "(j < length (bt_calls b') \<and> call_id b' j = k)" if "(k, j) \<in> set pend" for k j
  proof -
    have "j < length (bt_calls b) \<and> call_id b j = k" using inv that sub by (auto simp: bunny_inv_def)
    then show ?thesis using arg_cong [OF ids, of "\<lambda>l. l ! j"] by (simp add: calls)
  qed
  have other: "call_ok b' j" if j: "j < length (bt_calls b')" for j
  proof (cases "j = i")
    case False
    have same: "bt_calls b' ! j = bt_calls b ! j" using False by (simp add: calls)
    have "call_id b j \<noteq> call_id b i" using cid_inj [OF inv, of j i] j i False by (auto simp: calls)
    then have "map_of pend (call_id b j) = map_of (bt_pending b) (call_id b j)" using pend by (auto simp: delete_conv')
    moreover have "call_ok b j" using inv j by (simp add: bunny_inv_def calls)
    ultimately show ?thesis using reps ack(1) [OF False] by (auto simp: call_ok_def same new Let_def)
  qed (use own in simp)
  have old: "distinct (map fst (bt_replies b))"
    "fst ` set (bt_replies b) \<subseteq> rc_correlation_id ` set (bt_calls b) - fst ` set (bt_pending b)"
    using inv by (simp_all add: bunny_inv_def)
  have keys: "fst ` set pend \<subseteq> fst ` set (bt_pending b)" using sub by (rule image_mono)
  have mine: "call_id b i \<in> rc_correlation_id ` set (bt_calls b)" using i by simp
  have replies: "distinct (map fst reps) \<and> fst ` set reps \<subseteq> rc_correlation_id ` set (bt_calls b) - fst ` set pend"
    using reps
  proof
    assume "reps = bt_replies b"
    then show ?thesis using old(1) order_trans [OF old(2) Diff_mono [OF order_refl keys]] by simp
  next
    assume "\<exists>r. reps = (call_id b i, r) # bt_replies b \<and> call_id b i \<in> fst ` set (bt_pending b) \<and> call_id b i \<notin> fst ` set pend"
    then obtain r where r: "reps = (call_id b i, r) # bt_replies b" "call_id b i \<in> fst ` set (bt_pending b)" "call_id b i \<notin> fst ` set pend"
      by blast
    then have "call_id b i \<notin> fst ` set (bt_replies b)" using old(2) by blast
    then have "distinct (map fst reps)" using old(1) r(1) by simp
    moreover have "fst ` set reps \<subseteq> rc_correlation_id ` set (bt_calls b) - fst ` set pend"
    proof
      fix k assume "k \<in> fst ` set reps"
      then have "k = call_id b i \<or> k \<in> fst ` set (bt_replies b)" unfolding r(1) by auto
      then show "k \<in> rc_correlation_id ` set (bt_calls b) - fst ` set pend" 
        using subsetD [OF old(2), of k] subsetD [OF keys, of k] mine r(3) by (metis Diff_iff)
    qed
    ultimately show ?thesis ..
  qed
  have "\<forall>(k, j) \<in> set pend. j < length (bt_calls b') \<and> call_id b' j = k" using entry by blast
  moreover have "distinct (map rc_correlation_id (bt_calls b))" using inv by (simp add: bunny_inv_def)
  moreover have "\<forall>j < length (bt_calls b'). call_ok b' j" using other by blast
  ultimately show ?thesis unfolding bunny_inv_def new id_set ids using ok replies ack(2) by (simp add: len)
qed

lemma call_phase_inv:
  assumes "bunny_inv b" "i < length (bt_calls b)"
    and "waiting ph \<longrightarrow> waiting (rc_phase (bt_calls b ! i))"
    and "\<forall>r. ph = Returned r \<longrightarrow> rc_slot (bt_calls b ! i) = Sent r"
  shows "bunny_inv (set_call_phase i ph b)"
proof (rule change_call_inv [OF assms(1,2)])
  show "set_call_phase i ph b = set_call i (\<lambda>c. c\<lparr>rc_phase := ph\<rparr>)
      (b\<lparr>bt_pending := bt_pending b, bt_acking := bt_acking b, bt_replies := bt_replies b\<rparr>)"
    by (simp add: set_call_phase_def set_call_def)
  show "call_ok (set_call_phase i ph b) i"
    using inv_call [OF assms(1,2)] assms(2-4) by (auto simp: call_ok_def set_call_phase_def set_call_def Let_def)
  show "fst ` set (bt_acking b) \<subseteq> {..<length (bt_calls b)}" using assms(1) by (simp add: bunny_inv_def)
qed simp_all

lemma reply_inv:
  assumes "bunny_inv b" "map_of (bt_pending b) cid = Some i"
  shows "bunny_inv (b\<lparr>bt_pending := AList.delete cid (bt_pending b), bt_acking := (i, r) # bt_acking b, bt_replies := (cid, r) # bt_replies b\<rparr>)"
    (is "bunny_inv ?b")
proof (rule change_call_inv [OF assms(1)])
  note i = pendingD [OF assms]
  show "i < length (bt_calls b)" using i by simp
  show "?b = set_call i (\<lambda>c. c) (b\<lparr>bt_pending := AList.delete cid (bt_pending b), bt_acking := (i, r) # bt_acking b,
      bt_replies := (cid, r) # bt_replies b\<rparr>)"
    using i by (simp add: set_call_def)
  show "AList.delete cid (bt_pending b) = bt_pending b \<or> AList.delete cid (bt_pending b) = AList.delete (call_id b i) (bt_pending b)"
    using i by simp
  show "fst ` set ((i, r) # bt_acking b) \<subseteq> {..<length (bt_calls b)}" using assms(1) i by (simp add: bunny_inv_def)
  have "cid \<in> fst ` set (bt_pending b)" using map_of_SomeD [OF assms(2)] by force
  then show "(cid, r) # bt_replies b = bt_replies b \<or>
      (\<exists>s. (cid, r) # bt_replies b = (call_id b i, s) # bt_replies b \<and> call_id b i \<in> fst ` set (bt_pending b) \<and>
        call_id b i \<notin> fst ` set (AList.delete cid (bt_pending b)))"
    using i by (auto simp: AList.delete_eq)
  show "call_ok ?b i"
    using inv_call [OF assms(1), of i] i assms(2) by (auto simp: call_ok_def Let_def delete_conv')
qed (simp_all add: pendingD [OF assms])

lemma acked_inv:
  assumes "bunny_inv b" "map_of (bt_acking b) i = Some r" "ch = Sent r \<or> ch = SenderDropped"
  shows "bunny_inv (set_call i (\<lambda>c. c\<lparr>rc_slot := ch\<rparr>) (b\<lparr>bt_acking := AList.delete i (bt_acking b)\<rparr>))" (is "bunny_inv ?b")
proof (rule change_call_inv [OF assms(1)])
  show i: "i < length (bt_calls b)" by (rule ackingD [OF assms(1,2)])
  show "?b = set_call i (\<lambda>c. c\<lparr>rc_slot := ch\<rparr>) (b\<lparr>bt_pending := bt_pending b, bt_acking := AList.delete i (bt_acking b),
      bt_replies := bt_replies b\<rparr>)" by simp
  show "fst ` set (AList.delete i (bt_acking b)) \<subseteq> {..<length (bt_calls b)}"
    using assms(1) by (auto simp: bunny_inv_def AList.delete_eq)
  show "map_of (AList.delete i (bt_acking b)) j = map_of (bt_acking b) j" if "j \<noteq> i" for j
    using that by (simp add: delete_conv')
  show "call_ok ?b i"
    using inv_call [OF assms(1) i] i assms(2,3) by (auto simp: call_ok_def set_call_def Let_def delete_conv')
qed simp_all

lemma removed_inv:
  assumes "bunny_inv b" "i < length (bt_calls b)"
  shows "bunny_inv (set_call_phase i (Returned (Inl e)) (forget i b))" (is "bunny_inv ?b")
proof (rule change_call_inv [OF assms])
  show "?b = set_call i (\<lambda>c. c\<lparr>rc_phase := Returned (Inl e)\<rparr>)
      (b\<lparr>bt_pending := AList.delete (call_id b i) (bt_pending b), bt_acking := bt_acking b, bt_replies := bt_replies b\<rparr>)"
    by (simp add: set_call_phase_def forget_def)
  show "fst ` set (bt_acking b) \<subseteq> {..<length (bt_calls b)}" using assms(1) by (simp add: bunny_inv_def)
  show "call_ok ?b i" using inv_call [OF assms] assms(2)
    by (auto simp: call_ok_def set_call_phase_def set_call_def forget_def Let_def delete_conv' waiting_def)
qed simp_all

lemma rpc_inv:
  assumes "bunny_inv b" "cid \<notin> rc_correlation_id ` set (bt_calls b)" "rc_correlation_id c = cid" "rc_slot c = Open" "rc_phase c = Publishing"
  shows "bunny_inv (b\<lparr>bt_pending := AList.update cid (length (bt_calls b)) (bt_pending b), bt_calls := bt_calls b @ [c]\<rparr>)"
    (is "bunny_inv ?b")
proof -
  have "map_of (AList.update cid (length (bt_calls b)) (bt_pending b)) k = map_of (bt_pending b) k" if "k \<noteq> cid" for k
    using that by (simp add: update_conv')
  moreover have "call_id b j \<noteq> cid" if "j < length (bt_calls b)" for j using assms(2) that by auto
  ultimately have old: "call_ok ?b j" if "j < length (bt_calls b)" for j
    using assms(1) that by (auto simp: bunny_inv_def call_ok_def nth_append Let_def)
  have "map_of (bt_acking b) (length (bt_calls b)) = None" using ackingD [OF assms(1)] by (meson less_irrefl not_None_eq)
  then have own: "call_ok ?b (length (bt_calls b))" by (simp add: call_ok_def Let_def update_conv' assms(3-5))
  have pend: "j < length (bt_calls ?b) \<and> call_id ?b j = k" if "(k, j) \<in> set (bt_pending ?b)" for k j
  proof -
    have "(k, j) = (cid, length (bt_calls b)) \<or> (k, j) \<in> set (bt_pending b)"
      using that set_alist_update [of cid "length (bt_calls b)" "bt_pending b"] by auto
    then show ?thesis using assms(1,3) by (auto simp: bunny_inv_def nth_append)
  qed
  have keys: "fst ` set (AList.update cid (length (bt_calls b)) (bt_pending b)) \<subseteq> insert cid (fst ` set (bt_pending b))"
    using set_alist_update [of cid "length (bt_calls b)" "bt_pending b"] by auto
  have "\<forall>j < length (bt_calls ?b). call_ok ?b j" using old own by (auto simp: less_Suc_eq)
  moreover have "fst ` set (bt_replies ?b) \<subseteq> rc_correlation_id ` set (bt_calls ?b) - fst ` set (bt_pending ?b)"
  proof
    fix k assume "k \<in> fst ` set (bt_replies ?b)"
    then have k: "k \<in> rc_correlation_id ` set (bt_calls b)" "k \<notin> fst ` set (bt_pending b)"
      using assms(1) by (auto simp: bunny_inv_def)
    then have "k \<notin> insert cid (fst ` set (bt_pending b))" using assms(2) by auto
    then show "k \<in> rc_correlation_id ` set (bt_calls ?b) - fst ` set (bt_pending ?b)" using k(1) keys by auto
  qed
  moreover have "fst ` set (bt_acking ?b) \<subseteq> {..<length (bt_calls ?b)}" using assms(1) by (auto simp: bunny_inv_def)
  ultimately show ?thesis using assms(1-3) pend unfolding bunny_inv_def by auto
qed

lemma drains_inv:
  assumes "bunny_inv b"
    "b' = b\<lparr>bt_closing := n, bt_calls := map (\<lambda>(i, c). if i \<in> snd ` set (bt_pending b) then c\<lparr>rc_slot := Sent (Inl e)\<rparr> else c)
        (enumerate 0 (bt_calls b)), bt_pending := []\<rparr>"
  shows "bunny_inv b'"
proof -
  let ?f = "\<lambda>(i, c). if i \<in> snd ` set (bt_pending b) then c\<lparr>rc_slot := Sent (Inl e)\<rparr> else c"
  have len: "length (bt_calls b') = length (bt_calls b)" by (simp add: assms(2))
  have nth: "bt_calls b' ! i = ?f (i, bt_calls b ! i)" if "i < length (bt_calls b)" for i
    using that by (simp add: assms(2) nth_enumerate_eq)
  have ids: "map rc_correlation_id (bt_calls b') = map rc_correlation_id (bt_calls b)"
    by (rule nth_equalityI) (simp_all add: len nth)
  then have id_set: "rc_correlation_id ` set (bt_calls b') = rc_correlation_id ` set (bt_calls b)" by (metis set_map)
  have same: "bt_pending b' = []" "bt_acking b' = bt_acking b" "bt_replies b' = bt_replies b" by (simp_all add: assms(2))
  have "call_ok b' i" if i: "i < length (bt_calls b)" for i
  proof -
    have pend: "i \<in> snd ` set (bt_pending b) \<longleftrightarrow> map_of (bt_pending b) (call_id b i) = Some i"
    proof
      assume "i \<in> snd ` set (bt_pending b)"
      then obtain k where "(k, i) \<in> set (bt_pending b)" by auto
      moreover from this have "call_id b i = k" using assms(1) by (auto simp: bunny_inv_def)
      ultimately show "map_of (bt_pending b) (call_id b i) = Some i" using assms(1) by (auto simp: bunny_inv_def hm_ok_def)
    qed (force dest: map_of_SomeD)
    then show ?thesis
      using inv_call [OF assms(1) i]
      by (cases "i \<in> snd ` set (bt_pending b)") (auto simp: call_ok_def nth [OF i] Let_def same)
  qed
  then show ?thesis using assms(1) ids len id_set unfolding bunny_inv_def same by auto
qed

lemma closing_inv: "bunny_inv (b\<lparr>bt_closing := n\<rparr>) \<longleftrightarrow> bunny_inv b"
  unfolding bunny_inv_def call_ok_def by simp

lemma bunny_step_inv:
  assumes "bunny_inv b" "fresh_event ev b" "bunny_step parse ev b = Some b'"
  shows "bunny_inv b'"
proof (cases ev)
  case (Rpc cid key timeout)
  then show ?thesis using assms(2,3) rpc_inv [OF assms(1), of cid] by (auto simp: fresh_event_def)
next
  case (Reply cid data)
  show ?thesis
  proof (cases "Option.bind cid (map_of (bt_pending b))")
    case None
    then have "b' = b" using assms(3) Reply by (cases cid) auto
    then show ?thesis using assms(1) by simp
  next
    case (Some i)
    then show ?thesis using assms(3) Reply reply_inv [OF assms(1)] by (auto simp: bind_eq_Some_conv)
  qed
next
  case (ReplyAcked i)
  then show ?thesis using assms(3) acked_inv [OF assms(1), of i] by (auto split: option.splits)
next
  case (ReplyLost i)
  then show ?thesis using assms(3) acked_inv [OF assms(1), of i] by (auto split: option.splits)
next
  case (Removed i)
  then show ?thesis using assms(3) removed_inv [OF assms(1), of i] by (auto split: if_splits rpc_phase.splits)
next
  case CloseDrains
  then show ?thesis using assms(3) drains_inv [OF assms(1)] by (auto split: if_splits)
next
  case (CloseCalled up)
  then have "b' = (if up then b\<lparr>bt_closing := Suc (bt_closing b)\<rparr> else b)" using assms(3) by simp
  then show ?thesis using assms(1) by (simp add: closing_inv)
qed (use assms(3) call_phase_inv [OF assms(1)] in
  \<open>auto simp: in_phase_def waiting_def split: if_splits rpc_channel.splits rpc_phase.splits\<close>)

text \<open>
  C39: in every order of calls, confirmations, replies, acknowledgements, timeouts, closings and dropped
  futures: a call returns a response only if it came as a reply with the correlation id of the call; no
  two calls share an id, and each takes at most one reply; a call that waits on an open channel is
  still pending, so that its reply can reach it, or its reply has been taken and is being
  acknowledged, to be sent into its channel next; and a call that returned has left no pending entry.
\<close>

theorem replies_reach_their_calls:
  assumes "bunny_run parse b" "i < length (bt_calls b)"
  defines "c \<equiv> bt_calls b ! i"
  shows "(\<forall>x. rc_phase c = Returned (Inr x) \<longrightarrow> (rc_correlation_id c, Inr x) \<in> set (bt_replies b)) \<and>
    (\<forall>j < length (bt_calls b). rc_correlation_id (bt_calls b ! j) = rc_correlation_id c \<longrightarrow> j = i) \<and>
    distinct (map fst (bt_replies b)) \<and>
    (rc_phase c = Awaiting \<and> rc_slot c = Open \<longrightarrow>
       map_of (bt_pending b) (rc_correlation_id c) = Some i \<or>
       (\<exists>r b'. (rc_correlation_id c, r) \<in> set (bt_replies b) \<and> bunny_step parse (ReplyAcked i) b = Some b' \<and>
          rc_slot (bt_calls b' ! i) = Sent r)) \<and>
    (\<forall>r. rc_phase c = Returned r \<longrightarrow> map_of (bt_pending b) (rc_correlation_id c) = None)"
proof -
  have inv: "bunny_inv b" using assms(1)
  proof (induction rule: bunny_run.induct)
    case br_new
    show ?case by (simp add: bunny_inv_def bunny_new_def)
  qed (rule bunny_step_inv)
  then have ok: "call_ok b i" using assms(2) by (simp add: bunny_inv_def)
  have "map_of (bt_pending b) (rc_correlation_id c) = None" if "rc_phase c = Returned r" for r
  proof (rule ccontr)
    assume "map_of (bt_pending b) (rc_correlation_id c) \<noteq> None"
    then obtain j where j: "map_of (bt_pending b) (rc_correlation_id c) = Some j" by blast
    have "j = i" using cid_inj [OF inv _ assms(2), of j] pendingD [OF inv j] unfolding c_def by blast
    then show False using ok j that unfolding call_ok_def Let_def c_def by blast
  qed
  moreover have "\<exists>r b'. (rc_correlation_id c, r) \<in> set (bt_replies b) \<and> bunny_step parse (ReplyAcked i) b = Some b' \<and>
      rc_slot (bt_calls b' ! i) = Sent r"
    if wait: "rc_phase c = Awaiting" "rc_slot c = Open" "map_of (bt_pending b) (rc_correlation_id c) \<noteq> Some i"
  proof -
    have "map_of (bt_acking b) i \<noteq> None" using ok wait unfolding call_ok_def Let_def c_def waiting_def by blast
    then obtain r where r: "map_of (bt_acking b) i = Some r" by blast
    then have "(rc_correlation_id c, r) \<in> set (bt_replies b)" using ok unfolding call_ok_def Let_def c_def by blast
    then show ?thesis using r assms(2) by (simp add: set_call_def)
  qed
  moreover have "\<forall>j < length (bt_calls b). rc_correlation_id (bt_calls b ! j) = rc_correlation_id c \<longrightarrow> j = i"
    using cid_inj [OF inv _ assms(2)] unfolding c_def by blast
  moreover have "\<forall>x. rc_phase c = Returned (Inr x) \<longrightarrow> (rc_correlation_id c, Inr x) \<in> set (bt_replies b)"
    using ok unfolding call_ok_def c_def Let_def by blast
  moreover have "distinct (map fst (bt_replies b))" using inv by (simp add: bunny_inv_def)
  ultimately show ?thesis by blast
qed

text \<open>Connecting makes at most ten attempts, with at most 45 seconds of waiting between them.\<close>

lemma connect_from_bounded:
  "1 \<le> n \<Longrightarrow> fst (connect_from attempts n e) \<le> RETRY_DELAY_SECONDS * (MAX_RETRIES - n) \<and>
   (snd (connect_from attempts n e) = Inr b \<longrightarrow> (\<exists>m. n \<le> m \<and> m \<le> MAX_RETRIES \<and> attempt_result (attempts m) = Inr b))"
proof (induction attempts n e rule: connect_from.induct)
  case (1 attempts n last_err)
  show ?case
  proof (cases "MAX_RETRIES < n")
    case True
    then show ?thesis by (subst (1 2) connect_from.simps) simp
  next
    case False
    show ?thesis
    proof (cases "attempt_result (attempts n)")
      case (Inr b')
      then have "connect_from attempts n last_err = (0, Inr b')" using False by (subst connect_from.simps) simp
      then show ?thesis using Inr False by (auto intro!: exI [of _ n])
    next
      case (Inl e)
      obtain waited r where rest: "connect_from attempts (Suc n) e = (waited, r)" by fastforce
      have ih: "waited \<le> RETRY_DELAY_SECONDS * (MAX_RETRIES - Suc n)"
          "r = Inr b \<longrightarrow> (\<exists>m. Suc n \<le> m \<and> m \<le> MAX_RETRIES \<and> attempt_result (attempts m) = Inr b)"
        using "1.IH" [OF False Inl] rest by auto
      have "(if n < MAX_RETRIES then RETRY_DELAY_SECONDS else 0) + waited \<le> RETRY_DELAY_SECONDS * (MAX_RETRIES - n)"
        using ih(1) by (cases "n < MAX_RETRIES") (auto simp: RETRY_DELAY_SECONDS_def)
      moreover have "connect_from attempts n last_err = ((if n < MAX_RETRIES then RETRY_DELAY_SECONDS else 0) + waited, r)"
        using False Inl rest by (subst connect_from.simps) simp
      moreover have "r = Inr b \<longrightarrow> (\<exists>m. n \<le> m \<and> m \<le> MAX_RETRIES \<and> attempt_result (attempts m) = Inr b)"
        using ih(2) Suc_leD by blast
      ultimately show ?thesis by simp
    qed
  qed
qed

lemma create_bounded: "fst (create attempts) \<le> 45"
  using connect_from_bounded [of 1 attempts "[]"] by (simp add: create_def RETRY_DELAY_SECONDS_def MAX_RETRIES_def)

definition example_response :: rpc_response where
  "example_response = \<lparr>rr_success = True, rr_result = None, rr_error = None, rr_error_type = None, rr_result_type = None\<rparr>"

fun bunny_steps :: "(string \<Rightarrow> string + rpc_response) \<Rightarrow> rpc_event list \<Rightarrow> bunny \<Rightarrow> bunny option" where
  "bunny_steps parse [] b = Some b"
| "bunny_steps parse (ev # evs) b =
     (if fresh_event ev b then Option.bind (bunny_step parse ev b) (bunny_steps parse evs) else None)"

lemma bunny_steps_run: "bunny_run parse b \<Longrightarrow> bunny_steps parse evs b = Some b' \<Longrightarrow> bunny_run parse b'"
  by (induction evs arbitrary: b) (auto simp: bind_eq_Some_conv split: if_splits intro: br_step)

definition answered_call :: bunny where
  "answered_call =
     \<lparr>bt_pending = [],
      bt_calls = [\<lparr>rc_correlation_id = ''id'', rc_routing_key = ''k'', rc_timeout = 60, rc_phase = Returned (Inr example_response),
                   rc_slot = Sent (Inr example_response)\<rparr>],
      bt_acking = [], bt_closing = 0, bt_replies = [(''id'', Inr example_response)]\<rparr>"

theorem replies_reach_their_calls_witness:
  "bunny_run (\<lambda>_. Inr example_response) answered_call \<and> (''id'', Inr example_response) \<in> set (bt_replies answered_call)"
proof -
  have "bunny_steps (\<lambda>_. Inr example_response)
      [Rpc ''id'' ''k'' 60, PublishSent 0, Confirmed 0, Reply (Some ''id'') [], ReplyAcked 0, Received 0] bunny_new = Some answered_call"
    by (simp add: fresh_event_def bunny_new_def in_phase_def set_call_phase_def set_call_def answered_call_def)
  then have run: "bunny_run (\<lambda>_. Inr example_response) answered_call" by (rule bunny_steps_run [OF br_new])
  from replies_reach_their_calls [OF this, of 0] run show ?thesis by (simp add: answered_call_def)
qed

text \<open>The default virtual host is written out; an address with a path is left alone.\<close>

lemma normalize_examples:
  "normalize_amqp_vhost ''amqp://u:p@host/'' = ''amqp://u:p@host/%2f''"
  "normalize_amqp_vhost ''amqp://u:p@host/?x=1'' = ''amqp://u:p@host/%2f?x=1''"
  "normalize_amqp_vhost ''amqp://u:p@host/v'' = ''amqp://u:p@host/v''"
  by code_simp+

text \<open>Closing a client whose channel is already down leaves its pending calls without an answer.\<close>

lemma close_when_down: "bunny_step parse (CloseCalled False) b = Some b"
  by simp

end
