(* ===== verification/Model_Cache.thy ===== *)
theory Model_Cache
  imports Filter_Parser
begin

text \<open>
  The cache of neural models, \<open>src/src/vectors/model_cache.rs\<close>: which organizations are trusted, how
  the files and the kind of a model are found, and \<open>get_or_load\<close> with its least recently used eviction
  and the loads that several threads share. The pooling modes of \<open>src/src/vectors/st_pooling.rs\<close> are
  read here too.

  Threads that ask for models are the callers of a step relation: a step is one region under a lock,
  so every interleaving of such regions is a run. Both caches, for dense and for sparse models, run the
  same code on their own state; \<open>load\<close> is what loads a model, at some time. The hub of models, the file
  system and the libraries that build a model from its files are the record \<open>model_hub\<close>, as they answer
  for one model and revision.
\<close>

section \<open>Trusted organizations\<close>

text \<open>\<open>lower\<close> is \<open>to_lowercase\<close> of the standard library.\<close>

definition is_trusted_model :: "(string \<Rightarrow> string) \<Rightarrow> string \<Rightarrow> string list \<Rightarrow> bool" where
  "is_trusted_model lower model_name orgs =
     (if CHR ''/'' \<notin> set model_name then False
      else lower (hd (split_on (CHR ''/'') model_name)) \<in> set orgs)"

definition strip_cr :: "string \<Rightarrow> string" where
  "strip_cr s = (if s \<noteq> [] \<and> last s = CHR 0x0D then butlast s else s)"

definition text_lines :: "string \<Rightarrow> string list" where
  "text_lines s =
     (let ps = split_on (CHR 0x0A) s in map strip_cr (if last ps = [] then butlast ps else ps))"

definition load_trusted_organizations ::
    "(string \<Rightarrow> string) \<Rightarrow> (string \<Rightarrow> string option) \<Rightarrow> (string \<Rightarrow> string + string) \<Rightarrow> string list option" where
  "load_trusted_organizations lower env read_file =
     (let enabled = (case env ''AMGIX_TRUSTED_ORGS'' of Some v \<Rightarrow> lower v = ''true'' | None \<Rightarrow> False) in
      if \<not> enabled then None
      else Some (case read_file (unwrap_or ''trusted_orgs.txt'' (env ''AMGIX_TRUSTED_ORGS_FILE'')) of
                   Inr contents \<Rightarrow>
                     remdups (filter (\<lambda>l. l \<noteq> [] \<and> hd l \<noteq> CHR ''#'') (map trim (text_lines contents)))
                 | Inl _ \<Rightarrow> []))"

text \<open>Why a model may not be loaded; \<open>None\<close> when it may.\<close>

definition rejection :: "(string \<Rightarrow> string) \<Rightarrow> string list option \<Rightarrow> string \<Rightarrow> string option" where
  "rejection lower trusted_organizations model_id =
     (case trusted_organizations of
        None \<Rightarrow> None
      | Some orgs \<Rightarrow>
          if is_trusted_model lower model_id orgs then None
          else Some (''Model '' @ quoted model_id @ '' is not from a trusted organization. Trusted organizations: '' @
                     joined '', '' (sort_by str_cmp orgs)))"

section \<open>Pooling modes\<close>

datatype st_pooling_mode = Cls | Max | Mean | MeanSqrtLen | WeightedMean | LastToken

definition parse_mode_name :: "string \<Rightarrow> st_pooling_mode option" where
  "parse_mode_name name =
     map_of [(''cls'', Cls), (''max'', Max), (''mean'', Mean), (''mean_sqrt_len_tokens'', MeanSqrtLen),
             (''weightedmean'', WeightedMean), (''lasttoken'', LastToken)] (map ascii_lower name)"

definition from_mode_names :: "string list \<Rightarrow> st_pooling_mode list" where
  "from_mode_names names = (let modes = List.map_filter parse_mode_name names in if modes = [] then [Mean] else modes)"

definition legacy_order :: "(string \<times> st_pooling_mode) list" where
  "legacy_order =
     [(''pooling_mode_cls_token'', Cls), (''pooling_mode_max_tokens'', Max), (''pooling_mode_mean_tokens'', Mean),
      (''pooling_mode_mean_sqrt_len_tokens'', MeanSqrtLen), (''pooling_mode_weightedmean_tokens'', WeightedMean),
      (''pooling_mode_lasttoken'', LastToken)]"

definition legacy_modes :: "json \<Rightarrow> st_pooling_mode list" where
  "legacy_modes v =
     (let modes = map snd (filter (\<lambda>(key, _). json_key v key = Some (Bool True)) legacy_order)
      in if modes = [] then [Mean] else modes)"

definition from_json_value :: "json \<Rightarrow> st_pooling_mode list" where
  "from_json_value v =
     (case json_key v ''pooling_mode'' of
        Some (String s) \<Rightarrow> from_mode_names [s]
      | Some (Array arr) \<Rightarrow>
          (let names = List.map_filter as_str arr in if names = [] then legacy_modes v else from_mode_names names)
      | _ \<Rightarrow> legacy_modes v)"

section \<open>Finding the files of a model\<close>

record 'm model_hub =
  mh_api :: "string + unit"
  mh_get :: "string \<Rightarrow> string + string"
  mh_exists :: "string \<Rightarrow> bool"
  mh_is_file :: "string \<Rightarrow> bool"
  mh_parent :: "string \<Rightarrow> string option"
  mh_read :: "string \<Rightarrow> string + string"
  mh_json :: "string \<Rightarrow> string + json"
  mh_static :: "string \<Rightarrow> string \<Rightarrow> string \<Rightarrow> string + 'm"
  mh_bert :: "string + 'm"
  mh_modernbert :: "string + 'm"
  mh_generic :: "string \<Rightarrow> string + 'm"

record static_model_files =
  sf_tokenizer :: string
  sf_model :: string
  sf_config :: string

definition is_hub_not_found :: "string \<Rightarrow> bool" where
  "is_hub_not_found e \<longleftrightarrow> contains_sub ''404'' e \<or> contains_sub ''status code 404'' e \<or> contains_sub ''Not Found'' e"

definition try_hub_file :: "'m model_hub \<Rightarrow> string \<Rightarrow> string + string option" where
  "try_hub_file hub path =
     (case mh_get hub path of
        Inr p \<Rightarrow> Inr (Some p)
      | Inl e \<Rightarrow> if is_hub_not_found e then Inr None else Inl (''Failed to fetch '' @ quoted path @ '': '' @ e))"

definition match_static_hub_layout ::
    "'m model_hub \<Rightarrow> string \<Rightarrow> string \<Rightarrow> string \<Rightarrow> string + static_model_files option" where
  "match_static_hub_layout hub config_prefix model_prefix config_file =
     and_then (try_hub_file hub (config_prefix @ config_file)) (\<lambda>config.
     case config of None \<Rightarrow> Inr None | Some config \<Rightarrow>
     and_then (try_hub_file hub (model_prefix @ ''tokenizer.json'')) (\<lambda>tokenizer.
     case tokenizer of None \<Rightarrow> Inr None | Some tokenizer \<Rightarrow>
     and_then (try_hub_file hub (model_prefix @ ''model.safetensors'')) (\<lambda>model.
     case model of None \<Rightarrow> Inr None | Some model \<Rightarrow>
       Inr (Some \<lparr>sf_tokenizer = tokenizer, sf_model = model, sf_config = config\<rparr>))))"

definition path_join :: "string \<Rightarrow> string \<Rightarrow> string" where
  "path_join folder file = folder @ ''/'' @ file"

definition match_static_local_layout :: "'m model_hub \<Rightarrow> string \<Rightarrow> string \<Rightarrow> string \<Rightarrow> static_model_files option" where
  "match_static_local_layout hub config_dir model_dir config_file =
     (let config = path_join config_dir config_file; tokenizer = path_join model_dir ''tokenizer.json'';
          model = path_join model_dir ''model.safetensors''
      in if mh_is_file hub config \<and> mh_is_file hub tokenizer \<and> mh_is_file hub model
         then Some \<lparr>sf_tokenizer = tokenizer, sf_model = model, sf_config = config\<rparr> else None)"

definition option_or :: "'a option \<Rightarrow> 'a option \<Rightarrow> 'a option" where
  "option_or a b = (case a of None \<Rightarrow> b | Some _ \<Rightarrow> a)"

definition resolve_static_local_files :: "'m model_hub \<Rightarrow> string \<Rightarrow> static_model_files option" where
  "resolve_static_local_files hub folder =
     option_or (match_static_local_layout hub folder folder ''config.json'')
     (option_or (match_static_local_layout hub folder folder ''config_sentence_transformers.json'')
     (option_or (match_static_local_layout hub folder (path_join folder ''0_StaticEmbedding'') ''config_sentence_transformers.json'')
     (Option.bind (mh_parent hub folder) (\<lambda>parent.
        match_static_local_layout hub parent folder ''config_sentence_transformers.json''))))"

definition resolve_static_hub_files :: "'m model_hub \<Rightarrow> string \<Rightarrow> string + static_model_files" where
  "resolve_static_hub_files hub model_id =
     and_then (mh_api hub) (\<lambda>_.
     and_then (match_static_hub_layout hub [] [] ''config.json'') (\<lambda>f.
     case f of Some f \<Rightarrow> Inr f | None \<Rightarrow>
     and_then (match_static_hub_layout hub [] [] ''config_sentence_transformers.json'') (\<lambda>f.
     case f of Some f \<Rightarrow> Inr f | None \<Rightarrow>
     and_then (match_static_hub_layout hub [] ''0_StaticEmbedding/'' ''config_sentence_transformers.json'') (\<lambda>f.
     case f of Some f \<Rightarrow> Inr f | None \<Rightarrow>
       Inl (''no valid static model layout for '' @ quoted model_id @
         '' on HuggingFace Hub (need config.json or config_sentence_transformers.json + tokenizer.json + model.safetensors)'')))))"

definition load_model2vec :: "'m model_hub \<Rightarrow> string \<Rightarrow> string + 'm" where
  "load_model2vec hub model_id =
     and_then
       (if mh_exists hub model_id
        then ok_or (''no valid static model layout in '' @ quoted model_id @
               '' (need config.json or config_sentence_transformers.json + tokenizer.json + model.safetensors)'')
               (resolve_static_local_files hub model_id)
        else resolve_static_hub_files hub model_id) (\<lambda>files.
     and_then (map_err (\<lambda>e. ''Failed to read tokenizer for '' @ quoted model_id @ '' ('' @ sf_tokenizer files @ ''): '' @ e)
       (mh_read hub (sf_tokenizer files))) (\<lambda>tokenizer_bytes.
     and_then (map_err (\<lambda>e. ''Failed to read weights for '' @ quoted model_id @ '' ('' @ sf_model files @ ''): '' @ e)
       (mh_read hub (sf_model files))) (\<lambda>model_bytes.
     and_then (map_err (\<lambda>e. ''Failed to read config for '' @ quoted model_id @ '' ('' @ sf_config files @ ''): '' @ e)
       (mh_read hub (sf_config files))) (\<lambda>config_bytes.
       map_err (\<lambda>e. ''Failed to load static model '' @ quoted model_id @ '': '' @ e)
         (mh_static hub tokenizer_bytes model_bytes config_bytes)))))"

definition read_hf_config_json :: "'m model_hub \<Rightarrow> string \<Rightarrow> string + json" where
  "read_hf_config_json hub model_id =
     and_then (mh_api hub) (\<lambda>_.
     and_then (map_err (\<lambda>e. ''Failed to fetch config.json for '' @ quoted model_id @ '': '' @ e) (mh_get hub ''config.json'')) (\<lambda>path.
     and_then (map_err (\<lambda>e. ''Failed to read config.json for '' @ quoted model_id @ '': '' @ e) (mh_read hub path)) (\<lambda>contents.
       map_err (\<lambda>e. ''Failed to parse config.json for '' @ quoted model_id @ '': '' @ e) (mh_json hub contents))))"

definition hf_architecture :: "json \<Rightarrow> string option" where
  "hf_architecture config =
     (case json_key config ''architectures'' of
        Some (Array (String s # _)) \<Rightarrow> if s = [] then None else Some s
      | _ \<Rightarrow> None)"

definition is_modern_bert_architecture :: "string \<Rightarrow> bool" where
  "is_modern_bert_architecture architecture \<longleftrightarrow> architecture = ''ModernBertModel'' \<or> architecture = ''ModernBertForMaskedLM''"

definition ST_POOLING_CONFIG_PATH :: string where
  "ST_POOLING_CONFIG_PATH = ''1_Pooling/config.json''"

definition load_st_pooling_config_from_path :: "'m model_hub \<Rightarrow> string \<Rightarrow> st_pooling_mode list" where
  "load_st_pooling_config_from_path hub path =
     (case and_then (mh_read hub path) (mh_json hub) of Inl _ \<Rightarrow> [Mean] | Inr v \<Rightarrow> from_json_value v)"

definition try_load_st_pooling_config :: "'m model_hub \<Rightarrow> st_pooling_mode list option" where
  "try_load_st_pooling_config hub =
     (case mh_api hub of
        Inl _ \<Rightarrow> None
      | Inr _ \<Rightarrow>
          (case mh_get hub ST_POOLING_CONFIG_PATH of
             Inl _ \<Rightarrow> None
           | Inr path \<Rightarrow> Some (load_st_pooling_config_from_path hub path)))"

definition load_st_pooling_config :: "'m model_hub \<Rightarrow> st_pooling_mode list" where
  "load_st_pooling_config hub =
     (case mh_api hub of
        Inl _ \<Rightarrow> [Mean]
      | Inr _ \<Rightarrow>
          (case mh_get hub ST_POOLING_CONFIG_PATH of
             Inl _ \<Rightarrow> [Mean]
           | Inr path \<Rightarrow> load_st_pooling_config_from_path hub path))"

definition dense_pooling_config :: "json \<Rightarrow> 'm model_hub \<Rightarrow> st_pooling_mode list" where
  "dense_pooling_config hf_config hub =
     (case try_load_st_pooling_config hub of
        Some cfg \<Rightarrow> cfg
      | None \<Rightarrow> if json_key hf_config ''classifier_pooling'' = Some (String ''cls'') then [Cls] else [Mean])"

datatype 'm dense_model_handle =
    Bert 'm "st_pooling_mode list"
  | ModernBert 'm "st_pooling_mode list"
  | Model2Vec 'm
  | Generic 'm

definition load_dense_model :: "'m model_hub \<Rightarrow> string \<Rightarrow> string + 'm dense_model_handle" where
  "load_dense_model hub model_id =
     (let config = (case read_hf_config_json hub model_id of Inr c \<Rightarrow> Some c | Inl _ \<Rightarrow> None);
          static = and_then (load_model2vec hub model_id) (\<lambda>m. Inr (Model2Vec m));
          failed = (\<lambda>e. ''Failed to load model '' @ quoted model_id @ '': '' @ e)
      in case Option.bind config hf_architecture of
           None \<Rightarrow> static
         | Some arch \<Rightarrow>
             if arch = ''BertModel''
             then and_then (map_err failed (mh_bert hub)) (\<lambda>m. Inr (Bert m (load_st_pooling_config hub)))
             else if is_modern_bert_architecture arch
             then and_then (map_err failed (mh_modernbert hub)) (\<lambda>m. Inr (ModernBert m (dense_pooling_config (the config) hub)))
             else if arch = ''StaticModel'' then static
             else (case mh_generic hub arch of
                     Inr m \<Rightarrow> Inr (Generic m)
                   | Inl transformer_err \<Rightarrow>
                       map_err (\<lambda>static_err. failed (transformer_err @ ''; static/model2vec fallback also failed: '' @ static_err)) static))"

section \<open>The cache\<close>

type_synonym model_key = "string \<times> string option"

datatype 'v inflight_state = Loading | Ready "string + 'v"

record 'v model_cache =
  mc_inner :: "(model_key, 'v \<times> nat) hash_map"
  mc_inflight :: "(model_key, nat) hash_map"
  mc_entries :: "'v inflight_state list"

definition model_cache_size :: "string option \<Rightarrow> (string \<Rightarrow> nat option) \<Rightarrow> nat" where
  "model_cache_size var parse = unwrap_or 100 (Option.bind var parse)"

definition model_cache_new :: "'v model_cache" where
  "model_cache_new = \<lparr>mc_inner = [], mc_inflight = [], mc_entries = []\<rparr>"

definition bump_cache_hit ::
    "nat \<Rightarrow> model_key \<Rightarrow> (model_key, 'v \<times> nat) hash_map \<Rightarrow> (model_key, 'v \<times> nat) hash_map \<times> 'v option" where
  "bump_cache_hit now key cache =
     (case map_of cache key of
        None \<Rightarrow> (cache, None)
      | Some (model, _) \<Rightarrow> (AList.update key (model, now) cache, Some model))"

fun lru_entry :: "(model_key, 'v \<times> nat) hash_map \<Rightarrow> (model_key \<times> nat) option" where
  "lru_entry [] = None"
| "lru_entry ((k, (_, used)) # rest) =
     (case lru_entry rest of
        None \<Rightarrow> Some (k, used)
      | Some (k', used') \<Rightarrow> if used \<le> used' then Some (k, used) else Some (k', used'))"

lemma lru_entry_mem: "lru_entry cache = Some (k, used) \<Longrightarrow> k \<in> fst ` set cache"
  by (induction cache arbitrary: k used rule: lru_entry.induct) (force split: option.splits if_splits)+

lemma length_delete_less: "k \<in> fst ` set xs \<Longrightarrow> length (AList.delete k xs) < length xs"
  unfolding AList.delete_eq by (auto intro: length_filter_less)

function evict_lru_if_full :: "nat \<Rightarrow> (model_key, 'v \<times> nat) hash_map \<Rightarrow> (model_key, 'v \<times> nat) hash_map" where
  "evict_lru_if_full max_size cache =
     (if max_size \<le> length cache
      then case lru_entry cache of
             Some (k, _) \<Rightarrow> evict_lru_if_full max_size (AList.delete k cache)
           | None \<Rightarrow> cache
      else cache)"
  by pat_completeness auto
termination
  by (relation "measure (\<lambda>(_, cache). length cache)") (auto intro!: length_delete_less dest: lru_entry_mem)

declare evict_lru_if_full.simps [simp del]

definition insert_loaded :: "nat \<Rightarrow> nat \<Rightarrow> model_key \<Rightarrow> 'v \<Rightarrow> 'v model_cache \<Rightarrow> 'v model_cache \<times> 'v" where
  "insert_loaded now max_size key loaded c =
     (let c = c\<lparr>mc_inflight := AList.delete key (mc_inflight c)\<rparr> in
      case bump_cache_hit now key (mc_inner c) of
        (cache, Some existing) \<Rightarrow> (c\<lparr>mc_inner := cache\<rparr>, existing)
      | (cache, None) \<Rightarrow> (c\<lparr>mc_inner := AList.update key (loaded, now) (evict_lru_if_full max_size cache)\<rparr>, loaded))"

section \<open>Callers\<close>

text \<open>
  Where a caller is: before the first look into the cache, before the second, after both missed, with
  an entry of the loads in flight (its own or another's), waiting for or running the load, with a loaded
  model to insert, with a result before the entry is removed, or done.
\<close>

datatype 'v caller =
    Asked model_key
  | Checked model_key
  | Missed model_key
  | Registered model_key nat bool
  | Waiting model_key nat bool
  | Loaded model_key 'v
  | Leaving model_key "string + 'v"
  | Answered model_key "string + 'v"

fun after_load :: "model_key \<Rightarrow> string + 'v \<Rightarrow> 'v caller" where
  "after_load key (Inr handle) = Loaded key handle"
| "after_load key (Inl err) = Leaving key (Inl err)"

text \<open>
  One step of a caller at time \<open>now\<close>; \<open>None\<close> when it is done or blocked. The first two are
  \<open>get_or_load\<close> with its check of the organization, the others \<open>load_with_inflight\<close>,
  \<open>wait_for_inflight_load\<close> and \<open>insert_loaded\<close>.
\<close>

fun caller_step ::
    "(model_key \<Rightarrow> string option) \<Rightarrow> (model_key \<Rightarrow> nat \<Rightarrow> string + 'v) \<Rightarrow> nat \<Rightarrow> nat \<Rightarrow> 'v model_cache \<Rightarrow> 'v caller \<Rightarrow>
     ('v model_cache \<times> 'v caller) option" where
  "caller_step reject load max_size now c (Asked key) =
     (case bump_cache_hit now key (mc_inner c) of
        (cache, Some handle) \<Rightarrow> Some (c\<lparr>mc_inner := cache\<rparr>, Answered key (Inr handle))
      | (_, None) \<Rightarrow> Some (c, case reject key of Some e \<Rightarrow> Answered key (Inl e) | None \<Rightarrow> Checked key))"
| "caller_step reject load max_size now c (Checked key) =
     (case bump_cache_hit now key (mc_inner c) of
        (cache, Some handle) \<Rightarrow> Some (c\<lparr>mc_inner := cache\<rparr>, Answered key (Inr handle))
      | (_, None) \<Rightarrow> Some (c, Missed key))"
| "caller_step reject load max_size now c (Missed key) =
     (case map_of (mc_inflight c) key of
        Some entry \<Rightarrow> Some (c, Registered key entry False)
      | None \<Rightarrow>
          let entry = length (mc_entries c) in
          Some (c\<lparr>mc_inflight := AList.update key entry (mc_inflight c), mc_entries := mc_entries c @ [Loading]\<rparr>,
                Registered key entry True))"
| "caller_step reject load max_size now c (Registered key entry is_owner) =
     (case bump_cache_hit now key (mc_inner c) of
        (cache, Some handle) \<Rightarrow> Some (c\<lparr>mc_inner := cache\<rparr>, Leaving key (Inr handle))
      | (_, None) \<Rightarrow> Some (c, Waiting key entry is_owner))"
| "caller_step reject load max_size now c (Waiting key entry is_owner) =
     (case mc_entries c ! entry of
        Ready r \<Rightarrow> Some (c, after_load key r)
      | Loading \<Rightarrow>
          if is_owner
          then let r = load key now in Some (c\<lparr>mc_entries := (mc_entries c)[entry := Ready r]\<rparr>, after_load key r)
          else None)"
| "caller_step reject load max_size now c (Loaded key handle) =
     (case insert_loaded now max_size key handle c of (c, handle) \<Rightarrow> Some (c, Answered key (Inr handle)))"
| "caller_step reject load max_size now c (Leaving key r) =
     Some (c\<lparr>mc_inflight := AList.delete key (mc_inflight c)\<rparr>, Answered key r)"
| "caller_step reject load max_size now c (Answered key r) = None"

record 'v cache_world =
  cw_cache :: "'v model_cache"
  cw_callers :: "(nat, 'v caller) hash_map"
  cw_now :: nat

definition cache_world_new :: "'v cache_world" where
  "cache_world_new = \<lparr>cw_cache = model_cache_new, cw_callers = [], cw_now = 0\<rparr>"

definition act ::
    "(model_key \<Rightarrow> string option) \<Rightarrow> (model_key \<Rightarrow> nat \<Rightarrow> string + 'v) \<Rightarrow> nat \<Rightarrow> nat \<Rightarrow> 'v cache_world \<Rightarrow> 'v cache_world option" where
  "act reject load max_size t w =
     Option.bind (map_of (cw_callers w) t) (\<lambda>pc.
     map_option (\<lambda>(c, pc'). \<lparr>cw_cache = c, cw_callers = AList.update t pc' (cw_callers w), cw_now = Suc (cw_now w)\<rparr>)
       (caller_step reject load max_size (cw_now w) (cw_cache w) pc))"

definition ask :: "nat \<Rightarrow> model_key \<Rightarrow> 'v cache_world \<Rightarrow> 'v cache_world" where
  "ask t key w = w\<lparr>cw_callers := AList.update t (Asked key) (cw_callers w)\<rparr>"

inductive cache_step ::
    "(model_key \<Rightarrow> string option) \<Rightarrow> (model_key \<Rightarrow> nat \<Rightarrow> string + 'v) \<Rightarrow> nat \<Rightarrow> 'v cache_world \<Rightarrow> 'v cache_world \<Rightarrow> bool"
  for reject load max_size where
  cs_ask: "map_of (cw_callers w) t = None \<Longrightarrow> cache_step reject load max_size w (ask t key w)"
| cs_act: "act reject load max_size t w = Some w' \<Longrightarrow> cache_step reject load max_size w w'"

text \<open>The slots for inference on a GPU.\<close>

definition GPU_MODEL_INFERENCE_CONCURRENCY_MAX :: nat where
  "GPU_MODEL_INFERENCE_CONCURRENCY_MAX = 1"

definition limiter_acquire :: "nat \<Rightarrow> nat option" where
  "limiter_acquire n = (if n = 0 then None else Some (n - 1))"

definition limiter_release :: "nat \<Rightarrow> nat \<Rightarrow> nat" where
  "limiter_release limit n = min (n + 1) limit"

section \<open>What callers get\<close>

text \<open>\<open>loaded reject load k v\<close>: the model \<open>v\<close> was loaded for the key \<open>k\<close>, which may be loaded.\<close>

definition loaded :: "(model_key \<Rightarrow> string option) \<Rightarrow> (model_key \<Rightarrow> nat \<Rightarrow> string + 'v) \<Rightarrow> model_key \<Rightarrow> 'v \<Rightarrow> bool" where
  "loaded reject load key v \<longleftrightarrow> reject key = None \<and> (\<exists>t. load key t = Inr v)"

definition result_ok ::
    "(model_key \<Rightarrow> string option) \<Rightarrow> (model_key \<Rightarrow> nat \<Rightarrow> string + 'v) \<Rightarrow> model_key \<Rightarrow> string + 'v \<Rightarrow> bool" where
  "result_ok reject load key r \<longleftrightarrow>
     (case r of Inr v \<Rightarrow> loaded reject load key v | Inl e \<Rightarrow> reject key = Some e \<or> (\<exists>t. load key t = Inl e))"

definition entry_ok ::
    "(model_key \<Rightarrow> string option) \<Rightarrow> (model_key \<Rightarrow> nat \<Rightarrow> string + 'v) \<Rightarrow> 'v model_cache \<Rightarrow> (nat \<Rightarrow> model_key) \<Rightarrow> bool" where
  "entry_ok reject load c owner \<longleftrightarrow>
     (\<forall>(key, e) \<in> set (mc_inflight c). e < length (mc_entries c) \<and> owner e = key) \<and>
     (\<forall>e < length (mc_entries c). reject (owner e) = None \<and>
        (\<forall>r. mc_entries c ! e = Ready r \<longrightarrow> result_ok reject load (owner e) r))"

fun caller_ok ::
    "(model_key \<Rightarrow> string option) \<Rightarrow> (model_key \<Rightarrow> nat \<Rightarrow> string + 'v) \<Rightarrow> 'v model_cache \<Rightarrow> (nat \<Rightarrow> model_key) \<Rightarrow> 'v caller \<Rightarrow> bool" where
  "caller_ok reject load c owner (Asked key) = True"
| "caller_ok reject load c owner (Checked key) = (reject key = None)"
| "caller_ok reject load c owner (Missed key) = (reject key = None)"
| "caller_ok reject load c owner (Registered key e own) = (e < length (mc_entries c) \<and> owner e = key)"
| "caller_ok reject load c owner (Waiting key e own) = (e < length (mc_entries c) \<and> owner e = key)"
| "caller_ok reject load c owner (Loaded key v) = loaded reject load key v"
| "caller_ok reject load c owner (Leaving key r) = result_ok reject load key r"
| "caller_ok reject load c owner (Answered key r) = result_ok reject load key r"

definition inner_ok ::
    "(model_key \<Rightarrow> string option) \<Rightarrow> (model_key \<Rightarrow> nat \<Rightarrow> string + 'v) \<Rightarrow> nat \<Rightarrow> 'v model_cache \<Rightarrow> bool" where
  "inner_ok reject load max_size c \<longleftrightarrow>
     length (mc_inner c) \<le> max 1 max_size \<and> hm_ok (mc_inner c) \<and>
     (\<forall>p \<in> set (mc_inner c). loaded reject load (fst p) (fst (snd p)))"

definition cache_inv ::
    "(model_key \<Rightarrow> string option) \<Rightarrow> (model_key \<Rightarrow> nat \<Rightarrow> string + 'v) \<Rightarrow> nat \<Rightarrow> 'v cache_world \<Rightarrow> bool" where
  "cache_inv reject load max_size w \<longleftrightarrow>
     inner_ok reject load max_size (cw_cache w) \<and>
     (\<exists>owner. entry_ok reject load (cw_cache w) owner \<and>
        (\<forall>(t, pc) \<in> set (cw_callers w). caller_ok reject load (cw_cache w) owner pc))"

lemma loaded_insert:
  assumes "\<forall>p \<in> A. loaded reject load (fst p) (fst (snd p))" "B \<subseteq> insert (key, (v, u)) A" "loaded reject load key v"
  shows "\<forall>p \<in> B. loaded reject load (fst p) (fst (snd p))"
proof
  fix p assume "p \<in> B"
  then have "p = (key, (v, u)) \<or> p \<in> A" using assms(2) by blast
  then show "loaded reject load (fst p) (fst (snd p))" using assms(1,3) by force
qed

lemma bump_hit:
  assumes "inner_ok reject load max_size c" "bump_cache_hit now key (mc_inner c) = (cache, Some v)"
  shows "loaded reject load key v \<and> inner_ok reject load max_size (c\<lparr>mc_inner := cache\<rparr>)"
proof -
  obtain u where u: "map_of (mc_inner c) key = Some (v, u)" "cache = AList.update key (v, now) (mc_inner c)"
    using assms(2) by (auto simp: bump_cache_hit_def split: option.splits)
  then have v: "loaded reject load key v" using assms(1) map_of_SomeD [OF u(1)] by (force simp: inner_ok_def)
  have "key \<in> fst ` set (mc_inner c)" using u(1) by (force dest: map_of_SomeD)
  then have "length cache = length (mc_inner c)" using u(2) by (simp add: length_alist_update)
  moreover have "set cache \<subseteq> insert (key, (v, now)) (set (mc_inner c))" unfolding u(2) by (rule set_alist_update)
  moreover have "hm_ok cache" using assms(1) u(2) by (simp add: inner_ok_def)
  moreover have all: "\<forall>p \<in> set (mc_inner c). loaded reject load (fst p) (fst (snd p))" using assms(1) by (simp add: inner_ok_def)
  ultimately show ?thesis using assms(1) v loaded_insert [OF all _ v] by (simp add: inner_ok_def)
qed

lemma bump_miss: "bump_cache_hit now key cache = (cache', None) \<Longrightarrow> cache' = cache \<and> key \<notin> fst ` set cache"
  by (auto simp: bump_cache_hit_def map_of_eq_None_iff split: option.splits prod.splits)

lemma evict_sub:
  "set (evict_lru_if_full m cache) \<subseteq> set cache \<and> (hm_ok cache \<longrightarrow> hm_ok (evict_lru_if_full m cache)) \<and>
   (length (evict_lru_if_full m cache) < m \<or> evict_lru_if_full m cache = [])"
proof (induction m cache rule: evict_lru_if_full.induct)
  case (1 m cache)
  show ?case
  proof (cases "m \<le> length cache")
    case full: True
    show ?thesis
    proof (cases "lru_entry cache")
      case None
      then have "cache = []" by (cases cache) (auto split: option.splits if_splits)
      then show ?thesis using None by (subst (1 2 3 4) evict_lru_if_full.simps) simp
    next
      case (Some p)
      obtain k u where p: "p = (k, u)" by fastforce
      have sub: "set (AList.delete k cache) \<subseteq> set cache" by (auto simp: AList.delete_eq)
      have ok: "hm_ok cache \<Longrightarrow> hm_ok (AList.delete k cache)" by (simp add: hm_ok_def distinct_delete)
      have step: "evict_lru_if_full m cache = evict_lru_if_full m (AList.delete k cache)"
        using full Some p by (subst evict_lru_if_full.simps) simp
      show ?thesis unfolding step using "1.IH" [OF full Some p [symmetric]] sub ok p by auto
    qed
  qed (subst (1 2 3 4) evict_lru_if_full.simps; simp)
qed

lemma insert_loaded_ok:
  assumes "inner_ok reject load max_size c" "loaded reject load key v" "insert_loaded now max_size key v c = (c', v')"
  shows "inner_ok reject load max_size c' \<and> loaded reject load key v' \<and> mc_entries c' = mc_entries c \<and>
    mc_inflight c' = AList.delete key (mc_inflight c)"
proof -
  let ?c = "c\<lparr>mc_inflight := AList.delete key (mc_inflight c)\<rparr>"
  have ok: "inner_ok reject load max_size ?c" using assms(1) by (simp add: inner_ok_def)
  obtain cache h where b: "bump_cache_hit now key (mc_inner c) = (cache, h)" by fastforce
  show ?thesis
  proof (cases h)
    case (Some x)
    then show ?thesis using bump_hit [OF ok, of now key cache x] b assms(3) by (auto simp: insert_loaded_def Let_def)
  next
    case None
    then have cache: "cache = mc_inner c" using bump_miss b by blast
    have c': "c' = ?c\<lparr>mc_inner := AList.update key (v, now) (evict_lru_if_full max_size (mc_inner c))\<rparr>" "v' = v"
      using assms(3) b None cache by (auto simp: insert_loaded_def Let_def)
    note ev = evict_sub [of max_size "mc_inner c"]
    have "length (AList.update key (v, now) (evict_lru_if_full max_size (mc_inner c))) \<le> max 1 max_size"
      using ev by (auto simp: length_alist_update)
    moreover have "hm_ok (AList.update key (v, now) (evict_lru_if_full max_size (mc_inner c)))"
      using ev assms(1) by (simp add: inner_ok_def)
    moreover have "set (AList.update key (v, now) (evict_lru_if_full max_size (mc_inner c))) \<subseteq> insert (key, (v, now)) (set (mc_inner c))"
      by (rule subset_trans [OF set_alist_update insert_mono]) (use ev in simp)
    moreover have all: "\<forall>p \<in> set (mc_inner c). loaded reject load (fst p) (fst (snd p))" using assms(1) by (simp add: inner_ok_def)
    ultimately show ?thesis using c' assms(2) loaded_insert [OF all _ assms(2)] by (simp add: inner_ok_def)
  qed
qed

text \<open>A step keeps what holds of the cache, of the entries and of the other callers.\<close>

lemma caller_ok_entries:
  assumes "caller_ok reject load c owner pc" "length (mc_entries c) \<le> length (mc_entries c')"
    "\<forall>e < length (mc_entries c). owner' e = owner e"
  shows "caller_ok reject load c' owner' pc"
  using assms by (cases pc) auto

lemma after_load_ok: "result_ok reject load k r \<Longrightarrow> caller_ok reject load c owner (after_load k r)"
  by (cases r) (auto simp: result_ok_def)

lemma caller_step_ok:
  assumes "caller_step reject load max_size now c pc = Some (c', pc')" "inner_ok reject load max_size c"
    "entry_ok reject load c owner" "caller_ok reject load c owner pc"
  shows "inner_ok reject load max_size c' \<and> (\<exists>owner'. entry_ok reject load c' owner' \<and> caller_ok reject load c' owner' pc' \<and>
    (\<forall>pc. caller_ok reject load c owner pc \<longrightarrow> caller_ok reject load c' owner' pc))"
proof -
  have same: "\<exists>owner'. entry_ok reject load c' owner' \<and> caller_ok reject load c' owner' pc' \<and>
      (\<forall>pc. caller_ok reject load c owner pc \<longrightarrow> caller_ok reject load c' owner' pc)"
    if "mc_entries c' = mc_entries c" "set (mc_inflight c') \<subseteq> set (mc_inflight c)" "caller_ok reject load c' owner pc'"
  proof -
    have "entry_ok reject load c' owner" using assms(3) that(1,2) unfolding entry_ok_def by auto
    moreover have "\<forall>pc. caller_ok reject load c owner pc \<longrightarrow> caller_ok reject load c' owner pc"
      using that(1) by (auto intro: caller_ok_entries)
    ultimately show ?thesis using that(3) by blast
  qed
  have hit: "loaded reject load k v \<and> inner_ok reject load max_size (c\<lparr>mc_inner := cache\<rparr>)"
    if "bump_cache_hit now k (mc_inner c) = (cache, Some v)" for k v cache
    using bump_hit [OF assms(2) that] .
  have sub: "set (AList.delete k (mc_inflight c)) \<subseteq> set (mc_inflight c)" for k by (auto simp: AList.delete_eq)
  show ?thesis
  proof (cases pc)
    case (Asked k)
    then show ?thesis using assms hit [of k] same by (auto simp: result_ok_def split: prod.splits option.splits)
  next
    case (Checked k)
    then show ?thesis using assms hit [of k] same by (auto simp: result_ok_def split: prod.splits option.splits)
  next
    case (Registered k e own)
    then show ?thesis using assms hit [of k] same by (auto simp: result_ok_def split: prod.splits option.splits)
  next
    case (Leaving k r)
    then show ?thesis using assms same sub [of k] by (auto simp: inner_ok_def)
  next
    case (Loaded k v)
    obtain v' where ins: "insert_loaded now max_size k v c = (c', v')" "pc' = Answered k (Inr v')"
      using assms(1) Loaded by (auto split: prod.splits)
    note ok = insert_loaded_ok [OF assms(2) _ ins(1)]
    then show ?thesis using assms(4) Loaded ins(2) same sub [of k] by (auto simp: result_ok_def)
  next
    case (Missed k)
    show ?thesis
    proof (cases "map_of (mc_inflight c) k")
      case None
      let ?n = "length (mc_entries c)" and ?o = "owner(length (mc_entries c) := k)"
      have c': "c' = c\<lparr>mc_inflight := AList.update k ?n (mc_inflight c), mc_entries := mc_entries c @ [Loading]\<rparr>"
          "pc' = Registered k ?n True"
        using assms(1) Missed None by (auto simp: Let_def)
      have "entry_ok reject load c' ?o"
        unfolding entry_ok_def
      proof (intro conjI ballI)
        fix p assume "p \<in> set (mc_inflight c')"
        then have "p = (k, ?n) \<or> p \<in> set (mc_inflight c)" using set_alist_update [of k ?n "mc_inflight c"] c' by auto
        then show "case p of (key, e) \<Rightarrow> e < length (mc_entries c') \<and> ?o e = key"
          using assms(3) c' by (auto simp: entry_ok_def)
      qed (use assms(3,4) Missed c' in \<open>auto simp: entry_ok_def nth_append\<close>)
      moreover have "\<forall>pc. caller_ok reject load c owner pc \<longrightarrow> caller_ok reject load c' ?o pc"
        using c' by (auto intro: caller_ok_entries)
      moreover have "caller_ok reject load c' ?o pc'" using c' by simp
      moreover have "inner_ok reject load max_size c'" using assms(2) c' by (simp add: inner_ok_def)
      ultimately show ?thesis by blast
    next
      case (Some e)
      then have "c' = c" "pc' = Registered k e False" using assms(1) Missed by auto
      moreover have "e < length (mc_entries c) \<and> owner e = k" using assms(3) map_of_SomeD [OF Some] by (auto simp: entry_ok_def)
      ultimately show ?thesis using assms(2) same by auto
    qed
  next
    case (Waiting k e own)
    have e: "e < length (mc_entries c)" "owner e = k" using assms(4) Waiting by simp_all
    then have k: "reject k = None" using assms(3) by (auto simp: entry_ok_def)
    show ?thesis
    proof (cases "mc_entries c ! e")
      case (Ready r)
      then have c': "c' = c" "pc' = after_load k r" and r: "result_ok reject load k r"
        using assms(1,3) Waiting e by (auto simp: entry_ok_def)
      then show ?thesis using assms(2) same after_load_ok [OF r] by simp
    next
      case Loading
      let ?r = "load k now"
      have c': "c' = c\<lparr>mc_entries := (mc_entries c)[e := Ready ?r]\<rparr>" "pc' = after_load k ?r"
        using assms(1) Waiting Loading by (auto simp: Let_def split: if_splits)
      have r: "result_ok reject load k ?r" using k by (auto simp: result_ok_def loaded_def split: sum.split)
      have "entry_ok reject load c' owner"
        unfolding entry_ok_def
      proof (intro conjI allI impI)
        fix i r assume i: "i < length (mc_entries c')" "mc_entries c' ! i = Ready r"
        then show "result_ok reject load (owner i) r"
          using assms(3) c' e r by (cases "i = e") (auto simp: entry_ok_def)
      qed (use assms(3) c' in \<open>auto simp: entry_ok_def\<close>)
      moreover have "\<forall>pc. caller_ok reject load c owner pc \<longrightarrow> caller_ok reject load c' owner pc"
        using c' by (auto intro: caller_ok_entries)
      moreover have "caller_ok reject load c' owner pc'" using after_load_ok [OF r] c' by simp
      moreover have "inner_ok reject load max_size c'" using assms(2) c' by (simp add: inner_ok_def)
      ultimately show ?thesis by blast
    qed
  qed (use assms(1) in auto)
qed

lemma cache_inv_step:
  assumes "cache_step reject load max_size w w'" "cache_inv reject load max_size w"
  shows "cache_inv reject load max_size w'"
  using assms
proof (induction rule: cache_step.induct)
  case (cs_ask w t key)
  then obtain owner where "entry_ok reject load (cw_cache w) owner"
      "\<forall>p \<in> set (cw_callers w). caller_ok reject load (cw_cache w) owner (snd p)" "inner_ok reject load max_size (cw_cache w)"
    unfolding cache_inv_def by force
  moreover have "set (AList.update t (Asked key) (cw_callers w)) \<subseteq> insert (t, Asked key) (set (cw_callers w))"
    by (rule set_alist_update)
  ultimately show ?case unfolding cache_inv_def ask_def by fastforce
next
  case (cs_act t w w')
  then obtain pc c pc' where pc: "map_of (cw_callers w) t = Some pc"
    and step: "caller_step reject load max_size (cw_now w) (cw_cache w) pc = Some (c, pc')"
    and w': "w' = \<lparr>cw_cache = c, cw_callers = AList.update t pc' (cw_callers w), cw_now = Suc (cw_now w)\<rparr>"
    by (auto simp: act_def bind_eq_Some_conv)
  obtain owner where inv: "entry_ok reject load (cw_cache w) owner" "inner_ok reject load max_size (cw_cache w)"
      "\<forall>p \<in> set (cw_callers w). caller_ok reject load (cw_cache w) owner (snd p)"
    using cs_act.prems unfolding cache_inv_def by force
  have "caller_ok reject load (cw_cache w) owner pc" using inv(3) map_of_SomeD [OF pc] by force
  from caller_step_ok [OF step inv(2,1) this] obtain owner' where o: "inner_ok reject load max_size c"
      "entry_ok reject load c owner'" "caller_ok reject load c owner' pc'"
      "\<forall>pc. caller_ok reject load (cw_cache w) owner pc \<longrightarrow> caller_ok reject load c owner' pc" by blast
  have "\<forall>p \<in> set (cw_callers w'). caller_ok reject load c owner' (snd p)"
  proof
    fix p assume "p \<in> set (cw_callers w')"
    then have "p = (t, pc') \<or> p \<in> set (cw_callers w)" using set_alist_update [of t pc' "cw_callers w"] w' by auto
    then show "caller_ok reject load c owner' (snd p)" using o(3,4) inv(3) by auto
  qed
  then show ?case using o(1,2) w' unfolding cache_inv_def by (auto simp: split_def)
qed

lemma cache_inv_reachable:
  "(cache_step reject load max_size)\<^sup>*\<^sup>* cache_world_new w \<Longrightarrow> cache_inv reject load max_size w"
proof (induction rule: rtranclp_induct)
  case base
  show ?case by (auto simp: cache_inv_def cache_world_new_def model_cache_new_def inner_ok_def entry_ok_def)
qed (blast intro: cache_inv_step)

text \<open>
  C38: in every interleaving of callers the cache holds at most its size of models (one if the size is
  zero), every model in it and every model that a caller gets was loaded for the key it asked for, by
  some caller, and only when its organization is trusted; an error that a caller gets is the refusal of
  its model or the error of a load of it.
\<close>

theorem cached_models_correct:
  assumes "(cache_step (\<lambda>(model_id, _). rejection lower orgs model_id) load max_size)\<^sup>*\<^sup>* cache_world_new w"
  shows "length (mc_inner (cw_cache w)) \<le> max 1 max_size \<and> distinct (map fst (mc_inner (cw_cache w))) \<and>
    (\<forall>((model_id, rev), (v, _)) \<in> set (mc_inner (cw_cache w)).
       rejection lower orgs model_id = None \<and> (\<exists>t. load (model_id, rev) t = Inr v)) \<and>
    (\<forall>t model_id rev r. map_of (cw_callers w) t = Some (Answered (model_id, rev) r) \<longrightarrow>
       (case r of
          Inr v \<Rightarrow> rejection lower orgs model_id = None \<and> (\<exists>t. load (model_id, rev) t = Inr v)
        | Inl e \<Rightarrow> rejection lower orgs model_id = Some e \<or> (\<exists>t. load (model_id, rev) t = Inl e)))"
proof -
  let ?reject = "\<lambda>(model_id :: string, rev :: string option). rejection lower orgs model_id"
  have inv: "cache_inv ?reject load max_size w" using cache_inv_reachable [OF assms] .
  then have inner: "inner_ok ?reject load max_size (cw_cache w)" by (simp add: cache_inv_def)
  have ans: "result_ok ?reject load key r" if "map_of (cw_callers w) t = Some (Answered key r)" for t key r
    using inv map_of_SomeD [OF that] unfolding cache_inv_def by force
  have "\<forall>t model_id rev r. map_of (cw_callers w) t = Some (Answered (model_id, rev) r) \<longrightarrow>
       (case r of
          Inr v \<Rightarrow> rejection lower orgs model_id = None \<and> (\<exists>t. load (model_id, rev) t = Inr v)
        | Inl e \<Rightarrow> rejection lower orgs model_id = Some e \<or> (\<exists>t. load (model_id, rev) t = Inl e))"
    using ans by (fastforce simp: result_ok_def loaded_def split: sum.splits)
  moreover have "\<forall>((model_id, rev), (v, _)) \<in> set (mc_inner (cw_cache w)).
       rejection lower orgs model_id = None \<and> (\<exists>t. load (model_id, rev) t = Inr v)"
    using inner by (fastforce simp: inner_ok_def loaded_def)
  ultimately show ?thesis using inner by (simp add: inner_ok_def hm_ok_def)
qed

text \<open>The entry that eviction removes was used least recently.\<close>

lemma lru_entry_least: "lru_entry cache = Some (k, used) \<Longrightarrow> (k', (v, u)) \<in> set cache \<Longrightarrow> used \<le> u"
proof (induction cache arbitrary: k used rule: lru_entry.induct)
  case (2 k0 v0 used0 rest)
  show ?case
  proof (cases "lru_entry rest")
    case None
    then have "rest = []" by (cases rest) (auto split: option.splits if_splits)
    then show ?thesis using "2.prems" by simp
  next
    case (Some q)
    obtain k1 u1 where q: "q = (k1, u1)" by fastforce
    have "used \<le> used0 \<and> used \<le> u1" using "2.prems"(1) Some q by (auto split: if_splits)
    then show ?thesis using "2.IH" [of k1 u1] "2.prems"(2) Some q by auto
  qed
qed simp

section \<open>A caller that waits forever\<close>

text \<open>
  A load in flight that nobody runs: its entry is still loading and no caller owns it. It stays so, and
  a caller that waits for it is never answered.
\<close>

fun owns :: "nat \<Rightarrow> 'v caller \<Rightarrow> bool" where
  "owns e (Registered key e' own) = (own \<and> e = e')"
| "owns e (Waiting key e' own) = (own \<and> e = e')"
| "owns e pc = False"

definition orphaned :: "nat \<Rightarrow> 'v cache_world \<Rightarrow> bool" where
  "orphaned e w \<longleftrightarrow>
     e < length (mc_entries (cw_cache w)) \<and> mc_entries (cw_cache w) ! e = Loading \<and>
     (\<forall>p \<in> set (cw_callers w). \<not> owns e (snd p))"

lemma caller_step_orphan:
  assumes "caller_step reject load max_size now c pc = Some (c', pc')" "e < length (mc_entries c)" "mc_entries c ! e = Loading"
    "\<not> owns e pc"
  shows "e < length (mc_entries c') \<and> mc_entries c' ! e = Loading \<and> \<not> owns e pc'"
proof (cases pc)
  case (Waiting key e' own)
  show ?thesis
  proof (cases "mc_entries c ! e'")
    case (Ready r)
    then show ?thesis using assms Waiting by (cases r) auto
  next
    case Loading
    then have "own" "c' = c\<lparr>mc_entries := (mc_entries c)[e' := Ready (load key now)]\<rparr>" "pc' = after_load key (load key now)" "e \<noteq> e'"
      using assms Waiting by (auto simp: Let_def split: if_splits)
    then show ?thesis using assms by (cases "load key now") auto
  qed
next
  case (Missed key)
  then show ?thesis using assms by (auto simp: Let_def nth_append split: option.splits)
qed (use assms in \<open>auto simp: insert_loaded_def Let_def split: prod.splits option.splits\<close>)

lemma act_cases:
  assumes "act reject load max_size t w = Some w'"
  obtains pc c pc' where "map_of (cw_callers w) t = Some pc"
    "caller_step reject load max_size (cw_now w) (cw_cache w) pc = Some (c, pc')"
    "w' = \<lparr>cw_cache = c, cw_callers = AList.update t pc' (cw_callers w), cw_now = Suc (cw_now w)\<rparr>"
  using assms by (auto simp: act_def bind_eq_Some_conv)

lemma orphan_step:
  assumes "cache_step reject load max_size w w'" "orphaned e w" "map_of (cw_callers w) t = Some (Waiting key e False)"
  shows "orphaned e w' \<and> map_of (cw_callers w') t = Some (Waiting key e False)"
  using assms
proof (induction rule: cache_step.induct)
  case (cs_ask w s key')
  have "set (cw_callers (ask s key' w)) \<subseteq> insert (s, Asked key') (set (cw_callers w))" by (simp add: ask_def set_alist_update)
  then have "orphaned e (ask s key' w)" using cs_ask.prems(1) unfolding orphaned_def by (force simp: ask_def)
  moreover have "s \<noteq> t" using cs_ask by auto
  ultimately show ?case using cs_ask.prems(2) by (simp add: ask_def update_conv')
next
  case (cs_act s w w')
  from act_cases [OF cs_act.hyps] obtain pc c pc' where pc: "map_of (cw_callers w) s = Some pc"
    and step: "caller_step reject load max_size (cw_now w) (cw_cache w) pc = Some (c, pc')"
    and w': "w' = \<lparr>cw_cache = c, cw_callers = AList.update s pc' (cw_callers w), cw_now = Suc (cw_now w)\<rparr>" .
  have orphan: "e < length (mc_entries (cw_cache w))" "mc_entries (cw_cache w) ! e = Loading"
      "\<forall>p \<in> set (cw_callers w). \<not> owns e (snd p)" using cs_act.prems(1) by (simp_all add: orphaned_def)
  have "\<not> owns e pc" using orphan(3) map_of_SomeD [OF pc] by force
  note after = caller_step_orphan [OF step orphan(1,2) this]
  have "\<forall>p \<in> set (cw_callers w'). \<not> owns e (snd p)"
  proof
    fix p assume "p \<in> set (cw_callers w')"
    then have "p = (s, pc') \<or> p \<in> set (cw_callers w)" using set_alist_update [of s pc' "cw_callers w"] w' by auto
    then show "\<not> owns e (snd p)" using after orphan(3) by auto
  qed
  moreover have "s \<noteq> t" using step pc cs_act.prems(2) orphan(2) by auto
  ultimately show ?case using after cs_act.prems(2) w' by (simp add: orphaned_def update_conv')
qed

fun run_schedule ::
    "(model_key \<Rightarrow> string option) \<Rightarrow> (model_key \<Rightarrow> nat \<Rightarrow> string + 'v) \<Rightarrow> nat \<Rightarrow> nat list \<Rightarrow> 'v cache_world \<Rightarrow> 'v cache_world option" where
  "run_schedule reject load max_size [] w = Some w"
| "run_schedule reject load max_size (t # ts) w =
     Option.bind (act reject load max_size t w) (run_schedule reject load max_size ts)"

lemma run_schedule_reachable:
  "run_schedule reject load max_size ts w = Some w' \<Longrightarrow> (cache_step reject load max_size)\<^sup>*\<^sup>* w w'"
proof (induction ts arbitrary: w)
  case (Cons t ts)
  then obtain w1 where "act reject load max_size t w = Some w1" "run_schedule reject load max_size ts w1 = Some w'"
    by (auto simp: bind_eq_Some_conv)
  then show ?case using Cons.IH by (meson converse_rtranclp_into_rtranclp cs_act)
qed simp

definition four_callers :: "nat cache_world" where
  "four_callers = ask 3 (''b/n'', None) (ask 2 (''a/m'', None) (ask 1 (''a/m'', None) (ask 0 (''a/m'', None) cache_world_new)))"

lemma four_callers_reachable: "(cache_step reject load max_size)\<^sup>*\<^sup>* cache_world_new four_callers"
proof -
  have s: "(cache_step reject load max_size)\<^sup>*\<^sup>* w (ask t key w)" if "map_of (cw_callers w) t = None" for w :: "nat cache_world" and t key
    using cs_ask [OF that] by blast
  show ?thesis unfolding four_callers_def
    by (rule rtranclp_trans [OF rtranclp_trans [OF rtranclp_trans [OF s s] s] s]) (simp_all add: ask_def cache_world_new_def)
qed

text \<open>
  Callers 0 and 1 miss the cache before caller 2 has loaded the model. Caller 0 then registers a load
  and caller 1 finds it; caller 0 sees the model in the cache and leaves without running its load.
  The load of another model evicts it, so caller 1 misses it again and waits for the load that nobody runs.
\<close>

theorem waiter_lost_forever:
  "\<exists>w. (cache_step (\<lambda>_. None) (\<lambda>_ _. Inr 0) 1)\<^sup>*\<^sup>* cache_world_new (w :: nat cache_world) \<and>
     (\<forall>w'. (cache_step (\<lambda>_. None) (\<lambda>_ _. Inr 0) 1)\<^sup>*\<^sup>* w w' \<longrightarrow>
        map_of (cw_callers w') 1 = Some (Waiting (''a/m'', None) 1 False))"
proof -
  let ?step = "cache_step (\<lambda>_. None) (\<lambda>_ _. Inr 0 :: string + nat) 1"
  define w where "w = the (run_schedule (\<lambda>_. None) (\<lambda>_ _. Inr 0) 1
    [0, 0, 1, 1, 2, 2, 2, 2, 2, 2, 0, 1, 0, 0, 3, 3, 3, 3, 3, 3, 1] four_callers)"
  have run: "run_schedule (\<lambda>_. None) (\<lambda>_ _. Inr 0) 1
      [0, 0, 1, 1, 2, 2, 2, 2, 2, 2, 0, 1, 0, 0, 3, 3, 3, 3, 3, 3, 1] four_callers = Some w"
    unfolding w_def by code_simp
  have reach: "?step\<^sup>*\<^sup>* cache_world_new w"
    by (rule rtranclp_trans [OF four_callers_reachable run_schedule_reachable [OF run]])
  have lost: "orphaned 1 w \<and> map_of (cw_callers w) 1 = Some (Waiting (''a/m'', None) 1 False)"
    unfolding w_def by code_simp
  have "orphaned 1 w' \<and> map_of (cw_callers w') 1 = Some (Waiting (''a/m'', None) 1 False)" if "?step\<^sup>*\<^sup>* w w'" for w'
    using that lost by (induction rule: rtranclp_induct) (auto dest: orphan_step)
  then show ?thesis using reach by blast
qed

text \<open>An organization that is listed with a capital letter trusts no model.\<close>

lemma capital_organization_trusts_nothing:
  assumes "\<And>s. lower (lower s) = lower s" "lower org \<noteq> org"
  shows "\<not> is_trusted_model lower model_id [org]"
  using assms by (auto simp: is_trusted_model_def)

theorem cached_models_correct_witness:
  "\<exists>w. run_schedule (\<lambda>(model_id, _). rejection (\<lambda>s. s) (Some [''a'', ''b'']) model_id) (\<lambda>_ _. Inr (0 :: nat)) 1
       [2, 2, 2, 2, 2, 2, 3, 3, 3, 3, 3, 3] four_callers = Some w \<and>
     map_of (cw_callers w) 3 = Some (Answered (''b/n'', None) (Inr 0)) \<and> length (mc_inner (cw_cache w)) \<le> 1 \<and>
     rejection (\<lambda>s. s) (Some [''a'', ''b'']) ''b/n'' = None"
proof -
  let ?reject = "\<lambda>(model_id :: string, rev :: string option). rejection (\<lambda>s. s) (Some [''a'', ''b'']) model_id"
  let ?ts = "[2, 2, 2, 2, 2, 2, 3, 3, 3, 3, 3, 3]"
  define w where "w = the (run_schedule ?reject (\<lambda>_ _. Inr (0 :: nat)) 1 ?ts four_callers)"
  have run: "run_schedule ?reject (\<lambda>_ _. Inr (0 :: nat)) 1 ?ts four_callers = Some w" unfolding w_def by code_simp
  have ans: "map_of (cw_callers w) 3 = Some (Answered (''b/n'', None) (Inr 0))" unfolding w_def by code_simp
  have "(cache_step ?reject (\<lambda>_ _. Inr 0) 1)\<^sup>*\<^sup>* cache_world_new w"
    by (rule rtranclp_trans [OF four_callers_reachable run_schedule_reachable [OF run]])
  note ok = cached_models_correct [OF this]
  have "rejection (\<lambda>s. s) (Some [''a'', ''b'']) ''b/n'' = None"
    using ok [THEN conjunct2, THEN conjunct2, THEN conjunct2, rule_format, OF ans] by simp
  then show ?thesis using run ans ok by (intro exI [of _ w]) simp
qed

end
