(* ===== verification/Model_Vectors.thy ===== *)
theory Model_Vectors
  imports Vectorizer Model_Cache
begin

text \<open>
  Vectors of neural models: \<open>src/src/vectors/dense_model.rs\<close> and \<open>src/src/vectors/sparse_model.rs\<close>. The
  inference itself, tokenizing and the forward pass of a batch, is the record \<open>model_runtime\<close>; what
  the code does around it is modelled: preparing the texts, batches, normalization, and the choice of
  the tokens of a sparse vector from the scores of the vocabulary. \<open>load\<close> is \<open>get_or_load\<close> of theory
  \<open>Model_Cache\<close>.
\<close>

section \<open>Dense models\<close>

datatype embedding_result = DenseVector "fp list" | MultiVector

record 'm model_runtime =
  mr_bert :: "'m \<Rightarrow> st_pooling_mode list \<Rightarrow> bool \<Rightarrow> string \<Rightarrow> string list \<Rightarrow> string + fp list list"
  mr_modernbert :: "'m \<Rightarrow> st_pooling_mode list \<Rightarrow> bool \<Rightarrow> string \<Rightarrow> string list \<Rightarrow> string + fp list list"
  mr_encode :: "'m \<Rightarrow> string list \<Rightarrow> fp list list"
  mr_embed :: "'m \<Rightarrow> string list \<Rightarrow> string + embedding_result list"
  mr_sqrt :: "fp \<Rightarrow> fp"
  mr_scores :: "'m \<Rightarrow> string \<Rightarrow> string list \<Rightarrow> string + fp list list"
  mr_special_ids :: "'m \<Rightarrow> nat list"
  mr_unstable :: "(nat \<times> fp) list \<Rightarrow> (nat \<times> fp) list"

definition DENSE_MODEL_BATCH_SIZE :: nat where
  "DENSE_MODEL_BATCH_SIZE = 8"

definition l2_normalize_vec :: "(fp \<Rightarrow> fp) \<Rightarrow> fp list \<Rightarrow> fp list" where
  "l2_normalize_vec sqrt32 v =
     (let norm = sqrt32 (foldl (fp_add binary32) (f32 0) (map (\<lambda>x. fp_mul binary32 x x) v))
      in if fp_lt (f32 (1 / 10 ^ 9)) norm then map (\<lambda>x. fp_div binary32 x norm) v else v)"

text \<open>Batch after batch; the first error ends the call.\<close>

definition in_batches :: "nat \<Rightarrow> (string list \<Rightarrow> string + 'v list) \<Rightarrow> string list \<Rightarrow> string + 'v list" where
  "in_batches n f docs = and_then (collect_result (map f (chunks n docs))) (\<lambda>rs. Inr (concat rs))"

definition generic_vector :: "'m model_runtime \<Rightarrow> bool \<Rightarrow> string \<Rightarrow> embedding_result \<Rightarrow> string + fp list" where
  "generic_vector rt norm_on model_id result =
     (case result of
        DenseVector v \<Rightarrow> Inr (if norm_on then l2_normalize_vec (mr_sqrt rt) v else v)
      | MultiVector \<Rightarrow>
          Inl (''Model '' @ quoted model_id @ '' returned multi-vector output; only dense vectors are supported here''))"

definition embed_dense_batch ::
    "'m model_runtime \<Rightarrow> 'm dense_model_handle \<Rightarrow> string list \<Rightarrow> bool \<Rightarrow> string \<Rightarrow> string + fp list list" where
  "embed_dense_batch rt handle docs norm_on model_id =
     in_batches DENSE_MODEL_BATCH_SIZE
       (case handle of
          Bert m pooling \<Rightarrow> mr_bert rt m pooling norm_on model_id
        | ModernBert m pooling \<Rightarrow> mr_modernbert rt m pooling norm_on model_id
        | Model2Vec m \<Rightarrow>
            (\<lambda>chunk. Inr (map (\<lambda>v. if norm_on then l2_normalize_vec (mr_sqrt rt) v else v) (mr_encode rt m chunk)))
        | Generic m \<Rightarrow>
            (\<lambda>chunk. and_then (map_err (\<lambda>e. ''Embedding failed for '' @ quoted model_id @ '': '' @ e) (mr_embed rt m chunk))
               (\<lambda>rs. collect_result (map (generic_vector rt norm_on model_id) rs)))) docs"

definition model_of :: "string \<Rightarrow> vector_config_internal \<Rightarrow> string + string" where
  "model_of who config =
     ok_or (who @ '' requires '' @ quoted ''model'' @ '' to be specified in VectorConfig'')
       (case vc_model config of Some m \<Rightarrow> if trim m = [] then None else Some m | None \<Rightarrow> None)"

definition get_dense_vector ::
    "'m model_runtime \<Rightarrow> (string \<Rightarrow> string option \<Rightarrow> string + 'm dense_model_handle) \<Rightarrow> vector_config_internal \<Rightarrow> string list \<Rightarrow>
     string + fp list list" where
  "get_dense_vector rt load config docs =
     and_then (model_of ''DenseModelVector'' config) (\<lambda>model_id.
     and_then (load model_id (vc_revision config)) (\<lambda>handle.
       embed_dense_batch rt handle docs (unwrap_or True (vc_normalization config)) model_id))"

section \<open>Sparse models\<close>

definition SPARSE_MODEL_BATCH_SIZE :: nat where
  "SPARSE_MODEL_BATCH_SIZE = 8"

definition preprocess_text_keep_case :: "string \<Rightarrow> string" where
  "preprocess_text_keep_case text = collapse False (utf8_chars (trim text))"

fun zero_special :: "nat list \<Rightarrow> fp list \<Rightarrow> fp list" where
  "zero_special [] scores = scores"
| "zero_special (i # ids) scores = zero_special ids (if i < length scores then scores[i := f32 0] else scores)"

text \<open>The scores of the vocabulary for one text give the heaviest tokens that are not special.\<close>

definition sparse_from_scores ::
    "((nat \<times> fp) list \<Rightarrow> (nat \<times> fp) list) \<Rightarrow> nat list \<Rightarrow> nat \<Rightarrow> fp list \<Rightarrow> nat list \<times> fp list" where
  "sparse_from_scores unstable special_ids k_max scores =
     (let positive = filter (\<lambda>(_, v). fp_lt (f32 0) v) (enumerate 0 (zero_special special_ids scores)) in
      if positive = [] then ([], [])
      else let k = min k_max (length positive); kept = take k (sort_by weight_cmp (unstable positive))
           in (map fst kept, map snd kept))"

definition get_sparse_vector_batch ::
    "text_lib \<Rightarrow> 'm model_runtime \<Rightarrow> (string \<Rightarrow> string option \<Rightarrow> string + 'm) \<Rightarrow> vector_config_internal \<Rightarrow> string list \<Rightarrow>
     string + sparse list" where
  "get_sparse_vector_batch lib rt load config docs =
     and_then (model_of ''SparseModelVector'' config) (\<lambda>model_id.
       let processed_docs =
         map (\<lambda>doc. if unwrap_or False (vc_keep_case config) then preprocess_text_keep_case doc else preprocess_text lib doc) docs
       in and_then (load model_id (vc_revision config)) (\<lambda>embedder.
            in_batches SPARSE_MODEL_BATCH_SIZE
              (\<lambda>chunk. and_then (mr_scores rt embedder model_id chunk) (\<lambda>scores.
                 Inr (map (sparse_from_scores (mr_unstable rt) (mr_special_ids rt embedder) (vc_top_k config)) scores))) processed_docs))"

section \<open>Batches\<close>

text \<open>One result per text, whatever the batches, when inference gives one per text of a batch.\<close>

lemma in_batches_length:
  assumes "0 < n" "in_batches n f docs = Inr vs" "\<And>chunk rs. f chunk = Inr rs \<Longrightarrow> length rs = length chunk"
  shows "length vs = length docs"
proof -
  obtain rs where rs: "map f (chunks n docs) = map Inr rs" "vs = concat rs"
    using assms(2) by (auto simp: in_batches_def and_then_eq_Inr collect_result_eq_Inr)
  have "map length rs = map length cs" if "map f cs = map Inr rs" for cs rs
    using that assms(3) by (induction cs arbitrary: rs) (auto simp: Cons_eq_map_conv)
  then have "length vs = length (concat (chunks n docs))" using rs by (simp add: length_concat)
  then show ?thesis by (simp only: concat_chunks [OF assms(1)])
qed

section \<open>The tokens of a sparse vector\<close>

definition kept_scores :: "nat list \<Rightarrow> fp list \<Rightarrow> (nat \<times> fp) list" where
  "kept_scores special_ids scores =
     filter (\<lambda>(_, v). fp_lt (f32 0) v) (enumerate 0 (zero_special special_ids scores))"

definition positive_tokens :: "nat list \<Rightarrow> fp list \<Rightarrow> nat set" where
  "positive_tokens special_ids scores =
     {i. i < length scores \<and> i \<notin> set special_ids \<and> fp_lt (f32 0) (scores ! i)}"

lemma length_zero_special [simp]: "length (zero_special ids scores) = length scores"
  by (induction ids scores rule: zero_special.induct) auto

lemma nth_zero_special:
  "i < length scores \<Longrightarrow> zero_special ids scores ! i = (if i \<in> set ids then f32 0 else scores ! i)"
  by (induction ids scores rule: zero_special.induct) (auto simp: nth_list_update)

lemma fp_lt_irrefl: "\<not> fp_lt x x"
  by (cases x) auto

lemma fp_lt_not_nan: "fp_lt x y \<Longrightarrow> \<not> is_nan y"
  by (cases x; cases y) auto

lemma set_kept_scores: "set (kept_scores ids scores) = (\<lambda>i. (i, scores ! i)) ` positive_tokens ids scores"
  by (auto simp: kept_scores_def positive_tokens_def in_set_enumerate_eq nth_zero_special fp_lt_irrefl image_iff
      split: if_splits)

lemma distinct_kept_scores: "distinct (map fst (kept_scores ids scores))"
  unfolding kept_scores_def by (rule distinct_map_filter) simp

lemma length_kept_scores: "length (kept_scores ids scores) = card (positive_tokens ids scores)"
proof -
  have "fst ` set (kept_scores ids scores) = positive_tokens ids scores" by (simp add: set_kept_scores image_image)
  then show ?thesis using distinct_card [OF distinct_kept_scores [of ids scores]] by simp
qed

lemma no_nan_kept_scores: "no_nan (kept_scores ids scores)"
  by (auto simp: no_nan_def set_kept_scores positive_tokens_def fp_lt_not_nan)

lemma sparse_from_scores_eq:
  "sparse_from_scores unstable ids k_max scores =
     (let kept = take (min k_max (length (kept_scores ids scores))) (sort_by weight_cmp (unstable (kept_scores ids scores)))
      in if kept_scores ids scores = [] then ([], []) else (map fst kept, map snd kept))"
  by (simp add: sparse_from_scores_def kept_scores_def Let_def)

text \<open>The sparse vector of a text holds the heaviest tokens: as many as the configuration allows, or all
  positive ones, each once and none of them special, with their scores, heaviest first; no token left
  out is heavier than one that is kept.\<close>

theorem sparse_scores_top:
  assumes "iter_order unstable" "sparse_from_scores unstable special_ids k_max scores = (idxs, vals)"
  shows "distinct idxs \<and> length idxs = min k_max (card (positive_tokens special_ids scores)) \<and>
    set idxs \<subseteq> positive_tokens special_ids scores \<and> vals = map (\<lambda>i. scores ! i) idxs \<and>
    sorted_wrt (\<lambda>x y. fp_le y x) vals \<and>
    (\<forall>i\<in>set idxs. \<forall>j\<in>positive_tokens special_ids scores - set idxs. fp_le (scores ! j) (scores ! i))"
proof -
  let ?ps = "kept_scores special_ids scores"
  let ?k = "min k_max (length ?ps)"
  define s where "s = sort_by weight_cmp (unstable ?ps)"
  have mset: "mset s = mset ?ps" using iter_orderD [OF assms(1)] by (simp add: s_def)
  then have set: "set s = set ?ps" and len: "length s = length ?ps" by (metis set_mset_mset, metis size_mset)
  have "set (unstable ?ps) = set ?ps" by (metis iter_orderD [OF assms(1)] set_mset_mset)
  then have sorted: "sorted_wrt (\<lambda>a b. heavier a b) s"
    using no_nan_kept_scores [of special_ids scores] unfolding s_def no_nan_def by (intro sorted_weights) (simp add: no_nan_def)
  have dist: "distinct (map fst s)"
    using distinct_kept_scores [of special_ids scores] mset by (metis mset_eq_imp_distinct_iff mset_map)
  have res: "idxs = map fst (take ?k s)" "vals = map snd (take ?k s)"
    using assms(2) by (auto simp: sparse_from_scores_eq s_def Let_def split: if_splits)
  have snd_eq: "snd w = scores ! fst w \<and> fst w \<in> positive_tokens special_ids scores" if "w \<in> set s" for w
    using that by (auto simp: set set_kept_scores)
  have vals: "vals = map (\<lambda>i. scores ! i) idxs" using snd_eq by (auto simp: res dest: in_set_takeD)
  have split: "s = take ?k s @ drop ?k s" by simp
  have cross: "heavier a b" if "a \<in> set (take ?k s)" "b \<in> set (drop ?k s)" for a b
    using sorted that split by (metis sorted_wrt_append)
  have left_out: "fp_le (scores ! j) (scores ! i)"
    if i: "i \<in> set idxs" and j: "j \<in> positive_tokens special_ids scores - set idxs" for i j
  proof -
    obtain a where a: "a \<in> set (take ?k s)" "fst a = i" using i by (auto simp: res)
    have "(j, scores ! j) \<in> set s" using j by (auto simp: set set_kept_scores)
    then have "(j, scores ! j) \<in> set (drop ?k s)" using j split by (metis DiffD2 Un_iff fst_conv image_eqI list.set_map res(1) set_append)
    from cross [OF a(1) this] show ?thesis using snd_eq [of a] a by (auto dest: in_set_takeD)
  qed
  have "sorted_wrt (\<lambda>a b. heavier a b) (take ?k s)" using sorted by (rule sorted_wrt_take)
  then have "sorted_wrt (\<lambda>x y. fp_le y x) vals" by (simp add: res sorted_wrt_map)
  moreover have "length idxs = min k_max (card (positive_tokens special_ids scores))"
    by (simp add: res len length_kept_scores)
  moreover have "distinct idxs" using dist by (metis res(1) distinct_take take_map)
  moreover have "set idxs \<subseteq> positive_tokens special_ids scores" using snd_eq by (auto simp: res dest: in_set_takeD)
  ultimately show ?thesis using vals left_out by blast
qed

theorem sparse_scores_top_witness:
  "sparse_from_scores rev [0] 2 [f32 9, f32 1, f32 0, f32 3, f32 2] = ([3, 4], [f32 3, f32 2]) \<and>
   length [3::nat, 4] = min 2 (card (positive_tokens [0] [f32 9, f32 1, f32 0, f32 3, f32 2]))"
proof -
  have eq: "sparse_from_scores rev [0] 2 [f32 9, f32 1, f32 0, f32 3, f32 2] = ([3, 4], [f32 3, f32 2])" by code_simp
  have "iter_order (rev :: (nat \<times> fp) list \<Rightarrow> _)" by (simp add: iter_order_def)
  from sparse_scores_top [OF this eq] eq show ?thesis by blast
qed

end
