(* ===== verification/Api_Metrics.thy ===== *)
theory Api_Metrics
  imports Auth Metrics Filter_Parser
begin

text \<open>
  Metrics of the API: \<open>api_metrics_middleware\<close> and \<open>classify_api_route\<close> of \<open>src/src/main.rs\<close>, and the bounded
  channel of \<open>MetricsCollector::record\<close> in \<open>src/src/metrics.rs\<close> that takes its events to the report
  thread. What the middleware records is compared with the routes of the router (theory \<open>Auth\<close>). The last
  section has the message to the leader and the points that \<open>append_metric_buckets\<close> of \<open>src/src/qdrant.rs\<close>
  writes for the completed buckets.
\<close>

section \<open>The channel\<close>

definition EVENT_BUFFER_MAXLEN :: nat where
  "EVENT_BUFFER_MAXLEN = 100000"

record metrics_collector =
  mc_tx :: "metric_event list"
  mc_receiver_alive :: bool
  mc_dropping :: bool
  mc_thread_dead_warned :: bool

text \<open>\<open>try_send\<close> reports a receiver that is gone before a channel that is full.\<close>

definition record_metric ::
    "string \<Rightarrow> string list \<Rightarrow> fp \<Rightarrow> int option \<Rightarrow> fp \<Rightarrow> metrics_collector \<Rightarrow> metrics_collector" where
  "record_metric key dims v n now m =
     (if \<not> mc_receiver_alive m then m\<lparr>mc_thread_dead_warned := True\<rparr>
      else if length (mc_tx m) < EVENT_BUFFER_MAXLEN
      then m\<lparr>mc_tx := mc_tx m @ [record_event key dims v n now], mc_dropping := False\<rparr>
      else m\<lparr>mc_dropping := True\<rparr>)"

section \<open>Routes\<close>

datatype route_kind = AsyncUpload | SyncUpload | BulkUpload | SearchRoute | AsyncDelete | SyncDelete

fun splitn :: "nat \<Rightarrow> char \<Rightarrow> string \<Rightarrow> string list" where
  "splitn 0 c s = []"
| "splitn (Suc 0) c s = [s]"
| "splitn (Suc (Suc n)) c s =
     (if c \<in> set s
      then takeWhile (\<lambda>x. x \<noteq> c) s # splitn (Suc n) c (drop 1 (dropWhile (\<lambda>x. x \<noteq> c) s))
      else [s])"

fun segments_kind :: "string list \<Rightarrow> route_kind option" where
  "segments_kind [_, a] = (if a = ''documents'' then Some AsyncUpload else None)"
| "segments_kind [_, a, _, b] = (if a = ''documents'' \<and> b = ''sync'' then Some SyncDelete else None)"
| "segments_kind [_, a, _] = (if a = ''documents'' then Some AsyncDelete else None)"
| "segments_kind _ = None"

definition classify_api_route :: "string \<Rightarrow> route_kind option" where
  "classify_api_route path =
     (if suffix ''/documents/bulk'' path then Some BulkUpload
      else if suffix ''/documents/sync'' path then Some SyncUpload
      else if suffix ''/search'' path then Some SearchRoute
      else case strip_prefix ''/v1/collections/'' path of
             Some after \<Rightarrow> segments_kind (splitn 5 (CHR ''/'') after)
           | None \<Rightarrow> None)"

section \<open>The middleware\<close>

text \<open>A count and a duration: the value and the denominator of the average.\<close>

definition operation_records :: "string \<Rightarrow> route_kind option \<Rightarrow> fp \<Rightarrow> (string \<times> fp \<times> int option) list" where
  "operation_records method kind elapsed_ms =
     (let counted = (\<lambda>key key_ms. [(key, f64 1, None), (key_ms, elapsed_ms, Some 1)])
      in if method = ''POST'' \<and> kind = Some AsyncUpload then counted ''api_async_upload'' ''api_async_upload_ms''
         else if method = ''POST'' \<and> kind = Some SyncUpload then counted ''api_sync_upload'' ''api_sync_upload_ms''
         else if method = ''POST'' \<and> kind = Some BulkUpload then counted ''api_bulk_upload'' ''api_bulk_upload_ms''
         else if method = ''POST'' \<and> kind = Some SearchRoute then counted ''api_search'' ''api_search_ms''
         else if method = ''DELETE'' \<and> kind = Some AsyncDelete then counted ''api_async_delete'' ''api_async_delete_ms''
         else if method = ''DELETE'' \<and> kind = Some SyncDelete then counted ''api_sync_delete'' ''api_sync_delete_ms''
         else [])"

definition request_records :: "string \<Rightarrow> string \<Rightarrow> nat \<Rightarrow> fp \<Rightarrow> (string \<times> fp \<times> int option) list" where
  "request_records method path status elapsed_ms =
     [(''api_requests'', f64 1, None), (''api_request_ms'', elapsed_ms, Some 1)] @
     (if status \<ge> 500 then [(''api_error_5xx'', f64 1, None)]
      else if status \<ge> 400 then [(''api_error_4xx'', f64 1, None)] else []) @
     operation_records method (classify_api_route path) elapsed_ms"

text \<open>\<open>clock i\<close> is the time of the \<open>i\<close>th record.\<close>

fun record_all :: "(nat \<Rightarrow> fp) \<Rightarrow> nat \<Rightarrow> (string \<times> fp \<times> int option) list \<Rightarrow> metrics_collector \<Rightarrow> metrics_collector" where
  "record_all clock i [] m = m"
| "record_all clock i ((key, v, n) # rs) m = record_all clock (Suc i) rs (record_metric key [] v n (clock i) m)"

definition api_metrics_middleware ::
    "(nat \<Rightarrow> fp) \<Rightarrow> string \<Rightarrow> string \<Rightarrow> nat \<Rightarrow> fp \<Rightarrow> metrics_collector option \<Rightarrow> metrics_collector option" where
  "api_metrics_middleware clock method path status elapsed_ms =
     map_option (record_all clock 0 (request_records method path status elapsed_ms))"

section \<open>What leaves the process\<close>

text \<open>The series of a snapshot for the leader.\<close>

definition snap_to_series :: "(string list \<times> (int \<times> fp \<times> int option) list) list \<Rightarrow> (string list \<times> fp) list \<Rightarrow> json list" where
  "snap_to_series snap last_seen =
     map (\<lambda>(k, windows). Object
       [(''dims'', Array (map String (tl k))), (''key'', String (hd k)),
        (''last_seen'', case map_of last_seen k of Some ts \<Rightarrow> json_of_f64 ts | None \<Rightarrow> Null),
        (''windows'', Object (map (\<lambda>(win, v, n).
           (int_str win, Object [(''n'', case n of Some m \<Rightarrow> json_of_i64 m | None \<Rightarrow> Null), (''value'', json_of_f64 v)])) windows))]) snap"

definition bucket_identity :: "string \<Rightarrow> string \<Rightarrow> metrics_bucket \<Rightarrow> string" where
  "bucket_identity hostname source b =
     hostname @ '':'' @ source @ '':'' @ mb_key b @ '':'' @ joined '':'' (mb_dims b) @ '':'' @ int_str (mb_start b) @ '':'' @
     int_str (mb_seconds b)"

definition bucket_payload :: "string \<Rightarrow> string \<Rightarrow> metrics_bucket \<Rightarrow> (string \<times> json) list" where
  "bucket_payload hostname source b =
     [(''bucket_seconds'', json_of_i64 (mb_seconds b)), (''bucket_start'', json_of_i64 (mb_start b)),
      (''dims'', Array (map String (mb_dims b))), (''hostname'', String hostname), (''key'', String (mb_key b)),
      (''n'', case mb_n b of Some n \<Rightarrow> json_of_i64 n | None \<Rightarrow> Null), (''source'', String source), (''value'', json_of_f64 (mb_value b))]"

definition append_metric_buckets ::
    "(string \<Rightarrow> string) \<Rightarrow> string \<Rightarrow> string \<Rightarrow> metrics_bucket list \<Rightarrow> (string, (string \<times> json) list) hash_map \<Rightarrow>
     (string, (string \<times> json) list) hash_map" where
  "append_metric_buckets uuid hostname source buckets points =
     AList.updates (map (uuid \<circ> bucket_identity hostname source) buckets) (map (bucket_payload hostname source) buckets) points"

section \<open>The operation of a route\<close>

text \<open>The metric each route is meant to be counted under.\<close>

fun route_metric :: "route \<Rightarrow> string option" where
  "route_metric (Upsert_document _) = Some ''api_async_upload''"
| "route_metric (Upsert_document_sync _) = Some ''api_sync_upload''"
| "route_metric (Upsert_documents_bulk _) = Some ''api_bulk_upload''"
| "route_metric (Search_collection _) = Some ''api_search''"
| "route_metric (Delete_document _ _) = Some ''api_async_delete''"
| "route_metric (Delete_document_sync _ _) = Some ''api_sync_delete''"
| "route_metric _ = None"

text \<open>
  The metric each route is counted under: the endings that \<open>classify_api_route\<close> looks at first take the
  creation of a collection \<open>search\<close> for a search, and the deletes of a few document ids for uploads and
  searches, which are not counted because the method does not fit.
\<close>

fun counted_as :: "route \<Rightarrow> string option" where
  "counted_as (Create_collection c) = (if c = ''search'' then Some ''api_search'' else None)"
| "counted_as (Delete_document _ d) = (if d \<in> {''bulk'', ''sync'', ''search''} then None else Some ''api_async_delete'')"
| "counted_as (Delete_document_sync _ d) = (if d = ''documents'' then None else Some ''api_sync_delete'')"
| "counted_as r = route_metric r"

text \<open>One request of the API: its route, the answer's status, its duration and the times of its records.\<close>

record api_request =
  aq_route :: route
  aq_status :: nat
  aq_elapsed :: fp
  aq_clock :: "nat \<Rightarrow> fp"

fun count_requests :: "api_request list \<Rightarrow> metrics_collector option \<Rightarrow> metrics_collector option" where
  "count_requests [] m = m"
| "count_requests (q # qs) m =
     count_requests qs
       (api_metrics_middleware (aq_clock q) (fst (route_request (aq_route q))) (snd (route_request (aq_route q)))
         (aq_status q) (aq_elapsed q) m)"

text \<open>The values recorded under a key, with the number of measurements of an average.\<close>

definition recorded_under :: "string \<Rightarrow> metric_event list \<Rightarrow> (fp \<times> int option) list" where
  "recorded_under key es = map (\<lambda>e. (me_value e, me_n e)) (filter (\<lambda>e. me_key e = [key]) es)"

abbreviation operation_keys :: "string set" where
  "operation_keys \<equiv> {''api_async_upload'', ''api_sync_upload'', ''api_bulk_upload'', ''api_search'', ''api_async_delete'', ''api_sync_delete''}"

abbreviation one_each :: "'a list \<Rightarrow> (fp \<times> int option) list" where
  "one_each qs \<equiv> map (\<lambda>_. (f64 1, None)) qs"

abbreviation duration_each :: "api_request list \<Rightarrow> (fp \<times> int option) list" where
  "duration_each qs \<equiv> map (\<lambda>q. (aq_elapsed q, Some 1)) qs"

definition metric_records :: "string option \<Rightarrow> fp \<Rightarrow> (string \<times> fp \<times> int option) list" where
  "metric_records metric elapsed_ms =
     (case metric of None \<Rightarrow> [] | Some key \<Rightarrow> [(key, f64 1, None), (key @ ''_ms'', elapsed_ms, Some 1)])"

section \<open>Paths\<close>

lemma first_slash:
  "c \<notin> set a \<Longrightarrow> c \<notin> set b \<Longrightarrow> a @ c # xs = b @ c # ys \<longleftrightarrow> a = b \<and> xs = ys"
  by (induction a arbitrary: b) (case_tac b; auto)+

lemma last_slash:
  assumes "c \<notin> set a" "c \<notin> set b"
  shows "xs @ c # a = ys @ c # b \<longleftrightarrow> xs = ys \<and> a = b"
proof -
  have "xs @ c # a = ys @ c # b \<longleftrightarrow> rev (xs @ c # a) = rev (ys @ c # b)" by (simp only: rev_is_rev_conv)
  also have "\<dots> \<longleftrightarrow> xs = ys \<and> a = b" using first_slash [of c "rev a" "rev b" "rev xs" "rev ys"] assms by auto
  finally show ?thesis .
qed

lemma suffix_last:
  assumes "CHR ''/'' \<notin> set b" "CHR ''/'' \<notin> set w"
  shows "suffix (CHR ''/'' # w) (xs @ CHR ''/'' # b) \<longleftrightarrow> b = w"
  unfolding suffix_def using last_slash [OF assms] by auto

lemma suffix_last_two:
  assumes "CHR ''/'' \<notin> set a" "CHR ''/'' \<notin> set b" "CHR ''/'' \<notin> set v" "CHR ''/'' \<notin> set w"
  shows "suffix (CHR ''/'' # v @ CHR ''/'' # w) (xs @ CHR ''/'' # a @ CHR ''/'' # b) \<longleftrightarrow> a = v \<and> b = w"
proof -
  have "xs @ CHR ''/'' # a @ CHR ''/'' # b = zs @ CHR ''/'' # v @ CHR ''/'' # w \<longleftrightarrow> xs = zs \<and> a = v \<and> b = w" for zs
    using last_slash [OF assms(2,4), of "xs @ CHR ''/'' # a" "zs @ CHR ''/'' # v"] last_slash [OF assms(1,3), of xs zs] by simp
  then show ?thesis unfolding suffix_def by auto
qed

lemma until_slash:
  "c \<notin> set s \<Longrightarrow> takeWhile (\<lambda>x. x \<noteq> c) (s @ c # t) = s"
  "c \<notin> set s \<Longrightarrow> dropWhile (\<lambda>x. x \<noteq> c) (s @ c # t) = c # t"
  by (induction s) auto

lemma splitn_append: "c \<notin> set s \<Longrightarrow> splitn (Suc (Suc n)) c (s @ c # t) = s # splitn (Suc n) c t"
  by (simp add: until_slash)

lemma splitn_single: "c \<notin> set s \<Longrightarrow> splitn (Suc n) c s = [s]"
  by (cases n) simp_all

lemma classify_coll:
  assumes "CHR ''/'' \<notin> set a" "CHR ''/'' \<notin> set b" "coll_path c rest = xs @ CHR ''/'' # a @ CHR ''/'' # b"
  shows "classify_api_route (coll_path c rest) =
    (if a = ''documents'' \<and> b = ''bulk'' then Some BulkUpload
     else if a = ''documents'' \<and> b = ''sync'' then Some SyncUpload
     else if b = ''search'' then Some SearchRoute
     else segments_kind (splitn 5 (CHR ''/'') (c @ rest)))"
proof -
  have "suffix ''/documents/bulk'' (coll_path c rest) \<longleftrightarrow> a = ''documents'' \<and> b = ''bulk''"
    "suffix ''/documents/sync'' (coll_path c rest) \<longleftrightarrow> a = ''documents'' \<and> b = ''sync''"
    using suffix_last_two [OF assms(1,2), of "''documents''" "''bulk''" xs]
      suffix_last_two [OF assms(1,2), of "''documents''" "''sync''" xs] by (simp_all add: assms(3))
  moreover have "suffix ''/search'' (coll_path c rest) \<longleftrightarrow> b = ''search''"
    using suffix_last [OF assms(2), of "''search''" "xs @ CHR ''/'' # a"] by (simp add: assms(3))
  moreover have "strip_prefix ''/v1/collections/'' (coll_path c rest) = Some (c @ rest)"
    by (simp add: strip_prefix_def coll_path_def)
  ultimately show ?thesis unfolding classify_api_route_def by simp
qed

lemma five: "5 = Suc (Suc (Suc (Suc (Suc 0))))"
  by simp

lemma classify_one: "segment_ok c \<Longrightarrow> classify_api_route (coll_path c []) = (if c = ''search'' then Some SearchRoute else None)"
  using classify_coll [of "''collections''" c c "[]" "''/v1''"]
  by (simp add: coll_path_def segment_ok_def splitn_single five del: splitn.simps)

lemma classify_two:
  assumes "segment_ok c" "segment_ok a"
  shows "classify_api_route (coll_path c (CHR ''/'' # a)) =
    (if c = ''documents'' \<and> a = ''bulk'' then Some BulkUpload
     else if c = ''documents'' \<and> a = ''sync'' then Some SyncUpload
     else if a = ''search'' then Some SearchRoute
     else if a = ''documents'' then Some AsyncUpload else None)"
  using assms classify_coll [of c a c "CHR ''/'' # a" "''/v1/collections''"]
  by (simp add: coll_path_def segment_ok_def splitn_single splitn_append five del: splitn.simps)

lemma classify_three:
  assumes "segment_ok c" "segment_ok a" "segment_ok b"
  shows "classify_api_route (coll_path c (CHR ''/'' # a @ CHR ''/'' # b)) =
    (if a = ''documents'' \<and> b = ''bulk'' then Some BulkUpload
     else if a = ''documents'' \<and> b = ''sync'' then Some SyncUpload
     else if b = ''search'' then Some SearchRoute
     else if a = ''documents'' then Some AsyncDelete else None)"
proof -
  have "splitn 5 (CHR ''/'') (c @ CHR ''/'' # a @ CHR ''/'' # b) = [c, a, b]"
    using assms by (simp add: segment_ok_def splitn_single splitn_append five del: splitn.simps)
  note segs = this
  have "CHR ''/'' \<notin> set a" "CHR ''/'' \<notin> set b" using assms by (simp_all add: segment_ok_def)
  then show ?thesis
    using classify_coll [of a b c "CHR ''/'' # a @ CHR ''/'' # b" "''/v1/collections/'' @ c"]
    by (simp only: segs segments_kind.simps) (simp add: coll_path_def)
qed

lemma classify_four:
  assumes "segment_ok c" "segment_ok d"
  shows "classify_api_route (coll_path c (''/documents/'' @ d @ ''/sync'')) =
    (if d = ''documents'' then Some SyncUpload else Some SyncDelete)"
proof -
  have "splitn 5 (CHR ''/'') (c @ CHR ''/'' # a @ CHR ''/'' # d @ CHR ''/'' # b) = [c, a, d, b]"
    if "segment_ok a" "segment_ok b" for a b
    using assms that by (simp add: segment_ok_def splitn_single splitn_append five del: splitn.simps)
  from this [of "''documents''" "''sync''"]
  have segs: "splitn 5 (CHR ''/'') (c @ ''/documents/'' @ d @ ''/sync'') = [c, ''documents'', d, ''sync'']"
    by (simp add: segment_ok_def del: splitn.simps)
  have "CHR ''/'' \<notin> set d" using assms by (simp add: segment_ok_def)
  then show ?thesis
    using classify_coll [of d "''sync''" c "''/documents/'' @ d @ ''/sync''" "''/v1/collections/'' @ c @ ''/documents''"]
    by (simp only: segs segments_kind.simps) (simp add: coll_path_def)
qed

lemma classify_documents: "segment_ok c \<Longrightarrow> classify_api_route (coll_path c ''/documents'') = Some AsyncUpload"
  using classify_two [of c "''documents''"] by (simp add: segment_ok_def)

lemma classify_search: "segment_ok c \<Longrightarrow> classify_api_route (coll_path c ''/search'') = Some SearchRoute"
  using classify_two [of c "''search''"] by (simp add: segment_ok_def)

lemma classify_other:
  "segment_ok c \<Longrightarrow> classify_api_route (coll_path c ''/queue'') = None"
  "segment_ok c \<Longrightarrow> classify_api_route (coll_path c ''/empty'') = None"
  using classify_two [of c "''queue''"] classify_two [of c "''empty''"] by (simp_all add: segment_ok_def)

lemma classify_document:
  "segment_ok c \<Longrightarrow> segment_ok d \<Longrightarrow> classify_api_route (coll_path c (''/documents/'' @ d)) =
    (if d = ''bulk'' then Some BulkUpload else if d = ''sync'' then Some SyncUpload
     else if d = ''search'' then Some SearchRoute else Some AsyncDelete)"
  using classify_three [of c "''documents''" d] by (simp add: segment_ok_def)

lemma classify_documents_at:
  "segment_ok c \<Longrightarrow> classify_api_route (coll_path c ''/documents/sync'') = Some SyncUpload"
  "segment_ok c \<Longrightarrow> classify_api_route (coll_path c ''/documents/bulk'') = Some BulkUpload"
  "segment_ok c \<Longrightarrow> classify_api_route (coll_path c ''/documents/fetch'') = Some AsyncDelete"
  using classify_document [of c "''sync''"] classify_document [of c "''bulk''"] classify_document [of c "''fetch''"]
  by (simp_all add: segment_ok_def)

lemmas classify_routes = classify_one classify_documents classify_search classify_other classify_document
  classify_documents_at classify_four classify_document [simplified] classify_four [simplified]

lemma operation_records_get: "operation_records ''GET'' kind elapsed_ms = []"
  by (simp add: operation_records_def)

lemma operation_records_route:
  assumes "\<forall>s\<in>set (route_params r). segment_ok s"
  shows "operation_records (fst (route_request r)) (classify_api_route (snd (route_request r))) elapsed_ms =
    metric_records (counted_as r) elapsed_ms"
proof (cases "fst (route_request r) = ''GET''")
  case True
  then show ?thesis by (cases r) (simp_all add: operation_records_get metric_records_def)
next
  case False
  then show ?thesis
    using assms by (cases r) (simp_all add: operation_records_def metric_records_def classify_routes)
qed

lemma counted_as_operation: "counted_as r = Some op \<Longrightarrow> op \<in> operation_keys"
  by (cases r) (auto split: if_splits)

section \<open>The channel takes what fits\<close>

lemma record_all_room:
  "mc_receiver_alive m \<Longrightarrow> length (mc_tx m) + length rs \<le> EVENT_BUFFER_MAXLEN \<Longrightarrow>
    mc_tx (record_all clock i rs m) =
      mc_tx m @ map (\<lambda>(j, key, v, n). record_event key [] v n (clock j)) (enumerate i rs) \<and>
    mc_receiver_alive (record_all clock i rs m)"
  by (induction clock i rs m rule: record_all.induct) (auto simp: record_metric_def)

lemma record_metric_bounded:
  "length (mc_tx m) \<le> EVENT_BUFFER_MAXLEN \<Longrightarrow> length (mc_tx (record_metric key dims v n now m)) \<le> EVENT_BUFFER_MAXLEN"
  by (simp add: record_metric_def)

lemma record_all_bounded:
  "length (mc_tx m) \<le> EVENT_BUFFER_MAXLEN \<Longrightarrow> length (mc_tx (record_all clock i rs m)) \<le> EVENT_BUFFER_MAXLEN"
  by (induction clock i rs m rule: record_all.induct) (simp_all add: record_metric_bounded)

section \<open>Requests are counted\<close>

definition example_collector :: metrics_collector where
  "example_collector = \<lparr>mc_tx = [], mc_receiver_alive = True, mc_dropping = True, mc_thread_dead_warned = False\<rparr>"

text \<open>The events of one request, and what they add under each key.\<close>

definition request_events :: "api_request \<Rightarrow> metric_event list" where
  "request_events q =
     map (\<lambda>(j, key, v, n). record_event key [] v n (aq_clock q j))
       (enumerate 0 (request_records (fst (route_request (aq_route q))) (snd (route_request (aq_route q))) (aq_status q) (aq_elapsed q)))"

lemma recorded_under_append [simp]: "recorded_under key (es @ fs) = recorded_under key es @ recorded_under key fs"
  by (simp add: recorded_under_def)

lemma recorded_under_records:
  "recorded_under key (map (\<lambda>(j, k, v, n). record_event k [] v n (clock j)) (enumerate i rs)) = map snd (filter (\<lambda>r. fst r = key) rs)"
  by (induction rs arbitrary: i) (auto simp: recorded_under_def record_event_def)

lemma keys_of_records:
  "me_key ` set (map (\<lambda>(j, k, v, n). record_event k [] v n (clock j)) (enumerate i rs)) = (\<lambda>r. [fst r]) ` set rs"
  by (induction rs arbitrary: i) (auto simp: record_event_def)

lemma request_records_route:
  "\<forall>s\<in>set (route_params r). segment_ok s \<Longrightarrow>
    request_records (fst (route_request r)) (snd (route_request r)) status elapsed_ms =
      [(''api_requests'', f64 1, None), (''api_request_ms'', elapsed_ms, Some 1)] @
      (if status \<ge> 500 then [(''api_error_5xx'', f64 1, None)]
       else if status \<ge> 400 then [(''api_error_4xx'', f64 1, None)] else []) @
      metric_records (counted_as r) elapsed_ms"
  by (simp add: request_records_def operation_records_route)

lemma request_events_length:
  "\<forall>s\<in>set (route_params (aq_route q)). segment_ok s \<Longrightarrow> length (request_events q) \<le> 5"
  by (simp add: request_events_def request_records_route metric_records_def split: option.split)

lemma operation_key_apart:
  "op \<in> operation_keys \<Longrightarrow> op \<notin> {''api_requests'', ''api_request_ms'', ''api_error_4xx'', ''api_error_5xx''}"
  "op \<in> operation_keys \<Longrightarrow> op @ ''_ms'' \<notin> {''api_requests'', ''api_request_ms'', ''api_error_4xx'', ''api_error_5xx''}"
  "op \<in> operation_keys \<Longrightarrow> k \<in> operation_keys \<Longrightarrow> op @ ''_ms'' \<noteq> k"
  by (elim insertE emptyE; simp)+

lemma metric_records_under:
  assumes "\<And>k. metric = Some k \<Longrightarrow> k \<in> operation_keys"
  shows "key \<in> {''api_requests'', ''api_request_ms'', ''api_error_4xx'', ''api_error_5xx''} \<Longrightarrow>
      filter (\<lambda>r. fst r = key) (metric_records metric t) = []"
    "op \<in> operation_keys \<Longrightarrow> map snd (filter (\<lambda>r. fst r = op) (metric_records metric t)) = (if metric = Some op then [(f64 1, None)] else [])"
    "op \<in> operation_keys \<Longrightarrow> map snd (filter (\<lambda>r. fst r = op @ ''_ms'') (metric_records metric t)) = (if metric = Some op then [(t, Some 1)] else [])"
proof -
  show "filter (\<lambda>r. fst r = key) (metric_records metric t) = []"
    if key: "key \<in> {''api_requests'', ''api_request_ms'', ''api_error_4xx'', ''api_error_5xx''}"
  proof (cases metric)
    case None
    then show ?thesis by (simp add: metric_records_def)
  next
    case (Some k)
    have "k \<noteq> key" "k @ ''_ms'' \<noteq> key"
      using operation_key_apart(1,2) [OF assms [OF Some]] key by metis+
    then show ?thesis by (simp add: metric_records_def Some)
  qed
  show "map snd (filter (\<lambda>r. fst r = op) (metric_records metric t)) = (if metric = Some op then [(f64 1, None)] else [])"
    if op: "op \<in> operation_keys"
  proof (cases metric)
    case None
    then show ?thesis by (simp add: metric_records_def)
  next
    case (Some k)
    show ?thesis using operation_key_apart(3) [OF assms [OF Some] op] by (simp add: metric_records_def Some)
  qed
  show "map snd (filter (\<lambda>r. fst r = op @ ''_ms'') (metric_records metric t)) = (if metric = Some op then [(t, Some 1)] else [])"
    if op: "op \<in> operation_keys"
  proof (cases metric)
    case None
    then show ?thesis by (simp add: metric_records_def)
  next
    case (Some k)
    show ?thesis using operation_key_apart(3) [OF op assms [OF Some]] by (auto simp: metric_records_def Some)
  qed
qed

lemma request_counts:
  assumes "\<forall>s\<in>set (route_params (aq_route q)). segment_ok s"
  shows "recorded_under ''api_requests'' (request_events q) = one_each [q]"
    "recorded_under ''api_request_ms'' (request_events q) = duration_each [q]"
    "recorded_under ''api_error_5xx'' (request_events q) = one_each (filter (\<lambda>q. 500 \<le> aq_status q) [q])"
    "recorded_under ''api_error_4xx'' (request_events q) = one_each (filter (\<lambda>q. 400 \<le> aq_status q \<and> aq_status q < 500) [q])"
    "op \<in> operation_keys \<Longrightarrow> recorded_under op (request_events q) = one_each (filter (\<lambda>q. counted_as (aq_route q) = Some op) [q])"
    "op \<in> operation_keys \<Longrightarrow> recorded_under (op @ ''_ms'') (request_events q) = duration_each (filter (\<lambda>q. counted_as (aq_route q) = Some op) [q])"
proof -
  have under: "key \<in> {''api_requests'', ''api_request_ms'', ''api_error_4xx'', ''api_error_5xx''} \<Longrightarrow>
      filter (\<lambda>r. fst r = key) (metric_records (counted_as (aq_route q)) t) = []" for key t
    by (rule metric_records_under(1)) (erule counted_as_operation)
  let ?shared = "[(''api_requests'', f64 1, None), (''api_request_ms'', aq_elapsed q, Some 1)] @
      (if aq_status q \<ge> 500 then [(''api_error_5xx'', f64 1, None)]
       else if aq_status q \<ge> 400 then [(''api_error_4xx'', f64 1, None)] else []) :: (string \<times> fp \<times> int option) list"
  have split: "recorded_under key (request_events q) =
      map snd (filter (\<lambda>r. fst r = key) ?shared) @ map snd (filter (\<lambda>r. fst r = key) (metric_records (counted_as (aq_route q)) (aq_elapsed q)))" for key
    unfolding request_events_def recorded_under_records request_records_route [OF assms] by (simp only: filter_append map_append append_assoc)
  show "recorded_under ''api_requests'' (request_events q) = one_each [q]"
    "recorded_under ''api_request_ms'' (request_events q) = duration_each [q]"
    "recorded_under ''api_error_5xx'' (request_events q) = one_each (filter (\<lambda>q. 500 \<le> aq_status q) [q])"
    "recorded_under ''api_error_4xx'' (request_events q) = one_each (filter (\<lambda>q. 400 \<le> aq_status q \<and> aq_status q < 500) [q])"
    unfolding split by (simp_all add: under)
  have none: "map snd (filter (\<lambda>r. fst r = key) ?shared) = []"
    if "key \<notin> {''api_requests'', ''api_request_ms'', ''api_error_4xx'', ''api_error_5xx''}" for key
    using that by auto
  show "recorded_under op (request_events q) = one_each (filter (\<lambda>q. counted_as (aq_route q) = Some op) [q])"
    "recorded_under (op @ ''_ms'') (request_events q) = duration_each (filter (\<lambda>q. counted_as (aq_route q) = Some op) [q])"
    if op: "op \<in> operation_keys"
    unfolding split none [OF operation_key_apart(1) [OF op]] none [OF operation_key_apart(2) [OF op]]
    by (subst metric_records_under(2) [OF counted_as_operation op], assumption, simp)
      (subst metric_records_under(3) [OF counted_as_operation op], assumption, simp)
qed

abbreviation request_keys :: "string set" where
  "request_keys \<equiv> {''api_requests'', ''api_request_ms'', ''api_error_4xx'', ''api_error_5xx''} \<union> operation_keys \<union> (\<lambda>op. op @ ''_ms'') ` operation_keys"

lemma request_events_keys:
  assumes "\<forall>s\<in>set (route_params (aq_route q)). segment_ok s"
  shows "me_key ` set (request_events q) \<subseteq> (\<lambda>k. [k]) ` request_keys"
proof -
  have "(\<lambda>r. [fst r]) ` set (metric_records (counted_as (aq_route q)) t) \<subseteq> (\<lambda>k. [k]) ` (operation_keys \<union> (\<lambda>op. op @ ''_ms'') ` operation_keys)" for t
    using counted_as_operation [of "aq_route q"] by (cases "counted_as (aq_route q)") (auto simp: metric_records_def)
  then show ?thesis
    unfolding request_events_def keys_of_records request_records_route [OF assms] by (auto split: if_splits)
qed

lemma middleware_events:
  assumes "\<forall>s\<in>set (route_params (aq_route q)). segment_ok s" "mc_receiver_alive m" "length (mc_tx m) + 5 \<le> EVENT_BUFFER_MAXLEN"
  obtains m' where "api_metrics_middleware (aq_clock q) (fst (route_request (aq_route q))) (snd (route_request (aq_route q)))
      (aq_status q) (aq_elapsed q) (Some m) = Some m'" "mc_tx m' = mc_tx m @ request_events q" "mc_receiver_alive m'"
proof -
  let ?rs = "request_records (fst (route_request (aq_route q))) (snd (route_request (aq_route q))) (aq_status q) (aq_elapsed q)"
  have "length ?rs \<le> 5" using request_events_length [OF assms(1)] by (simp add: request_events_def)
  then have "length (mc_tx m) + length ?rs \<le> EVENT_BUFFER_MAXLEN" using assms(3) by linarith
  from record_all_room [OF assms(2) this, of "aq_clock q" 0] show thesis
    by (intro that [of "record_all (aq_clock q) 0 ?rs m"]) (simp_all add: api_metrics_middleware_def request_events_def)
qed

lemma count_requests_events:
  assumes "\<forall>q\<in>set qs. \<forall>s\<in>set (route_params (aq_route q)). segment_ok s"
    "mc_receiver_alive m" "length (mc_tx m) + 5 * length qs \<le> EVENT_BUFFER_MAXLEN"
  shows "\<exists>m'. count_requests qs (Some m) = Some m' \<and> mc_tx m' = mc_tx m @ concat (map request_events qs)"
  using assms
proof (induction qs arbitrary: m)
  case Nil
  then show ?case by simp
next
  case (Cons q qs)
  have q: "\<forall>s\<in>set (route_params (aq_route q)). segment_ok s" using Cons.prems(1) by simp
  obtain m1 where m1: "api_metrics_middleware (aq_clock q) (fst (route_request (aq_route q))) (snd (route_request (aq_route q)))
      (aq_status q) (aq_elapsed q) (Some m) = Some m1" "mc_tx m1 = mc_tx m @ request_events q" "mc_receiver_alive m1"
    using middleware_events [OF q Cons.prems(2)] Cons.prems(3) by auto
  have "length (mc_tx m1) + 5 * length qs \<le> EVENT_BUFFER_MAXLEN"
    using Cons.prems(3) request_events_length [OF q] by (simp add: m1(2))
  then show ?case using Cons.IH [OF _ m1(3)] Cons.prems(1) by (auto simp: m1)
qed

lemma recorded_under_concat:
  assumes "\<And>q. q \<in> set qs \<Longrightarrow> recorded_under key (f q) = map g (filter P [q])"
  shows "recorded_under key (concat (map f qs)) = map g (filter P qs)"
  using assms by (induction qs) (simp_all, simp add: recorded_under_def)

lemma sequence_counts:
  assumes "\<forall>q\<in>set qs. \<forall>s\<in>set (route_params (aq_route q)). segment_ok s"
  shows "recorded_under ''api_requests'' (concat (map request_events qs)) = one_each qs"
    "recorded_under ''api_request_ms'' (concat (map request_events qs)) = duration_each qs"
    "recorded_under ''api_error_5xx'' (concat (map request_events qs)) = one_each (filter (\<lambda>q. 500 \<le> aq_status q) qs)"
    "recorded_under ''api_error_4xx'' (concat (map request_events qs)) =
       one_each (filter (\<lambda>q. 400 \<le> aq_status q \<and> aq_status q < 500) qs)"
    "op \<in> operation_keys \<Longrightarrow> recorded_under op (concat (map request_events qs)) =
       one_each (filter (\<lambda>q. counted_as (aq_route q) = Some op) qs)"
    "op \<in> operation_keys \<Longrightarrow> recorded_under (op @ ''_ms'') (concat (map request_events qs)) =
       duration_each (filter (\<lambda>q. counted_as (aq_route q) = Some op) qs)"
    "me_key ` set (concat (map request_events qs)) \<subseteq> (\<lambda>k. [k]) ` request_keys"
proof -
  have ok: "q \<in> set qs \<Longrightarrow> \<forall>s\<in>set (route_params (aq_route q)). segment_ok s" for q using assms by blast
  show "recorded_under ''api_requests'' (concat (map request_events qs)) = one_each qs"
    "recorded_under ''api_request_ms'' (concat (map request_events qs)) = duration_each qs"
    using recorded_under_concat [of qs _ request_events _ "\<lambda>_. True"] request_counts(1,2) [OF ok] by simp_all
  show "recorded_under ''api_error_5xx'' (concat (map request_events qs)) = one_each (filter (\<lambda>q. 500 \<le> aq_status q) qs)"
    "recorded_under ''api_error_4xx'' (concat (map request_events qs)) =
      one_each (filter (\<lambda>q. 400 \<le> aq_status q \<and> aq_status q < 500) qs)"
    by (rule recorded_under_concat, erule request_counts(3,4) [OF ok])+
  show "recorded_under op (concat (map request_events qs)) = one_each (filter (\<lambda>q. counted_as (aq_route q) = Some op) qs)"
    "recorded_under (op @ ''_ms'') (concat (map request_events qs)) =
      duration_each (filter (\<lambda>q. counted_as (aq_route q) = Some op) qs)" if op: "op \<in> operation_keys"
    by (rule recorded_under_concat, rule request_counts(5,6) [OF ok op], assumption)+
  have "me_key e \<in> (\<lambda>k. [k]) ` request_keys" if "q \<in> set qs" "e \<in> set (request_events q)" for q e
    using subsetD [OF request_events_keys [OF ok [OF that(1)]], of "me_key e"] that(2) by blast
  then show "me_key ` set (concat (map request_events qs)) \<subseteq> (\<lambda>k. [k]) ` request_keys"
    unfolding set_concat set_map by blast
qed

text \<open>C40: while the channel has room, any sequence of requests of the routes leaves in the channel, behind what it
  held, exactly one request count and one duration for each of them, one error of its class for each that failed, and
  one count and one duration of its operation for each request whose route is counted under that operation, with
  the durations in the order of the requests; under no other key is anything recorded. A route is counted
  under the operation it stands for, except for the creation of a collection \<open>search\<close>, which counts as a search,
  and for the deletes of the document ids \<open>bulk\<close>, \<open>sync\<close>, \<open>search\<close> and, synchronously, \<open>documents\<close>, which count
  under none.\<close>

theorem requests_counted:
  assumes "\<forall>q\<in>set qs. \<forall>s\<in>set (route_params (aq_route q)). segment_ok s"
    "mc_receiver_alive m" "length (mc_tx m) + 5 * length qs \<le> EVENT_BUFFER_MAXLEN"
  shows "\<exists>m' es. count_requests qs (Some m) = Some m' \<and> mc_tx m' = mc_tx m @ es \<and>
    recorded_under ''api_requests'' es = map (\<lambda>q. (f64 1, None)) qs \<and>
    recorded_under ''api_request_ms'' es = map (\<lambda>q. (aq_elapsed q, Some 1)) qs \<and>
    recorded_under ''api_error_4xx'' es = map (\<lambda>q. (f64 1, None)) (filter (\<lambda>q. 400 \<le> aq_status q \<and> aq_status q < 500) qs) \<and>
    recorded_under ''api_error_5xx'' es = map (\<lambda>q. (f64 1, None)) (filter (\<lambda>q. 500 \<le> aq_status q) qs) \<and>
    (\<forall>op\<in>operation_keys.
       recorded_under op es = map (\<lambda>q. (f64 1, None)) (filter (\<lambda>q. counted_as (aq_route q) = Some op) qs) \<and>
       recorded_under (op @ ''_ms'') es = map (\<lambda>q. (aq_elapsed q, Some 1)) (filter (\<lambda>q. counted_as (aq_route q) = Some op) qs)) \<and>
    me_key ` set es \<subseteq> (\<lambda>k. [k]) ` request_keys"
proof -
  obtain m' where "count_requests qs (Some m) = Some m'" "mc_tx m' = mc_tx m @ concat (map request_events qs)"
    using count_requests_events [OF assms] by blast
  then show ?thesis
    by (intro exI [of _ m'] exI [of _ "concat (map request_events qs)"] conjI ballI sequence_counts [OF assms(1)])
qed

definition example_requests :: "api_request list" where
  "example_requests =
     [\<lparr>aq_route = Search_collection ''products'', aq_status = 404, aq_elapsed = f64 3, aq_clock = (\<lambda>_. f64 7)\<rparr>,
      \<lparr>aq_route = Create_collection ''search'', aq_status = 200, aq_elapsed = f64 5, aq_clock = (\<lambda>_. f64 8)\<rparr>]"

theorem requests_counted_witness:
  "\<exists>m' es. count_requests example_requests (Some example_collector) = Some m' \<and> mc_tx m' = es \<and>
     recorded_under ''api_requests'' es = [(f64 1, None), (f64 1, None)] \<and>
     recorded_under ''api_error_4xx'' es = [(f64 1, None)] \<and> recorded_under ''api_error_5xx'' es = [] \<and>
     recorded_under ''api_search_ms'' es = [(f64 3, Some 1), (f64 5, Some 1)]"
proof -
  have "\<forall>q\<in>set example_requests. \<forall>s\<in>set (route_params (aq_route q)). segment_ok s"
    by (simp add: example_requests_def segment_ok_def)
  moreover have "mc_receiver_alive example_collector"
    "length (mc_tx example_collector) + 5 * length example_requests \<le> EVENT_BUFFER_MAXLEN"
    by (simp_all add: example_collector_def example_requests_def EVENT_BUFFER_MAXLEN_def)
  ultimately obtain m' es where
    run: "count_requests example_requests (Some example_collector) = Some m'" "mc_tx m' = mc_tx example_collector @ es" and
    all: "recorded_under ''api_requests'' es = map (\<lambda>q. (f64 1, None)) example_requests"
      "recorded_under ''api_error_4xx'' es =
        map (\<lambda>q. (f64 1, None)) (filter (\<lambda>q. 400 \<le> aq_status q \<and> aq_status q < 500) example_requests)"
      "recorded_under ''api_error_5xx'' es = map (\<lambda>q. (f64 1, None)) (filter (\<lambda>q. 500 \<le> aq_status q) example_requests)" and
    ops: "\<forall>op\<in>operation_keys.
       recorded_under op es = map (\<lambda>q. (f64 1, None)) (filter (\<lambda>q. counted_as (aq_route q) = Some op) example_requests) \<and>
       recorded_under (op @ ''_ms'') es =
         map (\<lambda>q. (aq_elapsed q, Some 1)) (filter (\<lambda>q. counted_as (aq_route q) = Some op) example_requests)"
    using requests_counted [of example_requests example_collector] by meson
  have "recorded_under (''api_search'' @ ''_ms'') es = [(f64 3, Some 1), (f64 5, Some 1)]"
    using bspec [OF ops, of "''api_search''"] by (simp add: example_requests_def)
  moreover have "mc_tx m' = es" using run(2) by (simp add: example_collector_def)
  ultimately show ?thesis using run(1) all by (intro exI [of _ m'] exI [of _ es]) (simp add: example_requests_def)
qed

text \<open>
  The endings that \<open>classify_api_route\<close> looks at first belong to other routes too: creating a
  collection called \<open>search\<close> counts as a search, and deleting a document with the id \<open>search\<close> or,
  synchronously, \<open>documents\<close> is not counted as a delete.
\<close>

lemma misread_routes:
  "request_records ''POST'' ''/v1/collections/search'' 200 t =
     [(''api_requests'', f64 1, None), (''api_request_ms'', t, Some 1), (''api_search'', f64 1, None), (''api_search_ms'', t, Some 1)]"
  "segment_ok c \<Longrightarrow> request_records ''DELETE'' (coll_path c ''/documents/search'') 200 t =
     [(''api_requests'', f64 1, None), (''api_request_ms'', t, Some 1)]"
  "segment_ok c \<Longrightarrow> request_records ''DELETE'' (coll_path c ''/documents/documents/sync'') 200 t =
     [(''api_requests'', f64 1, None), (''api_request_ms'', t, Some 1)]"
  using classify_one [of "''search''"] classify_document [of c "''search''"] classify_four [of c "''documents''"]
  by (simp_all add: request_records_def operation_records_def segment_ok_def coll_path_def)

section \<open>Written buckets\<close>

text \<open>
  A flush that wrote its batch but was told of an error is repeated with the same buckets: writing them
  again, alone or with newer ones behind them, changes nothing.
\<close>

lemma append_again:
  "map_of (append_metric_buckets uuid host source bs (append_metric_buckets uuid host source bs points)) =
     map_of (append_metric_buckets uuid host source bs points)"
proof -
  have "(m ++ f) ++ f = m ++ f" for m f :: "string \<rightharpoonup> (string \<times> json) list"
    by (rule ext) (simp add: map_add_def split: option.split)
  then show ?thesis by (simp add: append_metric_buckets_def updates_conv' map_upds_def)
qed

text \<open>
  The identity of a bucket joins its dimensions with colons, which the dimensions may contain: buckets
  of different series can have one identity, and the later one overwrites the earlier.
\<close>

lemma bucket_identity_ambiguous:
  assumes "mb_dims b = [''dense'', ''org/model:a'', ''b'']" "b' = b\<lparr>mb_dims := [''dense'', ''org/model'', ''a:b'']\<rparr>"
  shows "bucket_id b \<noteq> bucket_id b' \<and> bucket_identity host source b = bucket_identity host source b' \<and>
    map_of (append_metric_buckets uuid host source [b, b'] []) (uuid (bucket_identity host source b)) =
      Some (bucket_payload host source b')"
  using assms by (simp add: bucket_id_def bucket_identity_def joined_def append_metric_buckets_def)

end
