(* ===== verification/Lock_Cluster.thy ===== *)
theory Lock_Cluster
  imports Locks Bunny_Talk
begin

text \<open>
  Document locks in a cluster: \<open>LockClient\<close> and \<open>LockGuard\<close> of \<open>src/src/lock_client.rs\<close> and \<open>LockBackend\<close> of
  \<open>src/src/encoder.rs\<close>. The lock service is another program: its table and its two operations are
  arguments, with the laws \<open>service_ok\<close>. It grants a lock again to the owner that has it, and all tasks
  of a process have one owner id, so that the exclusion of two tasks of a process rests on the local
  lock that a task holds from before its first request until after its last release. A lock expires at
  the service some time after it was granted, whether its holder is done or not, and the client never
  refreshes a lock: exclusion holds for the locks that have not expired.
\<close>

section \<open>Messages of the lock service\<close>

definition LOCK_SERVICE :: string where "LOCK_SERVICE = ''lock-service''"
definition RPC_ATTEMPT_TIMEOUT :: nat where "RPC_ATTEMPT_TIMEOUT = 2"

definition lock_request :: "string \<Rightarrow> string list \<Rightarrow> string \<Rightarrow> json" where
  "lock_request action lock_names owner_id =
     Object [(''action'', String action), (''lock_names'', Array (map String lock_names)), (''owner_id'', String owner_id)]"

fun as_bool :: "json \<Rightarrow> bool option" where
  "as_bool (Bool b) = Some b"
| "as_bool _ = None"

definition rpc_acquire :: "string + rpc_response \<Rightarrow> string + bool" where
  "rpc_acquire reply =
     and_then reply (\<lambda>resp.
       if \<not> rr_success resp then Inl (unwrap_or ''lock-service returned failure'' (rr_error resp))
       else Inr (unwrap_or False (Option.bind (rr_result resp) as_bool)))"

definition rpc_unit :: "string \<Rightarrow> string + rpc_response \<Rightarrow> string + unit" where
  "rpc_unit default_error reply =
     and_then reply (\<lambda>resp. if \<not> rr_success resp then Inl (unwrap_or default_error (rr_error resp)) else Inr ())"

definition client_release :: "string + rpc_response \<Rightarrow> string + unit" where
  "client_release = rpc_unit ''lock-service release failed''"

definition client_refresh :: "string + rpc_response \<Rightarrow> string + unit" where
  "client_refresh = rpc_unit ''lock-service refresh failed''"

fun release_reply :: "string + rpc_response \<Rightarrow> rpc_reply" where
  "release_reply (Inl e) = RpcFailed e"
| "release_reply (Inr r) = (if rr_success r then RpcDone else RpcRefused (rr_error r))"

section \<open>The backend\<close>

datatype lock_backend = LocalBackend | DistributedBackend

definition LOCK_TIMEOUT_MS :: nat where "LOCK_TIMEOUT_MS = 60000"

text \<open>
  \<open>lock\<close> of the backend: the number of the successful attempt for a distributed lock. \<open>local_ready\<close> is the
  time at which a local lock is obtained, if it is; \<open>show_error\<close> prints a lock error.
\<close>

definition backend_lock ::
    "(lock_error \<Rightarrow> string) \<Rightarrow> lock_backend \<Rightarrow> (string \<Rightarrow> nat option) \<Rightarrow> (nat \<Rightarrow> string + rpc_response) \<Rightarrow> (nat \<Rightarrow> nat) \<Rightarrow>
     nat \<Rightarrow> string \<Rightarrow> (string + nat option) option" where
  "backend_lock show_error backend local_ready replies clock fuel key =
     (case backend of
        LocalBackend \<Rightarrow> map_option (\<lambda>_. Inr None) (local_ready key)
      | DistributedBackend \<Rightarrow>
          map_option (\<lambda>r. map_err show_error (and_then r (\<lambda>a. Inr (Some a))))
            (lock_acquire local_ready (rpc_acquire \<circ> replies) clock LOCK_TIMEOUT_MS fuel [key]))"

text \<open>Once it has the local lock, the backend has the lock or gives up within 601 attempts.\<close>

lemma backend_lock_returns:
  assumes "sleeps clock" "600 < fuel" "local_ready key = Some ready" "ready \<le> clock 0"
  shows "\<exists>r. backend_lock show_error backend local_ready replies clock fuel key = Some r"
proof -
  obtain f where f: "fuel = Suc f" "600 \<le> f" using assms(2) by (cases fuel) auto
  then have "ready + LOCK_TIMEOUT_MS \<le> clock 0 + 100 * f" using assms(4) by (simp add: LOCK_TIMEOUT_MS_def)
  note loop = acquire_loop_outcome [OF assms(1) this, of "rpc_acquire \<circ> replies" None "[key]"]
  have "local_lock_key [key] = key" by (simp add: local_lock_key_def sort_by_def)
  then show ?thesis using loop assms(3)
    by (auto simp: backend_lock_def lock_acquire_def f(1) simp del: acquire_loop.simps split: lock_backend.split)
qed

section \<open>The cluster\<close>

text \<open>
  A task of the process \<open>lh_owner\<close> wants the lock \<open>lh_key\<close>: it waits for the local lock, sends requests until one
  is granted, holds the lock, sends releases, at most three, and is done. A number identifies a request.
\<close>

datatype lock_phase =
    WaitingLocal
  | Trying "nat option"
  | Held
  | Releasing nat
  | Done

text \<open>\<open>lh_expired\<close> is for the properties only: the lock granted to the task has expired at the service.\<close>

record lock_holder =
  lh_owner :: string
  lh_key :: string
  lh_phase :: lock_phase
  lh_expired :: bool

datatype service_message =
    AcquireMsg nat string string
  | ReleaseMsg string string

record 'tab cluster =
  cl_tasks :: "lock_holder list"
  cl_queue :: "service_message list"
  cl_table :: 'tab
  cl_granted :: "nat list"
  cl_next :: nat

fun has_local_guard :: "lock_phase \<Rightarrow> bool" where
  "has_local_guard WaitingLocal \<longleftrightarrow> False"
| "has_local_guard Done \<longleftrightarrow> False"
| "has_local_guard _ \<longleftrightarrow> True"

definition local_free :: "'tab cluster \<Rightarrow> string \<Rightarrow> string \<Rightarrow> bool" where
  "local_free c owner key \<longleftrightarrow>
     list_all (\<lambda>h. has_local_guard (lh_phase h) \<longrightarrow> lh_owner h \<noteq> owner \<or> lh_key h \<noteq> key) (cl_tasks c)"

definition set_phase :: "nat \<Rightarrow> lock_phase \<Rightarrow> 'tab cluster \<Rightarrow> 'tab cluster" where
  "set_phase i ph c = c\<lparr>cl_tasks := (cl_tasks c)[i := (cl_tasks c ! i)\<lparr>lh_phase := ph\<rparr>]\<rparr>"

definition cluster_new :: "'tab \<Rightarrow> 'tab cluster" where
  "cluster_new tab = \<lparr>cl_tasks = [], cl_queue = [], cl_table = tab, cl_granted = [], cl_next = 0\<rparr>"

definition sending :: "bool \<Rightarrow> service_message list \<Rightarrow> service_message \<Rightarrow> service_message list" where
  "sending sent q m = (if sent then q @ [m] else q)"

text \<open>The task was granted its lock.\<close>

fun got_lock :: "nat list \<Rightarrow> lock_phase \<Rightarrow> bool" where
  "got_lock granted (Trying (Some n)) \<longleftrightarrow> n \<in> set granted"
| "got_lock granted Held \<longleftrightarrow> True"
| "got_lock granted _ \<longleftrightarrow> False"

definition expire_tasks :: "string \<Rightarrow> string \<Rightarrow> 'tab cluster \<Rightarrow> lock_holder list" where
  "expire_tasks key owner c =
     map (\<lambda>h. if lh_key h = key \<and> lh_owner h = owner \<and> got_lock (cl_granted c) (lh_phase h) then h\<lparr>lh_expired := True\<rparr> else h)
       (cl_tasks c)"

definition renew :: "nat \<Rightarrow> 'tab cluster \<Rightarrow> 'tab cluster" where
  "renew i c = c\<lparr>cl_tasks := (cl_tasks c)[i := (cl_tasks c ! i)\<lparr>lh_expired := False\<rparr>]\<rparr>"

abbreviation task_in :: "'tab cluster \<Rightarrow> nat \<Rightarrow> lock_phase \<Rightarrow> bool" where
  "task_in c i ph \<equiv> i < length (cl_tasks c) \<and> lh_phase (cl_tasks c ! i) = ph"

text \<open>
  The messages reach the service in the order in which they were sent, unless publishing fails; one that
  has expired is dropped when its turn comes. A request is tried again when it was refused, failed or timed out, and a task
  may stop trying at any moment. A release is sent again when it timed out. At any time the service may
  drop a lock because it has expired.
\<close>

inductive cluster_step ::
    "(string \<Rightarrow> string \<Rightarrow> 'tab \<Rightarrow> 'tab \<times> bool) \<Rightarrow> (string \<Rightarrow> string \<Rightarrow> 'tab \<Rightarrow> 'tab) \<Rightarrow> (string \<Rightarrow> 'tab \<Rightarrow> 'tab) \<Rightarrow>
     ('tab \<Rightarrow> string \<Rightarrow> string option) \<Rightarrow> 'tab cluster \<Rightarrow> 'tab cluster \<Rightarrow> bool"
  for acq rel expire holder where
  cs_begin: "cluster_step acq rel expire holder c
    (c\<lparr>cl_tasks := cl_tasks c @ [\<lparr>lh_owner = owner, lh_key = key, lh_phase = WaitingLocal, lh_expired = False\<rparr>]\<rparr>)"
| cs_local: "task_in c i WaitingLocal \<Longrightarrow> local_free c (lh_owner (cl_tasks c ! i)) (lh_key (cl_tasks c ! i)) \<Longrightarrow>
    cluster_step acq rel expire holder c (set_phase i (Trying None) c)"
| cs_request: "task_in c i (Trying None) \<Longrightarrow>
    cluster_step acq rel expire holder c
      ((set_phase i (Trying (Some (cl_next c))) (renew i c))
         \<lparr>cl_queue := sending sent (cl_queue c) (AcquireMsg (cl_next c) (lh_key (cl_tasks c ! i)) (lh_owner (cl_tasks c ! i))),
          cl_next := Suc (cl_next c)\<rparr>)"
| cs_serve_acquire: "cl_queue c = AcquireMsg n key owner # q \<Longrightarrow> acq key owner (cl_table c) = (tab, ok) \<Longrightarrow>
    cluster_step acq rel expire holder c
      (c\<lparr>cl_queue := q, cl_table := tab, cl_granted := (if ok then n # cl_granted c else cl_granted c)\<rparr>)"
| cs_serve_release: "cl_queue c = ReleaseMsg key owner # q \<Longrightarrow>
    cluster_step acq rel expire holder c (c\<lparr>cl_queue := q, cl_table := rel key owner (cl_table c)\<rparr>)"
| cs_lock_expires: "holder (cl_table c) key = Some owner \<Longrightarrow>
    cluster_step acq rel expire holder c (c\<lparr>cl_table := expire key (cl_table c), cl_tasks := expire_tasks key owner c\<rparr>)"
| cs_expired: "cl_queue c = m # q \<Longrightarrow> cluster_step acq rel expire holder c (c\<lparr>cl_queue := q\<rparr>)"
| cs_granted: "task_in c i (Trying (Some n)) \<Longrightarrow> n \<in> set (cl_granted c) \<Longrightarrow> cluster_step acq rel expire holder c (set_phase i Held c)"
| cs_retry: "task_in c i (Trying (Some n)) \<Longrightarrow> cluster_step acq rel expire holder c (set_phase i (Trying None) c)"
| cs_give_up: "task_in c i (Trying call) \<Longrightarrow> cluster_step acq rel expire holder c (set_phase i Done c)"
| cs_release: "task_in c i Held \<Longrightarrow>
    cluster_step acq rel expire holder c
      ((set_phase i (Releasing 1) c)
         \<lparr>cl_queue := sending sent (cl_queue c) (ReleaseMsg (lh_key (cl_tasks c ! i)) (lh_owner (cl_tasks c ! i)))\<rparr>)"
| cs_release_again: "task_in c i (Releasing a) \<Longrightarrow> a < RELEASE_MAX_ATTEMPTS \<Longrightarrow>
    cluster_step acq rel expire holder c
      ((set_phase i (Releasing (Suc a)) c)
         \<lparr>cl_queue := sending sent (cl_queue c) (ReleaseMsg (lh_key (cl_tasks c ! i)) (lh_owner (cl_tasks c ! i)))\<rparr>)"
| cs_released: "task_in c i (Releasing a) \<Longrightarrow> cluster_step acq rel expire holder c (set_phase i Done c)"

text \<open>
  The laws of the service: it grants a free lock or one the owner has, releases for the owner only, and
  a lock that expires is free while the others stay as they are.
\<close>

definition service_ok ::
    "(string \<Rightarrow> string \<Rightarrow> 'tab \<Rightarrow> 'tab \<times> bool) \<Rightarrow> (string \<Rightarrow> string \<Rightarrow> 'tab \<Rightarrow> 'tab) \<Rightarrow> (string \<Rightarrow> 'tab \<Rightarrow> 'tab) \<Rightarrow>
     ('tab \<Rightarrow> string \<Rightarrow> string option) \<Rightarrow> bool" where
  "service_ok acq rel expire holder \<longleftrightarrow>
     (\<forall>key owner tab tab' ok. acq key owner tab = (tab', ok) \<longrightarrow>
        (ok \<longrightarrow> holder tab key \<in> {None, Some owner} \<and> holder tab' key = Some owner) \<and>
        (\<not> ok \<longrightarrow> holder tab' key = holder tab key) \<and> (\<forall>k. k \<noteq> key \<longrightarrow> holder tab' k = holder tab k)) \<and>
     (\<forall>key owner tab. (\<forall>k. k \<noteq> key \<longrightarrow> holder (rel key owner tab) k = holder tab k) \<and>
        (\<forall>other. other \<noteq> owner \<longrightarrow> holder tab key = Some other \<longrightarrow> holder (rel key owner tab) key = Some other)) \<and>
     (\<forall>key tab. holder (expire key tab) key = None \<and> (\<forall>k. k \<noteq> key \<longrightarrow> holder (expire key tab) k = holder tab k))"

section \<open>Invariant\<close>

fun clean_after :: "nat \<Rightarrow> string \<Rightarrow> string \<Rightarrow> service_message list \<Rightarrow> bool" where
  "clean_after n key owner [] \<longleftrightarrow> True"
| "clean_after n key owner (m # q) \<longleftrightarrow>
     (\<forall>k p. m = AcquireMsg n k p \<longrightarrow> k = key \<and> p = owner \<and> ReleaseMsg key owner \<notin> set q) \<and> clean_after n key owner q"

definition owned :: "('tab \<Rightarrow> string \<Rightarrow> string option) \<Rightarrow> string \<Rightarrow> string \<Rightarrow> 'tab cluster \<Rightarrow> bool" where
  "owned holder key owner c \<longleftrightarrow> holder (cl_table c) key = Some owner \<and> ReleaseMsg key owner \<notin> set (cl_queue c)"

fun phase_ok :: "('tab \<Rightarrow> string \<Rightarrow> string option) \<Rightarrow> 'tab cluster \<Rightarrow> string \<Rightarrow> string \<Rightarrow> bool \<Rightarrow> lock_phase \<Rightarrow> bool" where
  "phase_ok holder c key owner expired (Trying (Some n)) \<longleftrightarrow>
     n < cl_next c \<and> clean_after n key owner (cl_queue c) \<and>
     (n \<in> set (cl_granted c) \<longrightarrow> \<not> expired \<longrightarrow> owned holder key owner c)"
| "phase_ok holder c key owner expired Held \<longleftrightarrow> (\<not> expired \<longrightarrow> owned holder key owner c)"
| "phase_ok holder c key owner expired _ \<longleftrightarrow> True"

definition numbers_ok :: "'tab cluster \<Rightarrow> bool" where
  "numbers_ok c \<longleftrightarrow> (\<forall>n\<in>set (cl_granted c). n < cl_next c) \<and> (\<forall>n k p. AcquireMsg n k p \<in> set (cl_queue c) \<longrightarrow> n < cl_next c)"

definition local_exclusive :: "lock_holder list \<Rightarrow> bool" where
  "local_exclusive ts \<longleftrightarrow>
     (\<forall>i j. i < length ts \<longrightarrow> j < length ts \<longrightarrow> has_local_guard (lh_phase (ts ! i)) \<longrightarrow> has_local_guard (lh_phase (ts ! j)) \<longrightarrow>
        lh_owner (ts ! i) = lh_owner (ts ! j) \<longrightarrow> lh_key (ts ! i) = lh_key (ts ! j) \<longrightarrow> i = j)"

definition cluster_inv :: "('tab \<Rightarrow> string \<Rightarrow> string option) \<Rightarrow> 'tab cluster \<Rightarrow> bool" where
  "cluster_inv holder c \<longleftrightarrow> numbers_ok c \<and> local_exclusive (cl_tasks c) \<and>
     (\<forall>h\<in>set (cl_tasks c). phase_ok holder c (lh_key h) (lh_owner h) (lh_expired h) (lh_phase h))"

lemma clean_after_no_release: "(\<forall>m\<in>set q. \<forall>k p. m = AcquireMsg n k p \<longrightarrow> k = key \<and> p = owner) \<Longrightarrow> ReleaseMsg key owner \<notin> set q \<Longrightarrow> clean_after n key owner q"
  by (induction q) auto

lemma clean_after_absent: "(\<forall>k p. AcquireMsg n k p \<notin> set q) \<Longrightarrow> clean_after n key owner q"
  by (induction q) auto

lemma clean_after_snoc:
  "clean_after n key owner q \<Longrightarrow> m \<noteq> ReleaseMsg key owner \<Longrightarrow> (\<And>k p. m = AcquireMsg n k p \<Longrightarrow> k = key \<and> p = owner) \<Longrightarrow>
    clean_after n key owner (q @ [m])"
  by (induction q) auto

lemma phase_ok_cong:
  "cl_queue c' = cl_queue c \<Longrightarrow> cl_table c' = cl_table c \<Longrightarrow> cl_granted c' = cl_granted c \<Longrightarrow> cl_next c' = cl_next c \<Longrightarrow>
    phase_ok holder c' key owner x ph = phase_ok holder c key owner x ph"
  by (cases "(holder, c, key, owner, x, ph)" rule: phase_ok.cases) (simp_all add: owned_def)

lemma cluster_invD:
  assumes "cluster_inv holder c"
  shows "numbers_ok c" "local_exclusive (cl_tasks c)"
    "h \<in> set (cl_tasks c) \<Longrightarrow> phase_ok holder c (lh_key h) (lh_owner h) (lh_expired h) (lh_phase h)"
  using assms by (simp_all add: cluster_inv_def)

lemma local_exclusiveD:
  assumes "local_exclusive ts" "i < length ts" "j < length ts" "has_local_guard (lh_phase (ts ! i))"
    "has_local_guard (lh_phase (ts ! j))" "lh_owner (ts ! i) = lh_owner (ts ! j)" "lh_key (ts ! i) = lh_key (ts ! j)"
  shows "i = j"
  using assms unfolding local_exclusive_def by blast

text \<open>A task may change its phase when it keeps its local lock, gives it up, or takes a free one.\<close>

lemma local_exclusive_update:
  assumes "local_exclusive ts" "i < length ts"
    "has_local_guard ph \<Longrightarrow> has_local_guard (lh_phase (ts ! i)) \<or>
       list_all (\<lambda>h. has_local_guard (lh_phase h) \<longrightarrow> lh_owner h \<noteq> lh_owner (ts ! i) \<or> lh_key h \<noteq> lh_key (ts ! i)) ts"
  shows "local_exclusive (ts[i := (ts ! i)\<lparr>lh_phase := ph\<rparr>])"
proof -
  have other: "j = i" if "has_local_guard ph" "j < length ts" "has_local_guard (lh_phase (ts ! j))"
      "lh_owner (ts ! j) = lh_owner (ts ! i)" "lh_key (ts ! j) = lh_key (ts ! i)" for j
    using assms(3) [OF that(1)] local_exclusiveD [OF assms(1) that(2) assms(2)] that(2-5)
    by (auto simp: list_all_iff)
  show ?thesis
    unfolding local_exclusive_def
  proof (intro allI impI)
    fix j k
    let ?ts = "ts[i := (ts ! i)\<lparr>lh_phase := ph\<rparr>]"
    assume a: "j < length ?ts" "k < length ?ts" "has_local_guard (lh_phase (?ts ! j))" "has_local_guard (lh_phase (?ts ! k))"
      "lh_owner (?ts ! j) = lh_owner (?ts ! k)" "lh_key (?ts ! j) = lh_key (?ts ! k)"
    show "j = k"
      using a other [of j] other [of k] local_exclusiveD [OF assms(1), of j k]
      by (cases "j = i"; cases "k = i") simp_all
  qed
qed

lemma local_exclusive_snoc:
  assumes "local_exclusive ts" "\<not> has_local_guard (lh_phase h)"
  shows "local_exclusive (ts @ [h])"
  unfolding local_exclusive_def
proof (intro allI impI)
  fix i j
  assume a: "i < length (ts @ [h])" "j < length (ts @ [h])" "has_local_guard (lh_phase ((ts @ [h]) ! i))"
    "has_local_guard (lh_phase ((ts @ [h]) ! j))" "lh_owner ((ts @ [h]) ! i) = lh_owner ((ts @ [h]) ! j)"
    "lh_key ((ts @ [h]) ! i) = lh_key ((ts @ [h]) ! j)"
  have "i < length ts" "j < length ts" using a(1-4) assms(2) by (auto simp: nth_append not_less split: if_splits)
  then show "i = j" using a(3-6) local_exclusiveD [OF assms(1), of i j] by (simp add: nth_append)
qed

lemma set_phase_queue:
  "set_phase i ph (c\<lparr>cl_queue := q, cl_next := n\<rparr>) = (set_phase i ph c)\<lparr>cl_queue := q, cl_next := n\<rparr>"
  by (cases c) (simp add: set_phase_def)

lemma set_phase_inv:
  assumes "cluster_inv holder c" "i < length (cl_tasks c)"
    "phase_ok holder c (lh_key (cl_tasks c ! i)) (lh_owner (cl_tasks c ! i)) (lh_expired (cl_tasks c ! i)) ph"
    "has_local_guard ph \<Longrightarrow> has_local_guard (lh_phase (cl_tasks c ! i)) \<or>
       local_free c (lh_owner (cl_tasks c ! i)) (lh_key (cl_tasks c ! i))"
  shows "cluster_inv holder (set_phase i ph c)"
proof -
  have "local_exclusive (cl_tasks (set_phase i ph c))"
    using local_exclusive_update [OF cluster_invD(2) [OF assms(1)] assms(2), of ph] assms(4)
    by (simp add: set_phase_def local_free_def)
  moreover have "numbers_ok (set_phase i ph c)" using cluster_invD(1) [OF assms(1)] by (simp add: set_phase_def numbers_ok_def)
  moreover have "phase_ok holder c (lh_key h) (lh_owner h) (lh_expired h) (lh_phase h)" if h: "h \<in> set (cl_tasks (set_phase i ph c))" for h
  proof -
    have "h = (cl_tasks c ! i)\<lparr>lh_phase := ph\<rparr> \<or> h \<in> set (cl_tasks c)"
      using h set_update_subset_insert by (fastforce simp: set_phase_def)
    then show ?thesis using assms(3) cluster_invD(3) [OF assms(1)] by auto
  qed
  moreover have "phase_ok holder (set_phase i ph c) key owner x p = phase_ok holder c key owner x p" for key owner x p
    by (rule phase_ok_cong) (simp_all add: set_phase_def)
  ultimately show ?thesis by (simp add: cluster_inv_def)
qed

text \<open>Sending.\<close>

lemma send_acquire_inv:
  assumes inv: "cluster_inv holder c"
  shows "cluster_inv holder (c\<lparr>cl_queue := sending sent (cl_queue c) (AcquireMsg (cl_next c) k p), cl_next := Suc (cl_next c)\<rparr>)"
    (is "cluster_inv holder ?c")
proof -
  have "phase_ok holder ?c key owner x ph" if "phase_ok holder c key owner x ph" for key owner x ph
    using that by (cases "(holder, c, key, owner, x, ph)" rule: phase_ok.cases) (auto simp: owned_def sending_def intro!: clean_after_snoc)
  moreover have "numbers_ok ?c"
    using cluster_invD(1) [OF inv] unfolding numbers_ok_def by (auto simp: sending_def less_Suc_eq)
  ultimately show ?thesis using inv by (simp add: cluster_inv_def)
qed

lemma send_release_inv:
  assumes inv: "cluster_inv holder c"
    and free: "\<And>h. h \<in> set (cl_tasks c) \<Longrightarrow> lh_key h = k \<Longrightarrow> lh_owner h = p \<Longrightarrow> lh_phase h \<noteq> Held \<and> (\<forall>n. lh_phase h \<noteq> Trying (Some n))"
  shows "cluster_inv holder (c\<lparr>cl_queue := sending sent (cl_queue c) (ReleaseMsg k p)\<rparr>)" (is "cluster_inv holder ?c")
proof -
  have "phase_ok holder ?c (lh_key h) (lh_owner h) (lh_expired h) (lh_phase h)" if h: "h \<in> set (cl_tasks c)" for h
  proof (cases "lh_key h = k \<and> lh_owner h = p")
    case True
    then have "lh_phase h \<noteq> Held" "\<forall>n. lh_phase h \<noteq> Trying (Some n)" using free [OF h] by auto
    then show ?thesis by (cases "(holder, ?c, lh_key h, lh_owner h, lh_expired h, lh_phase h)" rule: phase_ok.cases) auto
  next
    case False
    then show ?thesis using cluster_invD(3) [OF inv h]
      by (cases "(holder, c, lh_key h, lh_owner h, lh_expired h, lh_phase h)" rule: phase_ok.cases)
        (auto simp: owned_def sending_def intro!: clean_after_snoc)
  qed
  then show ?thesis using inv by (auto simp: cluster_inv_def numbers_ok_def sending_def)
qed

text \<open>Serving.\<close>

lemma acquire_keeps:
  "service_ok acq rel expire holder \<Longrightarrow> acq key owner tab = (tab', ok) \<Longrightarrow> holder tab k = Some p \<Longrightarrow> holder tab' k = Some p"
  unfolding service_ok_def by (cases "k = key"; cases ok) fastforce+

lemma acquire_grants: "service_ok acq rel expire holder \<Longrightarrow> acq key owner tab = (tab', True) \<Longrightarrow> holder tab' key = Some owner"
  unfolding service_ok_def by blast

lemma release_keeps:
  "service_ok acq rel expire holder \<Longrightarrow> holder tab k = Some p \<Longrightarrow> (k, p) \<noteq> (key, owner) \<Longrightarrow> holder (rel key owner tab) k = Some p"
  unfolding service_ok_def by (cases "k = key") auto

lemma drop_head_inv:
  assumes inv: "cluster_inv holder c" and q: "cl_queue c = m # q"
    and keeps: "\<And>k p. owned holder k p c \<Longrightarrow> holder tab k = Some p"
    and granted: "\<And>n. n \<in> set granted \<Longrightarrow> n \<notin> set (cl_granted c) \<Longrightarrow>
      \<exists>k p. m = AcquireMsg n k p \<and> holder tab k = Some p"
  shows "cluster_inv holder (c\<lparr>cl_queue := q, cl_table := tab, cl_granted := granted\<rparr>)" (is "cluster_inv holder ?c")
proof -
  have own: "owned holder k p ?c" if "owned holder k p c" for k p
    using that keeps [OF that] by (simp add: owned_def q)
  have "phase_ok holder ?c key owner x ph" if ok: "phase_ok holder c key owner x ph" for key owner x ph
  proof (cases "\<exists>n. ph = Trying (Some n)")
    case True
    then obtain n where n: "ph = Trying (Some n)" by blast
    have clean: "clean_after n key owner (m # q)" using ok unfolding n q [symmetric] phase_ok.simps by blast
    have "owned holder key owner ?c" if g: "n \<in> set granted" "\<not> x"
    proof (cases "n \<in> set (cl_granted c)")
      case True
      then show ?thesis using ok own g(2) by (simp add: n)
    next
      case False
      then obtain k p where "m = AcquireMsg n k p" "holder tab k = Some p" using granted [OF g(1)] by blast
      then show ?thesis using clean by (simp add: owned_def)
    qed
    then show ?thesis using ok clean by (simp add: n)
  next
    case False
    then show ?thesis using ok own by (cases "(holder, c, key, owner, x, ph)" rule: phase_ok.cases) simp_all
  qed
  moreover have "numbers_ok ?c"
  proof -
    have "n < cl_next c" if "n \<in> set granted" for n
      using that granted [OF that] cluster_invD(1) [OF inv] unfolding numbers_ok_def q by (cases "n \<in> set (cl_granted c)") auto
    moreover have "n < cl_next c" if "AcquireMsg n k p \<in> set q" for n k p
      using that cluster_invD(1) [OF inv] unfolding numbers_ok_def q by auto
    ultimately show ?thesis by (auto simp: numbers_ok_def)
  qed
  ultimately show ?thesis using inv by (simp add: cluster_inv_def)
qed

lemma release_step_inv:
  assumes inv: "cluster_inv holder c" and i: "i < length (cl_tasks c)" and g: "has_local_guard (lh_phase (cl_tasks c ! i))"
  shows "cluster_inv holder ((set_phase i (Releasing a) c)
    \<lparr>cl_queue := sending sent (cl_queue c) (ReleaseMsg (lh_key (cl_tasks c ! i)) (lh_owner (cl_tasks c ! i)))\<rparr>)"
proof -
  let ?c = "set_phase i (Releasing a) c"
  have c: "cluster_inv holder ?c" by (rule set_phase_inv [OF inv i]) (simp_all add: g)
  have "lh_phase h \<noteq> Held \<and> (\<forall>n. lh_phase h \<noteq> Trying (Some n))"
    if h: "h \<in> set (cl_tasks ?c)" "lh_key h = lh_key (cl_tasks c ! i)" "lh_owner h = lh_owner (cl_tasks c ! i)" for h
  proof -
    obtain j where j: "j < length (cl_tasks ?c)" "h = cl_tasks ?c ! j" using h(1) by (metis in_set_conv_nth)
    show ?thesis
    proof (cases "j = i")
      case True
      then have "lh_phase h = Releasing a" using j i by (simp add: set_phase_def)
      then show ?thesis by simp
    next
      case False
      then have hj: "h = cl_tasks c ! j" and jl: "j < length (cl_tasks c)" using j by (simp_all add: set_phase_def)
      have "\<not> has_local_guard (lh_phase (cl_tasks c ! j))"
        using local_exclusiveD [OF cluster_invD(2) [OF inv] jl i _ g] h(2,3) False unfolding hj by blast
      then show ?thesis unfolding hj by (cases "lh_phase (cl_tasks c ! j)") simp_all
    qed
  qed
  from send_release_inv [OF c this] show ?thesis by (simp add: set_phase_def)
qed

text \<open>A new request clears the mark of an expired lock; a lock that expires marks the task that has it.\<close>

lemma local_exclusive_cong:
  assumes "length ts = length us" "\<And>i. i < length us \<Longrightarrow>
    lh_phase (ts ! i) = lh_phase (us ! i) \<and> lh_key (ts ! i) = lh_key (us ! i) \<and> lh_owner (ts ! i) = lh_owner (us ! i)"
  shows "local_exclusive ts \<longleftrightarrow> local_exclusive us"
  using assms by (simp add: local_exclusive_def)

lemma renew_inv:
  assumes "cluster_inv holder c" "i < length (cl_tasks c)" "lh_phase (cl_tasks c ! i) = Trying None"
  shows "cluster_inv holder (renew i c)"
proof -
  have "local_exclusive (cl_tasks (renew i c))"
    using cluster_invD(2) [OF assms(1)]
    by (subst local_exclusive_cong [of _ "cl_tasks c"]) (auto simp: renew_def nth_list_update assms(2))
  moreover have "numbers_ok (renew i c)" using cluster_invD(1) [OF assms(1)] by (simp add: renew_def numbers_ok_def)
  moreover have "phase_ok holder c (lh_key h) (lh_owner h) (lh_expired h) (lh_phase h)" if h: "h \<in> set (cl_tasks (renew i c))" for h
  proof -
    have "h = (cl_tasks c ! i)\<lparr>lh_expired := False\<rparr> \<or> h \<in> set (cl_tasks c)"
      using h set_update_subset_insert by (fastforce simp: renew_def)
    then show ?thesis using assms(3) cluster_invD(3) [OF assms(1)] by auto
  qed
  moreover have "phase_ok holder (renew i c) key owner x p = phase_ok holder c key owner x p" for key owner x p
    by (rule phase_ok_cong) (simp_all add: renew_def)
  ultimately show ?thesis by (simp add: cluster_inv_def)
qed

lemma expire_inv:
  assumes inv: "cluster_inv holder c" and law: "service_ok acq rel expire holder" and key: "holder (cl_table c) key = Some owner"
  shows "cluster_inv holder (c\<lparr>cl_table := expire key (cl_table c), cl_tasks := expire_tasks key owner c\<rparr>)" (is "cluster_inv holder ?c")
proof -
  have other: "holder (expire key (cl_table c)) k = holder (cl_table c) k" if "k \<noteq> key" for k
    using law that unfolding service_ok_def by blast
  have own: "owned holder k p ?c" if "owned holder k p c" "(k, p) \<noteq> (key, owner)" for k p
    using that key other [of k] by (cases "k = key") (auto simp: owned_def)
  have "local_exclusive (cl_tasks ?c)"
    using cluster_invD(2) [OF inv] by (subst local_exclusive_cong [of _ "cl_tasks c"]) (simp_all add: expire_tasks_def)
  moreover have "numbers_ok ?c" using cluster_invD(1) [OF inv] by (simp add: numbers_ok_def)
  moreover have "phase_ok holder ?c (lh_key h) (lh_owner h) (lh_expired h) (lh_phase h)" if h: "h \<in> set (cl_tasks ?c)" for h
  proof -
    obtain g where g: "g \<in> set (cl_tasks c)"
      "h = (if lh_key g = key \<and> lh_owner g = owner \<and> got_lock (cl_granted c) (lh_phase g) then g\<lparr>lh_expired := True\<rparr> else g)"
      using h by (auto simp: expire_tasks_def)
    show ?thesis
      using cluster_invD(3) [OF inv g(1)] own [of "lh_key g" "lh_owner g"] unfolding g(2)
      by (cases "(holder, c, lh_key g, lh_owner g, lh_expired g, lh_phase g)" rule: phase_ok.cases) auto
  qed
  ultimately show ?thesis by (simp add: cluster_inv_def)
qed

lemma cluster_step_inv:
  assumes "service_ok acq rel expire holder" "cluster_step acq rel expire holder c c'" "cluster_inv holder c"
  shows "cluster_inv holder c'"
  using assms(2)
proof cases
  case (cs_begin owner key)
  have "phase_ok holder c' k p x ph = phase_ok holder c k p x ph" for k p x ph
    by (rule phase_ok_cong) (simp_all add: cs_begin)
  moreover have "local_exclusive (cl_tasks c')" unfolding cs_begin using local_exclusive_snoc [OF cluster_invD(2) [OF assms(3)]] by simp
  moreover have "numbers_ok c'" using cluster_invD(1) [OF assms(3)] by (simp add: cs_begin numbers_ok_def)
  ultimately show ?thesis using assms(3) by (simp add: cluster_inv_def cs_begin)
next
  case (cs_local i)
  then show ?thesis using set_phase_inv [OF assms(3), of i "Trying None"] by simp
next
  case (cs_request i sent)
  let ?k = "lh_key (cl_tasks c ! i)" and ?p = "lh_owner (cl_tasks c ! i)"
  let ?r = "renew i c"
  have inv: "cluster_inv holder ?r" by (rule renew_inv [OF assms(3)]) (use cs_request in auto)
  let ?d = "?r\<lparr>cl_queue := sending sent (cl_queue c) (AcquireMsg (cl_next c) ?k ?p), cl_next := Suc (cl_next c)\<rparr>"
  have same: "cl_queue ?r = cl_queue c" "cl_next ?r = cl_next c" by (simp_all add: renew_def)
  have "clean_after (cl_next c) ?k ?p (cl_queue c)"
    using cluster_invD(1) [OF assms(3)] by (intro clean_after_absent) (auto simp: numbers_ok_def)
  then have "clean_after (cl_next c) ?k ?p (cl_queue ?d)" by (auto simp: sending_def intro!: clean_after_snoc)
  moreover have "cl_next c \<notin> set (cl_granted c)" using cluster_invD(1) [OF assms(3)] by (auto simp: numbers_ok_def)
  ultimately have "phase_ok holder ?d ?k ?p (lh_expired (cl_tasks ?d ! i)) (Trying (Some (cl_next c)))" by (simp add: renew_def)
  moreover have "lh_key (cl_tasks ?d ! i) = ?k" "lh_owner (cl_tasks ?d ! i) = ?p" "lh_phase (cl_tasks ?d ! i) = Trying None"
    "i < length (cl_tasks ?d)"
    using cs_request by (simp_all add: renew_def)
  ultimately have "cluster_inv holder (set_phase i (Trying (Some (cl_next c))) ?d)"
    using send_acquire_inv [OF inv, unfolded same] by (intro set_phase_inv) simp_all
  then show ?thesis using cs_request(1) by (simp only: set_phase_queue)
next
  case (cs_lock_expires key owner)
  then show ?thesis using expire_inv [OF assms(3) assms(1) cs_lock_expires(2)] by simp
next
  case (cs_serve_acquire n key owner q tab ok)
  have "cluster_inv holder (c\<lparr>cl_queue := q, cl_table := tab, cl_granted := (if ok then n # cl_granted c else cl_granted c)\<rparr>)"
  proof (rule drop_head_inv [OF assms(3) cs_serve_acquire(2)])
    show "holder tab k = Some p" if "owned holder k p c" for k p
      using acquire_keeps [OF assms(1) cs_serve_acquire(3)] that by (simp add: owned_def)
    show "\<exists>k p. AcquireMsg n key owner = AcquireMsg n' k p \<and> holder tab k = Some p"
      if "n' \<in> set (if ok then n # cl_granted c else cl_granted c)" "n' \<notin> set (cl_granted c)" for n'
      using that acquire_grants [OF assms(1), of key owner "cl_table c" tab] cs_serve_acquire(3) by (auto split: if_splits)
  qed
  then show ?thesis using cs_serve_acquire(1) by simp
next
  case (cs_serve_release key owner q)
  have "cluster_inv holder (c\<lparr>cl_queue := q, cl_table := rel key owner (cl_table c), cl_granted := cl_granted c\<rparr>)"
  proof (rule drop_head_inv [OF assms(3) cs_serve_release(2)])
    show "holder (rel key owner (cl_table c)) k = Some p" if "owned holder k p c" for k p
      using that release_keeps [OF assms(1)] cs_serve_release(2) by (auto simp: owned_def)
  qed simp
  then show ?thesis using cs_serve_release(1) by simp
next
  case (cs_expired m q)
  have "cluster_inv holder (c\<lparr>cl_queue := q, cl_table := cl_table c, cl_granted := cl_granted c\<rparr>)"
    by (rule drop_head_inv [OF assms(3) cs_expired(2)]) (simp_all add: owned_def)
  then show ?thesis using cs_expired(1) by simp
next
  case (cs_granted i n)
  have "cl_tasks c ! i \<in> set (cl_tasks c)" using cs_granted by simp
  from cluster_invD(3) [OF assms(3) this] show ?thesis
    using cs_granted set_phase_inv [OF assms(3), of i Held] by simp
next
  case (cs_retry i n)
  then show ?thesis using set_phase_inv [OF assms(3), of i "Trying None"] by simp
next
  case (cs_give_up i call)
  then show ?thesis using set_phase_inv [OF assms(3), of i Done] by simp
next
  case (cs_release i sent)
  then show ?thesis using release_step_inv [OF assms(3), where i = i and a = 1 and sent = sent] by simp
next
  case (cs_release_again i a sent)
  then show ?thesis using release_step_inv [OF assms(3), where i = i and a = "Suc a" and sent = sent] by simp
next
  case (cs_released i a)
  then show ?thesis using set_phase_inv [OF assms(3), of i Done] by simp
qed

lemma cluster_inv_reachable:
  "(cluster_step acq rel expire holder)\<^sup>*\<^sup>* (cluster_new tab) c \<Longrightarrow> service_ok acq rel expire holder \<Longrightarrow> cluster_inv holder c"
proof (induction rule: rtranclp_induct)
  case base
  show ?case by (simp add: cluster_inv_def cluster_new_def numbers_ok_def local_exclusive_def)
qed (rule cluster_step_inv)

section \<open>A service\<close>

definition table_acquire :: "string \<Rightarrow> string \<Rightarrow> (string, string) hash_map \<Rightarrow> (string, string) hash_map \<times> bool" where
  "table_acquire key owner tab =
     (case map_of tab key of None \<Rightarrow> (AList.update key owner tab, True) | Some o' \<Rightarrow> (tab, o' = owner))"

definition table_release :: "string \<Rightarrow> string \<Rightarrow> (string, string) hash_map \<Rightarrow> (string, string) hash_map" where
  "table_release key owner tab = (if map_of tab key = Some owner then AList.delete key tab else tab)"

definition table_expire :: "string \<Rightarrow> (string, string) hash_map \<Rightarrow> (string, string) hash_map" where
  "table_expire key tab = AList.delete key tab"

lemma table_service_ok: "service_ok table_acquire table_release table_expire map_of"
  by (auto simp: service_ok_def table_acquire_def table_release_def table_expire_def update_conv delete_conv split: option.splits)

text \<open>Two processes ask for a lock; the request of the first was served.\<close>

definition two_processes :: "(string, string) hash_map cluster" where
  "two_processes =
     \<lparr>cl_tasks = [\<lparr>lh_owner = ''a'', lh_key = ''doc-1'', lh_phase = Held, lh_expired = False\<rparr>,
                  \<lparr>lh_owner = ''b'', lh_key = ''doc-1'', lh_phase = Trying (Some 1), lh_expired = False\<rparr>],
      cl_queue = [AcquireMsg 1 ''doc-1'' ''b''], cl_table = [(''doc-1'', ''a'')], cl_granted = [0], cl_next = 2\<rparr>"

section \<open>Exclusion in a cluster\<close>

text \<open>C16: in every interleaving of tasks of any number of processes with the lock service, with requests and releases
  that fail, time out, are repeated or expire on their way, and with locks that expire at the service at any time: of
  the tasks that hold a lock that has not expired there is only one in the cluster, and the service has the
  lock recorded for its process. Two tasks of one process never hold the same lock, expired or not. (When a lock has
  expired, a task of another process may get it while its holder goes on: \<open>expired_lock_held_twice\<close>.)\<close>

theorem cluster_locks_exclude:
  assumes "service_ok acq rel expire holder" "(cluster_step acq rel expire holder)\<^sup>*\<^sup>* (cluster_new tab) c"
    "task_in c i Held" "task_in c j Held" "lh_key (cl_tasks c ! j) = lh_key (cl_tasks c ! i)"
  shows "(\<not> lh_expired (cl_tasks c ! i) \<longrightarrow> holder (cl_table c) (lh_key (cl_tasks c ! i)) = Some (lh_owner (cl_tasks c ! i))) \<and>
    (\<not> lh_expired (cl_tasks c ! i) \<and> \<not> lh_expired (cl_tasks c ! j) \<longrightarrow> j = i) \<and>
    (lh_owner (cl_tasks c ! j) = lh_owner (cl_tasks c ! i) \<longrightarrow> j = i)"
proof -
  have inv: "cluster_inv holder c" using cluster_inv_reachable [OF assms(2,1)] .
  have own: "holder (cl_table c) (lh_key (cl_tasks c ! k)) = Some (lh_owner (cl_tasks c ! k))"
    if "task_in c k Held" "\<not> lh_expired (cl_tasks c ! k)" for k
    using cluster_invD(3) [OF inv, of "cl_tasks c ! k"] that by (simp add: owned_def)
  have same: "j = i" if "lh_owner (cl_tasks c ! j) = lh_owner (cl_tasks c ! i)"
    using local_exclusiveD [OF cluster_invD(2) [OF inv], of j i] that assms(3-5) by simp
  then show ?thesis using own [OF assms(3)] own [OF assms(4)] assms(5) by auto
qed

lemma two_processes_reachable: "(cluster_step table_acquire table_release table_expire map_of)\<^sup>*\<^sup>* (cluster_new []) two_processes"
proof -
  let ?step = "cluster_step table_acquire table_release table_expire map_of"
  let ?task = "\<lambda>owner ph. \<lparr>lh_owner = owner, lh_key = ''doc-1'', lh_phase = ph, lh_expired = False\<rparr>"
  let ?st = "\<lambda>ts q tab g n. \<lparr>cl_tasks = ts, cl_queue = q, cl_table = tab, cl_granted = g, cl_next = n\<rparr>"
  have "?step (cluster_new []) (?st [?task ''a'' WaitingLocal] [] [] [] 0)"
    using cs_begin [where acq = table_acquire and rel = table_release and expire = table_expire and holder = map_of and c = "cluster_new []" and owner = "''a''" and key = "''doc-1''"] by (simp add: cluster_new_def)
  moreover have "?step (?st [?task ''a'' WaitingLocal] [] [] [] 0)
      (?st [?task ''a'' WaitingLocal, ?task ''b'' WaitingLocal] [] [] [] 0)"
    using cs_begin [where acq = table_acquire and rel = table_release and expire = table_expire and holder = map_of and c = "?st [?task ''a'' WaitingLocal] [] [] [] 0" and owner = "''b''" and key = "''doc-1''"] by simp
  moreover have "?step (?st [?task ''a'' WaitingLocal, ?task ''b'' WaitingLocal] [] [] [] 0)
      (?st [?task ''a'' (Trying None), ?task ''b'' WaitingLocal] [] [] [] 0)"
    using cs_local [where acq = table_acquire and rel = table_release and expire = table_expire and holder = map_of and c = "?st [?task ''a'' WaitingLocal, ?task ''b'' WaitingLocal] [] [] [] 0" and i = 0]
    by (simp add: set_phase_def local_free_def)
  moreover have "?step (?st [?task ''a'' (Trying None), ?task ''b'' WaitingLocal] [] [] [] 0)
      (?st [?task ''a'' (Trying None), ?task ''b'' (Trying None)] [] [] [] 0)"
    using cs_local [where acq = table_acquire and rel = table_release and expire = table_expire and holder = map_of and c = "?st [?task ''a'' (Trying None), ?task ''b'' WaitingLocal] [] [] [] 0" and i = 1]
    by (simp add: set_phase_def local_free_def)
  moreover have "?step (?st [?task ''a'' (Trying None), ?task ''b'' (Trying None)] [] [] [] 0)
      (?st [?task ''a'' (Trying (Some 0)), ?task ''b'' (Trying None)] [AcquireMsg 0 ''doc-1'' ''a''] [] [] 1)"
    using cs_request [where acq = table_acquire and rel = table_release and expire = table_expire and holder = map_of and c = "?st [?task ''a'' (Trying None), ?task ''b'' (Trying None)] [] [] [] 0" and i = 0 and sent = True]
    by (simp add: set_phase_def renew_def sending_def)
  moreover have "?step (?st [?task ''a'' (Trying (Some 0)), ?task ''b'' (Trying None)] [AcquireMsg 0 ''doc-1'' ''a''] [] [] 1)
      (?st [?task ''a'' (Trying (Some 0)), ?task ''b'' (Trying (Some 1))]
        [AcquireMsg 0 ''doc-1'' ''a'', AcquireMsg 1 ''doc-1'' ''b''] [] [] 2)"
    using cs_request [where acq = table_acquire and rel = table_release and expire = table_expire and holder = map_of and c = "?st [?task ''a'' (Trying (Some 0)), ?task ''b'' (Trying None)] [AcquireMsg 0 ''doc-1'' ''a''] [] [] 1" and i = 1 and sent = True]
    by (simp add: set_phase_def renew_def sending_def numeral_2_eq_2)
  moreover have "?step (?st [?task ''a'' (Trying (Some 0)), ?task ''b'' (Trying (Some 1))]
        [AcquireMsg 0 ''doc-1'' ''a'', AcquireMsg 1 ''doc-1'' ''b''] [] [] 2)
      (?st [?task ''a'' (Trying (Some 0)), ?task ''b'' (Trying (Some 1))] [AcquireMsg 1 ''doc-1'' ''b''] [(''doc-1'', ''a'')] [0] 2)"
    using cs_serve_acquire [where acq = table_acquire and rel = table_release and expire = table_expire and holder = map_of and n = 0 and c = "?st [?task ''a'' (Trying (Some 0)), ?task ''b'' (Trying (Some 1))]
        [AcquireMsg 0 ''doc-1'' ''a'', AcquireMsg 1 ''doc-1'' ''b''] [] [] 2" and key = "''doc-1''" and owner = "''a''" and q = "[AcquireMsg 1 ''doc-1'' ''b'']" and tab = "[(''doc-1'', ''a'')]" and ok = True]
    by (simp add: table_acquire_def)
  moreover have "?step (?st [?task ''a'' (Trying (Some 0)), ?task ''b'' (Trying (Some 1))] [AcquireMsg 1 ''doc-1'' ''b'']
        [(''doc-1'', ''a'')] [0] 2) two_processes"
    using cs_granted [where acq = table_acquire and rel = table_release and expire = table_expire and holder = map_of and c = "?st [?task ''a'' (Trying (Some 0)), ?task ''b'' (Trying (Some 1))] [AcquireMsg 1 ''doc-1'' ''b'']
        [(''doc-1'', ''a'')] [0] 2" and i = 0 and n = 0]
    by (simp add: set_phase_def two_processes_def)
  ultimately show ?thesis by (meson converse_rtranclp_into_rtranclp rtranclp.rtrancl_refl)
qed

theorem cluster_locks_exclude_witness:
  "map_of (cl_table two_processes) ''doc-1'' = Some ''a''"
proof -
  have held: "task_in two_processes 0 Held" by (simp add: two_processes_def)
  have "lh_key (cl_tasks two_processes ! 0) = ''doc-1''" "lh_owner (cl_tasks two_processes ! 0) = ''a''"
    "\<not> lh_expired (cl_tasks two_processes ! 0)"
    by (simp_all add: two_processes_def)
  then show ?thesis using cluster_locks_exclude [OF table_service_ok two_processes_reachable held held] by simp
qed

text \<open>
  A lock that expires while it is held can be held twice: the service grants it to the task of another
  process, and the first task still holds its guard.
\<close>

theorem expired_lock_held_twice:
  "\<exists>c. (cluster_step table_acquire table_release table_expire map_of)\<^sup>*\<^sup>* (cluster_new []) c \<and>
     task_in c 0 Held \<and> task_in c 1 Held \<and> lh_key (cl_tasks c ! 0) = lh_key (cl_tasks c ! 1)"
proof -
  let ?step = "cluster_step table_acquire table_release table_expire map_of"
  let ?a = "\<lparr>lh_owner = ''a'', lh_key = ''doc-1'', lh_phase = Held, lh_expired = True\<rparr>"
  let ?b = "\<lambda>ph. \<lparr>lh_owner = ''b'', lh_key = ''doc-1'', lh_phase = ph, lh_expired = False\<rparr>"
  let ?st = "\<lambda>ts q tab g. \<lparr>cl_tasks = ts, cl_queue = q, cl_table = tab, cl_granted = g, cl_next = 2\<rparr>"
  have 1: "?step two_processes (?st [?a, ?b (Trying (Some 1))] [AcquireMsg 1 ''doc-1'' ''b''] [] [0])"
    using cs_lock_expires [where acq = table_acquire and rel = table_release and expire = table_expire and holder = map_of
        and c = two_processes and key = "''doc-1''" and owner = "''a''"]
    by (simp add: two_processes_def expire_tasks_def table_expire_def)
  have 2: "?step (?st [?a, ?b (Trying (Some 1))] [AcquireMsg 1 ''doc-1'' ''b''] [] [0])
      (?st [?a, ?b (Trying (Some 1))] [] [(''doc-1'', ''b'')] [1, 0])"
    using cs_serve_acquire [where acq = table_acquire and rel = table_release and expire = table_expire and holder = map_of
        and c = "?st [?a, ?b (Trying (Some 1))] [AcquireMsg 1 ''doc-1'' ''b''] [] [0]" and n = 1 and key = "''doc-1''"
        and owner = "''b''" and q = "[]" and tab = "[(''doc-1'', ''b'')]" and ok = True]
    by (simp add: table_acquire_def)
  have 3: "?step (?st [?a, ?b (Trying (Some 1))] [] [(''doc-1'', ''b'')] [1, 0]) (?st [?a, ?b Held] [] [(''doc-1'', ''b'')] [1, 0])"
    using cs_granted [where acq = table_acquire and rel = table_release and expire = table_expire and holder = map_of
        and c = "?st [?a, ?b (Trying (Some 1))] [] [(''doc-1'', ''b'')] [1, 0]" and i = 1 and n = 1]
    by (simp add: set_phase_def)
  have "?step\<^sup>*\<^sup>* (cluster_new []) (?st [?a, ?b Held] [] [(''doc-1'', ''b'')] [1, 0])"
    using two_processes_reachable 1 2 3 by (meson rtranclp.rtrancl_into_rtrancl)
  then show ?thesis by (intro exI [of _ "?st [?a, ?b Held] [] [(''doc-1'', ''b'')] [1, 0]"] conjI) simp_all
qed

end
