(* ===== verification/Spec2Isabelle.thy ===== *)
theory Spec2Isabelle
  imports Auth Search_Join Metrics Locks Validation Query_Vectors Collection_Stats Settings_Key Search_Pipeline Document_Ingress Document_Reader Bunny_Talk Model_Vectors Api_Metrics Lock_Cluster
begin

text \<open>
  A verification library for amgix-now, a search service written in Rust: documents are uploaded, turned into dense and
  sparse vectors and stored in a Qdrant database; a search turns its query into vectors, asks the database once for each
  vector (an arm), fuses the ranked lists and returns documents, with groups, facets and joins to other collections.

  \<^bold>\<open>The parts and how they work together.\<close> An HTTP request passes the authentication (\<open>src/src/auth.rs\<close>), is validated
  (\<open>src/src/validation.rs\<close>) and goes into one of the queues of the encoder (\<open>src/src/encoder.rs\<close>). Uploads, from these
  queues or from the queue collection that the poller reads (\<open>src/src/queue_poller.rs\<close>), take the locks of their
  documents (\<open>src/src/lock_client.rs\<close>), are compared with what is stored, vectorized
  (\<open>src/src/vectors/vectorizer.rs\<close>, with the tokenizers of \<open>src/src/amgix.rs\<close>) and written; their token lengths go as
  jobs to a worker that keeps the statistics of the collections, which the tokenizers use. Searches wait in micro-batches,
  are put into buckets with equal settings, and run through the configuration cache, the filter and join languages, the
  query vectorizer, \<open>search\<close> of \<open>src/src/qdrant.rs\<close>, the fusion of \<open>src/src/functions.rs\<close>, and the joins of
  \<open>src/src/search_join.rs\<close>. Counters of all this are collected by \<open>src/src/metrics.rs\<close>. Neural models are kept by the
  cache of \<open>src/src/vectors/model_cache.rs\<close>; in a cluster the processes talk through the broker client
  \<open>src/src/bunny_talk.rs\<close>. The handlers of \<open>src/src/main.rs\<close> tie the parts together, and \<open>src/src/qdrant.rs\<close> keeps
  collections, documents and the upload queue in the database.

  \<^bold>\<open>Theories.\<close> The model of a part is in the theory named here; definitions keep the names of the source.
  \<^item> \<open>Rust_Prelude\<close>: results and early returns (\<open>and_then\<close>, \<open>collect_result\<close>, \<open>try_for_each\<close>), strings as UTF-8 byte
    lists with \<open>trim\<close> and splitting, comparison functions with the locale \<open>cmp_linorder\<close> of total orders and sorting by
    them, hash maps and ordered maps as association lists. \<open>F64\<close>: IEEE 754 binary32 and binary64 with rounding to even.
  \<^item> \<open>Models\<close> (\<open>models.rs\<close>, \<open>common.rs\<close>): the data of requests, documents and configurations, JSON, conversions and
    defaults. \<open>Templates\<close> (\<open>templates.rs\<close>), \<open>Normalize\<close> (metadata normalisation of \<open>functions.rs\<close>).
  \<^item> \<open>Auth\<close> (\<open>auth.rs\<close>, route table of \<open>main.rs\<close>): keys, roles, the decision of the middleware.
  \<^item> \<open>Validation\<close> (\<open>validation.rs\<close>): every validator and coercion of requests.
  \<^item> \<open>Filter_Parser\<close>, \<open>Join_Parser\<close> (\<open>filter_parser.rs\<close>, \<open>join_parser.rs\<close> with their grammars): the grammars as parsing
    functions with fuel, and the construction of filters and joins from the parse.
  \<^item> \<open>Metadata_Filter\<close> (\<open>encoder.rs\<close>, \<open>qdrant.rs\<close>): validation of filters and their translation to database filters.
  \<^item> \<open>Tokenizer\<close> (\<open>amgix.rs\<close>), \<open>Vectorizer\<close>, \<open>Query_Vectors\<close> (\<open>vectors/\<close>): vectors of documents and of query batches.
  \<^item> \<open>Fusion\<close>, \<open>Search_Group\<close>, \<open>Search_Facet\<close>, \<open>Search\<close> (\<open>functions.rs\<close>, \<open>search_group.rs\<close>, \<open>search_facet.rs\<close>,
    \<open>qdrant.rs\<close>): the search from the arms to the result, with groups over several fetches and facets.
    \<open>Search_Join\<close> (\<open>search_join.rs\<close>): joins.
  \<^item> \<open>Config_Cache\<close>, \<open>Settings_Key\<close>, \<open>Search_Pipeline\<close> (\<open>encoder.rs\<close>, \<open>models.rs\<close>): the cache, the key of the search
    buckets, and the way of a search through queue, micro-batch and bucket.
  \<^item> \<open>Ingestion\<close>, \<open>Document_Ingress\<close>, \<open>Collection_Stats\<close> (\<open>encoder.rs\<close>, \<open>qdrant.rs\<close>): upserts and deletes on a store of
    documents, vectors, queue rows and statistics jobs; the queues in front of them; the worker for the statistics.
  \<^item> \<open>Queue_Poller\<close> (\<open>queue_poller.rs\<close>), \<open>Locks\<close>, \<open>Lock_Cluster\<close> (\<open>lock_client.rs\<close>, \<open>encoder.rs\<close>): the locks of documents,
    in a process and in a cluster. \<open>Metrics\<close> (\<open>metrics.rs\<close>).
  \<^item> \<open>Queue_Store\<close>, \<open>Collections\<close>, \<open>Document_Reader\<close> (\<open>qdrant.rs\<close>, \<open>main.rs\<close>): the rows of the upload queue with the
    poller running on them; creation, deletion and configuration of collections; reading, paging and exporting of
    documents with their vectors.
  \<^item> \<open>Http_Api\<close>, \<open>Api_Metrics\<close> (\<open>main.rs\<close>): the handlers as functions on one state of the process, with their error
    responses; what the middleware counts, and what is written of the metrics. \<open>Datetime\<close> (\<open>datetime_parse.rs\<close>): the formats of dates that are tried.
  \<^item> \<open>Model_Cache\<close>, \<open>Model_Vectors\<close> (\<open>vectors/model_cache.rs\<close>, \<open>st_pooling.rs\<close>, \<open>dense_model.rs\<close>, \<open>sparse_model.rs\<close>): the
    choice of loader and pooling, the cache with its in-flight loads as a state machine of callers, batches, and the
    tokens of a sparse vector. \<open>Bunny_Talk\<close> (\<open>bunny_talk.rs\<close>): connection attempts, messages, and remote calls with
    their replies as a state machine.

  \<^bold>\<open>How the code is modelled.\<close> State is passed explicitly as records: the store, the cache, the lock table, the report
  state, the pipeline. Errors are values of the error types of the source in a sum; a panic is \<open>None\<close> or a value of its
  own. Code of other packages is an argument with named laws: the database calls (records of answers such as
  \<open>search_env\<close>, \<open>join_env\<close>, \<open>ingest_env\<close>, \<open>poller\<close>, \<open>stats_env\<close>, \<open>pipeline_env\<close>), the models and the language detector
  (\<open>embedders\<close>, \<open>model_hub\<close>, \<open>model_runtime\<close>), hashing, stemming and stop words (\<open>text_lib\<close>), the date parser, the
  printing of numbers, and the iteration orders of hash containers, which are arbitrary permutations. Channels and timers
  are lists of events. The locks, the callers of the model cache and the remote calls are step relations;
  everything else is a function.

  \<^bold>\<open>What is shown.\<close>
  \<^item> Uploads: the newest document of an id is what is stored, and neither an upload nor a delete replaces something newer;
    of the single documents that wait, the newest goes on and everyone is answered once; bulk uploads are cut into chunks
    without loss; documents are excluded from each other by the locks, in a process and, as long as the locks do not expire
    at the service, across a cluster, and the locks make progress; acquiring a lock ends once the local lock is
    obtained; the poller settles every row once and retries boundedly.
  \<^item> Vectors: every slot of a document and every slot a query asks for gets exactly one vector; sparse vectors are
    well formed; vectorizing validated input never panics; a batch of queries gives each what it gets alone.
  \<^item> Statistics: collecting jobs into batches is not observable, and the averages stay non-negative numbers.
  \<^item> Searches: limits and groups are respected; the fusion is the ranking by the sums of weight over k plus rank, stated
    on its own; a search filter selects the points whose payload satisfies it, comparison by comparison (given the
    documented meaning of the database's conditions, and for eq and neq on whole numbers), and the filter of a join is
    applied in memory as it reads; joined children are exactly the matching ones; a search of a micro-batch gets its own
    reply when the task ends, and, without joins and model vectors, the one it would get alone; the key of the
    buckets is equality of the settings up to negative zeros.
  \<^item> Requests: what the validators accept, and what follows from acceptance (usable templates, bounded work, complete
    vectors); the filter language is read back from its printed form and the parsers end; routes have their roles.
  \<^item> The API: a refused request changes nothing; a created collection can be used and its configuration read back, without
    the query model and the case flag; a bulk upload enqueues exactly its documents and announces exactly their rows;
    requests of one collection, other than the two system collections, leave the others alone; the queue drains if the
    poller gets through again and again, and its rows stay valid; stored vectors are read back and an export ends with every document in it.
  \<^item> Models and messages: whatever the interleaving, the cache holds and returns only models loaded for their key from a
    trusted organization, within its size; a remote call returns only the reply to its own correlation id,
    and while it waits it is pending or its reply is being acknowledged.
  \<^item> Metrics: every request is counted once, under the operation of its route (with the routes that are misread
    spelled out), every recorded event is counted once and a flush loses nothing.
  Theorems without a property number are further facts, among them the deviations of the code from its comments.

  \<^bold>\<open>Bounds and fuel.\<close> The grammars have no left recursion, and every rule consumes input or descends one of four levels;
  fuel of four times the length of the input plus four is proved to be enough (\<open>parse_filter_terminates\<close>,
  \<open>into_specs_terminates\<close>), so running out is not an outcome. The loop of the export is a
  \<open>partial_function\<close> of the option type, since a server could go on giving pages; \<open>export_complete\<close> proves that it returns.
  All other functions are total, by structural recursion or a measure. Bounds that theorems ask for are those of the data types or far above what validation admits: texts below
  2^60 bytes, top_k below 2^24, counts below 2^53. Counters of 63 and 64 bits that cannot overflow in practice are
  unbounded integers; where the code casts or saturates, the model does.

  \<^bold>\<open>Not modelled.\<close> Of \<open>main.rs\<close> the start and shutdown of the process, its environment, logging and the compression of
  the export stream; the AMQP library and the declaration of queues in \<open>bunny_talk.rs\<close>; the model libraries and the tensor
  arithmetic of inference and pooling in \<open>dense_model.rs\<close>, \<open>sparse_model.rs\<close> and \<open>st_pooling.rs\<close>; the hardware report of
  \<open>metrics.rs\<close>; the derived serializers of \<open>models.rs\<close>; the spawning of tasks. All of this is input and output or calls of
  other packages. Interleavings are modelled for the locks, the lock service with the expiry of its
  locks, the model cache, remote calls and the flush of the metrics;
  elsewhere a handler runs as one step, which is what the locks provide for a document.
\<close>

end
